(* ===== verification/Prelude.thy ===== *)
theory Prelude
  imports Main "HOL-Library.Multiset" "HOL-Library.Word"
begin

text \<open>
  Shared vocabulary of the development.

  C++ pointers into arrays are lists with an index; the 1-based view that the heap routines
  take of their arrays (\<open>bh_val--; bh_ids--\<close>) is \<open>at1\<close> / \<open>put1\<close>. The signed
  identifier types \<open>idx_t\<close> (64 bits) and \<open>storage_idx_t\<close> (32 bits) are \<open>int\<close>,
  with \<open>-1\<close> as the code's "no entry" value; sizes and offsets (\<open>size_t\<close>) are \<open>nat\<close>.
\<close>

subsection \<open>Automation collections\<close>

named_theorems len_simps \<open>lengths of arrays are unchanged by in-place operations\<close>
named_theorems mset_simps \<open>multisets of array contents after in-place operations\<close>

subsection \<open>Types\<close>

type_synonym idx_t = int
type_synonym storage_idx_t = int

text \<open>
  A C++ exception (\<open>FAISS_THROW_*\<close>), a failed \<open>FAISS_ASSERT\<close>/\<open>assert\<close> and an access
  outside an array are different things in the source; the model keeps them apart.
\<close>

datatype fault =
    Throw string        \<comment> \<open>\<open>FAISS_THROW_IF_NOT\<close> and its variants\<close>
  | Assert_failed       \<comment> \<open>\<open>FAISS_ASSERT\<close>, \<open>assert\<close>\<close>
  | Out_of_bounds       \<comment> \<open>an access outside an array: undefined behaviour in C++\<close>
  | Deadlock            \<comment> \<open>\<open>omp_set_lock\<close> on a lock the thread already holds\<close>
  | Not_held            \<comment> \<open>\<open>omp_unset_lock\<close> on a lock that is not held\<close>
  | Division_by_zero    \<comment> \<open>\<open>/\<close> or \<open>%\<close> by zero on integers: undefined behaviour in C++\<close>
  | Null_pointer        \<comment> \<open>a null pointer is dereferenced: undefined behaviour in C++\<close>
  | Uninitialised       \<comment> \<open>a read of a member that no constructor sets\<close>

type_synonym 'a result = "fault + 'a"

fun bind_result :: "'a result \<Rightarrow> ('a \<Rightarrow> 'b result) \<Rightarrow> 'b result" where
  "bind_result (Inl e) f = Inl e"
| "bind_result (Inr x) f = f x"

lemma bind_result_Inr_iff:
  "bind_result m f = Inr y \<longleftrightarrow> (\<exists>x. m = Inr x \<and> f x = Inr y)"
  by (cases m) auto

lemma bind_result_Inl_iff:
  "bind_result m f = Inl e \<longleftrightarrow> m = Inl e \<or> (\<exists>x. m = Inr x \<and> f x = Inl e)"
  by (cases m) auto

subsection \<open>1-based arrays\<close>

definition at1 :: "'a list \<Rightarrow> nat \<Rightarrow> 'a" where
  "at1 xs i = xs ! (i - 1)"

definition put1 :: "'a list \<Rightarrow> nat \<Rightarrow> 'a \<Rightarrow> 'a list" where
  "put1 xs i v = xs[i - 1 := v]"

lemma length_put1 [simp, len_simps]: "length (put1 xs i v) = length xs"
  by (simp add: put1_def)

lemma at1_put1_same [simp]: "1 \<le> i \<Longrightarrow> i \<le> length xs \<Longrightarrow> at1 (put1 xs i v) i = v"
  by (auto simp: at1_def put1_def)

lemma at1_put1_other [simp]:
  "1 \<le> i \<Longrightarrow> 1 \<le> j \<Longrightarrow> i \<noteq> j \<Longrightarrow> at1 (put1 xs i v) j = at1 xs j"
  by (auto simp: at1_def put1_def nth_list_update)

lemma at1_put1: "1 \<le> i \<Longrightarrow> i \<le> length xs \<Longrightarrow> 1 \<le> j \<Longrightarrow>
    at1 (put1 xs i v) j = (if i = j then v else at1 xs j)"
  by simp

lemma put1_put1_same [simp]: "put1 (put1 xs i v) i w = put1 xs i w"
  by (simp add: put1_def)

lemma put1_swap: "1 \<le> i \<Longrightarrow> 1 \<le> j \<Longrightarrow> i \<noteq> j \<Longrightarrow>
    put1 (put1 xs i v) j w = put1 (put1 xs j w) i v"
  by (auto simp: put1_def list_update_swap)

lemma put1_at1_id [simp]: "1 \<le> i \<Longrightarrow> i \<le> length xs \<Longrightarrow> put1 xs i (at1 xs i) = xs"
  by (simp add: put1_def at1_def)

lemma mset_put1:
  "1 \<le> i \<Longrightarrow> i \<le> length xs \<Longrightarrow> mset (put1 xs i v) = add_mset v (mset xs - {#at1 xs i#})"
  by (simp add: put1_def at1_def mset_update)

text \<open>Moving an entry into the hole and opening a hole where it was is a swap.\<close>

lemma mset_move_hole:
  assumes "1 \<le> i" "i \<le> length xs" "1 \<le> j" "j \<le> length xs" "i \<noteq> j"
  shows "mset (put1 (put1 xs i (at1 xs j)) j x) = mset (put1 xs i x)"
proof -
  let ?ys = "put1 xs i x"
  have *: "put1 (put1 xs i (at1 xs j)) j x = ?ys[i - 1 := ?ys ! (j - 1), j - 1 := ?ys ! (i - 1)]"
    using assms by (auto simp: put1_def at1_def nth_list_update)
  have "j - 1 < length ?ys" "i - 1 < length ?ys" using assms by auto
  then show ?thesis unfolding * by (rule mset_swap)
qed

lemma take_put1_beyond: "k < i \<Longrightarrow> take k (put1 xs i v) = take k xs"
  by (simp add: put1_def)

lemma take_put1: "1 \<le> i \<Longrightarrow> i \<le> k \<Longrightarrow> take k (put1 xs i v) = put1 (take k xs) i v"
  by (simp add: put1_def take_update_swap)

lemma at1_take [simp]: "1 \<le> i \<Longrightarrow> i \<le> k \<Longrightarrow> at1 (take k xs) i = at1 xs i"
  by (simp add: at1_def)

lemma zip_put1:
  "length xs = length ys \<Longrightarrow> zip (put1 xs i a) (put1 ys i b) = put1 (zip xs ys) i (a, b)"
  by (simp add: put1_def update_zip)

lemma at1_zip:
  "length xs = length ys \<Longrightarrow> 1 \<le> i \<Longrightarrow> i \<le> length xs \<Longrightarrow>
     at1 (zip xs ys) i = (at1 xs i, at1 ys i)"
  by (simp add: at1_def)

lemma mset_take_cancel:
  assumes "mset xs = mset ys" "drop k xs = drop k ys"
  shows "mset (take k xs) = mset (take k ys)"
proof -
  have "mset (take k xs) + mset (drop k xs) = mset (take k ys) + mset (drop k ys)"
    using assms(1) by (metis append_take_drop_id mset_append)
  then show ?thesis using assms(2) by simp
qed

lemma drop_put1 [simp]: "1 \<le> i \<Longrightarrow> i \<le> k \<Longrightarrow> drop k (put1 xs i v) = drop k xs"
  by (simp add: put1_def)

end
