(* ===== verification/Comparators.thy ===== *)
theory Comparators
  imports Prelude
begin

text \<open>
  \<open>faiss/utils/ordered_key_value.h\<close>: the trait classes \<open>CMin\<close> and \<open>CMax\<close> that every heap,
  result handler and k-NN routine takes as template parameter. A trait class is a record of its
  static members. \<open>C::Crev\<close> is used by the code for \<open>C::Crev::neutral()\<close> and for the reversed
  comparison only, so the record holds the former and \<open>Crev\<close> maps one trait to the other.

  The value type \<open>T\<close> is any linear order, with \<open>lowest\<close> and \<open>highest\<close> standing for
  \<open>numeric_limits<T>::lowest()\<close> and \<open>max()\<close>. For \<open>T = float\<close> this leaves NaN out: with a
  NaN the C++ comparisons are not an order and nothing is claimed. The key type \<open>TI\<close> is a
  signed integer type, modelled by \<open>int\<close>.
\<close>

record 'd comparator =
  cmp :: "'d \<Rightarrow> 'd \<Rightarrow> bool"
  cmp2 :: "'d \<Rightarrow> 'd \<Rightarrow> int \<Rightarrow> int \<Rightarrow> bool"
  neutral :: 'd
  rev_neutral :: 'd

definition CMin :: "'d \<Rightarrow> 'd \<Rightarrow> ('d :: linorder) comparator" where
  "CMin lowest highest =
     \<lparr>cmp = (\<lambda>a b. a < b),
      cmp2 = (\<lambda>a1 b1 a2 b2. a1 < b1 \<or> (a1 = b1 \<and> a2 < b2)),
      neutral = lowest,
      rev_neutral = highest\<rparr>"

definition CMax :: "'d \<Rightarrow> 'd \<Rightarrow> ('d :: linorder) comparator" where
  "CMax lowest highest =
     \<lparr>cmp = (\<lambda>a b. a > b),
      cmp2 = (\<lambda>a1 b1 a2 b2. a1 > b1 \<or> (a1 = b1 \<and> a2 > b2)),
      neutral = highest,
      rev_neutral = lowest\<rparr>"

text \<open>\<open>cmp2\<close> on (value, key) pairs.\<close>

definition cmpp :: "'d comparator \<Rightarrow> 'd \<times> int \<Rightarrow> 'd \<times> int \<Rightarrow> bool" where
  "cmpp C p q = cmp2 C (fst p) (fst q) (snd p) (snd q)"

subsection \<open>What the heap routines rely on\<close>

text \<open>
  The contract of the template parameter: \<open>cmp2\<close> is a strict linear order on (value, key)
  pairs, \<open>cmp\<close> is a strict linear order on values, and \<open>cmp2\<close> refines it.
\<close>

locale heap_comparator =
  fixes C :: "'d comparator"
  assumes cmpp_irrefl: "\<not> cmpp C p p"
    and cmpp_trans: "cmpp C p q \<Longrightarrow> cmpp C q r \<Longrightarrow> cmpp C p r"
    and cmpp_total: "p \<noteq> q \<Longrightarrow> cmpp C p q \<or> cmpp C q p"
    and cmp_trans: "cmp C a b \<Longrightarrow> cmp C b c \<Longrightarrow> cmp C a c"
    and cmp_total: "a \<noteq> b \<Longrightarrow> cmp C a b \<or> cmp C b a"
    and cmpp_iff: "cmpp C p q \<longleftrightarrow> cmp C (fst p) (fst q) \<or> (fst p = fst q \<and> cmpp C p q)"
begin

lemma cmpp_asym: "cmpp C p q \<Longrightarrow> \<not> cmpp C q p"
  using cmpp_trans cmpp_irrefl by blast

lemma not_cmpp_trans: "\<not> cmpp C p q \<Longrightarrow> \<not> cmpp C q r \<Longrightarrow> \<not> cmpp C p r"
  by (metis cmpp_trans cmpp_total)

lemma cmpp_not_trans: "cmpp C p q \<Longrightarrow> \<not> cmpp C r q \<Longrightarrow> cmpp C p r"
  by (metis cmpp_trans cmpp_total)

lemma not_cmpp_le: "cmpp C p q \<Longrightarrow> \<not> cmpp C q p"
  by (rule cmpp_asym)

lemma cmp_imp_cmpp: "cmp C (fst p) (fst q) \<Longrightarrow> cmpp C p q"
  using cmpp_iff by blast

lemma cmp_irrefl: "\<not> cmp C a a"
  using cmp_imp_cmpp [of "(a, 0)" "(a, 0)"] cmpp_irrefl by auto

lemma cmp_asym: "cmp C a b \<Longrightarrow> \<not> cmp C b a"
  using cmp_trans cmp_irrefl by blast

lemma not_cmpp_fst: "\<not> cmpp C p q \<Longrightarrow> \<not> cmp C (fst p) (fst q)"
  using cmp_imp_cmpp by blast

lemma not_cmp_trans: "\<not> cmp C a b \<Longrightarrow> \<not> cmp C b c \<Longrightarrow> \<not> cmp C a c"
  by (metis cmp_trans cmp_total)

end

interpretation cmin: heap_comparator "CMin lowest highest" for lowest highest :: "'d :: linorder"
  by unfold_locales (auto simp: cmpp_def CMin_def)

interpretation cmax: heap_comparator "CMax lowest highest" for lowest highest :: "'d :: linorder"
  by unfold_locales (auto simp: cmpp_def CMax_def)

text \<open>The two instances the code uses, for statements that hold for both.\<close>

definition is_trait :: "('d :: linorder) comparator \<Rightarrow> bool" where
  "is_trait C \<longleftrightarrow> (\<exists>lowest highest. C = CMin lowest highest \<or> C = CMax lowest highest)"

lemma is_trait_CMin [simp, intro!]: "is_trait (CMin lowest highest)"
  by (auto simp: is_trait_def)

lemma is_trait_CMax [simp, intro!]: "is_trait (CMax lowest highest)"
  by (auto simp: is_trait_def)

lemma is_trait_heap_comparator: "is_trait C \<Longrightarrow> heap_comparator C"
  using cmin.heap_comparator_axioms cmax.heap_comparator_axioms
  by (auto simp: is_trait_def)

lemma CMax_sel [simp]:
  "cmp (CMax l h) a b \<longleftrightarrow> b < a"
  "cmp2 (CMax l h) a b i j \<longleftrightarrow> b < a \<or> (a = b \<and> j < i)"
  "neutral (CMax l h) = h"
  "rev_neutral (CMax l h) = l"
  by (auto simp: CMax_def)

lemma CMin_sel [simp]:
  "cmp (CMin l h) a b \<longleftrightarrow> a < b"
  "cmp2 (CMin l h) a b i j \<longleftrightarrow> a < b \<or> (a = b \<and> i < j)"
  "neutral (CMin l h) = l"
  "rev_neutral (CMin l h) = h"
  by (auto simp: CMin_def)

end
