(* ===== verification/Binary_Heap.thy ===== *)
theory Binary_Heap
  imports Comparators
begin

text \<open>
  \<open>faiss/utils/Heap.h\<close>: the binary heaps. A heap of size \<open>k\<close> lives in the first \<open>k\<close> entries
  of two parallel arrays \<open>bh_val\<close>, \<open>bh_ids\<close> (or of one array of pairs); the arrays may be
  longer. The code addresses them from 1, so the model uses \<open>at1\<close> and \<open>put1\<close>. All routines
  assume \<open>k \<le>\<close> the array length, and \<open>heap_pop\<close>, \<open>heap_push\<close>, \<open>heap_replace_top\<close>
  assume \<open>1 \<le> k\<close>.

  In the sift loops the guard \<open>i = 0\<close> never holds (indices start at 1); it is there so that
  the loop is a total function.
\<close>

section \<open>Heaps of pairs\<close>

text \<open>
  The \<open>while (1)\<close> loop shared, word for word, by \<open>heap_pop\<close> and \<open>heap_replace_top\<close>: move
  the hole at \<open>i\<close> down until \<open>(val, ident)\<close> fits. Returns the array and the position of the hole.
\<close>

function pheap_sift_down ::
    "'d comparator \<Rightarrow> nat \<Rightarrow> 'd \<Rightarrow> int \<Rightarrow> ('d \<times> int) list \<Rightarrow> nat \<Rightarrow> ('d \<times> int) list \<times> nat" where
  "pheap_sift_down C k val ident bh i =
     (let i1 = 2 * i; i2 = i1 + 1 in
      if i1 > k \<or> i = 0 then (bh, i)
      else if i2 = k + 1 \<or>
              cmp2 C (fst (at1 bh i1)) (fst (at1 bh i2)) (snd (at1 bh i1)) (snd (at1 bh i2)) then
        (if cmp2 C val (fst (at1 bh i1)) ident (snd (at1 bh i1)) then (bh, i)
         else pheap_sift_down C k val ident (put1 bh i (at1 bh i1)) i1)
      else
        (if cmp2 C val (fst (at1 bh i2)) ident (snd (at1 bh i2)) then (bh, i)
         else pheap_sift_down C k val ident (put1 bh i (at1 bh i2)) i2))"
  by pat_completeness auto
termination
  by (relation "measure (\<lambda>(C, k, val, ident, bh, i). k + 1 - i)") auto

definition pheap_pop :: "'d comparator \<Rightarrow> nat \<Rightarrow> ('d \<times> int) list \<Rightarrow> ('d \<times> int) list" where
  "pheap_pop C k bh =
     (let val = fst (at1 bh k); ident = snd (at1 bh k);
          (bh', i) = pheap_sift_down C k val ident bh 1
      in put1 bh' i (at1 bh' k))"

function pheap_sift_up ::
    "'d comparator \<Rightarrow> 'd \<Rightarrow> int \<Rightarrow> ('d \<times> int) list \<Rightarrow> nat \<Rightarrow> ('d \<times> int) list \<times> nat" where
  "pheap_sift_up C val ident bh i =
     (if i > 1 then
        let i_father = i div 2; bh_v = at1 bh i_father in
        if \<not> cmp2 C val (fst bh_v) ident (snd bh_v) then (bh, i)
        else pheap_sift_up C val ident (put1 bh i bh_v) i_father
      else (bh, i))"
  by pat_completeness auto
termination
  by (relation "measure (\<lambda>(C, val, ident, bh, i). i)") auto

definition pheap_push ::
    "'d comparator \<Rightarrow> nat \<Rightarrow> ('d \<times> int) list \<Rightarrow> 'd \<Rightarrow> int \<Rightarrow> ('d \<times> int) list" where
  "pheap_push C k bh val ident =
     (let (bh', i) = pheap_sift_up C val ident bh k in put1 bh' i (val, ident))"

definition pheap_replace_top ::
    "'d comparator \<Rightarrow> nat \<Rightarrow> ('d \<times> int) list \<Rightarrow> 'd \<Rightarrow> int \<Rightarrow> ('d \<times> int) list" where
  "pheap_replace_top C k bh val ident =
     (let (bh', i) = pheap_sift_down C k val ident bh 1 in put1 bh' i (val, ident))"

declare pheap_sift_down.simps [simp del] pheap_sift_up.simps [simp del]

section \<open>Heaps in two parallel arrays\<close>

function heap_sift_down ::
    "'d comparator \<Rightarrow> nat \<Rightarrow> 'd \<Rightarrow> int \<Rightarrow> 'd list \<Rightarrow> int list \<Rightarrow> nat \<Rightarrow> 'd list \<times> int list \<times> nat" where
  "heap_sift_down C k val ident bh_val bh_ids i =
     (let i1 = 2 * i; i2 = i1 + 1 in
      if i1 > k \<or> i = 0 then (bh_val, bh_ids, i)
      else if i2 = k + 1 \<or>
              cmp2 C (at1 bh_val i1) (at1 bh_val i2) (at1 bh_ids i1) (at1 bh_ids i2) then
        (if cmp2 C val (at1 bh_val i1) ident (at1 bh_ids i1) then (bh_val, bh_ids, i)
         else heap_sift_down C k val ident
                (put1 bh_val i (at1 bh_val i1)) (put1 bh_ids i (at1 bh_ids i1)) i1)
      else
        (if cmp2 C val (at1 bh_val i2) ident (at1 bh_ids i2) then (bh_val, bh_ids, i)
         else heap_sift_down C k val ident
                (put1 bh_val i (at1 bh_val i2)) (put1 bh_ids i (at1 bh_ids i2)) i2))"
  by pat_completeness auto
termination
  by (relation "measure (\<lambda>(C, k, val, ident, bh_val, bh_ids, i). k + 1 - i)") auto

definition heap_pop :: "'d comparator \<Rightarrow> nat \<Rightarrow> 'd list \<Rightarrow> int list \<Rightarrow> 'd list \<times> int list" where
  "heap_pop C k bh_val bh_ids =
     (let val = at1 bh_val k; ident = at1 bh_ids k;
          (bh_val', bh_ids', i) = heap_sift_down C k val ident bh_val bh_ids 1
      in (put1 bh_val' i (at1 bh_val' k), put1 bh_ids' i (at1 bh_ids' k)))"

function heap_sift_up ::
    "'d comparator \<Rightarrow> 'd \<Rightarrow> int \<Rightarrow> 'd list \<Rightarrow> int list \<Rightarrow> nat \<Rightarrow> 'd list \<times> int list \<times> nat" where
  "heap_sift_up C val ident bh_val bh_ids i =
     (if i > 1 then
        let i_father = i div 2 in
        if \<not> cmp2 C val (at1 bh_val i_father) ident (at1 bh_ids i_father) then (bh_val, bh_ids, i)
        else heap_sift_up C val ident
               (put1 bh_val i (at1 bh_val i_father)) (put1 bh_ids i (at1 bh_ids i_father)) i_father
      else (bh_val, bh_ids, i))"
  by pat_completeness auto
termination
  by (relation "measure (\<lambda>(C, val, ident, bh_val, bh_ids, i). i)") auto

definition heap_push ::
    "'d comparator \<Rightarrow> nat \<Rightarrow> 'd list \<Rightarrow> int list \<Rightarrow> 'd \<Rightarrow> int \<Rightarrow> 'd list \<times> int list" where
  "heap_push C k bh_val bh_ids val ident =
     (let (bh_val', bh_ids', i) = heap_sift_up C val ident bh_val bh_ids k
      in (put1 bh_val' i val, put1 bh_ids' i ident))"

definition heap_replace_top ::
    "'d comparator \<Rightarrow> nat \<Rightarrow> 'd list \<Rightarrow> int list \<Rightarrow> 'd \<Rightarrow> int \<Rightarrow> 'd list \<times> int list" where
  "heap_replace_top C k bh_val bh_ids val ident =
     (let (bh_val', bh_ids', i) = heap_sift_down C k val ident bh_val bh_ids 1
      in (put1 bh_val' i val, put1 bh_ids' i ident))"

declare heap_sift_down.simps [simp del] heap_sift_up.simps [simp del]

text \<open>\<open>heap_heapify\<close>: \<open>k0\<close> unconditional pushes, then padding up to \<open>k\<close>.\<close>

fun heapify_pushes ::
    "'d comparator \<Rightarrow> 'd list \<Rightarrow> int list option \<Rightarrow> nat \<Rightarrow> nat \<Rightarrow> 'd list \<times> int list \<Rightarrow> 'd list \<times> int list" where
  "heapify_pushes C x ids i 0 bh = bh"
| "heapify_pushes C x ids i (Suc n) bh =
     heapify_pushes C x ids (i + 1) n
       (heap_push C (i + 1) (fst bh) (snd bh) (x ! i)
          (case ids of Some ix \<Rightarrow> ix ! i | None \<Rightarrow> int i))"

fun fill_neutral :: "'d comparator \<Rightarrow> nat \<Rightarrow> nat \<Rightarrow> 'd list \<times> int list \<Rightarrow> 'd list \<times> int list" where
  "fill_neutral C i 0 bh = bh"
| "fill_neutral C i (Suc n) bh =
     fill_neutral C (i + 1) n ((fst bh)[i := neutral C], (snd bh)[i := -1])"

definition heap_heapify ::
    "'d comparator \<Rightarrow> nat \<Rightarrow> 'd list \<times> int list \<Rightarrow> 'd list \<Rightarrow> int list option \<Rightarrow> nat \<Rightarrow> 'd list \<times> int list" where
  "heap_heapify C k bh x ids k0 =
     fill_neutral C k0 (k - k0) (heapify_pushes C x ids 0 k0 bh)"

text \<open>\<open>heap_addn\<close>: offer \<open>n\<close> elements to a heap of fixed size \<open>k\<close>.\<close>

fun heap_addn_from ::
    "'d comparator \<Rightarrow> nat \<Rightarrow> 'd list \<Rightarrow> int list option \<Rightarrow> nat \<Rightarrow> nat \<Rightarrow> 'd list \<times> int list \<Rightarrow> 'd list \<times> int list" where
  "heap_addn_from C k x ids i 0 bh = bh"
| "heap_addn_from C k x ids i (Suc n) bh =
     heap_addn_from C k x ids (i + 1) n
       (if cmp C (fst bh ! 0) (x ! i)
        then heap_replace_top C k (fst bh) (snd bh) (x ! i)
               (case ids of Some ix \<Rightarrow> ix ! i | None \<Rightarrow> int i)
        else bh)"

definition heap_addn ::
    "'d comparator \<Rightarrow> nat \<Rightarrow> 'd list \<times> int list \<Rightarrow> 'd list \<Rightarrow> int list option \<Rightarrow> nat \<Rightarrow> 'd list \<times> int list" where
  "heap_addn C k bh x ids n = heap_addn_from C k x ids 0 n bh"

text \<open>
  \<open>heap_reorder\<close>: pop everything, worst element first, writing the live ones from the back;
  then move them to the front and pad. Returns the number of live elements and the arrays.
\<close>

fun reorder_pops ::
    "'d comparator \<Rightarrow> nat \<Rightarrow> nat \<Rightarrow> nat \<Rightarrow> nat \<Rightarrow> 'd list \<times> int list \<Rightarrow> nat \<times> 'd list \<times> int list" where
  "reorder_pops C k i ii 0 bh = (ii, bh)"
| "reorder_pops C k i ii (Suc n) bh =
     (let val = fst bh ! 0; ident = snd bh ! 0;
          (bv, bi) = heap_pop C (k - i) (fst bh) (snd bh)
      in reorder_pops C k (i + 1) (if ident \<noteq> -1 then ii + 1 else ii) n
           (bv[k - ii - 1 := val], bi[k - ii - 1 := ident]))"

definition memmove_front :: "nat \<Rightarrow> nat \<Rightarrow> 'a list \<Rightarrow> 'a list" where
  "memmove_front ofs n xs = take n (drop ofs xs) @ drop n xs"

definition heap_reorder ::
    "'d comparator \<Rightarrow> nat \<Rightarrow> 'd list \<Rightarrow> int list \<Rightarrow> nat \<times> 'd list \<times> int list" where
  "heap_reorder C k bh_val bh_ids =
     (let (ii, bv, bi) = reorder_pops C k 0 0 k (bh_val, bh_ids);
          nel = ii
      in (nel, fill_neutral C ii (k - ii) (memmove_front (k - ii) ii bv, memmove_front (k - ii) ii bi)))"

section \<open>Indirect heaps\<close>

text \<open>
  Node \<open>i\<close> is \<open>(bh_ids[i], bh_val[bh_ids[i]])\<close>; only the ids move and ties are not broken.
  Line 578 reads \<open>bh_ids[i2]\<close> also when \<open>i2 = k + 1\<close>, one entry behind the heap; its value is not
  used in that case.
\<close>

function indirect_sift_down ::
    "'d comparator \<Rightarrow> nat \<Rightarrow> 'd list \<Rightarrow> 'd \<Rightarrow> nat list \<Rightarrow> nat \<Rightarrow> nat list \<times> nat" where
  "indirect_sift_down C k bh_val val bh_ids i =
     (let i1 = 2 * i; i2 = i1 + 1 in
      if i1 > k \<or> i = 0 then (bh_ids, i)
      else
        let id1 = at1 bh_ids i1; id2 = at1 bh_ids i2 in
        if i2 = k + 1 \<or> cmp C (bh_val ! id1) (bh_val ! id2) then
          (if cmp C val (bh_val ! id1) then (bh_ids, i)
           else indirect_sift_down C k bh_val val (put1 bh_ids i id1) i1)
        else
          (if cmp C val (bh_val ! id2) then (bh_ids, i)
           else indirect_sift_down C k bh_val val (put1 bh_ids i id2) i2))"
  by pat_completeness auto
termination
  by (relation "measure (\<lambda>(C, k, bh_val, val, bh_ids, i). k + 1 - i)") auto

definition indirect_heap_pop :: "'d comparator \<Rightarrow> nat \<Rightarrow> 'd list \<Rightarrow> nat list \<Rightarrow> nat list" where
  "indirect_heap_pop C k bh_val bh_ids =
     (let val = bh_val ! at1 bh_ids k;
          (bh_ids', i) = indirect_sift_down C k bh_val val bh_ids 1
      in put1 bh_ids' i (at1 bh_ids' k))"

function indirect_sift_up ::
    "'d comparator \<Rightarrow> 'd list \<Rightarrow> 'd \<Rightarrow> nat list \<Rightarrow> nat \<Rightarrow> nat list \<times> nat" where
  "indirect_sift_up C bh_val val bh_ids i =
     (if i > 1 then
        let i_father = i div 2 in
        if \<not> cmp C val (bh_val ! at1 bh_ids i_father) then (bh_ids, i)
        else indirect_sift_up C bh_val val (put1 bh_ids i (at1 bh_ids i_father)) i_father
      else (bh_ids, i))"
  by pat_completeness auto
termination
  by (relation "measure (\<lambda>(C, bh_val, val, bh_ids, i). i)") auto

definition indirect_heap_push :: "'d comparator \<Rightarrow> nat \<Rightarrow> 'd list \<Rightarrow> nat list \<Rightarrow> nat \<Rightarrow> nat list" where
  "indirect_heap_push C k bh_val bh_ids ident =
     (let val = bh_val ! ident;
          (bh_ids', i) = indirect_sift_up C bh_val val bh_ids k
      in put1 bh_ids' i ident)"

declare indirect_sift_down.simps [simp del] indirect_sift_up.simps [simp del]

end
