(* ===== verification/Heap_Correct.thy ===== *)
theory Heap_Correct
  imports Binary_Heap
begin

text \<open>
  Correctness of \<open>faiss/utils/Heap.h\<close>: the sift loops restore the heap order and permute the
  array; the two array layouts agree; \<open>heap_reorder\<close> sorts.
\<close>

section \<open>Heap order\<close>

text \<open>
  \<open>heap_wrt lt\<close>: no entry of the heap is below its parent in the order \<open>lt\<close>. The heaps the
  routines build are ordered by \<open>C::cmp2\<close> (\<open>is_heap\<close>); a caller that overwrites ids in place,
  as \<open>HNSW::MinimaxHeap\<close> does, keeps the weaker order by value only (\<open>is_value_heap\<close>).
\<close>

definition heap_wrt :: "('d \<times> int \<Rightarrow> 'd \<times> int \<Rightarrow> bool) \<Rightarrow> nat \<Rightarrow> ('d \<times> int) list \<Rightarrow> bool" where
  "heap_wrt lt k bh \<longleftrightarrow> (\<forall>j \<in> {2..k}. \<not> lt (at1 bh j) (at1 bh (j div 2)))"

definition is_heap :: "'d comparator \<Rightarrow> nat \<Rightarrow> ('d \<times> int) list \<Rightarrow> bool" where
  "is_heap C k bh \<longleftrightarrow> (\<forall>j \<in> {2..k}. \<not> cmpp C (at1 bh j) (at1 bh (j div 2)))"

definition cmpv :: "'d comparator \<Rightarrow> 'd \<times> int \<Rightarrow> 'd \<times> int \<Rightarrow> bool" where
  "cmpv C p q = cmp C (fst p) (fst q)"

definition is_value_heap :: "'d comparator \<Rightarrow> nat \<Rightarrow> ('d \<times> int) list \<Rightarrow> bool" where
  "is_value_heap C k bh \<longleftrightarrow> (\<forall>j \<in> {2..k}. \<not> cmp C (fst (at1 bh j)) (fst (at1 bh (j div 2))))"

lemma heap_wrt_cmpp: "heap_wrt (cmpp C) = is_heap C"
  by (intro ext) (simp add: heap_wrt_def is_heap_def)

lemma heap_wrt_cmpv: "heap_wrt (cmpv C) = is_value_heap C"
  by (intro ext) (simp add: heap_wrt_def is_value_heap_def cmpv_def)

text \<open>The loops in terms of the order on pairs.\<close>

lemma cmp2_pair [simp]:
  "cmp2 C (fst p) (fst q) (snd p) (snd q) = cmpp C p q"
  "cmp2 C a (fst q) b (snd q) = cmpp C (a, b) q"
  by (simp_all add: cmpp_def)

lemma heap_wrt_mono: "heap_wrt lt k bh \<Longrightarrow> l \<le> k \<Longrightarrow> heap_wrt lt l bh"
  by (simp add: heap_wrt_def)

lemma is_heap_mono: "is_heap C k bh \<Longrightarrow> l \<le> k \<Longrightarrow> is_heap C l bh"
  by (simp add: is_heap_def)

lemma parent_bounds: "j \<in> {2..k} \<Longrightarrow> 1 \<le> j div 2 \<and> j div 2 \<le> k \<and> j div 2 < j \<and> 1 \<le> j \<and> j \<le> k"
  for j k :: nat
  by auto

lemma heap_wrt_cong:
  assumes "\<And>j. 1 \<le> j \<Longrightarrow> j \<le> k \<Longrightarrow> at1 bh j = at1 bh' j"
  shows "heap_wrt lt k bh = heap_wrt lt k bh'"
proof -
  have "at1 bh j = at1 bh' j \<and> at1 bh (j div 2) = at1 bh' (j div 2)" if "j \<in> {2..k}" for j
    using parent_bounds [OF that] assms by simp
  then show ?thesis by (simp add: heap_wrt_def)
qed

lemma is_heap_cong:
  "(\<And>j. 1 \<le> j \<Longrightarrow> j \<le> k \<Longrightarrow> at1 bh j = at1 bh' j) \<Longrightarrow> is_heap C k bh = is_heap C k bh'"
  using heap_wrt_cong [of k bh bh' "cmpp C"] by (simp add: heap_wrt_cmpp)

lemma is_heap_take: "is_heap C k (take k bh) = is_heap C k bh"
  by (rule is_heap_cong) simp

text \<open>The entry at \<open>i\<close> is a hole about to hold \<open>x\<close>; everything else is in heap order.\<close>

definition hole_wrt :: "('d \<times> int \<Rightarrow> 'd \<times> int \<Rightarrow> bool) \<Rightarrow> nat \<Rightarrow> ('d \<times> int) list \<Rightarrow> nat \<Rightarrow> bool" where
  "hole_wrt lt k bh i \<longleftrightarrow>
     (\<forall>j \<in> {2..k}. j \<noteq> i \<longrightarrow> j div 2 \<noteq> i \<longrightarrow> \<not> lt (at1 bh j) (at1 bh (j div 2))) \<and>
     (\<forall>j \<in> {2..k}. j div 2 = i \<longrightarrow> i > 1 \<longrightarrow> \<not> lt (at1 bh j) (at1 bh (i div 2)))"

lemma hole_wrt_root: "heap_wrt lt k bh \<Longrightarrow> hole_wrt lt k bh 1"
  by (auto simp: hole_wrt_def heap_wrt_def)

lemma hole_wrt_leaf: "heap_wrt lt k bh \<Longrightarrow> hole_wrt lt (Suc k) bh (Suc k)"
  by (auto simp: hole_wrt_def heap_wrt_def)

text \<open>
  The orders that the sift loops restore: the loops compare by \<open>cmp2\<close>, so any order weaker
  than \<open>cmp2\<close> whose complement is transitive is restored.
\<close>

locale sift_order = heap_comparator C for C :: "'d comparator" +
  fixes lt :: "'d \<times> int \<Rightarrow> 'd \<times> int \<Rightarrow> bool"
  assumes lt_cmpp: "lt p q \<Longrightarrow> cmpp C p q"
    and not_lt_trans: "\<not> lt p q \<Longrightarrow> \<not> lt q r \<Longrightarrow> \<not> lt p r"
begin

lemma cmpp_not_lt: "cmpp C p q \<Longrightarrow> \<not> lt q p"
  using lt_cmpp cmpp_asym by blast

lemma not_cmpp_not_lt: "\<not> cmpp C p q \<Longrightarrow> \<not> lt p q"
  using lt_cmpp by blast

lemma lt_irrefl: "\<not> lt p p"
  using lt_cmpp cmpp_irrefl by blast


lemma hole_fill:
  assumes "hole_wrt lt k bh i" "1 \<le> i" "i \<le> k" "k \<le> length bh"
    and "i > 1 \<Longrightarrow> \<not> lt x (at1 bh (i div 2))"
    and "\<And>j. j \<in> {2..k} \<Longrightarrow> j div 2 = i \<Longrightarrow> \<not> lt (at1 bh j) x"
  shows "heap_wrt lt k (put1 bh i x)"
  unfolding heap_wrt_def
proof
  fix j assume j: "j \<in> {2..k}"
  then have "j div 2 \<noteq> j" "1 \<le> j div 2" by auto
  then show "\<not> lt (at1 (put1 bh i x) j) (at1 (put1 bh i x) (j div 2))"
    using assms j by (auto simp: at1_put1 hole_wrt_def)
qed

lemma hole_move_down:
  assumes inv: "hole_wrt lt k bh i" and i: "1 \<le> i" "c div 2 = i" "c \<in> {2..k}" "k \<le> length bh"
    and best: "\<And>j. j \<in> {2..k} \<Longrightarrow> j div 2 = i \<Longrightarrow> \<not> lt (at1 bh j) (at1 bh c)"
  shows "hole_wrt lt k (put1 bh i (at1 bh c)) c"
proof -
  let ?b = "put1 bh i (at1 bh c)"
  have ci: "c \<noteq> i" "i < c" using i by auto
  have "\<not> lt (at1 ?b j) (at1 ?b (j div 2))"
    if j: "j \<in> {2..k}" "j \<noteq> c" "j div 2 \<noteq> c" for j
  proof -
    have "j div 2 \<noteq> j" "1 \<le> j div 2" using j by auto
    moreover have "j = i \<Longrightarrow> \<not> lt (at1 bh c) (at1 bh (i div 2))"
      using inv i j by (auto simp: hole_wrt_def)
    moreover have "j div 2 = i \<Longrightarrow> \<not> lt (at1 bh j) (at1 bh c)" using best j by auto
    moreover have "j \<noteq> i \<Longrightarrow> j div 2 \<noteq> i \<Longrightarrow> \<not> lt (at1 bh j) (at1 bh (j div 2))"
      using inv j by (auto simp: hole_wrt_def)
    ultimately show ?thesis using i j ci by (auto simp: at1_put1)
  qed
  moreover have "\<not> lt (at1 ?b j) (at1 ?b (c div 2))"
    if j: "j \<in> {2..k}" "j div 2 = c" for j
  proof -
    have "j \<noteq> i" "1 \<le> j" "j \<noteq> c" using j ci by auto
    moreover have "\<not> lt (at1 bh j) (at1 bh c)"
      using inv j ci by (auto simp: hole_wrt_def)
    ultimately show ?thesis using i by (auto simp: at1_put1)
  qed
  ultimately show ?thesis by (simp add: hole_wrt_def)
qed

text \<open>One unfolding of the downward loop, as a case split on the child that is taken.\<close>

lemma sift_down_cases:
  assumes "pheap_sift_down C k val ident bh i = (bh', i')" "1 \<le> i" "i \<le> k"
  obtains (stop) "bh' = bh" "i' = i"
      "\<And>j. j \<in> {2..k} \<Longrightarrow> j div 2 = i \<Longrightarrow> \<not> lt (at1 bh j) (val, ident)"
    | (down) c where "c \<in> {2 * i, 2 * i + 1}" "c \<le> k"
      "\<not> lt (val, ident) (at1 bh c)"
      "\<And>j. j \<in> {2..k} \<Longrightarrow> j div 2 = i \<Longrightarrow> \<not> lt (at1 bh j) (at1 bh c)"
      "pheap_sift_down C k val ident (put1 bh i (at1 bh c)) c = (bh', i')"
proof -
  let ?i1 = "2 * i" and ?i2 = "2 * i + 1" and ?x = "(val, ident)"
  have child: "j = ?i1 \<or> j = ?i2" if "j div 2 = i" for j using that by auto
  consider (leaf) "?i1 > k"
    | (left) "?i1 \<le> k" "?i2 = k + 1 \<or> cmpp C (at1 bh ?i1) (at1 bh ?i2)"
    | (right) "?i2 \<le> k" "\<not> cmpp C (at1 bh ?i1) (at1 bh ?i2)" by linarith
  then show thesis
  proof cases
    case leaf
    then show thesis using assms child by (intro stop) (auto simp: pheap_sift_down.simps [of C k val ident bh] Let_def)
  next
    case left
    have best: "\<not> lt (at1 bh j) (at1 bh ?i1)" if "j \<in> {2..k}" "j div 2 = i" for j
      using left child [OF that(2)] that cmpp_not_lt lt_irrefl by (metis atLeastAtMost_iff not_less_eq_eq Suc_eq_plus1)
    show thesis
    proof (cases "cmpp C ?x (at1 bh ?i1)")
      case True
      then have "\<not> lt (at1 bh j) ?x" if "j \<in> {2..k}" "j div 2 = i" for j
        using best that cmpp_not_lt [OF True] not_lt_trans by blast
      then show thesis using assms left True
        by (intro stop) (auto simp: pheap_sift_down.simps [of C k val ident bh] Let_def)
    next
      case False
      then show thesis using assms left best not_cmpp_not_lt [OF False]
        by (intro down [of ?i1]) (auto simp: pheap_sift_down.simps [of C k val ident bh] Let_def)
    qed
  next
    case right
    have best: "\<not> lt (at1 bh j) (at1 bh ?i2)" if "j \<in> {2..k}" "j div 2 = i" for j
      using right child [OF that(2)] not_cmpp_not_lt lt_irrefl by metis
    show thesis
    proof (cases "cmpp C ?x (at1 bh ?i2)")
      case True
      then have "\<not> lt (at1 bh j) ?x" if "j \<in> {2..k}" "j div 2 = i" for j
        using best that cmpp_not_lt [OF True] not_lt_trans by blast
      then show thesis using assms right True
        by (intro stop) (auto simp: pheap_sift_down.simps [of C k val ident bh] Let_def)
    next
      case False
      then show thesis using assms right best not_cmpp_not_lt [OF False]
        by (intro down [of ?i2]) (auto simp: pheap_sift_down.simps [of C k val ident bh] Let_def)
    qed
  qed
qed

lemma sift_down_correct:
  assumes "pheap_sift_down C k val ident bh i = (bh', i')" "1 \<le> i" "i \<le> k" "k \<le> length bh"
    and "hole_wrt lt k bh i" and "i > 1 \<Longrightarrow> \<not> lt (val, ident) (at1 bh (i div 2))"
  shows "heap_wrt lt k (put1 bh' i' (val, ident))
    \<and> mset (put1 bh' i' x) = mset (put1 bh i x)
    \<and> 1 \<le> i' \<and> i' \<le> k \<and> length bh' = length bh \<and> drop k bh' = drop k bh"
  using assms
proof (induction "k - i" arbitrary: bh i rule: less_induct)
  case less
  from less.prems(1-3) show ?case
  proof (cases rule: sift_down_cases)
    case stop
    then show ?thesis using less.prems by (auto intro: hole_fill)
  next
    case (down c)
    let ?b = "put1 bh i (at1 bh c)"
    have c: "c \<in> {2..k}" "c div 2 = i" "1 \<le> c" "c \<noteq> i" using down(1,2) less.prems(2) by auto
    have "hole_wrt lt k ?b c"
      using hole_move_down [OF less.prems(5,2) c(2,1) less.prems(4) down(4)] .
    moreover have "\<not> lt (val, ident) (at1 ?b (c div 2))"
      using down(3) c less.prems by simp
    moreover have "k - c < k - i" using c less.prems by auto
    ultimately have IH: "heap_wrt lt k (put1 bh' i' (val, ident))
        \<and> mset (put1 bh' i' x) = mset (put1 ?b c x)
        \<and> 1 \<le> i' \<and> i' \<le> k \<and> length bh' = length ?b \<and> drop k bh' = drop k ?b"
      using less.hyps [of c ?b] down(2,5) c less.prems(4) by auto
    have "mset (put1 ?b c x) = mset (put1 bh i x)"
      using c less.prems by (intro mset_move_hole) auto
    moreover have "drop k ?b = drop k bh" using less.prems by (simp add: put1_def)
    ultimately show ?thesis using IH by simp
  qed
qed

text \<open>The upward loop.\<close>

lemma hole_move_up:
  assumes inv: "hole_wrt lt k bh i" and i: "1 < i" "i \<le> k" "k \<le> length bh"
    and kids: "\<forall>j \<in> {2..k}. j div 2 = i \<longrightarrow> \<not> lt (at1 bh j) x"
    and up: "cmpp C x (at1 bh (i div 2))"
  shows "hole_wrt lt k (put1 bh i (at1 bh (i div 2))) (i div 2)"
    and "\<forall>j \<in> {2..k}. j div 2 = i div 2 \<longrightarrow>
           \<not> lt (at1 (put1 bh i (at1 bh (i div 2))) j) x"
proof -
  let ?f = "i div 2" and ?b = "put1 bh i (at1 bh (i div 2))"
  have f: "1 \<le> ?f" "?f < i" using i by auto
  have sib: "\<not> lt (at1 bh j) (at1 bh ?f)" if "j \<in> {2..k}" "j div 2 = ?f" "j \<noteq> i" for j
  proof -
    have "j div 2 \<noteq> i" using that f by simp
    then show ?thesis using inv that by (auto simp: hole_wrt_def)
  qed
  have b: "at1 ?b j = (if j = i then at1 bh ?f else at1 bh j)" if "1 \<le> j" for j
    using that i by auto
  have "\<not> lt (at1 ?b j) (at1 ?b (j div 2))"
    if j: "j \<in> {2..k}" "j \<noteq> ?f" "j div 2 \<noteq> ?f" for j
  proof -
    have "1 \<le> j" "1 \<le> j div 2" "j \<noteq> i" using j by auto
    moreover have "j div 2 = i \<Longrightarrow> \<not> lt (at1 bh j) (at1 bh ?f)"
      using inv j i by (auto simp: hole_wrt_def)
    moreover have "j div 2 \<noteq> i \<Longrightarrow> \<not> lt (at1 bh j) (at1 bh (j div 2))"
      using inv j \<open>j \<noteq> i\<close> by (auto simp: hole_wrt_def)
    ultimately show ?thesis by (simp add: b)
  qed
  moreover have "\<not> lt (at1 ?b j) (at1 ?b (?f div 2))"
    if j: "j \<in> {2..k}" "j div 2 = ?f" "?f > 1" for j
  proof -
    have "?f \<in> {2..k}" "?f \<noteq> i" "?f div 2 \<noteq> i" using j f i by auto
    then have ff: "\<not> lt (at1 bh ?f) (at1 bh (?f div 2))"
      using inv by (auto simp: hole_wrt_def)
    moreover have "j \<noteq> i \<Longrightarrow> \<not> lt (at1 bh j) (at1 bh (?f div 2))"
      using sib [OF j(1,2)] ff not_lt_trans by blast
    moreover have "1 \<le> j" "1 \<le> ?f div 2" "?f div 2 \<noteq> i" using j f by auto
    ultimately show ?thesis by (simp add: b)
  qed
  ultimately show "hole_wrt lt k ?b ?f" by (simp add: hole_wrt_def)
  have "\<not> lt (at1 ?b j) x" if "j \<in> {2..k}" "j div 2 = ?f" for j
  proof (cases "j = i")
    case True
    then show ?thesis using cmpp_not_lt [OF up] i by (simp add: b)
  next
    case False
    then have "\<not> lt (at1 bh j) x" using sib [OF that False] cmpp_not_lt [OF up] not_lt_trans by blast
    then show ?thesis using that False by (simp add: b)
  qed
  then show "\<forall>j \<in> {2..k}. j div 2 = ?f \<longrightarrow> \<not> lt (at1 ?b j) x" by blast
qed

lemma sift_up_correct:
  assumes "pheap_sift_up C val ident bh i = (bh', i')" "1 \<le> i" "i \<le> k" "k \<le> length bh"
    and "hole_wrt lt k bh i"
    and "\<forall>j \<in> {2..k}. j div 2 = i \<longrightarrow> \<not> lt (at1 bh j) (val, ident)"
  shows "heap_wrt lt k (put1 bh' i' (val, ident))
    \<and> mset (put1 bh' i' x) = mset (put1 bh i x)
    \<and> 1 \<le> i' \<and> i' \<le> k \<and> length bh' = length bh \<and> drop k bh' = drop k bh"
  using assms
proof (induction i arbitrary: bh rule: less_induct)
  case (less i)
  let ?x = "(val, ident)" and ?f = "i div 2"
  show ?case
  proof (cases "i > 1 \<and> cmpp C ?x (at1 bh ?f)")
    case False
    then have "bh' = bh" "i' = i" using less.prems(1)
      by (auto simp: pheap_sift_up.simps [of C val ident bh] Let_def split: if_splits)
    moreover have "i > 1 \<Longrightarrow> \<not> lt ?x (at1 bh ?f)" using False not_cmpp_not_lt by blast
    ultimately show ?thesis using less.prems by (auto intro: hole_fill)
  next
    case True
    let ?b = "put1 bh i (at1 bh ?f)"
    have step: "pheap_sift_up C val ident ?b ?f = (bh', i')"
      using True less.prems(1) by (simp add: pheap_sift_up.simps [of C val ident bh] Let_def)
    have f: "1 \<le> ?f" "?f < i" "?f \<le> k" using True less.prems by auto
    have gt: "1 < i" and up: "cmpp C ?x (at1 bh ?f)" using True by simp_all
    note mv = hole_move_up [OF less.prems(5) gt less.prems(3,4,6) up]
    have IH: "heap_wrt lt k (put1 bh' i' ?x)
        \<and> mset (put1 bh' i' x) = mset (put1 ?b ?f x)
        \<and> 1 \<le> i' \<and> i' \<le> k \<and> length bh' = length ?b \<and> drop k bh' = drop k ?b"
      by (intro less.IH step f mv) (simp add: less.prems(4))
    have "mset (put1 ?b ?f x) = mset (put1 bh i x)"
      using f less.prems by (intro mset_move_hole) auto
    then show ?thesis using IH less.prems by simp
  qed
qed

text \<open>The three operations.\<close>

lemma pheap_replace_top_correct:
  assumes "heap_wrt lt k bh" "1 \<le> k" "k \<le> length bh"
  shows "heap_wrt lt k (pheap_replace_top C k bh val ident)"
    and "mset (take k (pheap_replace_top C k bh val ident)) =
           add_mset (val, ident) (mset (take k bh) - {#at1 bh 1#})"
    and "drop k (pheap_replace_top C k bh val ident) = drop k bh"
    and "length (pheap_replace_top C k bh val ident) = length bh"
proof -
  obtain bh' i' where s: "pheap_sift_down C k val ident bh 1 = (bh', i')" by fastforce
  from sift_down_correct [OF s _ _ _ hole_wrt_root [OF assms(1)], of "(val, ident)"] assms
  have r: "heap_wrt lt k (put1 bh' i' (val, ident))"
    "mset (put1 bh' i' (val, ident)) = mset (put1 bh 1 (val, ident))"
    "1 \<le> i'" "i' \<le> k" "length bh' = length bh" "drop k bh' = drop k bh" by auto
  have e: "pheap_replace_top C k bh val ident = put1 bh' i' (val, ident)"
    by (simp add: pheap_replace_top_def s del: One_nat_def)
  show "heap_wrt lt k (pheap_replace_top C k bh val ident)" using r e by simp
  show d: "drop k (pheap_replace_top C k bh val ident) = drop k bh" using r e by simp
  show "length (pheap_replace_top C k bh val ident) = length bh" using r e by simp
  have "mset (take k (put1 bh' i' (val, ident))) = mset (take k (put1 bh 1 (val, ident)))"
    using r assms by (intro mset_take_cancel) auto
  also have "\<dots> = mset (put1 (take k bh) 1 (val, ident))" using assms by (simp add: take_put1)
  also have "\<dots> = add_mset (val, ident) (mset (take k bh) - {#at1 bh 1#})"
    using assms by (subst mset_put1) auto
  finally show "mset (take k (pheap_replace_top C k bh val ident)) =
           add_mset (val, ident) (mset (take k bh) - {#at1 bh 1#})" using e by simp
qed

lemma sift_down_last_entry:
  assumes "pheap_sift_down C k val ident bh i = (bh', i')" "1 \<le> i" "i \<le> k" "k \<le> length bh"
  shows "at1 bh' k = at1 bh k"
  using assms
proof (induction "k - i" arbitrary: bh i rule: less_induct)
  case less
  from less.prems(1-3) show ?case
  proof (cases rule: sift_down_cases)
    case (down c)
    then have "at1 bh' k = at1 (put1 bh i (at1 bh c)) k"
      using less.hyps [of c "put1 bh i (at1 bh c)"] less.prems by auto
    then show ?thesis using down less.prems by auto
  qed auto
qed

lemma pheap_pop_replace_top:
  assumes "1 \<le> k" "k \<le> length bh"
  shows "pheap_pop C k bh = pheap_replace_top C k bh (fst (at1 bh k)) (snd (at1 bh k))"
    and "heap_wrt lt k bh \<Longrightarrow> at1 (pheap_pop C k bh) k = at1 bh k"
proof -
  obtain bh' i' where s: "pheap_sift_down C k (fst (at1 bh k)) (snd (at1 bh k)) bh 1 = (bh', i')"
    by fastforce
  from sift_down_last_entry [OF s] assms have l: "at1 bh' k = at1 bh k" by simp
  show e: "pheap_pop C k bh = pheap_replace_top C k bh (fst (at1 bh k)) (snd (at1 bh k))"
    by (simp add: pheap_pop_def pheap_replace_top_def s l Let_def del: One_nat_def)
  assume h: "heap_wrt lt k bh"
  from sift_down_correct [OF s _ _ _ hole_wrt_root [OF h]] assms
  have "1 \<le> i'" "i' \<le> k" "length bh' = length bh" by auto
  then have "at1 (put1 bh' i' (at1 bh k)) k = at1 bh k" using l assms by (cases "i' = k") auto
  then show "at1 (pheap_pop C k bh) k = at1 bh k"
    by (simp add: pheap_pop_def s l Let_def del: One_nat_def)
qed

lemma pheap_pop_correct:
  assumes "heap_wrt lt k bh" "1 \<le> k" "k \<le> length bh"
  shows "heap_wrt lt (k - 1) (pheap_pop C k bh)"
    and "mset (take (k - 1) (pheap_pop C k bh)) = mset (take k bh) - {#at1 bh 1#}"
    and "drop k (pheap_pop C k bh) = drop k bh"
    and "length (pheap_pop C k bh) = length bh"
proof -
  let ?r = "pheap_pop C k bh" and ?x = "at1 bh k"
  note e = pheap_pop_replace_top [OF assms(2,3)]
  note rt = pheap_replace_top_correct [OF assms, of "fst ?x" "snd ?x", folded e(1)]
  show "heap_wrt lt (k - 1) ?r" using rt(1) by (rule heap_wrt_mono) simp
  show "drop k ?r = drop k bh" "length ?r = length bh" by (fact rt)+
  obtain n where n: "k = Suc n" using assms(2) by (cases k) auto
  then have "take k ?r = take n ?r @ [?r ! n]" using rt(4) assms by (simp add: take_Suc_conv_app_nth)
  moreover have "?r ! n = ?x" using e(2) [OF assms(1)] n by (simp add: at1_def)
  ultimately have "add_mset ?x (mset (take n ?r)) = add_mset ?x (mset (take k bh) - {#at1 bh 1#})"
    using rt(2) by simp
  then show "mset (take (k - 1) ?r) = mset (take k bh) - {#at1 bh 1#}" using n by simp
qed

lemma pheap_push_correct:
  assumes "heap_wrt lt (k - 1) bh" "1 \<le> k" "k \<le> length bh"
  shows "heap_wrt lt k (pheap_push C k bh val ident)"
    and "mset (take k (pheap_push C k bh val ident)) = add_mset (val, ident) (mset (take (k - 1) bh))"
    and "drop k (pheap_push C k bh val ident) = drop k bh"
    and "length (pheap_push C k bh val ident) = length bh"
proof -
  obtain bh' i' where s: "pheap_sift_up C val ident bh k = (bh', i')" by fastforce
  have h: "hole_wrt lt k bh k" using hole_wrt_leaf [OF assms(1)] assms(2) by simp
  have "j div 2 \<noteq> k" if "j \<in> {2..k}" for j using that by auto
  then have r: "heap_wrt lt k (put1 bh' i' (val, ident))"
    "mset (put1 bh' i' (val, ident)) = mset (put1 bh k (val, ident))"
    "1 \<le> i'" "i' \<le> k" "length bh' = length bh" "drop k bh' = drop k bh"
    using sift_up_correct [OF s _ _ _ h, of "(val, ident)"] assms by simp_all
  have e: "pheap_push C k bh val ident = put1 bh' i' (val, ident)"
    by (simp add: pheap_push_def s)
  show "heap_wrt lt k (pheap_push C k bh val ident)"
    "drop k (pheap_push C k bh val ident) = drop k bh"
    "length (pheap_push C k bh val ident) = length bh" using r e by simp_all
  have "mset (take k (put1 bh' i' (val, ident))) = mset (take k (put1 bh k (val, ident)))"
    using r assms by (intro mset_take_cancel) auto
  also have "take k (put1 bh k (val, ident)) = take (k - 1) bh @ [(val, ident)]"
  proof -
    obtain n where "k = Suc n" using assms(2) by (cases k) auto
    then show ?thesis using assms by (simp add: put1_def take_Suc_conv_app_nth)
  qed
  finally show "mset (take k (pheap_push C k bh val ident)) = add_mset (val, ident) (mset (take (k - 1) bh))"
    using e by simp
qed

text \<open>The top of a heap is its extreme element.\<close>

lemma heap_wrt_top:
  assumes "heap_wrt lt k bh" "1 \<le> j" "j \<le> k"
  shows "\<not> lt (at1 bh j) (at1 bh 1)"
  using assms(2,3)
proof (induction j rule: less_induct)
  case (less j)
  show ?case
  proof (cases "j = 1")
    case True
    then show ?thesis using lt_irrefl by simp
  next
    case False
    then have j: "j \<in> {2..k}" using less.prems by auto
    then have "\<not> lt (at1 bh (j div 2)) (at1 bh 1)"
      using less.IH [of "j div 2"] parent_bounds [OF j] by simp
    moreover have "\<not> lt (at1 bh j) (at1 bh (j div 2))" using assms(1) j by (simp add: heap_wrt_def)
    ultimately show ?thesis using not_lt_trans by blast
  qed
qed

lemma heap_wrt_top_set:
  assumes "heap_wrt lt k bh" "k \<le> length bh" "p \<in> set (take k bh)"
  shows "\<not> lt p (at1 bh 1)"
proof -
  from assms(3) obtain n where "n < k" "p = bh ! n"
    by (auto simp: in_set_conv_nth)
  then have "p = at1 bh (Suc n)" "Suc n \<le> k" by (simp_all add: at1_def)
  then show ?thesis using heap_wrt_top [OF assms(1), of "Suc n"] by simp
qed

end

sublocale heap_comparator \<subseteq> by_pair: sift_order C "cmpp C"
  using not_cmpp_trans by unfold_locales

sublocale heap_comparator \<subseteq> by_value: sift_order C "cmpv C"
proof unfold_locales
  show "cmpp C p q" if "cmpv C p q" for p q using that cmp_imp_cmpp by (simp add: cmpv_def)
  show "\<not> cmpv C p r" if "\<not> cmpv C p q" "\<not> cmpv C q r" for p q r
    using that not_cmp_trans by (simp add: cmpv_def)
qed

context heap_comparator
begin

lemmas pheap_replace_top_correct = by_pair.pheap_replace_top_correct [unfolded heap_wrt_cmpp]
lemmas pheap_pop_correct = by_pair.pheap_pop_correct [unfolded heap_wrt_cmpp]
lemmas pheap_push_correct = by_pair.pheap_push_correct [unfolded heap_wrt_cmpp]
lemmas is_heap_top = by_pair.heap_wrt_top [unfolded heap_wrt_cmpp]
lemmas is_heap_top_set = by_pair.heap_wrt_top_set [unfolded heap_wrt_cmpp]

end

end
