(* ===== verification/Heap_Arrays.thy ===== *)
theory Heap_Arrays
  imports Heap_Correct
begin

text \<open>
  The two-array heaps of \<open>faiss/utils/Heap.h\<close> refine the heaps of pairs; from there
  \<open>heap_heapify\<close>, \<open>heap_addn\<close> and \<open>heap_reorder\<close> get their specifications.
\<close>

section \<open>Refinement: two arrays against one array of pairs\<close>

definition pairs :: "'d list \<times> int list \<Rightarrow> ('d \<times> int) list" where
  "pairs bh = zip (fst bh) (snd bh)"

definition same_len :: "'d list \<times> int list \<Rightarrow> nat \<Rightarrow> bool" where
  "same_len bh n \<longleftrightarrow> length (fst bh) = n \<and> length (snd bh) = n"

lemma length_pairs [simp]: "same_len bh n \<Longrightarrow> length (pairs bh) = n"
  by (simp add: pairs_def same_len_def)

lemma pairs_nth: "same_len bh n \<Longrightarrow> j < n \<Longrightarrow> pairs bh ! j = (fst bh ! j, snd bh ! j)"
  by (simp add: pairs_def same_len_def)

lemma sift_down_refines:
  assumes "heap_sift_down C k val ident vs js i = (vs', js', i')"
    and "length js = length vs" "k \<le> length vs" "1 \<le> i" "i \<le> k"
  shows "pheap_sift_down C k val ident (zip vs js) i = (zip vs' js', i')
    \<and> length vs' = length vs \<and> length js' = length vs"
  using assms
proof (induction "k - i" arbitrary: vs js i rule: less_induct)
  case less
  let ?i1 = "2 * i" and ?i2 = "2 * i + 1"
  have IH: "pheap_sift_down C k val ident (put1 (zip vs js) i (at1 vs c, at1 js c)) c = (zip vs' js', i')
      \<and> length vs' = length vs \<and> length js' = length vs"
    if "c \<in> {?i1, ?i2}" "c \<le> k"
      "heap_sift_down C k val ident (put1 vs i (at1 vs c)) (put1 js i (at1 js c)) c = (vs', js', i')" for c
  proof -
    have "k - c < k - i" "1 \<le> c" using that less.prems by auto
    then show ?thesis
      using less.hyps [OF _ that(3)] that less.prems by (simp add: zip_put1)
  qed
  have at: "at1 (zip vs js) j = (at1 vs j, at1 js j)" if "1 \<le> j" "j \<le> k" for j
    using that less.prems by (intro at1_zip) auto
  consider (leaf) "?i1 > k" | (left) "?i1 \<le> k" "?i2 = k + 1" | (both) "?i2 \<le> k" by linarith
  then show ?case
  proof cases
    case leaf
    then have "vs' = vs" "js' = js" "i' = i"
      using less.prems by (simp_all add: heap_sift_down.simps [of C k val ident vs js i])
    moreover have "pheap_sift_down C k val ident (zip vs js) i = (zip vs js, i)"
      using leaf by (subst pheap_sift_down.simps) simp
    ultimately show ?thesis using less.prems by simp
  next
    case left
    then show ?thesis using less.prems IH [of ?i1] at [of ?i1]
      by (auto simp: heap_sift_down.simps [of C k val ident vs js i]
          pheap_sift_down.simps [of C k val ident "zip vs js" i] Let_def
          simp del: cmp2_pair split: if_splits)
  next
    case both
    then show ?thesis using less.prems IH [of ?i1] IH [of ?i2] at [of ?i1] at [of ?i2]
      by (auto simp: heap_sift_down.simps [of C k val ident vs js i]
          pheap_sift_down.simps [of C k val ident "zip vs js" i] Let_def
          simp del: cmp2_pair split: if_splits)
  qed
qed

lemma sift_up_refines:
  assumes "heap_sift_up C val ident vs js i = (vs', js', i')"
    and "length js = length vs" "1 \<le> i" "i \<le> length vs"
  shows "pheap_sift_up C val ident (zip vs js) i = (zip vs' js', i')
    \<and> length vs' = length vs \<and> length js' = length vs"
  using assms
proof (induction i arbitrary: vs js rule: less_induct)
  case (less i)
  let ?f = "i div 2"
  show ?case
  proof (cases "i > 1")
    case False
    then have "vs' = vs" "js' = js" "i' = i"
      using less.prems by (simp_all add: heap_sift_up.simps [of C val ident vs js i])
    moreover have "pheap_sift_up C val ident (zip vs js) i = (zip vs js, i)"
      using False by (subst pheap_sift_up.simps) simp
    ultimately show ?thesis using less.prems by simp
  next
    case True
    have at: "at1 (zip vs js) ?f = (at1 vs ?f, at1 js ?f)"
      using True less.prems by (intro at1_zip) auto
    have IH: "pheap_sift_up C val ident (put1 (zip vs js) i (at1 vs ?f, at1 js ?f)) ?f = (zip vs' js', i')
        \<and> length vs' = length vs \<and> length js' = length vs"
      if "heap_sift_up C val ident (put1 vs i (at1 vs ?f)) (put1 js i (at1 js ?f)) ?f = (vs', js', i')"
      using less.IH [OF _ that] True less.prems by (simp add: zip_put1)
    then show ?thesis using True less.prems at
      by (auto simp: heap_sift_up.simps [of C val ident vs js i]
          pheap_sift_up.simps [of C val ident "zip vs js" i] Let_def
          simp del: cmp2_pair split: if_splits)
  qed
qed

text \<open>The array operations, seen through \<open>pairs\<close>, are the operations on pairs.\<close>

lemma heap_replace_top_pairs:
  assumes "same_len bh n" "1 \<le> k" "k \<le> n"
  shows "pairs (heap_replace_top C k (fst bh) (snd bh) val ident) = pheap_replace_top C k (pairs bh) val ident"
    and "same_len (heap_replace_top C k (fst bh) (snd bh) val ident) n"
proof -
  obtain vs js i where s: "heap_sift_down C k val ident (fst bh) (snd bh) 1 = (vs, js, i)"
    by (metis prod_cases3)
  from sift_down_refines [OF s] assms
  have "pheap_sift_down C k val ident (pairs bh) 1 = (zip vs js, i)" "length vs = n" "length js = n"
    by (auto simp: pairs_def same_len_def)
  then show "pairs (heap_replace_top C k (fst bh) (snd bh) val ident) = pheap_replace_top C k (pairs bh) val ident"
    and "same_len (heap_replace_top C k (fst bh) (snd bh) val ident) n"
    using s by (simp_all add: heap_replace_top_def pheap_replace_top_def zip_put1 same_len_def pairs_def
        del: One_nat_def)
qed

lemma heap_push_pairs:
  assumes "same_len bh n" "1 \<le> k" "k \<le> n"
  shows "pairs (heap_push C k (fst bh) (snd bh) val ident) = pheap_push C k (pairs bh) val ident"
    and "same_len (heap_push C k (fst bh) (snd bh) val ident) n"
proof -
  obtain vs js i where s: "heap_sift_up C val ident (fst bh) (snd bh) k = (vs, js, i)"
    by (metis prod_cases3)
  from sift_up_refines [OF s] assms
  have "pheap_sift_up C val ident (pairs bh) k = (zip vs js, i)" "length vs = n" "length js = n"
    by (auto simp: pairs_def same_len_def)
  then show "pairs (heap_push C k (fst bh) (snd bh) val ident) = pheap_push C k (pairs bh) val ident"
    and "same_len (heap_push C k (fst bh) (snd bh) val ident) n"
    using s by (simp_all add: heap_push_def pheap_push_def zip_put1 same_len_def pairs_def)
qed

lemma heap_pop_pairs:
  assumes "same_len bh n" "1 \<le> k" "k \<le> n"
  shows "pairs (heap_pop C k (fst bh) (snd bh)) = pheap_pop C k (pairs bh)"
    and "same_len (heap_pop C k (fst bh) (snd bh)) n"
proof -
  let ?v = "at1 (fst bh) k" and ?i = "at1 (snd bh) k"
  obtain vs js i where s: "heap_sift_down C k ?v ?i (fst bh) (snd bh) 1 = (vs, js, i)"
    by (metis prod_cases3)
  from sift_down_refines [OF s] assms
  have r: "pheap_sift_down C k ?v ?i (pairs bh) 1 = (zip vs js, i)" "length vs = n" "length js = n"
    by (auto simp: pairs_def same_len_def)
  have e: "at1 (pairs bh) k = (?v, ?i)" using assms by (simp add: pairs_def same_len_def at1_zip)
  have z: "at1 (zip vs js) k = (at1 vs k, at1 js k)" using assms r by (intro at1_zip) auto
  show "pairs (heap_pop C k (fst bh) (snd bh)) = pheap_pop C k (pairs bh)"
    using s r e z by (simp add: heap_pop_def pheap_pop_def zip_put1 pairs_def Let_def del: One_nat_def)
  show "same_len (heap_pop C k (fst bh) (snd bh)) n"
    using s r by (simp add: heap_pop_def same_len_def Let_def del: One_nat_def)
qed

lemmas array_heap_pairs = heap_replace_top_pairs heap_push_pairs heap_pop_pairs

section \<open>Padding\<close>

lemma same_len_fill_neutral: "same_len bh n \<Longrightarrow> same_len (fill_neutral C i m bh) n"
  by (induction C i m bh rule: fill_neutral.induct) (auto simp: same_len_def)

lemma pairs_fill_neutral:
  assumes "same_len bh n" "i + m \<le> n"
  shows "pairs (fill_neutral C i m bh) =
    take i (pairs bh) @ replicate m (neutral C, -1) @ drop (i + m) (pairs bh)"
  using assms
proof (induction C i m bh rule: fill_neutral.induct)
  case (1 C i bh)
  then show ?case by simp
next
  case (2 C i m bh)
  let ?b = "((fst bh)[i := neutral C], (snd bh)[i := -1 :: int])"
  have b: "same_len ?b n" using 2 by (simp add: same_len_def)
  have p: "pairs ?b = (pairs bh)[i := (neutral C, -1)]"
    using 2 by (simp add: pairs_def same_len_def update_zip)
  have "pairs (fill_neutral C i (Suc m) bh) =
      take (i + 1) (pairs ?b) @ replicate m (neutral C, -1) @ drop (i + 1 + m) (pairs ?b)"
    using 2 b by simp
  also have "take (i + 1) (pairs ?b) = take i (pairs bh) @ [(neutral C, -1)]"
    using 2 p by (simp add: take_Suc_conv_app_nth)
  also have "drop (i + 1 + m) (pairs ?b) = drop (i + Suc m) (pairs bh)"
    using p by simp
  finally show ?case by simp
qed

section \<open>The k best\<close>

text \<open>
  What a bounded heap is for: \<open>kept\<close> is a best part of \<open>offered\<close>. Nothing that was turned
  away is better (in the sense of \<open>C::cmp\<close>) than anything that was kept.
\<close>

definition keeps_best :: "'d comparator \<Rightarrow> ('d \<times> int) multiset \<Rightarrow> ('d \<times> int) multiset \<Rightarrow> bool" where
  "keeps_best C kept offered \<longleftrightarrow>
     (\<exists>rejected. offered = kept + rejected \<and>
        (\<forall>p \<in># kept. \<forall>r \<in># rejected. \<not> cmp C (fst p) (fst r)))"

lemma keeps_best_refl: "keeps_best C m m"
  by (simp add: keeps_best_def)

text \<open>One offer: the step of \<open>heap_addn\<close>, of \<open>HeapArray::addn\<close> and of the heap result handlers.\<close>

definition heap_offer :: "'d comparator \<Rightarrow> nat \<Rightarrow> 'd list \<times> int list \<Rightarrow> 'd \<Rightarrow> int \<Rightarrow> 'd list \<times> int list" where
  "heap_offer C k bh val ident =
     (if cmp C (fst bh ! 0) val then heap_replace_top C k (fst bh) (snd bh) val ident else bh)"

lemma heap_addn_from_offer:
  "heap_addn_from C k x ids i (Suc n) bh =
     heap_addn_from C k x ids (i + 1) n
       (heap_offer C k bh (x ! i) (case ids of Some ix \<Rightarrow> ix ! i | None \<Rightarrow> int i))"
  by (simp add: heap_offer_def)

context heap_comparator
begin

lemma heap_offer_correct:
  assumes "same_len bh n" "1 \<le> k" "k \<le> n" "is_heap C k (pairs bh)"
  shows "is_heap C k (pairs (heap_offer C k bh val ident))"
    and "same_len (heap_offer C k bh val ident) n"
    and "drop k (pairs (heap_offer C k bh val ident)) = drop k (pairs bh)"
    and "keeps_best C (mset (take k (pairs bh))) all \<Longrightarrow>
      keeps_best C (mset (take k (pairs (heap_offer C k bh val ident)))) (add_mset (val, ident) all)"
proof -
  let ?B = "pairs bh" and ?B' = "pairs (heap_offer C k bh val ident)"
  let ?top = "at1 ?B 1"
  have len: "length ?B = n" using assms by simp
  have top: "fst bh ! 0 = fst ?top" using assms pairs_nth [of bh n 0] by (simp add: at1_def)
  note rt = pheap_replace_top_correct [OF assms(4,2), of val ident]
  have pt: "?B' = (if cmp C (fst ?top) val then pheap_replace_top C k ?B val ident else ?B)"
    using assms top by (simp add: heap_offer_def array_heap_pairs)
  show "is_heap C k ?B'" "drop k ?B' = drop k ?B" using rt assms len pt by auto
  show "same_len (heap_offer C k bh val ident) n"
    using assms by (simp add: heap_offer_def array_heap_pairs)
  assume "keeps_best C (mset (take k ?B)) all"
  then obtain rej where rej: "all = mset (take k ?B) + rej"
    "\<And>p r. p \<in> set (take k ?B) \<Longrightarrow> r \<in># rej \<Longrightarrow> \<not> cmp C (fst p) (fst r)"
    by (auto simp: keeps_best_def)
  have topk: "?top \<in># mset (take k ?B)"
    using assms len by (auto simp: at1_def in_set_conv_nth intro!: exI [of _ 0])
  have worst: "\<not> cmp C (fst p) (fst ?top)" if "p \<in> set (take k ?B)" for p
    using is_heap_top_set [OF assms(4) _ that] assms len not_cmpp_fst by auto
  show "keeps_best C (mset (take k ?B')) (add_mset (val, ident) all)"
  proof (cases "cmp C (fst ?top) val")
    case False
    have "\<not> cmp C (fst p) (fst r)"
      if "p \<in> set (take k ?B)" "r \<in># add_mset (val, ident) rej" for p r
    proof (cases "r \<in># rej")
      case True
      then show ?thesis using rej(2) that(1) by blast
    next
      case no: False
      then have "fst r = val" using that(2) by auto
      then show ?thesis using not_cmp_trans [OF worst [OF that(1)] False] by simp
    qed
    then show ?thesis using False pt rej(1)
      by (auto simp: keeps_best_def intro!: exI [of _ "add_mset (val, ident) rej"])
  next
    case True
    then have m: "mset (take k ?B') = add_mset (val, ident) (mset (take k ?B) - {#?top#})"
      using rt(2) pt assms len by simp
    have "\<not> cmp C (fst p) (fst r)"
      if p: "p \<in># mset (take k ?B')" and r: "r \<in># add_mset ?top rej" for p r
    proof (cases "p = (val, ident)")
      case eq: True
      have "\<not> cmp C val (fst r)" if "r \<in># rej"
        using rej(2) [of ?top r] that topk True cmp_trans by auto
      then show ?thesis using r eq cmp_asym [OF True] by auto
    next
      case False
      then have p': "p \<in> set (take k ?B)" using p m by (auto dest: in_diffD)
      show ?thesis
      proof (cases "r \<in># rej")
        case True
        then show ?thesis by (rule rej(2) [OF p'])
      next
        case False
        then have "r = ?top" using r by simp
        then show ?thesis using worst [OF p'] by simp
      qed
    qed
    moreover have "add_mset (val, ident) all = mset (take k ?B') + add_mset ?top rej"
    proof -
      from multi_member_split [OF topk] obtain M where M: "mset (take k ?B) = add_mset ?top M" ..
      show ?thesis unfolding m rej(1) M by simp
    qed
    ultimately show ?thesis unfolding keeps_best_def by blast
  qed
qed

end

end
