(* ===== verification/Heap_Sort.thy ===== *)
theory Heap_Sort
  imports Heap_Arrays
begin

text \<open>
  \<open>heap_heapify\<close>, \<open>heap_addn\<close> and \<open>heap_reorder\<close> (\<open>faiss/utils/Heap.h\<close>): filling a heap,
  offering elements to it and turning it into a sorted result list.
\<close>

section \<open>heap_heapify\<close>

lemma heap_heapify_empty:
  assumes "same_len bh n" "k \<le> n"
  shows "pairs (heap_heapify C k bh [] None 0) = replicate k (neutral C, -1) @ drop k (pairs bh)"
    and "same_len (heap_heapify C k bh [] None 0) n"
  using assms same_len_fill_neutral [OF assms(1)] by (simp_all add: heap_heapify_def pairs_fill_neutral)

lemma mset_take_Suc: "i < length xs \<Longrightarrow> mset (take (Suc i) xs) = add_mset (xs ! i) (mset (take i xs))"
  by (simp add: take_Suc_conv_app_nth)

definition ids_from :: "int list option \<Rightarrow> nat \<Rightarrow> int" where
  "ids_from ids i = (case ids of Some ix \<Rightarrow> ix ! i | None \<Rightarrow> int i)"

definition offered :: "'d list \<Rightarrow> int list option \<Rightarrow> nat \<Rightarrow> nat \<Rightarrow> ('d \<times> int) list" where
  "offered x ids i n = map (\<lambda>j. (x ! j, ids_from ids j)) [i..<i + n]"

lemma offered_Suc: "offered x ids i (Suc n) = (x ! i, ids_from ids i) # offered x ids (i + 1) n"
  by (simp add: offered_def upt_conv_Cons del: upt_Suc)

text \<open>
  The loop state: the heap in the first \<open>k - i\<close> entries, the sorted live elements in the last
  \<open>ii\<close> of the first \<open>k\<close>.
\<close>

definition live :: "('d \<times> int) multiset \<Rightarrow> ('d \<times> int) multiset" where
  "live M = {#p \<in># M. snd p \<noteq> -1#}"

definition pops_inv :: "'d comparator \<Rightarrow> nat \<Rightarrow> ('d \<times> int) list \<Rightarrow> nat \<Rightarrow> nat \<Rightarrow> ('d \<times> int) list \<Rightarrow> bool" where
  "pops_inv C k B0 i ii B \<longleftrightarrow>
     i \<le> k \<and> ii \<le> i \<and> length B = length B0 \<and> drop k B = drop k B0 \<and> is_heap C (k - i) B \<and>
     (let S = take ii (drop (k - ii) B) in
        sorted_wrt (\<lambda>p q. \<not> cmpp C p q) S \<and>
        (\<forall>q \<in> set S. \<forall>p \<in> set (take (k - i) B). \<not> cmpp C p q) \<and>
        live (mset (take (k - i) B)) + mset S = live (mset (take k B0)))"

context heap_comparator
begin

lemma is_heap_const: "is_heap C k (replicate k p @ ys)"
  unfolding is_heap_def
proof
  fix j assume j: "j \<in> {2..k}"
  then have "at1 (replicate k p @ ys) j = p" "at1 (replicate k p @ ys) (j div 2) = p"
    using parent_bounds [OF j] by (auto simp: at1_def nth_append)
  then show "\<not> cmpp C (at1 (replicate k p @ ys) j) (at1 (replicate k p @ ys) (j div 2))"
    using cmpp_irrefl by simp
qed

lemma heapify_pushes_correct:
  assumes "same_len bh n" "i + m \<le> n" "is_heap C i (pairs bh)"
  shows "is_heap C (i + m) (pairs (heapify_pushes C x ids i m bh))
    \<and> same_len (heapify_pushes C x ids i m bh) n
    \<and> mset (take (i + m) (pairs (heapify_pushes C x ids i m bh))) =
        mset (take i (pairs bh)) + mset (offered x ids i m)"
  using assms
proof (induction m arbitrary: i bh)
  case 0
  then show ?case by (simp add: offered_def)
next
  case (Suc m)
  let ?b = "heap_push C (i + 1) (fst bh) (snd bh) (x ! i) (ids_from ids i)"
  note hp = heap_push_pairs [OF Suc.prems(1), of "i + 1" C "x ! i" "ids_from ids i"]
  note pc = pheap_push_correct [of "i + 1" "pairs bh" "x ! i" "ids_from ids i"]
  have b: "same_len ?b n" "is_heap C (i + 1) (pairs ?b)"
    "mset (take (i + 1) (pairs ?b)) = add_mset (x ! i, ids_from ids i) (mset (take i (pairs bh)))"
    using hp pc Suc.prems by simp_all
  have e: "heapify_pushes C x ids i (Suc m) bh = heapify_pushes C x ids (i + 1) m ?b"
    by (simp add: ids_from_def)
  have "i + 1 + m \<le> n" using Suc.prems by simp
  from Suc.IH [OF b(1) this b(2)] show ?case
    using b(3) by (simp add: e offered_Suc del: heapify_pushes.simps)
qed

text \<open>With \<open>k0 = k\<close> (the way the library calls it) the result is a heap of the \<open>k\<close> inputs.\<close>

lemma heap_heapify_full:
  assumes "same_len bh n" "k \<le> n"
  shows "is_heap C k (pairs (heap_heapify C k bh x ids k))"
    and "mset (take k (pairs (heap_heapify C k bh x ids k))) = mset (offered x ids 0 k)"
proof -
  have "is_heap C 0 (pairs bh)" by (simp add: is_heap_def)
  from heapify_pushes_correct [OF assms(1) _ this, of k x ids] assms
  show "is_heap C k (pairs (heap_heapify C k bh x ids k))"
    and "mset (take k (pairs (heap_heapify C k bh x ids k))) = mset (offered x ids 0 k)"
    by (simp_all add: heap_heapify_def)
qed

section \<open>heap_addn\<close>

text \<open>A run of offers keeps the heap order, and what is kept is a best part of what was offered.\<close>

lemma heap_addn_from_correct:
  assumes "same_len bh n" "1 \<le> k" "k \<le> n" "is_heap C k (pairs bh)"
    and "keeps_best C (mset (take k (pairs bh))) all"
  shows "is_heap C k (pairs (heap_addn_from C k x ids i m bh))
    \<and> same_len (heap_addn_from C k x ids i m bh) n
    \<and> drop k (pairs (heap_addn_from C k x ids i m bh)) = drop k (pairs bh)
    \<and> keeps_best C (mset (take k (pairs (heap_addn_from C k x ids i m bh))))
        (all + mset (offered x ids i m))"
  using assms
proof (induction m arbitrary: i bh all)
  case 0
  then show ?case by (simp add: offered_def)
next
  case (Suc m)
  let ?b = "heap_offer C k bh (x ! i) (ids_from ids i)"
  note ho = heap_offer_correct [OF Suc.prems(1-4), where val = "x ! i" and ident = "ids_from ids i"]
  from Suc.IH [OF ho(2) Suc.prems(2,3) ho(1) ho(4) [OF Suc.prems(5)], of "i + 1"] ho(3)
  show ?case by (simp add: heap_addn_from_offer ids_from_def [symmetric] offered_Suc
      del: heap_addn_from.simps)
qed

section \<open>heap_reorder\<close>

lemma pops_inv_step:
  assumes inv: "pops_inv C k B0 i ii B" and k: "i < k" "k \<le> length B0"
    and t: "t = at1 B 1" and B': "B' = (pheap_pop C (k - i) B)[k - ii - 1 := t]"
  shows "pops_inv C k B0 (i + 1) (if snd t \<noteq> -1 then ii + 1 else ii) B'"
proof -
  let ?m = "k - i" and ?B1 = "pheap_pop C (k - i) B" and ?S = "take ii (drop (k - ii) B)"
  have i: "ii \<le> i" "length B = length B0" "is_heap C ?m B" "drop k B = drop k B0"
    and S: "sorted_wrt (\<lambda>p q. \<not> cmpp C p q) ?S"
      "\<And>p q. q \<in> set ?S \<Longrightarrow> p \<in> set (take ?m B) \<Longrightarrow> \<not> cmpp C p q"
      "live (mset (take ?m B)) + mset ?S = live (mset (take k B0))"
    using inv by (auto simp: pops_inv_def Let_def)
  have m: "1 \<le> ?m" "?m \<le> length B" using k i by auto
  note pc = pheap_pop_correct [OF i(3) m]
  have w: "?m - 1 \<le> k - ii - 1" "k - ii - 1 < k" "?m \<le> k - ii" using i k by auto
  have tk: "take (?m - 1) B' = take (?m - 1) ?B1" using w B' by simp
  have len: "length B' = length B0" using pc(4) i B' by simp
  have dr: "drop (k - ii) B' = drop (k - ii) B"
  proof -
    have "k - ii - 1 < k - ii" using i k by simp
    then have "drop (k - ii) B' = drop (k - ii) ?B1" using B' by (simp only: drop_update_cancel)
    also have "\<dots> = drop (k - ii - ?m) (drop ?m ?B1)" using w(3) by (simp only: drop_drop le_add_diff_inverse2)
    also have "\<dots> = drop (k - ii) B" using w(3) pc(3) by (simp only: drop_drop le_add_diff_inverse2)
    finally show ?thesis .
  qed
  have dk: "drop k B' = drop k B0"
  proof -
    have "drop k B' = drop ii (drop (k - ii) B')" using i k by simp
    also have "\<dots> = drop k B" unfolding dr using i k by simp
    finally show ?thesis using i by simp
  qed
  have tm: "t \<in> set (take ?m B)"
    using m t by (auto simp: at1_def in_set_conv_nth intro!: exI [of _ 0])
  have pre: "mset (take ?m B) = add_mset t (mset (take (?m - 1) B'))"
    using pc(2) tk t tm by simp
  then have sub: "set (take (?m - 1) B') \<subseteq> set (take ?m B)"
    by (metis set_mset_mset set_mset_add_mset_insert subset_insertI)
  have worst: "\<not> cmpp C p t" if "p \<in> set (take (?m - 1) B')" for p
    using is_heap_top_set [OF i(3) m(2), of p] sub that t by auto
  have heap: "is_heap C (k - (i + 1)) B'"
  proof -
    have "is_heap C (?m - 1) (take (?m - 1) B')" unfolding tk using pc(1) is_heap_take by blast
    then show ?thesis by (simp add: is_heap_take)
  qed
  show ?thesis
  proof (cases "snd t \<noteq> -1")
    case True
    have "drop (k - (ii + 1)) B' = t # drop (k - ii) B"
    proof -
      have "k - ii - 1 < length B'" using len k w by simp
      then have "drop (k - ii - 1) B' = B' ! (k - ii - 1) # drop (Suc (k - ii - 1)) B'"
        by (simp add: Cons_nth_drop_Suc)
      moreover have "B' ! (k - ii - 1) = t" using B' pc(4) i k w by simp
      moreover have "Suc (k - ii - 1) = k - ii" using i k by simp
      ultimately show ?thesis using dr by simp
    qed
    then have S': "take (ii + 1) (drop (k - (ii + 1)) B') = t # ?S" by simp
    have "pops_inv C k B0 (i + 1) (ii + 1) B'" unfolding pops_inv_def S' Let_def
      using True i k len dk heap S(1,2) tm worst sub S(3) pre
      by (auto simp: live_def subset_iff)
    then show ?thesis using True by simp
  next
    case False
    have S': "take ii (drop (k - ii) B') = ?S" using dr by simp
    have "pops_inv C k B0 (i + 1) ii B'" unfolding pops_inv_def S' Let_def
      using False i k len dk heap S(1,2) tm worst sub S(3) pre
      by (auto simp: live_def subset_iff)
    then show ?thesis using False by simp
  qed
qed

lemma reorder_pops_correct:
  assumes "pops_inv C k B0 i ii (pairs bh)" "same_len bh n" "i + m = k" "k \<le> n" "length B0 = n"
    and "reorder_pops C k i ii m bh = (ii', bh')"
  shows "pops_inv C k B0 k ii' (pairs bh') \<and> same_len bh' n"
  using assms
proof (induction m arbitrary: i ii bh)
  case 0
  then show ?case by simp
next
  case (Suc m)
  let ?pop = "heap_pop C (k - i) (fst bh) (snd bh)"
  let ?val = "fst bh ! 0" and ?id = "snd bh ! 0"
  let ?bh1 = "((fst ?pop)[k - ii - 1 := ?val], (snd ?pop)[k - ii - 1 := ?id])"
  have m: "1 \<le> k - i" "k - i \<le> n" "0 < n" using Suc.prems by auto
  note hp = heap_pop_pairs [OF Suc.prems(2) m(1,2), of C]
  have t: "at1 (pairs bh) 1 = (?val, ?id)"
    using pairs_nth [OF Suc.prems(2) m(3)] by (simp add: at1_def)
  have b1: "pairs ?bh1 = (pheap_pop C (k - i) (pairs bh))[k - ii - 1 := at1 (pairs bh) 1]"
    unfolding hp(1) [symmetric] t by (simp add: pairs_def update_zip)
  have sl: "same_len ?bh1 n" using hp(2) by (simp add: same_len_def)
  have "reorder_pops C k (i + 1) (if ?id \<noteq> -1 then ii + 1 else ii) m ?bh1 = (ii', bh')"
    using Suc.prems(6) by (simp add: Let_def case_prod_beta)
  moreover have "pops_inv C k B0 (i + 1) (if ?id \<noteq> -1 then ii + 1 else ii) (pairs ?bh1)"
    using pops_inv_step [OF Suc.prems(1) _ _ refl b1] Suc.prems t by simp
  ultimately show ?case using Suc.IH [OF _ sl] Suc.prems by simp
qed

lemma memmove_front_zip:
  "length xs = length ys \<Longrightarrow>
     zip (memmove_front o1 m xs) (memmove_front o1 m ys) = memmove_front o1 m (zip xs ys)"
  by (simp add: memmove_front_def zip_append take_zip drop_zip)

lemma heap_reorder_length:
  assumes "is_heap C k (pairs bh)" "same_len bh n" "k \<le> n"
    and "heap_reorder C k (fst bh) (snd bh) = (nel, bh')"
  shows "same_len bh' n"
proof -
  obtain ii bv bi where rp: "reorder_pops C k 0 0 k bh = (ii, bv, bi)" by (metis prod_cases3)
  have "pops_inv C k (pairs bh) 0 0 (pairs bh)" using assms by (simp add: pops_inv_def)
  from reorder_pops_correct [OF this assms(2) _ assms(3) _ rp] assms
  have "ii \<le> k" "same_len (bv, bi) n" by (auto simp: pops_inv_def)
  then have "same_len (memmove_front (k - ii) ii bv, memmove_front (k - ii) ii bi) n"
    using assms(3) by (auto simp: same_len_def memmove_front_def)
  then show ?thesis using assms(4) rp same_len_fill_neutral by (fastforce simp: heap_reorder_def)
qed

lemma heap_reorder_correct:
  assumes "is_heap C k (pairs bh)" "same_len bh n" "k \<le> n"
    and r: "heap_reorder C k (fst bh) (snd bh) = (nel, bh')"
  shows "\<exists>S. take k (pairs bh') = S @ replicate (k - nel) (neutral C, -1)
    \<and> length S = nel \<and> nel \<le> k
    \<and> sorted_wrt (\<lambda>p q. \<not> cmpp C p q) S
    \<and> mset S = live (mset (take k (pairs bh)))"
proof -
  obtain ii bv bi where rp: "reorder_pops C k 0 0 k bh = (ii, bv, bi)" by (metis prod_cases3)
  have "pops_inv C k (pairs bh) 0 0 (pairs bh)" using assms by (simp add: pops_inv_def)
  from reorder_pops_correct [OF this assms(2) _ assms(3) _ rp] assms
  have inv: "pops_inv C k (pairs bh) k ii (pairs (bv, bi))" and sl: "same_len (bv, bi) n" by auto
  let ?S = "take ii (drop (k - ii) (pairs (bv, bi)))"
  let ?mv = "(memmove_front (k - ii) ii bv, memmove_front (k - ii) ii bi)"
  have ii: "ii \<le> k" using inv by (simp add: pops_inv_def)
  have lS: "length ?S = ii" using sl ii assms(3) by simp
  have sm: "same_len ?mv n" using sl ii assms(3) by (auto simp: same_len_def memmove_front_def)
  have "pairs ?mv = memmove_front (k - ii) ii (pairs (bv, bi))"
    using sl by (simp add: pairs_def same_len_def memmove_front_zip)
  then have tS: "take ii (pairs ?mv) = ?S" using lS by (simp add: memmove_front_def)
  have "heap_reorder C k (fst bh) (snd bh) = (ii, fill_neutral C ii (k - ii) ?mv)"
    using rp by (simp add: heap_reorder_def)
  then have nel: "nel = ii" and bh': "bh' = fill_neutral C ii (k - ii) ?mv" using r by auto
  have "pairs bh' = ?S @ replicate (k - ii) (neutral C, -1) @ drop k (pairs ?mv)"
    using pairs_fill_neutral [OF sm, of ii "k - ii" C] ii assms(3) tS bh' by simp
  then have "take k (pairs bh') = ?S @ replicate (k - ii) (neutral C, -1)"
    using lS ii by simp
  then show ?thesis using inv lS nel ii by (auto simp: pops_inv_def Let_def live_def)
qed

end

end
