(* ===== verification/Result_Handlers.thy ===== *)
theory Result_Handlers
  imports Heap_Sort
begin

text \<open>
  \<open>faiss/impl/ResultHandler.h\<close>: the objects that collect the results of a search. A search
  routine sees a handler through the virtual interface \<open>ResultHandler<C>\<close> (a threshold and
  \<open>add_result\<close>), modelled by the record \<open>result_handler\<close> of operations on a handler state.
  Modelled handlers: the single-result one (\<open>Top1BlockResultHandler\<close>) and the heap
  (\<open>HeapBlockResultHandler\<close>), each with its one-result and its block interface.
\<close>

section \<open>The virtual interface\<close>

text \<open>\<open>heap_k\<close> stands for the \<open>dynamic_cast\<close> to the heap handler that \<open>HNSW.cpp\<close> makes.\<close>

record ('r, 'd) result_handler =
  threshold_of :: "'r \<Rightarrow> 'd"
  add_result :: "'r \<Rightarrow> 'd \<Rightarrow> idx_t \<Rightarrow> 'r \<times> bool"
  heap_k :: "'r \<Rightarrow> nat option"

text \<open>A sequence of offers to a handler.\<close>

definition offers :: "('r, 'd) result_handler \<Rightarrow> 'r \<Rightarrow> ('d \<times> idx_t) list \<Rightarrow> 'r" where
  "offers H r ps = foldl (\<lambda>r p. fst (add_result H r (fst p) (snd p))) r ps"

text \<open>
  The contract search routines rely on: a handler has contents; what it takes beats the threshold, and the
  threshold changes only when it says so; an offer joins the contents, at most evicting others; an offer that does not beat the
  threshold changes nothing.
\<close>

locale result_collector =
  fixes C :: "'d comparator"
    and H :: "('r, 'd) result_handler"
    and contents :: "'r \<Rightarrow> ('d \<times> idx_t) multiset"
    and inv :: "'r \<Rightarrow> bool"
  assumes add_taken: "inv r \<Longrightarrow> snd (add_result H r d i) \<Longrightarrow> cmp C (threshold_of H r) d"
    and add_untaken: "inv r \<Longrightarrow> \<not> snd (add_result H r d i) \<Longrightarrow> threshold_of H (fst (add_result H r d i)) = threshold_of H r"
    and add_rejected: "inv r \<Longrightarrow> \<not> cmp C (threshold_of H r) d \<Longrightarrow> fst (add_result H r d i) = r"
    and add_contents: "inv r \<Longrightarrow> contents (fst (add_result H r d i)) \<subseteq># add_mset (d, i) (contents r)"
    and add_inv: "inv r \<Longrightarrow> inv (fst (add_result H r d i))"
    and add_heap_k: "heap_k H (fst (add_result H r d i)) = heap_k H r"
begin

text \<open>
  The guard that the search loops put before \<open>add_result\<close> never changes what the handler
  holds: offering without the guard has the same effect.
\<close>

lemma guarded_offer:
  "inv r \<Longrightarrow> (if cmp C (threshold_of H r) d then fst (add_result H r d i) else r) =
     fst (add_result H r d i)"
  by (simp add: add_rejected)

lemma offers_inv: "inv r \<Longrightarrow> inv (offers H r ps)"
  by (induction ps arbitrary: r) (auto simp: offers_def add_inv)

lemma offers_contents: "inv r \<Longrightarrow> contents (offers H r ps) \<subseteq># contents r + mset ps"
proof (induction ps arbitrary: r)
  case Nil
  then show ?case by (simp add: offers_def)
next
  case (Cons p ps)
  let ?r = "fst (add_result H r (fst p) (snd p))"
  have "contents (offers H ?r ps) \<subseteq># contents ?r + mset ps" using Cons add_inv by blast
  also have "\<dots> \<subseteq># add_mset p (contents r) + mset ps"
    using add_contents [OF Cons.prems, of "fst p" "snd p"] by (simp add: subset_mset.add_right_mono)
  finally show ?case by (simp add: offers_def)
qed

lemma offers_heap_k: "heap_k H (offers H r ps) = heap_k H r"
  by (induction ps arbitrary: r) (auto simp: offers_def add_heap_k)

end

text \<open>A handler that keeps the best results takes every offer that beats its threshold.\<close>

locale result_handler_contract = result_collector +
  assumes add_takes: "inv r \<Longrightarrow> cmp C (threshold_of H r) d \<Longrightarrow> snd (add_result H r d i)"
    and add_best: "inv r \<Longrightarrow> keeps_best C (contents r) all \<Longrightarrow>
          keeps_best C (contents (fst (add_result H r d i))) (add_mset (d, i) all)"
begin

lemma offers_best:
  "inv r \<Longrightarrow> keeps_best C (contents r) all \<Longrightarrow> keeps_best C (contents (offers H r ps)) (all + mset ps)"
proof (induction ps arbitrary: r all)
  case Nil
  then show ?case by (simp add: offers_def)
next
  case (Cons p ps)
  let ?r = "fst (add_result H r (fst p) (snd p))"
  have "keeps_best C (contents ?r) (add_mset (fst p, snd p) all)" using Cons.prems by (intro add_best)
  then have "keeps_best C (contents (offers H ?r ps)) (add_mset p all + mset ps)"
    using Cons.IH [OF add_inv [OF Cons.prems(1)], of "fst p" "snd p" "add_mset p all"] by simp
  then show ?case by (simp add: offers_def)
qed

end

section \<open>Heap handler, one result at a time\<close>

record 'd heap_handler =
  hh_k :: nat
  hh_dis :: "'d list"
  hh_ids :: "idx_t list"
  hh_threshold :: 'd

definition hh_begin :: "'d comparator \<Rightarrow> nat \<Rightarrow> 'd list \<Rightarrow> idx_t list \<Rightarrow> 'd heap_handler" where
  "hh_begin C k heap_dis heap_ids =
     (let (bv, bi) = heap_heapify C k (heap_dis, heap_ids) [] None 0
      in \<lparr>hh_k = k, hh_dis = bv, hh_ids = bi, hh_threshold = bv ! 0\<rparr>)"

definition hh_add_result :: "'d comparator \<Rightarrow> 'd heap_handler \<Rightarrow> 'd \<Rightarrow> idx_t \<Rightarrow> 'd heap_handler \<times> bool" where
  "hh_add_result C h d i =
     (if cmp C (hh_threshold h) d then
        let (bv, bi) = heap_replace_top C (hh_k h) (hh_dis h) (hh_ids h) d i
        in (h\<lparr>hh_dis := bv, hh_ids := bi, hh_threshold := bv ! 0\<rparr>, True)
      else (h, False))"

definition hh_end :: "'d comparator \<Rightarrow> 'd heap_handler \<Rightarrow> 'd list \<times> idx_t list" where
  "hh_end C h = snd (heap_reorder C (hh_k h) (hh_dis h) (hh_ids h))"

definition heap_result_handler :: "'d comparator \<Rightarrow> ('d heap_handler, 'd) result_handler" where
  "heap_result_handler C =
     \<lparr>threshold_of = hh_threshold, add_result = hh_add_result C, heap_k = (\<lambda>h. Some (hh_k h))\<rparr>"

section \<open>Heap handler, blocks of results\<close>

text \<open>The result tables hold \<open>k\<close> entries per query; \<open>on_row\<close> applies an operation to row \<open>i\<close>.\<close>

definition row :: "nat \<Rightarrow> nat \<Rightarrow> 'a list \<Rightarrow> 'a list" where
  "row k i xs = take k (drop (i * k) xs)"

definition put_row :: "nat \<Rightarrow> nat \<Rightarrow> 'a list \<Rightarrow> 'a list \<Rightarrow> 'a list" where
  "put_row k i ys xs = take (i * k) xs @ ys @ drop (i * k + k) xs"

definition on_row ::
    "nat \<Rightarrow> ('d list \<times> idx_t list \<Rightarrow> 'd list \<times> idx_t list) \<Rightarrow> nat \<Rightarrow>
     'd list \<times> idx_t list \<Rightarrow> 'd list \<times> idx_t list" where
  "on_row k f i t =
     (let (bv, bi) = f (row k i (fst t), row k i (snd t))
      in (put_row k i bv (fst t), put_row k i bi (snd t)))"

definition heap_begin_multiple ::
    "'d comparator \<Rightarrow> nat \<Rightarrow> nat \<Rightarrow> nat \<Rightarrow> 'd list \<times> idx_t list \<Rightarrow> 'd list \<times> idx_t list" where
  "heap_begin_multiple C k i0 i1 t =
     fold (on_row k (\<lambda>bh. heap_heapify C k bh [] None 0)) [i0..<i1] t"

text \<open>The inner loop of \<open>add_results\<close>: one row of distances, with the threshold kept in a local.\<close>

fun heap_add_row ::
    "'d comparator \<Rightarrow> nat \<Rightarrow> 'd list \<Rightarrow> nat list \<Rightarrow> 'd \<Rightarrow> 'd list \<times> idx_t list \<Rightarrow> 'd list \<times> idx_t list" where
  "heap_add_row C k dis_row [] thresh bh = bh"
| "heap_add_row C k dis_row (j # js) thresh bh =
     (case dis_row of [] \<Rightarrow> bh
      | dis # rest \<Rightarrow>
          if cmp C thresh dis then
            let bh' = heap_replace_top C k (fst bh) (snd bh) dis (int j)
            in heap_add_row C k rest js (fst bh' ! 0) bh'
          else heap_add_row C k rest js thresh bh)"

definition heap_add_results ::
    "'d comparator \<Rightarrow> nat \<Rightarrow> nat \<Rightarrow> nat \<Rightarrow> nat \<Rightarrow> nat \<Rightarrow> 'd list \<Rightarrow>
     'd list \<times> idx_t list \<Rightarrow> 'd list \<times> idx_t list" where
  "heap_add_results C k i0 i1 j0 j1 dis_tab t =
     fold (\<lambda>i. on_row k (\<lambda>bh. heap_add_row C k (row (j1 - j0) (i - i0) dis_tab) [j0..<j1] (fst bh ! 0) bh) i)
       [i0..<i1] t"

definition heap_end_multiple ::
    "'d comparator \<Rightarrow> nat \<Rightarrow> nat \<Rightarrow> nat \<Rightarrow> 'd list \<times> idx_t list \<Rightarrow> 'd list \<times> idx_t list" where
  "heap_end_multiple C k i0 i1 t =
     fold (on_row k (\<lambda>bh. snd (heap_reorder C k (fst bh) (snd bh)))) [i0..<i1] t"

section \<open>Single best result\<close>

record 'd top1_handler =
  t1_threshold :: 'd
  t1_min_idx :: idx_t

definition top1_begin :: "'d comparator \<Rightarrow> 'd top1_handler" where
  "top1_begin C = \<lparr>t1_threshold = neutral C, t1_min_idx = -1\<rparr>"

definition top1_add_result :: "'d comparator \<Rightarrow> 'd top1_handler \<Rightarrow> 'd \<Rightarrow> idx_t \<Rightarrow> 'd top1_handler \<times> bool" where
  "top1_add_result C h d i =
     (if cmp C (t1_threshold h) d then (h\<lparr>t1_threshold := d, t1_min_idx := i\<rparr>, True)
      else (h, False))"

definition top1_end :: "'d top1_handler \<Rightarrow> 'd \<times> idx_t" where
  "top1_end h = (t1_threshold h, t1_min_idx h)"

definition top1_result_handler :: "'d comparator \<Rightarrow> ('d top1_handler, 'd) result_handler" where
  "top1_result_handler C =
     \<lparr>threshold_of = t1_threshold, add_result = top1_add_result C, heap_k = (\<lambda>h. None)\<rparr>"

text \<open>Block interface. \<open>begin_multiple\<close> writes the distances only, not \<open>ids_tab\<close>.\<close>

definition top1_begin_multiple ::
    "'d comparator \<Rightarrow> nat \<Rightarrow> nat \<Rightarrow> 'd list \<times> idx_t list \<Rightarrow> 'd list \<times> idx_t list" where
  "top1_begin_multiple C i0 i1 t = fold (\<lambda>i t. ((fst t)[i := neutral C], snd t)) [i0..<i1] t"

definition top1_table_add ::
    "'d comparator \<Rightarrow> nat \<Rightarrow> 'd \<Rightarrow> idx_t \<Rightarrow> 'd list \<times> idx_t list \<Rightarrow> 'd list \<times> idx_t list" where
  "top1_table_add C i d ident t =
     (if cmp C (fst t ! i) d then ((fst t)[i := d], (snd t)[i := ident]) else t)"

definition top1_add_results ::
    "'d comparator \<Rightarrow> nat \<Rightarrow> nat \<Rightarrow> nat \<Rightarrow> nat \<Rightarrow> 'd list \<Rightarrow>
     'd list \<times> idx_t list \<Rightarrow> 'd list \<times> idx_t list" where
  "top1_add_results C i0 i1 j0 j1 dis_tab t =
     fold (\<lambda>i. fold (\<lambda>j. top1_table_add C i (dis_tab ! ((j1 - j0) * (i - i0) + (j - j0))) (int j)) [j0..<j1])
       [i0..<i1] t"

section \<open>Both handlers meet the contract\<close>

definition hh_pairs :: "'d heap_handler \<Rightarrow> ('d \<times> idx_t) list" where
  "hh_pairs h = pairs (hh_dis h, hh_ids h)"

definition hh_inv :: "'d comparator \<Rightarrow> 'd heap_handler \<Rightarrow> bool" where
  "hh_inv C h \<longleftrightarrow> 0 < hh_k h \<and> length (hh_dis h) = hh_k h \<and> length (hh_ids h) = hh_k h \<and>
     is_heap C (hh_k h) (hh_pairs h) \<and> hh_threshold h = hh_dis h ! 0"

definition t1_contents :: "'d top1_handler \<Rightarrow> ('d \<times> idx_t) multiset" where
  "t1_contents h = {#(t1_threshold h, t1_min_idx h)#}"

lemma hh_inv_same_len: "hh_inv C h \<Longrightarrow> same_len (hh_dis h, hh_ids h) (hh_k h)"
  by (simp add: hh_inv_def same_len_def)

lemma hh_add_offer:
  assumes "hh_inv C h"
  shows "hh_dis (fst (hh_add_result C h d i)) = fst (heap_offer C (hh_k h) (hh_dis h, hh_ids h) d i)"
    and "hh_ids (fst (hh_add_result C h d i)) = snd (heap_offer C (hh_k h) (hh_dis h, hh_ids h) d i)"
    and "hh_k (fst (hh_add_result C h d i)) = hh_k h"
    and "hh_threshold (fst (hh_add_result C h d i)) = hh_dis (fst (hh_add_result C h d i)) ! 0"
  using assms by (auto simp: hh_add_result_def heap_offer_def hh_inv_def case_prod_beta)

context heap_comparator
begin

lemma hh_add_inv:
  assumes "hh_inv C h"
  shows "hh_inv C (fst (hh_add_result C h d i))"
proof -
  have h: "0 < hh_k h" "is_heap C (hh_k h) (pairs (hh_dis h, hh_ids h))"
    using assms by (simp_all add: hh_inv_def hh_pairs_def)
  note ho = heap_offer_correct [OF hh_inv_same_len [OF assms] _ order.refl h(2), where val = d and ident = i]
  show ?thesis using ho h hh_add_offer [OF assms, of d i]
    by (simp add: hh_inv_def hh_pairs_def same_len_def)
qed

lemma hh_add_best:
  assumes "hh_inv C h" "keeps_best C (mset (hh_pairs h)) all"
  shows "keeps_best C (mset (hh_pairs (fst (hh_add_result C h d i)))) (add_mset (d, i) all)"
proof -
  have h: "0 < hh_k h" "is_heap C (hh_k h) (pairs (hh_dis h, hh_ids h))"
    and n: "length (hh_pairs h) = hh_k h"
    using assms(1) by (simp_all add: hh_inv_def hh_pairs_def pairs_def)
  note ho = heap_offer_correct [OF hh_inv_same_len [OF assms(1)] _ order.refl h(2)]
  have "length (pairs (heap_offer C (hh_k h) (hh_dis h, hh_ids h) d i)) = hh_k h"
    using ho(2) h(1) by simp
  then show ?thesis
    using ho(4) [where val = d and ident = i and all = all] h(1) n assms(2) hh_add_offer [OF assms(1), of d i]
    by (simp add: hh_pairs_def)
qed

lemma hh_add_contents:
  "hh_inv C h \<Longrightarrow> mset (hh_pairs (fst (hh_add_result C h d i))) \<subseteq># add_mset (d, i) (mset (hh_pairs h))"
  using hh_add_best [of h "mset (hh_pairs h)" d i] keeps_best_refl [of C "mset (hh_pairs h)"]
  by (auto simp: keeps_best_def)

lemma heap_handler_contract:
  "result_handler_contract C (heap_result_handler C) (\<lambda>h. mset (hh_pairs h)) (hh_inv C)"
proof unfold_locales
  fix r :: "'d heap_handler" and d i
  assume "\<not> cmp C (threshold_of (heap_result_handler C) r) d"
  then show "fst (add_result (heap_result_handler C) r d i) = r"
    by (simp add: heap_result_handler_def hh_add_result_def)
qed (simp_all add: heap_result_handler_def hh_add_contents hh_add_inv hh_add_best,
     simp_all add: hh_add_result_def case_prod_beta split: if_splits)

lemmas heap_handler_collector = result_handler_contract.axioms(1) [OF heap_handler_contract]

lemma top1_keeps_best:
  assumes "keeps_best C (t1_contents h) all"
  shows "keeps_best C (t1_contents (fst (top1_add_result C h d i))) (add_mset (d, i) all)"
proof (cases "cmp C (t1_threshold h) d")
  case True
  from assms obtain R where R: "all = t1_contents h + R" "\<forall>r \<in># R. \<not> cmp C (t1_threshold h) (fst r)"
    by (auto simp: keeps_best_def t1_contents_def)
  have "\<not> cmp C d (fst r)" if "r \<in># t1_contents h + R" for r
    using that R(2) True cmp_trans [OF True] cmp_asym by (auto simp: t1_contents_def)
  then show ?thesis using True R(1)
    by (auto simp: keeps_best_def top1_add_result_def t1_contents_def intro!: exI [of _ "t1_contents h + R"])
next
  case False
  from assms obtain R where R: "all = t1_contents h + R" "\<forall>r \<in># R. \<not> cmp C (t1_threshold h) (fst r)"
    by (auto simp: keeps_best_def t1_contents_def)
  then show ?thesis using False
    by (auto simp: keeps_best_def top1_add_result_def t1_contents_def intro!: exI [of _ "add_mset (d, i) R"])
qed

lemma top1_handler_contract:
  "result_handler_contract C (top1_result_handler C) t1_contents (\<lambda>_. True)"
  by unfold_locales
    (simp_all add: top1_result_handler_def top1_keeps_best,
     simp_all add: top1_add_result_def t1_contents_def split: if_splits)

end

interpretation heap_handler: result_handler_contract "CMax l h" "heap_result_handler (CMax l h)"
  "\<lambda>r. mset (hh_pairs r)" "hh_inv (CMax l h)" for l h :: "'d :: linorder"
  by (rule cmax.heap_handler_contract)

interpretation top1_handler: result_handler_contract "CMax l h" "top1_result_handler (CMax l h)"
  t1_contents "\<lambda>_. True" for l h :: "'d :: linorder"
  by (rule cmax.top1_handler_contract)

end
