(* ===== verification/Top_K.thy ===== *)
theory Top_K
  imports Result_Handlers
begin

text \<open>
  What the heap result handler delivers: after \<open>begin\<close>, any number of \<open>add_result\<close> calls and
  \<open>end\<close>, the result arrays hold the best \<open>k\<close> offers in order, padded with \<open>(neutral, -1)\<close>.
  The block interface of the handlers delivers the same per query.
\<close>

section \<open>One query\<close>

definition hh_offers :: "'d comparator \<Rightarrow> 'd heap_handler \<Rightarrow> ('d \<times> idx_t) list \<Rightarrow> 'd heap_handler" where
  "hh_offers C h ps = foldl (\<lambda>h p. fst (hh_add_result C h (fst p) (snd p))) h ps"

definition hh_collect ::
    "'d comparator \<Rightarrow> nat \<Rightarrow> 'd list \<Rightarrow> idx_t list \<Rightarrow> ('d \<times> idx_t) list \<Rightarrow> 'd list \<times> idx_t list" where
  "hh_collect C k D I ps = hh_end C (hh_offers C (hh_begin C k D I) ps)"

text \<open>The result arrays that answer a query over the offers \<open>ps\<close>.\<close>

definition topk_result ::
    "'d comparator \<Rightarrow> nat \<Rightarrow> ('d \<times> idx_t) list \<Rightarrow> ('d \<times> idx_t) list \<Rightarrow> bool" where
  "topk_result C k ps out \<longleftrightarrow>
     (\<exists>S R. out = S @ replicate (k - length S) (neutral C, -1)
        \<and> length S = min k (length ps)
        \<and> mset ps = mset S + R
        \<and> sorted_wrt (\<lambda>p q. \<not> cmpp C p q) S
        \<and> (\<forall>p \<in> set S. \<forall>r \<in># R. \<not> cmp C (fst p) (fst r)))"

lemma live_union [simp]: "live (A + B) = live A + live B"
  by (simp add: live_def)

lemma live_replicate_dead [simp]: "live (replicate_mset k (x, -1)) = {#}"
  by (induction k) (simp_all add: live_def)

lemma live_all: "(\<And>p. p \<in># M \<Longrightarrow> snd p \<noteq> -1) \<Longrightarrow> live M = M"
  by (simp add: live_def filter_mset_eq_conv)

lemma live_split: "M = live M + {#p \<in># M. snd p = -1#}"
  using multiset_partition [of M "\<lambda>p. snd p \<noteq> -1"] by (simp add: live_def)

context heap_comparator
begin

lemma hh_begin_inv:
  assumes "0 < k" "length D = k" "length I = k"
  shows "hh_inv C (hh_begin C k D I)"
    and "hh_pairs (hh_begin C k D I) = replicate k (neutral C, -1)"
    and "hh_k (hh_begin C k D I) = k"
proof -
  have sl: "same_len (D, I) k" using assms by (simp add: same_len_def)
  note h = heap_heapify_empty [OF sl order.refl, of C]
  show p: "hh_pairs (hh_begin C k D I) = replicate k (neutral C, -1)"
    using h(1) sl by (simp add: hh_begin_def hh_pairs_def case_prod_beta)
  show k: "hh_k (hh_begin C k D I) = k" by (simp add: hh_begin_def case_prod_beta)
  show "hh_inv C (hh_begin C k D I)"
    using p k h(2) assms is_heap_const [of k "(neutral C, -1)" "[]"]
    by (simp add: hh_inv_def same_len_def) (simp add: hh_begin_def case_prod_beta)
qed

lemma hh_offers_eq: "offers (heap_result_handler C) h ps = hh_offers C h ps"
  by (simp add: offers_def hh_offers_def heap_result_handler_def)

lemma hh_offers_inv:
  assumes "hh_inv C h"
  shows "hh_inv C (hh_offers C h ps)" and "hh_k (hh_offers C h ps) = hh_k h"
    and "keeps_best C (mset (hh_pairs h)) all \<Longrightarrow>
      keeps_best C (mset (hh_pairs (hh_offers C h ps))) (all + mset ps)"
  using result_collector.offers_inv [OF heap_handler_collector assms, of ps]
    result_collector.offers_heap_k [OF heap_handler_collector, of h ps]
    result_handler_contract.offers_best [OF heap_handler_contract assms, of all ps]
  by (simp_all add: hh_offers_eq) (simp add: heap_result_handler_def)

lemma hh_end_topk:
  assumes inv: "hh_inv C h" and k: "hh_k h = k"
    and best: "keeps_best C (mset (hh_pairs h)) (mset (replicate k (neutral C, -1)) + mset ps)"
    and ps: "\<And>p. p \<in> set ps \<Longrightarrow> snd p \<noteq> -1 \<and> cmp C (neutral C) (fst p)"
  shows "topk_result C k ps (pairs (hh_end C h))"
proof -
  let ?B = "hh_pairs h" and ?N = "(neutral C, -1 :: int)"
  have h: "is_heap C k (pairs (hh_dis h, hh_ids h))" and sl: "same_len (hh_dis h, hh_ids h) k"
    and lB: "length ?B = k"
    using inv k by (simp_all add: hh_inv_def hh_pairs_def same_len_def pairs_def)
  obtain nel bh' where r: "heap_reorder C k (hh_dis h) (hh_ids h) = (nel, bh')" by (metis surj_pair)
  with heap_reorder_correct [OF h sl order.refl] obtain S where
    S: "take k (pairs bh') = S @ replicate (k - nel) ?N" "length S = nel" "nel \<le> k"
      "sorted_wrt (\<lambda>p q. \<not> cmpp C p q) S" "mset S = live (mset ?B)"
    using lB by (auto simp: hh_pairs_def)
  have "length (pairs bh') = k"
    using heap_reorder_length [OF h sl order.refl] r by simp
  then have out: "pairs (hh_end C h) = S @ replicate (k - length S) ?N"
    using S(1,2) r k by (simp add: hh_end_def)
  from best obtain rej where rej: "mset (replicate k ?N) + mset ps = mset ?B + rej"
    "\<And>p r. p \<in> set ?B \<Longrightarrow> r \<in># rej \<Longrightarrow> \<not> cmp C (fst p) (fst r)"
    by (auto simp: keeps_best_def)
  have "live (mset ps) = mset ps" using ps by (intro live_all) auto
  then have mps: "mset ps = mset S + live rej"
    using arg_cong [OF rej(1), of live] S(5) by simp
  have Ssub: "set S \<subseteq> set ?B" using arg_cong [OF S(5), of set_mset] by (auto simp: live_def)
  have len: "length S = min k (length ps)"
  proof (cases "length S = k")
    case True
    then show ?thesis using arg_cong [OF mps, of size] by simp
  next
    case False
    obtain p where p: "p \<in> set ?B" "snd p = -1"
    proof (rule ccontr)
      assume "\<not> thesis"
      then have "live (mset ?B) = mset ?B" using that by (intro live_all) auto
      then show False using arg_cong [OF S(5), of size] False lB by simp
    qed
    have "p \<in># mset (replicate k ?N) + mset ps" using p(1) rej(1) by simp
    moreover have "p \<notin> set ps" using p(2) ps by blast
    ultimately have "p = ?N" by (auto split: if_splits)
    then have "\<not> cmp C (neutral C) (fst r)" if "r \<in># rej" for r using rej(2) [OF p(1) that] by simp
    moreover have "cmp C (neutral C) (fst r)" if "r \<in># live rej" for r
    proof -
      have "r \<in># mset ps" unfolding mps using that by simp
      then show ?thesis using ps by simp
    qed
    moreover have "r \<in># rej" if "r \<in># live rej" for r using that by (simp add: live_def)
    ultimately have "live rej = {#}" by (meson multiset_nonemptyE)
    then show ?thesis using arg_cong [OF mps, of size] S(2,3) by simp
  qed
  show ?thesis unfolding topk_result_def
    using out len mps S(4) rej(2) Ssub by (intro exI [of _ S] exI [of _ "live rej"]) (auto simp: live_def)
qed

lemma hh_collect_topk:
  assumes "0 < k" "length D = k" "length I = k"
    and "\<And>p. p \<in> set ps \<Longrightarrow> snd p \<noteq> -1 \<and> cmp C (neutral C) (fst p)"
  shows "topk_result C k ps (pairs (hh_collect C k D I ps))"
proof -
  note b = hh_begin_inv [OF assms(1-3)]
  note o = hh_offers_inv [OF b(1), where ps = ps]
  show ?thesis unfolding hh_collect_def
  proof (rule hh_end_topk [OF o(1)])
    show "hh_k (hh_offers C (hh_begin C k D I) ps) = k" using o(2) b(3) by simp
    show "keeps_best C (mset (hh_pairs (hh_offers C (hh_begin C k D I) ps)))
        (mset (replicate k (neutral C, -1)) + mset ps)"
      using hh_offers_inv(3) [OF b(1) keeps_best_refl] b(2) by simp
  qed (use assms(4) in auto)
qed

end

section \<open>Properties\<close>

lemma in_set_take_pairs_0: "same_len bh n \<Longrightarrow> 1 \<le> k \<Longrightarrow> k \<le> n \<Longrightarrow> at1 (pairs bh) 1 = (fst bh ! 0, snd bh ! 0)"
  using pairs_nth [of bh n 0] by (simp add: at1_def)

text \<open>
  \<open>heap_pop\<close> (\<open>utils/Heap.h\<close>) on a heap of size \<open>k\<close> in two parallel arrays removes exactly
  the top element, which is the extreme one under \<open>C::cmp2\<close>: the first \<open>k - 1\<close> entries are a
  heap holding the other elements, and nothing behind the heap is touched.
\<close>

theorem heap_pop_spec:
  assumes "is_trait C" "is_heap C k (pairs bh)" "same_len bh n" "1 \<le> k" "k \<le> n"
  shows "is_heap C (k - 1) (pairs (heap_pop C k (fst bh) (snd bh)))
    \<and> mset (take (k - 1) (pairs (heap_pop C k (fst bh) (snd bh)))) =
        mset (take k (pairs bh)) - {#(fst bh ! 0, snd bh ! 0)#}
    \<and> (\<forall>p \<in> set (take k (pairs bh)). \<not> cmpp C p (fst bh ! 0, snd bh ! 0))
    \<and> drop k (pairs (heap_pop C k (fst bh) (snd bh))) = drop k (pairs bh)"
proof -
  note hc = is_trait_heap_comparator [OF assms(1)]
  have k: "k \<le> length (pairs bh)" using assms by simp
  note top = in_set_take_pairs_0 [OF assms(3-5)]
  show ?thesis
    using heap_comparator.pheap_pop_correct [OF hc assms(2,4) k]
      heap_comparator.is_heap_top_set [OF hc assms(2) k] heap_pop_pairs(1) [OF assms(3-5), of C] top
    by simp
qed

theorem heap_pop_spec_witness:
  "mset (take 2 (pairs (heap_pop (CMax 0 100) 3 [7, 3, 5 :: int] [10, 11, 12]))) =
     {#(5, 12), (3, 11)#}"
proof -
  have "is_heap (CMax 0 100) 3 (pairs ([7, 3, 5 :: int], [10, 11, 12]))" by code_simp
  moreover have "same_len ([7, 3, 5 :: int], [10, 11, 12]) 3" by (simp add: same_len_def)
  ultimately show ?thesis
    using heap_pop_spec [of "CMax 0 100" 3 "([7, 3, 5 :: int], [10, 11, 12])" 3]
    by (simp add: pairs_def)
qed

text \<open>
  \<open>heap_push\<close> adds exactly the new element to a heap of size \<open>k - 1\<close> and yields a heap of size
  \<open>k\<close>; \<open>heap_replace_top\<close> exchanges exactly the top element for the new one and keeps the heap.
\<close>

theorem heap_push_replace_spec:
  assumes "is_trait C" "is_heap C k (pairs bh)" "same_len bh n" "k < n"
  shows "is_heap C (k + 1) (pairs (heap_push C (k + 1) (fst bh) (snd bh) v i))
    \<and> mset (take (k + 1) (pairs (heap_push C (k + 1) (fst bh) (snd bh) v i))) =
        add_mset (v, i) (mset (take k (pairs bh)))
    \<and> (1 \<le> k \<longrightarrow>
        is_heap C k (pairs (heap_replace_top C k (fst bh) (snd bh) v i))
        \<and> mset (take k (pairs (heap_replace_top C k (fst bh) (snd bh) v i))) =
            add_mset (v, i) (mset (take k (pairs bh)) - {#(fst bh ! 0, snd bh ! 0)#}))"
proof -
  note hc = is_trait_heap_comparator [OF assms(1)]
  have k: "k + 1 \<le> length (pairs bh)" "k \<le> length (pairs bh)" using assms by simp_all
  have "is_heap C (k + 1 - 1) (pairs bh)" using assms(2) by simp
  from heap_comparator.pheap_push_correct [OF hc this _ k(1), of v i]
    heap_push_pairs(1) [OF assms(3), of "k + 1" C v i]
  have push: "is_heap C (k + 1) (pairs (heap_push C (k + 1) (fst bh) (snd bh) v i))"
    "mset (take (k + 1) (pairs (heap_push C (k + 1) (fst bh) (snd bh) v i))) =
      add_mset (v, i) (mset (take k (pairs bh)))"
    using assms(4) by simp_all
  show ?thesis
    using push heap_comparator.pheap_replace_top_correct [OF hc assms(2) _ k(2), of v i]
      heap_replace_top_pairs(1) [OF assms(3), of k C v i] in_set_take_pairs_0 [OF assms(3), of k] assms(4)
    by simp
qed

theorem heap_push_replace_spec_witness:
  "mset (take 3 (pairs (heap_push (CMin 0 100) 3 [2, 6, 9 :: int] [1, 2, 3] 4 8))) =
     {#(4, 8), (2, 1), (6, 2)#}"
proof -
  have "is_heap (CMin 0 100) 2 (pairs ([2, 6, 9 :: int], [1, 2, 3]))" by code_simp
  moreover have "same_len ([2, 6, 9 :: int], [1, 2, 3]) 3" by (simp add: same_len_def)
  ultimately show ?thesis
    using heap_push_replace_spec [of "CMin 0 100" 2 "([2, 6, 9 :: int], [1, 2, 3])" 3 4 8]
    by (simp add: pairs_def)
qed

text \<open>
  The heap routines on two parallel arrays (\<open>bh_val\<close>, \<open>bh_ids\<close>) and those on one array of
  \<open>std::pair\<close>, two separate copies in \<open>utils/Heap.h\<close>, compute the same heaps.
\<close>

theorem heap_layouts_agree:
  assumes "same_len bh n" "1 \<le> k" "k \<le> n"
  shows "pairs (heap_pop C k (fst bh) (snd bh)) = pheap_pop C k (pairs bh)
    \<and> pairs (heap_push C k (fst bh) (snd bh) v i) = pheap_push C k (pairs bh) v i
    \<and> pairs (heap_replace_top C k (fst bh) (snd bh) v i) = pheap_replace_top C k (pairs bh) v i"
  using array_heap_pairs [OF assms] by blast

theorem heap_layouts_agree_witness:
  "pairs (heap_push (CMax 0 100) 3 [7, 3, 5] [10, 11, 12] (9 :: int) 20) = [(9, 20), (3, 11), (7, 10)]"
proof -
  have "same_len ([7, 3, 5 :: int], [10, 11, 12]) 3" by (simp add: same_len_def)
  then have "pairs (heap_push (CMax 0 100) 3 [7, 3, 5 :: int] [10, 11, 12] 9 20) =
      pheap_push (CMax 0 100) 3 (pairs ([7, 3, 5 :: int], [10, 11, 12])) 9 20"
    using heap_layouts_agree [of "([7, 3, 5 :: int], [10, 11, 12])" 3 3 "CMax 0 100" 9 20] by simp
  also have "\<dots> = [(9, 20), (3, 11), (7, 10)]" by code_simp
  finally show ?thesis .
qed

text \<open>
  \<open>heap_reorder\<close> turns a heap of size \<open>k\<close> into a result list: its live entries (id not \<open>-1\<close>)
  in order, best first, then padding with \<open>(neutral, -1)\<close>; it returns the number of live entries.
\<close>

theorem heap_reorder_sorts:
  assumes "is_trait C" "is_heap C k (pairs bh)" "same_len bh n" "k \<le> n"
    and "heap_reorder C k (fst bh) (snd bh) = (nel, bh')"
  shows "\<exists>S. take k (pairs bh') = S @ replicate (k - nel) (neutral C, -1)
    \<and> length S = nel
    \<and> sorted_wrt (\<lambda>p q. \<not> cmpp C p q) S
    \<and> mset S = {#p \<in># mset (take k (pairs bh)). snd p \<noteq> -1#}"
  using heap_comparator.heap_reorder_correct [OF is_trait_heap_comparator [OF assms(1)] assms(2-5)]
  by (auto simp: live_def)

theorem heap_reorder_sorts_witness:
  "\<exists>S. take 3 (pairs ([2, 7, 100 :: int], [11, 10, -1])) = S @ replicate 1 (100, -1)
    \<and> length S = 2 \<and> sorted_wrt (\<lambda>p q. \<not> cmpp (CMax 0 100) p q) S
    \<and> mset S = {#(7, 10), (2, 11)#}"
proof -
  have "is_heap (CMax 0 100) 3 (pairs ([7, 5, 2 :: int], [10, -1, 11]))" by code_simp
  moreover have "same_len ([7, 5, 2 :: int], [10, -1, 11]) 3" by (simp add: same_len_def)
  moreover have "heap_reorder (CMax 0 100) 3 [7, 5, 2 :: int] [10, -1, 11] = (2, [2, 7, 100], [11, 10, -1])"
    by code_simp
  ultimately show ?thesis
    using heap_reorder_sorts [of "CMax 0 100" 3 "([7, 5, 2 :: int], [10, -1, 11])" 3 2]
    by (simp add: pairs_def)
qed

text \<open>
  \<open>heap_addn\<close> on a heap of fixed size \<open>k\<close>: what the heap holds afterwards is a best part of
  what it held before together with the \<open>n\<close> elements offered (ids given, or \<open>0..n-1\<close>).
\<close>

theorem heap_addn_keeps_best:
  assumes "is_trait C" "is_heap C k (pairs bh)" "same_len bh m" "1 \<le> k" "k \<le> m"
  shows "\<exists>R. mset (take k (pairs bh)) + mset (map (\<lambda>j. (x ! j, case ids of Some ix \<Rightarrow> ix ! j | None \<Rightarrow> int j)) [0..<n])
        = mset (take k (pairs (heap_addn C k bh x ids n))) + R
    \<and> (\<forall>p \<in> set (take k (pairs (heap_addn C k bh x ids n))). \<forall>r \<in># R. \<not> cmp C (fst p) (fst r))
    \<and> is_heap C k (pairs (heap_addn C k bh x ids n))"
  using heap_comparator.heap_addn_from_correct [OF is_trait_heap_comparator [OF assms(1)]
      assms(3,4,5,2) keeps_best_refl, of x ids 0 n]
  by (auto simp: heap_addn_def keeps_best_def offered_def ids_from_def)

theorem heap_addn_keeps_best_witness:
  "\<exists>R. {#(7, 10), (3, 11)#} + {#(1, 0), (9, 1), (2, 2)#}
      = mset (take 2 (pairs (heap_addn (CMax 0 100) 2 ([7, 3], [10, 11]) [1, 9, 2 :: int] None 3))) + R"
proof -
  have "is_heap (CMax 0 100) 2 (pairs ([7, 3 :: int], [10, 11]))" by code_simp
  moreover have "same_len ([7, 3 :: int], [10, 11]) 2" by (simp add: same_len_def)
  ultimately show ?thesis
    using heap_addn_keeps_best [of "CMax 0 100" 2 "([7, 3 :: int], [10, 11])" 2 "[1, 9, 2]" None 3]
    by (auto simp: pairs_def numeral_3_eq_3 add.commute)
qed

text \<open>
  The heap result handler (\<open>HeapBlockResultHandler::SingleResultHandler\<close>) returns the k best:
  for any sequence of offers with valid ids and distances better than \<open>C::neutral()\<close>, the result
  arrays after \<open>end()\<close> hold \<open>min k n\<close> of the offers, in order, none of the others better than
  any of them, followed by padding.
\<close>

theorem heap_handler_topk:
  assumes "is_trait C" "0 < k" "length D = k" "length I = k"
    and "\<And>p. p \<in> set ps \<Longrightarrow> snd p \<noteq> -1 \<and> cmp C (neutral C) (fst p)"
  shows "\<exists>S R. pairs (hh_collect C k D I ps) = S @ replicate (k - length S) (neutral C, -1)
    \<and> length S = min k (length ps)
    \<and> mset ps = mset S + R
    \<and> sorted_wrt (\<lambda>p q. \<not> cmpp C p q) S
    \<and> (\<forall>p \<in> set S. \<forall>r \<in># R. \<not> cmp C (fst p) (fst r))"
  using heap_comparator.hh_collect_topk [OF is_trait_heap_comparator [OF assms(1)] assms(2-5)]
  by (simp add: topk_result_def)

theorem heap_handler_topk_witness:
  "\<exists>S R. pairs (hh_collect (CMax 0 100) 2 [0, 0] [0, 0] [(7, 1), (3 :: int, 5), (4, 2)]) = S
    \<and> length S = 2 \<and> mset [(7, 1), (3 :: int, 5), (4, 2)] = mset S + R"
proof -
  have ok: "snd p \<noteq> -1 \<and> cmp (CMax 0 100) (neutral (CMax 0 100)) (fst p)"
    if "p \<in> set [(7, 1), (3 :: int, 5), (4, 2)]" for p :: "int \<times> int"
    using that by auto
  obtain S R where
    "pairs (hh_collect (CMax 0 100) 2 [0, 0] [0, 0] [(7, 1), (3 :: int, 5), (4, 2)]) =
        S @ replicate (2 - length S) (neutral (CMax 0 100), -1)"
    and len: "length S = min 2 (length [(7, 1), (3 :: int, 5), (4 :: int, 2 :: int)])"
    and "mset [(7, 1), (3 :: int, 5), (4, 2)] = mset S + R"
    using heap_handler_topk [of "CMax 0 100" 2 "[0, 0]" "[0, 0]" "[(7, 1), (3, 5), (4, 2)]", OF is_trait_CMax _ _ _ ok]
    by auto
  moreover from len have "length S = 2" by simp
  ultimately show ?thesis by (metis append_Nil2 diff_self_eq_0 replicate_0)
qed

end
