(* ===== verification/Block_Handlers.thy ===== *)
theory Block_Handlers
  imports Top_K
begin

text \<open>
  The block interface of the result handlers (\<open>begin_multiple\<close>, \<open>add_results\<close>,
  \<open>end_multiple\<close>) and its agreement with the interface that takes one result at a time.
\<close>

section \<open>Rows of the result tables\<close>

lemma length_row [len_simps]: "i * k + k \<le> length xs \<Longrightarrow> length (row k i xs) = k"
  by (simp add: row_def)

lemma length_put_row [len_simps]:
  "i * k + k \<le> length xs \<Longrightarrow> length ys = k \<Longrightarrow> length (put_row k i ys xs) = length xs"
  by (simp add: put_row_def)

lemma row_put_row_same: "i * k + k \<le> length xs \<Longrightarrow> length ys = k \<Longrightarrow> row k i (put_row k i ys xs) = ys"
  by (simp add: row_def put_row_def min_def)

lemma row_end_le: "i < n \<Longrightarrow> i * k + k \<le> n * (k :: nat)"
  by (metis Suc_leI add.commute mult_Suc mult_le_mono1)

lemma row_put_row_other:
  assumes "i \<noteq> j" "length ys = k" "i * k + k \<le> length xs" "j * k + k \<le> length xs"
  shows "row k j (put_row k i ys xs) = row k j xs"
proof (cases "j < i")
  case True
  then have "j * k + k \<le> i * k" by (rule row_end_le)
  then have "take k (drop (j * k) (take (i * k) xs)) = take k (drop (j * k) xs)"
    by (simp add: drop_take min_def)
  then show ?thesis using assms \<open>j * k + k \<le> i * k\<close> by (auto simp: row_def put_row_def)
next
  case False
  then have "i * k + k \<le> j * k" using assms(1) by (intro row_end_le) simp
  then have le: "i * k + k \<le> j * k" .
  have "drop (j * k) (put_row k i ys xs) = drop (j * k - (i * k + k)) (drop (i * k + k) xs)"
  proof -
    have "put_row k i ys xs = (take (i * k) xs @ ys) @ drop (i * k + k) xs"
      and "length (take (i * k) xs @ ys) = i * k + k" using assms by (simp_all add: put_row_def)
    then show ?thesis using le by (metis append_Nil drop_all drop_append)
  qed
  also have "\<dots> = drop (j * k) xs" using le by simp
  finally show ?thesis by (simp add: row_def)
qed

definition row2 :: "nat \<Rightarrow> nat \<Rightarrow> 'd list \<times> idx_t list \<Rightarrow> 'd list \<times> idx_t list" where
  "row2 k i t = (row k i (fst t), row k i (snd t))"

definition keeps_len :: "nat \<Rightarrow> ('d list \<times> idx_t list \<Rightarrow> 'd list \<times> idx_t list) \<Rightarrow> bool" where
  "keeps_len k f \<longleftrightarrow> (\<forall>bh. same_len bh k \<longrightarrow> same_len (f bh) k)"

lemma same_len_row2: "same_len t (nq * k) \<Longrightarrow> i < nq \<Longrightarrow> same_len (row2 k i t) k"
  using row_end_le [of i nq k] by (simp add: same_len_def row2_def length_row)

lemma on_row_row2:
  assumes "same_len t (nq * k)" "i < nq" "keeps_len k f"
  shows "same_len (on_row k f i t) (nq * k)"
    and "j < nq \<Longrightarrow> row2 k j (on_row k f i t) = (if i = j then f (row2 k j t) else row2 k j t)"
proof -
  obtain bv bi where f: "f (row k i (fst t), row k i (snd t)) = (bv, bi)" by (metis surj_pair)
  have "same_len (f (row2 k i t)) k" using assms same_len_row2 unfolding keeps_len_def by blast
  then have l: "length bv = k" "length bi = k" using f by (simp_all add: same_len_def row2_def)
  have t: "length (fst t) = nq * k" "length (snd t) = nq * k"
    using assms(1) by (simp_all add: same_len_def)
  note le = row_end_le [OF assms(2), of k]
  show "same_len (on_row k f i t) (nq * k)"
    using f l t le by (simp add: on_row_def same_len_def length_put_row)
  assume j: "j < nq"
  note lej = row_end_le [OF j, of k]
  show "row2 k j (on_row k f i t) = (if i = j then f (row2 k j t) else row2 k j t)"
    using f l t le lej
    by (auto simp: on_row_def row2_def row_put_row_same row_put_row_other)
qed

text \<open>A pass over the rows \<open>[i0, i1)\<close> applies the row operation once to each and to no other row.\<close>

lemma fold_on_row:
  assumes "same_len t (nq * k)" "i0 \<le> i1" "i1 \<le> nq"
    and "\<And>i. i0 \<le> i \<Longrightarrow> i < i1 \<Longrightarrow> keeps_len k (f i)"
  shows "same_len (fold (\<lambda>i. on_row k (f i) i) [i0..<i1] t) (nq * k) \<and>
    (\<forall>j < nq. row2 k j (fold (\<lambda>i. on_row k (f i) i) [i0..<i1] t) =
       (if i0 \<le> j \<and> j < i1 then f j (row2 k j t) else row2 k j t))"
  using assms(2,3,4)
proof (induction i1 rule: dec_induct)
  case base
  then show ?case using assms(1) by auto
next
  case (step m)
  let ?t = "fold (\<lambda>i. on_row k (f i) i) [i0..<m] t"
  have IH: "same_len ?t (nq * k)"
    "\<forall>j < nq. row2 k j ?t = (if i0 \<le> j \<and> j < m then f j (row2 k j t) else row2 k j t)"
    using step by simp_all
  have m: "m < nq" "keeps_len k (f m)" using step.prems step.hyps by simp_all
  note r = on_row_row2 [OF IH(1) m]
  have e: "fold (\<lambda>i. on_row k (f i) i) [i0..<Suc m] t = on_row k (f m) m ?t"
    using step.hyps by simp
  show ?case unfolding e
  proof (intro conjI allI impI)
    fix j assume j: "j < nq"
    show "row2 k j (on_row k (f m) m ?t) = (if i0 \<le> j \<and> j < Suc m then f j (row2 k j t) else row2 k j t)"
      using r(2) [OF j] IH(2) j step.hyps by (auto simp: less_Suc_eq)
  qed (rule r(1))
qed

section \<open>The row operations keep the lengths\<close>

lemma length_heap_sift_down:
  "length (fst (heap_sift_down C k val ident bv bi i)) = length bv
    \<and> length (fst (snd (heap_sift_down C k val ident bv bi i))) = length bi"
proof (induction C k val ident bv bi i rule: heap_sift_down.induct)
  case (1 C k val ident bv bi i)
  note IH = "1.IH" [OF refl refl, simplified length_put1]
  show ?case
    unfolding heap_sift_down.simps [of C k val ident bv bi i] Let_def
    using IH by (simp split del: if_split) (auto split: if_split)
qed

lemma same_len_heap_sift_down:
  "heap_sift_down C k val ident bv bi i = (bv', bi', i') \<Longrightarrow> length bv' = length bv \<and> length bi' = length bi"
  using length_heap_sift_down [of C k val ident bv bi i] by simp

lemma keeps_len_heap_heapify: "keeps_len k (\<lambda>bh. heap_heapify C k bh [] None 0)"
  by (simp add: keeps_len_def heap_heapify_empty(2))

lemma same_len_heap_pop: "same_len bh n \<Longrightarrow> same_len (heap_pop C k (fst bh) (snd bh)) n"
  using same_len_heap_sift_down [of C k _ _ "fst bh" "snd bh" 1]
  by (auto simp: heap_pop_def same_len_def split: prod.splits)

lemma same_len_heap_replace_top:
  "same_len bh n \<Longrightarrow> same_len (heap_replace_top C k (fst bh) (snd bh) val ident) n"
  using same_len_heap_sift_down [of C k val ident "fst bh" "snd bh" 1]
  by (auto simp: heap_replace_top_def same_len_def split: prod.splits)

lemma same_len_reorder_pops:
  "reorder_pops C k i ii m bh = (ii', bh') \<Longrightarrow> same_len bh n \<Longrightarrow> same_len bh' n \<and> ii' \<le> ii + m"
proof (induction m arbitrary: i ii bh)
  case (Suc m)
  obtain bv bi where p: "heap_pop C (k - i) (fst bh) (snd bh) = (bv, bi)" by (metis surj_pair)
  have "same_len (bv, bi) n" using same_len_heap_pop [OF Suc.prems(2), of C "k - i"] p by simp
  then have "same_len (bv[a := x], bi[b := y]) n" for a b x y by (simp add: same_len_def)
  note IH = Suc.IH [OF _ this]
  show ?case
    using Suc.prems(1) p IH [of "i + 1" "ii + 1"] IH [of "i + 1" ii]
    by (fastforce simp: Let_def split: if_splits)
qed simp

lemma keeps_len_heap_reorder: "keeps_len k (\<lambda>bh. snd (heap_reorder C k (fst bh) (snd bh)))"
  unfolding keeps_len_def
proof (intro allI impI)
  fix bh :: "'a list \<times> idx_t list" assume "same_len bh k"
  obtain ii bv bi where rp: "reorder_pops C k 0 0 k bh = (ii, bv, bi)" by (metis prod_cases3)
  from same_len_reorder_pops [OF rp \<open>same_len bh k\<close>] have "same_len (bv, bi) k" "ii \<le> k" by auto
  then have "same_len (memmove_front (k - ii) ii bv, memmove_front (k - ii) ii bi) k"
    by (auto simp: same_len_def memmove_front_def)
  then show "same_len (snd (heap_reorder C k (fst bh) (snd bh))) k"
    using rp same_len_fill_neutral by (fastforce simp: heap_reorder_def)
qed

section \<open>One row of distances is a sequence of offers\<close>

lemma heap_add_row_offers:
  assumes "length js \<le> length ds"
  shows "heap_add_row C k ds js (fst bh ! 0) bh =
    foldl (\<lambda>bh p. heap_offer C k bh (fst p) (snd p)) bh (zip ds (map int js))"
  using assms
proof (induction js arbitrary: ds bh)
  case (Cons j js)
  then obtain d ds' where "ds = d # ds'" by (cases ds) auto
  then show ?case using Cons by (simp add: heap_offer_def Let_def)
qed simp

lemma keeps_len_heap_add_row:
  "length js \<le> length ds \<Longrightarrow> keeps_len k (\<lambda>bh. heap_add_row C k ds js (fst bh ! 0) bh)"
  unfolding keeps_len_def heap_add_row_offers
proof (intro allI impI)
  fix bh :: "'a list \<times> idx_t list" assume "same_len bh k"
  then show "same_len (foldl (\<lambda>bh p. heap_offer C k bh (fst p) (snd p)) bh (zip ds (map int js))) k"
  proof (induction "zip ds (map int js)" arbitrary: bh ds js)
    case (Cons p ps)
    obtain d ds' j js' where "ds = d # ds'" "js = j # js'"
      using Cons.hyps(2) by (cases ds; cases js) auto
    moreover have "same_len (heap_offer C k bh d (int j)) k" for d j
      using Cons.prems by (simp add: heap_offer_def same_len_heap_replace_top)
    ultimately show ?case using Cons.hyps by auto
  qed (auto dest: sym)
qed

text \<open>The handler state with the threshold cached is the pair of arrays.\<close>

lemma hh_offers_arrays:
  assumes "hh_threshold h = hh_dis h ! 0"
  shows "(hh_dis (hh_offers C h ps), hh_ids (hh_offers C h ps)) =
      foldl (\<lambda>bh p. heap_offer C (hh_k h) bh (fst p) (snd p)) (hh_dis h, hh_ids h) ps
    \<and> hh_k (hh_offers C h ps) = hh_k h"
  using assms
proof (induction ps arbitrary: h)
  case (Cons p ps)
  let ?h = "fst (hh_add_result C h (fst p) (snd p))"
  have "hh_threshold ?h = hh_dis ?h ! 0" "hh_k ?h = hh_k h"
    "(hh_dis ?h, hh_ids ?h) = heap_offer C (hh_k h) (hh_dis h, hh_ids h) (fst p) (snd p)"
    using Cons.prems by (auto simp: hh_add_result_def heap_offer_def case_prod_beta)
  then show ?case using Cons.IH [of ?h] by (simp add: hh_offers_def)
qed (simp add: hh_offers_def)

lemma hh_collect_arrays:
  "hh_collect C k D I ps = snd (heap_reorder C k (fst bh) (snd bh))"
  if "bh = foldl (\<lambda>bh p. heap_offer C k bh (fst p) (snd p)) (heap_heapify C k (D, I) [] None 0) ps"
proof -
  have h: "hh_threshold (hh_begin C k D I) = hh_dis (hh_begin C k D I) ! 0"
    "hh_k (hh_begin C k D I) = k"
    "(hh_dis (hh_begin C k D I), hh_ids (hh_begin C k D I)) = heap_heapify C k (D, I) [] None 0"
    by (simp_all add: hh_begin_def case_prod_beta)
  have "(hh_dis (hh_offers C (hh_begin C k D I) ps), hh_ids (hh_offers C (hh_begin C k D I) ps)) = bh"
    "hh_k (hh_offers C (hh_begin C k D I) ps) = k"
    using hh_offers_arrays [OF h(1), of C ps] h(2,3) that by auto
  then show ?thesis by (auto simp: hh_collect_def hh_end_def)
qed

section \<open>A whole block\<close>

definition heap_block ::
    "'d comparator \<Rightarrow> nat \<Rightarrow> nat \<Rightarrow> nat \<Rightarrow> nat \<Rightarrow> nat \<Rightarrow> 'd list \<Rightarrow>
     'd list \<times> idx_t list \<Rightarrow> 'd list \<times> idx_t list" where
  "heap_block C k i0 i1 j0 j1 dis_tab t =
     heap_end_multiple C k i0 i1
       (heap_add_results C k i0 i1 j0 j1 dis_tab (heap_begin_multiple C k i0 i1 t))"

text \<open>The offers to query \<open>i\<close> in a block of distances.\<close>

definition block_offers :: "nat \<Rightarrow> nat \<Rightarrow> nat \<Rightarrow> 'd list \<Rightarrow> nat \<Rightarrow> ('d \<times> idx_t) list" where
  "block_offers i0 j0 j1 dis_tab i = zip (row (j1 - j0) (i - i0) dis_tab) (map int [j0..<j1])"

lemma heap_block_rows:
  assumes "same_len t (nq * k)" "i0 \<le> i1" "i1 \<le> nq" "length dis_tab = (i1 - i0) * (j1 - j0)"
  shows "same_len (heap_block C k i0 i1 j0 j1 dis_tab t) (nq * k)"
    and "j < nq \<Longrightarrow> row2 k j (heap_block C k i0 i1 j0 j1 dis_tab t) =
      (if i0 \<le> j \<and> j < i1
       then hh_collect C k (row k j (fst t)) (row k j (snd t)) (block_offers i0 j0 j1 dis_tab j)
       else row2 k j t)"
proof -
  let ?ds = "\<lambda>i. row (j1 - j0) (i - i0) dis_tab" and ?js = "[j0..<j1]"
  let ?t1 = "heap_begin_multiple C k i0 i1 t"
  let ?t2 = "heap_add_results C k i0 i1 j0 j1 dis_tab ?t1"
  have lds: "length (?ds i) = j1 - j0" if "i0 \<le> i" "i < i1" for i
    using that assms(4) row_end_le [of "i - i0" "i1 - i0" "j1 - j0"] by (simp add: length_row)
  have r1: "same_len ?t1 (nq * k) \<and> (\<forall>j < nq. row2 k j ?t1 =
      (if i0 \<le> j \<and> j < i1 then heap_heapify C k (row2 k j t) [] None 0 else row2 k j t))"
    unfolding heap_begin_multiple_def by (rule fold_on_row [OF assms(1-3)]) (rule keeps_len_heap_heapify)
  have r2: "same_len ?t2 (nq * k) \<and> (\<forall>j < nq. row2 k j ?t2 =
      (if i0 \<le> j \<and> j < i1
       then (\<lambda>bh. heap_add_row C k (?ds j) ?js (fst bh ! 0) bh) (row2 k j ?t1) else row2 k j ?t1))"
    unfolding heap_add_results_def
    by (rule fold_on_row [OF conjunct1 [OF r1] assms(2,3)]) (rule keeps_len_heap_add_row, simp add: lds)
  have r3: "same_len (heap_end_multiple C k i0 i1 ?t2) (nq * k) \<and>
     (\<forall>j < nq. row2 k j (heap_end_multiple C k i0 i1 ?t2) =
      (if i0 \<le> j \<and> j < i1
       then (\<lambda>bh. snd (heap_reorder C k (fst bh) (snd bh))) (row2 k j ?t2) else row2 k j ?t2))"
    unfolding heap_end_multiple_def
    by (rule fold_on_row [OF conjunct1 [OF r2] assms(2,3)]) (rule keeps_len_heap_reorder)
  show "same_len (heap_block C k i0 i1 j0 j1 dis_tab t) (nq * k)"
    using r3 by (simp add: heap_block_def)
  assume j: "j < nq"
  show "row2 k j (heap_block C k i0 i1 j0 j1 dis_tab t) =
      (if i0 \<le> j \<and> j < i1
       then hh_collect C k (row k j (fst t)) (row k j (snd t)) (block_offers i0 j0 j1 dis_tab j)
       else row2 k j t)"
  proof (cases "i0 \<le> j \<and> j < i1")
    case False
    with r1 r2 r3 j show ?thesis by (simp only: heap_block_def if_not_P) simp
  next
    case True
    have "row2 k j ?t2 = foldl (\<lambda>bh p. heap_offer C k bh (fst p) (snd p))
        (heap_heapify C k (row k j (fst t), row k j (snd t)) [] None 0) (block_offers i0 j0 j1 dis_tab j)"
      using r1 r2 j True lds [of j] heap_add_row_offers [of ?js "?ds j"]
      by (simp add: row2_def block_offers_def)
    from hh_collect_arrays [OF this] show ?thesis
      using r3 j True by (simp add: heap_block_def row2_def)
  qed
qed

section \<open>The single best result\<close>

definition top1_offers :: "'d comparator \<Rightarrow> 'd top1_handler \<Rightarrow> ('d \<times> idx_t) list \<Rightarrow> 'd top1_handler" where
  "top1_offers C h ps = foldl (\<lambda>h p. fst (top1_add_result C h (fst p) (snd p))) h ps"

definition first_best :: "'d comparator \<Rightarrow> 'd \<times> idx_t \<Rightarrow> ('d \<times> idx_t) list \<Rightarrow> bool" where
  "first_best C r ps \<longleftrightarrow> (\<exists>us vs. ps = us @ r # vs
     \<and> (\<forall>u \<in> set us. cmp C (fst u) (fst r)) \<and> (\<forall>v \<in> set vs. \<not> cmp C (fst r) (fst v)))"

context heap_comparator
begin

lemma top1_offers_best:
  "first_best C (top1_end (top1_offers C h ps)) (top1_end h # ps)"
proof (induction ps rule: rev_induct)
  case Nil
  show ?case by (force simp: first_best_def top1_offers_def)
next
  case (snoc p ps)
  let ?h = "top1_offers C h ps"
  from snoc obtain us vs where uv: "top1_end h # ps = us @ top1_end ?h # vs"
    "\<forall>u \<in> set us. cmp C (fst u) (fst (top1_end ?h))" "\<forall>v \<in> set vs. \<not> cmp C (fst (top1_end ?h)) (fst v)"
    unfolding first_best_def by blast
  have e: "top1_offers C h (ps @ [p]) = fst (top1_add_result C ?h (fst p) (snd p))"
    by (simp add: top1_offers_def)
  have th: "fst (top1_end ?h) = t1_threshold ?h" by (simp add: top1_end_def)
  show ?case
  proof (cases "cmp C (t1_threshold ?h) (fst p)")
    case True
    have "cmp C (fst q) (fst p)" if "q \<in> set (top1_end h # ps)" for q
    proof -
      from that uv(1) consider "q \<in> set us" | "q = top1_end ?h" | "q \<in> set vs" by auto
      then show ?thesis
        using uv(2,3) th True cmp_trans cmp_total by cases (metis, simp, metis)
    qed
    moreover have "top1_end (fst (top1_add_result C ?h (fst p) (snd p))) = p"
      using True by (simp add: top1_add_result_def top1_end_def)
    ultimately show ?thesis unfolding first_best_def e
      by (intro exI [of _ "top1_end h # ps"] exI [of _ "[]"]) auto
  next
    case False
    then have "top1_end (fst (top1_add_result C ?h (fst p) (snd p))) = top1_end ?h"
      by (simp add: top1_add_result_def)
    then show ?thesis unfolding first_best_def e
      using uv False th by (intro exI [of _ us] exI [of _ "vs @ [p]"]) auto
  qed
qed

end

section \<open>Properties\<close>

text \<open>
  The block interface of the heap handler gives, for every query of the block, the result of
  the one-at-a-time interface on that row of distances; it leaves the rows of other queries as they were.
\<close>

theorem heap_block_is_single:
  assumes "same_len t (nq * k)" "i0 \<le> i1" "i1 \<le> nq" "length dis_tab = (i1 - i0) * (j1 - j0)" "j < nq"
  shows "row2 k j (heap_block C k i0 i1 j0 j1 dis_tab t) =
      (if i0 \<le> j \<and> j < i1
       then hh_collect C k (row k j (fst t)) (row k j (snd t)) (block_offers i0 j0 j1 dis_tab j)
       else row2 k j t)"
  by (rule heap_block_rows(2) [OF assms])

theorem heap_block_is_single_witness:
  "row2 2 1 (heap_block (CMax 0 100) 2 1 2 0 3 [7, 3, 5] (replicate 4 (0 :: int), replicate 4 0)) = ([3, 5], [1, 2])"
proof -
  have t: "same_len (replicate 4 (0 :: int), replicate 4 0) (2 * 2)" by (simp add: same_len_def)
  have "hh_collect (CMax 0 100) 2 [0 :: int, 0] [0, 0] [(7, 0), (3, 1), (5, 2)] = ([3, 5], [1, 2])"
    by code_simp
  then show ?thesis
    using heap_block_is_single [OF t, of 1 2 "[7, 3, 5]" 3 0 1 "CMax 0 100"]
    by (simp add: row_def block_offers_def numeral_2_eq_2 numeral_3_eq_3 eval_nat_numeral upt_rec)
qed

text \<open>
  The single-result handler (\<open>Top1BlockResultHandler\<close>) returns the first of the best offers,
  or \<open>(neutral, -1)\<close> when no offer beats the neutral value.
\<close>

theorem top1_returns_first_best:
  assumes "is_trait C"
  shows "first_best C (top1_end (top1_offers C (top1_begin C) ps)) ((neutral C, -1) # ps)"
  using heap_comparator.top1_offers_best [OF is_trait_heap_comparator [OF assms], of "top1_begin C" ps]
  by (simp add: top1_begin_def top1_end_def)

theorem top1_returns_first_best_witness:
  "first_best (CMax 0 100) (3 :: int, 5) [(100, -1), (7, 1), (3, 5), (3, 2)]"
proof -
  have "top1_end (top1_offers (CMax 0 100) (top1_begin (CMax 0 100)) [(7, 1), (3 :: int, 5), (3, 2)]) = (3, 5)"
    by code_simp
  then show ?thesis
    using top1_returns_first_best [OF is_trait_CMax, of 0 "100 :: int" "[(7, 1), (3, 5), (3, 2)]"] by simp
qed

end
