(* ===== verification/Loops.thy ===== *)
theory Loops
  imports Prelude
begin

text \<open>
  The search loops of the program are \<open>while\<close> loops with breaks whose end is not obvious.
  \<open>iterate body s\<close> runs a loop body: \<open>Inl s'\<close> goes round again, \<open>Inr r\<close> leaves the loop with
  result \<open>r\<close>; a loop that never leaves has the value \<open>None\<close>. That a loop returns is therefore
  a statement, proved with a measure by \<open>iterate_total\<close>.
\<close>

partial_function (option) iterate :: "('s \<Rightarrow> 's + 'r) \<Rightarrow> 's \<Rightarrow> 'r option" where
  "iterate body s = (case body s of Inl s' \<Rightarrow> iterate body s' | Inr r \<Rightarrow> Some r)"

lemmas [code] = iterate.simps

lemma iterate_Inl: "body s = Inl s' \<Longrightarrow> iterate body s = iterate body s'"
  by (subst iterate.simps) simp

lemma iterate_Inr: "body s = Inr r \<Longrightarrow> iterate body s = Some r"
  by (subst iterate.simps) simp

text \<open>Total correctness: an invariant, a measure, and what holds when the loop is left.\<close>

lemma iterate_total:
  fixes m :: "'s \<Rightarrow> nat"
  assumes "I s"
    and "\<And>s s'. I s \<Longrightarrow> body s = Inl s' \<Longrightarrow> I s' \<and> m s' < m s"
    and "\<And>s r. I s \<Longrightarrow> body s = Inr r \<Longrightarrow> Q r"
  shows "\<exists>r. iterate body s = Some r \<and> Q r"
  using assms(1)
proof (induction "m s" arbitrary: s rule: less_induct)
  case less
  show ?case
  proof (cases "body s")
    case (Inl s')
    then show ?thesis using assms(2) [OF less.prems Inl] less.hyps [of s'] iterate_Inl [of body, OF Inl] by simp
  next
    case (Inr r)
    then show ?thesis using assms(3) [OF less.prems Inr] iterate_Inr [of body, OF Inr] by simp
  qed
qed

text \<open>Partial correctness: an invariant alone.\<close>

lemma iterate_partial:
  assumes "iterate body s = Some r" and "I s"
    and "\<And>s s'. I s \<Longrightarrow> body s = Inl s' \<Longrightarrow> I s'"
    and "\<And>s r. I s \<Longrightarrow> body s = Inr r \<Longrightarrow> Q r"
  shows "Q r"
proof -
  have "(\<forall>s s'. I s \<longrightarrow> b s = Inl s' \<longrightarrow> I s') \<longrightarrow> (\<forall>s r. I s \<longrightarrow> b s = Inr r \<longrightarrow> Q r) \<longrightarrow> I s \<longrightarrow> Q r"
    if "iterate b s = Some r" for b s r
    using that
    by (rule iterate.raw_induct [rotated]) (auto split: sum.splits)
  then show ?thesis using assms by blast
qed

text \<open>Two bodies that agree on an invariant give the same loop.\<close>

lemma iterate_cong:
  fixes m :: "'s \<Rightarrow> nat"
  assumes "I s"
    and "\<And>s. I s \<Longrightarrow> body' s = body s"
    and "\<And>s s'. I s \<Longrightarrow> body s = Inl s' \<Longrightarrow> I s' \<and> m s' < m s"
  shows "iterate body' s = iterate body s"
  using assms(1)
proof (induction "m s" arbitrary: s rule: less_induct)
  case less
  note b = assms(2) [OF less.prems]
  show ?case
  proof (cases "body s")
    case (Inl s')
    then show ?thesis
      using assms(3) [OF less.prems Inl] less.hyps [of s'] b by (simp add: iterate_Inl)
  next
    case (Inr r)
    then show ?thesis using b by (simp add: iterate_Inr)
  qed
qed

text \<open>A \<open>for\<close> loop over a list whose body may fail.\<close>

fun fold_result :: "('a \<Rightarrow> 's \<Rightarrow> 's result) \<Rightarrow> 'a list \<Rightarrow> 's \<Rightarrow> 's result" where
  "fold_result f [] s = Inr s"
| "fold_result f (x # xs) s = bind_result (f x s) (fold_result f xs)"

lemma fold_result_append:
  "fold_result f (xs @ ys) s = bind_result (fold_result f xs s) (fold_result f ys)"
proof (induction xs arbitrary: s)
  case (Cons x xs)
  then show ?case by (cases "f x s") simp_all
qed simp

lemma fold_result_snoc: "fold_result f (xs @ [x]) s = bind_result (fold_result f xs s) (f x)"
proof (cases "fold_result f xs s")
  case (Inr s')
  then show ?thesis by (cases "f x s'") (simp_all add: fold_result_append)
qed (simp add: fold_result_append)

end
