(* ===== verification/Vectors.thy ===== *)
theory Vectors
  imports Loops
begin

text \<open>
  \<open>std::vector\<close> and \<open>memcpy\<close>: resizing, overwriting a range, and byte strings seen as a sequence of
  codes of the same size (the \<open>code + i * code_size\<close> of the sources).
\<close>

definition resize :: "nat \<Rightarrow> 'a \<Rightarrow> 'a list \<Rightarrow> 'a list" where
  "resize n x xs = take n xs @ replicate (n - length xs) x"

definition overwrite :: "nat \<Rightarrow> 'a list \<Rightarrow> 'a list \<Rightarrow> 'a list" where
  "overwrite k ys xs = take k xs @ ys @ drop (k + length ys) xs"

text \<open>\<open>memcpy(xs + k, ys, n)\<close>\<close>

definition memcpy :: "nat \<Rightarrow> 'a list \<Rightarrow> nat \<Rightarrow> 'a list \<Rightarrow> 'a list result" where
  "memcpy k ys n xs =
     (if k + n \<le> length xs \<and> n \<le> length ys then Inr (overwrite k (take n ys) xs) else Inl Out_of_bounds)"

definition subrange :: "nat \<Rightarrow> nat \<Rightarrow> 'a list \<Rightarrow> 'a list" where
  "subrange k n xs = take n (drop k xs)"

definition chunks :: "nat \<Rightarrow> nat \<Rightarrow> 'a list \<Rightarrow> 'a list list" where
  "chunks cs n bs = map (\<lambda>i. subrange (i * cs) cs bs) [0..<n]"

lemma length_resize [simp, len_simps]: "length (resize n x xs) = n"
  by (simp add: resize_def)

lemma resize_shrink: "n \<le> length xs \<Longrightarrow> resize n x xs = take n xs"
  by (simp add: resize_def)

lemma length_overwrite [simp, len_simps]: "k + length ys \<le> length xs \<Longrightarrow> length (overwrite k ys xs) = length xs"
  by (simp add: overwrite_def)

lemma overwrite_resize:
  "overwrite (length xs) ys (resize (length xs + length ys) x xs) = xs @ ys"
  by (simp add: overwrite_def resize_def)

lemma length_subrange [simp]: "k + n \<le> length xs \<Longrightarrow> length (subrange k n xs) = n"
  by (simp add: subrange_def)

lemma length_chunks [simp]: "length (chunks cs n bs) = n"
  by (simp add: chunks_def)

lemma nth_chunks: "i < n \<Longrightarrow> chunks cs n bs ! i = subrange (i * cs) cs bs"
  by (simp add: chunks_def)

lemma overwrite_0_Nil [simp]: "overwrite k [] xs = xs"
  by (simp add: overwrite_def)

lemma map_overwrite: "map f (overwrite k ys xs) = overwrite k (map f ys) (map f xs)"
  by (simp add: overwrite_def take_map drop_map)

lemma set_overwrite: "set (overwrite k ys xs) \<subseteq> set xs \<union> set ys"
  unfolding overwrite_def by (auto dest: in_set_takeD in_set_dropD)

lemma overwrite_single: "k < length xs \<Longrightarrow> overwrite k [y] xs = xs[k := y]"
  by (simp add: overwrite_def upd_conv_take_nth_drop)

lemma nth_overwrite:
  assumes "k + length ys \<le> length xs" "i < length xs"
  shows "overwrite k ys xs ! i = (if k \<le> i \<and> i < k + length ys then ys ! (i - k) else xs ! i)"
  using assms by (auto simp: overwrite_def nth_append min_def)

lemma subrange_overwrite_other:
  assumes "k + length ys \<le> length xs" "i + n \<le> k \<or> k + length ys \<le> i" "i + n \<le> length xs"
  shows "subrange i n (overwrite k ys xs) = subrange i n xs"
  by (rule nth_equalityI) (use assms in \<open>auto simp: subrange_def nth_overwrite\<close>)

lemma subrange_overwrite_same:
  assumes "k + length ys \<le> length xs"
  shows "subrange k (length ys) (overwrite k ys xs) = ys"
  by (rule nth_equalityI) (use assms in \<open>auto simp: subrange_def nth_overwrite\<close>)

lemma memcpy_whole: "k + length ys \<le> length xs \<Longrightarrow> memcpy k ys (length ys) xs = Inr (overwrite k ys xs)"
  by (simp add: memcpy_def)

text \<open>Growing a vector and copying to its new end.\<close>

lemma memcpy_append:
  "k = length xs \<Longrightarrow> n = length ys \<Longrightarrow> m = length xs + length ys \<Longrightarrow>
     memcpy k ys n (resize m x xs) = Inr (xs @ ys)"
  using overwrite_resize [of xs ys x] by (simp add: memcpy_def)

lemma nth_middle: "length xs = n \<Longrightarrow> (xs @ y # ys) ! n = y"
  by auto

lemma list_update_middle: "length xs = n \<Longrightarrow> (xs @ y # ys)[n := z] = xs @ z # ys"
  by (auto simp: list_update_append)

text \<open>Lists of codes of one size.\<close>

definition all_length :: "nat \<Rightarrow> 'a list list \<Rightarrow> bool" where
  "all_length cs xss \<longleftrightarrow> (\<forall>xs \<in> set xss. length xs = cs)"

lemma all_length_simps [simp]:
  "all_length cs []" "all_length cs (xs # xss) \<longleftrightarrow> length xs = cs \<and> all_length cs xss"
  "all_length cs (xss @ yss) \<longleftrightarrow> all_length cs xss \<and> all_length cs yss"
  by (auto simp: all_length_def)

lemma all_length_subset: "all_length cs xss \<Longrightarrow> set yss \<subseteq> set xss \<Longrightarrow> all_length cs yss"
  by (auto simp: all_length_def)

lemma length_concat_all [simp]: "all_length cs xss \<Longrightarrow> length (concat xss) = length xss * cs"
  by (induction xss) auto

lemma take_concat_all: "all_length cs xss \<Longrightarrow> take (i * cs) (concat xss) = concat (take i xss)"
proof (induction xss arbitrary: i)
  case (Cons xs xss)
  then show ?case by (cases i) auto
qed simp

lemma drop_concat_all: "all_length cs xss \<Longrightarrow> drop (i * cs) (concat xss) = concat (drop i xss)"
proof (induction xss arbitrary: i)
  case (Cons xs xss)
  then show ?case by (cases i) auto
qed simp

lemma subrange_concat_all:
  assumes "all_length cs xss" "i < length xss"
  shows "subrange (i * cs) cs (concat xss) = xss ! i"
proof -
  have "drop i xss = xss ! i # drop (Suc i) xss" using assms(2) by (simp add: Cons_nth_drop_Suc)
  moreover have "length (xss ! i) = cs" using assms by (simp add: all_length_def)
  ultimately show ?thesis using assms by (simp add: subrange_def drop_concat_all)
qed

lemma chunks_concat: "all_length cs xss \<Longrightarrow> n = length xss \<Longrightarrow> chunks cs n (concat xss) = xss"
  by (rule nth_equalityI) (auto simp: nth_chunks subrange_concat_all)

lemma concat_chunks:
  assumes "length bs = n * cs"
  shows "concat (chunks cs n bs) = bs" and "all_length cs (chunks cs n bs)"
proof -
  show al: "all_length cs (chunks cs n bs)"
  proof -
    have "i * cs + cs \<le> length bs" if "i < n" for i
      using that assms mult_le_mono1 [of "Suc i" n cs] by simp
    then show ?thesis by (auto simp: all_length_def chunks_def)
  qed
  have "concat (map (\<lambda>i. subrange (i * cs) cs bs) [0..<m]) = take (m * cs) bs" if "m \<le> n" for m
    using that
  proof (induction m)
    case (Suc m)
    have "take (Suc m * cs) bs = take (m * cs) bs @ take cs (drop (m * cs) bs)"
      by (metis add.commute mult_Suc take_add)
    then show ?case using Suc by (simp add: subrange_def)
  qed simp
  from this [of n] show "concat (chunks cs n bs) = bs" using assms by (simp add: chunks_def)
qed

lemma overwrite_concat_all:
  assumes "all_length cs xss" "all_length cs yss"
  shows "overwrite (k * cs) (concat yss) (concat xss) = concat (overwrite k yss xss)"
proof -
  have "k * cs + length yss * cs = (k + length yss) * cs" by (simp add: distrib_right)
  then show ?thesis using assms by (simp add: overwrite_def take_concat_all drop_concat_all)
qed

end
