(* ===== verification/Hnsw_Graph.thy ===== *)
theory Hnsw_Graph
  imports Complex_Main Vectors
begin

text \<open>
  The data of the HNSW index (\<open>faiss/impl/HNSW.h\<close>, \<open>HNSW.cpp\<close> lines 33-223): a multi-level
  graph in three arrays. Node \<open>i\<close> owns the entries \<open>offsets[i] .. offsets[i+1]\<close> of
  \<open>neighbors\<close>; the part for level \<open>l\<close> starts at \<open>offsets[i] + cum_nneighbor_per_level[l]\<close>.
  The C++ \<open>int\<close>s that are never negative are \<open>nat\<close>; \<open>entry_point\<close>, \<open>max_level\<close> and the
  neighbor ids, where \<open>-1\<close> has a meaning, are \<open>int\<close>. The assignment probabilities are
  rationals (the code has doubles) and come, like the random numbers, from outside.
\<close>

section \<open>The structure and its accessors\<close>

record hnsw =
  assign_probas :: "rat list"
  cum_nneighbor_per_level :: "nat list"
  levels :: "nat list"
  offsets :: "nat list"
  neighbors :: "storage_idx_t list"
  entry_point :: storage_idx_t
  max_level :: int
  efConstruction :: nat
  efSearch :: nat
  check_relative_distance :: bool
  search_bounded_queue :: bool

abbreviation ntotal :: "hnsw \<Rightarrow> nat" where
  "ntotal h \<equiv> length (levels h)"

definition nb_neighbors :: "hnsw \<Rightarrow> nat \<Rightarrow> nat result" where
  "nb_neighbors h layer_no =
     (if layer_no + 1 < length (cum_nneighbor_per_level h)
      then Inr (cum_nneighbor_per_level h ! (layer_no + 1) - cum_nneighbor_per_level h ! layer_no)
      else Inl (Throw ''layer_no + 1 < cum_nneighbor_per_level.size()''))"

definition set_nb_neighbors :: "hnsw \<Rightarrow> nat \<Rightarrow> nat \<Rightarrow> hnsw result" where
  "set_nb_neighbors h level_no n =
     (if length (levels h) \<noteq> 0 then Inl (Throw ''levels.size() == 0'')
      else bind_result (nb_neighbors h level_no) (\<lambda>cur_n.
        Inr (h\<lparr>cum_nneighbor_per_level :=
          map (\<lambda>i. let c = cum_nneighbor_per_level h ! i in
                    if level_no + 1 \<le> i then c + n - cur_n else c)
              [0..<length (cum_nneighbor_per_level h)]\<rparr>)))"

definition cum_nb_neighbors :: "hnsw \<Rightarrow> nat \<Rightarrow> nat" where
  "cum_nb_neighbors h layer_no = cum_nneighbor_per_level h ! layer_no"

definition neighbor_range :: "hnsw \<Rightarrow> int \<Rightarrow> nat \<Rightarrow> nat \<times> nat" where
  "neighbor_range h no layer_no =
     (let o' = offsets h ! nat no in (o' + cum_nb_neighbors h layer_no, o' + cum_nb_neighbors h (layer_no + 1)))"

text \<open>The slots of a node at a level, and the links in them: every loop stops at the first \<open>-1\<close>.\<close>

definition slots :: "hnsw \<Rightarrow> int \<Rightarrow> nat \<Rightarrow> storage_idx_t list" where
  "slots h no layer_no =
     (case neighbor_range h no layer_no of (b, e) \<Rightarrow> map (\<lambda>j. neighbors h ! j) [b..<e])"

definition links :: "hnsw \<Rightarrow> int \<Rightarrow> nat \<Rightarrow> storage_idx_t list" where
  "links h no layer_no = takeWhile (\<lambda>v. \<not> v < 0) (slots h no layer_no)"

section \<open>Levels\<close>

text \<open>
  \<open>set_default_probas\<close>: \<open>proba level\<close> stands for
  \<open>exp(-level / levelMult) * (1 - exp(-1 / levelMult))\<close>. The loop ends when a probability is
  below \<open>1e-9\<close>.
\<close>

definition default_probas_body ::
    "nat \<Rightarrow> (nat \<Rightarrow> rat) \<Rightarrow> nat \<times> nat \<times> rat list \<times> nat list \<Rightarrow> (nat \<times> nat \<times> rat list \<times> nat list) + rat list \<times> nat list" where
  "default_probas_body M proba s =
     (case s of (level, nn, probas, cum) \<Rightarrow>
        if proba level < 1 / 1000000000 then Inr (probas, cum)
        else
          let nn' = nn + (if level = 0 then M * 2 else M)
          in Inl (level + 1, nn', probas @ [proba level], cum @ [nn']))"

definition set_default_probas :: "hnsw \<Rightarrow> nat \<Rightarrow> (nat \<Rightarrow> rat) \<Rightarrow> hnsw option" where
  "set_default_probas h M proba =
     map_option (\<lambda>(probas, cum). h\<lparr>assign_probas := probas, cum_nneighbor_per_level := cum\<rparr>)
       (iterate (default_probas_body M proba)
         (0, 0, assign_probas h, cum_nneighbor_per_level h @ [0]))"

text \<open>The constructor: default members, default probabilities and the first offset.\<close>

definition hnsw_new :: "nat \<Rightarrow> (nat \<Rightarrow> rat) \<Rightarrow> hnsw option" where
  "hnsw_new M proba =
     map_option (\<lambda>h. h\<lparr>offsets := offsets h @ [0]\<rparr>)
       (set_default_probas
         \<lparr>assign_probas = [], cum_nneighbor_per_level = [], levels = [], offsets = [], neighbors = [],
          entry_point = -1, max_level = -1, efConstruction = 40, efSearch = 16,
          check_relative_distance = True, search_bounded_queue = True\<rparr> M proba)"

text \<open>\<open>random_level\<close> for the random number \<open>f\<close>; \<open>n\<close> is \<open>assign_probas.size()\<close>.\<close>

fun random_level_from :: "rat list \<Rightarrow> nat \<Rightarrow> nat \<Rightarrow> rat \<Rightarrow> int" where
  "random_level_from [] n level f = int n - 1"
| "random_level_from (p # ps) n level f =
     (if f < p then int level else random_level_from ps n (level + 1) (f - p))"

definition random_level :: "hnsw \<Rightarrow> rat \<Rightarrow> int" where
  "random_level h f = random_level_from (assign_probas h) (length (assign_probas h)) 0 f"

text \<open>
  \<open>prepare_level_tab\<close>: levels (drawn with the random numbers \<open>fs\<close>, or preset), offsets and
  empty slots for \<open>n\<close> new nodes. Returns the greatest new level, at least 0.
\<close>

definition add_level_step :: "hnsw \<Rightarrow> nat \<Rightarrow> nat \<Rightarrow> int \<times> nat list \<Rightarrow> int \<times> nat list" where
  "add_level_step h n0 i s =
     (let pt_level = int (levels h ! (i + n0)) - 1;
          max_level_2 = (if pt_level > fst s then pt_level else fst s)
      in (max_level_2, snd s @ [last (snd s) + cum_nb_neighbors h (nat (pt_level + 1))]))"

definition prepare_level_tab :: "hnsw \<Rightarrow> nat \<Rightarrow> bool \<Rightarrow> (nat \<Rightarrow> rat) \<Rightarrow> (hnsw \<times> int) result" where
  "prepare_level_tab h n preset_levels fs =
     (let n0 = length (offsets h) - 1 in
      if preset_levels \<and> n0 + n \<noteq> length (levels h) then Inl Assert_failed
      else if \<not> preset_levels \<and> n0 \<noteq> length (levels h) then Inl Assert_failed
      else
        let h1 = (if preset_levels then h
                  else h\<lparr>levels := levels h @ map (\<lambda>i. nat (random_level h (fs i) + 1)) [0..<n]\<rparr>);
            (max_level_2, offs) = fold (add_level_step h1 n0) [0..<n] (0, offsets h1)
        in Inr (h1\<lparr>offsets := offs, neighbors := resize (last offs) (-1) (neighbors h1)\<rparr>, max_level_2))"

section \<open>Resetting and relabelling\<close>

definition put_range :: "nat \<Rightarrow> 'a list \<Rightarrow> 'a list \<Rightarrow> 'a list" where
  "put_range b ys xs = take b xs @ ys @ drop (b + length ys) xs"

definition clear_row :: "nat \<Rightarrow> nat \<Rightarrow> hnsw \<Rightarrow> hnsw" where
  "clear_row level i h =
     (case neighbor_range h (int i) level of (b, e) \<Rightarrow>
        h\<lparr>neighbors := fold (\<lambda>j ns. ns[j := -1]) [b..<e] (neighbors h)\<rparr>)"

definition clear_neighbor_tables :: "hnsw \<Rightarrow> nat \<Rightarrow> hnsw" where
  "clear_neighbor_tables h level = fold (clear_row level) [0..<length (levels h)] h"

definition hnsw_reset :: "hnsw \<Rightarrow> hnsw" where
  "hnsw_reset h = h\<lparr>max_level := -1, entry_point := -1, offsets := [0], levels := [], neighbors := []\<rparr>"

text \<open>\<open>permute_entries\<close>: node \<open>map[i]\<close> becomes node \<open>i\<close>.\<close>

definition inverse_map :: "nat list \<Rightarrow> nat \<Rightarrow> nat list" where
  "inverse_map mp n = fold (\<lambda>i imap. imap[mp ! i := i]) [0..<n] (replicate n 0)"

definition relabel :: "nat list \<Rightarrow> storage_idx_t \<Rightarrow> storage_idx_t" where
  "relabel imap v = (if v \<ge> 0 then int (imap ! nat v) else v)"

definition permute_row :: "hnsw \<Rightarrow> nat list \<Rightarrow> nat \<Rightarrow> storage_idx_t list" where
  "permute_row h imap old =
     map (\<lambda>j. relabel imap (neighbors h ! j)) [offsets h ! old..<offsets h ! (old + 1)]"

definition permute_step ::
    "hnsw \<Rightarrow> nat list \<Rightarrow> nat list \<Rightarrow> nat \<Rightarrow> nat list \<times> nat list \<times> storage_idx_t list \<Rightarrow>
     nat list \<times> nat list \<times> storage_idx_t list" where
  "permute_step h mp imap i s =
     (case s of (lv, offs, ns) \<Rightarrow>
        let ns' = ns @ permute_row h imap (mp ! i)
        in (lv @ [levels h ! (mp ! i)], offs @ [length ns'], ns'))"

definition permute_entries :: "hnsw \<Rightarrow> nat list \<Rightarrow> hnsw result" where
  "permute_entries h mp =
     (if \<not> (\<forall>i < ntotal h. mp ! i < ntotal h) then Inl Assert_failed
      else
        let imap = inverse_map mp (ntotal h);
            (lv, offs, ns) = fold (permute_step h mp imap) [0..<ntotal h] ([], [0], [])
        in if last offs \<noteq> offsets h ! ntotal h then Inl Assert_failed
           else Inr (h\<lparr>entry_point := (if entry_point h \<noteq> -1 then int (imap ! nat (entry_point h)) else -1),
                       levels := lv, offsets := offs, neighbors := ns\<rparr>))"

section \<open>Well-formed graphs\<close>

definition sizes_ok :: "hnsw \<Rightarrow> bool" where
  "sizes_ok h \<longleftrightarrow> cum_nneighbor_per_level h \<noteq> [] \<and> cum_nneighbor_per_level h ! 0 = 0
     \<and> sorted (cum_nneighbor_per_level h)"

definition layout_ok :: "hnsw \<Rightarrow> bool" where
  "layout_ok h \<longleftrightarrow> sizes_ok h
     \<and> length (offsets h) = Suc (ntotal h) \<and> offsets h ! 0 = 0
     \<and> (\<forall>i < ntotal h. levels h ! i < length (cum_nneighbor_per_level h)
          \<and> offsets h ! Suc i = offsets h ! i + cum_nb_neighbors h (levels h ! i))
     \<and> length (neighbors h) = offsets h ! ntotal h"

text \<open>Node \<open>v\<close> exists and has a list of links at level \<open>l\<close>.\<close>

definition node_at :: "hnsw \<Rightarrow> nat \<Rightarrow> int \<Rightarrow> bool" where
  "node_at h l v \<longleftrightarrow> 0 \<le> v \<and> v < int (ntotal h) \<and> l < levels h ! nat v"

text \<open>A list of slots is packed: after the first \<open>-1\<close> there are only \<open>-1\<close>s.\<close>

definition packed :: "storage_idx_t list \<Rightarrow> bool" where
  "packed s \<longleftrightarrow> (\<forall>v \<in> set (dropWhile (\<lambda>v. \<not> v < 0) s). v = -1)"

definition links_ok :: "hnsw \<Rightarrow> bool" where
  "links_ok h \<longleftrightarrow> (\<forall>i l. node_at h l i \<longrightarrow>
     packed (slots h i l) \<and> (\<forall>v \<in> set (links h i l). node_at h l v))"

definition graph_ok :: "hnsw \<Rightarrow> bool" where
  "graph_ok h \<longleftrightarrow> layout_ok h \<and> links_ok h"

lemma node_at_mono: "node_at h l v \<Longrightarrow> l' \<le> l \<Longrightarrow> node_at h l' v"
  by (auto simp: node_at_def)

lemma layout_offsets_mono:
  assumes "layout_ok h" "i \<le> j" "j \<le> ntotal h"
  shows "offsets h ! i \<le> offsets h ! j"
  using assms(2,3)
proof (induction j rule: dec_induct)
  case (step j)
  then have "offsets h ! Suc j = offsets h ! j + cum_nb_neighbors h (levels h ! j)"
    using assms(1) by (simp add: layout_ok_def)
  then show ?case using step by simp
qed simp

lemma neighbor_range_bounds:
  assumes "layout_ok h" "node_at h l v" "neighbor_range h v l = (b, e)"
  shows "offsets h ! nat v \<le> b" "b \<le> e" "e \<le> offsets h ! Suc (nat v)" "e \<le> length (neighbors h)"
proof -
  let ?i = "nat v" and ?c = "cum_nneighbor_per_level h"
  have i: "?i < ntotal h" "l < levels h ! ?i" using assms(2) by (auto simp: node_at_def)
  have c: "levels h ! ?i < length ?c" "offsets h ! Suc ?i = offsets h ! ?i + ?c ! (levels h ! ?i)" "sorted ?c"
    using assms(1) i by (auto simp: layout_ok_def cum_nb_neighbors_def sizes_ok_def)
  have be: "b = offsets h ! ?i + ?c ! l" "e = offsets h ! ?i + ?c ! Suc l"
    using assms(3) by (auto simp: neighbor_range_def cum_nb_neighbors_def Let_def)
  show "offsets h ! ?i \<le> b" using be by simp
  show "b \<le> e" using be c i by (simp add: sorted_nth_mono)
  have "?c ! Suc l \<le> ?c ! (levels h ! ?i)" using c i by (intro sorted_nth_mono) auto
  then show e: "e \<le> offsets h ! Suc ?i" using be c by simp
  show "e \<le> length (neighbors h)"
    using e layout_offsets_mono [OF assms(1), of "Suc ?i" "ntotal h"] i assms(1)
    by (simp add: layout_ok_def)
qed

text \<open>Ranges of different nodes or levels do not overlap.\<close>

lemma neighbor_range_disjoint:
  assumes "layout_ok h" "node_at h l v" "node_at h l' v'" "(l, v) \<noteq> (l', v')"
    and "neighbor_range h v l = (b, e)" "neighbor_range h v' l' = (b', e')"
  shows "e \<le> b' \<or> e' \<le> b"
proof -
  note r = neighbor_range_bounds [OF assms(1,2,5)] and r' = neighbor_range_bounds [OF assms(1,3,6)]
  have n: "nat v < ntotal h" "nat v' < ntotal h" using assms by (auto simp: node_at_def)
  consider "nat v < nat v'" | "nat v' < nat v" | "nat v = nat v'" by linarith
  then show ?thesis
  proof cases
    case 1
    then have "offsets h ! Suc (nat v) \<le> offsets h ! nat v'" using assms(1) n by (intro layout_offsets_mono) auto
    then show ?thesis using r r' by linarith
  next
    case 2
    then have "offsets h ! Suc (nat v') \<le> offsets h ! nat v" using assms(1) n by (intro layout_offsets_mono) auto
    then show ?thesis using r r' by linarith
  next
    case 3
    then have v: "v = v'" using assms by (auto simp: node_at_def)
    let ?c = "cum_nneighbor_per_level h"
    have s: "sorted ?c" "levels h ! nat v < length ?c" using assms(1) n by (auto simp: layout_ok_def sizes_ok_def)
    have lv: "l < levels h ! nat v" "l' < levels h ! nat v" using assms(2,3) v by (auto simp: node_at_def)
    consider "l < l'" | "l' < l" using v assms(4) by fastforce
    then show ?thesis
    proof cases
      case 1
      then have "?c ! Suc l \<le> ?c ! l'" using s lv by (intro sorted_nth_mono) auto
      then show ?thesis using assms(5,6) v by (auto simp: neighbor_range_def cum_nb_neighbors_def Let_def)
    next
      case 2
      then have "?c ! Suc l' \<le> ?c ! l" using s lv by (intro sorted_nth_mono) auto
      then show ?thesis using assms(5,6) v by (auto simp: neighbor_range_def cum_nb_neighbors_def Let_def)
    qed
  qed
qed

lemma map_nth_range: "e \<le> length xs \<Longrightarrow> map (\<lambda>j. xs ! j) [b..<e] = take (e - b) (drop b xs)"
  by (rule nth_equalityI) simp_all

lemma slots_take_drop:
  assumes "layout_ok h" "node_at h l v" "neighbor_range h v l = (b, e)"
  shows "slots h v l = take (e - b) (drop b (neighbors h))"
  unfolding slots_def assms(3) prod.case by (rule map_nth_range [OF neighbor_range_bounds(4) [OF assms]])

lemma length_slots: "neighbor_range h v l = (b, e) \<Longrightarrow> length (slots h v l) = e - b"
  by (simp add: slots_def)

lemma links_node:
  assumes "graph_ok h" "node_at h l i" "v \<in> set (links h i l)"
  shows "node_at h l v" "0 \<le> v" "v < int (ntotal h)"
proof -
  show "node_at h l v" using assms unfolding graph_ok_def links_ok_def by blast
  then show "0 \<le> v" "v < int (ntotal h)" by (simp_all add: node_at_def)
qed

text \<open>Rewriting one range of slots.\<close>

lemma slots_update_same:
  assumes "layout_ok h" "node_at h l v" "neighbor_range h v l = (b, e)" "length ys = e - b"
  shows "slots (h\<lparr>neighbors := put_range b ys (neighbors h)\<rparr>) v l = ys"
proof -
  have "neighbor_range (h\<lparr>neighbors := put_range b ys (neighbors h)\<rparr>) v l = (b, e)"
    using assms(3) by (simp add: neighbor_range_def cum_nb_neighbors_def)
  then show ?thesis using neighbor_range_bounds [OF assms(1-3)] assms(4)
    by (intro nth_equalityI) (auto simp: slots_def put_range_def nth_append min_def)
qed

lemma length_put_range: "b + length ys \<le> length xs \<Longrightarrow> length (put_range b ys xs) = length xs"
  by (simp add: put_range_def)

lemma nth_put_range_outside:
  "b + length ys \<le> length xs \<Longrightarrow> j < b \<or> b + length ys \<le> j \<Longrightarrow> j < length xs \<Longrightarrow> put_range b ys xs ! j = xs ! j"
  by (auto simp: put_range_def nth_append min_def)

lemma slots_update_other:
  assumes "layout_ok h" "node_at h l v" "node_at h l' v'" "(l, v) \<noteq> (l', v')"
    and "neighbor_range h v l = (b, e)" "length ys = e - b"
  shows "slots (h\<lparr>neighbors := put_range b ys (neighbors h)\<rparr>) v' l' = slots h v' l'"
proof -
  obtain b' e' where r': "neighbor_range h v' l' = (b', e')" by (metis surj_pair)
  have r2: "neighbor_range (h\<lparr>neighbors := put_range b ys (neighbors h)\<rparr>) v' l' = (b', e')"
    using r' by (simp add: neighbor_range_def cum_nb_neighbors_def)
  note d = neighbor_range_disjoint [OF assms(1-4) assms(5) r']
  note bd = neighbor_range_bounds [OF assms(1,2,5)] neighbor_range_bounds [OF assms(1,3) r']
  have "put_range b ys (neighbors h) ! j = neighbors h ! j" if "b' \<le> j" "j < e'" for j
    using that d bd assms(6) by (intro nth_put_range_outside) auto
  then show ?thesis by (simp add: slots_def r' r2)
qed

lemma layout_ok_update:
  assumes "layout_ok h" "length ns = length (neighbors h)"
  shows "layout_ok (h\<lparr>neighbors := ns\<rparr>)"
  using assms by (simp add: layout_ok_def sizes_ok_def cum_nb_neighbors_def)

lemma node_at_update [simp]: "node_at (h\<lparr>neighbors := ns\<rparr>) l v = node_at h l v"
  by (simp add: node_at_def)

lemma links_of_slots:
  "slots h v l = ys \<Longrightarrow> links h v l = takeWhile (\<lambda>v. \<not> v < 0) ys"
  by (simp add: links_def)

text \<open>The invariant survives a rewrite of one list by packed links to existing nodes.\<close>

lemma graph_ok_put_slots:
  assumes g: "graph_ok h" and i: "node_at h l i" "neighbor_range h i l = (b, e)"
    and ys: "length ys = e - b" "packed ys" "\<forall>v \<in> set (takeWhile (\<lambda>v. \<not> v < 0) ys). node_at h l v"
  shows "graph_ok (h\<lparr>neighbors := put_range b ys (neighbors h)\<rparr>)"
proof -
  let ?h = "h\<lparr>neighbors := put_range b ys (neighbors h)\<rparr>"
  have lay: "layout_ok h" using g by (simp add: graph_ok_def)
  note bd = neighbor_range_bounds [OF lay i]
  have "layout_ok ?h" using bd ys(1) by (intro layout_ok_update lay length_put_range) auto
  moreover have "packed (slots ?h i' l') \<and> (\<forall>v \<in> set (links ?h i' l'). node_at ?h l' v)"
    if i': "node_at h l' i'" for i' l'
  proof (cases "(l, i) = (l', i')")
    case True
    then show ?thesis using slots_update_same [OF lay i ys(1)] ys(2,3) by (auto simp: links_def)
  next
    case False
    then show ?thesis using slots_update_other [OF lay i(1) i' False i(2) ys(1)] g i'
      by (simp add: links_def graph_ok_def links_ok_def)
  qed
  ultimately show ?thesis by (simp add: graph_ok_def links_ok_def)
qed

lemma packed_append_empty: "\<forall>v \<in> set vs. 0 \<le> v \<Longrightarrow> packed (vs @ replicate n (-1))"
  by (auto simp: packed_def dropWhile_append dest: bspec)

lemma takeWhile_append_empty:
  "\<forall>v \<in> set vs. 0 \<le> v \<Longrightarrow> takeWhile (\<lambda>v. \<not> v < (0 :: int)) (vs @ replicate n (-1)) = vs"
  by (subst takeWhile_append2) auto

lemma packed_split:
  assumes "packed s"
  shows "s = takeWhile (\<lambda>v. \<not> v < 0) s @ replicate (length s - length (takeWhile (\<lambda>v. \<not> v < 0) s)) (-1)"
proof -
  let ?d = "dropWhile (\<lambda>v. \<not> v < 0) s"
  have "?d = replicate (length ?d) (-1)" using assms by (simp add: packed_def replicate_eqI [symmetric])
  moreover have "length ?d = length s - length (takeWhile (\<lambda>v. \<not> v < 0) s)"
    by (metis add_diff_cancel_left' length_append takeWhile_dropWhile_id)
  ultimately show ?thesis by (metis takeWhile_dropWhile_id)
qed

section \<open>Checking a graph\<close>

text \<open>The invariant in a form that evaluates.\<close>

lemma links_ok_code [code]:
  "links_ok h \<longleftrightarrow> (\<forall>i \<in> set [0..<ntotal h]. \<forall>l \<in> set [0..<levels h ! i].
     packed (slots h (int i) l) \<and> (\<forall>v \<in> set (links h (int i) l). node_at h l v))"
proof
  assume r: "\<forall>i \<in> set [0..<ntotal h]. \<forall>l \<in> set [0..<levels h ! i].
     packed (slots h (int i) l) \<and> (\<forall>v \<in> set (links h (int i) l). node_at h l v)"
  show "links_ok h"
    unfolding links_ok_def
  proof (intro allI impI)
    fix i l assume "node_at h l i"
    then have "nat i < ntotal h" "l < levels h ! nat i" "i = int (nat i)" by (auto simp: node_at_def)
    then show "packed (slots h i l) \<and> (\<forall>v \<in> set (links h i l). node_at h l v)"
      using r by (metis atLeastLessThan_iff set_upt zero_le)
  qed
next
  assume ok: "links_ok h"
  show "\<forall>i \<in> set [0..<ntotal h]. \<forall>l \<in> set [0..<levels h ! i].
     packed (slots h (int i) l) \<and> (\<forall>v \<in> set (links h (int i) l). node_at h l v)"
  proof (intro ballI)
    fix i l assume "i \<in> set [0..<ntotal h]" "l \<in> set [0..<levels h ! i]"
    then have "node_at h l (int i)" by (simp add: node_at_def)
    then show "packed (slots h (int i) l) \<and> (\<forall>v \<in> set (links h (int i) l). node_at h l v)"
      using ok unfolding links_ok_def by blast
  qed
qed

text \<open>A small graph with two levels, for examples: nodes 0, 1, 2, of which 1 is on level 1.\<close>

definition example_graph :: hnsw where
  "example_graph =
     \<lparr>assign_probas = [3/4, 1/4], cum_nneighbor_per_level = [0, 2, 3], levels = [1, 2, 1], offsets = [0, 2, 5, 7],
      neighbors = [1, -1, 0, 2, -1, 1, -1], entry_point = 1, max_level = 1, efConstruction = 4, efSearch = 3,
      check_relative_distance = True, search_bounded_queue = True\<rparr>"

lemma example_graph_ok: "graph_ok example_graph"
  by code_simp

end
