(* ===== verification/Distance_Computer.thy ===== *)
theory Distance_Computer
  imports Prelude
begin

text \<open>
  \<open>faiss/impl/DistanceComputer.h\<close>: the object through which searches see the stored vectors.
  A distance computer with its query set is the record of its virtual functions. The vectors
  and the metric are not part of the model: \<open>query_dis\<close> and \<open>symmetric_dis\<close> are parameters. The
  default batch function and the negating wrapper are the code's.
\<close>

record 'd distance_computer =
  query_dis :: "idx_t \<Rightarrow> 'd"
  distances_batch_4 :: "idx_t \<Rightarrow> idx_t \<Rightarrow> idx_t \<Rightarrow> idx_t \<Rightarrow> 'd \<times> 'd \<times> 'd \<times> 'd"
  symmetric_dis :: "idx_t \<Rightarrow> idx_t \<Rightarrow> 'd"

definition default_computer :: "(idx_t \<Rightarrow> 'd) \<Rightarrow> (idx_t \<Rightarrow> idx_t \<Rightarrow> 'd) \<Rightarrow> 'd distance_computer" where
  "default_computer f g =
     \<lparr>query_dis = f,
      distances_batch_4 = (\<lambda>idx0 idx1 idx2 idx3. (f idx0, f idx1, f idx2, f idx3)),
      symmetric_dis = g\<rparr>"

definition negative_computer :: "('d :: uminus) distance_computer \<Rightarrow> 'd distance_computer" where
  "negative_computer base =
     \<lparr>query_dis = (\<lambda>i. - query_dis base i),
      distances_batch_4 = (\<lambda>idx0 idx1 idx2 idx3.
        case distances_batch_4 base idx0 idx1 idx2 idx3 of
          (d0, d1, d2, d3) \<Rightarrow> (- d0, - d1, - d2, - d3)),
      symmetric_dis = (\<lambda>i j. - symmetric_dis base i j)\<rparr>"

text \<open>
  What every search relies on: a batch of four gives the same distances as four single calls.
  It holds for the default implementation and is inherited by the wrapper.
\<close>

definition batch_exact :: "'d distance_computer \<Rightarrow> bool" where
  "batch_exact dc \<longleftrightarrow> (\<forall>i j k l. distances_batch_4 dc i j k l = (query_dis dc i, query_dis dc j, query_dis dc k, query_dis dc l))"

lemma batch_exact_default [simp]: "batch_exact (default_computer f g)"
  by (simp add: batch_exact_def default_computer_def)

lemma batch_exact_negative: "batch_exact dc \<Longrightarrow> batch_exact (negative_computer dc)"
  by (simp add: batch_exact_def negative_computer_def)

lemma default_computer_sel [simp]:
  "query_dis (default_computer f g) = f" "symmetric_dis (default_computer f g) = g"
  by (simp_all add: default_computer_def)

section \<open>Four at a time\<close>

text \<open>
  Five functions of \<open>HNSW.cpp\<close> compute distances four at a time with the same code: collect
  ids in a buffer, and when it holds four compute the batch and hand each id with its distance
  to a local function (\<open>add_to_heap\<close>, \<open>update_with_candidate\<close>), in order; at the end the
  leftovers are computed one by one.
\<close>

definition flush4 :: "'d distance_computer \<Rightarrow> (idx_t \<Rightarrow> 'd \<Rightarrow> 's \<Rightarrow> 's) \<Rightarrow> idx_t list \<Rightarrow> 's \<Rightarrow> 's" where
  "flush4 dc upd ids s =
     (case distances_batch_4 dc (ids ! 0) (ids ! 1) (ids ! 2) (ids ! 3) of
        (d0, d1, d2, d3) \<Rightarrow>
          upd (ids ! 3) d3 (upd (ids ! 2) d2 (upd (ids ! 1) d1 (upd (ids ! 0) d0 s))))"

definition leftovers :: "'d distance_computer \<Rightarrow> (idx_t \<Rightarrow> 'd \<Rightarrow> 's \<Rightarrow> 's) \<Rightarrow> idx_t list \<Rightarrow> 's \<Rightarrow> 's" where
  "leftovers dc upd ids s = fold (\<lambda>v s. upd v (query_dis dc v) s) ids s"

definition buffer_push ::
    "'d distance_computer \<Rightarrow> (idx_t \<Rightarrow> 'd \<Rightarrow> 's \<Rightarrow> 's) \<Rightarrow> idx_t \<Rightarrow> idx_t list \<times> 's \<Rightarrow> idx_t list \<times> 's" where
  "buffer_push dc upd v bs =
     (let buf = fst bs @ [v] in
      if length buf = 4 then ([], flush4 dc upd buf (snd bs)) else (buf, snd bs))"

text \<open>Handing one id at a time, the reference the buffered code is compared with.\<close>

definition one_by_one :: "'d distance_computer \<Rightarrow> (idx_t \<Rightarrow> 'd \<Rightarrow> 's \<Rightarrow> 's) \<Rightarrow> idx_t list \<Rightarrow> 's \<Rightarrow> 's" where
  "one_by_one dc upd ids s = fold (\<lambda>v s. upd v (query_dis dc v) s) ids s"

lemma one_by_one_simps [simp]:
  "one_by_one dc upd [] s = s"
  "one_by_one dc upd (v # vs) s = one_by_one dc upd vs (upd v (query_dis dc v) s)"
  "one_by_one dc upd (us @ vs) s = one_by_one dc upd vs (one_by_one dc upd us s)"
  by (simp_all add: one_by_one_def)

lemma leftovers_one_by_one: "leftovers dc upd = one_by_one dc upd"
  by (intro ext) (simp add: leftovers_def one_by_one_def)

locale exact_batches =
  fixes dc :: "'d distance_computer"
  assumes batch: "batch_exact dc"
begin

lemma flush4_one_by_one: "length ids = 4 \<Longrightarrow> flush4 dc upd ids s = one_by_one dc upd ids s"
proof -
  assume "length ids = 4"
  then obtain a b c d where "ids = [a, b, c, d]"
    by (auto simp: length_Suc_conv eval_nat_numeral)
  then show ?thesis using batch by (simp add: flush4_def batch_exact_def numeral_3_eq_3)
qed

text \<open>The ids in the buffer are those whose turn is still to come.\<close>

lemma buffer_push_one_by_one:
  assumes "length (fst bs) < 4"
  shows "one_by_one dc upd (fst (buffer_push dc upd v bs)) (snd (buffer_push dc upd v bs)) =
      upd v (query_dis dc v) (one_by_one dc upd (fst bs) (snd bs))"
    and "length (fst (buffer_push dc upd v bs)) < 4"
  using assms by (auto simp: buffer_push_def Let_def flush4_one_by_one)

lemma buffer_fold_one_by_one:
  assumes "length (fst bs) < 4"
  shows "one_by_one dc upd (fst (fold (buffer_push dc upd) vs bs)) (snd (fold (buffer_push dc upd) vs bs)) =
      one_by_one dc upd vs (one_by_one dc upd (fst bs) (snd bs))"
  using assms
proof (induction vs arbitrary: bs)
  case (Cons v vs)
  then show ?case using buffer_push_one_by_one [OF Cons.prems, of upd v] by simp
qed simp

end

text \<open>The contract holds for the computer the code defines, and for its negation.\<close>

interpretation default_batches: exact_batches "default_computer f g" for f :: "idx_t \<Rightarrow> 'd" and g
  by unfold_locales simp

interpretation negated_batches: exact_batches "negative_computer (default_computer f g)"
  for f :: "idx_t \<Rightarrow> 'd :: uminus" and g
  by unfold_locales (simp add: batch_exact_negative)

end
