(* ===== verification/Priority_Queue.thy ===== *)
theory Priority_Queue
  imports Prelude
begin

text \<open>
  \<open>std::priority_queue\<close>, as used by \<open>HNSW.cpp\<close> with the orders \<open>NodeDistCloser\<close>,
  \<open>NodeDistFarther\<close> and \<open>std::pair\<close>'s. A queue is a list with \<open>top()\<close> at its head. Which of
  two equivalent elements comes first is not fixed by the C++ standard; here it is the one
  pushed first. The facts that clients use are those of the locale \<open>priority_queue\<close>, which
  do not depend on that choice.
\<close>

definition pq_push :: "('a \<Rightarrow> 'a \<Rightarrow> bool) \<Rightarrow> 'a \<Rightarrow> 'a list \<Rightarrow> 'a list" where
  "pq_push below x q = takeWhile (\<lambda>y. \<not> below y x) q @ x # dropWhile (\<lambda>y. \<not> below y x) q"

definition pq_ok :: "('a \<Rightarrow> 'a \<Rightarrow> bool) \<Rightarrow> 'a list \<Rightarrow> bool" where
  "pq_ok below q \<longleftrightarrow> sorted_wrt (\<lambda>x y. \<not> below x y) q"

definition closer :: "('d :: linorder) \<times> int \<Rightarrow> 'd \<times> int \<Rightarrow> bool" where
  "closer obj0 obj1 \<longleftrightarrow> fst obj0 < fst obj1"

definition farther :: "('d :: linorder) \<times> int \<Rightarrow> 'd \<times> int \<Rightarrow> bool" where
  "farther obj0 obj1 \<longleftrightarrow> fst obj0 > fst obj1"

definition pair_less :: "('d :: linorder) \<times> int \<Rightarrow> 'd \<times> int \<Rightarrow> bool" where
  "pair_less p q \<longleftrightarrow> fst p < fst q \<or> (fst p = fst q \<and> snd p < snd q)"

definition pair_greater :: "('d :: linorder) \<times> int \<Rightarrow> 'd \<times> int \<Rightarrow> bool" where
  "pair_greater p q = pair_less q p"

lemma pq_push_mset [simp, mset_simps]: "mset (pq_push below x q) = add_mset x (mset q)"
proof -
  have "mset q = mset (takeWhile (\<lambda>y. \<not> below y x) q) + mset (dropWhile (\<lambda>y. \<not> below y x) q)"
    by (metis mset_append takeWhile_dropWhile_id)
  then show ?thesis by (simp add: pq_push_def)
qed

lemma set_pq_push [simp]: "set (pq_push below x q) = insert x (set q)"
  by (metis pq_push_mset set_mset_add_mset_insert set_mset_mset)

lemma length_pq_push [simp, len_simps]: "length (pq_push below x q) = Suc (length q)"
  by (metis pq_push_mset size_add_mset size_mset)

lemma pq_push_nonempty [simp]: "pq_push below x q \<noteq> []"
  by (simp add: pq_push_def)

section \<open>The contract\<close>

text \<open>
  A queue \<open>q\<close> holds a multiset; \<open>top\<close> is an element below no other; \<open>pop\<close> takes it out.
\<close>

locale priority_queue =
  fixes below :: "'a \<Rightarrow> 'a \<Rightarrow> bool"
    and push :: "'a \<Rightarrow> 'q \<Rightarrow> 'q" and top :: "'q \<Rightarrow> 'a" and pop :: "'q \<Rightarrow> 'q"
    and elems :: "'q \<Rightarrow> 'a multiset" and ok :: "'q \<Rightarrow> bool"
  assumes below_asym: "below x y \<Longrightarrow> \<not> below y x"
    and not_below_trans: "\<not> below x y \<Longrightarrow> \<not> below y z \<Longrightarrow> \<not> below x z"
    and push_elems: "ok q \<Longrightarrow> elems (push x q) = add_mset x (elems q)"
    and push_ok: "ok q \<Longrightarrow> ok (push x q)"
    and top_elem: "ok q \<Longrightarrow> elems q \<noteq> {#} \<Longrightarrow> top q \<in># elems q"
    and top_best: "ok q \<Longrightarrow> y \<in># elems q \<Longrightarrow> \<not> below (top q) y"
    and pop_elems: "ok q \<Longrightarrow> elems q \<noteq> {#} \<Longrightarrow> elems (pop q) = elems q - {#top q#}"
    and pop_ok: "ok q \<Longrightarrow> elems q \<noteq> {#} \<Longrightarrow> ok (pop q)"
begin

text \<open>
  A queue bounded to \<open>n\<close> elements: push, and pop if it has become too large. What it drops is
  above nothing it keeps: it keeps \<open>n\<close> least elements of all that were pushed.
\<close>

definition keeps_least :: "nat \<Rightarrow> 'a multiset \<Rightarrow> 'a multiset \<Rightarrow> bool" where
  "keeps_least n kept all \<longleftrightarrow> (\<exists>R. all = kept + R \<and> size kept = min n (size all)
     \<and> (\<forall>x \<in># kept. \<forall>r \<in># R. \<not> below r x))"

definition bounded_push :: "nat \<Rightarrow> 'a \<Rightarrow> 'q \<Rightarrow> 'q" where
  "bounded_push n x q =
     (if size (elems q) < n \<or> below x (top q) then
        if size (elems (push x q)) > n then pop (push x q) else push x q
      else q)"

lemma keeps_least_empty: "keeps_least n {#} {#}"
  by (simp add: keeps_least_def)

lemma bounded_push_correct:
  assumes "ok q" "0 < n" "keeps_least n (elems q) all"
  shows "ok (bounded_push n x q)" "keeps_least n (elems (bounded_push n x q)) (add_mset x all)"
proof -
  from assms(3) obtain R where R: "all = elems q + R" "size (elems q) = min n (size all)"
    "\<forall>y \<in># elems q. \<forall>r \<in># R. \<not> below r y" unfolding keeps_least_def by blast
  have asym: "below a b \<Longrightarrow> \<not> below b a" for a b using below_asym .
  show "ok (bounded_push n x q)"
    using assms push_ok pop_ok push_elems by (auto simp: bounded_push_def)
  show "keeps_least n (elems (bounded_push n x q)) (add_mset x all)"
  proof (cases "size (elems q) < n")
    case True
    moreover have "size all = size (elems q) + size R" using R(1) by simp
    ultimately have "size R = 0" using R(2) True by linarith
    then have "R = {#}" by simp
    moreover have "elems (bounded_push n x q) = add_mset x (elems q)"
      using True assms(1) by (simp add: bounded_push_def push_elems)
    ultimately show ?thesis using R True by (auto simp: keeps_least_def)
  next
    case False
    then have sz: "size (elems q) = n" "elems q \<noteq> {#}" using R(2) assms(2) by auto
    show ?thesis
    proof (cases "below x (top q)")
      case False
      have "\<not> below x y" if "y \<in># elems q" for y
        using False top_best [OF assms(1) that] not_below_trans by blast
      then have "\<forall>y \<in># elems q. \<forall>r \<in># add_mset x R. \<not> below r y" using R(3) by auto
      moreover have "bounded_push n x q = q" using False sz by (simp add: bounded_push_def)
      ultimately show ?thesis using R sz unfolding keeps_least_def
        by (intro exI [of _ "add_mset x R"]) auto
    next
      case True
      let ?p = "push x q"
      have p: "ok ?p" "elems ?p = add_mset x (elems q)" using assms(1) push_ok push_elems by auto
      then have ne: "elems ?p \<noteq> {#}" by simp
      have e: "elems (bounded_push n x q) = elems ?p - {#top ?p#}"
        using True sz p pop_elems [OF p(1) ne] by (simp add: bounded_push_def)
      have t: "top ?p \<in># elems ?p" using top_elem [OF p(1) ne] .
      have split: "add_mset x all = (elems ?p - {#top ?p#}) + add_mset (top ?p) R"
      proof -
        have "elems ?p = add_mset (top ?p) (elems ?p - {#top ?p#})" using t by simp
        then have "elems ?p + R = (elems ?p - {#top ?p#}) + add_mset (top ?p) R"
          by (metis union_mset_add_mset_left union_mset_add_mset_right)
        then show ?thesis using R(1) p(2) by simp
      qed
      have xr: "\<not> below r x" if "r \<in># R" for r
      proof
        assume "below r x"
        have "\<not> below r (top q)" using R(3) that top_elem [OF assms(1) sz(2)] by blast
        moreover have "\<not> below (top q) x" using asym [OF True] .
        ultimately have "\<not> below r x" using not_below_trans by blast
        then show False using \<open>below r x\<close> by simp
      qed
      have "\<not> below r y" if yA: "y \<in># elems ?p - {#top ?p#}" and rA: "r \<in># add_mset (top ?p) R" for y r
      proof -
        have y: "y \<in># elems ?p" using yA by (meson in_diffD)
        then consider "r = top ?p" | "r \<in># R" "y = x" | "r \<in># R" "y \<in># elems q" using rA p(2) by auto
        then show ?thesis using top_best [OF p(1) y] xr R(3) by cases auto
      qed
      moreover have "size (elems ?p - {#top ?p#}) = n"
        using t p(2) sz(1) by (simp add: size_Diff_singleton)
      ultimately show ?thesis using split R sz e unfolding keeps_least_def
        by (intro exI [of _ "add_mset (top ?p) R"]) auto
    qed
  qed
qed

end

section \<open>The queues of the code\<close>

lemma sorted_wrt_takeWhile_weak:
  assumes "sorted_wrt (\<lambda>x y. \<not> below x y) q" and "\<And>a b c. \<not> below a b \<Longrightarrow> \<not> below b c \<Longrightarrow> \<not> below a c"
    and "\<And>a b. below a b \<Longrightarrow> \<not> below b a"
  shows "pq_ok below (pq_push below x q)"
proof -
  let ?P = "\<lambda>y. \<not> below y x"
  have s: "sorted_wrt (\<lambda>x y. \<not> below x y) (takeWhile ?P q)" "sorted_wrt (\<lambda>x y. \<not> below x y) (dropWhile ?P q)"
    using assms(1) by (metis sorted_wrt_append takeWhile_dropWhile_id)+
  have cross: "\<not> below a b" if "a \<in> set (takeWhile ?P q)" "b \<in> set (dropWhile ?P q)" for a b
    using assms(1) that by (metis sorted_wrt_append takeWhile_dropWhile_id)
  have tw: "\<not> below a x" if "a \<in> set (takeWhile ?P q)" for a using that by (auto dest: set_takeWhileD)
  have dw: "\<not> below x b" if b: "b \<in> set (dropWhile ?P q)" for b
  proof -
    obtain z zs where z: "dropWhile ?P q = z # zs" using b by (cases "dropWhile ?P q") auto
    then have "below z x" by (metis hd_dropWhile list.sel(1) list.distinct(1))
    then have "\<not> below x z" by (rule assms(3))
    moreover have "b = z \<or> \<not> below z b" using b s(2) z by auto
    ultimately show ?thesis using assms(2) by blast
  qed
  show ?thesis unfolding pq_ok_def pq_push_def sorted_wrt_append
  proof (intro conjI ballI)
    show "sorted_wrt (\<lambda>x y. \<not> below x y) (x # dropWhile ?P q)" using s(2) dw by simp
    show "\<not> below a b" if "a \<in> set (takeWhile ?P q)" "b \<in> set (x # dropWhile ?P q)" for a b
      using that tw [OF that(1)] cross [OF that(1)] by auto
  qed (rule s(1))
qed

lemma list_priority_queue:
  assumes "\<And>x y. below x y \<Longrightarrow> \<not> below y x" and "\<And>x y z. \<not> below x y \<Longrightarrow> \<not> below y z \<Longrightarrow> \<not> below x z"
  shows "priority_queue below (pq_push below) hd tl mset (pq_ok below)"
proof
  have irr: "\<not> below a a" for a using assms(1) by blast
  show "pq_ok below (pq_push below x q)" if "pq_ok below q" for q x
    using that unfolding pq_ok_def by (rule sorted_wrt_takeWhile_weak [unfolded pq_ok_def]) (rule assms(2), assumption+, rule assms(1))
  show "\<not> below (hd q) y" if "pq_ok below q" "y \<in># mset q" for q y
    using that irr by (cases q) (auto simp: pq_ok_def)
  show "hd q \<in># mset q" if "mset q \<noteq> {#}" for q :: "'a list" using that by (cases q) auto
  show "mset (tl q) = mset q - {#hd q#}" if "mset q \<noteq> {#}" for q :: "'a list" using that by (cases q) auto
  show "pq_ok below (tl q)" if "pq_ok below q" "mset q \<noteq> {#}" for q using that by (cases q) (auto simp: pq_ok_def)
next
  show "\<not> below y x" if "below x y" for x y using assms(1) [OF that] .
  show "\<not> below x z" if "\<not> below x y" "\<not> below y z" for x y z using assms(2) [OF that] .
qed simp

interpretation closer_queue: priority_queue closer "pq_push closer" hd tl mset "pq_ok closer"
  by (rule list_priority_queue) (auto simp: closer_def)

interpretation farther_queue: priority_queue farther "pq_push farther" hd tl mset "pq_ok farther"
  by (rule list_priority_queue) (auto simp: farther_def)

interpretation node_queue: priority_queue pair_less "pq_push pair_less" hd tl mset "pq_ok pair_less"
  by (rule list_priority_queue) (auto simp: pair_less_def)

interpretation rev_node_queue: priority_queue pair_greater "pq_push pair_greater" hd tl mset "pq_ok pair_greater"
  by (rule list_priority_queue) (auto simp: pair_greater_def pair_less_def)

end
