(* ===== verification/Hnsw_Shrink.thy ===== *)
theory Hnsw_Shrink
  imports Hnsw_Graph Distance_Computer Priority_Queue "HOL-Library.Sublist"
begin

text \<open>
  Pruning of neighbor lists (\<open>HNSW.cpp\<close> lines 225-353): \<open>HNSW::shrink_neighbor_list\<close>, the local
  function of the same name on a queue of results, and \<open>add_link\<close>. A node with its distance
  (\<open>NodeDistFarther\<close>, \<open>NodeDistCloser\<close>) is a pair (distance, id).
\<close>

section \<open>The pruning heuristic\<close>

definition good_neighbor :: "('d :: linorder) distance_computer \<Rightarrow> ('d \<times> int) list \<Rightarrow> 'd \<times> int \<Rightarrow> bool" where
  "good_neighbor qdis output v1 \<longleftrightarrow> (\<forall>v2 \<in> set output. \<not> symmetric_dis qdis (snd v2) (snd v1) < fst v1)"

text \<open>
  The loop over the queue \<open>input\<close>. It ends with \<open>Inr\<close> when the output is full (the early
  \<open>return\<close>), with \<open>Inl\<close> when the queue is empty.
\<close>

fun shrink_loop ::
    "('d :: linorder) distance_computer \<Rightarrow> nat \<Rightarrow> bool \<Rightarrow> ('d \<times> int) list \<Rightarrow> ('d \<times> int) list \<Rightarrow> ('d \<times> int) list \<Rightarrow>
     (('d \<times> int) list \<times> ('d \<times> int) list) + ('d \<times> int) list" where
  "shrink_loop qdis max_size keep [] output outsiders = Inl (output, outsiders)"
| "shrink_loop qdis max_size keep (v1 # input) output outsiders =
     (if good_neighbor qdis output v1 then
        let output' = output @ [v1] in
        if length output' \<ge> max_size then Inr output'
        else shrink_loop qdis max_size keep input output' outsiders
      else shrink_loop qdis max_size keep input output (if keep then outsiders @ [v1] else outsiders))"

text \<open>The last loop: fill up with outsiders, in order.\<close>

fun add_outsiders :: "nat \<Rightarrow> 'a list \<Rightarrow> 'a list \<Rightarrow> 'a list" where
  "add_outsiders max_size output [] = output"
| "add_outsiders max_size output (v # outsiders) =
     (if length output < max_size then add_outsiders max_size (output @ [v]) outsiders else output)"

definition shrink_neighbor_list ::
    "('d :: linorder) distance_computer \<Rightarrow> ('d \<times> int) list \<Rightarrow> nat \<Rightarrow> bool \<Rightarrow> ('d \<times> int) list" where
  "shrink_neighbor_list qdis input max_size keep =
     (case shrink_loop qdis max_size keep input [] [] of
        Inr output \<Rightarrow> output
      | Inl (output, outsiders) \<Rightarrow> if keep then add_outsiders max_size output outsiders else output)"

text \<open>The local function: the results go through a \<open>NodeDistFarther\<close> queue and back.\<close>

definition to_queue :: "('a \<Rightarrow> 'a \<Rightarrow> bool) \<Rightarrow> 'a list \<Rightarrow> 'a list" where
  "to_queue below xs = fold (pq_push below) xs []"

definition shrink_results ::
    "('d :: linorder) distance_computer \<Rightarrow> ('d \<times> int) list \<Rightarrow> nat \<Rightarrow> bool \<Rightarrow> ('d \<times> int) list" where
  "shrink_results qdis result_set1 max_size keep =
     (if length result_set1 < max_size then result_set1
      else to_queue closer (shrink_neighbor_list qdis (to_queue farther result_set1) max_size keep))"

section \<open>Adding a link\<close>

text \<open>The slot after the last used one, searched from the end.\<close>

fun free_slot :: "storage_idx_t list \<Rightarrow> nat \<Rightarrow> nat \<Rightarrow> nat" where
  "free_slot ns begin' 0 = 0"
| "free_slot ns begin' (Suc i) =
     (if begin' < Suc i then (if ns ! i \<noteq> -1 then Suc i else free_slot ns begin' i) else Suc i)"

definition add_link ::
    "hnsw \<Rightarrow> ('d :: linorder) distance_computer \<Rightarrow> storage_idx_t \<Rightarrow> storage_idx_t \<Rightarrow> nat \<Rightarrow> bool \<Rightarrow> hnsw" where
  "add_link h qdis src dest level keep =
     (case neighbor_range h src level of (b, e) \<Rightarrow>
        if neighbors h ! (e - 1) = -1 then
          h\<lparr>neighbors := (neighbors h)[free_slot (neighbors h) b e := dest]\<rparr>
        else
          let q0 = pq_push closer (symmetric_dis qdis src dest, dest) [];
              q1 = fold (\<lambda>i q. pq_push closer (symmetric_dis qdis src (neighbors h ! i), neighbors h ! i) q) [b..<e] q0;
              q2 = shrink_results qdis q1 (e - b) keep
          in h\<lparr>neighbors := put_range b (map snd q2 @ replicate (e - b - length q2) (-1)) (neighbors h)\<rparr>)"

section \<open>What pruning keeps\<close>

lemma add_outsiders_take: "add_outsiders m output os = output @ take (m - length output) os"
  by (induction m "output" os rule: add_outsiders.induct) (auto simp: take_Cons' not_less)

text \<open>
  \<open>diverse xs\<close>: no element is closer to an earlier one than to the query.
\<close>

definition diverse :: "('d :: linorder) distance_computer \<Rightarrow> ('d \<times> int) list \<Rightarrow> bool" where
  "diverse qdis xs \<longleftrightarrow> sorted_wrt (\<lambda>v2 v1. \<not> symmetric_dis qdis (snd v2) (snd v1) < fst v1) xs"

lemma diverse_snoc: "diverse qdis (xs @ [v]) \<longleftrightarrow> diverse qdis xs \<and> good_neighbor qdis xs v"
  by (auto simp: diverse_def sorted_wrt_append good_neighbor_def)

lemma good_neighbor_mono: "set xs \<subseteq> set ys \<Longrightarrow> good_neighbor qdis ys v \<Longrightarrow> good_neighbor qdis xs v"
  by (auto simp: good_neighbor_def)

text \<open>What the loop has consumed is split between the output and the rejected nodes.\<close>

lemma shrink_loop_spec:
  assumes "diverse qdis output" "\<forall>v \<in> set rej. \<not> good_neighbor qdis output v"
    and "keep \<Longrightarrow> outsiders = rej" "subseq output seen" "mset seen = mset output + mset rej"
    and "length output < max 1 max_size"
  shows "case shrink_loop qdis max_size keep input output outsiders of
      Inr out \<Rightarrow> diverse qdis out \<and> subseq out (seen @ input) \<and> length out = max 1 max_size
        \<and> (\<exists>s rej' rest. seen @ input = s @ rest \<and> mset s = mset out + mset rej' \<and> (\<forall>v \<in> set rej'. \<not> good_neighbor qdis out v))
    | Inl (out, os) \<Rightarrow> diverse qdis out \<and> subseq out (seen @ input) \<and> length out < max 1 max_size
        \<and> (\<exists>rej'. mset (seen @ input) = mset out + mset rej' \<and> (\<forall>v \<in> set rej'. \<not> good_neighbor qdis out v)
             \<and> (keep \<longrightarrow> os = rej'))"
  using assms
proof (induction input arbitrary: "output" outsiders rej seen)
  case Nil
  then show ?case by auto
next
  case (Cons v1 input)
  have seen: "seen @ v1 # input = (seen @ [v1]) @ input" by simp
  show ?case
  proof (cases "good_neighbor qdis output v1")
    case True
    have d: "diverse qdis (output @ [v1])" using Cons.prems(1) True by (simp add: diverse_snoc)
    have r: "\<forall>v \<in> set rej. \<not> good_neighbor qdis (output @ [v1]) v"
      using Cons.prems(2) good_neighbor_mono [of "output" "output @ [v1]"] by auto
    have s: "subseq (output @ [v1]) (seen @ [v1])" using Cons.prems(4) by simp
    have m: "mset (seen @ [v1]) = mset (output @ [v1]) + mset rej" using Cons.prems(5) by simp
    show ?thesis
    proof (cases "length (output @ [v1]) \<ge> max_size")
      case full: True
      then have "length (output @ [v1]) = max 1 max_size" using Cons.prems(6) by auto
      moreover have "subseq (output @ [v1]) (seen @ v1 # input)"
        unfolding seen using s by (rule subseq_rev_drop_many)
      moreover have "\<exists>s rej' rest. seen @ v1 # input = s @ rest \<and> mset s = mset (output @ [v1]) + mset rej'
          \<and> (\<forall>v \<in> set rej'. \<not> good_neighbor qdis (output @ [v1]) v)"
        using m r by (intro exI [of _ "seen @ [v1]"] exI [of _ rej] exI [of _ input]) simp
      ultimately show ?thesis using True full d unfolding shrink_loop.simps if_P [OF True] Let_def if_P [OF full] sum.case by (intro conjI)
    next
      case False
      then have "length (output @ [v1]) < max 1 max_size" by auto
      from Cons.IH [OF d r Cons.prems(3) s m this, unfolded append_assoc append_Cons append_Nil] show ?thesis using True False by (simp add: Let_def)
    qed
  next
    case False
    have r: "\<forall>v \<in> set (rej @ [v1]). \<not> good_neighbor qdis output v" using Cons.prems(2) False by simp
    have o: "keep \<Longrightarrow> (if keep then outsiders @ [v1] else outsiders) = rej @ [v1]" using Cons.prems(3) by simp
    have s: "subseq output (seen @ [v1])"
      using Cons.prems(4) by (meson subseq_rev_drop_many)
    have m: "mset (seen @ [v1]) = mset output + mset (rej @ [v1])" using Cons.prems(5) by simp
    from Cons.IH [OF Cons.prems(1) r o s m Cons.prems(6), unfolded append_assoc append_Cons append_Nil] False show ?thesis by simp
  qed
qed

lemma shrink_loop_start:
  "case shrink_loop qdis m keep qs [] [] of
      Inr out \<Rightarrow> diverse qdis out \<and> subseq out qs \<and> length out = max 1 m
        \<and> (\<exists>s rej' rest. qs = s @ rest \<and> mset s = mset out + mset rej' \<and> (\<forall>v \<in> set rej'. \<not> good_neighbor qdis out v))
    | Inl (out, os) \<Rightarrow> diverse qdis out \<and> subseq out qs \<and> length out < max 1 m
        \<and> (\<exists>rej'. mset qs = mset out + mset rej' \<and> (\<forall>v \<in> set rej'. \<not> good_neighbor qdis out v)
             \<and> (keep \<longrightarrow> os = rej'))"
proof -
  have d: "diverse qdis []" by (simp add: diverse_def)
  have e: "[] @ qs = qs" by simp
  show ?thesis
    by (rule shrink_loop_spec [OF d, of "[]" keep "[]" "[]" m qs, unfolded e]) simp_all
qed

lemma subseq_mset: "subseq xs ys \<Longrightarrow> mset xs \<subseteq># mset ys"
  by (induction rule: list_emb.induct) (auto intro: subset_mset.order_trans)

text \<open>
  The result without \<open>keep_max_size_level0\<close>: in queue order, diverse, at most \<open>max_size\<close> long
  (one, if \<open>max_size\<close> is 0), and each node considered and not kept is closer to a kept one
  than to the query. Only when the list is full are later nodes not considered.
\<close>

lemma shrink_diverse:
  fixes qdis :: "('d :: linorder) distance_computer"
  defines "out m qs \<equiv> shrink_neighbor_list qdis qs m False"
  shows "diverse qdis (out m qs)" "subseq (out m qs) qs" "length (out m qs) \<le> max 1 m"
    "\<exists>s rest. qs = s @ rest \<and> (rest = [] \<or> length (out m qs) = max 1 m) \<and> set (out m qs) \<subseteq> set s
       \<and> (\<forall>v \<in> set s. v \<in> set (out m qs) \<or> \<not> good_neighbor qdis (out m qs) v)"
proof -
  have "diverse qdis (out m qs) \<and> subseq (out m qs) qs \<and> length (out m qs) \<le> max 1 m
    \<and> (\<exists>s rest. qs = s @ rest \<and> (rest = [] \<or> length (out m qs) = max 1 m) \<and> set (out m qs) \<subseteq> set s
       \<and> (\<forall>v \<in> set s. v \<in> set (out m qs) \<or> \<not> good_neighbor qdis (out m qs) v))"
  proof (cases "shrink_loop qdis m False qs [] []")
    case (Inr r)
    have e: "out m qs = r" by (simp add: out_def shrink_neighbor_list_def Inr)
    from shrink_loop_start [where qdis = qdis and m = m and keep = False and qs = qs, unfolded Inr sum.case] obtain s rej rest where
      r: "diverse qdis r" "subseq r qs" "length r = max 1 m" "qs = s @ rest" "mset s = mset r + mset rej"
        "\<forall>v \<in> set rej. \<not> good_neighbor qdis r v" by blast
    have "set s = set r \<union> set rej" using r(5) by (metis set_mset_mset set_mset_union)
    then show ?thesis using r e by (intro conjI exI [of _ s] exI [of _ rest]) auto
  next
    case (Inl p)
    obtain r os where p: "p = (r, os)" by (metis surj_pair)
    have e: "out m qs = r" by (simp add: out_def shrink_neighbor_list_def Inl p)
    from shrink_loop_start [where qdis = qdis and m = m and keep = False and qs = qs, unfolded Inl p sum.case prod.case] obtain rej where
      r: "diverse qdis r" "subseq r qs" "length r < max 1 m" "mset qs = mset r + mset rej"
        "\<forall>v \<in> set rej. \<not> good_neighbor qdis r v" by blast
    have "set qs = set r \<union> set rej" using r(4) by (metis set_mset_mset set_mset_union)
    then show ?thesis using r e by (intro conjI exI [of _ qs] exI [of _ "[]"]) auto
  qed
  then show "diverse qdis (out m qs)" "subseq (out m qs) qs" "length (out m qs) \<le> max 1 m"
    "\<exists>s rest. qs = s @ rest \<and> (rest = [] \<or> length (out m qs) = max 1 m) \<and> set (out m qs) \<subseteq> set s
       \<and> (\<forall>v \<in> set s. v \<in> set (out m qs) \<or> \<not> good_neighbor qdis (out m qs) v)" by blast+
qed

text \<open>With \<open>keep_max_size_level0\<close> as many as possible are kept, the diverse ones first.\<close>

lemma shrink_keep:
  assumes "0 < m"
  shows "length (shrink_neighbor_list qdis qs m True) = min m (length qs)"
    and "mset (shrink_neighbor_list qdis qs m True) \<subseteq># mset qs"
proof -
  have "length (shrink_neighbor_list qdis qs m True) = min m (length qs)
    \<and> mset (shrink_neighbor_list qdis qs m True) \<subseteq># mset qs"
  proof (cases "shrink_loop qdis m True qs [] []")
    case (Inr r)
    have e: "shrink_neighbor_list qdis qs m True = r" by (simp add: shrink_neighbor_list_def Inr)
    from shrink_loop_start [where qdis = qdis and m = m and keep = True and qs = qs, unfolded Inr sum.case] have "subseq r qs" "length r = max 1 m" by auto
    then show ?thesis using e assms list_emb_length [of "(=)" r qs] subseq_mset [of r qs] by auto
  next
    case (Inl p)
    obtain r os where p: "p = (r, os)" by (metis surj_pair)
    have e: "shrink_neighbor_list qdis qs m True = r @ take (m - length r) os"
      by (simp add: shrink_neighbor_list_def Inl p add_outsiders_take)
    from shrink_loop_start [where qdis = qdis and m = m and keep = True and qs = qs, unfolded Inl p sum.case prod.case] have
      r: "length r < max 1 m" "mset qs = mset r + mset os" by auto
    have "length qs = length r + length os" using r(2) by (metis size_mset size_union)
    moreover have "mset (take (m - length r) os) \<subseteq># mset os" by (metis append_take_drop_id mset_append mset_subset_eq_add_left)
    ultimately show ?thesis using e r assms by auto
  qed
  then show "length (shrink_neighbor_list qdis qs m True) = min m (length qs)"
    "mset (shrink_neighbor_list qdis qs m True) \<subseteq># mset qs" by blast+
qed

section \<open>Results and links\<close>

lemma mset_fold_push: "mset (fold (pq_push below) xs q) = mset xs + mset q"
  by (induction xs arbitrary: q) simp_all

lemma to_queue_mset [simp]: "mset (to_queue below xs) = mset xs"
  by (simp add: to_queue_def mset_fold_push)

lemma to_queue_set [simp]: "set (to_queue below xs) = set xs"
  by (metis set_mset_mset to_queue_mset)

lemma to_queue_length [simp]: "length (to_queue below xs) = length xs"
  by (metis size_mset to_queue_mset)

lemma to_queue_empty [simp]: "to_queue below xs = [] \<longleftrightarrow> xs = []"
  by (metis length_0_conv to_queue_length)

lemma shrink_list_length: "length (shrink_neighbor_list qdis qs m keep) \<le> max 1 m"
proof (cases "keep \<and> 0 < m")
  case False
  have "shrink_neighbor_list qdis qs m keep = shrink_neighbor_list qdis qs m False" if "m = 0"
  proof (cases "shrink_loop qdis m keep qs [] []")
    case (Inl p)
    then have "length (fst p) < 1" using shrink_loop_start [where qdis = qdis and m = m and keep = keep and qs = qs] that
      by (auto split: prod.splits)
    then show ?thesis
      using Inl shrink_loop_start [where qdis = qdis and m = m and keep = False and qs = qs] that
      by (cases qs) (auto simp: shrink_neighbor_list_def good_neighbor_def Let_def add_outsiders_take split: sum.splits prod.splits)
  next
    case (Inr r)
    then show ?thesis using that
      by (cases qs) (auto simp: shrink_neighbor_list_def good_neighbor_def Let_def)
  qed
  then show ?thesis using False shrink_diverse(3) [where qdis = qdis and m = m and qs = qs] by (cases "m = 0") auto
qed (use shrink_keep(1) [of m qdis qs] in auto)

lemma shrink_list_sub: "mset (shrink_neighbor_list qdis qs m keep) \<subseteq># mset qs"
proof (cases "shrink_loop qdis m keep qs [] []")
  case (Inr r)
  from shrink_loop_start [where qdis = qdis and m = m and keep = keep and qs = qs, unfolded Inr sum.case]
  have "subseq r qs" by blast
  then show ?thesis by (simp add: shrink_neighbor_list_def Inr subseq_mset)
next
  case (Inl p)
  obtain r os where p: "p = (r, os)" by (metis surj_pair)
  from shrink_loop_start [where qdis = qdis and m = m and keep = keep and qs = qs, unfolded Inl p sum.case prod.case]
  obtain rej where r: "mset qs = mset r + mset rej" "keep \<longrightarrow> os = rej" by blast
  have "mset (take n xs) \<subseteq># mset xs" for n and xs :: "('a \<times> int) list"
    by (metis append_take_drop_id mset_append mset_subset_eq_add_left)
  then show ?thesis using r by (simp add: shrink_neighbor_list_def Inl p add_outsiders_take)
qed

lemma shrink_results_sub: "mset (shrink_results qdis rs m keep) \<subseteq># mset rs"
  using shrink_list_sub [of qdis "to_queue farther rs" m keep] by (simp add: shrink_results_def)

lemma shrink_results_set: "set (shrink_results qdis rs m keep) \<subseteq> set rs"
  using set_mset_mono [OF shrink_results_sub [of qdis rs m keep]] by simp

lemma shrink_results_length: "length (shrink_results qdis rs m keep) \<le> max 1 m"
  using shrink_list_length [of qdis "to_queue farther rs" m keep] by (simp add: shrink_results_def)

lemma shrink_list_nonempty: "qs \<noteq> [] \<Longrightarrow> shrink_neighbor_list qdis qs m keep \<noteq> []"
proof -
  assume "qs \<noteq> []"
  then obtain v vs where qs: "qs = v # vs" by (cases qs) auto
  show ?thesis
  proof (cases "shrink_loop qdis m keep qs [] []")
    case (Inr r)
    from shrink_loop_start [where qdis = qdis and m = m and keep = keep and qs = qs, unfolded Inr sum.case]
    have "length r = max 1 m" by blast
    then show ?thesis by (auto simp: shrink_neighbor_list_def Inr)
  next
    case (Inl p)
    obtain r os where p: "p = (r, os)" by (metis surj_pair)
    from shrink_loop_start [where qdis = qdis and m = m and keep = keep and qs = qs, unfolded Inl p sum.case prod.case]
    obtain rej where r: "mset qs = mset r + mset rej" "\<forall>v \<in> set rej. \<not> good_neighbor qdis r v" by blast
    have "r \<noteq> []"
    proof
      assume "r = []"
      then have "v \<in> set rej" using r(1) qs by (metis add_0 list.set_intros(1) mset_eq_setD mset.simps(1))
      moreover have "good_neighbor qdis r v" using \<open>r = []\<close> by (simp add: good_neighbor_def)
      ultimately show False using r(2) by blast
    qed
    then show ?thesis by (simp add: shrink_neighbor_list_def Inl p add_outsiders_take)
  qed
qed

lemma shrink_results_nonempty: "rs \<noteq> [] \<Longrightarrow> shrink_results qdis rs m keep \<noteq> []"
proof -
  assume "rs \<noteq> []"
  then show ?thesis by (auto simp: shrink_results_def shrink_list_nonempty)
qed

lemma free_slot_eq:
  assumes "b \<le> k" "k \<le> i" "\<forall>j. k \<le> j \<and> j < i \<longrightarrow> ns ! j = -1" "k = b \<or> ns ! (k - 1) \<noteq> -1"
  shows "free_slot ns b i = k"
  using assms
proof (induction i)
  case (Suc i)
  show ?case
  proof (cases "k = Suc i")
    case True
    then show ?thesis using Suc.prems by (cases "b < Suc i") auto
  next
    case False
    then have "ns ! i = -1" "b < Suc i" using Suc.prems by auto
    then show ?thesis using Suc.IH False Suc.prems by simp
  qed
qed simp

lemma nth_put_range_inside:
  assumes "b \<le> j" "j < b + length ys" "b \<le> length xs"
  shows "put_range b ys xs ! j = ys ! (j - b)"
proof -
  have "j - b < length ys" using assms by linarith
  moreover have "length (take b xs) = b" using assms by simp
  ultimately show ?thesis using assms unfolding put_range_def
    by (metis not_less nth_append)
qed

lemma full_links:
  assumes "length (links h v l) = length (slots h v l)"
  shows "slots h v l = links h v l"
proof -
  have e: "slots h v l = links h v l @ dropWhile (\<lambda>v. \<not> v < 0) (slots h v l)"
    by (simp add: links_def)
  have "length (dropWhile (\<lambda>v. \<not> v < 0) (slots h v l)) = 0"
    using assms e by (metis add_cancel_right_right length_append)
  then show ?thesis using e by (metis append_Nil2 length_0_conv)
qed

text \<open>There is at least one slot per level.\<close>

definition roomy :: "hnsw \<Rightarrow> bool" where
  "roomy h \<longleftrightarrow> (\<forall>l. Suc l < length (cum_nneighbor_per_level h) \<longrightarrow>
     cum_nneighbor_per_level h ! l < cum_nneighbor_per_level h ! Suc l)"

lemma roomy_range:
  assumes "layout_ok h" "roomy h" "node_at h l v" "neighbor_range h v l = (b, e)"
  shows "b < e"
proof -
  have "Suc l < length (cum_nneighbor_per_level h)"
  proof -
    have "nat v < ntotal h" "l < levels h ! nat v" using assms(3) by (auto simp: node_at_def)
    then show ?thesis using assms(1) by (fastforce simp: layout_ok_def)
  qed
  then show ?thesis using assms(2,4) by (auto simp: roomy_def neighbor_range_def cum_nb_neighbors_def Let_def)
qed

text \<open>
  What \<open>add_link\<close> does, seen as a rewrite of one range of slots.
\<close>

definition link_queue :: "hnsw \<Rightarrow> ('d :: linorder) distance_computer \<Rightarrow> int \<Rightarrow> int \<Rightarrow> nat \<Rightarrow> ('d \<times> int) list" where
  "link_queue h qdis src dest level =
     to_queue closer (map (\<lambda>v. (symmetric_dis qdis src v, v)) (dest # slots h src level))"

lemma fold_push_range:
  "fold (\<lambda>i q. pq_push below (f (xs ! i)) q) js q = fold (pq_push below) (map (\<lambda>j. f (xs ! j)) js) q"
  by (induction js arbitrary: q) simp_all

lemma add_link_room:
  assumes g: "graph_ok h" and r: "roomy h" and n: "node_at h l src" and be: "neighbor_range h src l = (b, e)"
    and free: "neighbors h ! (e - 1) = -1"
  shows "length (links h src l) < e - b"
    and "add_link h qdis src dest l keep = h\<lparr>neighbors :=
      put_range b (links h src l @ [dest] @ replicate (e - b - length (links h src l) - 1) (-1)) (neighbors h)\<rparr>"
proof -
  have lay: "layout_ok h" using g by (simp add: graph_ok_def)
  note bd = neighbor_range_bounds [OF lay n be]
  have lt: "b < e" by (rule roomy_range [OF lay r n be])
  let ?s = "slots h src l" and ?ln = "links h src l" and ?ns = "neighbors h"
  have pk: "packed ?s" using g n by (simp add: graph_ok_def links_ok_def)
  have len: "length ?s = e - b" by (rule length_slots [OF be])
  have nth: "?ns ! j = ?s ! (j - b)" if "b \<le> j" "j < e" for j
    using that be by (simp add: slots_def)
  have last: "?s ! (e - b - 1) = -1" using nth [of "e - 1"] free lt by simp
  have pos: "\<forall>v \<in> set ?ln. 0 \<le> v" using links_node(2) [OF g n] by blast
  have sp: "?s = ?ln @ replicate (e - b - length ?ln) (-1)"
    using packed_split [OF pk] len by (simp add: links_def)
  have "length ?ln \<noteq> e - b"
  proof
    assume "length ?ln = e - b"
    then have "?ln ! (e - b - 1) = -1" using sp last by simp
    moreover have "?ln ! (e - b - 1) \<in> set ?ln" using \<open>length ?ln = e - b\<close> lt by (intro nth_mem) simp
    ultimately show False using pos by fastforce
  qed
  moreover have "length ?ln \<le> e - b" using sp len by (metis length_append le_add1)
  ultimately show ll: "length ?ln < e - b" by simp
  let ?k = "b + length ?ln"
  have "free_slot ?ns b e = ?k"
  proof (rule free_slot_eq)
    show "\<forall>j. ?k \<le> j \<and> j < e \<longrightarrow> ?ns ! j = -1"
    proof (intro allI impI)
      fix j assume j: "?k \<le> j \<and> j < e"
      then have "?ns ! j = ?s ! (j - b)" by (intro nth) auto
      also have "\<dots> = -1"
      proof -
        have "length ?ln \<le> j - b" "j - b - length ?ln < e - b - length ?ln" using j by auto
        then show ?thesis by (subst sp) (subst nth_append_right, assumption, rule nth_replicate)
      qed
      finally show "?ns ! j = -1" .
    qed
    show "?k = b \<or> ?ns ! (?k - 1) \<noteq> -1"
    proof (cases "?ln = []")
      case False
      then have "?ns ! (?k - 1) = ?s ! (length ?ln - 1)" using nth [of "?k - 1"] ll by (cases ?ln) auto
      also have "\<dots> = ?ln ! (length ?ln - 1)" using False by (subst sp) (simp add: nth_append)
      also have "\<dots> \<in> set ?ln" using False by simp
      finally show ?thesis using pos by force
    qed simp
  qed (use ll in auto)
  moreover have "?ns[?k := dest] = put_range b (?ln @ [dest] @ replicate (e - b - length ?ln - 1) (-1)) ?ns"
  proof (rule nth_equalityI)
    have e: "b + length (?ln @ [dest] @ replicate (e - b - length ?ln - 1) (-1)) = e" using ll lt by simp
    show "length (?ns[?k := dest]) = length (put_range b (?ln @ [dest] @ replicate (e - b - length ?ln - 1) (-1)) ?ns)"
      by (subst length_put_range) (use e bd(4) in simp_all)
    fix j assume "j < length (?ns[?k := dest])"
    then have j: "j < length ?ns" by simp
    show "?ns[?k := dest] ! j = put_range b (?ln @ [dest] @ replicate (e - b - length ?ln - 1) (-1)) ?ns ! j"
    proof (cases "b \<le> j \<and> j < e")
      case True
      have "put_range b (?ln @ [dest] @ replicate (e - b - length ?ln - 1) (-1)) ?ns ! j =
          (?ln @ [dest] @ replicate (e - b - length ?ln - 1) (-1)) ! (j - b)"
        by (rule nth_put_range_inside) (use True e bd in linarith)+
      moreover have "?ns ! j = (?ln @ replicate (e - b - length ?ln) (-1)) ! (j - b)"
        using nth [of j] True sp by simp
      moreover have "j - b - length ?ln = 0 \<longleftrightarrow> j \<le> ?k" using True by auto
      ultimately show ?thesis using True j bd ll
        by (cases "j < ?k"; cases "j = ?k") (auto simp: nth_append nth_Cons')
    next
      case False
      then have "j \<noteq> ?k" using ll by auto
      moreover have "put_range b (?ln @ [dest] @ replicate (e - b - length ?ln - 1) (-1)) ?ns ! j = ?ns ! j"
        by (rule nth_put_range_outside) (use False e bd(4) j in auto)
      ultimately show ?thesis by simp
    qed
  qed
  ultimately show "add_link h qdis src dest l keep = h\<lparr>neighbors :=
      put_range b (?ln @ [dest] @ replicate (e - b - length ?ln - 1) (-1)) (neighbors h)\<rparr>"
    using be free by (simp add: add_link_def)
qed

lemma add_link_full:
  assumes g: "graph_ok h" and r: "roomy h" and n: "node_at h l src" and be: "neighbor_range h src l = (b, e)"
    and full: "neighbors h ! (e - 1) \<noteq> -1"
  shows "links h src l = slots h src l" "length (links h src l) = e - b"
    and "add_link h qdis src dest l keep =
      (let q = shrink_results qdis (link_queue h qdis src dest l) (e - b) keep
       in h\<lparr>neighbors := put_range b (map snd q @ replicate (e - b - length q) (-1)) (neighbors h)\<rparr>)"
proof -
  have lay: "layout_ok h" using g by (simp add: graph_ok_def)
  have lt: "b < e" by (rule roomy_range [OF lay r n be])
  let ?s = "slots h src l" and ?ln = "links h src l"
  have pk: "packed ?s" using g n by (simp add: graph_ok_def links_ok_def)
  have len: "length ?s = e - b" by (rule length_slots [OF be])
  have last: "?s ! (e - b - 1) = neighbors h ! (e - 1)" using lt be by (simp add: slots_def)
  have sp: "?s = ?ln @ replicate (e - b - length ?ln) (-1)"
    using packed_split [OF pk] len by (simp add: links_def)
  have ll: "length ?ln \<le> e - b" using sp len by (metis length_append le_add1)
  have "\<not> length ?ln < e - b"
  proof
    assume "length ?ln < e - b"
    then have "?s ! (e - b - 1) = replicate (e - b - length ?ln) (-1) ! (e - b - 1 - length ?ln)"
      by (subst sp) (subst nth_append_right, auto)
    also have "\<dots> = -1" using \<open>length ?ln < e - b\<close> by simp
    finally show False using last full by simp
  qed
  then show l: "length ?ln = e - b" using ll by simp
  then show "?ln = ?s" using sp by simp
  have "fold (\<lambda>i q. pq_push closer (symmetric_dis qdis src (neighbors h ! i), neighbors h ! i) q) [b..<e]
      (pq_push closer (symmetric_dis qdis src dest, dest) []) = link_queue h qdis src dest l"
    using fold_push_range [of closer "\<lambda>v. (symmetric_dis qdis src v, v)" "neighbors h"] be
    by (simp add: link_queue_def to_queue_def slots_def comp_def)
  then show "add_link h qdis src dest l keep =
      (let q = shrink_results qdis (link_queue h qdis src dest l) (e - b) keep
       in h\<lparr>neighbors := put_range b (map snd q @ replicate (e - b - length q) (-1)) (neighbors h)\<rparr>)"
    using be full by (simp add: add_link_def Let_def)
qed

text \<open>
  Both cases in one statement. \<open>rewired h h' l v\<close>: \<open>h'\<close> differs from \<open>h\<close> in the slots of \<open>v\<close> at
  level \<open>l\<close> only.
\<close>

definition rewired :: "hnsw \<Rightarrow> hnsw \<Rightarrow> nat \<Rightarrow> int \<Rightarrow> bool" where
  "rewired h h' l v \<longleftrightarrow> h' = h\<lparr>neighbors := neighbors h'\<rparr>
     \<and> (\<forall>l' v'. node_at h l' v' \<longrightarrow> (l', v') \<noteq> (l, v) \<longrightarrow> slots h' v' l' = slots h v' l')"

lemma add_link_correct:
  assumes g: "graph_ok h" and r: "roomy h" and n: "node_at h l src" "node_at h l dest"
  shows "graph_ok (add_link h qdis src dest l keep)" "rewired h (add_link h qdis src dest l keep) l src"
    and "if length (links h src l) < length (slots h src l)
      then links (add_link h qdis src dest l keep) src l = links h src l @ [dest]
      else links (add_link h qdis src dest l keep) src l =
        map snd (shrink_results qdis (link_queue h qdis src dest l) (length (slots h src l)) keep)"
proof -
  let ?h' = "add_link h qdis src dest l keep" and ?ln = "links h src l"
  obtain b e where be: "neighbor_range h src l = (b, e)" by (metis surj_pair)
  have lay: "layout_ok h" using g by (simp add: graph_ok_def)
  have lt: "b < e" by (rule roomy_range [OF lay r n(1) be])
  have len: "length (slots h src l) = e - b" by (rule length_slots [OF be])
  have pos: "\<forall>v \<in> set ?ln. 0 \<le> v" "\<forall>v \<in> set ?ln. node_at h l v" using links_node(1,2) [OF g n(1)] by blast+
  have dest: "0 \<le> dest" using n(2) by (simp add: node_at_def)
  define new where "new = (if neighbors h ! (e - 1) = -1 then ?ln @ [dest]
    else map snd (shrink_results qdis (link_queue h qdis src dest l) (e - b) keep))"
  have "length new \<le> e - b \<and> (\<forall>v \<in> set new. v = dest \<or> v \<in> set ?ln)
    \<and> ?h' = h\<lparr>neighbors := put_range b (new @ replicate (e - b - length new) (-1)) (neighbors h)\<rparr>
    \<and> (neighbors h ! (e - 1) = -1 \<longleftrightarrow> length ?ln < e - b)"
  proof (cases "neighbors h ! (e - 1) = -1")
    case True
    note a = add_link_room [OF g r n(1) be True]
    then have "e - b - length new = e - b - length ?ln - 1" using True by (simp add: new_def)
    then show ?thesis using True a by (simp add: new_def)
  next
    case False
    note a = add_link_full [OF g r n(1) be False]
    let ?q = "shrink_results qdis (link_queue h qdis src dest l) (e - b) keep"
    have "set ?q \<subseteq> set (link_queue h qdis src dest l)" by (rule shrink_results_set)
    then have "\<forall>v \<in> set new. v = dest \<or> v \<in> set ?ln"
      using False a(1) by (auto simp: new_def link_queue_def)
    moreover have "length ?q \<le> e - b" using shrink_results_length [of qdis _ "e - b" keep] lt
      by (metis max.absorb2 Suc_le_eq One_nat_def zero_less_diff)
    moreover have "?h' = h\<lparr>neighbors := put_range b (map snd ?q @ replicate (e - b - length ?q) (-1)) (neighbors h)\<rparr>"
      using a(3) [of qdis dest keep] by (simp only: Let_def)
    ultimately show ?thesis using False a(2) by (simp add: new_def)
  qed
  then have new: "length new \<le> e - b" "\<forall>v \<in> set new. v = dest \<or> v \<in> set ?ln"
    "?h' = h\<lparr>neighbors := put_range b (new @ replicate (e - b - length new) (-1)) (neighbors h)\<rparr>"
    "neighbors h ! (e - 1) = -1 \<longleftrightarrow> length ?ln < e - b" by blast+
  let ?ys = "new @ replicate (e - b - length new) (-1)"
  have ly: "length ?ys = e - b" using new(1) by simp
  have np: "\<forall>v \<in> set new. 0 \<le> v" using new(2) pos dest by auto
  note tw = takeWhile_append_empty [OF np] and pk = packed_append_empty [OF np]
  have nn: "\<forall>v \<in> set (takeWhile (\<lambda>v. \<not> v < 0) ?ys). node_at h l v"
    unfolding tw using new(2) pos n(2) by auto
  show "graph_ok ?h'" unfolding new(3) by (rule graph_ok_put_slots [OF g n(1) be ly pk nn])
  have "\<forall>l' v'. node_at h l' v' \<longrightarrow> (l', v') \<noteq> (l, src) \<longrightarrow> slots ?h' v' l' = slots h v' l'"
    unfolding new(3) using slots_update_other [OF lay n(1) _ _ be ly] by (metis (no_types))
  moreover have "?h' = h\<lparr>neighbors := neighbors ?h'\<rparr>" unfolding new(3) by simp
  ultimately show "rewired h ?h' l src" unfolding rewired_def by blast
  have "links ?h' src l = new"
    using links_of_slots [OF slots_update_same [OF lay n(1) be ly]] unfolding new(3) tw .
  then show "if length ?ln < length (slots h src l) then links ?h' src l = ?ln @ [dest]
      else links ?h' src l = map snd (shrink_results qdis (link_queue h qdis src dest l) (length (slots h src l)) keep)"
    using new(4) by (simp add: len new_def)
qed

section \<open>Properties\<close>

text \<open>
  C18. \<open>HNSW::shrink_neighbor_list\<close> without \<open>keep_max_size_level0\<close> on a queue sorted by
  distance: the output is a subsequence of the input, at most \<open>max_size\<close> long, in which no node is
  closer to an earlier one than to the query; and each input node that is left out is closer to
  some output node than to the query, unless the output is full and the node is farther than, or as
  far as, all of it.
\<close>

theorem shrink_keeps_diverse_neighbors:
  assumes "pq_ok farther input" "0 < max_size"
  shows "\<exists>out. shrink_neighbor_list qdis input max_size False = out
    \<and> subseq out input \<and> length out \<le> max_size
    \<and> (\<forall>i j. i < j \<longrightarrow> j < length out \<longrightarrow> fst (out ! j) \<le> symmetric_dis qdis (snd (out ! i)) (snd (out ! j)))
    \<and> (\<forall>v \<in> set input. v \<in> set out
         \<or> (\<exists>w \<in> set out. symmetric_dis qdis (snd w) (snd v) < fst v)
         \<or> (length out = max_size \<and> (\<forall>w \<in> set out. fst w \<le> fst v)))"
proof -
  let ?o = "shrink_neighbor_list qdis input max_size False"
  note d = shrink_diverse [where qdis = qdis and m = max_size and qs = input]
  from d(4) obtain s rest where r: "input = s @ rest" "rest = [] \<or> length ?o = max 1 max_size"
    "\<forall>v \<in> set s. v \<in> set ?o \<or> \<not> good_neighbor qdis ?o v" "set ?o \<subseteq> set s" by blast
  have dv: "\<forall>i j. i < j \<longrightarrow> j < length ?o \<longrightarrow> fst (?o ! j) \<le> symmetric_dis qdis (snd (?o ! i)) (snd (?o ! j))"
    using d(1) by (auto simp: diverse_def sorted_wrt_iff_nth_less not_less)
  have sub: "mset ?o \<subseteq># mset input" by (rule subseq_mset [OF d(2)])
  have far: "v \<in> set ?o \<or> (\<exists>w \<in> set ?o. symmetric_dis qdis (snd w) (snd v) < fst v)
      \<or> (length ?o = max_size \<and> (\<forall>w \<in> set ?o. fst w \<le> fst v))" if v: "v \<in> set input" for v
  proof (cases "v \<in> set s")
    case True
    then show ?thesis using r(3) by (auto simp: good_neighbor_def)
  next
    case False
    then have vr: "v \<in> set rest" "length ?o = max_size" using v r(1,2) assms(2) by auto
    have "fst w \<le> fst v" if w: "w \<in> set s" for w
      using assms(1) w vr(1) unfolding r(1) by (force simp: pq_ok_def sorted_wrt_append farther_def not_less)
    then have "\<forall>w \<in> set ?o. fst w \<le> fst v" using r(4) by blast
    then show ?thesis using vr(2) by blast
  qed
  show ?thesis using d(2,3) assms(2) dv far by (intro exI [of _ ?o]) auto
qed

theorem shrink_keeps_diverse_neighbors_witness:
  "shrink_neighbor_list (default_computer (\<lambda>v. \<bar>v\<bar>) (\<lambda>v w. \<bar>v - w\<bar>)) [(1, 1), (2, 2), (3 :: int, -3)] 2 False = [(1, 1), (3, -3)]
   \<and> fst ([(1, 1), (3, -3)] ! 1) \<le> \<bar>snd ([(1 :: int, 1 :: int), (3, -3)] ! 0) - snd ([(1, 1), (3 :: int, -3)] ! 1)\<bar>"
proof -
  have e: "shrink_neighbor_list (default_computer (\<lambda>v. \<bar>v\<bar>) (\<lambda>v w. \<bar>v - w\<bar>)) [(1, 1), (2, 2), (3 :: int, -3)] 2 False =
      [(1, 1), (3, -3)]" by code_simp
  have "pq_ok farther [(1, 1), (2, 2), (3 :: int, -3)]" by (simp add: pq_ok_def farther_def)
  from shrink_keeps_diverse_neighbors [OF this, of 2 "default_computer (\<lambda>v. \<bar>v\<bar>) (\<lambda>v w. \<bar>v - w\<bar>)"]
  have "\<forall>i j. i < j \<longrightarrow> j < length [(1, 1), (3, -3 :: int)] \<longrightarrow>
      fst ([(1, 1), (3, -3 :: int)] ! j) \<le> \<bar>snd ([(1 :: int, 1), (3, -3 :: int)] ! i) - snd ([(1 :: int, 1), (3, -3)] ! j)\<bar>"
    using e by auto
  from spec [OF spec [OF this, of 0], of 1] show ?thesis using e by simp
qed

text \<open>
  C20. \<open>add_link\<close> keeps the graph well formed and changes only the list of \<open>src\<close> at that level.
  If there is room the link goes to the end of the list. If the list is full, the new list holds the
  pruned selection among the old links and the new one; it is never longer than the room there is.
\<close>

theorem add_link_spec:
  assumes "graph_ok h" "roomy h" "node_at h level src" "node_at h level dest"
  shows "graph_ok (add_link h qdis src dest level keep)
    \<and> (\<forall>l v. node_at h l v \<longrightarrow> (l, v) \<noteq> (level, src) \<longrightarrow>
       links (add_link h qdis src dest level keep) v l = links h v l)
    \<and> (length (links h src level) < length (slots h src level) \<longrightarrow>
       links (add_link h qdis src dest level keep) src level = links h src level @ [dest])
    \<and> (length (links h src level) = length (slots h src level) \<longrightarrow>
       mset (links (add_link h qdis src dest level keep) src level) =
         image_mset snd (mset (shrink_neighbor_list qdis
           (to_queue farther (to_queue closer (map (\<lambda>v. (symmetric_dis qdis src v, v)) (dest # links h src level))))
           (length (links h src level)) keep)))
    \<and> length (links (add_link h qdis src dest level keep) src level) \<le> length (slots h src level)"
proof -
  let ?h = "add_link h qdis src dest level keep"
  note a = add_link_correct [OF assms, of qdis keep]
  have "\<forall>l v. node_at h l v \<longrightarrow> (l, v) \<noteq> (level, src) \<longrightarrow> links ?h v l = links h v l"
    using a(2) unfolding rewired_def links_def by metis
  moreover have "length (links h src level) < length (slots h src level) \<longrightarrow> links ?h src level = links h src level @ [dest]"
    using a(3) by simp
  moreover have "length (links h src level) = length (slots h src level) \<longrightarrow>
       mset (links ?h src level) = image_mset snd (mset (shrink_neighbor_list qdis
           (to_queue farther (to_queue closer (map (\<lambda>v. (symmetric_dis qdis src v, v)) (dest # links h src level))))
           (length (links h src level)) keep))"
  proof
    assume f: "length (links h src level) = length (slots h src level)"
    have s: "slots h src level = links h src level" by (rule full_links [OF f])
    have "\<not> length (links h src level) < length (slots h src level)" using f by linarith
    with a(3) have l: "links ?h src level =
        map snd (shrink_results qdis (link_queue h qdis src dest level) (length (slots h src level)) keep)" by (simp only: if_False)
    show "mset (links ?h src level) = image_mset snd (mset (shrink_neighbor_list qdis
           (to_queue farther (to_queue closer (map (\<lambda>v. (symmetric_dis qdis src v, v)) (dest # links h src level))))
           (length (links h src level)) keep))"
      unfolding l link_queue_def s by (simp add: shrink_results_def)
  qed
  moreover have "length (slots ?h src level) = length (slots h src level)"
  proof -
    have e: "?h = h\<lparr>neighbors := neighbors ?h\<rparr>" using a(2) by (simp add: rewired_def)
    have "neighbor_range ?h src level = neighbor_range h src level"
      by (subst e) (simp add: neighbor_range_def cum_nb_neighbors_def)
    then show ?thesis by (simp add: slots_def split: prod.splits)
  qed
  then have len: "length (links ?h src level) \<le> length (slots h src level)"
    by (metis links_def length_takeWhile_le)
  ultimately show ?thesis using a(1) len by blast
qed

theorem add_link_spec_witness:
  "graph_ok (add_link example_graph (default_computer (\<lambda>v. \<bar>v\<bar>) (\<lambda>v w. \<bar>v - w\<bar>)) 0 2 0 False)
   \<and> links (add_link example_graph (default_computer (\<lambda>v. \<bar>v\<bar>) (\<lambda>v w. \<bar>v - w\<bar>)) 0 2 0 False) 0 0 = [1, 2]"
proof -
  have "roomy example_graph" by (auto simp: roomy_def example_graph_def less_Suc_eq)
  moreover have "node_at example_graph 0 0" "node_at example_graph 0 2" by code_simp+
  moreover have "links example_graph 0 0 = [1]" "length (slots example_graph 0 0) = 2" by code_simp+
  ultimately show ?thesis
    using add_link_spec [OF example_graph_ok, of 0 0 2 "default_computer (\<lambda>v. \<bar>v\<bar>) (\<lambda>v w. \<bar>v - w\<bar>)" False] by simp
qed

end
