(* ===== verification/Hnsw_Greedy.thy ===== *)
theory Hnsw_Greedy
  imports Hnsw_Graph Distance_Computer
begin

text \<open>
  Greedy descent (\<open>greedy_update_nearest\<close>, \<open>HNSW.cpp\<close> lines 836-908, and the loops that call
  it level by level) and the statistics record.
\<close>

record hnsw_stats =
  st_n1 :: nat
  st_n2 :: nat
  st_ndis :: nat
  st_nhops :: nat

definition stats_reset :: hnsw_stats where
  "stats_reset = \<lparr>st_n1 = 0, st_n2 = 0, st_ndis = 0, st_nhops = 0\<rparr>"

definition stats_combine :: "hnsw_stats \<Rightarrow> hnsw_stats \<Rightarrow> hnsw_stats" where
  "stats_combine s other =
     \<lparr>st_n1 = st_n1 s + st_n1 other, st_n2 = st_n2 s + st_n2 other,
      st_ndis = st_ndis s + st_ndis other, st_nhops = st_nhops s + st_nhops other\<rparr>"

section \<open>The search at one level\<close>

definition update_with_candidate :: "idx_t \<Rightarrow> 'd \<Rightarrow> idx_t \<times> ('d :: linorder) \<Rightarrow> idx_t \<times> 'd" where
  "update_with_candidate idx dis s = (if dis < snd s then (idx, dis) else s)"

definition greedy_body ::
    "hnsw \<Rightarrow> ('d :: linorder) distance_computer \<Rightarrow> nat \<Rightarrow> (idx_t \<times> 'd) \<times> hnsw_stats \<Rightarrow>
     ((idx_t \<times> 'd) \<times> hnsw_stats) + ((idx_t \<times> 'd) \<times> hnsw_stats)" where
  "greedy_body h qdis level s =
     (let prev_nearest = fst (fst s);
          vs = links h prev_nearest level;
          (buf, s1) = fold (buffer_push qdis update_with_candidate) vs ([], fst s);
          s2 = leftovers qdis update_with_candidate buf s1;
          stats = (snd s)\<lparr>st_ndis := st_ndis (snd s) + length vs, st_nhops := st_nhops (snd s) + 1\<rparr>
      in if fst s2 = prev_nearest then Inr (s2, stats) else Inl (s2, stats))"

definition greedy_update_nearest ::
    "hnsw \<Rightarrow> ('d :: linorder) distance_computer \<Rightarrow> nat \<Rightarrow> idx_t \<Rightarrow> 'd \<Rightarrow> ((idx_t \<times> 'd) \<times> hnsw_stats) option" where
  "greedy_update_nearest h qdis level nearest d_nearest =
     iterate (greedy_body h qdis level) ((nearest, d_nearest), stats_reset)"

text \<open>The descent through a list of levels, as \<open>search\<close> and \<open>navix_hybrid_search\<close> do it.\<close>

fun greedy_descent ::
    "hnsw \<Rightarrow> ('d :: linorder) distance_computer \<Rightarrow> nat list \<Rightarrow> (idx_t \<times> 'd) \<times> hnsw_stats \<Rightarrow>
     ((idx_t \<times> 'd) \<times> hnsw_stats) option" where
  "greedy_descent h qdis [] s = Some s"
| "greedy_descent h qdis (level # ls) s =
     (case greedy_update_nearest h qdis level (fst (fst s)) (snd (fst s)) of
        None \<Rightarrow> None
      | Some (nd, local_stats) \<Rightarrow> greedy_descent h qdis ls (nd, stats_combine (snd s) local_stats))"

text \<open>\<open>for (level = from; level >= downto; level--)\<close>.\<close>

definition levels_down :: "int \<Rightarrow> int \<Rightarrow> nat list" where
  "levels_down from downto = map nat (rev [downto..from])"

section \<open>Correctness\<close>

lemma update_all:
  assumes "one_by_one qdis update_with_candidate vs s = (n', d')" "s = (n, d)"
  shows "(n' = n \<and> d' = d \<and> (\<forall>v \<in> set vs. d \<le> query_dis qdis v)) \<or>
    (n' \<in> set vs \<and> d' = query_dis qdis n' \<and> d' < d \<and> (\<forall>v \<in> set vs. d' \<le> query_dis qdis v))"
  using assms
proof (induction vs arbitrary: s n d)
  case (Cons v vs)
  show ?case
  proof (cases "query_dis qdis v < d")
    case True
    then show ?thesis using Cons.IH [of "(v, query_dis qdis v)" v "query_dis qdis v"] Cons.prems
      by (auto simp: update_with_candidate_def)
  next
    case False
    have "one_by_one qdis update_with_candidate vs (n, d) = (n', d')"
      using False Cons.prems update_with_candidate_def [of v "query_dis qdis v" "(n, d)"] by simp
    from Cons.IH [OF this refl] show ?thesis using False by auto
  qed
qed simp

lemma greedy_body_one_by_one:
  assumes "batch_exact qdis"
  shows "greedy_body h qdis level s =
    (let s2 = one_by_one qdis update_with_candidate (links h (fst (fst s)) level) (fst s);
         stats = (snd s)\<lparr>st_ndis := st_ndis (snd s) + length (links h (fst (fst s)) level),
                         st_nhops := st_nhops (snd s) + 1\<rparr>
     in if fst s2 = fst (fst s) then Inr (s2, stats) else Inl (s2, stats))"
proof -
  have e: "exact_batches qdis" using assms by (simp add: exact_batches_def)
  show ?thesis
    using exact_batches.buffer_fold_one_by_one [OF e, of "([], fst s)" update_with_candidate "links h (fst (fst s)) level"]
    by (simp add: greedy_body_def leftovers_one_by_one case_prod_beta Let_def)
qed

definition closer_nodes :: "hnsw \<Rightarrow> ('d :: linorder) distance_computer \<Rightarrow> nat \<Rightarrow> 'd \<Rightarrow> int set" where
  "closer_nodes h qdis level d = {v. node_at h level v \<and> query_dis qdis v < d}"

lemma finite_nodes [simp]: "finite {v. node_at h level v}"
proof -
  have "{v. node_at h level v} \<subseteq> {0..<int (ntotal h)}" by (auto simp: node_at_def)
  then show ?thesis using finite_subset by blast
qed

lemma finite_closer [simp]: "finite (closer_nodes h qdis level d)"
  using finite_nodes [of h level] by (auto simp: closer_nodes_def)

lemma closer_shrinks: "node_at h level v \<Longrightarrow> query_dis qdis v < d \<Longrightarrow>
    card (closer_nodes h qdis level (query_dis qdis v)) < card (closer_nodes h qdis level d)"
  by (intro psubset_card_mono finite_closer) (auto simp: closer_nodes_def)

lemma greedy_correct:
  assumes g: "graph_ok h" and b: "batch_exact qdis" and n: "node_at h level nearest"
  shows "\<exists>n' stats. greedy_update_nearest h qdis level nearest (query_dis qdis nearest) = Some ((n', query_dis qdis n'), stats)
    \<and> node_at h level n' \<and> query_dis qdis n' \<le> query_dis qdis nearest
    \<and> (\<forall>v \<in> set (links h n' level). query_dis qdis n' \<le> query_dis qdis v)
    \<and> st_nhops stats \<le> Suc (card (closer_nodes h qdis level (query_dis qdis nearest)))"
proof -
  let ?C = "\<lambda>d. card (closer_nodes h qdis level d)"
  let ?I = "\<lambda>s :: (idx_t \<times> 'a) \<times> hnsw_stats. node_at h level (fst (fst s)) \<and> snd (fst s) = query_dis qdis (fst (fst s))
    \<and> snd (fst s) \<le> query_dis qdis nearest \<and> st_nhops (snd s) + ?C (snd (fst s)) \<le> ?C (query_dis qdis nearest)"
  let ?Q = "\<lambda>r :: (idx_t \<times> 'a) \<times> hnsw_stats. node_at h level (fst (fst r)) \<and> snd (fst r) = query_dis qdis (fst (fst r))
    \<and> query_dis qdis (fst (fst r)) \<le> query_dis qdis nearest \<and> (\<forall>v \<in> set (links h (fst (fst r)) level). query_dis qdis (fst (fst r)) \<le> query_dis qdis v)
    \<and> st_nhops (snd r) \<le> Suc (?C (query_dis qdis nearest))"
  have step: "(case greedy_body h qdis level s of
        Inl s' \<Rightarrow> ?I s' \<and> ?C (snd (fst s')) < ?C (snd (fst s)) | Inr r \<Rightarrow> ?Q r)" if I: "?I s" for s
  proof -
    obtain m d st where s: "s = ((m, d), st)" by (metis surj_pair)
    obtain n' d' where o: "one_by_one qdis update_with_candidate (links h m level) (m, d) = (n', d')"
      by (metis surj_pair)
    have md: "node_at h level m" "d = query_dis qdis m" using I s by auto
    from update_all [OF o refl]
    show ?thesis
    proof (elim disjE conjE)
      assume "n' = m" "d' = d" "\<forall>v \<in> set (links h m level). d \<le> query_dis qdis v"
      then show ?thesis using I s o md by (simp add: greedy_body_one_by_one [OF b] Let_def)
    next
      assume n': "n' \<in> set (links h m level)" "d' = query_dis qdis n'" "d' < d"
        "\<forall>v \<in> set (links h m level). d' \<le> query_dis qdis v"
      then have "n' \<noteq> m" "node_at h level n'" using md links_node(1) [OF g md(1)] by auto
      moreover have "?C d' < ?C d" using closer_shrinks [of h level n' qdis d] n' \<open>node_at h level n'\<close> by simp
      ultimately show ?thesis using I s o n' by (auto simp: greedy_body_one_by_one [OF b] Let_def)
    qed
  qed
  have "\<exists>r. iterate (greedy_body h qdis level) ((nearest, query_dis qdis nearest), stats_reset) = Some r \<and> ?Q r"
  proof (rule iterate_total [where I = ?I and m = "\<lambda>s. ?C (snd (fst s))"])
    show "?I ((nearest, query_dis qdis nearest), stats_reset)" using n by (simp add: stats_reset_def)
    show "?I s' \<and> ?C (snd (fst s')) < ?C (snd (fst s))" if "?I s" "greedy_body h qdis level s = Inl s'" for s s'
      using step [OF that(1)] unfolding that(2) sum.case by blast
    show "?Q r" if "?I s" "greedy_body h qdis level s = Inr r" for s r
      using step [OF that(1)] unfolding that(2) sum.case by blast
  qed
  then show ?thesis by (force simp: greedy_update_nearest_def)
qed

text \<open>The descent ends at a node of the last level, no farther than where it started.\<close>

lemma greedy_descent_correct:
  assumes "graph_ok h" "batch_exact qdis" "\<forall>l \<in> set ls. node_at h l n \<or> l \<le> l0" "node_at h l0 n"
    "sorted_wrt (\<ge>) ls"
  shows "\<exists>n' st'. greedy_descent h qdis ls ((n, query_dis qdis n), st) = Some ((n', query_dis qdis n'), st')
    \<and> query_dis qdis n' \<le> query_dis qdis n \<and> (if ls = [] then n' = n else node_at h (last ls) n')"
  using assms(3-5)
proof (induction ls arbitrary: n st l0)
  case (Cons l ls)
  have nl: "node_at h l n" using Cons.prems node_at_mono by (metis list.set_intros(1))
  from greedy_correct [OF assms(1,2) nl] obtain n1 st1 where
    g: "greedy_update_nearest h qdis l n (query_dis qdis n) = Some ((n1, query_dis qdis n1), st1)"
    "node_at h l n1" "query_dis qdis n1 \<le> query_dis qdis n" by blast
  have "\<forall>l' \<in> set ls. node_at h l' n1 \<or> l' \<le> l" using Cons.prems(3) by simp
  from Cons.IH [OF this g(2), of "stats_combine st st1"] Cons.prems(3) obtain n' st' where
    "greedy_descent h qdis ls ((n1, query_dis qdis n1), stats_combine st st1) = Some ((n', query_dis qdis n'), st')"
    "query_dis qdis n' \<le> query_dis qdis n1" "if ls = [] then n' = n1 else node_at h (last ls) n'"
    unfolding sorted_wrt.simps by blast
  then show ?case using g by (cases ls) (auto intro: order_trans)
qed simp

section \<open>Properties\<close>

text \<open>
  C24. \<open>greedy_update_nearest\<close> always returns. The node it returns is at the level searched, is
  no farther from the query than the start, and none of its neighbors at that level is closer;
  it takes at most one hop per node closer than the start, and one more. The distance returned is
  the distance of the node.
\<close>

theorem greedy_finds_local_minimum:
  assumes "graph_ok h" "batch_exact qdis" "node_at h level nearest"
  shows "\<exists>n' stats. greedy_update_nearest h qdis level nearest (query_dis qdis nearest) = Some ((n', query_dis qdis n'), stats)
    \<and> node_at h level n' \<and> query_dis qdis n' \<le> query_dis qdis nearest
    \<and> (\<forall>v \<in> set (links h n' level). query_dis qdis n' \<le> query_dis qdis v)
    \<and> st_nhops stats \<le> Suc (card {v. node_at h level v \<and> query_dis qdis v < query_dis qdis nearest})"
  using greedy_correct [OF assms] by (simp add: closer_nodes_def)

theorem greedy_finds_local_minimum_witness:
  "\<exists>n' stats. greedy_update_nearest example_graph (default_computer (\<lambda>v. \<bar>v - 2\<bar>) (\<lambda>v w. \<bar>v - w\<bar>)) 0 0 2 =
      Some ((n', \<bar>n' - 2\<bar>), stats) \<and> (\<forall>v \<in> set (links example_graph n' 0). \<bar>n' - 2\<bar> \<le> \<bar>v - 2\<bar>)"
proof -
  have "node_at example_graph 0 0" by code_simp
  then show ?thesis
    using greedy_finds_local_minimum [OF example_graph_ok batch_exact_default, of 0 0 "\<lambda>v. \<bar>v - 2\<bar>" "\<lambda>v w. \<bar>v - w\<bar>"]
    by auto
qed

end
