(* ===== verification/Visited_Table.thy ===== *)
theory Visited_Table
  imports Prelude
begin

text \<open>
  \<open>VisitedTable\<close> (\<open>faiss/impl/AuxIndexStructures.h\<close>): a set of node numbers that is emptied in
  constant time by changing the stamp \<open>visno\<close>. Stamps are bytes, kept at their width. The code
  does not check node numbers; the operations assume \<open>vt_has\<close> (outside the table the model
  reads \<open>False\<close> and writes nothing, where C++ is undefined).
\<close>

record visited_table =
  visited :: "8 word list"
  visno :: "8 word"

definition vt_new :: "nat \<Rightarrow> visited_table" where
  "vt_new n = \<lparr>visited = replicate n 0, visno = 1\<rparr>"

definition vt_has :: "visited_table \<Rightarrow> int \<Rightarrow> bool" where
  "vt_has vt no \<longleftrightarrow> 0 \<le> no \<and> nat no < length (visited vt)"

definition vt_set :: "visited_table \<Rightarrow> int \<Rightarrow> visited_table" where
  "vt_set vt no = (if vt_has vt no then vt\<lparr>visited := (visited vt)[nat no := visno vt]\<rparr> else vt)"

definition vt_get :: "visited_table \<Rightarrow> int \<Rightarrow> bool" where
  "vt_get vt no \<longleftrightarrow> vt_has vt no \<and> visited vt ! nat no = visno vt"

definition vt_advance :: "visited_table \<Rightarrow> visited_table" where
  "vt_advance vt =
     (let v = visno vt + 1 in
      if v = 250 then \<lparr>visited = replicate (length (visited vt)) 0, visno = 1\<rparr>
      else vt\<lparr>visno := v\<rparr>)"

text \<open>
  The state between operations: the stamp is in \<open>1..249\<close> (so that \<open>visno\<close> and \<open>visno + 1\<close>
  never wrap) and no entry is above it.
\<close>

definition vt_ok :: "visited_table \<Rightarrow> bool" where
  "vt_ok vt \<longleftrightarrow> 1 \<le> visno vt \<and> visno vt \<le> 249 \<and> (\<forall>v \<in> set (visited vt). v \<le> visno vt)"

definition vt_size :: "visited_table \<Rightarrow> nat" where
  "vt_size vt = length (visited vt)"

definition vt_members :: "visited_table \<Rightarrow> int set" where
  "vt_members vt = {no. vt_get vt no}"

lemma vt_has_iff: "vt_has vt no \<longleftrightarrow> 0 \<le> no \<and> no < int (vt_size vt)"
  by (auto simp: vt_has_def vt_size_def nat_less_iff)

lemma vt_size_ops [simp]:
  "vt_size (vt_set vt no) = vt_size vt" "vt_size (vt_advance vt) = vt_size vt" "vt_size (vt_new n) = n"
  by (simp_all add: vt_size_def vt_set_def vt_advance_def vt_new_def Let_def)

lemma vt_has_ops [simp]:
  "vt_has (vt_set vt no) m = vt_has vt m" "vt_has (vt_advance vt) m = vt_has vt m"
  by (simp_all add: vt_has_iff)

lemma vt_get_has: "vt_get vt no \<Longrightarrow> vt_has vt no"
  by (simp add: vt_get_def)

lemma vt_get_set [simp]: "vt_get (vt_set vt no) m \<longleftrightarrow> (m = no \<and> vt_has vt no) \<or> vt_get vt m"
proof (cases "vt_has vt no \<and> vt_has vt m")
  case True
  then have "nat no = nat m \<longleftrightarrow> no = m" by (auto simp: vt_has_def)
  then show ?thesis using True by (auto simp: vt_get_def vt_set_def vt_has_def nth_list_update)
next
  case False
  then show ?thesis by (auto simp: vt_get_def vt_set_def vt_has_def)
qed

lemma vt_members_set: "vt_has vt no \<Longrightarrow> vt_members (vt_set vt no) = insert no (vt_members vt)"
  by (auto simp: vt_members_def)

lemma vt_members_subset: "vt_members vt \<subseteq> {0..<int (vt_size vt)}"
  using vt_get_has vt_has_iff by (auto simp: vt_members_def)

lemma finite_vt_members [simp]: "finite (vt_members vt)"
  using vt_members_subset finite_subset by blast

lemma vt_get_new [simp]: "\<not> vt_get (vt_new n) no"
  by (auto simp: vt_get_def vt_new_def vt_has_def)

lemma vt_ok_new [simp]: "vt_ok (vt_new n)"
  by (auto simp: vt_ok_def vt_new_def word_le_nat_alt)

lemma vt_ok_set: "vt_ok vt \<Longrightarrow> vt_ok (vt_set vt no)"
  by (auto simp: vt_ok_def vt_set_def dest!: set_update_subset_insert [THEN subsetD])

lemma vt_advance_stamp:
  assumes "vt_ok vt"
  shows "visno vt + 1 = 250 \<or> (unat (visno vt + 1) = unat (visno vt) + 1 \<and> unat (visno vt + 1) \<le> 249)"
proof -
  have "unat (visno vt) \<le> 249" using assms by (simp add: vt_ok_def word_le_nat_alt)
  moreover from this have "unat (visno vt + 1) = unat (visno vt) + 1"
    by (simp add: unat_word_ariths)
  moreover have "unat (visno vt) = 249 \<Longrightarrow> visno vt + 1 = 250"
    using \<open>unat (visno vt + 1) = unat (visno vt) + 1\<close> by (intro unsigned_word_eqI) simp
  ultimately show ?thesis by linarith
qed

lemma vt_ok_advance:
  assumes "vt_ok vt"
  shows "vt_ok (vt_advance vt)"
proof (cases "visno vt + 1 = 250")
  case True
  then show ?thesis by (auto simp: vt_ok_def vt_advance_def word_le_nat_alt)
next
  case False
  then have u: "unat (visno vt + 1) = unat (visno vt) + 1" "unat (visno vt + 1) \<le> 249"
    using vt_advance_stamp [OF assms] by auto
  have "v \<le> visno vt + 1" if "v \<in> set (visited vt)" for v
    using assms that u by (fastforce simp: vt_ok_def word_le_nat_alt)
  then show ?thesis using False u by (auto simp: vt_ok_def vt_advance_def word_le_nat_alt)
qed

lemma vt_get_advance:
  assumes "vt_ok vt"
  shows "\<not> vt_get (vt_advance vt) no"
proof (cases "visno vt + 1 = 250")
  case True
  then show ?thesis by (auto simp: vt_get_def vt_advance_def vt_has_def)
next
  case False
  then have u: "unat (visno vt + 1) = unat (visno vt) + 1"
    using vt_advance_stamp [OF assms] by auto
  have "visited vt ! nat no \<noteq> visno vt + 1" if "nat no < length (visited vt)"
  proof -
    have "visited vt ! nat no \<le> visno vt" using assms that by (simp add: vt_ok_def)
    then show ?thesis using u by (auto simp: word_le_nat_alt)
  qed
  then show ?thesis using False by (auto simp: vt_get_def vt_advance_def vt_has_def Let_def)
qed

text \<open>How many nodes are still unvisited: the measure of the search loops.\<close>

definition vt_unvisited :: "visited_table \<Rightarrow> nat" where
  "vt_unvisited vt = card ({0..<int (vt_size vt)} - vt_members vt)"

lemma vt_unvisited_set:
  assumes "vt_has vt no" "\<not> vt_get vt no"
  shows "Suc (vt_unvisited (vt_set vt no)) = vt_unvisited vt"
proof -
  let ?U = "{0..<int (vt_size vt)} - vt_members vt"
  have "{0..<int (vt_size vt)} - vt_members (vt_set vt no) = ?U - {no}"
    using vt_members_set [OF assms(1)] by auto
  moreover have "no \<in> ?U" using assms by (simp add: vt_has_iff vt_members_def)
  ultimately show ?thesis
    using card.remove [of ?U no] by (simp add: vt_unvisited_def)
qed

lemma vt_set_idem: "vt_get vt no \<Longrightarrow> vt_set vt no = vt"
  by (simp add: vt_get_def vt_set_def list_update_same_conv vt_has_def)

text \<open>A sequence of operations on a table.\<close>

datatype vt_op = Vt_set int | Vt_advance

fun vt_apply :: "visited_table \<Rightarrow> vt_op \<Rightarrow> visited_table" where
  "vt_apply vt (Vt_set no) = vt_set vt no"
| "vt_apply vt Vt_advance = vt_advance vt"

fun set_spec :: "nat \<Rightarrow> int set \<Rightarrow> vt_op \<Rightarrow> int set" where
  "set_spec n S (Vt_set no) = (if 0 \<le> no \<and> no < int n then insert no S else S)"
| "set_spec n S Vt_advance = {}"

section \<open>Properties\<close>

text \<open>
  \<open>VisitedTable\<close> is a set with clear: after any sequence of \<open>set\<close> and \<open>advance\<close> calls,
  however long (the stamp wraps every 249 calls of \<open>advance\<close>), \<open>get\<close> answers whether the node
  was set since the last \<open>advance\<close>.
\<close>

theorem visited_table_is_set:
  "vt_members (foldl vt_apply (vt_new n) ops) = foldl (set_spec n) {} ops"
proof -
  have "vt_members (foldl vt_apply (vt_new n) ops) = foldl (set_spec n) {} ops
      \<and> vt_ok (foldl vt_apply (vt_new n) ops) \<and> vt_size (foldl vt_apply (vt_new n) ops) = n"
  proof (induction ops rule: rev_induct)
    case Nil
    show ?case by (simp add: vt_members_def)
  next
    case (snoc x xs)
    then show ?case
      by (cases x) (auto simp: vt_members_def vt_ok_set vt_ok_advance vt_get_advance vt_has_iff)
  qed
  then show ?thesis by blast
qed

end
