(* ===== verification/Minimax_Heap.thy ===== *)
theory Minimax_Heap
  imports Heap_Sort
begin

text \<open>
  \<open>HNSW::MinimaxHeap\<close> (\<open>faiss/impl/HNSW.h\<close>, \<open>HNSW.cpp\<close>): the bounded candidate queue of
  the searches. It is a max-heap by distance in two arrays of capacity \<open>n\<close> of which the first
  \<open>k\<close> entries are in use; \<open>pop_min\<close> does not remove an entry but overwrites its id with \<open>-1\<close>,
  and \<open>nvalid\<close> counts the entries that still have an id. Overwriting ids breaks the heap order
  on (distance, id) pairs but not the order on distances, which is what \<open>push\<close> needs.
\<close>

record 'd minimax_heap =
  mm_n :: nat
  mm_k :: nat
  mm_nvalid :: nat
  mm_ids :: "storage_idx_t list"
  mm_dis :: "'d list"

text \<open>
  \<open>HC = CMax<float, storage_idx_t>\<close>; \<open>neutral()\<close> is not used by push and pop, so its
  argument is any distance.
\<close>

definition HC :: "'d \<Rightarrow> ('d :: linorder) comparator" where
  "HC d = CMax d d"

section \<open>Operations\<close>

definition mm_new :: "nat \<Rightarrow> 'd \<Rightarrow> 'd minimax_heap" where
  "mm_new n zero = \<lparr>mm_n = n, mm_k = 0, mm_nvalid = 0, mm_ids = replicate n 0, mm_dis = replicate n zero\<rparr>"

definition mm_push :: "('d :: linorder) minimax_heap \<Rightarrow> storage_idx_t \<Rightarrow> 'd \<Rightarrow> 'd minimax_heap" where
  "mm_push h i v =
     (if mm_k h = mm_n h then
        if v \<ge> mm_dis h ! 0 then h
        else
          let nvalid = (if mm_ids h ! 0 \<noteq> -1 then mm_nvalid h - 1 else mm_nvalid h);
              (dis, ids) = heap_pop (HC v) (mm_k h) (mm_dis h) (mm_ids h);
              k = mm_k h - 1;
              (dis', ids') = heap_push (HC v) (k + 1) dis ids v i
          in h\<lparr>mm_k := k + 1, mm_nvalid := nvalid + 1, mm_ids := ids', mm_dis := dis'\<rparr>
      else
        let (dis', ids') = heap_push (HC v) (mm_k h + 1) (mm_dis h) (mm_ids h) v i
        in h\<lparr>mm_k := mm_k h + 1, mm_nvalid := mm_nvalid h + 1, mm_ids := ids', mm_dis := dis'\<rparr>)"

definition mm_max :: "'d minimax_heap \<Rightarrow> 'd" where
  "mm_max h = mm_dis h ! 0"

definition mm_size :: "'d minimax_heap \<Rightarrow> nat" where
  "mm_size h = mm_nvalid h"

definition mm_clear :: "'d minimax_heap \<Rightarrow> 'd minimax_heap" where
  "mm_clear h = h\<lparr>mm_k := 0, mm_nvalid := 0\<rparr>"

text \<open>\<open>pop_min\<close>, baseline version: the rightmost of the entries with an id and least distance.\<close>

fun last_valid :: "storage_idx_t list \<Rightarrow> nat \<Rightarrow> nat option" where
  "last_valid ids 0 = None"
| "last_valid ids (Suc i) = (if ids ! i \<noteq> -1 then Some i else last_valid ids i)"

fun scan_min :: "storage_idx_t list \<Rightarrow> ('d :: linorder) list \<Rightarrow> nat \<Rightarrow> nat \<Rightarrow> 'd \<Rightarrow> nat" where
  "scan_min ids dis 0 imin vmin = imin"
| "scan_min ids dis (Suc i) imin vmin =
     (if ids ! i \<noteq> -1 \<and> dis ! i < vmin then scan_min ids dis i i (dis ! i)
      else scan_min ids dis i imin vmin)"

definition min_index :: "storage_idx_t list \<Rightarrow> ('d :: linorder) list \<Rightarrow> nat \<Rightarrow> nat option" where
  "min_index ids dis k =
     (case last_valid ids k of None \<Rightarrow> None | Some i \<Rightarrow> Some (scan_min ids dis i i (dis ! i)))"

text \<open>
  The end of all three versions: take the id out of the entry found. The result is \<open>None\<close> where
  the code returns \<open>-1\<close>, else the id and the distance written to \<open>vmin_out\<close>.
\<close>

definition mm_take :: "'d minimax_heap \<Rightarrow> nat option \<Rightarrow> (storage_idx_t \<times> 'd) option \<times> 'd minimax_heap" where
  "mm_take h imin =
     (case imin of None \<Rightarrow> (None, h)
      | Some i \<Rightarrow> (Some (mm_ids h ! i, mm_dis h ! i),
                    h\<lparr>mm_ids := (mm_ids h)[i := -1], mm_nvalid := mm_nvalid h - 1\<rparr>))"

definition mm_pop_min :: "('d :: linorder) minimax_heap \<Rightarrow> (storage_idx_t \<times> 'd) option \<times> 'd minimax_heap" where
  "mm_pop_min h = mm_take h (min_index (mm_ids h) (mm_dis h) (mm_k h))"

fun mm_count_below_from :: "('d :: linorder) list \<Rightarrow> 'd \<Rightarrow> nat \<Rightarrow> nat \<Rightarrow> nat" where
  "mm_count_below_from dis thresh i 0 = 0"
| "mm_count_below_from dis thresh i (Suc m) =
     (if dis ! i < thresh then 1 else 0) + mm_count_below_from dis thresh (i + 1) m"

definition mm_count_below :: "('d :: linorder) minimax_heap \<Rightarrow> 'd \<Rightarrow> nat" where
  "mm_count_below h thresh = mm_count_below_from (mm_dis h) thresh 0 (mm_k h)"

section \<open>Contents and invariant\<close>

definition mm_entries :: "'d minimax_heap \<Rightarrow> ('d \<times> int) multiset" where
  "mm_entries h = mset (take (mm_k h) (pairs (mm_dis h, mm_ids h)))"

definition mm_valid :: "'d minimax_heap \<Rightarrow> ('d \<times> int) multiset" where
  "mm_valid h = live (mm_entries h)"

definition mm_ok :: "('d :: linorder) minimax_heap \<Rightarrow> bool" where
  "mm_ok h \<longleftrightarrow> 1 \<le> mm_n h \<and> mm_k h \<le> mm_n h
     \<and> length (mm_ids h) = mm_n h \<and> length (mm_dis h) = mm_n h
     \<and> is_value_heap (HC (mm_dis h ! 0)) (mm_k h) (pairs (mm_dis h, mm_ids h))
     \<and> mm_nvalid h = size (mm_valid h)"

lemma HC_heap: "is_value_heap (HC a) = is_value_heap (HC b)"
  by (intro ext) (simp add: is_value_heap_def HC_def)

lemma mm_ok_simps:
  assumes "mm_ok h"
  shows "1 \<le> mm_n h" "mm_k h \<le> mm_n h" "same_len (mm_dis h, mm_ids h) (mm_n h)"
    "length (mm_ids h) = mm_n h" "length (mm_dis h) = mm_n h"
    "is_value_heap (HC d) (mm_k h) (pairs (mm_dis h, mm_ids h))"
    "mm_nvalid h = size (mm_valid h)" "length (pairs (mm_dis h, mm_ids h)) = mm_n h"
  using assms HC_heap [of "mm_dis h ! 0" d]
  by (auto simp: mm_ok_def same_len_def pairs_def)

lemma live_add_mset: "live (add_mset p M) = (if snd p \<noteq> -1 then add_mset p (live M) else live M)"
  by (simp add: live_def)

lemma live_subset: "live M \<subseteq># M"
  by (simp add: live_def)

lemma mm_ok_new:
  assumes "1 \<le> n"
  shows "mm_ok (mm_new n z)" "mm_entries (mm_new n z) = {#}"
  using assms by (auto simp: mm_ok_def mm_new_def mm_entries_def mm_valid_def is_value_heap_def live_def)

lemma HC_value_push:
  assumes "is_value_heap (HC v) (k - 1) bh" "1 \<le> k" "k \<le> length bh"
  shows "is_value_heap (HC v) k (pheap_push (HC v) k bh w i)"
    and "mset (take k (pheap_push (HC v) k bh w i)) = add_mset (w, i) (mset (take (k - 1) bh))"
  using cmax.by_value.pheap_push_correct [unfolded heap_wrt_cmpv] assms unfolding HC_def by blast+

lemma HC_value_pop:
  assumes "is_value_heap (HC v) k bh" "1 \<le> k" "k \<le> length bh"
  shows "is_value_heap (HC v) (k - 1) (pheap_pop (HC v) k bh)"
    and "mset (take (k - 1) (pheap_pop (HC v) k bh)) = mset (take k bh) - {#at1 bh 1#}"
    and "length (pheap_pop (HC v) k bh) = length bh"
  using cmax.by_value.pheap_pop_correct [unfolded heap_wrt_cmpv] assms unfolding HC_def by blast+

lemma mm_push_room:
  assumes "mm_ok h" "mm_k h < mm_n h"
  shows "mm_entries (mm_push h i v) = add_mset (v, i) (mm_entries h)"
    and "i \<noteq> -1 \<Longrightarrow> mm_ok (mm_push h i v)"
    and "mm_n (mm_push h i v) = mm_n h" "mm_k (mm_push h i v) = mm_k h + 1"
proof -
  let ?k = "mm_k h + 1" and ?B = "pairs (mm_dis h, mm_ids h)"
  obtain dis' ids' where p: "heap_push (HC v) ?k (mm_dis h) (mm_ids h) v i = (dis', ids')" by (metis surj_pair)
  note a = heap_push_pairs [OF mm_ok_simps(3) [OF assms(1)], of ?k "HC v" v i]
  have pp: "pairs (dis', ids') = pheap_push (HC v) ?k ?B v i" "same_len (dis', ids') (mm_n h)"
    using a p assms(2) by auto
  note vp = HC_value_push [of v ?k ?B v i]
  have h: "is_value_heap (HC v) ?k (pairs (dis', ids'))"
    "mset (take ?k (pairs (dis', ids'))) = add_mset (v, i) (mm_entries h)"
    using vp mm_ok_simps(6,8) [OF assms(1)] assms(2) pp(1) by (auto simp: mm_entries_def)
  have e: "mm_push h i v = h\<lparr>mm_k := ?k, mm_nvalid := mm_nvalid h + 1, mm_ids := ids', mm_dis := dis'\<rparr>"
    using assms(2) p by (simp add: mm_push_def)
  show en: "mm_entries (mm_push h i v) = add_mset (v, i) (mm_entries h)"
    using h(2) by (simp add: e mm_entries_def)
  show "mm_ok (mm_push h i v)" if "i \<noteq> -1"
    using that h(1) pp(2) assms(2) mm_ok_simps [OF assms(1)] en HC_heap [of "dis' ! 0" v]
    by (auto simp: e mm_ok_def mm_valid_def same_len_def live_add_mset)
  show "mm_n (mm_push h i v) = mm_n h" "mm_k (mm_push h i v) = mm_k h + 1" by (simp_all add: e)
qed

lemma mm_push_full_reject:
  "mm_k h = mm_n h \<Longrightarrow> mm_dis h ! 0 \<le> v \<Longrightarrow> mm_push h i v = h"
  by (simp add: mm_push_def)

lemma mm_push_full:
  assumes "mm_ok h" "mm_k h = mm_n h" "v < mm_dis h ! 0"
  shows "mm_entries (mm_push h i v) = add_mset (v, i) (mm_entries h - {#(mm_dis h ! 0, mm_ids h ! 0)#})"
    and "i \<noteq> -1 \<Longrightarrow> mm_ok (mm_push h i v)"
    and "mm_n (mm_push h i v) = mm_n h" "mm_k (mm_push h i v) = mm_k h"
    and "(mm_dis h ! 0, mm_ids h ! 0) \<in># mm_entries h"
proof -
  let ?k = "mm_k h" and ?B = "pairs (mm_dis h, mm_ids h)" and ?top = "(mm_dis h ! 0, mm_ids h ! 0)"
  note ok = mm_ok_simps [OF assms(1)]
  have k: "1 \<le> ?k" "?k \<le> mm_n h" using assms(2) ok(1) by simp_all
  have top: "at1 ?B 1 = ?top" using ok(1,4,5) by (simp add: at1_def pairs_def)
  obtain dis ids where p: "heap_pop (HC v) ?k (mm_dis h) (mm_ids h) = (dis, ids)" by (metis surj_pair)
  obtain dis' ids' where q: "heap_push (HC v) ?k dis ids v i = (dis', ids')" by (metis surj_pair)
  note a = heap_pop_pairs [OF ok(3) k, of "HC v"]
  have pp: "pairs (dis, ids) = pheap_pop (HC v) ?k ?B" "same_len (dis, ids) (mm_n h)" using a p by auto
  note b = heap_push_pairs [OF pp(2) k, of "HC v" v i]
  have qq: "pairs (dis', ids') = pheap_push (HC v) ?k (pairs (dis, ids)) v i" "same_len (dis', ids') (mm_n h)"
    using b q by auto
  note po = HC_value_pop [of v ?k ?B, OF ok(6) k(1)]
  have po': "is_value_heap (HC v) (?k - 1) (pairs (dis, ids))"
    "mset (take (?k - 1) (pairs (dis, ids))) = mm_entries h - {#?top#}"
    "length (pairs (dis, ids)) = mm_n h"
    using po k ok(8) pp(1) top by (simp_all add: mm_entries_def)
  note pu = HC_value_push [OF po'(1) k(1), of v i]
  have h: "is_value_heap (HC v) ?k (pairs (dis', ids'))"
    "mset (take ?k (pairs (dis', ids'))) = add_mset (v, i) (mm_entries h - {#?top#})"
    using pu po'(2,3) k qq(1) by simp_all
  have e: "mm_push h i v = h\<lparr>mm_k := ?k,
      mm_nvalid := (if mm_ids h ! 0 \<noteq> -1 then mm_nvalid h - 1 else mm_nvalid h) + 1, mm_ids := ids', mm_dis := dis'\<rparr>"
    using assms(2,3) p q k by (simp add: mm_push_def Let_def)
  show en: "mm_entries (mm_push h i v) = add_mset (v, i) (mm_entries h - {#?top#})"
    using h(2) by (simp add: e mm_entries_def)
  have "?top = take ?k ?B ! 0" "0 < length (take ?k ?B)"
    using k ok by (auto simp: pairs_def)
  then have "?top \<in> set (take ?k ?B)" by (metis nth_mem)
  then show tm: "?top \<in># mm_entries h" by (simp add: mm_entries_def)
  have lv: "size (live (mm_entries h - {#?top#})) =
      (if mm_ids h ! 0 \<noteq> -1 then mm_nvalid h - 1 else mm_nvalid h)"
  proof -
    have "mm_entries h = add_mset ?top (mm_entries h - {#?top#})" using tm by simp
    then have "live (mm_entries h) = (if mm_ids h ! 0 \<noteq> -1 then add_mset ?top (live (mm_entries h - {#?top#}))
        else live (mm_entries h - {#?top#}))" by (metis live_add_mset snd_conv)
    then show ?thesis using ok(7) by (simp add: mm_valid_def split: if_splits)
  qed
  show "mm_ok (mm_push h i v)" if "i \<noteq> -1"
    using that h(1) qq(2) k ok en HC_heap [of "dis' ! 0" v] lv
    by (auto simp: e mm_ok_def mm_valid_def same_len_def live_add_mset)
  show "mm_n (mm_push h i v) = mm_n h" "mm_k (mm_push h i v) = mm_k h" by (simp_all add: e)
qed

text \<open>The top is a largest distance.\<close>

lemma mm_top_max:
  assumes "mm_ok h" "p \<in># mm_entries h"
  shows "fst p \<le> mm_dis h ! 0"
proof -
  note ok = mm_ok_simps [OF assms(1)]
  have p: "p \<in> set (take (mm_k h) (pairs (mm_dis h, mm_ids h)))" using assms(2) by (simp add: mm_entries_def)
  then have "0 < mm_k h" by (cases "mm_k h") auto
  then have "at1 (pairs (mm_dis h, mm_ids h)) 1 = (mm_dis h ! 0, mm_ids h ! 0)"
    using ok(1,4,5) by (simp add: at1_def pairs_def)
  moreover have "\<not> cmpv (HC (fst p)) p (at1 (pairs (mm_dis h, mm_ids h)) 1)"
    unfolding HC_def
    by (rule cmax.by_value.heap_wrt_top_set [OF _ _ p, unfolded heap_wrt_cmpv])
      (use ok(2,6,8) in \<open>auto simp: HC_def\<close>)
  ultimately show ?thesis by (simp add: cmpv_def HC_def)
qed

text \<open>Any push: the invariant, the size, and what can be in the heap.\<close>

lemma mm_push_ok:
  assumes "mm_ok h" "i \<noteq> -1"
  shows "mm_ok (mm_push h i v)" "mm_n (mm_push h i v) = mm_n h"
    "mm_entries (mm_push h i v) \<subseteq># add_mset (v, i) (mm_entries h)"
    "mm_valid (mm_push h i v) \<subseteq># add_mset (v, i) (mm_valid h)"
    "mm_nvalid (mm_push h i v) \<le> mm_nvalid h + 1"
proof -
  consider (room) "mm_k h < mm_n h" | (rej) "mm_k h = mm_n h" "mm_dis h ! 0 \<le> v"
    | (full) "mm_k h = mm_n h" "v < mm_dis h ! 0"
    using mm_ok_simps(2) [OF assms(1)] by (metis le_neq_implies_less linorder_not_le)
  then have c: "mm_ok (mm_push h i v) \<and> mm_n (mm_push h i v) = mm_n h
    \<and> mm_entries (mm_push h i v) \<subseteq># add_mset (v, i) (mm_entries h)"
  proof cases
    case room
    then show ?thesis using mm_push_room [OF assms(1) room, of i v] assms(2) by simp
  next
    case rej
    then show ?thesis using assms(1) by (simp add: mm_push_full_reject)
  next
    case full
    then show ?thesis using mm_push_full(1,2,3) [OF assms(1) full, of i] assms(2) by simp
  qed
  then show "mm_ok (mm_push h i v)" "mm_n (mm_push h i v) = mm_n h"
    "mm_entries (mm_push h i v) \<subseteq># add_mset (v, i) (mm_entries h)" by blast+
  have "mm_valid (mm_push h i v) \<subseteq># live (add_mset (v, i) (mm_entries h))"
    unfolding mm_valid_def live_def using c by (intro multiset_filter_mono) blast
  then show vv: "mm_valid (mm_push h i v) \<subseteq># add_mset (v, i) (mm_valid h)"
    using assms(2) by (simp add: mm_valid_def live_add_mset)
  show "mm_nvalid (mm_push h i v) \<le> mm_nvalid h + 1"
    using size_mset_mono [OF vv] mm_ok_simps(7) [OF assms(1)] mm_ok_simps(7) [of "mm_push h i v"] c by simp
qed

end
