(* ===== verification/Minimax_Pop.thy ===== *)
theory Minimax_Pop
  imports Minimax_Heap
begin

text \<open>
  The three versions of \<open>HNSW::MinimaxHeap::pop_min\<close> (baseline, AVX2 and AVX512) and their
  agreement. A vector register is a list of lanes. \<open>infin\<close> is the bound
  \<open>numeric_limits<float>::infinity()\<close>; the versions agree when no distance is above it (for
  floats: when there is no NaN) and no id is below \<open>-1\<close>.
\<close>

section \<open>Vector versions\<close>

text \<open>One iteration of the vector loops: compare \<open>w\<close> entries from \<open>iii\<close> on and blend.\<close>

definition simd_block ::
    "nat \<Rightarrow> storage_idx_t list \<Rightarrow> ('d :: linorder) list \<Rightarrow> nat \<Rightarrow> int list \<times> 'd list \<Rightarrow> int list \<times> 'd list" where
  "simd_block w ids dis iii mins =
     (let mask = (\<lambda>l. 0 > ids ! (iii + l) \<or> snd mins ! l < dis ! (iii + l)) in
      (map (\<lambda>l. if mask l then fst mins ! l else int (iii + l)) [0..<w],
       map (\<lambda>l. if mask l then snd mins ! l else dis ! (iii + l)) [0..<w]))"

fun simd_blocks ::
    "nat \<Rightarrow> storage_idx_t list \<Rightarrow> ('d :: linorder) list \<Rightarrow> nat \<Rightarrow> int list \<times> 'd list \<Rightarrow> int list \<times> 'd list" where
  "simd_blocks w ids dis 0 mins = mins"
| "simd_blocks w ids dis (Suc m) mins = simd_block w ids dis (m * w) (simd_blocks w ids dis m mins)"

text \<open>AVX2: the lanes are reduced one after the other, then the last \<open>k mod 8\<close> entries follow.\<close>

definition avx2_lane :: "('d :: linorder) \<times> int \<Rightarrow> int \<times> 'd \<Rightarrow> int \<times> 'd" where
  "avx2_lane lane m =
     (if snd m > fst lane \<or> (snd m = fst lane \<and> fst m < snd lane) then (snd lane, fst lane) else m)"

definition avx2_tail :: "storage_idx_t list \<Rightarrow> ('d :: linorder) list \<Rightarrow> nat \<Rightarrow> int \<times> 'd \<Rightarrow> int \<times> 'd" where
  "avx2_tail ids dis iii m =
     (if ids ! iii \<noteq> -1 \<and> dis ! iii \<le> snd m then (int iii, dis ! iii) else m)"

definition pop_index :: "int \<Rightarrow> nat option" where
  "pop_index min_idx = (if min_idx = -1 then None else Some (nat min_idx))"

definition avx2_index :: "'d \<Rightarrow> storage_idx_t list \<Rightarrow> ('d :: linorder) list \<Rightarrow> nat \<Rightarrow> nat option" where
  "avx2_index infin ids dis k =
     (let k8 = k div 8 * 8;
          (vidx8, vdis8) = simd_blocks 8 ids dis (k div 8) (replicate 8 (-1), replicate 8 infin);
          m = fold avx2_lane (zip vdis8 vidx8) (-1, infin);
          m' = fold (avx2_tail ids dis) [k8..<k] m
      in pop_index (fst m'))"

text \<open>AVX512: the leftovers are one more, masked, vector step; then a vector reduction.\<close>

definition avx512_masked_block ::
    "nat \<Rightarrow> storage_idx_t list \<Rightarrow> ('d :: linorder) list \<Rightarrow> nat \<Rightarrow> int list \<times> 'd list \<Rightarrow> int list \<times> 'd list" where
  "avx512_masked_block n ids dis k16 mins =
     (let index = (\<lambda>l. if l < n then ids ! (k16 + l) else -1);
          mask = (\<lambda>l. 0 > index l \<or> snd mins ! l < dis ! (k16 + l)) in
      (map (\<lambda>l. if mask l then fst mins ! l else int (k16 + l)) [0..<16],
       map (\<lambda>l. if mask l then snd mins ! l else dis ! (k16 + l)) [0..<16]))"

definition avx512_index :: "'d \<Rightarrow> storage_idx_t list \<Rightarrow> ('d :: linorder) list \<Rightarrow> nat \<Rightarrow> nat option" where
  "avx512_index infin ids dis k =
     (let k16 = k div 16 * 16;
          mins = simd_blocks 16 ids dis (k div 16) (replicate 16 (-1), replicate 16 infin);
          (min_indices, min_distances) =
            (if k16 \<noteq> k then avx512_masked_block (k - k16) ids dis k16 mins else mins);
          min_dis = fold min min_distances (hd min_distances);
          masked = map snd (filter (\<lambda>p. fst p = min_dis) (zip min_distances min_indices))
      in pop_index (fold max masked (hd masked)))"

definition mm_pop_min_avx2 :: "'d \<Rightarrow> ('d :: linorder) minimax_heap \<Rightarrow> (storage_idx_t \<times> 'd) option \<times> 'd minimax_heap" where
  "mm_pop_min_avx2 infin h = mm_take h (avx2_index infin (mm_ids h) (mm_dis h) (mm_k h))"

definition mm_pop_min_avx512 :: "'d \<Rightarrow> ('d :: linorder) minimax_heap \<Rightarrow> (storage_idx_t \<times> 'd) option \<times> 'd minimax_heap" where
  "mm_pop_min_avx512 infin h = mm_take h (avx512_index infin (mm_ids h) (mm_dis h) (mm_k h))"

section \<open>The rightmost minimum\<close>

definition rightmost_min :: "storage_idx_t list \<Rightarrow> ('d :: linorder) list \<Rightarrow> nat set \<Rightarrow> nat \<Rightarrow> bool" where
  "rightmost_min ids dis S i \<longleftrightarrow> i \<in> S \<and> ids ! i \<noteq> -1 \<and>
     (\<forall>j \<in> S. ids ! j \<noteq> -1 \<longrightarrow> dis ! i \<le> dis ! j \<and> (i < j \<longrightarrow> dis ! i < dis ! j))"

definition is_min_index :: "storage_idx_t list \<Rightarrow> ('d :: linorder) list \<Rightarrow> nat set \<Rightarrow> nat option \<Rightarrow> bool" where
  "is_min_index ids dis S r \<longleftrightarrow>
     (case r of None \<Rightarrow> \<forall>j \<in> S. ids ! j = -1 | Some i \<Rightarrow> rightmost_min ids dis S i)"

lemma is_min_index_unique:
  assumes "is_min_index ids dis S r" "is_min_index ids dis S r'"
  shows "r = r'"
proof (cases r; cases r')
  fix i j assume e: "r = Some i" "r' = Some j"
  have i: "rightmost_min ids dis S i" and j: "rightmost_min ids dis S j"
    using assms e by (simp_all add: is_min_index_def)
  have "\<not> i < j" "\<not> j < i" using i j unfolding rightmost_min_def by (meson leD)+
  then show ?thesis using e by simp
qed (use assms in \<open>auto simp: is_min_index_def rightmost_min_def\<close>)

text \<open>Baseline.\<close>

lemma last_valid_correct:
  "case last_valid ids k of None \<Rightarrow> \<forall>j < k. ids ! j = -1
   | Some i \<Rightarrow> i < k \<and> ids ! i \<noteq> -1 \<and> (\<forall>j < k. i < j \<longrightarrow> ids ! j = -1)"
proof (induction k)
  case (Suc k)
  then show ?case by (auto simp: less_Suc_eq split: option.splits)
qed simp

lemma scan_min_correct:
  assumes "rightmost_min ids dis {n..<k} imin" "n \<le> k"
  shows "rightmost_min ids dis {0..<k} (scan_min ids dis n imin (dis ! imin))"
  using assms
proof (induction n arbitrary: imin)
  case (Suc n)
  have S: "{n..<k} = insert n {Suc n..<k}" using Suc.prems by auto
  show ?case
  proof (cases "ids ! n \<noteq> -1 \<and> dis ! n < dis ! imin")
    case True
    then have "rightmost_min ids dis {n..<k} n" unfolding S
      using Suc.prems(1) by (fastforce simp: rightmost_min_def)
    then show ?thesis using Suc True by simp
  next
    case False
    then have "rightmost_min ids dis {n..<k} imin" unfolding S
      using Suc.prems(1) by (auto simp: rightmost_min_def)
    moreover have "scan_min ids dis (Suc n) imin (dis ! imin) = scan_min ids dis n imin (dis ! imin)"
      using False by auto
    ultimately show ?thesis using Suc.IH [of imin] Suc.prems(2) by simp
  qed
qed simp

lemma min_index_correct: "is_min_index ids dis {0..<k} (min_index ids dis k)"
proof (cases "last_valid ids k")
  case None
  then show ?thesis using last_valid_correct [where ids = ids and k = k] by (auto simp: min_index_def is_min_index_def)
next
  case (Some i)
  then have i: "i < k" "ids ! i \<noteq> -1" "\<forall>j < k. i < j \<longrightarrow> ids ! j = -1"
    using last_valid_correct [where ids = ids and k = k] by auto
  then have "rightmost_min ids dis {i..<k} i" by (auto simp: rightmost_min_def le_less)
  then show ?thesis using Some scan_min_correct [of ids dis i k i] i
    by (simp add: min_index_def is_min_index_def)
qed

section \<open>Vector versions compute it too\<close>

text \<open>\<open>found\<close>: (index, distance) describes the rightmost minimum of \<open>S\<close>, or that there is none.\<close>

definition found :: "'d \<Rightarrow> storage_idx_t list \<Rightarrow> ('d :: linorder) list \<Rightarrow> nat set \<Rightarrow> int \<Rightarrow> 'd \<Rightarrow> bool" where
  "found infin ids dis S a d \<longleftrightarrow>
     (a = -1 \<and> d = infin \<and> (\<forall>j \<in> S. ids ! j = -1)) \<or>
     (\<exists>i. a = int i \<and> d = dis ! i \<and> rightmost_min ids dis S i)"

lemma found_index: "found infin ids dis S a d \<Longrightarrow> is_min_index ids dis S (pop_index a)"
  by (auto simp: found_def is_min_index_def pop_index_def)

lemma found_empty: "found infin ids dis {} (-1) infin"
  by (simp add: found_def)

lemma found_merge:
  assumes "found infin ids dis S a d" "found infin ids dis T a' d'"
    and "\<forall>j \<in> S \<union> T. dis ! j \<le> infin"
  shows "d > d' \<or> (d = d' \<and> a < a') \<Longrightarrow> found infin ids dis (S \<union> T) a' d'"
    and "\<not> (d > d' \<or> (d = d' \<and> a < a')) \<Longrightarrow> found infin ids dis (S \<union> T) a d"
proof -
  have le: "d \<le> dis ! j" if "j \<in> S" "ids ! j \<noteq> -1" for j
    using that assms(1) by (auto simp: found_def rightmost_min_def)
  have lt: "d < dis ! j" if "j \<in> S" "ids ! j \<noteq> -1" "a < int j" for j
    using that assms(1) by (auto simp: found_def rightmost_min_def)
  have le': "d' \<le> dis ! j" if "j \<in> T" "ids ! j \<noteq> -1" for j
    using that assms(2) by (auto simp: found_def rightmost_min_def)
  have lt': "d' < dis ! j" if "j \<in> T" "ids ! j \<noteq> -1" "a' < int j" for j
    using that assms(2) by (auto simp: found_def rightmost_min_def)
  have a: "-1 \<le> a" "-1 \<le> a'" using assms(1,2) by (auto simp: found_def)
  have infin: "d \<le> infin" "d' \<le> infin" using assms by (auto simp: found_def rightmost_min_def)
  {
    assume w: "d > d' \<or> (d = d' \<and> a < a')"
    then have "a' \<noteq> -1" using a infin assms(2) by (auto simp: found_def)
    then obtain i where i: "a' = int i" "d' = dis ! i" "rightmost_min ids dis T i"
      using assms(2) by (auto simp: found_def)
    have "dis ! i \<le> dis ! j \<and> (i < j \<longrightarrow> dis ! i < dis ! j)" if j: "j \<in> S \<union> T" "ids ! j \<noteq> -1" for j
    proof (cases "j \<in> T")
      case True
      then show ?thesis using le' lt' i j by auto
    next
      case False
      then have "j \<in> S" using j by simp
      then show ?thesis using le [of j] lt [of j] w i j by fastforce
    qed
    then have "rightmost_min ids dis (S \<union> T) i" using i(3) by (simp add: rightmost_min_def)
    then show "found infin ids dis (S \<union> T) a' d'" using i by (auto simp: found_def)
  next
    assume w: "\<not> (d > d' \<or> (d = d' \<and> a < a'))"
    show "found infin ids dis (S \<union> T) a d"
    proof (cases "a = -1")
      case True
      then have "d = infin" "\<forall>j \<in> S. ids ! j = -1" using assms(1) by (auto simp: found_def)
      moreover from this w infin a True have "a' = -1" by (metis le_neq_trans antisym_conv1 not_less)
      ultimately show ?thesis using assms(2) True by (auto simp: found_def)
    next
      case False
      then obtain i where i: "a = int i" "d = dis ! i" "rightmost_min ids dis S i"
        using assms(1) by (auto simp: found_def)
      have "dis ! i \<le> dis ! j \<and> (i < j \<longrightarrow> dis ! i < dis ! j)" if j: "j \<in> S \<union> T" "ids ! j \<noteq> -1" for j
      proof (cases "j \<in> S")
        case True
        then show ?thesis using le lt i j by auto
      next
        case False
        then have "j \<in> T" using j by simp
        then show ?thesis using le' [of j] lt' [of j] w i j by fastforce
      qed
      then have "rightmost_min ids dis (S \<union> T) i" using i(3) by (simp add: rightmost_min_def)
      then show ?thesis using i by (auto simp: found_def)
    qed
  }
qed

text \<open>Taking one more entry, to the right of all before.\<close>

lemma found_entry:
  assumes "found infin ids dis S a d" "\<forall>j \<in> S. j < i" "\<forall>j \<in> insert i S. dis ! j \<le> infin"
  shows "ids ! i \<noteq> -1 \<Longrightarrow> dis ! i \<le> d \<Longrightarrow> found infin ids dis (insert i S) (int i) (dis ! i)"
    and "\<not> (ids ! i \<noteq> -1 \<and> dis ! i \<le> d) \<Longrightarrow> found infin ids dis (insert i S) a d"
proof -
  have ai: "a < int i" using assms(1,2) by (auto simp: found_def rightmost_min_def)
  have m: "\<forall>j \<in> S \<union> {i}. dis ! j \<le> infin" using assms(3) by auto
  have ins: "insert i S = S \<union> {i}" by simp
  {
    assume v: "ids ! i \<noteq> -1" "dis ! i \<le> d"
    then have "found infin ids dis {i} (int i) (dis ! i)" by (auto simp: found_def rightmost_min_def)
    from found_merge(1) [OF assms(1) this m] v ai show "found infin ids dis (insert i S) (int i) (dis ! i)"
      unfolding ins by (auto simp: le_less)
  next
    assume v: "\<not> (ids ! i \<noteq> -1 \<and> dis ! i \<le> d)"
    show "found infin ids dis (insert i S) a d"
    proof (cases "ids ! i = -1")
      case True
      then show ?thesis using assms(1) by (auto simp: found_def rightmost_min_def)
    next
      case False
      then have f: "found infin ids dis {i} (int i) (dis ! i)" by (auto simp: found_def rightmost_min_def)
      have "d < dis ! i" using v False by auto
      then show ?thesis unfolding ins
        using found_merge(2) [OF assms(1) f m] by (metis order.asym order.irrefl)
    qed
  }
qed

text \<open>Lane \<open>l\<close> has seen the entries \<open>j < n\<close> with \<open>j mod w = l\<close>.\<close>

definition lanes :: "'d \<Rightarrow> storage_idx_t list \<Rightarrow> ('d :: linorder) list \<Rightarrow> nat \<Rightarrow> nat \<Rightarrow> int list \<times> 'd list \<Rightarrow> bool" where
  "lanes infin ids dis w n mins \<longleftrightarrow> length (fst mins) = w \<and> length (snd mins) = w \<and>
     (\<forall>l < w. found infin ids dis {j. j < n \<and> j mod w = l} (fst mins ! l) (snd mins ! l))"

lemma lane_next: "l < w \<Longrightarrow> {j. j < Suc m * w \<and> j mod w = l} = insert (m * w + l) {j. j < m * w \<and> j mod w = l}"
proof -
  assume l: "l < w"
  have "j = m * w + l" if "j < Suc m * w" "\<not> j < m * w" "j mod w = l" for j
  proof -
    have "j div w = m" using that l
      by (metis add.commute div_less_iff_less_mult div_nat_eqI leI less_le_trans mult.commute not_less_zero neq0_conv)
    then show ?thesis using that(3) by (metis div_mult_mod_eq)
  qed
  then show ?thesis using l by auto
qed

lemma simd_block_lanes:
  assumes "lanes infin ids dis w (m * w) mins" "\<forall>j < Suc m * w. dis ! j \<le> infin \<and> -1 \<le> ids ! j"
  shows "lanes infin ids dis w (Suc m * w) (simd_block w ids dis (m * w) mins)"
  unfolding lanes_def
proof (intro conjI allI impI)
  fix l assume l: "l < w"
  let ?S = "{j. j < m * w \<and> j mod w = l}" and ?i = "m * w + l"
  have f: "found infin ids dis ?S (fst mins ! l) (snd mins ! l)" using assms(1) l by (simp add: lanes_def)
  have b: "\<forall>j \<in> insert ?i ?S. dis ! j \<le> infin" "-1 \<le> ids ! ?i" using assms(2) l by auto
  note e = found_entry [OF f _ b(1)]
  have "0 > ids ! ?i \<longleftrightarrow> ids ! ?i = -1" using b(2) by auto
  then show "found infin ids dis {j. j < Suc m * w \<and> j mod w = l}
      (fst (simd_block w ids dis (m * w) mins) ! l) (snd (simd_block w ids dis (m * w) mins) ! l)"
    unfolding lane_next [OF l] using e l by (auto simp: simd_block_def Let_def not_less)
qed (simp_all add: simd_block_def Let_def)

lemma simd_blocks_lanes:
  assumes "\<forall>j < m * w. dis ! j \<le> infin \<and> -1 \<le> ids ! j"
  shows "lanes infin ids dis w (m * w) (simd_blocks w ids dis m (replicate w (-1), replicate w infin))"
  using assms
proof (induction m)
  case 0
  then show ?case by (simp add: lanes_def found_empty)
next
  case (Suc m)
  then show ?case using simd_block_lanes [OF _ Suc.prems] by simp
qed

lemma avx2_reduce:
  assumes "lanes infin ids dis w n mins" "\<forall>j < n. dis ! j \<le> infin" "r \<le> w"
  shows "found infin ids dis {j. j < n \<and> j mod w < r}
    (fst (fold avx2_lane (take r (zip (snd mins) (fst mins))) (-1, infin)))
    (snd (fold avx2_lane (take r (zip (snd mins) (fst mins))) (-1, infin)))"
  using assms(3)
proof (induction r)
  case 0
  then show ?case by (simp add: found_empty)
next
  case (Suc r)
  let ?m = "fold avx2_lane (take r (zip (snd mins) (fst mins))) (-1, infin)"
  have l: "r < length (zip (snd mins) (fst mins))" "zip (snd mins) (fst mins) ! r = (snd mins ! r, fst mins ! r)"
    using assms(1) Suc.prems by (simp_all add: lanes_def)
  have f: "found infin ids dis {j. j < n \<and> j mod w = r} (fst mins ! r) (snd mins ! r)"
    using assms(1) Suc.prems by (simp add: lanes_def)
  have S: "{j. j < n \<and> j mod w < Suc r} = {j. j < n \<and> j mod w < r} \<union> {j. j < n \<and> j mod w = r}" by auto
  have e: "fold avx2_lane (take (Suc r) (zip (snd mins) (fst mins))) (-1, infin) = avx2_lane (snd mins ! r, fst mins ! r) ?m"
    using l by (simp add: take_Suc_conv_app_nth)
  have inf: "\<forall>j \<in> {j. j < n \<and> j mod w < r} \<union> {j. j < n \<and> j mod w = r}. dis ! j \<le> infin" using assms(2) by auto
  have "found infin ids dis {j. j < n \<and> j mod w < r} (fst ?m) (snd ?m)" using Suc by simp
  note fm = found_merge [OF this f inf]
  show ?case unfolding e S avx2_lane_def [of _ ?m] fst_conv snd_conv
    using fm by (cases "snd ?m > snd mins ! r \<or> (snd ?m = snd mins ! r \<and> fst ?m < fst mins ! r)")
      (simp_all only: if_True if_False fst_conv snd_conv not_False_eq_True simp_thms)
qed

lemma avx2_tail_found:
  assumes "found infin ids dis {j. j < n} (fst m) (snd m)" "n \<le> k" "\<forall>j < k. dis ! j \<le> infin"
  shows "found infin ids dis {j. j < k} (fst (fold (avx2_tail ids dis) [n..<k] m)) (snd (fold (avx2_tail ids dis) [n..<k] m))"
  using assms(2,3)
proof (induction k rule: dec_induct)
  case base
  then show ?case using assms(1) by simp
next
  case (step k)
  let ?m = "fold (avx2_tail ids dis) [n..<k] m"
  have f: "found infin ids dis {j. j < k} (fst ?m) (snd ?m)" using step by simp
  have S: "{j. j < Suc k} = insert k {j. j < k}" by auto
  have "\<forall>j \<in> insert k {j. j < k}. dis ! j \<le> infin" using step.prems by auto
  note fe = found_entry [OF f _ this]
  have e: "fold (avx2_tail ids dis) [n..<Suc k] m =
      (if ids ! k \<noteq> -1 \<and> dis ! k \<le> snd ?m then (int k, dis ! k) else ?m)"
    using step.hyps avx2_tail_def [of ids dis k ?m] by simp
  show ?case unfolding S e using fe by (cases "ids ! k \<noteq> -1 \<and> dis ! k \<le> snd ?m") simp_all
qed

lemma avx2_index_correct:
  assumes "\<forall>j < k. dis ! j \<le> infin \<and> -1 \<le> ids ! j"
  shows "is_min_index ids dis {0..<k} (avx2_index infin ids dis k)"
proof -
  obtain vidx8 vdis8 where v: "simd_blocks 8 ids dis (k div 8) (replicate 8 (-1), replicate 8 infin) = (vidx8, vdis8)"
    by (metis surj_pair)
  have le: "k div 8 * 8 \<le> k" by simp
  then have lt: "j < k" if "j < k div 8 * 8" for j using that by linarith
  have ln: "lanes infin ids dis 8 (k div 8 * 8) (vidx8, vdis8)"
    using simd_blocks_lanes [where m = "k div 8" and w = 8 and dis = dis and infin = infin and ids = ids] assms v lt by auto
  let ?m = "fold avx2_lane (zip vdis8 vidx8) (-1, infin)"
  have "take 8 (zip vdis8 vidx8) = zip vdis8 vidx8" using ln by (simp add: lanes_def)
  moreover have "{j. j < k div 8 * 8 \<and> j mod 8 < 8} = {j. j < k div 8 * 8}" by auto
  ultimately have "found infin ids dis {j. j < k div 8 * 8} (fst ?m) (snd ?m)"
    using avx2_reduce [OF ln, of 8] assms lt by simp
  from avx2_tail_found [OF this le] assms
  have f: "found infin ids dis {j. j < k} (fst (fold (avx2_tail ids dis) [k div 8 * 8..<k] ?m))
      (snd (fold (avx2_tail ids dis) [k div 8 * 8..<k] ?m))" by blast
  have e: "avx2_index infin ids dis k = pop_index (fst (fold (avx2_tail ids dis) [k div 8 * 8..<k] ?m))"
    using v by (simp add: avx2_index_def)
  show ?thesis unfolding e using found_index [OF f] by (simp add: atLeast0LessThan lessThan_def)
qed

lemma fold_max_Max: "fold max xs (x :: 'a :: linorder) = Max (set (x # xs))"
  by (rule Max.set_eq_fold [symmetric])

lemma fold_min_Min: "fold min xs (x :: 'a :: linorder) = Min (set (x # xs))"
  by (rule Min.set_eq_fold [symmetric])

lemma avx512_reduce:
  assumes "0 < w" "length vidx = w" "length vdis = w"
    and f: "\<And>l. l < w \<Longrightarrow> found infin ids dis (S l) (vidx ! l) (vdis ! l)"
    and infin: "\<And>l j. l < w \<Longrightarrow> j \<in> S l \<Longrightarrow> dis ! j \<le> infin"
    and d: "d = Min (set vdis)" and a: "a = Max (set (map snd (filter (\<lambda>p. fst p = d) (zip vdis vidx))))"
  shows "found infin ids dis (\<Union>l \<in> {..<w}. S l) a d"
proof -
  have ne: "vdis \<noteq> []" using assms(1,3) by auto
  have dle: "d \<le> vdis ! l" if "l < w" for l using that assms(3) unfolding d by simp
  have "d \<in> set vdis" unfolding d using ne by (intro Min_in) auto
  then obtain l1 where "l1 < w" "vdis ! l1 = d" using assms(3) by (auto simp: in_set_conv_nth)
  define A where "A = {vidx ! l |l. l < w \<and> vdis ! l = d}"
  have Aeq: "set (map snd (filter (\<lambda>p. fst p = d) (zip vdis vidx))) = A"
    using assms(2,3) by (force simp: A_def set_zip)
  have fin: "finite A" unfolding Aeq [symmetric] by simp
  moreover have "A \<noteq> {}" using \<open>l1 < w\<close> \<open>vdis ! l1 = d\<close> unfolding A_def by blast
  ultimately have fin: "finite A" "A \<noteq> {}" by simp_all
  have "a \<in> A" unfolding a Aeq using fin by (rule Max_in)
  then obtain l0 where l0: "l0 < w" "vidx ! l0 = a" "vdis ! l0 = d" by (auto simp: A_def)
  have age: "vidx ! l \<le> a" if "l < w" "vdis ! l = d" for l
    unfolding a Aeq using that fin by (intro Max_ge) (auto simp: A_def)
  from f [OF l0(1)] l0 consider (none) "a = -1" "d = infin"
    | (some) i where "a = int i" "d = dis ! i" "rightmost_min ids dis (S l0) i"
    by (auto simp: found_def)
  then show ?thesis
  proof cases
    case none
    have "ids ! j = -1" if "l < w" "j \<in> S l" for l j
    proof (rule ccontr)
      assume v: "ids ! j \<noteq> -1"
      from f [OF that(1)] that(2) v obtain i where i: "vidx ! l = int i" "vdis ! l = dis ! i" "rightmost_min ids dis (S l) i"
        by (auto simp: found_def)
      then have "vdis ! l \<le> infin" using infin [OF that(1)] by (auto simp: rightmost_min_def)
      then have "vdis ! l = d" using dle [OF that(1)] none(2) by simp
      then show False using age [OF that(1)] none(1) i(1) by simp
    qed
    then show ?thesis using none by (auto simp: found_def)
  next
    case (some i)
    have "dis ! i \<le> dis ! j \<and> (i < j \<longrightarrow> dis ! i < dis ! j)"
      if "l < w" "j \<in> S l" "ids ! j \<noteq> -1" for l j
    proof -
      from f [OF that(1)] that obtain i' where i': "vidx ! l = int i'" "vdis ! l = dis ! i'" "rightmost_min ids dis (S l) i'"
        by (auto simp: found_def)
      have j: "dis ! i' \<le> dis ! j" "i' < j \<longrightarrow> dis ! i' < dis ! j" using i'(3) that by (auto simp: rightmost_min_def)
      have dd: "dis ! i \<le> dis ! i'" using dle [OF that(1)] some(2) i'(2) by simp
      moreover have "dis ! i < dis ! j" if "i < j"
      proof (cases "dis ! i = dis ! i'")
        case True
        then have "i' \<le> i" using age [OF \<open>l < w\<close>] i'(1,2) some(1,2) by simp
        then show ?thesis using j(2) that True by simp
      next
        case False
        then show ?thesis using dd j(1) by simp
      qed
      ultimately show ?thesis using j(1) by (meson order_trans)
    qed
    then have "rightmost_min ids dis (\<Union>l \<in> {..<w}. S l) i"
      using some(3) l0(1) by (auto simp: rightmost_min_def)
    then show ?thesis using some by (auto simp: found_def)
  qed
qed

lemma avx512_masked_lanes:
  assumes "lanes infin ids dis 16 (m * 16) mins" "n < 16" "\<forall>j < m * 16 + n. dis ! j \<le> infin \<and> -1 \<le> ids ! j"
  shows "\<forall>l < 16. found infin ids dis {j. j < m * 16 + n \<and> j mod 16 = l}
      (fst (avx512_masked_block n ids dis (m * 16) mins) ! l) (snd (avx512_masked_block n ids dis (m * 16) mins) ! l)"
proof (intro allI impI)
  fix l :: nat assume l: "l < 16"
  let ?S = "{j. j < m * 16 \<and> j mod 16 = l}" and ?i = "m * 16 + l"
  have f: "found infin ids dis ?S (fst mins ! l) (snd mins ! l)" using assms(1) l by (simp add: lanes_def)
  have sub: "j \<in> {j. j < m * 16 + n \<and> j mod 16 = l} \<Longrightarrow> j \<in> insert ?i ?S" for j
  proof -
    assume "j \<in> {j. j < m * 16 + n \<and> j mod 16 = l}"
    then have "j \<in> {j. j < Suc m * 16 \<and> j mod 16 = l}" using assms(2) by simp
    then show "j \<in> insert ?i ?S" unfolding lane_next [OF l] .
  qed
  show "found infin ids dis {j. j < m * 16 + n \<and> j mod 16 = l}
      (fst (avx512_masked_block n ids dis (m * 16) mins) ! l) (snd (avx512_masked_block n ids dis (m * 16) mins) ! l)"
  proof (cases "l < n")
    case True
    then have S: "{j. j < m * 16 + n \<and> j mod 16 = l} = insert ?i ?S" using sub l by auto
    have b: "\<forall>j \<in> insert ?i ?S. dis ! j \<le> infin" "-1 \<le> ids ! ?i" using assms(3) True by auto
    note e = found_entry [OF f _ b(1)]
    have "0 > ids ! ?i \<longleftrightarrow> ids ! ?i = -1" using b(2) by auto
    then show ?thesis unfolding S using e l True by (auto simp: avx512_masked_block_def Let_def not_less)
  next
    case False
    then have S: "{j. j < m * 16 + n \<and> j mod 16 = l} = ?S" using sub by fastforce
    show ?thesis unfolding S using f l False by (simp add: avx512_masked_block_def Let_def)
  qed
qed

lemma avx512_index_correct:
  assumes "\<forall>j < k. dis ! j \<le> infin \<and> -1 \<le> ids ! j"
  shows "is_min_index ids dis {0..<k} (avx512_index infin ids dis k)"
proof -
  let ?mins = "simd_blocks 16 ids dis (k div 16) (replicate 16 (-1), replicate 16 infin)"
  let ?k16 = "k div 16 * 16"
  have le: "?k16 \<le> k" by simp
  then have lt: "j < k" if "j < ?k16" for j using that by linarith
  have ln: "lanes infin ids dis 16 ?k16 ?mins"
    using simd_blocks_lanes [where m = "k div 16" and w = 16 and dis = dis and infin = infin and ids = ids] assms lt by auto
  obtain vi vd where v: "(if ?k16 \<noteq> k then avx512_masked_block (k - ?k16) ids dis ?k16 ?mins else ?mins) = (vi, vd)"
    by (metis surj_pair)
  have len: "length vi = 16" "length vd = 16"
    using v ln by (auto simp: lanes_def avx512_masked_block_def Let_def split: if_splits)
  have r: "k - ?k16 < 16" by (metis minus_div_mult_eq_mod mod_less_divisor zero_less_numeral)
  have f: "found infin ids dis {j. j < k \<and> j mod 16 = l} (vi ! l) (vd ! l)" if "l < 16" for l
  proof (cases "?k16 = k")
    case True
    then show ?thesis using v ln that by (auto simp: lanes_def)
  next
    case False
    have kk: "?k16 + (k - ?k16) = k" using le by simp
    show ?thesis using avx512_masked_lanes [OF ln r] assms that v False unfolding kk by fastforce
  qed
  define d where "d = Min (set vd)"
  define masked where "masked = map snd (filter (\<lambda>p. fst p = d) (zip vd vi))"
  have ne: "vd \<noteq> []" using len by auto
  then have d': "fold min vd (hd vd) = d" by (simp add: fold_min_Min d_def insert_absorb)
  have "found infin ids dis (\<Union>l \<in> {..<16}. {j. j < k \<and> j mod 16 = l}) (Max (set masked)) d"
    using assms by (intro avx512_reduce [OF _ len f]) (auto simp: d_def masked_def)
  moreover have "(\<Union>l \<in> {..<16}. {j. j < k \<and> j mod 16 = l}) = {0..<k}" by auto
  moreover have "masked \<noteq> []"
  proof -
    have "d \<in> set vd" unfolding d_def using ne by (intro Min_in) auto
    then obtain l where "l < 16" "vd ! l = d" using len by (auto simp: in_set_conv_nth)
    then have "(d, vi ! l) \<in> set (zip vd vi)" using len by (force simp: set_zip)
    then show ?thesis by (force simp: masked_def filter_empty_conv)
  qed
  then have "fold max masked (hd masked) = Max (set masked)" by (simp add: fold_max_Max insert_absorb)
  moreover have "avx512_index infin ids dis k = pop_index (fold max masked (hd masked))"
    unfolding avx512_index_def Let_def v prod.case d' masked_def ..
  ultimately show ?thesis using found_index by auto
qed

section \<open>Taking the minimum out\<close>

lemma mm_pop_entry:
  assumes "mm_ok h" "min_index (mm_ids h) (mm_dis h) (mm_k h) = Some i"
  shows "i < mm_k h" "mm_ids h ! i \<noteq> -1"
    "\<forall>p \<in># mm_valid h. mm_dis h ! i \<le> fst p"
    "(mm_dis h ! i, mm_ids h ! i) \<in># mm_valid h"
proof -
  note ok = mm_ok_simps [OF assms(1)]
  have r: "rightmost_min (mm_ids h) (mm_dis h) {0..<mm_k h} i"
    using min_index_correct [of "mm_ids h" "mm_dis h" "mm_k h"] assms(2) by (simp add: is_min_index_def)
  then show i: "i < mm_k h" "mm_ids h ! i \<noteq> -1" by (auto simp: rightmost_min_def)
  have nth: "take (mm_k h) (pairs (mm_dis h, mm_ids h)) ! j = (mm_dis h ! j, mm_ids h ! j)"
    "j < length (take (mm_k h) (pairs (mm_dis h, mm_ids h)))" if "j < mm_k h" for j
    using that ok by (auto simp: pairs_def)
  show "(mm_dis h ! i, mm_ids h ! i) \<in># mm_valid h"
    using nth [OF i(1)] i(2) by (auto simp: mm_valid_def mm_entries_def live_def in_set_conv_nth)
  show "\<forall>p \<in># mm_valid h. mm_dis h ! i \<le> fst p"
  proof
    fix p assume "p \<in># mm_valid h"
    then have "p \<in> set (take (mm_k h) (pairs (mm_dis h, mm_ids h)))" "snd p \<noteq> -1"
      by (auto simp: mm_valid_def mm_entries_def live_def)
    then obtain j where "j < mm_k h" "p = (mm_dis h ! j, mm_ids h ! j)"
      using nth ok by (metis in_set_conv_nth length_take min.strict_boundedE)
    then show "mm_dis h ! i \<le> fst p" using r \<open>snd p \<noteq> -1\<close> by (auto simp: rightmost_min_def)
  qed
qed

lemma mm_pop_correct:
  assumes "mm_ok h" "mm_pop_min h = (r, h')"
  shows "r = None \<Longrightarrow> mm_valid h = {#} \<and> h' = h"
    and "r = Some (v, d) \<Longrightarrow> (d, v) \<in># mm_valid h \<and> (\<forall>p \<in># mm_valid h. d \<le> fst p)
      \<and> mm_valid h' = mm_valid h - {#(d, v)#}
      \<and> mm_entries h' = add_mset (d, -1) (mm_entries h - {#(d, v)#})
      \<and> mm_ok h' \<and> mm_n h' = mm_n h \<and> mm_k h' = mm_k h \<and> mm_dis h' = mm_dis h \<and> v \<noteq> -1"
proof -
  note ok = mm_ok_simps [OF assms(1)]
  let ?B = "pairs (mm_dis h, mm_ids h)"
  {
    assume "r = None"
    then have n: "min_index (mm_ids h) (mm_dis h) (mm_k h) = None" "h' = h"
      using assms(2) by (auto simp: mm_pop_min_def mm_take_def split: option.splits)
    then have "\<forall>j < mm_k h. mm_ids h ! j = -1"
      using min_index_correct [of "mm_ids h" "mm_dis h" "mm_k h"] by (simp add: is_min_index_def)
    then have "snd p = -1" if "p \<in> set (take (mm_k h) ?B)" for p
      using that ok by (auto simp: pairs_def in_set_conv_nth)
    then show "mm_valid h = {#} \<and> h' = h" using n(2)
      by (auto simp: mm_valid_def mm_entries_def live_def filter_mset_eq_conv)
  next
    assume "r = Some (v, d)"
    then obtain i where i: "min_index (mm_ids h) (mm_dis h) (mm_k h) = Some i"
      and e: "v = mm_ids h ! i" "d = mm_dis h ! i"
        "h' = h\<lparr>mm_ids := (mm_ids h)[i := -1], mm_nvalid := mm_nvalid h - 1\<rparr>"
      using assms(2) by (auto simp: mm_pop_min_def mm_take_def split: option.splits)
    note pe = mm_pop_entry [OF assms(1) i]
    have P: "pairs (mm_dis h', mm_ids h') = ?B[i := (d, -1)]"
      using e ok pe(1) by (intro nth_equalityI) (auto simp: pairs_def nth_list_update split: if_splits)
    have T: "take (mm_k h) (?B[i := (d, -1)]) = (take (mm_k h) ?B)[i := (d, -1)]" by (simp add: take_update_swap)
    have Bi: "take (mm_k h) ?B ! i = (d, v)" "i < length (take (mm_k h) ?B)"
      using e pe(1) ok by (auto simp: pairs_def)
    have en: "mm_entries h' = add_mset (d, -1) (mm_entries h - {#(d, v)#})"
    proof -
      have "mm_entries h' = mset (take (mm_k h) (?B[i := (d, -1)]))"
        unfolding mm_entries_def P using e(3) by simp
      then show ?thesis
        unfolding T using Bi mset_update [OF Bi(2), of "(d, -1)"] by (simp add: mm_entries_def)
    qed
    have in_e: "(d, v) \<in># mm_entries h"
      using Bi by (metis mm_entries_def nth_mem set_mset_mset)
    have va: "mm_valid h' = mm_valid h - {#(d, v)#}"
    proof -
      have "mm_entries h = add_mset (d, v) (mm_entries h - {#(d, v)#})" using in_e by simp
      then have "mm_valid h = add_mset (d, v) (live (mm_entries h - {#(d, v)#}))"
        using pe(2) e(1) live_add_mset [of "(d, v)" "mm_entries h - {#(d, v)#}"] by (simp add: mm_valid_def)
      moreover have "mm_valid h' = live (mm_entries h - {#(d, v)#})"
        by (simp add: mm_valid_def en live_add_mset)
      ultimately show ?thesis by simp
    qed
    have "is_value_heap (HC (mm_dis h' ! 0)) (mm_k h') (pairs (mm_dis h', mm_ids h'))"
    proof -
      have fs: "fst (at1 (pairs (mm_dis h', mm_ids h')) j) = fst (at1 ?B j)" if "1 \<le> j" "j \<le> mm_k h" for j
        unfolding P using that Bi ok by (auto simp: at1_def nth_list_update)
      have k: "mm_k h' = mm_k h" using e(3) by simp
      show ?thesis unfolding is_value_heap_def k
      proof
        fix j assume j: "j \<in> {2..mm_k h}"
        note b = parent_bounds [OF j]
        show "\<not> cmp (HC (mm_dis h' ! 0)) (fst (at1 (pairs (mm_dis h', mm_ids h')) j))
            (fst (at1 (pairs (mm_dis h', mm_ids h')) (j div 2)))"
          using ok(6) [of "mm_dis h' ! 0"] fs [of j] fs [of "j div 2"] b j
          unfolding is_value_heap_def by simp
      qed
    qed
    then have "mm_ok h'"
      using ok va pe(4) e by (simp add: mm_ok_def size_Diff_singleton)
    then show "(d, v) \<in># mm_valid h \<and> (\<forall>p \<in># mm_valid h. d \<le> fst p)
      \<and> mm_valid h' = mm_valid h - {#(d, v)#}
      \<and> mm_entries h' = add_mset (d, -1) (mm_entries h - {#(d, v)#})
      \<and> mm_ok h' \<and> mm_n h' = mm_n h \<and> mm_k h' = mm_k h \<and> mm_dis h' = mm_dis h \<and> v \<noteq> -1"
      using pe e va en by simp
  }
qed

lemma mm_pop_some: "mm_ok h \<Longrightarrow> 0 < mm_size h \<Longrightarrow> \<exists>v d h'. mm_pop_min h = (Some (v, d), h')"
  using mm_pop_correct(1) [of h "fst (mm_pop_min h)" "snd (mm_pop_min h)"] mm_ok_simps(7) [of h]
  by (cases "mm_pop_min h"; cases "fst (mm_pop_min h)") (auto simp: mm_size_def)

lemma mm_count_below_from_filter:
  "mm_count_below_from dis t i m = length (filter (\<lambda>j. dis ! j < t) [i..<i + m])"
proof (induction m arbitrary: i)
  case (Suc m)
  have "[i..<i + Suc m] = i # [Suc i..<Suc i + m]" by (simp add: upt_rec)
  then show ?case using Suc [of "i + 1"] by simp
qed simp

lemma mm_count_below_entries:
  assumes "mm_ok h"
  shows "mm_count_below h t = size {#p \<in># mm_entries h. fst p < t#}"
proof -
  note ok = mm_ok_simps [OF assms]
  let ?B = "take (mm_k h) (pairs (mm_dis h, mm_ids h))"
  have B: "map fst ?B = map ((!) (mm_dis h)) [0..<mm_k h]"
    using ok by (intro nth_equalityI) (auto simp: pairs_def)
  have "size {#p \<in># mm_entries h. fst p < t#} = length (filter (\<lambda>p. fst p < t) ?B)"
    unfolding mm_entries_def by (metis mset_filter size_mset)
  also have "\<dots> = length (filter (\<lambda>d. d < t) (map fst ?B))" by (simp add: filter_map o_def)
  also have "\<dots> = mm_count_below h t"
    unfolding B by (simp add: filter_map o_def mm_count_below_def mm_count_below_from_filter)
  finally show ?thesis ..
qed

section \<open>Properties\<close>

text \<open>
  \<open>MinimaxHeap::push\<close> keeps the invariant of the heap (capacity, value order, \<open>nvalid\<close>
  counts the entries with an id). With room it adds the entry; when full it drops an entry of
  greatest distance, or the new one if that is not closer than the greatest.
\<close>

theorem minimax_push_spec:
  assumes "mm_ok h" "i \<noteq> -1"
  shows "mm_ok (mm_push h i v) \<and>
    mm_entries (mm_push h i v) =
      (if mm_k h < mm_n h then add_mset (v, i) (mm_entries h)
       else if mm_max h \<le> v then mm_entries h
       else add_mset (v, i) (mm_entries h - {#(mm_dis h ! 0, mm_ids h ! 0)#})) \<and>
    (\<forall>p \<in># mm_entries h. fst p \<le> mm_max h)"
proof -
  have "mm_k h \<le> mm_n h" using mm_ok_simps(2) [OF assms(1)] .
  moreover have "mm_k h = mm_n h \<Longrightarrow> \<not> mm_max h \<le> v \<Longrightarrow> mm_entries (mm_push h i v) =
      add_mset (v, i) (mm_entries h - {#(mm_dis h ! 0, mm_ids h ! 0)#})"
    using mm_push_full(1) [OF assms(1)] by (simp add: mm_max_def)
  ultimately show ?thesis
    using mm_push_ok(1) [OF assms] mm_push_room(1) [OF assms(1), of i v]
      mm_push_full_reject [of h v i] mm_top_max [OF assms(1)]
    by (auto simp: mm_max_def)
qed

theorem minimax_push_spec_witness:
  "mm_entries (mm_push (mm_push (mm_push (mm_new 2 (0 :: int)) 7 30) 8 10) 9 20) = {#(10, 8), (20, 9)#}"
proof -
  let ?h = "mm_push (mm_push (mm_new 2 (0 :: int)) 7 30) 8 10"
  have ok: "mm_ok ?h" by (intro mm_push_ok mm_ok_new) auto
  have v: "mm_k ?h = 2" "mm_n ?h = 2" "mm_dis ?h = [30, 10]" "mm_ids ?h = [7, 8]" by code_simp+
  then show ?thesis
    using minimax_push_spec [OF ok, of 9 20]
    by (simp add: mm_max_def mm_entries_def pairs_def numeral_2_eq_2)
qed

text \<open>
  \<open>MinimaxHeap::pop_min\<close> on a heap with valid entries returns one of least distance and
  takes exactly that one out; it keeps the heap invariant, although it breaks the order on
  (distance, id) pairs.
\<close>

theorem minimax_pop_min_spec:
  assumes "mm_ok h" "0 < mm_size h"
  shows "\<exists>v d h'. mm_pop_min h = (Some (v, d), h') \<and> (d, v) \<in># mm_valid h
    \<and> (\<forall>p \<in># mm_valid h. d \<le> fst p)
    \<and> mm_valid h' = mm_valid h - {#(d, v)#} \<and> mm_size h' = mm_size h - 1
    \<and> mm_ok h'"
proof -
  obtain v d h' where p: "mm_pop_min h = (Some (v, d), h')" using mm_pop_some [OF assms] by blast
  from mm_pop_correct(2) [OF assms(1) p refl] have r: "(d, v) \<in># mm_valid h" "mm_ok h'"
    "\<forall>p \<in># mm_valid h. d \<le> fst p" "mm_valid h' = mm_valid h - {#(d, v)#}" by auto
  then have "mm_size h' = mm_size h - 1"
    using mm_ok_simps(7) [OF assms(1)] mm_ok_simps(7) [OF r(2)] by (simp add: mm_size_def size_Diff_singleton)
  then show ?thesis using p r by blast
qed

theorem minimax_pop_min_spec_witness:
  "\<exists>d v. fst (mm_pop_min (mm_push (mm_push (mm_new 2 (0 :: int)) 7 30) 8 10)) = Some (v, d) \<and> d \<le> 10"
proof -
  let ?h = "mm_push (mm_push (mm_new 2 (0 :: int)) 7 30) 8 10"
  have ok: "mm_ok ?h" by (intro mm_push_ok mm_ok_new) auto
  have s: "0 < mm_size ?h" by code_simp
  have "mm_entries ?h = {#(30, 7), (10, 8)#}" by code_simp
  then have "(10, 8) \<in># mm_valid ?h" by (simp add: mm_valid_def live_def)
  then show ?thesis using minimax_pop_min_spec [OF ok s] by fastforce
qed

text \<open>
  C21. The AVX2 and AVX512 versions of \<open>pop_min\<close> return the same entry and leave the same heap
  as the baseline version.
\<close>

theorem pop_min_versions_agree:
  assumes "\<forall>j < mm_k h. mm_dis h ! j \<le> infin \<and> -1 \<le> mm_ids h ! j"
  shows "mm_pop_min_avx2 infin h = mm_pop_min h \<and> mm_pop_min_avx512 infin h = mm_pop_min h"
  unfolding mm_pop_min_avx2_def mm_pop_min_avx512_def mm_pop_min_def
  using is_min_index_unique [OF avx2_index_correct [OF assms] min_index_correct]
    is_min_index_unique [OF avx512_index_correct [OF assms] min_index_correct] by simp

theorem pop_min_versions_agree_witness:
  "fst (mm_pop_min_avx2 100 (mm_push (mm_push (mm_new 2 (0 :: int)) 7 30) 8 10)) = Some (8, 10)"
proof -
  let ?h = "mm_push (mm_push (mm_new 2 (0 :: int)) 7 30) 8 10"
  have v: "mm_k ?h = 2" "mm_dis ?h = [30, 10]" "mm_ids ?h = [7, 8]" by code_simp+
  then have "\<forall>j < mm_k ?h. mm_dis ?h ! j \<le> 100 \<and> -1 \<le> mm_ids ?h ! j"
    by (auto simp: less_Suc_eq numeral_2_eq_2)
  moreover have "fst (mm_pop_min ?h) = Some (8, 10)" by code_simp
  ultimately show ?thesis using pop_min_versions_agree [of ?h 100] by simp
qed

end
