(* ===== verification/Hnsw_Candidates.thy ===== *)
theory Hnsw_Candidates
  imports Hnsw_Greedy Visited_Table Minimax_Pop Result_Handlers
begin

text \<open>
  \<open>search_from_candidates\<close> (\<open>HNSW.cpp\<close> lines 584-727): breadth-first search on one level with
  a bounded candidate heap, handing the selected nodes it meets to a result handler.
\<close>

section \<open>Search parameters\<close>

text \<open>
  \<open>SearchParameters\<close>: an optional selector; the derived \<open>SearchParametersHNSW\<close> is what the
  \<open>dynamic_cast\<close> may find.
\<close>

record hnsw_params =
  hp_efSearch :: nat
  hp_check_relative_distance :: bool
  hp_bounded_queue :: bool

record search_params =
  sp_sel :: "(idx_t \<Rightarrow> bool) option"
  sp_hnsw :: "hnsw_params option"

definition param_of :: "search_params option \<Rightarrow> (hnsw_params \<Rightarrow> 'a) \<Rightarrow> 'a \<Rightarrow> 'a" where
  "param_of params f dflt =
     (case params of None \<Rightarrow> dflt
      | Some p \<Rightarrow> (case sp_hnsw p of None \<Rightarrow> dflt | Some hp \<Rightarrow> f hp))"

definition selected :: "search_params option \<Rightarrow> idx_t \<Rightarrow> bool" where
  "selected params v =
     (case params of None \<Rightarrow> True | Some p \<Rightarrow> (case sp_sel p of None \<Rightarrow> True | Some sel \<Rightarrow> sel v))"

section \<open>Visiting the neighbors of a node\<close>

text \<open>
  The loop over the links of a node, shared by \<open>search_from_candidates\<close> and
  \<open>search_from_candidate_unbounded\<close>: nodes not yet visited are marked and buffered; a full
  buffer of four is handed on. The state is the buffer \<open>saved_j[0..counter)\<close>, the visited
  table, \<open>ndis\<close>, and what \<open>add_to_heap\<close> works on.
\<close>

definition visit_one ::
    "'d distance_computer \<Rightarrow> (idx_t \<Rightarrow> 'd \<Rightarrow> 's \<Rightarrow> 's) \<Rightarrow> idx_t \<Rightarrow>
     idx_t list \<times> visited_table \<times> nat \<times> 's \<Rightarrow> idx_t list \<times> visited_table \<times> nat \<times> 's" where
  "visit_one qdis add_to_heap v1 st =
     (case st of (saved, vt, ndis, s) \<Rightarrow>
        let vget = vt_get vt v1;
            vt' = vt_set vt v1;
            saved' = (if vget then saved else saved @ [v1])
        in if length saved' = 4 then ([], vt', ndis + 4, flush4 qdis add_to_heap saved' s)
           else (saved', vt', ndis, s))"

definition visit_links ::
    "'d distance_computer \<Rightarrow> (idx_t \<Rightarrow> 'd \<Rightarrow> 's \<Rightarrow> 's) \<Rightarrow> idx_t list \<Rightarrow> visited_table \<Rightarrow> nat \<Rightarrow> 's \<Rightarrow>
     visited_table \<times> nat \<times> 's" where
  "visit_links qdis add_to_heap vs vt ndis s =
     (case fold (visit_one qdis add_to_heap) vs ([], vt, ndis, s) of
        (saved, vt', ndis', s') \<Rightarrow> (vt', ndis' + length saved, leftovers qdis add_to_heap saved s'))"

text \<open>The nodes that are handed on: those not visited, each once, in order.\<close>

fun fresh :: "visited_table \<Rightarrow> idx_t list \<Rightarrow> idx_t list" where
  "fresh vt [] = []"
| "fresh vt (v # vs) = (if vt_get vt v then fresh vt vs else v # fresh (vt_set vt v) vs)"

section \<open>The search\<close>

record ('r, 'd) heap_state =
  hs_res :: 'r
  hs_threshold :: 'd
  hs_candidates :: "'d minimax_heap"
  hs_nres :: nat

definition add_to_heap ::
    "('r, 'd :: linorder) result_handler \<Rightarrow> search_params option \<Rightarrow> idx_t \<Rightarrow> 'd \<Rightarrow>
     ('r, 'd) heap_state \<Rightarrow> ('r, 'd) heap_state" where
  "add_to_heap H params idx dis s =
     (let s' = (if selected params idx \<and> dis < hs_threshold s then
                  (case add_result H (hs_res s) dis idx of (r, taken) \<Rightarrow>
                     if taken then s\<lparr>hs_res := r, hs_threshold := threshold_of H r, hs_nres := hs_nres s + 1\<rparr>
                     else s\<lparr>hs_res := r\<rparr>)
                else s)
      in s'\<lparr>hs_candidates := mm_push (hs_candidates s') idx dis\<rparr>)"

text \<open>The candidates given at the start are offered to the results and marked.\<close>

fun init_candidates ::
    "('r, 'd :: linorder) result_handler \<Rightarrow> search_params option \<Rightarrow> 'd minimax_heap \<Rightarrow> nat \<Rightarrow> nat \<Rightarrow>
     'r \<times> 'd \<times> visited_table \<Rightarrow> ('r \<times> 'd \<times> visited_table) result" where
  "init_candidates H params c i 0 st = Inr st"
| "init_candidates H params c i (Suc m) (r, threshold, vt) =
     (let v1 = mm_ids c ! i; d = mm_dis c ! i in
      if v1 < 0 then Inl Assert_failed
      else
        let (r', threshold') =
              (if selected params v1 \<and> d < threshold then
                 (case add_result H r d v1 of (r', taken) \<Rightarrow> (r', if taken then threshold_of H r' else threshold))
               else (r, threshold))
        in init_candidates H params c (i + 1) m (r', threshold', vt_set vt v1))"

type_synonym ('r, 'd) sfc_state = "visited_table \<times> nat \<times> nat \<times> ('r, 'd) heap_state"

definition sfc_body ::
    "hnsw \<Rightarrow> ('d :: linorder) distance_computer \<Rightarrow> ('r, 'd) result_handler \<Rightarrow> nat \<Rightarrow> search_params option \<Rightarrow>
     ('r, 'd) sfc_state \<Rightarrow> ('r, 'd) sfc_state + ('r, 'd) sfc_state" where
  "sfc_body h qdis H level params st =
     (case st of (vt, ndis, nstep, s) \<Rightarrow>
        let do_dis_check = param_of params hp_check_relative_distance (check_relative_distance h);
            ef = param_of params hp_efSearch (efSearch h) in
        if mm_size (hs_candidates s) = 0 then Inr st
        else (case mm_pop_min (hs_candidates s) of
            (None, c) \<Rightarrow> Inr st
          | (Some (v0, d0), c) \<Rightarrow>
              let s = s\<lparr>hs_candidates := c\<rparr> in
              if do_dis_check \<and> mm_count_below c d0 \<ge> ef then Inr (vt, ndis, nstep, s)
              else
                let s = s\<lparr>hs_threshold := threshold_of H (hs_res s)\<rparr>;
                    (vt', ndis', s') = visit_links qdis (add_to_heap H params) (links h v0 level) vt ndis s;
                    st' = (vt', ndis', nstep + 1, s')
                in if \<not> do_dis_check \<and> nstep + 1 > ef then Inr st' else Inl st'))"

text \<open>Returns the result handler, the candidate heap, the visited table, the statistics and \<open>nres\<close>.\<close>

definition search_from_candidates ::
    "hnsw \<Rightarrow> ('d :: linorder) distance_computer \<Rightarrow> ('r, 'd) result_handler \<Rightarrow> 'r \<Rightarrow> 'd minimax_heap \<Rightarrow>
     visited_table \<Rightarrow> hnsw_stats \<Rightarrow> nat \<Rightarrow> nat \<Rightarrow> search_params option \<Rightarrow>
     ('r \<times> 'd minimax_heap \<times> visited_table \<times> hnsw_stats \<times> nat) result option" where
  "search_from_candidates h qdis H res candidates vt stats level nres_in params =
     (case init_candidates H params candidates 0 (mm_size candidates) (res, threshold_of H res, vt) of
        Inl e \<Rightarrow> Some (Inl e)
      | Inr (r, threshold, vt1) \<Rightarrow>
          (case iterate (sfc_body h qdis H level params)
                  (vt1, 0, 0, \<lparr>hs_res = r, hs_threshold = threshold, hs_candidates = candidates, hs_nres = nres_in\<rparr>) of
             None \<Rightarrow> None
           | Some (vt2, ndis, nstep, s) \<Rightarrow>
               let stats' =
                 (if level = 0 then
                    stats\<lparr>st_n1 := st_n1 stats + 1,
                          st_n2 := (if mm_size (hs_candidates s) = 0 then st_n2 stats + 1 else st_n2 stats),
                          st_ndis := st_ndis stats + ndis, st_nhops := st_nhops stats + nstep\<rparr>
                  else stats)
               in Some (Inr (hs_res s, hs_candidates s, vt2, stats', hs_nres s))))"

section \<open>Visiting: buffered and one by one\<close>

definition mark_all :: "idx_t list \<Rightarrow> visited_table \<Rightarrow> visited_table" where
  "mark_all vs vt = fold (\<lambda>v vt. vt_set vt v) vs vt"

lemma mark_all_simps [simp]:
  "mark_all [] vt = vt" "mark_all (v # vs) vt = mark_all vs (vt_set vt v)"
  by (simp_all add: mark_all_def)

lemma vt_size_mark_all [simp]: "vt_size (mark_all vs vt) = vt_size vt"
  by (induction vs arbitrary: vt) simp_all

lemma vt_ok_mark_all: "vt_ok vt \<Longrightarrow> vt_ok (mark_all vs vt)"
  by (induction vs arbitrary: vt) (simp_all add: vt_ok_set)

lemma vt_get_mark_all:
  "vt_get (mark_all vs vt) v \<longleftrightarrow> (v \<in> set vs \<and> vt_has vt v) \<or> vt_get vt v"
  by (induction vs arbitrary: vt) (auto simp: vt_get_has)

lemma set_fresh:
  "\<forall>v \<in> set vs. vt_has vt v \<Longrightarrow> set (fresh vt vs) = {v \<in> set vs. \<not> vt_get vt v}"
  by (induction vs arbitrary: vt) auto

lemma distinct_fresh: "\<forall>v \<in> set vs. vt_has vt v \<Longrightarrow> distinct (fresh vt vs)"
  by (induction vs arbitrary: vt) (auto simp: set_fresh)

lemma unvisited_mark_all:
  "\<forall>v \<in> set vs. vt_has vt v \<Longrightarrow> vt_unvisited (mark_all vs vt) + length (fresh vt vs) = vt_unvisited vt"
proof (induction vs arbitrary: vt)
  case (Cons v vs)
  then show ?case using vt_unvisited_set [of vt v] by (cases "vt_get vt v") (auto simp: vt_set_idem)
qed simp

context exact_batches
begin

lemma visit_fold:
  assumes "fold (visit_one dc upd) vs (saved, vt, ndis, s) = (saved', vt', ndis', s')" "length saved < 4"
  shows "vt' = mark_all vs vt \<and> ndis' + length saved' = ndis + length saved + length (fresh vt vs)
    \<and> one_by_one dc upd saved' s' = one_by_one dc upd (saved @ fresh vt vs) s"
  using assms
proof (induction vs arbitrary: saved vt ndis s)
  case (Cons v vs)
  show ?case
  proof (cases "vt_get vt v")
    case True
    then have "visit_one dc upd v (saved, vt, ndis, s) = (saved, vt, ndis, s)"
      using Cons.prems(2) by (simp add: visit_one_def vt_set_idem)
    then show ?thesis using Cons True by (simp add: vt_set_idem)
  next
    case False
    show ?thesis
    proof (cases "length saved = 3")
      case True
      then have "visit_one dc upd v (saved, vt, ndis, s) =
          ([], vt_set vt v, ndis + 4, one_by_one dc upd (saved @ [v]) s)"
        using False by (simp add: visit_one_def flush4_one_by_one)
      then show ?thesis
        using Cons.IH [of "[]" "vt_set vt v" "ndis + 4" "one_by_one dc upd (saved @ [v]) s"] Cons.prems False True
        by simp
    next
      case 3: False
      then have "visit_one dc upd v (saved, vt, ndis, s) = (saved @ [v], vt_set vt v, ndis, s)"
        using False by (simp add: visit_one_def)
      then show ?thesis
        using Cons.IH [of "saved @ [v]" "vt_set vt v" ndis s] Cons.prems False 3 by simp
    qed
  qed
qed simp

lemma visit_links_one_by_one:
  "visit_links dc upd vs vt ndis s =
     (mark_all vs vt, ndis + length (fresh vt vs), one_by_one dc upd (fresh vt vs) s)"
proof -
  obtain saved vt' ndis' s' where f: "fold (visit_one dc upd) vs ([], vt, ndis, s) = (saved, vt', ndis', s')"
    by (metis prod_cases4)
  from visit_fold [OF f] show ?thesis
    using f by (simp add: visit_links_def leftovers_one_by_one)
qed

end

end
