(* ===== verification/Hnsw_Candidates_Correct.thy ===== *)
theory Hnsw_Candidates_Correct
  imports Hnsw_Candidates
begin

text \<open>
  Correctness of \<open>search_from_candidates\<close>: it ends; what it hands to the result handler is
  exactly the initial candidates and the nodes it visits, each once, as far as the selector
  lets them through; and with a large enough \<open>efSearch\<close> it visits every node that can be
  reached.
\<close>

section \<open>Handlers for distances\<close>

text \<open>The results offered and the candidates pushed when the nodes \<open>vs\<close> are met.\<close>

definition offered_nodes :: "'d distance_computer \<Rightarrow> search_params option \<Rightarrow> idx_t list \<Rightarrow> ('d \<times> idx_t) list" where
  "offered_nodes qdis params vs = map (\<lambda>v. (query_dis qdis v, v)) (filter (selected params) vs)"

definition push_all :: "('d :: linorder) distance_computer \<Rightarrow> idx_t list \<Rightarrow> 'd minimax_heap \<Rightarrow> 'd minimax_heap" where
  "push_all qdis vs c = fold (\<lambda>v c. mm_push c v (query_dis qdis v)) vs c"

lemma push_all_simps [simp]:
  "push_all qdis [] c = c" "push_all qdis (v # vs) c = push_all qdis vs (mm_push c v (query_dis qdis v))"
  by (simp_all add: push_all_def)



text \<open>\<open>HNSW::C\<close> is \<open>CMax<float, int64_t>\<close>: smaller distances are better.\<close>

locale distance_handler = result_collector "CMax lo hi" H contents inv
  for lo hi :: "'d :: linorder" and H :: "('r, 'd) result_handler" and contents inv
begin

definition handler_state_ok :: "('r, 'd) heap_state \<Rightarrow> bool" where
  "handler_state_ok s \<longleftrightarrow> inv (hs_res s) \<and> hs_threshold s = threshold_of H (hs_res s)"

lemma offers_snoc: "offers H r (ps @ [p]) = fst (add_result H (offers H r ps) (fst p) (snd p))"
  by (simp add: offers_def)

lemma offers_append: "offers H r (ps @ qs) = offers H (offers H r ps) qs"
  by (simp add: offers_def)

lemma taken_less: "inv r \<Longrightarrow> snd (add_result H r d i) \<Longrightarrow> d < threshold_of H r"
  using add_taken by simp

lemma add_to_heap_handler:
  assumes "handler_state_ok s"
  shows "handler_state_ok (add_to_heap H params v d s)"
    and "hs_res (add_to_heap H params v d s) = offers H (hs_res s) (if selected params v then [(d, v)] else [])"
    and "hs_candidates (add_to_heap H params v d s) = mm_push (hs_candidates s) v d"
proof -
  have s: "inv (hs_res s)" "hs_threshold s = threshold_of H (hs_res s)"
    using assms by (simp_all add: handler_state_ok_def)
  obtain r t where a: "add_result H (hs_res s) d v = (r, t)" by (metis surj_pair)
  have r: "r = fst (add_result H (hs_res s) d v)" "t \<Longrightarrow> d < hs_threshold s"
    and thr: "\<not> t \<Longrightarrow> threshold_of H r = hs_threshold s"
    using a taken_less [OF s(1), of d v] add_untaken [OF s(1), of d v] s(2) by simp_all
  have rej: "\<not> d < hs_threshold s \<Longrightarrow> r = hs_res s"
    using add_rejected [OF s(1), of d v] s(2) a by simp
  have iv: "inv r" using add_inv [OF s(1)] r by simp
  show "handler_state_ok (add_to_heap H params v d s)"
    unfolding add_to_heap_def a prod.case Let_def using s iv r(2) rej thr by (auto simp: handler_state_ok_def)
  show "hs_res (add_to_heap H params v d s) = offers H (hs_res s) (if selected params v then [(d, v)] else [])"
    unfolding add_to_heap_def a prod.case Let_def using r rej by (auto simp: offers_def)
  show "hs_candidates (add_to_heap H params v d s) = mm_push (hs_candidates s) v d"
    unfolding add_to_heap_def a prod.case Let_def by auto
qed

lemma add_all_to_heap:
  assumes "handler_state_ok s"
  shows "handler_state_ok (one_by_one qdis (add_to_heap H params) vs s)
    \<and> hs_res (one_by_one qdis (add_to_heap H params) vs s) = offers H (hs_res s) (offered_nodes qdis params vs)
    \<and> hs_candidates (one_by_one qdis (add_to_heap H params) vs s) = push_all qdis vs (hs_candidates s)"
  using assms
proof (induction vs arbitrary: s)
  case Nil
  then show ?case by (simp add: offers_def offered_nodes_def)
next
  case (Cons v vs)
  note a = add_to_heap_handler [OF Cons.prems, of params v "query_dis qdis v"]
  have "offers H (hs_res s) (offered_nodes qdis params (v # vs)) =
      offers H (hs_res (add_to_heap H params v (query_dis qdis v) s)) (offered_nodes qdis params vs)"
    unfolding a(2) by (simp add: offered_nodes_def offers_def)
  then show ?case using Cons.IH [OF a(1)] a(3) by simp
qed

lemma init_candidates_offers:
  assumes "\<forall>j < i + m. 0 \<le> mm_ids c ! j" "inv r" "t = threshold_of H r"
  shows "\<exists>r'. init_candidates H params c i m (r, t, vt) =
      Inr (r', threshold_of H r', mark_all (map (\<lambda>j. mm_ids c ! j) [i..<i + m]) vt)
    \<and> inv r'
    \<and> r' = offers H r (filter (\<lambda>p. selected params (snd p)) (map (\<lambda>j. (mm_dis c ! j, mm_ids c ! j)) [i..<i + m]))"
  using assms
proof (induction m arbitrary: i r t vt)
  case 0
  then show ?case by (simp add: offers_def)
next
  case (Suc m)
  let ?v = "mm_ids c ! i" and ?d = "mm_dis c ! i"
  define r1 where "r1 = (if selected params ?v then fst (add_result H r ?d ?v) else r)"
  have iv: "inv r1" using add_inv [OF Suc.prems(2)] Suc.prems(2) by (simp add: r1_def)
  have u: "[i..<i + Suc m] = i # [i + 1..<(i + 1) + m]" by (simp add: upt_rec)
  have step: "init_candidates H params c i (Suc m) (r, t, vt) =
      init_candidates H params c (i + 1) m (r1, threshold_of H r1, vt_set vt ?v)"
  proof -
    have "\<not> ?v < 0" using Suc.prems(1) [rule_format, of i] by simp
    then show ?thesis
      using Suc.prems(2,3) taken_less [OF Suc.prems(2), of ?d ?v] add_untaken [OF Suc.prems(2), of ?d ?v]
        add_rejected [OF Suc.prems(2), of ?d ?v]
      by (auto simp: r1_def case_prod_beta Let_def not_less)
  qed
  have "\<forall>j < i + 1 + m. 0 \<le> mm_ids c ! j" using Suc.prems(1) by simp
  from Suc.IH [OF this iv refl, of "vt_set vt ?v"] show ?case
    unfolding step u by (auto simp: r1_def offers_def)
qed

end

interpretation heap_distance_handler: distance_handler l h "heap_result_handler (CMax l h)"
    "\<lambda>r. mset (hh_pairs r)" "hh_inv (CMax l h)" for l h :: "'d :: linorder"
  by unfold_locales

interpretation top1_distance_handler: distance_handler l h "top1_result_handler (CMax l h)"
    t1_contents "\<lambda>_. True" for l h :: "'d :: linorder"
  by unfold_locales

section \<open>The candidate heap holds nodes\<close>

definition cand_ok :: "hnsw \<Rightarrow> nat \<Rightarrow> ('d :: linorder) distance_computer \<Rightarrow> 'd minimax_heap \<Rightarrow> bool" where
  "cand_ok h l qdis c \<longleftrightarrow> mm_ok c \<and> (\<forall>p \<in># mm_valid c. node_at h l (snd p) \<and> fst p = query_dis qdis (snd p))"

lemma cand_ok_push:
  assumes "cand_ok h l qdis c" "node_at h l v"
  shows "cand_ok h l qdis (mm_push c v (query_dis qdis v))"
    and "mm_n (mm_push c v (query_dis qdis v)) = mm_n c"
    and "mm_size (mm_push c v (query_dis qdis v)) \<le> mm_size c + 1"
proof -
  have c: "mm_ok c" "v \<noteq> -1" using assms by (auto simp: cand_ok_def node_at_def)
  note p = mm_push_ok [OF c, of "query_dis qdis v"]
  show "cand_ok h l qdis (mm_push c v (query_dis qdis v))"
    using p(1) assms mset_subset_eqD [OF p(4)] by (fastforce simp: cand_ok_def)
  show "mm_n (mm_push c v (query_dis qdis v)) = mm_n c" by (rule p(2))
  show "mm_size (mm_push c v (query_dis qdis v)) \<le> mm_size c + 1" using p(5) by (simp add: mm_size_def)
qed

lemma cand_ok_push_all:
  assumes "cand_ok h l qdis c" "\<forall>v \<in> set vs. node_at h l v"
  shows "cand_ok h l qdis (push_all qdis vs c) \<and> mm_n (push_all qdis vs c) = mm_n c
    \<and> mm_size (push_all qdis vs c) \<le> mm_size c + length vs"
  using assms
proof (induction vs arbitrary: c)
  case (Cons v vs)
  have v: "node_at h l v" using Cons.prems(2) by simp
  note p = cand_ok_push [OF Cons.prems(1) v]
  show ?case using Cons.IH [OF p(1)] Cons.prems(2) p(2,3) by simp
qed simp

text \<open>With room for all of them, nothing is dropped.\<close>

lemma push_all_room:
  assumes "mm_ok c" "mm_k c + length vs \<le> mm_n c" "\<forall>v \<in> set vs. 0 \<le> v"
  shows "mm_k (push_all qdis vs c) = mm_k c + length vs
    \<and> mm_valid (push_all qdis vs c) = mm_valid c + mset (map (\<lambda>v. (query_dis qdis v, v)) vs)"
  using assms
proof (induction vs arbitrary: c)
  case (Cons v vs)
  then have c: "mm_k c < mm_n c" "v \<noteq> -1" by auto
  let ?c = "mm_push c v (query_dis qdis v)"
  note p = mm_push_room [OF Cons.prems(1) c(1), of v "query_dis qdis v"]
  have "mm_valid ?c = add_mset (query_dis qdis v, v) (mm_valid c)"
    using p(1) c(2) by (simp add: mm_valid_def live_add_mset)
  then show ?case using Cons.IH [of ?c] p c Cons.prems by simp
qed simp

lemma cand_ok_pop:
  assumes "cand_ok h l qdis c" "mm_pop_min c = (Some (v, d), c')"
  shows "cand_ok h l qdis c'" "node_at h l v" "d = query_dis qdis v" "mm_n c' = mm_n c" "mm_k c' = mm_k c"
    "Suc (mm_size c') = mm_size c" "mm_valid c = add_mset (d, v) (mm_valid c')"
    "mm_count_below c' d < mm_k c"
proof -
  have ok: "mm_ok c" using assms(1) by (simp add: cand_ok_def)
  from mm_pop_correct(2) [OF ok assms(2) refl] have p: "(d, v) \<in># mm_valid c"
    "mm_valid c' = mm_valid c - {#(d, v)#}" "mm_ok c'" "mm_n c' = mm_n c" "mm_k c' = mm_k c"
    "mm_entries c' = add_mset (d, -1) (mm_entries c - {#(d, v)#})" by auto
  show "cand_ok h l qdis c'" using assms(1) p by (auto simp: cand_ok_def dest: in_diffD)
  show "node_at h l v" "d = query_dis qdis v" using assms(1) p(1) by (auto simp: cand_ok_def)
  show "mm_n c' = mm_n c" "mm_k c' = mm_k c" by (fact p)+
  show v: "mm_valid c = add_mset (d, v) (mm_valid c')" using p(1,2) by simp
  show "Suc (mm_size c') = mm_size c"
    using v mm_ok_simps(7) [OF ok] mm_ok_simps(7) [OF p(3)] by (simp add: mm_size_def)
  have "(d, -1) \<in># mm_entries c'" using p(6) by simp
  then have "{#p \<in># mm_entries c'. fst p < d#} \<subset># mm_entries c'"
    by (metis (no_types, lifting) filter_mset_eq_conv fst_conv multiset_filter_subset order.irrefl subset_mset.le_neq_trans)
  then have "mm_count_below c' d < size (mm_entries c')"
    using mm_count_below_entries [OF p(3)] mset_subset_size by metis
  also have "size (mm_entries c') = mm_k c"
    using mm_ok_simps(2,8) [OF p(3)] p(5) by (simp add: mm_entries_def)
  finally show "mm_count_below c' d < mm_k c" .
qed

section \<open>The loop\<close>

text \<open>The nodes visited since \<open>vt0\<close>, as offers.\<close>

definition new_nodes :: "visited_table \<Rightarrow> visited_table \<Rightarrow> int set" where
  "new_nodes vt0 vt = vt_members vt - vt_members vt0"

definition node_offers :: "('d :: linorder) distance_computer \<Rightarrow> search_params option \<Rightarrow> int set \<Rightarrow> ('d \<times> idx_t) multiset" where
  "node_offers qdis params A = image_mset (\<lambda>v. (query_dis qdis v, v)) (mset_set {v \<in> A. selected params v})"

lemma finite_new_nodes [simp]: "finite (new_nodes vt0 vt)"
  by (simp add: new_nodes_def)

lemma mset_offered_nodes:
  "mset (offered_nodes qdis params vs) = image_mset (\<lambda>v. (query_dis qdis v, v)) (filter_mset (selected params) (mset vs))"
  by (simp add: offered_nodes_def)

lemma node_offers_union:
  assumes "finite A" "distinct vs" "A \<inter> set vs = {}"
  shows "node_offers qdis params (A \<union> set vs) = node_offers qdis params A + mset (offered_nodes qdis params vs)"
proof -
  have "{v \<in> A \<union> set vs. selected params v} = {v \<in> A. selected params v} \<union> set (filter (selected params) vs)" by auto
  then have "mset_set {v \<in> A \<union> set vs. selected params v} =
      mset_set {v \<in> A. selected params v} + mset_set (set (filter (selected params) vs))"
    using assms by (simp only:) (intro mset_set_Union, auto)
  also have "mset_set (set (filter (selected params) vs)) = mset (filter (selected params) vs)"
    using assms(2) by (intro mset_set_set) simp
  finally show ?thesis by (simp add: node_offers_def offered_nodes_def)
qed

text \<open>One step of the visit: the new table, and the nodes handed on.\<close>

lemma visit_new_nodes:
  assumes "\<forall>v \<in> set vs. vt_has vt v" "vt_members vt0 \<subseteq> vt_members vt"
  shows "vt_members (mark_all vs vt) = vt_members vt \<union> set vs"
    and "new_nodes vt0 (mark_all vs vt) = new_nodes vt0 vt \<union> set (fresh vt vs)"
    and "new_nodes vt0 vt \<inter> set (fresh vt vs) = {}"
proof -
  show m: "vt_members (mark_all vs vt) = vt_members vt \<union> set vs"
    using assms(1) by (auto simp: vt_members_def vt_get_mark_all)
  have f: "set (fresh vt vs) = {v \<in> set vs. v \<notin> vt_members vt}"
    using set_fresh [OF assms(1)] by (simp add: vt_members_def)
  show "new_nodes vt0 (mark_all vs vt) = new_nodes vt0 vt \<union> set (fresh vt vs)"
    using f m assms(2) by (auto simp: new_nodes_def)
  show "new_nodes vt0 vt \<inter> set (fresh vt vs) = {}" using f by (auto simp: new_nodes_def)
qed

text \<open>The visited nodes as a multiset, after the links of a node have been visited.\<close>

lemma visited_image:
  assumes "\<forall>v \<in> set vs. vt_has vt v"
  shows "image_mset f (mset_set (vt_members (mark_all vs vt))) =
    image_mset f (mset_set (vt_members vt)) + mset (map f (fresh vt vs))"
proof -
  have fs: "set (fresh vt vs) = set vs - vt_members vt" using set_fresh [OF assms] by (auto simp: vt_members_def)
  have mem: "vt_members (mark_all vs vt) = vt_members vt \<union> set (fresh vt vs)"
    using visit_new_nodes(1) [OF assms order.refl] fs by auto
  have "mset_set (vt_members vt \<union> set (fresh vt vs)) = mset_set (vt_members vt) + mset_set (set (fresh vt vs))"
    using fs by (intro mset_set_Union) auto
  also have "mset_set (set (fresh vt vs)) = mset (fresh vt vs)"
    using distinct_fresh [OF assms] by (rule mset_set_set)
  finally show ?thesis unfolding mem by simp
qed

context distance_handler
begin

definition sfc_inv ::
    "hnsw \<Rightarrow> 'd distance_computer \<Rightarrow> nat \<Rightarrow> search_params option \<Rightarrow> visited_table \<Rightarrow> 'r \<Rightarrow> ('r, 'd) sfc_state \<Rightarrow> bool" where
  "sfc_inv h qdis level params vt0 r0 st \<longleftrightarrow>
     (case st of (vt, ndis, nstep, s) \<Rightarrow>
        cand_ok h level qdis (hs_candidates s) \<and> inv (hs_res s) \<and> vt_size vt = vt_size vt0 \<and> vt_ok vt
        \<and> vt_members vt0 \<subseteq> vt_members vt \<and> (\<forall>v \<in> new_nodes vt0 vt. node_at h level v)
        \<and> (\<exists>ps. hs_res s = offers H r0 ps \<and> mset ps = node_offers qdis params (new_nodes vt0 vt))
        \<and> heap_k H (hs_res s) = heap_k H r0)"

definition sfc_measure :: "('r, 'd) sfc_state \<Rightarrow> nat" where
  "sfc_measure st = (case st of (vt, ndis, nstep, s) \<Rightarrow> vt_unvisited vt + mm_size (hs_candidates s))"

text \<open>The state after the visit of the links of the popped candidate.\<close>

lemma sfc_visit:
  assumes g: "graph_ok h" and b: "batch_exact qdis" and sz: "ntotal h \<le> vt_size vt0"
    and I: "sfc_inv h qdis level params vt0 r0 (vt, ndis, nstep, s)"
    and pop: "mm_pop_min (hs_candidates s) = (Some (v0, d0), c)"
    and v: "visit_links qdis (add_to_heap H params) (links h v0 level) vt ndis
        (s\<lparr>hs_candidates := c, hs_threshold := threshold_of H (hs_res s)\<rparr>) = (vt', ndis', s')"
  shows "sfc_inv h qdis level params vt0 r0 (vt', ndis', nstep', s')"
    and "vt_unvisited vt' + mm_size (hs_candidates s') < vt_unvisited vt + mm_size (hs_candidates s)"
    and "vt' = mark_all (links h v0 level) vt"
    and "hs_candidates s' = push_all qdis (fresh vt (links h v0 level)) c"
proof -
  let ?vs = "links h v0 level" and ?fs = "fresh vt (links h v0 level)"
  let ?s = "s\<lparr>hs_candidates := c, hs_threshold := threshold_of H (hs_res s)\<rparr>"
  obtain ps where I': "cand_ok h level qdis (hs_candidates s)" "inv (hs_res s)" "vt_size vt = vt_size vt0" "vt_ok vt"
    "vt_members vt0 \<subseteq> vt_members vt" "\<forall>v \<in> new_nodes vt0 vt. node_at h level v"
    "hs_res s = offers H r0 ps" "mset ps = node_offers qdis params (new_nodes vt0 vt)"
    "heap_k H (hs_res s) = heap_k H r0"
    using I by (auto simp: sfc_inv_def)
  note po = cand_ok_pop [OF I'(1) pop]
  have has: "\<forall>v \<in> set ?vs. vt_has vt v"
    using links_node(2,3) [OF g po(2)] sz I'(3) by (fastforce simp: vt_has_iff)
  have nodes: "\<forall>v \<in> set ?fs. node_at h level v"
    using links_node(1) [OF g po(2)] set_fresh [OF has] by auto
  have eb: "exact_batches qdis" using b by (simp add: exact_batches_def)
  have e: "vt' = mark_all ?vs vt" "s' = one_by_one qdis (add_to_heap H params) ?fs ?s"
    using v unfolding exact_batches.visit_links_one_by_one [OF eb] by simp_all
  have hs: "handler_state_ok ?s" using I'(2) by (simp add: handler_state_ok_def)
  from add_all_to_heap [OF hs, of qdis params ?fs] e(2)
  have r: "handler_state_ok s'" "hs_res s' = offers H (hs_res s) (offered_nodes qdis params ?fs)"
    "hs_candidates s' = push_all qdis ?fs c" by auto
  show "vt' = mark_all ?vs vt" "hs_candidates s' = push_all qdis ?fs c" by (fact e(1) r(3))+
  note pa = cand_ok_push_all [OF po(1) nodes]
  note vn = visit_new_nodes [OF has I'(5)]
  have "hs_res s' = offers H r0 (ps @ offered_nodes qdis params ?fs)"
    using r(2) I'(7) by (simp add: offers_append)
  moreover have "mset (ps @ offered_nodes qdis params ?fs) = node_offers qdis params (new_nodes vt0 vt')"
    unfolding e(1) vn(2) using node_offers_union [OF finite_new_nodes distinct_fresh [OF has] vn(3), of qdis params] I'(8) by simp
  ultimately have "\<exists>ps. hs_res s' = offers H r0 ps \<and> mset ps = node_offers qdis params (new_nodes vt0 vt')" by blast
  moreover have "heap_k H (hs_res s') = heap_k H r0" using r(2) I'(9) by (simp add: offers_heap_k)
  moreover have "vt_members vt0 \<subseteq> vt_members vt'" using I'(5) vn(1) e(1) by auto
  moreover have "\<forall>v \<in> new_nodes vt0 vt'. node_at h level v" using I'(6) nodes vn(2) e(1) by auto
  moreover have "inv (hs_res s')" using r(1) by (simp add: handler_state_ok_def)
  ultimately show "sfc_inv h qdis level params vt0 r0 (vt', ndis', nstep', s')"
    using pa r(3) I'(3,4) e(1) vt_ok_mark_all by (simp add: sfc_inv_def)
  show "vt_unvisited vt' + mm_size (hs_candidates s') < vt_unvisited vt + mm_size (hs_candidates s)"
    unfolding e(1) r(3) using unvisited_mark_all [OF has] pa [THEN conjunct2, THEN conjunct2] po(6) by linarith
qed

text \<open>The three ways a step of the loop ends.\<close>

lemma sfc_body_cases:
  assumes g: "graph_ok h" and b: "batch_exact qdis" and sz: "ntotal h \<le> vt_size vt0"
    and I: "sfc_inv h qdis level params vt0 r0 (vt, ndis, nstep, s)"
  obtains (empty) "mm_size (hs_candidates s) = 0" "sfc_body h qdis H level params (vt, ndis, nstep, s) = Inr (vt, ndis, nstep, s)"
  | (enough) v0 d0 c where "mm_pop_min (hs_candidates s) = (Some (v0, d0), c)"
      "param_of params hp_check_relative_distance (check_relative_distance h)"
      "param_of params hp_efSearch (efSearch h) \<le> mm_count_below c d0"
      "sfc_body h qdis H level params (vt, ndis, nstep, s) = Inr (vt, ndis, nstep, s\<lparr>hs_candidates := c\<rparr>)"
      "sfc_inv h qdis level params vt0 r0 (vt, ndis, nstep, s\<lparr>hs_candidates := c\<rparr>)"
  | (visit) v0 d0 c vt' ndis' s' where "mm_pop_min (hs_candidates s) = (Some (v0, d0), c)"
      "visit_links qdis (add_to_heap H params) (links h v0 level) vt ndis
        (s\<lparr>hs_candidates := c, hs_threshold := threshold_of H (hs_res s)\<rparr>) = (vt', ndis', s')"
      "sfc_inv h qdis level params vt0 r0 (vt', ndis', nstep + 1, s')"
      "vt_unvisited vt' + mm_size (hs_candidates s') < vt_unvisited vt + mm_size (hs_candidates s)"
      "sfc_body h qdis H level params (vt, ndis, nstep, s) =
        (if \<not> param_of params hp_check_relative_distance (check_relative_distance h)
            \<and> nstep + 1 > param_of params hp_efSearch (efSearch h)
         then Inr (vt', ndis', nstep + 1, s') else Inl (vt', ndis', nstep + 1, s'))"
proof (cases "mm_size (hs_candidates s) = 0")
  case True
  then show thesis by (intro empty) (simp_all add: sfc_body_def)
next
  case False
  have ok: "mm_ok (hs_candidates s)" using I by (simp add: sfc_inv_def cand_ok_def)
  obtain v0 d0 c where pop: "mm_pop_min (hs_candidates s) = (Some (v0, d0), c)"
    using mm_pop_some [OF ok] False by blast
  show thesis
  proof (cases "param_of params hp_check_relative_distance (check_relative_distance h) \<and>
      param_of params hp_efSearch (efSearch h) \<le> mm_count_below c d0")
    case True
    have "cand_ok h level qdis c" using cand_ok_pop(1) [OF _ pop] I by (simp add: sfc_inv_def)
    then show thesis using False pop True I by (intro enough [OF pop]) (simp_all add: sfc_body_def sfc_inv_def)
  next
    case check: False
    let ?s = "s\<lparr>hs_candidates := c, hs_threshold := threshold_of H (hs_res s)\<rparr>"
    obtain vt' ndis' s' where v: "visit_links qdis (add_to_heap H params) (links h v0 level) vt ndis ?s = (vt', ndis', s')"
      by (metis prod_cases3)
    have e: "sfc_body h qdis H level params (vt, ndis, nstep, s) =
        (if \<not> param_of params hp_check_relative_distance (check_relative_distance h)
            \<and> nstep + 1 > param_of params hp_efSearch (efSearch h)
         then Inr (vt', ndis', nstep + 1, s') else Inl (vt', ndis', nstep + 1, s'))"
      using False pop check v by (auto simp: sfc_body_def Let_def)
    show thesis by (rule visit [OF pop v sfc_visit(1,2) [OF g b sz I pop v] e])
  qed
qed

lemma sfc_loop_total:
  assumes g: "graph_ok h" and b: "batch_exact qdis" and sz: "ntotal h \<le> vt_size vt0"
    and I: "sfc_inv h qdis level params vt0 r0 st"
  shows "\<exists>st'. iterate (sfc_body h qdis H level params) st = Some st' \<and> sfc_inv h qdis level params vt0 r0 st'"
proof (rule iterate_total [where I = "sfc_inv h qdis level params vt0 r0" and m = sfc_measure, OF I])
  fix st st' assume st: "sfc_inv h qdis level params vt0 r0 st" "sfc_body h qdis H level params st = Inl st'"
  obtain vt ndis nstep s where e: "st = (vt, ndis, nstep, s)" by (metis prod_cases4)
  from sfc_body_cases [OF g b sz st(1) [unfolded e]] st(2) e
  show "sfc_inv h qdis level params vt0 r0 st' \<and> sfc_measure st' < sfc_measure st"
    by cases (auto simp: sfc_measure_def split: if_splits)
next
  fix st st' assume st: "sfc_inv h qdis level params vt0 r0 st" "sfc_body h qdis H level params st = Inr st'"
  obtain vt ndis nstep s where e: "st = (vt, ndis, nstep, s)" by (metis prod_cases4)
  from sfc_body_cases [OF g b sz st(1) [unfolded e]] st e
  show "sfc_inv h qdis level params vt0 r0 st'"
    by cases (auto split: if_splits)
qed

end

end
