(* ===== verification/Hnsw_Reach.thy ===== *)
theory Hnsw_Reach
  imports Hnsw_Candidates_Correct
begin

text \<open>
  Which nodes \<open>search_from_candidates\<close> visits when it starts from one candidate: only nodes that
  can be reached from it, and all of them when \<open>efSearch\<close> and the capacity of the candidate heap
  are at least the number of nodes.
\<close>

definition edges :: "hnsw \<Rightarrow> nat \<Rightarrow> (int \<times> int) set" where
  "edges h l = {(a, b). b \<in> set (links h a l)}"

definition reachable :: "hnsw \<Rightarrow> nat \<Rightarrow> int \<Rightarrow> int set" where
  "reachable h l v = {w. (v, w) \<in> (edges h l)\<^sup>*}"

lemma reachable_self [simp]: "v \<in> reachable h l v"
  by (simp add: reachable_def)

lemma reachable_step: "u \<in> reachable h l v \<Longrightarrow> w \<in> set (links h u l) \<Longrightarrow> w \<in> reachable h l v"
  by (auto simp: reachable_def edges_def intro: rtrancl_into_rtrancl)

lemma closed_contains_reachable:
  assumes "v \<in> S" "\<forall>u \<in> S. set (links h u l) \<subseteq> S"
  shows "reachable h l v \<subseteq> S"
proof
  fix w assume "w \<in> reachable h l v"
  then have "(v, w) \<in> (edges h l)\<^sup>*" by (simp add: reachable_def)
  then show "w \<in> S" by induction (use assms in \<open>auto simp: edges_def\<close>)
qed

lemma reachable_node:
  assumes "graph_ok h" "node_at h l v" "w \<in> reachable h l v"
  shows "node_at h l w"
proof -
  have "(v, w) \<in> (edges h l)\<^sup>*" using assms(3) by (simp add: reachable_def)
  then show ?thesis by induction (use assms(2) links_node(1) [OF assms(1)] in \<open>auto simp: edges_def\<close>)
qed

context distance_handler
begin

text \<open>Only reachable nodes are visited.\<close>

definition reach_inv :: "hnsw \<Rightarrow> nat \<Rightarrow> int \<Rightarrow> ('r, 'd) sfc_state \<Rightarrow> bool" where
  "reach_inv h level v0 st \<longleftrightarrow> (case st of (vt, ndis, nstep, s) \<Rightarrow>
     vt_members vt \<subseteq> reachable h level v0 \<and> (\<forall>p \<in># mm_valid (hs_candidates s). snd p \<in> reachable h level v0))"

lemma valid_push_all: "mm_ok c \<Longrightarrow> \<forall>v \<in> set vs. 0 \<le> v \<Longrightarrow>
    mm_valid (push_all qdis vs c) \<subseteq># mm_valid c + mset (map (\<lambda>v. (query_dis qdis v, v)) vs)"
proof (induction vs arbitrary: c)
  case (Cons v vs)
  then have v: "v \<noteq> -1" by auto
  note p = mm_push_ok [OF Cons.prems(1) v, of "query_dis qdis v"]
  have "mm_valid (push_all qdis vs (mm_push c v (query_dis qdis v))) \<subseteq>#
      mm_valid (mm_push c v (query_dis qdis v)) + mset (map (\<lambda>v. (query_dis qdis v, v)) vs)"
    using Cons p(1) by simp
  also have "\<dots> \<subseteq># add_mset (query_dis qdis v, v) (mm_valid c) + mset (map (\<lambda>v. (query_dis qdis v, v)) vs)"
    using p(4) by (rule subset_mset.add_right_mono)
  finally show ?case by simp
qed simp

lemma reach_inv_visit:
  assumes g: "graph_ok h" and b: "batch_exact qdis" and sz: "ntotal h \<le> vt_size vt0"
    and I: "sfc_inv h qdis level params vt0 r0 (vt, ndis, nstep, s)" and R: "reach_inv h level n (vt, ndis, nstep, s)"
    and pop: "mm_pop_min (hs_candidates s) = (Some (v0, d0), c)"
    and v: "visit_links qdis (add_to_heap H params) (links h v0 level) vt ndis
        (s\<lparr>hs_candidates := c, hs_threshold := threshold_of H (hs_res s)\<rparr>) = (vt', ndis', s')"
  shows "reach_inv h level n (vt', ndis', nstep', s')"
proof -
  let ?vs = "links h v0 level" and ?fs = "fresh vt (links h v0 level)"
  have co: "cand_ok h level qdis (hs_candidates s)" and vs: "vt_size vt = vt_size vt0"
    and sub: "vt_members vt0 \<subseteq> vt_members vt" using I by (auto simp: sfc_inv_def)
  note po = cand_ok_pop [OF co pop]
  note e = sfc_visit(3,4) [OF g b sz I pop v]
  have has: "\<forall>v \<in> set ?vs. vt_has vt v"
    using links_node(2,3) [OF g po(2)] sz vs by (fastforce simp: vt_has_iff)
  have v0: "v0 \<in> reachable h level n" using R po(7) by (auto simp: reach_inv_def)
  have new: "set ?vs \<subseteq> reachable h level n" using reachable_step [OF v0] by blast
  have "vt_members vt' \<subseteq> reachable h level n"
    using visit_new_nodes(1) [OF has sub] new R e(1) by (auto simp: reach_inv_def)
  moreover have "snd p \<in> reachable h level n" if p: "p \<in># mm_valid (hs_candidates s')" for p
  proof -
    have "mm_ok c" "\<forall>v \<in> set ?fs. 0 \<le> v"
      using po(1) set_fresh [OF has] links_node(2) [OF g po(2)] by (auto simp: cand_ok_def)
    from mset_subset_eqD [OF valid_push_all [OF this, of qdis]] p e(2)
    have "p \<in># mm_valid c \<or> snd p \<in> set ?fs" by (cases p) auto
    then show ?thesis using R po(7) new set_fresh [OF has] by (auto simp: reach_inv_def)
  qed
  ultimately show ?thesis by (simp add: reach_inv_def)
qed

text \<open>Nothing is dropped, and what has been visited is a candidate or has all its links visited.\<close>

definition exact_inv :: "hnsw \<Rightarrow> 'd distance_computer \<Rightarrow> nat \<Rightarrow> ('r, 'd) sfc_state \<Rightarrow> bool" where
  "exact_inv h qdis level st \<longleftrightarrow> (case st of (vt, ndis, nstep, s) \<Rightarrow>
     ntotal h \<le> mm_n (hs_candidates s) \<and> mm_k (hs_candidates s) \<le> card (vt_members vt)
     \<and> vt_members vt \<subseteq> {0..<int (ntotal h)}
     \<and> (\<forall>v \<in> vt_members vt. (query_dis qdis v, v) \<in># mm_valid (hs_candidates s)
          \<or> set (links h v level) \<subseteq> vt_members vt))"

lemma card_nodes_le: "S \<subseteq> {0..<int n} \<Longrightarrow> card S \<le> n"
  using card_mono [of "{0..<int n}" S] by simp

lemma exact_inv_visit:
  assumes g: "graph_ok h" and b: "batch_exact qdis" and sz: "ntotal h \<le> vt_size vt0"
    and I: "sfc_inv h qdis level params vt0 r0 (vt, ndis, nstep, s)" and E: "exact_inv h qdis level (vt, ndis, nstep, s)"
    and pop: "mm_pop_min (hs_candidates s) = (Some (v0, d0), c)"
    and v: "visit_links qdis (add_to_heap H params) (links h v0 level) vt ndis
        (s\<lparr>hs_candidates := c, hs_threshold := threshold_of H (hs_res s)\<rparr>) = (vt', ndis', s')"
  shows "exact_inv h qdis level (vt', ndis', nstep', s')"
proof -
  let ?vs = "links h v0 level" and ?fs = "fresh vt (links h v0 level)"
  have co: "cand_ok h level qdis (hs_candidates s)" and vs: "vt_size vt = vt_size vt0"
    and sub: "vt_members vt0 \<subseteq> vt_members vt" using I by (auto simp: sfc_inv_def)
  note po = cand_ok_pop [OF co pop]
  note e = sfc_visit(3,4) [OF g b sz I pop v]
  have ex: "ntotal h \<le> mm_n c" "mm_k c \<le> card (vt_members vt)" "vt_members vt \<subseteq> {0..<int (ntotal h)}"
    "\<forall>v \<in> vt_members vt. (query_dis qdis v, v) \<in># mm_valid (hs_candidates s) \<or> set (links h v level) \<subseteq> vt_members vt"
    using E po(4,5) by (simp_all add: exact_inv_def)
  have has: "\<forall>v \<in> set ?vs. vt_has vt v"
    using links_node(2,3) [OF g po(2)] sz vs by (fastforce simp: vt_has_iff)
  note vn = visit_new_nodes [OF has sub]
  have fs: "set ?fs = set ?vs - vt_members vt" using set_fresh [OF has] by (auto simp: vt_members_def)
  have mem: "vt_members vt' = vt_members vt \<union> set ?fs" using vn(1) fs e(1) by auto
  then have range: "vt_members vt' \<subseteq> {0..<int (ntotal h)}"
    using ex(3) fs links_node(2,3) [OF g po(2)] by auto
  have "card (vt_members vt') = card (vt_members vt) + length ?fs"
    unfolding mem using fs distinct_card [OF distinct_fresh [OF has]] by (subst card_Un_disjoint) auto
  then have room: "mm_k c + length ?fs \<le> card (vt_members vt')" using ex(2) by simp
  then have room': "mm_k c + length ?fs \<le> mm_n c" using card_nodes_le [OF range] ex(1) by linarith
  have pos: "\<forall>v \<in> set ?fs. 0 \<le> v" using fs links_node(2) [OF g po(2)] by auto
  have ok: "mm_ok c" using po(1) by (simp add: cand_ok_def)
  note pr = push_all_room [OF ok room' pos, of qdis]
  have n': "mm_n (hs_candidates s') = mm_n c"
    using cand_ok_push_all [OF po(1), of ?fs] fs links_node(1) [OF g po(2)] e(2) by auto
  have "(query_dis qdis u, u) \<in># mm_valid (hs_candidates s') \<or> set (links h u level) \<subseteq> vt_members vt'"
    if u: "u \<in> vt_members vt'" for u
  proof -
    consider "u \<in> set ?fs" | "u = v0" | "u \<in> vt_members vt" "u \<noteq> v0" using u mem by auto
    then show ?thesis
    proof cases
      case 1
      then show ?thesis using pr e(2) by auto
    next
      case 2
      then show ?thesis using vn(1) e(1) by auto
    next
      case 3
      then have "(query_dis qdis u, u) \<in># mm_valid c \<or> set (links h u level) \<subseteq> vt_members vt"
        using ex(4) po(7) by auto
      then show ?thesis using pr e(2) mem by auto
    qed
  qed
  then show ?thesis using ex(1) room n' range pr e(2) by (simp add: exact_inv_def)
qed

lemma sfc_loop_visits:
  assumes g: "graph_ok h" and b: "batch_exact qdis" and sz: "ntotal h \<le> vt_size vt0"
    and I: "sfc_inv h qdis level params vt0 r0 st" and R: "reach_inv h level n st"
    and it: "iterate (sfc_body h qdis H level params) st = Some (vt', ndis', nstep', s')"
  shows "vt_members vt' \<subseteq> reachable h level n"
    and "exact_inv h qdis level st \<Longrightarrow> param_of params hp_check_relative_distance (check_relative_distance h) \<Longrightarrow>
      ntotal h \<le> param_of params hp_efSearch (efSearch h) \<Longrightarrow>
      \<forall>u \<in> vt_members vt'. set (links h u level) \<subseteq> vt_members vt'"
proof -
  let ?I = "\<lambda>st. sfc_inv h qdis level params vt0 r0 st \<and> reach_inv h level n st"
  have "(\<lambda>(vt, ndis, nstep, s). vt_members vt \<subseteq> reachable h level n) (vt', ndis', nstep', s')"
  proof (rule iterate_partial [where I = ?I, OF it])
    show "?I st" using I R by simp
  next
    fix st st' assume st: "?I st" "sfc_body h qdis H level params st = Inl st'"
    obtain vt ndis nstep s where e: "st = (vt, ndis, nstep, s)" by (metis prod_cases4)
    note st' = st [unfolded e]
    from sfc_body_cases [OF g b sz conjunct1 [OF st'(1)]] st'(2)
    show "?I st'"
      by cases (use reach_inv_visit [OF g b sz conjunct1 [OF st'(1)] conjunct2 [OF st'(1)]] in \<open>auto split: if_splits\<close>)
  next
    fix st r assume st: "?I st" "sfc_body h qdis H level params st = Inr r"
    obtain vt ndis nstep s where e: "st = (vt, ndis, nstep, s)" by (metis prod_cases4)
    note st' = st [unfolded e]
    show "(\<lambda>(vt, ndis, nstep, s). vt_members vt \<subseteq> reachable h level n) r"
    proof (cases rule: sfc_body_cases [OF g b sz conjunct1 [OF st'(1)], case_names empty enough visit])
      case (visit v0 d0 c vt' ndis' s')
      then show ?thesis
        using reach_inv_visit [OF g b sz conjunct1 [OF st'(1)] conjunct2 [OF st'(1)] visit(1,2), of "nstep + 1"] st'(2)
        by (auto simp: reach_inv_def split: if_splits)
    qed (use st' in \<open>auto simp: reach_inv_def\<close>)
  qed
  then show "vt_members vt' \<subseteq> reachable h level n" by simp
  assume E: "exact_inv h qdis level st"
    and chk: "param_of params hp_check_relative_distance (check_relative_distance h)"
    and ef: "ntotal h \<le> param_of params hp_efSearch (efSearch h)"
  let ?J = "\<lambda>st. sfc_inv h qdis level params vt0 r0 st \<and> exact_inv h qdis level st"
  let ?Q = "\<lambda>(vt, ndis, nstep, s :: ('r, 'd) heap_state). \<forall>u \<in> vt_members vt. set (links h u level) \<subseteq> vt_members vt"
  have "?Q (vt', ndis', nstep', s')"
  proof (rule iterate_partial [where I = ?J, OF it])
    show "?J st" using I E by simp
  next
    fix st st' assume st: "?J st" "sfc_body h qdis H level params st = Inl st'"
    obtain vt ndis nstep s where e: "st = (vt, ndis, nstep, s)" by (metis prod_cases4)
    note st' = st [unfolded e]
    from sfc_body_cases [OF g b sz conjunct1 [OF st'(1)]] st'(2)
    show "?J st'"
      by cases (use exact_inv_visit [OF g b sz conjunct1 [OF st'(1)] conjunct2 [OF st'(1)]] in \<open>auto split: if_splits\<close>)
  next
    fix st r assume st: "?J st" "sfc_body h qdis H level params st = Inr r"
    obtain vt ndis nstep s where e: "st = (vt, ndis, nstep, s)" by (metis prod_cases4)
    note st' = st [unfolded e]
    have co: "cand_ok h level qdis (hs_candidates s)" using st'(1) by (simp add: sfc_inv_def)
    show "?Q r"
    proof (cases rule: sfc_body_cases [OF g b sz conjunct1 [OF st'(1)], case_names empty enough visit])
      case empty
      then have "mm_valid (hs_candidates s) = {#}"
        using co mm_ok_simps(7) [of "hs_candidates s"] by (simp add: cand_ok_def mm_size_def)
      then show ?thesis using st' empty by (auto simp: exact_inv_def)
    next
      case (enough v0 d0 c)
      have "mm_k (hs_candidates s) \<le> ntotal h"
        using st'(1) card_nodes_le [of "vt_members vt" "ntotal h"] by (auto simp: exact_inv_def)
      then show ?thesis using cand_ok_pop(8) [OF co enough(1)] enough(3) ef by linarith
    next
      case visit
      then show ?thesis using st'(2) chk by simp
    qed
  qed
  then show "\<forall>u \<in> vt_members vt'. set (links h u level) \<subseteq> vt_members vt'" by simp
qed

text \<open>\<open>search_from_candidates\<close> from candidates that are all valid.\<close>

lemma search_from_candidates_correct:
  assumes g: "graph_ok h" and b: "batch_exact qdis" and sz: "ntotal h \<le> vt_size vt" and vt: "vt_ok vt"
    and iv: "inv res" and c: "cand_ok h level qdis c" and full: "mm_k c = mm_size c"
  defines "ids \<equiv> map (\<lambda>j. mm_ids c ! j) [0..<mm_size c]"
  shows "\<exists>r' c' vt' stats' nres' ps.
      search_from_candidates h qdis H res c vt stats level nres params = Some (Inr (r', c', vt', stats', nres'))
    \<and> inv r' \<and> heap_k H r' = heap_k H res \<and> vt_ok vt' \<and> vt_size vt' = vt_size vt
    \<and> vt_members (mark_all ids vt) \<subseteq> vt_members vt'
    \<and> (\<forall>v \<in> new_nodes (mark_all ids vt) vt'. node_at h level v)
    \<and> r' = offers H res ps
    \<and> mset ps = {#p \<in># mm_valid c. selected params (snd p)#} + node_offers qdis params (new_nodes (mark_all ids vt) vt')"
proof -
  have ok: "mm_ok c" using c by (simp add: cand_ok_def)
  note mm = mm_ok_simps [OF ok]
  have "size (mm_entries c) = mm_k c" using mm(2,8) by (simp add: mm_entries_def)
  then have all: "mm_valid c = mm_entries c"
    using full mm(7) live_subset [of "mm_entries c"]
    by (metis mm_size_def mm_valid_def mset_subset_size order.irrefl subset_mset.le_neq_trans)
  have ent: "mm_entries c = mset (map (\<lambda>j. (mm_dis c ! j, mm_ids c ! j)) [0..<mm_size c])"
    unfolding mm_entries_def using mm full
    by (intro arg_cong [of _ _ mset] nth_equalityI) (auto simp: pairs_def)
  have pos: "\<forall>j < 0 + mm_size c. 0 \<le> mm_ids c ! j"
  proof (intro allI impI)
    fix j assume "j < 0 + mm_size c"
    then have "(mm_dis c ! j, mm_ids c ! j) \<in># mm_valid c" unfolding all ent by auto
    then show "0 \<le> mm_ids c ! j" using c by (auto simp: cand_ok_def node_at_def)
  qed
  from init_candidates_offers [OF pos iv refl, of params vt] obtain r1 where
    i: "init_candidates H params c 0 (mm_size c) (res, threshold_of H res, vt) = Inr (r1, threshold_of H r1, mark_all ids vt)"
    "inv r1" "r1 = offers H res (filter (\<lambda>p. selected params (snd p)) (map (\<lambda>j. (mm_dis c ! j, mm_ids c ! j)) [0..<mm_size c]))"
    by (auto simp: ids_def)
  let ?vt = "mark_all ids vt"
  let ?st = "(?vt, 0, 0, \<lparr>hs_res = r1, hs_threshold = threshold_of H r1, hs_candidates = c, hs_nres = nres\<rparr>)"
  have "r1 = offers H r1 [] \<and> mset [] = node_offers qdis params (new_nodes ?vt ?vt)"
    by (simp add: offers_def node_offers_def new_nodes_def)
  then have I: "sfc_inv h qdis level params ?vt r1 ?st"
    using c i(2) vt_ok_mark_all [OF vt] by (auto simp: sfc_inv_def new_nodes_def)
  have sz': "ntotal h \<le> vt_size ?vt" using sz by simp
  from sfc_loop_total [OF g b sz' I] obtain vt' ndis nstep s where
    l: "iterate (sfc_body h qdis H level params) ?st = Some (vt', ndis, nstep, s)"
    "sfc_inv h qdis level params ?vt r1 (vt', ndis, nstep, s)" by (metis prod_cases4)
  then obtain ps where ps: "hs_res s = offers H r1 ps" "mset ps = node_offers qdis params (new_nodes ?vt vt')"
    "inv (hs_res s)" "vt_ok vt'" "vt_size vt' = vt_size ?vt" "vt_members ?vt \<subseteq> vt_members vt'"
    "\<forall>v \<in> new_nodes ?vt vt'. node_at h level v" "heap_k H (hs_res s) = heap_k H r1"
    by (auto simp: sfc_inv_def)
  let ?ps = "filter (\<lambda>p. selected params (snd p)) (map (\<lambda>j. (mm_dis c ! j, mm_ids c ! j)) [0..<mm_size c]) @ ps"
  have "hs_res s = offers H res ?ps" using ps(1) i(3) by (simp add: offers_append)
  moreover have "mset ?ps = {#p \<in># mm_valid c. selected params (snd p)#} + node_offers qdis params (new_nodes ?vt vt')"
    unfolding all ent using ps(2) by (simp add: mset_filter del: mset_map)
  moreover have "heap_k H (hs_res s) = heap_k H res" using ps(8) i(3) by (simp add: offers_heap_k)
  moreover obtain stats' where
    "search_from_candidates h qdis H res c vt stats level nres params =
       Some (Inr (hs_res s, hs_candidates s, vt', stats', hs_nres s))"
    using i(1) l(1) by (auto simp: search_from_candidates_def Let_def)
  moreover note ps(3-7)
  ultimately show ?thesis unfolding vt_size_mark_all
    by (intro exI [of _ "hs_res s"] exI [of _ "hs_candidates s"] exI [of _ vt'] exI [of _ stats']
        exI [of _ "hs_nres s"] exI [of _ ?ps] conjI)
qed

end

end
