(* ===== verification/Hnsw_Search.thy ===== *)
theory Hnsw_Search
  imports Hnsw_Reach Priority_Queue Top_K
begin

text \<open>
  The entry points of the search (\<open>HNSW.cpp\<close>): \<open>search_from_candidate_unbounded\<close>,
  \<open>HNSW::search\<close> and \<open>HNSW::search_level_0\<close>. The visited table is the caller's; each search
  leaves it to the next one as \<open>advance()\<close> does.
\<close>

section \<open>Unbounded candidate queue\<close>

text \<open>The local \<open>add_to_heap\<close>: the state is \<open>top_candidates\<close> and \<open>candidates\<close>.\<close>

definition add_unbounded ::
    "nat \<Rightarrow> idx_t \<Rightarrow> 'd \<Rightarrow> (('d :: linorder) \<times> int) list \<times> ('d \<times> int) list \<Rightarrow> ('d \<times> int) list \<times> ('d \<times> int) list" where
  "add_unbounded ef idx dis q =
     (case q of (top_candidates, candidates) \<Rightarrow>
        if fst (hd top_candidates) > dis \<or> length top_candidates < ef then
          let candidates' = pq_push pair_greater (dis, idx) candidates;
              top' = pq_push pair_less (dis, idx) top_candidates
          in (if length top' > ef then tl top' else top', candidates')
        else q)"

type_synonym 'd unb_state = "visited_table \<times> nat \<times> nat \<times> ('d \<times> int) list \<times> ('d \<times> int) list"

definition unb_body ::
    "hnsw \<Rightarrow> ('d :: linorder) distance_computer \<Rightarrow> nat \<Rightarrow> 'd unb_state \<Rightarrow> 'd unb_state + 'd unb_state" where
  "unb_body h qdis ef st =
     (case st of (vt, ndis, nhops, top_candidates, candidates) \<Rightarrow>
        if candidates = [] then Inr st
        else
          let (d0, v0) = hd candidates in
          if d0 > fst (hd top_candidates) then Inr st
          else
            let (vt', ndis', top', cand') =
                  visit_links qdis (add_unbounded ef) (links h v0 0) vt ndis (top_candidates, tl candidates)
            in Inl (vt', ndis', nhops + 1, top', cand'))"

definition search_from_candidate_unbounded ::
    "hnsw \<Rightarrow> ('d :: linorder) \<times> storage_idx_t \<Rightarrow> 'd distance_computer \<Rightarrow> nat \<Rightarrow> visited_table \<Rightarrow> hnsw_stats \<Rightarrow>
     (('d \<times> int) list \<times> visited_table \<times> hnsw_stats) option" where
  "search_from_candidate_unbounded h node qdis ef vt stats =
     (case iterate (unb_body h qdis ef)
             (vt_set vt (snd node), 0, st_nhops stats, pq_push pair_less node [], pq_push pair_greater node []) of
        None \<Rightarrow> None
      | Some (vt', ndis, nhops, top_candidates, candidates) \<Rightarrow>
          Some (top_candidates, vt',
            stats\<lparr>st_nhops := nhops, st_n1 := st_n1 stats + 1,
                  st_n2 := (if length candidates = 0 then st_n2 stats + 1 else st_n2 stats),
                  st_ndis := st_ndis stats + ndis\<rparr>))"

section \<open>\<open>HNSW::search\<close>\<close>

definition extract_k :: "('r, 'd) result_handler \<Rightarrow> 'r \<Rightarrow> nat" where
  "extract_k H res = (case heap_k H res of Some k \<Rightarrow> k | None \<Rightarrow> 1)"

text \<open>\<open>MinimaxHeap candidates(ef); candidates.push(nearest, d_nearest)\<close>; the initial array
  contents are never read.\<close>

definition start_candidates :: "nat \<Rightarrow> storage_idx_t \<Rightarrow> ('d :: linorder) \<Rightarrow> 'd minimax_heap" where
  "start_candidates ef nearest d_nearest = mm_push (mm_new ef d_nearest) nearest d_nearest"

definition add_all_results :: "('r, 'd) result_handler \<Rightarrow> 'r \<Rightarrow> ('d \<times> int) list \<Rightarrow> 'r" where
  "add_all_results H res tops = foldl (\<lambda>r p. fst (add_result H r (fst p) (snd p))) res tops"

definition hnsw_search ::
    "hnsw \<Rightarrow> ('d :: linorder) distance_computer \<Rightarrow> ('r, 'd) result_handler \<Rightarrow> 'r \<Rightarrow> visited_table \<Rightarrow>
     search_params option \<Rightarrow> (hnsw_stats \<times> 'r \<times> visited_table) result option" where
  "hnsw_search h qdis H res vt params =
     (if entry_point h = -1 then Some (Inr (stats_reset, res, vt))
      else
        let k = extract_k H res;
            bounded_queue = param_of params hp_bounded_queue (search_bounded_queue h);
            ef_search = param_of params hp_efSearch (efSearch h);
            ef = max ef_search k
        in case greedy_descent h qdis (levels_down (max_level h) 1)
                  ((entry_point h, query_dis qdis (entry_point h)), stats_reset) of
             None \<Rightarrow> None
           | Some ((nearest, d_nearest), stats) \<Rightarrow>
               if bounded_queue then
                 (case search_from_candidates h qdis H res (start_candidates ef nearest d_nearest) vt stats 0 0 params of
                    None \<Rightarrow> None
                  | Some (Inl e) \<Rightarrow> Some (Inl e)
                  | Some (Inr (r, c, vt', stats', nres)) \<Rightarrow> Some (Inr (stats', r, vt_advance vt')))
               else
                 (case search_from_candidate_unbounded h (d_nearest, nearest) qdis ef vt stats of
                    None \<Rightarrow> None
                  | Some (top_candidates, vt', stats') \<Rightarrow>
                      let top' = drop (length top_candidates - k) top_candidates
                      in Some (Inr (stats', add_all_results H res top', vt_advance vt'))))"

section \<open>\<open>HNSW::search_level_0\<close>\<close>

text \<open>Search type 1: one search per entry point, skipping those already visited.\<close>

fun search_each ::
    "hnsw \<Rightarrow> ('d :: linorder) distance_computer \<Rightarrow> ('r, 'd) result_handler \<Rightarrow> nat \<Rightarrow> search_params option \<Rightarrow>
     (storage_idx_t \<times> 'd) list \<Rightarrow> nat \<Rightarrow> 'r \<times> visited_table \<times> hnsw_stats \<Rightarrow>
     ('r \<times> visited_table \<times> hnsw_stats) result option" where
  "search_each h qdis H candidates_size params [] nres st = Some (Inr st)"
| "search_each h qdis H candidates_size params ((cj, dj) # nearest) nres (res, vt, stats) =
     (if cj < 0 then Some (Inr (res, vt, stats))
      else if vt_get vt cj then search_each h qdis H candidates_size params nearest nres (res, vt, stats)
      else
        (case search_from_candidates h qdis H res (start_candidates candidates_size cj dj) vt stats 0 nres params of
           None \<Rightarrow> None
         | Some (Inl e) \<Rightarrow> Some (Inl e)
         | Some (Inr (res', c, vt', stats', nres')) \<Rightarrow>
             search_each h qdis H candidates_size params nearest (min nres' candidates_size) (res', vt', stats')))"

text \<open>Search type 2: all entry points go into one candidate heap.\<close>

fun push_entries :: "(storage_idx_t \<times> 'd) list \<Rightarrow> ('d :: linorder) minimax_heap \<Rightarrow> 'd minimax_heap" where
  "push_entries [] c = c"
| "push_entries ((cj, dj) # nearest) c = (if cj < 0 then c else push_entries nearest (mm_push c cj dj))"

definition search_level_0 ::
    "hnsw \<Rightarrow> ('d :: linorder) distance_computer \<Rightarrow> ('r, 'd) result_handler \<Rightarrow> 'r \<Rightarrow>
     (storage_idx_t \<times> 'd) list \<Rightarrow> nat \<Rightarrow> hnsw_stats \<Rightarrow> visited_table \<Rightarrow> search_params option \<Rightarrow> 'd \<Rightarrow>
     ('r \<times> visited_table \<times> hnsw_stats) result option" where
  "search_level_0 h qdis H res nearest search_type search_stats vt params zero =
     (let ef_search = param_of params hp_efSearch (efSearch h);
          k = extract_k H res;
          nprobe = length nearest
      in if search_type = 1 then
           search_each h qdis H (max ef_search k) params nearest 0 (res, vt, search_stats)
         else if search_type = 2 then
           let candidates_size = max (max ef_search k) nprobe;
               candidates = push_entries nearest (mm_new candidates_size zero)
           in (case search_from_candidates h qdis H res candidates vt search_stats 0 0 params of
                 None \<Rightarrow> None
               | Some (Inl e) \<Rightarrow> Some (Inl e)
               | Some (Inr (r, c, vt', stats', nres)) \<Rightarrow> Some (Inr (r, vt', stats')))
         else Some (Inr (res, vt, search_stats)))"

section \<open>The bounded search\<close>

lemma start_candidates_ok:
  assumes "1 \<le> ef" "node_at h l v"
  shows "cand_ok h l qdis (start_candidates ef v (query_dis qdis v))"
    and "mm_k (start_candidates ef v (query_dis qdis v)) = 1" "mm_size (start_candidates ef v (query_dis qdis v)) = 1"
    and "mm_n (start_candidates ef v (query_dis qdis v)) = ef"
    and "mm_valid (start_candidates ef v (query_dis qdis v)) = {#(query_dis qdis v, v)#}"
    and "mm_ids (start_candidates ef v (query_dis qdis v)) ! 0 = v"
proof -
  let ?d = "query_dis qdis v" and ?c = "start_candidates ef v (query_dis qdis v)"
  note n = mm_ok_new [OF assms(1), of ?d]
  have r: "mm_k (mm_new ef ?d) < mm_n (mm_new ef ?d)" using assms(1) by (simp add: mm_new_def)
  have v: "v \<noteq> -1" using assms(2) by (auto simp: node_at_def)
  note p = mm_push_room [OF n(1) r, of v ?d]
  have ok: "mm_ok ?c" using p(2) v by (simp add: start_candidates_def)
  have ent: "mm_entries ?c = {#(?d, v)#}" using p(1) n(2) by (simp add: start_candidates_def)
  then show va: "mm_valid ?c = {#(?d, v)#}" using v by (simp add: mm_valid_def live_def)
  then show "cand_ok h l qdis ?c" using ok assms(2) by (simp add: cand_ok_def)
  show k: "mm_k ?c = 1" using p(4) by (simp add: start_candidates_def mm_new_def)
  show "mm_size ?c = 1" using va mm_ok_simps(7) [OF ok] by (simp add: mm_size_def)
  show "mm_n ?c = ef" using p(3) by (simp add: start_candidates_def mm_new_def)
  note m = mm_ok_simps [OF ok]
  have "take 1 (pairs (mm_dis ?c, mm_ids ?c)) = [(mm_dis ?c ! 0, mm_ids ?c ! 0)]"
    using m(1,4,5) by (cases "mm_dis ?c"; cases "mm_ids ?c") (auto simp: pairs_def)
  then show "mm_ids ?c ! 0 = v" using ent k by (simp add: mm_entries_def)
qed

text \<open>A graph with a usable entry point, and a visited table with nothing in it.\<close>

definition entry_ok :: "hnsw \<Rightarrow> bool" where
  "entry_ok h \<longleftrightarrow> entry_point h = -1 \<or> (0 \<le> max_level h \<and> node_at h (nat (max_level h)) (entry_point h))"

definition vt_clear :: "hnsw \<Rightarrow> visited_table \<Rightarrow> bool" where
  "vt_clear h vt \<longleftrightarrow> vt_ok vt \<and> vt_members vt = {} \<and> ntotal h \<le> vt_size vt"

lemma vt_clear_advance: "vt_ok vt \<Longrightarrow> ntotal h \<le> vt_size vt \<Longrightarrow> vt_clear h (vt_advance vt)"
  by (simp add: vt_clear_def vt_ok_advance vt_members_def vt_get_advance)

lemma levels_down_desc: "sorted_wrt (\<ge>) (levels_down a b)"
proof -
  have "sorted_wrt (\<ge>) (rev [b..a])" by (simp add: sorted_wrt_rev)
  then show ?thesis unfolding levels_down_def by (simp add: sorted_wrt_map) (auto elim: sorted_wrt_mono_rel [rotated])
qed

lemma set_levels_down: "0 \<le> b \<Longrightarrow> l \<in> set (levels_down a b) \<longleftrightarrow> b \<le> int l \<and> int l \<le> a"
  by (force simp: levels_down_def)

lemma search_descent:
  assumes "graph_ok h" "batch_exact qdis" "entry_ok h" "entry_point h \<noteq> -1"
  shows "\<exists>n st. greedy_descent h qdis (levels_down (max_level h) 1)
      ((entry_point h, query_dis qdis (entry_point h)), stats_reset) = Some ((n, query_dis qdis n), st)
    \<and> node_at h 0 n \<and> query_dis qdis n \<le> query_dis qdis (entry_point h)"
proof -
  let ?ls = "levels_down (max_level h) 1" and ?e = "entry_point h"
  have e: "0 \<le> max_level h" "node_at h (nat (max_level h)) ?e" using assms(3,4) by (auto simp: entry_ok_def)
  have "\<forall>l \<in> set ?ls. node_at h l ?e \<or> l \<le> 0"
    using e node_at_mono by (auto simp: set_levels_down)
  from greedy_descent_correct [OF assms(1,2) this node_at_mono [OF e(2)] levels_down_desc, of stats_reset]
  obtain n st where n: "greedy_descent h qdis ?ls ((?e, query_dis qdis ?e), stats_reset) = Some ((n, query_dis qdis n), st)"
    "query_dis qdis n \<le> query_dis qdis ?e" "if ?ls = [] then n = ?e else node_at h (last ?ls) n" by auto
  have "node_at h 0 n" using n(3) node_at_mono e(2) by (auto split: if_splits)
  then show ?thesis using n by blast
qed

context distance_handler
begin

lemma bounded_search_correct:
  assumes g: "graph_ok h" and b: "batch_exact qdis" and e: "entry_ok h" "entry_point h \<noteq> -1"
    and vt: "vt_clear h vt" and iv: "inv res" and k: "0 < extract_k H res"
    and bq: "param_of params hp_bounded_queue (search_bounded_queue h)"
  shows "\<exists>stats r vt' n V ps.
      hnsw_search h qdis H res vt params = Some (Inr (stats, r, vt'))
    \<and> vt_clear h vt' \<and> inv r
    \<and> node_at h 0 n \<and> query_dis qdis n \<le> query_dis qdis (entry_point h)
    \<and> n \<in> V \<and> V \<subseteq> reachable h 0 n
    \<and> r = offers H res ps \<and> mset ps = node_offers qdis params V
    \<and> (param_of params hp_check_relative_distance (check_relative_distance h) \<longrightarrow>
         ntotal h \<le> param_of params hp_efSearch (efSearch h) \<longrightarrow> V = reachable h 0 n)"
proof -
  from search_descent [OF g b e] obtain n st where
    n: "greedy_descent h qdis (levels_down (max_level h) 1)
      ((entry_point h, query_dis qdis (entry_point h)), stats_reset) = Some ((n, query_dis qdis n), st)"
    "node_at h 0 n" "query_dis qdis n \<le> query_dis qdis (entry_point h)" by blast
  define ef where "ef = max (param_of params hp_efSearch (efSearch h)) (extract_k H res)"
  have ef: "1 \<le> ef" using k by (simp add: ef_def)
  let ?c = "start_candidates ef n (query_dis qdis n)"
  note sc = start_candidates_ok [OF ef n(2), of qdis]
  have vt': "ntotal h \<le> vt_size vt" "vt_ok vt" "vt_members vt = {}" using vt by (auto simp: vt_clear_def)
  have full: "mm_k ?c = mm_size ?c" using sc by simp
  have ids: "map (\<lambda>j. mm_ids ?c ! j) [0..<mm_size ?c] = [n]" using sc(3,6) by simp
  define vt1 where "vt1 = vt_set vt n"
  have has: "vt_has vt n" using n(2) vt'(1) by (auto simp: node_at_def vt_has_iff)
  then have m1: "vt_members vt1 = {n}" using vt'(3) by (simp add: vt1_def vt_members_set)
  obtain r1 where i: "init_candidates H params ?c 0 (mm_size ?c) (res, threshold_of H res, vt) = Inr (r1, threshold_of H r1, vt1)"
    "inv r1" "r1 = offers H res (filter (\<lambda>p. selected params (snd p)) [(query_dis qdis n, n)])"
  proof -
    have "mm_dis ?c ! 0 = query_dis qdis n"
    proof -
      have "(mm_dis ?c ! 0, mm_ids ?c ! 0) \<in># mm_entries ?c"
        using sc(1,2) mm_ok_simps [of ?c] unfolding mm_entries_def cand_ok_def
        by (auto simp: in_set_conv_nth pairs_def intro!: exI [of _ 0])
      then have "(mm_dis ?c ! 0, n) \<in># mm_valid ?c" using sc(6) n(2) by (auto simp: mm_valid_def live_def node_at_def)
      then show ?thesis using sc(5) by simp
    qed
    moreover have "\<forall>j < 0 + mm_size ?c. 0 \<le> mm_ids ?c ! j" using sc(3,6) n(2) by (auto simp: node_at_def)
    from init_candidates_offers [OF this iv refl, of params vt] obtain r1 where
      "init_candidates H params ?c 0 (mm_size ?c) (res, threshold_of H res, vt) =
        Inr (r1, threshold_of H r1, mark_all (map (\<lambda>j. mm_ids ?c ! j) [0..<mm_size ?c]) vt)"
      "inv r1" "r1 = offers H res (filter (\<lambda>p. selected params (snd p)) (map (\<lambda>j. (mm_dis ?c ! j, mm_ids ?c ! j)) [0..<mm_size ?c]))"
      by auto
    ultimately show thesis using that [of r1] ids sc(3,6) by (simp add: vt1_def)
  qed
  let ?st = "(vt1, 0, 0, \<lparr>hs_res = r1, hs_threshold = threshold_of H r1, hs_candidates = ?c, hs_nres = 0\<rparr>)"
  have "r1 = offers H r1 [] \<and> mset [] = node_offers qdis params (new_nodes vt1 vt1)"
    by (simp add: offers_def node_offers_def new_nodes_def)
  then have I: "sfc_inv h qdis 0 params vt1 r1 ?st"
    using sc(1) i(2) vt'(2) by (auto simp: sfc_inv_def new_nodes_def vt1_def vt_ok_set)
  have sz: "ntotal h \<le> vt_size vt1" using vt'(1) by (simp add: vt1_def)
  from sfc_loop_total [OF g b sz I] obtain vt2 ndis nstep s where
    l: "iterate (sfc_body h qdis H 0 params) ?st = Some (vt2, ndis, nstep, s)"
    "sfc_inv h qdis 0 params vt1 r1 (vt2, ndis, nstep, s)" by (metis prod_cases4)
  then obtain ps where ps: "hs_res s = offers H r1 ps" "mset ps = node_offers qdis params (new_nodes vt1 vt2)"
    "inv (hs_res s)" "vt_ok vt2" "vt_size vt2 = vt_size vt1" "vt_members vt1 \<subseteq> vt_members vt2"
    by (auto simp: sfc_inv_def)
  let ?V = "vt_members vt2"
  have R: "reach_inv h 0 n ?st" using m1 sc(5) by (auto simp: reach_inv_def)
  note v = sfc_loop_visits [OF g b sz I R l(1)]
  have nV: "n \<in> ?V" using ps(6) m1 by auto
  have V: "?V = new_nodes vt1 vt2 \<union> set [n]" "new_nodes vt1 vt2 \<inter> set [n] = {}"
    using m1 ps(6) by (auto simp: new_nodes_def)
  have "mset (filter (\<lambda>p. selected params (snd p)) [(query_dis qdis n, n)] @ ps) = node_offers qdis params ?V"
    unfolding V(1) using node_offers_union [OF finite_new_nodes _ V(2), of qdis params] ps(2)
    by (simp add: offered_nodes_def)
  moreover have "hs_res s = offers H res (filter (\<lambda>p. selected params (snd p)) [(query_dis qdis n, n)] @ ps)"
    using ps(1) i(3) by (simp only: offers_append)
  moreover have "?V = reachable h 0 n"
    if chk: "param_of params hp_check_relative_distance (check_relative_distance h)"
      "ntotal h \<le> param_of params hp_efSearch (efSearch h)"
  proof -
    have "exact_inv h qdis 0 ?st"
      using that sc m1 n(2) by (auto simp: exact_inv_def ef_def node_at_def)
    from v(2) [OF this chk] closed_contains_reachable [OF nV, of h 0] v(1) show ?thesis by blast
  qed
  moreover have "vt_clear h (vt_advance vt2)" using ps(4,5) sz by (intro vt_clear_advance) auto
  moreover obtain stats where "hnsw_search h qdis H res vt params = Some (Inr (stats, hs_res s, vt_advance vt2))"
    using n(1) e(2) bq i(1) l(1)
    by (auto simp: hnsw_search_def search_from_candidates_def ef_def Let_def)
  ultimately show ?thesis using n(2,3) nV v(1) ps(3) by metis
qed

end

end
