(* ===== verification/Hnsw_Unbounded.thy ===== *)
theory Hnsw_Unbounded
  imports Hnsw_Search
begin

text \<open>
  Correctness of the search with an unbounded candidate queue, and the properties of
  \<open>HNSW::search\<close> in both modes.
\<close>

text \<open>
  \<open>top_candidates\<close> orders pairs, but the code compares distances only when it decides what to
  keep: seen through the order on distances it is a priority queue as well.
\<close>

interpretation node_queue_by_distance: priority_queue closer "pq_push pair_less" hd tl mset "pq_ok pair_less"
proof
  show "\<not> closer y x" if "closer x y" for x y :: "'a \<times> int" using that by (auto simp: closer_def)
  show "\<not> closer x z" if "\<not> closer x y" "\<not> closer y z" for x y z :: "'a \<times> int"
    using that by (auto simp: closer_def)
  show "\<not> closer (hd q) y" if "pq_ok pair_less q" "y \<in># mset q" for q and y :: "'a \<times> int"
    using node_queue.top_best [OF that] by (auto simp: closer_def pair_less_def)
qed (use node_queue.push_ok node_queue.top_elem node_queue.pop_elems node_queue.pop_ok in auto)

abbreviation keeps_least_dist :: "nat \<Rightarrow> (('d :: linorder) \<times> int) multiset \<Rightarrow> ('d \<times> int) multiset \<Rightarrow> bool" where
  "keeps_least_dist \<equiv> node_queue_by_distance.keeps_least"

lemma add_unbounded_top:
  "fst (add_unbounded ef idx dis (tops, cands)) = node_queue_by_distance.bounded_push ef (dis, idx) tops"
  by (auto simp: add_unbounded_def node_queue_by_distance.bounded_push_def closer_def Let_def)

lemma add_unbounded_cands:
  "snd (add_unbounded ef idx dis (tops, cands)) = cands \<or>
   snd (add_unbounded ef idx dis (tops, cands)) = pq_push pair_greater (dis, idx) cands"
  by (auto simp: add_unbounded_def Let_def)

definition node_pairs :: "('d :: linorder) distance_computer \<Rightarrow> idx_t list \<Rightarrow> ('d \<times> idx_t) multiset" where
  "node_pairs qdis vs = mset (map (\<lambda>v. (query_dis qdis v, v)) vs)"

lemma add_all_unbounded:
  assumes "pq_ok pair_less tops" "0 < ef" "keeps_least_dist ef (mset tops) M"
  shows "(case one_by_one qdis (add_unbounded ef) vs (tops, cands) of (tops', cands') \<Rightarrow>
      pq_ok pair_less tops' \<and> keeps_least_dist ef (mset tops') (M + node_pairs qdis vs)
      \<and> length cands' \<le> length cands + length vs
      \<and> set cands' \<subseteq> set cands \<union> (\<lambda>v. (query_dis qdis v, v)) ` set vs)"
  using assms
proof (induction vs arbitrary: tops cands M)
  case Nil
  then show ?case by (simp add: node_pairs_def)
next
  case (Cons v vs)
  let ?p = "(query_dis qdis v, v)"
  obtain tops1 cands1 where a: "add_unbounded ef v (query_dis qdis v) (tops, cands) = (tops1, cands1)"
    by (metis surj_pair)
  have t: "tops1 = node_queue_by_distance.bounded_push ef ?p tops"
    using add_unbounded_top [of ef v "query_dis qdis v" tops cands] a by simp
  note b = node_queue_by_distance.bounded_push_correct [OF Cons.prems, of ?p, folded t]
  have c: "cands1 = cands \<or> cands1 = pq_push pair_greater ?p cands"
    using add_unbounded_cands [of ef v "query_dis qdis v" tops cands] a by simp
  then have c': "length cands1 \<le> Suc (length cands)" "set cands1 \<subseteq> insert ?p (set cands)" by auto
  have e: "one_by_one qdis (add_unbounded ef) (v # vs) (tops, cands) = one_by_one qdis (add_unbounded ef) vs (tops1, cands1)"
    using a by simp
  have M: "add_mset ?p M + node_pairs qdis vs = M + node_pairs qdis (v # vs)" by (simp add: node_pairs_def)
  show ?case
    using Cons.IH [OF b(1) Cons.prems(2) b(2), of cands1] c' unfolding e M
    by (auto split: prod.splits)
qed

lemma length_pq_push_le: "length (pq_push f x q) = Suc (length q)"
  by simp

definition unb_inv ::
    "hnsw \<Rightarrow> ('d :: linorder) distance_computer \<Rightarrow> nat \<Rightarrow> visited_table \<Rightarrow> int \<Rightarrow> 'd unb_state \<Rightarrow> bool" where
  "unb_inv h qdis ef vt0 n st \<longleftrightarrow>
     (case st of (vt, ndis, nhops, tops, cands) \<Rightarrow>
        vt_ok vt \<and> vt_size vt = vt_size vt0 \<and> n \<in> vt_members vt \<and> vt_members vt \<subseteq> reachable h 0 n
        \<and> pq_ok pair_less tops
        \<and> keeps_least_dist ef (mset tops) (image_mset (\<lambda>v. (query_dis qdis v, v)) (mset_set (vt_members vt)))
        \<and> (\<forall>p \<in> set cands. snd p \<in> vt_members vt))"

lemma unb_step:
  assumes g: "graph_ok h" and b: "batch_exact qdis" and sz: "ntotal h \<le> vt_size vt0" and n: "node_at h 0 n"
    and ef: "0 < ef" and I: "unb_inv h qdis ef vt0 n st" and st: "unb_body h qdis ef st = Inl st'"
  shows "unb_inv h qdis ef vt0 n st' \<and>
    (case st' of (vt', _, _, _, cands') \<Rightarrow> vt_unvisited vt' + length cands') <
    (case st of (vt, _, _, _, cands) \<Rightarrow> vt_unvisited vt + length cands)"
proof -
  obtain vt ndis nhops tops cands where e: "st = (vt, ndis, nhops, tops, cands)" by (metis prod_cases5)
  have ne: "cands \<noteq> []" using st e by (auto simp: unb_body_def)
  obtain d0 v0 where hd: "hd cands = (d0, v0)" by (metis surj_pair)
  let ?vs = "links h v0 0" and ?fs = "fresh vt (links h v0 0)"
  have eb: "exact_batches qdis" using b by (simp add: exact_batches_def)
  obtain tops' cands' where o: "one_by_one qdis (add_unbounded ef) ?fs (tops, tl cands) = (tops', cands')"
    by (metis surj_pair)
  have e': "st' = (mark_all ?vs vt, ndis + length ?fs, nhops + 1, tops', cands')"
    using st e ne hd o exact_batches.visit_links_one_by_one [OF eb, of "add_unbounded ef" ?vs vt ndis "(tops, tl cands)"]
    by (auto simp: unb_body_def Let_def split: if_splits)
  have I': "vt_ok vt" "vt_size vt = vt_size vt0" "n \<in> vt_members vt" "vt_members vt \<subseteq> reachable h 0 n"
    "pq_ok pair_less tops" "keeps_least_dist ef (mset tops) (image_mset (\<lambda>v. (query_dis qdis v, v)) (mset_set (vt_members vt)))"
    "\<forall>p \<in> set cands. snd p \<in> vt_members vt"
    using I e by (auto simp: unb_inv_def)
  have "(d0, v0) \<in> set cands" using hd ne by (metis hd_in_set)
  then have v0: "v0 \<in> reachable h 0 n" using I'(4,7) by auto
  then have v0n: "node_at h 0 v0" using reachable_node [OF g n] by blast
  have has: "\<forall>v \<in> set ?vs. vt_has vt v"
    using links_node(2,3) [OF g v0n] sz I'(2) by (fastforce simp: vt_has_iff)
  note vn = visit_new_nodes [OF has, of vt, OF order.refl]
  have fs: "set ?fs = set ?vs - vt_members vt" using set_fresh [OF has] by (auto simp: vt_members_def)
  have mem: "vt_members (mark_all ?vs vt) = vt_members vt \<union> set ?fs" using vn(1) fs by auto
  note M = visited_image [OF has, of "\<lambda>v. (query_dis qdis v, v)", folded node_pairs_def, symmetric]
  from add_all_unbounded [OF I'(5) ef I'(6), of qdis ?fs "tl cands", unfolded o M]
  have a: "pq_ok pair_less tops'" "keeps_least_dist ef (mset tops')
      (image_mset (\<lambda>v. (query_dis qdis v, v)) (mset_set (vt_members (mark_all ?vs vt))))"
    "length cands' \<le> length (tl cands) + length ?fs"
    "set cands' \<subseteq> set (tl cands) \<union> (\<lambda>v. (query_dis qdis v, v)) ` set ?fs" by auto
  have "set (tl cands) \<subseteq> set cands" by (cases cands) auto
  then have "\<forall>p \<in> set cands'. snd p \<in> vt_members (mark_all ?vs vt)" using a(4) I'(7) mem by fastforce
  moreover have "vt_members (mark_all ?vs vt) \<subseteq> reachable h 0 n" using vn(1) I'(4) reachable_step [OF v0] by auto
  ultimately have "unb_inv h qdis ef vt0 n st'"
    using a(1,2) I'(1,2,3) mem vt_ok_mark_all unfolding e' unb_inv_def by auto
  moreover have "vt_unvisited (mark_all ?vs vt) + length cands' < vt_unvisited vt + length cands"
    using unvisited_mark_all [OF has] a(3) ne by (cases cands) auto
  ultimately show ?thesis unfolding e e' by simp
qed

lemma unbounded_correct:
  assumes g: "graph_ok h" and b: "batch_exact qdis" and vt: "vt_clear h vt" and n: "node_at h 0 n" and ef: "0 < ef"
  shows "\<exists>tops vt' stats' V.
      search_from_candidate_unbounded h (query_dis qdis n, n) qdis ef vt stats = Some (tops, vt', stats')
    \<and> vt_ok vt' \<and> vt_size vt' = vt_size vt \<and> n \<in> V \<and> V \<subseteq> reachable h 0 n \<and> finite V
    \<and> pq_ok pair_less tops
    \<and> keeps_least_dist ef (mset tops) (image_mset (\<lambda>v. (query_dis qdis v, v)) (mset_set V))"
proof -
  let ?p = "(query_dis qdis n, n)"
  let ?st = "(vt_set vt n, 0, st_nhops stats, pq_push pair_less ?p [], pq_push pair_greater ?p [])"
  let ?I = "unb_inv h qdis ef vt n"
  have v: "ntotal h \<le> vt_size vt" "vt_ok vt" "vt_members vt = {}" using vt by (auto simp: vt_clear_def)
  have "vt_has vt n" using n v(1) by (auto simp: node_at_def vt_has_iff)
  then have m: "vt_members (vt_set vt n) = {n}" using v(3) by (simp add: vt_members_set)
  have one: "mset (pq_push pair_less ?p []) = {#?p#}" by simp
  have "keeps_least_dist ef {#?p#} {#?p#}"
    using ef by (auto simp: node_queue_by_distance.keeps_least_def closer_def min_def)
  moreover have "pq_ok pair_less (pq_push pair_less ?p [])" by (simp add: pq_ok_def pq_push_def)
  ultimately have I0: "?I ?st" using v m one by (auto simp: unb_inv_def vt_ok_set)
  have "\<exists>r. iterate (unb_body h qdis ef) ?st = Some r \<and> ?I r"
  proof (rule iterate_total [where I = ?I and m = "\<lambda>(vt, _, _, _, cands). vt_unvisited vt + length cands", OF I0])
    fix st st' assume "?I st" "unb_body h qdis ef st = Inl st'"
    from unb_step [OF g b v(1) n ef this]
    show "?I st' \<and> (\<lambda>(vt, _, _, _, cands). vt_unvisited vt + length cands) st'
        < (\<lambda>(vt, _, _, _, cands). vt_unvisited vt + length cands) st" by simp
  next
    fix st r assume "?I st" "unb_body h qdis ef st = Inr r"
    then show "?I r" by (auto simp: unb_body_def Let_def split: prod.splits if_splits)
  qed
  then obtain vt' ndis nhops tops cands where r: "iterate (unb_body h qdis ef) ?st = Some (vt', ndis, nhops, tops, cands)"
    "?I (vt', ndis, nhops, tops, cands)" by (metis prod_cases5)
  then show ?thesis
    by (auto simp: search_from_candidate_unbounded_def unb_inv_def
        intro!: exI [of _ "vt_members vt'"])
qed

text \<open>Dropping the largest entries of the queue keeps the least ones.\<close>

lemma drop_keeps_least:
  assumes "pq_ok pair_less tops" "keeps_least_dist ef (mset tops) M" "k \<le> ef"
  shows "keeps_least_dist k (mset (drop (length tops - k) tops)) M"
proof -
  from assms(2) obtain R where R: "M = mset tops + R" "size (mset tops) = min ef (size M)"
    "\<forall>x \<in># mset tops. \<forall>r \<in># R. \<not> closer r x"
    unfolding node_queue_by_distance.keeps_least_def by blast
  let ?m = "length tops - k"
  have s: "tops = take ?m tops @ drop ?m tops" by simp
  have M: "M = mset (drop ?m tops) + (mset (take ?m tops) + R)"
    using R(1) s by (metis add.assoc add.commute mset_append)
  have "\<not> closer r x" if "x \<in># mset (drop ?m tops)" "r \<in># mset (take ?m tops) + R" for x r
  proof (cases "r \<in> set (take ?m tops)")
    case True
    have "\<not> pair_less r x"
      using assms(1) True that(1) s unfolding pq_ok_def by (metis set_mset_mset sorted_wrt_append)
    then show ?thesis by (auto simp: closer_def pair_less_def)
  next
    case False
    then have "r \<in># R" using that(2) by simp
    moreover have "x \<in># mset tops" using that(1) by (auto dest: in_set_dropD)
    ultimately show ?thesis using R(3) by blast
  qed
  moreover have "size (mset (drop ?m tops)) = min k (size M)"
  proof -
    have "length tops = min ef (size M)" using R(2) by (simp only: size_mset)
    then have "length tops - (length tops - k) = min k (size M)" using assms(3) by linarith
    then show ?thesis by (simp only: size_mset length_drop)
  qed
  ultimately show ?thesis unfolding node_queue_by_distance.keeps_least_def
    by (intro exI [of _ "mset (take ?m tops) + R"] conjI M ballI) auto
qed

context distance_handler
begin

lemma unbounded_search_correct:
  assumes g: "graph_ok h" and b: "batch_exact qdis" and e: "entry_ok h" "entry_point h \<noteq> -1"
    and vt: "vt_clear h vt" and iv: "inv res" and k: "0 < extract_k H res"
    and bq: "\<not> param_of params hp_bounded_queue (search_bounded_queue h)"
  shows "\<exists>stats r vt' n V ps.
      hnsw_search h qdis H res vt params = Some (Inr (stats, r, vt'))
    \<and> vt_clear h vt' \<and> inv r \<and> node_at h 0 n \<and> n \<in> V \<and> V \<subseteq> reachable h 0 n \<and> finite V
    \<and> r = offers H res ps
    \<and> keeps_least_dist (extract_k H res) (mset ps) (image_mset (\<lambda>v. (query_dis qdis v, v)) (mset_set V))"
proof -
  from search_descent [OF g b e] obtain n st where
    n: "greedy_descent h qdis (levels_down (max_level h) 1)
      ((entry_point h, query_dis qdis (entry_point h)), stats_reset) = Some ((n, query_dis qdis n), st)"
    "node_at h 0 n" by blast
  define ef where "ef = max (param_of params hp_efSearch (efSearch h)) (extract_k H res)"
  have ef: "0 < ef" "extract_k H res \<le> ef" using k by (simp_all add: ef_def)
  from unbounded_correct [OF g b vt n(2) ef(1), of st] obtain tops vt' stats V where
    u: "search_from_candidate_unbounded h (query_dis qdis n, n) qdis ef vt st = Some (tops, vt', stats)"
    "vt_ok vt'" "vt_size vt' = vt_size vt" "n \<in> V" "V \<subseteq> reachable h 0 n" "finite V" "pq_ok pair_less tops"
    "keeps_least_dist ef (mset tops) (image_mset (\<lambda>v. (query_dis qdis v, v)) (mset_set V))" by blast
  let ?ps = "drop (length tops - extract_k H res) tops"
  have "hnsw_search h qdis H res vt params = Some (Inr (stats, offers H res ?ps, vt_advance vt'))"
    using n(1) u(1) e(2) bq by (simp add: hnsw_search_def ef_def Let_def add_all_results_def offers_def)
  moreover have "vt_clear h (vt_advance vt')"
    using u(2,3) vt by (intro vt_clear_advance) (auto simp: vt_clear_def)
  moreover note drop_keeps_least [OF u(7,8) ef(2)]
  moreover have "inv (offers H res ?ps)" using offers_inv [OF iv] .
  ultimately show ?thesis using n(2) u(4-6)
    by (intro exI [of _ stats] exI [of _ "offers H res ?ps"] exI [of _ "vt_advance vt'"] exI [of _ n]
        exI [of _ V] exI [of _ ?ps] conjI) simp_all
qed

end

section \<open>Properties\<close>

text \<open>The heap handler as \<open>IndexHNSW\<close> uses it: \<open>begin\<close>, the search, \<open>end\<close>.\<close>

lemma heap_handler_search:
  assumes "0 < k" "length D = k" "length I = k"
    and "r = offers (heap_result_handler (CMax lo hi)) (hh_begin (CMax lo hi) k D I) ps"
    and "\<forall>p \<in> set ps. snd p \<noteq> -1 \<and> fst p < hi"
  shows "topk_result (CMax lo hi) k ps (pairs (hh_end (CMax lo hi) r))"
proof -
  have "hh_end (CMax lo hi) r = hh_collect (CMax lo hi) k D I ps"
    using assms(4) cmax.hh_offers_eq [of lo hi] by (simp add: hh_collect_def)
  then show ?thesis
    using cmax.hh_collect_topk [OF assms(1-3), of ps lo hi] assms(5) by simp
qed

lemma extract_k_begin: "extract_k (heap_result_handler C) (hh_begin C k D I) = k"
  by (simp add: extract_k_def heap_result_handler_def hh_begin_def case_prod_beta)

lemma node_offers_set:
  "mset ps = node_offers qdis params V \<Longrightarrow> p \<in> set ps \<Longrightarrow> finite V \<Longrightarrow>
    snd p \<in> V \<and> selected params (snd p) \<and> fst p = query_dis qdis (snd p)"
proof -
  assume m: "mset ps = node_offers qdis params V" "p \<in> set ps" "finite V"
  then have "p \<in># node_offers qdis params V" by (metis set_mset_mset)
  then show ?thesis using m(3) by (auto simp: node_offers_def)
qed

lemma heap_handler_answer:
  assumes "graph_ok h" "node_at h 0 n" "V \<subseteq> reachable h 0 n" "0 < k" "length D = k" "length I = k"
    and "r = offers (heap_result_handler (CMax lo hi)) (hh_begin (CMax lo hi) k D I) ps"
    and "mset ps = node_offers qdis params V" "\<forall>v. node_at h 0 v \<longrightarrow> query_dis qdis v < hi"
  shows "topk_result (CMax lo hi) k ps (pairs (hh_end (CMax lo hi) r))"
proof (rule heap_handler_search [OF assms(4-7)], intro ballI)
  fix p assume p: "p \<in> set ps"
  have V: "V \<subseteq> {v. node_at h 0 v}" using reachable_node [OF assms(1,2)] assms(3) by blast
  then have "finite V" using finite_nodes finite_subset by blast
  from node_offers_set [OF assms(8) p this] V have "node_at h 0 (snd p)" "fst p = query_dis qdis (snd p)" by auto
  then show "snd p \<noteq> -1 \<and> fst p < hi" using assms(9) by (auto simp: node_at_def)
qed

text \<open>The example graph of the witnesses satisfies the hypotheses of the search theorems.\<close>

lemma example_search_setup:
  "entry_ok example_graph" "entry_point example_graph \<noteq> -1" "search_bounded_queue example_graph"
  "check_relative_distance example_graph" "ntotal example_graph \<le> efSearch example_graph"
  by code_simp+

lemma example_vt_clear: "vt_clear example_graph (vt_new 3)"
  by (simp add: vt_clear_def vt_members_def) code_simp

lemma example_distances: "node_at example_graph 0 v \<Longrightarrow> \<bar>v - 2\<bar> < 100"
  by (auto simp: node_at_def example_graph_def)



text \<open>
  C2. With the relative-distance check on and \<open>efSearch\<close> at least the number of nodes, the
  bounded search is exhaustive: the answer is the exact top \<open>k\<close> of all selected nodes reachable
  on level 0 from where the descent stops.
\<close>

theorem hnsw_search_exhaustive:
  assumes "graph_ok h" "batch_exact qdis" "entry_ok h" "entry_point h \<noteq> -1" "vt_clear h vt"
    and "0 < k" "length D = k" "length I = k" "\<forall>v. node_at h 0 v \<longrightarrow> query_dis qdis v < hi"
    and "param_of params hp_bounded_queue (search_bounded_queue h)"
    and "param_of params hp_check_relative_distance (check_relative_distance h)"
    and "ntotal h \<le> param_of params hp_efSearch (efSearch h)"
  shows "\<exists>stats r vt' n ps.
      hnsw_search h qdis (heap_result_handler (CMax lo hi)) (hh_begin (CMax lo hi) k D I) vt params = Some (Inr (stats, r, vt'))
    \<and> node_at h 0 n \<and> mset ps = node_offers qdis params (reachable h 0 n)
    \<and> topk_result (CMax lo hi) k ps (pairs (hh_end (CMax lo hi) r))"
proof -
  have inv: "hh_inv (CMax lo hi) (hh_begin (CMax lo hi) k D I)" by (rule cmax.hh_begin_inv(1) [OF assms(6-8)])
  have k: "0 < extract_k (heap_result_handler (CMax lo hi)) (hh_begin (CMax lo hi) k D I)"
    using assms(6) by (simp add: extract_k_begin)
  from heap_distance_handler.bounded_search_correct [OF assms(1-5) inv k assms(10)]
  show ?thesis using heap_handler_answer [OF assms(1) _ order.refl assms(6-8) _ _ assms(9)] assms(11,12) by metis
qed

theorem hnsw_search_exhaustive_witness:
  "\<exists>stats r vt' n ps. hnsw_search example_graph (default_computer (\<lambda>v. \<bar>v - 2\<bar>) (\<lambda>v w. \<bar>v - w\<bar>))
      (heap_result_handler (CMax 0 100)) (hh_begin (CMax 0 100) 2 [0, 0] [0, 0]) (vt_new 3) None = Some (Inr (stats, r, vt'))
    \<and> mset ps = node_offers (default_computer (\<lambda>v. \<bar>v - 2\<bar>) (\<lambda>v w. \<bar>v - w\<bar>)) None (reachable example_graph 0 n)
    \<and> topk_result (CMax 0 100) 2 ps (pairs (hh_end (CMax 0 100) r))"
  using hnsw_search_exhaustive [of example_graph "default_computer (\<lambda>v. \<bar>v - 2\<bar>) (\<lambda>v w. \<bar>v - w\<bar>)" "vt_new 3" 2
      "[0, 0]" "[0, 0]" 100 None 0] example_graph_ok batch_exact_default example_search_setup example_vt_clear
    example_distances by (simp add: param_of_def) blast



text \<open>
  In the unbounded mode the selector of the search parameters is ignored: on a three-node
  graph, with a selector that accepts node 0 only, the answer to a 2-nearest search contains
  nodes 1 and 2. The bounded mode answers node 0 only.
\<close>

theorem unbounded_search_ignores_selector:
  "map_option (map_sum (\<lambda>_. ()) (\<lambda>(_, r, _). hh_end (CMax 0 100) r))
     (hnsw_search example_graph (default_computer (\<lambda>v. \<bar>v - 2\<bar>) (\<lambda>v w. \<bar>v - w\<bar>))
        (heap_result_handler (CMax 0 100)) (hh_begin (CMax 0 100) 2 [0, 0] [0, 0]) (vt_new 3)
        (Some \<lparr>sp_sel = Some (\<lambda>v. v = 0),
               sp_hnsw = Some \<lparr>hp_efSearch = 3, hp_check_relative_distance = True, hp_bounded_queue = b\<rparr>\<rparr>)) =
   Some (Inr (if b then ([2, 100], [0, -1]) else ([0, 1], [2, 1])))"
  by (induct b) (code_simp, code_simp)

end
