(* ===== verification/Hnsw_Build.thy ===== *)
theory Hnsw_Build
  imports Hnsw_Shrink Hnsw_Unbounded
begin

text \<open>
  Adding points to the graph (\<open>HNSW.cpp\<close> lines 356-574): \<open>search_neighbors_to_add\<close> in its
  reference and its batched version, \<open>add_links_starting_from\<close> and \<open>add_with_locks\<close>. OpenMP
  locks are a set of held locks and a log of the lock operations.
\<close>

section \<open>Searching the neighbors\<close>

definition offer_neighbor ::
    "nat \<Rightarrow> idx_t \<Rightarrow> 'd \<Rightarrow> (('d :: linorder) \<times> int) list \<times> ('d \<times> int) list \<Rightarrow> ('d \<times> int) list \<times> ('d \<times> int) list" where
  "offer_neighbor ef idx dis s =
     (case s of (results, candidates) \<Rightarrow>
        if length results < ef \<or> fst (hd results) > dis then
          let results' = pq_push closer (dis, idx) results;
              candidates' = pq_push farther (dis, idx) candidates
          in (if length results' > ef then tl results' else results', candidates')
        else s)"

text \<open>The two versions of the loop over the links of a node.\<close>

definition visit_reference ::
    "('d :: linorder) distance_computer \<Rightarrow> nat \<Rightarrow> idx_t \<Rightarrow> visited_table \<times> ('d \<times> int) list \<times> ('d \<times> int) list \<Rightarrow>
     visited_table \<times> ('d \<times> int) list \<times> ('d \<times> int) list" where
  "visit_reference qdis ef v st =
     (case st of (vt, s) \<Rightarrow>
        if vt_get vt v then st else (vt_set vt v, offer_neighbor ef v (query_dis qdis v) s))"

definition visit_buffered ::
    "('d :: linorder) distance_computer \<Rightarrow> nat \<Rightarrow> idx_t \<Rightarrow> visited_table \<times> idx_t list \<times> ('d \<times> int) list \<times> ('d \<times> int) list \<Rightarrow>
     visited_table \<times> idx_t list \<times> ('d \<times> int) list \<times> ('d \<times> int) list" where
  "visit_buffered qdis ef v st =
     (case st of (vt, bs) \<Rightarrow>
        if vt_get vt v then st else (vt_set vt v, buffer_push qdis (offer_neighbor ef) v bs))"

definition visit_neighbors ::
    "('d :: linorder) distance_computer \<Rightarrow> nat \<Rightarrow> bool \<Rightarrow> idx_t list \<Rightarrow> visited_table \<times> ('d \<times> int) list \<times> ('d \<times> int) list \<Rightarrow>
     visited_table \<times> ('d \<times> int) list \<times> ('d \<times> int) list" where
  "visit_neighbors qdis ef reference_version vs st =
     (if reference_version then fold (visit_reference qdis ef) vs st
      else case fold (visit_buffered qdis ef) vs (fst st, [], snd st) of
        (vt, buf, s) \<Rightarrow> (vt, leftovers qdis (offer_neighbor ef) buf s))"

definition neighbors_body ::
    "hnsw \<Rightarrow> ('d :: linorder) distance_computer \<Rightarrow> nat \<Rightarrow> bool \<Rightarrow> visited_table \<times> ('d \<times> int) list \<times> ('d \<times> int) list \<Rightarrow>
     (visited_table \<times> ('d \<times> int) list \<times> ('d \<times> int) list) + (visited_table \<times> ('d \<times> int) list \<times> ('d \<times> int) list)" where
  "neighbors_body h qdis level reference_version st =
     (case st of (vt, results, candidates) \<Rightarrow>
        if candidates = [] then Inr st
        else
          let (d, curr_node) = hd candidates in
          if d > fst (hd results) then Inr st
          else Inl (visit_neighbors qdis (efConstruction h) reference_version (links h curr_node level)
                      (vt, results, tl candidates)))"

definition search_neighbors_to_add ::
    "hnsw \<Rightarrow> ('d :: linorder) distance_computer \<Rightarrow> ('d \<times> int) list \<Rightarrow> int \<Rightarrow> 'd \<Rightarrow> nat \<Rightarrow> visited_table \<Rightarrow> bool \<Rightarrow>
     (('d \<times> int) list \<times> visited_table) option" where
  "search_neighbors_to_add h qdis results entry d_entry level vt reference_version =
     map_option (\<lambda>(vt', results', candidates'). (results', vt_advance vt'))
       (iterate (neighbors_body h qdis level reference_version)
         (vt_set vt entry, pq_push closer (d_entry, entry) results, pq_push farther (d_entry, entry) []))"

section \<open>Locks\<close>

datatype lock_event = Lock storage_idx_t | Unlock storage_idx_t

type_synonym lock_state = "storage_idx_t set \<times> lock_event list"

definition omp_set_lock :: "storage_idx_t \<Rightarrow> lock_state \<Rightarrow> lock_state result" where
  "omp_set_lock v ls =
     (if v \<in> fst ls then Inl Deadlock else Inr (insert v (fst ls), snd ls @ [Lock v]))"

definition omp_unset_lock :: "storage_idx_t \<Rightarrow> lock_state \<Rightarrow> lock_state result" where
  "omp_unset_lock v ls =
     (if v \<notin> fst ls then Inl Not_held else Inr (fst ls - {v}, snd ls @ [Unlock v]))"

section \<open>Adding the links of one level\<close>

fun link_back ::
    "('d :: linorder) distance_computer \<Rightarrow> storage_idx_t \<Rightarrow> nat \<Rightarrow> bool \<Rightarrow> storage_idx_t list \<Rightarrow> hnsw \<times> lock_state \<Rightarrow>
     (hnsw \<times> lock_state) result" where
  "link_back ptdis pt_id level keep [] st = Inr st"
| "link_back ptdis pt_id level keep (other # others) (h, ls) =
     bind_result (omp_set_lock other ls) (\<lambda>ls1.
       let h1 = add_link h ptdis other pt_id level keep in
       bind_result (omp_unset_lock other ls1) (\<lambda>ls2. link_back ptdis pt_id level keep others (h1, ls2)))"

definition link_forward ::
    "('d :: linorder) distance_computer \<Rightarrow> storage_idx_t \<Rightarrow> nat \<Rightarrow> bool \<Rightarrow> ('d \<times> int) list \<Rightarrow> hnsw \<Rightarrow> hnsw" where
  "link_forward ptdis pt_id level keep targets h =
     foldl (\<lambda>h p. add_link h ptdis pt_id (snd p) level keep) h targets"

definition add_links_starting_from ::
    "hnsw \<Rightarrow> ('d :: linorder) distance_computer \<Rightarrow> storage_idx_t \<Rightarrow> storage_idx_t \<Rightarrow> 'd \<Rightarrow> nat \<Rightarrow> bool \<Rightarrow>
     lock_state \<times> visited_table \<Rightarrow> (hnsw \<times> lock_state \<times> visited_table) result option" where
  "add_links_starting_from h ptdis pt_id nearest d_nearest level keep st =
     (case st of (ls, vt) \<Rightarrow>
        map_option (\<lambda>(link_targets, vt').
          bind_result (nb_neighbors h level) (\<lambda>M.
            let targets = shrink_results ptdis link_targets M keep;
                h1 = link_forward ptdis pt_id level keep targets h;
                neighbors_to_add = map snd targets
            in bind_result (omp_unset_lock pt_id ls) (\<lambda>ls1.
               bind_result (link_back ptdis pt_id level keep neighbors_to_add (h1, ls1)) (\<lambda>(h2, ls2).
               bind_result (omp_set_lock pt_id ls2) (\<lambda>ls3. Inr (h2, ls3, vt'))))))
        (search_neighbors_to_add h ptdis [] nearest d_nearest level vt False))"

fun add_levels ::
    "('d :: linorder) distance_computer \<Rightarrow> storage_idx_t \<Rightarrow> storage_idx_t \<Rightarrow> 'd \<Rightarrow> bool \<Rightarrow> nat list \<Rightarrow>
     hnsw \<times> lock_state \<times> visited_table \<Rightarrow> (hnsw \<times> lock_state \<times> visited_table) result option" where
  "add_levels ptdis pt_id nearest d_nearest keep [] st = Some (Inr st)"
| "add_levels ptdis pt_id nearest d_nearest keep (level # rest) (h, st) =
     (case add_links_starting_from h ptdis pt_id nearest d_nearest level keep st of
        None \<Rightarrow> None
      | Some (Inl e) \<Rightarrow> Some (Inl e)
      | Some (Inr (h', st')) \<Rightarrow> add_levels ptdis pt_id nearest d_nearest keep rest (h', st'))"

definition add_with_locks ::
    "hnsw \<Rightarrow> ('d :: linorder) distance_computer \<Rightarrow> nat \<Rightarrow> storage_idx_t \<Rightarrow> bool \<Rightarrow> lock_state \<times> visited_table \<Rightarrow>
     (hnsw \<times> lock_state \<times> visited_table) result option" where
  "add_with_locks h ptdis pt_level pt_id keep st =
     (let nearest = entry_point h;
          h0 = (if nearest = -1 then h\<lparr>max_level := int pt_level, entry_point := pt_id\<rparr> else h)
      in if nearest < 0 then Some (Inr (h0, st))
         else case omp_set_lock pt_id (fst st) of
           Inl e \<Rightarrow> Some (Inl e)
         | Inr ls1 \<Rightarrow>
             (case greedy_descent h0 ptdis (levels_down (max_level h0) (int pt_level + 1))
                     ((nearest, query_dis ptdis nearest), stats_reset) of
                None \<Rightarrow> None
              | Some ((nearest', d_nearest), stats) \<Rightarrow>
                  (case add_levels ptdis pt_id nearest' d_nearest keep
                          (levels_down (min (max_level h0) (int pt_level)) 0) (h0, ls1, snd st) of
                     None \<Rightarrow> None
                   | Some (Inl e) \<Rightarrow> Some (Inl e)
                   | Some (Inr (h1, ls2, vt')) \<Rightarrow>
                       Some (bind_result (omp_unset_lock pt_id ls2) (\<lambda>ls3.
                         Inr (if int pt_level > max_level h1
                              then h1\<lparr>max_level := int pt_level, entry_point := pt_id\<rparr> else h1, ls3, vt'))))))"

section \<open>The batched version is the reference version\<close>

lemma visit_reference_fold:
  "fold (visit_reference dc ef) vs (vt, s) =
     (mark_all vs vt, one_by_one dc (offer_neighbor ef) (fresh vt vs) s)"
  by (induction vs arbitrary: vt s) (auto simp: visit_reference_def vt_set_idem)

lemma visit_buffered_fold:
  assumes "batch_exact dc" "fold (visit_buffered dc ef) vs (vt, buf, s) = (vt', buf', s')" "length buf < 4"
  shows "vt' = mark_all vs vt \<and> one_by_one dc (offer_neighbor ef) buf' s' =
    one_by_one dc (offer_neighbor ef) (buf @ fresh vt vs) s"
  using assms(2,3)
proof (induction vs arbitrary: vt buf s)
  case (Cons v vs)
  show ?case
  proof (cases "vt_get vt v")
    case True
    then show ?thesis using Cons by (simp add: visit_buffered_def vt_set_idem)
  next
    case False
    obtain buf1 s1 where b: "buffer_push dc (offer_neighbor ef) v (buf, s) = (buf1, s1)" by (metis surj_pair)
    have eb: "exact_batches dc" using assms(1) by (simp add: exact_batches_def)
    have "length (fst (buf, s)) < 4" using Cons.prems(2) by simp
    note bp = exact_batches.buffer_push_one_by_one [OF eb this, of "offer_neighbor ef" v, unfolded b fst_conv snd_conv]
    have "visit_buffered dc ef v (vt, buf, s) = (vt_set vt v, buf1, s1)"
      using False b by (simp add: visit_buffered_def)
    then have "fold (visit_buffered dc ef) vs (vt_set vt v, buf1, s1) = (vt', buf', s')"
      using Cons.prems(1) by simp
    from Cons.IH [OF this bp(2)] bp(1) False show ?thesis by simp
  qed
qed simp

lemma visit_neighbors_one_by_one:
  assumes "batch_exact dc"
  shows "visit_neighbors dc ef reference_version vs (vt, s) =
     (mark_all vs vt, one_by_one dc (offer_neighbor ef) (fresh vt vs) s)"
proof (cases reference_version)
  case True
  then show ?thesis by (simp add: visit_neighbors_def visit_reference_fold)
next
  case False
  obtain vt' buf s' where f: "fold (visit_buffered dc ef) vs (vt, [], s) = (vt', buf, s')" by (metis prod_cases3)
  from visit_buffered_fold [OF assms f] False show ?thesis
    by (simp add: visit_neighbors_def f leftovers_one_by_one)
qed

lemma search_neighbors_versions:
  assumes "batch_exact dc"
  shows "search_neighbors_to_add h dc results entry d_entry level vt True =
   search_neighbors_to_add h dc results entry d_entry level vt False"
proof -
  have "neighbors_body h dc level True = neighbors_body h dc level False"
    by (intro ext) (simp add: neighbors_body_def visit_neighbors_one_by_one [OF assms] split: prod.splits)
  then show ?thesis by (simp add: search_neighbors_to_add_def)
qed

section \<open>What the search for neighbors returns\<close>

abbreviation keeps_closest :: "nat \<Rightarrow> (('d :: linorder) \<times> int) multiset \<Rightarrow> ('d \<times> int) multiset \<Rightarrow> bool" where
  "keeps_closest \<equiv> closer_queue.keeps_least"

lemma offer_neighbor_results:
  "fst (offer_neighbor ef idx dis (results, cands)) = closer_queue.bounded_push ef (dis, idx) results"
  by (auto simp: offer_neighbor_def closer_queue.bounded_push_def closer_def Let_def)

lemma offer_neighbor_cands:
  "snd (offer_neighbor ef idx dis (results, cands)) = cands \<or>
   snd (offer_neighbor ef idx dis (results, cands)) = pq_push farther (dis, idx) cands"
  by (auto simp: offer_neighbor_def Let_def)

lemma offer_all:
  assumes "pq_ok closer results" "0 < ef" "keeps_closest ef (mset results) M"
    and "one_by_one qdis (offer_neighbor ef) vs (results, cands) = (results', cands')"
  shows "pq_ok closer results'" "keeps_closest ef (mset results') (M + node_pairs qdis vs)"
    and "length cands' \<le> length cands + length vs"
    and "set cands' \<subseteq> set cands \<union> (\<lambda>v. (query_dis qdis v, v)) ` set vs"
proof -
  have "pq_ok closer results' \<and> keeps_closest ef (mset results') (M + node_pairs qdis vs)
    \<and> length cands' \<le> length cands + length vs
    \<and> set cands' \<subseteq> set cands \<union> (\<lambda>v. (query_dis qdis v, v)) ` set vs"
    using assms
  proof (induction vs arbitrary: results cands M)
    case Nil
    then show ?case by (simp add: node_pairs_def)
  next
    case (Cons v vs)
    let ?p = "(query_dis qdis v, v)"
    obtain r1 c1 where a: "offer_neighbor ef v (query_dis qdis v) (results, cands) = (r1, c1)" by (metis surj_pair)
    have t: "r1 = closer_queue.bounded_push ef ?p results"
      using offer_neighbor_results [of ef v "query_dis qdis v" results cands] a by simp
    note b = closer_queue.bounded_push_correct [OF Cons.prems(1-3), of ?p, folded t]
    have "c1 = cands \<or> c1 = pq_push farther ?p cands"
      using offer_neighbor_cands [of ef v "query_dis qdis v" results cands] a by simp
    then have c: "length c1 \<le> Suc (length cands)" "set c1 \<subseteq> insert ?p (set cands)" by auto
    have e: "one_by_one qdis (offer_neighbor ef) vs (r1, c1) = (results', cands')" using Cons.prems(4) a by simp
    have M: "add_mset ?p M + node_pairs qdis vs = M + node_pairs qdis (v # vs)" by (simp add: node_pairs_def)
    from Cons.IH [OF b(1) Cons.prems(2) b(2) e] c show ?case unfolding M by auto
  qed
  then show "pq_ok closer results'" "keeps_closest ef (mset results') (M + node_pairs qdis vs)"
    "length cands' \<le> length cands + length vs"
    "set cands' \<subseteq> set cands \<union> (\<lambda>v. (query_dis qdis v, v)) ` set vs" by blast+
qed

definition build_inv ::
    "hnsw \<Rightarrow> ('d :: linorder) distance_computer \<Rightarrow> nat \<Rightarrow> nat \<Rightarrow> int \<Rightarrow> visited_table \<times> ('d \<times> int) list \<times> ('d \<times> int) list \<Rightarrow> bool" where
  "build_inv h qdis level size0 n st \<longleftrightarrow>
     (case st of (vt, results, cands) \<Rightarrow>
        vt_ok vt \<and> vt_size vt = size0 \<and> n \<in> vt_members vt \<and> vt_members vt \<subseteq> reachable h level n
        \<and> pq_ok closer results
        \<and> keeps_closest (efConstruction h) (mset results) (image_mset (\<lambda>v. (query_dis qdis v, v)) (mset_set (vt_members vt)))
        \<and> (\<forall>p \<in> set cands. snd p \<in> vt_members vt))"

lemma build_step:
  assumes g: "graph_ok h" and b: "batch_exact qdis" and sz: "ntotal h \<le> size0" and n: "node_at h level n"
    and ef: "0 < efConstruction h" and I: "build_inv h qdis level size0 n (vt, results, cands)"
    and st: "neighbors_body h qdis level reference_version (vt, results, cands) = Inl (vt', results', cands')"
  shows "build_inv h qdis level size0 n (vt', results', cands')"
    and "vt_unvisited vt' + length cands' < vt_unvisited vt + length cands"
proof -
  have ne: "cands \<noteq> []" using st by (auto simp: neighbors_body_def)
  obtain d0 v0 where hd: "hd cands = (d0, v0)" by (metis surj_pair)
  let ?vs = "links h v0 level" and ?fs = "fresh vt (links h v0 level)"
  have e: "vt' = mark_all ?vs vt"
    "one_by_one qdis (offer_neighbor (efConstruction h)) ?fs (results, tl cands) = (results', cands')"
    using st ne hd by (auto simp: neighbors_body_def Let_def visit_neighbors_one_by_one [OF b] split: if_splits)
  have I': "vt_ok vt" "vt_size vt = size0" "n \<in> vt_members vt" "vt_members vt \<subseteq> reachable h level n"
    "pq_ok closer results" "\<forall>p \<in> set cands. snd p \<in> vt_members vt"
    "keeps_closest (efConstruction h) (mset results) (image_mset (\<lambda>v. (query_dis qdis v, v)) (mset_set (vt_members vt)))"
    using I by (auto simp: build_inv_def)
  have "(d0, v0) \<in> set cands" using hd ne by (metis hd_in_set)
  then have v0: "v0 \<in> reachable h level n" using I'(4,6) by auto
  then have v0n: "node_at h level v0" using reachable_node [OF g n] by blast
  have has: "\<forall>v \<in> set ?vs. vt_has vt v"
    using links_node(2,3) [OF g v0n] sz I'(2) by (fastforce simp: vt_has_iff)
  note vn = visit_new_nodes(1) [OF has, of vt, OF order.refl]
  have fs: "set ?fs \<subseteq> set ?vs" using set_fresh [OF has] by auto
  note M = visited_image [OF has, of "\<lambda>v. (query_dis qdis v, v)", folded node_pairs_def, symmetric]
  note a = offer_all [OF I'(5) ef I'(7) e(2), unfolded M]
  have "set (tl cands) \<subseteq> set cands" by (cases cands) auto
  then have "\<forall>p \<in> set cands'. snd p \<in> vt_members vt'"
    using a(4) I'(6) vn fs unfolding e(1) by fastforce
  moreover have "vt_members vt' \<subseteq> reachable h level n"
    using vn I'(4) reachable_step [OF v0] unfolding e(1) by auto
  ultimately show "build_inv h qdis level size0 n (vt', results', cands')"
    using a(1,2) I'(1,2,3) vn vt_ok_mark_all unfolding e(1) build_inv_def by auto
  show "vt_unvisited vt' + length cands' < vt_unvisited vt + length cands"
    using unvisited_mark_all [OF has] a(3) ne unfolding e(1) by (cases cands) auto
qed

lemma search_neighbors_correct:
  assumes g: "graph_ok h" and b: "batch_exact qdis" and vt: "vt_clear h vt" and n: "node_at h level n"
    and ef: "0 < efConstruction h"
  shows "\<exists>results vt' V. search_neighbors_to_add h qdis [] n (query_dis qdis n) level vt ref_version = Some (results, vt')
    \<and> vt_clear h vt' \<and> n \<in> V \<and> V \<subseteq> reachable h level n
    \<and> keeps_closest (efConstruction h) (mset results) (image_mset (\<lambda>v. (query_dis qdis v, v)) (mset_set V))"
proof -
  let ?p = "(query_dis qdis n, n)" and ?m = "\<lambda>(vt, results, cands :: ('a \<times> int) list). vt_unvisited vt + length cands"
  let ?st = "(vt_set vt n, pq_push closer ?p [], pq_push farther ?p [])"
  let ?I = "build_inv h qdis level (vt_size vt) n"
  have v: "ntotal h \<le> vt_size vt" "vt_ok vt" "vt_members vt = {}" using vt by (auto simp: vt_clear_def)
  have "vt_has vt n" using n v(1) by (auto simp: node_at_def vt_has_iff)
  then have m: "vt_members (vt_set vt n) = {n}" using v(3) by (simp add: vt_members_set)
  have "keeps_closest (efConstruction h) {#?p#} {#?p#}"
    using ef by (auto simp: closer_queue.keeps_least_def closer_def min_def)
  moreover have "pq_ok closer (pq_push closer ?p [])" by (simp add: pq_ok_def pq_push_def)
  ultimately have I0: "?I ?st" using v m by (auto simp: build_inv_def vt_ok_set)
  have "\<exists>r. iterate (neighbors_body h qdis level ref_version) ?st = Some r \<and> ?I r"
  proof (rule iterate_total [where I = ?I and m = ?m, OF I0])
    fix st st' assume *: "?I st" "neighbors_body h qdis level ref_version st = Inl st'"
    then show "?I st' \<and> ?m st' < ?m st"
      by (cases st; cases st') (use build_step [OF g b v(1) n ef] in auto)
  next
    fix st r assume "?I st" "neighbors_body h qdis level ref_version st = Inr r"
    then show "?I r" by (auto simp: neighbors_body_def Let_def split: prod.splits if_splits)
  qed
  then obtain vt' results cands where r: "iterate (neighbors_body h qdis level ref_version) ?st = Some (vt', results, cands)"
    "?I (vt', results, cands)" by (metis prod_cases3)
  have "vt_clear h (vt_advance vt')" using r(2) v(1) by (intro vt_clear_advance) (auto simp: build_inv_def)
  then show ?thesis using r
    by (auto simp: search_neighbors_to_add_def build_inv_def intro!: exI [of _ "vt_members vt'"])
qed

section \<open>Properties\<close>

text \<open>
  The version of \<open>search_neighbors_to_add\<close> that computes distances four at a time returns the
  same queue and visited table as the reference version kept in the code, for every graph, start
  and table, as soon as the batch function agrees with the single distances.
\<close>

theorem neighbor_search_versions_agree:
  assumes "batch_exact qdis"
  shows "search_neighbors_to_add h qdis results entry d_entry level vt False =
    search_neighbors_to_add h qdis results entry d_entry level vt True"
  by (rule search_neighbors_versions [OF assms, symmetric])

theorem neighbor_search_versions_agree_witness:
  "search_neighbors_to_add example_graph (default_computer (\<lambda>v. \<bar>v - 2\<bar>) (\<lambda>v w. \<bar>v - w\<bar>)) [] 0 2 0 (vt_new 3) False =
   search_neighbors_to_add example_graph (default_computer (\<lambda>v. \<bar>v - 2\<bar>) (\<lambda>v w. \<bar>v - w\<bar>)) [] 0 2 0 (vt_new 3) True
   \<and> map_option fst (search_neighbors_to_add example_graph (default_computer (\<lambda>v. \<bar>v - 2\<bar>) (\<lambda>v w. \<bar>v - w\<bar>)) [] 0 2 0 (vt_new 3) True) =
     Some [(2, 0), (1, 1), (0, 2)]"
proof -
  have "map_option fst (search_neighbors_to_add example_graph (default_computer (\<lambda>v. \<bar>v - 2\<bar>) (\<lambda>v w. \<bar>v - w\<bar>)) [] 0 2 0 (vt_new 3) True) =
     Some [(2, 0), (1, 1), (0, 2)]" by code_simp
  then show ?thesis
    using neighbor_search_versions_agree [OF batch_exact_default, of example_graph "\<lambda>v. \<bar>v - 2\<bar>" "\<lambda>v w. \<bar>v - w\<bar>" "[]" 0 2 0 "vt_new 3"]
    by simp
qed

end
