(* ===== verification/Hnsw_Build_Correct.thy ===== *)
theory Hnsw_Build_Correct
  imports Hnsw_Build
begin

text \<open>
  Adding a point keeps the graph well formed, takes one lock at a time, and always returns.
\<close>

section \<open>Frames\<close>

lemma rewired_refl: "rewired h h l v"
  by (simp add: rewired_def)

lemma rewired_same:
  assumes "rewired h h' l v"
  shows "node_at h' = node_at h" "ntotal h' = ntotal h" "roomy h' = roomy h" "efConstruction h' = efConstruction h"
    "neighbor_range h' = neighbor_range h" "nb_neighbors h' = nb_neighbors h"
    "length (slots h' w m) = length (slots h w m)"
proof -
  have e: "h' = h\<lparr>neighbors := neighbors h'\<rparr>" using assms by (simp add: rewired_def)
  show "node_at h' = node_at h" by (intro ext) (subst e, simp)
  show "ntotal h' = ntotal h" by (subst e, simp)
  show "roomy h' = roomy h" by (subst e) (simp add: roomy_def)
  show "efConstruction h' = efConstruction h" by (subst e, simp)
  show r: "neighbor_range h' = neighbor_range h"
    by (intro ext) (subst e, simp add: neighbor_range_def cum_nb_neighbors_def)
  show "nb_neighbors h' = nb_neighbors h" by (intro ext) (subst e, simp add: nb_neighbors_def)
  show "length (slots h' w m) = length (slots h w m)" by (simp add: slots_def r split: prod.splits)
qed

lemma rewired_slots: "rewired h h' l v \<Longrightarrow> node_at h l' v' \<Longrightarrow> (l', v') \<noteq> (l, v) \<Longrightarrow>
    slots h' v' l' = slots h v' l' \<and> links h' v' l' = links h v' l'"
  unfolding rewired_def links_def by metis

lemma rewired_trans:
  assumes "rewired h h1 l v" "rewired h1 h2 l v"
  shows "rewired h h2 l v"
proof -
  have "h2 = h1\<lparr>neighbors := neighbors h2\<rparr>" "h1 = h\<lparr>neighbors := neighbors h1\<rparr>"
    using assms by (simp_all add: rewired_def)
  then have "h2 = h\<lparr>neighbors := neighbors h2\<rparr>" by (metis hnsw.update_convs(5) hnsw.surjective hnsw.select_convs(5))
  then show ?thesis using assms rewired_same(1) [OF assms(1)] unfolding rewired_def by metis
qed

text \<open>Only neighbor lists at level \<open>l\<close> of nodes in \<open>S\<close> are different.\<close>

definition rewired_set :: "hnsw \<Rightarrow> hnsw \<Rightarrow> nat \<Rightarrow> int set \<Rightarrow> bool" where
  "rewired_set h h' l S \<longleftrightarrow> h' = h\<lparr>neighbors := neighbors h'\<rparr>
     \<and> (\<forall>l' v'. node_at h l' v' \<longrightarrow> \<not> (l' = l \<and> v' \<in> S) \<longrightarrow> slots h' v' l' = slots h v' l')"

lemma frame_update:
  assumes "h' = h\<lparr>neighbors := neighbors h'\<rparr>"
  shows "node_at h' = node_at h" "ntotal h' = ntotal h" "roomy h' = roomy h" "efConstruction h' = efConstruction h"
    "entry_point h' = entry_point h" "max_level h' = max_level h" "nb_neighbors h' = nb_neighbors h"
    "levels h' = levels h" "vt_clear h' vt = vt_clear h vt"
proof -
  show "node_at h' = node_at h" by (intro ext) (subst assms, simp)
  show "ntotal h' = ntotal h" by (subst assms, simp)
  show "roomy h' = roomy h" by (subst assms) (simp add: roomy_def)
  show "efConstruction h' = efConstruction h" by (subst assms, simp)
  show "entry_point h' = entry_point h" by (subst assms, simp)
  show "max_level h' = max_level h" by (subst assms, simp)
  show "levels h' = levels h" by (subst assms, simp)
  show "nb_neighbors h' = nb_neighbors h" by (intro ext) (subst assms, simp add: nb_neighbors_def)
  show "vt_clear h' vt = vt_clear h vt" by (subst assms) (simp add: vt_clear_def)
qed

lemma frame_trans:
  fixes h h1 h2 :: hnsw
  assumes "h1 = h\<lparr>neighbors := neighbors h1\<rparr>" "h2 = h1\<lparr>neighbors := neighbors h2\<rparr>"
  shows "h2 = h\<lparr>neighbors := neighbors h2\<rparr>"
proof -
  have "h\<lparr>neighbors := neighbors h1, neighbors := neighbors h2\<rparr> = h\<lparr>neighbors := neighbors h2\<rparr>" by simp
  then show ?thesis using assms by metis
qed

section \<open>Links of the new node\<close>

lemma add_link_links:
  assumes "graph_ok h" "roomy h" "node_at h l src" "node_at h l dest"
  shows "set (links (add_link h qdis src dest l keep) src l) \<subseteq> insert dest (set (links h src l))"
proof -
  note a = add_link_correct [OF assms, of qdis keep]
  obtain b e where be: "neighbor_range h src l = (b, e)" by (metis surj_pair)
  show ?thesis
  proof (cases "length (links h src l) < length (slots h src l)")
    case True
    then show ?thesis using a(3) by auto
  next
    case False
    then have "links h src l = slots h src l"
      unfolding links_def by (metis length_takeWhile_le nat_less_le takeWhile_eq_take take_all_iff not_less)
    moreover have "set (shrink_results qdis (link_queue h qdis src dest l) (length (slots h src l)) keep)
        \<subseteq> set (link_queue h qdis src dest l)" by (rule shrink_results_set)
    ultimately show ?thesis using a(3) False by (auto simp: link_queue_def)
  qed
qed

lemma link_forward_correct:
  assumes "graph_ok h" "roomy h" "node_at h l pt" "\<forall>p \<in> set targets. node_at h l (snd p)"
  shows "graph_ok (link_forward qdis pt l keep targets h)" "rewired h (link_forward qdis pt l keep targets h) l pt"
    and "length (links h pt l) + length targets \<le> length (slots h pt l) \<Longrightarrow>
      links (link_forward qdis pt l keep targets h) pt l = links h pt l @ map snd targets"
proof -
  have "graph_ok (link_forward qdis pt l keep targets h) \<and> rewired h (link_forward qdis pt l keep targets h) l pt
    \<and> (length (links h pt l) + length targets \<le> length (slots h pt l) \<longrightarrow>
      links (link_forward qdis pt l keep targets h) pt l = links h pt l @ map snd targets)"
    using assms
  proof (induction targets arbitrary: h)
    case Nil
    then show ?case by (simp add: link_forward_def rewired_refl)
  next
    case (Cons p ps)
    let ?h1 = "add_link h qdis pt (snd p) l keep"
    have n: "node_at h l (snd p)" using Cons.prems(4) by simp
    note a = add_link_correct [OF Cons.prems(1-3) n, of qdis keep]
    note s = rewired_same [OF a(2)]
    have e: "link_forward qdis pt l keep (p # ps) h = link_forward qdis pt l keep ps ?h1"
      by (simp add: link_forward_def)
    have ps: "\<forall>p \<in> set ps. node_at ?h1 l (snd p)" using Cons.prems(4) s(1) by simp
    have r1: "roomy ?h1" "node_at ?h1 l pt" using Cons.prems(2,3) s by simp_all
    note IH = Cons.IH [OF a(1) r1 ps]
    have "links (link_forward qdis pt l keep ps ?h1) pt l = links h pt l @ map snd (p # ps)"
      if "length (links h pt l) + length (p # ps) \<le> length (slots h pt l)"
    proof -
      have l1: "links ?h1 pt l = links h pt l @ [snd p]" using a(3) that by simp
      then have "length (links ?h1 pt l) + length ps \<le> length (slots ?h1 pt l)" using that s(7) by simp
      then show ?thesis using IH l1 by simp
    qed
    moreover have "rewired h (link_forward qdis pt l keep ps ?h1) l pt" using rewired_trans [OF a(2)] IH by blast
    ultimately show ?case using IH unfolding e by blast
  qed
  then show "graph_ok (link_forward qdis pt l keep targets h)" "rewired h (link_forward qdis pt l keep targets h) l pt"
    "length (links h pt l) + length targets \<le> length (slots h pt l) \<Longrightarrow>
      links (link_forward qdis pt l keep targets h) pt l = links h pt l @ map snd targets" by blast+
qed

lemma link_forward_links:
  assumes "graph_ok h" "roomy h" "node_at h l pt" "\<forall>p \<in> set targets. node_at h l (snd p)"
  shows "set (links (link_forward qdis pt l keep targets h) pt l) \<subseteq> set (links h pt l) \<union> snd ` set targets"
  using assms
proof (induction targets arbitrary: h)
  case Nil
  then show ?case by (simp add: link_forward_def)
next
  case (Cons p ps)
  let ?h1 = "add_link h qdis pt (snd p) l keep"
  have n: "node_at h l (snd p)" using Cons.prems(4) by simp
  note a = add_link_correct [OF Cons.prems(1-3) n, of qdis keep]
  note s = rewired_same [OF a(2)]
  have "\<forall>p \<in> set ps. node_at ?h1 l (snd p)" "roomy ?h1" "node_at ?h1 l pt" using Cons.prems s by simp_all
  from Cons.IH [OF a(1) this(2,3,1)] add_link_links [OF Cons.prems(1-3) n, of qdis keep]
  show ?case by (auto simp: link_forward_def)
qed

section \<open>Links back\<close>

definition lock_pairs :: "storage_idx_t list \<Rightarrow> lock_event list" where
  "lock_pairs vs = concat (map (\<lambda>v. [Lock v, Unlock v]) vs)"

lemma lock_pairs_simps [simp]:
  "lock_pairs [] = []" "lock_pairs (v # vs) = Lock v # Unlock v # lock_pairs vs"
  "lock_pairs (us @ vs) = lock_pairs us @ lock_pairs vs"
  by (simp_all add: lock_pairs_def)

lemma link_back_correct:
  assumes "graph_ok h" "roomy h" "node_at h l pt" "\<forall>v \<in> set others. node_at h l v" "fst ls \<inter> set others = {}"
  shows "\<exists>h'. link_back qdis pt l keep others (h, ls) = Inr (h', (fst ls, snd ls @ lock_pairs others))
    \<and> graph_ok h' \<and> rewired_set h h' l (set others)
    \<and> (\<forall>v. node_at h l v \<longrightarrow> set (links h' v l) \<subseteq> insert pt (set (links h v l)))"
  using assms
proof (induction others arbitrary: h ls)
  case Nil
  then show ?case by (auto simp: rewired_set_def)
next
  case (Cons v vs)
  let ?h1 = "add_link h qdis v pt l keep"
  have n: "node_at h l v" using Cons.prems(4) by simp
  note a = add_link_correct [OF Cons.prems(1,2) n Cons.prems(3), of qdis keep]
  have f1: "?h1 = h\<lparr>neighbors := neighbors ?h1\<rparr>" using a(2) by (simp add: rewired_def)
  note s = frame_update [OF f1]
  let ?ls = "(fst ls, snd ls @ [Lock v] @ [Unlock v])"
  have "v \<notin> fst ls" using Cons.prems(5) by auto
  then have e: "link_back qdis pt l keep (v # vs) (h, ls) = link_back qdis pt l keep vs (?h1, ?ls)"
    by (simp add: omp_set_lock_def omp_unset_lock_def)
  have p1: "roomy ?h1" "node_at ?h1 l pt" "\<forall>v \<in> set vs. node_at ?h1 l v" "fst ?ls \<inter> set vs = {}"
    using Cons.prems s by auto
  from Cons.IH [OF a(1) p1] obtain h' where
    h': "link_back qdis pt l keep vs (?h1, ?ls) = Inr (h', (fst ls, snd ls @ [Lock v] @ [Unlock v] @ lock_pairs vs))"
    "graph_ok h'" "rewired_set ?h1 h' l (set vs)"
    "\<forall>w. node_at h l w \<longrightarrow> set (links h' w l) \<subseteq> insert pt (set (links ?h1 w l))"
    by (auto simp: s(1))
  have "h' = h\<lparr>neighbors := neighbors h'\<rparr>" using frame_trans [OF f1] h'(3) by (simp add: rewired_set_def)
  moreover have "slots h' w m = slots h w m" if "node_at h m w" "\<not> (m = l \<and> w \<in> set (v # vs))" for m w
  proof -
    have "slots h' w m = slots ?h1 w m" using h'(3) that s(1) unfolding rewired_set_def by auto
    also have "\<dots> = slots h w m" using rewired_slots [OF a(2) that(1)] that(2) by auto
    finally show ?thesis .
  qed
  ultimately have "rewired_set h h' l (set (v # vs))" unfolding rewired_set_def by blast
  moreover have "set (links ?h1 w l) \<subseteq> insert pt (set (links h w l))" if "node_at h l w" for w
  proof (cases "w = v")
    case True
    then show ?thesis using add_link_links [OF Cons.prems(1,2) n Cons.prems(3)] by simp
  next
    case False
    then show ?thesis using rewired_slots [OF a(2) that] by auto
  qed
  ultimately show ?case using h'(1,2,4) unfolding e
    by (intro exI [of _ h'] conjI) (simp, blast+)
qed

section \<open>One level\<close>

lemma nb_neighbors_slots:
  assumes "layout_ok h" "node_at h l v"
  shows "nb_neighbors h l = Inr (length (slots h v l))"
proof -
  obtain b e where be: "neighbor_range h v l = (b, e)" by (metis surj_pair)
  have "nat v < ntotal h" "l < levels h ! nat v" using assms(2) by (auto simp: node_at_def)
  then have "l + 1 < length (cum_nneighbor_per_level h)" using assms(1) by (fastforce simp: layout_ok_def)
  then show ?thesis using be length_slots [OF be]
    by (auto simp: nb_neighbors_def neighbor_range_def cum_nb_neighbors_def Let_def)
qed

text \<open>The state in which a level is processed: the point's own lock is held, no other.\<close>

definition build_ok :: "hnsw \<Rightarrow> visited_table \<Rightarrow> bool" where
  "build_ok h vt \<longleftrightarrow> graph_ok h \<and> roomy h \<and> 0 < efConstruction h \<and> vt_clear h vt"

lemma add_links_correct:
  assumes ok: "build_ok h vt" and b: "batch_exact qdis"
    and n: "node_at h l nearest" and pt: "node_at h l pt"
  shows "\<exists>h' vt' targets V kept.
      add_links_starting_from h qdis pt nearest (query_dis qdis nearest) l keep (({pt}, trace), vt) =
        Some (Inr (h', ({pt}, trace @ [Unlock pt] @ lock_pairs (map snd kept) @ [Lock pt]), vt'))
    \<and> build_ok h' vt' \<and> rewired_set h h' l UNIV
    \<and> nearest \<in> V \<and> V \<subseteq> reachable h l nearest
    \<and> keeps_closest (efConstruction h) (mset targets) (image_mset (\<lambda>v. (query_dis qdis v, v)) (mset_set V))
    \<and> kept = shrink_results qdis targets (length (slots h pt l)) keep
    \<and> (\<forall>v. node_at h l v \<longrightarrow> v \<noteq> pt \<longrightarrow> set (links h' v l) \<subseteq> insert pt (set (links h v l)))
    \<and> (pt \<notin> V \<longrightarrow> set (links h' pt l) \<subseteq> set (links h pt l) \<union> V)
    \<and> (pt \<notin> V \<longrightarrow> links h pt l = [] \<longrightarrow> links h' pt l = map snd kept)"
proof -
  have g: "graph_ok h" "roomy h" "0 < efConstruction h" "vt_clear h vt" using ok by (auto simp: build_ok_def)
  have lay: "layout_ok h" using g(1) by (simp add: graph_ok_def)
  from search_neighbors_correct [OF g(1) b g(4) n g(3), of False] obtain targets vt' V where
    s: "search_neighbors_to_add h qdis [] nearest (query_dis qdis nearest) l vt False = Some (targets, vt')"
    "vt_clear h vt'" "nearest \<in> V" "V \<subseteq> reachable h l nearest"
    "keeps_closest (efConstruction h) (mset targets) (image_mset (\<lambda>v. (query_dis qdis v, v)) (mset_set V))" by blast
  define M where "M = length (slots h pt l)"
  define kept where "kept = shrink_results qdis targets M keep"
  have Vn: "V \<subseteq> {v. node_at h l v}" using s(4) reachable_node [OF g(1) n] by blast
  then have fV: "finite V" using finite_nodes finite_subset by blast
  from s(5) obtain R where "image_mset (\<lambda>v. (query_dis qdis v, v)) (mset_set V) = mset targets + R"
    unfolding closer_queue.keeps_least_def by blast
  from arg_cong [OF this, of set_mset] have "set targets \<subseteq> (\<lambda>v. (query_dis qdis v, v)) ` V"
    using fV by auto
  moreover have "set kept \<subseteq> set targets" unfolding kept_def by (rule shrink_results_set)
  ultimately have kV: "set (map snd kept) \<subseteq> V" by auto
  then have kn: "\<forall>p \<in> set kept. node_at h l (snd p)" using Vn by auto
  let ?h1 = "link_forward qdis pt l keep kept h"
  note f = link_forward_correct [OF g(1,2) pt kn, of qdis keep]
  have f1: "?h1 = h\<lparr>neighbors := neighbors ?h1\<rparr>" using f(2) by (simp add: rewired_def)
  note sm = frame_update [OF f1]
  have p1: "roomy ?h1" "node_at ?h1 l pt" "\<forall>v \<in> set (map snd kept). node_at ?h1 l v"
    "fst ({} :: int set, trace @ [Unlock pt]) \<inter> set (map snd kept) = {}"
    using g(2) pt kn sm(1,3) by auto
  from link_back_correct [OF f(1) p1, of qdis keep] obtain h2 where
    h2: "link_back qdis pt l keep (map snd kept) (?h1, {}, trace @ [Unlock pt]) =
        Inr (h2, ({}, (trace @ [Unlock pt]) @ lock_pairs (map snd kept)))"
    "graph_ok h2" "rewired_set ?h1 h2 l (set (map snd kept))"
    "\<forall>v. node_at h l v \<longrightarrow> set (links h2 v l) \<subseteq> insert pt (set (links ?h1 v l))"
    unfolding sm(1) fst_conv snd_conv by blast
  have f2: "h2 = h\<lparr>neighbors := neighbors h2\<rparr>" using frame_trans [OF f1] h2(3) by (simp add: rewired_set_def)
  note sm2 = frame_update [OF f2]
  have nb: "nb_neighbors h l = Inr M" unfolding M_def by (rule nb_neighbors_slots [OF lay pt])
  have "add_links_starting_from h qdis pt nearest (query_dis qdis nearest) l keep (({pt}, trace), vt) =
      Some (Inr (h2, ({pt}, trace @ [Unlock pt] @ lock_pairs (map snd kept) @ [Lock pt]), vt'))"
    using h2(1) by (simp add: add_links_starting_from_def s(1) nb kept_def [symmetric] omp_unset_lock_def omp_set_lock_def)
  moreover have "build_ok h2 vt'" using h2(2) g(2,3) s(2) sm2 by (simp add: build_ok_def)
  moreover have "rewired_set h h2 l UNIV"
    unfolding rewired_set_def
  proof (intro conjI f2 allI impI)
    fix l' v' assume v': "node_at h l' v'" "\<not> (l' = l \<and> v' \<in> UNIV)"
    then have "slots h2 v' l' = slots ?h1 v' l'" using h2(3) sm(1) unfolding rewired_set_def by auto
    then show "slots h2 v' l' = slots h v' l'" using rewired_slots [OF f(2) v'(1)] v'(2) by auto
  qed
  moreover have "set (links h2 v l) \<subseteq> insert pt (set (links h v l))" if "node_at h l v" "v \<noteq> pt" for v
    using h2(4) [rule_format, OF that(1)] rewired_slots [OF f(2) that(1)] that(2) by simp
  moreover have own: "links h2 pt l = links ?h1 pt l" if "pt \<notin> V"
  proof -
    have "pt \<notin> set (map snd kept)" using that kV by blast
    then have "slots h2 pt l = slots ?h1 pt l" using h2(3) p1(2) unfolding rewired_set_def by blast
    then show ?thesis by (simp add: links_def)
  qed
  moreover have "set (links ?h1 pt l) \<subseteq> set (links h pt l) \<union> V"
    by (rule link_forward_links [OF g(1,2) pt kn, of qdis keep, THEN subset_trans]) (use kV in auto)
  moreover have "links ?h1 pt l = map snd kept" if "links h pt l = []"
  proof -
    have "0 < M" using roomy_range [OF lay g(2) pt] length_slots unfolding M_def by (metis surj_pair zero_less_diff)
    then have "length kept \<le> M" using shrink_results_length [of qdis targets M keep] unfolding kept_def by simp
    then show ?thesis using f(3) that by (simp add: M_def)
  qed
  ultimately show ?thesis using s(3-5) unfolding M_def [symmetric] kept_def [symmetric]
    by (intro exI [of _ h2] exI [of _ vt'] exI [of _ targets] exI [of _ V] exI [of _ kept]) (simp add: kept_def M_def)
qed

section \<open>Nodes nothing links to\<close>

definition unlinked :: "hnsw \<Rightarrow> nat \<Rightarrow> int \<Rightarrow> bool" where
  "unlinked h l pt \<longleftrightarrow> (\<forall>v. node_at h l v \<longrightarrow> pt \<notin> set (links h v l))"

definition loop_free :: "hnsw \<Rightarrow> nat \<Rightarrow> bool" where
  "loop_free h l \<longleftrightarrow> (\<forall>v. node_at h l v \<longrightarrow> v \<notin> set (links h v l))"

lemma unlinked_not_reachable:
  assumes "graph_ok h" "node_at h l n" "unlinked h l pt" "n \<noteq> pt"
  shows "pt \<notin> reachable h l n"
proof
  assume "pt \<in> reachable h l n"
  then have "(n, pt) \<in> (edges h l)\<^sup>*" by (simp add: reachable_def)
  then show False
  proof (cases rule: rtranclE)
    case (step u)
    then have "u \<in> reachable h l n" "pt \<in> set (links h u l)" by (auto simp: reachable_def edges_def)
    then show False using reachable_node [OF assms(1,2)] assms(3) by (auto simp: unlinked_def)
  qed (use assms(4) in simp)
qed

lemma greedy_avoids:
  assumes g: "graph_ok h" "batch_exact qdis" and n: "node_at h l n" "n \<noteq> pt" and u: "unlinked h l pt"
    and r: "greedy_update_nearest h qdis l n d = Some ((n', d'), st)"
  shows "n' \<noteq> pt"
proof -
  let ?I = "\<lambda>s :: (idx_t \<times> 'a) \<times> hnsw_stats. node_at h l (fst (fst s)) \<and> fst (fst s) \<noteq> pt"
  have step: "?I (s2, st2)" if "?I s" "one_by_one qdis update_with_candidate (links h (fst (fst s)) l) (fst s) = s2" for s s2 st2
  proof -
    obtain m e where m: "fst s = (m, e)" by (metis surj_pair)
    obtain n2 d2 where n2: "s2 = (n2, d2)" by (metis surj_pair)
    have "n2 = m \<or> n2 \<in> set (links h m l)" using update_all [of qdis "links h m l" "fst s" n2 d2 m e] that(2) m n2 by auto
    then show ?thesis using that(1) m n2 links_node(1) [OF g(1)] u by (auto simp: unlinked_def)
  qed
  have body: "case greedy_body h qdis l s of Inl s' \<Rightarrow> ?I s' | Inr r \<Rightarrow> ?I r" if "?I s" for s
    using step [OF that refl] that unfolding greedy_body_one_by_one [OF g(2)] Let_def by simp
  have "?I ((n', d'), st)"
  proof (rule iterate_partial [OF r [unfolded greedy_update_nearest_def], of ?I])
    show "?I ((n, d), stats_reset)" using n by simp
    show "?I s'" if "?I s" "greedy_body h qdis l s = Inl s'" for s s'
      using body [OF that(1)] unfolding that(2) sum.case .
    show "?I r" if "?I s" "greedy_body h qdis l s = Inr r" for s r
      using body [OF that(1)] unfolding that(2) sum.case .
  qed
  then show ?thesis by simp
qed

lemma descent_avoids:
  assumes "graph_ok h" "batch_exact qdis"
    and "\<forall>l \<in> set ls. unlinked h l pt \<and> l \<le> l0" "node_at h l0 n" "n \<noteq> pt" "sorted_wrt (\<ge>) ls"
    and "greedy_descent h qdis ls ((n, query_dis qdis n), st) = Some ((n', d'), st')"
  shows "n' \<noteq> pt"
  using assms(3-)
proof (induction ls arbitrary: n st l0)
  case (Cons l ls)
  have nl: "node_at h l n" using Cons.prems(1,2) node_at_mono by (metis list.set_intros(1))
  from greedy_correct [OF assms(1,2) nl] obtain n1 st1 where
    g: "greedy_update_nearest h qdis l n (query_dis qdis n) = Some ((n1, query_dis qdis n1), st1)"
    "node_at h l n1" by blast
  have "n1 \<noteq> pt" using greedy_avoids [OF assms(1,2) nl Cons.prems(3) _ g(1)] Cons.prems(1) by simp
  moreover have "\<forall>l' \<in> set ls. unlinked h l' pt \<and> l' \<le> l" using Cons.prems(1,4) by simp
  ultimately show ?case using Cons.IH [of l n1 "stats_combine st st1"] g Cons.prems(4,5) by simp
qed simp

text \<open>The links a level gives to an unlinked point.\<close>

lemma add_links_fresh:
  assumes ok: "build_ok h vt" and b: "batch_exact qdis" and n: "node_at h l nearest" and pt: "node_at h l pt"
    and fr: "unlinked h l pt" "nearest \<noteq> pt"
  shows "\<exists>h' vt' ks.
      add_links_starting_from h qdis pt nearest (query_dis qdis nearest) l keep (({pt}, trace), vt) =
        Some (Inr (h', ({pt}, trace @ [Unlock pt] @ lock_pairs ks @ [Lock pt]), vt'))
    \<and> build_ok h' vt' \<and> rewired_set h h' l UNIV \<and> (loop_free h l \<longrightarrow> loop_free h' l)
    \<and> (links h pt l = [] \<longrightarrow> links h' pt l \<noteq> [])
    \<and> (\<forall>w. unlinked h l w \<longrightarrow> w \<noteq> nearest \<longrightarrow> w \<noteq> pt \<longrightarrow> unlinked h' l w)"
proof -
  from add_links_correct [OF ok b n pt, of keep trace] obtain h' vt' targets V kept where
    c: "add_links_starting_from h qdis pt nearest (query_dis qdis nearest) l keep (({pt}, trace), vt) =
        Some (Inr (h', ({pt}, trace @ [Unlock pt] @ lock_pairs (map snd kept) @ [Lock pt]), vt'))"
    "build_ok h' vt'" "rewired_set h h' l UNIV" "nearest \<in> V" "V \<subseteq> reachable h l nearest"
    "keeps_closest (efConstruction h) (mset targets) (image_mset (\<lambda>v. (query_dis qdis v, v)) (mset_set V))"
    "kept = shrink_results qdis targets (length (slots h pt l)) keep"
    "\<forall>v. node_at h l v \<longrightarrow> v \<noteq> pt \<longrightarrow> set (links h' v l) \<subseteq> insert pt (set (links h v l))"
    "pt \<notin> V \<longrightarrow> set (links h' pt l) \<subseteq> set (links h pt l) \<union> V"
    "pt \<notin> V \<longrightarrow> links h pt l = [] \<longrightarrow> links h' pt l = map snd kept" by blast
  have g: "graph_ok h" "0 < efConstruction h" using ok by (auto simp: build_ok_def)
  have V: "pt \<notin> V" using unlinked_not_reachable [OF g(1) n fr] c(5) by blast
  have "h' = h\<lparr>neighbors := neighbors h'\<rparr>" using c(3) by (simp add: rewired_set_def)
  note sm = frame_update [OF this]
  have "loop_free h' l" if lf: "loop_free h l"
    unfolding loop_free_def sm(1)
  proof (intro allI impI)
    fix v assume v: "node_at h l v"
    have "v \<notin> set (links h v l)" using lf v by (simp add: loop_free_def)
    then show "v \<notin> set (links h' v l)" using c(8,9) V v by (cases "v = pt") auto
  qed
  moreover have "kept \<noteq> []"
  proof -
    have "V \<subseteq> {v. node_at h l v}" using c(5) reachable_node [OF g(1) n] by blast
    then have "finite V" using finite_nodes finite_subset by blast
    then have "0 < size (image_mset (\<lambda>v. (query_dis qdis v, v)) (mset_set V))" using c(4)
      by (metis card_gt_0_iff empty_iff size_image_mset size_mset_set)
    then have "0 < size (mset targets)" using c(6) g(2) by (auto simp: closer_queue.keeps_least_def)
    then show ?thesis unfolding c(7) by (intro shrink_results_nonempty) auto
  qed
  moreover have "unlinked h' l w" if w: "unlinked h l w" "w \<noteq> nearest" "w \<noteq> pt" for w
    unfolding unlinked_def sm(1)
  proof (intro allI impI)
    fix v assume v: "node_at h l v"
    have "w \<notin> V" using unlinked_not_reachable [OF g(1) n w(1)] w(2) c(5) by blast
    moreover have "w \<notin> set (links h v l)" using w(1) v by (simp add: unlinked_def)
    ultimately show "w \<notin> set (links h' v l)" using c(8,9) V v w(3) by (cases "v = pt") auto
  qed
  ultimately show ?thesis using c(1-3,10) V by (intro exI [of _ h'] exI [of _ vt'] exI [of _ "map snd kept"]) simp
qed

section \<open>All levels\<close>

lemma rewired_set_links: "rewired_set h h' l S \<Longrightarrow> node_at h l' v \<Longrightarrow> l' \<noteq> l \<Longrightarrow> links h' v l' = links h v l'"
  by (simp add: rewired_set_def links_def)

lemma rewired_set_frame: "rewired_set h h' l S \<Longrightarrow> h' = h\<lparr>neighbors := neighbors h'\<rparr>"
  by (simp add: rewired_set_def)

text \<open>What adding the links of the levels in \<open>ls\<close> promises.\<close>

definition levels_added :: "hnsw \<Rightarrow> hnsw \<Rightarrow> int \<Rightarrow> int \<Rightarrow> nat list \<Rightarrow> bool" where
  "levels_added h h' pt nearest ls \<longleftrightarrow> h' = h\<lparr>neighbors := neighbors h'\<rparr>
     \<and> (\<forall>l. l \<notin> set ls \<longrightarrow> (\<forall>v. node_at h l v \<longrightarrow> links h' v l = links h v l))
     \<and> (\<forall>l. loop_free h l \<longrightarrow> loop_free h' l)
     \<and> (\<forall>l \<in> set ls. links h pt l = [] \<longrightarrow> links h' pt l \<noteq> [])
     \<and> (\<forall>l w. unlinked h l w \<longrightarrow> w \<noteq> nearest \<longrightarrow> w \<noteq> pt \<longrightarrow> unlinked h' l w)"

lemma add_levels_correct:
  assumes "build_ok h vt" "batch_exact qdis" "distinct ls" "nearest \<noteq> pt"
    and "\<forall>l \<in> set ls. node_at h l nearest \<and> node_at h l pt \<and> unlinked h l pt"
  shows "\<exists>h' vt' trace' ws. add_levels qdis pt nearest (query_dis qdis nearest) keep ls (h, ({pt}, trace), vt) =
      Some (Inr (h', ({pt}, trace @ trace'), vt'))
    \<and> build_ok h' vt' \<and> levels_added h h' pt nearest ls \<and> Lock pt # trace' @ [Unlock pt] = lock_pairs ws"
  using assms(1,3,5)
proof (induction ls arbitrary: h vt trace)
  case Nil
  have "Lock pt # [] @ [Unlock pt] = lock_pairs [pt]" by simp
  then show ?case using Nil.prems by (auto simp: levels_added_def intro!: exI [of _ "[]"] exI [of _ "[pt]"])
next
  case (Cons l ls)
  have n: "node_at h l nearest" "node_at h l pt" "unlinked h l pt" using Cons.prems(3) by auto
  from add_links_fresh [OF Cons.prems(1) assms(2) n assms(4), of keep trace] obtain h1 vt1 ks where
    a: "add_links_starting_from h qdis pt nearest (query_dis qdis nearest) l keep (({pt}, trace), vt) =
        Some (Inr (h1, ({pt}, trace @ [Unlock pt] @ lock_pairs ks @ [Lock pt]), vt1))"
    "build_ok h1 vt1" "rewired_set h h1 l UNIV" "loop_free h l \<longrightarrow> loop_free h1 l"
    "links h pt l = [] \<longrightarrow> links h1 pt l \<noteq> []"
    "\<forall>w. unlinked h l w \<longrightarrow> w \<noteq> nearest \<longrightarrow> w \<noteq> pt \<longrightarrow> unlinked h1 l w" by blast
  note f1 = rewired_set_frame [OF a(3)] and other = rewired_set_links [OF a(3)]
  note sm = frame_update [OF f1]
  have l: "l \<notin> set ls" "distinct ls" using Cons.prems(2) by auto
  have ls: "\<forall>l' \<in> set ls. node_at h1 l' nearest \<and> node_at h1 l' pt \<and> unlinked h1 l' pt"
  proof
    fix l' assume l': "l' \<in> set ls"
    then have "l' \<noteq> l" using l by auto
    then have "unlinked h1 l' pt" using Cons.prems(3) l' other by (simp add: unlinked_def sm(1))
    then show "node_at h1 l' nearest \<and> node_at h1 l' pt \<and> unlinked h1 l' pt" using Cons.prems(3) l' sm(1) by simp
  qed
  from Cons.IH [OF a(2) l(2) ls, of "trace @ [Unlock pt] @ lock_pairs ks @ [Lock pt]"] obtain h' vt' tr ws where
    b: "add_levels qdis pt nearest (query_dis qdis nearest) keep ls
        (h1, ({pt}, trace @ [Unlock pt] @ lock_pairs ks @ [Lock pt]), vt1) =
        Some (Inr (h', ({pt}, (trace @ [Unlock pt] @ lock_pairs ks @ [Lock pt]) @ tr), vt'))"
    "build_ok h' vt'" "levels_added h1 h' pt nearest ls" "Lock pt # tr @ [Unlock pt] = lock_pairs ws" by blast
  have d: "h' = h1\<lparr>neighbors := neighbors h'\<rparr>" "\<forall>l. l \<notin> set ls \<longrightarrow> (\<forall>v. node_at h l v \<longrightarrow> links h' v l = links h1 v l)"
    "\<forall>l. loop_free h1 l \<longrightarrow> loop_free h' l" "\<forall>l \<in> set ls. links h1 pt l = [] \<longrightarrow> links h' pt l \<noteq> []"
    "\<forall>l w. unlinked h1 l w \<longrightarrow> w \<noteq> nearest \<longrightarrow> w \<noteq> pt \<longrightarrow> unlinked h' l w"
    using b(3) unfolding levels_added_def sm(1) by blast+
  have "loop_free h' l'" if lf: "loop_free h l'" for l'
  proof (cases "l' = l")
    case False
    then have "loop_free h1 l'" using lf other unfolding loop_free_def sm(1) by simp
    then show ?thesis using d(3) by blast
  qed (use a(4) lf d(3) in blast)
  moreover have "links h' pt l' \<noteq> []" if "l' \<in> set (l # ls)" "links h pt l' = []" for l'
  proof (cases "l' = l")
    case True
    then show ?thesis using a(5) that(2) d(2) l(1) n(2) by simp
  next
    case False
    then have "l' \<in> set ls" using that(1) by simp
    moreover have "links h1 pt l' = []" using other False Cons.prems(3) that by simp
    ultimately show ?thesis using d(4) by blast
  qed
  moreover have "links h' v l' = links h v l'" if "l' \<notin> set (l # ls)" "node_at h l' v" for l' v
    using that d(2) other by simp
  moreover have "unlinked h' l' w" if w: "unlinked h l' w" "w \<noteq> nearest" "w \<noteq> pt" for l' w
  proof (cases "l' = l")
    case True
    then show ?thesis using w a(6) d(5) by blast
  next
    case False
    then have "unlinked h1 l' w" using w(1) other by (simp add: unlinked_def sm(1))
    then show ?thesis using w d(5) by blast
  qed
  ultimately have "levels_added h h' pt nearest (l # ls)"
    using frame_trans [OF f1 d(1)] unfolding levels_added_def by blast
  moreover have "Lock pt # ([Unlock pt] @ lock_pairs ks @ [Lock pt] @ tr) @ [Unlock pt] = lock_pairs (pt # ks @ ws)"
    using b(4) by simp
  ultimately show ?case using a(1) b(1,2)
    by (intro exI [of _ h'] exI [of _ vt'] exI [of _ "[Unlock pt] @ lock_pairs ks @ [Lock pt] @ tr"]
        exI [of _ "pt # ks @ ws"] conjI) simp_all
qed

text \<open>
  A point to be added: it has its place in the tables, is not the entry point, and nothing
  links to it yet.
\<close>

definition new_point :: "hnsw \<Rightarrow> nat \<Rightarrow> int \<Rightarrow> bool" where
  "new_point h pt_level pt \<longleftrightarrow> node_at h pt_level pt \<and> entry_point h \<noteq> pt \<and> (\<forall>l. unlinked h l pt)"

lemma distinct_levels_down: "distinct (levels_down a b)" if "0 \<le> b"
  using that by (auto simp: levels_down_def distinct_map inj_on_def)

lemma levels_added_nil: "levels_added h h pt nearest []"
  by (simp add: levels_added_def)

lemma add_point_correct:
  assumes ok: "build_ok h vt" and b: "batch_exact qdis" and e: "entry_ok h" and pt: "new_point h pt_level pt"
  shows "\<exists>h' vt' ws. add_with_locks h qdis pt_level pt keep (({}, []), vt) = Some (Inr (h', ({}, lock_pairs ws), vt'))
    \<and> build_ok h' vt' \<and> entry_ok h' \<and> entry_point h' \<noteq> -1 \<and> levels h' = levels h
    \<and> max_level h' = (if entry_point h = -1 then int pt_level else max (max_level h) (int pt_level))
    \<and> (\<forall>l. loop_free h l \<longrightarrow> loop_free h' l)
    \<and> (entry_point h \<noteq> -1 \<longrightarrow> (\<forall>l. int l \<le> min (max_level h) (int pt_level) \<longrightarrow> links h pt l = [] \<longrightarrow> links h' pt l \<noteq> []))
    \<and> h' = h\<lparr>neighbors := neighbors h', max_level := max_level h', entry_point := entry_point h'\<rparr>
    \<and> (\<forall>w. (\<forall>l. unlinked h l w) \<longrightarrow> entry_point h \<noteq> w \<longrightarrow> w \<noteq> pt \<longrightarrow> (\<forall>l. unlinked h' l w) \<and> entry_point h' \<noteq> w)"
proof (cases "entry_point h = -1")
  case True
  let ?h = "h\<lparr>max_level := int pt_level, entry_point := pt\<rparr>"
  have na: "node_at ?h = node_at h" by (intro ext) (simp add: node_at_def)
  have li: "links ?h = links h" "slots ?h = slots h"
    by (intro ext, simp add: links_def slots_def neighbor_range_def cum_nb_neighbors_def)+
  have "graph_ok ?h" using ok na li unfolding build_ok_def graph_ok_def links_ok_def
    by (simp add: layout_ok_def sizes_ok_def cum_nb_neighbors_def)
  then have "build_ok ?h vt" using ok by (simp add: build_ok_def roomy_def vt_clear_def)
  moreover have "entry_ok ?h" using pt na by (simp add: entry_ok_def new_point_def)
  moreover have "pt \<noteq> -1" using pt by (auto simp: new_point_def node_at_def)
  moreover have "\<forall>l. loop_free h l \<longrightarrow> loop_free ?h l" by (simp add: loop_free_def na li)
  moreover have "unlinked ?h = unlinked h" by (intro ext) (simp add: unlinked_def na li)
  ultimately show ?thesis using True
    by (intro exI [of _ ?h] exI [of _ vt] exI [of _ "[]"]) (simp add: add_with_locks_def)
next
  case False
  have g: "graph_ok h" using ok by (simp add: build_ok_def)
  have en: "0 \<le> max_level h" "node_at h (nat (max_level h)) (entry_point h)" using e False by (auto simp: entry_ok_def)
  have pn: "node_at h pt_level pt" "entry_point h \<noteq> pt" "\<forall>l. unlinked h l pt" using pt by (auto simp: new_point_def)
  let ?ls = "levels_down (max_level h) (int pt_level + 1)" and ?ks = "levels_down (min (max_level h) (int pt_level)) 0"
  have ls: "\<forall>l \<in> set ?ls. node_at h l (entry_point h) \<or> l \<le> nat (max_level h)"
    "\<forall>l \<in> set ?ls. unlinked h l pt \<and> l \<le> nat (max_level h)"
    using pn(3) by (auto simp: set_levels_down)
  from greedy_descent_correct [OF g b ls(1) en(2) levels_down_desc, of stats_reset]
  obtain n st where n: "greedy_descent h qdis ?ls ((entry_point h, query_dis qdis (entry_point h)), stats_reset) =
      Some ((n, query_dis qdis n), st)" "if ?ls = [] then n = entry_point h else node_at h (last ?ls) n" by blast
  have npt: "n \<noteq> pt" by (rule descent_avoids [OF g b ls(2) en(2) pn(2) levels_down_desc n(1)])
  have ks: "\<forall>l \<in> set ?ks. node_at h l n \<and> node_at h l pt \<and> unlinked h l pt"
  proof
    fix l assume "l \<in> set ?ks"
    then have l: "l \<le> nat (max_level h)" "l \<le> pt_level" by (auto simp: set_levels_down)
    have "node_at h l n"
    proof (cases "?ls = []")
      case True
      then show ?thesis using n(2) node_at_mono [OF en(2) l(1)] by simp
    next
      case ne: False
      then have "int pt_level + 1 \<le> int (last ?ls)" using set_levels_down [of "int pt_level + 1"] last_in_set by fastforce
      then show ?thesis using n(2) ne l(2) node_at_mono [of h "last ?ls" n l] by simp
    qed
    then show "node_at h l n \<and> node_at h l pt \<and> unlinked h l pt" using node_at_mono [OF pn(1) l(2)] pn(3) by blast
  qed
  have "distinct ?ks" by (rule distinct_levels_down) simp
  from add_levels_correct [OF ok b this npt ks, of keep "[Lock pt]"] obtain h1 vt' tr ws where
    a: "add_levels qdis pt n (query_dis qdis n) keep ?ks (h, ({pt}, [Lock pt]), vt) =
        Some (Inr (h1, ({pt}, [Lock pt] @ tr), vt'))"
    "build_ok h1 vt'" "levels_added h h1 pt n ?ks" "Lock pt # tr @ [Unlock pt] = lock_pairs ws" by blast
  have f: "h1 = h\<lparr>neighbors := neighbors h1\<rparr>" using a(3) by (simp add: levels_added_def)
  note sm = frame_update [OF f]
  let ?h = "if int pt_level > max_level h1 then h1\<lparr>max_level := int pt_level, entry_point := pt\<rparr> else h1"
  have na: "node_at ?h = node_at h" unfolding sm(1) [symmetric] by (intro ext) (simp add: node_at_def)
  have li: "links ?h = links h1" "slots ?h = slots h1"
    by (intro ext, simp add: links_def slots_def neighbor_range_def cum_nb_neighbors_def)+
  have "graph_ok ?h" using a(2) unfolding build_ok_def graph_ok_def links_ok_def na li sm(1)
    by (simp add: layout_ok_def sizes_ok_def cum_nb_neighbors_def)
  then have "build_ok ?h vt'" using a(2) by (auto simp: build_ok_def roomy_def vt_clear_def)
  moreover have "entry_ok ?h" using pn(1) en sm by (auto simp: entry_ok_def na sm(1) node_at_def)
  moreover have "entry_point ?h \<noteq> -1" using pn(1) False sm(5) by (auto simp: node_at_def)
  moreover have "loop_free ?h l" if "loop_free h l" for l
    using a(3) that unfolding levels_added_def loop_free_def li na sm(1) by blast
  moreover have "links ?h pt l \<noteq> []" if "int l \<le> min (max_level h) (int pt_level)" "links h pt l = []" for l
  proof -
    have "l \<in> set ?ks" using that(1) by (simp add: set_levels_down)
    then show ?thesis using a(3) that(2) unfolding li levels_added_def by blast
  qed
  moreover have "add_with_locks h qdis pt_level pt keep (({}, []), vt) = Some (Inr (?h, ({}, lock_pairs ws), vt'))"
    using False en n(1) a(1,4) by (simp add: add_with_locks_def omp_set_lock_def omp_unset_lock_def Let_def node_at_def)
  moreover have "max_level ?h = max (max_level h) (int pt_level)" "levels ?h = levels h" using sm by auto
  moreover have "?h = h\<lparr>neighbors := neighbors ?h, max_level := max_level ?h, entry_point := entry_point ?h\<rparr>"
  proof -
    obtain ns where "h1 = h\<lparr>neighbors := ns\<rparr>" using f by blast
    then show ?thesis by (cases h) simp
  qed
  moreover have "(\<forall>l. unlinked ?h l w) \<and> entry_point ?h \<noteq> w"
    if w: "\<forall>l. unlinked h l w" "entry_point h \<noteq> w" "w \<noteq> pt" for w
  proof -
    have u: "\<forall>l \<in> set ?ls. unlinked h l w \<and> l \<le> nat (max_level h)"
      using w(1) by (auto simp: set_levels_down)
    have "n \<noteq> w" by (rule descent_avoids [OF g b u en(2) w(2) levels_down_desc n(1)])
    then have "\<forall>l. unlinked h1 l w" using a(3) w unfolding levels_added_def by blast
    moreover have "unlinked ?h = unlinked h1" by (intro ext) (simp add: unlinked_def na li sm(1))
    ultimately show ?thesis using w(2,3) sm(5) by simp
  qed
  ultimately show ?thesis using False
    by (intro exI [of _ ?h] exI [of _ vt'] exI [of _ ws]) simp
qed

section \<open>Properties\<close>

lemma all_links_code:
  "(\<forall>l v. node_at h l v \<longrightarrow> w \<notin> set (links h v l)) \<longleftrightarrow>
   (\<forall>i \<in> set [0..<ntotal h]. \<forall>l \<in> set [0..<levels h ! i]. w \<notin> set (links h (int i) l))"
proof
  assume r: "\<forall>i \<in> set [0..<ntotal h]. \<forall>l \<in> set [0..<levels h ! i]. w \<notin> set (links h (int i) l)"
  show "\<forall>l v. node_at h l v \<longrightarrow> w \<notin> set (links h v l)"
  proof (intro allI impI)
    fix l v assume "node_at h l v"
    then have "nat v < ntotal h" "l < levels h ! nat v" "v = int (nat v)" by (auto simp: node_at_def)
    then show "w \<notin> set (links h v l)" using r by (metis atLeastLessThan_iff set_upt zero_le)
  qed
qed (auto simp: node_at_def)

text \<open>The example graph with room for one more point, node 3.\<close>

definition example_next :: hnsw where
  "example_next = example_graph\<lparr>levels := [1, 2, 1, 1], offsets := [0, 2, 5, 7, 9],
     neighbors := [1, -1, 0, 2, -1, 1, -1, -1, -1]\<rparr>"



end
