(* ===== verification/Hnsw_Locks.thy ===== *)
theory Hnsw_Locks
  imports Hnsw_Build_Correct
begin

text \<open>
  The lock discipline of parallel insertion. \<open>IndexHNSW\<close> inserts the points of one level from
  several threads, each running \<open>add_with_locks\<close>; a thread's lock operations are the log that the
  model returns. Threads interleave in any way; \<open>Lock v\<close> waits while \<open>v\<close> is held.
\<close>

section \<open>The trace of one insertion\<close>

lemma map_sum_Inr_iff: "map_sum f g x = Inr y \<longleftrightarrow> (\<exists>z. x = Inr z \<and> y = g z)"
  by (cases x) auto

lemma link_back_trace:
  "link_back qdis pt l keep others (h, ls) = Inr (h', ls') \<Longrightarrow> snd ls' = snd ls @ lock_pairs others"
proof (induction others arbitrary: h ls)
  case (Cons v vs)
  then show ?case
    by (fastforce simp: omp_set_lock_def omp_unset_lock_def bind_result_Inr_iff Let_def split: if_splits)
qed simp

lemma add_links_trace:
  assumes "add_links_starting_from h qdis pt nearest d l keep (ls, vt) = Some (Inr (h', ls', vt'))"
  shows "\<exists>ks. snd ls' = snd ls @ [Unlock pt] @ lock_pairs ks @ [Lock pt]"
proof -
  from assms obtain targets vt1 M h1 ls1 h2 ls2 ks where
    a: "omp_unset_lock pt ls = Inr ls1" "link_back qdis pt l keep ks (h1, ls1) = Inr (h2, ls2)"
      "omp_set_lock pt ls2 = Inr ls'"
    by (auto simp: add_links_starting_from_def bind_result_Inr_iff Let_def)
  then have "snd ls1 = snd ls @ [Unlock pt]" "snd ls' = snd ls2 @ [Lock pt]"
    by (auto simp: omp_set_lock_def omp_unset_lock_def split: if_splits)
  then show ?thesis using link_back_trace [OF a(2)] by auto
qed

lemma add_levels_trace:
  assumes "add_levels qdis pt nearest d keep ls (h, lk, vt) = Some (Inr (h', lk', vt'))"
  shows "\<exists>tr ws. snd lk' = snd lk @ tr \<and> Lock pt # tr @ [Unlock pt] = lock_pairs ws"
  using assms
proof (induction ls arbitrary: h lk vt)
  case Nil
  have "Lock pt # [] @ [Unlock pt] = lock_pairs [pt]" by simp
  then show ?case using Nil by (intro exI [of _ "[]"] exI [of _ "[pt]"]) simp
next
  case (Cons l ls)
  from Cons.prems obtain h1 lk1 vt1 where
    a: "add_links_starting_from h qdis pt nearest d l keep (lk, vt) = Some (Inr (h1, lk1, vt1))"
    "add_levels qdis pt nearest d keep ls (h1, lk1, vt1) = Some (Inr (h', lk', vt'))"
    by (auto split: option.splits sum.splits)
  from add_links_trace [OF a(1)] obtain ks where k: "snd lk1 = snd lk @ [Unlock pt] @ lock_pairs ks @ [Lock pt]" by blast
  from Cons.IH [OF a(2)] obtain tr ws where t: "snd lk' = snd lk1 @ tr" "Lock pt # tr @ [Unlock pt] = lock_pairs ws" by blast
  have "Lock pt # ([Unlock pt] @ lock_pairs ks @ [Lock pt] @ tr) @ [Unlock pt] = lock_pairs (pt # ks @ ws)"
    using t(2) by simp
  then show ?case using k t(1)
    by (intro exI [of _ "[Unlock pt] @ lock_pairs ks @ [Lock pt] @ tr"] exI [of _ "pt # ks @ ws"]) simp
qed

lemma insertion_trace_pairs:
  assumes "add_with_locks h qdis pt_level pt keep ((held, []), vt) = Some (Inr (h', (held', trace), vt'))"
  shows "\<exists>ws. trace = lock_pairs ws"
proof -
  have nil: "\<exists>ws. [] = lock_pairs ws" by (rule exI [of _ "[]"]) simp
  show ?thesis using assms nil
    by (auto simp: add_with_locks_def Let_def bind_result_Inr_iff omp_set_lock_def omp_unset_lock_def
        split: if_splits option.splits sum.splits prod.splits dest!: add_levels_trace)
qed

section \<open>Interleavings\<close>

type_synonym threads = "lock_event list list \<times> (storage_idx_t \<rightharpoonup> nat)"

inductive lock_step :: "threads \<Rightarrow> threads \<Rightarrow> bool" where
  step_lock: "i < length ts \<Longrightarrow> ts ! i = Lock v # rest \<Longrightarrow> held v = None \<Longrightarrow>
    lock_step (ts, held) (ts[i := rest], held(v \<mapsto> i))"
| step_unlock: "i < length ts \<Longrightarrow> ts ! i = Unlock v # rest \<Longrightarrow> held v = Some i \<Longrightarrow>
    lock_step (ts, held) (ts[i := rest], held(v := None))"

inductive_cases lock_stepE: "lock_step s s'"

definition finished :: "threads \<Rightarrow> bool" where
  "finished s \<longleftrightarrow> (\<forall>t \<in> set (fst s). t = []) "

text \<open>A thread holds no lock before a pair, and exactly the one it is about to release inside one.\<close>

definition threads_ok :: "threads \<Rightarrow> bool" where
  "threads_ok s \<longleftrightarrow> (\<forall>i < length (fst s). \<exists>ws. fst s ! i = lock_pairs ws \<and> (\<forall>v. snd s v \<noteq> Some i)
      \<or> (\<exists>v. fst s ! i = Unlock v # lock_pairs ws \<and> (\<forall>w. snd s w = Some i \<longleftrightarrow> w = v)))
    \<and> (\<forall>v i. snd s v = Some i \<longrightarrow> i < length (fst s))"

lemma lock_pairs_head:
  "lock_pairs ws = Lock v # rest \<Longrightarrow> \<exists>us. ws = v # us \<and> rest = Unlock v # lock_pairs us"
  "lock_pairs ws \<noteq> Unlock v # rest"
  by (cases ws, auto)+

lemma threads_ok_step:
  assumes "lock_step s s'" "threads_ok s"
  shows "threads_ok s'"
  using assms(1)
proof (cases rule: lock_step.cases)
  case (step_lock i ts v rest held)
  from assms(2) step_lock obtain ws where "ts ! i = lock_pairs ws" "\<forall>w. held w \<noteq> Some i"
    unfolding threads_ok_def by (metis fst_conv list.inject lock_event.distinct(1) snd_conv)
  with step_lock obtain us where us: "rest = Unlock v # lock_pairs us" using lock_pairs_head(1) by metis
  show ?thesis unfolding threads_ok_def
  proof (intro conjI allI impI)
    fix j assume j: "j < length (fst s')"
    show "\<exists>ws. fst s' ! j = lock_pairs ws \<and> (\<forall>v. snd s' v \<noteq> Some j)
      \<or> (\<exists>v. fst s' ! j = Unlock v # lock_pairs ws \<and> (\<forall>w. snd s' w = Some j \<longleftrightarrow> w = v))"
    proof (cases "j = i")
      case True
      then show ?thesis using step_lock us \<open>\<forall>w. held w \<noteq> Some i\<close> by (intro exI [of _ us]) auto
    next
      case False
      then have "fst s' ! j = fst s ! j" "\<forall>w. snd s' w = Some j \<longleftrightarrow> snd s w = Some j"
        using step_lock by auto
      moreover have "j < length (fst s)" using j step_lock by simp
      ultimately show ?thesis using assms(2) unfolding threads_ok_def by metis
    qed
  next
    fix w j assume "snd s' w = Some j"
    then show "j < length (fst s')" using step_lock assms(2) by (auto simp: threads_ok_def split: if_splits)
  qed
next
  case (step_unlock i ts v rest held)
  from assms(2) step_unlock obtain us where us: "rest = lock_pairs us" "\<forall>w. held w = Some i \<longleftrightarrow> w = v"
    unfolding threads_ok_def by (metis fst_conv list.inject lock_event.inject(2) lock_pairs_head(2) snd_conv)
  show ?thesis unfolding threads_ok_def
  proof (intro conjI allI impI)
    fix j assume j: "j < length (fst s')"
    show "\<exists>ws. fst s' ! j = lock_pairs ws \<and> (\<forall>v. snd s' v \<noteq> Some j)
      \<or> (\<exists>v. fst s' ! j = Unlock v # lock_pairs ws \<and> (\<forall>w. snd s' w = Some j \<longleftrightarrow> w = v))"
    proof (cases "j = i")
      case True
      then show ?thesis using step_unlock us by (intro exI [of _ us]) auto
    next
      case False
      then have "fst s' ! j = fst s ! j" "\<forall>w. snd s' w = Some j \<longleftrightarrow> snd s w = Some j"
        using step_unlock by auto
      moreover have "j < length (fst s)" using j step_unlock by simp
      ultimately show ?thesis using assms(2) unfolding threads_ok_def by metis
    qed
  next
    fix w j assume "snd s' w = Some j"
    then show "j < length (fst s')" using step_unlock assms(2) by (auto simp: threads_ok_def split: if_splits)
  qed
qed

lemma threads_ok_progress:
  assumes "threads_ok s" "\<not> finished s"
  shows "\<exists>s'. lock_step s s'"
proof -
  obtain ts held where s: "s = (ts, held)" by (metis surj_pair)
  from assms(2) s obtain i where i: "i < length ts" "ts ! i \<noteq> []" by (auto simp: finished_def in_set_conv_nth)
  from assms(1) s i(1) obtain ws where ws: "ts ! i = lock_pairs ws \<and> (\<forall>v. held v \<noteq> Some i)
      \<or> (\<exists>v. ts ! i = Unlock v # lock_pairs ws \<and> (\<forall>w. held w = Some i \<longleftrightarrow> w = v))"
    unfolding threads_ok_def by auto
  have unlock: "\<exists>s'. lock_step s s'" if "j < length ts" "ts ! j = Unlock v # r" "held v = Some j" for j v r
    using lock_step.step_unlock [of j ts v r held] that s by blast
  from ws show ?thesis
  proof (elim disjE conjE exE)
    assume p: "ts ! i = lock_pairs ws"
    then obtain v us where v: "ws = v # us" using i(2) by (cases ws) auto
    show ?thesis
    proof (cases "held v")
      case None
      then show ?thesis using lock_step.step_lock [of i ts v "Unlock v # lock_pairs us" held] i p v s by auto
    next
      case (Some j)
      then have j: "j < length ts" using assms(1) s by (auto simp: threads_ok_def)
      with assms(1) s Some obtain ws' where "ts ! j = Unlock v # lock_pairs ws'"
        unfolding threads_ok_def by (metis fst_conv snd_conv)
      then show ?thesis using unlock [OF j] Some by blast
    qed
  next
    fix v assume "ts ! i = Unlock v # lock_pairs ws" "\<forall>w. held w = Some i \<longleftrightarrow> w = v"
    then show ?thesis using unlock [OF i(1)] by blast
  qed
qed

text \<open>Every step uses up an event, so every run is finite.\<close>

lemma lock_step_shrinks: "lock_step s s' \<Longrightarrow> sum_list (map length (fst s')) < sum_list (map length (fst s))"
proof -
  have upd: "sum_list (map length (ts[i := rest])) < sum_list (map length ts)"
    if "i < length ts" "ts ! i = e # rest" for ts :: "'a list list" and i e rest
    using that by (induction ts arbitrary: i) (auto split: nat.split)
  show "lock_step s s' \<Longrightarrow> sum_list (map length (fst s')) < sum_list (map length (fst s))"
    by (erule lock_step.cases) (auto intro: upd)
qed

lemma threads_ok_steps: "lock_step\<^sup>*\<^sup>* s s' \<Longrightarrow> threads_ok s \<Longrightarrow> threads_ok s'"
  by (induction rule: rtranclp_induct) (auto intro: threads_ok_step)

lemma threads_ok_completes:
  assumes "threads_ok s"
  shows "\<exists>s'. lock_step\<^sup>*\<^sup>* s s' \<and> finished s' \<and> threads_ok s'"
  using assms
proof (induction "sum_list (map length (fst s))" arbitrary: s rule: less_induct)
  case less
  show ?case
  proof (cases "finished s")
    case False
    from threads_ok_progress [OF less.prems False] obtain s1 where s1: "lock_step s s1" by blast
    from less.hyps [OF lock_step_shrinks [OF s1] threads_ok_step [OF s1 less.prems]] obtain s' where
      "lock_step\<^sup>*\<^sup>* s1 s'" "finished s'" "threads_ok s'" by blast
    then show ?thesis using converse_rtranclp_into_rtranclp [of lock_step, OF s1] by blast
  qed (use less.prems in blast)
qed

lemma finished_free: "threads_ok s \<Longrightarrow> finished s \<Longrightarrow> snd s v = None"
proof (rule ccontr)
  assume t: "threads_ok s" "finished s" "snd s v \<noteq> None"
  then obtain i where i: "snd s v = Some i" by blast
  then have l: "i < length (fst s)" using t(1) by (auto simp: threads_ok_def)
  then have "fst s ! i = []" using t(2) by (auto simp: finished_def)
  moreover obtain ws where "fst s ! i = lock_pairs ws \<and> (\<forall>v. snd s v \<noteq> Some i)
      \<or> (\<exists>v. fst s ! i = Unlock v # lock_pairs ws \<and> (\<forall>w. snd s w = Some i \<longleftrightarrow> w = v))"
    using t(1) l unfolding threads_ok_def by blast
  ultimately show False using i by auto
qed

section \<open>Properties\<close>

text \<open>A sequence of lock operations that some insertion performs, in whatever graph it finds.\<close>

definition insertion_trace :: "('d :: linorder) distance_computer \<Rightarrow> lock_event list \<Rightarrow> bool" where
  "insertion_trace qdis trace \<longleftrightarrow> (\<exists>h pt_level pt keep held vt h' held' vt'.
     add_with_locks h qdis pt_level pt keep ((held, []), vt) = Some (Inr (h', (held', trace), vt')))"

text \<open>
  C16. Insertions running in parallel cannot deadlock: however the lock operations of any number of
  threads are interleaved, as long as some thread has not finished one of them can go on, and every
  state reached can be completed to one in which all threads have finished and no lock is held.
\<close>

theorem parallel_insertion_no_deadlock:
  assumes "list_all2 insertion_trace qs ts" "lock_step\<^sup>*\<^sup>* (ts, \<lambda>_. None) s"
  shows "(finished s \<or> (\<exists>s'. lock_step s s'))
    \<and> (\<exists>s'. lock_step\<^sup>*\<^sup>* s s' \<and> finished s' \<and> (\<forall>v. snd s' v = None))"
proof -
  have "\<exists>ws. ts ! i = lock_pairs ws" if "i < length ts" for i
  proof -
    have "insertion_trace (qs ! i) (ts ! i)" using assms(1) that by (simp add: list_all2_conv_all_nth)
    then show ?thesis unfolding insertion_trace_def using insertion_trace_pairs by blast
  qed
  then have "threads_ok (ts, \<lambda>_. None)" by (auto simp: threads_ok_def)
  then have ok: "threads_ok s" using threads_ok_steps [OF assms(2)] by blast
  from threads_ok_completes [OF ok] obtain s' where "lock_step\<^sup>*\<^sup>* s s'" "finished s'" "threads_ok s'" by blast
  then show ?thesis using threads_ok_progress [OF ok] finished_free by blast
qed

theorem parallel_insertion_no_deadlock_witness:
  "\<exists>s'. lock_step\<^sup>*\<^sup>* ([lock_pairs [3, 2, 3], lock_pairs [3, 2, 3]], \<lambda>_. None) s' \<and> finished s' \<and> (\<forall>v. snd s' v = None)"
proof -
  let ?q = "default_computer (\<lambda>v. \<bar>v - 3\<bar>) (\<lambda>v w. \<bar>v - w\<bar>) :: int distance_computer"
  have "map_option (map_sum (\<lambda>_. ()) (\<lambda>(h, (held, trace), vt). trace))
      (add_with_locks example_next ?q 0 3 False (({}, []), vt_new 4)) = Some (Inr (lock_pairs [3, 2, 3]))" by code_simp
  then obtain h' held' vt' where "add_with_locks example_next ?q 0 3 False (({}, []), vt_new 4) =
      Some (Inr (h', (held', lock_pairs [3, 2, 3]), vt'))" by (auto simp: map_sum_Inr_iff)
  then have "insertion_trace ?q (lock_pairs [3, 2, 3])" unfolding insertion_trace_def by blast
  then have "list_all2 insertion_trace [?q, ?q] [lock_pairs [3, 2, 3], lock_pairs [3, 2, 3]]" by simp
  from parallel_insertion_no_deadlock [OF this rtranclp.rtrancl_refl] show ?thesis by blast
qed

end
