(* ===== verification/Hnsw_Navix.thy ===== *)
theory Hnsw_Navix
  imports Hnsw_Search
begin

text \<open>
  The Navix filtered search (\<open>HNSW.cpp\<close> lines 988-1473). The filter is a predicate on node ids
  (\<open>filter_id_map[v] != 0\<close>). \<open>node_array_t\<close> is a \<open>std::array\<close> of 4096 entries with a size next
  to it; writing past its end is the fault \<open>Out_of_bounds\<close>. The functions read
  \<open>neighbors[begin..end)\<close>; here they get that part of the list.
\<close>

type_synonym filter_map = "idx_t \<Rightarrow> bool"

definition push_node :: "storage_idx_t \<Rightarrow> storage_idx_t list \<Rightarrow> storage_idx_t list result" where
  "push_node v node_array = (if length node_array < 4096 then Inr (node_array @ [v]) else Inl Out_of_bounds)"

section \<open>Distances\<close>

text \<open>The two loops of the batch functions: fours while more than four are left, then singly.\<close>

fun batch_nodes :: "'d distance_computer \<Rightarrow> (idx_t \<Rightarrow> 'd \<Rightarrow> 's \<Rightarrow> 's) \<Rightarrow> storage_idx_t list \<Rightarrow> 's \<Rightarrow> 's" where
  "batch_nodes qdis upd (a # b # c # d # e # rest) s =
     batch_nodes qdis upd (e # rest) (flush4 qdis upd [a, b, c, d] s)"
| "batch_nodes qdis upd vs s = leftovers qdis upd vs s"

definition refresh :: "('r, 'd) result_handler \<Rightarrow> ('r, 'd) heap_state \<Rightarrow> ('r, 'd) heap_state" where
  "refresh H s = s\<lparr>hs_threshold := threshold_of H (hs_res s), hs_nres := 0\<rparr>"

definition navix_batch_compute_distance ::
    "storage_idx_t list \<Rightarrow> ('d :: linorder) distance_computer \<Rightarrow> ('r, 'd) result_handler \<Rightarrow>
     ('r, 'd) heap_state \<times> hnsw_stats \<Rightarrow> ('r, 'd) heap_state \<times> hnsw_stats" where
  "navix_batch_compute_distance node_array qdis H st =
     (batch_nodes qdis (add_to_heap H None) node_array (refresh H (fst st)),
      (snd st)\<lparr>st_ndis := st_ndis (snd st) + length node_array\<rparr>)"

definition directed_offer ::
    "('r, 'd :: linorder) result_handler \<Rightarrow> filter_map \<Rightarrow> idx_t \<Rightarrow> 'd \<Rightarrow>
     ('d \<times> int) list \<times> ('r, 'd) heap_state \<Rightarrow> ('d \<times> int) list \<times> ('r, 'd) heap_state" where
  "directed_offer H fm v d qs =
     (pq_push farther (d, v) (fst qs), if fm v then add_to_heap H None v d (snd qs) else snd qs)"

definition navix_batch_directed_compute_distance ::
    "storage_idx_t list \<Rightarrow> filter_map \<Rightarrow> ('d :: linorder) distance_computer \<Rightarrow> ('r, 'd) result_handler \<Rightarrow>
     ('d \<times> int) list \<Rightarrow> ('r, 'd) heap_state \<times> hnsw_stats \<Rightarrow>
     ('d \<times> int) list \<times> ('r, 'd) heap_state \<times> hnsw_stats" where
  "navix_batch_directed_compute_distance node_array fm qdis H nbrs_to_explore st =
     (case batch_nodes qdis (directed_offer H fm) node_array (nbrs_to_explore, refresh H (fst st)) of
        (q, s) \<Rightarrow> (q, s, (snd st)\<lparr>st_ndis := st_ndis (snd st) + length node_array\<rparr>))"

section \<open>The expansion strategies\<close>

text \<open>A node that passes the filter and is not visited yet is marked and taken.\<close>

definition navix_take ::
    "filter_map \<Rightarrow> idx_t \<Rightarrow> visited_table \<times> storage_idx_t list \<Rightarrow> (visited_table \<times> storage_idx_t list) result" where
  "navix_take fm v st =
     (case st of (vt, arr) \<Rightarrow>
        if fm v \<and> \<not> vt_get vt v then bind_result (push_node v arr) (\<lambda>arr'. Inr (vt_set vt v, arr'))
        else Inr (vt, arr))"

definition navix_one_hop ::
    "storage_idx_t list \<Rightarrow> filter_map \<Rightarrow> visited_table \<times> storage_idx_t list \<Rightarrow>
     (visited_table \<times> storage_idx_t list) result" where
  "navix_one_hop nbrs fm st = fold_result (navix_take fm) nbrs st"

definition full_two_hop_step ::
    "hnsw \<Rightarrow> filter_map \<Rightarrow> idx_t \<Rightarrow> visited_table \<times> storage_idx_t list \<times> nat \<Rightarrow>
     (visited_table \<times> storage_idx_t list \<times> nat) result" where
  "full_two_hop_step h fm v1 st =
     (case st of (vt, arr, nhops) \<Rightarrow>
        bind_result (navix_take fm v1 (vt, arr)) (\<lambda>st1.
        bind_result (fold_result (navix_take fm) (links h v1 0) st1) (\<lambda>(vt', arr').
        Inr (vt', arr', nhops + 1))))"

definition navix_full_two_hop ::
    "hnsw \<Rightarrow> storage_idx_t list \<Rightarrow> filter_map \<Rightarrow> visited_table \<times> storage_idx_t list \<times> nat \<Rightarrow>
     (visited_table \<times> storage_idx_t list \<times> nat) result" where
  "navix_full_two_hop h nbrs fm st = fold_result (full_two_hop_step h fm) nbrs st"

text \<open>Second hop of the directed and of the blind strategy: \<open>n\<close> is \<open>visited_set_size\<close>.\<close>

definition second_hop ::
    "filter_map \<Rightarrow> idx_t \<Rightarrow> nat \<times> visited_table \<times> storage_idx_t list \<Rightarrow>
     (nat \<times> visited_table \<times> storage_idx_t list) result" where
  "second_hop fm v2 st =
     (case st of (n, vt, arr) \<Rightarrow>
        let n' = (if fm v2 then n + 1 else n) in
        if vt_get vt v2 then Inr (n', vt, arr)
        else if fm v2 then bind_result (push_node v2 arr) (\<lambda>arr'. Inr (n', vt_set vt v2, arr'))
        else Inr (n', vt, arr))"

fun explore_second ::
    "hnsw \<Rightarrow> filter_map \<Rightarrow> nat \<Rightarrow> storage_idx_t list \<Rightarrow> nat \<times> visited_table \<times> storage_idx_t list \<times> nat \<Rightarrow>
     (nat \<times> visited_table \<times> storage_idx_t list \<times> nat) result" where
  "explore_second h fm to_find [] st = Inr st"
| "explore_second h fm to_find (v # queue) (n, vt, arr, nhops) =
     (if n \<ge> to_find then Inr (n, vt, arr, nhops)
      else if vt_get vt v then explore_second h fm to_find queue (n, vt, arr, nhops)
      else bind_result (fold_result (second_hop fm) (links h v 0) (n, vt_set vt v, arr))
             (\<lambda>(n', vt', arr'). explore_second h fm to_find queue (n', vt', arr', nhops + 1)))"

definition directed_first ::
    "filter_map \<Rightarrow> idx_t \<Rightarrow> nat \<times> visited_table \<times> storage_idx_t list \<Rightarrow>
     (nat \<times> visited_table \<times> storage_idx_t list) result" where
  "directed_first fm v1 st =
     (case st of (n, vt, arr) \<Rightarrow>
        let n' = (if fm v1 then n + 1 else n) in
        if vt_get vt v1 then Inr (n', vt, arr)
        else bind_result (push_node v1 arr) (\<lambda>arr'. Inr (n', if fm v1 then vt_set vt v1 else vt, arr')))"

definition navix_directed ::
    "hnsw \<Rightarrow> storage_idx_t list \<Rightarrow> ('d :: linorder) distance_computer \<Rightarrow> ('r, 'd) result_handler \<Rightarrow> filter_map \<Rightarrow> nat \<Rightarrow>
     visited_table \<times> storage_idx_t list \<times> ('r, 'd) heap_state \<times> hnsw_stats \<Rightarrow>
     (visited_table \<times> storage_idx_t list \<times> ('r, 'd) heap_state \<times> hnsw_stats) result" where
  "navix_directed h nbrs qdis H fm filter_nbrs_to_find st =
     (case st of (vt, arr, s, stats) \<Rightarrow>
        bind_result (fold_result (directed_first fm) nbrs (0, vt, arr)) (\<lambda>(n, vt1, arr1).
          case navix_batch_directed_compute_distance arr1 fm qdis H [] (s, stats) of
            (nbrs_to_explore, s1, stats1) \<Rightarrow>
              bind_result (explore_second h fm filter_nbrs_to_find (map snd nbrs_to_explore)
                  (n, vt1, [], st_nhops stats1)) (\<lambda>(n', vt2, arr2, nhops).
                Inr (vt2, arr2, s1, stats1\<lparr>st_nhops := nhops\<rparr>))))"

text \<open>\<open>navix_blind\<close>, which no function calls, explores in first-in first-out order.\<close>

definition blind_first ::
    "filter_map \<Rightarrow> idx_t \<Rightarrow> nat \<times> visited_table \<times> storage_idx_t list \<times> storage_idx_t list \<Rightarrow>
     (nat \<times> visited_table \<times> storage_idx_t list \<times> storage_idx_t list) result" where
  "blind_first fm v1 st =
     (case st of (n, vt, arr, queue) \<Rightarrow>
        let n' = (if fm v1 then n + 1 else n) in
        if vt_get vt v1 then Inr (n', vt, arr, queue)
        else if fm v1 then bind_result (push_node v1 arr) (\<lambda>arr'. Inr (n', vt_set vt v1, arr', queue @ [v1]))
        else Inr (n', vt, arr, queue @ [v1]))"

definition navix_blind ::
    "hnsw \<Rightarrow> storage_idx_t list \<Rightarrow> filter_map \<Rightarrow> nat \<Rightarrow> visited_table \<times> storage_idx_t list \<times> nat \<Rightarrow>
     (visited_table \<times> storage_idx_t list \<times> nat) result" where
  "navix_blind h nbrs fm filter_nbrs_to_find st =
     (case st of (vt, arr, nhops) \<Rightarrow>
        bind_result (fold_result (blind_first fm) nbrs (0, vt, arr, [])) (\<lambda>(n, vt1, arr1, queue).
        bind_result (explore_second h fm filter_nbrs_to_find queue (n, vt1, arr1, nhops)) (\<lambda>(n', vt2, arr2, nhops').
        Inr (vt2, arr2, nhops'))))"

section \<open>The search\<close>

fun add_filtered_nodes ::
    "('d :: linorder) distance_computer \<Rightarrow> ('r, 'd) result_handler \<Rightarrow> filter_map \<Rightarrow> nat \<Rightarrow> idx_t list \<Rightarrow> nat \<Rightarrow>
     visited_table \<times> ('r, 'd) heap_state \<Rightarrow> visited_table \<times> ('r, 'd) heap_state" where
  "add_filtered_nodes qdis H fm num_of_nodes [] cnt st = st"
| "add_filtered_nodes qdis H fm num_of_nodes (p_id # p_ids) cnt st =
     (let st' = (if fm p_id then (vt_set (fst st) p_id, add_to_heap H None p_id (query_dis qdis p_id) (snd st)) else st);
          cnt' = (if fm p_id then cnt + 1 else cnt)
      in if cnt' \<ge> num_of_nodes then st' else add_filtered_nodes qdis H fm num_of_nodes p_ids cnt' st')"

definition navix_add_filtered_nodes_to_candidates ::
    "hnsw \<Rightarrow> ('d :: linorder) distance_computer \<Rightarrow> ('r, 'd) result_handler \<Rightarrow> filter_map \<Rightarrow> nat \<Rightarrow>
     visited_table \<times> ('r, 'd) heap_state \<Rightarrow> visited_table \<times> ('r, 'd) heap_state" where
  "navix_add_filtered_nodes_to_candidates h qdis H fm num_of_nodes st =
     add_filtered_nodes qdis H fm num_of_nodes (map int [0..<ntotal h]) 0 (fst st, refresh H (snd st))"

text \<open>
  The prefetching loop, which also moves \<open>end\<close> back to the first empty slot. Its variable \<open>j\<close> is a
  \<open>storage_idx_t\<close>, 32 bits and signed, set from the \<open>size_t\<close> \<open>begin\<close>: a value with the top
  bit set becomes negative and, converted back for the comparison with \<open>end\<close>, too large for the loop to
  start; incrementing past \<open>2^31 - 1\<close> is signed overflow.
\<close>

function trim_scan :: "storage_idx_t list \<Rightarrow> nat \<Rightarrow> nat \<Rightarrow> nat result" where
  "trim_scan ns j e =
     (if j < e then
        if j \<ge> 2147483648 then Inl Out_of_bounds
        else if ns ! j < 0 then Inr j else trim_scan ns (j + 1) e
      else Inr e)"
  by auto
termination by (relation "measure (\<lambda>(ns, j, e). e - j)") auto

declare trim_scan.simps [simp del]

definition trim_end :: "storage_idx_t list \<Rightarrow> nat \<Rightarrow> nat \<Rightarrow> nat result" where
  "trim_end ns b e =
     (let j = sint (word_of_nat b :: 32 word) in if j < 0 then Inr e else trim_scan ns (nat j) e)"

text \<open>Counting \<open>filtered_nbrs\<close>; reading the filter at a negative index is out of bounds.\<close>

definition count_filtered :: "filter_map \<Rightarrow> storage_idx_t list \<Rightarrow> nat result" where
  "count_filtered fm nbrs =
     fold_result (\<lambda>v n. if v < 0 then Inl Out_of_bounds else Inr (if fm v then n + 1 else n)) nbrs 0"

text \<open>
  The choice of a strategy. The code computes in \<open>double\<close>; \<open>filtered / total >= 0.5\<close> and
  \<open>(total * filtered + filtered) * 0.4 > total + (total - filtered)\<close> have the same truth value as these
  comparisons of integers below 2^52: the quotient of such integers is not rounded across 1/2, and the
  double 0.4 is above 2/5 by a relative \<open>2^-54\<close>, less than rounding undoes when the product is an
  integer and less than the distance 1/5 to the next integer otherwise. For \<open>total = 0\<close> the quotient
  is not a number and the first comparison is false.
\<close>

definition use_one_hop :: "nat \<Rightarrow> nat \<Rightarrow> bool" where
  "use_one_hop total_nbrs filtered \<longleftrightarrow> 0 < total_nbrs \<and> total_nbrs \<le> 2 * filtered"

definition use_directed :: "nat \<Rightarrow> nat \<Rightarrow> bool" where
  "use_directed total_nbrs filtered \<longleftrightarrow> 2 * (total_nbrs * filtered + filtered) > 5 * (total_nbrs + (total_nbrs - filtered))"

type_synonym ('r, 'd) navix_state = "visited_table \<times> ('r, 'd) heap_state \<times> hnsw_stats"

text \<open>The expansion of one candidate: strategy, then distances of the nodes it gathered.\<close>

definition navix_expand ::
    "hnsw \<Rightarrow> ('d :: linorder) distance_computer \<Rightarrow> ('r, 'd) result_handler \<Rightarrow> filter_map \<Rightarrow> nat \<Rightarrow> storage_idx_t list \<Rightarrow>
     ('r, 'd) navix_state \<Rightarrow> ('r, 'd) navix_state result" where
  "navix_expand h qdis H fm total_nbrs nbrs st =
     (case st of (vt, s, stats) \<Rightarrow>
        bind_result (count_filtered fm nbrs) (\<lambda>filtered_nbrs.
        bind_result
          (if use_one_hop total_nbrs filtered_nbrs then
             bind_result (navix_one_hop nbrs fm (vt, [])) (\<lambda>(vt', arr). Inr (vt', arr, s, stats))
           else if use_directed total_nbrs filtered_nbrs then
             navix_directed h nbrs qdis H fm total_nbrs (vt, [], s, stats)
           else
             bind_result (navix_full_two_hop h nbrs fm (vt, [], st_nhops stats)) (\<lambda>(vt', arr, nhops).
               Inr (vt', arr, s, stats\<lparr>st_nhops := nhops\<rparr>)))
          (\<lambda>(vt', arr, s', stats').
            case navix_batch_compute_distance arr qdis H (s', stats') of
              (s'', stats'') \<Rightarrow> Inr (vt', s'', stats''))))"

definition navix_body ::
    "hnsw \<Rightarrow> ('d :: linorder) distance_computer \<Rightarrow> ('r, 'd) result_handler \<Rightarrow> filter_map \<Rightarrow>
     ('r, 'd) navix_state \<Rightarrow> ('r, 'd) navix_state + ('r, 'd) navix_state result" where
  "navix_body h qdis H fm st =
     (case st of (vt, s, stats) \<Rightarrow>
        if mm_size (hs_candidates s) = 0 then Inr (Inr st)
        else (case mm_pop_min (hs_candidates s) of
            (None, c) \<Rightarrow> Inr (Inl Out_of_bounds)
          | (Some (candidate, cand_dist), c) \<Rightarrow>
              let s1 = s\<lparr>hs_candidates := c\<rparr> in
              if mm_count_below c cand_dist \<ge> efSearch h then Inr (Inr (vt, s1, stats))
              else
                let (b, e) = neighbor_range h candidate 0;
                    stats1 = stats\<lparr>st_nhops := st_nhops stats + 1\<rparr>
                in (case bind_result (trim_end (neighbors h) b e) (\<lambda>e'.
                      navix_expand h qdis H fm (if b \<le> e' then e' - b else 2 ^ 64 - (b - e'))
                        (map (\<lambda>j. neighbors h ! j) [b..<e']) (vt, s1, stats1)) of
                      Inl err \<Rightarrow> Inr (Inl err)
                    | Inr st' \<Rightarrow> Inl st')))"

text \<open>The candidates and results before the main loop.\<close>

definition navix_start ::
    "hnsw \<Rightarrow> ('d :: linorder) distance_computer \<Rightarrow> ('r, 'd) result_handler \<Rightarrow> filter_map \<Rightarrow> storage_idx_t \<Rightarrow> 'd \<Rightarrow>
     'r \<Rightarrow> visited_table \<Rightarrow> visited_table \<times> ('r, 'd) heap_state" where
  "navix_start h qdis H fm nearest d_nearest res vt =
     (case (if fm nearest then (fst (add_result H res d_nearest nearest), vt_set vt nearest) else (res, vt)) of
        (res1, vt1) \<Rightarrow>
          navix_add_filtered_nodes_to_candidates h qdis H fm 10
            (vt1, \<lparr>hs_res = res1, hs_threshold = threshold_of H res1,
                   hs_candidates = start_candidates (max (efSearch h) (extract_k H res)) nearest d_nearest, hs_nres = 0\<rparr>))"

text \<open>The search from the node at which the greedy descent stops.\<close>

fun navix_from ::
    "hnsw \<Rightarrow> ('d :: linorder) distance_computer \<Rightarrow> ('r, 'd) result_handler \<Rightarrow> 'r \<Rightarrow> visited_table \<Rightarrow> filter_map \<Rightarrow>
     (storage_idx_t \<times> 'd) \<times> hnsw_stats \<Rightarrow> (hnsw_stats \<times> 'r \<times> visited_table) result option" where
  "navix_from h qdis H res vt fm ((nearest, d_nearest), stats) =
     (case navix_start h qdis H fm nearest d_nearest res vt of
        (vt2, s) \<Rightarrow>
          (case iterate (navix_body h qdis H fm) (vt2, s, stats) of
             None \<Rightarrow> None
           | Some (Inl err) \<Rightarrow> Some (Inl err)
           | Some (Inr (vt3, s3, stats3)) \<Rightarrow> Some (Inr (stats3, hs_res s3, vt3))))"

definition navix_hybrid_search ::
    "hnsw \<Rightarrow> ('d :: linorder) distance_computer \<Rightarrow> ('r, 'd) result_handler \<Rightarrow> 'r \<Rightarrow> visited_table \<Rightarrow> filter_map \<Rightarrow>
     (hnsw_stats \<times> 'r \<times> visited_table) result option" where
  "navix_hybrid_search h qdis H res vt fm =
     (if entry_point h = -1 then Some (Inr (stats_reset, res, vt))
      else
        (case greedy_descent h qdis (levels_down (max_level h) 1)
                ((entry_point h, query_dis qdis (entry_point h)), stats_reset) of
           None \<Rightarrow> None
         | Some start \<Rightarrow> navix_from h qdis H res vt fm start))"

section \<open>Evaluation\<close>

text \<open>Comparisons with large constants evaluate on integers.\<close>

lemma push_node_code [code]:
  "push_node v node_array = (if int (length node_array) < 4096 then Inr (node_array @ [v]) else Inl Out_of_bounds)"
  by (simp add: push_node_def)

lemma trim_scan_code [code]:
  "trim_scan ns j e =
     (if j < e then
        if int j \<ge> 2147483648 then Inl Out_of_bounds
        else if ns ! j < 0 then Inr j else trim_scan ns (j + 1) e
      else Inr e)"
  by (subst trim_scan.simps) simp

lemma trim_end_code [code]:
  "trim_end ns b e =
     (if int b < 2147483648 then trim_scan ns b e
      else let j = sint (word_of_nat b :: 32 word) in if j < 0 then Inr e else trim_scan ns (nat j) e)"
proof (cases "int b < 2147483648")
  case True
  then have "sint (word_of_nat b :: 32 word) = int b"
    by (simp add: sint_uint unsigned_of_nat take_bit_nat_eq_self signed_take_bit_int_eq_self)
  then show ?thesis using True by (simp add: trim_end_def)
qed (simp add: trim_end_def)

end
