(* ===== verification/Hnsw_Navix_Correct.thy ===== *)
theory Hnsw_Navix_Correct
  imports Hnsw_Navix Hnsw_Unbounded
begin

text \<open>
  Correctness of the Navix search: with at most 63 links per node and a neighbor table of at most
  \<open>2^31\<close> entries it returns, and what it offers to the result handler are exactly the
  nodes it visited that pass the filter.
\<close>

section \<open>Batches\<close>

lemma batch_nodes_one_by_one:
  assumes "batch_exact qdis"
  shows "batch_nodes qdis upd vs s = one_by_one qdis upd vs s"
  using assms
  by (induction qdis upd vs s rule: batch_nodes.induct)
    (simp_all add: leftovers_one_by_one exact_batches.flush4_one_by_one exact_batches_def)

section \<open>What a strategy gathers\<close>

text \<open>
  \<open>gathers h fm vt vt' new\<close>: going from \<open>vt\<close> to \<open>vt'\<close>, only nodes of level 0 were marked, and those of
  them that pass the filter are the nodes of \<open>new\<close> that do, each once.
\<close>

definition gathers :: "hnsw \<Rightarrow> filter_map \<Rightarrow> visited_table \<Rightarrow> visited_table \<Rightarrow> storage_idx_t list \<Rightarrow> bool" where
  "gathers h fm vt vt' new \<longleftrightarrow> (vt_ok vt \<longrightarrow> vt_ok vt') \<and> vt_size vt' = vt_size vt \<and> vt_members vt \<subseteq> vt_members vt'
     \<and> (\<forall>v \<in> new_nodes vt vt'. node_at h 0 v) \<and> (\<forall>v \<in> set new. node_at h 0 v)
     \<and> distinct (filter fm new) \<and> set (filter fm new) = {v \<in> new_nodes vt vt'. fm v}"

lemma gathers_refl: "gathers h fm vt vt []"
  by (simp add: gathers_def new_nodes_def)

lemma gathers_trans:
  assumes "gathers h fm vt vt1 new1" "gathers h fm vt1 vt2 new2"
  shows "gathers h fm vt vt2 (new1 @ new2)"
proof -
  have m: "vt_members vt \<subseteq> vt_members vt1" "vt_members vt1 \<subseteq> vt_members vt2" using assms by (auto simp: gathers_def)
  then have n: "new_nodes vt vt2 = new_nodes vt vt1 \<union> new_nodes vt1 vt2" "new_nodes vt vt1 \<inter> new_nodes vt1 vt2 = {}"
    by (auto simp: new_nodes_def)
  have "set (filter fm new1) \<inter> set (filter fm new2) = {}"
  proof -
    have "set (filter fm new1) \<subseteq> new_nodes vt vt1" "set (filter fm new2) \<subseteq> new_nodes vt1 vt2"
      using assms unfolding gathers_def by blast+
    then show ?thesis using n(2) by blast
  qed
  then have "distinct (filter fm (new1 @ new2))" using assms by (simp add: gathers_def)
  moreover have "set (filter fm (new1 @ new2)) = {v \<in> new_nodes vt vt2. fm v}"
  proof -
    have "set (filter fm (new1 @ new2)) = set (filter fm new1) \<union> set (filter fm new2)" by simp
    also have "\<dots> = {v \<in> new_nodes vt vt1. fm v} \<union> {v \<in> new_nodes vt1 vt2. fm v}"
      using assms unfolding gathers_def by blast
    finally show ?thesis using n(1) by blast
  qed
  moreover have "\<forall>v \<in> new_nodes vt vt2. node_at h 0 v" using assms n(1) by (auto simp: gathers_def)
  ultimately show ?thesis using assms m by (auto simp: gathers_def)
qed

lemma gathers_mark:
  assumes "node_at h 0 v" "ntotal h \<le> vt_size vt" "\<not> vt_get vt v"
  shows "fm v \<Longrightarrow> gathers h fm vt (vt_set vt v) [v]" "\<not> fm v \<Longrightarrow> gathers h fm vt (vt_set vt v) []"
proof -
  have "vt_has vt v" using assms(1,2) by (auto simp: vt_has_iff node_at_def)
  then have m: "vt_members (vt_set vt v) = insert v (vt_members vt)" by (rule vt_members_set)
  have "new_nodes vt (vt_set vt v) = {v}" using assms(3) m by (auto simp: new_nodes_def vt_members_def)
  then show "fm v \<Longrightarrow> gathers h fm vt (vt_set vt v) [v]" "\<not> fm v \<Longrightarrow> gathers h fm vt (vt_set vt v) []"
    using assms(1) m by (auto simp: gathers_def vt_ok_set)
qed

lemma gathers_skip:
  assumes "node_at h 0 v" "\<not> fm v"
  shows "gathers h fm vt vt [v]"
  using assms by (simp add: gathers_def new_nodes_def)

lemma gathers_size: "gathers h fm vt vt' new \<Longrightarrow> ntotal h \<le> vt_size vt \<Longrightarrow> ntotal h \<le> vt_size vt'"
  by (simp add: gathers_def)

lemma push_node_ok: "length arr < 4096 \<Longrightarrow> push_node v arr = Inr (arr @ [v])"
  by (simp add: push_node_def)

section \<open>The strategies\<close>

lemma take_gathers:
  assumes "\<forall>v \<in> set vs. node_at h 0 v" "ntotal h \<le> vt_size vt" "length arr + length vs \<le> 4096"
  shows "\<exists>vt' new. fold_result (navix_take fm) vs (vt, arr) = Inr (vt', arr @ new)
    \<and> gathers h fm vt vt' new \<and> length new \<le> length vs \<and> (\<forall>v \<in> set new. fm v)"
  using assms
proof (induction vs arbitrary: vt arr)
  case Nil
  then show ?case by (simp add: gathers_refl)
next
  case (Cons v vs)
  have v: "node_at h 0 v" "\<forall>v \<in> set vs. node_at h 0 v" using Cons.prems(1) by auto
  show ?case
  proof (cases "fm v \<and> \<not> vt_get vt v")
    case True
    note g = gathers_mark(1) [OF v(1) Cons.prems(2) conjunct2 [OF True], of fm, OF conjunct1 [OF True]]
    have l: "length (arr @ [v]) + length vs \<le> 4096" using Cons.prems(3) by simp
    from Cons.IH [OF v(2) gathers_size [OF g Cons.prems(2)] l] obtain vt' new where
      n: "fold_result (navix_take fm) vs (vt_set vt v, arr @ [v]) = Inr (vt', (arr @ [v]) @ new)"
      "gathers h fm (vt_set vt v) vt' new" "length new \<le> length vs" "\<forall>v \<in> set new. fm v" by blast
    have "fold_result (navix_take fm) (v # vs) (vt, arr) = Inr (vt', arr @ ([v] @ new))"
      using True Cons.prems(3) n(1) by (simp add: navix_take_def push_node_ok)
    then show ?thesis using gathers_trans [OF g n(2)] n(3,4) True by (intro exI conjI) (assumption, auto)
  next
    case False
    have l: "length arr + length vs \<le> 4096" using Cons.prems(3) by simp
    from Cons.IH [OF v(2) Cons.prems(2) l] obtain vt' new where
      "fold_result (navix_take fm) vs (vt, arr) = Inr (vt', arr @ new)"
      "gathers h fm vt vt' new" "length new \<le> length vs" "\<forall>v \<in> set new. fm v" by blast
    moreover have "navix_take fm v (vt, arr) = Inr (vt, arr)" using False by (auto simp: navix_take_def)
    ultimately show ?thesis by (intro exI [of _ vt'] exI [of _ new]) simp
  qed
qed

definition narrow :: "hnsw \<Rightarrow> bool" where
  "narrow h \<longleftrightarrow> length (neighbors h) \<le> 2147483648 \<and> (\<forall>v. node_at h 0 v \<longrightarrow> length (slots h v 0) \<le> 63)"

lemma links_short: "narrow h \<Longrightarrow> node_at h 0 v \<Longrightarrow> length (links h v 0) \<le> 63"
  unfolding narrow_def links_def by (meson length_takeWhile_le order_trans)

lemma full_two_hop_gathers:
  assumes g: "graph_ok h" "narrow h"
    and "\<forall>v \<in> set vs. node_at h 0 v" "ntotal h \<le> vt_size vt" "length arr + 64 * length vs \<le> 4096"
  shows "\<exists>vt' new nhops'. navix_full_two_hop h vs fm (vt, arr, nhops) = Inr (vt', arr @ new, nhops')
    \<and> gathers h fm vt vt' new \<and> (\<forall>v \<in> set new. fm v)"
  using assms(3-)
proof (induction vs arbitrary: vt arr nhops)
  case Nil
  then show ?case by (simp add: navix_full_two_hop_def gathers_refl)
next
  case (Cons v vs)
  have v: "node_at h 0 v" "\<forall>v \<in> set vs. node_at h 0 v" using Cons.prems(1) by auto
  have ln: "\<forall>w \<in> set (v # links h v 0). node_at h 0 w" using links_node(1) [OF g(1) v(1)] v(1) by auto
  have lens: "length arr + length (v # links h v 0) \<le> 4096" using links_short [OF g(2) v(1)] Cons.prems(3) by simp
  from take_gathers [OF ln Cons.prems(2) lens, of fm] obtain vt1 new1 where
    a: "fold_result (navix_take fm) (v # links h v 0) (vt, arr) = Inr (vt1, arr @ new1)"
    "gathers h fm vt vt1 new1" "length new1 \<le> Suc (length (links h v 0))" "\<forall>v \<in> set new1. fm v" by auto
  have s: "full_two_hop_step h fm v (vt, arr, nhops) = Inr (vt1, arr @ new1, nhops + 1)"
  proof -
    have "bind_result (navix_take fm v (vt, arr)) (fold_result (navix_take fm) (links h v 0)) = Inr (vt1, arr @ new1)"
      using a(1) by simp
    then show ?thesis by (auto simp: full_two_hop_step_def bind_result_Inr_iff)
  qed
  have l: "length (arr @ new1) + 64 * length vs \<le> 4096" using a(3) links_short [OF g(2) v(1)] Cons.prems(3) by simp
  from Cons.IH [OF v(2) gathers_size [OF a(2) Cons.prems(2)] l, of "nhops + 1"] obtain vt' new nhops' where
    n: "navix_full_two_hop h vs fm (vt1, arr @ new1, nhops + 1) = Inr (vt', (arr @ new1) @ new, nhops')"
    "gathers h fm vt1 vt' new" "\<forall>v \<in> set new. fm v" by blast
  have "navix_full_two_hop h (v # vs) fm (vt, arr, nhops) = Inr (vt', arr @ (new1 @ new), nhops')"
    using n(1) s by (simp add: navix_full_two_hop_def)
  then show ?case using gathers_trans [OF a(2) n(2)] a(4) n(3) by (intro exI conjI) (assumption, auto)
qed

lemma directed_first_gathers:
  assumes "\<forall>v \<in> set vs. node_at h 0 v" "ntotal h \<le> vt_size vt" "length arr + length vs \<le> 4096"
  shows "\<exists>vt' new n'. fold_result (directed_first fm) vs (n, vt, arr) = Inr (n', vt', arr @ new)
    \<and> gathers h fm vt vt' new \<and> (\<forall>v \<in> set new. fm v \<longrightarrow> v \<in> vt_members vt')"
  using assms
proof (induction vs arbitrary: n vt arr)
  case Nil
  then show ?case by (simp add: gathers_refl)
next
  case (Cons v vs)
  have v: "node_at h 0 v" "\<forall>v \<in> set vs. node_at h 0 v" using Cons.prems(1) by auto
  let ?n = "if fm v then n + 1 else n"
  show ?case
  proof (cases "vt_get vt v")
    case True
    have l: "length arr + length vs \<le> 4096" using Cons.prems(3) by simp
    from Cons.IH [OF v(2) Cons.prems(2) l, of ?n] show ?thesis using True by (simp add: directed_first_def)
  next
    case False
    let ?vt = "if fm v then vt_set vt v else vt"
    have g: "gathers h fm vt ?vt [v]"
      using gathers_mark(1) [OF v(1) Cons.prems(2) False, of fm] gathers_skip [OF v(1), of fm vt] by simp
    have l: "length (arr @ [v]) + length vs \<le> 4096" using Cons.prems(3) by simp
    from Cons.IH [OF v(2) gathers_size [OF g Cons.prems(2)] l, of ?n] obtain vt' new n' where
      n: "fold_result (directed_first fm) vs (?n, ?vt, arr @ [v]) = Inr (n', vt', (arr @ [v]) @ new)"
      "gathers h fm ?vt vt' new" "\<forall>v \<in> set new. fm v \<longrightarrow> v \<in> vt_members vt'" by blast
    have e: "fold_result (directed_first fm) (v # vs) (n, vt, arr) = Inr (n', vt', arr @ ([v] @ new))"
      using False Cons.prems(3) n(1) by (simp add: directed_first_def push_node_ok)
    have "v \<in> vt_members vt'" if "fm v"
    proof -
      have "vt_has vt v" using v(1) Cons.prems(2) by (auto simp: vt_has_iff node_at_def)
      then have "v \<in> vt_members ?vt" using that by (simp add: vt_members_set)
      then show ?thesis using n(2) unfolding gathers_def by blast
    qed
    then have "\<forall>w \<in> set ([v] @ new). fm w \<longrightarrow> w \<in> vt_members vt'" using n(3) by auto
    then show ?thesis using e gathers_trans [OF g n(2)] by blast
  qed
qed

lemma directed_first_length:
  "fold_result (directed_first fm) vs (n, vt, arr) = Inr (n', vt', arr') \<Longrightarrow> length arr' \<le> length arr + length vs"
proof (induction vs arbitrary: n vt arr)
  case (Cons v vs)
  from Cons.prems obtain n1 vt1 arr1 where s: "directed_first fm v (n, vt, arr) = Inr (n1, vt1, arr1)"
    "fold_result (directed_first fm) vs (n1, vt1, arr1) = Inr (n', vt', arr')"
    by (auto simp: bind_result_Inr_iff)
  have "length arr1 \<le> Suc (length arr)"
    using s(1) by (auto simp: directed_first_def push_node_def Let_def bind_result_Inr_iff split: if_splits)
  then show ?case using Cons.IH [OF s(2)] by simp
qed simp

lemma second_hop_gathers:
  assumes "\<forall>v \<in> set vs. node_at h 0 v" "ntotal h \<le> vt_size vt" "length arr + length vs \<le> 4096"
  shows "\<exists>vt' new n'. fold_result (second_hop fm) vs (n, vt, arr) = Inr (n', vt', arr @ new)
    \<and> gathers h fm vt vt' new \<and> length new \<le> length vs \<and> (\<forall>v \<in> set new. fm v)"
  using assms
proof (induction vs arbitrary: n vt arr)
  case Nil
  then show ?case by (simp add: gathers_refl)
next
  case (Cons v vs)
  have v: "node_at h 0 v" "\<forall>v \<in> set vs. node_at h 0 v" using Cons.prems(1) by auto
  let ?n = "if fm v then n + 1 else n"
  show ?case
  proof (cases "\<not> vt_get vt v \<and> fm v")
    case True
    note g = gathers_mark(1) [OF v(1) Cons.prems(2) conjunct1 [OF True], of fm, OF conjunct2 [OF True]]
    have l: "length (arr @ [v]) + length vs \<le> 4096" using Cons.prems(3) by simp
    from Cons.IH [OF v(2) gathers_size [OF g Cons.prems(2)] l, of ?n] obtain vt' new n' where
      n: "fold_result (second_hop fm) vs (?n, vt_set vt v, arr @ [v]) = Inr (n', vt', (arr @ [v]) @ new)"
      "gathers h fm (vt_set vt v) vt' new" "length new \<le> length vs" "\<forall>v \<in> set new. fm v" by blast
    have "fold_result (second_hop fm) (v # vs) (n, vt, arr) = Inr (n', vt', arr @ ([v] @ new))"
      using True Cons.prems(3) n(1) by (simp add: second_hop_def push_node_ok)
    then show ?thesis using gathers_trans [OF g n(2)] n(3,4) True by (intro exI conjI) (assumption, auto)
  next
    case False
    have l: "length arr + length vs \<le> 4096" using Cons.prems(3) by simp
    from Cons.IH [OF v(2) Cons.prems(2) l, of ?n] obtain vt' new n' where
      "fold_result (second_hop fm) vs (?n, vt, arr) = Inr (n', vt', arr @ new)"
      "gathers h fm vt vt' new" "length new \<le> length vs" "\<forall>v \<in> set new. fm v" by blast
    moreover have "second_hop fm v (n, vt, arr) = Inr (?n, vt, arr)" using False by (auto simp: second_hop_def Let_def)
    ultimately show ?thesis by (intro exI [of _ vt'] exI [of _ new] exI [of _ n']) simp
  qed
qed

lemma explore_second_gathers:
  assumes g: "graph_ok h" "narrow h"
    and "\<forall>v \<in> set queue. node_at h 0 v \<and> (fm v \<longrightarrow> v \<in> vt_members vt)" "ntotal h \<le> vt_size vt"
    and "length arr + 63 * length queue \<le> 4096"
  shows "\<exists>vt' new n' nhops'. explore_second h fm to_find queue (n, vt, arr, nhops) = Inr (n', vt', arr @ new, nhops')
    \<and> gathers h fm vt vt' new \<and> (\<forall>v \<in> set new. fm v)"
  using assms(3-)
proof (induction queue arbitrary: n vt arr nhops)
  case Nil
  then show ?case by (simp add: gathers_refl)
next
  case (Cons v q)
  have v: "node_at h 0 v" "fm v \<longrightarrow> v \<in> vt_members vt" using Cons.prems(1) by auto
  have q: "\<forall>v \<in> set q. node_at h 0 v \<and> (fm v \<longrightarrow> v \<in> vt_members vt)" using Cons.prems(1) by simp
  show ?case
  proof (cases "n \<ge> to_find \<or> vt_get vt v")
    case True
    show ?thesis
    proof (cases "n \<ge> to_find")
      case True
      then show ?thesis by (simp add: gathers_refl)
    next
      case f: False
      have l: "length arr + 63 * length q \<le> 4096" using Cons.prems(3) by simp
      from Cons.IH [OF q Cons.prems(2) l] show ?thesis using True f by simp
    qed
  next
    case False
    then have nf: "\<not> fm v" using v(2) by (auto simp: vt_members_def)
    have ng: "\<not> vt_get vt v" using False by simp
    note g1 = gathers_mark(2) [OF v(1) Cons.prems(2) ng, of fm, OF nf]
    have ln: "\<forall>w \<in> set (links h v 0). node_at h 0 w" using links_node(1) [OF g(1) v(1)] by blast
    have l1: "length arr + length (links h v 0) \<le> 4096" using links_short [OF g(2) v(1)] Cons.prems(3) by simp
    from second_hop_gathers [OF ln gathers_size [OF g1 Cons.prems(2)] l1, of fm n] obtain vt1 new1 n1 where
      a: "fold_result (second_hop fm) (links h v 0) (n, vt_set vt v, arr) = Inr (n1, vt1, arr @ new1)"
      "gathers h fm (vt_set vt v) vt1 new1" "length new1 \<le> length (links h v 0)" "\<forall>v \<in> set new1. fm v" by blast
    have g2: "gathers h fm vt vt1 new1" using gathers_trans [OF g1 a(2)] by simp
    have q1: "\<forall>v \<in> set q. node_at h 0 v \<and> (fm v \<longrightarrow> v \<in> vt_members vt1)" using q g2 unfolding gathers_def by blast
    have l: "length (arr @ new1) + 63 * length q \<le> 4096" using a(3) links_short [OF g(2) v(1)] Cons.prems(3) by simp
    from Cons.IH [OF q1 gathers_size [OF g2 Cons.prems(2)] l, of n1 "nhops + 1"] obtain vt' new n' nhops' where
      b: "explore_second h fm to_find q (n1, vt1, arr @ new1, nhops + 1) = Inr (n', vt', (arr @ new1) @ new, nhops')"
      "gathers h fm vt1 vt' new" "\<forall>v \<in> set new. fm v" by blast
    have "explore_second h fm to_find (v # q) (n, vt, arr, nhops) = Inr (n', vt', arr @ (new1 @ new), nhops')"
      using False a(1) b(1) by simp
    then show ?thesis using gathers_trans [OF g2 b(2)] a(4) b(3) by (intro exI conjI) (assumption, auto)
  qed
qed

section \<open>Trimming and counting\<close>

lemma trim_scan_eq:
  assumes "j \<le> e" "e \<le> 2147483648"
  shows "trim_scan ns j e = Inr (j + length (takeWhile (\<lambda>v. \<not> v < 0) (map (\<lambda>j. ns ! j) [j..<e])))"
  using assms(1)
proof (induction "e - j" arbitrary: j)
  case 0
  then show ?case by (subst trim_scan.simps) simp
next
  case (Suc m)
  then have j: "j < e" "m = e - (j + 1)" "j + 1 \<le> e" by auto
  have u: "[j..<e] = j # [j + 1..<e]" using j(1) by (simp add: upt_rec)
  show ?case using j Suc.hyps(1) [OF j(2,3)] assms(2) unfolding u by (subst trim_scan.simps) simp
qed

lemma trim_end_links:
  assumes "layout_ok h" "node_at h 0 v" "neighbor_range h v 0 = (b, e)" "length (neighbors h) \<le> 2147483648"
  shows "trim_end (neighbors h) b e = Inr (b + length (links h v 0))"
    and "map (\<lambda>j. neighbors h ! j) [b..<b + length (links h v 0)] = links h v 0"
proof -
  note bd = neighbor_range_bounds [OF assms(1-3)]
  let ?s = "map (\<lambda>j. neighbors h ! j) [b..<e]"
  have l: "links h v 0 = takeWhile (\<lambda>v. \<not> v < 0) ?s" using assms(3) by (simp add: links_def slots_def)
  show "trim_end (neighbors h) b e = Inr (b + length (links h v 0))"
  proof (cases "b < 2147483648")
    case True
    then have "sint (word_of_nat b :: 32 word) = int b"
      by (simp add: sint_uint unsigned_of_nat take_bit_nat_eq_self signed_take_bit_int_eq_self)
    then show ?thesis using trim_scan_eq [OF bd(2)] bd(4) assms(4) l by (simp add: trim_end_def)
  next
    case False
    then have "b = 2147483648" "e = b" using bd assms(4) by auto
    then have "sint (word_of_nat b :: 32 word) < 0" by simp
    then show ?thesis using \<open>e = b\<close> l by (simp add: trim_end_def)
  qed
  have le: "length (links h v 0) \<le> e - b" unfolding l using length_takeWhile_le [of _ ?s] by simp
  have "map (\<lambda>j. neighbors h ! j) [b..<b + length (links h v 0)] = take (length (links h v 0)) ?s"
    using le bd(2) by (simp add: take_map)
  also have "\<dots> = links h v 0" unfolding l by (rule takeWhile_eq_take [symmetric])
  finally show "map (\<lambda>j. neighbors h ! j) [b..<b + length (links h v 0)] = links h v 0" .
qed

lemma count_filtered_ok: "\<forall>v \<in> set vs. 0 \<le> v \<Longrightarrow> count_filtered fm vs = Inr (length (filter fm vs))"
proof -
  have "fold_result (\<lambda>v n. if v < 0 then Inl Out_of_bounds else Inr (if fm v then n + 1 else n)) vs n =
      Inr (n + length (filter fm vs))" if "\<forall>v \<in> set vs. 0 \<le> v" for n :: nat
    using that by (induction vs arbitrary: n) auto
  then show "\<forall>v \<in> set vs. 0 \<le> v \<Longrightarrow> count_filtered fm vs = Inr (length (filter fm vs))"
    unfolding count_filtered_def by simp
qed

section \<open>One expansion\<close>

definition fsel :: "filter_map \<Rightarrow> search_params option" where
  "fsel fm = Some \<lparr>sp_sel = Some fm, sp_hnsw = None\<rparr>"

lemma selected_fsel [simp]: "selected (fsel fm) = fm" "selected None = (\<lambda>_. True)"
  by (auto simp: selected_def fsel_def)

lemma vt_unvisited_new:
  assumes "vt_members vt \<subseteq> vt_members vt'" "vt_size vt' = vt_size vt"
  shows "vt_unvisited vt' + card (new_nodes vt vt') = vt_unvisited vt"
proof -
  let ?U = "{0..<int (vt_size vt)}"
  have "?U - vt_members vt = (?U - vt_members vt') \<union> new_nodes vt vt'"
    using assms(1) vt_members_subset [of vt'] unfolding assms(2) new_nodes_def by blast
  moreover have "(?U - vt_members vt') \<inter> new_nodes vt vt' = {}" by (auto simp: new_nodes_def)
  ultimately have "card (?U - vt_members vt) = card (?U - vt_members vt') + card (new_nodes vt vt')"
    by (simp add: card_Un_disjoint)
  then show ?thesis unfolding vt_unvisited_def assms(2) by simp
qed

lemma node_offers_disjoint:
  assumes "finite A" "finite B" "A \<inter> B = {}"
  shows "node_offers qdis params (A \<union> B) = node_offers qdis params A + node_offers qdis params B"
proof -
  have "{v \<in> A \<union> B. selected params v} = {v \<in> A. selected params v} \<union> {v \<in> B. selected params v}" by blast
  then have "mset_set {v \<in> A \<union> B. selected params v} = mset_set {v \<in> A. selected params v} + mset_set {v \<in> B. selected params v}"
    using assms by (simp only:) (intro mset_set_Union, auto)
  then show ?thesis by (simp add: node_offers_def)
qed

lemma node_offers_gathered:
  assumes "gathers h fm vt vt' new"
  shows "node_offers qdis (fsel fm) (new_nodes vt vt') = mset (offered_nodes qdis None (filter fm new))"
proof -
  have "mset_set {v \<in> new_nodes vt vt'. fm v} = mset (filter fm new)"
    using assms mset_set_set [of "filter fm new"] by (simp add: gathers_def)
  then show ?thesis by (simp add: node_offers_def offered_nodes_def)
qed

lemma directed_one_by_one:
  "one_by_one qdis (directed_offer H fm) vs (q, s) =
     (fold (\<lambda>v. pq_push farther (query_dis qdis v, v)) vs q, one_by_one qdis (add_to_heap H None) (filter fm vs) s)"
  by (induction vs arbitrary: q s) (simp_all add: directed_offer_def)

lemma set_explore_queue: "set (fold (\<lambda>v. pq_push farther (query_dis qdis v, v)) vs q) = set q \<union> (\<lambda>v. (query_dis qdis v, v)) ` set vs"
  by (induction vs arbitrary: q) auto

lemma length_explore_queue: "length (fold (\<lambda>v. pq_push farther (query_dis qdis v, v)) vs q) = length q + length vs"
  by (induction vs arbitrary: q) auto

context distance_handler
begin

lemma gather_inv:
  assumes I: "sfc_inv h qdis 0 (fsel fm) vt0 r0 (vt, a, b, s)" and g: "gathers h fm vt vt' new"
    and s': "s' = one_by_one qdis (add_to_heap H None) (filter fm new) (refresh H s)"
  shows "sfc_inv h qdis 0 (fsel fm) vt0 r0 (vt', a', b', s')"
    and "vt_unvisited vt' + mm_size (hs_candidates s') \<le> vt_unvisited vt + mm_size (hs_candidates s)"
proof -
  obtain ps where I': "cand_ok h 0 qdis (hs_candidates s)" "inv (hs_res s)" "vt_size vt = vt_size vt0" "vt_ok vt"
    "vt_members vt0 \<subseteq> vt_members vt" "\<forall>v \<in> new_nodes vt0 vt. node_at h 0 v"
    "hs_res s = offers H r0 ps" "mset ps = node_offers qdis (fsel fm) (new_nodes vt0 vt)"
    "heap_k H (hs_res s) = heap_k H r0"
    using I by (auto simp: sfc_inv_def)
  have G: "vt_ok vt'" "vt_size vt' = vt_size vt" "vt_members vt \<subseteq> vt_members vt'"
    "\<forall>v \<in> new_nodes vt vt'. node_at h 0 v" "\<forall>v \<in> set (filter fm new). node_at h 0 v"
    "distinct (filter fm new)" "set (filter fm new) = {v \<in> new_nodes vt vt'. fm v}"
    using g I'(4) by (auto simp: gathers_def)
  have "handler_state_ok (refresh H s)" using I'(2) by (simp add: handler_state_ok_def refresh_def)
  from add_all_to_heap [OF this, of qdis None "filter fm new"] have
    r: "handler_state_ok s'" "hs_res s' = offers H (hs_res s) (offered_nodes qdis None (filter fm new))"
    "hs_candidates s' = push_all qdis (filter fm new) (hs_candidates s)" by (auto simp: s' refresh_def)
  note pa = cand_ok_push_all [OF I'(1) G(5)]
  have n: "new_nodes vt0 vt' = new_nodes vt0 vt \<union> new_nodes vt vt'" "new_nodes vt0 vt \<inter> new_nodes vt vt' = {}"
    using I'(5) G(3) by (auto simp: new_nodes_def)
  let ?ps = "ps @ offered_nodes qdis None (filter fm new)"
  have "hs_res s' = offers H r0 ?ps" using r(2) I'(7) by (simp add: offers_append)
  moreover have "mset ?ps = node_offers qdis (fsel fm) (new_nodes vt0 vt')"
    unfolding n(1) node_offers_disjoint [OF finite_new_nodes finite_new_nodes n(2)] node_offers_gathered [OF g]
    using I'(8) by simp
  ultimately have "\<exists>ps. hs_res s' = offers H r0 ps \<and> mset ps = node_offers qdis (fsel fm) (new_nodes vt0 vt')" by blast
  moreover have "heap_k H (hs_res s') = heap_k H r0" using r(2) I'(9) by (simp add: offers_heap_k)
  moreover have "inv (hs_res s')" using r(1) by (simp add: handler_state_ok_def)
  ultimately show "sfc_inv h qdis 0 (fsel fm) vt0 r0 (vt', a', b', s')"
    using pa r(3) I'(3,5,6) G(1-4) n(1) by (auto simp: sfc_inv_def)
  have "length (filter fm new) \<le> card (new_nodes vt vt')"
    using distinct_card [OF G(6)] G(7) card_mono [OF finite_new_nodes, of "{v \<in> new_nodes vt vt'. fm v}" vt vt'] by auto
  then show "vt_unvisited vt' + mm_size (hs_candidates s') \<le> vt_unvisited vt + mm_size (hs_candidates s)"
    using vt_unvisited_new [OF G(3,2)] pa unfolding r(3) by linarith
qed

lemma expand_correct:
  assumes g: "graph_ok h" "narrow h" and b: "batch_exact qdis" and sz: "ntotal h \<le> vt_size vt0"
    and I: "sfc_inv h qdis 0 (fsel fm) vt0 r0 (vt, 0, 0, s)" and v: "node_at h 0 v"
  shows "\<exists>vt' s' stats'. navix_expand h qdis H fm total_nbrs (links h v 0) (vt, s, stats) = Inr (vt', s', stats')
    \<and> sfc_inv h qdis 0 (fsel fm) vt0 r0 (vt', 0, 0, s')
    \<and> vt_unvisited vt' + mm_size (hs_candidates s') \<le> vt_unvisited vt + mm_size (hs_candidates s)"
proof -
  let ?vs = "links h v 0" and ?f = "length (filter fm (links h v 0))"
  have sz': "ntotal h \<le> vt_size vt" using I sz by (simp add: sfc_inv_def)
  have n: "\<forall>w \<in> set ?vs. node_at h 0 w" "\<forall>w \<in> set ?vs. 0 \<le> w" using links_node(1,2) [OF g(1) v] by blast+
  have len: "length ?vs \<le> 63" by (rule links_short [OF g(2) v])
  have cf: "count_filtered fm ?vs = Inr ?f" by (rule count_filtered_ok [OF n(2)])
  have fin: "\<exists>vt' s' stats'. (case navix_batch_compute_distance arr qdis H (s1, stats1) of (s'', stats'') \<Rightarrow> Inr (vt1, s'', stats'')) =
        (Inr (vt', s', stats') :: ('r, 'd) navix_state result)
      \<and> sfc_inv h qdis 0 (fsel fm) vt0 r0 (vt', 0, 0, s')
      \<and> vt_unvisited vt' + mm_size (hs_candidates s') \<le> vt_unvisited vt2 + mm_size (hs_candidates s1)"
    if "sfc_inv h qdis 0 (fsel fm) vt0 r0 (vt2, 0, 0, s1)" "gathers h fm vt2 vt1 arr" "\<forall>v \<in> set arr. fm v"
    for arr s1 stats1 vt1 vt2
  proof -
    have "filter fm arr = arr" using that(3) by simp
    then show ?thesis using gather_inv(1) [OF that(1,2) refl, of 0 0] gather_inv(2) [OF that(1,2) refl]
      by (simp add: navix_batch_compute_distance_def batch_nodes_one_by_one [OF b])
  qed
  have l: "length [] + length ?vs \<le> 4096" "length [] + 64 * length ?vs \<le> 4096" using len by simp_all
  show ?thesis
  proof (cases "use_one_hop total_nbrs ?f")
    case True
    from take_gathers [OF n(1) sz' l(1), of fm] obtain vt1 new where
      t: "navix_one_hop ?vs fm (vt, []) = Inr (vt1, new)" "gathers h fm vt vt1 new" "\<forall>v \<in> set new. fm v"
      by (auto simp: navix_one_hop_def)
    then show ?thesis using fin [OF I t(2,3)] True cf by (simp add: navix_expand_def)
  next
    case False
    show ?thesis
    proof (cases "use_directed total_nbrs ?f")
      case True
      from directed_first_gathers [OF n(1) sz' l(1), of fm 0] obtain vt1 new n1 where
        d: "fold_result (directed_first fm) ?vs (0, vt, []) = Inr (n1, vt1, new)" "gathers h fm vt vt1 new"
          "\<forall>v \<in> set new. fm v \<longrightarrow> v \<in> vt_members vt1" by auto
      let ?q = "fold (\<lambda>v. pq_push farther (query_dis qdis v, v)) new []"
      define s1 where "s1 = one_by_one qdis (add_to_heap H None) (filter fm new) (refresh H s)"
      define stats1 where "stats1 = stats\<lparr>st_ndis := st_ndis stats + length new\<rparr>"
      have bd: "navix_batch_directed_compute_distance new fm qdis H [] (s, stats) = (?q, s1, stats1)"
        by (simp add: navix_batch_directed_compute_distance_def batch_nodes_one_by_one [OF b] directed_one_by_one s1_def stats1_def)
      note gi = gather_inv(1) [OF I d(2) s1_def, of 0 0] gather_inv(2) [OF I d(2) s1_def]
      have q: "\<forall>v \<in> set (map snd ?q). node_at h 0 v \<and> (fm v \<longrightarrow> v \<in> vt_members vt1)"
        using d(2,3) by (auto simp: set_explore_queue gathers_def)
      have "length new \<le> length ?vs" using directed_first_length [OF d(1)] by simp
      then have lq: "length [] + 63 * length (map snd ?q) \<le> 4096" using len by (simp add: length_explore_queue)
      from explore_second_gathers [OF g q gathers_size [OF d(2) sz'] lq, of total_nbrs n1 "st_nhops stats1"]
      obtain vt2 new2 n2 nhops where
        e: "explore_second h fm total_nbrs (map snd ?q) (n1, vt1, [], st_nhops stats1) = Inr (n2, vt2, new2, nhops)"
        "gathers h fm vt1 vt2 new2" "\<forall>v \<in> set new2. fm v" by auto
      have "navix_directed h ?vs qdis H fm total_nbrs (vt, [], s, stats) = Inr (vt2, new2, s1, stats1\<lparr>st_nhops := nhops\<rparr>)"
        using d(1) bd e(1) by (simp add: navix_directed_def)
      then show ?thesis using fin [OF gi(1) e(2,3), of "stats1\<lparr>st_nhops := nhops\<rparr>"] gi(2) False True cf
        by (simp add: navix_expand_def) (meson order_trans)
    next
      case full: False
      from full_two_hop_gathers [OF g n(1) sz' l(2), of fm "st_nhops stats"] obtain vt1 new nhops where
        t: "navix_full_two_hop h ?vs fm (vt, [], st_nhops stats) = Inr (vt1, new, nhops)" "gathers h fm vt vt1 new"
          "\<forall>v \<in> set new. fm v" by auto
      then show ?thesis using fin [OF I t(2,3)] False full cf by (simp add: navix_expand_def)
    qed
  qed
qed

end

section \<open>The whole search\<close>

lemma add_filtered_eq:
  assumes "cnt < num"
  shows "add_filtered_nodes qdis H fm num ids cnt (vt, s) =
    (mark_all (take (num - cnt) (filter fm ids)) vt,
     one_by_one qdis (add_to_heap H None) (take (num - cnt) (filter fm ids)) s)"
  using assms
proof (induction ids arbitrary: cnt vt s)
  case (Cons p ids)
  show ?case
  proof (cases "fm p")
    case True
    then obtain m where m: "num - cnt = Suc m" "m = num - (cnt + 1)" using Cons.prems by (metis Suc_diff_Suc add.commute plus_1_eq_Suc)
    show ?thesis using True Cons m by (cases "cnt + 1 < num") (auto simp: Let_def)
  next
    case False
    then show ?thesis using Cons by (simp add: Let_def)
  qed
qed simp

context distance_handler
begin

lemma navix_loop_total:
  assumes g: "graph_ok h" "narrow h" and b: "batch_exact qdis" and sz: "ntotal h \<le> vt_size vt0"
    and I: "sfc_inv h qdis 0 (fsel fm) vt0 r0 (vt, 0, 0, s)"
  shows "\<exists>vt' s' stats'. iterate (navix_body h qdis H fm) (vt, s, stats) = Some (Inr (vt', s', stats'))
    \<and> sfc_inv h qdis 0 (fsel fm) vt0 r0 (vt', 0, 0, s')"
proof -
  let ?I = "\<lambda>st :: ('r, 'd) navix_state. sfc_inv h qdis 0 (fsel fm) vt0 r0 (fst st, 0, 0, fst (snd st))"
  let ?Q = "\<lambda>r :: ('r, 'd) navix_state result. \<exists>st. r = Inr st \<and> ?I st"
  let ?m = "\<lambda>st :: ('r, 'd) navix_state. vt_unvisited (fst st) + mm_size (hs_candidates (fst (snd st)))"
  have lay: "layout_ok h" using g(1) by (simp add: graph_ok_def)
  have step: "case navix_body h qdis H fm st of Inl st' \<Rightarrow> ?I st' \<and> ?m st' < ?m st | Inr r \<Rightarrow> ?Q r" if st: "?I st" for st
  proof -
    obtain vt s stats where e: "st = (vt, s, stats)" by (metis prod_cases3)
    have I1: "sfc_inv h qdis 0 (fsel fm) vt0 r0 (vt, 0, 0, s)" using st e by simp
    then have co: "cand_ok h 0 qdis (hs_candidates s)" by (simp add: sfc_inv_def)
    show ?thesis
    proof (cases "mm_size (hs_candidates s) = 0")
      case True
      then show ?thesis using st e by (simp add: navix_body_def)
    next
      case False
      have ok: "mm_ok (hs_candidates s)" using co by (simp add: cand_ok_def)
      obtain v0 d0 c where pop: "mm_pop_min (hs_candidates s) = (Some (v0, d0), c)" using mm_pop_some [OF ok] False by blast
      note po = cand_ok_pop [OF co pop]
      let ?s1 = "s\<lparr>hs_candidates := c\<rparr>"
      have I2: "sfc_inv h qdis 0 (fsel fm) vt0 r0 (vt, 0, 0, ?s1)" using I1 po(1) by (simp add: sfc_inv_def)
      show ?thesis
      proof (cases "mm_count_below c d0 \<ge> efSearch h")
        case True
        then show ?thesis using False pop I2 e by (simp add: navix_body_def)
      next
        case more: False
        obtain b' e' where be: "neighbor_range h v0 0 = (b', e')" by (metis surj_pair)
        have nl: "length (neighbors h) \<le> 2147483648" using g(2) by (simp add: narrow_def)
        note tr = trim_end_links [OF lay po(2) be nl]
        let ?stats = "stats\<lparr>st_nhops := st_nhops stats + 1\<rparr>"
        from expand_correct [OF g b sz I2 po(2), of "length (links h v0 0)" ?stats] obtain vt' s' stats' where
          x: "navix_expand h qdis H fm (length (links h v0 0)) (links h v0 0) (vt, ?s1, ?stats) = Inr (vt', s', stats')"
          "sfc_inv h qdis 0 (fsel fm) vt0 r0 (vt', 0, 0, s')"
          "vt_unvisited vt' + mm_size (hs_candidates s') \<le> vt_unvisited vt + mm_size (hs_candidates ?s1)" by blast
        have "navix_body h qdis H fm st = Inl (vt', s', stats')"
          using False pop more be tr x(1) e by (simp add: navix_body_def)
        then show ?thesis using x(2,3) po(6) e by simp
      qed
    qed
  qed
  have "\<exists>r. iterate (navix_body h qdis H fm) (vt, s, stats) = Some r \<and> ?Q r"
  proof (rule iterate_total [where I = ?I and m = ?m])
    show "?I (vt, s, stats)" using I by simp
    show "?I st' \<and> ?m st' < ?m st" if "?I st" "navix_body h qdis H fm st = Inl st'" for st st'
      using step [OF that(1)] unfolding that(2) sum.case .
    show "?Q r" if "?I st" "navix_body h qdis H fm st = Inr r" for st r
      using step [OF that(1)] unfolding that(2) sum.case .
  qed
  then show ?thesis by auto
qed

lemma navix_search_correct:
  assumes g: "graph_ok h" "narrow h" and lv: "\<forall>i < ntotal h. 0 < levels h ! i"
    and b: "batch_exact qdis" and e: "entry_ok h" "entry_point h \<noteq> -1"
    and vt: "vt_clear h vt" and iv: "inv res" and k: "0 < extract_k H res"
  shows "\<exists>stats r vt' n V ps. navix_hybrid_search h qdis H res vt fm = Some (Inr (stats, r, vt'))
    \<and> vt_ok vt' \<and> vt_size vt' = vt_size vt
    \<and> node_at h 0 n \<and> query_dis qdis n \<le> query_dis qdis (entry_point h)
    \<and> V \<subseteq> {v. node_at h 0 v} \<and> set (take 10 (filter fm (map int [0..<ntotal h]))) \<subseteq> V
    \<and> r = offers H res ps
    \<and> mset ps = (if fm n then {#(query_dis qdis n, n)#} else {#}) + node_offers qdis (fsel fm) V"
proof -
  from search_descent [OF g(1) b e] obtain n st where
    n: "greedy_descent h qdis (levels_down (max_level h) 1)
      ((entry_point h, query_dis qdis (entry_point h)), stats_reset) = Some ((n, query_dis qdis n), st)"
    "node_at h 0 n" "query_dis qdis n \<le> query_dis qdis (entry_point h)" by blast
  define ef where "ef = max (efSearch h) (extract_k H res)"
  have ef: "1 \<le> ef" using k by (simp add: ef_def)
  let ?c = "start_candidates ef n (query_dis qdis n)" and ?C = "take 10 (filter fm (map int [0..<ntotal h]))"
  define res1 where "res1 = (if fm n then fst (add_result H res (query_dis qdis n) n) else res)"
  define vt1 where "vt1 = (if fm n then vt_set vt n else vt)"
  let ?s0 = "\<lparr>hs_res = res1, hs_threshold = threshold_of H res1, hs_candidates = ?c, hs_nres = 0\<rparr>"
  have res1: "res1 = offers H res (if fm n then [(query_dis qdis n, n)] else [])" "inv res1"
    using add_inv [OF iv] iv by (auto simp: res1_def offers_def)
  have v: "ntotal h \<le> vt_size vt" "vt_ok vt" using vt by (auto simp: vt_clear_def)
  define s where "s = one_by_one qdis (add_to_heap H None) ?C (refresh H ?s0)"
  have nf: "navix_add_filtered_nodes_to_candidates h qdis H fm 10 (vt1, ?s0) = (mark_all ?C vt1, s)"
    by (simp add: navix_add_filtered_nodes_to_candidates_def add_filtered_eq s_def)
  have "handler_state_ok (refresh H ?s0)" using res1(2) by (simp add: handler_state_ok_def refresh_def)
  from add_all_to_heap [OF this, of qdis None ?C] have
    r: "handler_state_ok s" "hs_res s = offers H res1 (offered_nodes qdis None ?C)" "hs_candidates s = push_all qdis ?C ?c"
    by (auto simp: s_def refresh_def)
  have C: "\<forall>v \<in> set ?C. node_at h 0 v"
  proof
    fix v assume "v \<in> set ?C"
    then have "v \<in> set (map int [0..<ntotal h])" by (meson filter_is_subset in_set_takeD subsetD)
    then show "node_at h 0 v" using lv by (auto simp: node_at_def)
  qed
  note sc = start_candidates_ok(1) [OF ef n(2), of qdis]
  let ?vt2 = "mark_all ?C vt1"
  have v1: "vt_ok vt1" "vt_size vt1 = vt_size vt" using v(2) by (auto simp: vt1_def vt_ok_set)
  have "hs_res s = offers H (hs_res s) [] \<and> mset [] = node_offers qdis (fsel fm) (new_nodes ?vt2 ?vt2)"
    by (simp add: offers_def node_offers_def new_nodes_def)
  then have I: "sfc_inv h qdis 0 (fsel fm) ?vt2 (hs_res s) (?vt2, 0, 0, s)"
    using cand_ok_push_all [OF sc C] r(1,3) vt_ok_mark_all [OF v1(1)]
    by (auto simp: sfc_inv_def handler_state_ok_def new_nodes_def)
  have sz: "ntotal h \<le> vt_size ?vt2" using v(1) v1(2) by simp
  from navix_loop_total [OF g b sz I, of st] obtain vt3 s3 stats3 where
    l: "iterate (navix_body h qdis H fm) (?vt2, s, st) = Some (Inr (vt3, s3, stats3))"
    "sfc_inv h qdis 0 (fsel fm) ?vt2 (hs_res s) (vt3, 0, 0, s3)" by blast
  let ?N = "new_nodes ?vt2 vt3"
  from l(2) obtain ps where p: "hs_res s3 = offers H (hs_res s) ps" "mset ps = node_offers qdis (fsel fm) ?N"
    "vt_ok vt3" "vt_size vt3 = vt_size ?vt2" "\<forall>v \<in> ?N. node_at h 0 v" by (auto simp: sfc_inv_def)
  let ?ps = "(if fm n then [(query_dis qdis n, n)] else []) @ offered_nodes qdis None ?C @ ps"
  have dist: "distinct ?C" by (simp add: distinct_map)
  have "?N \<inter> set ?C = {}"
  proof -
    have "\<forall>v \<in> set ?C. vt_has vt1 v" using C v(1) v1(2) by (auto simp: vt_has_iff node_at_def)
    then have "set ?C \<subseteq> vt_members ?vt2" by (auto simp: vt_members_def vt_get_mark_all)
    then show ?thesis by (auto simp: new_nodes_def)
  qed
  from node_offers_union [OF finite_new_nodes dist this, of qdis "fsel fm"]
  have V: "node_offers qdis (fsel fm) (?N \<union> set ?C) = node_offers qdis (fsel fm) ?N + mset (offered_nodes qdis (fsel fm) ?C)" .
  have fC: "filter fm ?C = ?C" by (rule filter_True) (auto dest: in_set_takeD)
  then have oC: "offered_nodes qdis (fsel fm) ?C = offered_nodes qdis None ?C" by (simp add: offered_nodes_def)
  have "navix_hybrid_search h qdis H res vt fm = Some (Inr (stats3, hs_res s3, vt3))"
    using e(2) n(1) nf l(1) by (auto simp: navix_hybrid_search_def navix_start_def ef_def res1_def vt1_def)
  moreover have "hs_res s3 = offers H res ?ps" using p(1) r(2) res1(1) by (simp add: offers_append)
  moreover have "mset ?ps = (if fm n then {#(query_dis qdis n, n)#} else {#}) + node_offers qdis (fsel fm) (?N \<union> set ?C)"
    unfolding V oC using p(2) by simp
  moreover have "?N \<union> set ?C \<subseteq> {v. node_at h 0 v}" using p(5) C by blast
  moreover have "vt_size vt3 = vt_size vt" using p(4) v1(2) by simp
  ultimately show ?thesis using n(2,3) p(3) by blast
qed

end

end
