(* ===== verification/Hnsw_Navix_Limits.thy ===== *)
theory Hnsw_Navix_Limits
  imports Hnsw_Navix_Correct
begin

text \<open>
  The properties of the Navix search, and its limits: the fixed node array, the 32-bit loop
  variable and the double offer of the nearest node.
\<close>

section \<open>How many nodes two hops gather\<close>

fun taken :: "filter_map \<Rightarrow> visited_table \<Rightarrow> storage_idx_t list \<Rightarrow> storage_idx_t list" where
  "taken fm vt [] = []"
| "taken fm vt (v # vs) = (if fm v \<and> \<not> vt_get vt v then v # taken fm (vt_set vt v) vs else taken fm vt vs)"

lemma take_overflow:
  assumes "length arr \<le> 4096" "4096 < length arr + length (taken fm vt vs)"
  shows "fold_result (navix_take fm) vs (vt, arr) = Inl Out_of_bounds"
  using assms
proof (induction vs arbitrary: vt arr)
  case (Cons v vs)
  show ?case
  proof (cases "fm v \<and> \<not> vt_get vt v")
    case True
    then have e: "navix_take fm v (vt, arr) = (if length arr < 4096 then Inr (vt_set vt v, arr @ [v]) else Inl Out_of_bounds)"
      by (auto simp: navix_take_def push_node_def)
    show ?thesis
    proof (cases "length arr < 4096")
      case l: True
      then have "fold_result (navix_take fm) vs (vt_set vt v, arr @ [v]) = Inl Out_of_bounds"
        using Cons.prems True by (intro Cons.IH) auto
      then show ?thesis using e l by simp
    qed (use e in simp)
  next
    case False
    then have "navix_take fm v (vt, arr) = Inr (vt, arr)" by (auto simp: navix_take_def)
    moreover have "taken fm vt (v # vs) = taken fm vt vs" using False by auto
    ultimately show ?thesis using Cons by simp
  qed
qed simp

lemma full_two_hop_overflow:
  assumes "fold_result (navix_take fm) (concat (map (\<lambda>v. v # links h v 0) vs)) (vt, arr) = Inl err"
  shows "navix_full_two_hop h vs fm (vt, arr, nhops) = Inl err"
  using assms
proof (induction vs arbitrary: vt arr nhops)
  case (Cons v vs)
  have u: "concat (map (\<lambda>v. v # links h v 0) (v # vs)) = (v # links h v 0) @ concat (map (\<lambda>v. v # links h v 0) vs)" by simp
  have s: "full_two_hop_step h fm v (vt, arr, nhops) =
      bind_result (fold_result (navix_take fm) (v # links h v 0) (vt, arr)) (\<lambda>(vt', arr'). Inr (vt', arr', nhops + 1))"
    by (cases "navix_take fm v (vt, arr)") (simp_all add: full_two_hop_step_def)
  show ?case
  proof (cases "fold_result (navix_take fm) (v # links h v 0) (vt, arr)")
    case (Inl e)
    then have "e = err" using Cons.prems unfolding u fold_result_append by simp
    then show ?thesis using s Inl by (simp add: navix_full_two_hop_def)
  next
    case (Inr p)
    obtain vt1 arr1 where p: "p = (vt1, arr1)" by (metis surj_pair)
    have "fold_result (navix_take fm) (concat (map (\<lambda>v. v # links h v 0) vs)) (vt1, arr1) = Inl err"
      using Cons.prems Inr p unfolding u fold_result_append by simp
    from Cons.IH [OF this, of "nhops + 1"] show ?thesis using s Inr p by (simp add: navix_full_two_hop_def)
  qed
qed simp

lemma taken_distinct:
  assumes "distinct (filter fm vs)" "\<forall>v \<in> set vs. fm v \<longrightarrow> \<not> vt_get vt v"
  shows "taken fm vt vs = filter fm vs"
  using assms by (induction vs arbitrary: vt) auto

text \<open>
  A graph of degree 64, the level-0 degree of the default \<open>M = 32\<close>: node 0 has the neighbors
  1 to 64, node \<open>i\<close> up to 64 has \<open>64 i + 1\<close> to \<open>64 i + 64\<close>.
\<close>

definition wide_graph :: hnsw where
  "wide_graph =
     \<lparr>assign_probas = [1], cum_nneighbor_per_level = [0, 64], levels = replicate 4161 1,
      offsets = map (\<lambda>i. 64 * i) [0..<4162],
      neighbors = map int [1..<4161] @ replicate (4096 * 64) (-1), entry_point = 0, max_level = 0,
      efConstruction = 40, efSearch = 16, check_relative_distance = True, search_bounded_queue = True\<rparr>"

lemma wide_graph_links:
  assumes "i \<le> 64"
  shows "links wide_graph (int i) 0 = map int [64 * i + 1..<64 * i + 65]"
proof -
  have "neighbor_range wide_graph (int i) 0 = (64 * i, 64 * i + 64)"
    using assms by (simp add: neighbor_range_def cum_nb_neighbors_def wide_graph_def Let_def del: upt_Suc)
  then have "slots wide_graph (int i) 0 = map (\<lambda>j. neighbors wide_graph ! j) [64 * i..<64 * i + 64]"
    by (simp add: slots_def)
  also have "\<dots> = map int [64 * i + 1..<64 * i + 65]"
    using assms by (intro nth_equalityI) (auto simp: wide_graph_def nth_append simp del: upt_Suc)
  finally have s: "slots wide_graph (int i) 0 = map int [64 * i + 1..<64 * i + 65]" .
  show ?thesis unfolding links_def s by (simp add: takeWhile_eq_all_conv)
qed

definition two_hops :: "nat \<Rightarrow> int list" where
  "two_hops n = concat (map (\<lambda>v. int v # map int [64 * v + 1..<64 * v + 65]) [1..<n])"

lemma two_hops_Suc: "1 \<le> n \<Longrightarrow> two_hops (Suc n) = two_hops n @ int n # map int [64 * n + 1..<64 * n + 65]"
  by (simp add: two_hops_def)

lemma set_two_hops: "n \<le> 65 \<Longrightarrow> 1 \<le> n \<Longrightarrow> set (two_hops n) = int ` ({1..<n} \<union> {65..<64 * n + 1})"
proof (induction n)
  case (Suc n)
  show ?case
  proof (cases "n = 0")
    case False
    then have "set (two_hops (Suc n)) = int ` ({1..<n} \<union> {65..<64 * n + 1}) \<union> int ` ({n} \<union> {64 * n + 1..<64 * n + 65})"
      using Suc by (simp add: two_hops_Suc)
    also have "\<dots> = int ` (({1..<n} \<union> {65..<64 * n + 1}) \<union> ({n} \<union> {64 * n + 1..<64 * n + 65}))" by blast
    also have "({1..<n} \<union> {65..<64 * n + 1}) \<union> ({n} \<union> {64 * n + 1..<64 * n + 65}) = {1..<Suc n} \<union> {65..<64 * Suc n + 1}"
      using False by auto
    finally show ?thesis .
  qed (simp add: two_hops_def)
qed simp

lemma distinct_two_hops: "n \<le> 65 \<Longrightarrow> 1 \<le> n \<Longrightarrow> distinct (two_hops n)"
proof (induction n)
  case (Suc n)
  show ?case
  proof (cases "n = 0")
    case False
    have "set (two_hops n) \<inter> set (int n # map int [64 * n + 1..<64 * n + 65]) = {}"
      using Suc.prems False set_two_hops [of n] by auto
    moreover have "int n \<notin> set (map int [64 * n + 1..<64 * n + 65])" by auto
    ultimately show ?thesis using Suc False by (simp add: two_hops_Suc distinct_map)
  qed (simp add: two_hops_def)
qed simp

lemma wide_graph_overflow:
  "navix_full_two_hop wide_graph (links wide_graph 0 0) (\<lambda>v. v \<ge> 61) (vt_new 4161, [], 0) = Inl Out_of_bounds"
proof -
  let ?fm = "\<lambda>v :: int. v \<ge> 61"
  have l0: "links wide_graph 0 0 = map int [1..<65]" using wide_graph_links [of 0] by simp
  have "map (\<lambda>v. v # links wide_graph v 0) (map int [1..<65]) = map (\<lambda>v. int v # map int [64 * v + 1..<64 * v + 65]) [1..<65]"
    unfolding map_map comp_def by (intro map_cong refl) (simp add: wide_graph_links)
  then have c: "concat (map (\<lambda>v. v # links wide_graph v 0) (links wide_graph 0 0)) = two_hops 65"
    unfolding l0 two_hops_def by (rule arg_cong [of _ _ concat])
  have d: "distinct (filter ?fm (two_hops 65))" using distinct_two_hops [of 65] by simp
  have "int ` {61..<4161} \<subseteq> set (filter ?fm (two_hops 65))" using set_two_hops [of 65] by auto
  then have "card (int ` {61..<4161}) \<le> card (set (filter ?fm (two_hops 65)))" by (intro card_mono) auto
  then have "4096 < length (filter ?fm (two_hops 65))" unfolding distinct_card [OF d] by (simp add: card_image)
  then have "4096 < length (taken ?fm (vt_new 4161) (two_hops 65))" using taken_distinct [OF d, of "vt_new 4161"] by simp
  then have "fold_result (navix_take ?fm) (two_hops 65) (vt_new 4161, []) = Inl Out_of_bounds"
    by (intro take_overflow) simp_all
  then show ?thesis using full_two_hop_overflow [of ?fm wide_graph "links wide_graph 0 0"] unfolding c by blast
qed

section \<open>Properties\<close>




text \<open>
  Past \<open>2^31\<close> entries of the neighbor table the loop that looks for the end of the links of a
  node does not run, because its variable has 32 bits: a list with an empty slot makes the search
  read the filter at index -1.
\<close>

theorem navix_wide_table_out_of_bounds:
  assumes "2 ^ 31 \<le> begin'" "begin' < 2 ^ 32" "begin' \<le> j" "j < end'" "ns ! j = -1"
  shows "bind_result (trim_end ns begin' end') (\<lambda>e. count_filtered fm (map (\<lambda>j. ns ! j) [begin'..<e])) = Inl Out_of_bounds"
proof -
  have "sint (word_of_nat begin' :: 32 word) < 0"
  proof -
    have "uint (word_of_nat begin' :: 32 word) = int begin'"
      using assms(2) by (simp add: unsigned_of_nat take_bit_nat_eq_self)
    then have "sint (word_of_nat begin' :: 32 word) = signed_take_bit 31 (int begin')" by (simp add: sint_uint)
    also have "\<dots> = int begin' - 2 ^ 32"
      using assms(1,2) signed_take_bit_int_eq_self_iff [of 31 "int begin' - 2 ^ 32"]
        signed_take_bit_diff [of 31 "int begin'" "2 ^ 32"] by simp
    finally show ?thesis using assms(2) by simp
  qed
  then have t: "trim_end ns begin' end' = Inr end'" by (simp add: trim_end_def)
  have neg: "fold_result (\<lambda>v n. if v < 0 then Inl Out_of_bounds else Inr (if fm v then n + 1 else n)) vs n = Inl Out_of_bounds"
    if "\<exists>v \<in> set vs. v < 0" for vs and n :: nat
    using that by (induction vs arbitrary: n) auto
  have "ns ! j \<in> set (map (\<lambda>j. ns ! j) [begin'..<end'])" using assms(3,4) by simp
  then have "\<exists>v \<in> set (map (\<lambda>j. ns ! j) [begin'..<end']). v < 0" unfolding assms(5) by (rule bexI [rotated]) simp
  then show ?thesis unfolding t count_filtered_def bind_result.simps by (rule neg)
qed

theorem navix_wide_table_out_of_bounds_witness:
  "bind_result (trim_end (replicate (2 ^ 31 + 64) (-1)) (2 ^ 31) (2 ^ 31 + 64))
     (\<lambda>e. count_filtered (\<lambda>_. True) (map (\<lambda>j. replicate (2 ^ 31 + 64) (-1) ! j) [2 ^ 31..<e])) = Inl Out_of_bounds"
  by (rule navix_wide_table_out_of_bounds [of _ "2 ^ 31"]) (simp_all add: nth_replicate)

text \<open>
  The node at which the greedy descent stops is offered twice when it passes the filter and is
  one of the first ten that do: a 3-nearest search on three nodes answers 2, 1, 1 and leaves out
  node 0. The ordinary search answers 2, 1, 0.
\<close>

theorem navix_duplicate_result:
  "map_option (map_sum (\<lambda>_. ()) (\<lambda>(_, r, _). hh_end (CMax 0 100) r))
     (navix_hybrid_search example_graph (default_computer (\<lambda>v. \<bar>v - 2\<bar>) (\<lambda>v w. \<bar>v - w\<bar>))
        (heap_result_handler (CMax 0 100)) (hh_begin (CMax 0 100) 3 [0, 0, 0] [0, 0, 0]) (vt_new 3) (\<lambda>_. True)) =
     Some (Inr ([0, 1, 1], [2, 1, 1]))
   \<and> map_option (map_sum (\<lambda>_. ()) (\<lambda>(_, r, _). hh_end (CMax 0 100) r))
     (hnsw_search example_graph (default_computer (\<lambda>v. \<bar>v - 2\<bar>) (\<lambda>v w. \<bar>v - w\<bar>))
        (heap_result_handler (CMax 0 100)) (hh_begin (CMax 0 100) 3 [0, 0, 0] [0, 0, 0]) (vt_new 3) None) =
     Some (Inr ([0, 1, 2], [2, 1, 0]))"
  by (rule conjI; code_simp)

end
