(* ===== verification/Bitstring.thy ===== *)
theory Bitstring
  imports Loops
begin

text \<open>
  \<open>BitstringWriter\<close> and \<open>BitstringReader\<close> (\<open>faiss/utils/hamming-inl.h\<close>): unsigned fields of any
  width up to 64 bits packed one after the other into a byte string, least significant bit first.
  Bytes and values keep their widths; a byte offset outside the string is \<open>Out_of_bounds\<close>.
\<close>

unbundle bit_operations_syntax

record bit_writer =
  bw_code :: "8 word list"
  bw_pos :: nat

record bit_reader =
  br_code :: "8 word list"
  br_pos :: nat

definition bit_writer_new :: "nat \<Rightarrow> bit_writer" where
  "bit_writer_new code_size = \<lparr>bw_code = replicate code_size 0, bw_pos = 0\<rparr>"

definition bit_reader_new :: "8 word list \<Rightarrow> bit_reader" where
  "bit_reader_new code = \<lparr>br_code = code, br_pos = 0\<rparr>"

text \<open>\<open>code[j] |= x\<close> and \<open>code[j]\<close>.\<close>

definition or_byte :: "8 word list \<Rightarrow> nat \<Rightarrow> 64 word \<Rightarrow> 8 word list result" where
  "or_byte code j x =
     (if j < length code then Inr (code[j := code ! j OR ucast x]) else Inl Out_of_bounds)"

definition get_byte :: "8 word list \<Rightarrow> nat \<Rightarrow> 8 word result" where
  "get_byte code j = (if j < length code then Inr (code ! j) else Inl Out_of_bounds)"

lemma drop_byte_less: "x \<noteq> 0 \<Longrightarrow> unat (drop_bit 8 (x :: 64 word)) < unat x"
proof -
  assume "x \<noteq> 0"
  then have "0 < unat x" using unat_gt_0 by blast
  then show ?thesis by (simp add: unat_drop_bit_eq drop_bit_nat_def del: unat_gt_0)
qed

text \<open>The loop \<open>while (x != 0)\<close>: the bytes after the first.\<close>

function write_bytes :: "8 word list \<Rightarrow> nat \<Rightarrow> 64 word \<Rightarrow> 8 word list result" where
  "write_bytes code j x =
     (if x = 0 then Inr code
      else bind_result (or_byte code j x) (\<lambda>code. write_bytes code (j + 1) (drop_bit 8 x)))"
  by pat_completeness auto
termination
  by (relation "measure (\<lambda>(code, j, x). unat x)") (auto simp: drop_byte_less)

declare write_bytes.simps [simp del]

definition bw_write :: "bit_writer \<Rightarrow> 64 word \<Rightarrow> nat \<Rightarrow> bit_writer result" where
  "bw_write w x nbit =
     (if \<not> nbit + bw_pos w \<le> length (bw_code w) * 8 then Inl Assert_failed
      else
        let na = 8 - bw_pos w mod 8; j = bw_pos w div 8 in
        bind_result (or_byte (bw_code w) j (push_bit (bw_pos w mod 8) x)) (\<lambda>code.
          if nbit \<le> na then Inr \<lparr>bw_code = code, bw_pos = bw_pos w + nbit\<rparr>
          else bind_result (write_bytes code (j + 1) (drop_bit na x)) (\<lambda>code.
            Inr \<lparr>bw_code = code, bw_pos = bw_pos w + nbit\<rparr>)))"

text \<open>The loop \<open>while (nbit > 8)\<close> with the last, partial byte.\<close>

function read_bytes :: "8 word list \<Rightarrow> nat \<Rightarrow> nat \<Rightarrow> nat \<Rightarrow> 64 word \<Rightarrow> 64 word result" where
  "read_bytes code j ofs nbit res =
     bind_result (get_byte code j) (\<lambda>b.
       if 8 < nbit then read_bytes code (j + 1) (ofs + 8) (nbit - 8) (res OR push_bit ofs (ucast b))
       else Inr (res OR push_bit ofs (ucast b AND mask nbit)))"
  by pat_completeness auto
termination
  by (relation "measure (\<lambda>(code, j, ofs, nbit, res). nbit)") auto

declare read_bytes.simps [simp del]

definition br_read :: "bit_reader \<Rightarrow> nat \<Rightarrow> (64 word \<times> bit_reader) result" where
  "br_read r nbit =
     (if \<not> nbit + br_pos r \<le> length (br_code r) * 8 then Inl Assert_failed
      else
        let na = 8 - br_pos r mod 8; j = br_pos r div 8; r' = r\<lparr>br_pos := br_pos r + nbit\<rparr> in
        bind_result (get_byte (br_code r) j) (\<lambda>b.
          let res = ucast (drop_bit (br_pos r mod 8) b) in
          if nbit \<le> na then Inr (res AND mask nbit, r')
          else bind_result (read_bytes (br_code r) (j + 1) na (nbit - na) res) (\<lambda>res. Inr (res, r'))))"

text \<open>A record of fields, as the encoders write and read them.\<close>

definition write_fields :: "(64 word \<times> nat) list \<Rightarrow> bit_writer \<Rightarrow> bit_writer result" where
  "write_fields = fold_result (\<lambda>(x, nbit) w. bw_write w x nbit)"

fun read_fields :: "nat list \<Rightarrow> bit_reader \<Rightarrow> 64 word list result" where
  "read_fields [] r = Inr []"
| "read_fields (nbit # ns) r =
     bind_result (br_read r nbit) (\<lambda>(x, r). bind_result (read_fields ns r) (\<lambda>xs. Inr (x # xs)))"

section \<open>The bits of a byte string\<close>

definition code_bit :: "8 word list \<Rightarrow> nat \<Rightarrow> bool" where
  "code_bit code p \<longleftrightarrow> p div 8 < length code \<and> bit (code ! (p div 8)) (p mod 8)"

lemma code_bit_zero [simp]: "\<not> code_bit (replicate n 0) p"
  by (auto simp: code_bit_def)

lemma word_bits_below:
  fixes x :: "64 word"
  assumes "unat x < 2 ^ n" "bit x k"
  shows "k < n"
proof -
  have "bit (unat x) k" using assms(2) by (simp add: bit_unsigned_iff bit_imp_le_length)
  moreover have "take_bit n (unat x) = unat x" using assms(1) by (simp add: take_bit_nat_eq_self)
  ultimately show ?thesis by (metis bit_take_bit_iff)
qed

lemma or_byte_bits:
  assumes "or_byte code j x = Inr code'"
  shows "length code' = length code
    \<and> code_bit code' p = (code_bit code p \<or> (p div 8 = j \<and> bit x (p mod 8)))"
  using assms
  by (auto simp: or_byte_def code_bit_def bit_or_iff bit_unsigned_iff nth_list_update split: if_splits)

lemma byte_pos:
  fixes p j :: nat
  assumes "8 * j + q \<le> p" "p < 8 * j + 8"
  shows "p div 8 = j" "p mod 8 - q = p - (8 * j + q)" "q \<le> p mod 8"
proof -
  obtain m where m: "p = 8 * j + m" using assms(1) by (metis le_add1 le_trans nat_le_iff_add)
  then have "m < 8" using assms(2) by simp
  then show "p div 8 = j" "p mod 8 - q = p - (8 * j + q)" "q \<le> p mod 8" using m assms(1) by simp_all
qed

lemma byte_pos_iff:
  fixes p j :: nat
  shows "(p div 8 = j \<and> q \<le> p mod 8) \<longleftrightarrow> (8 * j + q \<le> p \<and> p < 8 * j + 8)"
proof -
  have "p = 8 * (p div 8) + p mod 8" "p mod 8 < 8" by simp_all
  then have "8 * j + q \<le> p \<and> p < 8 * j + 8" if "p div 8 = j" "q \<le> p mod 8" using that by linarith
  then show ?thesis using byte_pos [of j q p] by blast
qed

lemma write_bytes_bits:
  assumes "\<And>k. bit x k \<Longrightarrow> 8 * j + k < 8 * length code"
  shows "\<exists>code'. write_bytes code j x = Inr code' \<and> length code' = length code
    \<and> (\<forall>p. code_bit code' p = (code_bit code p \<or> (8 * j \<le> p \<and> bit x (p - 8 * j))))"
  using assms
proof (induction code j x rule: write_bytes.induct)
  case (1 code j x)
  show ?case
  proof (cases "x = 0")
    case True
    then show ?thesis by (simp add: write_bytes.simps [of _ _ 0])
  next
    case False
    then obtain k where "bit x k" by (auto simp: bit_eq_iff)
    then have "j < length code" using "1.prems" by fastforce
    then obtain c where c: "or_byte code j x = Inr c" by (simp add: or_byte_def)
    note cb = or_byte_bits [OF c]
    have "8 * (j + 1) + k < 8 * length c" if "bit (drop_bit 8 x) k" for k
      using "1.prems" [of "8 + k"] that cb by (simp add: bit_drop_bit_eq)
    from "1.IH" [OF False, of c, OF this] obtain c' where
      c': "write_bytes c (j + 1) (drop_bit 8 x) = Inr c'" "length c' = length c"
        "\<And>p. code_bit c' p = (code_bit c p \<or> (8 * (j + 1) \<le> p \<and> bit (drop_bit 8 x) (p - 8 * (j + 1))))"
      by blast
    have "code_bit c' p = (code_bit code p \<or> (8 * j \<le> p \<and> bit x (p - 8 * j)))" for p
    proof -
      consider "p < 8 * j" | "8 * j \<le> p" "p < 8 * (j + 1)" | "8 * (j + 1) \<le> p" by linarith
      then show ?thesis
      proof cases
        case 1
        then have "p div 8 \<noteq> j" by auto
        then show ?thesis using 1 c'(3) cb by simp
      next
        case 2
        then have "p div 8 = j" "p mod 8 = p - 8 * j" using byte_pos [of j 0 p] by simp_all
        then show ?thesis using 2 c'(3) cb by simp
      next
        case 3
        then have "p div 8 \<noteq> j" "8 + (p - 8 * (j + 1)) = p - 8 * j" by auto
        then show ?thesis using 3 c'(3) cb by (simp add: bit_drop_bit_eq)
      qed
    qed
    then show ?thesis using c c'(1,2) cb False by (simp add: write_bytes.simps [of code])
  qed
qed

text \<open>The bits a call of \<open>write\<close> adds.\<close>

lemma bw_write_bits:
  assumes "0 < nbit" "unat x < 2 ^ nbit" "bw_pos w + nbit \<le> 8 * length (bw_code w)"
  shows "\<exists>w'. bw_write w x nbit = Inr w' \<and> bw_pos w' = bw_pos w + nbit
    \<and> length (bw_code w') = length (bw_code w)
    \<and> (\<forall>p. code_bit (bw_code w') p
          = (code_bit (bw_code w) p \<or> (bw_pos w \<le> p \<and> bit x (p - bw_pos w))))"
proof -
  define i j q where "i = bw_pos w" and "j = bw_pos w div 8" and "q = bw_pos w mod 8"
  have ij: "i = 8 * j + q" "q < 8" by (simp_all add: i_def j_def q_def)
  have "j < length (bw_code w)" using assms(1,3) ij by (simp add: i_def)
  then obtain c where c: "or_byte (bw_code w) j (push_bit q x) = Inr c" by (simp add: or_byte_def)
  note cb = or_byte_bits [OF c]
  have low: "(p div 8 = j \<and> bit (push_bit q x) (p mod 8)) \<longleftrightarrow> (i \<le> p \<and> p < i + (8 - q) \<and> bit x (p - i))" for p
    using byte_pos_iff [of p j q] byte_pos [of j q p] ij
      order.strict_trans [of "p mod 8" 8 64]
    by (auto simp: bit_push_bit_iff)
  show ?thesis
  proof (cases "nbit \<le> 8 - q")
    case True
    have "(i \<le> p \<and> p < i + (8 - q) \<and> bit x (p - i)) = (i \<le> p \<and> bit x (p - i))" for p
      using word_bits_below [OF assms(2)] True by fastforce
    then show ?thesis using c cb low True assms(3) by (simp add: bw_write_def i_def j_def q_def Let_def)
  next
    case False
    have "8 * (j + 1) + k < 8 * length c" if "bit (drop_bit (8 - q) x) k" for k
      using word_bits_below [OF assms(2), of "8 - q + k"] that cb assms(3) ij
      by (simp add: bit_drop_bit_eq i_def)
    from write_bytes_bits [of "drop_bit (8 - q) x" "j + 1" c, OF this] obtain c' where
      c': "write_bytes c (j + 1) (drop_bit (8 - q) x) = Inr c'" "length c' = length c"
        "\<And>p. code_bit c' p = (code_bit c p \<or> (8 * (j + 1) \<le> p \<and> bit (drop_bit (8 - q) x) (p - 8 * (j + 1))))"
      by blast
    have "code_bit c' p = (code_bit (bw_code w) p \<or> (i \<le> p \<and> bit x (p - i)))" for p
    proof (cases "8 * (j + 1) \<le> p")
      case True
      then have "8 - q + (p - 8 * (j + 1)) = p - i" "i \<le> p" "\<not> p < i + (8 - q)" using ij by presburger+
      then show ?thesis using True c'(3) cb low by (simp add: bit_drop_bit_eq)
    next
      case False
      then have "i \<le> p \<Longrightarrow> p < i + (8 - q)" using ij by presburger
      then show ?thesis using False c'(3) cb low by auto
    qed
    then show ?thesis using c c'(1,2) cb False assms(3) by (simp add: bw_write_def i_def j_def q_def Let_def)
  qed
qed

lemma get_byte_bits:
  assumes "get_byte code j = Inr b" "m < 8"
  shows "bit b m = code_bit code (8 * j + m)"
  using assms by (auto simp: get_byte_def code_bit_def split: if_splits)

lemma read_bytes_bits:
  assumes "0 < nbit" "8 * j + nbit \<le> 8 * length code" "ofs + nbit \<le> 64"
  shows "\<exists>x. read_bytes code j ofs nbit res = Inr x
    \<and> (\<forall>k. bit x k = (bit res k \<or> (ofs \<le> k \<and> k < ofs + nbit \<and> code_bit code (8 * j + (k - ofs)))))"
  using assms
proof (induction code j ofs nbit res rule: read_bytes.induct)
  case (1 code j ofs nbit res)
  then have "j < length code" by linarith
  then obtain b where b: "get_byte code j = Inr b" by (simp add: get_byte_def)
  note bb = get_byte_bits [OF b]
  have sh: "bit (push_bit ofs (ucast b :: 64 word)) k = (ofs \<le> k \<and> k < ofs + 8 \<and> code_bit code (8 * j + (k - ofs)))"
    if "k < 64" for k
    using bb [of "k - ofs"] that bit_imp_le_length [of b "k - ofs"]
    by (auto simp: bit_push_bit_iff bit_unsigned_iff)
  show ?case
  proof (cases "8 < nbit")
    case True
    from "1.IH" [OF True, of b] "1.prems" True obtain x where
      x: "read_bytes code (j + 1) (ofs + 8) (nbit - 8) (res OR push_bit ofs (ucast b)) = Inr x"
        "\<And>k. bit x k = (bit (res OR push_bit ofs (ucast b)) k
          \<or> (ofs + 8 \<le> k \<and> k < ofs + 8 + (nbit - 8) \<and> code_bit code (8 * (j + 1) + (k - (ofs + 8)))))"
      by fastforce
    have "bit x k = (bit res k \<or> (ofs \<le> k \<and> k < ofs + nbit \<and> code_bit code (8 * j + (k - ofs))))" for k
    proof (cases "k < 64")
      case k: True
      have "ofs + 8 \<le> k \<Longrightarrow> 8 * (j + 1) + (k - (ofs + 8)) = 8 * j + (k - ofs)" by presburger
      then show ?thesis using x(2) [of k] sh [OF k] True by (auto simp: bit_or_iff)
    next
      case False
      then show ?thesis using "1.prems"(3) bit_imp_le_length [of x k] bit_imp_le_length [of res k] by auto
    qed
    then show ?thesis using b x(1) True by (simp add: read_bytes.simps [of code])
  next
    case False
    have "bit (push_bit ofs (ucast b AND mask nbit) :: 64 word) k
        = (ofs \<le> k \<and> k < ofs + nbit \<and> code_bit code (8 * j + (k - ofs)))" for k
      using bb [of "k - ofs"] False "1.prems"(3) bit_imp_le_length [of b "k - ofs"]
      by (auto simp: bit_push_bit_iff bit_unsigned_iff bit_and_iff bit_mask_iff)
    then show ?thesis using b False by (simp add: read_bytes.simps [of code] bit_or_iff)
  qed
qed

text \<open>The bits a call of \<open>read\<close> returns.\<close>

lemma br_read_bits:
  assumes "0 < nbit" "nbit \<le> 64" "br_pos r + nbit \<le> 8 * length (br_code r)"
  shows "\<exists>x. br_read r nbit = Inr (x, r\<lparr>br_pos := br_pos r + nbit\<rparr>)
    \<and> (\<forall>k. bit x k = (k < nbit \<and> code_bit (br_code r) (br_pos r + k)))"
proof -
  define i j q where "i = br_pos r" and "j = br_pos r div 8" and "q = br_pos r mod 8"
  have ij: "i = 8 * j + q" "q < 8" by (simp_all add: i_def j_def q_def)
  have "j < length (br_code r)" using assms(1,3) ij by (simp add: i_def)
  then obtain b where b: "get_byte (br_code r) j = Inr b" by (simp add: get_byte_def)
  have low: "bit (ucast (drop_bit q b) :: 64 word) k = (k < 8 - q \<and> code_bit (br_code r) (i + k))" for k
  proof (cases "k < 8 - q")
    case True
    then have "q + k < 8" "k < 64" using ij by simp_all
    then show ?thesis using True get_byte_bits [OF b, of "q + k"] ij
      by (simp add: bit_unsigned_iff bit_drop_bit_eq add.assoc)
  next
    case False
    then show ?thesis using bit_imp_le_length [of b "q + k"]
      by (auto simp: bit_unsigned_iff bit_drop_bit_eq)
  qed
  show ?thesis
  proof (cases "nbit \<le> 8 - q")
    case True
    then have "\<forall>k. bit (ucast (drop_bit q b) AND mask nbit :: 64 word) k = (k < nbit \<and> code_bit (br_code r) (i + k))"
      unfolding bit_and_iff bit_mask_iff low using assms(2) True by auto
    moreover have "br_read r nbit = Inr (ucast (drop_bit q b) AND mask nbit, r\<lparr>br_pos := br_pos r + nbit\<rparr>)"
      using b True assms(3) unfolding br_read_def Let_def j_def [symmetric] q_def [symmetric] by simp
    ultimately show ?thesis unfolding i_def by blast
  next
    case False
    obtain x where x: "read_bytes (br_code r) (j + 1) (8 - q) (nbit - (8 - q)) (ucast (drop_bit q b)) = Inr x"
      "\<And>k. bit x k = (bit (ucast (drop_bit q b) :: 64 word) k \<or> (8 - q \<le> k \<and> k < 8 - q + (nbit - (8 - q))
            \<and> code_bit (br_code r) (8 * (j + 1) + (k - (8 - q)))))"
      using read_bytes_bits [of "nbit - (8 - q)" "j + 1" "br_code r" "8 - q" "ucast (drop_bit q b)"] False assms ij
      by (fastforce simp: i_def)
    have "bit x k = (k < nbit \<and> code_bit (br_code r) (i + k))" for k
    proof (cases "8 - q \<le> k")
      case True
      then have "8 * (j + 1) + (k - (8 - q)) = i + k" using ij by presburger
      then show ?thesis unfolding x(2) low using True False by auto
    next
      case k: False
      then show ?thesis unfolding x(2) low using False by auto
    qed
    then have "\<forall>k. bit x k = (k < nbit \<and> code_bit (br_code r) (br_pos r + k))" unfolding i_def by blast
    moreover have "br_read r nbit = Inr (x, r\<lparr>br_pos := br_pos r + nbit\<rparr>)"
      using b x(1) False assms(3) unfolding br_read_def Let_def j_def [symmetric] q_def [symmetric] by simp
    ultimately show ?thesis by blast
  qed
qed

text \<open>Writing a list of fields, by the bits that result.\<close>

fun field_bit :: "(64 word \<times> nat) list \<Rightarrow> nat \<Rightarrow> bool" where
  "field_bit [] p = False"
| "field_bit ((x, n) # fs) p = (if p < n then bit x p else field_bit fs (p - n))"

definition fields_ok :: "(64 word \<times> nat) list \<Rightarrow> bool" where
  "fields_ok fs \<longleftrightarrow> (\<forall>(x, n) \<in> set fs. 0 < n \<and> n \<le> 64 \<and> unat x < 2 ^ n)"

lemma write_fields_bits:
  assumes "fields_ok fs" "bw_pos w + sum_list (map snd fs) \<le> 8 * length (bw_code w)"
    and "\<And>p. bw_pos w \<le> p \<Longrightarrow> \<not> code_bit (bw_code w) p"
  shows "\<exists>w'. write_fields fs w = Inr w' \<and> length (bw_code w') = length (bw_code w)
    \<and> (\<forall>p. code_bit (bw_code w') p
          = (if p < bw_pos w then code_bit (bw_code w) p else field_bit fs (p - bw_pos w)))"
  using assms
proof (induction fs arbitrary: w)
  case Nil
  then show ?case by (auto simp: write_fields_def)
next
  case (Cons f fs)
  obtain x n where f: "f = (x, n)" by fastforce
  have xn: "0 < n" "unat x < 2 ^ n" "bw_pos w + n \<le> 8 * length (bw_code w)"
    using Cons.prems(1,2) f by (auto simp: fields_ok_def)
  obtain w1 where w1: "bw_write w x n = Inr w1" "bw_pos w1 = bw_pos w + n" "length (bw_code w1) = length (bw_code w)"
    "\<And>p. code_bit (bw_code w1) p = (code_bit (bw_code w) p \<or> (bw_pos w \<le> p \<and> bit x (p - bw_pos w)))"
    using bw_write_bits [OF xn] by blast
  have ok: "fields_ok fs" "bw_pos w1 + sum_list (map snd fs) \<le> 8 * length (bw_code w1)"
    using Cons.prems(1,2) f w1 by (auto simp: fields_ok_def)
  have free: "\<not> code_bit (bw_code w1) p" if "bw_pos w1 \<le> p" for p
    using that w1(2,4) Cons.prems(3) [of p] word_bits_below [OF xn(2), of "p - bw_pos w"] by auto
  from Cons.IH [OF ok free] obtain w2 where w2: "write_fields fs w1 = Inr w2"
    "length (bw_code w2) = length (bw_code w1)"
    "\<And>p. code_bit (bw_code w2) p = (if p < bw_pos w1 then code_bit (bw_code w1) p else field_bit fs (p - bw_pos w1))"
    by blast
  have "code_bit (bw_code w2) p = (if p < bw_pos w then code_bit (bw_code w) p else field_bit (f # fs) (p - bw_pos w))" for p
    using w1(2,4) w2(3) [of p] Cons.prems(3) [of p] f by (cases "p < bw_pos w") (auto simp: diff_diff_left)
  then show ?case using w1 w2 f by (simp add: write_fields_def)
qed

lemma read_fields_bits:
  assumes "fields_ok fs" "br_pos r + sum_list (map snd fs) \<le> 8 * length (br_code r)"
    and "\<And>p. p < sum_list (map snd fs) \<Longrightarrow> code_bit (br_code r) (br_pos r + p) = field_bit fs p"
  shows "read_fields (map snd fs) r = Inr (map fst fs)"
  using assms
proof (induction fs arbitrary: r)
  case (Cons f fs)
  obtain x n where f: "f = (x, n)" by fastforce
  have xn: "0 < n" "n \<le> 64" "unat x < 2 ^ n" "br_pos r + n \<le> 8 * length (br_code r)"
    using Cons.prems(1,2) f by (auto simp: fields_ok_def)
  obtain y where y: "br_read r n = Inr (y, r\<lparr>br_pos := br_pos r + n\<rparr>)"
    "\<And>k. bit y k = (k < n \<and> code_bit (br_code r) (br_pos r + k))"
    using br_read_bits [OF xn(1,2,4)] by blast
  have "bit y k = bit x k" for k
    using y(2) [of k] Cons.prems(3) [of k] f word_bits_below [OF xn(3), of k] by auto
  then have yx: "y = x" by (simp add: bit_eq_iff)
  have "code_bit (br_code r) (br_pos r + n + p) = field_bit fs p" if "p < sum_list (map snd fs)" for p
    using Cons.prems(3) [of "n + p"] that f by (simp add: add.assoc)
  then have "read_fields (map snd fs) (r\<lparr>br_pos := br_pos r + n\<rparr>) = Inr (map fst fs)"
    using Cons.prems(1,2) f by (intro Cons.IH) (auto simp: fields_ok_def add.assoc)
  then show ?case using y(1) yx f by simp
qed simp

section \<open>Properties\<close>

text \<open>
  C33. Whatever fields are written to a byte string that has room for them, each of 1 to 64 bits and
  holding a value that fits, reading the same widths back returns the values.
\<close>

theorem bitstring_roundtrip:
  assumes "\<forall>(x, n) \<in> set fs. 0 < n \<and> n \<le> 64 \<and> unat x < 2 ^ n" "sum_list (map snd fs) \<le> 8 * code_size"
  shows "\<exists>w. write_fields fs (bit_writer_new code_size) = Inr w
    \<and> read_fields (map snd fs) (bit_reader_new (bw_code w)) = Inr (map fst fs)"
proof -
  have ok: "fields_ok fs" using assms(1) by (simp add: fields_ok_def)
  obtain w where w: "write_fields fs (bit_writer_new code_size) = Inr w" "length (bw_code w) = code_size"
    "\<And>p. code_bit (bw_code w) p = field_bit fs p"
    using write_fields_bits [OF ok, of "bit_writer_new code_size"] assms(2) by (auto simp: bit_writer_new_def)
  have "read_fields (map snd fs) (bit_reader_new (bw_code w)) = Inr (map fst fs)"
    using read_fields_bits [OF ok, of "bit_reader_new (bw_code w)"] w assms(2) by (simp add: bit_reader_new_def)
  then show ?thesis using w(1) by blast
qed

theorem bitstring_roundtrip_witness:
  "\<exists>w. write_fields [(5, 3), (1000, 10), (1, 1), (70000, 20)] (bit_writer_new 5) = Inr w
    \<and> read_fields [3, 10, 1, 20] (bit_reader_new (bw_code w)) = Inr [5, 1000, 1, 70000]"
  using bitstring_roundtrip [of "[(5, 3), (1000, 10), (1, 1), (70000, 20)]" 5] by simp

text \<open>
  The assertion in \<open>write\<close> does not keep a zero-width field from writing after the end of
  a full byte string, and it does not keep a value with more bits than its field from doing so.
\<close>

theorem bitstring_write_overruns:
  "bw_write \<lparr>bw_code = replicate n 0, bw_pos = 8 * n\<rparr> x 0 = Inl Out_of_bounds
   \<and> bw_write \<lparr>bw_code = [0, 0], bw_pos = 4\<rparr> 0x12345 12 = Inl Out_of_bounds"
proof (rule conjI)
  show "bw_write \<lparr>bw_code = replicate n 0, bw_pos = 8 * n\<rparr> x 0 = Inl Out_of_bounds"
    by (simp add: bw_write_def or_byte_def)
  show "bw_write \<lparr>bw_code = [0, 0], bw_pos = 4\<rparr> 0x12345 12 = Inl Out_of_bounds" by code_simp
qed

end
