(* ===== verification/Inverted_Lists.thy ===== *)
theory Inverted_Lists
  imports Vectors
begin

text \<open>
  \<open>InvertedLists\<close> (\<open>faiss/invlists/InvertedLists.h\<close>, \<open>InvertedLists.cpp\<close>): the abstract class of
  the containers that hold, for each of \<open>nlist\<close> lists, a sequence of ids and codes of
  \<open>code_size\<close> bytes. The read half of the virtual methods is the record \<open>il_view\<close>, the
  write half \<open>il_ops\<close>; methods that the class defines for all containers take these records.
  What the containers promise is the locale \<open>inverted_lists\<close>; the generic methods are proved there.
\<close>

record il_view =
  il_nlist :: nat
  il_code_size :: nat
  il_size :: "nat \<Rightarrow> nat result"
  il_ids :: "nat \<Rightarrow> idx_t list result"
  il_codes :: "nat \<Rightarrow> 8 word list result"
  il_single_id :: "nat \<Rightarrow> nat \<Rightarrow> idx_t result"
  il_single_code :: "nat \<Rightarrow> nat \<Rightarrow> 8 word list result"

record 's il_ops =
  il_view_of :: "'s \<Rightarrow> il_view"
  il_add_entries :: "nat \<Rightarrow> nat \<Rightarrow> idx_t list \<Rightarrow> 8 word list \<Rightarrow> 's \<Rightarrow> ('s \<times> nat) result"
  il_update_entries :: "nat \<Rightarrow> nat \<Rightarrow> nat \<Rightarrow> idx_t list \<Rightarrow> 8 word list \<Rightarrow> 's \<Rightarrow> 's result"
  il_resize :: "nat \<Rightarrow> nat \<Rightarrow> 's \<Rightarrow> 's result"

text \<open>The default \<open>get_single_id\<close> and \<open>get_single_code\<close>, on top of \<open>get_ids\<close> and \<open>get_codes\<close>.\<close>

definition default_single_id ::
  "(nat \<Rightarrow> nat result) \<Rightarrow> (nat \<Rightarrow> idx_t list result) \<Rightarrow> nat \<Rightarrow> nat \<Rightarrow> idx_t result" where
  "default_single_id sz ids list_no offset =
     bind_result (sz list_no) (\<lambda>n. if \<not> offset < n then Inl Assert_failed
       else bind_result (ids list_no) (\<lambda>xs. Inr (xs ! offset)))"

definition default_single_code ::
  "nat \<Rightarrow> (nat \<Rightarrow> nat result) \<Rightarrow> (nat \<Rightarrow> 8 word list result) \<Rightarrow> nat \<Rightarrow> nat \<Rightarrow> 8 word list result" where
  "default_single_code cs sz codes list_no offset =
     bind_result (sz list_no) (\<lambda>n. if \<not> offset < n then Inl Assert_failed
       else bind_result (codes list_no) (\<lambda>bs. Inr (subrange (offset * cs) cs bs)))"

subsection \<open>Methods of the class\<close>

definition add_entry :: "'s il_ops \<Rightarrow> nat \<Rightarrow> idx_t \<Rightarrow> 8 word list \<Rightarrow> 's \<Rightarrow> ('s \<times> nat) result" where
  "add_entry ops list_no theid code s = il_add_entries ops list_no 1 [theid] code s"

definition update_entry :: "'s il_ops \<Rightarrow> nat \<Rightarrow> nat \<Rightarrow> idx_t \<Rightarrow> 8 word list \<Rightarrow> 's \<Rightarrow> 's result" where
  "update_entry ops list_no offset theid code s = il_update_entries ops list_no offset 1 [theid] code s"

definition il_reset :: "'s il_ops \<Rightarrow> 's \<Rightarrow> 's result" where
  "il_reset ops s = fold_result (\<lambda>i s. il_resize ops i 0 s) [0..<il_nlist (il_view_of ops s)] s"

fun sum_sizes :: "il_view \<Rightarrow> nat list \<Rightarrow> nat \<Rightarrow> nat result" where
  "sum_sizes v [] tot = Inr tot"
| "sum_sizes v (i # is) tot = bind_result (il_size v i) (\<lambda>n. sum_sizes v is (tot + n))"

definition compute_ntotal :: "il_view \<Rightarrow> nat result" where
  "compute_ntotal v = sum_sizes v [0..<il_nlist v] 0"

text \<open>\<open>merge_from\<close>, one list: the entries of \<open>oivf\<close> (another class in general) are added, shifted.\<close>

definition merge_list ::
  "'s il_ops \<Rightarrow> 't il_ops \<Rightarrow> nat \<Rightarrow> nat \<Rightarrow> 's \<times> 't \<Rightarrow> ('s \<times> 't) result" where
  "merge_list ops src_ops add_id i st =
     (let s = fst st; oivf = snd st; v = il_view_of src_ops oivf in
      bind_result (il_size v i) (\<lambda>n.
      bind_result (il_ids v i) (\<lambda>ids.
      bind_result (il_codes v i) (\<lambda>codes.
      bind_result
        (if add_id = 0 then il_add_entries ops i n ids codes s
         else il_add_entries ops i n (map (\<lambda>j. ids ! j + int add_id) [0..<n]) codes s) (\<lambda>(s, _).
      bind_result (il_resize src_ops i 0 oivf) (\<lambda>oivf. Inr (s, oivf)))))))"

definition merge_from :: "'s il_ops \<Rightarrow> 't il_ops \<Rightarrow> nat \<Rightarrow> 's \<Rightarrow> 't \<Rightarrow> ('s \<times> 't) result" where
  "merge_from ops src_ops add_id s oivf =
     fold_result (merge_list ops src_ops add_id) [0..<il_nlist (il_view_of ops s)] (s, oivf)"

text \<open>
  \<open>copy_subset_to\<close>: entries at chosen positions are added one by one. Sizes are natural numbers
  (the code's \<open>size_t\<close> products stay below \<open>2 ^ 64\<close> for real lists); the count of added entries
  may wrap, and so is an integer taken modulo \<open>2 ^ 64\<close> in the end.
\<close>

definition copy_one :: "'s il_ops \<Rightarrow> il_view \<Rightarrow> nat \<Rightarrow> nat \<Rightarrow> 's \<Rightarrow> 's result" where
  "copy_one ops v list_no i s =
     bind_result (il_single_id v list_no i) (\<lambda>x.
     bind_result (il_single_code v list_no i) (\<lambda>c.
     bind_result (add_entry ops list_no x c s) (\<lambda>(s, _). Inr s)))"

definition copy_positions :: "'s il_ops \<Rightarrow> il_view \<Rightarrow> nat \<Rightarrow> nat list \<Rightarrow> 's \<Rightarrow> 's result" where
  "copy_positions ops v list_no ps s = fold_result (copy_one ops v list_no) ps s"

text \<open>C++ \<open>%\<close> on 64-bit ids rounds towards zero.\<close>

definition c_mod :: "int \<Rightarrow> int \<Rightarrow> int" where
  "c_mod a b = sgn a * (\<bar>a\<bar> mod \<bar>b\<bar>)"

text \<open>The accumulators are \<open>accu_n\<close>, \<open>accu_a1\<close>, \<open>accu_a2\<close> and \<open>n_added\<close>.\<close>

type_synonym 's copy_state = "'s \<times> nat \<times> nat \<times> nat \<times> int"

fun copy_list ::
  "'s il_ops \<Rightarrow> il_view \<Rightarrow> int \<Rightarrow> int \<Rightarrow> int \<Rightarrow> nat \<Rightarrow> nat \<Rightarrow> 's copy_state \<Rightarrow> 's copy_state result" where
  "copy_list ops v subset_type a1 a2 ntotal list_no (s, accu_n, accu_a1, accu_a2, n_added) =
     bind_result (il_size v list_no) (\<lambda>n.
     bind_result (il_ids v list_no) (\<lambda>ids_in.
     if subset_type = 0 then
       (let ps = filter (\<lambda>i. a1 \<le> ids_in ! i \<and> ids_in ! i < a2) [0..<n] in
        bind_result (copy_positions ops v list_no ps s) (\<lambda>s.
          Inr (s, accu_n + n, accu_a1, accu_a2, n_added + int (length ps))))
     else if subset_type = 1 then
       (if a1 = 0 \<and> 0 < n then Inl Division_by_zero
        else
          let ps = filter (\<lambda>i. c_mod (ids_in ! i) a1 = a2) [0..<n] in
          bind_result (copy_positions ops v list_no ps s) (\<lambda>s.
            Inr (s, accu_n + n, accu_a1, accu_a2, n_added + int (length ps))))
     else if subset_type = 2 then
       (if ntotal = 0 then Inl Division_by_zero
        else
          let next_accu_n = accu_n + n;
              next_accu_a1 = next_accu_n * nat a1 div ntotal;
              i1 = next_accu_a1 - accu_a1;
              next_accu_a2 = next_accu_n * nat a2 div ntotal;
              i2 = next_accu_a2 - accu_a2 in
          bind_result (copy_positions ops v list_no [i1..<i2] s) (\<lambda>s.
            Inr (s, accu_n + n, next_accu_a1, next_accu_a2, n_added + (int i2 - int i1))))
     else if subset_type = 3 then
       (if a1 = 0 then Inl Division_by_zero
        else
          let i1 = n * nat a2 div nat a1; i2 = n * (nat a2 + 1) div nat a1 in
          bind_result (copy_positions ops v list_no [i1..<i2] s) (\<lambda>s.
            Inr (s, accu_n + n, accu_a1, accu_a2, n_added + (int i2 - int i1))))
     else if a1 \<le> int list_no \<and> int list_no < a2 then
       bind_result (il_codes v list_no) (\<lambda>codes.
       bind_result (il_add_entries ops list_no n ids_in codes s) (\<lambda>(s, _).
         Inr (s, accu_n + n, accu_a1, accu_a2, n_added + int n)))
     else Inr (s, accu_n + n, accu_a1, accu_a2, n_added)))"

definition copy_subset_to :: "il_view \<Rightarrow> 's il_ops \<Rightarrow> int \<Rightarrow> int \<Rightarrow> int \<Rightarrow> 's \<Rightarrow> ('s \<times> nat) result" where
  "copy_subset_to v ops subset_type a1 a2 oivf =
     (if il_nlist v \<noteq> il_nlist (il_view_of ops oivf) then Inl (Throw ''nlist'')
      else if il_code_size v \<noteq> il_code_size (il_view_of ops oivf) then Inl (Throw ''code_size'')
      else if \<not> (0 \<le> subset_type \<and> subset_type \<le> 4) then Inl (Throw ''subset type not implemented'')
      else bind_result (if subset_type = 2 then compute_ntotal v else Inr 0) (\<lambda>ntotal.
        bind_result
          (fold_result (copy_list ops v subset_type a1 a2 ntotal) [0..<il_nlist v] (oivf, 0, 0, 0, 0))
          (\<lambda>(oivf, _, _, _, n_added). Inr (oivf, nat (n_added mod 2 ^ 64)))))"

section \<open>What a container holds\<close>

type_synonym entry = "idx_t \<times> 8 word list"

definition list_shows :: "il_view \<Rightarrow> nat \<Rightarrow> entry list \<Rightarrow> bool" where
  "list_shows v i es \<longleftrightarrow> all_length (il_code_size v) (map snd es)
     \<and> il_size v i = Inr (length es) \<and> il_ids v i = Inr (map fst es)
     \<and> il_codes v i = Inr (concat (map snd es))
     \<and> (\<forall>o' < length es. il_single_id v i o' = Inr (fst (es ! o')) \<and> il_single_code v i o' = Inr (snd (es ! o')))"

definition represents :: "il_view \<Rightarrow> entry list list \<Rightarrow> bool" where
  "represents v L \<longleftrightarrow> il_nlist v = length L \<and> (\<forall>i < length L. list_shows v i (L ! i))"

lemma list_shows_default:
  assumes "all_length cs (map snd es)" "sz i = Inr (length es)" "ids i = Inr (map fst es)" "codes i = Inr (concat (map snd es))"
  shows "list_shows \<lparr>il_nlist = n, il_code_size = cs, il_size = sz, il_ids = ids, il_codes = codes,
    il_single_id = default_single_id sz ids, il_single_code = default_single_code cs sz codes\<rparr> i es"
  using assms
  by (simp add: list_shows_def default_single_id_def default_single_code_def subrange_concat_all)

lemma sum_sizes_shows:
  assumes "\<And>i. i \<in> set is \<Longrightarrow> list_shows v i (L ! i)"
  shows "sum_sizes v is tot = Inr (tot + sum_list (map (\<lambda>i. length (L ! i)) is))"
  using assms by (induction "is" arbitrary: tot) (auto simp: list_shows_def)

lemma compute_ntotal_represents:
  assumes "represents v L"
  shows "compute_ntotal v = Inr (sum_list (map length L))"
proof -
  have "map (\<lambda>i. length (L ! i)) [0..<length L] = map length L" by (rule nth_equalityI) auto
  then show ?thesis
    using assms sum_sizes_shows [of "[0..<length L]" v L 0] by (simp add: compute_ntotal_def represents_def)
qed

text \<open>
  The promise of a container: \<open>inv\<close> is its invariant and \<open>L s\<close> the entries it holds. The second
  locale adds that a list can be cut to any length; \<open>OnDiskInvertedLists\<close> only keeps the first.
\<close>

locale inverted_lists =
  fixes ops :: "'s il_ops" and inv :: "'s \<Rightarrow> bool" and L :: "'s \<Rightarrow> entry list list" and cs :: nat
  assumes view: "inv s \<Longrightarrow> represents (il_view_of ops s) (L s)"
    and code_size: "inv s \<Longrightarrow> il_code_size (il_view_of ops s) = cs"
    and add: "inv s \<Longrightarrow> i < length (L s) \<Longrightarrow> es \<noteq> [] \<Longrightarrow> all_length cs (map snd es) \<Longrightarrow>
      \<exists>s'. il_add_entries ops i (length es) (map fst es) (concat (map snd es)) s = Inr (s', length (L s ! i))
        \<and> inv s' \<and> L s' = (L s)[i := L s ! i @ es]"
    and add_none: "inv s \<Longrightarrow> i < length (L s) \<Longrightarrow> \<exists>r s'. il_add_entries ops i 0 [] [] s = Inr (s', r) \<and> inv s' \<and> L s' = L s"
    and update: "inv s \<Longrightarrow> i < length (L s) \<Longrightarrow> k + length es \<le> length (L s ! i) \<Longrightarrow> es \<noteq> [] \<Longrightarrow>
      all_length cs (map snd es) \<Longrightarrow>
      \<exists>s'. il_update_entries ops i k (length es) (map fst es) (concat (map snd es)) s = Inr s'
        \<and> inv s' \<and> L s' = (L s)[i := overwrite k es (L s ! i)]"
    and clear: "inv s \<Longrightarrow> i < length (L s) \<Longrightarrow> \<exists>s'. il_resize ops i 0 s = Inr s' \<and> inv s' \<and> L s' = (L s)[i := []]"
begin

lemma nlist: "inv s \<Longrightarrow> il_nlist (il_view_of ops s) = length (L s)"
  using view by (simp add: represents_def)

lemma codes_length: "inv s \<Longrightarrow> i < length (L s) \<Longrightarrow> all_length cs (map snd (L s ! i))"
  using view code_size by (auto simp: represents_def list_shows_def)

lemma size: "inv s \<Longrightarrow> i < length (L s) \<Longrightarrow> il_size (il_view_of ops s) i = Inr (length (L s ! i))"
  using view by (simp add: represents_def list_shows_def)

lemma ids: "inv s \<Longrightarrow> i < length (L s) \<Longrightarrow> il_ids (il_view_of ops s) i = Inr (map fst (L s ! i))"
  using view by (simp add: represents_def list_shows_def)

lemma codes: "inv s \<Longrightarrow> i < length (L s) \<Longrightarrow> il_codes (il_view_of ops s) i = Inr (concat (map snd (L s ! i)))"
  using view by (simp add: represents_def list_shows_def)

lemma single:
  "inv s \<Longrightarrow> i < length (L s) \<Longrightarrow> k < length (L s ! i) \<Longrightarrow> il_single_id (il_view_of ops s) i k = Inr (fst (L s ! i ! k))"
  "inv s \<Longrightarrow> i < length (L s) \<Longrightarrow> k < length (L s ! i) \<Longrightarrow> il_single_code (il_view_of ops s) i k = Inr (snd (L s ! i ! k))"
  using view by (simp_all add: represents_def list_shows_def)

text \<open>Adding any number of entries, none included.\<close>

lemma add_any:
  assumes "inv s" "i < length (L s)" "all_length cs (map snd es)"
  shows "\<exists>s' r. il_add_entries ops i (length es) (map fst es) (concat (map snd es)) s = Inr (s', r)
    \<and> inv s' \<and> L s' = (L s)[i := L s ! i @ es]"
proof (cases "es = []")
  case True
  then show ?thesis using add_none [OF assms(1,2)] by fastforce
next
  case False
  then show ?thesis using add [OF assms(1,2) False assms(3)] by blast
qed

lemma add_entry_spec:
  assumes "inv s" "i < length (L s)" "length c = cs"
  shows "\<exists>s'. add_entry ops i x c s = Inr (s', length (L s ! i)) \<and> inv s' \<and> L s' = (L s)[i := L s ! i @ [(x, c)]]"
  using add [OF assms(1,2), of "[(x, c)]"] assms(3) by (simp add: add_entry_def)

lemma update_entry_spec:
  assumes "inv s" "i < length (L s)" "k < length (L s ! i)" "length c = cs"
  shows "\<exists>s'. update_entry ops i k x c s = Inr s' \<and> inv s' \<and> L s' = (L s)[i := (L s ! i)[k := (x, c)]]"
  using update [OF assms(1,2), of k "[(x, c)]"] assms(3,4) by (simp add: update_entry_def overwrite_single)

lemma reset_spec:
  assumes "inv s"
  shows "\<exists>s'. il_reset ops s = Inr s' \<and> inv s' \<and> L s' = replicate (length (L s)) []"
proof -
  have "\<exists>s'. fold_result (\<lambda>i s. il_resize ops i 0 s) [0..<n] s = Inr s' \<and> inv s'
      \<and> L s' = replicate n [] @ drop n (L s)" if "n \<le> length (L s)" for n
    using that
  proof (induction n)
    case 0
    then show ?case using assms by simp
  next
    case (Suc n)
    then obtain s1 where s1: "fold_result (\<lambda>i s. il_resize ops i 0 s) [0..<n] s = Inr s1" "inv s1"
      "L s1 = replicate n [] @ drop n (L s)" by auto
    have n: "n < length (L s1)" "drop n (L s) = L s ! n # drop (Suc n) (L s)"
      using Suc.prems s1(3) by (simp_all add: Cons_nth_drop_Suc)
    obtain s2 where s2: "il_resize ops n 0 s1 = Inr s2" "inv s2" "L s2 = (L s1)[n := []]"
      using clear [OF s1(2) n(1)] by blast
    have "L s2 = replicate (Suc n) [] @ drop (Suc n) (L s)"
      using s2(3) s1(3) n(2) by (simp add: list_update_append replicate_append_same)
    then show ?case using s1(1) s2 by (simp add: fold_result_append)
  qed
  from this [of "length (L s)"] show ?thesis using nlist [OF assms] by (simp add: il_reset_def)
qed

end

text \<open>A sequence of calls on a container, on its model and on the lists of entries it stands for.\<close>

datatype il_op = Op_add nat "entry list" | Op_update nat nat "entry list" | Op_resize nat nat | Op_reset

fun il_apply :: "'s il_ops \<Rightarrow> il_op \<Rightarrow> 's \<Rightarrow> 's result" where
  "il_apply ops (Op_add i es) s =
     bind_result (il_add_entries ops i (length es) (map fst es) (concat (map snd es)) s) (\<lambda>(s, _). Inr s)"
| "il_apply ops (Op_update i k es) s = il_update_entries ops i k (length es) (map fst es) (concat (map snd es)) s"
| "il_apply ops (Op_resize i n) s = il_resize ops i n s"
| "il_apply ops Op_reset s = il_reset ops s"

fun lists_apply :: "il_op \<Rightarrow> entry list list \<Rightarrow> entry list list" where
  "lists_apply (Op_add i es) M = M[i := M ! i @ es]"
| "lists_apply (Op_update i k es) M = M[i := overwrite k es (M ! i)]"
| "lists_apply (Op_resize i n) M = M[i := take n (M ! i)]"
| "lists_apply Op_reset M = replicate (length M) []"

text \<open>Calls within the contract: an existing list, a range inside it, codes of the right size, no growth by \<open>resize\<close>.\<close>

fun op_ok :: "nat \<Rightarrow> entry list list \<Rightarrow> il_op \<Rightarrow> bool" where
  "op_ok cs M (Op_add i es) = (i < length M \<and> all_length cs (map snd es))"
| "op_ok cs M (Op_update i k es) =
     (i < length M \<and> es \<noteq> [] \<and> k + length es \<le> length (M ! i) \<and> all_length cs (map snd es))"
| "op_ok cs M (Op_resize i n) = (i < length M \<and> n \<le> length (M ! i))"
| "op_ok cs M Op_reset = True"

fun ops_ok :: "nat \<Rightarrow> entry list list \<Rightarrow> il_op list \<Rightarrow> bool" where
  "ops_ok cs M [] = True"
| "ops_ok cs M (c # calls) = (op_ok cs M c \<and> ops_ok cs (lists_apply c M) calls)"

locale shrinkable_lists = inverted_lists +
  assumes shrink: "inv s \<Longrightarrow> i < length (L s) \<Longrightarrow> n \<le> length (L s ! i) \<Longrightarrow>
      \<exists>s'. il_resize ops i n s = Inr s' \<and> inv s' \<and> L s' = (L s)[i := take n (L s ! i)]"
begin

lemma apply_spec:
  assumes "inv s" "op_ok cs (L s) c"
  shows "\<exists>s'. il_apply ops c s = Inr s' \<and> inv s' \<and> L s' = lists_apply c (L s)"
proof (cases c)
  case (Op_add i es)
  then show ?thesis using add_any [OF assms(1), of i es] assms(2) by auto
next
  case (Op_update i k es)
  then show ?thesis using update [OF assms(1), of i k es] assms(2) by auto
next
  case (Op_resize i n)
  then show ?thesis using shrink [OF assms(1), of i n] assms(2) by auto
next
  case Op_reset
  then show ?thesis using reset_spec [OF assms(1)] by auto
qed

lemma calls_spec:
  assumes "inv s" "ops_ok cs (L s) calls"
  shows "\<exists>s'. fold_result (il_apply ops) calls s = Inr s' \<and> inv s' \<and> L s' = fold lists_apply calls (L s)"
  using assms
proof (induction calls arbitrary: s)
  case (Cons c calls)
  then obtain s1 where "il_apply ops c s = Inr s1" "inv s1" "L s1 = lists_apply c (L s)"
    using apply_spec [of s c] by auto
  then show ?case using Cons.IH [of s1] Cons.prems by auto
qed simp

end

end
