(* ===== verification/Meta_Invlists.thy ===== *)
theory Meta_Invlists
  imports Inverted_Lists
begin

text \<open>
  The read-only containers made of other containers (\<open>faiss/invlists/InvertedLists.cpp\<close>, lines
  352-792): horizontal and vertical stacks, slices, masks and stop words. Each constructor takes
  views and gives a view; their write methods throw. \<open>prefetch_lists\<close> and the release functions
  have no effect on what is read.
\<close>

section \<open>Write methods\<close>

definition ro_add_entries :: "nat \<Rightarrow> nat \<Rightarrow> idx_t list \<Rightarrow> 8 word list \<Rightarrow> il_view \<Rightarrow> (il_view \<times> nat) result" where
  "ro_add_entries list_no n ids code v = Inl (Throw ''not implemented'')"

definition ro_update_entries :: "nat \<Rightarrow> nat \<Rightarrow> nat \<Rightarrow> idx_t list \<Rightarrow> 8 word list \<Rightarrow> il_view \<Rightarrow> il_view result" where
  "ro_update_entries list_no offset n ids code v = Inl (Throw ''not implemented'')"

definition ro_resize :: "nat \<Rightarrow> nat \<Rightarrow> il_view \<Rightarrow> il_view result" where
  "ro_resize list_no n v = Inl (Throw ''not implemented'')"

definition read_only_ops :: "il_view il_ops" where
  "read_only_ops = \<lparr>il_view_of = (\<lambda>v. v), il_add_entries = ro_add_entries,
     il_update_entries = ro_update_entries, il_resize = ro_resize\<rparr>"

section \<open>\<open>HStackInvertedLists\<close>\<close>

fun hstack_size :: "il_view list \<Rightarrow> nat \<Rightarrow> nat \<Rightarrow> nat result" where
  "hstack_size [] list_no sz = Inr sz"
| "hstack_size (il # ils) list_no sz =
     bind_result (il_size il list_no) (\<lambda>n. hstack_size ils list_no (sz + n))"

text \<open>\<open>get_codes\<close> and \<open>get_ids\<close> copy the parts one after the other; empty parts are not read.\<close>

fun hstack_codes :: "il_view list \<Rightarrow> nat \<Rightarrow> 8 word list \<Rightarrow> 8 word list result" where
  "hstack_codes [] list_no c = Inr c"
| "hstack_codes (il # ils) list_no c =
     bind_result (il_size il list_no) (\<lambda>n.
       if 0 < n * il_code_size il then
         bind_result (il_codes il list_no) (\<lambda>codes. hstack_codes ils list_no (c @ codes))
       else hstack_codes ils list_no c)"

fun hstack_ids :: "il_view list \<Rightarrow> nat \<Rightarrow> idx_t list \<Rightarrow> idx_t list result" where
  "hstack_ids [] list_no c = Inr c"
| "hstack_ids (il # ils) list_no c =
     bind_result (il_size il list_no) (\<lambda>n.
       if 0 < n then bind_result (il_ids il list_no) (\<lambda>ids. hstack_ids ils list_no (c @ ids))
       else hstack_ids ils list_no c)"

fun hstack_single_id :: "il_view list \<Rightarrow> nat \<Rightarrow> nat \<Rightarrow> idx_t result" where
  "hstack_single_id [] list_no offset = Inl (Throw ''offset unknown'')"
| "hstack_single_id (il # ils) list_no offset =
     bind_result (il_size il list_no) (\<lambda>sz.
       if offset < sz then il_single_id il list_no offset
       else hstack_single_id ils list_no (offset - sz))"

fun hstack_single_code :: "il_view list \<Rightarrow> nat \<Rightarrow> nat \<Rightarrow> 8 word list result" where
  "hstack_single_code [] list_no offset = Inl (Throw ''offset unknown'')"
| "hstack_single_code (il # ils) list_no offset =
     bind_result (il_size il list_no) (\<lambda>sz.
       if offset < sz then il_single_code il list_no offset
       else hstack_single_code ils list_no (offset - sz))"

definition hstack_new :: "il_view list \<Rightarrow> il_view result" where
  "hstack_new ils =
     (if \<not> 0 < length ils then Inl (Throw ''nil > 0'')
      else
        let nl = il_nlist (hd ils); cs = il_code_size (hd ils) in
        if \<exists>il \<in> set ils. \<not> (il_code_size il = cs \<and> il_nlist il = nl) then Inl (Throw ''code_size, nlist'')
        else Inr \<lparr>il_nlist = nl, il_code_size = cs, il_size = (\<lambda>i. hstack_size ils i 0),
          il_ids = (\<lambda>i. hstack_ids ils i []), il_codes = (\<lambda>i. hstack_codes ils i []),
          il_single_id = hstack_single_id ils, il_single_code = hstack_single_code ils\<rparr>)"

section \<open>\<open>SliceInvertedLists\<close>\<close>

definition slice_list_no :: "nat \<Rightarrow> nat \<Rightarrow> nat \<Rightarrow> nat result" where
  "slice_list_no nl i0 list_no = (if list_no < nl then Inr (list_no + i0) else Inl (Throw ''list_no < nlist''))"

definition slice_new :: "il_view \<Rightarrow> nat \<Rightarrow> nat \<Rightarrow> il_view" where
  "slice_new il i0 i1 =
     (let nl = i1 - i0 in
      \<lparr>il_nlist = nl, il_code_size = il_code_size il,
       il_size = (\<lambda>i. bind_result (slice_list_no nl i0 i) (il_size il)),
       il_ids = (\<lambda>i. bind_result (slice_list_no nl i0 i) (il_ids il)),
       il_codes = (\<lambda>i. bind_result (slice_list_no nl i0 i) (il_codes il)),
       il_single_id = (\<lambda>i k. bind_result (slice_list_no nl i0 i) (\<lambda>i. il_single_id il i k)),
       il_single_code = (\<lambda>i k. bind_result (slice_list_no nl i0 i) (\<lambda>i. il_single_code il i k))\<rparr>)"

section \<open>\<open>VStackInvertedLists\<close>\<close>

fun sum_il_sizes :: "il_view list \<Rightarrow> nat \<Rightarrow> nat" where
  "sum_il_sizes [] tot = tot"
| "sum_il_sizes (il # ils) tot = sum_il_sizes ils (tot + il_nlist il)"

fun cum_sizes :: "il_view list \<Rightarrow> nat \<Rightarrow> nat list" where
  "cum_sizes [] c = [c]"
| "cum_sizes (il # ils) c = c # cum_sizes ils (c + il_nlist il)"

text \<open>The bisection of \<open>translate_list_no\<close>: which of the parts a list number falls in.\<close>

function vstack_bisect :: "nat list \<Rightarrow> nat \<Rightarrow> nat \<Rightarrow> nat \<Rightarrow> nat" where
  "vstack_bisect cumsz list_no i0 i1 =
     (if i0 + 1 < i1 then
        let imed = (i0 + i1) div 2 in
        if cumsz ! imed \<le> list_no then vstack_bisect cumsz list_no imed i1
        else vstack_bisect cumsz list_no i0 imed
      else i0)"
  by pat_completeness auto
termination
  by (relation "measure (\<lambda>(cumsz, list_no, i0, i1). i1 - i0)") auto

declare vstack_bisect.simps [simp del]

definition vstack_list_no :: "il_view list \<Rightarrow> nat list \<Rightarrow> nat \<Rightarrow> nat \<Rightarrow> nat result" where
  "vstack_list_no ils cumsz nl list_no =
     (if \<not> list_no < nl then Inl (Throw ''list_no < nlist'')
      else
        let i0 = vstack_bisect cumsz list_no 0 (length ils) in
        if cumsz ! i0 \<le> list_no \<and> list_no < cumsz ! (i0 + 1) then Inr i0 else Inl Assert_failed)"

definition vstack_read :: "il_view list \<Rightarrow> nat list \<Rightarrow> nat \<Rightarrow> nat \<Rightarrow> (il_view \<Rightarrow> nat \<Rightarrow> 'a result) \<Rightarrow> 'a result" where
  "vstack_read ils cumsz nl list_no f =
     bind_result (vstack_list_no ils cumsz nl list_no) (\<lambda>i. f (ils ! i) (list_no - cumsz ! i))"

definition vstack_new :: "il_view list \<Rightarrow> il_view result" where
  "vstack_new ils =
     (if \<not> 0 < length ils then Inl (Throw ''nil > 0'')
      else
        let nl = sum_il_sizes ils 0; cs = il_code_size (hd ils); cumsz = cum_sizes ils 0 in
        if \<exists>il \<in> set ils. il_code_size il \<noteq> cs then Inl (Throw ''code_size'')
        else Inr \<lparr>il_nlist = nl, il_code_size = cs,
          il_size = (\<lambda>i. vstack_read ils cumsz nl i il_size),
          il_ids = (\<lambda>i. vstack_read ils cumsz nl i il_ids),
          il_codes = (\<lambda>i. vstack_read ils cumsz nl i il_codes),
          il_single_id = (\<lambda>i k. vstack_read ils cumsz nl i (\<lambda>il i. il_single_id il i k)),
          il_single_code = (\<lambda>i k. vstack_read ils cumsz nl i (\<lambda>il i. il_single_code il i k))\<rparr>)"

section \<open>\<open>MaskedInvertedLists\<close> and \<open>StopWordsInvertedLists\<close>\<close>

definition masked_read :: "il_view \<Rightarrow> il_view \<Rightarrow> nat \<Rightarrow> (il_view \<Rightarrow> 'a result) \<Rightarrow> 'a result" where
  "masked_read il0 il1 list_no f = bind_result (il_size il0 list_no) (\<lambda>sz. f (if sz \<noteq> 0 then il0 else il1))"

definition masked_new :: "il_view \<Rightarrow> il_view \<Rightarrow> il_view result" where
  "masked_new il0 il1 =
     (if il_nlist il1 \<noteq> il_nlist il0 then Inl (Throw ''nlist'')
      else if il_code_size il1 \<noteq> il_code_size il0 then Inl (Throw ''code_size'')
      else Inr \<lparr>il_nlist = il_nlist il0, il_code_size = il_code_size il0,
        il_size = (\<lambda>i. bind_result (il_size il0 i) (\<lambda>sz. if sz \<noteq> 0 then Inr sz else il_size il1 i)),
        il_ids = (\<lambda>i. masked_read il0 il1 i (\<lambda>il. il_ids il i)),
        il_codes = (\<lambda>i. masked_read il0 il1 i (\<lambda>il. il_codes il i)),
        il_single_id = (\<lambda>i k. masked_read il0 il1 i (\<lambda>il. il_single_id il i k)),
        il_single_code = (\<lambda>i k. masked_read il0 il1 i (\<lambda>il. il_single_code il i k))\<rparr>)"

text \<open>A null pointer stands for no entries.\<close>

definition stop_words_new :: "il_view \<Rightarrow> nat \<Rightarrow> il_view" where
  "stop_words_new il0 maxsize =
     \<lparr>il_nlist = il_nlist il0, il_code_size = il_code_size il0,
      il_size = (\<lambda>i. bind_result (il_size il0 i) (\<lambda>sz. Inr (if sz < maxsize then sz else 0))),
      il_ids = (\<lambda>i. bind_result (il_size il0 i) (\<lambda>sz. if sz < maxsize then il_ids il0 i else Inr [])),
      il_codes = (\<lambda>i. bind_result (il_size il0 i) (\<lambda>sz. if sz < maxsize then il_codes il0 i else Inr [])),
      il_single_id = (\<lambda>i k. bind_result (il_size il0 i) (\<lambda>sz.
        if sz < maxsize then il_single_id il0 i k else Inl (Throw ''list_size < maxsize''))),
      il_single_code = (\<lambda>i k. bind_result (il_size il0 i) (\<lambda>sz.
        if sz < maxsize then il_single_code il0 i k else Inl (Throw ''list_size < maxsize'')))\<rparr>"

section \<open>What the stacks show\<close>

text \<open>Parts and the entries they hold: \<open>zip ils Ms\<close>.\<close>

definition parts_show :: "nat \<Rightarrow> nat \<Rightarrow> il_view list \<Rightarrow> entry list list \<Rightarrow> bool" where
  "parts_show cs i ils ess \<longleftrightarrow> list_all2 (\<lambda>il es. il_code_size il = cs \<and> list_shows il i es) ils ess"

lemma parts_show_simps [simp]:
  "parts_show cs i [] ess \<longleftrightarrow> ess = []"
  "parts_show cs i (il # ils) ess \<longleftrightarrow>
     (\<exists>es ess'. ess = es # ess' \<and> il_code_size il = cs \<and> list_shows il i es \<and> parts_show cs i ils ess')"
  by (auto simp: parts_show_def list_all2_Cons1)

lemma hstack_reads:
  assumes "parts_show cs i ils ess"
  shows "hstack_size ils i sz = Inr (sz + length (concat ess))"
    "hstack_ids ils i xs = Inr (xs @ map fst (concat ess))"
    "hstack_codes ils i bs = Inr (bs @ concat (map snd (concat ess)))"
    "all_length cs (map snd (concat ess))"
    "k < length (concat ess) \<Longrightarrow> hstack_single_id ils i k = Inr (fst (concat ess ! k))
        \<and> hstack_single_code ils i k = Inr (snd (concat ess ! k))"
  using assms
proof (induction ils arbitrary: ess sz xs bs k)
  case (Cons il ils)
  case 1 then show ?case using Cons.IH(1) by (auto simp: list_shows_def add.assoc)
next
  case (Cons il ils)
  case 2 then show ?case using Cons.IH(2) by (auto simp: list_shows_def)
next
  case (Cons il ils)
  case 3
  then obtain es ess' where e: "ess = es # ess'" "il_code_size il = cs" "list_shows il i es" "parts_show cs i ils ess'" by auto
  have "length (concat (map snd es)) = length es * cs" using e(2,3) by (metis length_concat_all length_map list_shows_def)
  then have "\<not> 0 < length es * cs \<Longrightarrow> concat (map snd es) = []" by (metis gr0I length_0_conv)
  then show ?case using e Cons.IH(3) [of ess'] by (auto simp: list_shows_def)
next
  case (Cons il ils)
  case 4 then show ?case using Cons.IH(4) by (auto simp: list_shows_def)
next
  case (Cons il ils)
  case 5
  then obtain es ess' where e: "ess = es # ess'" "list_shows il i es" "parts_show cs i ils ess'" by auto
  show ?case
  proof (cases "k < length es")
    case True
    then show ?thesis using e by (simp add: list_shows_def nth_append)
  next
    case False
    then show ?thesis using e 5(1) Cons.IH(5) [of "k - length es" ess'] by (simp add: list_shows_def nth_append)
  qed
qed simp_all

lemma hstack_shows:
  assumes "parts_show cs i ils ess" "ils \<noteq> []"
  shows "list_shows \<lparr>il_nlist = n, il_code_size = cs, il_size = (\<lambda>i. hstack_size ils i 0),
      il_ids = (\<lambda>i. hstack_ids ils i []), il_codes = (\<lambda>i. hstack_codes ils i []),
      il_single_id = hstack_single_id ils, il_single_code = hstack_single_code ils\<rparr> i (concat ess)"
  using hstack_reads [OF assms(1)] unfolding list_shows_def by simp

text \<open>The number of lists before each part, and the bisection over these numbers.\<close>

lemma length_cum_sizes [simp]: "length (cum_sizes ils c) = Suc (length ils)"
  by (induction ils arbitrary: c) simp_all

lemma nth_cum_sizes: "j \<le> length ils \<Longrightarrow> cum_sizes ils c ! j = c + sum_list (map il_nlist (take j ils))"
proof (induction ils arbitrary: c j)
  case (Cons il ils)
  then show ?case by (cases j) simp_all
qed simp

lemma sum_il_sizes_eq: "sum_il_sizes ils tot = tot + sum_list (map il_nlist ils)"
  by (induction ils arbitrary: tot) simp_all

lemma vstack_bisect_spec:
  assumes "i0 < i1" "cumsz ! i0 \<le> n" "n < cumsz ! i1"
  shows "i0 \<le> vstack_bisect cumsz n i0 i1 \<and> vstack_bisect cumsz n i0 i1 < i1
    \<and> cumsz ! vstack_bisect cumsz n i0 i1 \<le> n \<and> n < cumsz ! (vstack_bisect cumsz n i0 i1 + 1)"
  using assms
proof (induction cumsz n i0 i1 rule: vstack_bisect.induct)
  case (1 cumsz n i0 i1)
  show ?case
  proof (cases "i0 + 1 < i1")
    case loop: True
    let ?m = "(i0 + i1) div 2"
    have m: "i0 < ?m" "?m < i1" using loop by simp_all
    show ?thesis
    proof (cases "cumsz ! ?m \<le> n")
      case True
      then show ?thesis using "1.IH"(1) [OF loop refl True] "1.prems" m loop
        by (auto simp: vstack_bisect.simps [of cumsz n i0 i1] Let_def)
    next
      case False
      then show ?thesis using "1.IH"(2) [OF loop refl False] "1.prems" m loop
        by (auto simp: vstack_bisect.simps [of cumsz n i0 i1] Let_def)
    qed
  next
    case False
    then have "i1 = i0 + 1" using "1.prems"(1) by simp
    moreover have "vstack_bisect cumsz n i0 i1 = i0" using False by (subst vstack_bisect.simps) simp
    ultimately show ?thesis using "1.prems" by simp
  qed
qed

lemma concat_nth_part:
  assumes "i < length Ms" "length (concat (take i Ms)) \<le> n" "n < length (concat (take (Suc i) Ms))"
  shows "concat Ms ! n = Ms ! i ! (n - length (concat (take i Ms)))"
    and "n - length (concat (take i Ms)) < length (Ms ! i)"
proof -
  have "Ms = take i Ms @ Ms ! i # drop (Suc i) Ms" using assms(1) by (rule id_take_nth_drop)
  then have e: "concat Ms = concat (take i Ms) @ Ms ! i @ concat (drop (Suc i) Ms)"
    by (metis concat.simps(2) concat_append)
  have "concat (take (Suc i) Ms) = concat (take i Ms) @ Ms ! i" using assms(1) by (simp add: take_Suc_conv_app_nth)
  then show "n - length (concat (take i Ms)) < length (Ms ! i)" using assms(2,3) by simp
  then show "concat Ms ! n = Ms ! i ! (n - length (concat (take i Ms)))"
    unfolding e using assms(2) by (simp add: nth_append)
qed

definition parts_represent :: "nat \<Rightarrow> il_view list \<Rightarrow> entry list list list \<Rightarrow> bool" where
  "parts_represent cs ils Ms \<longleftrightarrow> list_all2 (\<lambda>il M. il_code_size il = cs \<and> represents il M) ils Ms"

lemma parts_sizes:
  assumes "parts_represent cs ils Ms" "j \<le> length ils"
  shows "sum_list (map il_nlist (take j ils)) = length (concat (take j Ms))"
proof -
  have "list_all2 (\<lambda>il M. il_nlist il = length M) ils Ms"
    using assms(1) unfolding parts_represent_def by (rule list_all2_mono) (simp add: represents_def)
  then have "list_all2 (\<lambda>il M. il_nlist il = length M) (take j ils) (take j Ms)" by (rule list_all2_takeI)
  then show ?thesis by (induction rule: list_all2_induct) simp_all
qed

lemma vstack_shows:
  assumes parts: "parts_represent cs ils Ms" and n: "n < length (concat Ms)"
  defines "cumsz \<equiv> cum_sizes ils 0" and "nl \<equiv> sum_il_sizes ils 0"
  shows "list_shows \<lparr>il_nlist = nl, il_code_size = cs,
          il_size = (\<lambda>i. vstack_read ils cumsz nl i il_size),
          il_ids = (\<lambda>i. vstack_read ils cumsz nl i il_ids),
          il_codes = (\<lambda>i. vstack_read ils cumsz nl i il_codes),
          il_single_id = (\<lambda>i k. vstack_read ils cumsz nl i (\<lambda>il i. il_single_id il i k)),
          il_single_code = (\<lambda>i k. vstack_read ils cumsz nl i (\<lambda>il i. il_single_code il i k))\<rparr> n (concat Ms ! n)"
proof -
  have len: "length Ms = length ils" using parts by (simp add: parts_represent_def list_all2_lengthD)
  have cum: "cumsz ! j = length (concat (take j Ms))" if "j \<le> length ils" for j
    using that parts_sizes [OF parts that] by (simp add: cumsz_def nth_cum_sizes)
  have nl: "nl = length (concat Ms)"
    using parts_sizes [OF parts order.refl] len by (simp add: nl_def sum_il_sizes_eq)
  have "0 < length ils" using n len by (cases ils) auto
  moreover define i where "i = vstack_bisect cumsz n 0 (length ils)"
  ultimately have i: "i < length ils" "cumsz ! i \<le> n" "n < cumsz ! (i + 1)"
    using vstack_bisect_spec [of 0 "length ils" cumsz n] n cum len by (auto simp: i_def)
  have at: "concat Ms ! n = Ms ! i ! (n - cumsz ! i)" "n - cumsz ! i < length (Ms ! i)"
    using concat_nth_part [of i Ms n] i cum len by simp_all
  have r: "vstack_read ils cumsz nl n f = f (ils ! i) (n - cumsz ! i)" for f :: "il_view \<Rightarrow> nat \<Rightarrow> 'a result"
    using i n nl by (simp add: vstack_read_def vstack_list_no_def Let_def i_def [symmetric])
  have "il_code_size (ils ! i) = cs" "represents (ils ! i) (Ms ! i)"
    using parts i(1) len by (auto simp: parts_represent_def dest: list_all2_nthD)
  then have "list_shows (ils ! i) (n - cumsz ! i) (concat Ms ! n)" "il_code_size (ils ! i) = cs"
    using at by (simp_all add: represents_def)
  then show ?thesis by (simp add: list_shows_def r)
qed

section \<open>Properties\<close>

text \<open>
  The stacks hold what their parts hold: list \<open>i\<close> of a horizontal stack is the concatenation of
  the lists \<open>i\<close> of the parts, and a vertical stack has the lists of the parts one after the other.
\<close>

theorem stacks_represent:
  assumes "list_all2 (\<lambda>il M. il_code_size il = cs \<and> represents il M) ils Ms" "ils \<noteq> []"
  shows "(\<exists>v. vstack_new ils = Inr v \<and> il_code_size v = cs \<and> represents v (concat Ms))
    \<and> ((\<forall>M \<in> set Ms. length M = n) \<longrightarrow>
        (\<exists>h. hstack_new ils = Inr h \<and> il_code_size h = cs \<and> represents h (map (\<lambda>i. concat (map (\<lambda>M. M ! i) Ms)) [0..<n])))"
proof (intro conjI impI)
  have parts: "parts_represent cs ils Ms" using assms(1) by (simp add: parts_represent_def)
  have len: "length Ms = length ils" using assms(1) by (simp add: list_all2_lengthD)
  have cs: "il_code_size il = cs" if "il \<in> set ils" for il
    using assms(1) that by (auto simp: list_all2_conv_all_nth in_set_conv_nth)
  then have hd: "il_code_size (hd ils) = cs" using assms(2) by simp
  have "sum_il_sizes ils 0 = length (concat Ms)"
    using parts_sizes [OF parts order.refl] len by (simp add: sum_il_sizes_eq)
  then show "\<exists>v. vstack_new ils = Inr v \<and> il_code_size v = cs \<and> represents v (concat Ms)"
    using vstack_shows [OF parts] cs hd assms(2) by (simp add: vstack_new_def Let_def represents_def)
  assume n: "\<forall>M \<in> set Ms. length M = n"
  have nl: "il_nlist il = n" if "il \<in> set ils" for il
    using assms(1) n that len by (fastforce simp: list_all2_conv_all_nth in_set_conv_nth represents_def)
  then have hdn: "il_nlist (hd ils) = n" using assms(2) by simp
  have "parts_show cs i ils (map (\<lambda>M. M ! i) Ms)" if "i < n" for i
    using assms(1) n that unfolding parts_show_def list_all2_conv_all_nth by (auto simp: represents_def)
  from hstack_shows [OF this assms(2)]
  show "\<exists>h. hstack_new ils = Inr h \<and> il_code_size h = cs
      \<and> represents h (map (\<lambda>i. concat (map (\<lambda>M. M ! i) Ms)) [0..<n])"
    using cs hd nl hdn assms(2) by (simp add: hstack_new_def Let_def represents_def)
qed

text \<open>Two one-list containers with one-byte codes, for the examples.\<close>

definition example_view :: "idx_t list \<Rightarrow> 8 word list \<Rightarrow> il_view" where
  "example_view ids codes =
     (let sz = (\<lambda>i. Inr (length ids)); idf = (\<lambda>i. Inr ids); cf = (\<lambda>i. Inr codes) in
      \<lparr>il_nlist = 1, il_code_size = 1, il_size = sz, il_ids = idf, il_codes = cf,
       il_single_id = default_single_id sz idf, il_single_code = default_single_code 1 sz cf\<rparr>)"

lemma example_view_represents:
  "length codes = length ids \<Longrightarrow> represents (example_view ids codes) [zip ids (map (\<lambda>c. [c]) codes)]"
  unfolding represents_def example_view_def Let_def
  by (auto intro!: list_shows_default simp: all_length_def comp_def in_set_zip)

theorem stacks_represent_witness:
  "(\<exists>v. vstack_new [example_view [1, 2] [7, 8], example_view [3] [9]] = Inr v
      \<and> represents v [[(1, [7]), (2, [8])], [(3, [9])]])
   \<and> (\<exists>h. hstack_new [example_view [1, 2] [7, 8], example_view [3] [9]] = Inr h
      \<and> represents h [[(1, [7]), (2, [8]), (3, [9])]])"
proof -
  have "list_all2 (\<lambda>il M. il_code_size il = 1 \<and> represents il M)
      [example_view [1, 2] [7, 8], example_view [3] [9]] [[[(1, [7]), (2, [8])]], [[(3, [9])]]]"
    using example_view_represents [of "[7, 8]" "[1, 2]"] example_view_represents [of "[9]" "[3]"]
    by (simp add: example_view_def Let_def)
  from stacks_represent [OF this, of 1] show ?thesis by auto
qed

text \<open>
  A slice holds the lists \<open>i0 .. i1 - 1\<close> of the container it is taken from (if it has them: the
  constructor does not check), a mask the lists of the first container where they are not empty and
  of the second where they are, and the stop-word container the lists shorter than \<open>maxsize\<close>.
\<close>

theorem filters_represent:
  assumes "represents v M" "represents w N" "il_nlist w = il_nlist v" "il_code_size w = il_code_size v"
    "i0 \<le> i1" "i1 \<le> length M"
  shows "represents (slice_new v i0 i1) (take (i1 - i0) (drop i0 M))
    \<and> (\<exists>m. masked_new v w = Inr m \<and> represents m (map2 (\<lambda>es es'. if es \<noteq> [] then es else es') M N))
    \<and> represents (stop_words_new v maxsize) (map (\<lambda>es. if length es < maxsize then es else []) M)"
proof (intro conjI)
  have v: "\<And>i. i < length M \<Longrightarrow> list_shows v i (M ! i)" "il_nlist v = length M"
    and w: "\<And>i. i < length N \<Longrightarrow> list_shows w i (N ! i)" "length N = length M"
    using assms(1-3) by (auto simp: represents_def)
  show "represents (slice_new v i0 i1) (take (i1 - i0) (drop i0 M))"
    using v assms(5,6) by (auto simp: represents_def slice_new_def Let_def list_shows_def slice_list_no_def add.commute)
  show "\<exists>m. masked_new v w = Inr m \<and> represents m (map2 (\<lambda>es es'. if es \<noteq> [] then es else es') M N)"
    using v w assms(3,4) by (auto simp: represents_def masked_new_def masked_read_def list_shows_def)
  show "represents (stop_words_new v maxsize) (map (\<lambda>es. if length es < maxsize then es else []) M)"
    using v by (auto simp: represents_def stop_words_new_def list_shows_def)
qed

theorem filters_represent_witness:
  "represents (slice_new (example_view [1, 2] [7, 8]) 0 1) [[(1, [7]), (2, [8])]]
   \<and> (\<exists>m. masked_new (example_view [1, 2] [7, 8]) (example_view [3] [9]) = Inr m \<and> represents m [[(1, [7]), (2, [8])]])
   \<and> represents (stop_words_new (example_view [1, 2] [7, 8]) 2) [[]]"
  using filters_represent [OF example_view_represents [of "[7, 8]" "[1, 2]"] example_view_represents [of "[9]" "[3]"],
      of 0 1 2]
  by (simp add: example_view_def Let_def)

end
