(* ===== verification/Inverted_Lists_Copy.thy ===== *)
theory Inverted_Lists_Copy
  imports Inverted_Lists
begin

text \<open>
  \<open>InvertedLists::merge_from\<close> and \<open>copy_subset_to\<close> between two containers that keep the promise of
  \<open>inverted_lists\<close>, whatever their classes: what the destination and the source hold afterwards.
\<close>

definition shift_id :: "nat \<Rightarrow> entry \<Rightarrow> entry" where
  "shift_id add_id e = (fst e + int add_id, snd e)"

lemma shift_id_simps [simp]:
  "shift_id 0 = id" "map snd (map (shift_id a) es) = map snd es" "snd (shift_id a e) = snd e" "snd \<circ> shift_id a = snd"
  by (auto simp: shift_id_def fun_eq_iff)

text \<open>The positions that each kind of subset takes from one list; \<open>accu\<close> entries come before it.\<close>

definition chosen :: "int \<Rightarrow> int \<Rightarrow> int \<Rightarrow> nat \<Rightarrow> nat \<Rightarrow> nat \<Rightarrow> idx_t list \<Rightarrow> nat list" where
  "chosen t a1 a2 ntotal accu list_no ids =
     (let n = length ids in
      if t = 0 then filter (\<lambda>i. a1 \<le> ids ! i \<and> ids ! i < a2) [0..<n]
      else if t = 1 then filter (\<lambda>i. c_mod (ids ! i) a1 = a2) [0..<n]
      else if t = 2 then
        [(accu + n) * nat a1 div ntotal - accu * nat a1 div ntotal
           ..< (accu + n) * nat a2 div ntotal - accu * nat a2 div ntotal]
      else if t = 3 then [n * nat a2 div nat a1 ..< n * (nat a2 + 1) div nat a1]
      else if a1 \<le> int list_no \<and> int list_no < a2 then [0..<n] else [])"

definition subset_ok :: "int \<Rightarrow> int \<Rightarrow> int \<Rightarrow> nat \<Rightarrow> bool" where
  "subset_ok t a1 a2 ntotal \<longleftrightarrow> 0 \<le> t \<and> t \<le> 4 \<and> (t = 1 \<longrightarrow> a1 \<noteq> 0)
     \<and> (t = 2 \<longrightarrow> 0 < ntotal \<and> 0 \<le> a1 \<and> a1 \<le> a2 \<and> a2 \<le> int ntotal)
     \<and> (t = 3 \<longrightarrow> 0 \<le> a2 \<and> a2 < a1)"

lemma div_step_le:
  fixes accu n a m :: nat
  assumes "0 < m" "a \<le> m"
  shows "(accu + n) * a div m - accu * a div m \<le> n"
proof -
  have "(accu + n) * a \<le> accu * a + n * m" using assms by (simp add: distrib_right)
  then have "(accu + n) * a div m \<le> (accu * a + n * m) div m" by (rule div_le_mono)
  also have "\<dots> = accu * a div m + n" using assms by simp
  finally show ?thesis by simp
qed

lemma chosen_less:
  assumes "subset_ok t a1 a2 ntotal" "p \<in> set (chosen t a1 a2 ntotal accu i ids)"
  shows "p < length ids"
proof -
  have two: "(accu + length ids) * nat a2 div ntotal - accu * nat a2 div ntotal \<le> length ids" if "t = 2"
    using that assms(1) by (intro div_step_le) (auto simp: subset_ok_def)
  have three: "length ids * (nat a2 + 1) div nat a1 \<le> length ids" if "t = 3"
  proof -
    have "nat a2 + 1 \<le> nat a1" using that assms(1) by (auto simp: subset_ok_def)
    then have "length ids * (nat a2 + 1) div nat a1 \<le> length ids * nat a1 div nat a1"
      by (intro div_le_mono mult_le_mono2)
    then show ?thesis by (cases "nat a1 = 0") auto
  qed
  show ?thesis using assms two three
    by (auto simp: chosen_def Let_def subset_ok_def split: if_splits)
qed

locale merging =
  dst: inverted_lists ops inv L cs + src: inverted_lists src_ops oinv oL cs
  for ops :: "'s il_ops" and inv and L and cs and src_ops :: "'t il_ops" and oinv and oL
begin

lemma merge_list_spec:
  assumes "inv s" "oinv t" "i < length (L s)" "i < length (oL t)"
  shows "\<exists>s' t'. merge_list ops src_ops add_id i (s, t) = Inr (s', t') \<and> inv s' \<and> oinv t'
    \<and> L s' = (L s)[i := L s ! i @ map (shift_id add_id) (oL t ! i)] \<and> oL t' = (oL t)[i := []]"
proof -
  let ?es = "oL t ! i"
  note src = src.size [OF assms(2,4)] src.ids [OF assms(2,4)] src.codes [OF assms(2,4)]
  have al: "all_length cs (map snd (map (shift_id add_id) ?es))"
    using src.codes_length [OF assms(2,4)] by simp
  obtain s' r where s': "il_add_entries ops i (length ?es) (map fst (map (shift_id add_id) ?es))
      (concat (map snd (map (shift_id add_id) ?es))) s = Inr (s', r)"
    "inv s'" "L s' = (L s)[i := L s ! i @ map (shift_id add_id) ?es]"
    using dst.add_any [OF assms(1,3) al] by auto
  obtain t' where t': "il_resize src_ops i 0 t = Inr t'" "oinv t'" "oL t' = (oL t)[i := []]"
    using src.clear [OF assms(2,4)] by blast
  have shifted: "map (\<lambda>j. map fst ?es ! j + int add_id) [0..<length ?es] = map fst (map (shift_id add_id) ?es)"
    by (rule nth_equalityI) (auto simp: shift_id_def)
  show ?thesis
  proof (cases "add_id = 0")
    case True
    then show ?thesis using s' t' src by (simp add: merge_list_def)
  next
    case False
    then show ?thesis using s' t' src unfolding merge_list_def shifted [symmetric] by simp
  qed
qed

lemma merge_from_spec:
  assumes "inv s" "oinv t" "length (oL t) = length (L s)"
  shows "\<exists>s' t'. merge_from ops src_ops add_id s t = Inr (s', t') \<and> inv s' \<and> oinv t'
    \<and> L s' = map2 (\<lambda>xs ys. xs @ map (shift_id add_id) ys) (L s) (oL t)
    \<and> oL t' = replicate (length (oL t)) []"
proof -
  let ?f = "\<lambda>xs ys. xs @ map (shift_id add_id) ys"
  have "\<exists>s' t'. fold_result (merge_list ops src_ops add_id) [0..<n] (s, t) = Inr (s', t') \<and> inv s' \<and> oinv t'
      \<and> L s' = map2 ?f (take n (L s)) (take n (oL t)) @ drop n (L s)
      \<and> oL t' = replicate n [] @ drop n (oL t)" if "n \<le> length (L s)" for n
    using that
  proof (induction n)
    case 0
    then show ?case using assms by simp
  next
    case (Suc n)
    then obtain s1 t1 where 1: "fold_result (merge_list ops src_ops add_id) [0..<n] (s, t) = Inr (s1, t1)"
      "inv s1" "oinv t1" "L s1 = map2 ?f (take n (L s)) (take n (oL t)) @ drop n (L s)"
      "oL t1 = replicate n [] @ drop n (oL t)" by auto
    have n: "n < length (L s)" "n < length (oL t)" using Suc.prems assms(3) by simp_all
    have len: "length (map2 ?f (take n (L s)) (take n (oL t))) = n" using n by simp
    have d: "drop n (L s) = L s ! n # drop (Suc n) (L s)" "drop n (oL t) = oL t ! n # drop (Suc n) (oL t)"
      using n by (simp_all add: Cons_nth_drop_Suc)
    have "L s1 ! n = L s ! n" unfolding 1(4) d(1) by (rule nth_middle [OF len])
    moreover have "oL t1 ! n = oL t ! n" unfolding 1(5) d(2) by (rule nth_middle) simp
    moreover have "n < length (L s1)" "n < length (oL t1)" using 1(4,5) n len by simp_all
    ultimately have at: "L s1 ! n = L s ! n" "oL t1 ! n = oL t ! n" "n < length (L s1)" "n < length (oL t1)" .
    obtain s2 t2 where 2: "merge_list ops src_ops add_id n (s1, t1) = Inr (s2, t2)" "inv s2" "oinv t2"
      "L s2 = (L s1)[n := ?f (L s1 ! n) (oL t1 ! n)]" "oL t2 = (oL t1)[n := []]"
      using merge_list_spec [OF 1(2,3) at(3,4)] by blast
    have "L s2 = map2 ?f (take (Suc n) (L s)) (take (Suc n) (oL t)) @ drop (Suc n) (L s)"
      unfolding 2(4) at(1,2) unfolding 1(4) d(1) list_update_middle [OF len]
      using n by (simp add: take_Suc_conv_app_nth)
    moreover have "oL t2 = replicate (Suc n) [] @ drop (Suc n) (oL t)"
      unfolding 2(5) 1(5) d(2) by (simp add: list_update_middle replicate_append_same)
    ultimately show ?case using 1(1) 2 by (simp add: fold_result_append)
  qed
  from this [of "length (L s)"] show ?thesis
    using assms(3) dst.nlist [OF assms(1)] by (simp add: merge_from_def)
qed

lemma copy_positions_spec:
  assumes "represents v M" "il_code_size v = cs" "i < length M" "\<And>p. p \<in> set ps \<Longrightarrow> p < length (M ! i)"
    "inv s" "i < length (L s)"
  shows "\<exists>s'. copy_positions ops v i ps s = Inr s' \<and> inv s' \<and> L s' = (L s)[i := L s ! i @ map ((!) (M ! i)) ps]"
  using assms(4-)
proof (induction ps arbitrary: s)
  case (Cons p ps)
  have v: "list_shows v i (M ! i)" using assms(1,3) by (simp add: represents_def)
  have p: "p < length (M ! i)" using Cons.prems(1) by simp
  then have "length (snd (M ! i ! p)) = cs" using v assms(2) by (simp add: list_shows_def all_length_def)
  then obtain s1 where s1: "add_entry ops i (fst (M ! i ! p)) (snd (M ! i ! p)) s = Inr (s1, length (L s ! i))"
    "inv s1" "L s1 = (L s)[i := L s ! i @ [M ! i ! p]]"
    using dst.add_entry_spec [OF Cons.prems(2,3)] by (metis prod.collapse)
  have one: "copy_one ops v i p s = Inr s1" using v p s1(1) by (simp add: copy_one_def list_shows_def)
  have "i < length (L s1)" using Cons.prems(3) s1(3) by simp
  from Cons.IH [OF _ s1(2) this] obtain s2 where "copy_positions ops v i ps s1 = Inr s2" "inv s2"
    "L s2 = (L s1)[i := L s1 ! i @ map ((!) (M ! i)) ps]" using Cons.prems(1) by auto
  then show ?case using one s1(3) Cons.prems(3) by (simp add: copy_positions_def)
qed (simp add: copy_positions_def assms)

end

text \<open>The entries before list \<open>i\<close>, and what a copy of a subset takes from the list.\<close>

definition before :: "entry list list \<Rightarrow> nat \<Rightarrow> nat" where
  "before M i = sum_list (map length (take i M))"

definition subset_of :: "int \<Rightarrow> int \<Rightarrow> int \<Rightarrow> entry list list \<Rightarrow> nat \<Rightarrow> nat list" where
  "subset_of t a1 a2 M i = chosen t a1 a2 (sum_list (map length M)) (before M i) i (map fst (M ! i))"

lemma before_Suc: "i < length M \<Longrightarrow> before M (Suc i) = before M i + length (M ! i)"
  by (simp add: before_def take_Suc_conv_app_nth)

lemma before_all: "before M (length M) = sum_list (map length M)"
  by (simp add: before_def)

text \<open>
  What \<open>copy_subset_to\<close> counts for a list: the number of entries it takes, except that for
  \<open>SUBSET_TYPE_ELEMENT_RANGE\<close> it is a difference of two positions, which may be negative.
\<close>

definition element_bound :: "int \<Rightarrow> entry list list \<Rightarrow> nat \<Rightarrow> nat" where
  "element_bound a M i = before M i * nat a div sum_list (map length M)"

definition counted :: "int \<Rightarrow> int \<Rightarrow> int \<Rightarrow> entry list list \<Rightarrow> nat \<Rightarrow> int" where
  "counted t a1 a2 M i =
     (if t = 2 then (int (element_bound a2 M (Suc i)) - int (element_bound a2 M i))
         - (int (element_bound a1 M (Suc i)) - int (element_bound a1 M i))
      else int (length (subset_of t a1 a2 M i)))"

lemma element_bound_mono: "i < length M \<Longrightarrow> element_bound a M i \<le> element_bound a M (Suc i)"
  unfolding element_bound_def by (intro div_le_mono mult_le_mono1) (simp add: before_Suc)

context merging
begin

text \<open>One list of \<open>copy_subset_to\<close>: the accumulators are what they are meant to be.\<close>

lemma copy_list_spec:
  assumes v: "represents v M" "il_code_size v = cs" and i: "i < length M"
    and ok: "subset_ok t a1 a2 (if t = 2 then sum_list (map length M) else 0)"
    and s: "inv s" "i < length (L s)"
  defines "N \<equiv> (if t = 2 then sum_list (map length M) else 0)"
  shows "\<exists>s'. copy_list ops v t a1 a2 N i
      (s, before M i, (if t = 2 then before M i * nat a1 div N else 0), (if t = 2 then before M i * nat a2 div N else 0), k)
        = Inr (s', before M (Suc i), (if t = 2 then before M (Suc i) * nat a1 div N else 0),
            (if t = 2 then before M (Suc i) * nat a2 div N else 0), k + counted t a1 a2 M i)
      \<and> inv s' \<and> L s' = (L s)[i := L s ! i @ map ((!) (M ! i)) (subset_of t a1 a2 M i)]"
proof -
  have sh: "list_shows v i (M ! i)" using v i by (simp add: represents_def)
  let ?n = "length (M ! i)" let ?ps = "subset_of t a1 a2 M i"
  have ps: "p < ?n" if "p \<in> set ?ps" for p
    using chosen_less [of t a1 a2 "sum_list (map length M)" p "before M i" i "map fst (M ! i)"] that ok
    by (auto simp: subset_of_def subset_ok_def split: if_splits)
  obtain s' where s': "copy_positions ops v i ?ps s = Inr s'" "inv s'" "L s' = (L s)[i := L s ! i @ map ((!) (M ! i)) ?ps]"
    using copy_positions_spec [OF v i ps s] by blast
  have rd: "il_size v i = Inr ?n" "il_ids v i = Inr (map fst (M ! i))" "il_codes v i = Inr (concat (map snd (M ! i)))"
    using sh by (simp_all add: list_shows_def)
  note b = before_Suc [OF i]
  consider "t = 0" | "t = 1" | "t = 2" | "t = 3" | "t = 4" using ok by (force simp: subset_ok_def)
  then show ?thesis
  proof cases
    case 1
    then have "?ps = filter (\<lambda>j. a1 \<le> map fst (M ! i) ! j \<and> map fst (M ! i) ! j < a2) [0..<?n]"
      by (simp add: subset_of_def chosen_def Let_def)
    then show ?thesis using 1 s' rd b by (simp add: counted_def)
  next
    case 2
    then have "?ps = filter (\<lambda>j. c_mod (map fst (M ! i) ! j) a1 = a2) [0..<?n]"
      by (simp add: subset_of_def chosen_def Let_def)
    then show ?thesis using 2 s' rd b ok by (simp add: subset_ok_def Let_def counted_def)
  next
    case 3
    let ?i1 = "before M (Suc i) * nat a1 div N - before M i * nat a1 div N"
    let ?i2 = "before M (Suc i) * nat a2 div N - before M i * nat a2 div N"
    have ps2: "?ps = [?i1..<?i2]" using 3 b by (simp add: subset_of_def chosen_def Let_def N_def)
    have "counted t a1 a2 M i = int ?i2 - int ?i1"
      using 3 element_bound_mono [OF i] by (simp add: counted_def N_def element_bound_def of_nat_diff)
    moreover have "N \<noteq> 0" using ok 3 unfolding subset_ok_def N_def by (metis less_not_refl)
    ultimately show ?thesis using 3 s' rd b ps2 by (simp add: Let_def)
  next
    case 4
    let ?i1 = "?n * nat a2 div nat a1" let ?i2 = "?n * (nat a2 + 1) div nat a1"
    have ps3: "?ps = [?i1..<?i2]" using 4 by (simp add: subset_of_def chosen_def Let_def)
    have "?i1 \<le> ?i2" by (intro div_le_mono mult_le_mono2) simp
    then have len: "int (length ?ps) = int ?i2 - int ?i1" using ps3 by simp
    show ?thesis using 4 s' rd b ok ps3 len by (simp add: subset_ok_def Let_def counted_def del: length_upt)
  next
    case 5
    show ?thesis
    proof (cases "a1 \<le> int i \<and> int i < a2")
      case True
      then have ps4: "?ps = [0..<?n]" using 5 by (simp add: subset_of_def chosen_def Let_def)
      have all: "map ((!) (M ! i)) [0..<?n] = M ! i" by (rule map_nth)
      have "all_length cs (map snd (M ! i))" using sh v(2) by (simp add: list_shows_def)
      then obtain s2 r where "il_add_entries ops i ?n (map fst (M ! i)) (concat (map snd (M ! i))) s = Inr (s2, r)"
        "inv s2" "L s2 = (L s)[i := L s ! i @ M ! i]" using dst.add_any [OF s] by blast
      then show ?thesis using 5 True rd b ps4 all by (simp add: counted_def)
    next
      case False
      then have ps4: "?ps = []" using 5 by (auto simp: subset_of_def chosen_def Let_def)
      then show ?thesis using 5 False rd b s by (auto simp: counted_def)
    qed
  qed
qed

lemma copy_subset_spec:
  assumes v: "represents v M" "il_code_size v = cs" and s: "inv s" "length (L s) = length M"
    and ok: "subset_ok t a1 a2 (if t = 2 then sum_list (map length M) else 0)"
  shows "\<exists>s'. copy_subset_to v ops t a1 a2 s
      = Inr (s', nat (sum_list (map (counted t a1 a2 M) [0..<length M]) mod 2 ^ 64))
    \<and> inv s' \<and> L s' = map (\<lambda>i. L s ! i @ map ((!) (M ! i)) (subset_of t a1 a2 M i)) [0..<length M]"
proof -
  define N where "N = (if t = 2 then sum_list (map length M) else 0)"
  let ?g = "\<lambda>i. L s ! i @ map ((!) (M ! i)) (subset_of t a1 a2 M i)"
  let ?acc = "\<lambda>i a. if t = 2 then before M i * nat a div N else 0"
  have "\<exists>s'. fold_result (copy_list ops v t a1 a2 N) [0..<n] (s, 0, 0, 0, 0)
      = Inr (s', before M n, ?acc n a1, ?acc n a2, sum_list (map (counted t a1 a2 M) [0..<n]))
      \<and> inv s' \<and> L s' = map ?g [0..<n] @ drop n (L s)" if "n \<le> length M" for n
    using that
  proof (induction n)
    case 0
    then show ?case using s by (simp add: before_def)
  next
    case (Suc n)
    then obtain s1 where s1: "fold_result (copy_list ops v t a1 a2 N) [0..<n] (s, 0, 0, 0, 0)
        = Inr (s1, before M n, ?acc n a1, ?acc n a2, sum_list (map (counted t a1 a2 M) [0..<n]))"
      "inv s1" "L s1 = map ?g [0..<n] @ drop n (L s)" by auto
    have n: "n < length M" "n < length (L s1)" using Suc.prems s1(3) s(2) by simp_all
    have d: "drop n (L s) = L s ! n # drop (Suc n) (L s)" using n(1) s(2) by (simp add: Cons_nth_drop_Suc)
    have at: "L s1 ! n = L s ! n" unfolding s1(3) d by (rule nth_middle) simp
    obtain s2 where s2: "copy_list ops v t a1 a2 N n
        (s1, before M n, ?acc n a1, ?acc n a2, sum_list (map (counted t a1 a2 M) [0..<n]))
        = Inr (s2, before M (Suc n), ?acc (Suc n) a1, ?acc (Suc n) a2,
            sum_list (map (counted t a1 a2 M) [0..<n]) + counted t a1 a2 M n)"
      "inv s2" "L s2 = (L s1)[n := L s1 ! n @ map ((!) (M ! n)) (subset_of t a1 a2 M n)]"
      using copy_list_spec [OF v n(1) ok s1(2) n(2), where k = "sum_list (map (counted t a1 a2 M) [0..<n])",
          folded N_def] by blast
    have "L s2 = map ?g [0..<Suc n] @ drop (Suc n) (L s)"
      unfolding s2(3) at unfolding s1(3) d by (subst list_update_middle) simp_all
    then show ?case using s1(1) s2 by (simp add: fold_result_append)
  qed
  from this [of "length M"] obtain s' where
    s': "fold_result (copy_list ops v t a1 a2 N) [0..<length M] (s, 0, 0, 0, 0)
      = Inr (s', before M (length M), ?acc (length M) a1, ?acc (length M) a2,
          sum_list (map (counted t a1 a2 M) [0..<length M]))"
    "inv s'" "L s' = map ?g [0..<length M]" using s(2) by auto
  have nl: "il_nlist v = length M" using v(1) by (simp add: represents_def)
  have nt: "(if t = 2 then compute_ntotal v else Inr 0) = Inr N"
    using compute_ntotal_represents [OF v(1)] by (simp add: N_def)
  have "0 \<le> t" "t \<le> 4" using ok by (simp_all add: subset_ok_def)
  then show ?thesis
    using s' nl nt v(2) dst.nlist [OF s(1)] dst.code_size [OF s(1)] s(2) by (simp add: copy_subset_to_def)
qed

end

text \<open>The counts of \<open>SUBSET_TYPE_ELEMENT_RANGE\<close> add up to \<open>a2 - a1\<close>.\<close>

lemma counted_total:
  assumes "subset_ok 2 a1 a2 (sum_list (map length M))"
  shows "sum_list (map (counted 2 a1 a2 M) [0..<length M]) = a2 - a1"
proof -
  define T where "T = sum_list (map length M)"
  let ?b = "\<lambda>a i. int (before M i * nat a div T)"
  have "sum_list (map (counted 2 a1 a2 M) [0..<n]) = (?b a2 n - ?b a2 0) - (?b a1 n - ?b a1 0)" for n
    by (induction n) (simp_all add: counted_def element_bound_def T_def)
  from this [of "length M"] show ?thesis
    using assms unfolding before_all T_def [symmetric] by (simp add: subset_ok_def before_def)
qed

end
