(* ===== verification/Array_Invlists.thy ===== *)
theory Array_Invlists
  imports Inverted_Lists_Copy
begin

text \<open>
  \<open>ArrayInvertedLists\<close> (\<open>faiss/invlists/InvertedLists.cpp\<close>): a vector of ids and a byte vector per
  list. Assertions of the code that a list number or a range is valid are \<open>Assert_failed\<close>;
  where the code has no check, an index outside is \<open>Out_of_bounds\<close>.
\<close>

record array_il =
  ail_nlist :: nat
  ail_code_size :: nat
  ail_codes :: "8 word list list"
  ail_ids :: "idx_t list list"

definition ail_new :: "nat \<Rightarrow> nat \<Rightarrow> array_il" where
  "ail_new nlist cs = \<lparr>ail_nlist = nlist, ail_code_size = cs,
     ail_codes = replicate nlist [], ail_ids = replicate nlist []\<rparr>"

definition ail_list_size :: "array_il \<Rightarrow> nat \<Rightarrow> nat result" where
  "ail_list_size s list_no =
     (if list_no < ail_nlist s then Inr (length (ail_ids s ! list_no)) else Inl Assert_failed)"

definition ail_get_codes :: "array_il \<Rightarrow> nat \<Rightarrow> 8 word list result" where
  "ail_get_codes s list_no =
     (if list_no < ail_nlist s then Inr (ail_codes s ! list_no) else Inl Assert_failed)"

definition ail_get_ids :: "array_il \<Rightarrow> nat \<Rightarrow> idx_t list result" where
  "ail_get_ids s list_no =
     (if list_no < ail_nlist s then Inr (ail_ids s ! list_no) else Inl Assert_failed)"

definition ail_add_entries ::
  "nat \<Rightarrow> nat \<Rightarrow> idx_t list \<Rightarrow> 8 word list \<Rightarrow> array_il \<Rightarrow> (array_il \<times> nat) result" where
  "ail_add_entries list_no n_entry ids_in code s =
     (if n_entry = 0 then Inr (s, 0)
      else if \<not> list_no < ail_nlist s then Inl Assert_failed
      else
        let cs = ail_code_size s; o' = length (ail_ids s ! list_no) in
        bind_result (memcpy o' ids_in n_entry (resize (o' + n_entry) 0 (ail_ids s ! list_no))) (\<lambda>ids.
        bind_result (memcpy (o' * cs) code (cs * n_entry)
            (resize ((o' + n_entry) * cs) 0 (ail_codes s ! list_no))) (\<lambda>codes.
        Inr (s\<lparr>ail_ids := (ail_ids s)[list_no := ids], ail_codes := (ail_codes s)[list_no := codes]\<rparr>, o'))))"

definition ail_resize :: "nat \<Rightarrow> nat \<Rightarrow> array_il \<Rightarrow> array_il result" where
  "ail_resize list_no new_size s =
     (if \<not> (list_no < length (ail_ids s) \<and> list_no < length (ail_codes s)) then Inl Out_of_bounds
      else Inr (s\<lparr>ail_ids := (ail_ids s)[list_no := resize new_size 0 (ail_ids s ! list_no)],
             ail_codes := (ail_codes s)[list_no := resize (new_size * ail_code_size s) 0 (ail_codes s ! list_no)]\<rparr>))"

definition ail_update_entries ::
  "nat \<Rightarrow> nat \<Rightarrow> nat \<Rightarrow> idx_t list \<Rightarrow> 8 word list \<Rightarrow> array_il \<Rightarrow> array_il result" where
  "ail_update_entries list_no offset n_entry ids_in codes_in s =
     (if \<not> list_no < ail_nlist s then Inl Assert_failed
      else if \<not> n_entry + offset \<le> length (ail_ids s ! list_no) then Inl Assert_failed
      else
        let cs = ail_code_size s in
        bind_result (memcpy offset ids_in n_entry (ail_ids s ! list_no)) (\<lambda>ids.
        bind_result (memcpy (offset * cs) codes_in (cs * n_entry) (ail_codes s ! list_no)) (\<lambda>codes.
        Inr (s\<lparr>ail_ids := (ail_ids s)[list_no := ids], ail_codes := (ail_codes s)[list_no := codes]\<rparr>))))"

text \<open>\<open>permute_invlists\<close>: each swap takes a list out, so that a list named twice is empty the second time.\<close>

fun permute_loop :: "nat \<Rightarrow> nat list \<Rightarrow> 8 word list list \<times> idx_t list list \<Rightarrow>
    (8 word list list \<times> idx_t list list) result" where
  "permute_loop nlist [] st = Inr ([], [])"
| "permute_loop nlist (o' # os) (codes, ids) =
     (if \<not> o' < nlist then Inl (Throw ''o < nlist'')
      else bind_result (permute_loop nlist os (codes[o' := []], ids[o' := []])) (\<lambda>(new_codes, new_ids).
        Inr (codes ! o' # new_codes, ids ! o' # new_ids)))"

definition ail_permute_invlists :: "nat list \<Rightarrow> array_il \<Rightarrow> array_il result" where
  "ail_permute_invlists perm s =
     (if length perm < ail_nlist s then Inl Out_of_bounds
      else bind_result (permute_loop (ail_nlist s) (take (ail_nlist s) perm) (ail_codes s, ail_ids s)) (\<lambda>(codes, ids).
        Inr (s\<lparr>ail_codes := codes, ail_ids := ids\<rparr>)))"

definition ail_view :: "array_il \<Rightarrow> il_view" where
  "ail_view s = \<lparr>il_nlist = ail_nlist s, il_code_size = ail_code_size s, il_size = ail_list_size s,
     il_ids = ail_get_ids s, il_codes = ail_get_codes s,
     il_single_id = default_single_id (ail_list_size s) (ail_get_ids s),
     il_single_code = default_single_code (ail_code_size s) (ail_list_size s) (ail_get_codes s)\<rparr>"

definition ail_ops :: "array_il il_ops" where
  "ail_ops = \<lparr>il_view_of = ail_view, il_add_entries = ail_add_entries,
     il_update_entries = ail_update_entries, il_resize = ail_resize\<rparr>"

section \<open>The promise is kept\<close>

definition ail_ok :: "nat \<Rightarrow> array_il \<Rightarrow> bool" where
  "ail_ok cs s \<longleftrightarrow> ail_code_size s = cs \<and> length (ail_ids s) = ail_nlist s \<and> length (ail_codes s) = ail_nlist s
     \<and> (\<forall>i < ail_nlist s. length (ail_codes s ! i) = length (ail_ids s ! i) * cs)"

definition ail_list :: "nat \<Rightarrow> idx_t list \<Rightarrow> 8 word list \<Rightarrow> entry list" where
  "ail_list cs ids codes = zip ids (chunks cs (length ids) codes)"

definition ail_lists :: "array_il \<Rightarrow> entry list list" where
  "ail_lists s = map2 (ail_list (ail_code_size s)) (ail_ids s) (ail_codes s)"

text \<open>A list of entries and the two vectors that hold it.\<close>

lemma ail_list_of:
  assumes "all_length cs (map snd es)"
  shows "ail_list cs (map fst es) (concat (map snd es)) = es"
  using assms by (simp add: ail_list_def chunks_concat zip_map_fst_snd)

lemma ail_list_props:
  assumes "length codes = length ids * cs"
  shows "length (ail_list cs ids codes) = length ids" "map fst (ail_list cs ids codes) = ids"
    "concat (map snd (ail_list cs ids codes)) = codes" "all_length cs (map snd (ail_list cs ids codes))"
  using concat_chunks [OF assms] by (simp_all add: ail_list_def)

lemma length_ail_lists [simp]: "ail_ok cs s \<Longrightarrow> length (ail_lists s) = ail_nlist s"
  by (simp add: ail_lists_def ail_ok_def)

lemma nth_ail_lists:
  "ail_ok cs s \<Longrightarrow> i < ail_nlist s \<Longrightarrow> ail_lists s ! i = ail_list cs (ail_ids s ! i) (ail_codes s ! i)"
  by (simp add: ail_lists_def ail_ok_def)

lemma ail_at:
  assumes "ail_ok cs s" "i < ail_nlist s"
  shows "ail_ids s ! i = map fst (ail_lists s ! i)" "ail_codes s ! i = concat (map snd (ail_lists s ! i))"
    "all_length cs (map snd (ail_lists s ! i))"
proof -
  have "length (ail_codes s ! i) = length (ail_ids s ! i) * cs" using assms by (simp add: ail_ok_def)
  from ail_list_props [OF this] show "ail_ids s ! i = map fst (ail_lists s ! i)"
    "ail_codes s ! i = concat (map snd (ail_lists s ! i))" "all_length cs (map snd (ail_lists s ! i))"
    using nth_ail_lists [OF assms] by simp_all
qed

text \<open>Replacing the two vectors of a list.\<close>

lemma ail_put:
  assumes "ail_ok cs s" "i < ail_nlist s" "all_length cs (map snd es)"
  defines "s' \<equiv> s\<lparr>ail_ids := (ail_ids s)[i := map fst es], ail_codes := (ail_codes s)[i := concat (map snd es)]\<rparr>"
  shows "ail_ok cs s'" "ail_lists s' = (ail_lists s)[i := es]"
proof -
  have "length (concat (map snd es)) = length es * cs" using assms(3) by (metis length_concat_all length_map)
  then show ok: "ail_ok cs s'" using assms(1,2) by (simp add: ail_ok_def s'_def nth_list_update)
  have "ail_code_size s = cs" using assms(1) by (simp add: ail_ok_def)
  then show "ail_lists s' = (ail_lists s)[i := es]"
    using assms(1-3) unfolding ail_lists_def s'_def
    by (intro nth_equalityI) (auto simp: nth_list_update ail_list_of ail_ok_def)
qed

lemma ail_represents: "ail_ok cs s \<Longrightarrow> represents (ail_view s) (ail_lists s)"
proof -
  assume s: "ail_ok cs s"
  have "list_shows (ail_view s) i (ail_lists s ! i)" if i: "i < ail_nlist s" for i
  proof -
    have "ail_code_size s = cs" using s by (simp add: ail_ok_def)
    moreover have "ail_list_size s i = Inr (length (ail_lists s ! i))"
      using i ail_at(1) [OF s i] by (simp add: ail_list_size_def)
    moreover have "ail_get_ids s i = Inr (map fst (ail_lists s ! i))"
      using i ail_at(1) [OF s i] by (simp add: ail_get_ids_def)
    moreover have "ail_get_codes s i = Inr (concat (map snd (ail_lists s ! i)))"
      using i ail_at(2) [OF s i] by (simp add: ail_get_codes_def)
    ultimately show ?thesis unfolding ail_view_def using ail_at(3) [OF s i] by (intro list_shows_default) auto
  qed
  then show ?thesis using s by (simp add: represents_def ail_view_def)
qed

interpretation ail: shrinkable_lists ail_ops "ail_ok cs" ail_lists cs
proof unfold_locales
  fix s i n and k :: nat and es :: "entry list"
  assume s: "ail_ok cs s"
  show "represents (il_view_of ail_ops s) (ail_lists s)" using ail_represents [OF s] by (simp add: ail_ops_def)
  show "il_code_size (il_view_of ail_ops s) = cs" using s by (simp add: ail_ops_def ail_view_def ail_ok_def)
  assume i: "i < length (ail_lists s)"
  then have i': "i < ail_nlist s" using s by simp
  note at = ail_at [OF s i']
  have cs: "ail_code_size s = cs" using s by (simp add: ail_ok_def)
  have len: "length (ail_ids s) = ail_nlist s" "length (ail_codes s) = ail_nlist s" using s by (simp_all add: ail_ok_def)
  let ?l = "ail_lists s ! i"
  have cut: "\<exists>s'. il_resize ail_ops i n s = Inr s' \<and> ail_ok cs s' \<and> ail_lists s' = (ail_lists s)[i := take n ?l]"
    if "n \<le> length ?l" for n
  proof -
    have al: "all_length cs (map snd (take n ?l))" using at(3) by (metis take_map all_length_subset set_take_subset)
    have "resize n 0 (ail_ids s ! i) = map fst (take n ?l)"
      using that at(1) by (simp add: resize_shrink take_map)
    moreover have "resize (n * cs) 0 (ail_codes s ! i) = concat (map snd (take n ?l))"
      using that at(2,3) by (simp add: resize_shrink take_concat_all [OF at(3)] take_map)
    ultimately show ?thesis using ail_put [OF s i' al] i' len cs by (simp add: ail_ops_def ail_resize_def)
  qed
  show "\<exists>s'. il_resize ail_ops i 0 s = Inr s' \<and> ail_ok cs s' \<and> ail_lists s' = (ail_lists s)[i := []]"
    using cut [of 0] by simp
  show "\<exists>r s'. il_add_entries ail_ops i 0 [] [] s = Inr (s', r) \<and> ail_ok cs s' \<and> ail_lists s' = ail_lists s"
    using s by (simp add: ail_ops_def ail_add_entries_def)
  show "\<exists>s'. il_add_entries ail_ops i (length es) (map fst es) (concat (map snd es)) s = Inr (s', length ?l)
      \<and> ail_ok cs s' \<and> ail_lists s' = (ail_lists s)[i := ?l @ es]"
    if es: "es \<noteq> []" "all_length cs (map snd es)"
  proof -
    have al: "all_length cs (map snd (?l @ es))" using at(3) es(2) by simp
    have "memcpy (length (ail_ids s ! i)) (map fst es) (length es)
        (resize (length (ail_ids s ! i) + length es) 0 (ail_ids s ! i)) = Inr (map fst (?l @ es))"
      using at(1) by (subst memcpy_append) simp_all
    moreover have "memcpy (length (ail_ids s ! i) * cs) (concat (map snd es)) (cs * length es)
        (resize ((length (ail_ids s ! i) + length es) * cs) 0 (ail_codes s ! i)) = Inr (concat (map snd (?l @ es)))"
    proof -
      have "length (ail_codes s ! i) = length (ail_ids s ! i) * cs" using s i' by (simp add: ail_ok_def)
      moreover have "length (concat (map snd es)) = length es * cs" using es(2) by (metis length_concat_all length_map)
      ultimately show ?thesis using at(2) by (subst memcpy_append) (simp_all add: distrib_left mult.commute)
    qed
    ultimately show ?thesis
      using ail_put [OF s i' al] es(1) i' cs at(1) by (simp add: ail_ops_def ail_add_entries_def Let_def)
  qed
  show "\<exists>s'. il_update_entries ail_ops i k (length es) (map fst es) (concat (map snd es)) s = Inr s'
      \<and> ail_ok cs s' \<and> ail_lists s' = (ail_lists s)[i := overwrite k es ?l]"
    if es: "k + length es \<le> length ?l" "es \<noteq> []" "all_length cs (map snd es)"
  proof -
    have "set (map snd (overwrite k es ?l)) \<subseteq> set (map snd ?l @ map snd es)"
      using set_overwrite [of k es ?l] by auto
    then have al: "all_length cs (map snd (overwrite k es ?l))"
    proof (rule all_length_subset [rotated])
      show "all_length cs (map snd ?l @ map snd es)" using at(3) es(3) by (simp only: all_length_simps)
    qed
    have "memcpy k (map fst es) (length es) (ail_ids s ! i) = Inr (map fst (overwrite k es ?l))"
      using at(1) es(1) by (simp add: memcpy_def map_overwrite)
    moreover have "memcpy (k * cs) (concat (map snd es)) (cs * length es) (ail_codes s ! i)
        = Inr (concat (map snd (overwrite k es ?l)))"
    proof -
      have "length (ail_codes s ! i) = length ?l * cs" using s i' at(1) by (simp add: ail_ok_def)
      moreover have "length (concat (map snd es)) = length es * cs" using es(3) by (metis length_concat_all length_map)
      moreover have "k * cs + length es * cs \<le> length ?l * cs"
        using mult_le_mono1 [OF es(1), of cs] by (simp add: distrib_right)
      ultimately show ?thesis
        using at(2) overwrite_concat_all [OF at(3) es(3), of k]
        by (simp add: memcpy_def map_overwrite mult.commute)
    qed
    ultimately show ?thesis
      using ail_put [OF s i' al] i' cs at(1) es(1) by (simp add: ail_ops_def ail_update_entries_def Let_def add.commute)
  qed
  show "\<exists>s'. il_resize ail_ops i n s = Inr s' \<and> ail_ok cs s' \<and> ail_lists s' = (ail_lists s)[i := take n ?l]"
    if "n \<le> length ?l" using cut [OF that] .
qed

lemma ail_new_ok: "ail_ok cs (ail_new n cs)" "ail_lists (ail_new n cs) = replicate n []"
  by (simp_all add: ail_ok_def ail_new_def ail_lists_def ail_list_def)

text \<open>Two array containers: entries move from the second into the first.\<close>

interpretation ail2: merging ail_ops "ail_ok cs" ail_lists cs ail_ops "ail_ok cs" ail_lists
  by unfold_locales

section \<open>Permuting the lists\<close>

lemma permute_loop_spec:
  assumes "\<forall>p \<in> set perm. p < nlist" "length codes = nlist" "length ids = nlist"
  shows "\<exists>codes' ids'. permute_loop nlist perm (codes, ids) = Inr (codes', ids')
    \<and> length codes' = length perm \<and> length ids' = length perm
    \<and> (\<forall>i < length perm. (ids' ! i, codes' ! i) =
          (if perm ! i \<in> set (take i perm) then ([], []) else (ids ! (perm ! i), codes ! (perm ! i))))"
  using assms
proof (induction perm arbitrary: codes ids)
  case (Cons p perm)
  from Cons.IH [of "codes[p := []]" "ids[p := []]"] Cons.prems obtain codes' ids' where
    1: "permute_loop nlist perm (codes[p := []], ids[p := []]) = Inr (codes', ids')"
      "length codes' = length perm" "length ids' = length perm"
    and 2: "\<And>i. i < length perm \<Longrightarrow> (ids' ! i, codes' ! i) =
          (if perm ! i \<in> set (take i perm) then ([], []) else (ids[p := []] ! (perm ! i), codes[p := []] ! (perm ! i)))"
    by auto
  have "((ids ! p # ids') ! i, (codes ! p # codes') ! i) =
      (if (p # perm) ! i \<in> set (take i (p # perm)) then ([], []) else (ids ! ((p # perm) ! i), codes ! ((p # perm) ! i)))"
    if "i < Suc (length perm)" for i
    using that 2 [of "i - 1"] Cons.prems by (cases i) (auto simp: nth_list_update)
  then show ?case using 1 Cons.prems(1) by auto
qed simp

definition five_entries :: array_il where
  "five_entries = \<lparr>ail_nlist = 3, ail_code_size = 1,
     ail_codes = [[1, 2], [3], [4, 5]], ail_ids = [[1, 2], [3], [4, 5]]\<rparr>"

lemma five_entries_ok:
  "ail_ok 1 five_entries" "ail_lists five_entries = [[(1, [1]), (2, [2])], [(3, [3])], [(4, [4]), (5, [5])]]"
  by (simp add: ail_ok_def five_entries_def less_Suc_eq numeral_3_eq_3) code_simp

section \<open>Properties\<close>

text \<open>
  C29. \<open>ArrayInvertedLists\<close> refines lists of entries: whatever sequence of \<open>add_entries\<close>,
  \<open>update_entries\<close>, \<open>resize\<close> (to a smaller size) and \<open>reset\<close> is called within the contract,
  all calls return and reading the lists gives the ids and codes that the same sequence leaves in
  plain lists.
\<close>

theorem array_lists_refine:
  assumes "ops_ok cs (replicate n []) calls"
  shows "\<exists>s. fold_result (il_apply ail_ops) calls (ail_new n cs) = Inr s
    \<and> represents (ail_view s) (fold lists_apply calls (replicate n []))"
  using ail.calls_spec [of cs "ail_new n cs" calls] ail_represents [of cs] assms by (fastforce simp: ail_new_ok)

theorem array_lists_refine_witness:
  "\<exists>s. fold_result (il_apply ail_ops)
      [Op_add 1 [(7, [1, 2]), (8, [3, 4]), (9, [5, 6])], Op_update 1 1 [(5, [9, 9])], Op_resize 1 2] (ail_new 2 2) = Inr s
    \<and> represents (ail_view s) [[], [(7, [1, 2]), (5, [9, 9])]]"
proof -
  let ?calls = "[Op_add 1 [(7, [1, 2]), (8, [3, 4]), (9, [5, 6])], Op_update 1 1 [(5, [9, 9])], Op_resize 1 2]"
  have ok: "ops_ok 2 (replicate 2 []) ?calls" by (simp add: numeral_2_eq_2)
  have "fold lists_apply ?calls (replicate 2 []) = [[], [(7, [1, 2]), (5, [9, 9])]]"
    by (simp add: numeral_2_eq_2 overwrite_def)
  then show ?thesis using array_lists_refine [OF ok] by simp
qed

text \<open>
  \<open>merge_from\<close> of two \<open>ArrayInvertedLists\<close> with as many lists and codes of the same size
  appends every list of the second to the list of the first, its ids shifted, and empties the second.
\<close>

theorem array_merge_from:
  assumes "ail_ok cs s" "ail_ok cs t" "ail_nlist t = ail_nlist s"
  shows "\<exists>s' t'. merge_from ail_ops ail_ops add_id s t = Inr (s', t')
    \<and> ail_lists s' = map2 (\<lambda>xs ys. xs @ map (\<lambda>(x, c). (x + int add_id, c)) ys) (ail_lists s) (ail_lists t)
    \<and> ail_lists t' = replicate (ail_nlist t) []"
proof -
  have "shift_id add_id = (\<lambda>(x, c). (x + int add_id, c))" by (auto simp: shift_id_def)
  then show ?thesis using ail2.merge_from_spec [OF assms(1,2), of add_id] assms by auto
qed

theorem array_merge_from_witness:
  "\<exists>s' t'. merge_from ail_ops ail_ops 100 five_entries five_entries = Inr (s', t')
    \<and> map (map fst) (ail_lists s') = [[1, 2, 101, 102], [3, 103], [4, 5, 104, 105]] \<and> ail_lists t' = [[], [], []]"
proof -
  have "ail_nlist five_entries = 3" by (simp add: five_entries_def)
  then show ?thesis
    using array_merge_from [OF five_entries_ok(1) five_entries_ok(1) refl, of 100]
    by (auto simp: five_entries_ok numeral_3_eq_3)
qed

text \<open>
  \<open>permute_invlists\<close> puts list \<open>perm[i]\<close> in place \<open>i\<close>; a list that is named again later is
  empty there.
\<close>

theorem array_permute_lists:
  assumes "ail_ok cs s" "length perm = ail_nlist s" "\<forall>p \<in> set perm. p < ail_nlist s"
  shows "\<exists>s'. ail_permute_invlists perm s = Inr s' \<and> ail_ok cs s'
    \<and> ail_lists s' = map (\<lambda>i. if perm ! i \<in> set (take i perm) then [] else ail_lists s ! (perm ! i)) [0..<ail_nlist s]"
proof -
  have len: "length (ail_codes s) = ail_nlist s" "length (ail_ids s) = ail_nlist s" "ail_code_size s = cs"
    using assms(1) by (simp_all add: ail_ok_def)
  obtain codes ids where p: "permute_loop (ail_nlist s) perm (ail_codes s, ail_ids s) = Inr (codes, ids)"
    "length codes = ail_nlist s" "length ids = ail_nlist s"
    and at: "\<And>i. i < ail_nlist s \<Longrightarrow> (ids ! i, codes ! i) =
      (if perm ! i \<in> set (take i perm) then ([], []) else (ail_ids s ! (perm ! i), ail_codes s ! (perm ! i)))"
    using permute_loop_spec [OF assms(3) len(1,2)] assms(2) by auto
  let ?s = "s\<lparr>ail_codes := codes, ail_ids := ids\<rparr>"
  have pi: "perm ! i < ail_nlist s" if "i < ail_nlist s" for i using that assms(2,3) by auto
  have "length (codes ! i) = length (ids ! i) * cs" if "i < ail_nlist s" for i
    using at [OF that] pi [OF that] assms(1) by (auto simp: ail_ok_def split: if_splits)
  then have ok: "ail_ok cs ?s" using p len by (simp add: ail_ok_def)
  have "ail_lists ?s ! i = (if perm ! i \<in> set (take i perm) then [] else ail_lists s ! (perm ! i))"
    if "i < ail_nlist s" for i
    using at [OF that] nth_ail_lists [OF ok, of i] nth_ail_lists [OF assms(1) pi [OF that]] that
    by (auto simp: ail_list_def split: if_splits)
  then have "ail_lists ?s = map (\<lambda>i. if perm ! i \<in> set (take i perm) then [] else ail_lists s ! (perm ! i)) [0..<ail_nlist s]"
    using length_ail_lists [OF ok] by (intro nth_equalityI) simp_all
  then show ?thesis using p(1) ok assms(2) by (simp add: ail_permute_invlists_def)
qed

theorem array_permute_lists_witness:
  "\<exists>s'. ail_permute_invlists [2, 0, 0] five_entries = Inr s' \<and> map length (ail_lists s') = [2, 2, 0]"
proof -
  note ok = five_entries_ok(1)
  have n: "ail_nlist five_entries = 3" by (simp add: five_entries_def)
  have l: "map length (ail_lists five_entries) = [2, 1, 2]" by code_simp
  have "\<exists>s'. ail_permute_invlists [2, 0, 0] five_entries = Inr s' \<and> ail_ok 1 s'
    \<and> ail_lists s' = map (\<lambda>i. if [2 :: nat, 0, 0] ! i \<in> set (take i [2, 0, 0]) then [] else ail_lists five_entries ! ([2, 0, 0] ! i)) [0..<3]"
    using array_permute_lists [OF ok, of "[2, 0, 0]"] n by simp
  moreover have "length (ail_lists five_entries ! 0) = 2" "length (ail_lists five_entries ! 2) = 2" by code_simp+
  ultimately show ?thesis by (auto simp: upt_rec numeral_2_eq_2)
qed

text \<open>
  \<open>copy_subset_to\<close> between two \<open>ArrayInvertedLists\<close> appends to every list the entries of the
  source at the positions that the kind of subset chooses there, and returns how many it added;
  for \<open>SUBSET_TYPE_ELEMENT_RANGE\<close> it returns \<open>a2 - a1\<close>.
\<close>

theorem array_copy_subset:
  assumes "ail_ok cs s" "ail_ok cs d" "ail_nlist d = ail_nlist s"
    "subset_ok t a1 a2 (if t = 2 then sum_list (map length (ail_lists s)) else 0)"
  shows "\<exists>d' k. copy_subset_to (ail_view s) ail_ops t a1 a2 d = Inr (d', k) \<and> ail_ok cs d'
    \<and> ail_lists d' = map (\<lambda>i. ail_lists d ! i @ map ((!) (ail_lists s ! i)) (subset_of t a1 a2 (ail_lists s) i)) [0..<ail_nlist s]
    \<and> int k = (if t = 2 then a2 - a1
                else int (sum_list (map (\<lambda>i. length (subset_of t a1 a2 (ail_lists s) i)) [0..<ail_nlist s]))) mod 2 ^ 64"
proof -
  let ?M = "ail_lists s"
  have "il_code_size (ail_view s) = cs" using assms(1) by (simp add: ail_view_def ail_ok_def)
  from ail2.copy_subset_spec [OF ail_represents [OF assms(1)] this assms(2) _ assms(4)]
  obtain d' where d': "copy_subset_to (ail_view s) ail_ops t a1 a2 d
      = Inr (d', nat (sum_list (map (counted t a1 a2 ?M) [0..<length ?M]) mod 2 ^ 64))" "ail_ok cs d'"
    "ail_lists d' = map (\<lambda>i. ail_lists d ! i @ map ((!) (?M ! i)) (subset_of t a1 a2 ?M i)) [0..<length ?M]"
    using assms(1-3) by auto
  have "sum_list (map (counted t a1 a2 ?M) [0..<length ?M])
      = (if t = 2 then a2 - a1 else int (sum_list (map (\<lambda>i. length (subset_of t a1 a2 ?M i)) [0..<length ?M])))"
  proof (cases "t = 2")
    case True
    then show ?thesis using counted_total [of a1 a2 ?M] assms(4) by simp
  next
    case False
    have "sum_list (map (counted t a1 a2 ?M) xs) = int (sum_list (map (\<lambda>i. length (subset_of t a1 a2 ?M i)) xs))" for xs
      using False by (induction xs) (simp_all add: counted_def)
    then show ?thesis using False by simp
  qed
  then show ?thesis using d' assms(1) by (simp only: length_ail_lists [OF assms(1)]) auto
qed

theorem array_copy_subset_witness:
  "\<exists>s d' k. fold_result (il_apply ail_ops) [Op_add 0 [(10, [1]), (11, [2]), (12, [3])], Op_add 1 [(13, [4])]] (ail_new 2 1) = Inr s
    \<and> copy_subset_to (ail_view s) ail_ops 1 2 1 (ail_new 2 1) = Inr (d', k)
    \<and> ail_lists d' = [[(11, [2])], [(13, [4])]] \<and> int k = 2"
proof -
  let ?calls = "[Op_add 0 [(10, [1]), (11, [2]), (12, [3])], Op_add 1 [(13, [4])]]"
  let ?M = "[[(10, [1]), (11, [2]), (12, [3])], [(13, [4])]] :: entry list list"
  have "ops_ok 1 (ail_lists (ail_new 2 1)) ?calls" by (simp add: ail_new_ok numeral_2_eq_2)
  then obtain s where s: "fold_result (il_apply ail_ops) ?calls (ail_new 2 1) = Inr s" "ail_ok 1 s"
    "ail_lists s = fold lists_apply ?calls (ail_lists (ail_new 2 1))"
    using ail.calls_spec [OF ail_new_ok(1)] by blast
  have M: "ail_lists s = ?M" unfolding s(3) by (simp add: ail_new_ok numeral_2_eq_2)
  have n: "ail_nlist s = 2" using length_ail_lists [OF s(2)] M by simp
  have ok: "subset_ok 1 2 1 (if (1 :: int) = 2 then sum_list (map length (ail_lists s)) else 0)"
    by (simp add: subset_ok_def)
  have nn: "ail_nlist (ail_new 2 1) = ail_nlist s" using n by (simp add: ail_new_def)
  have sub: "subset_of 1 2 1 ?M 0 = [1]" "subset_of 1 2 1 ?M 1 = [0]" by code_simp+
  from array_copy_subset [OF s(2) ail_new_ok(1) nn ok] obtain d' k where
    "copy_subset_to (ail_view s) ail_ops 1 2 1 (ail_new 2 1) = Inr (d', k)"
    "ail_lists d' = map (\<lambda>i. ail_lists (ail_new 2 1) ! i @ map ((!) (?M ! i)) (subset_of 1 2 1 ?M i)) [0..<2]"
    "int k = int (sum_list (map (\<lambda>i. length (subset_of 1 2 1 ?M i)) [0..<2])) mod 2 ^ 64"
    unfolding M n by auto
  then show ?thesis using s(1) sub by (auto simp: upt_rec ail_new_ok)
qed

definition copied_ids :: "int \<Rightarrow> int \<Rightarrow> (idx_t list list \<times> nat) option" where
  "copied_ids a1 a2 =
     (case copy_subset_to (ail_view five_entries) ail_ops 2 a1 a2 (ail_new 3 1) of
        Inl _ \<Rightarrow> None | Inr (d, k) \<Rightarrow> Some (ail_ids d, k))"

text \<open>
  Splitting an index by \<open>SUBSET_TYPE_ELEMENT_RANGE\<close> does not partition it: of five entries in
  lists of 2, 1 and 2, the ranges \<open>[0,2)\<close> and \<open>[3,5)\<close> both take the entry of the middle list, and
  the range \<open>[2,3)\<close> adds two entries but returns 1.
\<close>

theorem element_ranges_overlap:
  "copied_ids 0 2 = Some ([[], [3], [4]], 2)
   \<and> copied_ids 2 3 = Some ([[1], [], [5]], 1)
   \<and> copied_ids 3 5 = Some ([[2], [3], []], 2)"
  by (intro conjI; code_simp)

text \<open>
  Copying a range of elements out of a container whose lists are all empty divides by zero.
\<close>

theorem element_range_of_empty_lists:
  assumes "0 < n"
  shows "copy_subset_to (ail_view (ail_new n cs)) ail_ops 2 a1 a2 (ail_new n cs) = Inl Division_by_zero"
proof -
  let ?v = "ail_view (ail_new n cs)"
  have nl: "il_nlist ?v = n" "il_view_of ail_ops (ail_new n cs) = ?v" by (simp_all add: ail_view_def ail_ops_def ail_new_def)
  have r: "represents ?v (replicate n [])" using ail_represents [OF ail_new_ok(1)] ail_new_ok(2) by metis
  have nt: "compute_ntotal ?v = Inr 0" using compute_ntotal_represents [OF r] by (simp add: sum_list_replicate)
  have up: "[0..<n] = 0 # [1..<n]" using assms by (simp add: upt_conv_Cons)
  have "list_shows ?v 0 []" using r assms by (simp add: represents_def)
  then have "copy_list ail_ops ?v 2 a1 a2 0 0 (ail_new n cs, 0, 0, 0, 0) = Inl Division_by_zero"
    by (simp add: list_shows_def)
  then show ?thesis using nl nt up by (simp add: copy_subset_to_def)
qed

theorem element_range_of_empty_lists_witness:
  "copy_subset_to (ail_view (ail_new 4 8)) ail_ops 2 0 0 (ail_new 4 8) = Inl Division_by_zero"
  using element_range_of_empty_lists [of 4 8 0 0] by simp

end
