(* ===== verification/ID_Selectors.thy ===== *)
theory ID_Selectors
  imports Loops
begin

text \<open>
  The id selectors (\<open>faiss/impl/IDSelector.h\<close>, \<open>IDSelector.cpp\<close> and \<open>IDSelectorTranslated\<close> of
  \<open>IndexIDMap.h\<close>): the class hierarchy is a datatype, \<open>is_member\<close> the virtual method. Ids are
  64-bit signed numbers kept as \<open>int\<close>; where the code looks at their bits the model does too.
\<close>

unbundle bit_operations_syntax

record id_batch =
  batch_set :: "idx_t set"
  bloom :: "8 word list"
  nbits :: nat
  batch_mask :: int

datatype id_selector =
    Sel_range idx_t idx_t
  | Sel_array "idx_t list"
  | Sel_batch id_batch
  | Sel_bitmap "8 word list"
  | Sel_not id_selector
  | Sel_all
  | Sel_and id_selector id_selector
  | Sel_or id_selector id_selector
  | Sel_xor id_selector id_selector
  | Sel_translated "idx_t list" id_selector
  | Sel_null        \<comment> \<open>a null pointer where one of the above is expected\<close>

subsection \<open>\<open>IDSelectorBatch\<close>: a set behind a Bloom filter\<close>

function batch_bits :: "nat \<Rightarrow> nat \<Rightarrow> nat" where
  "batch_bits n b = (if 2 ^ b < n then batch_bits n (b + 1) else b)"
  by pat_completeness auto
termination
  by (relation "measure (\<lambda>(n, b). n - 2 ^ b)") (auto intro!: diff_less_mono2)

declare batch_bits.simps [simp del]

definition bloom_add :: "int \<Rightarrow> idx_t \<Rightarrow> 8 word list \<Rightarrow> 8 word list result" where
  "bloom_add msk idx bl =
     (let im = idx AND msk; j = nat (drop_bit 3 im) in
      if j < length bl then Inr (bl[j := bl ! j OR push_bit (nat (im AND 7)) 1]) else Inl Out_of_bounds)"

definition batch_new :: "idx_t list \<Rightarrow> id_batch result" where
  "batch_new ids =
     (let b = batch_bits (length ids) 0 + 5; msk = 2 ^ b - 1 in
      bind_result (fold_result (bloom_add msk) ids (replicate (2 ^ (b - 3)) 0)) (\<lambda>bl.
        Inr \<lparr>batch_set = set ids, bloom = bl, nbits = b, batch_mask = msk\<rparr>))"

definition batch_member :: "id_batch \<Rightarrow> idx_t \<Rightarrow> bool result" where
  "batch_member b idx =
     (let im = idx AND batch_mask b; j = nat (drop_bit 3 im) in
      if \<not> j < length (bloom b) then Inl Out_of_bounds
      else Inr (bit (bloom b ! j) (nat (im AND 7)) \<and> idx \<in> batch_set b))"

subsection \<open>Membership\<close>

fun array_member :: "idx_t list \<Rightarrow> idx_t \<Rightarrow> bool" where
  "array_member [] idx = False"
| "array_member (x # xs) idx = (if x = idx then True else array_member xs idx)"

definition bitmap_member :: "8 word list \<Rightarrow> idx_t \<Rightarrow> bool" where
  "bitmap_member bitmap ii =
     (let i = (word_of_int ii :: 64 word) in
      if length bitmap \<le> unat (drop_bit 3 i) then False
      else drop_bit (unat (i AND 7)) (bitmap ! unat (drop_bit 3 i)) AND 1 = 1)"

fun is_member :: "id_selector \<Rightarrow> idx_t \<Rightarrow> bool result" where
  "is_member (Sel_range imin imax) idx = Inr (idx \<ge> imin \<and> idx < imax)"
| "is_member (Sel_array ids) idx = Inr (array_member ids idx)"
| "is_member (Sel_batch b) idx = batch_member b idx"
| "is_member (Sel_bitmap bm) idx = Inr (bitmap_member bm idx)"
| "is_member (Sel_not sel) idx = bind_result (is_member sel idx) (\<lambda>b. Inr (\<not> b))"
| "is_member Sel_all idx = Inr True"
| "is_member (Sel_and l r) idx = bind_result (is_member l idx) (\<lambda>b. if b then is_member r idx else Inr False)"
| "is_member (Sel_or l r) idx = bind_result (is_member l idx) (\<lambda>b. if b then Inr True else is_member r idx)"
| "is_member (Sel_xor l r) idx =
     bind_result (is_member l idx) (\<lambda>a. bind_result (is_member r idx) (\<lambda>b. Inr (a \<noteq> b)))"
| "is_member (Sel_translated id_map sel) idx =
     (if 0 \<le> idx \<and> nat idx < length id_map then is_member sel (id_map ! nat idx) else Inl Out_of_bounds)"
| "is_member Sel_null idx = Inl Null_pointer"

subsection \<open>\<open>find_sorted_ids_bounds\<close>\<close>

text \<open>The bisection loop: \<open>ids[j0]\<close> is below the bound and \<open>ids[j1]\<close>, if any, is not.\<close>

function bisect :: "idx_t list \<Rightarrow> idx_t \<Rightarrow> nat \<Rightarrow> nat \<Rightarrow> nat" where
  "bisect ids bound j0 j1 =
     (if j0 + 1 < j1 then
        let jmed = (j0 + j1) div 2 in
        if bound \<le> ids ! jmed then bisect ids bound j0 jmed else bisect ids bound jmed j1
      else j1)"
  by pat_completeness auto
termination
  by (relation "measure (\<lambda>(ids, bound, j0, j1). j1 - j0)") auto

declare bisect.simps [simp del]

definition find_sorted_ids_bounds :: "idx_t \<Rightarrow> idx_t \<Rightarrow> bool \<Rightarrow> idx_t list \<Rightarrow> (nat \<times> nat) result" where
  "find_sorted_ids_bounds imin imax assume_sorted ids =
     (if \<not> assume_sorted then Inl Assert_failed
      else if length ids = 0 \<or> imax \<le> ids ! 0 \<or> ids ! (length ids - 1) < imin then Inr (0, 0)
      else
        let jmin = (if imin \<le> ids ! 0 then 0 else bisect ids imin 0 (length ids));
            jmax = (if jmin = length ids \<or> imax \<le> ids ! jmin then jmin
                    else bisect ids imax jmin (length ids)) in
        Inr (jmin, jmax))"

section \<open>The Bloom filter has no false negatives\<close>

lemma batch_bits_ge: "b \<le> batch_bits n b"
  by (induction n b rule: batch_bits.induct) (subst batch_bits.simps, auto)

lemma and_mask_mod: "(idx :: int) AND (2 ^ b - 1) = idx mod 2 ^ b"
  by (metis take_bit_eq_mod take_bit_eq_mask mask_eq_exp_minus_1)

definition bloom_slot :: "nat \<Rightarrow> idx_t \<Rightarrow> nat" where
  "bloom_slot b idx = nat (idx mod 2 ^ b)"

lemma bloom_slot_less: "bloom_slot b idx < 2 ^ b"
  by (simp add: bloom_slot_def nat_less_iff)

lemma bloom_index:
  "nat (drop_bit 3 (idx AND (2 ^ b - 1))) = bloom_slot b idx div 8"
  "nat ((idx AND (2 ^ b - 1)) AND 7) = bloom_slot b idx mod 8"
proof -
  have nn: "0 \<le> idx mod 2 ^ b" by simp
  show "nat (drop_bit 3 (idx AND (2 ^ b - 1))) = bloom_slot b idx div 8"
    unfolding and_mask_mod bloom_slot_def drop_bit_eq_div by (simp add: nat_div_distrib nn)
  have "(x :: int) AND 7 = x mod 8" for x
    using and_mask_mod [of x 3] by simp
  then show "nat ((idx AND (2 ^ b - 1)) AND 7) = bloom_slot b idx mod 8"
    unfolding and_mask_mod bloom_slot_def by (simp add: nat_mod_distrib nn)
qed

lemma bloom_slot_in_range:
  assumes "3 \<le> b" shows "bloom_slot b idx div 8 < 2 ^ (b - 3)"
proof -
  have "(2 :: nat) ^ b = 2 ^ (b - 3) * 8" using assms power_add [of "2 :: nat" "b - 3" 3] by simp
  then show ?thesis using bloom_slot_less [of b idx] by (simp add: less_mult_imp_div_less)
qed

lemma bloom_add_fold:
  assumes "3 \<le> b" "length bl = 2 ^ (b - 3)"
  shows "\<exists>bl'. fold_result (bloom_add (2 ^ b - 1)) ids bl = Inr bl' \<and> length bl' = length bl
    \<and> (\<forall>s < 2 ^ b. bit (bl' ! (s div 8)) (s mod 8)
          = (bit (bl ! (s div 8)) (s mod 8) \<or> s \<in> bloom_slot b ` set ids))"
  using assms(2)
proof (induction ids arbitrary: bl)
  case (Cons x xs)
  let ?s = "bloom_slot b x"
  let ?bl = "bl[?s div 8 := bl ! (?s div 8) OR push_bit (?s mod 8) 1]"
  have e: "bloom_add (2 ^ b - 1) x bl = Inr ?bl"
    unfolding bloom_add_def Let_def bloom_index using bloom_slot_in_range [OF assms(1), of x] Cons.prems by simp
  have new: "bit (?bl ! (s div 8)) (s mod 8) = (bit (bl ! (s div 8)) (s mod 8) \<or> s = ?s)" if "s < 2 ^ b" for s
  proof -
    have "s = ?s \<longleftrightarrow> s div 8 = ?s div 8 \<and> s mod 8 = ?s mod 8" by (metis mult_div_mod_eq)
    moreover have "bit (push_bit q 1 :: 8 word) m = (m = q)" if "q < 8" "m < 8" for q m
      using that by (auto simp: bit_exp_iff)
    ultimately show ?thesis
      using bloom_slot_in_range [OF assms(1), of x] Cons.prems
      by (auto simp: nth_list_update bit_or_iff)
  qed
  have "length ?bl = 2 ^ (b - 3)" using Cons.prems by simp
  from Cons.IH [OF this] show ?case using e new by (auto simp del: bit_or_iff)
qed simp

lemma batch_new_member:
  "\<exists>b. batch_new ids = Inr b \<and> (\<forall>idx. batch_member b idx = Inr (idx \<in> set ids))"
proof -
  let ?b = "batch_bits (length ids) 0 + 5"
  obtain bl where bl: "fold_result (bloom_add (2 ^ ?b - 1)) ids (replicate (2 ^ (?b - 3)) 0) = Inr bl"
    "length bl = 2 ^ (?b - 3)"
    "\<And>s. s < 2 ^ ?b \<Longrightarrow> bit (bl ! (s div 8)) (s mod 8)
        = (bit (replicate (2 ^ (?b - 3)) 0 ! (s div 8) :: 8 word) (s mod 8) \<or> s \<in> bloom_slot ?b ` set ids)"
    using bloom_add_fold [of ?b "replicate (2 ^ (?b - 3)) 0" ids] by fastforce
  let ?r = "\<lparr>batch_set = set ids, bloom = bl, nbits = ?b, batch_mask = 2 ^ ?b - 1\<rparr>"
  have "batch_member ?r idx = Inr (idx \<in> set ids)" for idx
  proof -
    have j: "bloom_slot ?b idx div 8 < length bl"
      using bloom_slot_in_range [of ?b idx] bl(2) by simp
    have "bit (bl ! (bloom_slot ?b idx div 8)) (bloom_slot ?b idx mod 8)" if "idx \<in> set ids"
      using that bl(3) [OF bloom_slot_less, of idx] by blast
    then show ?thesis using j unfolding batch_member_def Let_def id_batch.simps bloom_index by auto
  qed
  moreover have "batch_new ids = Inr ?r" unfolding batch_new_def Let_def bl(1) by simp
  ultimately show ?thesis by blast
qed

section \<open>What a selector selects\<close>

fun selection :: "id_selector \<Rightarrow> idx_t set" where
  "selection (Sel_range imin imax) = {imin..<imax}"
| "selection (Sel_array ids) = set ids"
| "selection (Sel_batch b) = batch_set b"
| "selection (Sel_bitmap bm) = {idx. 0 \<le> idx \<and> nat idx < 8 * length bm \<and> bit (bm ! (nat idx div 8)) (nat idx mod 8)}"
| "selection (Sel_not sel) = - selection sel"
| "selection Sel_all = UNIV"
| "selection (Sel_and l r) = selection l \<inter> selection r"
| "selection (Sel_or l r) = selection l \<union> selection r"
| "selection (Sel_xor l r) = (selection l - selection r) \<union> (selection r - selection l)"
| "selection (Sel_translated id_map sel) = {idx. 0 \<le> idx \<and> nat idx < length id_map \<and> id_map ! nat idx \<in> selection sel}"
| "selection Sel_null = {}"

text \<open>
  The calls a selector is made for: batches come from the constructor, bitmaps are shorter than
  \<open>2 ^ 60\<close> bytes and asked about 64-bit ids, translated ids are positions of the map.
\<close>

fun askable :: "id_selector \<Rightarrow> idx_t \<Rightarrow> bool" where
  "askable (Sel_batch b) idx = (\<exists>ids. batch_new ids = Inr b)"
| "askable (Sel_bitmap bm) idx = (length bm < 2 ^ 60 \<and> - (2 ^ 63) \<le> idx \<and> idx < 2 ^ 63)"
| "askable (Sel_not sel) idx = askable sel idx"
| "askable (Sel_and l r) idx = (askable l idx \<and> askable r idx)"
| "askable (Sel_or l r) idx = (askable l idx \<and> askable r idx)"
| "askable (Sel_xor l r) idx = (askable l idx \<and> askable r idx)"
| "askable (Sel_translated id_map sel) idx =
     (0 \<le> idx \<and> nat idx < length id_map \<and> askable sel (id_map ! nat idx))"
| "askable Sel_null idx = False"
| "askable _ idx = True"

lemma array_member_set: "array_member ids idx = (idx \<in> set ids)"
  by (induction ids) auto

lemma batch_set_new: "batch_new ids = Inr b \<Longrightarrow> batch_set b = set ids"
  by (auto simp: batch_new_def Let_def bind_result_Inr_iff)

lemma bitmap_member_iff:
  assumes "length bm < 2 ^ 60" "- (2 ^ 63) \<le> idx" "idx < 2 ^ 63"
  shows "bitmap_member bm idx = (idx \<in> selection (Sel_bitmap bm))"
proof -
  let ?i = "word_of_int idx :: 64 word"
  have "?i AND 7 = take_bit 3 ?i" unfolding take_bit_eq_mask by (simp add: mask_eq_exp_minus_1)
  then have "unat (?i AND 7) = take_bit 3 (unat ?i)" by (simp only: unsigned_take_bit_eq)
  then have seven: "unat (?i AND 7) = unat ?i mod 8" by (simp only: take_bit_eq_mod) simp
  have three: "unat (drop_bit 3 ?i) = unat ?i div 8" by (simp add: unat_drop_bit_eq drop_bit_nat_def)
  have one: "(w AND 1 = 1) = odd w" for w :: "8 word" by (simp add: and_one_eq odd_iff_mod_2_eq_one)
  have u: "unat ?i = nat (idx mod 2 ^ 64)" by (simp add: unat_eq_nat_uint uint_word_of_int)
  show ?thesis
  proof (cases "0 \<le> idx")
    case True
    then have "unat ?i = nat idx" using assms(3) u by simp
    then show ?thesis using True
      by (auto simp: bitmap_member_def Let_def seven three one bit_iff_odd_drop_bit not_le less_mult_imp_div_less)
  next
    case False
    then have "(idx + 2 ^ 64) mod 2 ^ 64 = idx + 2 ^ 64" using assms(2) by (intro mod_pos_pos_trivial) simp_all
    then have "idx mod 2 ^ 64 = idx + 2 ^ 64" by simp
    then have "unat ?i = nat (idx + 2 ^ 64)" using u by simp
    then have "2 ^ 63 \<le> unat ?i" using assms(2) by simp
    then have "2 ^ 60 \<le> unat ?i div 8" using div_le_mono [of "2 ^ 63" "unat ?i" 8] by simp
    then show ?thesis using False assms(1) by (simp add: bitmap_member_def Let_def three)
  qed
qed

lemma is_member_selection:
  assumes "askable sel idx"
  shows "is_member sel idx = Inr (idx \<in> selection sel)"
  using assms
proof (induction sel arbitrary: idx)
  case (Sel_batch b)
  then obtain ids where "batch_new ids = Inr b" by auto
  moreover obtain b' where "batch_new ids = Inr b'" "\<forall>idx. batch_member b' idx = Inr (idx \<in> set ids)"
    using batch_new_member by blast
  ultimately show ?case by (simp add: batch_set_new)
next
  case (Sel_bitmap bm)
  then show ?case using bitmap_member_iff [of bm idx] by simp
qed (auto simp: array_member_set)

section \<open>Bisection\<close>

lemma bisect_bounds:
  assumes "sorted ids" "j0 < j1" "j1 \<le> length ids" "ids ! j0 < bound"
    and "\<And>j. j1 \<le> j \<Longrightarrow> j < length ids \<Longrightarrow> bound \<le> ids ! j"
  shows "j0 < bisect ids bound j0 j1 \<and> bisect ids bound j0 j1 \<le> length ids
    \<and> (\<forall>j < length ids. bisect ids bound j0 j1 \<le> j \<longleftrightarrow> bound \<le> ids ! j)"
  using assms
proof (induction ids bound j0 j1 rule: bisect.induct)
  case (1 ids bound j0 j1)
  show ?case
  proof (cases "j0 + 1 < j1")
    case loop: True
    let ?m = "(j0 + j1) div 2"
    have m: "j0 < ?m" "?m < j1" using loop by simp_all
    show ?thesis
    proof (cases "bound \<le> ids ! ?m")
      case True
      have "bound \<le> ids ! j" if "?m \<le> j" "j < length ids" for j
        using True sorted_nth_mono [OF "1.prems"(1) that] by simp
      then have "j0 < bisect ids bound j0 ?m \<and> bisect ids bound j0 ?m \<le> length ids
          \<and> (\<forall>j < length ids. bisect ids bound j0 ?m \<le> j \<longleftrightarrow> bound \<le> ids ! j)"
        using "1.IH"(1) [OF loop refl True] "1.prems" m by simp
      then show ?thesis using loop True by (simp add: bisect.simps [of ids bound j0 j1] Let_def)
    next
      case False
      then have "?m < bisect ids bound ?m j1 \<and> bisect ids bound ?m j1 \<le> length ids
          \<and> (\<forall>j < length ids. bisect ids bound ?m j1 \<le> j \<longleftrightarrow> bound \<le> ids ! j)"
        using "1.IH"(2) [OF loop refl False] "1.prems" m by simp
      then show ?thesis using loop False m by (simp add: bisect.simps [of ids bound j0 j1] Let_def)
    qed
  next
    case False
    then have j1: "j1 = j0 + 1" using "1.prems"(2) by simp
    have "ids ! j < bound" if "j < j1" "j < length ids" for j
      using sorted_nth_mono [OF "1.prems"(1), of j j0] that j1 "1.prems" by fastforce
    then show ?thesis using False "1.prems" by (force simp: bisect.simps [of ids bound j0 j1] not_less [symmetric])
  qed
qed

section \<open>Properties\<close>

text \<open>
  C37. Every selector built from the classes of the library answers \<open>is_member\<close> by membership in
  the set it stands for: the Bloom filter of \<open>IDSelectorBatch\<close> loses no id and lets no other in,
  a bitmap ignores negative ids and ids past its end, the combinators are the set operations.
\<close>

theorem selector_membership:
  assumes "askable sel idx"
  shows "is_member sel idx = Inr (idx \<in> selection sel)"
  using assms by (rule is_member_selection)

theorem selector_membership_witness:
  "\<exists>b. batch_new [3, 70000, -5] = Inr b
   \<and> is_member (Sel_xor (Sel_not (Sel_translated [7, -5, 9] (Sel_batch b))) (Sel_bitmap [2])) 1 = Inr True"
proof -
  obtain b where b: "batch_new [3, 70000, -5] = Inr b" using batch_new_member by blast
  then have "askable (Sel_xor (Sel_not (Sel_translated [7, -5, 9] (Sel_batch b))) (Sel_bitmap [2])) 1" by auto
  from selector_membership [OF this] batch_set_new [OF b] show ?thesis using b by simp
qed

text \<open>
  \<open>find_sorted_ids_bounds\<close> on a sorted list of ids returns the range of positions that hold
  the ids of the selector, and no others.
\<close>

theorem sorted_ids_bounds:
  assumes "sorted ids"
  shows "\<exists>jmin jmax. find_sorted_ids_bounds imin imax True ids = Inr (jmin, jmax)
    \<and> jmin \<le> jmax \<and> jmax \<le> length ids
    \<and> (\<forall>j < length ids. (jmin \<le> j \<and> j < jmax) = (is_member (Sel_range imin imax) (ids ! j) = Inr True))"
proof (cases "ids = [] \<or> imax \<le> ids ! 0 \<or> ids ! (length ids - 1) < imin")
  case True
  have "\<not> (imin \<le> ids ! j \<and> ids ! j < imax)" if "j < length ids" for j
  proof -
    have "ids ! 0 \<le> ids ! j" "ids ! j \<le> ids ! (length ids - 1)"
      using that by (auto intro!: sorted_nth_mono [OF assms])
    then show ?thesis using True that by auto
  qed
  then show ?thesis using True by (auto simp: find_sorted_ids_bounds_def)
next
  case False
  let ?n = "length ids"
  define jmin where "jmin = (if imin \<le> ids ! 0 then 0 else bisect ids imin 0 ?n)"
  have jmin: "jmin \<le> ?n" "\<And>j. j < ?n \<Longrightarrow> jmin \<le> j \<longleftrightarrow> imin \<le> ids ! j"
    using bisect_bounds [OF assms, of 0 ?n imin] sorted_nth_mono [OF assms, of 0] False
    by (force simp: jmin_def split: if_splits)+
  define jmax where "jmax = (if jmin = ?n \<or> imax \<le> ids ! jmin then jmin else bisect ids imax jmin ?n)"
  have jmax: "jmin \<le> jmax" "jmax \<le> ?n"
    "\<And>j. j < ?n \<Longrightarrow> jmin \<le> j \<Longrightarrow> j < jmax \<longleftrightarrow> ids ! j < imax"
  proof -
    show "jmin \<le> jmax" "jmax \<le> ?n"
      using bisect_bounds [OF assms, of jmin ?n imax] jmin(1) by (auto simp: jmax_def)
    show "j < jmax \<longleftrightarrow> ids ! j < imax" if "j < ?n" "jmin \<le> j" for j
      using bisect_bounds [OF assms, of jmin ?n imax] that jmin(1) sorted_nth_mono [OF assms, of jmin j]
      by (force simp: jmax_def not_le [symmetric])
  qed
  have "find_sorted_ids_bounds imin imax True ids = Inr (jmin, jmax)"
    using False by (simp add: find_sorted_ids_bounds_def Let_def jmin_def [symmetric] jmax_def [symmetric])
  moreover have "(jmin \<le> j \<and> j < jmax) = (imin \<le> ids ! j \<and> ids ! j < imax)" if "j < ?n" for j
    using jmin(2) [OF that] jmax(3) [OF that] by blast
  ultimately show ?thesis using jmax(1,2) by auto
qed

theorem sorted_ids_bounds_witness:
  "find_sorted_ids_bounds 4 9 True [1, 3, 4, 4, 8, 9, 12] = Inr (2, 5)"
proof -
  obtain a b where ab: "find_sorted_ids_bounds 4 9 True [1, 3, 4, 4, 8, 9, 12] = Inr (a, b)"
    using sorted_ids_bounds [of "[1, 3, 4, 4, 8, 9, 12]" 4 9] by auto
  moreover have "find_sorted_ids_bounds 4 9 True [1, 3, 4, 4, 8, 9, 12] = Inr (2, 5)" by code_simp
  ultimately show ?thesis by simp
qed

end
