(* ===== verification/Direct_Map.thy ===== *)
theory Direct_Map
  imports Array_Invlists ID_Selectors
begin

text \<open>
  \<open>DirectMap\<close> (\<open>faiss/invlists/DirectMap.h\<close>, \<open>DirectMap.cpp\<close>): where the entry of an id is in the
  inverted lists, as an array (ids \<open>0, 1, ...\<close>) or a hash table, kept up to date while entries
  are removed and replaced. List number and offset are packed in one 64-bit word.
\<close>

unbundle bit_operations_syntax

section \<open>List-offset words\<close>

definition lo_build :: "nat \<Rightarrow> nat \<Rightarrow> idx_t" where
  "lo_build list_id offset = sint (push_bit 32 (of_nat list_id :: 64 word) OR of_nat offset)"

definition lo_listno :: "idx_t \<Rightarrow> nat" where
  "lo_listno lo = unat (drop_bit 32 (word_of_int lo :: 64 word))"

definition lo_offset :: "idx_t \<Rightarrow> nat" where
  "lo_offset lo = unat ((word_of_int lo :: 64 word) AND 0xffffffff)"

section \<open>The map\<close>

datatype dm_type = NoMap | Array_map | Hashtable

record direct_map =
  dm_type :: dm_type
  dm_array :: "idx_t list"
  dm_hash :: "idx_t \<rightharpoonup> idx_t"

definition dm_new :: direct_map where
  "dm_new = \<lparr>dm_type = NoMap, dm_array = [], dm_hash = Map.empty\<rparr>"

definition dm_clear :: "direct_map \<Rightarrow> direct_map" where
  "dm_clear dm = dm\<lparr>dm_array := [], dm_hash := Map.empty\<rparr>"

text \<open>\<open>set_type\<close>: the entries of one list, then all lists. The ids are read for either type.\<close>

fun index_entry :: "dm_type \<Rightarrow> nat \<Rightarrow> nat \<Rightarrow> nat \<times> idx_t \<Rightarrow> direct_map \<Rightarrow> direct_map result" where
  "index_entry t ntotal key (ofs, idx) dm =
     (if t = Array_map then
        if \<not> (0 \<le> idx \<and> idx < int ntotal) then Inl (Throw ''direct map supported only for sequential ids'')
        else Inr (dm\<lparr>dm_array := (dm_array dm)[nat idx := lo_build key ofs]\<rparr>)
      else Inr (dm\<lparr>dm_hash := (dm_hash dm)(idx \<mapsto> lo_build key ofs)\<rparr>))"

definition index_list :: "dm_type \<Rightarrow> nat \<Rightarrow> il_view \<Rightarrow> nat \<Rightarrow> direct_map \<Rightarrow> direct_map result" where
  "index_list t ntotal v key dm =
     bind_result (il_size v key) (\<lambda>n.
     bind_result (il_ids v key) (\<lambda>idlist.
       fold_result (index_entry t ntotal key) (zip [0..<n] idlist) dm))"

definition set_type :: "dm_type \<Rightarrow> il_view \<Rightarrow> nat \<Rightarrow> direct_map \<Rightarrow> direct_map result" where
  "set_type new_type v ntotal dm =
     (if new_type = dm_type dm then Inr dm
      else
        let dm = dm\<lparr>dm_array := [], dm_hash := Map.empty, dm_type := new_type\<rparr> in
        if new_type = NoMap then Inr dm
        else
          let dm = (if new_type = Array_map then dm\<lparr>dm_array := replicate ntotal (-1)\<rparr> else dm) in
          fold_result (index_list new_type ntotal v) [0..<il_nlist v] dm)"

definition dm_get :: "idx_t \<Rightarrow> direct_map \<Rightarrow> idx_t result" where
  "dm_get key dm =
     (case dm_type dm of
        Array_map \<Rightarrow>
          if \<not> (0 \<le> key \<and> nat key < length (dm_array dm)) then Inl (Throw ''invalid key'')
          else
            let lo = dm_array dm ! nat key in
            if \<not> 0 \<le> lo then Inl (Throw ''-1 entry in direct_map'') else Inr lo
      | Hashtable \<Rightarrow> (case dm_hash dm key of None \<Rightarrow> Inl (Throw ''key not found'') | Some lo \<Rightarrow> Inr lo)
      | NoMap \<Rightarrow> Inl (Throw ''direct map not initialized''))"

definition add_single_id :: "idx_t \<Rightarrow> int \<Rightarrow> nat \<Rightarrow> direct_map \<Rightarrow> direct_map result" where
  "add_single_id idx list_no offset dm =
     (case dm_type dm of
        NoMap \<Rightarrow> Inr dm
      | Array_map \<Rightarrow>
          if idx \<noteq> int (length (dm_array dm)) then Inl Assert_failed
          else Inr (dm\<lparr>dm_array := dm_array dm @ [if 0 \<le> list_no then lo_build (nat list_no) offset else -1]\<rparr>)
      | Hashtable \<Rightarrow>
          Inr (if 0 \<le> list_no then dm\<lparr>dm_hash := (dm_hash dm)(idx \<mapsto> lo_build (nat list_no) offset)\<rparr> else dm))"

definition check_can_add :: "idx_t list option \<Rightarrow> direct_map \<Rightarrow> unit result" where
  "check_can_add ids dm =
     (if dm_type dm = Array_map \<and> ids \<noteq> None then Inl (Throw ''cannot have array direct map and add with ids'')
      else Inr ())"

section \<open>\<open>DirectMapAdd\<close>\<close>

text \<open>The member \<open>ntotal\<close> is only set for arrays; \<open>None\<close> is a member that no constructor has set.\<close>

record direct_map_add =
  dma_ntotal :: "nat option"
  dma_n :: nat
  dma_xids :: "idx_t list option"
  dma_all_ofs :: "idx_t list"

definition dma_new :: "direct_map \<Rightarrow> nat \<Rightarrow> idx_t list option \<Rightarrow> (direct_map_add \<times> direct_map) result" where
  "dma_new dm n xids =
     (let a = \<lparr>dma_ntotal = None, dma_n = n, dma_xids = xids, dma_all_ofs = []\<rparr> in
      case dm_type dm of
        Array_map \<Rightarrow>
          if xids \<noteq> None then Inl (Throw ''xids == nullptr'')
          else Inr (a\<lparr>dma_ntotal := Some (length (dm_array dm))\<rparr>,
                    dm\<lparr>dm_array := resize (length (dm_array dm) + n) (-1) (dm_array dm)\<rparr>)
      | Hashtable \<Rightarrow> Inr (a\<lparr>dma_all_ofs := replicate n (-1)\<rparr>, dm)
      | NoMap \<Rightarrow> Inr (a, dm))"

definition dma_add ::
  "nat \<Rightarrow> nat \<Rightarrow> nat \<Rightarrow> direct_map_add \<times> direct_map \<Rightarrow> (direct_map_add \<times> direct_map) result" where
  "dma_add i list_no ofs st =
     (let a = fst st; dm = snd st in
      case dm_type dm of
        Array_map \<Rightarrow> (case dma_ntotal a of
            None \<Rightarrow> Inl Uninitialised
          | Some nt \<Rightarrow>
              if nt + i < length (dm_array dm) then Inr (a, dm\<lparr>dm_array := (dm_array dm)[nt + i := lo_build list_no ofs]\<rparr>)
              else Inl Out_of_bounds)
      | Hashtable \<Rightarrow>
          if i < length (dma_all_ofs a) then Inr (a\<lparr>dma_all_ofs := (dma_all_ofs a)[i := lo_build list_no ofs]\<rparr>, dm)
          else Inl Out_of_bounds
      | NoMap \<Rightarrow> Inr st)"

text \<open>The destructor.\<close>

definition dma_id :: "direct_map_add \<Rightarrow> nat \<Rightarrow> idx_t result" where
  "dma_id a i =
     (case dma_xids a of
        Some xids \<Rightarrow> if i < length xids then Inr (xids ! i) else Inl Out_of_bounds
      | None \<Rightarrow> (case dma_ntotal a of None \<Rightarrow> Inl Uninitialised | Some nt \<Rightarrow> Inr (int (nt + i))))"

definition dma_finish :: "direct_map_add \<times> direct_map \<Rightarrow> direct_map result" where
  "dma_finish st =
     (let a = fst st in
      if dm_type (snd st) = Hashtable then
        fold_result (\<lambda>i dm. bind_result (dma_id a i) (\<lambda>idx.
          Inr (dm\<lparr>dm_hash := (dm_hash dm)(idx \<mapsto> dma_all_ofs a ! i)\<rparr>))) [0..<dma_n a] (snd st)
      else Inr (snd st))"

section \<open>Operations on inverted lists\<close>

text \<open>
  \<open>remove_ids\<close> without a map: in each list the last entry replaces a removed one; the lists are
  cut afterwards. The container is not a \<open>BlockInvertedLists\<close>.
\<close>

function remove_scan ::
  "'s il_ops \<Rightarrow> (idx_t \<Rightarrow> bool result) \<Rightarrow> nat \<Rightarrow> nat \<Rightarrow> nat \<Rightarrow> 's \<Rightarrow> ('s \<times> nat) result" where
  "remove_scan ops sel i j l s =
     (if j < l then
        bind_result (il_ids (il_view_of ops s) i) (\<lambda>idsi.
        bind_result (sel (idsi ! j)) (\<lambda>b.
        if b then
          bind_result (il_single_id (il_view_of ops s) i (l - 1)) (\<lambda>x.
          bind_result (il_single_code (il_view_of ops s) i (l - 1)) (\<lambda>c.
          bind_result (update_entry ops i j x c s) (\<lambda>s.
            remove_scan ops sel i j (l - 1) s)))
        else remove_scan ops sel i (j + 1) l s))
      else Inr (s, l))"
  by pat_completeness auto
termination
  by (relation "measure (\<lambda>(ops, sel, i, j, l, s). l - j)") auto

declare remove_scan.simps [simp del]

fun scan_lists ::
  "'s il_ops \<Rightarrow> (idx_t \<Rightarrow> bool result) \<Rightarrow> nat list \<Rightarrow> 's \<Rightarrow> ('s \<times> nat list) result" where
  "scan_lists ops sel [] s = Inr (s, [])"
| "scan_lists ops sel (i # is) s =
     bind_result (il_size (il_view_of ops s) i) (\<lambda>l0.
     bind_result (remove_scan ops sel i 0 l0 s) (\<lambda>(s, l).
     bind_result (scan_lists ops sel is s) (\<lambda>(s, toremove). Inr (s, (l0 - l) # toremove))))"

fun cut_lists :: "'s il_ops \<Rightarrow> nat \<Rightarrow> nat list \<Rightarrow> nat \<Rightarrow> 's \<Rightarrow> ('s \<times> nat) result" where
  "cut_lists ops i [] nremove s = Inr (s, nremove)"
| "cut_lists ops i (r # rs) nremove s =
     (if 0 < r then
        bind_result (il_size (il_view_of ops s) i) (\<lambda>n.
        bind_result (il_resize ops i (n - r) s) (\<lambda>s. cut_lists ops (i + 1) rs (nremove + r) s))
      else cut_lists ops (i + 1) rs nremove s)"

text \<open>With a hash table: the ids of an \<open>IDSelectorArray\<close>, one by one.\<close>

fun remove_hashed ::
  "'s il_ops \<Rightarrow> idx_t \<Rightarrow> 's \<times> direct_map \<times> nat \<Rightarrow> ('s \<times> direct_map \<times> nat) result" where
  "remove_hashed ops idx (s, dm, nremove) =
     (case dm_hash dm idx of
        None \<Rightarrow> Inr (s, dm, nremove)
      | Some lo \<Rightarrow>
          let list_no = lo_listno lo; offset = lo_offset lo in
          bind_result (il_size (il_view_of ops s) list_no) (\<lambda>n.
          let last_ofs = int n - 1; dm = dm\<lparr>dm_hash := (dm_hash dm)(idx := None)\<rparr> in
          bind_result
            (if int offset < last_ofs then
               bind_result (il_single_id (il_view_of ops s) list_no (n - 1)) (\<lambda>last_id.
               bind_result (il_single_code (il_view_of ops s) list_no (n - 1)) (\<lambda>c.
               bind_result (update_entry ops list_no offset last_id c s) (\<lambda>s.
                 Inr (s, dm\<lparr>dm_hash := (dm_hash dm)(last_id \<mapsto> lo_build list_no offset)\<rparr>))))
             else Inr (s, dm)) (\<lambda>(s, dm).
          bind_result (il_resize ops list_no (n - 1) s) (\<lambda>s. Inr (s, dm, nremove + 1)))))"

definition dm_remove_ids ::
  "'s il_ops \<Rightarrow> id_selector \<Rightarrow> 's \<Rightarrow> direct_map \<Rightarrow> ('s \<times> direct_map \<times> nat) result" where
  "dm_remove_ids ops sel s dm =
     (case dm_type dm of
        NoMap \<Rightarrow>
          bind_result (scan_lists ops (is_member sel) [0..<il_nlist (il_view_of ops s)] s) (\<lambda>(s, toremove).
          bind_result (cut_lists ops 0 toremove 0 s) (\<lambda>(s, n). Inr (s, dm, n)))
      | Hashtable \<Rightarrow>
          (case sel of
             Sel_array ids \<Rightarrow> fold_result (remove_hashed ops) ids (s, dm, 0)
           | _ \<Rightarrow> Inl (Throw ''remove with hashtable works only with IDSelectorArray''))
      | Array_map \<Rightarrow> Inl (Throw ''remove not supported with this direct_map format''))"

text \<open>\<open>update_codes\<close>: the entry of each id leaves its list and a new one goes to the end of list \<open>assign[i]\<close>.\<close>

definition update_code ::
  "'s il_ops \<Rightarrow> idx_t \<times> nat \<times> 8 word list \<Rightarrow> 's \<times> direct_map \<Rightarrow> ('s \<times> direct_map) result" where
  "update_code ops e st =
     (let idx = fst e; il' = fst (snd e); code = snd (snd e); s = fst st; dm = snd st in
      if \<not> (0 \<le> idx \<and> nat idx < length (dm_array dm)) then Inl (Throw ''id to update out of range'')
      else
        let lo = dm_array dm ! nat idx; ofs = lo_offset lo; il = lo_listno lo in
        bind_result (il_size (il_view_of ops s) il) (\<lambda>l.
        bind_result
          (if int ofs \<noteq> int l - 1 then
             bind_result (il_single_id (il_view_of ops s) il (l - 1)) (\<lambda>id2.
             if \<not> (0 \<le> id2 \<and> nat id2 < length (dm_array dm)) then Inl Out_of_bounds
             else
               let dm = dm\<lparr>dm_array := (dm_array dm)[nat id2 := lo_build il ofs]\<rparr> in
               bind_result (il_single_code (il_view_of ops s) il (l - 1)) (\<lambda>c.
               bind_result (update_entry ops il ofs id2 c s) (\<lambda>s. Inr (s, dm))))
           else Inr (s, dm)) (\<lambda>(s, dm).
        bind_result (il_resize ops il (l - 1) s) (\<lambda>s.
        bind_result (il_size (il_view_of ops s) il') (\<lambda>l'.
        let dm = dm\<lparr>dm_array := (dm_array dm)[nat idx := lo_build il' l']\<rparr> in
        bind_result (add_entry ops il' idx code s) (\<lambda>(s, _). Inr (s, dm)))))))"

definition update_codes ::
  "'s il_ops \<Rightarrow> (idx_t \<times> nat \<times> 8 word list) list \<Rightarrow> 's \<Rightarrow> direct_map \<Rightarrow> ('s \<times> direct_map) result" where
  "update_codes ops es s dm =
     (if dm_type dm \<noteq> Array_map then Inl (Throw ''type == Array'')
      else fold_result (update_code ops) es (s, dm))"

end
