(* ===== verification/Direct_Map_Correct.thy ===== *)
theory Direct_Map_Correct
  imports Direct_Map
begin

text \<open>
  The direct map is consistent with the inverted lists: it sends the id of every entry to the place
  of the entry and no other id anywhere. \<open>set_type\<close> establishes this, \<open>remove_ids\<close> and
  \<open>update_codes\<close> keep it; the proofs are about two steps on abstract lists, taking an entry out and
  adding one at the end.
\<close>

unbundle bit_operations_syntax

section \<open>List-offset words\<close>

lemma lo_word:
  assumes "l < 2 ^ 32" "o' < 2 ^ 32"
  shows "unat (push_bit 32 (of_nat l :: 64 word) OR of_nat o') = l * 2 ^ 32 + o'"
proof -
  let ?a = "of_nat l :: 64 word" let ?b = "of_nat o' :: 64 word"
  have u: "unat ?a = l" "unat ?b = o'" using assms by (simp_all add: unat_of_nat)
  have "push_bit 32 ?a AND ?b = 0"
  proof (rule bit_eqI)
    fix k
    have "take_bit 32 ?b = ?b"
      using assms(2) u(2) by (simp add: word_unat_eq_iff unsigned_take_bit_eq take_bit_nat_eq_self)
    then have "bit ?b k \<Longrightarrow> k < 32" by (metis bit_take_bit_iff)
    then show "bit (push_bit 32 ?a AND ?b) k = bit 0 k" by (auto simp: bit_and_iff bit_push_bit_iff)
  qed
  then have "push_bit 32 ?a OR ?b = push_bit 32 ?a + ?b" by (simp add: disjunctive_add_eq_or)
  moreover have p: "unat (push_bit 32 ?a) = l * 2 ^ 32"
    using assms(1) u(1) by (simp add: push_bit_eq_mult unat_word_ariths)
  moreover have "unat (push_bit 32 ?a + ?b) = unat (push_bit 32 ?a) + unat ?b"
    unfolding unat_word_ariths p u using assms by simp
  ultimately show ?thesis using u by simp
qed

lemma lo_parts:
  assumes "l < 2 ^ 32" "o' < 2 ^ 32"
  shows "lo_listno (lo_build l o') = l" "lo_offset (lo_build l o') = o'"
proof -
  let ?w = "push_bit 32 (of_nat l :: 64 word) OR of_nat o'"
  have w: "word_of_int (lo_build l o') = ?w" by (simp add: lo_build_def)
  have u: "unat ?w = l * 2 ^ 32 + o'" by (rule lo_word [OF assms])
  show "lo_listno (lo_build l o') = l"
    unfolding lo_listno_def w unat_drop_bit_eq u drop_bit_nat_def using assms(2) by simp
  have "(0xffffffff :: 64 word) = mask 32" by (simp add: mask_eq_exp_minus_1)
  then have "?w AND 0xffffffff = take_bit 32 ?w" by (simp only: take_bit_eq_mask)
  then have "unat (?w AND 0xffffffff) = take_bit 32 (unat ?w)" by (simp only: unsigned_take_bit_eq)
  then show "lo_offset (lo_build l o') = o'"
    unfolding lo_offset_def w using u assms(2) by (simp only: take_bit_eq_mod) simp
qed

lemma lo_nonneg: "l < 2 ^ 31 \<Longrightarrow> o' < 2 ^ 32 \<Longrightarrow> 0 \<le> lo_build l o'"
proof -
  assume a: "l < 2 ^ 31" "o' < 2 ^ 32"
  let ?w = "push_bit 32 (of_nat l :: 64 word) OR of_nat o'"
  have u: "unat ?w = l * 2 ^ 32 + o'" using a by (intro lo_word) simp_all
  have "unat ?w < 2 ^ 63" using u a by simp
  then have "uint ?w < 2 ^ 63" unfolding unat_eq_nat_uint by (simp only: nat_less_iff [OF uint_ge_0]) simp
  then have "take_bit 63 (uint ?w) = uint ?w" by (intro take_bit_int_eq_self) simp_all
  then have "\<not> bit (uint ?w) 63" by (metis bit_take_bit_iff less_irrefl)
  moreover have "sint ?w = signed_take_bit 63 (uint ?w)" unfolding sint_uint by simp
  ultimately show "0 \<le> lo_build l o'" unfolding lo_build_def by (metis signed_take_bit_nonnegative_iff)
qed

section \<open>Consistency\<close>

definition located :: "entry list list \<Rightarrow> nat \<Rightarrow> nat \<Rightarrow> idx_t \<Rightarrow> bool" where
  "located M i k idx \<longleftrightarrow> i < length M \<and> k < length (M ! i) \<and> fst (M ! i ! k) = idx"

definition consistent :: "entry list list \<Rightarrow> (idx_t \<rightharpoonup> idx_t) \<Rightarrow> bool" where
  "consistent M h \<longleftrightarrow> (\<forall>i k idx. located M i k idx \<longrightarrow> h idx = Some (lo_build i k))
     \<and> (\<forall>idx lo. h idx = Some lo \<longrightarrow> (\<exists>i k. located M i k idx \<and> lo = lo_build i k))"

lemma consistentD: "consistent M h \<Longrightarrow> located M i k idx \<Longrightarrow> h idx = Some (lo_build i k)"
  unfolding consistent_def by blast

lemma consistentE: "consistent M h \<Longrightarrow> h idx = Some lo \<Longrightarrow> \<exists>i k. located M i k idx \<and> lo = lo_build i k"
  unfolding consistent_def by blast

text \<open>List numbers and offsets fit their halves of the word, and words are not negative.\<close>

definition fits :: "entry list list \<Rightarrow> bool" where
  "fits M \<longleftrightarrow> length M \<le> 2 ^ 31 \<and> (\<forall>es \<in> set M. length es \<le> 2 ^ 32)"

lemma fits_length: "fits M \<Longrightarrow> i < length M \<Longrightarrow> length (M ! i) \<le> 2 ^ 32"
  unfolding fits_def by (blast dest: nth_mem)

lemma fits_located: "fits M \<Longrightarrow> located M i k idx \<Longrightarrow> i < 2 ^ 31 \<and> k < 2 ^ 32"
proof -
  assume M: "fits M" and l: "located M i k idx"
  then have "length (M ! i) \<le> 2 ^ 32" by (intro fits_length) (simp_all add: located_def)
  moreover have "length M \<le> 2 ^ 31" "i < length M" "k < length (M ! i)"
    using M l by (simp_all add: fits_def located_def)
  ultimately show "i < 2 ^ 31 \<and> k < 2 ^ 32" by linarith
qed

lemma fits_parts:
  "fits M \<Longrightarrow> located M i k idx \<Longrightarrow> lo_listno (lo_build i k) = i \<and> lo_offset (lo_build i k) = k"
  using fits_located [of M i k idx] lo_parts [of i k] by simp

lemma located_unique:
  assumes "consistent M h" "fits M" "located M i k idx" "located M i' k' idx"
  shows "i' = i \<and> k' = k"
proof -
  have "lo_build i' k' = lo_build i k" using consistentD [OF assms(1,3)] consistentD [OF assms(1,4)] by simp
  then show ?thesis using fits_parts [OF assms(2,3)] fits_parts [OF assms(2,4)] by metis
qed

text \<open>Taking entry \<open>k\<close> out: the last entry takes its place.\<close>

definition swap_out :: "nat \<Rightarrow> 'a list \<Rightarrow> 'a list" where
  "swap_out k es = take (length es - 1) (es[k := es ! (length es - 1)])"

lemma length_swap_out [simp]: "length (swap_out k es) = length es - 1"
  by (simp add: swap_out_def)

lemma nth_swap_out:
  "j < length es - 1 \<Longrightarrow> k < length es \<Longrightarrow> swap_out k es ! j = (if j = k then es ! (length es - 1) else es ! j)"
  by (auto simp: swap_out_def nth_list_update)

lemma mset_swap_out:
  assumes "k < length es"
  shows "add_mset (es ! k) (mset (swap_out k es)) = mset es"
proof -
  let ?m = "length es - 1" let ?ys = "es[k := es ! ?m]"
  have m: "?m < length es" using assms by simp
  have "mset (es[k := es ! ?m, ?m := es ! k]) = mset es" using mset_swap [OF m assms] by simp
  moreover have "es[k := es ! ?m, ?m := es ! k] = take ?m ?ys @ [es ! k]"
  proof -
    have "length ?ys = Suc ?m" using m by simp
    then show ?thesis by (metis upd_conv_take_nth_drop lessI drop_all order.refl length_list_update)
  qed
  ultimately show ?thesis by (simp add: swap_out_def add.commute)
qed

lemma consistent_swap_out:
  assumes c: "consistent M h" "fits M" and l: "located M i k idx"
  defines "es \<equiv> M ! i" and "h' \<equiv> h(idx := None)"
  shows "consistent (M[i := swap_out k es])
    (if k < length es - 1 then h'(fst (es ! (length es - 1)) \<mapsto> lo_build i k) else h')"
    (is "consistent ?M ?h")
proof -
  let ?n = "length es - 1" let ?x = "fst (es ! ?n)"
  have ik: "i < length M" "k < length es" "fst (es ! k) = idx" using l by (simp_all add: located_def es_def)
  have last: "located M i ?n ?x" using ik by (simp add: located_def es_def)
  have new: "located ?M i' k' y \<longleftrightarrow>
      (if i' = i then k' < ?n \<and> (if k' = k then y = ?x else located M i k' y) else located M i' k' y)" for i' k' y
    using ik nth_swap_out [of k' es k] by (auto simp: located_def nth_list_update es_def)
  have nx: "?x \<noteq> idx" if "k < ?n"
    using located_unique [OF c l] last that by auto
  have h1: "h y = Some (lo_build i' k')" if "located M i' k' y" for i' k' y
    by (rule consistentD [OF c(1) that])
  have old: "y \<noteq> idx \<and> y \<noteq> ?x" if "located M i' k' y" "\<not> (i' = i \<and> k' = k)" "\<not> (i' = i \<and> k' = ?n)" for i' k' y
    using located_unique [OF c l, of i' k'] located_unique [OF c last, of i' k'] that by blast
  have "?h y = Some (lo_build i' k')" if "located ?M i' k' y" for i' k' y
  proof (cases "i' = i \<and> k' = k")
    case True
    then show ?thesis using that new [of i' k' y] by simp
  next
    case False
    then have ly: "located M i' k' y" "\<not> (i' = i \<and> k' = ?n)" using that new [of i' k' y] by (auto split: if_splits)
    then show ?thesis using h1 [OF ly(1)] old [OF ly(1) False ly(2)] by (simp add: h'_def)
  qed
  moreover have "\<exists>i' k'. located ?M i' k' y \<and> lo = lo_build i' k'" if y: "?h y = Some lo" for y lo
  proof (cases "k < ?n \<and> y = ?x")
    case True
    then have "lo = lo_build i k" "located ?M i k y" using y new [of i k y] by auto
    then show ?thesis by blast
  next
    case False
    then have hy: "h y = Some lo" "y \<noteq> idx" using y by (auto simp: h'_def split: if_splits)
    then obtain i' k' where b: "located M i' k' y" "lo = lo_build i' k'" using consistentE [OF c(1)] by blast
    have "\<not> (i' = i \<and> k' = k)" using b(1) hy(2) ik by (auto simp: located_def es_def)
    moreover have "\<not> (i' = i \<and> k' = ?n)"
    proof
      assume e: "i' = i \<and> k' = ?n"
      then have "y = ?x" using b(1) by (simp add: located_def es_def)
      moreover from this have "k \<noteq> ?n" using hy(2) ik by auto
      ultimately show False using False ik by simp
    qed
    moreover have "i' = i \<Longrightarrow> k' < length es" using b(1) by (simp add: located_def es_def)
    ultimately have "located ?M i' k' y" using new [of i' k' y] b(1) by auto
    then show ?thesis using b(2) by blast
  qed
  ultimately show ?thesis unfolding consistent_def by blast
qed

lemma consistent_append:
  assumes "consistent M h" "i < length M" "h idx = None"
  shows "consistent (M[i := M ! i @ [(idx, c)]]) (h(idx \<mapsto> lo_build i (length (M ! i))))"
proof -
  let ?M = "M[i := M ! i @ [(idx, c)]]"
  have new: "located ?M i' k' y \<longleftrightarrow> located M i' k' y \<or> (i' = i \<and> k' = length (M ! i) \<and> y = idx)" for i' k' y
    using assms(2) by (auto simp: located_def nth_list_update nth_append less_Suc_eq)
  have fresh: "\<not> located M i' k' idx" for i' k' using assms(1,3) by (auto simp: consistent_def)
  then show ?thesis using assms(1) unfolding consistent_def new by (auto split: if_splits)
qed

lemma fits_swap_out:
  assumes "fits M" "i < length M"
  shows "fits (M[i := swap_out k (M ! i)])"
proof -
  have "length (swap_out k (M ! i)) \<le> 2 ^ 32"
    using fits_length [OF assms] by simp
  then show ?thesis using assms by (auto simp: fits_def dest!: set_update_subset_insert [THEN subsetD])
qed

lemma mset_concat_update:
  assumes "i < length M"
  shows "mset (concat (M[i := es])) + mset (M ! i) = mset (concat M) + mset es"
proof -
  have "M = take i M @ M ! i # drop (Suc i) M" using assms by (rule id_take_nth_drop)
  then have "concat M = concat (take i M) @ M ! i @ concat (drop (Suc i) M)" by (metis concat.simps(2) concat_append)
  moreover have "concat (M[i := es]) = concat (take i M) @ es @ concat (drop (Suc i) M)"
    using assms by (simp add: upd_conv_take_nth_drop)
  ultimately show ?thesis by simp
qed

text \<open>What leaves and what stays when an entry is taken out.\<close>

lemma swap_out_entries:
  assumes "located M i k idx"
  shows "add_mset (M ! i ! k) (mset (concat (M[i := swap_out k (M ! i)]))) = mset (concat M)"
proof -
  have "mset (concat (M[i := swap_out k (M ! i)])) + mset (M ! i) = mset (concat M) + mset (swap_out k (M ! i))"
    using assms by (intro mset_concat_update) (simp add: located_def)
  moreover have "mset (M ! i) = add_mset (M ! i ! k) (mset (swap_out k (M ! i)))"
    using assms by (simp add: mset_swap_out located_def)
  ultimately show ?thesis by simp
qed

lemma consistent_absent:
  assumes "consistent M h" "h idx = None" "e \<in> set (concat M)"
  shows "fst e \<noteq> idx"
proof
  assume "fst e = idx"
  moreover obtain i k where "i < length M" "k < length (M ! i)" "e = M ! i ! k"
    using assms(3) by (auto simp: in_set_conv_nth)
  ultimately have "located M i k idx" by (simp add: located_def)
  then show False using consistentD [OF assms(1)] assms(2) by fastforce
qed

section \<open>Removal through the hash table\<close>

context shrinkable_lists
begin

text \<open>Putting the last entry in place \<open>k\<close> and cutting the list.\<close>

lemma swap_out_calls:
  assumes "inv s" "i < length (L s)" "k < length (L s ! i)"
  shows "\<exists>s1. update_entry ops i k (fst (L s ! i ! (length (L s ! i) - 1))) (snd (L s ! i ! (length (L s ! i) - 1))) s = Inr s1
      \<and> inv s1 \<and> (\<exists>s2. il_resize ops i (length (L s ! i) - 1) s1 = Inr s2 \<and> inv s2
        \<and> L s2 = (L s)[i := swap_out k (L s ! i)])"
proof -
  let ?es = "L s ! i" let ?n = "length (L s ! i) - 1"
  have "length (snd (?es ! ?n)) = cs"
    using codes_length [OF assms(1,2)] assms(3) by (simp add: all_length_def)
  from update_entry_spec [OF assms this] obtain s1 where s1:
    "update_entry ops i k (fst (?es ! ?n)) (snd (?es ! ?n)) s = Inr s1" "inv s1" "L s1 = (L s)[i := ?es[k := ?es ! ?n]]"
    by (metis prod.collapse)
  have "i < length (L s1)" "?n \<le> length (L s1 ! i)" using s1(3) assms(2) by simp_all
  from shrink [OF s1(2) this] obtain s2 where "il_resize ops i ?n s1 = Inr s2" "inv s2"
    "L s2 = (L s1)[i := take ?n (L s1 ! i)]" by blast
  then show ?thesis using s1 assms(2) by (auto simp: swap_out_def)
qed

lemma shrink_last_calls:
  assumes "inv s" "i < length (L s)" "0 < length (L s ! i)"
  shows "\<exists>s2. il_resize ops i (length (L s ! i) - 1) s = Inr s2 \<and> inv s2
        \<and> L s2 = (L s)[i := swap_out (length (L s ! i) - 1) (L s ! i)]"
  using shrink [OF assms(1,2), of "length (L s ! i) - 1"] by (simp add: swap_out_def)

lemma remove_hashed_spec:
  assumes "inv s" "consistent (L s) (dm_hash dm)" "fits (L s)"
  shows "\<exists>s' dm'. remove_hashed ops idx (s, dm, n) = Inr (s', dm', n + (if dm_hash dm idx = None then 0 else 1))
    \<and> inv s' \<and> consistent (L s') (dm_hash dm') \<and> fits (L s') \<and> dm_type dm' = dm_type dm \<and> dm_hash dm' idx = None
    \<and> mset (concat (L s)) = filter_mset (\<lambda>e. fst e = idx) (mset (concat (L s))) + mset (concat (L s'))
    \<and> size (filter_mset (\<lambda>e. fst e = idx) (mset (concat (L s)))) = (if dm_hash dm idx = None then 0 else 1)"
proof (cases "dm_hash dm idx")
  case None
  then have "filter_mset (\<lambda>e. fst e = idx) (mset (concat (L s))) = {#}"
    using consistent_absent [OF assms(2) None] by (simp add: filter_mset_eq_conv)
  then show ?thesis using None assms by simp
next
  case (Some lo)
  obtain i k where l: "located (L s) i k idx" "lo = lo_build i k" using consistentE [OF assms(2) Some] by blast
  note parts = fits_parts [OF assms(3) l(1)]
  have ik: "i < length (L s)" "k < length (L s ! i)" "fst (L s ! i ! k) = idx" using l(1) by (simp_all add: located_def)
  let ?es = "L s ! i" let ?n = "length (L s ! i) - 1" let ?M = "(L s)[i := swap_out k ?es]"
  define h' where "h' = (dm_hash dm)(idx := None)"
  define dm' where "dm' = dm\<lparr>dm_hash := if k < ?n then h'(fst (?es ! ?n) \<mapsto> lo_build i k) else h'\<rparr>"
  have h: "dm_hash dm' = (if k < ?n then h'(fst (?es ! ?n) \<mapsto> lo_build i k) else h')" by (simp add: dm'_def)
  have c: "consistent ?M (dm_hash dm')"
    unfolding h h'_def by (rule consistent_swap_out [OF assms(2,3) l(1)])
  have f: "fits ?M" by (rule fits_swap_out [OF assms(3) ik(1)])
  have absent: "dm_hash dm' idx = None"
  proof (cases "k < ?n")
    case True
    have "located (L s) i ?n (fst (?es ! ?n))" using ik by (simp add: located_def)
    then have "fst (?es ! ?n) \<noteq> idx" using located_unique [OF assms(2,3) l(1)] True by auto
    then show ?thesis using True by (simp add: dm'_def h'_def)
  qed (simp add: dm'_def h'_def)
  have m: "mset (concat (L s)) = add_mset (?es ! k) (mset (concat ?M))"
    using swap_out_entries [OF l(1)] by simp
  moreover have "filter_mset (\<lambda>e. fst e = idx) (mset (concat ?M)) = {#}"
    using consistent_absent [OF c absent] by (simp add: filter_mset_eq_conv)
  ultimately have fm: "filter_mset (\<lambda>e. fst e = idx) (mset (concat (L s))) = {#?es ! k#}" using ik(3) by simp
  have run: "\<exists>s'. remove_hashed ops idx (s, dm, n) = Inr (s', dm', n + 1) \<and> inv s' \<and> L s' = ?M"
  proof (cases "k < ?n")
    case True
    obtain s1 s2 where s12: "update_entry ops i k (fst (?es ! ?n)) (snd (?es ! ?n)) s = Inr s1"
      "il_resize ops i ?n s1 = Inr s2" "inv s2" "L s2 = ?M"
      using swap_out_calls [OF assms(1) ik(1,2)] by blast
    have dmh: "dm\<lparr>dm_hash := (dm_hash dm)(idx := None)\<rparr>\<lparr>dm_hash := (dm_hash (dm\<lparr>dm_hash := (dm_hash dm)(idx := None)\<rparr>))(fst (?es ! ?n) \<mapsto> lo_build i k)\<rparr> = dm'"
      using True by (simp add: dm'_def h'_def)
    have "int k < int (length ?es) - 1" using True by linarith
    then show ?thesis
      using Some l(2) parts s12 size [OF assms(1) ik(1)] single [OF assms(1) ik(1), of ?n] ik dmh
      by (simp add: Let_def)
  next
    case False
    then have k: "k = ?n" using ik(2) by linarith
    then obtain s2 where s2: "il_resize ops i ?n s = Inr s2" "inv s2" "L s2 = ?M"
      using shrink_last_calls [OF assms(1) ik(1)] ik(2) by (metis gr_implies_not0 not_gr_zero)
    have "\<not> int k < int (length ?es) - 1" using False by linarith
    then show ?thesis
      using Some l(2) parts s2 size [OF assms(1) ik(1)] False by (simp add: Let_def dm'_def h'_def)
  qed
  then obtain s' where s': "remove_hashed ops idx (s, dm, n) = Inr (s', dm', n + 1)" "inv s'" "L s' = ?M" by blast
  then show ?thesis using c f absent m fm Some
    by (intro exI [of _ s'] exI [of _ dm']) (simp add: dm'_def)
qed

text \<open>All ids of the selector.\<close>

lemma remove_hashed_all:
  assumes "inv s" "consistent (L s) (dm_hash dm)" "fits (L s)"
  shows "\<exists>s' dm' n'. fold_result (remove_hashed ops) ids (s, dm, n) = Inr (s', dm', n') \<and> inv s'
    \<and> consistent (L s') (dm_hash dm') \<and> fits (L s') \<and> dm_type dm' = dm_type dm
    \<and> mset (concat (L s')) = filter_mset (\<lambda>e. fst e \<notin> set ids) (mset (concat (L s)))
    \<and> n' + length (concat (L s')) = n + length (concat (L s))"
  using assms
proof (induction ids arbitrary: s dm n)
  case Nil
  then show ?case by (simp add: filter_mset_True)
next
  case (Cons x ids)
  let ?k = "if dm_hash dm x = None then 0 else 1 :: nat"
  obtain s1 dm1 where 1: "remove_hashed ops x (s, dm, n) = Inr (s1, dm1, n + ?k)" "inv s1"
    "consistent (L s1) (dm_hash dm1)" "fits (L s1)" "dm_type dm1 = dm_type dm" "dm_hash dm1 x = None"
    "mset (concat (L s)) = filter_mset (\<lambda>e. fst e = x) (mset (concat (L s))) + mset (concat (L s1))"
    "size (filter_mset (\<lambda>e. fst e = x) (mset (concat (L s)))) = ?k"
    using remove_hashed_spec [OF Cons.prems, of x n] by blast
  obtain s2 dm2 n2 where 2: "fold_result (remove_hashed ops) ids (s1, dm1, n + ?k) = Inr (s2, dm2, n2)" "inv s2"
    "consistent (L s2) (dm_hash dm2)" "fits (L s2) \<and> dm_type dm2 = dm_type dm1"
    "mset (concat (L s2)) = filter_mset (\<lambda>e. fst e \<notin> set ids) (mset (concat (L s1)))"
    "n2 + length (concat (L s2)) = n + ?k + length (concat (L s1))"
    using Cons.IH [OF 1(2-4), of "n + ?k"] by blast
  have "mset (concat (L s)) = filter_mset (\<lambda>e. fst e = x) (mset (concat (L s))) + filter_mset (\<lambda>e. fst e \<noteq> x) (mset (concat (L s)))"
    by (rule multiset_partition)
  then have s1: "mset (concat (L s1)) = filter_mset (\<lambda>e. fst e \<noteq> x) (mset (concat (L s)))"
    using 1(7) by (metis add_left_cancel)
  have "mset (concat (L s2)) = filter_mset (\<lambda>e. fst e \<notin> set (x # ids)) (mset (concat (L s)))"
    unfolding 2(5) s1 filter_filter_mset by (rule arg_cong [where f = "\<lambda>P. filter_mset P _"]) auto
  moreover have "length (concat (L s)) = ?k + length (concat (L s1))"
    using arg_cong [OF 1(7), of size] 1(8) by (simp add: size_mset del: mset_concat)
  ultimately show ?case using 1(1,5) 2(1-4,6) by simp
qed

end

section \<open>Removal by scanning the lists\<close>

context shrinkable_lists
begin

lemma remove_scan_spec:
  assumes "inv s" "i < length (L s)" "j \<le> l" "l \<le> length (L s ! i)"
    and "\<And>e. e \<in> set (L s ! i) \<Longrightarrow> sel (fst e) = Inr (P (fst e))"
    and "\<And>e. e \<in> set (take j (L s ! i)) \<Longrightarrow> \<not> P (fst e)"
  shows "\<exists>s' l' es'. remove_scan ops sel i j l s = Inr (s', l') \<and> inv s' \<and> L s' = (L s)[i := es']
    \<and> length es' = length (L s ! i) \<and> l' \<le> l
    \<and> mset (take l' es') = filter_mset (\<lambda>e. \<not> P (fst e)) (mset (take l (L s ! i)))"
  using assms
proof (induction "l - j" arbitrary: s j l rule: less_induct)
  case less
  let ?es = "L s ! i"
  note s = less.prems(1,2)
  show ?case
  proof (cases "j < l")
    case False
    then have "j = l" using less.prems(3) by simp
    then have none: "filter_mset (\<lambda>e. P (fst e)) (mset (take l ?es)) = {#}"
      using less.prems(6) by (simp add: filter_mset_eq_conv)
    moreover have "mset (take l ?es) = filter_mset (\<lambda>e. P (fst e)) (mset (take l ?es)) + filter_mset (\<lambda>e. \<not> P (fst e)) (mset (take l ?es))"
      by (rule multiset_partition)
    ultimately have "filter_mset (\<lambda>e. \<not> P (fst e)) (mset (take l ?es)) = mset (take l ?es)"
      by (metis add_0)
    moreover have "remove_scan ops sel i j l s = Inr (s, l)"
      using False by (simp add: remove_scan.simps [of ops sel i j l s])
    ultimately show ?thesis using less.prems by (intro exI [of _ s] exI [of _ l] exI [of _ ?es]) simp
  next
    case True
    then have jl: "j < length ?es" "l - 1 < length ?es" using less.prems(4) by simp_all
    have sel: "sel (fst (?es ! j)) = Inr (P (fst (?es ! j)))" using less.prems(5) jl(1) by simp
    have rd: "il_ids (il_view_of ops s) i = Inr (map fst ?es)" "map fst ?es ! j = fst (?es ! j)"
      using ids [OF s] jl by simp_all
    show ?thesis
    proof (cases "P (fst (?es ! j))")
      case rm: True
      let ?x = "?es ! (l - 1)" let ?es1 = "?es[j := ?x]"
      have "length (snd ?x) = cs" using codes_length [OF s] jl(2) by (simp add: all_length_def)
      then obtain s1 where s1: "update_entry ops i j (fst ?x) (snd ?x) s = Inr s1" "inv s1" "L s1 = (L s)[i := ?es1]"
        using update_entry_spec [OF s jl(1)] by (metis prod.collapse)
      have L1: "L s1 ! i = ?es1" "i < length (L s1)" using s1(3) s(2) by simp_all
      have sub: "set ?es1 \<subseteq> set ?es" using set_update_subset_insert [of ?es j ?x] jl(2) by auto
      have t: "take j ?es1 = take j ?es" by simp
      obtain s2 l' es' where s2: "remove_scan ops sel i j (l - 1) s1 = Inr (s2, l')" "inv s2" "L s2 = (L s1)[i := es']"
        "length es' = length ?es1" "l' \<le> l - 1"
        "mset (take l' es') = filter_mset (\<lambda>e. \<not> P (fst e)) (mset (take (l - 1) ?es1))"
        using less.hyps [of "l - 1" j s1] s1(2) L1 True less.prems(4-6) sub t by fastforce
      have "swap_out j (take l ?es) = take (l - 1) ?es1"
        using True less.prems(4) by (simp add: swap_out_def take_update_swap min_def)
      then have "add_mset (?es ! j) (mset (take (l - 1) ?es1)) = mset (take l ?es)"
        using mset_swap_out [of j "take l ?es"] True less.prems(4) by simp
      then have "filter_mset (\<lambda>e. \<not> P (fst e)) (mset (take l ?es)) = filter_mset (\<lambda>e. \<not> P (fst e)) (mset (take (l - 1) ?es1))"
        using rm by (metis (no_types, lifting) filter_mset_add_mset)
      moreover have "remove_scan ops sel i j l s = Inr (s2, l')"
        unfolding remove_scan.simps [of ops sel i j l s]
        using True rd sel rm single [OF s jl(2)] s1(1) s2(1) by simp
      ultimately show ?thesis using s2 s1(3) by (intro exI [of _ s2] exI [of _ l'] exI [of _ es']) simp
    next
      case keep: False
      have "\<not> P (fst e)" if "e \<in> set (take (Suc j) ?es)" for e
      proof -
        have "e \<in> set (take j ?es) \<or> e = ?es ! j" using that jl(1) by (auto simp: take_Suc_conv_app_nth)
        then show ?thesis using keep less.prems(6) by blast
      qed
      then obtain s2 l' es' where s2: "remove_scan ops sel i (j + 1) l s = Inr (s2, l')" "inv s2" "L s2 = (L s)[i := es']"
        "length es' = length ?es" "l' \<le> l" "mset (take l' es') = filter_mset (\<lambda>e. \<not> P (fst e)) (mset (take l ?es))"
        using less.hyps [of l "j + 1" s] less.prems True by fastforce
      moreover have "remove_scan ops sel i j l s = Inr (s2, l')"
        unfolding remove_scan.simps [of ops sel i j l s] using True rd sel keep s2(1) by simp
      ultimately show ?thesis by (intro exI [of _ s2] exI [of _ l'] exI [of _ es']) simp
    qed
  qed
qed

lemma scan_lists_spec:
  assumes "inv s" "distinct is" "\<And>i. i \<in> set is \<Longrightarrow> i < length (L s)"
    and "\<And>i e. i \<in> set is \<Longrightarrow> e \<in> set (L s ! i) \<Longrightarrow> sel (fst e) = Inr (P (fst e))"
  shows "\<exists>s' tr. scan_lists ops sel is s = Inr (s', tr) \<and> inv s' \<and> length (L s') = length (L s)
    \<and> (\<forall>i. i \<notin> set is \<longrightarrow> L s' ! i = L s ! i) \<and> length tr = length is
    \<and> (\<forall>k < length is. length (L s' ! (is ! k)) = length (L s ! (is ! k)) \<and> tr ! k \<le> length (L s ! (is ! k))
        \<and> mset (take (length (L s ! (is ! k)) - tr ! k) (L s' ! (is ! k)))
          = filter_mset (\<lambda>e. \<not> P (fst e)) (mset (L s ! (is ! k))))"
  using assms
proof (induction "is" arbitrary: s)
  case (Cons i "is")
  let ?n = "length (L s ! i)"
  have i: "i < length (L s)" "i \<notin> set is" using Cons.prems(2,3) by simp_all
  obtain s1 l es where s1: "remove_scan ops sel i 0 ?n s = Inr (s1, l)" "inv s1" "L s1 = (L s)[i := es]"
    "length es = ?n" "l \<le> ?n" "mset (take l es) = filter_mset (\<lambda>e. \<not> P (fst e)) (mset (L s ! i))"
    using remove_scan_spec [OF Cons.prems(1) i(1), of 0 ?n sel P] Cons.prems(4) [of i] by auto
  have other: "L s1 ! j = L s ! j" if "j \<noteq> i" for j using s1(3) that by simp
  have "j < length (L s1)" "\<And>e. e \<in> set (L s1 ! j) \<Longrightarrow> sel (fst e) = Inr (P (fst e))" if "j \<in> set is" for j
  proof -
    have "j \<noteq> i" using that i(2) by blast
    then have e: "L s1 ! j = L s ! j" by (rule other)
    show "j < length (L s1)" using Cons.prems(3) [of j] that s1(3) by simp
    show "sel (fst e) = Inr (P (fst e))" if "e \<in> set (L s1 ! j)" for e
      using Cons.prems(4) [of j e] that \<open>j \<in> set is\<close> unfolding e by simp
  qed
  then obtain s2 tr where s2: "scan_lists ops sel is s1 = Inr (s2, tr)" "inv s2" "length (L s2) = length (L s1)"
    "\<And>j. j \<notin> set is \<Longrightarrow> L s2 ! j = L s1 ! j" "length tr = length is"
    "\<And>k. k < length is \<Longrightarrow> length (L s2 ! (is ! k)) = length (L s1 ! (is ! k)) \<and> tr ! k \<le> length (L s1 ! (is ! k))
        \<and> mset (take (length (L s1 ! (is ! k)) - tr ! k) (L s2 ! (is ! k)))
          = filter_mset (\<lambda>e. \<not> P (fst e)) (mset (L s1 ! (is ! k)))"
    using Cons.IH [OF s1(2)] Cons.prems(2) by fastforce
  have "L s2 ! i = es" using s2(4) i s1(3) by simp
  then have "length (L s2 ! ((i # is) ! k)) = length (L s ! ((i # is) ! k))
      \<and> ((?n - l) # tr) ! k \<le> length (L s ! ((i # is) ! k))
      \<and> mset (take (length (L s ! ((i # is) ! k)) - ((?n - l) # tr) ! k) (L s2 ! ((i # is) ! k)))
          = filter_mset (\<lambda>e. \<not> P (fst e)) (mset (L s ! ((i # is) ! k)))" if "k < length (i # is)" for k
  proof (cases k)
    case 0
    then show ?thesis using \<open>L s2 ! i = es\<close> s1(4-6) by simp
  next
    case (Suc m)
    then have "is ! m \<noteq> i" using that i(2) by auto
    then show ?thesis using Suc that s2(6) [of m] other by simp
  qed
  moreover have "scan_lists ops sel (i # is) s = Inr (s2, (?n - l) # tr)"
    using size [OF Cons.prems(1) i(1)] s1(1) s2(1) by simp
  ultimately show ?case using s2(2-5) s1(3) other by (intro exI [of _ s2] exI [of _ "(?n - l) # tr"]) auto
qed simp

lemma cut_lists_spec:
  assumes "inv s" "i + length rs = length (L s)" "\<And>k. k < length rs \<Longrightarrow> rs ! k \<le> length (L s ! (i + k))"
  shows "\<exists>s'. cut_lists ops i rs n s = Inr (s', n + sum_list rs) \<and> inv s'
    \<and> L s' = take i (L s) @ map2 (\<lambda>r es. take (length es - r) es) rs (drop i (L s))"
  using assms
proof (induction rs arbitrary: i n s)
  case (Cons r rs)
  let ?es = "L s ! i"
  have i: "i < length (L s)" using Cons.prems(2) by simp
  have r: "r \<le> length ?es" using Cons.prems(3) [of 0] by simp
  obtain s1 where s1: "(if 0 < r then bind_result (il_size (il_view_of ops s) i) (\<lambda>n. il_resize ops i (n - r) s) else Inr s) = Inr s1"
    "inv s1" "L s1 = (L s)[i := take (length ?es - r) ?es]"
  proof (cases "0 < r")
    case True
    then show ?thesis using that shrink [OF Cons.prems(1) i, of "length ?es - r"] size [OF Cons.prems(1) i] by auto
  next
    case False
    then show ?thesis using that [of s] Cons.prems(1) i by (simp add: list_update_same_conv)
  qed
  have "i + 1 + length rs = length (L s1)" using s1(3) Cons.prems(2) by simp
  moreover have "rs ! k \<le> length (L s1 ! (i + 1 + k))" if "k < length rs" for k
    using Cons.prems(3) [of "Suc k"] that s1(3) by simp
  ultimately obtain s2 where s2: "cut_lists ops (i + 1) rs (n + r) s1 = Inr (s2, n + r + sum_list rs)" "inv s2"
    "L s2 = take (i + 1) (L s1) @ map2 (\<lambda>r es. take (length es - r) es) rs (drop (i + 1) (L s1))"
    using Cons.IH [OF s1(2), of "i + 1" "n + r"] by blast
  have "cut_lists ops i (r # rs) n s = cut_lists ops (i + 1) rs (n + r) s1"
  proof (cases "0 < r")
    case True
    then obtain m where "il_size (il_view_of ops s) i = Inr m" "il_resize ops i (m - r) s = Inr s1"
      using s1(1) by (auto simp: bind_result_Inr_iff)
    then show ?thesis using True by simp
  next
    case False
    then show ?thesis using s1(1) by simp
  qed
  moreover have "take (i + 1) (L s1) = take i (L s) @ [take (length ?es - r) ?es]" "drop (i + 1) (L s1) = drop (Suc i) (L s)"
    using s1(3) i by (simp_all add: take_Suc_conv_app_nth)
  moreover have "drop i (L s) = ?es # drop (Suc i) (L s)" using i by (simp add: Cons_nth_drop_Suc)
  ultimately show ?case using s2 by simp
qed simp

text \<open>The whole of \<open>remove_ids\<close> without a map.\<close>

lemma remove_all_spec:
  assumes "inv s" "\<And>e. e \<in> set (concat (L s)) \<Longrightarrow> askable sel (fst e)" "dm_type dm = NoMap"
  shows "\<exists>s' n. dm_remove_ids ops sel s dm = Inr (s', dm, n) \<and> inv s' \<and> length (L s') = length (L s)
    \<and> (\<forall>i < length (L s). mset (L s' ! i) = filter_mset (\<lambda>e. fst e \<notin> selection sel) (mset (L s ! i)))
    \<and> n + length (concat (L s')) = length (concat (L s))"
proof -
  let ?m = "length (L s)"
  have sel: "is_member sel (fst e) = Inr (fst e \<in> selection sel)" if "i < ?m" "e \<in> set (L s ! i)" for i e
  proof -
    have "e \<in> set (concat (L s))" using that by (auto intro: nth_mem)
    then show ?thesis by (intro is_member_selection assms(2))
  qed
  obtain s1 tr where s1: "scan_lists ops (is_member sel) [0..<?m] s = Inr (s1, tr)" "inv s1" "length (L s1) = ?m"
    "length tr = ?m" "\<And>k. k < ?m \<Longrightarrow> length (L s1 ! k) = length (L s ! k) \<and> tr ! k \<le> length (L s ! k)
        \<and> mset (take (length (L s ! k) - tr ! k) (L s1 ! k)) = filter_mset (\<lambda>e. fst e \<notin> selection sel) (mset (L s ! k))"
    using scan_lists_spec [OF assms(1), of "[0..<?m]" "is_member sel" "\<lambda>x. x \<in> selection sel"] sel by auto
  obtain s2 where s2: "cut_lists ops 0 tr 0 s1 = Inr (s2, sum_list tr)" "inv s2"
    "L s2 = map2 (\<lambda>r es. take (length es - r) es) tr (L s1)"
    using cut_lists_spec [OF s1(2), of 0 tr 0] s1(3-5) by auto
  have at: "L s2 ! k = take (length (L s ! k) - tr ! k) (L s1 ! k)" if "k < ?m" for k
    using that s2(3) s1(3-5) by simp
  have "sum_list tr + length (concat (L s2)) = length (concat (L s1))"
  proof -
    have "list_all2 (\<lambda>r es. r \<le> length es) tr (L s1)" using s1(3-5) by (simp add: list_all2_conv_all_nth)
    then show ?thesis unfolding s2(3) by (induction rule: list_all2_induct) auto
  qed
  moreover have "length (concat (L s1)) = length (concat (L s))"
    unfolding length_concat using s1(3,5) by (intro arg_cong [where f = sum_list] nth_equalityI) auto
  moreover have "dm_remove_ids ops sel s dm = Inr (s2, dm, sum_list tr)"
    using assms(3) s1(1) s2(1) nlist [OF assms(1)] by (simp add: dm_remove_ids_def)
  ultimately show ?thesis using s2(2,3) s1(3,4,5) at by (intro exI [of _ s2] exI [of _ "sum_list tr"]) auto
qed

end

section \<open>Building the map\<close>

text \<open>Either form of the map as a partial function; \<open>-1\<close> in the array is "no entry".\<close>

definition arr_map :: "idx_t list \<Rightarrow> idx_t \<rightharpoonup> idx_t" where
  "arr_map arr x = (if 0 \<le> x \<and> nat x < length arr \<and> arr ! nat x \<noteq> -1 then Some (arr ! nat x) else None)"

definition dm_map :: "direct_map \<Rightarrow> idx_t \<rightharpoonup> idx_t" where
  "dm_map dm = (if dm_type dm = Array_map then arr_map (dm_array dm) else dm_hash dm)"

lemma arr_map_update:
  "0 \<le> x \<Longrightarrow> nat x < length arr \<Longrightarrow> v \<noteq> -1 \<Longrightarrow> arr_map (arr[nat x := v]) = (arr_map arr)(x \<mapsto> v)"
  by (rule ext) (auto simp: arr_map_def nth_list_update)

lemma arr_map_empty [simp]: "arr_map (replicate n (-1)) = Map.empty"
  by (rule ext) (simp add: arr_map_def)

lemma lo_not_minus: "i < 2 ^ 31 \<Longrightarrow> k < 2 ^ 32 \<Longrightarrow> lo_build i k \<noteq> -1"
  using lo_nonneg [of i k] by linarith

lemma consistent_empty: "(\<And>i. i < length M \<Longrightarrow> M ! i = []) \<Longrightarrow> consistent M Map.empty"
  by (auto simp: consistent_def located_def)

text \<open>Indexing some more entries of one list.\<close>

lemma index_entries_spec:
  assumes "consistent M (dm_map dm)" "key < length M" "key < 2 ^ 31" "length (M ! key) + length es \<le> 2 ^ 32"
    and "distinct (map fst es)" "\<And>e. e \<in> set es \<Longrightarrow> dm_map dm (fst e) = None"
    and "dm_type dm = t" "t \<noteq> NoMap" "t = Array_map \<Longrightarrow> length (dm_array dm) = ntotal"
    and "t = Array_map \<Longrightarrow> \<forall>e \<in> set es. 0 \<le> fst e \<and> fst e < int ntotal"
  shows "\<exists>dm'. fold_result (index_entry t ntotal key)
        (zip [length (M ! key)..<length (M ! key) + length es] (map fst es)) dm = Inr dm'
    \<and> consistent (M[key := M ! key @ es]) (dm_map dm') \<and> dm_type dm' = t
    \<and> (t = Array_map \<longrightarrow> length (dm_array dm') = ntotal)
    \<and> (\<forall>x. x \<notin> fst ` set es \<longrightarrow> dm_map dm' x = dm_map dm x)"
  using assms
proof (induction es arbitrary: M dm)
  case (Cons e es)
  let ?m = "length (M ! key)" let ?x = "fst e"
  have lo: "lo_build key ?m \<noteq> -1" using Cons.prems(3,4) by (intro lo_not_minus) simp_all
  obtain dm1 where dm1: "index_entry t ntotal key (?m, ?x) dm = Inr dm1" "dm_map dm1 = (dm_map dm)(?x \<mapsto> lo_build key ?m)"
    "dm_type dm1 = t" "t = Array_map \<longrightarrow> length (dm_array dm1) = ntotal"
  proof (cases "t = Array_map")
    case True
    then have "0 \<le> ?x" "nat ?x < length (dm_array dm)" using Cons.prems(9,10) by (simp_all add: nat_less_iff)
    then show ?thesis
      using True that [of "dm\<lparr>dm_array := (dm_array dm)[nat ?x := lo_build key ?m]\<rparr>"] Cons.prems(7,9,10) lo
      by (simp add: dm_map_def arr_map_update)
  next
    case False
    then show ?thesis
      using that [of "dm\<lparr>dm_hash := (dm_hash dm)(?x \<mapsto> lo_build key ?m)\<rparr>"] Cons.prems(7) by (simp add: dm_map_def)
  qed
  let ?M1 = "M[key := M ! key @ [e]]"
  have c1: "consistent ?M1 (dm_map dm1)"
    using consistent_append [OF Cons.prems(1,2), of ?x "snd e"] Cons.prems(6) [of e] dm1(2) by simp
  have M1: "?M1 ! key = M ! key @ [e]" "length ?M1 = length M" using Cons.prems(2) by simp_all
  have fresh: "dm_map dm1 (fst e') = None" if "e' \<in> set es" for e'
  proof -
    have "fst e' \<noteq> ?x" using Cons.prems(5) that by (metis distinct.simps(2) image_eqI list.set_map list.simps(9))
    then show ?thesis using Cons.prems(6) [of e'] that dm1(2) by simp
  qed
  obtain dm2 where dm2: "fold_result (index_entry t ntotal key)
        (zip [length (?M1 ! key)..<length (?M1 ! key) + length es] (map fst es)) dm1 = Inr dm2"
    "consistent (?M1[key := ?M1 ! key @ es]) (dm_map dm2)" "dm_type dm2 = t"
    "t = Array_map \<longrightarrow> length (dm_array dm2) = ntotal" "\<forall>x. x \<notin> fst ` set es \<longrightarrow> dm_map dm2 x = dm_map dm1 x"
    using Cons.IH [OF c1, of] Cons.prems fresh dm1(3,4) M1 by fastforce
  have "[?m..<?m + length (e # es)] = ?m # [Suc ?m..<Suc ?m + length es]"
    by (simp add: upt_conv_Cons del: upt_Suc)
  then have z: "zip [?m..<?m + length (e # es)] (map fst (e # es)) = (?m, ?x) # zip [Suc ?m..<Suc ?m + length es] (map fst es)"
    by (simp only: list.map zip_Cons_Cons)
  show ?case unfolding z using dm1(1,2) dm2 M1 Cons.prems(2) by (intro exI [of _ dm2]) simp
qed (auto simp: dm_map_def)

lemma located_prefix_fresh:
  assumes "distinct (map fst (concat M))" "j < length M" "e \<in> set (M ! j)" "i < j" "k < length (M ! i)"
  shows "fst (M ! i ! k) \<noteq> fst e"
proof -
  have "M = take j M @ M ! j # drop (Suc j) M" using assms(2) by (rule id_take_nth_drop)
  then have "concat M = concat (take j M) @ M ! j @ concat (drop (Suc j) M)" by (metis concat.simps(2) concat_append)
  then have "set (map fst (concat (take j M))) \<inter> set (map fst (M ! j)) = {}"
    using assms(1) by (simp only: map_append distinct_append set_append) blast
  then have "fst ` set (concat (take j M)) \<inter> fst ` set (M ! j) = {}" by (simp only: set_map)
  moreover have "M ! i \<in> set (take j M)" using assms(2,4) by (auto simp: in_set_conv_nth intro!: exI [of _ i])
  then have "M ! i ! k \<in> set (concat (take j M))" using nth_mem [OF assms(5)] by (auto simp: set_concat)
  ultimately show ?thesis using assms(3) by (metis disjoint_iff imageI)
qed

lemma set_type_spec:
  assumes "represents v M" "fits M" "distinct (map fst (concat M))" "t \<noteq> NoMap" "dm_type dm \<noteq> t"
    and "t = Array_map \<Longrightarrow> \<forall>e \<in> set (concat M). 0 \<le> fst e \<and> fst e < int ntotal"
  shows "\<exists>dm'. set_type t v ntotal dm = Inr dm' \<and> dm_type dm' = t \<and> consistent M (dm_map dm')
    \<and> (t = Array_map \<longrightarrow> length (dm_array dm') = ntotal)"
proof -
  let ?n = "length M"
  define dm0 where "dm0 = (let dm = dm\<lparr>dm_array := [], dm_hash := Map.empty, dm_type := t\<rparr> in
      if t = Array_map then dm\<lparr>dm_array := replicate ntotal (-1)\<rparr> else dm)"
  have dm0: "dm_map dm0 = Map.empty" "dm_type dm0 = t" "t = Array_map \<longrightarrow> length (dm_array dm0) = ntotal"
    by (simp_all add: dm0_def Let_def dm_map_def)
  let ?M = "\<lambda>j. take j M @ replicate (?n - j) []"
  have "\<exists>dm'. fold_result (index_list t ntotal v) [0..<j] dm0 = Inr dm' \<and> dm_type dm' = t \<and> consistent (?M j) (dm_map dm')
    \<and> (t = Array_map \<longrightarrow> length (dm_array dm') = ntotal)" if "j \<le> ?n" for j
    using that
  proof (induction j)
    case 0
    have "consistent (replicate ?n []) Map.empty" by (rule consistent_empty) simp
    then show ?case using dm0 by simp
  next
    case (Suc j)
    then have j: "j < ?n" by simp
    obtain dm1 where 1: "fold_result (index_list t ntotal v) [0..<j] dm0 = Inr dm1" "dm_type dm1 = t"
      "consistent (?M j) (dm_map dm1)" "t = Array_map \<longrightarrow> length (dm_array dm1) = ntotal"
      using Suc by auto
    have Mj: "?M j ! j = []" "length (?M j) = ?n" "j < 2 ^ 31" "length (M ! j) \<le> 2 ^ 32"
      using j assms(2) fits_length [OF assms(2) j] by (simp_all add: nth_append fits_def)
    have "distinct (map fst (M ! j))"
    proof -
      have "M = take j M @ M ! j # drop (Suc j) M" using j by (rule id_take_nth_drop)
      then have "concat M = concat (take j M) @ M ! j @ concat (drop (Suc j) M)" by (metis concat.simps(2) concat_append)
      then show ?thesis using assms(3) by simp
    qed
    moreover have "dm_map dm1 (fst e) = None" if "e \<in> set (M ! j)" for e
    proof (rule ccontr)
      assume "dm_map dm1 (fst e) \<noteq> None"
      then obtain i k where l: "located (?M j) i k (fst e)" using consistentE [OF 1(3)] by blast
      then have "i < j" using j by (auto simp: located_def nth_append split: if_splits)
      then show False using l located_prefix_fresh [OF assms(3) j that, of i k] j by (simp add: located_def nth_append)
    qed
    moreover have "\<forall>e \<in> set (M ! j). 0 \<le> fst e \<and> fst e < int ntotal" if "t = Array_map"
      using assms(6) [OF that] nth_mem [OF j] by auto
    ultimately obtain dm2 where 2: "fold_result (index_entry t ntotal j)
        (zip [length (?M j ! j)..<length (?M j ! j) + length (M ! j)] (map fst (M ! j))) dm1 = Inr dm2"
      "consistent ((?M j)[j := ?M j ! j @ M ! j]) (dm_map dm2)" "dm_type dm2 = t" "t = Array_map \<longrightarrow> length (dm_array dm2) = ntotal"
      using index_entries_spec [OF 1(3), of j "M ! j" t ntotal] Mj j 1(2,4) assms(4) by auto
    have "list_shows v j (M ! j)" using assms(1) j by (simp add: represents_def)
    then have il: "index_list t ntotal v j dm1 = Inr dm2"
      using 2(1) Mj(1) by (simp add: index_list_def list_shows_def)
    have "replicate (?n - j) [] = [] # replicate (?n - Suc j) ([] :: entry list)"
      using j by (metis Suc_diff_Suc replicate_Suc)
    then have "(?M j)[j := ?M j ! j @ M ! j] = ?M (Suc j)"
      unfolding Mj(1) using j by (simp add: list_update_append take_Suc_conv_app_nth)
    then show ?case using 1(1) il 2 by (auto simp: fold_result_append)
  qed
  from this [of ?n] obtain dm' where dm': "fold_result (index_list t ntotal v) [0..<?n] dm0 = Inr dm'" "dm_type dm' = t"
    "consistent M (dm_map dm')" "t = Array_map \<longrightarrow> length (dm_array dm') = ntotal" by auto
  have "set_type t v ntotal dm = Inr dm'"
    using assms(1,4,5) dm'(1) by (simp add: set_type_def represents_def dm0_def Let_def)
  then show ?thesis using dm' by blast
qed

lemma dm_get_consistent:
  assumes "consistent M (dm_map dm)" "fits M" "dm_type dm \<noteq> NoMap"
  shows "located M i k x \<Longrightarrow> dm_get x dm = Inr (lo_build i k)"
    and "x \<notin> fst ` set (concat M) \<Longrightarrow> \<exists>msg. dm_get x dm = Inl (Throw msg)"
proof -
  {
    assume l: "located M i k x"
    then have "dm_map dm x = Some (lo_build i k)" "0 \<le> lo_build i k"
      using consistentD [OF assms(1)] fits_located [OF assms(2) l] lo_nonneg by auto
    then show "dm_get x dm = Inr (lo_build i k)"
      using assms(3) by (cases "dm_type dm") (auto simp: dm_get_def dm_map_def arr_map_def Let_def split: if_splits)
  }
  assume x: "x \<notin> fst ` set (concat M)"
  have no: "dm_map dm x = None"
  proof (rule ccontr)
    assume "dm_map dm x \<noteq> None"
    then obtain i k where "located M i k x" using consistentE [OF assms(1)] by blast
    then have "M ! i ! k \<in> set (M ! i)" "M ! i \<in> set M" "fst (M ! i ! k) = x" by (simp_all add: located_def)
    then have "M ! i ! k \<in> set (concat M)" "fst (M ! i ! k) = x" by (auto simp: set_concat)
    then show False using x by blast
  qed
  show "\<exists>msg. dm_get x dm = Inl (Throw msg)"
    using no assms(3) by (cases "dm_type dm") (auto simp: dm_get_def dm_map_def arr_map_def Let_def split: if_splits)
qed

end
