(* ===== verification/Direct_Map_Update.thy ===== *)
theory Direct_Map_Update
  imports Direct_Map_Correct
begin

text \<open>
  \<open>DirectMap::update_codes\<close> keeps the array map consistent, and the properties of the direct map
  with \<open>ArrayInvertedLists\<close>.
\<close>

section \<open>Replacing codes\<close>

text \<open>Lists small enough that no offset can leave its half of the word, whatever list an entry moves to.\<close>

definition small :: "entry list list \<Rightarrow> bool" where
  "small M \<longleftrightarrow> length M \<le> 2 ^ 31 \<and> length (concat M) \<le> 2 ^ 32"

lemma length_le_concat: "es \<in> set M \<Longrightarrow> length es \<le> length (concat M)"
  by (induction M) auto

lemma small_fits: "small M \<Longrightarrow> fits M"
  unfolding small_def fits_def using length_le_concat [of _ M] by (auto intro: le_trans)

lemma length_concat_update:
  assumes "i < length M"
  shows "length (concat (M[i := es])) + length (M ! i) = length (concat M) + length es"
  using arg_cong [OF mset_concat_update [OF assms, of es], of size] by simp

lemma arr_map_remove:
  "arr_map arr x = Some v \<Longrightarrow> w \<noteq> -1 \<Longrightarrow> arr_map (arr[nat x := w]) = ((arr_map arr)(x := None))(x \<mapsto> w)"
  by (simp add: arr_map_update arr_map_def split: if_splits)

context shrinkable_lists
begin

lemma update_code_spec:
  assumes "inv s" "consistent (L s) (arr_map (dm_array dm))" "small (L s)"
    and "x \<in> fst ` set (concat (L s))" "j < length (L s)" "length code = cs"
  shows "\<exists>s' dm'. update_code ops (x, j, code) (s, dm) = Inr (s', dm') \<and> inv s' \<and> length (L s') = length (L s)
    \<and> consistent (L s') (arr_map (dm_array dm')) \<and> small (L s') \<and> dm_type dm' = dm_type dm
    \<and> mset (concat (L s')) = add_mset (x, code) (filter_mset (\<lambda>e. fst e \<noteq> x) (mset (concat (L s))))"
proof -
  note fits = small_fits [OF assms(3)]
  let ?h = "arr_map (dm_array dm)"
  obtain i k where l: "located (L s) i k x"
    using assms(4) by (fastforce simp: located_def in_set_conv_nth)
  then have ik: "i < length (L s)" "k < length (L s ! i)" "fst (L s ! i ! k) = x" by (simp_all add: located_def)
  have hx: "?h x = Some (lo_build i k)" by (rule consistentD [OF assms(2) l])
  then have x: "0 \<le> x" "nat x < length (dm_array dm)" "dm_array dm ! nat x = lo_build i k"
    by (simp_all add: arr_map_def split: if_splits)
  let ?es = "L s ! i" let ?n = "length (L s ! i) - 1" let ?y = "fst (?es ! ?n)" let ?M = "(L s)[i := swap_out k ?es]"
  define arr1 where "arr1 = (if k < ?n then (dm_array dm)[nat ?y := lo_build i k] else dm_array dm)"
  have last: "located (L s) i ?n ?y" using ik by (simp add: located_def)
  have lo: "lo_build i k \<noteq> -1" using fits_located [OF fits l] by (intro lo_not_minus) simp_all
  have y: "0 \<le> ?y" "nat ?y < length (dm_array dm)"
    using consistentD [OF assms(2) last] by (simp_all add: arr_map_def split: if_splits)
  have yx: "?y \<noteq> x" if "k < ?n"
  proof
    assume "?y = x"
    then have "located (L s) i ?n x" using last by simp
    then show False using located_unique [OF assms(2) fits l, of i ?n] that by simp
  qed
  define h1 where "h1 = (if k < ?n then (?h(x := None))(?y \<mapsto> lo_build i k) else ?h(x := None))"
  have c1: "consistent ?M h1" unfolding h1_def by (rule consistent_swap_out [OF assms(2) fits l])
  have h1x: "h1 x = None" using yx by (auto simp: h1_def)
  have a1: "(arr_map arr1)(x := None) = h1"
    using y lo yx by (auto simp: h1_def arr1_def arr_map_update fun_upd_twist)
  have len1: "length arr1 = length (dm_array dm)" by (simp add: arr1_def)
  have jM: "j < length ?M" using assms(5) by simp
  let ?m = "length (?M ! j)" let ?M' = "?M[j := ?M ! j @ [(x, code)]]"
  have tot: "length (concat ?M) + 1 = length (concat (L s))"
    using length_concat_update [OF ik(1), of "swap_out k ?es"] ik(2) by simp
  have small': "small ?M'"
    using length_concat_update [OF jM, of "?M ! j @ [(x, code)]"] tot assms(3) by (simp add: small_def)
  have "located ?M' j ?m x" using jM by (simp add: located_def)
  then have lo': "lo_build j ?m \<noteq> -1" using fits_located [OF small_fits [OF small']] by (intro lo_not_minus) auto
  have c2: "consistent ?M' (h1(x \<mapsto> lo_build j ?m))" by (rule consistent_append [OF c1 jM h1x])
  have a2: "arr_map (arr1[nat x := lo_build j ?m]) = h1(x \<mapsto> lo_build j ?m)"
    using x(1,2) len1 lo' by (simp add: arr_map_update flip: a1)
  obtain s1 where s1: "inv s1" "L s1 = ?M" and run: "update_code ops (x, j, code) (s, dm) =
      bind_result (add_entry ops j x code s1) (\<lambda>(s, _). Inr (s, dm\<lparr>dm_array := arr1[nat x := lo_build j ?m]\<rparr>))"
  proof (cases "k < ?n")
    case True
    obtain s1 s2 where s12: "update_entry ops i k ?y (snd (?es ! ?n)) s = Inr s1"
      "il_resize ops i ?n s1 = Inr s2" "inv s2" "L s2 = ?M"
      using swap_out_calls [OF assms(1) ik(1,2)] by blast
    have k: "int k \<noteq> int (length ?es) - 1" using True by linarith
    have j: "il_size (il_view_of ops s2) j = Inr ?m" using size [OF s12(3)] jM s12(4) by simp
    show ?thesis
      by (rule that [OF s12(3,4)])
        (use x y k s12 j fits_parts [OF fits l] size [OF assms(1) ik(1)] single [OF assms(1) ik(1), of ?n] ik True
         in \<open>simp add: update_code_def Let_def arr1_def\<close>)
  next
    case False
    then have k: "k = ?n" using ik(2) by linarith
    then obtain s2 where s2: "il_resize ops i ?n s = Inr s2" "inv s2" "L s2 = ?M"
      using shrink_last_calls [OF assms(1) ik(1)] ik(2) by (metis gr_implies_not0 not_gr_zero)
    have j: "il_size (il_view_of ops s2) j = Inr ?m" using size [OF s2(2)] jM s2(3) by simp
    have "int k = int (length ?es) - 1" using k ik(2) by linarith
    then show ?thesis
      by (intro that [OF s2(2,3)])
        (use x s2 j fits_parts [OF fits l] size [OF assms(1) ik(1)] ik False
         in \<open>simp add: update_code_def Let_def arr1_def\<close>)
  qed
  obtain s' r where s': "add_entry ops j x code s1 = Inr (s', r)" "inv s'" "L s' = ?M'"
    using add_entry_spec [OF s1(1), of j code x] s1(2) jM assms(6) by auto
  have m: "mset (concat (L s)) = add_mset (?es ! k) (mset (concat ?M))" using swap_out_entries [OF l] by simp
  have "filter_mset (\<lambda>e. fst e \<noteq> x) (mset (concat ?M)) = mset (concat ?M)"
    using consistent_absent [OF c1 h1x] by (simp add: filter_mset_eq_conv)
  then have f: "filter_mset (\<lambda>e. fst e \<noteq> x) (mset (concat (L s))) = mset (concat ?M)" unfolding m using ik(3) by simp
  have "mset (concat ?M') = add_mset (x, code) (mset (concat ?M))"
    using mset_concat_update [OF jM, of "?M ! j @ [(x, code)]"] by simp
  then show ?thesis using run s' c2 a2 small' f
    by (intro exI [of _ s'] exI [of _ "dm\<lparr>dm_array := arr1[nat x := lo_build j ?m]\<rparr>"]) simp
qed

lemma update_codes_spec:
  assumes "inv s" "consistent (L s) (arr_map (dm_array dm))" "small (L s)" "dm_type dm = Array_map"
    and "\<forall>(x, j, code) \<in> set es. x \<in> fst ` set (concat (L s)) \<and> j < length (L s) \<and> length code = cs"
  shows "\<exists>s' dm'. update_codes ops es s dm = Inr (s', dm') \<and> inv s'
    \<and> consistent (L s') (arr_map (dm_array dm')) \<and> small (L s') \<and> dm_type dm' = Array_map
    \<and> mset (concat (L s')) = fold (\<lambda>(x, j, code) m. add_mset (x, code) (filter_mset (\<lambda>e. fst e \<noteq> x) m)) es (mset (concat (L s)))"
proof -
  have "\<exists>s' dm'. fold_result (update_code ops) es (s, dm) = Inr (s', dm') \<and> inv s'
    \<and> consistent (L s') (arr_map (dm_array dm')) \<and> small (L s') \<and> dm_type dm' = Array_map
    \<and> mset (concat (L s')) = fold (\<lambda>(x, j, code) m. add_mset (x, code) (filter_mset (\<lambda>e. fst e \<noteq> x) m)) es (mset (concat (L s)))"
    using assms
  proof (induction es arbitrary: s dm)
    case (Cons e es)
    obtain x j code where e: "e = (x, j, code)" by (cases e)
    have e_ok: "x \<in> fst ` set (concat (L s))" "j < length (L s)" "length code = cs"
      using Cons.prems(5) by (simp_all add: e)
    obtain s1 dm1 where 1: "update_code ops (x, j, code) (s, dm) = Inr (s1, dm1)" "inv s1" "length (L s1) = length (L s)"
      "consistent (L s1) (arr_map (dm_array dm1))" "small (L s1)" "dm_type dm1 = Array_map"
      "mset (concat (L s1)) = add_mset (x, code) (filter_mset (\<lambda>e. fst e \<noteq> x) (mset (concat (L s))))"
      using update_code_spec [OF Cons.prems(1-3) e_ok] Cons.prems(4) by auto
    have "set (concat (L s1)) = insert (x, code) {e \<in> set (concat (L s)). fst e \<noteq> x}"
      using arg_cong [OF 1(7), of set_mset]
      by (simp only: set_mset_mset set_mset_add_mset_insert set_mset_filter mem_Collect_eq)
    then have ids: "fst ` set (concat (L s)) \<subseteq> fst ` set (concat (L s1))"
      by (simp only: image_insert fst_conv) blast
    have "\<forall>(x, j, code) \<in> set es. x \<in> fst ` set (concat (L s1)) \<and> j < length (L s1) \<and> length code = cs"
    proof -
      have "\<forall>d \<in> set es. case d of (x, j, code) \<Rightarrow> x \<in> fst ` set (concat (L s)) \<and> j < length (L s) \<and> length code = cs"
        using Cons.prems(5) by simp
      then show ?thesis unfolding 1(3) using ids by blast
    qed
    from Cons.IH [OF 1(2,4,5,6) this] show ?case using 1(1,7) by (simp add: e)
  qed simp
  then show ?thesis using assms(4) by (simp add: update_codes_def)
qed

end

section \<open>Properties\<close>

text \<open>
  A list number and an offset below \<open>2 ^ 32\<close> packed by \<open>lo_build\<close> are unpacked unchanged by
  \<open>lo_listno\<close> and \<open>lo_offset\<close>.
\<close>

theorem lo_roundtrip:
  assumes "list_no < 2 ^ 32" "offset < 2 ^ 32"
  shows "lo_listno (lo_build list_no offset) = list_no \<and> lo_offset (lo_build list_no offset) = offset"
  using lo_parts [OF assms] by simp

theorem lo_roundtrip_witness:
  "lo_listno (lo_build 4294967295 7) = 4294967295 \<and> lo_offset (lo_build 4294967295 7) = 7"
  by (rule lo_roundtrip) simp_all

text \<open>
  C25. Removal by hash table: from lists whose ids are distinct, \<open>set_type\<close> builds a table with which
  \<open>remove_ids\<close> removes the entries of the given ids and no others and returns their number;
  afterwards \<open>get\<close> finds the place of every entry left and throws for every id removed.
\<close>

theorem direct_map_remove:
  assumes "ail_ok cs s" "fits (ail_lists s)" "distinct (map fst (concat (ail_lists s)))" "dm_type dm = NoMap"
  shows "\<exists>dm1 s' dm' n. set_type Hashtable (ail_view s) ntotal dm = Inr dm1
    \<and> dm_remove_ids ail_ops (Sel_array ids) s dm1 = Inr (s', dm', n)
    \<and> mset (concat (ail_lists s')) = filter_mset (\<lambda>e. fst e \<notin> set ids) (mset (concat (ail_lists s)))
    \<and> n + length (concat (ail_lists s')) = length (concat (ail_lists s))
    \<and> (\<forall>i k x. located (ail_lists s') i k x \<longrightarrow> dm_get x dm' = Inr (lo_build i k))
    \<and> (\<forall>x \<in> set ids. \<exists>msg. dm_get x dm' = Inl (Throw msg))"
proof -
  have "represents (ail_view s) (ail_lists s)" using ail.view [OF assms(1)] by (simp add: ail_ops_def)
  from set_type_spec [OF this assms(2,3), of Hashtable dm ntotal] obtain dm1 where 1:
    "set_type Hashtable (ail_view s) ntotal dm = Inr dm1" "dm_type dm1 = Hashtable" "consistent (ail_lists s) (dm_hash dm1)"
    using assms(4) by (auto simp: dm_map_def)
  from ail.remove_hashed_all [OF assms(1) 1(3) assms(2), of ids 0] obtain s' dm' n where 2:
    "fold_result (remove_hashed ail_ops) ids (s, dm1, 0) = Inr (s', dm', n)" "ail_ok cs s'"
    "consistent (ail_lists s') (dm_hash dm')" "fits (ail_lists s')" "dm_type dm' = Hashtable"
    "mset (concat (ail_lists s')) = filter_mset (\<lambda>e. fst e \<notin> set ids) (mset (concat (ail_lists s)))"
    "n + length (concat (ail_lists s')) = length (concat (ail_lists s))"
    using 1(2) by auto
  have c: "consistent (ail_lists s') (dm_map dm')" using 2(3,5) by (simp add: dm_map_def)
  have "set (concat (ail_lists s')) = {e \<in> set (concat (ail_lists s)). fst e \<notin> set ids}"
    using arg_cong [OF 2(6), of set_mset] by (simp only: set_mset_mset set_mset_filter mem_Collect_eq)
  then have "x \<notin> fst ` set (concat (ail_lists s'))" if "x \<in> set ids" for x using that by blast
  then have "\<forall>x \<in> set ids. \<exists>msg. dm_get x dm' = Inl (Throw msg)"
    using dm_get_consistent(2) [OF c 2(4)] 2(5) by simp
  moreover have "\<forall>i k x. located (ail_lists s') i k x \<longrightarrow> dm_get x dm' = Inr (lo_build i k)"
    using dm_get_consistent(1) [OF c 2(4)] 2(5) by simp
  moreover have "dm_remove_ids ail_ops (Sel_array ids) s dm1 = Inr (s', dm', n)"
    using 1(2) 2(1) by (simp add: dm_remove_ids_def)
  ultimately show ?thesis using 1(1) 2(6,7) by blast
qed

theorem direct_map_remove_witness:
  "\<exists>dm1 s' dm' n. set_type Hashtable (ail_view five_entries) 5 dm_new = Inr dm1
    \<and> dm_remove_ids ail_ops (Sel_array [5, 1, 9]) five_entries dm1 = Inr (s', dm', n)
    \<and> mset (map fst (concat (ail_lists s'))) = {#2, 3, 4#} \<and> n = 2"
proof -
  have f: "fits (ail_lists five_entries)" by (simp add: five_entries_ok fits_def)
  have d: "distinct (map fst (concat (ail_lists five_entries)))" by (simp add: five_entries_ok)
  have n: "dm_type dm_new = NoMap" by (simp add: dm_new_def)
  obtain dm1 s' dm' n where "set_type Hashtable (ail_view five_entries) 5 dm_new = Inr dm1"
    "dm_remove_ids ail_ops (Sel_array [5, 1, 9]) five_entries dm1 = Inr (s', dm', n)"
    and m: "mset (concat (ail_lists s')) =
      filter_mset (\<lambda>e. fst e \<notin> set [5, 1, 9]) (mset (concat (ail_lists five_entries)))"
    and "n + length (concat (ail_lists s')) = length (concat (ail_lists five_entries))"
    using direct_map_remove [OF five_entries_ok(1) f d n, of 5 "[5, 1, 9]"] by blast
  moreover have m3: "mset (concat (ail_lists s')) = {#(2, [2]), (3, [3]), (4, [4])#}"
    unfolding m five_entries_ok by simp
  moreover have "length (concat (ail_lists s')) = 3" using arg_cong [OF m3, of size] by simp
  moreover have "mset (map fst (concat (ail_lists s'))) = {#2, 3, 4#}"
    using arg_cong [OF m3, of "image_mset fst"] by simp
  moreover have "length (concat (ail_lists five_entries)) = 5" by (simp add: five_entries_ok)
  ultimately show ?thesis by (intro exI [of _ dm1] exI [of _ s'] exI [of _ dm'] exI [of _ n]) simp
qed

text \<open>
  Removal without a map: from lists with as many entries of the same id as there may be,
  \<open>remove_ids\<close> removes in every list the entries whose id the selector takes and no others, and
  returns their number.
\<close>

theorem direct_map_scan_remove:
  assumes "ail_ok cs s" "dm_type dm = NoMap" "\<forall>e \<in> set (concat (ail_lists s)). askable sel (fst e)"
  shows "\<exists>s' n. dm_remove_ids ail_ops sel s dm = Inr (s', dm, n) \<and> ail_nlist s' = ail_nlist s
    \<and> (\<forall>i < ail_nlist s. mset (ail_lists s' ! i) = filter_mset (\<lambda>e. fst e \<notin> selection sel) (mset (ail_lists s ! i)))
    \<and> n + length (concat (ail_lists s')) = length (concat (ail_lists s))"
proof -
  have a: "\<And>e. e \<in> set (concat (ail_lists s)) \<Longrightarrow> askable sel (fst e)" using assms(3) by blast
  obtain s' n where 1: "dm_remove_ids ail_ops sel s dm = Inr (s', dm, n)" "ail_ok cs s'" "length (ail_lists s') = length (ail_lists s)"
    "\<forall>i < length (ail_lists s). mset (ail_lists s' ! i) = filter_mset (\<lambda>e. fst e \<notin> selection sel) (mset (ail_lists s ! i))"
    "n + length (concat (ail_lists s')) = length (concat (ail_lists s))"
    using ail.remove_all_spec [OF assms(1) a assms(2)] by blast
  have "length (ail_lists s') = ail_nlist s'" "length (ail_lists s) = ail_nlist s"
    using length_ail_lists [OF 1(2)] length_ail_lists [OF assms(1)] by simp_all
  then show ?thesis using 1 by (intro exI [of _ s'] exI [of _ n]) simp
qed

theorem direct_map_scan_remove_witness:
  "\<exists>s' n. dm_remove_ids ail_ops (Sel_not (Sel_range 2 5)) five_entries dm_new = Inr (s', dm_new, n)
    \<and> mset (ail_lists s' ! 0) = {#(2, [2])#} \<and> mset (ail_lists s' ! 2) = {#(4, [4])#}"
proof -
  have n: "dm_type dm_new = NoMap" "ail_nlist five_entries = 3" by (simp_all add: dm_new_def five_entries_def)
  have "\<forall>e \<in> set (concat (ail_lists five_entries)). askable (Sel_not (Sel_range 2 5)) (fst e)" by simp
  from direct_map_scan_remove [OF five_entries_ok(1) n(1) this] obtain s' k where
    "dm_remove_ids ail_ops (Sel_not (Sel_range 2 5)) five_entries dm_new = Inr (s', dm_new, k)"
    and m: "\<And>i. i < 3 \<Longrightarrow> mset (ail_lists s' ! i) =
      filter_mset (\<lambda>e. fst e \<notin> selection (Sel_not (Sel_range 2 5))) (mset (ail_lists five_entries ! i))"
    using n(2) by auto
  then show ?thesis using m [of 0] m [of 2] by (intro exI [of _ s'] exI [of _ k]) (simp add: five_entries_ok)
qed

text \<open>
  \<open>update_codes\<close> on lists that the array map is consistent with, all ids known: each id's entry
  is replaced by one with the new code (the last one given, when an id is given twice), in the list
  assigned, and \<open>get\<close> finds the place of every entry.
\<close>

theorem direct_map_update:
  assumes "ail_ok cs s" "consistent (ail_lists s) (dm_map dm)" "small (ail_lists s)" "dm_type dm = Array_map"
    and "\<forall>(x, j, code) \<in> set es. x \<in> fst ` set (concat (ail_lists s)) \<and> j < ail_nlist s \<and> length code = cs"
  shows "\<exists>s' dm'. update_codes ail_ops es s dm = Inr (s', dm')
    \<and> mset (concat (ail_lists s')) =
      fold (\<lambda>(x, j, code) m. add_mset (x, code) (filter_mset (\<lambda>e. fst e \<noteq> x) m)) es (mset (concat (ail_lists s)))
    \<and> (\<forall>i k x. located (ail_lists s') i k x \<longrightarrow> dm_get x dm' = Inr (lo_build i k))"
proof -
  have "consistent (ail_lists s) (arr_map (dm_array dm))" using assms(2,4) by (simp add: dm_map_def)
  from ail.update_codes_spec [OF assms(1) this assms(3,4), of es] obtain s' dm' where 1:
    "update_codes ail_ops es s dm = Inr (s', dm')" "consistent (ail_lists s') (arr_map (dm_array dm'))"
    "small (ail_lists s')" "dm_type dm' = Array_map"
    "mset (concat (ail_lists s')) =
      fold (\<lambda>(x, j, code) m. add_mset (x, code) (filter_mset (\<lambda>e. fst e \<noteq> x) m)) es (mset (concat (ail_lists s)))"
    using assms(1,5) by auto
  have "consistent (ail_lists s') (dm_map dm')" using 1(2,4) by (simp add: dm_map_def)
  then show ?thesis using 1 dm_get_consistent(1) [OF _ small_fits [OF 1(3)]] by auto
qed

theorem direct_map_update_witness:
  "\<exists>dm s' dm'. set_type Array_map (ail_view five_entries) 6 dm_new = Inr dm
    \<and> update_codes ail_ops [(2, 2, [9]), (5, 0, [8])] five_entries dm = Inr (s', dm')
    \<and> mset (concat (ail_lists s')) = {#(1, [1]), (3, [3]), (4, [4]), (2, [9]), (5, [8])#}"
proof -
  note L = five_entries_ok(2)
  have "represents (ail_view five_entries) (ail_lists five_entries)"
    using ail.view [OF five_entries_ok(1)] by (simp add: ail_ops_def)
  from set_type_spec [OF this, of Array_map dm_new 6] obtain dm where dm:
    "set_type Array_map (ail_view five_entries) 6 dm_new = Inr dm" "dm_type dm = Array_map"
    "consistent (ail_lists five_entries) (dm_map dm)"
    by (auto simp: L fits_def dm_new_def)
  have s: "small (ail_lists five_entries)" by (simp add: L small_def)
  have "ail_nlist five_entries = 3" by (simp add: five_entries_def)
  then have "\<forall>(x, j, code) \<in> set [(2, 2, [9]), (5, 0, [8])].
      x \<in> fst ` set (concat (ail_lists five_entries)) \<and> j < ail_nlist five_entries \<and> length code = 1"
    by (simp add: L)
  from direct_map_update [OF five_entries_ok(1) dm(3) s dm(2) this] obtain s' dm' where 1:
    "update_codes ail_ops [(2, 2, [9]), (5, 0, [8])] five_entries dm = Inr (s', dm')"
    and m: "mset (concat (ail_lists s')) = fold (\<lambda>(x, j, code) m. add_mset (x, code) (filter_mset (\<lambda>e. fst e \<noteq> x) m))
      [(2, 2 :: nat, [9]), (5, 0, [8])] (mset (concat (ail_lists five_entries)))" by blast
  have "mset (concat (ail_lists s')) = {#(1, [1]), (3, [3]), (4, [4]), (2, [9]), (5, [8])#}" unfolding m L by simp
  then show ?thesis using dm(1) 1 by blast
qed

text \<open>
  Adding to a hash table without ids: \<open>DirectMapAdd\<close> sets its member \<open>ntotal\<close> only for
  arrays and its destructor reads it for the ids, so that every such addition of a vector reads a
  member that was never set.
\<close>

theorem hashtable_add_needs_ids:
  assumes "dm_type dm = Hashtable" "0 < n" "\<forall>(i, list_no, ofs) \<in> set adds. i < n"
  shows "\<exists>st. dma_new dm n None = Inr st
    \<and> (\<exists>st'. fold_result (\<lambda>(i, list_no, ofs). dma_add i list_no ofs) adds st = Inr st'
      \<and> dma_finish st' = Inl Uninitialised)"
proof -
  define ok where "ok st \<longleftrightarrow> snd st = dm \<and> dma_ntotal (fst st) = None \<and> dma_xids (fst st) = None
    \<and> dma_n (fst st) = n \<and> length (dma_all_ofs (fst st)) = n" for st :: "direct_map_add \<times> direct_map"
  have "\<exists>st'. fold_result (\<lambda>(i, list_no, ofs). dma_add i list_no ofs) adds st = Inr st' \<and> ok st'" if "ok st" for st
    using that assms(3)
  proof (induction adds arbitrary: st)
    case (Cons e es)
    obtain i l ofs where e: "e = (i, l, ofs)" by (cases e)
    then obtain st1 where "dma_add i l ofs st = Inr st1" "ok st1"
      using Cons.prems assms(1) by (auto simp: dma_add_def ok_def Let_def)
    then show ?case using Cons.IH [of st1] Cons.prems(2) by (simp add: e)
  qed simp
  moreover obtain st where "dma_new dm n None = Inr st" "ok st"
    using assms(1) by (simp add: dma_new_def ok_def Let_def)
  moreover have "dma_finish st' = Inl Uninitialised" if "ok st'" for st'
  proof -
    have "[0..<n] = 0 # [1..<n]" using assms(2) by (simp add: upt_conv_Cons)
    then show ?thesis using that assms(1) by (simp add: dma_finish_def ok_def Let_def dma_id_def)
  qed
  ultimately show ?thesis by blast
qed

theorem hashtable_add_needs_ids_witness:
  "\<exists>st. dma_new (dm_new\<lparr>dm_type := Hashtable\<rparr>) 2 None = Inr st
    \<and> (\<exists>st'. fold_result (\<lambda>(i, list_no, ofs). dma_add i list_no ofs) [(0, 3, 5), (1, 3, 6)] st = Inr st'
      \<and> dma_finish st' = Inl Uninitialised)"
  using hashtable_add_needs_ids [of "dm_new\<lparr>dm_type := Hashtable\<rparr>" 2 "[(0, 3, 5), (1, 3, 6)]"] by simp

end
