(* ===== verification/Vector_Index.thy ===== *)
theory Vector_Index
  imports ID_Selectors Vectors
begin

text \<open>
  The part of \<open>faiss::Index\<close> (\<open>faiss/Index.h\<close>) on which the wrapping indexes rely: a record of
  the virtual functions, and what an index over a list of vectors promises. \<open>rnd\<close> is what storing
  does to a vector (nothing for a flat index, quantization otherwise).
\<close>

record ('s, 'v) index_ops =
  ix_ntotal :: "'s \<Rightarrow> nat"
  ix_add :: "'v list \<Rightarrow> 's \<Rightarrow> 's result"
  ix_add_sa_codes :: "nat \<Rightarrow> 8 word list \<Rightarrow> 's \<Rightarrow> 's result"
  ix_reset :: "'s \<Rightarrow> 's"
  ix_reconstruct :: "idx_t \<Rightarrow> 's \<Rightarrow> 'v result"
  ix_remove_ids :: "id_selector \<Rightarrow> 's \<Rightarrow> ('s \<times> nat) result"
  ix_check_compatible :: "'s \<Rightarrow> 's \<Rightarrow> unit result"
  ix_merge_from :: "'s \<Rightarrow> 's \<Rightarrow> ('s \<times> 's) result"

text \<open>The positions that a selection leaves, in order.\<close>

definition kept_positions :: "(idx_t \<Rightarrow> bool) \<Rightarrow> nat \<Rightarrow> nat list" where
  "kept_positions P n = filter (\<lambda>i. \<not> P (int i)) [0..<n]"

lemma kept_positions_Suc:
  "kept_positions P (Suc n) = kept_positions P n @ (if P (int n) then [] else [n])"
  by (simp add: kept_positions_def)

lemma kept_positions_le: "length (kept_positions P n) \<le> n"
  unfolding kept_positions_def by (metis length_filter_le length_upt diff_zero)

lemma kept_positions_less: "i \<in> set (kept_positions P n) \<Longrightarrow> i < n"
  by (simp add: kept_positions_def)

locale vector_index =
  fixes ops :: "('s, 'v) index_ops" and inv :: "'s \<Rightarrow> bool" and V :: "'s \<Rightarrow> 'v list"
    and vec :: "'v \<Rightarrow> bool" and rnd :: "'v \<Rightarrow> 'v"
  assumes ntotal: "inv s \<Longrightarrow> ix_ntotal ops s = length (V s)"
    and add: "inv s \<Longrightarrow> \<forall>x \<in> set xs. vec x \<Longrightarrow>
      \<exists>s'. ix_add ops xs s = Inr s' \<and> inv s' \<and> V s' = V s @ map rnd xs"
    and reset: "inv s \<Longrightarrow> inv (ix_reset ops s) \<and> V (ix_reset ops s) = []"
    and reconstruct: "inv s \<Longrightarrow> i < length (V s) \<Longrightarrow> ix_reconstruct ops (int i) s = Inr (V s ! i)"
begin

lemma reconstruct_added:
  assumes "inv s" "\<forall>x \<in> set xs. vec x" "i < length xs"
  shows "\<exists>s'. ix_add ops xs s = Inr s' \<and> ix_reconstruct ops (int (length (V s) + i)) s' = Inr (rnd (xs ! i))"
proof -
  obtain s' where s': "ix_add ops xs s = Inr s'" "inv s'" "V s' = V s @ map rnd xs" using add [OF assms(1,2)] by blast
  then have "V s' ! (length (V s) + i) = rnd (xs ! i)" "length (V s) + i < length (V s')" using assms(3) by (simp_all add: nth_append)
  then show ?thesis using s'(1) reconstruct [OF s'(2), of "length (V s) + i"] by simp
qed

end

locale editable_index = vector_index +
  assumes remove: "inv s \<Longrightarrow> (\<And>i. i < length (V s) \<Longrightarrow> is_member sel (int i) = Inr (P (int i))) \<Longrightarrow>
      \<exists>s'. ix_remove_ids ops sel s = Inr (s', length (V s) - length (V s')) \<and> inv s'
        \<and> V s' = map ((!) (V s)) (kept_positions P (length (V s)))"
    and merge: "inv s \<Longrightarrow> inv t \<Longrightarrow> ix_check_compatible ops s t = Inr () \<Longrightarrow>
      \<exists>s' t'. ix_merge_from ops s t = Inr (s', t') \<and> inv s' \<and> inv t' \<and> V s' = V s @ V t \<and> V t' = []"
begin

lemma remove_length:
  assumes "inv s" "\<And>i. i < length (V s) \<Longrightarrow> is_member sel (int i) = Inr (P (int i))"
    and "ix_remove_ids ops sel s = Inr (s', n)"
  shows "length (V s') = length (kept_positions P (length (V s)))" "n + length (V s') = length (V s)"
  using remove [of s sel P, OF assms(1,2)] assms(3) kept_positions_le [of P "length (V s)"] by auto

end

end
