(* ===== verification/Flat_Codes.thy ===== *)
theory Flat_Codes
  imports Vector_Index Block_Handlers Distance_Computer
begin

text \<open>
  \<open>IndexFlatCodes\<close> (\<open>faiss/IndexFlatCodes.cpp\<close>): vectors as codes of a fixed size, one after the
  other. How one vector is encoded and decoded (virtual functions of the subclass) and the
  distance of two vectors are parameters; the codec of \<open>IndexFlat\<close>, which copies the vector, is an
  instance. The distance computer and the search are those that decode the stored codes.
\<close>

record 'v codec =
  cod_encode :: "'v \<Rightarrow> 8 word list"
  cod_decode :: "8 word list \<Rightarrow> 'v"

definition sa_encode :: "'v codec \<Rightarrow> 'v list \<Rightarrow> 8 word list" where
  "sa_encode cd xs = concat (map (cod_encode cd) xs)"

definition sa_decode :: "'v codec \<Rightarrow> nat \<Rightarrow> nat \<Rightarrow> 8 word list \<Rightarrow> 'v list" where
  "sa_decode cd cs n bytes = map (cod_decode cd) (chunks cs n bytes)"

text \<open>\<open>IndexFlat\<close>: the code is the vector, a string of \<open>4 * d\<close> bytes.\<close>

definition flat_codec :: "8 word list codec" where
  "flat_codec = \<lparr>cod_encode = (\<lambda>x. x), cod_decode = (\<lambda>x. x)\<rparr>"

record flat_codes =
  fc_d :: nat
  fc_code_size :: nat
  fc_class :: string
  fc_is_trained :: bool
  fc_codes :: "8 word list"
  fc_ntotal :: nat

definition fc_new :: "string \<Rightarrow> nat \<Rightarrow> nat \<Rightarrow> flat_codes" where
  "fc_new cls d cs = \<lparr>fc_d = d, fc_code_size = cs, fc_class = cls, fc_is_trained = True, fc_codes = [], fc_ntotal = 0\<rparr>"

definition fc_add :: "'v codec \<Rightarrow> 'v list \<Rightarrow> flat_codes \<Rightarrow> flat_codes result" where
  "fc_add cd xs s =
     (if \<not> fc_is_trained s then Inl (Throw ''is_trained'')
      else if length xs = 0 then Inr s
      else
        let n = length xs; cs = fc_code_size s in
        bind_result (memcpy (fc_ntotal s * cs) (sa_encode cd xs) (n * cs)
            (resize ((fc_ntotal s + n) * cs) 0 (fc_codes s))) (\<lambda>codes.
        Inr (s\<lparr>fc_codes := codes, fc_ntotal := fc_ntotal s + n\<rparr>)))"

definition fc_add_sa_codes :: "nat \<Rightarrow> 8 word list \<Rightarrow> flat_codes \<Rightarrow> flat_codes result" where
  "fc_add_sa_codes n codes_in s =
     (let cs = fc_code_size s in
      bind_result (memcpy (fc_ntotal s * cs) codes_in (n * cs)
          (resize ((fc_ntotal s + n) * cs) 0 (fc_codes s))) (\<lambda>codes.
      Inr (s\<lparr>fc_codes := codes, fc_ntotal := fc_ntotal s + n\<rparr>)))"

definition fc_reset :: "flat_codes \<Rightarrow> flat_codes" where
  "fc_reset s = s\<lparr>fc_codes := [], fc_ntotal := 0\<rparr>"

text \<open>\<open>remove_ids\<close>: the loop moves the codes that stay to the front.\<close>

definition fc_remove_step ::
  "nat \<Rightarrow> (idx_t \<Rightarrow> bool result) \<Rightarrow> nat \<Rightarrow> nat \<times> 8 word list \<Rightarrow> (nat \<times> 8 word list) result" where
  "fc_remove_step cs sel i st =
     (case st of (j, codes) \<Rightarrow>
        bind_result (sel (int i)) (\<lambda>b.
          if b then Inr (j, codes)
          else if j < i then
            bind_result (memcpy (cs * j) (subrange (cs * i) cs codes) cs codes) (\<lambda>codes. Inr (j + 1, codes))
          else Inr (j + 1, codes)))"

definition fc_remove_ids :: "id_selector \<Rightarrow> flat_codes \<Rightarrow> (flat_codes \<times> nat) result" where
  "fc_remove_ids sel s =
     bind_result (fold_result (fc_remove_step (fc_code_size s) (is_member sel)) [0..<fc_ntotal s] (0, fc_codes s)) (\<lambda>(j, codes).
       let nremove = fc_ntotal s - j in
       Inr (if 0 < nremove
            then s\<lparr>fc_ntotal := j, fc_codes := resize (j * fc_code_size s) 0 codes\<rparr>
            else s\<lparr>fc_codes := codes\<rparr>, nremove))"

definition fc_reconstruct_n :: "'v codec \<Rightarrow> int \<Rightarrow> nat \<Rightarrow> flat_codes \<Rightarrow> 'v list result" where
  "fc_reconstruct_n cd i0 ni s =
     (if \<not> (ni = 0 \<or> (0 \<le> i0 \<and> i0 + int ni \<le> int (fc_ntotal s)))
      then Inl (Throw ''ni == 0 || (i0 >= 0 && i0 + ni <= ntotal)'')
      else Inr (sa_decode cd (fc_code_size s) ni (drop (nat i0 * fc_code_size s) (fc_codes s))))"

definition fc_reconstruct :: "'v codec \<Rightarrow> idx_t \<Rightarrow> flat_codes \<Rightarrow> 'v result" where
  "fc_reconstruct cd key s = bind_result (fc_reconstruct_n cd key 1 s) (\<lambda>xs. Inr (hd xs))"

definition fc_check_compatible :: "flat_codes \<Rightarrow> flat_codes \<Rightarrow> unit result" where
  "fc_check_compatible s other =
     (if fc_d other \<noteq> fc_d s then Inl (Throw ''other->d == d'')
      else if fc_code_size other \<noteq> fc_code_size s then Inl (Throw ''other->code_size == code_size'')
      else if fc_class s \<noteq> fc_class other then Inl (Throw ''can only merge indexes of the same type'')
      else Inr ())"

definition fc_merge_from :: "flat_codes \<Rightarrow> flat_codes \<Rightarrow> idx_t \<Rightarrow> (flat_codes \<times> flat_codes) result" where
  "fc_merge_from s other add_id =
     (if add_id \<noteq> 0 then Inl (Throw ''cannot set ids in FlatCodes index'')
      else bind_result (fc_check_compatible s other) (\<lambda>_.
        let cs = fc_code_size s in
        bind_result (memcpy (fc_ntotal s * cs) (fc_codes other) (fc_ntotal other * cs)
            (resize ((fc_ntotal s + fc_ntotal other) * cs) 0 (fc_codes s))) (\<lambda>codes.
        Inr (s\<lparr>fc_codes := codes, fc_ntotal := fc_ntotal s + fc_ntotal other\<rparr>, fc_reset other))))"

definition fc_permute_entries :: "nat list \<Rightarrow> flat_codes \<Rightarrow> flat_codes result" where
  "fc_permute_entries perm s =
     (let cs = fc_code_size s in
      if length perm < fc_ntotal s then Inl Out_of_bounds
      else bind_result
        (fold_result (\<lambda>i new_codes. memcpy (i * cs) (drop (perm ! i * cs) (fc_codes s)) cs new_codes)
          [0..<fc_ntotal s] (replicate (length (fc_codes s)) 0)) (\<lambda>new_codes.
        Inr (s\<lparr>fc_codes := new_codes\<rparr>)))"

section \<open>Distances and search\<close>

text \<open>\<open>GenericFlatCodesDistanceComputer\<close>: \<open>vd\<close> is the distance of the metric.\<close>

definition fc_code :: "flat_codes \<Rightarrow> idx_t \<Rightarrow> 8 word list" where
  "fc_code s i = map (\<lambda>j. fc_codes s ! (nat i * fc_code_size s + j)) [0..<fc_code_size s]"

definition fc_distance_computer :: "'v codec \<Rightarrow> ('v \<Rightarrow> 'v \<Rightarrow> 'd) \<Rightarrow> flat_codes \<Rightarrow> 'v \<Rightarrow> 'd distance_computer" where
  "fc_distance_computer cd vd s query =
     \<lparr>query_dis = (\<lambda>i. vd query (cod_decode cd (fc_code s i))),
      distances_batch_4 = (\<lambda>idx0 idx1 idx2 idx3.
        let code_buffer = fc_code s idx0 @ fc_code s idx1 @ fc_code s idx2 @ fc_code s idx3;
            vec_buffer = sa_decode cd (fc_code_size s) 4 code_buffer in
        (vd query (vec_buffer ! 0), vd query (vec_buffer ! 1), vd query (vec_buffer ! 2), vd query (vec_buffer ! 3))),
      symmetric_dis = (\<lambda>i j. vd (cod_decode cd (fc_code s i)) (cod_decode cd (fc_code s j)))\<rparr>"

text \<open>\<open>Run_search_with_decompress\<close>: the exhaustive search of one query.\<close>

definition fc_search_step ::
  "'d distance_computer \<Rightarrow> ('r, 'd) result_handler \<Rightarrow> id_selector option \<Rightarrow> nat \<Rightarrow> 'r \<Rightarrow> 'r result" where
  "fc_search_step dc H sel i r =
     bind_result (case sel of None \<Rightarrow> Inr True | Some sl \<Rightarrow> is_member sl (int i)) (\<lambda>b.
       Inr (if b then fst (add_result H r (query_dis dc (int i)) (int i)) else r))"

definition fc_search_query ::
  "'v codec \<Rightarrow> ('v \<Rightarrow> 'v \<Rightarrow> 'd) \<Rightarrow> flat_codes \<Rightarrow> ('r, 'd) result_handler \<Rightarrow> id_selector option \<Rightarrow> 'v \<Rightarrow> 'r \<Rightarrow> 'r result" where
  "fc_search_query cd vd s H sel query r =
     fold_result (fc_search_step (fc_distance_computer cd vd s query) H sel) [0..<fc_ntotal s] r"

text \<open>All queries with the heap handler, on the rows of the result tables.\<close>

fun fc_search_rows ::
  "'d comparator \<Rightarrow> nat \<Rightarrow> 'v codec \<Rightarrow> ('v \<Rightarrow> 'v \<Rightarrow> 'd) \<Rightarrow> flat_codes \<Rightarrow> id_selector option \<Rightarrow> nat \<Rightarrow> 'v list \<Rightarrow>
   'd list \<times> idx_t list \<Rightarrow> ('d list \<times> idx_t list) result" where
  "fc_search_rows C k cd vd s sel q [] t = Inr t"
| "fc_search_rows C k cd vd s sel q (x # xs) t =
     bind_result (fc_search_query cd vd s (heap_result_handler C) sel x
         (hh_begin C k (row k q (fst t)) (row k q (snd t)))) (\<lambda>r.
       fc_search_rows C k cd vd s sel (q + 1) xs (on_row k (\<lambda>_. hh_end C r) q t))"

definition fc_ops :: "'v codec \<Rightarrow> (flat_codes, 'v) index_ops" where
  "fc_ops cd = \<lparr>ix_ntotal = fc_ntotal, ix_add = fc_add cd, ix_add_sa_codes = fc_add_sa_codes, ix_reset = fc_reset,
     ix_reconstruct = fc_reconstruct cd, ix_remove_ids = fc_remove_ids,
     ix_check_compatible = fc_check_compatible, ix_merge_from = (\<lambda>s t. fc_merge_from s t 0)\<rparr>"

end
