(* ===== verification/Flat_Codes_Correct.thy ===== *)
theory Flat_Codes_Correct
  imports Flat_Codes
begin

text \<open>
  \<open>IndexFlatCodes\<close> keeps the promises of an index over a list of vectors, for every codec whose
  codes have the declared size; its search returns the exact answer.
\<close>

section \<open>The rows of codes\<close>

definition fc_ok :: "nat \<Rightarrow> flat_codes \<Rightarrow> bool" where
  "fc_ok cs s \<longleftrightarrow> fc_code_size s = cs \<and> fc_is_trained s \<and> length (fc_codes s) = fc_ntotal s * cs"

definition fc_rows :: "flat_codes \<Rightarrow> 8 word list list" where
  "fc_rows s = chunks (fc_code_size s) (fc_ntotal s) (fc_codes s)"

definition fc_vecs :: "'v codec \<Rightarrow> flat_codes \<Rightarrow> 'v list" where
  "fc_vecs cd s = map (cod_decode cd) (fc_rows s)"

lemma length_fc_rows [simp]: "length (fc_rows s) = fc_ntotal s"
  by (simp add: fc_rows_def)

lemma length_fc_vecs [simp]: "length (fc_vecs cd s) = fc_ntotal s"
  by (simp add: fc_vecs_def)

lemma fc_rowsD:
  assumes "fc_ok cs s"
  shows "fc_codes s = concat (fc_rows s)" "all_length cs (fc_rows s)" "fc_code_size s = cs"
  using concat_chunks [of "fc_codes s" "fc_ntotal s" cs] assms by (simp_all add: fc_ok_def fc_rows_def)

lemma fc_rowsI:
  assumes "fc_code_size s = cs" "fc_is_trained s" "fc_codes s = concat rows" "all_length cs rows" "fc_ntotal s = length rows"
  shows "fc_ok cs s \<and> fc_rows s = rows"
  using assms chunks_concat [OF assms(4) refl] by (simp add: fc_ok_def fc_rows_def)

lemma fc_code_row: "fc_ok cs s \<Longrightarrow> i < fc_ntotal s \<Longrightarrow> fc_code s (int i) = fc_rows s ! i"
proof -
  assume s: "fc_ok cs s" and i: "i < fc_ntotal s"
  have "Suc i * cs \<le> fc_ntotal s * cs" using i by (intro mult_le_mono1) simp
  then have "i * cs + cs \<le> length (fc_codes s)" using s by (simp add: fc_ok_def)
  then have "subrange (i * cs) cs (fc_codes s) = map (\<lambda>j. fc_codes s ! (i * cs + j)) [0..<cs]"
    by (intro nth_equalityI) (simp_all add: subrange_def)
  then show ?thesis using s i by (simp add: fc_code_def fc_rows_def nth_chunks fc_ok_def)
qed

lemma fc_append:
  assumes "fc_ok cs s" "all_length cs rows"
  shows "memcpy (fc_ntotal s * cs) (concat rows) (length rows * cs) (resize ((fc_ntotal s + length rows) * cs) 0 (fc_codes s))
      = Inr (concat (fc_rows s @ rows))"
proof -
  note r = fc_rowsD [OF assms(1)]
  have "memcpy (fc_ntotal s * cs) (concat rows) (length rows * cs) (resize ((fc_ntotal s + length rows) * cs) 0 (fc_codes s))
      = Inr (fc_codes s @ concat rows)"
    using assms by (intro memcpy_append) (simp_all add: fc_ok_def distrib_right)
  then show ?thesis using r(1) by simp
qed

lemma fc_append_ok:
  assumes "fc_ok cs s" "all_length cs rows"
  shows "fc_ok cs (s\<lparr>fc_codes := concat (fc_rows s @ rows), fc_ntotal := fc_ntotal s + length rows\<rparr>)
    \<and> fc_rows (s\<lparr>fc_codes := concat (fc_rows s @ rows), fc_ntotal := fc_ntotal s + length rows\<rparr>) = fc_rows s @ rows"
  using assms fc_rowsD(2,3) [OF assms(1)] by (intro fc_rowsI) (simp_all add: fc_ok_def)

section \<open>Removal\<close>

lemma fc_remove_loop:
  assumes "all_length cs rows" "\<And>i. i < length rows \<Longrightarrow> sel (int i) = Inr (P (int i))" "m \<le> length rows"
  shows "\<exists>rows'. fold_result (fc_remove_step cs sel) [0..<m] (0, concat rows) =
      Inr (length (kept_positions P m), concat rows') \<and> all_length cs rows' \<and> length rows' = length rows
    \<and> take (length (kept_positions P m)) rows' = map ((!) rows) (kept_positions P m) \<and> drop m rows' = drop m rows"
  using assms(3)
proof (induction m)
  case 0
  then show ?case using assms(1) by (intro exI [of _ rows]) (simp add: kept_positions_def)
next
  case (Suc m)
  let ?j = "length (kept_positions P m)"
  have m: "m < length rows" and j: "?j \<le> m" using Suc.prems kept_positions_le [of P m] by simp_all
  from Suc obtain rows' where r: "fold_result (fc_remove_step cs sel) [0..<m] (0, concat rows) = Inr (?j, concat rows')"
    "all_length cs rows'" "length rows' = length rows" "take ?j rows' = map ((!) rows) (kept_positions P m)"
    "drop m rows' = drop m rows" by auto
  have rm: "rows' ! m = rows ! m" "drop (Suc m) rows' = drop (Suc m) rows"
    using arg_cong [OF r(5), of hd] arg_cong [OF r(5), of tl] m r(3) by (simp_all add: hd_drop_conv_nth tl_drop drop_Suc)
  have run: "fold_result (fc_remove_step cs sel) [0..<Suc m] (0, concat rows) = fc_remove_step cs sel m (?j, concat rows')"
    using r(1) by (cases "fc_remove_step cs sel m (?j, concat rows')") (simp_all add: fold_result_append)
  show ?case
  proof (cases "P (int m)")
    case True
    then have "fc_remove_step cs sel m (?j, concat rows') = Inr (?j, concat rows')"
      using assms(2) [OF m] by (simp add: fc_remove_step_def)
    then show ?thesis using True run r rm by (intro exI [of _ rows']) (simp add: kept_positions_Suc)
  next
    case False
    let ?new = "rows'[?j := rows ! m]"
    have lm: "length (rows ! m) = cs" using assms(1) m by (simp add: all_length_def)
    have al: "all_length cs ?new" using r(2) lm set_update_subset_insert [of rows' ?j "rows ! m"] by (auto simp: all_length_def)
    have jr: "?j < length rows'" using j m r(3) by simp
    have "fc_remove_step cs sel m (?j, concat rows') = Inr (?j + 1, concat ?new)"
    proof (cases "?j < m")
      case True
      have sr: "subrange (cs * m) cs (concat rows') = rows ! m"
        using subrange_concat_all [OF r(2), of m] m r(3) rm(1) by (simp add: mult.commute)
      have b: "cs * ?j + cs \<le> length (concat rows')"
      proof -
        have "Suc ?j * cs \<le> length rows' * cs" using jr by (intro mult_le_mono1) simp
        then show ?thesis using r(2) by (simp add: mult.commute)
      qed
      have "overwrite (?j * cs) (concat [rows ! m]) (concat rows') = concat (overwrite ?j [rows ! m] rows')"
        using r(2) lm by (intro overwrite_concat_all) simp_all
      then have "memcpy (cs * ?j) (rows ! m) cs (concat rows') = Inr (concat ?new)"
        using b lm jr by (simp add: memcpy_def overwrite_single mult.commute)
      then show ?thesis using True False assms(2) [OF m] sr by (simp add: fc_remove_step_def)
    next
      case ge: False
      then have "?new = rows'" using j rm(1) by (metis le_neq_implies_less list_update_id)
      then show ?thesis using ge False assms(2) [OF m] by (simp add: fc_remove_step_def)
    qed
    moreover have "take (Suc ?j) ?new = take ?j rows' @ [rows ! m]"
      using jr by (simp add: take_Suc_conv_app_nth)
    moreover have "drop (Suc m) ?new = drop (Suc m) rows" using j rm(2) by simp
    ultimately show ?thesis using run al r(3,4) False
      by (intro exI [of _ ?new]) (simp add: kept_positions_Suc)
  qed
qed

lemma fc_remove_spec:
  assumes ok: "fc_ok cs s" and sel: "\<And>i. i < fc_ntotal s \<Longrightarrow> is_member sel (int i) = Inr (P (int i))"
  shows "\<exists>s'. fc_remove_ids sel s = Inr (s', fc_ntotal s - length (kept_positions P (fc_ntotal s))) \<and> fc_ok cs s'
    \<and> fc_rows s' = map ((!) (fc_rows s)) (kept_positions P (fc_ntotal s))"
proof -
  note r = fc_rowsD [OF ok]
  let ?n = "fc_ntotal s" let ?k = "kept_positions P ?n"
  obtain rows' where l: "fold_result (fc_remove_step cs (is_member sel)) [0..<?n] (0, fc_codes s) = Inr (length ?k, concat rows')"
    "all_length cs rows'" "length rows' = ?n" "take (length ?k) rows' = map ((!) (fc_rows s)) ?k"
    using fc_remove_loop [OF r(2), of "is_member sel" P ?n] sel r(1) by auto
  let ?keep = "take (length ?k) rows'"
  have al: "all_length cs ?keep" using l(2) by (rule all_length_subset) (meson set_take_subset)
  have len: "length ?keep = length ?k" using l(4) by simp
  define s' where "s' = (if 0 < ?n - length ?k
      then s\<lparr>fc_ntotal := length ?k, fc_codes := resize (length ?k * cs) 0 (concat rows')\<rparr> else s\<lparr>fc_codes := concat rows'\<rparr>)"
  have "fc_ok cs s' \<and> fc_rows s' = ?keep"
  proof (cases "0 < ?n - length ?k")
    case True
    have "length ?k * cs \<le> length (concat rows')"
      using l(2,3) kept_positions_le [of P ?n] by (simp add: mult_le_mono1)
    then have "resize (length ?k * cs) 0 (concat rows') = concat ?keep"
      using l(2) by (simp add: resize_shrink take_concat_all)
    then show ?thesis using True ok al len by (intro fc_rowsI) (simp_all add: s'_def fc_ok_def)
  next
    case False
    then have "?keep = rows'" using l(3) by simp
    then show ?thesis using False ok l(2,3) by (intro fc_rowsI) (simp_all add: s'_def fc_ok_def)
  qed
  moreover have "fc_remove_ids sel s = Inr (s', ?n - length ?k)"
    using l(1) r(3) by (simp add: fc_remove_ids_def s'_def Let_def)
  ultimately show ?thesis using l(4) by auto
qed

section \<open>Permutation\<close>

lemma fc_permute_spec:
  assumes ok: "fc_ok cs s" and perm: "length perm = fc_ntotal s" "\<forall>p \<in> set perm. p < fc_ntotal s"
  shows "\<exists>s'. fc_permute_entries perm s = Inr s' \<and> fc_ok cs s' \<and> fc_ntotal s' = fc_ntotal s
    \<and> fc_rows s' = map ((!) (fc_rows s)) perm"
proof -
  note r = fc_rowsD [OF ok]
  let ?n = "fc_ntotal s" let ?R = "fc_rows s"
  let ?step = "\<lambda>i new_codes. memcpy (i * cs) (drop (perm ! i * cs) (fc_codes s)) cs new_codes"
  have "\<exists>rest. fold_result ?step [0..<m] (replicate (length (fc_codes s)) 0) =
      Inr (concat (map ((!) ?R) (take m perm) @ rest)) \<and> all_length cs rest \<and> m + length rest = ?n" if "m \<le> ?n" for m
    using that
  proof (induction m)
    case 0
    have "replicate (n * cs) (0 :: 8 word) = concat (replicate n (replicate cs 0))" for n
      by (induction n) (simp_all add: replicate_add)
    moreover have "length (fc_codes s) = ?n * cs" using ok by (simp add: fc_ok_def)
    moreover have "all_length cs (replicate ?n (replicate cs (0 :: 8 word)))" by (simp add: all_length_def)
    ultimately show ?case by (intro exI [of _ "replicate ?n (replicate cs 0)"]) simp
  next
    case (Suc m)
    then obtain rest where i: "fold_result ?step [0..<m] (replicate (length (fc_codes s)) 0) =
      Inr (concat (map ((!) ?R) (take m perm) @ rest))" "all_length cs rest" "m + length rest = ?n" by auto
    have m: "m < ?n" using Suc.prems by simp
    then obtain c rest' where rest: "rest = c # rest'" using i(3) by (cases rest) auto
    have pm: "perm ! m < ?n" using perm m by simp
    have src: "take cs (drop (perm ! m * cs) (fc_codes s)) = ?R ! (perm ! m)"
      using subrange_concat_all [OF r(2), of "perm ! m"] pm r(1) by (simp add: subrange_def)
    have lr: "length (?R ! (perm ! m)) = cs" using r(2) pm by (simp add: all_length_def)
    let ?pre = "map ((!) ?R) (take m perm)"
    have pre: "length ?pre = m" "all_length cs ?pre"
    proof -
      show "length ?pre = m" using m perm(1) by simp
      have "set (take m perm) \<subseteq> set perm" by (rule set_take_subset)
      then show "all_length cs ?pre" using r(2) perm(2) by (auto simp: all_length_def)
    qed
    let ?cur = "?pre @ c # rest'"
    have al: "all_length cs ?cur" using pre i(2) rest by simp
    have "overwrite (m * cs) (concat [?R ! (perm ! m)]) (concat ?cur) = concat (overwrite m [?R ! (perm ! m)] ?cur)"
      using al lr by (intro overwrite_concat_all) simp_all
    also have "overwrite m [?R ! (perm ! m)] ?cur = ?pre @ ?R ! (perm ! m) # rest'"
      using pre(1) by (simp add: overwrite_single list_update_middle)
    finally have ow: "overwrite (m * cs) (?R ! (perm ! m)) (concat ?cur) = concat (?pre @ ?R ! (perm ! m) # rest')" by simp
    have "Suc m * cs \<le> length ?cur * cs" using pre(1) by (intro mult_le_mono1) simp
    then have b: "m * cs + cs \<le> length (concat ?cur)" unfolding length_concat_all [OF al] by simp
    have "cs \<le> length (drop (perm ! m * cs) (fc_codes s))" using src lr by (metis length_take min.cobounded1)
    then have "memcpy (m * cs) (drop (perm ! m * cs) (fc_codes s)) cs (concat ?cur) = Inr (concat (?pre @ ?R ! (perm ! m) # rest'))"
      using b ow src by (simp add: memcpy_def)
    then show ?case using i rest m perm(1)
      by (intro exI [of _ rest']) (simp add: fold_result_append take_Suc_conv_app_nth)
  qed
  from this [of ?n] have "fold_result ?step [0..<?n] (replicate (length (fc_codes s)) 0) = Inr (concat (map ((!) ?R) perm))"
    using perm(1) by auto
  then have "fc_permute_entries perm s = Inr (s\<lparr>fc_codes := concat (map ((!) ?R) perm)\<rparr>)"
    using perm(1) r(3) by (simp add: fc_permute_entries_def Let_def)
  moreover have "fc_ok cs (s\<lparr>fc_codes := concat (map ((!) ?R) perm)\<rparr>) \<and>
      fc_rows (s\<lparr>fc_codes := concat (map ((!) ?R) perm)\<rparr>) = map ((!) ?R) perm"
    using ok perm r(2) by (intro fc_rowsI) (auto simp: fc_ok_def all_length_def)
  ultimately show ?thesis by (intro exI [of _ "s\<lparr>fc_codes := concat (map ((!) ?R) perm)\<rparr>"]) simp
qed

section \<open>Codecs\<close>

locale fixed_codec =
  fixes cd :: "'v codec" and vec :: "'v \<Rightarrow> bool" and cs :: nat
  assumes encode_length: "vec x \<Longrightarrow> length (cod_encode cd x) = cs"
begin

lemma encode_all: "\<forall>x \<in> set xs. vec x \<Longrightarrow> all_length cs (map (cod_encode cd) xs)"
  by (auto simp: all_length_def encode_length)

lemma add_spec:
  assumes "fc_ok cs s" "\<forall>x \<in> set xs. vec x"
  shows "\<exists>s'. fc_add cd xs s = Inr s' \<and> fc_ok cs s' \<and> fc_rows s' = fc_rows s @ map (cod_encode cd) xs"
proof (cases "xs = []")
  case False
  note al = encode_all [OF assms(2)]
  have "fc_add cd xs s = Inr (s\<lparr>fc_codes := concat (fc_rows s @ map (cod_encode cd) xs), fc_ntotal := fc_ntotal s + length xs\<rparr>)"
    using fc_append [OF assms(1) al] assms(1) False by (simp add: fc_add_def fc_ok_def sa_encode_def Let_def)
  then show ?thesis using fc_append_ok [OF assms(1) al] by auto
qed (use assms in \<open>auto simp: fc_add_def fc_ok_def\<close>)

lemma reset_spec: "fc_ok cs s \<Longrightarrow> fc_ok cs (fc_reset s) \<and> fc_rows (fc_reset s) = []"
  by (simp add: fc_ok_def fc_reset_def fc_rows_def chunks_def)

lemma reconstruct_n_spec:
  assumes "fc_ok cs s" "i0 + ni \<le> fc_ntotal s"
  shows "fc_reconstruct_n cd (int i0) ni s = Inr (take ni (drop i0 (fc_vecs cd s)))"
proof -
  note r = fc_rowsD [OF assms(1)]
  have "drop (i0 * cs) (fc_codes s) = concat (drop i0 (fc_rows s))" using r by (simp add: drop_concat_all)
  moreover have "chunks cs ni (concat (drop i0 (fc_rows s))) = take ni (drop i0 (fc_rows s))"
  proof -
    have al: "all_length cs (drop i0 (fc_rows s))" using r(2) by (rule all_length_subset) (rule set_drop_subset)
    show ?thesis using al assms(2) by (intro nth_equalityI) (simp_all add: nth_chunks subrange_concat_all)
  qed
  ultimately show ?thesis using assms(2) r(3)
    by (simp add: fc_reconstruct_n_def sa_decode_def fc_vecs_def take_map drop_map)
qed

lemma reconstruct_spec:
  assumes "fc_ok cs s" "i < fc_ntotal s"
  shows "fc_reconstruct cd (int i) s = Inr (fc_vecs cd s ! i)"
proof -
  have "take 1 (drop i (fc_vecs cd s)) = [fc_vecs cd s ! i]"
    using assms(2) by (simp add: take_Suc hd_drop_conv_nth)
  then show ?thesis using reconstruct_n_spec [OF assms(1), of i 1] assms(2) by (simp add: fc_reconstruct_def)
qed

lemma merge_spec:
  assumes "fc_ok cs s" "fc_ok cs t" "fc_check_compatible s t = Inr ()"
  shows "\<exists>s'. fc_merge_from s t 0 = Inr (s', fc_reset t) \<and> fc_ok cs s' \<and> fc_rows s' = fc_rows s @ fc_rows t"
proof -
  note r = fc_rowsD [OF assms(2)]
  have "memcpy (fc_ntotal s * cs) (fc_codes t) (fc_ntotal t * cs)
      (resize ((fc_ntotal s + fc_ntotal t) * cs) 0 (fc_codes s)) = Inr (concat (fc_rows s @ fc_rows t))"
    using fc_append [OF assms(1) r(2)] r(1) by simp
  then have "fc_merge_from s t 0 =
      Inr (s\<lparr>fc_codes := concat (fc_rows s @ fc_rows t), fc_ntotal := fc_ntotal s + fc_ntotal t\<rparr>, fc_reset t)"
    using assms(3) fc_rowsD(3) [OF assms(1)] by (simp add: fc_merge_from_def Let_def)
  then show ?thesis using fc_append_ok [OF assms(1) r(2)] by auto
qed

end

text \<open>Every codec of this kind gives an index over a list of vectors.\<close>

sublocale fixed_codec \<subseteq> editable_index "fc_ops cd" "fc_ok cs" "fc_vecs cd" vec "\<lambda>x. cod_decode cd (cod_encode cd x)"
proof unfold_locales
  fix s t :: flat_codes and xs :: "'v list" and i sel and P :: "idx_t \<Rightarrow> bool"
  assume s: "fc_ok cs s"
  show "ix_ntotal (fc_ops cd) s = length (fc_vecs cd s)" by (simp add: fc_ops_def)
  show "\<exists>s'. ix_add (fc_ops cd) xs s = Inr s' \<and> fc_ok cs s' \<and>
      fc_vecs cd s' = fc_vecs cd s @ map (\<lambda>x. cod_decode cd (cod_encode cd x)) xs" if "\<forall>x \<in> set xs. vec x"
    using add_spec [OF s that] by (auto simp: fc_ops_def fc_vecs_def)
  show "fc_ok cs (ix_reset (fc_ops cd) s) \<and> fc_vecs cd (ix_reset (fc_ops cd) s) = []"
    using reset_spec [OF s] by (simp add: fc_ops_def fc_vecs_def)
  show "ix_reconstruct (fc_ops cd) (int i) s = Inr (fc_vecs cd s ! i)" if "i < length (fc_vecs cd s)"
    using reconstruct_spec [OF s, of i] that by (simp add: fc_ops_def)
  show "\<exists>s'. ix_remove_ids (fc_ops cd) sel s = Inr (s', length (fc_vecs cd s) - length (fc_vecs cd s')) \<and> fc_ok cs s'
      \<and> fc_vecs cd s' = map ((!) (fc_vecs cd s)) (kept_positions P (length (fc_vecs cd s)))"
    if sel: "\<And>i. i < length (fc_vecs cd s) \<Longrightarrow> is_member sel (int i) = Inr (P (int i))"
  proof -
    obtain s' where s': "fc_remove_ids sel s = Inr (s', fc_ntotal s - length (kept_positions P (fc_ntotal s)))" "fc_ok cs s'"
      "fc_rows s' = map ((!) (fc_rows s)) (kept_positions P (fc_ntotal s))"
      using fc_remove_spec [OF s, of sel P] sel by auto
    have n: "fc_ntotal s' = length (kept_positions P (fc_ntotal s))" using s'(3) length_fc_rows [of s'] by simp
    have "fc_vecs cd s' = map ((!) (fc_vecs cd s)) (kept_positions P (fc_ntotal s))"
      unfolding fc_vecs_def s'(3) using kept_positions_less [of _ P "fc_ntotal s"] by simp
    then show ?thesis using s'(1,2) n by (simp add: fc_ops_def)
  qed
  show "\<exists>s' t'. ix_merge_from (fc_ops cd) s t = Inr (s', t') \<and> fc_ok cs s' \<and> fc_ok cs t'
      \<and> fc_vecs cd s' = fc_vecs cd s @ fc_vecs cd t \<and> fc_vecs cd t' = []"
    if "fc_ok cs t" "ix_check_compatible (fc_ops cd) s t = Inr ()"
    using merge_spec [OF s that(1)] that reset_spec [OF that(1)] by (auto simp: fc_ops_def fc_vecs_def)
qed

text \<open>The codec of \<open>IndexFlat\<close>: codes are the vectors, of one size.\<close>

interpretation flat: fixed_codec flat_codec "\<lambda>x. length x = cs" cs for cs
  by unfold_locales (simp add: flat_codec_def)

lemma flat_vecs: "fc_vecs flat_codec s = fc_rows s"
  by (simp add: fc_vecs_def flat_codec_def)

section \<open>Distances and search\<close>

lemma fc_computer_exact: "batch_exact (fc_distance_computer cd vd s q)"
  unfolding batch_exact_def
proof (intro allI)
  fix i0 i1 i2 i3 :: int
  let ?cs = "fc_code_size s"
  have "all_length ?cs [fc_code s i0, fc_code s i1, fc_code s i2, fc_code s i3]" by (simp add: fc_code_def)
  then have "chunks ?cs 4 (concat [fc_code s i0, fc_code s i1, fc_code s i2, fc_code s i3]) =
      [fc_code s i0, fc_code s i1, fc_code s i2, fc_code s i3]"
    by (rule chunks_concat) simp
  then show "distances_batch_4 (fc_distance_computer cd vd s q) i0 i1 i2 i3 =
    (query_dis (fc_distance_computer cd vd s q) i0, query_dis (fc_distance_computer cd vd s q) i1,
     query_dis (fc_distance_computer cd vd s q) i2, query_dis (fc_distance_computer cd vd s q) i3)"
    by (simp add: fc_distance_computer_def sa_decode_def Let_def numeral_3_eq_3)
qed

lemma fc_query_dis:
  "fc_ok cs s \<Longrightarrow> i < fc_ntotal s \<Longrightarrow> query_dis (fc_distance_computer cd vd s q) (int i) = vd q (fc_vecs cd s ! i)"
  by (simp add: fc_distance_computer_def fc_code_row fc_vecs_def)

lemma hh_collect_len:
  assumes "is_trait C" "0 < k" "length D = k" "length I = k"
  shows "same_len (hh_collect C k D I ps) k"
proof -
  note hc = is_trait_heap_comparator [OF assms(1)]
  note b = heap_comparator.hh_begin_inv [OF hc assms(2-4)]
  note o = heap_comparator.hh_offers_inv [OF hc b(1), where ps = ps]
  let ?h = "hh_offers C (hh_begin C k D I) ps"
  have "hh_k ?h = k" "same_len (hh_dis ?h, hh_ids ?h) k" using o(1,2) b(3) by (simp_all add: hh_inv_def same_len_def)
  then show ?thesis using keeps_len_heap_reorder [of k C] by (auto simp: hh_collect_def hh_end_def keeps_len_def)
qed

text \<open>The ids that a search asks about.\<close>

definition wanted :: "id_selector option \<Rightarrow> idx_t \<Rightarrow> bool" where
  "wanted sel i = (case sel of None \<Rightarrow> True | Some sl \<Rightarrow> i \<in> selection sl)"

definition can_ask :: "id_selector option \<Rightarrow> idx_t \<Rightarrow> bool" where
  "can_ask sel i = (case sel of None \<Rightarrow> True | Some sl \<Rightarrow> askable sl i)"

definition flat_offers :: "'d distance_computer \<Rightarrow> id_selector option \<Rightarrow> nat \<Rightarrow> ('d \<times> idx_t) list" where
  "flat_offers dc sel n = map (\<lambda>i. (query_dis dc (int i), int i)) (filter (\<lambda>i. wanted sel (int i)) [0..<n])"

lemma fc_search_offers:
  assumes "\<forall>i < n. can_ask sel (int i)"
  shows "fold_result (fc_search_step dc H sel) [0..<n] r = Inr (offers H r (flat_offers dc sel n))"
  using assms
proof (induction n)
  case 0
  then show ?case by (simp add: flat_offers_def offers_def)
next
  case (Suc n)
  have "(case sel of None \<Rightarrow> Inr True | Some sl \<Rightarrow> is_member sl (int n)) = Inr (wanted sel (int n))"
    using Suc.prems is_member_selection by (cases sel) (simp_all add: can_ask_def wanted_def)
  then show ?case using Suc by (simp add: fold_result_append fc_search_step_def flat_offers_def offers_def)
qed

lemma fc_search_query_offers:
  "\<forall>i < fc_ntotal s. can_ask sel (int i) \<Longrightarrow>
     fc_search_query cd vd s H sel q r = Inr (offers H r (flat_offers (fc_distance_computer cd vd s q) sel (fc_ntotal s)))"
  unfolding fc_search_query_def by (rule fc_search_offers)

text \<open>One query, then all queries, each on its row of the result tables.\<close>

lemma fc_search_one:
  assumes "is_trait C" "fc_ok cs s" "\<forall>i < fc_ntotal s. can_ask sel (int i)" "0 < k" "length D = k" "length I = k"
    and "\<forall>v \<in> set (fc_vecs cd s). cmp C (neutral C) (vd q v)"
  defines "ps \<equiv> map (\<lambda>i. (vd q (fc_vecs cd s ! i), int i)) (filter (\<lambda>i. wanted sel (int i)) [0..<fc_ntotal s])"
  shows "\<exists>r. fc_search_query cd vd s (heap_result_handler C) sel q (hh_begin C k D I) = Inr r
    \<and> hh_end C r = hh_collect C k D I ps \<and> topk_result C k ps (pairs (hh_end C r)) \<and> same_len (hh_end C r) k"
proof -
  note hc = is_trait_heap_comparator [OF assms(1)]
  have f: "flat_offers (fc_distance_computer cd vd s q) sel (fc_ntotal s) = ps"
    unfolding flat_offers_def ps_def using fc_query_dis [OF assms(2)] by (intro map_cong) auto
  have p: "snd p \<noteq> -1 \<and> cmp C (neutral C) (fst p)" if "p \<in> set ps" for p
    using that assms(7) by (auto simp: ps_def)
  have "hh_end C (offers (heap_result_handler C) (hh_begin C k D I) ps) = hh_collect C k D I ps"
    using heap_comparator.hh_offers_eq [OF hc] by (simp add: hh_collect_def)
  then show ?thesis
    using fc_search_query_offers [OF assms(3), of cd vd "heap_result_handler C" q "hh_begin C k D I"] f
      heap_comparator.hh_collect_topk [OF hc assms(4-6) p] hh_collect_len [OF assms(1,4-6)] by simp
qed

lemma fc_search_rows_spec:
  assumes "is_trait C" "fc_ok cs s" "\<forall>i < fc_ntotal s. can_ask sel (int i)" "0 < k" "same_len t (nq * k)"
    and "q0 + length xs \<le> nq" "\<forall>x \<in> set xs. \<forall>v \<in> set (fc_vecs cd s). cmp C (neutral C) (vd x v)"
  shows "\<exists>t'. fc_search_rows C k cd vd s sel q0 xs t = Inr t' \<and> same_len t' (nq * k)
    \<and> (\<forall>j < nq. if q0 \<le> j \<and> j < q0 + length xs
         then topk_result C k (map (\<lambda>i. (vd (xs ! (j - q0)) (fc_vecs cd s ! i), int i))
             (filter (\<lambda>i. wanted sel (int i)) [0..<fc_ntotal s])) (pairs (row2 k j t'))
         else row2 k j t' = row2 k j t)"
  using assms(5-7)
proof (induction xs arbitrary: q0 t)
  case (Cons x xs)
  have q0: "q0 < nq" using Cons.prems(2) by simp
  have sl: "same_len (row2 k q0 t) k" by (rule same_len_row2 [OF Cons.prems(1) q0])
  then have l: "length (row k q0 (fst t)) = k" "length (row k q0 (snd t)) = k" by (simp_all add: same_len_def row2_def)
  from fc_search_one [OF assms(1-4) l, of cd vd x] Cons.prems(3) obtain r where
    r: "fc_search_query cd vd s (heap_result_handler C) sel x (hh_begin C k (row k q0 (fst t)) (row k q0 (snd t))) = Inr r"
    "topk_result C k (map (\<lambda>i. (vd x (fc_vecs cd s ! i), int i)) (filter (\<lambda>i. wanted sel (int i)) [0..<fc_ntotal s])) (pairs (hh_end C r))"
    "same_len (hh_end C r) k" by auto
  let ?t = "on_row k (\<lambda>_. hh_end C r) q0 t"
  have kl: "keeps_len k (\<lambda>_. hh_end C r)" using r(3) by (simp add: keeps_len_def)
  note row = on_row_row2 [OF Cons.prems(1) q0 kl]
  obtain t' where t': "fc_search_rows C k cd vd s sel (q0 + 1) xs ?t = Inr t'" "same_len t' (nq * k)"
    "\<forall>j < nq. if q0 + 1 \<le> j \<and> j < q0 + 1 + length xs
         then topk_result C k (map (\<lambda>i. (vd (xs ! (j - (q0 + 1))) (fc_vecs cd s ! i), int i))
             (filter (\<lambda>i. wanted sel (int i)) [0..<fc_ntotal s])) (pairs (row2 k j t'))
         else row2 k j t' = row2 k j ?t"
    using Cons.IH [OF row(1), of "q0 + 1"] Cons.prems by auto
  have "if q0 \<le> j \<and> j < q0 + length (x # xs)
         then topk_result C k (map (\<lambda>i. (vd ((x # xs) ! (j - q0)) (fc_vecs cd s ! i), int i))
             (filter (\<lambda>i. wanted sel (int i)) [0..<fc_ntotal s])) (pairs (row2 k j t'))
         else row2 k j t' = row2 k j t" if j: "j < nq" for j
  proof -
    consider "j < q0" | "j = q0" | "q0 < j" by linarith
    then show ?thesis
    proof cases
      case 2
      then show ?thesis using t'(3) row(2) [OF j] j r(2) by auto
    next
      case 3
      then have "(x # xs) ! (j - q0) = xs ! (j - (q0 + 1))" by (simp add: nth_Cons')
      then show ?thesis using t'(3) row(2) [OF j] j 3 by auto
    qed (use t'(3) row(2) [OF j] j in auto)
  qed
  then show ?case using r(1) t'(1,2) by auto
qed auto

section \<open>Properties\<close>

text \<open>
  C31. The exhaustive search of \<open>IndexFlatCodes\<close> with the heap handler: row \<open>j\<close> of the result tables
  holds the top \<open>k\<close> of the distances from query \<open>j\<close> to all stored vectors the selector takes, in
  order, padded with \<open>-1\<close>.
\<close>

theorem flat_search_topk:
  assumes "is_trait C" "fc_ok cs s" "\<forall>i < fc_ntotal s. can_ask sel (int i)" "0 < k"
    and "length D = length xs * k" "length I = length xs * k"
    and "\<forall>x \<in> set xs. \<forall>v \<in> set (fc_vecs cd s). cmp C (neutral C) (vd x v)"
  shows "\<exists>D' I'. fc_search_rows C k cd vd s sel 0 xs (D, I) = Inr (D', I')
    \<and> (\<forall>j < length xs. topk_result C k
        (map (\<lambda>i. (vd (xs ! j) (fc_vecs cd s ! i), int i)) (filter (\<lambda>i. wanted sel (int i)) [0..<fc_ntotal s]))
        (zip (row k j D') (row k j I')))"
proof -
  have "same_len (D, I) (length xs * k)" using assms(5,6) by (simp add: same_len_def)
  from fc_search_rows_spec [OF assms(1-4) this _ assms(7), of 0] obtain t' where
    t: "fc_search_rows C k cd vd s sel 0 xs (D, I) = Inr t'"
    "\<forall>j < length xs. topk_result C k (map (\<lambda>i. (vd (xs ! j) (fc_vecs cd s ! i), int i))
        (filter (\<lambda>i. wanted sel (int i)) [0..<fc_ntotal s])) (pairs (row2 k j t'))" by auto
  then show ?thesis by (intro exI [of _ "fst t'"] exI [of _ "snd t'"]) (simp add: row2_def pairs_def)
qed

definition bytes_312 :: flat_codes where
  "bytes_312 = (fc_new ''IndexFlat'' 1 1)\<lparr>fc_codes := [3, 1, 2], fc_ntotal := 3\<rparr>"

definition byte_distance :: "8 word list \<Rightarrow> 8 word list \<Rightarrow> int" where
  "byte_distance a b = \<bar>uint (hd a) - uint (hd b)\<bar>"

lemma bytes_312_ok: "fc_ok 1 bytes_312" "fc_vecs flat_codec bytes_312 = [[3], [1], [2]]" "fc_ntotal bytes_312 = 3"
  by (simp_all add: bytes_312_def fc_ok_def fc_new_def) code_simp

theorem flat_search_topk_witness:
  "\<exists>D' I'. fc_search_rows (CMax 0 1000) 2 flat_codec byte_distance bytes_312 None 0 [[0], [2]] ([0, 0, 0, 0], [0, 0, 0, 0]) = Inr (D', I')
    \<and> topk_result (CMax 0 1000) 2 [(3, 0), (1, 1), (2, 2)] (zip (row 2 0 D') (row 2 0 I'))
    \<and> topk_result (CMax 0 1000) 2 [(1, 0), (1, 1), (0, 2)] (zip (row 2 1 D') (row 2 1 I'))"
proof -
  have d: "\<forall>x \<in> set [[0], [2]]. \<forall>v \<in> set (fc_vecs flat_codec bytes_312). cmp (CMax 0 1000) (neutral (CMax 0 1000)) (byte_distance x v)"
    by (simp add: bytes_312_ok byte_distance_def)
  have c: "\<forall>i < fc_ntotal bytes_312. can_ask None (int i)" by (simp add: can_ask_def)
  have o': "map (\<lambda>i. (byte_distance x (fc_vecs flat_codec bytes_312 ! i), int i)) (filter (\<lambda>i. wanted None (int i)) [0..<fc_ntotal bytes_312])
      = [(byte_distance x [3], 0), (byte_distance x [1], 1), (byte_distance x [2], 2)]" for x
    by (simp add: bytes_312_ok wanted_def upt_rec)
  obtain D' I' where "fc_search_rows (CMax 0 1000) 2 flat_codec byte_distance bytes_312 None 0 [[0], [2]] ([0, 0, 0, 0], [0, 0, 0, 0]) = Inr (D', I')"
    and t: "\<And>j. j < 2 \<Longrightarrow> topk_result (CMax 0 1000) 2 [(byte_distance ([[0], [2]] ! j) [3], 0), (byte_distance ([[0], [2]] ! j) [1], 1),
        (byte_distance ([[0], [2]] ! j) [2], 2)] (zip (row 2 j D') (row 2 j I'))"
    using flat_search_topk [where C = "CMax 0 1000" and k = 2 and D = "[0, 0, 0, 0]" and I = "[0, 0, 0, 0]",
        OF is_trait_CMax bytes_312_ok(1) c _ _ _ d] unfolding o' by auto
  then show ?thesis using t [of 0] t [of 1]
    by (intro exI [of _ D'] exI [of _ I']) (simp add: byte_distance_def)
qed

text \<open>
  What \<open>add\<close> of an \<open>IndexFlatCodes\<close> stores, \<open>reconstruct_n\<close> gives back, decoded; the vectors
  stored before are unchanged.
\<close>

theorem flat_reconstruct_added:
  assumes "fixed_codec cd vec cs" "fc_ok cs s" "\<forall>x \<in> set xs. vec x"
  shows "\<exists>s'. fc_add cd xs s = Inr s' \<and> fc_ntotal s' = fc_ntotal s + length xs
    \<and> fc_reconstruct_n cd (int (fc_ntotal s)) (length xs) s' = Inr (map (\<lambda>x. cod_decode cd (cod_encode cd x)) xs)
    \<and> fc_reconstruct_n cd 0 (fc_ntotal s) s' = fc_reconstruct_n cd 0 (fc_ntotal s) s"
proof -
  from fixed_codec.add_spec [OF assms] obtain s' where
    s': "fc_add cd xs s = Inr s'" "fc_ok cs s'" "fc_rows s' = fc_rows s @ map (cod_encode cd) xs" by blast
  have n: "fc_ntotal s' = fc_ntotal s + length xs" using arg_cong [OF s'(3), of length] by simp
  have v: "fc_vecs cd s' = fc_vecs cd s @ map (\<lambda>x. cod_decode cd (cod_encode cd x)) xs"
    unfolding fc_vecs_def s'(3) by simp
  note r = fixed_codec.reconstruct_n_spec [OF assms(1)]
  show ?thesis
    using s'(1) n v r [OF s'(2), of "fc_ntotal s" "length xs"] r [OF s'(2), of 0 "fc_ntotal s"] r [OF assms(2), of 0 "fc_ntotal s"]
    by simp
qed

theorem flat_reconstruct_added_witness:
  "\<exists>s'. fc_add flat_codec [[7], [9]] bytes_312 = Inr s'
    \<and> fc_reconstruct_n flat_codec 3 2 s' = Inr [[7], [9]] \<and> fc_reconstruct_n flat_codec 0 3 s' = Inr [[3], [1], [2]]"
proof -
  have "fc_reconstruct_n flat_codec 0 3 bytes_312 = Inr [[3], [1], [2]]" by code_simp
  then show ?thesis
    using flat_reconstruct_added [OF flat.fixed_codec_axioms bytes_312_ok(1), of "[[7], [9]]"] bytes_312_ok(3)
    by (auto simp: flat_codec_def numeral_2_eq_2)
qed

end
