(* ===== verification/Index_IdMap.thy ===== *)
theory Index_IdMap
  imports Flat_Codes_Correct "HOL-Library.AList"
begin

text \<open>
  \<open>IndexIDMap\<close> and \<open>IndexIDMap2\<close> (\<open>faiss/IndexIDMap.cpp\<close>): an index that gives the vectors of a
  sub-index ids of the caller's, and one that also finds a vector by its id. The sub-index is any
  \<open>index_ops\<close>; the second class extends the record of the first. The unordered map is an
  association list with distinct keys.
\<close>

record 's idmap =
  idm_index :: 's
  id_map :: "idx_t list"
  idm_ntotal :: nat

record 's idmap2 = "'s idmap" +
  rev_map :: "(idx_t \<times> idx_t) list"

section \<open>\<open>IndexIDMap\<close>\<close>

definition idm_new :: "('s, 'v) index_ops \<Rightarrow> 's \<Rightarrow> 's idmap result" where
  "idm_new ops index =
     (if ix_ntotal ops index \<noteq> 0 then Inl (Throw ''index must be empty on input'')
      else Inr \<lparr>idm_index = index, id_map = [], idm_ntotal = 0\<rparr>)"

definition idm_add :: "'v list \<Rightarrow> ('s, 'z) idmap_scheme \<Rightarrow> ('s, 'z) idmap_scheme result" where
  "idm_add xs m = Inl (Throw ''add does not make sense with IndexIDMap, use add_with_ids'')"

definition idm_reset :: "('s, 'v) index_ops \<Rightarrow> ('s, 'z) idmap_scheme \<Rightarrow> ('s, 'z) idmap_scheme" where
  "idm_reset ops m = m\<lparr>idm_index := ix_reset ops (idm_index m), id_map := [], idm_ntotal := 0\<rparr>"

definition idm_add_with_ids ::
  "('s, 'v) index_ops \<Rightarrow> 'v list \<Rightarrow> idx_t list \<Rightarrow> ('s, 'z) idmap_scheme \<Rightarrow> ('s, 'z) idmap_scheme result" where
  "idm_add_with_ids ops xs xids m =
     bind_result (ix_add ops xs (idm_index m)) (\<lambda>index.
       if length xids < length xs then Inl Out_of_bounds
       else Inr (m\<lparr>idm_index := index, id_map := id_map m @ take (length xs) xids, idm_ntotal := ix_ntotal ops index\<rparr>))"

definition idm_add_sa_codes ::
  "('s, 'v) index_ops \<Rightarrow> nat \<Rightarrow> 8 word list \<Rightarrow> idx_t list \<Rightarrow> ('s, 'z) idmap_scheme \<Rightarrow> ('s, 'z) idmap_scheme result" where
  "idm_add_sa_codes ops n codes xids m =
     bind_result (ix_add_sa_codes ops n codes (idm_index m)) (\<lambda>index.
       if length xids < n then Inl Out_of_bounds
       else Inr (m\<lparr>idm_index := index, id_map := id_map m @ take n xids, idm_ntotal := ix_ntotal ops index\<rparr>))"

text \<open>\<open>search\<close>: the selector that the sub-index sees, and the translation of the labels it returns.\<close>

definition idm_selector :: "idx_t list \<Rightarrow> id_selector option \<Rightarrow> id_selector option" where
  "idm_selector ids sel =
     (case sel of
        None \<Rightarrow> None
      | Some sl \<Rightarrow> (case sl of Sel_translated _ _ \<Rightarrow> Some sl | _ \<Rightarrow> Some (Sel_translated ids sl)))"

fun idm_labels :: "idx_t list \<Rightarrow> idx_t list \<Rightarrow> idx_t list result" where
  "idm_labels ids [] = Inr []"
| "idm_labels ids (l # ls) =
     (if l < 0 then bind_result (idm_labels ids ls) (\<lambda>out. Inr (l # out))
      else if \<not> nat l < length ids then Inl Out_of_bounds
      else bind_result (idm_labels ids ls) (\<lambda>out. Inr (ids ! nat l # out)))"

definition idm_search ::
  "('s \<Rightarrow> id_selector option \<Rightarrow> ('d list \<times> idx_t list) result) \<Rightarrow> ('s, 'z) idmap_scheme \<Rightarrow> id_selector option \<Rightarrow>
   ('d list \<times> idx_t list) result" where
  "idm_search sub_search m sel =
     bind_result (sub_search (idm_index m) (idm_selector (id_map m) sel)) (\<lambda>(distances, labels).
     bind_result (idm_labels (id_map m) labels) (\<lambda>labels. Inr (distances, labels)))"

definition idm_remove_step ::
  "(idx_t \<Rightarrow> bool result) \<Rightarrow> nat \<Rightarrow> nat \<times> idx_t list \<Rightarrow> (nat \<times> idx_t list) result" where
  "idm_remove_step sel i st =
     (case st of (j, ids) \<Rightarrow>
        if \<not> i < length ids then Inl Out_of_bounds
        else bind_result (sel (ids ! i)) (\<lambda>b.
          Inr (if b then (j, ids) else (j + 1, ids[j := ids ! i]))))"

definition idm_remove_ids ::
  "('s, 'v) index_ops \<Rightarrow> id_selector \<Rightarrow> ('s, 'z) idmap_scheme \<Rightarrow> (('s, 'z) idmap_scheme \<times> nat) result" where
  "idm_remove_ids ops sel m =
     bind_result (ix_remove_ids ops (Sel_translated (id_map m) sel) (idm_index m)) (\<lambda>(index, nremove).
     bind_result (fold_result (idm_remove_step (is_member sel)) [0..<idm_ntotal m] (0, id_map m)) (\<lambda>(j, ids).
       if j \<noteq> ix_ntotal ops index then Inl Assert_failed
       else Inr (m\<lparr>idm_index := index, id_map := resize j 0 ids, idm_ntotal := j\<rparr>, nremove)))"

definition idm_merge_from ::
  "('s, 'v) index_ops \<Rightarrow> ('s, 'z) idmap_scheme \<Rightarrow> ('s, 'z) idmap_scheme \<Rightarrow> idx_t \<Rightarrow>
   (('s, 'z) idmap_scheme \<times> ('s, 'z) idmap_scheme) result" where
  "idm_merge_from ops m other add_id =
     bind_result (ix_check_compatible ops (idm_index m) (idm_index other)) (\<lambda>_.
     bind_result (ix_merge_from ops (idm_index m) (idm_index other)) (\<lambda>(index, oindex).
       Inr (m\<lparr>idm_index := index, id_map := id_map m @ map (\<lambda>x. x + add_id) (id_map other), idm_ntotal := ix_ntotal ops index\<rparr>,
            other\<lparr>idm_index := oindex, id_map := [], idm_ntotal := 0\<rparr>)))"

section \<open>\<open>IndexIDMap2\<close>\<close>

definition set_rev :: "idx_t list \<Rightarrow> nat \<Rightarrow> nat \<Rightarrow> (idx_t \<times> idx_t) list \<Rightarrow> (idx_t \<times> idx_t) list" where
  "set_rev ids i0 i1 rv = fold (\<lambda>i. AList.update (ids ! i) (int i)) [i0..<i1] rv"

definition idm2_new :: "('s, 'v) index_ops \<Rightarrow> 's \<Rightarrow> 's idmap2 result" where
  "idm2_new ops index = bind_result (idm_new ops index) (\<lambda>m. Inr (idmap.extend m (idmap2.fields [])))"

definition idm2_add_with_ids :: "('s, 'v) index_ops \<Rightarrow> 'v list \<Rightarrow> idx_t list \<Rightarrow> 's idmap2 \<Rightarrow> 's idmap2 result" where
  "idm2_add_with_ids ops xs xids m =
     bind_result (idm_add_with_ids ops xs xids m) (\<lambda>m'.
       Inr (m'\<lparr>rev_map := set_rev (id_map m') (idm_ntotal m) (idm_ntotal m') (rev_map m')\<rparr>))"

definition construct_rev_map :: "'s idmap2 \<Rightarrow> 's idmap2" where
  "construct_rev_map m = m\<lparr>rev_map := set_rev (id_map m) 0 (idm_ntotal m) []\<rparr>"

definition idm2_remove_ids :: "('s, 'v) index_ops \<Rightarrow> id_selector \<Rightarrow> 's idmap2 \<Rightarrow> ('s idmap2 \<times> nat) result" where
  "idm2_remove_ids ops sel m =
     bind_result (idm_remove_ids ops sel m) (\<lambda>(m, nremove). Inr (construct_rev_map m, nremove))"

definition idm2_merge_from ::
  "('s, 'v) index_ops \<Rightarrow> 's idmap2 \<Rightarrow> 's idmap2 \<Rightarrow> idx_t \<Rightarrow> ('s idmap2 \<times> 's idmap2) result" where
  "idm2_merge_from ops m other add_id =
     bind_result (idm_merge_from ops m other add_id) (\<lambda>(m', other').
       Inr (m'\<lparr>rev_map := set_rev (id_map m') (idm_ntotal m) (idm_ntotal m') (rev_map m')\<rparr>, other'\<lparr>rev_map := []\<rparr>))"

definition idm2_reconstruct :: "('s, 'v) index_ops \<Rightarrow> idx_t \<Rightarrow> 's idmap2 \<Rightarrow> 'v result" where
  "idm2_reconstruct ops key m =
     (case map_of (rev_map m) key of
        None \<Rightarrow> Inl (Throw ''key not found'')
      | Some i \<Rightarrow> ix_reconstruct ops i (idm_index m))"

fun check_entries :: "(idx_t \<times> idx_t) list \<Rightarrow> idx_t list \<Rightarrow> nat \<Rightarrow> unit result" where
  "check_entries rv [] i = Inr ()"
| "check_entries rv (x # xs) i =
     (case map_of rv x of
        None \<Rightarrow> Inl (Throw ''out_of_range'')
      | Some ii \<Rightarrow> if ii \<noteq> int i then Inl (Throw ''ii == i'') else check_entries rv xs (i + 1))"

definition check_consistency :: "'s idmap2 \<Rightarrow> unit result" where
  "check_consistency m =
     (if length (rev_map m) \<noteq> length (id_map m) then Inl (Throw ''rev_map.size() == this->id_map.size()'')
      else if length (id_map m) \<noteq> idm_ntotal m then Inl (Throw ''this->id_map.size() == this->ntotal'')
      else check_entries (rev_map m) (id_map m) 0)"

section \<open>The contents of an id map\<close>

definition rev_of :: "idx_t list \<Rightarrow> idx_t \<Rightarrow> idx_t option" where
  "rev_of ids = map_of (rev (zip ids (map int [0..<length ids])))"

lemma set_rev_map_of:
  assumes "i0 \<le> i1" "i1 \<le> length ids" "map_of rv = rev_of (take i0 ids)" "distinct (map fst rv)"
  shows "map_of (set_rev ids i0 i1 rv) = rev_of (take i1 ids)" "distinct (map fst (set_rev ids i0 i1 rv))"
proof -
  have "map_of (set_rev ids i0 i1 rv) = rev_of (take i1 ids) \<and> distinct (map fst (set_rev ids i0 i1 rv))"
    using assms(1,2)
  proof (induction i1 rule: dec_induct)
    case base
    then show ?case using assms(3,4) by (simp add: set_rev_def)
  next
    case (step i)
    then have "take (Suc i) ids = take i ids @ [ids ! i]" by (simp add: take_Suc_conv_app_nth)
    then have "rev_of (take (Suc i) ids) = (rev_of (take i ids))(ids ! i \<mapsto> int i)"
      using step by (simp add: rev_of_def)
    then show ?case using step by (simp add: set_rev_def update_conv' distinct_update)
  qed
  then show "map_of (set_rev ids i0 i1 rv) = rev_of (take i1 ids)" "distinct (map fst (set_rev ids i0 i1 rv))" by blast+
qed

lemma rev_of_None: "rev_of ids x = None \<longleftrightarrow> x \<notin> set ids"
  unfolding rev_of_def map_of_eq_None_iff set_rev set_map [symmetric] by simp

lemma rev_of_snoc: "rev_of (ids @ [x]) = (rev_of ids)(x \<mapsto> int (length ids))"
  by (simp add: rev_of_def)

text \<open>The last position of an id.\<close>

lemma rev_of_Some:
  "rev_of ids x = Some p \<longleftrightarrow> (\<exists>i < length ids. p = int i \<and> ids ! i = x \<and> x \<notin> set (drop (Suc i) ids))"
proof (induction ids rule: rev_induct)
  case Nil
  then show ?case by (simp add: rev_of_def)
next
  case (snoc y ids)
  show ?case
  proof (cases "x = y")
    case True
    then show ?thesis by (auto simp: rev_of_snoc nth_append less_Suc_eq intro!: exI [of _ "length ids"])
  next
    case False
    then show ?thesis using snoc by (auto simp: rev_of_snoc nth_append less_Suc_eq)
  qed
qed

end
