(* ===== verification/Index_IdMap_Correct.thy ===== *)
theory Index_IdMap_Correct
  imports Index_IdMap
begin

text \<open>
  What the id maps hold: pairs of an id and a vector. The operations are the operations on lists
  of pairs, over every sub-index that keeps the promises of \<open>editable_index\<close>; properties are for
  the flat indexes.
\<close>

section \<open>Removal of the ids\<close>

lemma idm_remove_loop:
  assumes "\<And>i. i < length ids \<Longrightarrow> sel (ids ! i) = Inr (P (ids ! i))" "m \<le> length ids"
  shows "\<exists>ids'. fold_result (idm_remove_step sel) [0..<m] (0, ids) =
      Inr (length (filter (\<lambda>x. \<not> P x) (take m ids)), ids') \<and> length ids' = length ids
    \<and> take (length (filter (\<lambda>x. \<not> P x) (take m ids))) ids' = filter (\<lambda>x. \<not> P x) (take m ids) \<and> drop m ids' = drop m ids"
  using assms(2)
proof (induction m)
  case (Suc m)
  let ?f = "filter (\<lambda>x. \<not> P x) (take m ids)"
  have m: "m < length ids" using Suc.prems by simp
  from Suc obtain ids' where r: "fold_result (idm_remove_step sel) [0..<m] (0, ids) = Inr (length ?f, ids')"
    "length ids' = length ids" "take (length ?f) ids' = ?f" "drop m ids' = drop m ids" by auto
  have rm: "ids' ! m = ids ! m" "drop (Suc m) ids' = drop (Suc m) ids"
    using arg_cong [OF r(4), of hd] arg_cong [OF r(4), of tl] m r(2) by (simp_all add: hd_drop_conv_nth tl_drop drop_Suc)
  have j: "length ?f \<le> m" by (metis length_filter_le length_take m min.absorb4)
  have t: "take (Suc m) ids = take m ids @ [ids ! m]" using m by (simp add: take_Suc_conv_app_nth)
  let ?ids' = "if P (ids ! m) then ids' else ids'[length ?f := ids ! m]"
  have "idm_remove_step sel m (length ?f, ids') = Inr (length (filter (\<lambda>x. \<not> P x) (take (Suc m) ids)), ?ids')"
    using assms(1) [OF m] m r(2) rm(1) t by (simp add: idm_remove_step_def)
  then have "fold_result (idm_remove_step sel) [0..<Suc m] (0, ids) = Inr (length (filter (\<lambda>x. \<not> P x) (take (Suc m) ids)), ?ids')"
    using r(1) by (simp add: fold_result_append)
  moreover have "take (length (filter (\<lambda>x. \<not> P x) (take (Suc m) ids))) ?ids' = filter (\<lambda>x. \<not> P x) (take (Suc m) ids)"
    using j m r(2,3) t by (simp add: take_Suc_conv_app_nth)
  moreover have "drop (Suc m) ?ids' = drop (Suc m) ids" using j rm(2) by simp
  ultimately show ?case using r(2) by (intro exI [of _ ?ids']) simp
qed simp

section \<open>Over any sub-index\<close>

definition idm_ok :: "('s \<Rightarrow> bool) \<Rightarrow> ('s \<Rightarrow> 'v list) \<Rightarrow> ('s, 'z) idmap_scheme \<Rightarrow> bool" where
  "idm_ok iv V m \<longleftrightarrow> iv (idm_index m) \<and> length (id_map m) = length (V (idm_index m)) \<and> idm_ntotal m = length (id_map m)"

definition id_contents :: "('s \<Rightarrow> 'v list) \<Rightarrow> ('s, 'z) idmap_scheme \<Rightarrow> (idx_t \<times> 'v) list" where
  "id_contents V m = zip (id_map m) (V (idm_index m))"

context editable_index
begin

lemma add_contents:
  assumes "idm_ok inv V m" "\<forall>x \<in> set xs. vec x" "length xids = length xs"
  shows "\<exists>m'. idm_add_with_ids ops xs xids m = Inr m' \<and> idm_ok inv V m' \<and> id_contents V m' = id_contents V m @ zip xids (map rnd xs)
    \<and> id_map m' = id_map m @ xids \<and> idmap.more m' = idmap.more m"
proof -
  have ok: "inv (idm_index m)" "length (id_map m) = length (V (idm_index m))" using assms(1) by (simp_all add: idm_ok_def)
  obtain s' where "ix_add ops xs (idm_index m) = Inr s'" "inv s'" "V s' = V (idm_index m) @ map rnd xs"
    using add [OF ok(1) assms(2)] by blast
  then show ?thesis using ok assms(3) ntotal [of s']
    by (simp add: idm_add_with_ids_def idm_ok_def id_contents_def)
qed

lemma remove_contents:
  assumes "idm_ok inv V m" "\<forall>x \<in> set (id_map m). askable sel x"
  shows "\<exists>m' n. idm_remove_ids ops sel m = Inr (m', n) \<and> idm_ok inv V m'
    \<and> id_contents V m' = filter (\<lambda>e. fst e \<notin> selection sel) (id_contents V m) \<and> n + length (id_contents V m') = length (id_contents V m)
    \<and> id_map m' = filter (\<lambda>x. x \<notin> selection sel) (id_map m) \<and> idmap.more m' = idmap.more m"
proof -
  let ?ids = "id_map m" let ?s = "idm_index m" let ?n = "length (id_map m)"
  have ok: "inv ?s" "length ?ids = length (V ?s)" "idm_ntotal m = ?n" using assms(1) by (simp_all add: idm_ok_def)
  let ?P = "\<lambda>i. ?ids ! nat i \<in> selection sel"
  have sel: "is_member sel (?ids ! i) = Inr (?ids ! i \<in> selection sel)" if "i < ?n" for i
    using assms(2) that by (intro is_member_selection) simp
  have "is_member (Sel_translated ?ids sel) (int i) = Inr (?P (int i))" if "i < length (V ?s)" for i
    using that ok(2) sel by simp
  from remove [of ?s "Sel_translated ?ids sel" ?P, OF ok(1) this] obtain s' where s':
    "ix_remove_ids ops (Sel_translated ?ids sel) ?s = Inr (s', length (V ?s) - length (V s'))" "inv s'"
    "V s' = map ((!) (V ?s)) (kept_positions ?P (length (V ?s)))" by blast
  have kept: "map ((!) (zip ?ids (V ?s))) (kept_positions ?P ?n) = filter (\<lambda>e. fst e \<notin> selection sel) (zip ?ids (V ?s))"
  proof -
    have "zip ?ids (V ?s) = map (\<lambda>i. (?ids ! i, V ?s ! i)) [0..<?n]" using ok(2) by (intro nth_equalityI) simp_all
    then show ?thesis using ok(2) by (simp add: kept_positions_def filter_map o_def)
  qed
  have kp: "set (kept_positions ?P ?n) \<subseteq> {i. i < ?n}" using kept_positions_less by blast
  have V': "V s' = map snd (filter (\<lambda>e. fst e \<notin> selection sel) (id_contents V m))"
    unfolding s'(3) id_contents_def kept [symmetric] using kp ok(2) by (auto simp: kept_positions_def)
  have ids': "filter (\<lambda>x. x \<notin> selection sel) ?ids = map fst (filter (\<lambda>e. fst e \<notin> selection sel) (id_contents V m))"
  proof -
    have "filter (\<lambda>x. x \<notin> selection sel) (map fst (id_contents V m)) = map fst (filter (\<lambda>e. fst e \<notin> selection sel) (id_contents V m))"
      by (simp add: filter_map o_def case_prod_beta)
    then show ?thesis using ok(2) by (simp add: id_contents_def)
  qed
  obtain ids2 where l: "fold_result (idm_remove_step (is_member sel)) [0..<?n] (0, ?ids) =
      Inr (length (filter (\<lambda>x. x \<notin> selection sel) ?ids), ids2)" "length ids2 = ?n"
    "take (length (filter (\<lambda>x. x \<notin> selection sel) ?ids)) ids2 = filter (\<lambda>x. x \<notin> selection sel) ?ids"
    using idm_remove_loop [of ?ids "is_member sel" "\<lambda>x. x \<in> selection sel" ?n] sel by auto
  let ?ids' = "filter (\<lambda>x. x \<notin> selection sel) ?ids"
  have le: "length ?ids' \<le> ?n" by simp
  have rs: "resize (length ?ids') 0 ids2 = ?ids'" using l(2,3) le by (simp add: resize_shrink)
  have nt: "ix_ntotal ops s' = length ?ids'" using ntotal [OF s'(2)] V' ids' by simp
  let ?m' = "m\<lparr>idm_index := s', id_map := ?ids', idm_ntotal := length ?ids'\<rparr>"
  have "idm_remove_ids ops sel m = Inr (?m', length (V ?s) - length (V s'))"
    using s'(1) l(1) rs nt ok(3) by (simp add: idm_remove_ids_def)
  moreover have "id_contents V ?m' = filter (\<lambda>e. fst e \<notin> selection sel) (id_contents V m)"
    unfolding id_contents_def by (simp add: V' ids' zip_map_fst_snd [unfolded id_contents_def] id_contents_def)
  moreover have "idm_ok inv V ?m'" using s'(2) V' ids' by (simp add: idm_ok_def)
  moreover have "length (V ?s) - length (V s') + length (id_contents V ?m') = length (id_contents V m)"
    using ok(2) V' ids' le unfolding id_contents_def by simp
  ultimately show ?thesis by (intro exI [of _ ?m'] exI) (auto intro!: exI)
qed

lemma merge_contents:
  assumes "idm_ok inv V m" "idm_ok inv V t" "ix_check_compatible ops (idm_index m) (idm_index t) = Inr ()"
  shows "\<exists>m' t'. idm_merge_from ops m t add_id = Inr (m', t') \<and> idm_ok inv V m' \<and> idm_ok inv V t'
    \<and> id_contents V m' = id_contents V m @ map (\<lambda>(x, v). (x + add_id, v)) (id_contents V t) \<and> id_contents V t' = []
    \<and> id_map m' = id_map m @ map (\<lambda>x. x + add_id) (id_map t) \<and> id_map t' = []
    \<and> idmap.more m' = idmap.more m \<and> idmap.more t' = idmap.more t"
proof -
  have ok: "inv (idm_index m)" "length (id_map m) = length (V (idm_index m))"
    "inv (idm_index t)" "length (id_map t) = length (V (idm_index t))" using assms(1,2) by (simp_all add: idm_ok_def)
  from merge [OF ok(1,3) assms(3)] obtain s' o' where s': "ix_merge_from ops (idm_index m) (idm_index t) = Inr (s', o')"
    "inv s'" "inv o'" "V s' = V (idm_index m) @ V (idm_index t)" "V o' = []" by blast
  have z: "zip (map (\<lambda>x. x + add_id) (id_map t)) (V (idm_index t)) = map (\<lambda>(x, v). (x + add_id, v)) (zip (id_map t) (V (idm_index t)))"
    by (simp add: zip_map1)
  show ?thesis using assms(3) s' ok ntotal [OF s'(2)]
    by (simp add: idm_merge_from_def idm_ok_def id_contents_def z)
qed

lemma reset_contents: "idm_ok inv V m \<Longrightarrow> idm_ok inv V (idm_reset ops m) \<and> id_contents V (idm_reset ops m) = []"
  using reset [of "idm_index m"] by (simp add: idm_ok_def idm_reset_def id_contents_def)

end

section \<open>The second index\<close>

definition rev_ok :: "'s idmap2 \<Rightarrow> bool" where
  "rev_ok m \<longleftrightarrow> map_of (rev_map m) = rev_of (id_map m) \<and> distinct (map fst (rev_map m))"

lemma set_rev_ok:
  assumes "rev_ok m" "id_map m' = id_map m @ xs" "n = length (id_map m)" "n' = length (id_map m')" "rv = rev_map m"
  shows "rev_ok (m'\<lparr>rev_map := set_rev (id_map m') n n' rv\<rparr>)"
proof -
  have "map_of rv = rev_of (take n (id_map m'))" "distinct (map fst rv)" "n \<le> n'" "n' \<le> length (id_map m')"
    using assms by (simp_all add: rev_ok_def)
  then show ?thesis using set_rev_map_of [of n n' "id_map m'" rv] assms(4) by (simp add: rev_ok_def)
qed

lemma construct_rev_ok: "idm_ntotal m = length (id_map m) \<Longrightarrow> rev_ok (construct_rev_map m)"
proof -
  assume "idm_ntotal m = length (id_map m)"
  moreover have "map_of [] = rev_of (take 0 (id_map m))" by (simp add: rev_of_def)
  ultimately show ?thesis
    using set_rev_map_of [of 0 "length (id_map m)" "id_map m" "[]"] by (simp add: rev_ok_def construct_rev_map_def)
qed

lemma map_of_contents:
  assumes "length ids = length vs"
  shows "map_of (rev (zip ids vs)) x = map_option (\<lambda>p. vs ! nat p) (rev_of ids x)"
proof -
  have "zip ids vs = map (\<lambda>(x, p). (x, vs ! nat p)) (zip ids (map int [0..<length ids]))"
    using assms by (intro nth_equalityI) simp_all
  then have "rev (zip ids vs) = map (\<lambda>(x, p). (x, vs ! nat p)) (rev (zip ids (map int [0..<length ids])))"
    by (simp add: rev_map)
  then show ?thesis by (simp add: rev_of_def map_of_map)
qed

lemma check_entries_ok:
  "\<forall>k < length xs. map_of rv (xs ! k) = Some (int (i + k)) \<Longrightarrow> check_entries rv xs i = Inr ()"
proof (induction xs arbitrary: i)
  case (Cons x xs)
  have "\<forall>k < length xs. map_of rv (xs ! k) = Some (int (Suc i + k))"
    using Cons.prems by (metis Suc_less_eq add_Suc_shift length_Cons nth_Cons_Suc)
  moreover have "map_of rv x = Some (int i)" using Cons.prems by force
  ultimately show ?case using Cons.IH [of "i + 1"] by simp
qed simp

lemma check_consistency_spec:
  assumes "rev_ok m" "idm_ntotal m = length (id_map m)"
  shows "check_consistency m =
    (if distinct (id_map m) then Inr () else Inl (Throw ''rev_map.size() == this->id_map.size()''))"
proof -
  have "x \<in> dom (map_of (rev_map m)) \<longleftrightarrow> x \<in> set (id_map m)" for x
    using assms(1) rev_of_None [of "id_map m" x] by (simp add: rev_ok_def domIff)
  then have "dom (map_of (rev_map m)) = set (id_map m)" by blast
  then have "fst ` set (rev_map m) = set (id_map m)" by (simp add: dom_map_of_conv_image_fst)
  then have len: "length (rev_map m) = card (set (id_map m))"
    using distinct_card [of "map fst (rev_map m)"] assms(1) by (simp add: rev_ok_def)
  show ?thesis
  proof (cases "distinct (id_map m)")
    case True
    have "map_of (rev_map m) (id_map m ! k) = Some (int k)" if "k < length (id_map m)" for k
    proof -
      have "id_map m ! k \<notin> set (drop (Suc k) (id_map m))"
        using True that by (metis distinct.simps(2) distinct_drop Cons_nth_drop_Suc)
      then have "rev_of (id_map m) (id_map m ! k) = Some (int k)" using that by (auto simp: rev_of_Some)
      then show ?thesis using assms(1) by (simp add: rev_ok_def)
    qed
    then have "check_entries (rev_map m) (id_map m) 0 = Inr ()" by (intro check_entries_ok) simp
    then show ?thesis using True len assms(2) distinct_card [OF True] by (simp add: check_consistency_def)
  next
    case False
    then have "length (rev_map m) \<noteq> length (id_map m)" using len card_distinct by metis
    then show ?thesis using False by (simp add: check_consistency_def)
  qed
qed

context editable_index
begin

lemma add2_contents:
  assumes "idm_ok inv V m" "rev_ok m" "\<forall>x \<in> set xs. vec x" "length xids = length xs"
  shows "\<exists>m'. idm2_add_with_ids ops xs xids m = Inr m' \<and> idm_ok inv V m' \<and> rev_ok m'
    \<and> id_contents V m' = id_contents V m @ zip xids (map rnd xs)"
proof -
  from add_contents [OF assms(1,3,4)] obtain m' where m': "idm_add_with_ids ops xs xids m = Inr m'" "idm_ok inv V m'"
    "id_contents V m' = id_contents V m @ zip xids (map rnd xs)" "id_map m' = id_map m @ xids" "idmap.more m' = idmap.more m" by blast
  have "rev_map m' = rev_map m" using m'(5) by (cases m; cases m') simp
  then have "rev_ok (m'\<lparr>rev_map := set_rev (id_map m') (idm_ntotal m) (idm_ntotal m') (rev_map m')\<rparr>)"
    using assms(1,2) m'(2,4) by (intro set_rev_ok) (simp_all add: idm_ok_def)
  then show ?thesis using m'(1-3) by (simp add: idm2_add_with_ids_def idm_ok_def id_contents_def)
qed

lemma remove2_contents:
  assumes "idm_ok inv V m" "\<forall>x \<in> set (id_map m). askable sel x"
  shows "\<exists>m' n. idm2_remove_ids ops sel m = Inr (m', n) \<and> idm_ok inv V m' \<and> rev_ok m'
    \<and> id_contents V m' = filter (\<lambda>e. fst e \<notin> selection sel) (id_contents V m)
    \<and> n + length (id_contents V m') = length (id_contents V m)"
proof -
  from remove_contents [OF assms] obtain m' n where m': "idm_remove_ids ops sel m = Inr (m', n)" "idm_ok inv V m'"
    "id_contents V m' = filter (\<lambda>e. fst e \<notin> selection sel) (id_contents V m)"
    "n + length (id_contents V m') = length (id_contents V m)" by blast
  have "rev_ok (construct_rev_map m')" using m'(2) by (intro construct_rev_ok) (simp add: idm_ok_def)
  moreover have "idm_ok inv V (construct_rev_map m')" "id_contents V (construct_rev_map m') = id_contents V m'"
    using m'(2) by (simp_all add: idm_ok_def id_contents_def construct_rev_map_def)
  ultimately show ?thesis using m' by (simp add: idm2_remove_ids_def)
qed

lemma merge2_contents:
  assumes "idm_ok inv V m" "idm_ok inv V t" "rev_ok m" "ix_check_compatible ops (idm_index m) (idm_index t) = Inr ()"
  shows "\<exists>m' t'. idm2_merge_from ops m t add_id = Inr (m', t') \<and> idm_ok inv V m' \<and> idm_ok inv V t' \<and> rev_ok m' \<and> rev_ok t'
    \<and> id_contents V m' = id_contents V m @ map (\<lambda>(x, v). (x + add_id, v)) (id_contents V t) \<and> id_contents V t' = []"
proof -
  from merge_contents [OF assms(1,2,4), of add_id] obtain m' t' where m': "idm_merge_from ops m t add_id = Inr (m', t')"
    "idm_ok inv V m'" "idm_ok inv V t'"
    "id_contents V m' = id_contents V m @ map (\<lambda>(x, v). (x + add_id, v)) (id_contents V t)" "id_contents V t' = []"
    "id_map m' = id_map m @ map (\<lambda>x. x + add_id) (id_map t)" "id_map t' = []" "idmap.more m' = idmap.more m" by blast
  have "rev_map m' = rev_map m" using m'(8) by (cases m; cases m') simp
  then have "rev_ok (m'\<lparr>rev_map := set_rev (id_map m') (idm_ntotal m) (idm_ntotal m') (rev_map m')\<rparr>)"
    using assms(1,3) m'(2,6) by (intro set_rev_ok) (simp_all add: idm_ok_def)
  moreover have "rev_ok (t'\<lparr>rev_map := []\<rparr>)" using m'(7) by (simp add: rev_ok_def rev_of_def)
  ultimately show ?thesis using m'(1-5) by (simp add: idm2_merge_from_def idm_ok_def id_contents_def)
qed

lemma reconstruct2_contents:
  assumes "idm_ok inv V m" "rev_ok m"
  shows "idm2_reconstruct ops x m =
    (case map_of (rev (id_contents V m)) x of None \<Rightarrow> Inl (Throw ''key not found'') | Some v \<Rightarrow> Inr v)"
proof -
  have ok: "inv (idm_index m)" "length (id_map m) = length (V (idm_index m))" using assms(1) by (simp_all add: idm_ok_def)
  have rv: "map_of (rev_map m) x = rev_of (id_map m) x" using assms(2) by (simp add: rev_ok_def)
  show ?thesis
  proof (cases "rev_of (id_map m) x")
    case (Some p)
    then obtain i where "i < length (id_map m)" "p = int i" by (auto simp: rev_of_Some)
    then show ?thesis using Some rv map_of_contents [OF ok(2), of x] reconstruct [OF ok(1), of i] ok(2)
      by (simp add: idm2_reconstruct_def id_contents_def)
  qed (use rv map_of_contents [OF ok(2), of x] in \<open>simp add: idm2_reconstruct_def id_contents_def\<close>)
qed

end

section \<open>Search\<close>

lemma idm_labels_spec:
  "\<forall>l \<in> set ls. l < int (length ids) \<Longrightarrow> idm_labels ids ls = Inr (map (\<lambda>l. if l < 0 then l else ids ! nat l) ls)"
  by (induction ls) (auto simp: nat_less_iff)

lemma wanted_translated:
  assumes "\<nexists>m s. sel = Some (Sel_translated m s)" "i < length ids"
  shows "wanted (idm_selector ids sel) (int i) = wanted sel (ids ! i)"
    and "can_ask sel (ids ! i) \<Longrightarrow> can_ask (idm_selector ids sel) (int i)"
  using assms by (auto simp: wanted_def can_ask_def idm_selector_def split: option.splits id_selector.splits)

section \<open>Properties\<close>

text \<open>Calls on an \<open>IndexIDMap2\<close> over an \<open>IndexFlat\<close>, and on the list of pairs it holds.\<close>

datatype idm_op = Idm_add "8 word list list" "idx_t list" | Idm_remove id_selector

fun idm_apply :: "idm_op \<Rightarrow> flat_codes idmap2 \<Rightarrow> flat_codes idmap2 result" where
  "idm_apply (Idm_add xs xids) m = idm2_add_with_ids (fc_ops flat_codec) xs xids m"
| "idm_apply (Idm_remove sel) m = bind_result (idm2_remove_ids (fc_ops flat_codec) sel m) (\<lambda>(m, _). Inr m)"

fun pairs_apply :: "idm_op \<Rightarrow> (idx_t \<times> 8 word list) list \<Rightarrow> (idx_t \<times> 8 word list) list" where
  "pairs_apply (Idm_add xs xids) E = E @ zip xids xs"
| "pairs_apply (Idm_remove sel) E = filter (\<lambda>e. fst e \<notin> selection sel) E"

fun idm_op_ok :: "nat \<Rightarrow> (idx_t \<times> 8 word list) list \<Rightarrow> idm_op \<Rightarrow> bool" where
  "idm_op_ok cs E (Idm_add xs xids) = (length xids = length xs \<and> (\<forall>x \<in> set xs. length x = cs))"
| "idm_op_ok cs E (Idm_remove sel) = (\<forall>e \<in> set E. askable sel (fst e))"

fun idm_ops_ok :: "nat \<Rightarrow> (idx_t \<times> 8 word list) list \<Rightarrow> idm_op list \<Rightarrow> bool" where
  "idm_ops_ok cs E [] = True"
| "idm_ops_ok cs E (c # calls) = (idm_op_ok cs E c \<and> idm_ops_ok cs (pairs_apply c E) calls)"

abbreviation flat_contents :: "(flat_codes, 'z) idmap_scheme \<Rightarrow> (idx_t \<times> 8 word list) list" where
  "flat_contents \<equiv> id_contents (fc_vecs flat_codec)"

abbreviation flat_idm_ok :: "nat \<Rightarrow> (flat_codes, 'z) idmap_scheme \<Rightarrow> bool" where
  "flat_idm_ok cs \<equiv> idm_ok (fc_ok cs) (fc_vecs flat_codec)"

lemma map_fst_contents: "idm_ok iv V m \<Longrightarrow> map fst (id_contents V m) = id_map m"
  by (simp add: idm_ok_def id_contents_def)

lemma idm_apply_spec:
  assumes "flat_idm_ok cs m" "rev_ok m" "idm_op_ok cs (flat_contents m) c"
  shows "\<exists>m'. idm_apply c m = Inr m' \<and> flat_idm_ok cs m' \<and> rev_ok m' \<and> flat_contents m' = pairs_apply c (flat_contents m)"
proof (cases c)
  case (Idm_add xs xids)
  then have x: "\<forall>x \<in> set xs. length x = cs" "length xids = length xs" using assms(3) by simp_all
  have "map (\<lambda>x. cod_decode flat_codec (cod_encode flat_codec x)) xs = xs" by (simp add: flat_codec_def)
  then show ?thesis using flat.add2_contents [OF assms(1,2) x] Idm_add by simp
next
  case (Idm_remove sel)
  have "\<forall>x \<in> set (map fst (flat_contents m)). askable sel x" using assms(3) Idm_remove by auto
  then have "\<forall>x \<in> set (id_map m). askable sel x" using map_fst_contents [OF assms(1)] by simp
  from flat.remove2_contents [OF assms(1) this] show ?thesis using Idm_remove by auto
qed

lemma idm_calls_spec:
  assumes "flat_idm_ok cs m" "rev_ok m" "idm_ops_ok cs (flat_contents m) calls"
  shows "\<exists>m'. fold_result idm_apply calls m = Inr m' \<and> flat_idm_ok cs m' \<and> rev_ok m'
    \<and> flat_contents m' = fold pairs_apply calls (flat_contents m)"
  using assms
proof (induction calls arbitrary: m)
  case (Cons c calls)
  from idm_apply_spec [OF Cons.prems(1,2), of c] Cons.prems(3) obtain m1 where
    "idm_apply c m = Inr m1" "flat_idm_ok cs m1" "rev_ok m1" "flat_contents m1 = pairs_apply c (flat_contents m)" by auto
  then show ?case using Cons.IH [of m1] Cons.prems(3) by auto
qed simp

lemma idm2_new_ok:
  "\<exists>m. idm2_new (fc_ops flat_codec) (fc_new cls d cs) = Inr m \<and> flat_idm_ok cs m \<and> rev_ok m \<and> flat_contents m = []"
  by (simp add: idm2_new_def idm_new_def fc_ops_def fc_new_def idm_ok_def fc_ok_def rev_ok_def rev_of_def id_contents_def
      fc_vecs_def fc_rows_def chunks_def idmap.defs idmap2.defs)

text \<open>
  C26. \<open>IndexIDMap2\<close> over an \<open>IndexFlat\<close>: after any sequence of \<open>add_with_ids\<close> and \<open>remove_ids\<close>,
  \<open>reconstruct\<close> gives for an id the vector last added under it and not removed, and throws for
  every other id; \<open>check_consistency\<close> passes exactly when no id was given twice.
\<close>

theorem idmap2_refines_pairs:
  assumes "idm_ops_ok cs [] calls"
  shows "\<exists>m0 m. idm2_new (fc_ops flat_codec) (fc_new cls d cs) = Inr m0 \<and> fold_result idm_apply calls m0 = Inr m
    \<and> (\<forall>x. idm2_reconstruct (fc_ops flat_codec) x m =
        (case map_of (rev (fold pairs_apply calls [])) x of None \<Rightarrow> Inl (Throw ''key not found'') | Some v \<Rightarrow> Inr v))
    \<and> (check_consistency m = Inr () \<longleftrightarrow> distinct (map fst (fold pairs_apply calls [])))"
proof -
  obtain m0 where m0: "idm2_new (fc_ops flat_codec) (fc_new cls d cs) = Inr m0" "flat_idm_ok cs m0" "rev_ok m0" "flat_contents m0 = []"
    using idm2_new_ok [of cls d cs] by blast
  obtain m where m: "fold_result idm_apply calls m0 = Inr m" "flat_idm_ok cs m" "rev_ok m" "flat_contents m = fold pairs_apply calls []"
    using idm_calls_spec [OF m0(2,3), of calls] m0(4) assms by auto
  have "idm_ntotal m = length (id_map m)" using m(2) by (simp add: idm_ok_def)
  then have "check_consistency m = Inr () \<longleftrightarrow> distinct (map fst (fold pairs_apply calls []))"
    using check_consistency_spec [OF m(3)] map_fst_contents [OF m(2)] m(4) by simp
  then show ?thesis using m0(1) m flat.reconstruct2_contents [OF m(2,3)] by auto
qed

theorem idmap2_refines_pairs_witness:
  "\<exists>m0 m. idm2_new (fc_ops flat_codec) (fc_new ''IndexFlat'' 1 2) = Inr m0
    \<and> fold_result idm_apply [Idm_add [[1, 2], [3, 4], [5, 6]] [70, 80, 90], Idm_remove (Sel_range 75 85)] m0 = Inr m
    \<and> idm2_reconstruct (fc_ops flat_codec) 90 m = Inr [5, 6] \<and> check_consistency m = Inr ()"
proof -
  let ?calls = "[Idm_add [[1, 2], [3, 4], [5, 6]] [70, 80, 90], Idm_remove (Sel_range 75 85)]"
  have "idm_ops_ok 2 [] ?calls" by simp
  from idmap2_refines_pairs [OF this, of "''IndexFlat''" 1] obtain m0 m where
    m: "idm2_new (fc_ops flat_codec) (fc_new ''IndexFlat'' 1 2) = Inr m0" "fold_result idm_apply ?calls m0 = Inr m"
    and r: "\<And>x. idm2_reconstruct (fc_ops flat_codec) x m =
        (case map_of (rev (fold pairs_apply ?calls [])) x of None \<Rightarrow> Inl (Throw ''key not found'') | Some v \<Rightarrow> Inr v)"
    and c: "check_consistency m = Inr () \<longleftrightarrow> distinct (map fst (fold pairs_apply ?calls []))" by blast
  have e: "fold pairs_apply ?calls [] = [(70, [1, 2]), (90, [5, 6])]" by simp
  have "idm2_reconstruct (fc_ops flat_codec) 90 m = Inr [5, 6]" unfolding r e by simp
  moreover have "check_consistency m = Inr ()" unfolding c e by simp
  ultimately show ?thesis using m by blast
qed

text \<open>
  C38. Searching through an \<open>IndexIDMap\<close> over flat codes: the sub-index is asked about positions
  with the selector translated, and the answer is the top \<open>k\<close> of the positions whose ids the
  selector takes, with the positions replaced by their ids (missing results stay \<open>-1\<close>).
\<close>

theorem idmap_search_topk:
  assumes "is_trait C" "idm_ok (fc_ok cs) (fc_vecs cd) m" "0 < k" "length D = k" "length I = k"
    and "\<nexists>mp s. sel = Some (Sel_translated mp s)" "\<forall>x \<in> set (id_map m). can_ask sel x"
    and "\<forall>v \<in> set (fc_vecs cd (idm_index m)). cmp C (neutral C) (vd q v)"
  shows "\<exists>out. idm_search (\<lambda>s sl. bind_result (fc_search_query cd vd s (heap_result_handler C) sl q (hh_begin C k D I)) (\<lambda>r. Inr (hh_end C r))) m sel
      = Inr (map fst out, map (\<lambda>(d, i). if i < 0 then i else id_map m ! nat i) out)
    \<and> topk_result C k (map (\<lambda>i. (vd q (fc_vecs cd (idm_index m) ! i), int i))
        (filter (\<lambda>i. wanted sel (id_map m ! i)) [0..<length (id_map m)])) out"
proof -
  let ?s = "idm_index m" let ?ids = "id_map m" let ?n = "length (id_map m)" let ?sel = "idm_selector ?ids sel"
  have ok: "fc_ok cs ?s" "fc_ntotal ?s = ?n" using assms(2) by (simp_all add: idm_ok_def)
  let ?dc = "fc_distance_computer cd vd ?s q"
  define ps where "ps = map (\<lambda>i. (vd q (fc_vecs cd ?s ! i), int i)) (filter (\<lambda>i. wanted sel (?ids ! i)) [0..<?n])"
  have "\<forall>i < fc_ntotal ?s. can_ask ?sel (int i)" using wanted_translated(2) [OF assms(6)] assms(7) ok(2) by simp
  note r = fc_search_query_offers [OF this, of cd vd "heap_result_handler C" q "hh_begin C k D I"]
  have f: "flat_offers ?dc ?sel (fc_ntotal ?s) = ps"
  proof -
    have "filter (\<lambda>i. wanted ?sel (int i)) [0..<?n] = filter (\<lambda>i. wanted sel (?ids ! i)) [0..<?n]"
      using wanted_translated(1) [OF assms(6)] by (intro filter_cong) simp_all
    then show ?thesis unfolding flat_offers_def ps_def ok(2) using fc_query_dis [OF ok(1)] ok(2) by (intro map_cong) auto
  qed
  have p: "snd p \<noteq> -1 \<and> cmp C (neutral C) (fst p)" if "p \<in> set ps" for p
    using that assms(8) ok(2) by (auto simp: ps_def)
  define out where "out = pairs (hh_collect C k D I ps)"
  note hc = is_trait_heap_comparator [OF assms(1)]
  have top: "topk_result C k ps out" unfolding out_def
    by (rule heap_comparator.hh_collect_topk [OF hc assms(3-5) p])
  have e: "hh_end C (offers (heap_result_handler C) (hh_begin C k D I) ps) = hh_collect C k D I ps"
    using heap_comparator.hh_offers_eq [OF hc] by (simp add: hh_collect_def)
  have "same_len (hh_collect C k D I ps) k" by (rule hh_collect_len [OF assms(1,3-5)])
  then have o': "hh_collect C k D I ps = (map fst out, map snd out)"
    by (cases "hh_collect C k D I ps") (simp add: out_def pairs_def same_len_def)
  have "\<forall>l \<in> set (map snd out). l < int ?n"
  proof -
    obtain S R where S: "out = S @ replicate (k - length S) (neutral C, -1)" "mset ps = mset S + R"
      using top unfolding topk_result_def by blast
    have "set ps = set S \<union> set_mset R"
      using arg_cong [OF S(2), of set_mset] by (simp only: set_mset_mset set_mset_union)
    moreover have "set (S @ replicate (k - length S) (neutral C, -1)) \<subseteq> set S \<union> {(neutral C, -1)}" by auto
    ultimately have "set out \<subseteq> set ps \<union> {(neutral C, -1)}" unfolding S(1) [symmetric] by blast
    moreover have "snd p < int ?n" if "p \<in> set ps \<union> {(neutral C, -1)}" for p
      using that by (auto simp: ps_def)
    ultimately show ?thesis by auto
  qed
  from idm_labels_spec [OF this] have "idm_labels ?ids (map snd out) = Inr (map (\<lambda>(d, i). if i < 0 then i else ?ids ! nat i) out)"
    by (simp add: case_prod_beta o_def)
  then show ?thesis using top r f e o' unfolding ps_def [symmetric]
    by (intro exI [of _ out]) (simp add: idm_search_def)
qed

text \<open>An id map over three codes of one byte.\<close>

definition three_bytes :: "flat_codes idmap" where
  "three_bytes = \<lparr>idm_index = (fc_new ''IndexFlat'' 1 1)\<lparr>fc_codes := [3, 1, 2], fc_ntotal := 3\<rparr>,
     id_map = [10, 20, 30], idm_ntotal = 3\<rparr>"

lemma three_bytes_ok:
  "idm_ok (fc_ok 1) (fc_vecs flat_codec) three_bytes" "fc_vecs flat_codec (idm_index three_bytes) = [[3], [1], [2]]"
proof -
  show v: "fc_vecs flat_codec (idm_index three_bytes) = [[3], [1], [2]]" by code_simp
  show "idm_ok (fc_ok 1) (fc_vecs flat_codec) three_bytes"
    unfolding idm_ok_def v by (simp add: three_bytes_def fc_ok_def fc_new_def)
qed

theorem idmap_search_topk_witness:
  "\<exists>out. idm_search (\<lambda>s sl. bind_result (fc_search_query flat_codec byte_distance s (heap_result_handler (CMax 0 1000)) sl [0]
        (hh_begin (CMax 0 1000) 2 [0, 0] [0, 0])) (\<lambda>r. Inr (hh_end (CMax 0 1000) r))) three_bytes (Some (Sel_range 0 25))
      = Inr (map fst out, map (\<lambda>(d, i). if i < 0 then i else id_map three_bytes ! nat i) out)
    \<and> topk_result (CMax 0 1000) 2 [(3, 0), (1, 1)] out"
proof -
  have i: "id_map three_bytes = [10, 20, 30]" by (simp add: three_bytes_def)
  have a: "\<nexists>mp s. Some (Sel_range 0 25) = Some (Sel_translated mp s)" "\<forall>x \<in> set (id_map three_bytes). can_ask (Some (Sel_range 0 25)) x"
    by (simp_all add: can_ask_def)
  have d: "\<forall>v \<in> set (fc_vecs flat_codec (idm_index three_bytes)). cmp (CMax 0 1000) (neutral (CMax 0 1000)) (byte_distance [0] v)"
    by (simp add: three_bytes_ok(2) byte_distance_def)
  have "map (\<lambda>i. (byte_distance [0] (fc_vecs flat_codec (idm_index three_bytes) ! i), int i))
      (filter (\<lambda>i. wanted (Some (Sel_range 0 25)) (id_map three_bytes ! i)) [0..<length (id_map three_bytes)]) = [(3, 0), (1, 1)]"
    by (simp add: three_bytes_ok(2) i byte_distance_def wanted_def upt_rec)
  then show ?thesis
    using idmap_search_topk [where C = "CMax 0 1000" and vd = byte_distance and q = "[0]" and k = 2 and D = "[0, 0]" and I = "[0, 0]",
        OF is_trait_CMax three_bytes_ok(1) _ _ _ a d] by simp
qed

text \<open>
  \<open>IndexIDMap2\<close> does not redefine \<open>reset\<close>, so its reverse map survives: after \<open>reset\<close> and the
  addition of a vector under the id 8, \<open>reconstruct(7)\<close> of an id added before the reset returns that
  vector, and \<open>check_consistency\<close> throws.
\<close>

theorem idmap2_reset_is_stale:
  "\<exists>m. bind_result (idm2_new (fc_ops flat_codec) (fc_new ''IndexFlat'' 1 1)) (\<lambda>m.
      bind_result (idm2_add_with_ids (fc_ops flat_codec) [[1]] [7] m) (\<lambda>m.
      idm2_add_with_ids (fc_ops flat_codec) [[2]] [8] (idm_reset (fc_ops flat_codec) m))) = Inr m
    \<and> idm2_reconstruct (fc_ops flat_codec) 7 m = Inr [2]
    \<and> check_consistency m = Inl (Throw ''rev_map.size() == this->id_map.size()'')"
proof -
  let ?m = "\<lparr>idm_index = (fc_new ''IndexFlat'' 1 1)\<lparr>fc_codes := [2], fc_ntotal := 1\<rparr>, id_map = [8], idm_ntotal = 1,
     rev_map = [(7, 0), (8, 0)]\<rparr>"
  have "bind_result (idm2_new (fc_ops flat_codec) (fc_new ''IndexFlat'' 1 1)) (\<lambda>m.
      bind_result (idm2_add_with_ids (fc_ops flat_codec) [[1]] [7] m) (\<lambda>m.
      idm2_add_with_ids (fc_ops flat_codec) [[2]] [8] (idm_reset (fc_ops flat_codec) m))) = Inr ?m" by code_simp
  moreover have "idm2_reconstruct (fc_ops flat_codec) 7 ?m = Inr [2]" by code_simp
  moreover have "check_consistency ?m = Inl (Throw ''rev_map.size() == this->id_map.size()'')" by code_simp
  ultimately show ?thesis by blast
qed

end
