(* ===== verification/Index_Hnsw.thy ===== *)
theory Index_Hnsw
  imports Hnsw_Build_Correct Hnsw_Navix Flat_Codes
begin

text \<open>
  \<open>IndexHNSW\<close> (\<open>faiss/IndexHNSW.cpp\<close>): the graph on top of a storage index that holds the vectors.
  The storage is a record of its virtual functions. Loops that OpenMP may run in parallel are run
  in order; the interrupt callback never interrupts; distances of the type \<open>'d\<close> can be negated,
  which the code does for similarity metrics.
\<close>

section \<open>Storage\<close>

record ('s, 'v, 'd) storage_ops =
  vs_index :: "('s, 'v) index_ops"
  vs_computer :: "'s \<Rightarrow> 'v \<Rightarrow> 'd distance_computer"
  vs_similarity :: bool
  vs_permute :: "(nat list \<Rightarrow> 's \<Rightarrow> 's result) option"

text \<open>The distance computer after \<open>set_query(x)\<close>.\<close>

definition storage_distance_computer :: "('s, 'v, 'd :: uminus) storage_ops \<Rightarrow> 's \<Rightarrow> 'v \<Rightarrow> 'd distance_computer" where
  "storage_distance_computer so s x =
     (if vs_similarity so then negative_computer (vs_computer so s x) else vs_computer so s x)"

record 's index_hnsw =
  ih_hnsw :: hnsw
  ih_storage :: "'s option"
  ih_ntotal :: nat
  ih_is_trained :: bool
  ih_init_level0 :: bool
  ih_keep_max_size_level0 :: bool

section \<open>Adding vectors\<close>

subsection \<open>Buckets of points of the same level\<close>

definition hist_add :: "nat list \<Rightarrow> nat \<Rightarrow> nat list" where
  "hist_add hist pt_level =
     (let hist = (if length hist \<le> pt_level then resize (pt_level + 1) 0 hist else hist) in
      hist[pt_level := hist ! pt_level + 1])"

text \<open>For a point of level -1 the comparison with the unsigned size never ends the loop that grows the histogram.\<close>

definition level_hist :: "hnsw \<Rightarrow> nat \<Rightarrow> nat \<Rightarrow> nat list result" where
  "level_hist h n0 n =
     fold_result (\<lambda>i hist.
       if levels h ! (i + n0) = 0 then Inl (Throw ''std::bad_alloc'')
       else Inr (hist_add hist (levels h ! (i + n0) - 1))) [0..<n] []"

definition bucket_offsets :: "nat list \<Rightarrow> nat list" where
  "bucket_offsets hist =
     fold (\<lambda>i offs. offs[i + 1 := offs ! i + hist ! i]) [0..<length hist - 1] (replicate (length hist + 1) 0)"

definition bucket_step :: "hnsw \<Rightarrow> nat \<Rightarrow> nat \<Rightarrow> nat list \<times> nat list \<Rightarrow> nat list \<times> nat list" where
  "bucket_step h n0 i st =
     (case st of (order, offs) \<Rightarrow>
        let pt_level = levels h ! (i + n0) - 1 in
        (order[offs ! pt_level := i + n0], offs[pt_level := offs ! pt_level + 1]))"

definition bucket_sort :: "hnsw \<Rightarrow> nat \<Rightarrow> nat \<Rightarrow> nat list \<Rightarrow> nat list" where
  "bucket_sort h n0 n hist = fst (fold (bucket_step h n0) [0..<n] (replicate n 0, bucket_offsets hist))"

text \<open>The random permutation of a bucket; \<open>rs\<close> are the numbers of the generator, \<open>k\<close> counts them.\<close>

definition shuffle_step :: "(nat \<Rightarrow> nat) \<Rightarrow> nat \<Rightarrow> nat \<Rightarrow> nat list \<times> nat \<Rightarrow> nat list \<times> nat" where
  "shuffle_step rs i1 j st =
     (case st of (order, k) \<Rightarrow>
        let j' = j + rs k mod (i1 - j) in (order[j := order ! j', j' := order ! j], k + 1))"

definition shuffle :: "(nat \<Rightarrow> nat) \<Rightarrow> nat \<Rightarrow> nat \<Rightarrow> nat list \<times> nat \<Rightarrow> nat list \<times> nat" where
  "shuffle rs i0 i1 st = fold (shuffle_step rs i1) [i0..<i1] st"

subsection \<open>Insertion, level by level\<close>

fun add_points ::
  "('s, 'v, 'd :: {linorder, uminus}) storage_ops \<Rightarrow> 's \<Rightarrow> nat \<Rightarrow> 'v list \<Rightarrow> nat \<Rightarrow> bool \<Rightarrow> nat list \<Rightarrow>
   hnsw \<times> storage_idx_t set \<times> visited_table \<Rightarrow> (hnsw \<times> storage_idx_t set \<times> visited_table) result option" where
  "add_points so s n0 xs pt_level keep [] st = Some (Inr st)"
| "add_points so s n0 xs pt_level keep (pt_id # pts) (h, held, vt) =
     (case add_with_locks h (storage_distance_computer so s (xs ! (pt_id - n0))) pt_level (int pt_id) keep ((held, []), vt) of
        None \<Rightarrow> None
      | Some (Inl e) \<Rightarrow> Some (Inl e)
      | Some (Inr (h', (held', _), vt')) \<Rightarrow> add_points so s n0 xs pt_level keep pts (h', held', vt'))"

text \<open>One bucket: the loop state is the graph, the locks, the order, the generator and the end of the bucket.\<close>

fun add_buckets ::
  "('s, 'v, 'd :: {linorder, uminus}) storage_ops \<Rightarrow> 's \<Rightarrow> nat \<Rightarrow> 'v list \<Rightarrow> bool \<Rightarrow> (nat \<Rightarrow> nat) \<Rightarrow> nat list \<Rightarrow> nat list \<Rightarrow>
   hnsw \<times> storage_idx_t set \<times> nat list \<times> nat \<times> nat \<Rightarrow> (hnsw \<times> storage_idx_t set \<times> nat) result option" where
  "add_buckets so s n0 xs keep0 rs hist [] (h, held, order, k, i1) = Some (Inr (h, held, i1))"
| "add_buckets so s n0 xs keep0 rs hist (pt_level # pt_levels) (h, held, order, k, i1) =
     (let i0 = i1 - hist ! pt_level;
          (order', k') = shuffle rs i0 i1 (order, k) in
      case add_points so s n0 xs pt_level (keep0 \<and> pt_level = 0) (subrange i0 (i1 - i0) order')
             (h, held, vt_new (n0 + length xs)) of
        None \<Rightarrow> None
      | Some (Inl e) \<Rightarrow> Some (Inl e)
      | Some (Inr (h', held', vt)) \<Rightarrow> add_buckets so s n0 xs keep0 rs hist pt_levels (h', held', order', k', i0))"

definition hnsw_add_vertices ::
  "('s, 'v, 'd :: {linorder, uminus}) storage_ops \<Rightarrow> 's index_hnsw \<Rightarrow> 's \<Rightarrow> nat \<Rightarrow> 'v list \<Rightarrow> bool \<Rightarrow> (nat \<Rightarrow> rat) \<Rightarrow> (nat \<Rightarrow> nat) \<Rightarrow>
   hnsw result option" where
  "hnsw_add_vertices so ih s n0 xs preset_levels fs rs =
     (let n = length xs in
      if n = 0 then Some (Inr (ih_hnsw ih))
      else case prepare_level_tab (ih_hnsw ih) n preset_levels fs of
        Inl e \<Rightarrow> Some (Inl e)
      | Inr (h, max_level') \<Rightarrow>
          (case level_hist h n0 n of
             Inl e \<Rightarrow> Some (Inl e)
           | Inr hist \<Rightarrow>
               (case add_buckets so s n0 xs (ih_keep_max_size_level0 ih) rs hist
                       (rev [if ih_init_level0 ih then 0 else 1..<length hist])
                       (h, {}, bucket_sort h n0 n hist, 0, n) of
                  None \<Rightarrow> None
                | Some (Inl e) \<Rightarrow> Some (Inl e)
                | Some (Inr (h', held, i1)) \<Rightarrow>
                    if ih_init_level0 ih then (if i1 = 0 then Some (Inr h') else Some (Inl Assert_failed))
                    else (if i1 - hist ! 0 = 0 then Some (Inr h') else Some (Inl Assert_failed)))))"

definition ih_add ::
  "('s, 'v, 'd :: {linorder, uminus}) storage_ops \<Rightarrow> 'v list \<Rightarrow> (nat \<Rightarrow> rat) \<Rightarrow> (nat \<Rightarrow> nat) \<Rightarrow> 's index_hnsw \<Rightarrow>
   's index_hnsw result option" where
  "ih_add so xs fs rs ih =
     (case ih_storage ih of
        None \<Rightarrow> Some (Inl (Throw ''Please use IndexHNSWFlat (or variants) instead of IndexHNSW directly''))
      | Some s \<Rightarrow>
          if \<not> ih_is_trained ih then Some (Inl (Throw ''is_trained''))
          else
            let n0 = ih_ntotal ih in
            case ix_add (vs_index so) xs s of
              Inl e \<Rightarrow> Some (Inl e)
            | Inr s' \<Rightarrow>
                let ih' = ih\<lparr>ih_storage := Some s', ih_ntotal := ix_ntotal (vs_index so) s'\<rparr> in
                map_option (\<lambda>r. bind_result r (\<lambda>h. Inr (ih'\<lparr>ih_hnsw := h\<rparr>)))
                  (hnsw_add_vertices so ih' s' n0 xs (length (levels (ih_hnsw ih)) = ih_ntotal ih') fs rs))"

section \<open>Search\<close>

text \<open>The queries one after the other: \<open>begin\<close> on row \<open>q\<close>, the search of the graph, \<open>end\<close>.\<close>

fun search_rows ::
  "'d comparator \<Rightarrow> nat \<Rightarrow> (nat \<Rightarrow> 'v \<Rightarrow> 'd heap_handler \<Rightarrow> visited_table \<Rightarrow> (hnsw_stats \<times> 'd heap_handler \<times> visited_table) result option) \<Rightarrow>
   nat \<Rightarrow> 'v list \<Rightarrow> ('d list \<times> idx_t list) \<times> hnsw_stats \<times> visited_table \<Rightarrow>
   (('d list \<times> idx_t list) \<times> hnsw_stats \<times> visited_table) result option" where
  "search_rows C k f q [] st = Some (Inr st)"
| "search_rows C k f q (x # xs) (t, stats, vt) =
     (case f q x (hh_begin C k (row k q (fst t)) (row k q (snd t))) vt of
        None \<Rightarrow> None
      | Some (Inl e) \<Rightarrow> Some (Inl e)
      | Some (Inr (stats', r, vt')) \<Rightarrow>
          search_rows C k f (q + 1) xs (on_row k (\<lambda>_. hh_end C r) q t, stats_combine stats stats', vt'))"

definition revert_distances :: "bool \<Rightarrow> nat \<Rightarrow> ('d :: uminus) list \<times> idx_t list \<Rightarrow> 'd list \<times> idx_t list" where
  "revert_distances similarity n t =
     (if similarity then (map uminus (take n (fst t)) @ drop n (fst t), snd t) else t)"

definition no_storage :: fault where
  "no_storage = Throw ''No storage index, please use IndexHNSWFlat (or variants) instead of IndexHNSW directly''"

definition ih_search ::
  "'d \<Rightarrow> 'd \<Rightarrow> ('s, 'v, 'd :: {linorder, uminus}) storage_ops \<Rightarrow> 's index_hnsw \<Rightarrow> 'v list \<Rightarrow> nat \<Rightarrow> search_params option \<Rightarrow>
   'd list \<times> idx_t list \<Rightarrow> (('d list \<times> idx_t list) \<times> hnsw_stats) result option" where
  "ih_search lo hi so ih xs k params t =
     (if \<not> 0 < k then Some (Inl (Throw ''k > 0''))
      else case ih_storage ih of
        None \<Rightarrow> Some (Inl no_storage)
      | Some s \<Rightarrow>
          map_option (\<lambda>r. bind_result r (\<lambda>(t, stats, vt). Inr (revert_distances (vs_similarity so) (k * length xs) t, stats)))
            (search_rows (CMax lo hi) k
              (\<lambda>q x res vt. hnsw_search (ih_hnsw ih) (storage_distance_computer so s x) (heap_result_handler (CMax lo hi)) res vt params)
              0 xs (t, stats_reset, vt_new (ih_ntotal ih))))"

text \<open>\<open>single_search\<close>: the caller keeps the visited table and the statistics.\<close>

definition ih_single_search ::
  "'d \<Rightarrow> 'd \<Rightarrow> ('s, 'v, 'd :: {linorder, uminus}) storage_ops \<Rightarrow> 's index_hnsw \<Rightarrow> 'v \<Rightarrow> nat \<Rightarrow>
   ('d list \<times> idx_t list) \<times> hnsw_stats \<times> visited_table \<Rightarrow> (('d list \<times> idx_t list) \<times> hnsw_stats \<times> visited_table) result option" where
  "ih_single_search lo hi so ih query k st =
     (case ih_storage ih of
        None \<Rightarrow> Some (Inl Null_pointer)
      | Some s \<Rightarrow>
          search_rows (CMax lo hi) k
            (\<lambda>q x res vt. hnsw_search (ih_hnsw ih) (storage_distance_computer so s x) (heap_result_handler (CMax lo hi)) res vt None)
            0 [query] st)"

text \<open>\<open>navix_search\<close>: query \<open>q\<close> has the part of the filter masks that starts at \<open>q * ntotal\<close>.\<close>

definition mask_filter :: "8 word list \<Rightarrow> nat \<Rightarrow> filter_map" where
  "mask_filter filter_masks start v = (filter_masks ! (start + nat v) \<noteq> 0)"

definition advance_after ::
  "(hnsw_stats \<times> 'r \<times> visited_table) result option \<Rightarrow> (hnsw_stats \<times> 'r \<times> visited_table) result option" where
  "advance_after = map_option (\<lambda>r. bind_result r (\<lambda>(stats, res, vt). Inr (stats, res, vt_advance vt)))"

definition ih_navix_search ::
  "'d \<Rightarrow> 'd \<Rightarrow> ('s, 'v, 'd :: {linorder, uminus}) storage_ops \<Rightarrow> 's index_hnsw \<Rightarrow> 'v list \<Rightarrow> nat \<Rightarrow> 8 word list \<Rightarrow> search_params option \<Rightarrow>
   'd list \<times> idx_t list \<Rightarrow> (('d list \<times> idx_t list) \<times> hnsw_stats) result option" where
  "ih_navix_search lo hi so ih xs k filter_masks params t =
     (if \<not> 0 < k then Some (Inl (Throw ''k > 0''))
      else case ih_storage ih of
        None \<Rightarrow> Some (Inl no_storage)
      | Some s \<Rightarrow>
          map_option (\<lambda>r. bind_result r (\<lambda>(t, stats, vt). Inr (revert_distances (vs_similarity so) (k * length xs) t, stats)))
            (search_rows (CMax lo hi) k
              (\<lambda>q x res vt. advance_after (navix_hybrid_search (ih_hnsw ih) (storage_distance_computer so s x)
                (heap_result_handler (CMax lo hi)) res vt (mask_filter filter_masks (q * ih_ntotal ih))))
              0 xs (t, stats_reset, vt_new (ih_ntotal ih))))"

definition ih_navix_single_search ::
  "'d \<Rightarrow> 'd \<Rightarrow> ('s, 'v, 'd :: {linorder, uminus}) storage_ops \<Rightarrow> 's index_hnsw \<Rightarrow> 'v \<Rightarrow> nat \<Rightarrow> 8 word list \<Rightarrow>
   ('d list \<times> idx_t list) \<times> hnsw_stats \<times> visited_table \<Rightarrow> (('d list \<times> idx_t list) \<times> hnsw_stats \<times> visited_table) result option" where
  "ih_navix_single_search lo hi so ih query k filter_mask st =
     (case ih_storage ih of
        None \<Rightarrow> Some (Inl Null_pointer)
      | Some s \<Rightarrow>
          search_rows (CMax lo hi) k
            (\<lambda>q x res vt. advance_after (navix_hybrid_search (ih_hnsw ih) (storage_distance_computer so s x)
              (heap_result_handler (CMax lo hi)) res vt (mask_filter filter_mask 0)))
            0 [query] st)"

text \<open>\<open>search_level_0\<close>: the entry points of each query are given.\<close>

definition ih_search_level_0 ::
  "'d \<Rightarrow> 'd \<Rightarrow> ('s, 'v, 'd :: {linorder, uminus}) storage_ops \<Rightarrow> 's index_hnsw \<Rightarrow> 'v list \<Rightarrow> nat \<Rightarrow> storage_idx_t list \<Rightarrow> 'd list \<Rightarrow>
   nat \<Rightarrow> nat \<Rightarrow> search_params option \<Rightarrow> 'd list \<times> idx_t list \<Rightarrow> (('d list \<times> idx_t list) \<times> hnsw_stats) result option" where
  "ih_search_level_0 lo hi so ih xs k nearest nearest_d nprobe search_type params t =
     (if \<not> 0 < k then Some (Inl (Throw ''k > 0''))
      else if \<not> 0 < nprobe then Some (Inl (Throw ''nprobe > 0''))
      else case ih_storage ih of
        None \<Rightarrow> Some (Inl Null_pointer)
      | Some s \<Rightarrow>
          map_option (\<lambda>r. bind_result r (\<lambda>(t, stats, vt). Inr (revert_distances (vs_similarity so) (k * length xs) t, stats)))
            (search_rows (CMax lo hi) k
              (\<lambda>q x res vt. map_option (\<lambda>r. bind_result r (\<lambda>(res, vt, stats). Inr (stats, res, vt_advance vt)))
                (search_level_0 (ih_hnsw ih) (storage_distance_computer so s x) (heap_result_handler (CMax lo hi)) res
                  (zip (row nprobe q nearest) (row nprobe q nearest_d)) search_type stats_reset vt params lo))
              0 xs (t, stats_reset, vt_new (length (levels (ih_hnsw ih))))))"

definition ih_reset :: "('s, 'v, 'd) storage_ops \<Rightarrow> 's index_hnsw \<Rightarrow> 's index_hnsw result" where
  "ih_reset so ih =
     (case ih_storage ih of
        None \<Rightarrow> Inl Null_pointer
      | Some s \<Rightarrow> Inr (ih\<lparr>ih_hnsw := hnsw_reset (ih_hnsw ih), ih_storage := Some (ix_reset (vs_index so) s), ih_ntotal := 0\<rparr>))"

definition ih_reconstruct :: "('s, 'v, 'd) storage_ops \<Rightarrow> idx_t \<Rightarrow> 's index_hnsw \<Rightarrow> 'v result" where
  "ih_reconstruct so key ih =
     (case ih_storage ih of None \<Rightarrow> Inl Null_pointer | Some s \<Rightarrow> ix_reconstruct (vs_index so) key s)"

section \<open>Operations on level 0\<close>

text \<open>The loop that writes a list of ids into the slots of a node and fills up with \<open>-1\<close>.\<close>

definition write_links :: "nat \<Rightarrow> storage_idx_t list \<Rightarrow> hnsw \<Rightarrow> hnsw" where
  "write_links i ids h =
     (case neighbor_range h (int i) 0 of (b, e) \<Rightarrow>
        h\<lparr>neighbors := put_range b (map (\<lambda>j. if j - b < length ids then ids ! (j - b) else -1) [b..<e]) (neighbors h)\<rparr>)"

text \<open>\<open>shrink_level_0_neighbors\<close>: only distances of stored vectors are computed, so any query will do.\<close>

definition shrink_row :: "('d :: linorder) distance_computer \<Rightarrow> nat \<Rightarrow> nat \<Rightarrow> hnsw \<Rightarrow> hnsw" where
  "shrink_row dis new_size i h =
     (let initial_list = to_queue farther (map (\<lambda>v1. (symmetric_dis dis (int i) v1, v1)) (links h (int i) 0));
          shrunk_list = shrink_neighbor_list dis initial_list new_size False in
      write_links i (map snd shrunk_list) h)"

definition shrink_level_0_neighbors :: "('d :: linorder) distance_computer \<Rightarrow> nat \<Rightarrow> nat \<Rightarrow> hnsw \<Rightarrow> hnsw" where
  "shrink_level_0_neighbors dis new_size n h = fold (shrink_row dis new_size) [0..<n] h"

text \<open>\<open>init_level_0_from_knngraph\<close>: \<open>k\<close> neighbors per node in the tables \<open>D\<close> and \<open>I\<close>.\<close>

fun knn_entries :: "nat \<Rightarrow> ('d \<times> idx_t) list \<Rightarrow> ('d \<times> idx_t) list" where
  "knn_entries i [] = []"
| "knn_entries i ((d, v1) # rest) =
     (if v1 = int i then knn_entries i rest else if v1 < 0 then [] else (d, v1) # knn_entries i rest)"

definition knn_row :: "('d :: linorder) distance_computer \<Rightarrow> nat \<Rightarrow> ('d \<times> idx_t) list \<Rightarrow> nat \<Rightarrow> hnsw \<Rightarrow> hnsw" where
  "knn_row qdis dest_size entries i h =
     (let initial_list = to_queue farther (knn_entries i entries);
          shrunk_list = shrink_neighbor_list qdis initial_list dest_size False in
      write_links i (map snd shrunk_list) h)"

definition init_level_0_from_knngraph ::
  "('s, 'v, 'd :: {linorder, uminus}) storage_ops \<Rightarrow> nat \<Rightarrow> 'd list \<Rightarrow> idx_t list \<Rightarrow> 's index_hnsw \<Rightarrow> 's index_hnsw result" where
  "init_level_0_from_knngraph so k D I ih =
     bind_result (nb_neighbors (ih_hnsw ih) 0) (\<lambda>dest_size.
     case ih_storage ih of
       None \<Rightarrow> Inl Null_pointer
     | Some s \<Rightarrow>
         bind_result (fold_result (\<lambda>i h.
             bind_result (ix_reconstruct (vs_index so) (int i) s) (\<lambda>vec.
               Inr (knn_row (storage_distance_computer so s vec) dest_size (zip (row k i D) (row k i I)) i h)))
           [0..<ih_ntotal ih] (ih_hnsw ih)) (\<lambda>h. Inr (ih\<lparr>ih_hnsw := h\<rparr>)))"

text \<open>\<open>init_level_0_from_entry_points\<close>: every lock is free at the start.\<close>

fun link_entry_points ::
  "('s, 'v, 'd :: {linorder, uminus}) storage_ops \<Rightarrow> 's \<Rightarrow> (storage_idx_t \<times> storage_idx_t) list \<Rightarrow>
   hnsw \<times> storage_idx_t set \<times> visited_table \<Rightarrow> (hnsw \<times> storage_idx_t set \<times> visited_table) result option" where
  "link_entry_points so s [] st = Some (Inr st)"
| "link_entry_points so s ((pt_id, nearest) # rest) (h, held, vt) =
     (case ix_reconstruct (vs_index so) pt_id s of
        Inl e \<Rightarrow> Some (Inl e)
      | Inr vec \<Rightarrow>
          let dis = storage_distance_computer so s vec in
          (case add_links_starting_from h dis pt_id nearest (query_dis dis nearest) 0 False ((held, []), vt) of
             None \<Rightarrow> None
           | Some (Inl e) \<Rightarrow> Some (Inl e)
           | Some (Inr (h', (held', _), vt')) \<Rightarrow> link_entry_points so s rest (h', held', vt')))"

definition init_level_0_from_entry_points ::
  "('s, 'v, 'd :: {linorder, uminus}) storage_ops \<Rightarrow> storage_idx_t list \<Rightarrow> storage_idx_t list \<Rightarrow> 's index_hnsw \<Rightarrow>
   's index_hnsw result option" where
  "init_level_0_from_entry_points so points nearests ih =
     (case ih_storage ih of
        None \<Rightarrow> Some (Inl Null_pointer)
      | Some s \<Rightarrow>
          map_option (\<lambda>r. bind_result r (\<lambda>(h, held, vt). Inr (ih\<lparr>ih_hnsw := h\<rparr>)))
            (link_entry_points so s (zip points nearests) (ih_hnsw ih, {}, vt_new (ih_ntotal ih))))"

text \<open>\<open>reorder_links\<close>: \<open>argsort\<close> is \<open>fvec_argsort\<close>, which returns the order of its argument.\<close>

definition reorder_row :: "('d :: linorder) distance_computer \<Rightarrow> ('d list \<Rightarrow> nat list) \<Rightarrow> nat \<Rightarrow> hnsw \<Rightarrow> hnsw" where
  "reorder_row dis argsort i h =
     (case neighbor_range h (int i) 0 of (b, e) \<Rightarrow>
        let tmp = links h (int i) 0;
            order = argsort (map (symmetric_dis dis (int i)) tmp) in
        h\<lparr>neighbors := put_range b (map (\<lambda>j. tmp ! (order ! j)) [0..<length tmp]) (neighbors h)\<rparr>)"

definition reorder_links :: "('d :: linorder) distance_computer \<Rightarrow> ('d list \<Rightarrow> nat list) \<Rightarrow> nat \<Rightarrow> hnsw \<Rightarrow> hnsw" where
  "reorder_links dis argsort n h = fold (reorder_row dis argsort) [0..<n] h"

text \<open>\<open>link_singletons\<close>: nodes that no level-0 slot names; linking them is not implemented.\<close>

definition mark_seen :: "hnsw \<Rightarrow> nat \<Rightarrow> bool list \<Rightarrow> bool list" where
  "mark_seen h i seen = fold (\<lambda>ni seen. if 0 \<le> ni then seen[nat ni := True] else seen) (slots h (int i) 0) seen"

definition singletons :: "hnsw \<Rightarrow> nat \<Rightarrow> nat list" where
  "singletons h n =
     (let seen = fold (mark_seen h) [0..<n] (replicate n False) in filter (\<lambda>i. \<not> seen ! i) [0..<n])"

definition link_singletons :: "'s index_hnsw \<Rightarrow> 's index_hnsw result" where
  "link_singletons ih = (if singletons (ih_hnsw ih) (ih_ntotal ih) \<noteq> [] then Inl Assert_failed else Inr ih)"

definition ih_permute_entries :: "('s, 'v, 'd) storage_ops \<Rightarrow> nat list \<Rightarrow> 's index_hnsw \<Rightarrow> 's index_hnsw result" where
  "ih_permute_entries so perm ih =
     (case ih_storage ih of
        None \<Rightarrow> Inl (Throw ''don't know how to permute this index'')
      | Some s \<Rightarrow>
          (case vs_permute so of
             None \<Rightarrow> Inl (Throw ''don't know how to permute this index'')
           | Some permute \<Rightarrow>
               bind_result (permute perm s) (\<lambda>s'.
               bind_result (permute_entries (ih_hnsw ih) perm) (\<lambda>h.
                 Inr (ih\<lparr>ih_storage := Some s', ih_hnsw := h\<rparr>)))))"

text \<open>The storage of \<open>IndexHNSWFlat\<close> and its kind: an index of flat codes.\<close>

definition flat_storage :: "'v codec \<Rightarrow> ('v \<Rightarrow> 'v \<Rightarrow> 'd) \<Rightarrow> bool \<Rightarrow> (flat_codes, 'v, 'd) storage_ops" where
  "flat_storage cd vd similarity =
     \<lparr>vs_index = fc_ops cd, vs_computer = fc_distance_computer cd vd, vs_similarity = similarity,
      vs_permute = Some fc_permute_entries\<rparr>"

end
