(* ===== verification/Index_Hnsw_Buckets.thy ===== *)
theory Index_Hnsw_Buckets
  imports Index_Hnsw
begin

text \<open>
  The preparation of an addition to \<open>IndexHNSW\<close>: the tables grow by well-formed empty rows, the
  counting sort puts the points of each level in one range, and the shuffle permutes a range.
\<close>

section \<open>Levels and offsets\<close>

lemma random_level_from_bounds:
  "level + length ps = n \<Longrightarrow> 0 < n \<Longrightarrow> 0 \<le> random_level_from ps n level f \<and> random_level_from ps n level f < int n"
proof (induction ps arbitrary: level f)
  case (Cons p ps)
  then show ?case using Cons.IH [of "level + 1" "f - p"] by auto
qed simp

lemma random_level_bounds:
  "assign_probas h \<noteq> [] \<Longrightarrow> 0 \<le> random_level h f \<and> random_level h f < int (length (assign_probas h))"
  unfolding random_level_def by (intro random_level_from_bounds) auto

lemma add_level_steps:
  assumes "length offs = Suc n0"
  shows "\<exists>offs'. snd (fold (add_level_step h n0) [0..<n] (m0, offs)) = offs' \<and> length offs' = Suc (n0 + n)
    \<and> (\<forall>i \<le> n0. offs' ! i = offs ! i)
    \<and> (\<forall>i < n. levels h ! (i + n0) \<noteq> 0 \<longrightarrow> offs' ! Suc (n0 + i) = offs' ! (n0 + i) + cum_nb_neighbors h (levels h ! (i + n0)))"
proof (induction n)
  case (Suc n)
  obtain m1 offs1 where o1: "fold (add_level_step h n0) [0..<n] (m0, offs) = (m1, offs1)" by (metis surj_pair)
  then have IH: "length offs1 = Suc (n0 + n)" "\<forall>i \<le> n0. offs1 ! i = offs ! i"
    "\<forall>i < n. levels h ! (i + n0) \<noteq> 0 \<longrightarrow> offs1 ! Suc (n0 + i) = offs1 ! (n0 + i) + cum_nb_neighbors h (levels h ! (i + n0))"
    using Suc by auto
  let ?new = "last offs1 + cum_nb_neighbors h (nat (int (levels h ! (n + n0)) - 1 + 1))"
  have "last offs1 = offs1 ! (n0 + n)" using IH(1) by (metis diff_Suc_1 last_conv_nth length_0_conv nat.distinct(1))
  then have "snd (fold (add_level_step h n0) [0..<Suc n] (m0, offs)) = offs1 @ [offs1 ! (n0 + n) + cum_nb_neighbors h (levels h ! (n + n0))]"
    by (simp add: o1 add_level_step_def Let_def)
  then show ?case using IH by (auto simp: nth_append less_Suc_eq)
qed (use assms in auto)

text \<open>What a graph needs before points are added: probabilities for its levels.\<close>

definition growable :: "hnsw \<Rightarrow> bool" where
  "growable h \<longleftrightarrow> assign_probas h \<noteq> [] \<and> length (cum_nneighbor_per_level h) = Suc (length (assign_probas h))"

text \<open>\<open>h'\<close> is \<open>h\<close> with \<open>n\<close> more nodes that have no links.\<close>

definition grown :: "hnsw \<Rightarrow> hnsw \<Rightarrow> nat \<Rightarrow> bool" where
  "grown h h' n \<longleftrightarrow> h' = h\<lparr>levels := levels h', offsets := offsets h', neighbors := neighbors h'\<rparr>
     \<and> ntotal h' = ntotal h + n \<and> take (ntotal h) (levels h') = levels h
     \<and> (\<forall>v l. node_at h l v \<longrightarrow> slots h' v l = slots h v l)
     \<and> (\<forall>v l. node_at h' l v \<longrightarrow> int (ntotal h) \<le> v \<longrightarrow> links h' v l = [])
     \<and> (\<forall>i. ntotal h \<le> i \<and> i < ntotal h' \<longrightarrow> 0 < levels h' ! i)"

lemma nth_resize: "i < n \<Longrightarrow> resize n x xs ! i = (if i < length xs then xs ! i else x)"
  by (auto simp: resize_def nth_append)

lemma prepare_level_tab_grows:
  assumes g: "graph_ok h" and gr: "growable h"
  shows "\<exists>h' m. prepare_level_tab h n False fs = Inr (h', m) \<and> graph_ok h' \<and> grown h h' n"
proof -
  have lay: "layout_ok h" using g by (simp add: graph_ok_def)
  let ?n0 = "ntotal h" let ?c = "cum_nneighbor_per_level h"
  have off: "length (offsets h) = Suc ?n0" "length (neighbors h) = offsets h ! ?n0" using lay by (simp_all add: layout_ok_def)
  define new where "new = map (\<lambda>i. nat (random_level h (fs i) + 1)) [0..<n]"
  define h1 where "h1 = h\<lparr>levels := levels h @ new\<rparr>"
  have new: "0 < l \<and> l < length ?c" if "l \<in> set new" for l
  proof -
    from that obtain i where i: "l = nat (random_level h (fs i) + 1)" unfolding new_def by auto
    from gr have "assign_probas h \<noteq> []" "length ?c = Suc (length (assign_probas h))" by (simp_all add: growable_def)
    with random_level_bounds [of h "fs i"] show ?thesis by (simp add: i nat_less_iff)
  qed
  have lenn: "length new = n" by (simp add: new_def)
  have nl: "levels h1 ! (i + ?n0) \<in> set new" "levels h1 ! (i + ?n0) = new ! i" if "i < n" for i
    using that lenn by (simp_all add: h1_def nth_append)
  from add_level_steps [OF off(1), of h1 n 0] obtain offs where o': "snd (fold (add_level_step h1 ?n0) [0..<n] (0, offsets h)) = offs"
    "length offs = Suc (?n0 + n)" "\<forall>i \<le> ?n0. offs ! i = offsets h ! i"
    "\<And>i. i < n \<Longrightarrow> offs ! Suc (?n0 + i) = offs ! (?n0 + i) + cum_nb_neighbors h (levels h1 ! (i + ?n0))"
    using new nl(1) by (fastforce simp: h1_def cum_nb_neighbors_def)
  have last: "last offs = offs ! (?n0 + n)" using o'(2) by (metis diff_Suc_1 last_conv_nth length_0_conv nat.distinct(1))
  define h' where "h' = h1\<lparr>offsets := offs, neighbors := resize (last offs) (-1) (neighbors h)\<rparr>"
  have run: "prepare_level_tab h n False fs = Inr (h', fst (fold (add_level_step h1 ?n0) [0..<n] (0, offsets h)))"
    using off(1) o'(1) unfolding prepare_level_tab_def h'_def h1_def new_def
    by (simp add: Let_def case_prod_beta)
  have mono: "offs ! (?n0 + i) \<le> offs ! (?n0 + j)" if "i \<le> j" "j \<le> n" for i j
    using that
  proof (induction j rule: dec_induct)
    case (step j)
    then show ?case using o'(4) [of j] by simp
  qed simp
  have nb: "length (neighbors h) \<le> last offs" using mono [of 0 n] o'(3) off(2) last by simp
  have ns: "neighbors h' ! j = (if j < length (neighbors h) then neighbors h ! j else -1)" if "j < last offs" for j
    using that by (simp add: h'_def nth_resize)
  have lay': "layout_ok h'"
  proof -
    have "sizes_ok h'" using lay by (simp add: layout_ok_def sizes_ok_def h'_def h1_def)
    moreover have "levels h' ! i < length ?c \<and> offsets h' ! Suc i = offsets h' ! i + cum_nb_neighbors h' (levels h' ! i)"
      if "i < ?n0 + n" for i
    proof (cases "i < ?n0")
      case True
      then show ?thesis using lay o'(3) by (simp add: layout_ok_def h'_def h1_def nth_append cum_nb_neighbors_def)
    next
      case False
      then obtain j where ij: "i = ?n0 + j" using le_Suc_ex not_less by blast
      with that have j: "i = ?n0 + j" "j < n" by simp_all
      have "levels h' ! i \<in> set new" "levels h' ! i = levels h1 ! (j + ?n0)"
        using nl [OF j(2)] by (simp_all add: h'_def j(1) add.commute)
      then show ?thesis using o'(4) [OF j(2)] new by (simp add: h'_def h1_def cum_nb_neighbors_def j(1))
    qed
    ultimately show ?thesis using o'(2,3) lay last lenn
      by (simp add: layout_ok_def h'_def h1_def)
  qed
  have na: "node_at h' l v \<longleftrightarrow> node_at h l v" if "v < int ?n0" for l v
    using that lenn by (auto simp: node_at_def h'_def h1_def nth_append nat_less_iff)
  have range: "neighbor_range h' v l = neighbor_range h v l" if "0 \<le> v" "v < int ?n0" for v l
    using that o'(3) by (simp add: neighbor_range_def h'_def h1_def cum_nb_neighbors_def nat_less_iff)
  have old: "slots h' v l = slots h v l" if "node_at h l v" for v l
  proof -
    have v: "0 \<le> v" "v < int ?n0" using that by (simp_all add: node_at_def)
    obtain b e where be: "neighbor_range h v l = (b, e)" by (metis surj_pair)
    have "e \<le> length (neighbors h)" by (rule neighbor_range_bounds(4) [OF lay that be])
    then show ?thesis using ns nb by (simp add: slots_def range [OF v] be)
  qed
  have fresh: "\<forall>w \<in> set (slots h' v l). w = -1" if "node_at h' l v" "int ?n0 \<le> v" for v l
  proof -
    obtain b e where be: "neighbor_range h' v l = (b, e)" by (metis surj_pair)
    note r = neighbor_range_bounds [OF lay' that(1) be]
    have "?n0 \<le> nat v" using that(2) by simp
    then obtain j where j: "nat v = ?n0 + j" using le_Suc_ex by blast
    moreover have "nat v < ntotal h'" using that(1) by (auto simp: node_at_def)
    ultimately have "j \<le> n" using lenn by (simp add: h'_def h1_def)
    then have "length (neighbors h) \<le> b" using mono [of 0 j] r(1) j o'(3) off(2) by (simp add: h'_def)
    moreover have "e \<le> last offs" using r(4) nb by (simp add: h'_def)
    ultimately have "neighbors h' ! x = -1" if "b \<le> x" "x < e" for x using ns that by simp
    then show ?thesis by (auto simp: slots_def be)
  qed
  have fl: "links h' v l = []" "packed (slots h' v l)" if "node_at h' l v" "int ?n0 \<le> v" for v l
  proof -
    have w: "\<forall>w \<in> set (slots h' v l). w = -1" by (rule fresh [OF that])
    then show "links h' v l = []" unfolding links_def by (cases "slots h' v l") auto
    show "packed (slots h' v l)" using w by (auto simp: packed_def dest: set_dropWhileD)
  qed
  have "links_ok h'"
    unfolding links_ok_def
  proof (intro allI impI)
    fix v l assume n': "node_at h' l v"
    show "packed (slots h' v l) \<and> (\<forall>w \<in> set (links h' v l). node_at h' l w)"
    proof (cases "v < int ?n0")
      case True
      then have n: "node_at h l v" using na n' by simp
      then have "packed (slots h v l) \<and> (\<forall>w \<in> set (links h v l). node_at h l w)" using g by (simp add: graph_ok_def links_ok_def)
      moreover have "links h' v l = links h v l" using old [OF n] by (simp add: links_def)
      moreover have "node_at h' l w" if "node_at h l w" for w using na that by (auto simp: node_at_def)
      ultimately show ?thesis using old [OF n] by simp
    qed (use fl [OF n'] in simp)
  qed
  then have "graph_ok h'" using lay' by (simp add: graph_ok_def)
  moreover have "grown h h' n"
  proof -
    have "h' = h\<lparr>levels := levels h', offsets := offsets h', neighbors := neighbors h'\<rparr>" by (simp add: h'_def h1_def)
    moreover have "0 < levels h' ! i" if "?n0 \<le> i" "i < ?n0 + n" for i
    proof -
      from le_Suc_ex [OF that(1)] obtain j where ij: "i = ?n0 + j" by blast
      with that(2) have "i = ?n0 + j" "j < n" by simp_all
      then show ?thesis using nl [of j] new by (simp add: h'_def h1_def add.commute)
    qed
    ultimately show ?thesis using old fl(1) lenn unfolding grown_def by (auto simp: h'_def h1_def)
  qed
  ultimately show ?thesis using run by blast
qed

end
