(* ===== verification/Key_Buckets.thy ===== *)
theory Key_Buckets
  imports Vectors
begin

text \<open>
  The vocabulary of the counting sorts: the indices with the same key, in order, and the place where
  their bucket starts when the buckets stand side by side.
\<close>

text \<open>The points below \<open>n\<close> whose key is \<open>l\<close>, and where their bucket starts.\<close>

definition keyed :: "(nat \<Rightarrow> nat) \<Rightarrow> nat \<Rightarrow> nat \<Rightarrow> nat list" where
  "keyed key n l = filter (\<lambda>i. key i = l) [0..<n]"

definition bucket_start :: "(nat \<Rightarrow> nat) \<Rightarrow> nat \<Rightarrow> nat \<Rightarrow> nat" where
  "bucket_start key n l = (\<Sum>j<l. length (keyed key n j))"

lemma keyed_Suc: "keyed key (Suc n) l = keyed key n l @ (if key n = l then [n] else [])"
  by (simp add: keyed_def)

lemma keyed_0 [simp]: "keyed key 0 l = []"
  by (simp add: keyed_def)

lemma keyed_mono: "i \<le> n \<Longrightarrow> length (keyed key i l) \<le> length (keyed key n l)"
  by (induction n rule: dec_induct) (auto simp: keyed_Suc)

lemma keyed_less: "i < n \<Longrightarrow> key i = l \<Longrightarrow> length (keyed key i l) < length (keyed key n l)"
  using keyed_mono [of "Suc i" n key l] by (simp add: keyed_Suc)

lemma set_keyed: "set (keyed key n l) = {i. i < n \<and> key i = l}"
  by (auto simp: keyed_def)

lemma bucket_start_Suc: "bucket_start key n (Suc l) = bucket_start key n l + length (keyed key n l)"
  by (simp add: bucket_start_def)

lemma bucket_start_0 [simp]: "bucket_start key n 0 = 0"
  by (simp add: bucket_start_def)

lemma bucket_start_mono: "l \<le> m \<Longrightarrow> bucket_start key n l \<le> bucket_start key n m"
  by (induction m rule: dec_induct) (auto simp: bucket_start_Suc)

lemma bucket_start_total:
  assumes "\<forall>i < n. key i < L"
  shows "bucket_start key n L = n"
  using assms
proof (induction n)
  case (Suc n)
  have "bucket_start key (Suc n) L = (\<Sum>j<L. length (keyed key n j) + (if key n = j then 1 else 0))"
    unfolding bucket_start_def by (intro sum.cong) (auto simp: keyed_Suc)
  also have "\<dots> = bucket_start key n L + 1" using Suc.prems by (simp add: bucket_start_def sum.distrib)
  finally show ?case using Suc by simp
qed (simp add: bucket_start_def)

lemma bucket_end_le: "l < L \<Longrightarrow> \<forall>i < n. key i < L \<Longrightarrow> bucket_start key n l + length (keyed key n l) \<le> n"
  using bucket_start_mono [of "Suc l" L key n] bucket_start_total [of n key L] by (simp add: bucket_start_Suc)

text \<open>Places in different buckets are different.\<close>

lemma bucket_places_differ:
  assumes "l \<noteq> m" "j < length (keyed key n l)" "k < length (keyed key n m)"
  shows "bucket_start key n l + j \<noteq> bucket_start key n m + k"
proof (cases "l < m")
  case True
  then show ?thesis using assms(2) bucket_start_mono [of "Suc l" m key n] by (simp add: bucket_start_Suc)
next
  case False
  then show ?thesis using assms(1,3) bucket_start_mono [of "Suc m" l key n] by (simp add: bucket_start_Suc)
qed

text \<open>Every place below the number of indices lies in one bucket.\<close>

lemma bucket_of_place:
  assumes "\<forall>i < n. key i < L" "p < n"
  shows "\<exists>l < L. bucket_start key n l \<le> p \<and> p < bucket_start key n (Suc l)"
proof -
  have "\<exists>l < m. bucket_start key n l \<le> p \<and> p < bucket_start key n (Suc l)" if "p < bucket_start key n m" for m
    using that
  proof (induction m)
    case (Suc m)
    then show ?case by (cases "p < bucket_start key n m") (auto intro: less_SucI)
  qed simp
  then show ?thesis using bucket_start_total [OF assms(1)] assms(2) by simp
qed

lemma distinct_keyed [simp]: "distinct (keyed key n l)"
  by (simp add: keyed_def)

section \<open>The invariant of the counting sort\<close>

text \<open>After the first \<open>i\<close> indices each bucket has those below \<open>i\<close> in its front.\<close>

definition sorted_up_to :: "(nat \<Rightarrow> nat) \<Rightarrow> nat \<Rightarrow> nat \<Rightarrow> nat \<Rightarrow> nat \<Rightarrow> nat list \<times> nat list \<Rightarrow> bool" where
  "sorted_up_to key n n0 L i st \<longleftrightarrow>
     (case st of (order, offs) \<Rightarrow> length order = n \<and> length offs = Suc L \<and>
        (\<forall>l < L. offs ! l = bucket_start key n l + length (keyed key i l) \<and>
           (\<forall>j < length (keyed key i l). order ! (bucket_start key n l + j) = keyed key i l ! j + n0)))"

lemma sorted_up_to_step:
  assumes s: "sorted_up_to key n n0 L i (order, offs)" and key: "\<forall>i < n. key i < L" and i: "i < n"
  shows "sorted_up_to key n n0 L (Suc i) (order[offs ! key i := i + n0], offs[key i := offs ! key i + 1])"
proof -
  let ?S = "bucket_start key n"
  define p where "p = ?S (key i) + length (keyed key i (key i))"
  have lens: "length order = n" "length offs = Suc L" and ki: "key i < L"
    and o': "\<And>l. l < L \<Longrightarrow> offs ! l = ?S l + length (keyed key i l)"
    and c: "\<And>l j. l < L \<Longrightarrow> j < length (keyed key i l) \<Longrightarrow> order ! (?S l + j) = keyed key i l ! j + n0"
    using s key i by (auto simp: sorted_up_to_def)
  have step: "(order[offs ! key i := i + n0], offs[key i := offs ! key i + 1]) = (order[p := i + n0], offs[key i := p + 1])"
    using o' [OF ki] by (simp add: p_def)
  have pl: "p < ?S (Suc (key i))" using keyed_less [OF i refl, of key] by (simp add: bucket_start_Suc p_def)
  then have pn: "p < n" using bucket_start_mono [of "Suc (key i)" L key n] ki bucket_start_total [OF key] by simp
  have ne: "?S l + j \<noteq> p" if "j < length (keyed key i l)" for l j
  proof (cases "key i" l rule: linorder_cases)
    case less
    then show ?thesis using pl bucket_start_mono [of "Suc (key i)" l key n] by simp
  next
    case greater
    then have "?S (Suc l) \<le> ?S (key i)" by (intro bucket_start_mono) simp
    moreover have "length (keyed key i l) \<le> length (keyed key n l)" using i by (intro keyed_mono) simp
    ultimately show ?thesis using that by (simp add: p_def bucket_start_Suc)
  qed (use that in \<open>simp add: p_def\<close>)
  have old: "order[p := i + n0] ! (?S l + j) = keyed key i l ! j + n0" if "l < L" "j < length (keyed key i l)" for l j
    using c [OF that] ne [OF that(2)] by (simp add: nth_list_update)
  have "offs[key i := p + 1] ! l = ?S l + length (keyed key (Suc i) l) \<and>
      (\<forall>j < length (keyed key (Suc i) l). order[p := i + n0] ! (?S l + j) = keyed key (Suc i) l ! j + n0)" if "l < L" for l
  proof (cases "key i = l")
    case True
    then have "order[p := i + n0] ! (?S l + length (keyed key i l)) = i + n0" using pn lens(1) by (simp add: p_def)
    then show ?thesis using True old [OF that] lens(2) that by (auto simp: keyed_Suc nth_append less_Suc_eq p_def)
  next
    case False
    then show ?thesis using old [OF that] o' [OF that] by (simp add: keyed_Suc)
  qed
  then show ?thesis unfolding step sorted_up_to_def using lens by simp
qed

end
