(* ===== verification/Index_Hnsw_Order.thy ===== *)
theory Index_Hnsw_Order
  imports Index_Hnsw_Buckets Key_Buckets
begin

text \<open>
  The order in which \<open>hnsw_add_vertices\<close> inserts its points: the histogram counts the points of
  every level, the counting sort puts them side by side, and the shuffle permutes a range.
\<close>

section \<open>The histogram\<close>

definition count_at :: "nat list \<Rightarrow> nat \<Rightarrow> nat" where
  "count_at hist l = (if l < length hist then hist ! l else 0)"

lemma hist_add_counts:
  "count_at (hist_add hist p) l = count_at hist l + (if l = p then 1 else 0)" "p < length (hist_add hist p)"
  "length hist \<le> length (hist_add hist p)"
  by (auto simp: hist_add_def count_at_def Let_def nth_list_update nth_resize)

definition level_key :: "hnsw \<Rightarrow> nat \<Rightarrow> nat \<Rightarrow> nat" where
  "level_key h n0 i = levels h ! (i + n0) - 1"

lemma level_hist_counts:
  assumes "\<forall>i < n. 0 < levels h ! (i + n0)"
  shows "\<exists>hist. level_hist h n0 n = Inr hist \<and> (\<forall>i < n. level_key h n0 i < length hist)
    \<and> (\<forall>l. count_at hist l = length (keyed (level_key h n0) n l))"
  using assms
proof (induction n)
  case (Suc n)
  then obtain hist where hist: "level_hist h n0 n = Inr hist" "\<forall>i < n. level_key h n0 i < length hist"
    "\<forall>l. count_at hist l = length (keyed (level_key h n0) n l)" by auto
  have "level_hist h n0 (Suc n) = Inr (hist_add hist (level_key h n0 n))"
    using hist(1) Suc.prems by (simp add: level_hist_def fold_result_append level_key_def)
  moreover have "level_key h n0 i < length (hist_add hist (level_key h n0 n))" if "i < Suc n" for i
    using that hist(2) hist_add_counts(2,3) [where hist = hist and p = "level_key h n0 n"]
    by (cases "i = n") (auto simp: less_Suc_eq intro: less_le_trans)
  ultimately show ?case using hist(3) by (auto simp: hist_add_counts(1) keyed_Suc)
qed (simp add: level_hist_def count_at_def)

section \<open>The counting sort\<close>

lemma bucket_offsets_start:
  assumes "\<forall>l < length hist. hist ! l = length (keyed key n l)" "l < length hist"
  shows "bucket_offsets hist ! l = bucket_start key n l" "length (bucket_offsets hist) = Suc (length hist)"
proof -
  let ?f = "\<lambda>m. fold (\<lambda>i offs. offs[i + 1 := offs ! i + hist ! i]) [0..<m] (replicate (length hist + 1) 0)"
  have f: "m < length hist \<longrightarrow> length (?f m) = Suc (length hist) \<and> (\<forall>l \<le> m. ?f m ! l = bucket_start key n l)" for m
  proof (induction m)
    case (Suc m)
    then show ?case using assms(1) by (auto simp: nth_list_update bucket_start_Suc le_Suc_eq)
  qed simp
  show "bucket_offsets hist ! l = bucket_start key n l" "length (bucket_offsets hist) = Suc (length hist)"
    using f [of "length hist - 1"] assms(2) by (auto simp: bucket_offsets_def)
qed

lemma bucket_step_sorted:
  assumes "sorted_up_to key n n0 L i (order, offs)" "\<forall>i < n. key i < L" "i < n" "levels h ! (i + n0) - 1 = key i"
  shows "sorted_up_to key n n0 L (Suc i) (bucket_step h n0 i (order, offs))"
  using sorted_up_to_step [OF assms(1-3)] assms(4) by (simp add: bucket_step_def Let_def)

lemma bucket_sort_sorted:
  assumes hist: "\<forall>l < L. hist ! l = length (keyed (level_key h n0) n l)" "length hist = L"
    and key: "\<forall>i < n. level_key h n0 i < L"
  shows "length (bucket_sort h n0 n hist) = n"
    and "l < L \<Longrightarrow> subrange (bucket_start (level_key h n0) n l) (hist ! l) (bucket_sort h n0 n hist) =
      map (\<lambda>i. i + n0) (keyed (level_key h n0) n l)"
proof -
  let ?key = "level_key h n0" and ?st = "\<lambda>i. fold (bucket_step h n0) [0..<i] (replicate n 0, bucket_offsets hist)"
  have loop: "i \<le> n \<longrightarrow> sorted_up_to ?key n n0 L i (?st i)" for i
  proof (induction i)
    case 0
    show ?case using bucket_offsets_start [where hist = hist and n = n and key = ?key] hist
      by (cases L) (auto simp: sorted_up_to_def bucket_offsets_def)
  next
    case (Suc i)
    obtain order offs where st: "?st i = (order, offs)" by (metis surj_pair)
    show ?case
      using Suc bucket_step_sorted [of ?key n n0 L i order offs h, OF _ key _ level_key_def [symmetric]] by (simp add: st)
  qed
  obtain order offs where st: "?st n = (order, offs)" by (metis surj_pair)
  with loop [of n] have s: "sorted_up_to ?key n n0 L n (order, offs)" by simp
  have b: "bucket_sort h n0 n hist = order" by (simp add: bucket_sort_def st)
  then show "length (bucket_sort h n0 n hist) = n" using s by (simp add: sorted_up_to_def)
  assume l: "l < L"
  have "bucket_start ?key n l + hist ! l \<le> length order"
    using s l hist bucket_start_mono [of "Suc l" L ?key n] bucket_start_total [OF key]
    by (simp add: sorted_up_to_def bucket_start_Suc)
  then show "subrange (bucket_start ?key n l) (hist ! l) (bucket_sort h n0 n hist) = map (\<lambda>i. i + n0) (keyed ?key n l)"
    unfolding b using s l hist by (intro nth_equalityI) (simp_all add: sorted_up_to_def subrange_def)
qed

section \<open>The shuffle\<close>

lemma shuffle_permutes:
  assumes "i0 \<le> i" "i \<le> i1" "i1 \<le> length order" "fold (shuffle_step rs i1) [i0..<i] (order, k) = (order', k')"
  shows "length order' = length order \<and> take i0 order' = take i0 order \<and> drop i1 order' = drop i1 order
    \<and> mset order' = mset order"
  using assms
proof (induction i arbitrary: order' k' rule: dec_induct)
  case (step m)
  obtain o1 k1 where 1: "fold (shuffle_step rs i1) [i0..<m] (order, k) = (o1, k1)" by (metis surj_pair)
  with step have IH: "length o1 = length order" "take i0 o1 = take i0 order" "drop i1 o1 = drop i1 order" "mset o1 = mset order" by auto
  let ?j = "m + rs k1 mod (i1 - m)"
  have j: "m \<le> ?j" "?j < i1" using step.prems(1) step.hyps mod_less_divisor [of "i1 - m" "rs k1"] by (simp_all add: less_diff_conv)
  have o': "order' = o1[m := o1 ! ?j, ?j := o1 ! m]"
    using step.prems(3) step.hyps(1) 1 by (simp add: shuffle_step_def [of _ _ m] Let_def)
  have "mset order' = mset o1" unfolding o' using j step.prems IH(1) by (intro mset_swap) auto
  then show ?case using IH j step.hyps step.prems by (simp add: o')
qed simp

lemma shuffle_range:
  assumes "i0 \<le> i1" "i1 \<le> length order" "shuffle rs i0 i1 (order, k) = (order', k')"
  shows "length order' = length order" "mset (subrange i0 (i1 - i0) order') = mset (subrange i0 (i1 - i0) order)"
    and "j + m \<le> i0 \<Longrightarrow> subrange j m order' = subrange j m order"
proof -
  note s = shuffle_permutes [OF assms(1) order_refl assms(2) assms(3) [unfolded shuffle_def]]
  then show "length order' = length order" by simp
  have split: "xs = take i0 xs @ subrange i0 (i1 - i0) xs @ drop i1 xs" for xs :: "nat list"
  proof -
    have "drop i1 xs = drop (i1 - i0) (drop i0 xs)" using assms(1) by simp
    then show ?thesis unfolding subrange_def by (metis append_take_drop_id)
  qed
  have "mset order' = mset (take i0 order') + (mset (subrange i0 (i1 - i0) order') + mset (drop i1 order'))"
    by (subst split [of order']) (simp only: mset_append)
  moreover have "mset order = mset (take i0 order) + (mset (subrange i0 (i1 - i0) order) + mset (drop i1 order))"
    by (subst split [of order]) (simp only: mset_append)
  ultimately show "mset (subrange i0 (i1 - i0) order') = mset (subrange i0 (i1 - i0) order)" using s by simp
  assume "j + m \<le> i0"
  then have "subrange j m xs = take m (drop j (take i0 xs))" for xs :: "nat list"
    by (simp add: subrange_def take_drop min_def)
  then show "subrange j m order' = subrange j m order" using s by simp
qed

end
