(* ===== verification/Index_Hnsw_Add.thy ===== *)
theory Index_Hnsw_Add
  imports Index_Hnsw_Order Flat_Codes_Correct
begin

text \<open>
  \<open>IndexHNSW::add\<close> keeps the index well formed: the storage gets the vectors, the graph gets a node
  for each of them and every node of the levels that are built is linked. The laws the storage
  has to obey are a locale, interpreted on the flat storage.
\<close>

section \<open>Points that are not in the graph yet\<close>

definition is_fresh :: "hnsw \<Rightarrow> int \<Rightarrow> bool" where
  "is_fresh h w \<longleftrightarrow> (\<forall>l. unlinked h l w) \<and> entry_point h \<noteq> w"

text \<open>\<open>h'\<close> is \<open>h\<close> after the points of \<open>P\<close> have been linked.\<close>

definition linked :: "hnsw \<Rightarrow> hnsw \<Rightarrow> nat set \<Rightarrow> bool" where
  "linked h h' P \<longleftrightarrow> h' = h\<lparr>neighbors := neighbors h', max_level := max_level h', entry_point := entry_point h'\<rparr>
     \<and> (\<forall>l. loop_free h l \<longrightarrow> loop_free h' l)
     \<and> (\<forall>w. is_fresh h w \<longrightarrow> w \<notin> int ` P \<longrightarrow> is_fresh h' w)
     \<and> (P \<noteq> {} \<or> entry_point h \<noteq> -1 \<longrightarrow> entry_point h' \<noteq> -1)"

lemma linked_refl: "linked h h {}"
  by (simp add: linked_def)

lemma linked_trans:
  assumes "linked h h1 P" "linked h1 h2 Q"
  shows "linked h h2 (P \<union> Q)"
proof -
  have "h2 = h\<lparr>neighbors := neighbors h2, max_level := max_level h2, entry_point := entry_point h2\<rparr>"
  proof -
    obtain ns ml ep where 1: "h1 = h\<lparr>neighbors := ns, max_level := ml, entry_point := ep\<rparr>"
      using assms(1) unfolding linked_def by blast
    obtain ns' ml' ep' where "h2 = h1\<lparr>neighbors := ns', max_level := ml', entry_point := ep'\<rparr>"
      using assms(2) unfolding linked_def by blast
    then show ?thesis by (simp add: 1)
  qed
  then show ?thesis using assms unfolding linked_def by (auto simp: image_Un)
qed

lemma linked_same:
  assumes "linked h h' P"
  shows "node_at h' = node_at h" "levels h' = levels h" "ntotal h' = ntotal h" "growable h' = growable h" "vt_clear h' vt = vt_clear h vt"
proof -
  have e: "h' = h\<lparr>neighbors := neighbors h', max_level := max_level h', entry_point := entry_point h'\<rparr>"
    using assms by (simp add: linked_def)
  show l: "levels h' = levels h" by (subst e) simp
  then show "ntotal h' = ntotal h" by simp
  with l show "node_at h' = node_at h" "vt_clear h' vt = vt_clear h vt" by (auto simp: node_at_def vt_clear_def intro!: ext)
  show "growable h' = growable h" by (subst e) (simp add: growable_def)
qed

lemma vt_clear_new: "ntotal h \<le> n \<Longrightarrow> vt_clear h (vt_new n)"
  by (simp add: vt_clear_def vt_members_def)

section \<open>One bucket\<close>

lemma add_points_correct:
  fixes so :: "('s, 'v, 'd :: {linorder, uminus}) storage_ops"
  assumes "build_ok h vt" "entry_ok h" "distinct pts" and exact: "\<And>x. batch_exact (storage_distance_computer so s x)"
    and "\<forall>p \<in> set pts. node_at h lvl (int p) \<and> is_fresh h (int p)"
  shows "\<exists>h' vt'. add_points so s n0 xs lvl keep pts (h, {}, vt) = Some (Inr (h', {}, vt'))
    \<and> build_ok h' vt' \<and> entry_ok h' \<and> linked h h' (set pts)"
  using assms(1-3,5)
proof (induction pts arbitrary: h vt)
  case Nil
  then show ?case using linked_refl by auto
next
  case (Cons p pts)
  let ?q = "storage_distance_computer so s (xs ! (p - n0))"
  have "new_point h lvl (int p)" using Cons.prems(4) by (simp add: new_point_def is_fresh_def)
  from add_point_correct [OF Cons.prems(1) exact Cons.prems(2) this, of "xs ! (p - n0)" keep]
  obtain h1 vt1 ws where a: "add_with_locks h ?q lvl (int p) keep (({}, []), vt) = Some (Inr (h1, ({}, lock_pairs ws), vt1))"
    "build_ok h1 vt1" "entry_ok h1" "entry_point h1 \<noteq> -1" "\<forall>l. loop_free h l \<longrightarrow> loop_free h1 l"
    "h1 = h\<lparr>neighbors := neighbors h1, max_level := max_level h1, entry_point := entry_point h1\<rparr>"
    "\<forall>w. (\<forall>l. unlinked h l w) \<longrightarrow> entry_point h \<noteq> w \<longrightarrow> w \<noteq> int p \<longrightarrow> (\<forall>l. unlinked h1 l w) \<and> entry_point h1 \<noteq> w"
    by blast
  have l: "linked h h1 {p}" using a(4-7) unfolding linked_def is_fresh_def by auto
  have "\<forall>p' \<in> set pts. node_at h1 lvl (int p') \<and> is_fresh h1 (int p')"
  proof
    fix p' assume "p' \<in> set pts"
    moreover then have "p' \<noteq> p" using Cons.prems(3) by auto
    ultimately show "node_at h1 lvl (int p') \<and> is_fresh h1 (int p')"
      using l Cons.prems(4) unfolding linked_same(1) [OF l] by (auto simp: linked_def)
  qed
  from Cons.IH [OF a(2,3) _ this] obtain h' vt' where
    b: "add_points so s n0 xs lvl keep pts (h1, {}, vt1) = Some (Inr (h', {}, vt'))" "build_ok h' vt'" "entry_ok h'"
    "linked h1 h' (set pts)" using Cons.prems(3) by auto
  have "linked h h' (set (p # pts))" using linked_trans [OF l b(4)] by simp
  then show ?case using a(1) b by simp
qed

section \<open>All buckets\<close>

text \<open>The buckets below \<open>m\<close> are in the order.\<close>

definition buckets_ready :: "(nat \<Rightarrow> nat) \<Rightarrow> nat \<Rightarrow> nat \<Rightarrow> nat list \<Rightarrow> nat \<Rightarrow> nat list \<Rightarrow> bool" where
  "buckets_ready key n n0 hist m order \<longleftrightarrow> length order = n \<and> bucket_start key n m \<le> n
     \<and> (\<forall>l < m. hist ! l = length (keyed key n l)
          \<and> mset (subrange (bucket_start key n l) (hist ! l) order) = mset (map (\<lambda>i. i + n0) (keyed key n l)))"

lemma buckets_ready_shuffle:
  assumes r: "buckets_ready key n n0 hist (Suc m) order"
    and s: "shuffle rs (bucket_start key n m) (bucket_start key n (Suc m)) (order, k) = (order', k')"
  shows "buckets_ready key n n0 hist m order'"
    and "mset (subrange (bucket_start key n m) (hist ! m) order') = mset (map (\<lambda>i. i + n0) (keyed key n m))"
proof -
  have m: "bucket_start key n m + hist ! m = bucket_start key n (Suc m)"
    using r by (simp add: buckets_ready_def bucket_start_Suc)
  note sh = shuffle_range [OF _ _ s]
  have e: "bucket_start key n (Suc m) - bucket_start key n m = hist ! m" using m by simp
  have le: "bucket_start key n m \<le> bucket_start key n (Suc m)" "bucket_start key n (Suc m) \<le> length order"
    using r m by (simp_all add: buckets_ready_def)
  show "mset (subrange (bucket_start key n m) (hist ! m) order') = mset (map (\<lambda>i. i + n0) (keyed key n m))"
    using sh(2) [OF le] r unfolding e buckets_ready_def by (metis lessI)
  have "subrange (bucket_start key n l) (hist ! l) order' = subrange (bucket_start key n l) (hist ! l) order" if "l < m" for l
  proof (rule sh(3) [OF le])
    show "bucket_start key n l + hist ! l \<le> bucket_start key n m"
      using r that bucket_start_mono [of "Suc l" m key n] by (simp add: buckets_ready_def bucket_start_Suc)
  qed
  then have "hist ! l = length (keyed key n l)
      \<and> mset (subrange (bucket_start key n l) (hist ! l) order') = mset (map (\<lambda>i. i + n0) (keyed key n l))" if "l < m" for l
    using r that unfolding buckets_ready_def by (metis less_SucI)
  then show "buckets_ready key n n0 hist m order'" using r sh(1) [OF le] le by (simp add: buckets_ready_def)
qed

lemma add_buckets_correct:
  fixes so :: "('s, 'v, 'd :: {linorder, uminus}) storage_ops"
  assumes exact: "\<And>x. batch_exact (storage_distance_computer so s x)"
    and "a \<le> m" "buckets_ready key (length xs) n0 hist m order" "build_ok h (vt_new (n0 + length xs))" "entry_ok h"
    and "\<forall>i < length xs. key i < m \<longrightarrow> node_at h (key i) (int (i + n0)) \<and> is_fresh h (int (i + n0))"
  shows "\<exists>h'. add_buckets so s n0 xs keep0 rs hist (rev [a..<m]) (h, {}, order, k, bucket_start key (length xs) m) =
      Some (Inr (h', {}, bucket_start key (length xs) a))
    \<and> build_ok h' (vt_new (n0 + length xs)) \<and> entry_ok h'
    \<and> linked h h' {i + n0 | i. i < length xs \<and> a \<le> key i \<and> key i < m}"
  using assms(2-)
proof (induction m arbitrary: h order k)
  case 0
  then have "{i + n0 | i. i < length xs \<and> a \<le> key i \<and> key i < 0} = {}" by simp
  then show ?case using linked_refl 0 by simp
next
  case (Suc m)
  show ?case
  proof (cases "a = Suc m")
    case True
    then have E: "{i + n0 | i. i < length xs \<and> a \<le> key i \<and> key i < Suc m} = {}" by auto
    have "linked h h {i + n0 | i. i < length xs \<and> a \<le> key i \<and> key i < Suc m}" unfolding E by (rule linked_refl)
    then show ?thesis using Suc.prems True by simp
  next
    case False
    let ?S = "bucket_start key (length xs)"
    from False Suc.prems(1) have am: "a \<le> m" by simp
    have hm: "?S (Suc m) - hist ! m = ?S m" "hist ! m = length (keyed key (length xs) m)"
      using Suc.prems(2) by (simp_all add: buckets_ready_def bucket_start_Suc)
    have e: "?S (Suc m) - ?S m = hist ! m" by (simp add: hm bucket_start_Suc)
    obtain order' k' where sh: "shuffle rs (?S m) (?S (Suc m)) (order, k) = (order', k')" by (metis surj_pair)
    note r = buckets_ready_shuffle [OF Suc.prems(2) sh]
    let ?pts = "subrange (?S m) (hist ! m) order'"
    have sp: "set ?pts = {i + n0 | i. i < length xs \<and> key i = m}"
      using mset_eq_setD [OF r(2)] by (auto simp: set_keyed)
    have dp: "distinct ?pts" using mset_eq_imp_distinct_iff [OF r(2)]
      by (simp add: keyed_def distinct_map inj_on_def)
    have np: "\<forall>p \<in> set ?pts. node_at h m (int p) \<and> is_fresh h (int p)" using Suc.prems(5) unfolding sp by auto
    from add_points_correct [OF Suc.prems(3,4) dp exact np, of n0 xs "keep0 \<and> m = 0"] obtain h1 vt1 where
      p: "add_points so s n0 xs m (keep0 \<and> m = 0) ?pts (h, {}, vt_new (n0 + length xs)) = Some (Inr (h1, {}, vt1))"
      "build_ok h1 vt1" "entry_ok h1" "linked h h1 (set ?pts)" by blast
    note sm = linked_same [OF p(4)]
    have b1: "build_ok h1 (vt_new (n0 + length xs))" using p(2) Suc.prems(3) sm(5) by (simp add: build_ok_def)
    have "node_at h1 (key i) (int (i + n0)) \<and> is_fresh h1 (int (i + n0))" if i: "i < length xs" "key i < m" for i
    proof -
      have "i + n0 \<notin> set ?pts" using i by (auto simp: sp)
      then have "int (i + n0) \<notin> int ` set ?pts" by (metis image_iff of_nat_eq_iff)
      moreover have "node_at h (key i) (int (i + n0)) \<and> is_fresh h (int (i + n0))" using Suc.prems(5) i by simp
      ultimately show ?thesis using p(4) unfolding sm(1) linked_def by blast
    qed
    with Suc.IH [OF am r(1) b1 p(3), of k'] obtain h' where
      q: "add_buckets so s n0 xs keep0 rs hist (rev [a..<m]) (h1, {}, order', k', ?S m) = Some (Inr (h', {}, ?S a))"
      "build_ok h' (vt_new (n0 + length xs))" "entry_ok h'" "linked h1 h' {i + n0 | i. i < length xs \<and> a \<le> key i \<and> key i < m}"
      by blast
    have "set ?pts \<union> {i + n0 | i. i < length xs \<and> a \<le> key i \<and> key i < m} = {i + n0 | i. i < length xs \<and> a \<le> key i \<and> key i < Suc m}"
      unfolding sp using am by (auto simp: less_Suc_eq)
    then have "linked h h' {i + n0 | i. i < length xs \<and> a \<le> key i \<and> key i < Suc m}"
      using linked_trans [OF p(4) q(4)] by simp
    moreover have "rev [a..<Suc m] = m # rev [a..<m]" using am by simp
    ultimately show ?thesis using q(1-3) p(1) sh by (simp add: Let_def hm(1) e)
  qed
qed

section \<open>All points\<close>

text \<open>A graph that points can be added to.\<close>

definition graph_ready :: "hnsw \<Rightarrow> bool" where
  "graph_ready h \<longleftrightarrow> graph_ok h \<and> roomy h \<and> growable h \<and> 0 < efConstruction h \<and> entry_ok h \<and> (\<forall>l. loop_free h l)"

lemma grown_same:
  assumes "grown h h1 n"
  shows "roomy h1 = roomy h" "growable h1 = growable h" "efConstruction h1 = efConstruction h"
    "entry_point h1 = entry_point h" "max_level h1 = max_level h" "ntotal h1 = ntotal h + n"
    "node_at h l v \<Longrightarrow> node_at h1 l v" "node_at h1 l v \<Longrightarrow> v < int (ntotal h) \<Longrightarrow> node_at h l v"
    "node_at h l v \<Longrightarrow> links h1 v l = links h v l"
proof -
  have e: "h1 = h\<lparr>levels := levels h1, offsets := offsets h1, neighbors := neighbors h1\<rparr>" using assms by (simp add: grown_def)
  show "roomy h1 = roomy h" by (subst e) (simp add: roomy_def)
  show "growable h1 = growable h" by (subst e) (simp add: growable_def)
  show "efConstruction h1 = efConstruction h" "entry_point h1 = entry_point h" "max_level h1 = max_level h" by (subst e, simp)+
  show n: "ntotal h1 = ntotal h + n" using assms by (simp add: grown_def)
  have "levels h1 ! i = levels h ! i" if "i < ntotal h" for i
    using assms that nth_take [of i "ntotal h" "levels h1"] by (simp add: grown_def)
  then have "node_at h1 l v \<longleftrightarrow> node_at h l v" if "v < int (ntotal h)" for l v
    using that n by (auto simp: node_at_def nat_less_iff)
  then show "node_at h l v \<Longrightarrow> node_at h1 l v" "node_at h1 l v \<Longrightarrow> v < int (ntotal h) \<Longrightarrow> node_at h l v"
    by (auto simp: node_at_def)
  show "node_at h l v \<Longrightarrow> links h1 v l = links h v l" using assms by (simp add: grown_def links_def)
qed

lemma grown_links:
  assumes g: "graph_ok h" and "grown h h1 n" and v: "node_at h1 l v" and w: "w \<in> set (links h1 v l)"
  shows "node_at h l v \<and> node_at h l w \<and> w \<in> set (links h v l)"
proof -
  have "v < int (ntotal h)" using assms(2) v w unfolding grown_def by (metis empty_iff empty_set linorder_not_le)
  then have "node_at h l v" using v grown_same(8) [OF assms(2)] by blast
  moreover then have "w \<in> set (links h v l)" using w grown_same(9) [OF assms(2)] by simp
  ultimately show ?thesis using g by (simp add: graph_ok_def links_ok_def)
qed

lemma grown_ready:
  assumes r: "graph_ready h" and gr: "grown h h1 n" and g1: "graph_ok h1"
  shows "graph_ready h1" "i < n \<Longrightarrow> is_fresh h1 (int (i + ntotal h))"
proof -
  note sm = grown_same [OF gr]
  have g: "graph_ok h" and e: "entry_ok h" and lf: "\<forall>l. loop_free h l" using r by (simp_all add: graph_ready_def)
  have "loop_free h1 l" for l using lf grown_links [OF g gr] unfolding loop_free_def by metis
  moreover have "entry_ok h1" using e sm(4,5,7) by (auto simp: entry_ok_def)
  ultimately show "graph_ready h1" using r g1 sm by (simp add: graph_ready_def)
  assume "i < n"
  have "unlinked h1 l (int (i + ntotal h))" for l
    using grown_links [OF g gr] unfolding unlinked_def by (fastforce simp: node_at_def)
  moreover have "entry_point h1 \<noteq> int (i + ntotal h)" using e sm(4) by (auto simp: entry_ok_def node_at_def)
  ultimately show "is_fresh h1 (int (i + ntotal h))" by (simp add: is_fresh_def)
qed

lemma hnsw_add_vertices_correct:
  fixes so :: "('s, 'v, 'd :: {linorder, uminus}) storage_ops"
  assumes exact: "\<And>x. batch_exact (storage_distance_computer so s x)"
    and r: "graph_ready (ih_hnsw ih)" and n0: "ntotal (ih_hnsw ih) = n0" and pre: "xs \<noteq> [] \<Longrightarrow> \<not> preset"
  shows "\<exists>h. hnsw_add_vertices so ih s n0 xs preset fs rs = Some (Inr h) \<and> graph_ready h
    \<and> ntotal h = n0 + length xs
    \<and> (entry_point (ih_hnsw ih) \<noteq> -1 \<or> ih_init_level0 ih \<and> xs \<noteq> [] \<longrightarrow> entry_point h \<noteq> -1)"
proof (cases "xs = []")
  case True
  then show ?thesis using r n0 by (simp add: hnsw_add_vertices_def)
next
  case False
  let ?h = "ih_hnsw ih" and ?n = "length xs"
  have gg: "graph_ok ?h" "growable ?h" using r by (simp_all add: graph_ready_def)
  from prepare_level_tab_grows [OF gg, of ?n fs] obtain h1 ml where
    p: "prepare_level_tab ?h ?n False fs = Inr (h1, ml)" "graph_ok h1" "grown ?h h1 ?n" by blast
  note sm = grown_same [OF p(3)]
  note rd = grown_ready [OF r p(3,2)]
  let ?key = "level_key h1 n0"
  have lv: "\<forall>i < ?n. 0 < levels h1 ! (i + n0)" using p(3) sm(6) n0 by (simp add: grown_def)
  from level_hist_counts [OF this] obtain hist where
    hist: "level_hist h1 n0 ?n = Inr hist" "\<forall>i < ?n. ?key i < length hist" "\<forall>l. count_at hist l = length (keyed ?key ?n l)" by blast
  have hl: "\<forall>l < length hist. hist ! l = length (keyed ?key ?n l)" using hist(3) unfolding count_at_def by metis
  have ne: "0 < length hist" using hist(2) False by (metis length_greater_0_conv less_nat_zero_code gr_zeroI)
  let ?order = "bucket_sort h1 n0 ?n hist"
  note bs = bucket_sort_sorted [OF hl refl hist(2)]
  have S: "bucket_start ?key ?n (length hist) = ?n" by (rule bucket_start_total [OF hist(2)])
  have ready: "buckets_ready ?key ?n n0 hist (length hist) ?order"
    unfolding buckets_ready_def using bs hl S by simp
  have nodes: "\<forall>i < ?n. ?key i < length hist \<longrightarrow> node_at h1 (?key i) (int (i + n0)) \<and> is_fresh h1 (int (i + n0))"
    using rd(2) lv n0 sm(6) by (auto simp: node_at_def level_key_def nat_add_distrib)
  have b: "build_ok h1 (vt_new (n0 + ?n))" "entry_ok h1"
    using rd(1) sm(6) n0 vt_clear_new by (simp_all add: build_ok_def graph_ready_def)
  define a where "a = (if ih_init_level0 ih then 0 else 1 :: nat)"
  have "a \<le> length hist" using ne by (simp add: a_def Suc_le_eq)
  from add_buckets_correct [OF exact this ready b nodes, where ?keep0.0 = "ih_keep_max_size_level0 ih" and rs = rs and k = 0] obtain h' where
    h': "add_buckets so s n0 xs (ih_keep_max_size_level0 ih) rs hist (rev [a..<length hist]) (h1, {}, ?order, 0, ?n) =
      Some (Inr (h', {}, bucket_start ?key ?n a))" "build_ok h' (vt_new (n0 + ?n))" "entry_ok h'"
    "linked h1 h' {i + n0 | i. i < ?n \<and> a \<le> ?key i \<and> ?key i < length hist}" unfolding S by blast
  have start: "bucket_start ?key ?n 1 = hist ! 0" using hl ne by (simp add: bucket_start_def)
  have "hnsw_add_vertices so ih s n0 xs preset fs rs = Some (Inr h')"
    using False pre [OF False] p(1) hist(1) h'(1) start
    by (auto simp: hnsw_add_vertices_def Let_def a_def split: if_splits)
  moreover have "graph_ready h'"
  proof -
    have "\<forall>l. loop_free h' l" using h'(4) rd(1) unfolding linked_def graph_ready_def by blast
    then show ?thesis using h'(2,3) rd(1) linked_same(4) [OF h'(4)] by (simp add: graph_ready_def build_ok_def)
  qed
  moreover have "ntotal h' = n0 + ?n" using linked_same(3) [OF h'(4)] sm(6) n0 by simp
  moreover have "entry_point h' \<noteq> -1" if "entry_point ?h \<noteq> -1 \<or> ih_init_level0 ih \<and> xs \<noteq> []"
  proof -
    have "{i + n0 | i. i < ?n \<and> a \<le> ?key i \<and> ?key i < length hist} \<noteq> {}" if "ih_init_level0 ih"
      using that False hist(2) by (auto simp: a_def)
    then show ?thesis using that h'(4) sm(4) unfolding linked_def by auto
  qed
  ultimately show ?thesis by blast
qed

section \<open>The index\<close>

text \<open>
  The storage under the graph: an index of vectors whose distance computer treats batches of four
  like single distances.
\<close>

locale hnsw_storage = vector_index "vs_index so" inv V vec rnd
  for so :: "('s, 'v, 'd :: {linorder, uminus}) storage_ops" and inv V vec rnd +
  assumes exact: "batch_exact (vs_computer so s q)"

text \<open>Graph and storage hold the same points.\<close>

definition index_ready :: "('s \<Rightarrow> bool) \<Rightarrow> ('s \<Rightarrow> 'v list) \<Rightarrow> 's index_hnsw \<Rightarrow> bool" where
  "index_ready sinv V ih \<longleftrightarrow> (\<exists>s. ih_storage ih = Some s \<and> sinv s \<and> length (V s) = ih_ntotal ih)
     \<and> ntotal (ih_hnsw ih) = ih_ntotal ih \<and> graph_ready (ih_hnsw ih) \<and> ih_is_trained ih"

context hnsw_storage
begin

lemma computer_exact: "batch_exact (storage_distance_computer so s x)"
  by (simp add: storage_distance_computer_def exact batch_exact_negative)

lemma add_ready:
  assumes ir: "index_ready inv V ih" and s: "ih_storage ih = Some s" and xs: "\<forall>x \<in> set xs. vec x"
  shows "\<exists>ih' s'. ih_add so xs fs rs ih = Some (Inr ih') \<and> index_ready inv V ih'
    \<and> ih_storage ih' = Some s' \<and> V s' = V s @ map rnd xs
    \<and> (ih_init_level0 ih \<and> xs \<noteq> [] \<longrightarrow> entry_point (ih_hnsw ih') \<noteq> -1)"
proof -
  have i: "inv s" "length (V s) = ih_ntotal ih" "ntotal (ih_hnsw ih) = ih_ntotal ih" "graph_ready (ih_hnsw ih)" "ih_is_trained ih"
    using ir s by (auto simp: index_ready_def)
  from add [OF i(1) xs] obtain s' where s': "ix_add (vs_index so) xs s = Inr s'" "inv s'" "V s' = V s @ map rnd xs" by blast
  have n: "ix_ntotal (vs_index so) s' = ih_ntotal ih + length xs" using ntotal [OF s'(2)] s'(3) i(2) by simp
  let ?ih = "ih\<lparr>ih_storage := Some s', ih_ntotal := ih_ntotal ih + length xs\<rparr>"
  have r: "graph_ready (ih_hnsw ?ih)" "ntotal (ih_hnsw ?ih) = ih_ntotal ih" using i by simp_all
  have "xs \<noteq> [] \<Longrightarrow> \<not> length (levels (ih_hnsw ih)) = ih_ntotal ?ih" using i(3) by simp
  from hnsw_add_vertices_correct [OF computer_exact r this, where fs = fs and rs = rs] obtain h where
    h: "hnsw_add_vertices so ?ih s' (ih_ntotal ih) xs (length (levels (ih_hnsw ih)) = ih_ntotal ?ih) fs rs = Some (Inr h)"
    "graph_ready h" "ntotal h = ih_ntotal ih + length xs"
    "entry_point (ih_hnsw ?ih) \<noteq> -1 \<or> ih_init_level0 ?ih \<and> xs \<noteq> [] \<longrightarrow> entry_point h \<noteq> -1" by blast
  have "ih_add so xs fs rs ih = Some (Inr (?ih\<lparr>ih_hnsw := h\<rparr>))"
    using s s'(1) i(5) h(1) n by (simp add: ih_add_def Let_def)
  moreover have "index_ready inv V (?ih\<lparr>ih_hnsw := h\<rparr>)" using s'(2,3) i h(2,3) by (simp add: index_ready_def)
  ultimately show ?thesis using s'(3) h(4) by (intro exI [of _ "?ih\<lparr>ih_hnsw := h\<rparr>"] exI [of _ s']) simp
qed

end

text \<open>Every codec with codes of one size gives such a storage, the one of \<open>IndexHNSWFlat\<close> in particular.\<close>

sublocale fixed_codec \<subseteq> storage: hnsw_storage "flat_storage cd vd similarity" "fc_ok cs" "fc_vecs cd" vec
    "\<lambda>x. cod_decode cd (cod_encode cd x)"
  for vd :: "'v \<Rightarrow> 'v \<Rightarrow> 'd :: {linorder, uminus}" and similarity
proof unfold_locales
  fix s q
  show "batch_exact (vs_computer (flat_storage cd vd similarity) s q)" by (simp add: flat_storage_def fc_computer_exact)
qed (simp_all add: flat_storage_def ntotal add reset reconstruct)

context fixed_codec
begin

lemmas hnsw_add_ready = storage.add_ready

end

section \<open>Properties\<close>

text \<open>Three bytes under the example graph.\<close>

definition example_hnsw_flat :: "flat_codes index_hnsw" where
  "example_hnsw_flat = \<lparr>ih_hnsw = example_graph, ih_storage = Some bytes_312, ih_ntotal = 3, ih_is_trained = True,
     ih_init_level0 = True, ih_keep_max_size_level0 = False\<rparr>"

lemma example_hnsw_flat_ready: "index_ready (fc_ok 1) (fc_vecs flat_codec) example_hnsw_flat"
proof -
  have "roomy example_graph" by (auto simp: roomy_def example_graph_def less_Suc_eq)
  moreover have "growable example_graph" "entry_ok example_graph" "0 < efConstruction example_graph" by code_simp+
  moreover have "loop_free example_graph l" for l
  proof -
    have "\<forall>i \<in> set [0..<3]. \<forall>l \<in> set [0..<levels example_graph ! i]. int i \<notin> set (links example_graph (int i) l)" by code_simp
    moreover have "ntotal example_graph = 3" by (simp add: example_graph_def)
    ultimately have "v \<notin> set (links example_graph v l)" if "node_at example_graph l v" for v
      using that unfolding node_at_def by (metis atLeastLessThan_iff nat_less_iff set_upt zero_le int_nat_eq)
    then show ?thesis by (simp add: loop_free_def)
  qed
  ultimately have "graph_ready example_graph" by (simp add: graph_ready_def example_graph_ok)
  moreover have "ntotal example_graph = 3" by (simp add: example_graph_def)
  ultimately show ?thesis using bytes_312_ok by (simp add: index_ready_def example_hnsw_flat_def)
qed

text \<open>
  C3. \<open>IndexHNSW::add\<close> over a flat storage always returns and keeps the index well formed: the storage has
  the old vectors followed by the new ones, the graph has a node for each of them, its links stay
  within its levels, no node is linked to itself, the entry point is a node of the top level and, when level 0 is built, exists.
\<close>

theorem hnsw_add_keeps_index:
  fixes vd :: "'v \<Rightarrow> 'v \<Rightarrow> 'd :: {linorder, uminus}"
  assumes "fixed_codec cd vec cs" "index_ready (fc_ok cs) (fc_vecs cd) ih" "ih_storage ih = Some s" "\<forall>x \<in> set xs. vec x"
  shows "\<exists>ih' s'. ih_add (flat_storage cd vd similarity) xs fs rs ih = Some (Inr ih') \<and> index_ready (fc_ok cs) (fc_vecs cd) ih'
    \<and> ih_storage ih' = Some s' \<and> fc_vecs cd s' = fc_vecs cd s @ map (\<lambda>x. cod_decode cd (cod_encode cd x)) xs
    \<and> (ih_init_level0 ih \<and> xs \<noteq> [] \<longrightarrow> entry_point (ih_hnsw ih') \<noteq> -1)"
  by (rule fixed_codec.hnsw_add_ready [OF assms])

theorem hnsw_add_keeps_index_witness:
  "\<exists>ih' s'. ih_add (flat_storage flat_codec byte_distance False) [[7], [9]] (\<lambda>i. 1/2) (\<lambda>i. i) example_hnsw_flat = Some (Inr ih')
    \<and> index_ready (fc_ok 1) (fc_vecs flat_codec) ih' \<and> ih_storage ih' = Some s' \<and> fc_vecs flat_codec s' = [[3], [1], [2], [7], [9]]
    \<and> entry_point (ih_hnsw ih') \<noteq> -1"
proof -
  have c: "fixed_codec flat_codec (\<lambda>x. length x = 1) 1" by (rule flat.fixed_codec_axioms)
  have st: "ih_storage example_hnsw_flat = Some bytes_312" "ih_init_level0 example_hnsw_flat" by (simp_all add: example_hnsw_flat_def)
  have xs: "\<forall>x \<in> set [[7], [9 :: 8 word]]. length x = 1" by simp
  from hnsw_add_keeps_index [where vd = byte_distance and similarity = False and fs = "\<lambda>i. 1/2" and rs = "\<lambda>i. i",
        OF c example_hnsw_flat_ready st(1) xs] obtain ih' s' where
    "ih_add (flat_storage flat_codec byte_distance False) [[7], [9]] (\<lambda>i. 1/2) (\<lambda>i. i) example_hnsw_flat = Some (Inr ih')"
    "index_ready (fc_ok 1) (fc_vecs flat_codec) ih'" "ih_storage ih' = Some s'"
    "fc_vecs flat_codec s' = fc_vecs flat_codec bytes_312 @ map (\<lambda>x. cod_decode flat_codec (cod_encode flat_codec x)) [[7], [9]]"
    "entry_point (ih_hnsw ih') \<noteq> -1" using st(2) by auto
  moreover have "cod_decode flat_codec (cod_encode flat_codec x) = x" for x by (simp add: flat_codec_def)
  ultimately show ?thesis by (intro exI [of _ ih'] exI [of _ s']) (simp add: bytes_312_ok)
qed

end
