(* ===== verification/Index_Hnsw_Search.thy ===== *)
theory Index_Hnsw_Search
  imports Index_Hnsw_Add Hnsw_Navix_Limits
begin

text \<open>
  The searches of \<open>IndexHNSW\<close>: every row of the result tables holds the best \<open>k\<close> of the nodes that
  the search of the graph visited for that query, and with an exhaustive search over a connected
  graph the distances are those that the flat index reports.
\<close>

section \<open>All queries\<close>

lemma search_rows_spec:
  assumes k: "0 < k" and t: "same_len t (nq * k)" "q0 + length xs \<le> nq" and vt: "ok vt"
    and each: "\<And>q x D I vt. x \<in> set xs \<Longrightarrow> ok vt \<Longrightarrow> length D = k \<Longrightarrow> length I = k \<Longrightarrow>
      \<exists>stats r vt'. f q x (hh_begin C k D I) vt = Some (Inr (stats, r, vt')) \<and> ok vt'
        \<and> same_len (hh_end C r) k \<and> R q x (pairs (hh_end C r))"
  shows "\<exists>t' stats' vt'. search_rows C k f q0 xs (t, stats, vt) = Some (Inr (t', stats', vt')) \<and> same_len t' (nq * k)
    \<and> ok vt' \<and> (\<forall>j < nq. if q0 \<le> j \<and> j < q0 + length xs then R j (xs ! (j - q0)) (pairs (row2 k j t'))
        else row2 k j t' = row2 k j t)"
  using t vt each
proof (induction xs arbitrary: q0 t stats vt)
  case (Cons x xs)
  have q0: "q0 < nq" using Cons.prems(2) by simp
  have "same_len (row2 k q0 t) k" by (rule same_len_row2 [OF Cons.prems(1) q0])
  then have l: "length (row k q0 (fst t)) = k" "length (row k q0 (snd t)) = k" by (simp_all add: same_len_def row2_def)
  from Cons.prems(4) [OF _ Cons.prems(3) l, of x q0] obtain s1 r vt1 where
    r: "f q0 x (hh_begin C k (row k q0 (fst t)) (row k q0 (snd t))) vt = Some (Inr (s1, r, vt1))" "ok vt1"
    "same_len (hh_end C r) k" "R q0 x (pairs (hh_end C r))" by auto
  let ?t = "on_row k (\<lambda>_. hh_end C r) q0 t"
  have kl: "keeps_len k (\<lambda>_. hh_end C r)" using r(3) by (simp add: keeps_len_def)
  note row = on_row_row2 [OF Cons.prems(1) q0 kl]
  have "\<exists>t' stats' vt'. search_rows C k f (q0 + 1) xs (?t, stats_combine stats s1, vt1) = Some (Inr (t', stats', vt'))
    \<and> same_len t' (nq * k) \<and> ok vt' \<and> (\<forall>j < nq. if q0 + 1 \<le> j \<and> j < q0 + 1 + length xs
        then R j (xs ! (j - (q0 + 1))) (pairs (row2 k j t')) else row2 k j t' = row2 k j ?t)"
    by (rule Cons.IH [OF row(1) _ r(2)]) (use Cons.prems in auto)
  then obtain t' s' vt' where t': "search_rows C k f (q0 + 1) xs (?t, stats_combine stats s1, vt1) = Some (Inr (t', s', vt'))"
    "same_len t' (nq * k)" "ok vt'" "\<forall>j < nq. if q0 + 1 \<le> j \<and> j < q0 + 1 + length xs
        then R j (xs ! (j - (q0 + 1))) (pairs (row2 k j t')) else row2 k j t' = row2 k j ?t" by blast
  have "if q0 \<le> j \<and> j < q0 + length (x # xs) then R j ((x # xs) ! (j - q0)) (pairs (row2 k j t'))
      else row2 k j t' = row2 k j t" if j: "j < nq" for j
  proof -
    consider "j < q0" | "j = q0" | "q0 < j" by linarith
    then show ?thesis
    proof cases
      case 2
      then show ?thesis using t'(4) row(2) [OF j] j r(4) by auto
    next
      case 3
      then have "(x # xs) ! (j - q0) = xs ! (j - (q0 + 1))" by (simp add: nth_Cons')
      then show ?thesis using t'(4) row(2) [OF j] j 3 by auto
    qed (use t'(4) row(2) [OF j] j in auto)
  qed
  then show ?case using r(1) t'(1,2,3) by auto
qed auto

lemma hh_offers_end_len:
  assumes "0 < k" "length D = k" "length I = k"
    and "r = offers (heap_result_handler (CMax lo hi)) (hh_begin (CMax lo hi) k D I) ps"
  shows "same_len (hh_end (CMax lo hi) r) k"
  using hh_collect_len [OF is_trait_CMax assms(1-3), of lo hi ps] assms(4) cmax.hh_offers_eq [of lo hi]
  by (simp add: hh_collect_def)

section \<open>The distances of a query\<close>

definition index_distance :: "('v \<Rightarrow> 'v \<Rightarrow> 'd :: uminus) \<Rightarrow> bool \<Rightarrow> 'v list \<Rightarrow> 'v \<Rightarrow> int \<Rightarrow> 'd" where
  "index_distance vd similarity vs x v = (if similarity then - vd x (vs ! nat v) else vd x (vs ! nat v))"

lemma flat_storage_distance:
  assumes "fc_ok cs s" "0 \<le> v" "v < int (fc_ntotal s)"
  shows "query_dis (storage_distance_computer (flat_storage cd vd similarity) s x) v = index_distance vd similarity (fc_vecs cd s) x v"
  using fc_query_dis [OF assms(1), of "nat v" cd vd x] assms(2,3)
  by (simp add: storage_distance_computer_def flat_storage_def index_distance_def negative_computer_def nat_less_iff)

text \<open>The nodes in \<open>V\<close> that a search reports, with their distances.\<close>

definition answers :: "('v \<Rightarrow> 'v \<Rightarrow> 'd :: uminus) \<Rightarrow> bool \<Rightarrow> 'v list \<Rightarrow> 'v \<Rightarrow> (int \<Rightarrow> bool) \<Rightarrow> int set \<Rightarrow> ('d \<times> idx_t) multiset" where
  "answers vd similarity vs x P V = image_mset (\<lambda>v. (index_distance vd similarity vs x v, v)) (mset_set {v \<in> V. P v})"

lemma node_offers_answers:
  assumes "fc_ok cs s" "V \<subseteq> {0..<int (fc_ntotal s)}"
  shows "node_offers (storage_distance_computer (flat_storage cd vd similarity) s x) params V =
    answers vd similarity (fc_vecs cd s) x (selected params) V"
proof -
  have "finite V" using assms(2) finite_subset by blast
  then show ?thesis unfolding node_offers_def answers_def
    by (intro image_mset_cong) (use assms(2) flat_storage_distance [OF assms(1), of _ cd vd similarity x] in \<open>auto simp: subset_eq\<close>)
qed

lemma revert_table: "same_len t (k * n) \<Longrightarrow>
    revert_distances similarity (k * n) t = (if similarity then map uminus (fst t) else fst t, snd t)"
  by (simp add: revert_distances_def same_len_def)

lemma node_range: "node_at h l v \<Longrightarrow> ntotal h = n \<Longrightarrow> 0 \<le> v \<and> v < int n"
  by (simp add: node_at_def)

text \<open>What is known of an index over flat codes that can be searched.\<close>

definition searchable ::
    "'v codec \<Rightarrow> nat \<Rightarrow> ('v \<Rightarrow> 'v \<Rightarrow> 'd :: {linorder, uminus}) \<Rightarrow> bool \<Rightarrow> 'd \<Rightarrow> 'v list \<Rightarrow> flat_codes index_hnsw \<Rightarrow> flat_codes \<Rightarrow> bool" where
  "searchable cd cs vd similarity hi xs ih s \<longleftrightarrow> index_ready (fc_ok cs) (fc_vecs cd) ih \<and> ih_storage ih = Some s
     \<and> entry_point (ih_hnsw ih) \<noteq> -1
     \<and> (\<forall>x \<in> set xs. \<forall>i < ih_ntotal ih. index_distance vd similarity (fc_vecs cd s) x (int i) < hi)"

lemma searchable_facts:
  assumes "searchable cd cs vd similarity hi xs ih s"
  shows "fc_ok cs s" "fc_ntotal s = ih_ntotal ih" "ntotal (ih_hnsw ih) = ih_ntotal ih" "graph_ok (ih_hnsw ih)"
    "entry_ok (ih_hnsw ih)" "ih_storage ih = Some s" "entry_point (ih_hnsw ih) \<noteq> -1"
  using assms by (auto simp: searchable_def index_ready_def graph_ready_def)

lemma flat_storage_exact: "batch_exact (storage_distance_computer (flat_storage cd vd similarity) s x)"
  by (simp add: storage_distance_computer_def flat_storage_def fc_computer_exact batch_exact_negative)

lemma searchable_less_hi:
  assumes S: "searchable cd cs vd similarity hi xs ih s" and x: "x \<in> set xs"
  shows "\<forall>v. node_at (ih_hnsw ih) 0 v \<longrightarrow> query_dis (storage_distance_computer (flat_storage cd vd similarity) s x) v < hi"
proof (intro allI impI)
  fix v assume "node_at (ih_hnsw ih) 0 v"
  from node_range [OF this searchable_facts(3) [OF S]] have v: "0 \<le> v" "v < int (ih_ntotal ih)" by simp_all
  moreover have "\<forall>i < ih_ntotal ih. index_distance vd similarity (fc_vecs cd s) x (int i) < hi" using S x by (simp add: searchable_def)
  ultimately have "index_distance vd similarity (fc_vecs cd s) x v < hi" by (metis nat_less_iff int_nat_eq)
  then show "query_dis (storage_distance_computer (flat_storage cd vd similarity) s x) v < hi"
    using flat_storage_distance [OF searchable_facts(1) [OF S], of v cd vd similarity x] v searchable_facts(2) [OF S] by simp
qed

lemma searchable_nodes:
  assumes "searchable cd cs vd similarity hi xs ih s" "V \<subseteq> {v. node_at (ih_hnsw ih) 0 v}"
  shows "V \<subseteq> {0..<int (fc_ntotal s)}"
  using node_range searchable_facts(2,3) [OF assms(1)] assms(2) by fastforce

section \<open>The bounded search\<close>

text \<open>What the search of the graph promises for query \<open>x\<close>: the result is the top \<open>k\<close> of the visited nodes.\<close>

definition graph_answer ::
    "'d \<Rightarrow> 'd \<Rightarrow> nat \<Rightarrow> 'v codec \<Rightarrow> ('v \<Rightarrow> 'v \<Rightarrow> 'd :: {linorder, uminus}) \<Rightarrow> bool \<Rightarrow> flat_codes index_hnsw \<Rightarrow> flat_codes \<Rightarrow>
     search_params option \<Rightarrow> 'v \<Rightarrow> ('d \<times> idx_t) list \<Rightarrow> bool" where
  "graph_answer lo hi k cd vd similarity ih s params x out \<longleftrightarrow>
     (\<exists>n V ps. node_at (ih_hnsw ih) 0 n \<and> n \<in> V \<and> V \<subseteq> reachable (ih_hnsw ih) 0 n
      \<and> mset ps = answers vd similarity (fc_vecs cd s) x (selected params) V
      \<and> topk_result (CMax lo hi) k ps out
      \<and> (param_of params hp_check_relative_distance (check_relative_distance (ih_hnsw ih)) \<longrightarrow>
          ih_ntotal ih \<le> param_of params hp_efSearch (efSearch (ih_hnsw ih)) \<longrightarrow> V = reachable (ih_hnsw ih) 0 n))"

lemma bounded_query:
  assumes S: "searchable cd cs vd similarity hi xs ih s"
    and bq: "param_of params hp_bounded_queue (search_bounded_queue (ih_hnsw ih))"
    and x: "x \<in> set xs" and k: "0 < k" and vt: "vt_clear (ih_hnsw ih) vt" and DI: "length D = k" "length I = k"
  shows "\<exists>stats r vt'. hnsw_search (ih_hnsw ih) (storage_distance_computer (flat_storage cd vd similarity) s x)
      (heap_result_handler (CMax lo hi)) (hh_begin (CMax lo hi) k D I) vt params = Some (Inr (stats, r, vt'))
    \<and> vt_clear (ih_hnsw ih) vt' \<and> same_len (hh_end (CMax lo hi) r) k
    \<and> graph_answer lo hi k cd vd similarity ih s params x (pairs (hh_end (CMax lo hi) r))"
proof -
  let ?q = "storage_distance_computer (flat_storage cd vd similarity) s x" and ?h = "ih_hnsw ih" and ?C = "CMax lo hi"
  note f = searchable_facts [OF S]
  have inv: "hh_inv ?C (hh_begin ?C k D I)" by (rule cmax.hh_begin_inv(1) [OF k DI])
  have ek: "0 < extract_k (heap_result_handler ?C) (hh_begin ?C k D I)" using k(1) by (simp add: extract_k_begin)
  from heap_distance_handler.bounded_search_correct [OF f(4) flat_storage_exact [of cd vd similarity s x] f(5,7) vt inv ek bq] obtain stats r vt' n V ps where
    b: "hnsw_search ?h ?q (heap_result_handler ?C) (hh_begin ?C k D I) vt params = Some (Inr (stats, r, vt'))" "vt_clear ?h vt'"
    "node_at ?h 0 n" "n \<in> V" "V \<subseteq> reachable ?h 0 n" "r = offers (heap_result_handler ?C) (hh_begin ?C k D I) ps"
    "mset ps = node_offers ?q params V"
    "param_of params hp_check_relative_distance (check_relative_distance ?h) \<longrightarrow>
         ntotal ?h \<le> param_of params hp_efSearch (efSearch ?h) \<longrightarrow> V = reachable ?h 0 n" by blast
  have "V \<subseteq> {v. node_at ?h 0 v}" using b(5) reachable_node [OF f(4) b(3)] by blast
  from node_offers_answers [OF f(1) searchable_nodes [OF S this]] b(7)
  have ps: "mset ps = answers vd similarity (fc_vecs cd s) x (selected params) V" by simp
  have "topk_result ?C k ps (pairs (hh_end ?C r))"
    by (rule heap_handler_answer [OF f(4) b(3,5) k DI b(6,7) searchable_less_hi [OF S x]])
  then have "graph_answer lo hi k cd vd similarity ih s params x (pairs (hh_end ?C r))"
    unfolding graph_answer_def using b(3-5) ps b(8) [unfolded f(3)] by blast
  then show ?thesis using b(1,2) hh_offers_end_len [OF k DI b(6)] by blast
qed

lemma bounded_search_rows:
  assumes S: "searchable cd cs vd similarity hi xs ih s" and k: "0 < k" and t: "length D = length xs * k" "length I = length xs * k"
    and bq: "param_of params hp_bounded_queue (search_bounded_queue (ih_hnsw ih))"
  shows "\<exists>D' I' stats. ih_search lo hi (flat_storage cd vd similarity) ih xs k params (D, I) =
      Some (Inr ((if similarity then map uminus D' else D', I'), stats))
    \<and> length D' = length xs * k \<and> length I' = length xs * k
    \<and> (\<forall>j < length xs. graph_answer lo hi k cd vd similarity ih s params (xs ! j) (zip (row k j D') (row k j I')))"
proof -
  let ?so = "flat_storage cd vd similarity" and ?C = "CMax lo hi"
  let ?f = "\<lambda>q x res vt. hnsw_search (ih_hnsw ih) (storage_distance_computer ?so s x) (heap_result_handler ?C) res vt params"
  note f = searchable_facts [OF S]
  have sl: "same_len (D, I) (length xs * k)" using t by (simp add: same_len_def)
  have vt: "vt_clear (ih_hnsw ih) (vt_new (ih_ntotal ih))" using f(3) by (intro vt_clear_new) simp
  have "\<exists>t' stats' vt'. search_rows ?C k ?f 0 xs ((D, I), stats_reset, vt_new (ih_ntotal ih)) = Some (Inr (t', stats', vt'))
    \<and> same_len t' (length xs * k) \<and> vt_clear (ih_hnsw ih) vt'
    \<and> (\<forall>j < length xs. if 0 \<le> j \<and> j < 0 + length xs
        then graph_answer lo hi k cd vd similarity ih s params (xs ! (j - 0)) (pairs (row2 k j t'))
        else row2 k j t' = row2 k j (D, I))"
  proof (rule search_rows_spec [where ok = "vt_clear (ih_hnsw ih)" and R = "\<lambda>q. graph_answer lo hi k cd vd similarity ih s params"])
    show "\<exists>stats r vt'. ?f q x (hh_begin ?C k D I) vt = Some (Inr (stats, r, vt')) \<and> vt_clear (ih_hnsw ih) vt'
        \<and> same_len (hh_end ?C r) k \<and> graph_answer lo hi k cd vd similarity ih s params x (pairs (hh_end ?C r))"
      if "x \<in> set xs" "vt_clear (ih_hnsw ih) vt" "length D = k" "length I = k" for q x D I vt
      by (rule bounded_query [OF S bq that(1) k that(2-4)])
  qed (use k sl vt in simp_all)
  then obtain t' stats vt' where t': "search_rows ?C k ?f 0 xs ((D, I), stats_reset, vt_new (ih_ntotal ih)) = Some (Inr (t', stats, vt'))"
    "same_len t' (length xs * k)" "\<forall>j < length xs. graph_answer lo hi k cd vd similarity ih s params (xs ! j) (pairs (row2 k j t'))"
    by auto
  have "vs_similarity ?so = similarity" by (simp add: flat_storage_def)
  then have "ih_search lo hi ?so ih xs k params (D, I) =
      Some (Inr ((if similarity then map uminus (fst t') else fst t', snd t'), stats))"
    using k f(6) t'(1,2) by (simp add: ih_search_def revert_table mult.commute)
  moreover have "pairs (row2 k j t') = zip (row k j (fst t')) (row k j (snd t'))" for j by (simp add: pairs_def row2_def)
  ultimately show ?thesis using t'(2,3)
    by (intro exI [of _ "fst t'"] exI [of _ "snd t'"] exI [of _ stats]) (simp add: same_len_def)
qed

section \<open>The filtered search\<close>

definition navix_answer ::
    "'d \<Rightarrow> 'd \<Rightarrow> nat \<Rightarrow> 'v codec \<Rightarrow> ('v \<Rightarrow> 'v \<Rightarrow> 'd :: {linorder, uminus}) \<Rightarrow> bool \<Rightarrow> flat_codes index_hnsw \<Rightarrow> flat_codes \<Rightarrow>
     (int \<Rightarrow> bool) \<Rightarrow> 'v \<Rightarrow> ('d \<times> idx_t) list \<Rightarrow> bool" where
  "navix_answer lo hi k cd vd similarity ih s fm x out \<longleftrightarrow>
     (\<exists>n V ps. node_at (ih_hnsw ih) 0 n \<and> V \<subseteq> {v. node_at (ih_hnsw ih) 0 v}
      \<and> set (take 10 (filter fm (map int [0..<ih_ntotal ih]))) \<subseteq> V
      \<and> mset ps = (if fm n then {#(index_distance vd similarity (fc_vecs cd s) x n, n)#} else {#})
          + answers vd similarity (fc_vecs cd s) x fm V
      \<and> topk_result (CMax lo hi) k ps out)"

text \<open>A graph of which every node is on level 0, with at most 63 slots there.\<close>

definition navix_ready :: "hnsw \<Rightarrow> bool" where
  "navix_ready h \<longleftrightarrow> length (neighbors h) \<le> 2 ^ 31 \<and> (\<forall>v. node_at h 0 v \<longrightarrow> length (slots h v 0) \<le> 63)
     \<and> (\<forall>i < ntotal h. 0 < levels h ! i)"

lemma navix_query:
  assumes S: "searchable cd cs vd similarity hi xs ih s" and nr: "navix_ready (ih_hnsw ih)"
    and x: "x \<in> set xs" and k: "0 < k" and vt: "vt_clear (ih_hnsw ih) vt" and DI: "length D = k" "length I = k"
  shows "\<exists>stats r vt'. advance_after (navix_hybrid_search (ih_hnsw ih)
      (storage_distance_computer (flat_storage cd vd similarity) s x)
      (heap_result_handler (CMax lo hi)) (hh_begin (CMax lo hi) k D I) vt fm) = Some (Inr (stats, r, vt'))
    \<and> vt_clear (ih_hnsw ih) vt' \<and> same_len (hh_end (CMax lo hi) r) k
    \<and> navix_answer lo hi k cd vd similarity ih s fm x (pairs (hh_end (CMax lo hi) r))"
proof -
  let ?q = "storage_distance_computer (flat_storage cd vd similarity) s x" and ?h = "ih_hnsw ih" and ?C = "CMax lo hi"
  note f = searchable_facts [OF S]
  have nw: "narrow ?h" "\<forall>i < ntotal ?h. 0 < levels ?h ! i" using nr by (simp_all add: navix_ready_def narrow_def)
  have inv: "hh_inv ?C (hh_begin ?C k D I)" by (rule cmax.hh_begin_inv(1) [OF k DI])
  have ek: "0 < extract_k (heap_result_handler ?C) (hh_begin ?C k D I)" using k(1) by (simp add: extract_k_begin)
  from heap_distance_handler.navix_search_correct [OF f(4) nw flat_storage_exact [of cd vd similarity s x] f(5,7) vt inv ek, of fm]
  obtain stats r vt' n V ps where
    b: "navix_hybrid_search ?h ?q (heap_result_handler ?C) (hh_begin ?C k D I) vt fm = Some (Inr (stats, r, vt'))"
    "vt_ok vt'" "vt_size vt' = vt_size vt" "node_at ?h 0 n" "V \<subseteq> {v. node_at ?h 0 v}"
    "set (take 10 (filter fm (map int [0..<ntotal ?h]))) \<subseteq> V"
    "r = offers (heap_result_handler ?C) (hh_begin ?C k D I) ps"
    "mset ps = (if fm n then {#(query_dis ?q n, n)#} else {#}) + node_offers ?q (fsel fm) V" by blast
  have "node_offers ?q (fsel fm) V = answers vd similarity (fc_vecs cd s) x fm V"
    using node_offers_answers [OF f(1) searchable_nodes [OF S b(5)], of cd vd similarity x "fsel fm"] by (simp add: answers_def)
  moreover have "query_dis ?q n = index_distance vd similarity (fc_vecs cd s) x n"
    using flat_storage_distance [OF f(1), of n cd vd similarity x] node_range [OF b(4) f(3)] f(2) by simp
  ultimately have ps: "mset ps = (if fm n then {#(index_distance vd similarity (fc_vecs cd s) x n, n)#} else {#})
      + answers vd similarity (fc_vecs cd s) x fm V" using b(8) by simp
  have "finite V" using b(5) finite_nodes finite_subset by blast
  have "\<forall>p \<in> set ps. snd p \<noteq> -1 \<and> fst p < hi"
  proof
    fix p assume "p \<in> set ps"
    then have "p \<in># mset ps" by simp
    then have "node_at ?h 0 (snd p) \<and> fst p = query_dis ?q (snd p)"
      using b(4,5,8) \<open>finite V\<close> by (auto simp: node_offers_def split: if_splits)
    then show "snd p \<noteq> -1 \<and> fst p < hi" using searchable_less_hi [OF S x] by (auto simp: node_at_def)
  qed
  from heap_handler_search [OF k DI b(7) this] have "topk_result ?C k ps (pairs (hh_end ?C r))" .
  then have "navix_answer lo hi k cd vd similarity ih s fm x (pairs (hh_end ?C r))"
    unfolding navix_answer_def using b(4,5) b(6) [unfolded f(3)] ps by blast
  moreover have "vt_clear ?h (vt_advance vt')" using b(2,3) vt by (intro vt_clear_advance) (auto simp: vt_clear_def)
  ultimately show ?thesis using b(1) hh_offers_end_len [OF k DI b(7)] by (simp add: advance_after_def)
qed

lemma navix_search_rows:
  assumes S: "searchable cd cs vd similarity hi xs ih s" and nr: "navix_ready (ih_hnsw ih)"
    and k: "0 < k" and t: "length D = length xs * k" "length I = length xs * k"
  shows "\<exists>D' I' stats. ih_navix_search lo hi (flat_storage cd vd similarity) ih xs k masks params (D, I) =
      Some (Inr ((if similarity then map uminus D' else D', I'), stats))
    \<and> length D' = length xs * k \<and> length I' = length xs * k
    \<and> (\<forall>j < length xs. navix_answer lo hi k cd vd similarity ih s (mask_filter masks (j * ih_ntotal ih)) (xs ! j)
          (zip (row k j D') (row k j I')))"
proof -
  let ?so = "flat_storage cd vd similarity" and ?C = "CMax lo hi"
  let ?f = "\<lambda>q x res vt. advance_after (navix_hybrid_search (ih_hnsw ih) (storage_distance_computer ?so s x)
      (heap_result_handler ?C) res vt (mask_filter masks (q * ih_ntotal ih)))"
  let ?R = "\<lambda>q. navix_answer lo hi k cd vd similarity ih s (mask_filter masks (q * ih_ntotal ih))"
  note f = searchable_facts [OF S]
  have sl: "same_len (D, I) (length xs * k)" using t by (simp add: same_len_def)
  have vt: "vt_clear (ih_hnsw ih) (vt_new (ih_ntotal ih))" using f(3) by (intro vt_clear_new) simp
  have "\<exists>t' stats' vt'. search_rows ?C k ?f 0 xs ((D, I), stats_reset, vt_new (ih_ntotal ih)) = Some (Inr (t', stats', vt'))
    \<and> same_len t' (length xs * k) \<and> vt_clear (ih_hnsw ih) vt'
    \<and> (\<forall>j < length xs. if 0 \<le> j \<and> j < 0 + length xs then ?R j (xs ! (j - 0)) (pairs (row2 k j t'))
        else row2 k j t' = row2 k j (D, I))"
  proof (rule search_rows_spec [where ok = "vt_clear (ih_hnsw ih)" and R = ?R])
    show "\<exists>stats r vt'. ?f q x (hh_begin ?C k D I) vt = Some (Inr (stats, r, vt')) \<and> vt_clear (ih_hnsw ih) vt'
        \<and> same_len (hh_end ?C r) k \<and> ?R q x (pairs (hh_end ?C r))"
      if "x \<in> set xs" "vt_clear (ih_hnsw ih) vt" "length D = k" "length I = k" for q x D I vt
      by (rule navix_query [OF S nr that(1) k that(2-4)])
  qed (use k sl vt in simp_all)
  then obtain t' stats vt' where t': "search_rows ?C k ?f 0 xs ((D, I), stats_reset, vt_new (ih_ntotal ih)) = Some (Inr (t', stats, vt'))"
    "same_len t' (length xs * k)" "\<forall>j < length xs. ?R j (xs ! j) (pairs (row2 k j t'))"
    by auto
  have "vs_similarity ?so = similarity" by (simp add: flat_storage_def)
  then have "ih_navix_search lo hi ?so ih xs k masks params (D, I) =
      Some (Inr ((if similarity then map uminus (fst t') else fst t', snd t'), stats))"
    using k f(6) t'(1,2) by (simp add: ih_navix_search_def revert_table mult.commute)
  moreover have "pairs (row2 k j t') = zip (row k j (fst t')) (row k j (snd t'))" for j by (simp add: pairs_def row2_def)
  ultimately show ?thesis using t'(2,3)
    by (intro exI [of _ "fst t'"] exI [of _ "snd t'"] exI [of _ stats]) (simp add: same_len_def)
qed

section \<open>Agreement with the flat index\<close>

text \<open>The distances of a top \<open>k\<close> do not depend on how ties are broken.\<close>

lemma topk_distances:
  assumes "topk_result (CMax lo hi) k ps out"
  shows "map fst out = take k (sorted_list_of_multiset (image_mset fst (mset ps))) @ replicate (k - length ps) hi"
proof -
  from assms obtain S R where o': "out = S @ replicate (k - length S) (hi, -1)" "length S = min k (length ps)"
    "mset ps = mset S + R" "sorted_wrt (\<lambda>p q. \<not> cmpp (CMax lo hi) p q) S"
    "\<forall>p \<in> set S. \<forall>r \<in># R. \<not> cmp (CMax lo hi) (fst p) (fst r)"
    unfolding topk_result_def by (auto simp: CMax_def)
  let ?L = "sorted_list_of_multiset (image_mset fst R)"
  have "sorted (map fst S)" unfolding sorted_map
    by (rule sorted_wrt_mono_rel [OF _ o'(4)]) (auto simp: cmpp_def CMax_def)
  moreover have "\<forall>p \<in> set S. \<forall>r \<in># R. fst p \<le> fst r" using o'(5) by (simp add: CMax_def not_less)
  ultimately have "sorted (map fst S @ ?L)" by (auto simp: sorted_append)
  moreover have "mset (map fst S @ ?L) = image_mset fst (mset ps)" using o'(3) by simp
  ultimately have e: "sorted_list_of_multiset (image_mset fst (mset ps)) = map fst S @ ?L"
    by (metis sorted_list_of_multiset_mset sorted_sort_id)
  have "size (mset ps) = size (mset S) + size R" using o'(3) by (metis size_union)
  then have "k \<le> length ps \<or> R = {#}" using o'(2) by (cases "k \<le> length ps") auto
  then show ?thesis using o'(1,2) by (auto simp: e)
qed

lemma answers_all:
  "image_mset fst (answers vd False vs x (\<lambda>v. True) {0..<int n}) = mset (map (\<lambda>i. vd x (vs ! i)) [0..<n])"
proof -
  have "{0..<int n} = set (map int [0..<n])" using image_int_atLeastLessThan [of 0 n] by simp
  moreover have "mset_set (set (map int [0..<n])) = mset (map int [0..<n])" by (rule mset_set_set) (simp add: distinct_map)
  ultimately have m: "mset_set {0..<int n} = mset (map int [0..<n])" by simp
  have "{v \<in> {0..<int n}. True} = {0..<int n}" by blast
  then show ?thesis unfolding answers_def index_distance_def by (simp only: m) (simp add: image_mset.compositionality comp_def)
qed

lemma rows_determine:
  assumes "length xs = n * k" "length ys = n * k" "\<forall>j < n. row k j xs = row k j ys"
  shows "xs = ys"
proof (rule nth_equalityI)
  fix i assume "i < length xs"
  then have i: "i < n * k" using assms(1) by simp
  then have k: "0 < k" by (cases k) auto
  have d: "i div k < n" using i by (simp add: less_mult_imp_div_less)
  then have "i div k * k + k \<le> n * k" by (metis Suc_leI add.commute mult_Suc mult_le_mono1)
  then have "row k (i div k) zs ! (i mod k) = zs ! i" if "length zs = n * k" for zs :: "'a list"
  proof -
    have "i div k * k \<le> length zs" using \<open>i div k * k + k \<le> n * k\<close> that by linarith
    then show ?thesis using k by (simp add: row_def)
  qed
  then show "xs ! i = ys ! i" using assms d by metis
qed (use assms in simp)

section \<open>Properties\<close>

text \<open>
  C6. \<open>IndexHNSW::search\<close> with the bounded queue always returns; row \<open>j\<close> of the tables holds the top \<open>k\<close>
  of the selected nodes that the search visited for query \<open>j\<close>, with their distances. The visited
  nodes are reachable from where the descent stopped, and all of these are visited when \<open>efSearch\<close> is at
  least the number of nodes and the relative check is on. For a similarity metric the distances are negated
  in the search and come back with their sign restored.
\<close>

theorem index_search_topk:
  assumes "searchable cd cs vd similarity hi xs ih s" "0 < k" "length D = length xs * k" "length I = length xs * k"
    and "param_of params hp_bounded_queue (search_bounded_queue (ih_hnsw ih))"
  shows "\<exists>D' I' stats. ih_search lo hi (flat_storage cd vd similarity) ih xs k params (D, I) =
      Some (Inr ((if similarity then map uminus D' else D', I'), stats))
    \<and> (\<forall>j < length xs. graph_answer lo hi k cd vd similarity ih s params (xs ! j) (zip (row k j D') (row k j I')))"
  using bounded_search_rows [OF assms] by blast

lemma example_searchable: "searchable flat_codec 1 byte_distance False 1000 xs example_hnsw_flat bytes_312"
proof -
  have "index_distance byte_distance False vs x v < 1000" for vs x v
  proof -
    have "uint a < 256" "0 \<le> uint a" for a :: "8 word" using uint_bounded [of a] by simp_all
    from this [of "hd x"] this [of "hd (vs ! nat v)"] show ?thesis unfolding index_distance_def byte_distance_def if_False by linarith
  qed
  moreover have "ih_storage example_hnsw_flat = Some bytes_312" "entry_point (ih_hnsw example_hnsw_flat) \<noteq> -1"
    by (simp_all add: example_hnsw_flat_def example_graph_def)
  ultimately show ?thesis using example_hnsw_flat_ready unfolding searchable_def by blast
qed

lemma example_search_params:
  "search_bounded_queue (ih_hnsw example_hnsw_flat)" "check_relative_distance (ih_hnsw example_hnsw_flat)"
  "ih_ntotal example_hnsw_flat \<le> efSearch (ih_hnsw example_hnsw_flat)"
  by (simp_all add: example_hnsw_flat_def example_graph_def)

theorem index_search_topk_witness:
  "\<exists>D' I' stats. ih_search 0 1000 (flat_storage flat_codec byte_distance False) example_hnsw_flat [[2], [9]] 1 None ([0, 0], [0, 0]) =
      Some (Inr ((D', I'), stats))
    \<and> graph_answer 0 1000 1 flat_codec byte_distance False example_hnsw_flat bytes_312 None [9] (zip (row 1 1 D') (row 1 1 I'))"
proof -
  have b: "param_of None hp_bounded_queue (search_bounded_queue (ih_hnsw example_hnsw_flat))"
    using example_search_params(1) by (simp add: param_of_def)
  obtain D' I' stats where "ih_search 0 1000 (flat_storage flat_codec byte_distance False) example_hnsw_flat [[2], [9]] 1 None ([0, 0], [0, 0]) =
      Some (Inr ((D', I'), stats))" and a: "\<forall>j < length [[2], [9 :: 8 word]].
        graph_answer 0 1000 1 flat_codec byte_distance False example_hnsw_flat bytes_312 None ([[2], [9]] ! j) (zip (row 1 j D') (row 1 j I'))"
    using index_search_topk [OF example_searchable [of "[[2], [9]]"] _ _ _ b, of 1 "[0, 0]" "[0, 0]" 0] by auto
  then show ?thesis using a [rule_format, of 1] by auto
qed



text \<open>
  C13. When all nodes can be reached from each other on level 0, \<open>efSearch\<close> is at least the number of nodes and
  the relative check is on, \<open>IndexHNSW::search\<close> reports the same distances as the exhaustive
  search of the flat index.
\<close>

theorem index_search_agrees_with_flat:
  assumes "searchable cd cs vd False hi xs ih s" "0 < k" "length D = length xs * k" "length I = length xs * k"
    and "length E = length xs * k" "length J = length xs * k"
    and "search_bounded_queue (ih_hnsw ih)" "check_relative_distance (ih_hnsw ih)" "ih_ntotal ih \<le> efSearch (ih_hnsw ih)"
    and "\<forall>n. node_at (ih_hnsw ih) 0 n \<longrightarrow> reachable (ih_hnsw ih) 0 n = {0..<int (ih_ntotal ih)}"
  shows "\<exists>D' I' J' stats. ih_search lo hi (flat_storage cd vd False) ih xs k None (D, I) = Some (Inr ((D', I'), stats))
    \<and> fc_search_rows (CMax lo hi) k cd vd s None 0 xs (E, J) = Inr (D', J')"
proof -
  note f = searchable_facts [OF assms(1)]
  from bounded_search_rows [OF assms(1-4), of None lo] assms(7) obtain D' I' stats where
    h: "ih_search lo hi (flat_storage cd vd False) ih xs k None (D, I) = Some (Inr ((D', I'), stats))"
    "length D' = length xs * k" "length I' = length xs * k"
    "\<forall>j < length xs. graph_answer lo hi k cd vd False ih s None (xs ! j) (zip (row k j D') (row k j I'))"
    by (auto simp: param_of_def)
  have c: "\<forall>x \<in> set xs. \<forall>v \<in> set (fc_vecs cd s). cmp (CMax lo hi) (neutral (CMax lo hi)) (vd x v)"
  proof (intro ballI)
    fix x v assume x: "x \<in> set xs" and "v \<in> set (fc_vecs cd s)"
    then obtain i where "i < ih_ntotal ih" "v = fc_vecs cd s ! i" using f(2) by (metis in_set_conv_nth length_fc_vecs)
    moreover then have "index_distance vd False (fc_vecs cd s) x (int i) < hi" using assms(1) x by (simp add: searchable_def)
    ultimately show "cmp (CMax lo hi) (neutral (CMax lo hi)) (vd x v)" by (simp add: CMax_def index_distance_def)
  qed
  have "\<forall>i < fc_ntotal s. can_ask None (int i)" by (simp add: can_ask_def)
  moreover have "same_len (E, J) (length xs * k)" using assms(5,6) by (simp add: same_len_def)
  ultimately obtain t' where t': "fc_search_rows (CMax lo hi) k cd vd s None 0 xs (E, J) = Inr t'" "same_len t' (length xs * k)"
    "\<forall>j < length xs. topk_result (CMax lo hi) k (map (\<lambda>i. (vd (xs ! j) (fc_vecs cd s ! i), int i)) [0..<fc_ntotal s]) (pairs (row2 k j t'))"
    using fc_search_rows_spec [OF is_trait_CMax f(1) _ assms(2) _ _ c, of None "(E, J)" "length xs" 0] by (auto simp: wanted_def)
  have "row k j D' = row k j (fst t')" if j: "j < length xs" for j
  proof -
    from h(4) [rule_format, OF j] obtain n V ps where a: "node_at (ih_hnsw ih) 0 n"
      "mset ps = answers vd False (fc_vecs cd s) (xs ! j) (selected None) V"
      "topk_result (CMax lo hi) k ps (zip (row k j D') (row k j I'))"
      "param_of None hp_check_relative_distance (check_relative_distance (ih_hnsw ih)) \<longrightarrow>
        ih_ntotal ih \<le> param_of None hp_efSearch (efSearch (ih_hnsw ih)) \<longrightarrow> V = reachable (ih_hnsw ih) 0 n"
      unfolding graph_answer_def by blast
    have "V = {0..<int (ih_ntotal ih)}" using a(1,4) assms(8-10) by (simp add: param_of_def)
    with a(2,3) have ps: "mset ps = answers vd False (fc_vecs cd s) (xs ! j) (\<lambda>v. True) {0..<int (ih_ntotal ih)}"
      "topk_result (CMax lo hi) k ps (zip (row k j D') (row k j I'))" by simp_all
    let ?qs = "map (\<lambda>i. (vd (xs ! j) (fc_vecs cd s ! i), int i)) [0..<fc_ntotal s]"
    have e: "image_mset fst (mset ps) = image_mset fst (mset ?qs)"
      unfolding ps(1) using answers_all [of vd "fc_vecs cd s" "xs ! j" "ih_ntotal ih"] f(2)
      by (simp add: image_mset.compositionality comp_def)
    then have "size (mset ps) = size (mset ?qs)" by (metis size_image_mset)
    then have "map fst (zip (row k j D') (row k j I')) = map fst (pairs (row2 k j t'))"
      using topk_distances [OF ps(2)] topk_distances [OF t'(3) [rule_format, OF j]] e by simp
    moreover have "same_len (D', I') (length xs * k)" using h(2,3) by (simp add: same_len_def)
    then have "same_len (row2 k j (D', I')) k" "same_len (row2 k j t') k" using same_len_row2 [OF _ j] t'(2) by blast+
    ultimately show ?thesis by (simp add: row2_def pairs_def same_len_def)
  qed
  then have "D' = fst t'" using rows_determine [of D' "length xs" k "fst t'"] h(2) t'(2) by (simp add: same_len_def)
  then show ?thesis using h(1) t'(1) by (metis prod.collapse)
qed

text \<open>On the example graph every node reaches every node.\<close>

lemma example_connected:
  assumes "node_at example_graph 0 n"
  shows "reachable example_graph 0 n = {0..<3}"
proof -
  have l: "links example_graph 0 0 = [1]" "links example_graph 1 0 = [0, 2]" "links example_graph 2 0 = [1]" by code_simp+
  have s1: "0 \<in> reachable example_graph 0 v \<Longrightarrow> 1 \<in> reachable example_graph 0 v" for v
    by (erule reachable_step) (simp add: l)
  have s2: "1 \<in> reachable example_graph 0 v \<Longrightarrow> 0 \<in> reachable example_graph 0 v" for v
    by (erule reachable_step) (simp add: l)
  have s3: "1 \<in> reachable example_graph 0 v \<Longrightarrow> 2 \<in> reachable example_graph 0 v" for v
    by (erule reachable_step) (simp add: l)
  have s4: "2 \<in> reachable example_graph 0 v \<Longrightarrow> 1 \<in> reachable example_graph 0 v" for v
    by (erule reachable_step) (simp add: l)
  have three: "node_at example_graph 0 v \<Longrightarrow> v \<in> {0..<3}" for v by (auto simp: node_at_def example_graph_def)
  have e: "{0..<3} = {0, 1, 2 :: int}" by auto
  have "n = 0 \<or> n = 1 \<or> n = 2" using three [OF assms] by auto
  then have "1 \<in> reachable example_graph 0 n" using reachable_self [of n example_graph 0] s1 s4 by metis
  then have "{0, 1, 2} \<subseteq> reachable example_graph 0 n" using s2 s3 by simp
  moreover have "reachable example_graph 0 n \<subseteq> {0..<3}" using reachable_node [OF example_graph_ok assms] three by blast
  ultimately show ?thesis unfolding e by (rule subset_antisym [rotated])
qed

theorem index_search_agrees_with_flat_witness:
  "\<exists>D' I' J' stats. ih_search 0 1000 (flat_storage flat_codec byte_distance False) example_hnsw_flat [[2], [9]] 2 None ([0, 0, 0, 0], [0, 0, 0, 0])
      = Some (Inr ((D', I'), stats))
    \<and> fc_search_rows (CMax 0 1000) 2 flat_codec byte_distance bytes_312 None 0 [[2], [9]] ([0, 0, 0, 0], [0, 0, 0, 0]) = Inr (D', J')"
proof -
  have "\<forall>n. node_at (ih_hnsw example_hnsw_flat) 0 n \<longrightarrow> reachable (ih_hnsw example_hnsw_flat) 0 n = {0..<int (ih_ntotal example_hnsw_flat)}"
    using example_connected by (simp add: example_hnsw_flat_def)
  from index_search_agrees_with_flat [OF example_searchable [of "[[2], [9]]"] _ _ _ _ _ example_search_params this,
    where k = 2 and D = "[0, 0, 0, 0]" and I = "[0, 0, 0, 0]" and E = "[0, 0, 0, 0]" and J = "[0, 0, 0, 0]" and lo = 0]
  show ?thesis by simp
qed

end
