(* ===== verification/Index_Hnsw_Level0.thy ===== *)
theory Index_Hnsw_Level0
  imports Index_Hnsw_Search
begin

text \<open>
  The operations of \<open>IndexHNSW\<close> that rewrite the links of level 0 node by node, and the ones that
  do not do what they are for.
\<close>

section \<open>Rewriting the list of one node\<close>

lemma put_links:
  assumes g: "graph_ok h" and i: "node_at h l i" "neighbor_range h i l = (b, e)"
    and vs: "length vs \<le> e - b" "\<forall>v \<in> set vs. node_at h l v"
  defines "h' \<equiv> h\<lparr>neighbors := put_range b (vs @ replicate (e - b - length vs) (-1)) (neighbors h)\<rparr>"
  shows "graph_ok h'" "rewired h h' l i" "links h' i l = vs"
proof -
  let ?ys = "vs @ replicate (e - b - length vs) (-1)"
  have lay: "layout_ok h" using g by (simp add: graph_ok_def)
  have ys: "length ?ys = e - b" using vs(1) by simp
  have nn: "\<forall>v \<in> set vs. 0 \<le> v" using vs(2) by (auto simp: node_at_def)
  have tw: "takeWhile (\<lambda>v. \<not> v < 0) ?ys = vs" using takeWhile_append_empty [OF nn] .
  show "graph_ok h'" unfolding h'_def
    by (rule graph_ok_put_slots [OF g i ys packed_append_empty [OF nn]]) (use vs(2) tw in simp)
  show "rewired h h' l i" unfolding rewired_def h'_def
    using slots_update_other [OF lay i(1) _ _ i(2) ys] by (simp, metis)
  have "slots h' i l = ?ys" unfolding h'_def by (rule slots_update_same [OF lay i ys])
  then show "links h' i l = vs" using tw by (simp add: links_def)
qed

text \<open>A loop over the nodes that rewrites the list of each of them.\<close>

lemma rows_loop:
  assumes "graph_ok h" "\<And>i. i < n \<Longrightarrow> node_at h 0 (int i)"
    and step: "\<And>h i. graph_ok h \<Longrightarrow> i < n \<Longrightarrow> node_at h 0 (int i) \<Longrightarrow>
      graph_ok (f i h) \<and> rewired h (f i h) 0 (int i) \<and> R i (length (slots h (int i) 0)) (links h (int i) 0) (links (f i h) (int i) 0)"
  defines "h' \<equiv> fold f [0..<n] h"
  shows "graph_ok h' \<and> rewired_set h h' 0 (int ` {0..<n})
    \<and> (\<forall>i < n. R i (length (slots h (int i) 0)) (links h (int i) 0) (links h' (int i) 0))"
proof -
  have "m \<le> n \<longrightarrow> (let g = fold f [0..<m] h in graph_ok g \<and> rewired_set h g 0 (int ` {0..<m})
      \<and> (\<forall>i < m. R i (length (slots h (int i) 0)) (links h (int i) 0) (links g (int i) 0)))" for m
  proof (induction m)
    case 0
    then show ?case using assms(1) by (simp add: rewired_set_def)
  next
    case (Suc m)
    show ?case
    proof
      assume m: "Suc m \<le> n"
      let ?g = "fold f [0..<m] h"
      have IH: "graph_ok ?g" "rewired_set h ?g 0 (int ` {0..<m})"
        "\<forall>i < m. R i (length (slots h (int i) 0)) (links h (int i) 0) (links ?g (int i) 0)" using Suc m by (simp_all add: Let_def)
      note fr = frame_update [OF rewired_set_frame [OF IH(2)]]
      have nm: "node_at h 0 (int m)" "node_at ?g 0 (int m)" using assms(2) [of m] m fr(1) by simp_all
      have s: "graph_ok (f m ?g)" "rewired ?g (f m ?g) 0 (int m)"
        "R m (length (slots ?g (int m) 0)) (links ?g (int m) 0) (links (f m ?g) (int m) 0)" using step [OF IH(1) _ nm(2)] m by simp_all
      have "int m \<notin> int ` {0..<m}" by auto
      then have own: "slots ?g (int m) 0 = slots h (int m) 0" using IH(2) nm(1) unfolding rewired_set_def by blast
      have old: "links (f m ?g) (int i) 0 = links ?g (int i) 0" if "i < m" for i
        using rewired_slots [OF s(2), of 0 "int i"] assms(2) [of i] that m fr(1) by auto
      have rs: "rewired_set h (f m ?g) 0 (int ` {0..<Suc m})"
        unfolding rewired_set_def
      proof (intro conjI allI impI)
        show "f m ?g = h\<lparr>neighbors := neighbors (f m ?g)\<rparr>"
          using frame_trans [OF rewired_set_frame [OF IH(2)]] s(2) by (simp add: rewired_def)
        show "slots (f m ?g) v' l' = slots h v' l'" if "node_at h l' v'" "\<not> (l' = 0 \<and> v' \<in> int ` {0..<Suc m})" for l' v'
        proof -
          have "(l', v') \<noteq> (0, int m)" using that(2) by force
          then have "slots (f m ?g) v' l' = slots ?g v' l'" using rewired_slots [OF s(2), of l' v'] that(1) fr(1) by simp
          moreover have "\<not> (l' = 0 \<and> v' \<in> int ` {0..<m})" using that(2) by force
          then have "slots ?g v' l' = slots h v' l'" using IH(2) that(1) unfolding rewired_set_def by blast
          ultimately show ?thesis by simp
        qed
      qed
      have "R i (length (slots h (int i) 0)) (links h (int i) 0) (links (f m ?g) (int i) 0)" if "i < Suc m" for i
      proof (cases "i = m")
        case True
        then show ?thesis using s(3) own by (simp add: links_def)
      next
        case False
        then show ?thesis using IH(3) old that by simp
      qed
      then show "let g = fold f [0..<Suc m] h in graph_ok g \<and> rewired_set h g 0 (int ` {0..<Suc m})
          \<and> (\<forall>i < Suc m. R i (length (slots h (int i) 0)) (links h (int i) 0) (links g (int i) 0))"
        using s(1) rs by (simp add: Let_def)
    qed
  qed
  from this [of n] show ?thesis by (simp add: Let_def h'_def)
qed

section \<open>The rows\<close>

lemma write_links_correct:
  assumes g: "graph_ok h" and i: "node_at h 0 (int i)" and vs: "\<forall>v \<in> set vs. node_at h 0 v"
  shows "graph_ok (write_links i vs h)" "rewired h (write_links i vs h) 0 (int i)"
    "links (write_links i vs h) (int i) 0 = take (length (slots h (int i) 0)) vs"
proof -
  obtain b e where be: "neighbor_range h (int i) 0 = (b, e)" by (metis surj_pair)
  let ?vs = "take (e - b) vs"
  have "map (\<lambda>j. if j - b < length vs then vs ! (j - b) else -1) [b..<e] = ?vs @ replicate (e - b - length ?vs) (-1)"
    by (intro nth_equalityI) (auto simp: nth_append)
  then have w: "write_links i vs h = h\<lparr>neighbors := put_range b (?vs @ replicate (e - b - length ?vs) (-1)) (neighbors h)\<rparr>"
    by (simp add: write_links_def be)
  have "\<forall>v \<in> set ?vs. node_at h 0 v" using vs by (auto dest: in_set_takeD)
  note p = put_links [OF g i be _ this]
  show "graph_ok (write_links i vs h)" "rewired h (write_links i vs h) 0 (int i)" unfolding w by (rule p; simp)+
  show "links (write_links i vs h) (int i) 0 = take (length (slots h (int i) 0)) vs"
    unfolding w length_slots [OF be] by (rule p) simp
qed

lemma drop_front_part:
  assumes "take (e - b) (drop b xs) = ys @ zs" "length ys = n" "n \<le> e - b" "b \<le> e"
  shows "drop (b + n) xs = zs @ drop e xs"
proof -
  have "drop b xs = (ys @ zs) @ drop (e - b) (drop b xs)" using assms(1) by (metis append_take_drop_id)
  also have "drop (e - b) (drop b xs) = drop e xs" using assms(4) by simp
  finally have "drop n (drop b xs) = zs @ drop e xs" using assms(2) by simp
  then show ?thesis by (simp add: add.commute)
qed

lemma reorder_row_correct:
  assumes g: "graph_ok h" and i: "node_at h 0 (int i)"
    and perm: "\<And>ds. mset (argsort ds) = mset [0..<length ds]"
  shows "graph_ok (reorder_row dis argsort i h)" "rewired h (reorder_row dis argsort i h) 0 (int i)"
    "links (reorder_row dis argsort i h) (int i) 0 =
      map (\<lambda>j. links h (int i) 0 ! j) (argsort (map (symmetric_dis dis (int i)) (links h (int i) 0)))"
proof -
  obtain b e where be: "neighbor_range h (int i) 0 = (b, e)" by (metis surj_pair)
  have lay: "layout_ok h" using g by (simp add: graph_ok_def)
  let ?tmp = "links h (int i) 0"
  let ?order = "argsort (map (symmetric_dis dis (int i)) ?tmp)"
  let ?vs = "map (\<lambda>j. ?tmp ! j) ?order"
  have po: "mset ?order = mset [0..<length ?tmp]" using perm [of "map (symmetric_dis dis (int i)) ?tmp"] by simp
  then have lo: "length ?order = length ?tmp" by (metis length_upt diff_zero size_mset)
  have so: "set ?order = {0..<length ?tmp}" using arg_cong [OF po, of set_mset] by (simp only: set_mset_mset set_upt)
  have pk: "packed (slots h (int i) 0)" using g i by (simp add: graph_ok_def links_ok_def)
  have sl: "slots h (int i) 0 = ?tmp @ replicate (e - b - length ?tmp) (-1)"
    using packed_split [OF pk] length_slots [OF be] by (simp add: links_def)
  have lt: "length ?tmp \<le> e - b" using arg_cong [OF sl, of length] length_slots [OF be] by simp
  note bd = neighbor_range_bounds [OF lay i be]
  have "put_range b ?vs (neighbors h) = put_range b (?vs @ replicate (e - b - length ?vs) (-1)) (neighbors h)"
  proof -
    have "drop (b + length ?tmp) (neighbors h) = replicate (e - b - length ?tmp) (-1) @ drop e (neighbors h)"
      by (rule drop_front_part [OF _ _ lt bd(2)]) (use slots_take_drop [OF lay i be] sl in simp_all)
    then show ?thesis using lo lt bd by (simp add: put_range_def)
  qed
  moreover have "map (\<lambda>j. ?tmp ! (?order ! j)) [0..<length ?tmp] = ?vs"
    using lo by (intro nth_equalityI) simp_all
  ultimately have w: "reorder_row dis argsort i h = h\<lparr>neighbors := put_range b (?vs @ replicate (e - b - length ?vs) (-1)) (neighbors h)\<rparr>"
    by (simp add: reorder_row_def be Let_def)
  have vs: "length ?vs \<le> e - b" "\<forall>v \<in> set ?vs. node_at h 0 v"
    using lo lt so links_node(1) [OF g i] by auto
  note p = put_links [OF g i be vs]
  show "graph_ok (reorder_row dis argsort i h)" "rewired h (reorder_row dis argsort i h) 0 (int i)"
    "links (reorder_row dis argsort i h) (int i) 0 = ?vs" unfolding w by (rule p)+
qed

lemma shrink_row_correct:
  assumes g: "graph_ok h" and i: "node_at h 0 (int i)"
  shows "graph_ok (shrink_row dis m i h)" "rewired h (shrink_row dis m i h) 0 (int i)"
    "links (shrink_row dis m i h) (int i) 0 = take (length (slots h (int i) 0)) (map snd (shrink_neighbor_list dis
       (to_queue farther (map (\<lambda>v. (symmetric_dis dis (int i) v, v)) (links h (int i) 0))) m False))"
proof -
  let ?q = "to_queue farther (map (\<lambda>v. (symmetric_dis dis (int i) v, v)) (links h (int i) 0))"
  let ?vs = "map snd (shrink_neighbor_list dis ?q m False)"
  have "mset (shrink_neighbor_list dis ?q m False) \<subseteq># mset (map (\<lambda>v. (symmetric_dis dis (int i) v, v)) (links h (int i) 0))"
    using shrink_list_sub [of dis ?q m False] by simp
  from set_mset_mono [OF this] have "set ?vs \<subseteq> set (links h (int i) 0)" by auto
  then have vs: "\<forall>v \<in> set ?vs. node_at h 0 v" using links_node(1) [OF g i] by blast
  show "graph_ok (shrink_row dis m i h)" "rewired h (shrink_row dis m i h) 0 (int i)"
    "links (shrink_row dis m i h) (int i) 0 = take (length (slots h (int i) 0)) ?vs"
    unfolding shrink_row_def Let_def by (rule write_links_correct [OF g i vs])+
qed

section \<open>Properties\<close>

text \<open>An index whose graph has all its nodes on level 0.\<close>

definition full_level_0 :: "hnsw \<Rightarrow> bool" where
  "full_level_0 h \<longleftrightarrow> graph_ok h \<and> (\<forall>i < ntotal h. 0 < levels h ! i)"

lemma full_level_0_node: "full_level_0 h \<Longrightarrow> i < ntotal h \<Longrightarrow> node_at h 0 (int i)"
  by (simp add: full_level_0_def node_at_def)

text \<open>What \<open>fvec_argsort\<close> promises: an order of the positions that sorts the values.\<close>

definition argsort_ok :: "('d :: linorder list \<Rightarrow> nat list) \<Rightarrow> bool" where
  "argsort_ok argsort \<longleftrightarrow> (\<forall>ds. mset (argsort ds) = mset [0..<length ds] \<and> sorted (map ((!) ds) (argsort ds)))"

text \<open>
  \<open>reorder_links\<close> keeps the graph well formed and every list outside level 0; the list of each node
  on level 0 keeps its links and is sorted by their distance to the node.
\<close>

theorem reorder_links_sorts:
  assumes "full_level_0 h" "argsort_ok argsort"
  shows "graph_ok (reorder_links dis argsort (ntotal h) h)
    \<and> (\<forall>l v. node_at h l v \<longrightarrow> l \<noteq> 0 \<longrightarrow> links (reorder_links dis argsort (ntotal h) h) v l = links h v l)
    \<and> (\<forall>i < ntotal h. mset (links (reorder_links dis argsort (ntotal h) h) (int i) 0) = mset (links h (int i) 0)
        \<and> sorted (map (symmetric_dis dis (int i)) (links (reorder_links dis argsort (ntotal h) h) (int i) 0)))"
proof -
  have g: "graph_ok h" using assms(1) by (simp add: full_level_0_def)
  let ?R = "\<lambda>i (k :: nat) old new. mset new = mset old \<and> sorted (map (symmetric_dis dis (int i)) new)"
  have perm: "mset (argsort ds) = mset [0..<length ds]" for ds using assms(2) by (simp add: argsort_ok_def)
  have "?R i (length (slots h (int i) 0)) (links h (int i) 0) (links (reorder_row dis argsort i h) (int i) 0)"
    if r: "graph_ok h" "node_at h 0 (int i)" for h i
  proof -
    let ?old = "links h (int i) 0" let ?ds = "map (symmetric_dis dis (int i)) ?old"
    have "mset (map ((!) ?old) (argsort ?ds)) = image_mset ((!) ?old) (mset [0..<length ?old])" using perm [of ?ds] by simp
    also have "\<dots> = mset ?old" by (metis map_nth mset_map)
    finally have m: "mset (map ((!) ?old) (argsort ?ds)) = mset ?old" .
    have "set (argsort ?ds) = {0..<length ?old}" using arg_cong [OF perm [of ?ds], of set_mset] by (simp only: set_mset_mset set_upt length_map)
    then have e: "map (symmetric_dis dis (int i)) (map ((!) ?old) (argsort ?ds)) = map ((!) ?ds) (argsort ?ds)" by simp
    have "sorted (map (symmetric_dis dis (int i)) (map ((!) ?old) (argsort ?ds)))"
      unfolding e using assms(2) unfolding argsort_ok_def by blast
    with m show ?thesis unfolding reorder_row_correct(3) [OF r perm] by (rule conjI)
  qed
  then have l: "graph_ok (reorder_links dis argsort (ntotal h) h)"
    "rewired_set h (reorder_links dis argsort (ntotal h) h) 0 (int ` {0..<ntotal h})"
    "\<forall>i < ntotal h. ?R i (length (slots h (int i) 0)) (links h (int i) 0) (links (reorder_links dis argsort (ntotal h) h) (int i) 0)"
    using rows_loop [OF g full_level_0_node [OF assms(1)], of "ntotal h" "reorder_row dis argsort" ?R]
      reorder_row_correct(1,2) [OF _ _ perm] unfolding reorder_links_def by blast+
  then show ?thesis using rewired_set_links [OF l(2)] by blast
qed

lemma example_full_level_0: "full_level_0 example_graph"
  by (auto simp: full_level_0_def example_graph_ok) (auto simp: example_graph_def less_Suc_eq)

theorem reorder_links_sorts_witness:
  "sorted (map (\<lambda>v. \<bar>1 - v\<bar>) (links (reorder_links (default_computer (\<lambda>v. \<bar>v\<bar>) (\<lambda>v w. \<bar>v - w\<bar>))
      (\<lambda>ds. sort_key ((!) ds) [0..<length ds]) 3 example_graph) 1 0))"
proof -
  have "argsort_ok (\<lambda>ds :: int list. sort_key ((!) ds) [0..<length ds])" by (simp add: argsort_ok_def)
  note r = reorder_links_sorts [OF example_full_level_0 this, of "default_computer (\<lambda>v. \<bar>v\<bar>) (\<lambda>v w. \<bar>v - w\<bar>)"]
  have n: "ntotal example_graph = 3" by (simp add: example_graph_def)
  have d: "symmetric_dis (default_computer (\<lambda>v. \<bar>v\<bar>) (\<lambda>v w. \<bar>v - w\<bar>)) (int 1) = (\<lambda>w. \<bar>1 - w\<bar>)"
    by (simp add: default_computer_def)
  have "1 < ntotal example_graph" by (simp add: n)
  from r [THEN conjunct2, THEN conjunct2, rule_format, OF this, THEN conjunct2] show ?thesis unfolding n d by simp
qed

text \<open>
  \<open>shrink_level_0_neighbors\<close> keeps the graph well formed and every list outside level 0; on level 0 each
  node keeps a part of its links, at most \<open>new_size\<close> of them and at least one if it had any.
\<close>

theorem shrink_level_0_keeps_graph:
  assumes "full_level_0 h" "roomy h" "0 < new_size"
  shows "graph_ok (shrink_level_0_neighbors dis new_size (ntotal h) h)
    \<and> (\<forall>l v. node_at h l v \<longrightarrow> l \<noteq> 0 \<longrightarrow> links (shrink_level_0_neighbors dis new_size (ntotal h) h) v l = links h v l)
    \<and> (\<forall>i < ntotal h. set (links (shrink_level_0_neighbors dis new_size (ntotal h) h) (int i) 0) \<subseteq> set (links h (int i) 0)
        \<and> length (links (shrink_level_0_neighbors dis new_size (ntotal h) h) (int i) 0) \<le> new_size
        \<and> (links h (int i) 0 \<noteq> [] \<longrightarrow> links (shrink_level_0_neighbors dis new_size (ntotal h) h) (int i) 0 \<noteq> []))"
proof -
  have g: "graph_ok h" using assms(1) by (simp add: full_level_0_def)
  let ?R = "\<lambda>(i :: nat) k old new. set new \<subseteq> set old \<and> length new \<le> new_size \<and> (old \<noteq> [] \<longrightarrow> 0 < k \<longrightarrow> new \<noteq> [])"
  have "?R i (length (slots h (int i) 0)) (links h (int i) 0) (links (shrink_row dis new_size i h) (int i) 0)"
    if r: "graph_ok h" "node_at h 0 (int i)" for h i
  proof -
    let ?old = "links h (int i) 0" let ?q = "to_queue farther (map (\<lambda>v. (symmetric_dis dis (int i) v, v)) ?old)"
    let ?out = "shrink_neighbor_list dis ?q new_size False"
    have "mset ?out \<subseteq># mset (map (\<lambda>v. (symmetric_dis dis (int i) v, v)) ?old)"
      using shrink_list_sub [of dis ?q new_size False] by simp
    from set_mset_mono [OF this] have "set (map snd ?out) \<subseteq> set ?old" by auto
    then have "set (take k (map snd ?out)) \<subseteq> set ?old" for k using set_take_subset by (rule subset_trans [rotated])
    moreover have "length ?out \<le> new_size" using shrink_list_length [of dis ?q new_size False] assms(3) by simp
    moreover have "?out \<noteq> []" if "?old \<noteq> []" using that shrink_list_nonempty [of ?q dis new_size False] by simp
    ultimately show ?thesis unfolding shrink_row_correct(3) [OF r] by (simp add: min.coboundedI1)
  qed
  then have l: "graph_ok (shrink_level_0_neighbors dis new_size (ntotal h) h)"
    "rewired_set h (shrink_level_0_neighbors dis new_size (ntotal h) h) 0 (int ` {0..<ntotal h})"
    "\<forall>i < ntotal h. ?R i (length (slots h (int i) 0)) (links h (int i) 0) (links (shrink_level_0_neighbors dis new_size (ntotal h) h) (int i) 0)"
    using rows_loop [OF g full_level_0_node [OF assms(1)], of "ntotal h" "shrink_row dis new_size" ?R]
      shrink_row_correct(1,2) unfolding shrink_level_0_neighbors_def by blast+
  have "0 < length (slots h (int i) 0)" if "i < ntotal h" for i
  proof -
    obtain b e where be: "neighbor_range h (int i) 0 = (b, e)" by (metis surj_pair)
    have "layout_ok h" using g by (simp add: graph_ok_def)
    from roomy_range [OF this assms(2) full_level_0_node [OF assms(1) that] be] show ?thesis by (simp add: length_slots [OF be])
  qed
  then show ?thesis using l(1,3) rewired_set_links [OF l(2)] by blast
qed

theorem shrink_level_0_keeps_graph_witness:
  "length (links (shrink_level_0_neighbors (default_computer (\<lambda>v. \<bar>v\<bar>) (\<lambda>v w. \<bar>v - w\<bar>)) 1 3 example_graph) 1 0) \<le> 1"
proof -
  have r: "roomy example_graph" by (auto simp: roomy_def example_graph_def less_Suc_eq)
  have n: "ntotal example_graph = 3" by (simp add: example_graph_def)
  show ?thesis
    using shrink_level_0_keeps_graph [OF example_full_level_0 r, of 1 "default_computer (\<lambda>v. \<bar>v\<bar>) (\<lambda>v w. \<bar>v - w\<bar>)"]
    unfolding n by (metis of_nat_1 one_less_numeral_iff semiring_norm(77) zero_less_one)
qed

text \<open>
  \<open>init_level_0_from_entry_points\<close> fails at its first point: \<open>add_links_starting_from\<close> releases the lock of the
  point, which nobody has set (\<open>add_with_locks\<close>, the other caller, sets it first).
\<close>

theorem entry_points_unlock_free_lock:
  assumes "index_ready (fc_ok cs) (fc_vecs cd) ih" "ih_storage ih = Some s" "fixed_codec cd vec cs"
    and "node_at (ih_hnsw ih) 0 (int pt)" "node_at (ih_hnsw ih) 0 nearest"
  shows "init_level_0_from_entry_points (flat_storage cd vd similarity) (int pt # points) (nearest # nearests) ih = Some (Inl Not_held)"
proof -
  let ?h = "ih_hnsw ih" and ?so = "flat_storage cd vd similarity"
  have f: "graph_ready ?h" "ntotal ?h = ih_ntotal ih" "fc_ok cs s" "fc_ntotal s = ih_ntotal ih"
    using assms(1,2) by (auto simp: index_ready_def)
  have g: "graph_ok ?h" "0 < efConstruction ?h" using f(1) by (simp_all add: graph_ready_def)
  have lay: "layout_ok ?h" using g(1) by (simp add: graph_ok_def)
  have "pt < fc_ntotal s" using assms(4) f(2,4) by (simp add: node_at_def)
  from fixed_codec.reconstruct_spec [OF assms(3) f(3) this]
  have r: "ix_reconstruct (vs_index ?so) (int pt) s = Inr (fc_vecs cd s ! pt)" by (simp add: flat_storage_def fc_ops_def)
  let ?q = "storage_distance_computer ?so s (fc_vecs cd s ! pt)"
  have vt: "vt_clear ?h (vt_new (ih_ntotal ih))" using f(2) by (intro vt_clear_new) simp
  from search_neighbors_correct [OF g(1) flat_storage_exact [of cd vd similarity s "fc_vecs cd s ! pt"] vt assms(5) g(2), of False]
  obtain targets vt' where
    t: "search_neighbors_to_add ?h ?q [] nearest (query_dis ?q nearest) 0 (vt_new (ih_ntotal ih)) False = Some (targets, vt')" by blast
  have "add_links_starting_from ?h ?q (int pt) nearest (query_dis ?q nearest) 0 False (({}, []), vt_new (ih_ntotal ih)) = Some (Inl Not_held)"
    using nb_neighbors_slots [OF lay assms(4)] by (simp add: add_links_starting_from_def t omp_unset_lock_def)
  then show ?thesis using assms(2) r by (simp add: init_level_0_from_entry_points_def Let_def)
qed

theorem entry_points_unlock_free_lock_witness:
  "init_level_0_from_entry_points (flat_storage flat_codec byte_distance False) [0] [1] example_hnsw_flat = Some (Inl Not_held)"
proof -
  have st: "ih_storage example_hnsw_flat = Some bytes_312" by (simp add: example_hnsw_flat_def)
  have n: "node_at (ih_hnsw example_hnsw_flat) 0 (int 0)" "node_at (ih_hnsw example_hnsw_flat) 0 1"
    by (simp_all add: example_hnsw_flat_def node_at_def example_graph_def)
  show ?thesis using entry_points_unlock_free_lock [OF example_hnsw_flat_ready st flat.fixed_codec_axioms n,
    where vd = byte_distance and similarity = False and points = "[]" and nearests = "[]"] by simp
qed

text \<open>
  \<open>single_search\<close> on one query gives what \<open>search\<close> gives, except that it leaves the distances of a similarity
  metric negated: only \<open>search\<close> restores their sign.
\<close>

theorem single_search_keeps_sign:
  fixes so :: "('s, 'v, 'd :: {linorder, uminus}) storage_ops"
  assumes "0 < k" "ih_storage ih = Some s"
  shows "ih_search lo hi so ih [x] k None (D, I) =
    map_option (\<lambda>r. bind_result r (\<lambda>((D', I'), stats, vt').
        Inr ((if vs_similarity so then map uminus (take k D') @ drop k D' else D', I'), stats)))
      (ih_single_search lo hi so ih x k ((D, I), stats_reset, vt_new (ih_ntotal ih)))"
proof -
  have "(\<lambda>(t, stats, vt :: visited_table). Inr (revert_distances (vs_similarity so) (k * length [x]) t, stats)) =
      (\<lambda>((D' :: 'd list, I'), stats :: hnsw_stats, vt'). Inr ((if vs_similarity so then map uminus (take k D') @ drop k D' else D', I'), stats) :: fault + _)"
    by (auto simp: revert_distances_def)
  then show ?thesis using assms by (simp add: ih_single_search_def ih_search_def del: search_rows.simps)
qed

theorem single_search_keeps_sign_witness:
  "ih_search 0 1000 (flat_storage flat_codec byte_distance True) example_hnsw_flat [[2]] 1 None ([0], [0]) =
    map_option (\<lambda>r. bind_result r (\<lambda>((D', I'), stats, vt'). Inr ((map uminus (take 1 D') @ drop 1 D', I'), stats)))
      (ih_single_search 0 1000 (flat_storage flat_codec byte_distance True) example_hnsw_flat [2] 1
        (([0], [0]), stats_reset, vt_new (ih_ntotal example_hnsw_flat)))"
proof -
  have "ih_storage example_hnsw_flat = Some bytes_312" by (simp add: example_hnsw_flat_def)
  moreover have "vs_similarity (flat_storage flat_codec byte_distance True)" by (simp add: flat_storage_def)
  ultimately show ?thesis
    using single_search_keeps_sign [of 1 example_hnsw_flat bytes_312 0 1000 "flat_storage flat_codec byte_distance True" "[2]" "[0]" "[0]"]
    by simp
qed

end
