(* ===== verification/Bucket_Sort.thy ===== *)
theory Bucket_Sort
  imports Key_Buckets
begin

text \<open>
  \<open>faiss/utils/sorting.cpp\<close>: argsort, alone and with merging threads, the bucket sorts with their reference
  and parallel versions, and the in-place sort of a matrix of bucket numbers. Parallel sections
  are run rank by rank; where a critical section makes their order visible it is an argument.
\<close>

section \<open>Argsort\<close>

text \<open>\<open>std_sort\<close> is \<open>std::sort\<close> with its comparator; \<open>ArgsortComparator\<close> compares values.\<close>

type_synonym std_sort = "(nat \<Rightarrow> nat \<Rightarrow> bool) \<Rightarrow> nat list \<Rightarrow> nat list"

definition argsort_less :: "('d :: linorder) list \<Rightarrow> nat \<Rightarrow> nat \<Rightarrow> bool" where
  "argsort_less vals a b = (vals ! a < vals ! b)"

definition fvec_argsort :: "std_sort \<Rightarrow> ('d :: linorder) list \<Rightarrow> nat list" where
  "fvec_argsort std_sort vals = std_sort (argsort_less vals) [0..<length vals]"

text \<open>A \<open>SegmentS\<close> is a pair \<open>(i0, i1)\<close>.\<close>

type_synonym segment = "nat \<times> nat"

definition seg_len :: "segment \<Rightarrow> nat" where
  "seg_len s = snd s - fst s"

text \<open>The binary search for the end of the part of \<open>s2\<close> that goes with the elements before the pivot.\<close>

function merge_cut :: "(nat \<Rightarrow> nat \<Rightarrow> bool) \<Rightarrow> nat list \<Rightarrow> nat \<Rightarrow> nat \<Rightarrow> nat \<Rightarrow> nat" where
  "merge_cut less_at src pivot i0 i1 =
     (if i0 + 1 < i1 then
        let imed = (i1 + i0) div 2 in
        if less_at pivot (src ! imed) then merge_cut less_at src pivot i0 imed else merge_cut less_at src pivot imed i1
      else i1)"
  by auto
termination by (relation "measure (\<lambda>(_, _, _, i0, i1). i1 - i0)") auto

declare merge_cut.simps [simp del]

text \<open>The merge of one thread, with the copy of what is left of one side.\<close>

function merge_range :: "(nat \<Rightarrow> nat \<Rightarrow> bool) \<Rightarrow> nat list \<Rightarrow> segment \<Rightarrow> segment \<Rightarrow> nat list" where
  "merge_range less_at src (a, a1) (b, b1) =
     (if a < a1 \<and> b < b1 then
        if less_at (src ! a) (src ! b) then src ! a # merge_range less_at src (a + 1, a1) (b, b1)
        else src ! b # merge_range less_at src (a, a1) (b + 1, b1)
      else if a < a1 then subrange a (a1 - a) src
      else subrange b (b1 - b) src)"
  by pat_completeness auto
termination by (relation "measure (\<lambda>(_, _, s, t). (snd s - fst s) + (snd t - fst t))") auto

declare merge_range.simps [simp del]

definition split_first :: "segment \<Rightarrow> nat \<Rightarrow> nat \<Rightarrow> segment" where
  "split_first s1 nt t = (fst s1 + seg_len s1 * t div nt, fst s1 + seg_len s1 * (t + 1) div nt)"

definition split_second ::
    "(nat \<Rightarrow> nat \<Rightarrow> bool) \<Rightarrow> nat list \<Rightarrow> segment \<Rightarrow> segment \<Rightarrow> nat \<Rightarrow> nat \<Rightarrow> segment" where
  "split_second less_at src s1 s2 nt t =
     (let cut = \<lambda>t. merge_cut less_at src (src ! snd (split_first s1 nt t)) (fst s2) (snd s2) in
      (if t = 0 then fst s2 else cut (t - 1), if t + 1 < nt then cut t else snd s2))"

text \<open>
  The lengths wrap around in \<open>size_t\<close>; here they are integers. When the second sub-range of a thread ends before it
  begins, its length is huge: the thread fails its assertion or copies out of bounds.
\<close>

definition seg_diff :: "segment \<Rightarrow> int" where
  "seg_diff s = int (snd s) - int (fst s)"

definition merge_thread ::
    "(nat \<Rightarrow> nat \<Rightarrow> bool) \<Rightarrow> nat list \<Rightarrow> segment \<Rightarrow> segment \<Rightarrow> int \<Rightarrow> nat list \<Rightarrow> nat list result" where
  "merge_thread less_at src s1t s2t w dst =
     (if snd s2t < fst s2t then Inl (if seg_len s1t > 0 then Assert_failed else Out_of_bounds)
      else Inr (overwrite (nat w) (merge_range less_at src s1t s2t) dst))"

definition parallel_merge ::
    "(nat \<Rightarrow> nat \<Rightarrow> bool) \<Rightarrow> nat list \<Rightarrow> nat list \<Rightarrow> segment \<Rightarrow> segment \<Rightarrow> nat \<Rightarrow> (nat list \<times> segment) result" where
  "parallel_merge less_at src dst s1 s2 nt =
     (if nt = 0 then Inl Out_of_bounds else
      let (s1, s2) = (if seg_len s2 > seg_len s1 then (s2, s1) else (s1, s2));
          s1s = split_first s1 nt;
          s2s = split_second less_at src s1 s2 nt;
          seg = (min (fst s1) (fst s2), max (snd s1) (snd s2));
          sws = (\<lambda>t. int (fst seg) + sum_list (map (\<lambda>u. seg_diff (s1s u) + seg_diff (s2s u)) [0..<t])) in
      if sws nt \<noteq> int (snd seg) then Inl Assert_failed
      else map_sum id (\<lambda>dst. (dst, seg))
        (fold_result (\<lambda>t. merge_thread less_at src (s1s t) (s2s t) (sws t)) [0..<nt] dst))"

definition merge_step ::
    "(nat \<Rightarrow> nat \<Rightarrow> bool) \<Rightarrow> nat \<Rightarrow> nat \<Rightarrow> nat list \<Rightarrow> nat \<Rightarrow> segment list \<times> nat list \<Rightarrow> (segment list \<times> nat list) result" where
  "merge_step less_at nt nseg permA s st =
     (case st of (segs, permB) \<Rightarrow>
        if s + 1 = nseg then
          Inr (segs, overwrite (fst (segs ! s)) (subrange (fst (segs ! s)) (seg_len (segs ! s)) permA) permB)
        else
          let sub_nt = (if even nseg then nt else nt - 1);
              sub_nseg1 = nseg div 2;
              t0 = s * sub_nt div sub_nseg1;
              t1 = (s + 1) * sub_nt div sub_nseg1 in
          bind_result (parallel_merge less_at permA permB (segs ! s) (segs ! (s + 1)) (t1 - t0)) (\<lambda>(permB, seg).
            Inr (segs[s := seg], permB)))"

text \<open>The rounds of merges; the two tables change roles after each.\<close>

function merge_rounds ::
    "(nat \<Rightarrow> nat \<Rightarrow> bool) \<Rightarrow> nat \<Rightarrow> nat \<Rightarrow> segment list \<Rightarrow> nat list \<Rightarrow> nat list \<Rightarrow> nat list result" where
  "merge_rounds less_at nt nseg segs permA permB =
     (if nseg > 1 then
        case fold_result (merge_step less_at nt nseg permA) (map (\<lambda>i. 2 * i) [0..<(nseg + 1) div 2]) (segs, permB) of
          Inl e \<Rightarrow> Inl e
        | Inr (segs, permB) \<Rightarrow>
            merge_rounds less_at nt ((nseg + 1) div 2)
              (fold (\<lambda>i segs. segs[i := segs ! (2 * i)]) [0..<(nseg + 1) div 2] segs) permB permA
      else Inr permA)"
  by auto
termination by (relation "measure (\<lambda>(_, _, nseg, _). nseg)") auto

declare merge_rounds.simps [simp del]

definition fvec_argsort_parallel :: "std_sort \<Rightarrow> nat \<Rightarrow> ('d :: linorder) list \<Rightarrow> nat list result" where
  "fvec_argsort_parallel std_sort nt vals =
     (let n = length vals;
          segs = map (\<lambda>t. (t * n div nt, (t + 1) * n div nt)) [0..<nt];
          permA = fold (\<lambda>seg perm. overwrite (fst seg) (std_sort (argsort_less vals) (subrange (fst seg) (seg_len seg) perm)) perm)
            segs [0..<n]
      in merge_rounds (argsort_less vals) nt nt segs permA (replicate n 0))"

section \<open>Bucket sort\<close>

definition count_val :: "nat list \<Rightarrow> nat \<Rightarrow> nat \<Rightarrow> nat list \<Rightarrow> nat list result" where
  "count_val vals vmax i lims =
     (if \<not> vals ! i < vmax then Inl (Throw ''vals[i] < vmax'')
      else Inr (lims[vals ! i + 1 := lims ! (vals ! i + 1) + 1]))"

definition cumulate :: "nat \<Rightarrow> nat list \<Rightarrow> nat list" where
  "cumulate vmax lims = fold (\<lambda>i lims. lims[i + 1 := lims ! (i + 1) + lims ! i]) [0..<vmax] lims"

definition place :: "nat list \<Rightarrow> nat \<Rightarrow> nat list \<times> nat list \<Rightarrow> nat list \<times> nat list" where
  "place vals i st =
     (case st of (perm, lims) \<Rightarrow> (perm[lims ! (vals ! i) := i], lims[vals ! i := lims ! (vals ! i) + 1]))"

definition shift_back :: "nat \<Rightarrow> nat list \<Rightarrow> nat list" where
  "shift_back vmax lims = (fold (\<lambda>i lims. lims[i := lims ! (i - 1)]) (rev [1..<vmax + 1]) lims)[0 := 0]"

definition bucket_sort_ref :: "nat list \<Rightarrow> nat \<Rightarrow> nat list \<Rightarrow> (nat list \<times> nat list) result" where
  "bucket_sort_ref vals vmax perm =
     bind_result (fold_result (count_val vals vmax) [0..<length vals] (replicate (vmax + 1) 0)) (\<lambda>lims.
       let lims = cumulate vmax lims in
       if lims ! vmax \<noteq> length vals then Inl (Throw ''lims[vmax] == nval'')
       else
         let (perm, lims) = fold (place vals) [0..<length vals] (perm, lims) in
         Inr (shift_back vmax lims, perm))"

text \<open>
  The parallel version: \<open>order\<close> is the order in which the threads enter the critical section where
  each reserves its places. A histogram has \<open>vmax + 1\<close> entries.
\<close>

definition rank_range :: "nat \<Rightarrow> nat \<Rightarrow> nat \<Rightarrow> nat list" where
  "rank_range nval nt rank = [nval * rank div nt..<nval * (rank + 1) div nt]"

definition local_hist :: "nat list \<Rightarrow> nat \<Rightarrow> nat list \<Rightarrow> nat list result" where
  "local_hist vals vmax is =
     fold_result (\<lambda>i h. if vals ! i \<le> vmax then Inr (h[vals ! i := h ! (vals ! i) + 1]) else Inl Out_of_bounds)
       is (replicate (vmax + 1) 0)"

definition add_hist :: "nat \<Rightarrow> nat list \<Rightarrow> nat list \<Rightarrow> nat list" where
  "add_hist vmax h lims = fold (\<lambda>i lims. lims[i + 1 := lims ! (i + 1) + h ! i]) [0..<vmax] lims"

definition reserve :: "nat \<Rightarrow> nat \<Rightarrow> nat list list \<times> nat list \<Rightarrow> nat list list \<times> nat list" where
  "reserve vmax rank st =
     (case st of (hs, lims) \<Rightarrow>
        fold (\<lambda>i (hs, lims). (hs[rank := (hs ! rank)[i := lims ! i]], lims[i := lims ! i + hs ! rank ! i])) [0..<vmax] (hs, lims))"

definition bucket_sort_parallel :: "nat \<Rightarrow> nat list \<Rightarrow> nat list \<Rightarrow> nat \<Rightarrow> nat list \<Rightarrow> (nat list \<times> nat list) result" where
  "bucket_sort_parallel nt order vals vmax perm =
     bind_result (fold_result (\<lambda>rank hs. bind_result (local_hist vals vmax (rank_range (length vals) nt rank)) (\<lambda>h. Inr (hs @ [h])))
       [0..<nt] []) (\<lambda>hs.
     let lims = cumulate vmax (fold (add_hist vmax) hs (replicate (vmax + 1) 0)) in
     if lims ! vmax \<noteq> length vals then Inl (Throw ''lims[vmax] == nval'')
     else
       let (starts, lims) = fold (reserve vmax) order (hs, lims);
           perm = fold (\<lambda>rank perm. fst (fold (place vals) (rank_range (length vals) nt rank) (perm, starts ! rank))) [0..<nt] perm
       in Inr (shift_back vmax lims, perm))"

definition bucket_sort_nt :: "nat list \<Rightarrow> nat \<Rightarrow> nat list \<Rightarrow> nat \<Rightarrow> nat list \<Rightarrow> (nat list \<times> nat list) result" where
  "bucket_sort_nt vals vmax perm nt order =
     (if nt = 0 then bucket_sort_ref vals vmax perm else bucket_sort_parallel nt order vals vmax perm)"

section \<open>In-place bucket sort of a matrix\<close>

text \<open>
  The loop that follows the cycles: \<open>row = -1\<close> starts a cycle and leaves a hole. \<open>asserts\<close> tells
  whether \<open>assert\<close> is compiled in.
\<close>

record cycle_state =
  cy_vals :: "int list"
  cy_ptrs :: "nat list"
  cy_row :: int
  cy_bucket :: nat
  cy_init :: nat

fun next_open :: "nat list \<Rightarrow> nat list \<Rightarrow> nat list \<Rightarrow> nat \<Rightarrow> nat" where
  "next_open ptrs lims [] nbucket = nbucket"
| "next_open ptrs lims (b # bs) nbucket = (if ptrs ! b < lims ! (b + 1) then b else next_open ptrs lims bs nbucket)"

definition cycle_step :: "bool \<Rightarrow> nat \<Rightarrow> nat \<Rightarrow> nat list \<Rightarrow> cycle_state \<Rightarrow> cycle_state + cycle_state result" where
  "cycle_step asserts ncol nbucket lims st =
     (let idx = cy_ptrs st ! cy_bucket st;
          ptrs = (if cy_row st \<ge> 0 then (cy_ptrs st)[cy_bucket st := idx + 1] else cy_ptrs st) in
      if asserts \<and> \<not> idx < lims ! (cy_bucket st + 1) then Inr (Inl Assert_failed)
      else
        let next_bucket_no = cy_vals st ! idx;
            vals = (cy_vals st)[idx := cy_row st] in
        if next_bucket_no \<noteq> -1 then
          Inl (st\<lparr>cy_vals := vals, cy_ptrs := ptrs, cy_row := int (idx div ncol), cy_bucket := nat next_bucket_no\<rparr>)
        else
          let init = next_open ptrs lims [cy_init st..<nbucket] nbucket in
          if init = nbucket then Inr (Inr (st\<lparr>cy_vals := vals, cy_ptrs := ptrs, cy_init := init\<rparr>))
          else Inl (st\<lparr>cy_vals := vals, cy_ptrs := ptrs, cy_row := -1, cy_bucket := init, cy_init := init\<rparr>))"

definition count_row :: "int list \<Rightarrow> nat \<Rightarrow> nat \<Rightarrow> nat list \<Rightarrow> nat list result" where
  "count_row vals nbucket i lims =
     (if \<not> vals ! i < int nbucket then Inl (Throw ''vals[i] < nbucket'')
      else if vals ! i < -1 then Inl Out_of_bounds
      else Inr (lims[nat (vals ! i + 1) := lims ! nat (vals ! i + 1) + 1]))"

definition bucket_sort_inplace_ref ::
    "bool \<Rightarrow> nat \<Rightarrow> nat \<Rightarrow> int list \<Rightarrow> nat \<Rightarrow> (nat list \<times> int list) result option" where
  "bucket_sort_inplace_ref asserts nrow ncol vals nbucket =
     (let nval = nrow * ncol in
      if \<not> nbucket < nval then Some (Inl (Throw ''nbucket < nval''))
      else case fold_result (count_row vals nbucket) [0..<nval] (replicate (nbucket + 1) 0) of
        Inl e \<Rightarrow> Some (Inl e)
      | Inr lims \<Rightarrow>
          let lims = cumulate nbucket lims in
          if lims ! nbucket \<noteq> nval then Some (Inl (Throw ''lims[nbucket] == nval''))
          else
            map_option (\<lambda>r. bind_result r (\<lambda>st.
                if asserts \<and> (\<exists>i \<in> set [0..<nbucket]. cy_ptrs st ! i \<noteq> lims ! (i + 1)) then Inl Assert_failed
                else Inr (lims, cy_vals st)))
              (iterate (cycle_step asserts ncol nbucket lims)
                \<lparr>cy_vals = vals, cy_ptrs = take nbucket lims, cy_row = -1, cy_bucket = 0, cy_init = 0\<rparr>))"

end
