(* ===== verification/Bucket_Sort_Correct.thy ===== *)
theory Bucket_Sort_Correct
  imports Bucket_Sort
begin

text \<open>
  The bucket sorts: the reference version is a stable counting sort; the parallel version gives every bucket
  the same indices, in an order that depends on the order in which the threads reserve their places.
\<close>

section \<open>Limits\<close>

text \<open>\<open>lims\<close> are the bucket starts.\<close>

definition true_lims :: "(nat \<Rightarrow> nat) \<Rightarrow> nat \<Rightarrow> nat \<Rightarrow> nat list \<Rightarrow> bool" where
  "true_lims key n vmax lims \<longleftrightarrow> length lims = Suc vmax \<and> (\<forall>l \<le> vmax. lims ! l = bucket_start key n l)"

definition counted :: "(nat \<Rightarrow> nat) \<Rightarrow> nat \<Rightarrow> nat \<Rightarrow> nat list \<Rightarrow> bool" where
  "counted key n vmax lims \<longleftrightarrow> length lims = Suc vmax \<and> lims ! 0 = 0 \<and> (\<forall>l < vmax. lims ! Suc l = length (keyed key n l))"

lemma count_val_loop:
  assumes "\<forall>i < n. vals ! i < vmax"
  shows "\<exists>lims. fold_result (count_val vals vmax) [0..<n] (replicate (vmax + 1) 0) = Inr lims \<and> counted ((!) vals) n vmax lims"
  using assms
proof (induction n)
  case (Suc n)
  then obtain lims where l: "fold_result (count_val vals vmax) [0..<n] (replicate (vmax + 1) 0) = Inr lims"
    "counted ((!) vals) n vmax lims" by auto
  have "counted ((!) vals) (Suc n) vmax (lims[vals ! n + 1 := lims ! (vals ! n + 1) + 1])"
    using l(2) Suc.prems by (auto simp: counted_def keyed_Suc nth_list_update)
  then show ?case using l(1) Suc.prems by (simp add: fold_result_append count_val_def [of _ _ n])
qed (simp add: counted_def)

lemma cumulate_loop:
  assumes "counted key n vmax lims"
  shows "true_lims key n vmax (cumulate vmax lims)"
proof -
  let ?f = "\<lambda>m. fold (\<lambda>i lims. lims[i + 1 := lims ! (i + 1) + lims ! i]) [0..<m] lims"
  have "m \<le> vmax \<longrightarrow> length (?f m) = Suc vmax \<and> (\<forall>l \<le> m. ?f m ! l = bucket_start key n l)
      \<and> (\<forall>l. m \<le> l \<longrightarrow> l < vmax \<longrightarrow> ?f m ! Suc l = length (keyed key n l))" for m
  proof (induction m)
    case (Suc m)
    then show ?case by (auto simp: nth_list_update bucket_start_Suc le_Suc_eq add.commute)
  qed (use assms in \<open>simp add: counted_def\<close>)
  from this [of vmax] show ?thesis by (simp add: true_lims_def cumulate_def)
qed

lemma shift_back_nth:
  assumes "length lims = Suc vmax" "i \<le> vmax"
  shows "shift_back vmax lims ! i = (if i = 0 then 0 else lims ! (i - 1))" "length (shift_back vmax lims) = Suc vmax"
proof -
  let ?f = "\<lambda>i lims. lims[i := lims ! (i - 1)]"
  have "length (fold ?f (rev [1..<m + 1]) lims) = length lims
      \<and> (\<forall>i. 1 \<le> i \<longrightarrow> i \<le> m \<longrightarrow> fold ?f (rev [1..<m + 1]) lims ! i = lims ! (i - 1))" if "m < length lims" for m and lims :: "nat list"
    using that
  proof (induction m arbitrary: lims)
    case (Suc m)
    let ?l = "lims[Suc m := lims ! m]"
    have e: "rev [1..<Suc m + 1] = Suc m # rev [1..<m + 1]" by simp
    have IH: "length (fold ?f (rev [1..<m + 1]) ?l) = length ?l"
      "\<forall>i. 1 \<le> i \<longrightarrow> i \<le> m \<longrightarrow> fold ?f (rev [1..<m + 1]) ?l ! i = ?l ! (i - 1)" using Suc.IH [of ?l] Suc.prems by auto
    have top: "fold ?f (rev [1..<m + 1]) ?l ! Suc m = ?l ! Suc m"
    proof -
      have "fold ?f js xs ! Suc m = xs ! Suc m" if "Suc m \<notin> set js" for js and xs :: "nat list"
        using that by (induction js arbitrary: xs) auto
      then show ?thesis by simp
    qed
    show ?case unfolding e using IH top Suc.prems by (auto simp: le_Suc_eq)
  qed simp
  from this [of vmax lims] show "shift_back vmax lims ! i = (if i = 0 then 0 else lims ! (i - 1))" "length (shift_back vmax lims) = Suc vmax"
    using assms by (auto simp: shift_back_def)
qed

lemma shift_back_true:
  assumes "length lims = Suc vmax" "\<forall>l < vmax. lims ! l = bucket_start key n (Suc l)"
  shows "true_lims key n vmax (shift_back vmax lims)"
  unfolding true_lims_def
proof (intro conjI allI impI)
  show "length (shift_back vmax lims) = Suc vmax" using shift_back_nth(2) [OF assms(1), of 0] by simp
  fix l assume "l \<le> vmax"
  then show "shift_back vmax lims ! l = bucket_start key n l"
    using shift_back_nth(1) [OF assms(1), of l] assms(2) by (cases l) auto
qed

section \<open>The reference version\<close>

lemma place_loop:
  assumes "true_lims ((!) vals) n vmax lims" "\<forall>i < n. vals ! i < vmax" "length perm = n" "i \<le> n"
  shows "sorted_up_to ((!) vals) n 0 vmax i (fold (place vals) [0..<i] (perm, lims))"
  using assms(4)
proof (induction i)
  case 0
  show ?case using assms(1,3) by (simp add: sorted_up_to_def true_lims_def)
next
  case (Suc i)
  obtain p o' where st: "fold (place vals) [0..<i] (perm, lims) = (p, o')" by (metis surj_pair)
  with Suc have "sorted_up_to ((!) vals) n 0 vmax i (p, o')" by simp
  from sorted_up_to_step [OF this assms(2)] Suc.prems st show ?case by (simp add: place_def [of _ i])
qed

lemma bucket_sort_ref_correct:
  assumes "\<forall>i < length vals. vals ! i < vmax" "length perm = length vals"
  shows "\<exists>lims perm'. bucket_sort_ref vals vmax perm = Inr (lims, perm') \<and> true_lims ((!) vals) (length vals) vmax lims
    \<and> length perm' = length vals
    \<and> (\<forall>l < vmax. map ((!) perm') [lims ! l..<lims ! Suc l] = keyed ((!) vals) (length vals) l)"
proof -
  let ?n = "length vals" let ?key = "(!) vals"
  from count_val_loop [OF assms(1)] obtain c where c: "fold_result (count_val vals vmax) [0..<?n] (replicate (vmax + 1) 0) = Inr c"
    "counted ?key ?n vmax c" by blast
  let ?l = "cumulate vmax c"
  note t = cumulate_loop [OF c(2)]
  have n: "?l ! vmax = ?n" using t bucket_start_total [OF assms(1)] by (simp add: true_lims_def)
  obtain p o' where st: "fold (place vals) [0..<?n] (perm, ?l) = (p, o')" by (metis surj_pair)
  with place_loop [OF t assms order_refl] have s: "sorted_up_to ?key ?n 0 vmax ?n (p, o')" by simp
  have so: "length p = ?n" "length o' = Suc vmax" "\<forall>l < vmax. o' ! l = bucket_start ?key ?n (Suc l)"
    and places: "\<And>l j. l < vmax \<Longrightarrow> j < length (keyed ?key ?n l) \<Longrightarrow> p ! (bucket_start ?key ?n l + j) = keyed ?key ?n l ! j"
    using s by (simp_all add: sorted_up_to_def bucket_start_Suc)
  note t' = shift_back_true [OF so(2,3)]
  have "map ((!) p) [shift_back vmax o' ! l..<shift_back vmax o' ! Suc l] = keyed ?key ?n l" if "l < vmax" for l
    using t' that places by (intro nth_equalityI) (simp_all add: true_lims_def bucket_start_Suc)
  moreover have "bucket_sort_ref vals vmax perm = Inr (shift_back vmax o', p)"
    using c(1) n st by (simp add: bucket_sort_ref_def Let_def)
  ultimately show ?thesis using t' so(1) by blast
qed

section \<open>The parallel version\<close>

text \<open>The indices of bucket \<open>l\<close> that thread \<open>r\<close> handles.\<close>

definition piece :: "nat list \<Rightarrow> nat \<Rightarrow> nat \<Rightarrow> nat \<Rightarrow> nat list" where
  "piece vals nt l r = filter (\<lambda>i. vals ! i = l) (rank_range (length vals) nt r)"

lemma ranks_cover:
  assumes "0 < nt"
  shows "concat (map (rank_range n nt) [0..<nt]) = [0..<n]"
proof -
  have "concat (map (rank_range n nt) [0..<m]) = [0..<n * m div nt]" for m
  proof (induction m)
    case (Suc m)
    have "n * m div nt \<le> n * Suc m div nt" by (intro div_le_mono) simp
    then have "[0..<n * Suc m div nt] = [0..<n * m div nt] @ [n * m div nt..<n * Suc m div nt]"
      by (metis le0 le_Suc_ex upt_add_eq_append)
    then show ?case using Suc by (simp add: rank_range_def)
  qed simp
  from this [of nt] show ?thesis using assms by simp
qed

lemma rank_range_less: "0 < nt \<Longrightarrow> r < nt \<Longrightarrow> i \<in> set (rank_range n nt r) \<Longrightarrow> i < n"
  using ranks_cover [of nt n, THEN arg_cong [of _ _ set]] by auto

lemma pieces_cover:
  assumes "0 < nt"
  shows "concat (map (piece vals nt l) [0..<nt]) = keyed ((!) vals) (length vals) l"
proof -
  have "concat (map (piece vals nt l) [0..<nt]) = filter (\<lambda>i. vals ! i = l) (concat (map (rank_range (length vals) nt) [0..<nt]))"
    by (simp add: piece_def [abs_def] filter_concat comp_def)
  then show ?thesis by (simp only: ranks_cover [OF assms]) (simp add: keyed_def)
qed

lemma local_hist_loop:
  assumes "\<forall>i \<in> set is. vals ! i < vmax"
  shows "\<exists>h. local_hist vals vmax is = Inr h \<and> length h = Suc vmax \<and> (\<forall>l \<le> vmax. h ! l = length (filter (\<lambda>i. vals ! i = l) is))"
  using assms
proof (induction "is" rule: rev_induct)
  case (snoc i "is")
  then obtain h where h: "local_hist vals vmax is = Inr h" "length h = Suc vmax"
    "\<forall>l \<le> vmax. h ! l = length (filter (\<lambda>i. vals ! i = l) is)" by auto
  have "local_hist vals vmax (is @ [i]) = Inr (h[vals ! i := h ! (vals ! i) + 1])"
    using h(1) snoc.prems by (simp add: local_hist_def fold_result_append)
  then show ?case using h(2,3) snoc.prems by (auto simp: nth_list_update)
qed (simp add: local_hist_def del: replicate_Suc)

lemma local_hists:
  assumes "\<forall>i < length vals. vals ! i < vmax" "0 < nt" "m \<le> nt"
  shows "\<exists>hs. fold_result (\<lambda>rank hs. bind_result (local_hist vals vmax (rank_range (length vals) nt rank)) (\<lambda>h. Inr (hs @ [h]))) [0..<m] [] = Inr hs
    \<and> length hs = m \<and> (\<forall>r < m. length (hs ! r) = Suc vmax \<and> (\<forall>l \<le> vmax. hs ! r ! l = length (piece vals nt l r)))"
  using assms(3)
proof (induction m)
  case (Suc m)
  then obtain hs where hs: "fold_result (\<lambda>rank hs. bind_result (local_hist vals vmax (rank_range (length vals) nt rank)) (\<lambda>h. Inr (hs @ [h]))) [0..<m] [] = Inr hs"
    "length hs = m" "\<forall>r < m. length (hs ! r) = Suc vmax \<and> (\<forall>l \<le> vmax. hs ! r ! l = length (piece vals nt l r))" by auto
  have "\<forall>i \<in> set (rank_range (length vals) nt m). vals ! i < vmax"
    using rank_range_less [OF assms(2), of m _ "length vals"] Suc.prems assms(1) by auto
  from local_hist_loop [OF this] obtain h where h: "local_hist vals vmax (rank_range (length vals) nt m) = Inr h"
    "length h = Suc vmax" "\<forall>l \<le> vmax. h ! l = length (piece vals nt l m)" unfolding piece_def by blast
  show ?case using hs h by (auto simp: fold_result_append nth_append less_Suc_eq)
qed simp

lemma add_hist_nth:
  assumes "length lims = Suc vmax"
  shows "length (add_hist vmax h lims) = Suc vmax" "add_hist vmax h lims ! 0 = lims ! 0"
    "l < vmax \<Longrightarrow> add_hist vmax h lims ! Suc l = lims ! Suc l + h ! l"
proof -
  let ?f = "\<lambda>m. fold (\<lambda>i lims. lims[i + 1 := lims ! (i + 1) + h ! i]) [0..<m] lims"
  have f: "length (?f m) = Suc vmax \<and> ?f m ! 0 = lims ! 0 \<and> (\<forall>l < vmax. ?f m ! Suc l = lims ! Suc l + (if l < m then h ! l else 0))"
    if "m \<le> vmax" for m
    using that by (induction m) (auto simp: assms nth_list_update)
  from f [of vmax] show "length (add_hist vmax h lims) = Suc vmax" "add_hist vmax h lims ! 0 = lims ! 0"
    "l < vmax \<Longrightarrow> add_hist vmax h lims ! Suc l = lims ! Suc l + h ! l" by (simp_all add: add_hist_def)
qed

lemma add_hists:
  "length (fold (add_hist vmax) hs (replicate (vmax + 1) 0)) = Suc vmax
    \<and> fold (add_hist vmax) hs (replicate (vmax + 1) 0) ! 0 = 0
    \<and> (\<forall>l < vmax. fold (add_hist vmax) hs (replicate (vmax + 1) 0) ! Suc l = sum_list (map (\<lambda>h. h ! l) hs))"
proof (induction hs rule: rev_induct)
  case (snoc h hs)
  then show ?case using add_hist_nth [of "fold (add_hist vmax) hs (replicate (vmax + 1) 0)" vmax] by simp
qed simp

lemma hists_counted:
  assumes "0 < nt" "length hs = nt" "\<forall>r < nt. \<forall>l \<le> vmax. hs ! r ! l = length (piece vals nt l r)"
  shows "counted ((!) vals) (length vals) vmax (fold (add_hist vmax) hs (replicate (vmax + 1) 0))"
proof -
  have "sum_list (map (\<lambda>h. h ! l) hs) = length (keyed ((!) vals) (length vals) l)" if "l < vmax" for l
  proof -
    have "map (\<lambda>h. h ! l) hs = map (length \<circ> piece vals nt l) [0..<nt]"
      using assms(2,3) that by (intro nth_equalityI) auto
    then show ?thesis using arg_cong [OF pieces_cover [OF assms(1), of vals l], of length]
      by (simp add: length_concat comp_def)
  qed
  then show ?thesis using add_hists [of vmax hs] by (simp add: counted_def)
qed

text \<open>How many places of bucket \<open>l\<close> the first \<open>p\<close> threads of the order have reserved.\<close>

definition reserved :: "nat list \<Rightarrow> nat \<Rightarrow> nat list \<Rightarrow> nat \<Rightarrow> nat \<Rightarrow> nat" where
  "reserved vals nt order l p = length (concat (map (piece vals nt l) (take p order)))"

lemma reserved_Suc: "p < length order \<Longrightarrow>
    reserved vals nt order l (Suc p) = reserved vals nt order l p + length (piece vals nt l (order ! p))"
  by (simp add: reserved_def take_Suc_conv_app_nth)

lemma reserved_mono: "p \<le> q \<Longrightarrow> q \<le> length order \<Longrightarrow> reserved vals nt order l p \<le> reserved vals nt order l q"
  by (induction q rule: dec_induct) (auto simp: reserved_Suc)

lemma reserved_all:
  assumes "0 < nt" "mset order = mset [0..<nt]"
  shows "reserved vals nt order l nt = length (keyed ((!) vals) (length vals) l)"
proof -
  have "length order = nt" using assms(2) by (metis length_upt diff_zero size_mset)
  then have "reserved vals nt order l nt = sum_list (map (length \<circ> piece vals nt l) order)"
    by (simp add: reserved_def length_concat comp_def)
  also have "\<dots> = sum_list (map (length \<circ> piece vals nt l) [0..<nt])"
    using assms(2) by (metis mset_map sum_mset_sum_list)
  also have "\<dots> = length (concat (map (piece vals nt l) [0..<nt]))" by (simp add: length_concat comp_def)
  finally show ?thesis by (simp only: pieces_cover [OF assms(1)])
qed

lemma reserve_nth:
  assumes "length lims = Suc vmax" "r < length hs" "length (hs ! r) = Suc vmax" "reserve vmax r (hs, lims) = (hs', lims')"
  shows "length lims' = Suc vmax" "length hs' = length hs" "length (hs' ! r) = Suc vmax" "q \<noteq> r \<Longrightarrow> hs' ! q = hs ! q"
    "l < vmax \<Longrightarrow> hs' ! r ! l = lims ! l" "l < vmax \<Longrightarrow> lims' ! l = lims ! l + hs ! r ! l"
proof -
  let ?f = "\<lambda>m. fold (\<lambda>i (hs, lims). (hs[r := (hs ! r)[i := lims ! i]], lims[i := lims ! i + hs ! r ! i])) [0..<m] (hs, lims)"
  have f: "case ?f m of (hs', lims') \<Rightarrow> length lims' = Suc vmax \<and> length hs' = length hs \<and> length (hs' ! r) = Suc vmax
      \<and> (\<forall>q. q \<noteq> r \<longrightarrow> hs' ! q = hs ! q)
      \<and> (\<forall>l < vmax. hs' ! r ! l = (if l < m then lims ! l else hs ! r ! l) \<and> lims' ! l = lims ! l + (if l < m then hs ! r ! l else 0))"
    if "m \<le> vmax" for m
    using that
  proof (induction m)
    case (Suc m)
    obtain h1 l1 where e: "?f m = (h1, l1)" by (rule prod.exhaust)
    have IH: "length l1 = Suc vmax" "length h1 = length hs" "length (h1 ! r) = Suc vmax" "\<forall>q. q \<noteq> r \<longrightarrow> h1 ! q = hs ! q"
      "\<forall>l < vmax. h1 ! r ! l = (if l < m then lims ! l else hs ! r ! l) \<and> l1 ! l = lims ! l + (if l < m then hs ! r ! l else 0)"
      using Suc e by simp_all
    have m: "l1 ! m = lims ! m" "h1 ! r ! m = hs ! r ! m" using IH(5) Suc.prems by simp_all
    have "?f (Suc m) = (h1[r := (h1 ! r)[m := lims ! m]], l1[m := lims ! m + hs ! r ! m])" using e m by simp
    then show ?case using IH assms(2) Suc.prems by (simp add: nth_list_update)
  qed (use assms in simp)
  show "length lims' = Suc vmax" "length hs' = length hs" "length (hs' ! r) = Suc vmax" "q \<noteq> r \<Longrightarrow> hs' ! q = hs ! q"
    "l < vmax \<Longrightarrow> hs' ! r ! l = lims ! l" "l < vmax \<Longrightarrow> lims' ! l = lims ! l + hs ! r ! l"
    using f [of vmax] assms(4) by (simp_all add: reserve_def)
qed

lemma reserve_loop:
  assumes "true_lims ((!) vals) (length vals) vmax lims" "distinct order" "set order = {0..<nt}" "length hs = nt"
    and hs: "\<forall>r < nt. length (hs ! r) = Suc vmax \<and> (\<forall>l \<le> vmax. hs ! r ! l = length (piece vals nt l r))"
    and "p \<le> nt"
  shows "\<exists>starts lims'. fold (reserve vmax) (take p order) (hs, lims) = (starts, lims') \<and> length lims' = Suc vmax
    \<and> length starts = nt \<and> (\<forall>r < nt. length (starts ! r) = Suc vmax)
    \<and> (\<forall>l < vmax. lims' ! l = bucket_start ((!) vals) (length vals) l + reserved vals nt order l p)
    \<and> (\<forall>q. p \<le> q \<longrightarrow> q < nt \<longrightarrow> starts ! (order ! q) = hs ! (order ! q))
    \<and> (\<forall>q < p. \<forall>l < vmax. starts ! (order ! q) ! l = bucket_start ((!) vals) (length vals) l + reserved vals nt order l q)"
  using assms(6)
proof (induction p)
  case 0
  then show ?case using assms(1,4) hs by (simp add: true_lims_def reserved_def)
next
  case (Suc p)
  have lo: "length order = nt" using assms(2,3) by (metis card_atLeastLessThan diff_zero distinct_card)
  from Suc obtain starts lims' where IH: "fold (reserve vmax) (take p order) (hs, lims) = (starts, lims')" "length lims' = Suc vmax"
    "length starts = nt" "\<forall>r < nt. length (starts ! r) = Suc vmax"
    "\<forall>l < vmax. lims' ! l = bucket_start ((!) vals) (length vals) l + reserved vals nt order l p"
    "\<forall>q. p \<le> q \<longrightarrow> q < nt \<longrightarrow> starts ! (order ! q) = hs ! (order ! q)"
    "\<forall>q < p. \<forall>l < vmax. starts ! (order ! q) ! l = bucket_start ((!) vals) (length vals) l + reserved vals nt order l q" by auto
  let ?r = "order ! p"
  have r: "?r < nt" using assms(3) lo Suc.prems by (metis Suc_le_lessD atLeastLessThan_iff nth_mem)
  obtain s' l' where step: "reserve vmax ?r (starts, lims') = (s', l')" by (metis surj_pair)
  note st = reserve_nth [OF IH(2) _ _ step]
  have rl: "?r < length starts" "length (starts ! ?r) = Suc vmax" using r IH(3,4) by simp_all
  have other: "order ! q \<noteq> ?r" if "q \<noteq> p" "q < nt" for q
    using that Suc.prems assms(2) lo by (simp add: nth_eq_iff_index_eq)
  have e: "fold (reserve vmax) (take (Suc p) order) (hs, lims) = (s', l')"
    using IH(1) step lo Suc.prems by (simp add: take_Suc_conv_app_nth)
  have "l' ! l = bucket_start ((!) vals) (length vals) l + reserved vals nt order l (Suc p)" if "l < vmax" for l
    using st(6) [OF rl that] IH(5,6) hs r that lo Suc.prems by (simp add: reserved_Suc)
  moreover have "s' ! (order ! q) = hs ! (order ! q)" if "Suc p \<le> q" "q < nt" for q
    using st(4) [OF rl other [of q]] IH(6) that by simp
  moreover have "s' ! (order ! q) ! l = bucket_start ((!) vals) (length vals) l + reserved vals nt order l q" if "q < Suc p" "l < vmax" for q l
  proof (cases "q = p")
    case True
    then show ?thesis using st(5) [OF rl that(2)] IH(5) that(2) by simp
  next
    case False
    then show ?thesis using st(4) [OF rl other [of q]] IH(7) that Suc.prems by simp
  qed
  moreover have "length (s' ! r) = Suc vmax" if "r < nt" for r
    using st(3,4) [OF rl] IH(4) that by (cases "r = ?r") auto
  ultimately show ?case using e st(1,2) [OF rl] IH(3) by simp
qed

text \<open>One thread writes its indices of every bucket side by side, from its own start.\<close>

lemma place_list:
  fixes vals :: "nat list"
  defines "part \<equiv> \<lambda>is l. filter (\<lambda>i. vals ! i = l) is"
  assumes "\<forall>i \<in> set is. vals ! i < vmax" "vmax \<le> length offs"
    and "\<And>l j. l < vmax \<Longrightarrow> j < length (part is l) \<Longrightarrow> offs ! l + j < length perm"
    and "\<And>l m j k. l < vmax \<Longrightarrow> m < vmax \<Longrightarrow> l \<noteq> m \<Longrightarrow> j < length (part is l) \<Longrightarrow> k < length (part is m) \<Longrightarrow> offs ! l + j \<noteq> offs ! m + k"
    and "fold (place vals) is (perm, offs) = (perm', offs')"
  shows "length perm' = length perm \<and> length offs' = length offs \<and> (\<forall>l < vmax. offs' ! l = offs ! l + length (part is l))
    \<and> (\<forall>l < vmax. \<forall>j < length (part is l). perm' ! (offs ! l + j) = part is l ! j)
    \<and> (\<forall>q. (\<forall>l < vmax. \<forall>j < length (part is l). q \<noteq> offs ! l + j) \<longrightarrow> perm' ! q = perm ! q)"
  using assms(2-)
proof (induction "is" arbitrary: perm' offs' rule: rev_induct)
  case Nil
  then show ?case by (simp add: part_def)
next
  case (snoc i "is")
  let ?v = "vals ! i"
  obtain p1 o1 where 1: "fold (place vals) is (perm, offs) = (p1, o1)" by (rule prod.exhaust)
  have part: "part (is @ [i]) l = part is l @ (if ?v = l then [i] else [])" for l by (simp add: part_def)
  have mono: "j < length (part is l) \<Longrightarrow> j < length (part (is @ [i]) l)" for j l by (simp add: part)
  have IH: "length p1 = length perm" "length o1 = length offs" "\<forall>l < vmax. o1 ! l = offs ! l + length (part is l)"
    "\<forall>l < vmax. \<forall>j < length (part is l). p1 ! (offs ! l + j) = part is l ! j"
    "\<forall>q. (\<forall>l < vmax. \<forall>j < length (part is l). q \<noteq> offs ! l + j) \<longrightarrow> p1 ! q = perm ! q"
    using snoc.IH [OF _ snoc.prems(2) _ _ 1] snoc.prems(1,3,4) mono by auto
  have v: "?v < vmax" using snoc.prems(1) by simp
  define q where "q = offs ! ?v + length (part is ?v)"
  have e: "perm' = p1[q := i]" "offs' = o1[?v := q + 1]"
    using snoc.prems(5) 1 IH(3) v by (simp_all add: place_def [of _ i] q_def)
  have vl: "length (part is ?v) < length (part (is @ [i]) ?v)" by (simp add: part)
  have qb: "q < length perm" unfolding q_def by (rule snoc.prems(3) [OF v vl])
  have ne: "offs ! l + j \<noteq> q" if "l < vmax" "j < length (part is l)" for l j
  proof (cases "l = ?v")
    case False
    show ?thesis unfolding q_def by (rule snoc.prems(4) [OF that(1) v False mono [OF that(2)] vl])
  qed (use that in \<open>simp add: q_def\<close>)
  have "perm' ! (offs ! l + j) = part (is @ [i]) l ! j" if l: "l < vmax" "j < length (part (is @ [i]) l)" for l j
  proof (cases "j < length (part is l)")
    case True
    then show ?thesis using IH(4) ne [OF l(1) True] l(1) by (simp add: e part nth_append)
  next
    case False
    then have "l = ?v" "j = length (part is l)" using l(2) by (auto simp: part split: if_splits)
    then show ?thesis using qb IH(1) by (simp add: e part q_def)
  qed
  moreover have "perm' ! k = perm ! k" if k: "\<forall>l < vmax. \<forall>j < length (part (is @ [i]) l). k \<noteq> offs ! l + j" for k
  proof -
    have "k \<noteq> q" using k v vl unfolding q_def by blast
    moreover have "p1 ! k = perm ! k" using IH(5) k mono by blast
    ultimately show ?thesis by (simp add: e)
  qed
  moreover have "offs' ! l = offs ! l + length (part (is @ [i]) l)" if "l < vmax" for l
    using IH(2,3) that v snoc.prems(2) by (simp add: e part q_def nth_list_update)
  ultimately show ?case using IH(1,2) by (simp add: e)
qed

text \<open>All threads.\<close>

lemma place_ranks:
  fixes vals order :: "nat list" and nt vmax :: nat
  defines "at p l j \<equiv> bucket_start ((!) vals) (length vals) l + reserved vals nt order l p + j"
  assumes v: "\<forall>i < length vals. vals ! i < vmax" and nt: "0 < nt" and od: "mset order = mset [0..<nt]"
    and st: "length starts = nt" "\<forall>r < nt. length (starts ! r) = Suc vmax"
      "\<forall>q < nt. \<forall>l < vmax. starts ! (order ! q) ! l = bucket_start ((!) vals) (length vals) l + reserved vals nt order l q"
    and perm: "length perm = length vals"
  defines "run m \<equiv> fold (\<lambda>rank perm. fst (fold (place vals) (rank_range (length vals) nt rank) (perm, starts ! rank))) [0..<m] perm"
  assumes "m \<le> nt"
  shows "length (run m) = length vals \<and> (\<forall>q < nt. order ! q < m \<longrightarrow> (\<forall>l < vmax. \<forall>j < length (piece vals nt l (order ! q)).
      run m ! at q l j = piece vals nt l (order ! q) ! j))"
  using assms(10)
proof (induction m)
  case 0
  then show ?case using perm by (simp add: run_def)
next
  case (Suc m)
  have lo: "length order = nt" using od by (metis length_upt diff_zero size_mset)
  have so: "set order = {0..<nt}" using mset_eq_setD [OF od] by simp
  have "m \<in> set order" using so Suc.prems by simp
  then obtain q0 where q0: "q0 < nt" "order ! q0 = m" using lo by (metis in_set_conv_nth)
  have IH: "length (run m) = length vals" "\<And>q l j. q < nt \<Longrightarrow> order ! q < m \<Longrightarrow> l < vmax \<Longrightarrow> j < length (piece vals nt l (order ! q)) \<Longrightarrow>
      run m ! at q l j = piece vals nt l (order ! q) ! j" using Suc by auto
  have inside: "reserved vals nt order l q + j < length (keyed ((!) vals) (length vals) l)"
    if "q < nt" "j < length (piece vals nt l (order ! q))" for q l j
  proof -
    have "reserved vals nt order l (Suc q) \<le> reserved vals nt order l nt" using that(1) lo by (intro reserved_mono) auto
    then show ?thesis using reserved_Suc [of q order vals nt l] that lo reserved_all [OF nt od, of vals l] by simp
  qed
  have bound: "at q l j < length vals" if "q < nt" "l < vmax" "j < length (piece vals nt l (order ! q))" for q l j
    using inside [OF that(1,3)] bucket_end_le [OF that(2) v] by (simp add: at_def)
  have apart: "at q l j \<noteq> at q' l' j'"
    if a: "q < nt" "j < length (piece vals nt l (order ! q))" "q' < nt" "j' < length (piece vals nt l' (order ! q'))" "(q, l) \<noteq> (q', l')"
    for q l j q' l' j'
  proof (cases "l = l'")
    case False
    from bucket_places_differ [OF this inside [OF a(1,2)] inside [OF a(3,4)]] show ?thesis by (simp add: at_def add.assoc)
  next
    case True
    then have "q < q' \<or> q' < q" using a(5) by auto
    then show ?thesis
    proof
      assume "q < q'"
      then have "reserved vals nt order l (Suc q) \<le> reserved vals nt order l q'" using a(3) lo by (intro reserved_mono) auto
      then show ?thesis using reserved_Suc [of q order vals nt l] a(1,2) lo True by (simp add: at_def)
    next
      assume "q' < q"
      then have "reserved vals nt order l (Suc q') \<le> reserved vals nt order l q" using a(1) lo by (intro reserved_mono) auto
      then show ?thesis using reserved_Suc [of q' order vals nt l] a(3,4) lo True by (simp add: at_def)
    qed
  qed
  let ?rr = "rank_range (length vals) nt m"
  obtain p2 o2 where f: "fold (place vals) ?rr (run m, starts ! m) = (p2, o2)" by (rule prod.exhaust)
  have pc: "filter (\<lambda>i. vals ! i = l) ?rr = piece vals nt l (order ! q0)" for l by (simp add: piece_def q0(2))
  have s0: "starts ! m ! l = bucket_start ((!) vals) (length vals) l + reserved vals nt order l q0" if "l < vmax" for l
    using st(3) q0 that by blast
  have "length p2 = length (run m) \<and> length o2 = length (starts ! m)
    \<and> (\<forall>l < vmax. o2 ! l = starts ! m ! l + length (filter (\<lambda>i. vals ! i = l) ?rr))
    \<and> (\<forall>l < vmax. \<forall>j < length (filter (\<lambda>i. vals ! i = l) ?rr). p2 ! (starts ! m ! l + j) = filter (\<lambda>i. vals ! i = l) ?rr ! j)
    \<and> (\<forall>q. (\<forall>l < vmax. \<forall>j < length (filter (\<lambda>i. vals ! i = l) ?rr). q \<noteq> starts ! m ! l + j) \<longrightarrow> p2 ! q = run m ! q)"
  proof (rule place_list [OF _ _ _ _ f])
    show "\<forall>i \<in> set ?rr. vals ! i < vmax" using rank_range_less [OF nt, of m _ "length vals"] Suc.prems v by auto
    show "vmax \<le> length (starts ! m)" using st(2) Suc.prems by simp
    show "starts ! m ! l + j < length (run m)" if "l < vmax" "j < length (filter (\<lambda>i. vals ! i = l) ?rr)" for l j
      using bound [OF q0(1) that(1)] that IH(1) s0 unfolding pc at_def by simp
    show "starts ! m ! l + j \<noteq> starts ! m ! l' + k"
      if "l < vmax" "l' < vmax" "l \<noteq> l'" "j < length (filter (\<lambda>i. vals ! i = l) ?rr)" "k < length (filter (\<lambda>i. vals ! i = l') ?rr)" for l l' j k
      using apart [OF q0(1) _ q0(1), of j l k l'] that s0 unfolding pc at_def by simp
  qed
  note pl = this [unfolded pc]
  have e: "run (Suc m) = p2" using f by (simp add: run_def)
  have "p2 ! at q l j = piece vals nt l (order ! q) ! j" if a: "q < nt" "order ! q < Suc m" "l < vmax" "j < length (piece vals nt l (order ! q))" for q l j
  proof (cases "q = q0")
    case True
    then have "p2 ! (starts ! m ! l + j) = piece vals nt l (order ! q) ! j" using pl a(3,4) by blast
    then show ?thesis using s0 [OF a(3)] True by (simp add: at_def)
  next
    case False
    have "distinct order" using od by (metis distinct_upt mset_eq_imp_distinct_iff)
    then have "order ! q \<noteq> m" using False q0 a(1) lo nth_eq_iff_index_eq by metis
    then have "order ! q < m" using a(2) by simp
    moreover have "at q l j \<noteq> starts ! m ! l' + k" if "l' < vmax" "k < length (piece vals nt l' (order ! q0))" for l' k
      using apart [OF a(1,4) q0(1) that(2)] False s0 [OF that(1)] by (simp add: at_def)
    then have "p2 ! at q l j = run m ! at q l j" using pl by blast
    ultimately show ?thesis using IH(2) a by simp
  qed
  then show ?case using e pl IH(1) by simp
qed

lemma bucket_sort_parallel_correct:
  assumes v: "\<forall>i < length vals. vals ! i < vmax" and "length perm = length vals" and nt: "0 < nt"
    and od: "mset order = mset [0..<nt]"
  shows "\<exists>lims perm'. bucket_sort_parallel nt order vals vmax perm = Inr (lims, perm') \<and> true_lims ((!) vals) (length vals) vmax lims
    \<and> length perm' = length vals
    \<and> (\<forall>l < vmax. map ((!) perm') [lims ! l..<lims ! Suc l] = concat (map (piece vals nt l) order))"
proof -
  let ?n = "length vals" let ?key = "(!) vals"
  have lo: "length order = nt" using od by (metis length_upt diff_zero size_mset)
  have so: "set order = {0..<nt}" using mset_eq_setD [OF od] by simp
  have dor: "distinct order" using od by (metis distinct_upt mset_eq_imp_distinct_iff)
  from local_hists [OF v nt order_refl] obtain hs where
    hs: "fold_result (\<lambda>rank hs. bind_result (local_hist vals vmax (rank_range ?n nt rank)) (\<lambda>h. Inr (hs @ [h]))) [0..<nt] [] = Inr hs"
    "length hs = nt" "\<forall>r < nt. length (hs ! r) = Suc vmax \<and> (\<forall>l \<le> vmax. hs ! r ! l = length (piece vals nt l r))" by blast
  let ?l = "cumulate vmax (fold (add_hist vmax) hs (replicate (vmax + 1) 0))"
  have "counted ?key ?n vmax (fold (add_hist vmax) hs (replicate (vmax + 1) 0))"
    using hs(3) by (intro hists_counted [OF nt hs(2)]) simp
  note t = cumulate_loop [OF this]
  have n: "?l ! vmax = ?n" using t bucket_start_total [OF v] by (simp add: true_lims_def)
  from reserve_loop [OF t dor so hs(2,3) order_refl] obtain starts lims' where
    r: "fold (reserve vmax) order (hs, ?l) = (starts, lims')" "length lims' = Suc vmax" "length starts = nt"
    "\<forall>r < nt. length (starts ! r) = Suc vmax"
    "\<forall>l < vmax. lims' ! l = bucket_start ?key ?n l + reserved vals nt order l nt"
    "\<forall>q < nt. \<forall>l < vmax. starts ! (order ! q) ! l = bucket_start ?key ?n l + reserved vals nt order l q"
    unfolding lo [symmetric] take_all_iff [THEN iffD2, OF order_refl] by blast
  define perm' where "perm' = fold (\<lambda>rank perm. fst (fold (place vals) (rank_range ?n nt rank) (perm, starts ! rank))) [0..<nt] perm"
  note pr = place_ranks [OF v nt od r(3,4,6) assms(2) order_refl, folded perm'_def]
  have "\<forall>l < vmax. lims' ! l = bucket_start ?key ?n (Suc l)" using r(5) reserved_all [OF nt od] by (simp add: bucket_start_Suc)
  note t' = shift_back_true [OF r(2) this]
  have front: "map ((!) perm') [bucket_start ?key ?n l..<bucket_start ?key ?n l + reserved vals nt order l q] =
      concat (map (piece vals nt l) (take q order))" if "l < vmax" "q \<le> nt" for l q
    using that(2)
  proof (induction q)
    case 0
    then show ?case by (simp add: reserved_def)
  next
    case (Suc q)
    let ?a = "bucket_start ?key ?n l + reserved vals nt order l q"
    have q: "order ! q < nt" using so lo Suc.prems by (metis Suc_le_lessD atLeastLessThan_iff nth_mem)
    have "bucket_start ?key ?n l + reserved vals nt order l (Suc q) = ?a + length (piece vals nt l (order ! q))"
      using reserved_Suc [of q order vals nt l] lo Suc.prems by simp
    then have "[bucket_start ?key ?n l..<bucket_start ?key ?n l + reserved vals nt order l (Suc q)] =
        [bucket_start ?key ?n l..<?a] @ [?a..<?a + length (piece vals nt l (order ! q))]"
      by (simp only: upt_add_eq_append [OF le_add1])
    moreover have "map ((!) perm') [?a..<?a + length (piece vals nt l (order ! q))] = piece vals nt l (order ! q)"
      using pr q that(1) Suc.prems by (intro nth_equalityI) auto
    ultimately show ?case using Suc lo by (simp add: take_Suc_conv_app_nth)
  qed
  have "map ((!) perm') [shift_back vmax lims' ! l..<shift_back vmax lims' ! Suc l] = concat (map (piece vals nt l) order)" if "l < vmax" for l
    using t' that front [OF that order_refl] reserved_all [OF nt od, of vals l] lo by (simp add: true_lims_def bucket_start_Suc)
  moreover have "bucket_sort_parallel nt order vals vmax perm = Inr (shift_back vmax lims', perm')"
    using hs(1) n r(1) by (simp add: bucket_sort_parallel_def Let_def perm'_def)
  ultimately show ?thesis using t' pr by blast
qed

section \<open>Properties\<close>

text \<open>
  C27. The reference bucket sort is a stable counting sort: bucket \<open>l\<close> of the permutation, between \<open>lims[l]\<close> and
  \<open>lims[l + 1]\<close>, holds the indices of the values \<open>l\<close> in increasing order.
\<close>

theorem bucket_sort_ref_stable:
  assumes "\<forall>v \<in> set vals. v < vmax" "length perm = length vals"
  shows "\<exists>lims perm'. bucket_sort_ref vals vmax perm = Inr (lims, perm') \<and> length perm' = length vals
    \<and> length lims = vmax + 1 \<and> lims ! 0 = 0 \<and> lims ! vmax = length vals
    \<and> (\<forall>l < vmax. map ((!) perm') [lims ! l..<lims ! (l + 1)] = filter (\<lambda>i. vals ! i = l) [0..<length vals])"
proof -
  have v: "\<forall>i < length vals. vals ! i < vmax" using assms(1) by simp
  from bucket_sort_ref_correct [OF this assms(2)] obtain lims perm' where
    "bucket_sort_ref vals vmax perm = Inr (lims, perm')" "true_lims ((!) vals) (length vals) vmax lims" "length perm' = length vals"
    "\<forall>l < vmax. map ((!) perm') [lims ! l..<lims ! Suc l] = keyed ((!) vals) (length vals) l" by blast
  then show ?thesis using bucket_start_total [OF v] by (simp add: true_lims_def keyed_def)
qed

theorem bucket_sort_ref_stable_witness:
  "\<exists>lims perm. bucket_sort_ref [2, 0, 2, 1] 3 [0, 0, 0, 0] = Inr (lims, perm) \<and> lims ! 3 = 4
    \<and> map ((!) perm) [lims ! 2..<lims ! 3] = [0, 2]"
proof -
  have f: "filter (\<lambda>i. [2, 0, 2, 1 :: nat] ! i = 2) [0..<length [2, 0, 2, 1 :: nat]] = [0, 2]" by code_simp
  from bucket_sort_ref_stable [of "[2, 0, 2, 1]" 3 "[0, 0, 0, 0]"] obtain lims perm where
    "bucket_sort_ref [2, 0, 2, 1] 3 [0, 0, 0, 0] = Inr (lims, perm)" "lims ! 3 = length [2, 0, 2, 1 :: nat]"
    and b: "\<forall>l < 3. map ((!) perm) [lims ! l..<lims ! (l + 1)] = filter (\<lambda>i. [2, 0, 2, 1] ! i = l) [0..<length [2, 0, 2, 1 :: nat]]"
    by auto
  moreover have "(2 :: nat) < 3" by simp
  from b [rule_format, OF this] have "map ((!) perm) [lims ! 2..<lims ! 3] = [0, 2]" unfolding f by simp
  ultimately show ?thesis by (intro exI [of _ lims] exI [of _ perm]) simp
qed

lemma mset_pieces:
  assumes "0 < nt" "mset order = mset [0..<nt]"
  shows "mset (concat (map (piece vals nt l) order)) = mset (keyed ((!) vals) (length vals) l)"
proof -
  have "mset (concat (map (piece vals nt l) order)) = sum_mset (image_mset (mset \<circ> piece vals nt l) (mset order))"
    by (simp add: mset_concat comp_def flip: sum_mset_sum_list)
  also have "\<dots> = mset (concat (map (piece vals nt l) [0..<nt]))"
    unfolding assms(2) by (simp add: mset_concat comp_def flip: sum_mset_sum_list)
  finally show ?thesis by (simp only: pieces_cover [OF assms(1)])
qed

lemma true_lims_unique: "true_lims key n vmax lims \<Longrightarrow> true_lims key n vmax lims' \<Longrightarrow> lims = lims'"
  by (rule nth_equalityI) (auto simp: true_lims_def)

text \<open>
  C28. The parallel bucket sort with any number of threads returns the same limits as the reference version
  and the same indices in every bucket. Their order is that in which the threads reserved
  their places; when this is the order of the ranks the permutation is the same.
\<close>

theorem bucket_sort_versions_agree:
  assumes "\<forall>v \<in> set vals. v < vmax" "length perm = length vals" "0 < nt" "mset order = mset [0..<nt]"
  shows "\<exists>lims p p'. bucket_sort_ref vals vmax perm = Inr (lims, p) \<and> bucket_sort_parallel nt order vals vmax perm = Inr (lims, p')
    \<and> (\<forall>l < vmax. mset (map ((!) p') [lims ! l..<lims ! (l + 1)]) = mset (map ((!) p) [lims ! l..<lims ! (l + 1)]))
    \<and> (order = [0..<nt] \<longrightarrow> p' = p)"
proof -
  let ?n = "length vals" let ?key = "(!) vals"
  have v: "\<forall>i < ?n. vals ! i < vmax" using assms(1) by simp
  from bucket_sort_ref_correct [OF v assms(2)] obtain lims p where
    r: "bucket_sort_ref vals vmax perm = Inr (lims, p)" "true_lims ?key ?n vmax lims" "length p = ?n"
    "\<forall>l < vmax. map ((!) p) [lims ! l..<lims ! Suc l] = keyed ?key ?n l" by blast
  from bucket_sort_parallel_correct [OF v assms(2-4)] obtain lims' p' where
    q: "bucket_sort_parallel nt order vals vmax perm = Inr (lims', p')" "true_lims ?key ?n vmax lims'" "length p' = ?n"
    "\<forall>l < vmax. map ((!) p') [lims' ! l..<lims' ! Suc l] = concat (map (piece vals nt l) order)" by blast
  have ll: "lims' = lims" by (rule true_lims_unique [OF q(2) r(2)])
  have "mset (concat (map (piece vals nt l) order)) = mset (keyed ?key ?n l)" for l
    by (rule mset_pieces [OF assms(3,4)])
  then have m: "\<forall>l < vmax. mset (map ((!) p') [lims ! l..<lims ! Suc l]) = mset (map ((!) p) [lims ! l..<lims ! Suc l])"
    using r(4) q(4) ll by metis
  have "p' = p" if o': "order = [0..<nt]"
  proof (rule nth_equalityI)
    fix i assume "i < length p'"
    then obtain l where l: "l < vmax" "bucket_start ?key ?n l \<le> i" "i < bucket_start ?key ?n (Suc l)"
      using bucket_of_place [OF v, of i] q(3) by auto
    then have i: "i \<in> set [lims ! l..<lims ! Suc l]" using r(2) by (simp add: true_lims_def)
    have "map ((!) p') [lims ! l..<lims ! Suc l] = map ((!) p) [lims ! l..<lims ! Suc l]"
      using r(4) q(4) l(1) ll unfolding o' pieces_cover [OF assms(3)] by simp
    then show "p' ! i = p ! i" using i by (simp only: map_eq_conv)
  qed (use r(3) q(3) in simp)
  then show ?thesis using r(1) q(1) m ll by auto
qed

theorem bucket_sort_versions_agree_witness:
  "\<exists>lims p p'. bucket_sort_ref [2, 0, 2, 1] 3 [0, 0, 0, 0] = Inr (lims, p)
    \<and> bucket_sort_parallel 2 [1, 0] [2, 0, 2, 1] 3 [0, 0, 0, 0] = Inr (lims, p')
    \<and> mset (map ((!) p') [lims ! 2..<lims ! 3]) = mset (map ((!) p) [lims ! 2..<lims ! 3])"
proof -
  have "mset [1, 0] = mset [0..<2]" by (simp add: numeral_2_eq_2)
  from bucket_sort_versions_agree [OF _ _ _ this, of "[2, 0, 2, 1]" 3 "[0, 0, 0, 0]"] obtain lims p p' where
    "bucket_sort_ref [2, 0, 2, 1] 3 [0, 0, 0, 0] = Inr (lims, p)" "bucket_sort_parallel 2 [1, 0] [2, 0, 2, 1] 3 [0, 0, 0, 0] = Inr (lims, p')"
    and b: "\<forall>l < 3. mset (map ((!) p') [lims ! l..<lims ! (l + 1)]) = mset (map ((!) p) [lims ! l..<lims ! (l + 1)])"
    by auto
  moreover have "(2 :: nat) < 3" by simp
  from b [rule_format, OF this] have "mset (map ((!) p') [lims ! 2..<lims ! 3]) = mset (map ((!) p) [lims ! 2..<lims ! 3])" by simp
  ultimately show ?thesis by blast
qed

end
