(* ===== verification/Bucket_Sort_Inplace.thy ===== *)
theory Bucket_Sort_Inplace
  imports Bucket_Sort_Correct
begin

text \<open>
  The in-place bucket sort follows the cycles of the permutation. While it runs, the positions before the
  pointers are written, each with the row of a value of its bucket; one value is carried and
  one position is a hole.
\<close>

section \<open>Counting\<close>

definition row_key :: "int list \<Rightarrow> nat \<Rightarrow> nat" where
  "row_key vals i = nat (vals ! i)"

definition rows_ok :: "int list \<Rightarrow> nat \<Rightarrow> nat \<Rightarrow> bool" where
  "rows_ok vals n L \<longleftrightarrow> length vals = n \<and> (\<forall>v \<in> set vals. 0 \<le> v \<and> v < int L)"

lemma rows_ok_nth: "rows_ok vals n L \<Longrightarrow> i < n \<Longrightarrow> 0 \<le> vals ! i \<and> vals ! i = int (row_key vals i) \<and> row_key vals i < L"
  by (auto simp: rows_ok_def row_key_def nat_less_iff)

lemma count_row_loop:
  assumes "rows_ok vals n L" "m \<le> n"
  shows "\<exists>lims. fold_result (count_row vals L) [0..<m] (replicate (L + 1) 0) = Inr lims \<and> counted (row_key vals) m L lims"
  using assms(2)
proof (induction m)
  case (Suc m)
  then obtain lims where l: "fold_result (count_row vals L) [0..<m] (replicate (L + 1) 0) = Inr lims" "counted (row_key vals) m L lims" by auto
  have v: "0 \<le> vals ! m" "vals ! m = int (row_key vals m)" "row_key vals m < L" using rows_ok_nth [OF assms(1)] Suc.prems by auto
  have n: "nat (vals ! m + 1) = Suc (row_key vals m)" using v(1) by (simp add: row_key_def)
  have "count_row vals L m lims = Inr (lims[Suc (row_key vals m) := lims ! Suc (row_key vals m) + 1])"
    using v n by (simp add: count_row_def)
  moreover have "counted (row_key vals) (Suc m) L (lims[Suc (row_key vals m) := lims ! Suc (row_key vals m) + 1])"
    using l(2) v(3) by (auto simp: counted_def keyed_Suc nth_list_update)
  ultimately show ?case using l(1) by (simp add: fold_result_append)
qed (simp add: counted_def)

section \<open>The invariant\<close>

definition written :: "(nat \<Rightarrow> nat) \<Rightarrow> nat \<Rightarrow> nat \<Rightarrow> nat list \<Rightarrow> nat set" where
  "written key n L ptrs = (\<Union>l \<in> {..<L}. {bucket_start key n l..<ptrs ! l})"

text \<open>\<open>w\<close> tells which value's row a written position holds.\<close>

definition cycles_ok :: "int list \<Rightarrow> nat \<Rightarrow> nat \<Rightarrow> nat \<Rightarrow> cycle_state \<Rightarrow> (nat \<Rightarrow> nat) \<Rightarrow> bool" where
  "cycles_ok vals n ncol L st w \<longleftrightarrow>
     (let key = row_key vals; D = written key n L (cy_ptrs st) in
      length (cy_vals st) = n \<and> length (cy_ptrs st) = L \<and> cy_init st \<le> L
      \<and> (\<forall>l < L. bucket_start key n l \<le> cy_ptrs st ! l \<and> cy_ptrs st ! l \<le> bucket_start key n (Suc l))
      \<and> (\<forall>l < cy_init st. cy_ptrs st ! l = bucket_start key n (Suc l))
      \<and> (\<forall>p \<in> D. cy_vals st ! p = int (w p div ncol)) \<and> inj_on w D
      \<and> (\<forall>l < L. \<forall>p. bucket_start key n l \<le> p \<longrightarrow> p < cy_ptrs st ! l \<longrightarrow> key (w p) = l \<and> w p < n))"

definition at_start :: "int list \<Rightarrow> nat \<Rightarrow> nat \<Rightarrow> cycle_state \<Rightarrow> (nat \<Rightarrow> nat) \<Rightarrow> bool" where
  "at_start vals n L st w \<longleftrightarrow>
     (let key = row_key vals; D = written key n L (cy_ptrs st) in
      cy_row st = -1 \<and> cy_bucket st < L \<and> w ` D = D
      \<and> (cy_ptrs st ! cy_bucket st < bucket_start key n (Suc (cy_bucket st)) \<or> (D = {} \<and> cy_bucket st = 0))
      \<and> (\<forall>p < n. p \<notin> D \<longrightarrow> cy_vals st ! p = vals ! p))"

definition carrying :: "int list \<Rightarrow> nat \<Rightarrow> nat \<Rightarrow> nat \<Rightarrow> cycle_state \<Rightarrow> (nat \<Rightarrow> nat) \<Rightarrow> nat \<Rightarrow> nat \<Rightarrow> bool" where
  "carrying vals n ncol L st w hole c \<longleftrightarrow>
     (let key = row_key vals; D = written key n L (cy_ptrs st) in
      cy_row st = int (c div ncol) \<and> cy_bucket st = key c \<and> c < n \<and> hole < n \<and> hole \<notin> D \<and> cy_vals st ! hole = -1
      \<and> c \<in> insert hole D \<and> w ` D = insert hole D - {c}
      \<and> (\<forall>p < n. p \<notin> D \<longrightarrow> p \<noteq> hole \<longrightarrow> cy_vals st ! p = vals ! p))"

lemma next_open_spec:
  "next_open ptrs lims [a..<L] L = r \<Longrightarrow> a \<le> L \<Longrightarrow>
    a \<le> r \<and> r \<le> L \<and> (\<forall>b. a \<le> b \<longrightarrow> b < r \<longrightarrow> \<not> ptrs ! b < lims ! (b + 1)) \<and> (r < L \<longrightarrow> ptrs ! r < lims ! (r + 1))"
proof (induction "L - a" arbitrary: a)
  case (Suc k)
  then have a: "a < L" "[a..<L] = a # [Suc a..<L]" by (simp_all add: upt_conv_Cons)
  show ?case
  proof (cases "ptrs ! a < lims ! (a + 1)")
    case True
    then show ?thesis using Suc.prems a by auto
  next
    case False
    then have "next_open ptrs lims [Suc a..<L] L = r" using Suc.prems(1) a(2) by simp
    from Suc.hyps(1) [OF _ this] Suc.hyps(2) a(1) have r: "Suc a \<le> r" "r \<le> L"
      "\<forall>b. Suc a \<le> b \<longrightarrow> b < r \<longrightarrow> \<not> ptrs ! b < lims ! (b + 1)" "r < L \<longrightarrow> ptrs ! r < lims ! (r + 1)" by simp_all
    have "\<not> ptrs ! b < lims ! (b + 1)" if "a \<le> b" "b < r" for b
      using r(3) that False by (cases "b = a") auto
    then show ?thesis using r by simp
  qed
qed simp

section \<open>Written positions\<close>

definition ptrs_ok :: "(nat \<Rightarrow> nat) \<Rightarrow> nat \<Rightarrow> nat \<Rightarrow> nat list \<Rightarrow> bool" where
  "ptrs_ok key n L ptrs \<longleftrightarrow> length ptrs = L
     \<and> (\<forall>l < L. bucket_start key n l \<le> ptrs ! l \<and> ptrs ! l \<le> bucket_start key n (Suc l))"

lemma next_not_written:
  assumes "ptrs_ok key n L ptrs" "b < L" "ptrs ! b \<le> q" "q < bucket_start key n (Suc b)"
  shows "q \<notin> written key n L ptrs"
proof
  assume "q \<in> written key n L ptrs"
  then obtain l where l: "l < L" "bucket_start key n l \<le> q" "q < ptrs ! l" by (auto simp: written_def)
  have pl: "ptrs ! l \<le> bucket_start key n (Suc l)" "bucket_start key n b \<le> ptrs ! b" using assms(1,2) l(1) by (simp_all add: ptrs_ok_def)
  show False
  proof (cases l b rule: linorder_cases)
    case less
    then show False using bucket_start_mono [of "Suc l" b key n] pl assms(3) l(3) by simp
  next
    case greater
    then show False using bucket_start_mono [of "Suc b" l key n] assms(4) l(2) by simp
  qed (use assms(3) l(3) in simp)
qed

lemma written_bound:
  assumes "ptrs_ok key n L ptrs" "\<forall>i < n. key i < L"
  shows "written key n L ptrs \<subseteq> {..<n}" "finite (written key n L ptrs)"
proof -
  show "written key n L ptrs \<subseteq> {..<n}"
  proof
    fix q assume "q \<in> written key n L ptrs"
    then obtain l where l: "l < L" "q < ptrs ! l" by (auto simp: written_def)
    moreover have "ptrs ! l \<le> bucket_start key n (Suc l)" using assms(1) l(1) by (simp add: ptrs_ok_def)
    moreover have "bucket_start key n (Suc l) \<le> n"
      using bucket_start_mono [of "Suc l" L key n] bucket_start_total [OF assms(2)] l(1) by simp
    ultimately show "q \<in> {..<n}" by simp
  qed
  then show "finite (written key n L ptrs)" by (rule finite_subset) simp
qed

lemma written_advance:
  assumes "ptrs_ok key n L ptrs" "b < L"
  shows "written key n L (ptrs[b := ptrs ! b + 1]) = insert (ptrs ! b) (written key n L ptrs)"
proof -
  have b: "bucket_start key n b \<le> ptrs ! b" "length ptrs = L" using assms by (simp_all add: ptrs_ok_def)
  have "{bucket_start key n l..<ptrs[b := ptrs ! b + 1] ! l} =
      (if l = b then insert (ptrs ! b) {bucket_start key n l..<ptrs ! l} else {bucket_start key n l..<ptrs ! l})" if "l < L" for l
    using that b by (auto simp: nth_list_update)
  then show ?thesis using assms(2) by (auto simp: written_def split: if_splits)
qed

lemma ptrs_ok_advance:
  "ptrs_ok key n L ptrs \<Longrightarrow> b < L \<Longrightarrow> ptrs ! b < bucket_start key n (Suc b) \<Longrightarrow> ptrs_ok key n L (ptrs[b := ptrs ! b + 1])"
  by (auto simp: ptrs_ok_def nth_list_update le_Suc_eq)

lemma cycles_ok_ptrs: "cycles_ok vals n ncol L st w \<Longrightarrow> ptrs_ok (row_key vals) n L (cy_ptrs st)"
  by (simp add: cycles_ok_def ptrs_ok_def Let_def)

text \<open>The bucket of the carried value has a free place.\<close>

lemma carrying_room:
  assumes ok: "cycles_ok vals n ncol L st w" and c: "carrying vals n ncol L st w hole c" and L: "row_key vals c < L"
  shows "cy_ptrs st ! row_key vals c < bucket_start (row_key vals) n (Suc (row_key vals c))"
proof -
  let ?key = "row_key vals" let ?b = "?key c" let ?D = "written ?key n L (cy_ptrs st)"
  let ?A = "{bucket_start ?key n ?b..<cy_ptrs st ! ?b}"
  have A: "?A \<subseteq> ?D" using L by (auto simp: written_def)
  have "w ` ?A \<subseteq> set (keyed ?key n ?b) - {c}"
  proof
    fix i assume "i \<in> w ` ?A"
    then obtain p where p: "p \<in> ?A" "i = w p" by blast
    then have "?key i = ?b" "i < n" using ok L by (auto simp: cycles_ok_def Let_def)
    moreover have "w p \<in> insert hole ?D - {c}"
    proof -
      have "w ` ?D = insert hole ?D - {c}" using c by (simp add: carrying_def Let_def)
      then show ?thesis using A p(1) by blast
    qed
    then have "i \<noteq> c" using p(2) by simp
    ultimately show "i \<in> set (keyed ?key n ?b) - {c}" by (simp add: set_keyed)
  qed
  then have "card (w ` ?A) \<le> card (set (keyed ?key n ?b) - {c})" by (intro card_mono) auto
  moreover have "c \<in> set (keyed ?key n ?b)" using c by (simp add: set_keyed carrying_def Let_def)
  moreover have "inj_on w ?A" using ok A by (auto simp: cycles_ok_def Let_def intro: inj_on_subset)
  moreover have "card (set (keyed ?key n ?b)) = length (keyed ?key n ?b)" by (simp add: distinct_card)
  moreover have "0 < length (keyed ?key n ?b)" using \<open>c \<in> set (keyed ?key n ?b)\<close> by (cases "keyed ?key n ?b") auto
  ultimately have "cy_ptrs st ! ?b - bucket_start ?key n ?b < length (keyed ?key n ?b)"
    by (cases "keyed ?key n ?b") (simp_all add: card_image)
  moreover have "bucket_start ?key n ?b \<le> cy_ptrs st ! ?b" using ok L by (simp add: cycles_ok_def Let_def)
  ultimately show ?thesis by (simp add: bucket_start_Suc)
qed

section \<open>One step\<close>

lemma start_step:
  assumes rows: "rows_ok vals n L" and lims: "true_lims (row_key vals) n L lims" and "0 < n"
    and ok: "cycles_ok vals n ncol L st w" and at: "at_start vals n L st w"
    and asserts: "asserts \<Longrightarrow> 0 < length (keyed (row_key vals) n 0)"
  shows "\<exists>st' c. cycle_step asserts ncol L lims st = Inl st' \<and> cycles_ok vals n ncol L st' w \<and> carrying vals n ncol L st' w c c
    \<and> cy_ptrs st' = cy_ptrs st"
proof -
  let ?key = "row_key vals" let ?D = "written ?key n L (cy_ptrs st)" let ?b = "cy_bucket st"
  define idx where "idx = cy_ptrs st ! ?b"
  have po: "ptrs_ok ?key n L (cy_ptrs st)" by (rule cycles_ok_ptrs [OF ok])
  have key: "\<forall>i < n. ?key i < L" using rows_ok_nth [OF rows] by blast
  have b: "?b < L" "cy_row st = -1" "w ` ?D = ?D" "\<And>p. p < n \<Longrightarrow> p \<notin> ?D \<Longrightarrow> cy_vals st ! p = vals ! p"
    using at by (auto simp: at_start_def Let_def)
  have idx: "idx < n \<and> idx \<notin> ?D \<and> (asserts \<longrightarrow> idx < bucket_start ?key n (Suc ?b))"
  proof (cases "idx < bucket_start ?key n (Suc ?b)")
    case True
    moreover have "bucket_start ?key n (Suc ?b) \<le> n"
      using bucket_start_mono [of "Suc ?b" L ?key n] bucket_start_total [OF key] b(1) by simp
    ultimately show ?thesis using next_not_written [OF po b(1) _ True] by (simp add: idx_def)
  next
    case False
    then have e: "?D = {}" "?b = 0" using at by (auto simp: at_start_def Let_def idx_def)
    have "{bucket_start ?key n 0..<cy_ptrs st ! 0} \<subseteq> ?D" using b(1) e(2) by (auto simp: written_def)
    then have "\<not> 0 < cy_ptrs st ! 0" unfolding e(1) by simp
    then have "idx = 0" by (simp add: idx_def e(2))
    then show ?thesis using False asserts assms(3) e by (auto simp: bucket_start_def)
  qed
  have v: "cy_vals st ! idx = int (?key idx)" "?key idx < L"
    using b(4) [of idx] idx rows_ok_nth [OF rows, of idx] by auto
  have lim: "lims ! (?b + 1) = bucket_start ?key n (Suc ?b)" using lims b(1) by (simp add: true_lims_def)
  let ?st = "st\<lparr>cy_vals := (cy_vals st)[idx := -1], cy_row := int (idx div ncol), cy_bucket := ?key idx\<rparr>"
  have "cycle_step asserts ncol L lims st = Inl ?st"
    using b(2) v(1) idx lim by (simp add: cycle_step_def idx_def [symmetric] Let_def)
  moreover have "cycles_ok vals n ncol L ?st w"
    using ok idx by (auto simp: cycles_ok_def Let_def nth_list_update)
  moreover have "carrying vals n ncol L ?st w idx idx"
    using idx b(3,4) ok by (auto simp: carrying_def Let_def cycles_ok_def)
  ultimately show ?thesis by (intro exI [of _ ?st] exI [of _ idx]) simp
qed

text \<open>A carried value is written; the hole ends the cycle.\<close>

lemma carry_step:
  assumes rows: "rows_ok vals n L" and lims: "true_lims (row_key vals) n L lims"
    and ok: "cycles_ok vals n ncol L st w" and ca: "carrying vals n ncol L st w hole c"
  defines "D' \<equiv> insert (cy_ptrs st ! row_key vals c) (written (row_key vals) n L (cy_ptrs st))"
  shows "(\<exists>st' w' c'. cycle_step asserts ncol L lims st = Inl st' \<and> written (row_key vals) n L (cy_ptrs st') = D'
      \<and> cycles_ok vals n ncol L st' w' \<and> (carrying vals n ncol L st' w' hole c' \<or> at_start vals n L st' w'))
    \<or> (\<exists>st' w'. cycle_step asserts ncol L lims st = Inr (Inr st') \<and> cycles_ok vals n ncol L st' w' \<and> cy_init st' = L)"
    and "cy_ptrs st ! row_key vals c \<notin> written (row_key vals) n L (cy_ptrs st)" "cy_ptrs st ! row_key vals c < n"
proof -
  let ?key = "row_key vals" let ?D = "written ?key n L (cy_ptrs st)" let ?b = "?key c"
  define idx where "idx = cy_ptrs st ! ?b"
  have po: "ptrs_ok ?key n L (cy_ptrs st)" by (rule cycles_ok_ptrs [OF ok])
  have key: "\<forall>i < n. ?key i < L" using rows_ok_nth [OF rows] by blast
  have c: "cy_row st = int (c div ncol)" "cy_bucket st = ?b" "c < n" "hole < n" "hole \<notin> ?D" "cy_vals st ! hole = -1"
    "c \<in> insert hole ?D" "w ` ?D = insert hole ?D - {c}" "\<And>p. p < n \<Longrightarrow> p \<notin> ?D \<Longrightarrow> p \<noteq> hole \<Longrightarrow> cy_vals st ! p = vals ! p"
    using ca by (auto simp: carrying_def Let_def)
  have b: "?b < L" using key c(3) by blast
  have room: "idx < bucket_start ?key n (Suc ?b)" using carrying_room [OF ok ca b] by (simp add: idx_def)
  have "bucket_start ?key n (Suc ?b) \<le> n"
    using bucket_start_mono [of "Suc ?b" L ?key n] bucket_start_total [OF key] b by simp
  then have idx: "idx < n" "idx \<notin> ?D" using room next_not_written [OF po b _ room] by (simp_all add: idx_def)
  then show "cy_ptrs st ! row_key vals c \<notin> written (row_key vals) n L (cy_ptrs st)" "cy_ptrs st ! row_key vals c < n" by (simp_all add: idx_def)
  let ?ptrs = "(cy_ptrs st)[?b := Suc idx]" and ?vals = "(cy_vals st)[idx := cy_row st]" and ?w = "w(idx := c)"
  have D': "written ?key n L ?ptrs = insert idx ?D" using written_advance [OF po b] by (simp add: idx_def)
  have po': "ptrs_ok ?key n L ?ptrs" using ptrs_ok_advance [OF po b] room by (simp add: idx_def)
  have lim: "lims ! (l + 1) = bucket_start ?key n (Suc l)" if "l < L" for l using lims that by (simp add: true_lims_def)
  have len: "length (cy_vals st) = n" "length (cy_ptrs st) = L" "cy_init st \<le> L" using ok by (simp_all add: cycles_ok_def Let_def)
  have old_init: "\<forall>l < cy_init st. ?ptrs ! l = bucket_start ?key n (Suc l)"
  proof (intro allI impI)
    fix l assume l: "l < cy_init st"
    have i: "cy_ptrs st ! l = bucket_start ?key n (Suc l)" using ok l by (simp add: cycles_ok_def Let_def)
    then have "l \<noteq> ?b" using room by (auto simp: idx_def)
    then show "?ptrs ! l = bucket_start ?key n (Suc l)" using i by simp
  qed
  have wi: "?w ` insert idx ?D = insert c (w ` ?D)" using idx(2) by (auto simp: image_iff)
  have core: "(\<forall>p \<in> insert idx ?D. ?vals ! p = int (?w p div ncol)) \<and> inj_on ?w (insert idx ?D)
      \<and> (\<forall>l < L. \<forall>p. bucket_start ?key n l \<le> p \<longrightarrow> p < ?ptrs ! l \<longrightarrow> ?key (?w p) = l \<and> ?w p < n)"
  proof (intro conjI allI impI)
    show "\<forall>p \<in> insert idx ?D. ?vals ! p = int (?w p div ncol)"
    proof
      fix p assume p: "p \<in> insert idx ?D"
      show "?vals ! p = int (?w p div ncol)"
      proof (cases "p = idx")
        case False
        then show ?thesis using p ok by (simp add: cycles_ok_def Let_def)
      qed (use idx(1) len(1) c(1) in simp)
    qed
    have "inj_on w ?D" using ok by (simp add: cycles_ok_def Let_def)
    then have "inj_on ?w ?D" using idx(2) by (auto simp: inj_on_def)
    moreover have "?w idx \<notin> ?w ` (?D - {idx})" using c(8) idx(2) by (auto simp: image_iff)
    ultimately show "inj_on ?w (insert idx ?D)" by (simp add: inj_on_insert)
    fix l p assume l: "l < L" "bucket_start ?key n l \<le> p" "p < ?ptrs ! l"
    have "?key (?w p) = l \<and> ?w p < n"
    proof (cases "p = idx")
      case True
      have "l = ?b"
      proof (rule ccontr)
        assume "l \<noteq> ?b"
        then have "p \<in> ?D" using l by (auto simp: written_def)
        then show False using True idx(2) by simp
      qed
      then show ?thesis using True c(3) by simp
    next
      case False
      then have "p < cy_ptrs st ! l" using l len(2) by (cases "l = ?b") (auto simp: idx_def)
      then show ?thesis using False ok l by (simp add: cycles_ok_def Let_def)
    qed
    then show "?key (?w p) = l" "?w p < n" by simp_all
  qed
  have as: "asserts \<and> \<not> idx < lims ! (cy_bucket st + 1) \<longleftrightarrow> False" using room lim [OF b] c(2) by simp
  have cok: "cycles_ok vals n ncol L (st\<lparr>cy_vals := ?vals, cy_ptrs := ?ptrs, cy_row := r, cy_bucket := bb, cy_init := i\<rparr>) ?w"
    if "i \<le> L" "\<forall>l < i. ?ptrs ! l = bucket_start ?key n (Suc l)" for r bb i
    using core po' len that by (simp add: cycles_ok_def Let_def D' ptrs_ok_def)
  show "(\<exists>st' w' c'. cycle_step asserts ncol L lims st = Inl st' \<and> written (row_key vals) n L (cy_ptrs st') = D'
      \<and> cycles_ok vals n ncol L st' w' \<and> (carrying vals n ncol L st' w' hole c' \<or> at_start vals n L st' w'))
    \<or> (\<exists>st' w'. cycle_step asserts ncol L lims st = Inr (Inr st') \<and> cycles_ok vals n ncol L st' w' \<and> cy_init st' = L)"
  proof (cases "idx = hole")
    case False
    have v: "cy_vals st ! idx = int (?key idx)" "?key idx < L"
      using c(9) [OF idx False] rows_ok_nth [OF rows idx(1)] by simp_all
    let ?st = "st\<lparr>cy_vals := ?vals, cy_ptrs := ?ptrs, cy_row := int (idx div ncol), cy_bucket := ?key idx, cy_init := cy_init st\<rparr>"
    have "cycle_step asserts ncol L lims st = Inl ?st"
      using c(1,2) v(1) as by (simp add: cycle_step_def idx_def [symmetric] Let_def)
    moreover have "cycles_ok vals n ncol L ?st ?w" by (rule cok [OF len(3) old_init])
    moreover have "carrying vals n ncol L ?st ?w hole idx"
    proof -
      have "?w ` insert idx ?D = insert hole (insert idx ?D) - {idx}" unfolding wi c(8) using c(7) idx(2) False by auto
      then show ?thesis using False idx c(4,5,6,9) by (simp add: carrying_def Let_def D')
    qed
    ultimately show ?thesis unfolding D'_def idx_def [symmetric] using D'
      by (intro disjI1 exI [of _ ?st] exI [of _ ?w] exI [of _ idx]) simp
  next
    case True
    define i where "i = next_open ?ptrs lims [cy_init st..<L] L"
    note no = next_open_spec [OF i_def [symmetric] len(3)]
    have init: "\<forall>l < i. ?ptrs ! l = bucket_start ?key n (Suc l)"
    proof (intro allI impI)
      fix l assume l: "l < i"
      show "?ptrs ! l = bucket_start ?key n (Suc l)"
      proof (cases "l < cy_init st")
        case False
        then have "\<not> ?ptrs ! l < lims ! (l + 1)" using no l by simp
        moreover have "l < L" using no l by simp
        moreover then have "?ptrs ! l \<le> bucket_start ?key n (Suc l)" using po' unfolding ptrs_ok_def by blast
        ultimately show ?thesis using lim [of l] by simp
      qed (use old_init in blast)
    qed
    have img: "?w ` insert idx ?D = insert idx ?D" unfolding wi c(8) using c(7) True by auto
    show ?thesis
    proof (cases "i = L")
      case fin: True
      let ?st = "st\<lparr>cy_vals := ?vals, cy_ptrs := ?ptrs, cy_row := cy_row st, cy_bucket := cy_bucket st, cy_init := i\<rparr>"
      have "cycle_step asserts ncol L lims st = Inr (Inr ?st)"
        using c(1,2,6) True as fin i_def by (simp add: cycle_step_def idx_def [symmetric] Let_def)
      moreover have "cycles_ok vals n ncol L ?st ?w" by (rule cok [OF _ init]) (simp add: fin)
      ultimately show ?thesis using fin by (intro disjI2 exI [of _ ?st] exI [of _ ?w]) simp
    next
      case False
      then have iL: "i < L" using no by simp
      let ?st = "st\<lparr>cy_vals := ?vals, cy_ptrs := ?ptrs, cy_row := -1, cy_bucket := i, cy_init := i\<rparr>"
      have "cycle_step asserts ncol L lims st = Inl ?st"
        using c(1,2,6) True as False i_def by (simp add: cycle_step_def idx_def [symmetric] Let_def)
      moreover have "cycles_ok vals n ncol L ?st ?w" using iL by (intro cok init) simp
      moreover have "at_start vals n L ?st ?w"
      proof -
        have "?w ` written ?key n L ?ptrs = written ?key n L ?ptrs" unfolding D' by (rule img)
        moreover have "\<forall>p < n. p \<notin> written ?key n L ?ptrs \<longrightarrow> ?vals ! p = vals ! p" unfolding D' using c(9) True by auto
        moreover have "?ptrs ! i < bucket_start ?key n (Suc i)" using iL no lim [OF iL] by simp
        ultimately show ?thesis using iL unfolding at_start_def Let_def by simp
      qed
      ultimately show ?thesis unfolding D'_def idx_def [symmetric] using D'
        by (intro disjI1 exI [of _ ?st] exI [of _ ?w] exI [of _ 0]) simp
    qed
  qed
qed

section \<open>The loop\<close>

lemma cycles_total:
  assumes rows: "rows_ok vals n L" and lims: "true_lims (row_key vals) n L lims" and n: "0 < n" "0 < L"
    and asserts: "asserts \<Longrightarrow> 0 < length (keyed (row_key vals) n 0)"
  shows "\<exists>st w. iterate (cycle_step asserts ncol L lims)
      \<lparr>cy_vals = vals, cy_ptrs = take L lims, cy_row = -1, cy_bucket = 0, cy_init = 0\<rparr> = Some (Inr st)
    \<and> cycles_ok vals n ncol L st w \<and> cy_init st = L"
proof -
  let ?st = "\<lparr>cy_vals = vals, cy_ptrs = take L lims, cy_row = -1, cy_bucket = 0, cy_init = 0\<rparr>"
  let ?D = "\<lambda>st :: cycle_state. written (row_key vals) n L (cy_ptrs st)"
  define I where "I = (\<lambda>st :: cycle_state. \<exists>w. cycles_ok vals n ncol L st w \<and> (at_start vals n L st w \<or> (\<exists>hole c. carrying vals n ncol L st w hole c)))"
  let ?Q = "\<lambda>r :: cycle_state result. \<exists>st w. r = Inr st \<and> cycles_ok vals n ncol L st w \<and> cy_init st = L"
  define m where "m = (\<lambda>st :: cycle_state. 2 * (n - card (?D st)) + (if cy_row st = -1 then 1 else 0))"
  have key: "\<forall>i < n. row_key vals i < L" using rows_ok_nth [OF rows] by blast
  have row: "cy_row st \<noteq> -1" if "carrying vals n ncol L st w hole c" for st :: cycle_state and w hole c
    using that by (simp add: carrying_def Let_def)
  have step: "case cycle_step asserts ncol L lims st of Inl st' \<Rightarrow> I st' \<and> m st' < m st | Inr r \<Rightarrow> ?Q r" if st: "I st" for st :: cycle_state
  proof -
    from st obtain w where w: "cycles_ok vals n ncol L st w" "at_start vals n L st w \<or> (\<exists>hole c. carrying vals n ncol L st w hole c)"
      by (auto simp: I_def)
    note wb = written_bound [OF cycles_ok_ptrs [OF w(1)] key]
    from w(2) show ?thesis
    proof
      assume a: "at_start vals n L st w"
      from start_step [OF rows lims n(1) w(1) a asserts] obtain st' c where
        s: "cycle_step asserts ncol L lims st = Inl st'" "cycles_ok vals n ncol L st' w" "carrying vals n ncol L st' w c c" "cy_ptrs st' = cy_ptrs st"
        by blast
      have "cy_row st = -1" using a by (simp add: at_start_def Let_def)
      then show ?thesis using s row [OF s(3)] by (auto simp: I_def m_def)
    next
      assume "\<exists>hole c. carrying vals n ncol L st w hole c"
      then obtain hole c where c: "carrying vals n ncol L st w hole c" by blast
      note cs = carry_step(1) [OF rows lims w(1) c, of asserts] carry_step(2,3) [OF rows lims w(1) c]
      let ?idx = "cy_ptrs st ! row_key vals c"
      have "insert ?idx (?D st) \<subseteq> {..<n}" using wb(1) cs(3) by simp
      from card_mono [OF _ this] have le: "card (?D st) + 1 \<le> n" using cs(2) wb(2) by simp
      then have less: "m st' < m st" if "?D st' = insert ?idx (?D st)" for st'
      proof -
        have "card (?D st') = card (?D st) + 1" using that cs(2) wb(2) by simp
        then show ?thesis using le row [OF c] unfolding m_def by (simp split: if_splits) arith?
      qed
      from cs(1) show ?thesis
      proof
        assume "\<exists>st' w' c'. cycle_step asserts ncol L lims st = Inl st' \<and> ?D st' = insert ?idx (?D st)
            \<and> cycles_ok vals n ncol L st' w' \<and> (carrying vals n ncol L st' w' hole c' \<or> at_start vals n L st' w')"
        then obtain st' w' c' where s: "cycle_step asserts ncol L lims st = Inl st'" "?D st' = insert ?idx (?D st)"
          "cycles_ok vals n ncol L st' w'" "carrying vals n ncol L st' w' hole c' \<or> at_start vals n L st' w'" by blast
        have "I st'" unfolding I_def using s(3,4) by blast
        then show ?thesis using s(1) less [OF s(2)] by simp
      qed auto
    qed
  qed
  have tl: "length (take L lims) = L" "\<And>l. l < L \<Longrightarrow> take L lims ! l = bucket_start (row_key vals) n l"
    using lims by (simp_all add: true_lims_def)
  have D0: "written (row_key vals) n L (take L lims) = {}" using tl(2) by (auto simp: written_def)
  have "cycles_ok vals n ncol L ?st id" unfolding cycles_ok_def Let_def using tl rows D0
    by (auto simp: rows_ok_def bucket_start_Suc)
  moreover have "at_start vals n L ?st id" using D0 n(2) by (simp add: at_start_def Let_def)
  ultimately have I0: "I ?st" by (auto simp: I_def)
  have "\<exists>r. iterate (cycle_step asserts ncol L lims) ?st = Some r \<and> ?Q r"
  proof (rule iterate_total [where I = I and m = m])
    show "I ?st" by (rule I0)
    show "I s' \<and> m s' < m s" if "I s" "cycle_step asserts ncol L lims s = Inl s'" for s s'
      using step [OF that(1)] unfolding that(2) sum.case .
    show "?Q r" if "I s" "cycle_step asserts ncol L lims s = Inr r" for s r
      using step [OF that(1)] unfolding that(2) sum.case .
  qed
  then show ?thesis by auto
qed

lemma cycles_result:
  assumes rows: "rows_ok vals n L" and ok: "cycles_ok vals n ncol L st w" and e: "cy_init st = L" and l: "l < L"
  shows "mset (map ((!) (cy_vals st)) [bucket_start (row_key vals) n l..<bucket_start (row_key vals) n (Suc l)]) =
    mset (map (\<lambda>i. int (i div ncol)) (keyed (row_key vals) n l))" "cy_ptrs st ! l = bucket_start (row_key vals) n (Suc l)"
proof -
  let ?key = "row_key vals" let ?D = "written ?key n L (cy_ptrs st)"
  let ?b = "[bucket_start ?key n l..<bucket_start ?key n (Suc l)]"
  show p: "cy_ptrs st ! l = bucket_start ?key n (Suc l)" using ok e l by (simp add: cycles_ok_def Let_def)
  have bD: "set ?b \<subseteq> ?D" using p l by (auto simp: written_def)
  have v: "map ((!) (cy_vals st)) ?b = map (\<lambda>i. int (i div ncol)) (map w ?b)"
    using ok bD by (auto simp: cycles_ok_def Let_def)
  have ij: "inj_on w (set ?b)" using ok bD unfolding cycles_ok_def Let_def by (blast intro: inj_on_subset)
  have "set (map w ?b) \<subseteq> set (keyed ?key n l)"
    using ok p l by (auto simp: cycles_ok_def Let_def set_keyed)
  moreover have "card (set (map w ?b)) = card (set (keyed ?key n l))"
    using card_image [OF ij] by (simp add: bucket_start_Suc distinct_card)
  ultimately have "set (map w ?b) = set (keyed ?key n l)" by (intro card_subset_eq) auto
  moreover have "distinct (map w ?b)" using ij by (simp add: distinct_map)
  ultimately have "mset (map w ?b) = mset (keyed ?key n l)" using set_eq_iff_mset_eq_distinct [OF _ distinct_keyed, of "map w ?b"] by blast
  then show "mset (map ((!) (cy_vals st)) ?b) = mset (map (\<lambda>i. int (i div ncol)) (keyed ?key n l))"
    unfolding v mset_map by simp
qed

section \<open>Properties\<close>

text \<open>
  C19. The in-place bucket sort terminates and replaces the entries of each bucket by the rows of its values: with all
  values below \<open>nbucket\<close> and fewer buckets than values, \<open>vals\<close> holds, between \<open>lims[l]\<close> and
  \<open>lims[l + 1]\<close>, the row \<open>i / ncol\<close> of every entry \<open>l\<close>, each as often as it occurs. With \<open>assert\<close>
  compiled in, bucket 0 must not be empty.
\<close>

theorem bucket_sort_inplace_buckets:
  assumes "length vals = nrow * ncol" "\<forall>v \<in> set vals. 0 \<le> v \<and> v < int nbucket" "nbucket < nrow * ncol"
    "asserts \<Longrightarrow> 0 \<in> set vals"
  shows "\<exists>lims vals'. bucket_sort_inplace_ref asserts nrow ncol vals nbucket = Some (Inr (lims, vals'))
    \<and> length vals' = nrow * ncol \<and> lims ! 0 = 0 \<and> lims ! nbucket = nrow * ncol
    \<and> (\<forall>l < nbucket. mset (map ((!) vals') [lims ! l..<lims ! (l + 1)]) =
        mset (map (\<lambda>i. int (i div ncol)) (filter (\<lambda>i. vals ! i = int l) [0..<nrow * ncol])))"
proof -
  let ?n = "nrow * ncol" let ?key = "row_key vals"
  have rows: "rows_ok vals ?n nbucket" using assms(1,2) by (simp add: rows_ok_def)
  have key: "\<forall>i < ?n. ?key i < nbucket" using rows_ok_nth [OF rows] by blast
  have n: "0 < ?n" using assms(3) by (rule le_less_trans [OF le0])
  have L: "0 < nbucket" using key n by (metis gr_zeroI not_less_zero)
  from count_row_loop [OF rows order_refl] obtain c where
    c: "fold_result (count_row vals nbucket) [0..<?n] (replicate (nbucket + 1) 0) = Inr c" "counted ?key ?n nbucket c" by blast
  let ?lims = "cumulate nbucket c"
  have lims: "true_lims ?key ?n nbucket ?lims" by (rule cumulate_loop [OF c(2)])
  have top: "?lims ! nbucket = ?n" "?lims ! 0 = 0" using lims bucket_start_total [OF key] by (simp_all add: true_lims_def)
  have a: "0 < length (keyed ?key ?n 0)" if as: "asserts"
  proof -
    from assms(4) [OF as] obtain i where "i < ?n" "vals ! i = 0" using assms(1) by (auto simp: in_set_conv_nth)
    then have "i \<in> set (keyed ?key ?n 0)" by (simp add: set_keyed row_key_def)
    then show ?thesis by (cases "keyed ?key ?n 0") auto
  qed
  from cycles_total [OF rows lims n L a] obtain st w where
    i: "iterate (cycle_step asserts ncol nbucket ?lims)
      \<lparr>cy_vals = vals, cy_ptrs = take nbucket ?lims, cy_row = -1, cy_bucket = 0, cy_init = 0\<rparr> = Some (Inr st)"
    and st: "cycles_ok vals ?n ncol nbucket st w" "cy_init st = nbucket" by blast
  note res = cycles_result [OF rows st]
  have "\<not> (asserts \<and> (\<exists>i \<in> set [0..<nbucket]. cy_ptrs st ! i \<noteq> ?lims ! (i + 1)))"
    using res(2) lims by (simp add: true_lims_def)
  then have "bucket_sort_inplace_ref asserts nrow ncol vals nbucket = Some (Inr (?lims, cy_vals st))"
    unfolding bucket_sort_inplace_ref_def Let_def using assms(3) c(1) top(1) i by simp
  moreover have "length (cy_vals st) = ?n" using st(1) by (simp add: cycles_ok_def Let_def)
  moreover have "mset (map ((!) (cy_vals st)) [?lims ! l..<?lims ! (l + 1)]) =
      mset (map (\<lambda>i. int (i div ncol)) (filter (\<lambda>i. vals ! i = int l) [0..<?n]))" if l: "l < nbucket" for l
  proof -
    have "filter (\<lambda>i. vals ! i = int l) [0..<?n] = keyed ?key ?n l"
      unfolding keyed_def using rows_ok_nth [OF rows] by (intro filter_cong) auto
    then show ?thesis using res(1) [OF l] lims l by (simp add: true_lims_def)
  qed
  ultimately show ?thesis using top by blast
qed

theorem bucket_sort_inplace_buckets_witness:
  "\<exists>lims vals. bucket_sort_inplace_ref True 2 2 [1, 0, 2, 1] 3 = Some (Inr (lims, vals)) \<and> lims ! 3 = 4
    \<and> mset (map ((!) vals) [lims ! 1..<lims ! 2]) = mset [0, 1]"
proof -
  have f: "map (\<lambda>i. int (i div 2)) (filter (\<lambda>i. [1, 0, 2, 1] ! i = int 1) [0..<2 * 2]) = [0, 1]" by code_simp
  from bucket_sort_inplace_buckets [of "[1, 0, 2, 1]" 2 2 3 True] obtain lims vals where
    "bucket_sort_inplace_ref True 2 2 [1, 0, 2, 1] 3 = Some (Inr (lims, vals))" "lims ! 3 = 2 * 2"
    and b: "\<forall>l < 3. mset (map ((!) vals) [lims ! l..<lims ! (l + 1)]) =
      mset (map (\<lambda>i. int (i div 2)) (filter (\<lambda>i. [1, 0, 2, 1] ! i = int l) [0..<2 * 2]))"
    by auto
  moreover have "(1 :: nat) < 3" by simp
  from b [rule_format, OF this] have "mset (map ((!) vals) [lims ! 1..<lims ! 2]) = mset [0, 1]" unfolding f one_add_one .
  ultimately show ?thesis by (intro exI [of _ lims] exI [of _ vals]) simp
qed

text \<open>
  With \<open>assert\<close> compiled in, the in-place bucket sort fails on every valid input whose bucket 0 is empty: the cycle
  that it starts at bucket 0 has no entry there.
\<close>

theorem bucket_sort_inplace_empty_bucket:
  assumes "length vals = nrow * ncol" "\<forall>v \<in> set vals. 0 < v \<and> v < int nbucket" "nbucket < nrow * ncol"
  shows "bucket_sort_inplace_ref True nrow ncol vals nbucket = Some (Inl Assert_failed)"
proof -
  let ?n = "nrow * ncol" let ?key = "row_key vals"
  have rows: "rows_ok vals ?n nbucket" using assms(1,2) by (auto simp: rows_ok_def)
  have key: "\<forall>i < ?n. ?key i < nbucket" using rows_ok_nth [OF rows] by blast
  have L: "0 < nbucket" using key assms(3) by (metis gr_zeroI not_less_zero)
  from count_row_loop [OF rows order_refl] obtain c where
    c: "fold_result (count_row vals nbucket) [0..<?n] (replicate (nbucket + 1) 0) = Inr c" "counted ?key ?n nbucket c" by blast
  let ?lims = "cumulate nbucket c"
  have lims: "true_lims ?key ?n nbucket ?lims" by (rule cumulate_loop [OF c(2)])
  have "?key i \<noteq> 0" if "i < ?n" for i
  proof -
    have "vals ! i \<in> set vals" using assms(1) that by simp
    then show ?thesis using assms(2) by (auto simp: row_key_def)
  qed
  then have "keyed ?key ?n 0 = []" by (simp add: keyed_def filter_empty_conv)
  then have "?lims ! 1 = 0" "?lims ! 0 = 0" "?lims ! nbucket = ?n" using lims L bucket_start_total [OF key]
    by (simp_all add: true_lims_def bucket_start_Suc)
  then have c': "cycle_step True ncol nbucket ?lims
      \<lparr>cy_vals = vals, cy_ptrs = take nbucket ?lims, cy_row = -1, cy_bucket = 0, cy_init = 0\<rparr> = Inr (Inl Assert_failed)"
    and t: "?lims ! nbucket = ?n" using L by (simp_all add: cycle_step_def Let_def)
  note i = iterate_Inr [of "cycle_step True ncol nbucket ?lims", OF c']
  show ?thesis unfolding bucket_sort_inplace_ref_def Let_def using assms(3) c(1) i t by simp
qed

theorem bucket_sort_inplace_empty_bucket_witness:
  "bucket_sort_inplace_ref True 2 2 [1, 2, 2, 1] 3 = Some (Inl Assert_failed)"
  by (rule bucket_sort_inplace_empty_bucket) simp_all

end
