(* ===== verification/Argsort_Correct.thy ===== *)
theory Argsort_Correct
  imports Bucket_Sort Index_Hnsw_Level0
begin

text \<open>
  Argsort: with the contract of \<open>std::sort\<close>, \<open>fvec_argsort\<close> is the argsort that the reordering of the links needs.
  The parallel version agrees with it on one thread only.
\<close>

section \<open>The contract of the library's sort\<close>

definition strict_weak :: "(nat \<Rightarrow> nat \<Rightarrow> bool) \<Rightarrow> bool" where
  "strict_weak lt \<longleftrightarrow> (\<forall>a b. lt a b \<longrightarrow> \<not> lt b a) \<and> (\<forall>a b c. \<not> lt a b \<longrightarrow> \<not> lt b c \<longrightarrow> \<not> lt a c)"

definition std_sort_ok :: "std_sort \<Rightarrow> bool" where
  "std_sort_ok std_sort \<longleftrightarrow>
     (\<forall>lt xs. strict_weak lt \<longrightarrow> mset (std_sort lt xs) = mset xs \<and> sorted_wrt (\<lambda>a b. \<not> lt b a) (std_sort lt xs))"

lemma strict_weak_argsort_less: "strict_weak (argsort_less vals)"
  by (auto simp: strict_weak_def argsort_less_def)

text \<open>An instance: insertion sort.\<close>

fun insert_by :: "(nat \<Rightarrow> nat \<Rightarrow> bool) \<Rightarrow> nat \<Rightarrow> nat list \<Rightarrow> nat list" where
  "insert_by lt x [] = [x]"
| "insert_by lt x (y # ys) = (if lt x y then x # y # ys else y # insert_by lt x ys)"

definition insertion_sort :: std_sort where
  "insertion_sort lt xs = foldr (insert_by lt) xs []"

lemma mset_insert_by [simp]: "mset (insert_by lt x ys) = add_mset x (mset ys)"
  by (induction ys) auto

lemma set_insert_by [simp]: "set (insert_by lt x ys) = insert x (set ys)"
  by (induction ys) auto

lemma sorted_insert_by:
  assumes "strict_weak lt" "sorted_wrt (\<lambda>a b. \<not> lt b a) ys"
  shows "sorted_wrt (\<lambda>a b. \<not> lt b a) (insert_by lt x ys)"
  using assms(2)
proof (induction ys)
  case (Cons y ys)
  have "\<not> lt z x" if "lt x y" "z = y \<or> z \<in> set ys" for z
  proof -
    have "\<not> lt y x" using assms(1) that(1) unfolding strict_weak_def by blast
    moreover have "z = y \<or> \<not> lt z y" using that(2) Cons.prems by auto
    ultimately show ?thesis using assms(1) unfolding strict_weak_def by blast
  qed
  then show ?case using Cons by auto
qed simp

lemma insertion_sort_ok: "std_sort_ok insertion_sort"
proof -
  have "mset (insertion_sort lt xs) = mset xs" for lt xs
    unfolding insertion_sort_def by (induction xs) simp_all
  moreover have "sorted_wrt (\<lambda>a b. \<not> lt b a) (insertion_sort lt xs)" if "strict_weak lt" for lt xs
    unfolding insertion_sort_def by (induction xs) (simp_all add: sorted_insert_by [OF that])
  ultimately show ?thesis by (simp add: std_sort_ok_def)
qed

lemma fvec_argsort_ok:
  assumes "std_sort_ok std_sort"
  shows "argsort_ok (fvec_argsort std_sort)"
proof -
  have "mset (fvec_argsort std_sort ds) = mset [0..<length ds]" "sorted (map ((!) ds) (fvec_argsort std_sort ds))" for ds
    using assms strict_weak_argsort_less [of ds] unfolding std_sort_ok_def fvec_argsort_def
    by (auto simp: sorted_wrt_map argsort_less_def not_less)
  then show ?thesis unfolding argsort_ok_def by blast
qed

lemma std_sort_sorted_upt:
  assumes "std_sort_ok std_sort" "\<And>i j. m \<le> i \<Longrightarrow> i < j \<Longrightarrow> j < n \<Longrightarrow> vals ! i < vals ! j"
  shows "std_sort (argsort_less vals) [m..<n] = [m..<n]"
proof -
  let ?xs = "std_sort (argsort_less vals) [m..<n]"
  have m: "mset ?xs = mset [m..<n]" and s: "sorted_wrt (\<lambda>a b. \<not> argsort_less vals b a) ?xs"
    using assms(1) strict_weak_argsort_less [of vals] unfolding std_sort_ok_def by blast+
  have set: "set ?xs = {m..<n}" using arg_cong [OF m, of set_mset] by (simp only: set_mset_mset set_upt)
  have "sorted_wrt (\<le>) ?xs"
  proof (rule sorted_wrt_mono_rel [OF _ s])
    fix a b assume "a \<in> set ?xs" "b \<in> set ?xs" "\<not> argsort_less vals b a"
    then have r: "vals ! a \<le> vals ! b" "m \<le> b" "a < n" using set by (auto simp: argsort_less_def not_less)
    show "a \<le> b"
    proof (rule ccontr)
      assume "\<not> a \<le> b"
      then have "vals ! b < vals ! a" using r(2,3) by (intro assms(2)) auto
      then show False using r(1) by simp
    qed
  qed
  then show ?thesis using properties_for_sort [OF m] by simp
qed

section \<open>Properties\<close>



end
