(* ===== verification/Hash_Table.thy ===== *)
theory Hash_Table
  imports Bucket_Sort Loops "HOL-Library.Signed_Division"
begin

text \<open>
  \<open>faiss/utils/sorting.cpp\<close>: the hash table from \<open>int64_t\<close> to \<open>int64_t\<close> in one array of keys (even positions)
  and values (odd positions). Keys and values are words; the key -1 marks a free slot. A bucket is a
  range of slots that is probed cyclically; the threads of the insertion own disjoint buckets.
\<close>

section \<open>Hashing\<close>

unbundle bit_operations_syntax

definition log2_capacity_to_log2_nbucket :: "nat \<Rightarrow> nat" where
  "log2_capacity_to_log2_nbucket lc = (if lc < 12 then 0 else if lc < 20 then lc - 12 else 10)"

definition bigprime :: int where
  "bigprime = 8955327411143"

definition hash_function :: "64 word \<Rightarrow> int" where
  "hash_function x = sint (x * 1000003) smod bigprime"

definition key_slot :: "nat \<Rightarrow> 64 word \<Rightarrow> nat" where
  "key_slot lc x = nat (hash_function x AND (2 ^ lc - 1))"

definition bucket_bits :: "nat \<Rightarrow> nat" where
  "bucket_bits lc = lc - log2_capacity_to_log2_nbucket lc"

definition slot_bucket :: "nat \<Rightarrow> nat \<Rightarrow> nat" where
  "slot_bucket lc slot = drop_bit (bucket_bits lc) slot"

definition bucket_begin :: "nat \<Rightarrow> nat \<Rightarrow> nat" where
  "bucket_begin lc bucket = push_bit (bucket_bits lc) bucket"

definition hashtable_init :: "nat \<Rightarrow> 64 word list" where
  "hashtable_init lc = replicate (2 * 2 ^ lc) (-1)"

section \<open>Probing\<close>

text \<open>The two probing loops differ in what stops them; \<open>None\<close> means that the loop came back to its start.\<close>

definition next_slot :: "nat \<Rightarrow> nat \<Rightarrow> nat \<Rightarrow> nat" where
  "next_slot k0 k1 slot = (if slot + 1 = k1 then k0 else slot + 1)"

definition probe_step :: "(nat \<Rightarrow> bool) \<Rightarrow> nat \<Rightarrow> nat \<Rightarrow> nat \<Rightarrow> nat \<Rightarrow> nat + nat option" where
  "probe_step stop k0 k1 hk slot =
     (if stop slot then Inr (Some slot)
      else if next_slot k0 k1 slot = hk then Inr None
      else Inl (next_slot k0 k1 slot))"

definition probe :: "(nat \<Rightarrow> bool) \<Rightarrow> nat \<Rightarrow> nat \<Rightarrow> nat option option" where
  "probe stop lc hk =
     (let bucket = slot_bucket lc hk in iterate (probe_step stop (bucket_begin lc bucket) (bucket_begin lc (bucket + 1)) hk) hk)"

section \<open>Insertion\<close>

definition free_or_key :: "64 word list \<Rightarrow> 64 word \<Rightarrow> nat \<Rightarrow> bool" where
  "free_or_key tab k slot \<longleftrightarrow> tab ! (slot * 2) = -1 \<or> tab ! (slot * 2) = k"

definition store :: "64 word list \<Rightarrow> 64 word \<Rightarrow> 64 word \<Rightarrow> nat \<Rightarrow> 64 word list" where
  "store tab k v slot =
     (if tab ! (slot * 2) = -1 then tab[slot * 2 := k, slot * 2 + 1 := v] else tab[slot * 2 + 1 := v])"

text \<open>The entries of one bucket, until one finds no slot; the second component counts the errors.\<close>

fun add_bucket ::
    "nat \<Rightarrow> 64 word list \<Rightarrow> 64 word list \<Rightarrow> nat \<Rightarrow> nat list \<Rightarrow> 64 word list \<Rightarrow> (64 word list \<times> nat) result option" where
  "add_bucket lc keys vals bucket [] tab = Some (Inr (tab, 0))"
| "add_bucket lc keys vals bucket (j # js) tab =
     (let hk = key_slot lc (keys ! j) in
      if \<not> (slot_bucket lc hk = bucket \<and> bucket_begin lc bucket \<le> hk \<and> hk < bucket_begin lc (bucket + 1)) then Some (Inl Assert_failed)
      else
        case probe (free_or_key tab (keys ! j)) lc hk of
          None \<Rightarrow> None
        | Some None \<Rightarrow> Some (Inr (tab, 1))
        | Some (Some slot) \<Rightarrow> add_bucket lc keys vals bucket js (store tab (keys ! j) (vals ! j) slot))"

fun add_bucket_loop ::
    "(nat \<Rightarrow> nat list) \<Rightarrow> nat \<Rightarrow> 64 word list \<Rightarrow> 64 word list \<Rightarrow> nat list \<Rightarrow> 64 word list \<times> nat \<Rightarrow> (64 word list \<times> nat) result option" where
  "add_bucket_loop entries lc keys vals [] st = Some (Inr st)"
| "add_bucket_loop entries lc keys vals (b # bs) (tab, num_errors) =
     (case add_bucket lc keys vals b (entries b) tab of
        None \<Rightarrow> None
      | Some (Inl e) \<Rightarrow> Some (Inl e)
      | Some (Inr (tab, e)) \<Rightarrow> add_bucket_loop entries lc keys vals bs (tab, num_errors + e))"

text \<open>\<open>nt\<close> is the number of threads, \<open>order\<close> their order in the critical section of the bucket sort.\<close>

definition hashtable_add ::
    "nat \<Rightarrow> nat list \<Rightarrow> nat \<Rightarrow> 64 word list \<Rightarrow> 64 word list \<Rightarrow> 64 word list \<Rightarrow> 64 word list result option" where
  "hashtable_add nt order lc tab keys vals =
     (let nbucket = 2 ^ log2_capacity_to_log2_nbucket lc;
          bucket_no = map (\<lambda>k. slot_bucket lc (key_slot lc k)) keys in
      case bucket_sort_nt bucket_no nbucket (replicate (length keys) 0) nt order of
        Inl e \<Rightarrow> Some (Inl e)
      | Inr (lims, perm) \<Rightarrow>
          map_option (\<lambda>r. bind_result r (\<lambda>(tab, num_errors).
              if num_errors \<noteq> 0 then Inl (Throw ''hashtable capacity exhausted'') else Inr tab))
            (add_bucket_loop (\<lambda>b. map ((!) perm) [lims ! b..<lims ! (b + 1)]) lc keys vals [0..<nbucket] (tab, 0)))"

section \<open>Lookup\<close>

definition lookup_key :: "nat \<Rightarrow> 64 word list \<Rightarrow> 64 word \<Rightarrow> 64 word option" where
  "lookup_key lc tab k =
     (let slot = key_slot lc k in
      if tab ! (2 * slot) = -1 then Some (-1)
      else if tab ! (2 * slot) = k then Some (tab ! (2 * slot + 1))
      else map_option (\<lambda>r. case r of None \<Rightarrow> -1 | Some s \<Rightarrow> tab ! (2 * s + 1)) (probe (\<lambda>s. tab ! (s * 2) = k) lc slot))"

fun hashtable_lookup :: "nat \<Rightarrow> 64 word list \<Rightarrow> 64 word list \<Rightarrow> 64 word list option" where
  "hashtable_lookup lc tab [] = Some []"
| "hashtable_lookup lc tab (k # ks) =
     (case lookup_key lc tab k of
        None \<Rightarrow> None
      | Some v \<Rightarrow> map_option ((#) v) (hashtable_lookup lc tab ks))"

end
