(* ===== verification/Hash_Table_Correct.thy ===== *)
theory Hash_Table_Correct
  imports Hash_Table Bucket_Sort_Correct
begin

text \<open>
  The hash table implements a map from keys other than -1: every key is in its bucket, with no free slot between
  the slot of its hash and its own. Insertion fails only when a bucket gets more keys than it has slots.
\<close>

section \<open>Slots and buckets\<close>

definition bucket_size :: "nat \<Rightarrow> nat" where
  "bucket_size lc = 2 ^ bucket_bits lc"

definition key_bucket :: "nat \<Rightarrow> 64 word \<Rightarrow> nat" where
  "key_bucket lc k = slot_bucket lc (key_slot lc k)"

lemma log2_nbucket_le: "log2_capacity_to_log2_nbucket lc \<le> lc"
  by (simp add: log2_capacity_to_log2_nbucket_def)

lemma bucket_size_pos [simp]: "0 < bucket_size lc"
  by (simp add: bucket_size_def)

lemma capacity_split: "(2 :: nat) ^ lc = 2 ^ log2_capacity_to_log2_nbucket lc * bucket_size lc"
  using log2_nbucket_le [of lc] by (simp add: bucket_size_def bucket_bits_def flip: power_add)

lemma bucket_begin_eq: "bucket_begin lc b = b * bucket_size lc"
  by (simp add: bucket_begin_def bucket_size_def push_bit_eq_mult)

lemma slot_bucket_eq: "slot_bucket lc s = s div bucket_size lc"
  by (simp add: slot_bucket_def bucket_size_def drop_bit_eq_div)

lemma slot_in_bucket: "bucket_begin lc (slot_bucket lc s) \<le> s" "s < bucket_begin lc (slot_bucket lc s + 1)"
  using div_mult_mod_eq [of s "bucket_size lc"] mod_less_divisor [OF bucket_size_pos, of s lc]
  unfolding bucket_begin_eq slot_bucket_eq add_mult_distrib by linarith+

lemma key_slot_less: "key_slot lc k < 2 ^ lc"
proof -
  have "hash_function k AND (2 ^ lc - 1) = take_bit lc (hash_function k)"
    by (simp add: take_bit_eq_mask mask_eq_exp_minus_1)
  moreover have "0 \<le> take_bit lc (hash_function k)" "take_bit lc (hash_function k) < 2 ^ lc"
    by (simp_all add: take_bit_int_less_exp)
  ultimately show ?thesis by (simp add: key_slot_def nat_less_iff)
qed

lemma slot_bucket_less: "s < 2 ^ lc \<Longrightarrow> slot_bucket lc s < 2 ^ log2_capacity_to_log2_nbucket lc"
  unfolding slot_bucket_eq by (rule less_mult_imp_div_less) (simp add: capacity_split [of lc])

section \<open>Probing\<close>

text \<open>The slot of step \<open>t\<close>.\<close>

definition probed :: "nat \<Rightarrow> nat \<Rightarrow> nat \<Rightarrow> nat" where
  "probed lc hk t = bucket_begin lc (slot_bucket lc hk) + (hk mod bucket_size lc + t) mod bucket_size lc"

lemma probed_0 [simp]: "probed lc hk 0 = hk"
  by (simp add: probed_def bucket_begin_eq slot_bucket_eq)

lemma probed_bucket [simp]: "slot_bucket lc (probed lc hk t) = slot_bucket lc hk"
  by (simp add: probed_def bucket_begin_eq slot_bucket_eq)

lemma probed_Suc:
  "next_slot (bucket_begin lc (slot_bucket lc hk)) (bucket_begin lc (slot_bucket lc hk + 1)) (probed lc hk t) = probed lc hk (Suc t)"
  by (simp add: next_slot_def probed_def bucket_begin_eq mod_Suc)

lemma probed_back:
  assumes "t < bucket_size lc" "probed lc hk t = hk"
  shows "t = 0"
proof -
  let ?m = "bucket_size lc" let ?a = "hk mod ?m"
  have "(?a + t) mod ?m = ?a" 
    using assms(2) div_mult_mod_eq [of hk ?m] unfolding probed_def bucket_begin_eq slot_bucket_eq by linarith
  moreover have "?a < ?m" by simp
  ultimately show ?thesis using assms(1) by (cases "?a + t < ?m") (auto simp: mod_if [of "?a + t"])
qed

lemma probed_end [simp]: "probed lc hk (bucket_size lc) = hk"
  by (simp add: probed_def bucket_begin_eq slot_bucket_eq)

lemma probed_onto:
  assumes "slot_bucket lc s = slot_bucket lc hk"
  shows "\<exists>t < bucket_size lc. s = probed lc hk t"
proof -
  let ?m = "bucket_size lc" let ?a = "hk mod ?m" let ?c = "s mod ?m"
  let ?t = "(?c + (?m - ?a)) mod ?m"
  have am: "?a < ?m" by simp
  have "(?a + ?t) mod ?m = (?a + (?c + (?m - ?a))) mod ?m" by (rule mod_add_right_eq)
  also have "?a + (?c + (?m - ?a)) = ?c + ?m" using am by linarith
  finally have "(?a + ?t) mod ?m = ?c" by simp
  then have "probed lc hk ?t = hk div ?m * ?m + ?c" unfolding probed_def bucket_begin_eq slot_bucket_eq by (rule arg_cong)
  also have "hk div ?m = s div ?m" using assms by (simp add: slot_bucket_eq)
  finally have p: "probed lc hk ?t = s" unfolding div_mult_mod_eq .
  have "?t < ?m" by simp
  from exI [of "\<lambda>t. t < ?m \<and> s = probed lc hk t", OF conjI, OF this p [symmetric]] show ?thesis .
qed

lemma probed_inj:
  assumes "a < bucket_size lc" "b < bucket_size lc" "probed lc hk a = probed lc hk b"
  shows "a = b"
proof -
  let ?m = "bucket_size lc" let ?h = "hk mod ?m"
  have wrap: "(?h + x) mod ?m = (if ?h + x < ?m then ?h + x else ?h + x - ?m)" if "x < ?m" for x
  proof -
    have "?h < ?m" by simp
    then have "\<not> ?h + x < ?m \<Longrightarrow> ?h + x - ?m < ?m" using that by linarith
    then show ?thesis by (simp add: mod_if [of "?h + x"])
  qed
  have "(?h + a) mod ?m = (?h + b) mod ?m" using assms(3) by (simp only: probed_def add_left_cancel)
  then show ?thesis unfolding wrap [OF assms(1)] wrap [OF assms(2)] using assms(1,2) mod_less_divisor [OF bucket_size_pos, of hk lc]
    by (simp split: if_splits)
qed

text \<open>A probing loop ends: at the first slot that stops it, or after all slots of the bucket.\<close>

lemma probe_from:
  assumes "t < bucket_size lc" "\<forall>u < t. \<not> stop (probed lc hk u)"
  shows "(\<exists>t' < bucket_size lc. stop (probed lc hk t') \<and> (\<forall>u < t'. \<not> stop (probed lc hk u))
      \<and> iterate (probe_step stop (bucket_begin lc (slot_bucket lc hk)) (bucket_begin lc (slot_bucket lc hk + 1)) hk) (probed lc hk t)
        = Some (Some (probed lc hk t')))
    \<or> ((\<forall>u < bucket_size lc. \<not> stop (probed lc hk u))
      \<and> iterate (probe_step stop (bucket_begin lc (slot_bucket lc hk)) (bucket_begin lc (slot_bucket lc hk + 1)) hk) (probed lc hk t) = Some None)"
  using assms
proof (induction "bucket_size lc - t" arbitrary: t)
  case (Suc d)
  let ?body = "probe_step stop (bucket_begin lc (slot_bucket lc hk)) (bucket_begin lc (slot_bucket lc hk + 1)) hk"
  show ?case
  proof (cases "stop (probed lc hk t)")
    case True
    then have "?body (probed lc hk t) = Inr (Some (probed lc hk t))" by (simp add: probe_step_def)
    from iterate_Inr [of ?body, OF this] show ?thesis using True Suc.prems by blast
  next
    case no: False
    then have all: "\<forall>u < Suc t. \<not> stop (probed lc hk u)" using Suc.prems(2) by (simp add: less_Suc_eq)
    show ?thesis
    proof (cases "probed lc hk (Suc t) = hk")
      case True
      then have "Suc t = bucket_size lc" using probed_back [of "Suc t" lc hk] Suc.prems(1) by (cases "Suc t < bucket_size lc") auto
      moreover have "?body (probed lc hk t) = Inr None" using no True probed_Suc [of lc hk t] by (simp add: probe_step_def)
      ultimately show ?thesis using all iterate_Inr [of ?body] by simp
    next
      case False
      then have b: "?body (probed lc hk t) = Inl (probed lc hk (Suc t))" using no probed_Suc [of lc hk t] by (simp add: probe_step_def)
      have lt: "Suc t < bucket_size lc" using False Suc.prems(1) probed_end [of lc hk] by (metis Suc_lessI)
      have d: "d = bucket_size lc - Suc t" using Suc.hyps(2) by simp
      show ?thesis using Suc.hyps(1) [OF d lt all] unfolding iterate_Inl [of ?body, OF b] .
    qed
  qed
qed simp

lemma probe_cases:
  obtains (hit) t where "t < bucket_size lc" "stop (probed lc hk t)" "\<forall>u < t. \<not> stop (probed lc hk u)" "probe stop lc hk = Some (Some (probed lc hk t))"
  | (miss) "\<forall>u < bucket_size lc. \<not> stop (probed lc hk u)" "probe stop lc hk = Some None"
  using probe_from [of 0 lc stop hk] unfolding probe_def Let_def by auto

section \<open>The invariant\<close>

abbreviation key_at :: "64 word list \<Rightarrow> nat \<Rightarrow> 64 word" where
  "key_at tab s \<equiv> tab ! (s * 2)"

definition reached :: "nat \<Rightarrow> 64 word list \<Rightarrow> nat \<Rightarrow> bool" where
  "reached lc tab s \<longleftrightarrow>
     (\<exists>t < bucket_size lc. s = probed lc (key_slot lc (key_at tab s)) t
        \<and> (\<forall>u \<le> t. key_at tab (probed lc (key_slot lc (key_at tab s)) u) \<noteq> -1))"

definition hashtable_ok :: "nat \<Rightarrow> 64 word list \<Rightarrow> bool" where
  "hashtable_ok lc tab \<longleftrightarrow> length tab = 2 * 2 ^ lc
     \<and> (\<forall>s < 2 ^ lc. key_at tab s \<noteq> -1 \<longrightarrow> reached lc tab s)
     \<and> (\<forall>s < 2 ^ lc. \<forall>s' < 2 ^ lc. key_at tab s = key_at tab s' \<longrightarrow> key_at tab s \<noteq> -1 \<longrightarrow> s = s')"

text \<open>The map that a table stands for.\<close>

definition hashtable_map :: "nat \<Rightarrow> 64 word list \<Rightarrow> 64 word \<rightharpoonup> 64 word" where
  "hashtable_map lc tab = map_of (map (\<lambda>s. (key_at tab s, tab ! (s * 2 + 1))) (filter (\<lambda>s. key_at tab s \<noteq> -1) [0..<2 ^ lc]))"

lemma hashtable_map_iff:
  assumes "hashtable_ok lc tab"
  shows "hashtable_map lc tab k = Some v \<longleftrightarrow> k \<noteq> -1 \<and> (\<exists>s < 2 ^ lc. key_at tab s = k \<and> tab ! (s * 2 + 1) = v)"
proof -
  have "inj_on (\<lambda>s. key_at tab s) {s. s < 2 ^ lc \<and> key_at tab s \<noteq> -1}"
    using assms by (auto simp: hashtable_ok_def inj_on_def)
  then have "distinct (map fst (map (\<lambda>s. (key_at tab s, tab ! (s * 2 + 1))) (filter (\<lambda>s. key_at tab s \<noteq> -1) [0..<2 ^ lc])))"
    by (simp add: distinct_map comp_def inj_on_def)
  then show ?thesis unfolding hashtable_map_def by (auto simp: map_of_eq_Some_iff)
qed

lemma hashtable_map_None:
  assumes "hashtable_ok lc tab"
  shows "hashtable_map lc tab k = None \<longleftrightarrow> k = -1 \<or> (\<forall>s < 2 ^ lc. key_at tab s \<noteq> k)"
  using hashtable_map_iff [OF assms, of k] by (metis not_Some_eq)

lemma probed_less [simp]: "probed lc (key_slot lc k) t < 2 ^ lc"
proof -
  have "slot_bucket lc (probed lc (key_slot lc k) t) < 2 ^ log2_capacity_to_log2_nbucket lc"
    unfolding probed_bucket by (rule slot_bucket_less [OF key_slot_less])
  then show ?thesis unfolding slot_bucket_eq capacity_split [of lc] by (simp add: div_less_iff_less_mult)
qed

lemma hashtable_init_ok: "hashtable_ok lc (hashtable_init lc)" "hashtable_map lc (hashtable_init lc) = Map.empty"
proof -
  have k: "key_at (hashtable_init lc) s = -1" if "s < 2 ^ lc" for s
    using that by (simp add: hashtable_init_def)
  then show ok: "hashtable_ok lc (hashtable_init lc)" by (simp add: hashtable_ok_def) (simp add: hashtable_init_def)
  show "hashtable_map lc (hashtable_init lc) = Map.empty"
    using k by (auto simp: hashtable_map_None [OF ok])
qed

text \<open>A key that the table holds is found by probing from its hash.\<close>

lemma stored_probed:
  assumes "hashtable_ok lc tab" "s < 2 ^ lc" "key_at tab s = k" "k \<noteq> -1"
  obtains t where "t < bucket_size lc" "s = probed lc (key_slot lc k) t" "\<forall>u \<le> t. key_at tab (probed lc (key_slot lc k) u) \<noteq> -1"
  using assms unfolding hashtable_ok_def reached_def by blast

section \<open>Lookup and insertion of one key\<close>

lemma lookup_key_map:
  assumes ok: "hashtable_ok lc tab" and k: "k \<noteq> -1"
  shows "lookup_key lc tab k = Some (case hashtable_map lc tab k of None \<Rightarrow> -1 | Some v \<Rightarrow> v)"
proof (cases "hashtable_map lc tab k")
  case None
  then have no: "\<forall>s < 2 ^ lc. key_at tab s \<noteq> k" using hashtable_map_None [OF ok] k by blast
  show ?thesis
  proof (cases rule: probe_cases [of lc "\<lambda>s. key_at tab s = k" "key_slot lc k"])
    case (hit t)
    then show ?thesis using no by simp
  next
    case miss
    then show ?thesis using None no key_slot_less [of lc k] by (simp add: lookup_key_def Let_def mult.commute)
  qed
next
  case (Some v)
  then obtain s where s: "s < 2 ^ lc" "key_at tab s = k" "tab ! (s * 2 + 1) = v" using hashtable_map_iff [OF ok] by blast
  from stored_probed [OF ok s(1,2) k] obtain t where
    t: "t < bucket_size lc" "s = probed lc (key_slot lc k) t" "\<forall>u \<le> t. key_at tab (probed lc (key_slot lc k) u) \<noteq> -1" .
  have uniq: "s' = s" if "s' < 2 ^ lc" "key_at tab s' = k" for s'
    using ok that s(1,2) k unfolding hashtable_ok_def by metis
  have h: "tab ! (2 * key_slot lc k) \<noteq> -1" using t(3) [rule_format, of 0] by (simp add: mult.commute)
  show ?thesis
  proof (cases rule: probe_cases [of lc "\<lambda>s. key_at tab s = k" "key_slot lc k"])
    case (hit t')
    have p: "probed lc (key_slot lc k) t' = s" by (rule uniq [OF probed_less hit(2)])
    have "tab ! (2 * s + 1) = v" using s(3) by (simp add: mult.commute)
    moreover have "tab ! (2 * key_slot lc k) = k \<Longrightarrow> key_slot lc k = s" using uniq [OF key_slot_less] by (simp add: mult.commute)
    ultimately show ?thesis using Some hit(4) h unfolding lookup_key_def Let_def p by auto
  next
    case miss
    then show ?thesis using t(1,2) s(2) by blast
  qed
qed

text \<open>What \<open>store\<close> writes.\<close>

lemma store_at:
  assumes "length tab = 2 * 2 ^ lc" "slot < 2 ^ lc" "free_or_key tab k slot" "s < 2 ^ lc"
  shows "key_at (store tab k v slot) s = (if s = slot then k else key_at tab s)"
    "store tab k v slot ! (s * 2 + 1) = (if s = slot then v else tab ! (s * 2 + 1))"
proof -
  have odd: "slot * 2 + 1 \<noteq> s * 2" "s * 2 + 1 \<noteq> slot * 2" by presburger+
  have b: "slot * 2 < length tab" "slot * 2 + 1 < length tab" "s * 2 < length tab" "s * 2 + 1 < length tab" using assms by linarith+
  show "key_at (store tab k v slot) s = (if s = slot then k else key_at tab s)"
    using assms(3) b odd by (auto simp: store_def free_or_key_def nth_list_update)
  show "store tab k v slot ! (s * 2 + 1) = (if s = slot then v else tab ! (s * 2 + 1))"
    using b odd by (auto simp: store_def nth_list_update)
qed

lemma store_ok:
  assumes ok: "hashtable_ok lc tab" and k: "k \<noteq> -1" and t: "t < bucket_size lc"
    and stop: "free_or_key tab k (probed lc (key_slot lc k) t)" and first: "\<forall>u < t. \<not> free_or_key tab k (probed lc (key_slot lc k) u)"
  shows "hashtable_ok lc (store tab k v (probed lc (key_slot lc k) t))"
    "hashtable_map lc (store tab k v (probed lc (key_slot lc k) t)) = (hashtable_map lc tab)(k \<mapsto> v)"
proof -
  let ?s = "probed lc (key_slot lc k) t" let ?tab = "store tab k v ?s"
  have len: "length tab = 2 * 2 ^ lc" using ok by (simp add: hashtable_ok_def)
  note at = store_at [OF len probed_less stop, of _ v]
  have uniq: "s = ?s" if s: "s < 2 ^ lc" "key_at tab s = k" for s
  proof -
    from stored_probed [OF ok s k] obtain t' where
      t': "s = probed lc (key_slot lc k) t'" "\<forall>u \<le> t'. key_at tab (probed lc (key_slot lc k) u) \<noteq> -1" by blast
    have "\<not> t' < t" using first t'(1) s(2) by (auto simp: free_or_key_def)
    then have "key_at tab ?s \<noteq> -1" using t'(2) by auto
    then have "key_at tab ?s = k" using stop by (simp add: free_or_key_def)
    then show ?thesis using ok s k probed_less unfolding hashtable_ok_def by metis
  qed
  have keep: "key_at ?tab s \<noteq> -1" if "s < 2 ^ lc" "key_at tab s \<noteq> -1" for s
    using at(1) [OF that(1)] that(2) k by simp
  have "reached lc ?tab s" if s: "s < 2 ^ lc" "key_at ?tab s \<noteq> -1" for s
  proof (cases "s = ?s")
    case True
    have "key_at ?tab (probed lc (key_slot lc k) u) \<noteq> -1" if "u \<le> t" for u
    proof (cases "u = t")
      case False
      then have "key_at tab (probed lc (key_slot lc k) u) \<noteq> -1" using first that by (simp add: free_or_key_def)
      then show ?thesis by (rule keep [OF probed_less])
    qed (use at(1) [OF probed_less [of lc k t]] k in simp)
    moreover have "key_at ?tab s = k" using at(1) [OF s(1)] True by simp
    ultimately show ?thesis using t True unfolding reached_def by auto
  next
    case False
    then have e: "key_at ?tab s = key_at tab s" using at(1) [OF s(1)] by simp
    then have "reached lc tab s" using ok s by (simp add: hashtable_ok_def)
    then show ?thesis unfolding reached_def e using keep [OF probed_less] by metis
  qed
  moreover have "s = s'" if ss: "s < 2 ^ lc" "s' < 2 ^ lc" "key_at ?tab s = key_at ?tab s'" "key_at ?tab s \<noteq> -1" for s s'
  proof -
    have inj: "key_at tab s = key_at tab s' \<Longrightarrow> key_at tab s \<noteq> -1 \<Longrightarrow> s = s'" using ok ss(1,2) unfolding hashtable_ok_def by blast
    show ?thesis
    proof (cases "s = ?s")
      case True
      then have "key_at ?tab s' = k" using ss(3) at(1) [OF ss(1)] by simp
      then show ?thesis using True uniq [OF ss(2)] at(1) [OF ss(2)] by (cases "s' = ?s") simp_all
    next
      case False
      then have e: "key_at ?tab s = key_at tab s" using at(1) [OF ss(1)] by simp
      have "s' \<noteq> ?s"
      proof
        assume "s' = ?s"
        then have "key_at tab s = k" using e ss(3) at(1) [OF ss(2)] by simp
        then show False using uniq [OF ss(1)] False by blast
      qed
      then have "key_at ?tab s' = key_at tab s'" using at(1) [OF ss(2)] by simp
      then show ?thesis using inj e ss(3,4) by simp
    qed
  qed
  moreover have "length ?tab = 2 * 2 ^ lc" using len by (simp add: store_def)
  ultimately show ok': "hashtable_ok lc ?tab" by (simp add: hashtable_ok_def)
  show "hashtable_map lc ?tab = (hashtable_map lc tab)(k \<mapsto> v)"
  proof
    fix x
    show "hashtable_map lc ?tab x = ((hashtable_map lc tab)(k \<mapsto> v)) x"
    proof (cases "x = k")
      case True
      have "hashtable_map lc ?tab k = Some v" unfolding hashtable_map_iff [OF ok']
        by (intro conjI k exI [of _ ?s] probed_less) (simp_all only: at [OF probed_less] if_True simp_thms)
      then show ?thesis using True by simp
    next
      case False
      have "key_at ?tab s = x \<and> ?tab ! (s * 2 + 1) = w \<longleftrightarrow> key_at tab s = x \<and> tab ! (s * 2 + 1) = w" if "s < 2 ^ lc" "x \<noteq> -1" for s w
      proof (cases "s = ?s")
        case True
        then have "key_at tab s \<noteq> x" using stop False that(2) by (auto simp: free_or_key_def)
        then show ?thesis using at(1) [OF that(1)] True False by simp
      next
        case False
        then show ?thesis using at [OF that(1)] by simp
      qed
      then have "hashtable_map lc ?tab x = Some w \<longleftrightarrow> hashtable_map lc tab x = Some w" for w
        unfolding hashtable_map_iff [OF ok'] hashtable_map_iff [OF ok] by blast
      then show ?thesis using False by (cases "hashtable_map lc tab x") auto
    qed
  qed
qed

section \<open>Insertion of many keys\<close>

definition overfull :: "nat \<Rightarrow> 64 word set \<Rightarrow> nat \<Rightarrow> bool" where
  "overfull lc D b \<longleftrightarrow> bucket_size lc < card {k \<in> D. key_bucket lc k = b}"

definition put_all :: "64 word list \<Rightarrow> 64 word list \<Rightarrow> nat list \<Rightarrow> (64 word \<rightharpoonup> 64 word) \<Rightarrow> (64 word \<rightharpoonup> 64 word)" where
  "put_all keys vals js m = foldl (\<lambda>m j. m(keys ! j \<mapsto> vals ! j)) m js"

lemma put_all_simps [simp]: "put_all keys vals [] m = m"
  "put_all keys vals (j # js) m = put_all keys vals js (m(keys ! j \<mapsto> vals ! j))"
  "put_all keys vals (is @ js) m = put_all keys vals js (put_all keys vals is m)"
  by (simp_all add: put_all_def)

text \<open>No slot stops the probing: the bucket is full of other keys.\<close>

lemma miss_overfull:
  assumes ok: "hashtable_ok lc tab" and miss: "\<forall>u < bucket_size lc. \<not> free_or_key tab k (probed lc (key_slot lc k) u)"
    and D: "finite D" "dom (hashtable_map lc tab) \<subseteq> D" "k \<in> D"
  shows "overfull lc D (key_bucket lc k)"
proof -
  let ?p = "probed lc (key_slot lc k)" and ?m = "bucket_size lc"
  let ?K = "(\<lambda>u. key_at tab (?p u)) ` {..<?m}"
  have u: "key_at tab (?p u) \<noteq> -1" "key_at tab (?p u) \<noteq> k" if "u < ?m" for u
    using miss that by (auto simp: free_or_key_def)
  have "inj_on (\<lambda>u. key_at tab (?p u)) {..<?m}"
  proof (rule inj_onI)
    fix a b assume ab: "a \<in> {..<?m}" "b \<in> {..<?m}" "key_at tab (?p a) = key_at tab (?p b)"
    have p: "?p a = ?p b" using ok u(1) [of a] ab probed_less unfolding hashtable_ok_def by auto
    from ab(1,2) have "a < ?m" "b < ?m" by simp_all
    from probed_inj [OF this p] show "a = b" .
  qed
  then have "card ?K = ?m" by (simp add: card_image)
  moreover have "k \<notin> ?K"
  proof
    assume "k \<in> ?K"
    then obtain a where a: "k = key_at tab (?p a)" "a < ?m" by (elim imageE) (simp only: lessThan_iff)
    from u(2) [OF a(2)] a(1) [symmetric] show False by (rule notE)
  qed
  ultimately have c: "card (insert k ?K) = ?m + 1" by simp
  have "key_at tab (?p a) \<in> D" "key_bucket lc (key_at tab (?p a)) = key_bucket lc k" if a: "a < ?m" for a
  proof -
    have "hashtable_map lc tab (key_at tab (?p a)) = Some (tab ! (?p a * 2 + 1))"
      unfolding hashtable_map_iff [OF ok] using u(1) [OF a] probed_less by blast
    then show "key_at tab (?p a) \<in> D" using D(2) by blast
    from stored_probed [OF ok probed_less refl u(1) [OF a]] obtain t where
      "?p a = probed lc (key_slot lc (key_at tab (?p a))) t" by blast
    then have "slot_bucket lc (?p a) = key_bucket lc (key_at tab (?p a))" unfolding key_bucket_def by (metis probed_bucket)
    then show "key_bucket lc (key_at tab (?p a)) = key_bucket lc k" by (simp add: key_bucket_def)
  qed
  then have "insert k ?K \<subseteq> {k' \<in> D. key_bucket lc k' = key_bucket lc k}" using D(3) by auto
  from card_mono [OF _ this] show ?thesis using c D(1) by (simp add: overfull_def)
qed

lemma add_bucket_spec:
  assumes "hashtable_ok lc tab" "\<forall>j \<in> set js. keys ! j \<noteq> -1 \<and> key_bucket lc (keys ! j) = b \<and> keys ! j \<in> D"
    "finite D" "dom (hashtable_map lc tab) \<subseteq> D"
  shows "\<exists>tab' e. add_bucket lc keys vals b js tab = Some (Inr (tab', e)) \<and> hashtable_ok lc tab' \<and> dom (hashtable_map lc tab') \<subseteq> D
    \<and> (if e = 0 then hashtable_map lc tab' = put_all keys vals js (hashtable_map lc tab) else overfull lc D b)"
  using assms
proof (induction js arbitrary: tab)
  case (Cons j js)
  let ?k = "keys ! j" let ?hk = "key_slot lc (keys ! j)"
  have k: "?k \<noteq> -1" "slot_bucket lc ?hk = b" "?k \<in> D" using Cons.prems(2) by (auto simp: key_bucket_def)
  have r: "bucket_begin lc b \<le> ?hk" "?hk < bucket_begin lc (b + 1)" 
    using slot_in_bucket(1) [of lc ?hk] slot_in_bucket(2) [of ?hk lc] unfolding k(2) .
  show ?case
  proof (cases rule: probe_cases [of lc "free_or_key tab ?k" ?hk])
    case (hit t)
    let ?tab = "store tab ?k (vals ! j) (probed lc ?hk t)"
    note st = store_ok [OF Cons.prems(1) k(1) hit(1-3), of "vals ! j"]
    have "dom (hashtable_map lc ?tab) \<subseteq> D" using st(2) Cons.prems(4) k(3) by auto
    from Cons.IH [OF st(1) _ Cons.prems(3) this] Cons.prems(2) obtain tab' e where
      "add_bucket lc keys vals b js ?tab = Some (Inr (tab', e))" "hashtable_ok lc tab'" "dom (hashtable_map lc tab') \<subseteq> D"
      "if e = 0 then hashtable_map lc tab' = put_all keys vals js (hashtable_map lc ?tab) else overfull lc D b" by auto
    then show ?thesis using hit(4) k(2) r st(2) by simp
  next
    case miss
    then show ?thesis using k r miss_overfull [OF Cons.prems(1) miss(1) Cons.prems(3,4) k(3)] Cons.prems(1,4)
      by (simp add: key_bucket_def)
  qed
qed simp

lemma add_bucket_loop_spec:
  assumes "hashtable_ok lc tab" "\<forall>b \<in> set bs. \<forall>j \<in> set (entries b). keys ! j \<noteq> -1 \<and> key_bucket lc (keys ! j) = b \<and> keys ! j \<in> D"
    "finite D" "dom (hashtable_map lc tab) \<subseteq> D"
  shows "\<exists>tab' e'. add_bucket_loop entries lc keys vals bs (tab, e) = Some (Inr (tab', e')) \<and> hashtable_ok lc tab'
    \<and> dom (hashtable_map lc tab') \<subseteq> D
    \<and> (if e' = 0 then e = 0 \<and> hashtable_map lc tab' = put_all keys vals (concat (map entries bs)) (hashtable_map lc tab)
       else e \<noteq> 0 \<or> (\<exists>b \<in> set bs. overfull lc D b))"
  using assms
proof (induction bs arbitrary: tab e)
  case (Cons b bs)
  from add_bucket_spec [OF Cons.prems(1) _ Cons.prems(3,4), of "entries b" keys b vals] Cons.prems(2) obtain tab1 e1 where
    1: "add_bucket lc keys vals b (entries b) tab = Some (Inr (tab1, e1))" "hashtable_ok lc tab1" "dom (hashtable_map lc tab1) \<subseteq> D"
    "if e1 = 0 then hashtable_map lc tab1 = put_all keys vals (entries b) (hashtable_map lc tab) else overfull lc D b" by auto
  from Cons.IH [OF 1(2) _ Cons.prems(3) 1(3), of "e + e1"] Cons.prems(2) obtain tab' e' where
    "add_bucket_loop entries lc keys vals bs (tab1, e + e1) = Some (Inr (tab', e'))" "hashtable_ok lc tab'"
    "dom (hashtable_map lc tab') \<subseteq> D"
    "if e' = 0 then e + e1 = 0 \<and> hashtable_map lc tab' = put_all keys vals (concat (map entries bs)) (hashtable_map lc tab1)
       else e + e1 \<noteq> 0 \<or> (\<exists>b \<in> set bs. overfull lc D b)" by auto
  then show ?case using 1(1,4) by (cases "e' = 0"; cases "e1 = 0") auto
qed simp

section \<open>Properties\<close>

lemma put_all_map:
  assumes "distinct (map ((!) keys) js)" "set js = {..<length keys}" "distinct keys" "length vals = length keys"
  shows "put_all keys vals js m = m ++ map_of (zip keys vals)"
proof -
  have "put_all keys vals js m = m ++ map_of (rev (map (\<lambda>j. (keys ! j, vals ! j)) js))" for js m
    by (induction js arbitrary: m) (simp_all add: map_add_upd_left)
  moreover have "map_of (rev (map (\<lambda>j. (keys ! j, vals ! j)) js)) = map_of (zip keys vals)"
  proof (rule map_of_inject_set [THEN iffD2])
    have s: "set (zip keys vals) = (\<lambda>j. (keys ! j, vals ! j)) ` {..<length keys}" using assms(4) by (auto simp: set_zip)
    show "set (rev (map (\<lambda>j. (keys ! j, vals ! j)) js)) = set (zip keys vals)" unfolding s by (simp add: assms(2))
    show "distinct (map fst (rev (map (\<lambda>j. (keys ! j, vals ! j)) js)))" using assms(1) by (simp add: rev_map [symmetric] comp_def)
    show "distinct (map fst (zip keys vals))" using assms(3,4) by simp
  qed
  ultimately show ?thesis by simp
qed

lemma hashtable_add_spec:
  assumes ok: "hashtable_ok lc tab" and keys: "distinct keys" "-1 \<notin> set keys" "length vals = length keys"
    and nt: "0 < nt" "mset order = mset [0..<nt]"
  shows "(\<exists>tab'. hashtable_add nt order lc tab keys vals = Some (Inr tab') \<and> hashtable_ok lc tab'
      \<and> hashtable_map lc tab' = hashtable_map lc tab ++ map_of (zip keys vals))
    \<or> (hashtable_add nt order lc tab keys vals = Some (Inl (Throw ''hashtable capacity exhausted''))
      \<and> (\<exists>b. overfull lc (dom (hashtable_map lc tab) \<union> set keys) b))"
proof -
  let ?n = "length keys" let ?bn = "map (\<lambda>k. slot_bucket lc (key_slot lc k)) keys" let ?nb = "2 ^ log2_capacity_to_log2_nbucket lc"
  let ?D = "dom (hashtable_map lc tab) \<union> set keys"
  have v: "\<forall>i < length ?bn. ?bn ! i < ?nb" using slot_bucket_less [OF key_slot_less] by simp
  have len: "length (replicate ?n 0) = length ?bn" by simp
  from bucket_sort_parallel_correct [OF v len nt] obtain lims perm where
    bs: "bucket_sort_parallel nt order ?bn ?nb (replicate ?n 0) = Inr (lims, perm)"
    and places: "\<forall>l < ?nb. map ((!) perm) [lims ! l..<lims ! Suc l] = concat (map (piece ?bn nt l) order)" by blast
  let ?entries = "\<lambda>b. map ((!) perm) [lims ! b..<lims ! (b + 1)]"
  have ent: "mset (?entries b) = mset (keyed ((!) ?bn) ?n b)" if "b < ?nb" for b
    using places [rule_format, OF that] mset_pieces [OF nt, of ?bn b] by (simp only: Suc_eq_plus1 length_map)
  have sent: "set (?entries b) = {j. j < ?n \<and> ?bn ! j = b}" if "b < ?nb" for b
    using arg_cong [OF ent [OF that], of set_mset] by (simp only: set_mset_mset set_keyed)
  let ?js = "concat (map ?entries [0..<?nb])"
  have set: "set ?js = {..<?n}" using sent v by auto
  have "length ?js = (\<Sum>b < ?nb. length (?entries b))"
    unfolding length_concat by (simp add: comp_def interv_sum_list_conv_sum_set_nat atLeast0LessThan)
  also have "\<dots> = bucket_start ((!) ?bn) ?n ?nb"
    unfolding bucket_start_def using arg_cong [OF ent, of _ size] by (intro sum.cong [OF refl]) (simp only: size_mset lessThan_iff)
  also have "\<dots> = card (set ?js)" using bucket_start_total [OF v] unfolding set card_lessThan length_map .
  finally have "distinct ?js" by (rule card_distinct [OF sym])
  then have dist: "distinct (map ((!) keys) ?js)"
    using keys(1) set by (simp only: distinct_map) (auto simp: inj_on_def nth_eq_iff_index_eq)
  have good: "\<forall>b \<in> set [0..<?nb]. \<forall>j \<in> set (?entries b). keys ! j \<noteq> -1 \<and> key_bucket lc (keys ! j) = b \<and> keys ! j \<in> ?D"
  proof (intro ballI)
    fix b j assume "b \<in> set [0..<?nb]" "j \<in> set (?entries b)"
    then have j: "j < ?n" "?bn ! j = b" using sent [of b] by auto
    then have "keys ! j \<in> set keys" "key_bucket lc (keys ! j) = b" by (simp_all add: key_bucket_def)
    then show "keys ! j \<noteq> -1 \<and> key_bucket lc (keys ! j) = b \<and> keys ! j \<in> ?D"
      using keys(2) by auto
  qed
  have "finite ?D" by (simp add: hashtable_map_def finite_dom_map_of)
  from add_bucket_loop_spec [OF ok good this, of vals 0] obtain tab' e where
    l: "add_bucket_loop ?entries lc keys vals [0..<?nb] (tab, 0) = Some (Inr (tab', e))" "hashtable_ok lc tab'"
    "if e = 0 then 0 = (0 :: nat) \<and> hashtable_map lc tab' = put_all keys vals ?js (hashtable_map lc tab)
       else 0 \<noteq> (0 :: nat) \<or> (\<exists>b \<in> set [0..<?nb]. overfull lc ?D b)"
    by blast
  have "hashtable_add nt order lc tab keys vals =
      Some (if e \<noteq> 0 then Inl (Throw ''hashtable capacity exhausted'') else Inr tab')"
    using nt(1) bs l(1) by (simp add: hashtable_add_def bucket_sort_nt_def)
  then show ?thesis using l(2,3) put_all_map [OF dist set keys(1,3)] by (cases "e = 0") auto
qed

text \<open>Two keys never fill a bucket of eight slots.\<close>

lemma two_keys_fit: "\<not> overfull 3 {7, 5} b"
proof -
  have "card {k \<in> {7, 5}. key_bucket 3 k = b} \<le> card {7, 5 :: 64 word}" by (rule card_mono) auto
  also have "\<dots> \<le> 8" by simp
  also have "8 = bucket_size 3" by code_simp
  finally show ?thesis by (simp add: overfull_def)
qed

text \<open>
  C23. Insertion refines the update of a map: for new keys that differ and are not -1, on any number of threads and
  in any order of their critical sections, it returns a well-formed table whose map is the old
  one updated with the keys and values; or it throws, and then some bucket gets more keys than it
  has slots.
\<close>

theorem hashtable_add_refines:
  assumes ok: "hashtable_ok lc tab" and keys: "distinct keys" "-1 \<notin> set keys" "length vals = length keys"
    and nt: "0 < nt" "mset order = mset [0..<nt]"
  shows "(\<exists>tab'. hashtable_add nt order lc tab keys vals = Some (Inr tab') \<and> hashtable_ok lc tab'
      \<and> hashtable_map lc tab' = hashtable_map lc tab ++ map_of (zip keys vals))
    \<or> (hashtable_add nt order lc tab keys vals = Some (Inl (Throw ''hashtable capacity exhausted''))
      \<and> (\<exists>b. overfull lc (dom (hashtable_map lc tab) \<union> set keys) b))"
  by (rule hashtable_add_spec [OF assms])

theorem hashtable_add_refines_witness:
  "\<exists>tab. hashtable_add 2 [1, 0] 3 (hashtable_init 3) [7, 5] [70, 50] = Some (Inr tab) \<and> hashtable_map 3 tab = [5 \<mapsto> 50, 7 \<mapsto> 70]"
proof -
  have "mset [1, 0] = mset [0..<2]" by (simp add: numeral_2_eq_2)
  from hashtable_add_refines [OF hashtable_init_ok(1) _ _ _ _ this, of "[7, 5]" "[70, 50]" 3] show ?thesis
    using two_keys_fit by (auto simp: hashtable_init_ok(2))
qed

text \<open>
  What was inserted into a fresh table is looked up: if no bucket is given more keys than it has slots, insertion
  returns a table from which the lookup of any list of keys gives the inserted values, and -1
  for keys that were not inserted.
\<close>

theorem hashtable_roundtrip:
  assumes keys: "distinct keys" "-1 \<notin> set keys" "length vals = length keys" "\<forall>b. \<not> overfull lc (set keys) b"
    and nt: "0 < nt" "mset order = mset [0..<nt]" and q: "-1 \<notin> set queries"
  shows "\<exists>tab. hashtable_add nt order lc (hashtable_init lc) keys vals = Some (Inr tab)
    \<and> hashtable_lookup lc tab queries = Some (map (\<lambda>k. case map_of (zip keys vals) k of None \<Rightarrow> -1 | Some v \<Rightarrow> v) queries)"
proof -
  have look: "hashtable_lookup lc tab queries = Some (map (\<lambda>k. case hashtable_map lc tab k of None \<Rightarrow> -1 | Some v \<Rightarrow> v) queries)"
    if "hashtable_ok lc tab" for tab
    using q
  proof (induction queries)
    case (Cons k ks)
    then have "k \<noteq> -1" by auto
    then show ?case using Cons by (simp add: lookup_key_map [OF that])
  qed simp
  from hashtable_add_spec [OF hashtable_init_ok(1) keys(1-3) nt] keys(4) obtain tab where
    "hashtable_add nt order lc (hashtable_init lc) keys vals = Some (Inr tab)" "hashtable_ok lc tab"
    "hashtable_map lc tab = map_of (zip keys vals)"
    by (auto simp: hashtable_init_ok(2))
  then show ?thesis using look [of tab] by auto
qed

theorem hashtable_roundtrip_witness:
  "\<exists>tab. hashtable_add 2 [1, 0] 3 (hashtable_init 3) [7, 5] [70, 50] = Some (Inr tab)
    \<and> hashtable_lookup 3 tab [5, 6, 7] = Some [50, -1, 70]"
proof -
  have m: "mset [1, 0] = mset [0..<2]" by (simp add: numeral_2_eq_2)
  have "\<forall>b. \<not> overfull 3 (set [7, 5]) b" using two_keys_fit by simp
  from hashtable_roundtrip [OF _ _ _ this _ m, of "[70, 50]" "[5, 6, 7]"] show ?thesis by simp
qed

end
