(* ===== verification/Index_Ivf.thy ===== *)
theory Index_Ivf
  imports Direct_Map_Update Flat_Codes
begin

text \<open>
  \<open>IndexIVF\<close> (\<open>faiss/IndexIVF.cpp\<close>) with the scanner of \<open>IndexIVFFlat\<close>: vectors are assigned to lists by a coarse
  quantizer and kept there with their ids; a search scans some lists. The quantizer and the codec
  of a subclass are records of the virtual functions that are called; the container of the lists is any
  that has the operations of \<open>InvertedLists\<close>, without iterators. Statistics, time stamps and the
  interrupt callback are left out.
\<close>

unbundle bit_operations_syntax

section \<open>The index\<close>

text \<open>The coarse quantizer searches the \<open>k\<close> nearest lists: their distances and numbers, -1 if there are fewer.\<close>

type_synonym ('v, 'd) coarse_quantizer = "nat \<Rightarrow> 'v \<Rightarrow> 'd list \<times> idx_t list"

definition cq_assign :: "('v, 'd) coarse_quantizer \<Rightarrow> 'v \<Rightarrow> idx_t" where
  "cq_assign cq x = snd (cq 1 x) ! 0"

record ('v, 'd) ivf_codec =
  ic_encode :: "'v \<Rightarrow> idx_t \<Rightarrow> 8 word list"
  ic_decode :: "nat \<Rightarrow> 8 word list \<Rightarrow> 'v"
  ic_distance :: "'v \<Rightarrow> nat \<Rightarrow> 'd \<Rightarrow> 8 word list \<Rightarrow> 'd"

text \<open>\<open>IndexIVFFlat\<close>: the code is the vector, list and coarse distance do not matter.\<close>

definition ivf_flat_codec :: "(8 word list \<Rightarrow> 8 word list \<Rightarrow> 'd) \<Rightarrow> (8 word list, 'd) ivf_codec" where
  "ivf_flat_codec vd = \<lparr>ic_encode = (\<lambda>x _. x), ic_decode = (\<lambda>_ code. code), ic_distance = (\<lambda>x _ _ code. vd x code)\<rparr>"

record 's ivf =
  ivf_nlist :: nat
  ivf_code_size :: nat
  ivf_nprobe :: nat
  ivf_max_codes :: nat
  ivf_parallel_mode :: int
  ivf_similarity :: bool
  ivf_is_trained :: bool
  ivf_invlists :: 's
  ivf_direct_map :: direct_map
  ivf_ntotal :: nat

record ivf_params =
  ip_nprobe :: nat
  ip_max_codes :: nat
  ip_sel :: "id_selector option"

definition ivf_comparator :: "'d :: linorder \<Rightarrow> 'd \<Rightarrow> bool \<Rightarrow> 'd comparator" where
  "ivf_comparator lo hi similarity = (if similarity then CMin lo hi else CMax lo hi)"

subsection \<open>List numbers as bytes\<close>

fun coarse_bytes :: "nat \<Rightarrow> nat" where
  "coarse_bytes nl = (if nl > 0 then coarse_bytes (nl div 256) + 1 else 0)"

declare coarse_bytes.simps [simp del]

definition coarse_code_size :: "nat \<Rightarrow> nat" where
  "coarse_code_size nlist = coarse_bytes (nlist - 1)"

fun encode_bytes :: "nat \<Rightarrow> int \<Rightarrow> 8 word list" where
  "encode_bytes nl list_no = (if nl > 0 then word_of_int (list_no AND 0xff) # encode_bytes (nl div 256) (drop_bit 8 list_no) else [])"

declare encode_bytes.simps [simp del]

definition encode_listno :: "nat \<Rightarrow> idx_t \<Rightarrow> 8 word list" where
  "encode_listno nlist list_no = encode_bytes (nlist - 1) list_no"

fun decode_bytes :: "nat \<Rightarrow> 8 word list \<Rightarrow> nat \<Rightarrow> 64 word \<Rightarrow> 64 word" where
  "decode_bytes nl code nbit list_no =
     (if nl > 0 then decode_bytes (nl div 256) (tl code) (nbit + 8) (list_no OR push_bit nbit (ucast (hd code))) else list_no)"

declare decode_bytes.simps [simp del]

definition decode_listno :: "nat \<Rightarrow> 8 word list \<Rightarrow> idx_t result" where
  "decode_listno nlist code =
     (let list_no = sint (decode_bytes (nlist - 1) code 0 0) in
      if 0 \<le> list_no \<and> list_no < int nlist then Inr list_no else Inl (Throw ''list_no >= 0 && list_no < nlist''))"

section \<open>Addition\<close>

text \<open>
  One vector in the loop of a thread. Every thread takes the lists that are congruent to its rank;
  threads write different lists and different places of the direct map. A vector without a list
  gets the place (-1, 0), by thread 0.
\<close>

definition ivf_add_step ::
  "'s il_ops \<Rightarrow> nat \<Rightarrow> nat \<Rightarrow> idx_t list \<Rightarrow> idx_t list \<Rightarrow> 8 word list list \<Rightarrow> nat \<Rightarrow>
   's \<times> direct_map_add \<times> direct_map \<Rightarrow> ('s \<times> direct_map_add \<times> direct_map) result" where
  "ivf_add_step ops nt rank ids coarse codes i st =
     (case st of (s, a, dm) \<Rightarrow>
        let list_no = coarse ! i in
        if 0 \<le> list_no \<and> nat list_no mod nt = rank then
          bind_result (add_entry ops (nat list_no) (ids ! i) (codes ! i) s) (\<lambda>(s, ofs).
          bind_result (dma_add i (nat list_no) ofs (a, dm)) (\<lambda>(a, dm). Inr (s, a, dm)))
        else if rank = 0 \<and> list_no = -1 then
          bind_result (dma_add i (unat (-1 :: 64 word)) 0 (a, dm)) (\<lambda>(a, dm). Inr (s, a, dm))
        else Inr (s, a, dm))"

text \<open>A block of vectors; \<open>IndexIVFFlat::add_core\<close> does the same in one block.\<close>

definition ivf_add_block ::
  "'s il_ops \<Rightarrow> ('v, 'd) ivf_codec \<Rightarrow> nat \<Rightarrow> 'v list \<Rightarrow> idx_t list option \<Rightarrow> idx_t list \<Rightarrow> 's ivf \<Rightarrow> 's ivf result" where
  "ivf_add_block ops cd nt xs xids coarse ivf =
     (if \<not> ivf_is_trained ivf then Inl (Throw ''is_trained'')
      else
        bind_result (check_can_add xids (ivf_direct_map ivf)) (\<lambda>_.
        let n = length xs;
            codes = map (\<lambda>i. ic_encode cd (xs ! i) (coarse ! i)) [0..<n];
            ids = (case xids of Some ids \<Rightarrow> ids | None \<Rightarrow> map (\<lambda>i. int (ivf_ntotal ivf + i)) [0..<n]) in
        bind_result (dma_new (ivf_direct_map ivf) n xids) (\<lambda>(a, dm).
        bind_result (fold_result (\<lambda>rank. fold_result (ivf_add_step ops nt rank ids coarse codes) [0..<n]) [0..<nt]
            (ivf_invlists ivf, a, dm)) (\<lambda>(s, a, dm).
        bind_result (dma_finish (a, dm)) (\<lambda>dm.
          Inr (ivf\<lparr>ivf_invlists := s, ivf_direct_map := dm, ivf_ntotal := ivf_ntotal ivf + n\<rparr>))))))"

fun ivf_add_blocks ::
  "'s il_ops \<Rightarrow> ('v, 'd) ivf_codec \<Rightarrow> nat \<Rightarrow> nat \<Rightarrow> 'v list \<Rightarrow> idx_t list option \<Rightarrow> idx_t list \<Rightarrow> nat \<Rightarrow> 's ivf \<Rightarrow> 's ivf result" where
  "ivf_add_blocks ops cd nt bs xs xids coarse 0 ivf = Inr ivf"
| "ivf_add_blocks ops cd nt bs xs xids coarse (Suc m) ivf =
     bind_result (ivf_add_block ops cd nt (take bs xs) (map_option (take bs) xids) (take bs coarse) ivf) (\<lambda>ivf.
       ivf_add_blocks ops cd nt bs (drop bs xs) (map_option (drop bs) xids) (drop bs coarse) m ivf)"

definition ivf_add_core ::
  "'s il_ops \<Rightarrow> ('v, 'd) ivf_codec \<Rightarrow> nat \<Rightarrow> 'v list \<Rightarrow> idx_t list option \<Rightarrow> idx_t list \<Rightarrow> 's ivf \<Rightarrow> 's ivf result" where
  "ivf_add_core ops cd nt xs xids coarse ivf =
     (let bs = 65536; n = length xs in
      if n > bs then ivf_add_blocks ops cd nt bs xs xids coarse ((n + bs - 1) div bs) ivf
      else ivf_add_block ops cd nt xs xids coarse ivf)"

definition ivf_add_with_ids ::
  "'s il_ops \<Rightarrow> ('v, 'd) ivf_codec \<Rightarrow> ('v, 'd) coarse_quantizer \<Rightarrow> nat \<Rightarrow> 'v list \<Rightarrow> idx_t list option \<Rightarrow> 's ivf \<Rightarrow> 's ivf result" where
  "ivf_add_with_ids ops cd cq nt xs xids ivf = ivf_add_core ops cd nt xs xids (map (cq_assign cq) xs) ivf"

text \<open>Codes with the list number in front.\<close>

definition ivf_add_sa_step ::
  "'s il_ops \<Rightarrow> nat \<Rightarrow> nat \<Rightarrow> idx_t list \<Rightarrow> 8 word list \<Rightarrow> nat \<Rightarrow>
   's \<times> direct_map_add \<times> direct_map \<Rightarrow> ('s \<times> direct_map_add \<times> direct_map) result" where
  "ivf_add_sa_step ops nlist cs ids codes i st =
     (case st of (s, a, dm) \<Rightarrow>
        let coarse_size = coarse_code_size nlist; code = subrange ((cs + coarse_size) * i) (cs + coarse_size) codes in
        bind_result (decode_listno nlist code) (\<lambda>list_no.
        bind_result (add_entry ops (nat list_no) (ids ! i) (drop coarse_size code) s) (\<lambda>(s, ofs).
        bind_result (dma_add i (nat list_no) ofs (a, dm)) (\<lambda>(a, dm). Inr (s, a, dm)))))"

definition ivf_add_sa_codes ::
  "'s il_ops \<Rightarrow> nat \<Rightarrow> 8 word list \<Rightarrow> idx_t list option \<Rightarrow> 's ivf \<Rightarrow> 's ivf result" where
  "ivf_add_sa_codes ops n codes xids ivf =
     bind_result (dma_new (ivf_direct_map ivf) n xids) (\<lambda>(a, dm).
     let ids = (case xids of Some ids \<Rightarrow> ids | None \<Rightarrow> map (\<lambda>i. int (ivf_ntotal ivf + i)) [0..<n]) in
     bind_result (fold_result (ivf_add_sa_step ops (ivf_nlist ivf) (ivf_code_size ivf) ids codes) [0..<n]
         (ivf_invlists ivf, a, dm)) (\<lambda>(s, a, dm).
     bind_result (dma_finish (a, dm)) (\<lambda>dm.
       Inr (ivf\<lparr>ivf_invlists := s, ivf_direct_map := dm, ivf_ntotal := ivf_ntotal ivf + n\<rparr>))))"

definition ivf_sa_encode :: "('v, 'd) ivf_codec \<Rightarrow> ('v, 'd) coarse_quantizer \<Rightarrow> 's ivf \<Rightarrow> 'v list \<Rightarrow> 8 word list result" where
  "ivf_sa_encode cd cq ivf xs =
     (if \<not> ivf_is_trained ivf then Inl (Throw ''is_trained'')
      else Inr (concat (map (\<lambda>x. let list_no = cq_assign cq x in
        if list_no \<ge> 0 then encode_listno (ivf_nlist ivf) list_no @ ic_encode cd x list_no
        else replicate (ivf_code_size ivf + coarse_code_size (ivf_nlist ivf)) 0) xs)))"

section \<open>Other operations\<close>

definition ivf_set_direct_map_type :: "'s il_ops \<Rightarrow> dm_type \<Rightarrow> 's ivf \<Rightarrow> 's ivf result" where
  "ivf_set_direct_map_type ops t ivf =
     bind_result (set_type t (il_view_of ops (ivf_invlists ivf)) (ivf_ntotal ivf) (ivf_direct_map ivf)) (\<lambda>dm.
       Inr (ivf\<lparr>ivf_direct_map := dm\<rparr>))"

definition ivf_make_direct_map :: "'s il_ops \<Rightarrow> bool \<Rightarrow> 's ivf \<Rightarrow> 's ivf result" where
  "ivf_make_direct_map ops b = ivf_set_direct_map_type ops (if b then Array_map else NoMap)"

definition ivf_reconstruct_from_offset :: "'s il_ops \<Rightarrow> ('v, 'd) ivf_codec \<Rightarrow> 's ivf \<Rightarrow> nat \<Rightarrow> nat \<Rightarrow> 'v result" where
  "ivf_reconstruct_from_offset ops cd ivf list_no offset =
     bind_result (il_single_code (il_view_of ops (ivf_invlists ivf)) list_no offset) (\<lambda>code. Inr (ic_decode cd list_no code))"

definition ivf_reconstruct :: "'s il_ops \<Rightarrow> ('v, 'd) ivf_codec \<Rightarrow> 's ivf \<Rightarrow> idx_t \<Rightarrow> 'v result" where
  "ivf_reconstruct ops cd ivf key =
     bind_result (dm_get key (ivf_direct_map ivf)) (\<lambda>lo. ivf_reconstruct_from_offset ops cd ivf (lo_listno lo) (lo_offset lo))"

text \<open>\<open>reconstruct_n\<close> goes through all lists and writes the vectors whose id is in the range.\<close>

definition ivf_reconstruct_entry ::
  "'s il_ops \<Rightarrow> ('v, 'd) ivf_codec \<Rightarrow> 's ivf \<Rightarrow> idx_t \<Rightarrow> nat \<Rightarrow> nat \<Rightarrow> nat \<times> idx_t \<Rightarrow> 'v list \<Rightarrow> 'v list result" where
  "ivf_reconstruct_entry ops cd ivf i0 ni list_no e recons =
     (case e of (offset, idx) \<Rightarrow>
        if \<not> (i0 \<le> idx \<and> idx < i0 + int ni) then Inr recons
        else bind_result (ivf_reconstruct_from_offset ops cd ivf list_no offset) (\<lambda>x. Inr (recons[nat (idx - i0) := x])))"

definition ivf_reconstruct_list ::
  "'s il_ops \<Rightarrow> ('v, 'd) ivf_codec \<Rightarrow> 's ivf \<Rightarrow> idx_t \<Rightarrow> nat \<Rightarrow> nat \<Rightarrow> 'v list \<Rightarrow> 'v list result" where
  "ivf_reconstruct_list ops cd ivf i0 ni list_no recons =
     (let v = il_view_of ops (ivf_invlists ivf) in
      bind_result (il_size v list_no) (\<lambda>list_size.
      bind_result (il_ids v list_no) (\<lambda>idlist.
        fold_result (ivf_reconstruct_entry ops cd ivf i0 ni list_no) (zip [0..<list_size] idlist) recons)))"

definition ivf_reconstruct_n ::
  "'s il_ops \<Rightarrow> ('v, 'd) ivf_codec \<Rightarrow> 's ivf \<Rightarrow> idx_t \<Rightarrow> nat \<Rightarrow> 'v list \<Rightarrow> 'v list result" where
  "ivf_reconstruct_n ops cd ivf i0 ni recons =
     (if \<not> (ni = 0 \<or> (i0 \<ge> 0 \<and> i0 + int ni \<le> int (ivf_ntotal ivf))) then Inl (Throw ''ni == 0 || (i0 >= 0 && i0 + ni <= ntotal)'')
      else fold_result (ivf_reconstruct_list ops cd ivf i0 ni) [0..<ivf_nlist ivf] recons)"

fun count_flips :: "idx_t list \<Rightarrow> nat" where
  "count_flips (x # y # ids) = (if y < x then 1 else 0) + count_flips (y # ids)"
| "count_flips ids = 0"

fun ivf_flips :: "'s il_ops \<Rightarrow> 's \<Rightarrow> nat list \<Rightarrow> nat result" where
  "ivf_flips ops s [] = Inr 0"
| "ivf_flips ops s (i # is) =
     bind_result (il_ids (il_view_of ops s) i) (\<lambda>ids. bind_result (ivf_flips ops s is) (\<lambda>n. Inr (count_flips ids + n)))"

definition ivf_check_ids_sorted :: "'s il_ops \<Rightarrow> 's ivf \<Rightarrow> bool result" where
  "ivf_check_ids_sorted ops ivf = bind_result (ivf_flips ops (ivf_invlists ivf) [0..<ivf_nlist ivf]) (\<lambda>nflip. Inr (nflip = 0))"

definition ivf_reset :: "'s il_ops \<Rightarrow> 's ivf \<Rightarrow> 's ivf result" where
  "ivf_reset ops ivf =
     bind_result (il_reset ops (ivf_invlists ivf)) (\<lambda>s.
       Inr (ivf\<lparr>ivf_direct_map := dm_clear (ivf_direct_map ivf), ivf_invlists := s, ivf_ntotal := 0\<rparr>))"

definition ivf_remove_ids :: "'s il_ops \<Rightarrow> id_selector \<Rightarrow> 's ivf \<Rightarrow> ('s ivf \<times> nat) result" where
  "ivf_remove_ids ops sel ivf =
     bind_result (dm_remove_ids ops sel (ivf_invlists ivf) (ivf_direct_map ivf)) (\<lambda>(s, dm, nremove).
       Inr (ivf\<lparr>ivf_invlists := s, ivf_direct_map := dm, ivf_ntotal := ivf_ntotal ivf - nremove\<rparr>, nremove))"

text \<open>An assignment of -1 becomes the list number \<open>2 ^ 64 - 1\<close>.\<close>

definition ivf_update_vectors ::
  "'s il_ops \<Rightarrow> ('v, 'd) ivf_codec \<Rightarrow> ('v, 'd) coarse_quantizer \<Rightarrow> nat \<Rightarrow> idx_t list \<Rightarrow> 'v list \<Rightarrow> 's ivf \<Rightarrow> 's ivf result" where
  "ivf_update_vectors ops cd cq nt new_ids xs ivf =
     (if dm_type (ivf_direct_map ivf) = Hashtable then
        bind_result (ivf_remove_ids ops (Sel_array new_ids) ivf) (\<lambda>(ivf, nremove).
          if nremove \<noteq> length xs then Inl (Throw ''did not find all entries to remove'')
          else ivf_add_with_ids ops cd cq nt xs (Some new_ids) ivf)
      else if dm_type (ivf_direct_map ivf) \<noteq> Array_map then Inl (Throw ''direct_map.type == DirectMap::Array'')
      else if \<not> ivf_is_trained ivf then Inl (Throw ''is_trained'')
      else
        bind_result (update_codes ops
            (map (\<lambda>(idx, x). (idx, unat (word_of_int (cq_assign cq x) :: 64 word), ic_encode cd x (cq_assign cq x))) (zip new_ids xs))
            (ivf_invlists ivf) (ivf_direct_map ivf)) (\<lambda>(s, dm).
          Inr (ivf\<lparr>ivf_invlists := s, ivf_direct_map := dm\<rparr>)))"

text \<open>The comparison of the two quantizers, of the classes and dimensions is the argument \<open>same\<close>.\<close>

definition ivf_check_compatible :: "bool \<Rightarrow> 's ivf \<Rightarrow> 't ivf \<Rightarrow> unit result" where
  "ivf_check_compatible same ivf other =
     (if ivf_nlist other \<noteq> ivf_nlist ivf then Inl (Throw ''other->nlist == nlist'')
      else if ivf_code_size other \<noteq> ivf_code_size ivf then Inl (Throw ''other->code_size == code_size'')
      else if \<not> (dm_type (ivf_direct_map ivf) = NoMap \<and> dm_type (ivf_direct_map other) = NoMap) then
        Inl (Throw ''merge direct_map not implemented'')
      else if \<not> same then Inl (Throw ''coarse quantizers should be the same'')
      else Inr ())"

definition ivf_merge_from ::
  "'s il_ops \<Rightarrow> 't il_ops \<Rightarrow> bool \<Rightarrow> nat \<Rightarrow> 's ivf \<Rightarrow> 't ivf \<Rightarrow> ('s ivf \<times> 't ivf) result" where
  "ivf_merge_from ops other_ops same add_id ivf other =
     bind_result (ivf_check_compatible same ivf other) (\<lambda>_.
     bind_result (merge_from ops other_ops add_id (ivf_invlists ivf) (ivf_invlists other)) (\<lambda>(s, t).
       Inr (ivf\<lparr>ivf_invlists := s, ivf_ntotal := ivf_ntotal ivf + ivf_ntotal other\<rparr>,
            other\<lparr>ivf_invlists := t, ivf_ntotal := 0\<rparr>)))"

definition ivf_copy_subset_to :: "'s il_ops \<Rightarrow> 't il_ops \<Rightarrow> int \<Rightarrow> int \<Rightarrow> int \<Rightarrow> 's ivf \<Rightarrow> 't ivf \<Rightarrow> 't ivf result" where
  "ivf_copy_subset_to ops other_ops subset_type a1 a2 ivf other =
     bind_result (copy_subset_to (il_view_of ops (ivf_invlists ivf)) other_ops subset_type a1 a2 (ivf_invlists other)) (\<lambda>(t, n).
       Inr (other\<lparr>ivf_invlists := t, ivf_ntotal := ivf_ntotal other + n\<rparr>))"

text \<open>A codec for examples: numbers as bytes.\<close>

definition byte_codec :: "(int, int) ivf_codec" where
  "byte_codec = \<lparr>ic_encode = (\<lambda>x _. [word_of_int x]), ic_decode = (\<lambda>_ code. uint (hd code)),
     ic_distance = (\<lambda>x _ _ code. \<bar>x - uint (hd code)\<bar>)\<rparr>"

lemma length_byte_code: "length (ic_encode byte_codec x c) = 1"
  by (simp add: byte_codec_def)

end
