(* ===== verification/Index_Ivf_Add.thy ===== *)
theory Index_Ivf_Add
  imports Index_Ivf
begin

text \<open>
  Addition to \<open>IndexIVF\<close>: whatever the number of threads, every list gets the vectors that are assigned to it in their
  order, and the direct map finds them.
\<close>

section \<open>The vectors of one list\<close>

text \<open>New entries come with the list that they are assigned to.\<close>

definition assigned_to :: "(entry \<times> idx_t) list \<Rightarrow> nat \<Rightarrow> entry list" where
  "assigned_to es l = map fst (filter (\<lambda>e. snd e = int l) es)"

lemma assigned_to_append [simp]:
  "assigned_to [] l = []" "assigned_to (es @ fs) l = assigned_to es l @ assigned_to fs l"
  by (simp_all add: assigned_to_def)

lemma assigned_to_take_Suc:
  "i < length es \<Longrightarrow> assigned_to (take (Suc i) es) l = assigned_to (take i es) l @ (if snd (es ! i) = int l then [fst (es ! i)] else [])"
  by (simp add: take_Suc_conv_app_nth assigned_to_def)

lemma nth_filter_rank:
  assumes "i < length xs" "P (xs ! i)"
  shows "filter P xs ! length (filter P (take i xs)) = xs ! i" and "length (filter P (take i xs)) < length (filter P xs)"
proof -
  have "filter P xs = filter P (take i xs) @ xs ! i # filter P (drop (Suc i) xs)"
    using arg_cong [OF id_take_nth_drop [OF assms(1)], of "filter P"] assms(2) by simp
  then show "filter P xs ! length (filter P (take i xs)) = xs ! i" "length (filter P (take i xs)) < length (filter P xs)"
    by simp_all
qed

lemma filter_rank_exists:
  "k < length (filter P xs) \<Longrightarrow> \<exists>i < length xs. P (xs ! i) \<and> k = length (filter P (take i xs))"
proof (induction xs rule: rev_induct)
  case (snoc x xs)
  show ?case
  proof (cases "k < length (filter P xs)")
    case True
    then obtain i where "i < length xs" "P (xs ! i)" "k = length (filter P (take i xs))" using snoc.IH by blast
    then show ?thesis by (intro exI [of _ i]) (simp add: nth_append)
  next
    case False
    then have "P x" "k = length (filter P xs)" using snoc.prems by (auto split: if_splits)
    then show ?thesis by (intro exI [of _ "length xs"]) simp
  qed
qed simp

text \<open>The place of entry \<open>i\<close>; without a list it is (-1, 0).\<close>

definition new_place :: "entry list list \<Rightarrow> (entry \<times> idx_t) list \<Rightarrow> nat \<Rightarrow> idx_t" where
  "new_place M es i =
     (let c = snd (es ! i) in
      if c < 0 then lo_build (unat (-1 :: 64 word)) 0
      else lo_build (nat c) (length (M ! nat c) + length (assigned_to (take i es) (nat c))))"

section \<open>The loop\<close>

text \<open>What the map holds when the entries \<open>D\<close> have been given a place.\<close>

definition placed :: "(nat \<Rightarrow> idx_t) \<Rightarrow> direct_map_add \<Rightarrow> direct_map \<Rightarrow> nat set \<Rightarrow> direct_map_add \<times> direct_map" where
  "placed place a dm D =
     (case dm_type dm of
        NoMap \<Rightarrow> (a, dm)
      | Array_map \<Rightarrow>
          (let nt = the (dma_ntotal a) in
           (a, dm\<lparr>dm_array := map (\<lambda>j. if nt \<le> j \<and> j - nt \<in> D then place (j - nt) else dm_array dm ! j) [0..<length (dm_array dm)]\<rparr>))
      | Hashtable \<Rightarrow>
          (a\<lparr>dma_all_ofs := map (\<lambda>j. if j \<in> D then place j else dma_all_ofs a ! j) [0..<length (dma_all_ofs a)]\<rparr>, dm))"

definition room_for :: "direct_map_add \<Rightarrow> direct_map \<Rightarrow> nat \<Rightarrow> bool" where
  "room_for a dm n \<longleftrightarrow>
     (case dm_type dm of NoMap \<Rightarrow> True
      | Array_map \<Rightarrow> (\<exists>nt. dma_ntotal a = Some nt \<and> length (dm_array dm) = nt + n)
      | Hashtable \<Rightarrow> length (dma_all_ofs a) = n)"

lemma placed_empty: "placed place a dm {} = (a, dm)"
proof -
  have m: "map ((!) xs) [0..<length xs] = xs" for xs :: "idx_t list" by (rule map_nth)
  show ?thesis by (cases "dm_type dm") (simp_all add: placed_def Let_def m)
qed

lemma placed_add:
  assumes "room_for a dm n" "i < n" "place i = lo_build l ofs"
  shows "dma_add i l ofs (placed place a dm D) = Inr (placed place a dm (insert i D))"
proof (cases "dm_type dm")
  case Array_map
  then obtain nt where nt: "dma_ntotal a = Some nt" "length (dm_array dm) = nt + n"
    using assms(1) by (auto simp: room_for_def)
  have "(map (\<lambda>j. if nt \<le> j \<and> j - nt \<in> D then place (j - nt) else dm_array dm ! j) [0..<nt + n])[nt + i := lo_build l ofs] =
      map (\<lambda>j. if nt \<le> j \<and> j - nt \<in> insert i D then place (j - nt) else dm_array dm ! j) [0..<nt + n]"
    using assms(2,3) by (intro nth_equalityI) (auto simp: nth_list_update)
  then show ?thesis using Array_map nt assms(2) by (simp add: placed_def dma_add_def Let_def)
next
  case Hashtable
  have "(map (\<lambda>j. if j \<in> D then place j else dma_all_ofs a ! j) [0..<n])[i := lo_build l ofs] =
      map (\<lambda>j. if j \<in> insert i D then place j else dma_all_ofs a ! j) [0..<n]"
    using assms(2,3) by (intro nth_equalityI) (auto simp: nth_list_update)
  then show ?thesis using Hashtable assms(1,2) by (simp add: placed_def dma_add_def Let_def room_for_def)
qed (simp add: placed_def dma_add_def)

text \<open>After the threads below \<open>r\<close> have ended and thread \<open>r\<close> has seen \<open>m\<close> vectors.\<close>

definition thread_of :: "nat \<Rightarrow> idx_t \<Rightarrow> nat" where
  "thread_of nt c = (if c < 0 then 0 else nat c mod nt)"

definition lists_at :: "nat \<Rightarrow> (entry \<times> idx_t) list \<Rightarrow> entry list list \<Rightarrow> nat \<Rightarrow> nat \<Rightarrow> entry list list" where
  "lists_at nt es M r m =
     map (\<lambda>l. M ! l @ assigned_to (take (if l mod nt < r then length es else if l mod nt = r then m else 0) es) l) [0..<length M]"

definition placed_at :: "nat \<Rightarrow> (entry \<times> idx_t) list \<Rightarrow> nat \<Rightarrow> nat \<Rightarrow> nat set" where
  "placed_at nt es r m =
     {i. i < length es \<and> -1 \<le> snd (es ! i) \<and> (thread_of nt (snd (es ! i)) < r \<or> thread_of nt (snd (es ! i)) = r \<and> i < m)}"

lemma lists_at_next_thread: "lists_at nt es M r (length es) = lists_at nt es M (Suc r) 0"
  by (auto simp: lists_at_def less_Suc_eq)

lemma placed_at_next_thread: "placed_at nt es r (length es) = placed_at nt es (Suc r) 0"
  by (auto simp: placed_at_def less_Suc_eq)

lemma lists_at_step:
  assumes "m < length es"
  shows "lists_at nt es M r (Suc m) =
    (let c = snd (es ! m) in
     if 0 \<le> c \<and> nat c mod nt = r then (lists_at nt es M r m)[nat c := lists_at nt es M r m ! nat c @ [fst (es ! m)]] else lists_at nt es M r m)"
proof (rule nth_equalityI)
  fix l assume "l < length (lists_at nt es M r (Suc m))"
  then have l: "l < length M" by (simp add: lists_at_def)
  have c: "snd (es ! m) = int l \<longleftrightarrow> 0 \<le> snd (es ! m) \<and> nat (snd (es ! m)) = l" by auto
  show "lists_at nt es M r (Suc m) ! l =
    (let c = snd (es ! m) in
     if 0 \<le> c \<and> nat c mod nt = r then (lists_at nt es M r m)[nat c := lists_at nt es M r m ! nat c @ [fst (es ! m)]] else lists_at nt es M r m) ! l"
    using l assms by (auto simp: lists_at_def Let_def assigned_to_take_Suc nth_list_update c)
qed (simp add: lists_at_def Let_def)

lemma placed_at_step:
  assumes "m < length es"
  shows "placed_at nt es r (Suc m) =
    (let c = snd (es ! m) in if -1 \<le> c \<and> thread_of nt c = r then insert m (placed_at nt es r m) else placed_at nt es r m)"
  using assms by (auto simp: placed_at_def Let_def less_Suc_eq)

context inverted_lists
begin

definition add_state :: "nat \<Rightarrow> (entry \<times> idx_t) list \<Rightarrow> entry list list \<Rightarrow> direct_map_add \<Rightarrow> direct_map \<Rightarrow> nat \<Rightarrow> nat \<Rightarrow>
    's \<times> direct_map_add \<times> direct_map \<Rightarrow> bool" where
  "add_state nt es M a dm r m st \<longleftrightarrow>
     inv (fst st) \<and> L (fst st) = lists_at nt es M r m \<and> snd st = placed (new_place M es) a dm (placed_at nt es r m)"

lemma ivf_add_step_spec:
  assumes st: "add_state nt es M a dm r m st" and m: "m < length es" and r: "r < nt" and room: "room_for a dm (length es)"
    and es: "\<forall>e \<in> set es. snd e < int (length M) \<and> length (snd (fst e)) = cs"
  shows "\<exists>st'. ivf_add_step ops nt r (map (fst \<circ> fst) es) (map snd es) (map (snd \<circ> fst) es) m st = Inr st'
    \<and> add_state nt es M a dm r (Suc m) st'"
proof -
  obtain s x y where st': "st = (s, x, y)" by (cases st)
  have s: "inv s" "L s = lists_at nt es M r m" "(x, y) = placed (new_place M es) a dm (placed_at nt es r m)"
    using st by (simp_all add: add_state_def st')
  let ?c = "snd (es ! m)" and ?e = "fst (es ! m)"
  have e: "?c < int (length M)" "length (snd ?e) = cs" using es m by simp_all
  have len: "length (lists_at nt es M r m) = length M" by (simp add: lists_at_def)
  consider "0 \<le> ?c" "nat ?c mod nt = r" | "?c = -1" "r = 0" | "\<not> (0 \<le> ?c \<and> nat ?c mod nt = r)" "\<not> (?c = -1 \<and> r = 0)" by blast
  then show ?thesis
  proof cases
    case 1
    let ?l = "nat ?c" and ?ofs = "length (lists_at nt es M r m ! nat ?c)"
    have l: "?l < length M" using e 1 by simp
    obtain s' where s': "add_entry ops ?l (fst ?e) (snd ?e) s = Inr (s', ?ofs)" "inv s'"
      "L s' = (lists_at nt es M r m)[?l := lists_at nt es M r m ! ?l @ [?e]]"
      using add_entry_spec [OF s(1) _ e(2), of ?l "fst ?e"] l s(2) len by auto
    have "new_place M es m = lo_build ?l ?ofs" using 1 l by (simp add: new_place_def Let_def lists_at_def)
    from placed_add [of a dm "length es" m "new_place M es" ?l ?ofs "placed_at nt es r m", OF room m this]
    have "dma_add m ?l ?ofs (x, y) = Inr (placed (new_place M es) a dm (placed_at nt es r (Suc m)))"
      unfolding s(3) using 1 m by (simp add: placed_at_step thread_of_def)
    then show ?thesis using s' 1 m r
      by (cases "placed (new_place M es) a dm (placed_at nt es r (Suc m))")
        (simp add: ivf_add_step_def st' add_state_def lists_at_step Let_def)
  next
    case 2
    have "new_place M es m = lo_build (unat (-1 :: 64 word)) 0" using 2 by (simp add: new_place_def)
    from placed_add [of a dm "length es" m "new_place M es" _ _ "placed_at nt es r m", OF room m this]
    have "dma_add m (unat (-1 :: 64 word)) 0 (x, y) = Inr (placed (new_place M es) a dm (placed_at nt es r (Suc m)))"
      unfolding s(3) using 2 m by (simp add: placed_at_step thread_of_def)
    then show ?thesis using 2 m r s(1,2)
      by (cases "placed (new_place M es) a dm (placed_at nt es r (Suc m))")
        (simp add: ivf_add_step_def st' add_state_def lists_at_step Let_def)
  next
    case 3
    have "placed_at nt es r (Suc m) = placed_at nt es r m" using 3 m by (auto simp: placed_at_step thread_of_def Let_def)
    moreover have "lists_at nt es M r (Suc m) = lists_at nt es M r m" using 3 m by (auto simp: lists_at_step Let_def)
    moreover have "ivf_add_step ops nt r (map (fst \<circ> fst) es) (map snd es) (map (snd \<circ> fst) es) m st = Inr st"
      using 3 m by (auto simp: ivf_add_step_def st' Let_def)
    ultimately show ?thesis using st by (simp add: add_state_def)
  qed
qed

lemma ivf_add_loop_spec:
  assumes room: "room_for a dm (length es)" and nt: "0 < nt" and s: "inv s"
    and es: "\<forall>e \<in> set es. snd e < int (length (L s)) \<and> length (snd (fst e)) = cs"
  shows "\<exists>s'. fold_result (\<lambda>rank. fold_result (ivf_add_step ops nt rank (map (fst \<circ> fst) es) (map snd es) (map (snd \<circ> fst) es)) [0..<length es])
      [0..<nt] (s, a, dm) = Inr (s', placed (new_place (L s) es) a dm {i. i < length es \<and> -1 \<le> snd (es ! i)})
    \<and> inv s' \<and> L s' = map (\<lambda>l. L s ! l @ assigned_to es l) [0..<length (L s)]"
proof -
  let ?M = "L s" and ?step = "\<lambda>rank. ivf_add_step ops nt rank (map (fst \<circ> fst) es) (map snd es) (map (snd \<circ> fst) es)"
  have thread: "\<exists>st'. fold_result (?step r) [0..<m] st = Inr st' \<and> add_state nt es ?M a dm r m st'"
    if st: "add_state nt es ?M a dm r 0 st" and m: "m \<le> length es" and r: "r < nt" for r m st
    using m
  proof (induction m)
    case (Suc m)
    then obtain st1 where st1: "fold_result (?step r) [0..<m] st = Inr st1" "add_state nt es ?M a dm r m st1"
      using Suc.IH [OF Suc_leD [OF Suc.prems]] by blast
    obtain st2 where st2: "?step r m st1 = Inr st2" "add_state nt es ?M a dm r (Suc m) st2"
      using ivf_add_step_spec [OF st1(2) _ r room es] Suc.prems by auto
    have "fold_result (?step r) [0..<Suc m] st = Inr st2" unfolding upt_Suc_append [OF le0] fold_result_snoc st1(1) bind_result.simps by (rule st2(1))
    then show ?case using st2(2) by blast
  qed (use st in simp)
  have threads: "\<exists>st'. fold_result (\<lambda>rank. fold_result (?step rank) [0..<length es]) [0..<r] (s, a, dm) = Inr st'
      \<and> add_state nt es ?M a dm r 0 st'" if "r \<le> nt" for r
    using that
  proof (induction r)
    case 0
    have "lists_at nt es ?M 0 0 = ?M" by (rule nth_equalityI) (simp_all add: lists_at_def)
    moreover have "placed_at nt es 0 0 = {}" by (simp add: placed_at_def)
    ultimately show ?case using s by (simp add: add_state_def placed_empty)
  next
    case (Suc r)
    then obtain st1 where st1: "fold_result (\<lambda>rank. fold_result (?step rank) [0..<length es]) [0..<r] (s, a, dm) = Inr st1"
      "add_state nt es ?M a dm r 0 st1" using Suc.IH [OF Suc_leD [OF Suc.prems]] by blast
    obtain st2 where st2: "fold_result (?step r) [0..<length es] st1 = Inr st2" "add_state nt es ?M a dm r (length es) st2"
      using thread [OF st1(2), of "length es"] Suc.prems by auto
    have "add_state nt es ?M a dm (Suc r) 0 st2"
      using st2(2) by (simp add: add_state_def lists_at_next_thread placed_at_next_thread)
    moreover have "fold_result (\<lambda>rank. fold_result (?step rank) [0..<length es]) [0..<Suc r] (s, a, dm) = Inr st2"
      unfolding upt_Suc_append [OF le0] fold_result_snoc st1(1) bind_result.simps by (rule st2(1))
    ultimately show ?case by blast
  qed
  have "thread_of nt c < nt" for c using nt by (simp add: thread_of_def)
  then have "placed_at nt es nt 0 = {i. i < length es \<and> -1 \<le> snd (es ! i)}" by (auto simp: placed_at_def)
  moreover have "lists_at nt es ?M nt 0 = map (\<lambda>l. ?M ! l @ assigned_to es l) [0..<length ?M]" using nt by (simp add: lists_at_def)
  ultimately show ?thesis using threads [OF order_refl] by (auto simp: add_state_def)
qed

end

section \<open>The direct map\<close>

definition map_new :: "idx_t list \<Rightarrow> (nat \<Rightarrow> idx_t) \<Rightarrow> (idx_t \<rightharpoonup> idx_t) \<Rightarrow> idx_t \<rightharpoonup> idx_t" where
  "map_new ids place h = fold (\<lambda>i h. h(ids ! i \<mapsto> place i)) [0..<length ids] h"

lemma map_new_outside: "x \<notin> set ids \<Longrightarrow> map_new ids place h x = h x"
proof -
  have "m \<le> length ids \<Longrightarrow> x \<notin> set ids \<Longrightarrow> fold (\<lambda>i h. h(ids ! i \<mapsto> place i)) [0..<m] h x = h x" for m
    by (induction m) auto
  then show "x \<notin> set ids \<Longrightarrow> map_new ids place h x = h x" by (simp add: map_new_def)
qed

lemma map_new_at:
  assumes "distinct ids" "i < length ids"
  shows "map_new ids place h (ids ! i) = Some (place i)"
proof -
  have "m \<le> length ids \<Longrightarrow> i < m \<Longrightarrow> fold (\<lambda>i h. h(ids ! i \<mapsto> place i)) [0..<m] h (ids ! i) = Some (place i)" for m
  proof (induction m)
    case (Suc m)
    then show ?case using assms by (auto simp: less_Suc_eq nth_eq_iff_index_eq)
  qed simp
  then show ?thesis using assms(2) by (simp add: map_new_def)
qed

text \<open>What kind of ids the map can take.\<close>

definition takes_ids :: "direct_map \<Rightarrow> idx_t list option \<Rightarrow> bool" where
  "takes_ids dm xids \<longleftrightarrow> (dm_type dm = Array_map \<longrightarrow> xids = None) \<and> (dm_type dm = Hashtable \<longrightarrow> xids \<noteq> None)"

lemma dma_finish_hashed:
  assumes "dm_type dm = Hashtable" "dma_xids a = Some ids" "length ids = dma_n a"
  shows "dma_finish (a, dm) = Inr (dm\<lparr>dm_hash := map_new ids ((!) (dma_all_ofs a)) (dm_hash dm)\<rparr>)"
proof -
  let ?step = "\<lambda>i dm. bind_result (dma_id a i) (\<lambda>idx. Inr (dm\<lparr>dm_hash := (dm_hash dm)(idx \<mapsto> dma_all_ofs a ! i)\<rparr>))"
  have "fold_result ?step [0..<m] dm = Inr (dm\<lparr>dm_hash := fold (\<lambda>i h. h(ids ! i \<mapsto> dma_all_ofs a ! i)) [0..<m] (dm_hash dm)\<rparr>)"
    if "m \<le> length ids" for m
    using that
  proof (induction m)
    case (Suc m)
    have id: "dma_id a m = Inr (ids ! m)" using Suc.prems assms(2) by (simp add: dma_id_def)
    show ?case using Suc by (simp add: fold_result_snoc id cong: if_cong)
  qed simp
  then show ?thesis using assms by (simp add: dma_finish_def map_new_def)
qed

text \<open>The map after an addition of \<open>n\<close> vectors of which \<open>D\<close> have got a place.\<close>

definition map_extended :: "direct_map \<Rightarrow> nat \<Rightarrow> idx_t list option \<Rightarrow> (nat \<Rightarrow> idx_t) \<Rightarrow> nat set \<Rightarrow> direct_map" where
  "map_extended dm n xids place D =
     (case dm_type dm of NoMap \<Rightarrow> dm
      | Array_map \<Rightarrow> dm\<lparr>dm_array := dm_array dm @ map (\<lambda>i. if i \<in> D then place i else -1) [0..<n]\<rparr>
      | Hashtable \<Rightarrow> dm\<lparr>dm_hash := map_new (the xids) (\<lambda>i. if i \<in> D then place i else -1) (dm_hash dm)\<rparr>)"

lemma dma_run:
  assumes "takes_ids dm xids" "\<And>ids. xids = Some ids \<Longrightarrow> length ids = n"
  shows "\<exists>a dm1. dma_new dm n xids = Inr (a, dm1) \<and> room_for a dm1 n
    \<and> (\<forall>place D. dma_finish (placed place a dm1 D) = Inr (map_extended dm n xids place D))"
proof (cases "dm_type dm")
  case NoMap
  then show ?thesis by (simp add: dma_new_def room_for_def placed_def dma_finish_def map_extended_def Let_def)
next
  case Array_map
  then have x: "xids = None" using assms(1) by (simp add: takes_ids_def)
  let ?m = "length (dm_array dm)" and ?new = "resize (length (dm_array dm) + n) (-1) (dm_array dm)"
  have r: "?new = dm_array dm @ replicate n (-1)" by (simp add: resize_def)
  have "map (\<lambda>j. if ?m \<le> j \<and> j - ?m \<in> D then place (j - ?m) else ?new ! j) [0..<length ?new] =
      dm_array dm @ map (\<lambda>i. if i \<in> D then place i else -1) [0..<n]" for place :: "nat \<Rightarrow> idx_t" and D
    unfolding r by (intro nth_equalityI) (auto simp: nth_append)
  then have "dma_finish (placed place \<lparr>dma_ntotal = Some ?m, dma_n = n, dma_xids = None, dma_all_ofs = []\<rparr> (dm\<lparr>dm_array := ?new\<rparr>) D)
      = Inr (map_extended dm n xids place D)" for place D
    using Array_map by (simp add: placed_def dma_finish_def map_extended_def Let_def cong: if_cong)
  then show ?thesis using Array_map x by (simp add: dma_new_def room_for_def)
next
  case Hashtable
  then obtain ids where ids: "xids = Some ids" "length ids = n" using assms by (auto simp: takes_ids_def)
  let ?a = "\<lparr>dma_ntotal = None, dma_n = n, dma_xids = xids, dma_all_ofs = replicate n (-1)\<rparr>"
  have "dma_finish (placed place ?a dm D) = Inr (map_extended dm n xids place D)" for place D
  proof -
    have "map_new ids ((!) (map (\<lambda>j. if j \<in> D then place j else replicate n (-1) ! j) [0..<n])) h =
        map_new ids (\<lambda>i. if i \<in> D then place i else -1) h" for h
      unfolding map_new_def using ids(2) by (intro fold_cong) auto
    then show ?thesis using Hashtable ids by (simp add: placed_def dma_finish_hashed map_extended_def cong: if_cong)
  qed
  then show ?thesis using Hashtable by (simp add: dma_new_def room_for_def)
qed

section \<open>Blocks\<close>

definition new_ids :: "nat \<Rightarrow> nat \<Rightarrow> idx_t list option \<Rightarrow> idx_t list" where
  "new_ids ntotal n xids = (case xids of Some ids \<Rightarrow> ids | None \<Rightarrow> map (\<lambda>i. int (ntotal + i)) [0..<n])"

definition new_entries :: "('v, 'd) ivf_codec \<Rightarrow> idx_t list \<Rightarrow> 'v list \<Rightarrow> idx_t list \<Rightarrow> (entry \<times> idx_t) list" where
  "new_entries cd ids xs coarse = map (\<lambda>(x, i, c). ((i, ic_encode cd x c), c)) (zip xs (zip ids coarse))"

lemma new_entries_parts:
  assumes "length ids = length xs" "length coarse = length xs"
  shows "map (fst \<circ> fst) (new_entries cd ids xs coarse) = ids" and "map snd (new_entries cd ids xs coarse) = coarse"
    and "map (snd \<circ> fst) (new_entries cd ids xs coarse) = map (\<lambda>i. ic_encode cd (xs ! i) (coarse ! i)) [0..<length xs]"
    and "length (new_entries cd ids xs coarse) = length xs"
  using assms by (auto simp: new_entries_def intro!: nth_equalityI)

definition append_new :: "(entry \<times> idx_t) list \<Rightarrow> entry list list \<Rightarrow> entry list list" where
  "append_new es M = map (\<lambda>l. M ! l @ assigned_to es l) [0..<length M]"

lemma length_append_new [simp]: "length (append_new es M) = length M"
  by (simp add: append_new_def)

lemma append_new_append: "append_new fs (append_new es M) = append_new (es @ fs) M"
  by (simp add: append_new_def)

lemma append_new_Nil [simp]: "append_new [] M = M"
  by (rule nth_equalityI) (simp_all add: append_new_def)

text \<open>The vectors, their ids and their lists can be added.\<close>

definition addable :: "nat \<Rightarrow> nat \<Rightarrow> ('v, 'd) ivf_codec \<Rightarrow> 'v list \<Rightarrow> idx_t list option \<Rightarrow> idx_t list \<Rightarrow> direct_map \<Rightarrow> bool" where
  "addable cs nlist cd xs xids coarse dm \<longleftrightarrow>
     length coarse = length xs \<and> (\<forall>ids. xids = Some ids \<longrightarrow> length ids = length xs) \<and> takes_ids dm xids
     \<and> (\<forall>c \<in> set coarse. c < int nlist) \<and> (\<forall>i < length xs. length (ic_encode cd (xs ! i) (coarse ! i)) = cs)"

lemma length_new_ids: "(\<forall>ids. xids = Some ids \<longrightarrow> length ids = n) \<Longrightarrow> length (new_ids ntotal n xids) = n"
  by (cases xids) (simp_all add: new_ids_def)

lemma dm_type_extended [simp]: "dm_type (map_extended dm n xids place D) = dm_type dm"
  by (cases "dm_type dm") (simp_all add: map_extended_def)

text \<open>The index after an addition to the lists \<open>M\<close>, with the container in state \<open>s\<close>.\<close>

definition ivf_added ::
  "('v, 'd) ivf_codec \<Rightarrow> entry list list \<Rightarrow> 's \<Rightarrow> 'v list \<Rightarrow> idx_t list option \<Rightarrow> idx_t list \<Rightarrow> 's ivf \<Rightarrow> 's ivf" where
  "ivf_added cd M s xs xids coarse ivf =
     ivf\<lparr>ivf_invlists := s,
       ivf_direct_map := map_extended (ivf_direct_map ivf) (length xs) xids
         (new_place M (new_entries cd (new_ids (ivf_ntotal ivf) (length xs) xids) xs coarse)) {i. i < length xs \<and> -1 \<le> coarse ! i},
       ivf_ntotal := ivf_ntotal ivf + length xs\<rparr>"

lemma map_new_append:
  "map_new (ids @ ids') place h = map_new ids' (\<lambda>i. place (length ids + i)) (map_new ids place h)"
proof -
  have "[0..<length ids + length ids'] = [0..<length ids] @ map (\<lambda>i. length ids + i) [0..<length ids']"
    using map_add_upt [of "length ids" "length ids'"] upt_add_eq_append [of 0 "length ids" "length ids'"] by (simp add: add.commute)
  then have "map_new (ids @ ids') place h = fold (\<lambda>i h. h((ids @ ids') ! i \<mapsto> place i)) (map (\<lambda>i. length ids + i) [0..<length ids'])
      (fold (\<lambda>i h. h((ids @ ids') ! i \<mapsto> place i)) [0..<length ids] h)"
    by (simp add: map_new_def)
  also have "fold (\<lambda>i h. h((ids @ ids') ! i \<mapsto> place i)) [0..<length ids] h = map_new ids place h"
    unfolding map_new_def by (intro fold_cong) (simp_all add: nth_append)
  also have "fold (\<lambda>i h. h((ids @ ids') ! i \<mapsto> place i)) (map (\<lambda>i. length ids + i) [0..<length ids']) (map_new ids place h) =
      map_new ids' (\<lambda>i. place (length ids + i)) (map_new ids place h)"
    unfolding map_new_def fold_map by (intro fold_cong) (simp_all add: nth_append)
  finally show ?thesis .
qed

lemma map_new_cong: "(\<And>i. i < length ids \<Longrightarrow> place i = place' i) \<Longrightarrow> map_new ids place h = map_new ids place' h"
  unfolding map_new_def by (intro fold_cong) simp_all

lemma map_extended_append:
  assumes "\<And>ids. xids = Some ids \<Longrightarrow> length ids = m + n" "takes_ids dm xids"
  shows "map_extended (map_extended dm m (map_option (take m) xids) place D) n (map_option (drop m) xids) (\<lambda>i. place (m + i)) {i. m + i \<in> D}
    = map_extended dm (m + n) xids place D"
proof (cases "dm_type dm")
  case Array_map
  have "map (\<lambda>i. if i \<in> D then place i else -1) [0..<m] @ map (\<lambda>i. if m + i \<in> D then place (m + i) else -1) [0..<n] =
      map (\<lambda>i. if i \<in> D then place i else -1) [0..<m + n]"
    by (rule nth_equalityI) (auto simp: nth_append)
  then show ?thesis using Array_map by (simp add: map_extended_def)
next
  case Hashtable
  then obtain ids where ids: "xids = Some ids" "length ids = m + n" using assms by (auto simp: takes_ids_def)
  have "map_new (take m ids @ drop m ids) (\<lambda>i. if i \<in> D then place i else -1) (dm_hash dm) =
      map_new (drop m ids) (\<lambda>i. if m + i \<in> D then place (m + i) else -1) (map_new (take m ids) (\<lambda>i. if i \<in> D then place i else -1) (dm_hash dm))"
    using ids(2) by (subst map_new_append) (simp cong: if_cong)
  then show ?thesis using Hashtable ids by (simp add: map_extended_def)
qed (simp add: map_extended_def)

lemma new_place_append:
  assumes "i < length fs" "snd (fs ! i) < int (length M)"
  shows "new_place (append_new es M) fs i = new_place M (es @ fs) (length es + i)"
proof (cases "snd (fs ! i) < 0")
  case False
  then have "nat (snd (fs ! i)) < length M" using assms(2) by simp
  then show ?thesis using False by (simp add: new_place_def Let_def nth_append append_new_def add.assoc cong: if_cong)
qed (simp add: new_place_def nth_append)

lemma new_place_prefix: "i < length es \<Longrightarrow> new_place M (es @ fs) i = new_place M es i"
  by (simp add: new_place_def nth_append Let_def cong: if_cong)

lemma map_extended_cong:
  assumes "\<And>i. i < n \<Longrightarrow> place i = place' i" "\<And>i. i < n \<Longrightarrow> i \<in> D \<longleftrightarrow> i \<in> D'" "\<And>ids. xids = Some ids \<Longrightarrow> length ids = n" "takes_ids dm xids"
  shows "map_extended dm n xids place D = map_extended dm n xids place' D'"
proof (cases "dm_type dm")
  case Hashtable
  then obtain ids where "xids = Some ids" "length ids = n" using assms(3,4) by (auto simp: takes_ids_def)
  then show ?thesis using Hashtable assms(1,2) by (auto simp: map_extended_def intro!: map_new_cong arg_cong [of _ _ "\<lambda>h. dm\<lparr>dm_hash := h\<rparr>"])
qed (use assms(1,2) in \<open>simp_all add: map_extended_def\<close>)

lemma new_entries_append:
  "length ids = length xs \<Longrightarrow> length coarse = length xs \<Longrightarrow>
   new_entries cd (ids @ ids') (xs @ xs') (coarse @ coarse') = new_entries cd ids xs coarse @ new_entries cd ids' xs' coarse'"
  by (simp add: new_entries_def)

lemma new_ids_append:
  assumes "\<And>ids. xids = Some ids \<Longrightarrow> length ids = m + n"
  shows "new_ids nt (m + n) xids = new_ids nt m (map_option (take m) xids) @ new_ids (nt + m) n (map_option (drop m) xids)"
proof (cases xids)
  case None
  then show ?thesis by (auto simp: new_ids_def nth_append intro!: nth_equalityI)
qed (simp add: new_ids_def)

lemma ivf_added_append:
  fixes cd :: "('v, 'd) ivf_codec"
  assumes ids: "\<And>ids. xids = Some ids \<Longrightarrow> length ids = length (xs @ ys)" "takes_ids (ivf_direct_map ivf) xids"
    and len: "length coarse = length xs" "length coarse' = length ys" "\<forall>c \<in> set coarse'. c < int (length M)"
  shows "ivf_added cd (append_new (new_entries cd (new_ids (ivf_ntotal ivf) (length xs) (map_option (take (length xs)) xids)) xs coarse) M)
      s' ys (map_option (drop (length xs)) xids) coarse' (ivf_added cd M s xs (map_option (take (length xs)) xids) coarse ivf)
    = ivf_added cd M s' (xs @ ys) xids (coarse @ coarse') ivf"
proof -
  let ?m = "length xs" and ?n = "length ys" and ?nt = "ivf_ntotal ivf" and ?dm = "ivf_direct_map ivf"
  let ?ids = "new_ids ?nt ?m (map_option (take ?m) xids)" and ?ids' = "new_ids (?nt + ?m) ?n (map_option (drop ?m) xids)"
  let ?es = "new_entries cd ?ids xs coarse" and ?fs = "new_entries cd ?ids' ys coarse'"
  let ?D = "{i. i < length (xs @ ys) \<and> -1 \<le> (coarse @ coarse') ! i}"
  have i1: "\<And>ids. xids = Some ids \<Longrightarrow> length ids = ?m + ?n" using ids(1) by simp
  have li: "length ?ids = ?m" "length ?ids' = ?n" using i1 by (auto intro!: length_new_ids)
  note parts = new_entries_parts [OF li(1) len(1), of cd] new_entries_parts [OF li(2) len(2), of cd]
  have all: "new_entries cd (new_ids ?nt (length (xs @ ys)) xids) (xs @ ys) (coarse @ coarse') = ?es @ ?fs"
    using new_ids_append [of xids ?m ?n, OF i1] new_entries_append [OF li(1) len(1)] by simp
  have fs: "snd (?fs ! i) < int (length M)" if "i < ?n" for i
  proof -
    have "snd (?fs ! i) = coarse' ! i" using arg_cong [OF parts(6), of "\<lambda>zs. zs ! i"] that parts(8) by simp
    then show ?thesis using len(2,3) that by simp
  qed
  have t1: "takes_ids ?dm (map_option (take ?m) xids)" using ids(2) by (auto simp: takes_ids_def)
  have c1: "map_extended ?dm ?m (map_option (take ?m) xids) (new_place M ?es) {i. i < ?m \<and> -1 \<le> coarse ! i} =
      map_extended ?dm ?m (map_option (take ?m) xids) (new_place M (?es @ ?fs)) ?D"
    by (rule map_extended_cong [OF _ _ _ t1]) (use parts(4) len(1) i1 in \<open>auto simp: new_place_prefix nth_append\<close>)
  let ?dm1 = "map_extended ?dm ?m (map_option (take ?m) xids) (new_place M (?es @ ?fs)) ?D"
  have t2: "takes_ids ?dm1 (map_option (drop ?m) xids)" using ids(2) by (auto simp: takes_ids_def)
  have c2: "map_extended ?dm1 ?n (map_option (drop ?m) xids) (new_place (append_new ?es M) ?fs) {i. i < ?n \<and> -1 \<le> coarse' ! i} =
      map_extended ?dm1 ?n (map_option (drop ?m) xids) (\<lambda>i. new_place M (?es @ ?fs) (?m + i)) {i. ?m + i \<in> ?D}"
    by (rule map_extended_cong [OF _ _ _ t2]) (use parts(4,8) len(1) i1 fs in \<open>auto simp: new_place_append nth_append\<close>)
  have "map_extended ?dm1 ?n (map_option (drop ?m) xids) (new_place (append_new ?es M) ?fs) {i. i < ?n \<and> -1 \<le> coarse' ! i} =
      map_extended ?dm (?m + ?n) xids (new_place M (?es @ ?fs)) ?D"
    unfolding c2 by (rule map_extended_append [OF i1 ids(2)])
  then show ?thesis unfolding ivf_added_def all c1 by simp
qed

context inverted_lists
begin

lemma ivf_add_block_spec:
  fixes ivf :: "'s ivf" and cd :: "('v, 'd) ivf_codec" and xs xids coarse
  defines "es \<equiv> new_entries cd (new_ids (ivf_ntotal ivf) (length xs) xids) xs coarse"
  assumes s: "inv (ivf_invlists ivf)" and tr: "ivf_is_trained ivf" and nt: "0 < nt"
    and ok: "addable cs (length (L (ivf_invlists ivf))) cd xs xids coarse (ivf_direct_map ivf)"
  shows "\<exists>s'. ivf_add_block ops cd nt xs xids coarse ivf = Inr (ivf_added cd (L (ivf_invlists ivf)) s' xs xids coarse ivf)
    \<and> inv s' \<and> L s' = append_new es (L (ivf_invlists ivf))"
proof -
  let ?n = "length xs" and ?ids = "new_ids (ivf_ntotal ivf) (length xs) xids" and ?dm = "ivf_direct_map ivf" and ?M = "L (ivf_invlists ivf)"
  let ?D = "{i. i < length xs \<and> -1 \<le> coarse ! i}"
  have len: "length ?ids = ?n" "length coarse = ?n" using ok by (simp_all add: addable_def length_new_ids)
  note parts = new_entries_parts [OF len, of cd, folded es_def]
  have coarse: "snd (es ! i) = coarse ! i" if "i < ?n" for i using arg_cong [OF parts(2), of "\<lambda>ys. ys ! i"] that parts(4) by simp
  have D: "{i. i < length es \<and> -1 \<le> snd (es ! i)} = ?D" using coarse parts(4) by auto
  have ok_es: "\<forall>e \<in> set es. snd e < int (length ?M) \<and> length (snd (fst e)) = cs"
  proof
    fix e assume "e \<in> set es"
    then have "snd e \<in> set (map snd es)" "snd (fst e) \<in> set (map (snd \<circ> fst) es)" by force+
    then show "snd e < int (length ?M) \<and> length (snd (fst e)) = cs" using ok unfolding parts by (auto simp: addable_def)
  qed
  have "takes_ids ?dm xids" "\<And>ids. xids = Some ids \<Longrightarrow> length ids = ?n" using ok by (simp_all add: addable_def)
  from dma_run [OF this] obtain a dm1 where a: "dma_new ?dm ?n xids = Inr (a, dm1)" "room_for a dm1 (length es)"
    "\<forall>place D. dma_finish (placed place a dm1 D) = Inr (map_extended ?dm ?n xids place D)" unfolding parts(4) by blast
  obtain s' where s': "fold_result (\<lambda>rank. fold_result (ivf_add_step ops nt rank ?ids coarse
        (map (\<lambda>i. ic_encode cd (xs ! i) (coarse ! i)) [0..<?n])) [0..<?n]) [0..<nt] (ivf_invlists ivf, a, dm1) =
      Inr (s', placed (new_place ?M es) a dm1 ?D)" "inv s'" "L s' = append_new es ?M"
    using ivf_add_loop_spec [OF a(2) nt s ok_es] unfolding D unfolding parts append_new_def by blast
  have can: "check_can_add xids ?dm = Inr ()" using ok by (auto simp: addable_def takes_ids_def check_can_add_def)
  have "ivf_add_block ops cd nt xs xids coarse ivf = bind_result (dma_finish (placed (new_place ?M es) a dm1 ?D)) (\<lambda>dm.
      Inr (ivf\<lparr>ivf_invlists := s', ivf_direct_map := dm, ivf_ntotal := ivf_ntotal ivf + ?n\<rparr>))"
    using tr s'(1) unfolding ivf_add_block_def can a(1) new_ids_def
    by (cases "placed (new_place ?M es) a dm1 ?D") (simp add: can a(1) Let_def)
  then show ?thesis using a(3) s'(2,3) by (intro exI [of _ s']) (simp add: ivf_added_def es_def)
qed

text \<open>The blocks of a long addition make up one addition.\<close>

lemma ivf_add_blocks_spec:
  fixes ivf :: "'s ivf" and cd :: "('v, 'd) ivf_codec"
  assumes "inv (ivf_invlists ivf)" "ivf_is_trained ivf" "0 < nt" "0 < bs" "length xs \<le> m * bs"
    and "addable cs (length (L (ivf_invlists ivf))) cd xs xids coarse (ivf_direct_map ivf)"
  shows "\<exists>s'. ivf_add_blocks ops cd nt bs xs xids coarse m ivf = Inr (ivf_added cd (L (ivf_invlists ivf)) s' xs xids coarse ivf)
    \<and> inv s' \<and> L s' = append_new (new_entries cd (new_ids (ivf_ntotal ivf) (length xs) xids) xs coarse) (L (ivf_invlists ivf))"
  using assms(1,2,5,6)
proof (induction m arbitrary: xs xids coarse ivf)
  case 0
  then have e: "xs = []" "coarse = []" "\<forall>ids. xids = Some ids \<longrightarrow> ids = []" by (auto simp: addable_def)
  have x: "xids = Some ids \<Longrightarrow> ids = []" for ids using e(3) by simp
  have t: "takes_ids (ivf_direct_map ivf) xids" using 0 by (simp add: addable_def)
  have "map_extended (ivf_direct_map ivf) 0 xids place D = ivf_direct_map ivf" for place D
    using t x by (cases "dm_type (ivf_direct_map ivf)") (auto simp: map_extended_def takes_ids_def map_new_def)
  then have "ivf_added cd (L (ivf_invlists ivf)) (ivf_invlists ivf) [] xids [] ivf = ivf" by (simp add: ivf_added_def)
  then show ?case using 0 e by (intro exI [of _ "ivf_invlists ivf"]) (simp add: new_entries_def)
next
  case (Suc m)
  let ?k = "length (take bs xs)" and ?M = "L (ivf_invlists ivf)"
  have ok: "length coarse = length xs" "\<And>ids. xids = Some ids \<Longrightarrow> length ids = length xs" "takes_ids (ivf_direct_map ivf) xids"
    "\<forall>c \<in> set coarse. c < int (length ?M)" "\<forall>i < length xs. length (ic_encode cd (xs ! i) (coarse ! i)) = cs"
    using Suc.prems(4) by (simp_all add: addable_def)
  have x1: "map_option (take bs) xids = map_option (take ?k) xids" "map_option (drop bs) xids = map_option (drop ?k) xids"
    using ok(2) by (cases xids; simp add: min_def; fail)+
  have "addable cs (length ?M) cd (take bs xs) (map_option (take bs) xids) (take bs coarse) (ivf_direct_map ivf)"
    using ok by (auto simp: addable_def takes_ids_def dest: in_set_takeD)
  from ivf_add_block_spec [OF Suc.prems(1,2) assms(3) this] obtain s1 where s1:
    "ivf_add_block ops cd nt (take bs xs) (map_option (take bs) xids) (take bs coarse) ivf =
       Inr (ivf_added cd ?M s1 (take bs xs) (map_option (take bs) xids) (take bs coarse) ivf)" "inv s1"
    "L s1 = append_new (new_entries cd (new_ids (ivf_ntotal ivf) ?k (map_option (take bs) xids)) (take bs xs) (take bs coarse)) ?M"
    by blast
  let ?ivf1 = "ivf_added cd ?M s1 (take bs xs) (map_option (take bs) xids) (take bs coarse) ivf"
  have i1: "ivf_invlists ?ivf1 = s1" "ivf_is_trained ?ivf1" "ivf_ntotal ?ivf1 = ivf_ntotal ivf + ?k"
    "dm_type (ivf_direct_map ?ivf1) = dm_type (ivf_direct_map ivf)"
    using Suc.prems(2) by (simp_all add: ivf_added_def)
  have "addable cs (length (L s1)) cd (drop bs xs) (map_option (drop bs) xids) (drop bs coarse) (ivf_direct_map ?ivf1)"
    using ok i1(4) by (auto simp: addable_def takes_ids_def s1(3) dest: in_set_dropD)
  moreover have "length (drop bs xs) \<le> m * bs" using Suc.prems(3) by simp
  ultimately obtain s2 where s2: "ivf_add_blocks ops cd nt bs (drop bs xs) (map_option (drop bs) xids) (drop bs coarse) m ?ivf1 =
      Inr (ivf_added cd (L s1) s2 (drop bs xs) (map_option (drop bs) xids) (drop bs coarse) ?ivf1)" "inv s2"
    "L s2 = append_new (new_entries cd (new_ids (ivf_ntotal ivf + ?k) (length (drop bs xs)) (map_option (drop bs) xids)) (drop bs xs) (drop bs coarse)) (L s1)"
    using Suc.IH [of ?ivf1 "drop bs xs" "map_option (drop bs) xids" "drop bs coarse"] s1(2) i1 by auto
  have "ivf_added cd (L s1) s2 (drop bs xs) (map_option (drop bs) xids) (drop bs coarse) ?ivf1 =
      ivf_added cd ?M s2 (take bs xs @ drop bs xs) xids (take bs coarse @ drop bs coarse) ivf"
    unfolding s1(3) x1 by (rule ivf_added_append) (use ok in \<open>auto dest: in_set_dropD\<close>)
  moreover have "L s2 = append_new (new_entries cd (new_ids (ivf_ntotal ivf) (length xs) xids) xs coarse) ?M"
  proof -
    let ?i1 = "new_ids (ivf_ntotal ivf) ?k (map_option (take bs) xids)"
      and ?i2 = "new_ids (ivf_ntotal ivf + ?k) (length (drop bs xs)) (map_option (drop bs) xids)"
    have n: "length xs = ?k + length (drop bs xs)" by simp
    have "new_ids (ivf_ntotal ivf) (length xs) xids = ?i1 @ ?i2"
      unfolding x1 by (subst n, rule new_ids_append) (use ok(2) in auto)
    moreover have "length ?i1 = ?k" using ok(2) by (intro length_new_ids) auto
    ultimately have "new_entries cd (new_ids (ivf_ntotal ivf) (length xs) xids) xs coarse =
        new_entries cd ?i1 (take bs xs) (take bs coarse) @ new_entries cd ?i2 (drop bs xs) (drop bs coarse)"
      using new_entries_append [of ?i1 "take bs xs" "take bs coarse" cd ?i2 "drop bs xs" "drop bs coarse"] ok(1) by simp
    then show ?thesis unfolding s2(3) s1(3) append_new_append by simp
  qed
  ultimately show ?case using s1(1) s2(1,2) by (intro exI [of _ s2]) simp
qed

lemma ivf_add_core_spec:
  fixes ivf :: "'s ivf" and cd :: "('v, 'd) ivf_codec"
  assumes "inv (ivf_invlists ivf)" "ivf_is_trained ivf" "0 < nt"
    and "addable cs (length (L (ivf_invlists ivf))) cd xs xids coarse (ivf_direct_map ivf)"
  shows "\<exists>s'. ivf_add_core ops cd nt xs xids coarse ivf = Inr (ivf_added cd (L (ivf_invlists ivf)) s' xs xids coarse ivf)
    \<and> inv s' \<and> L s' = append_new (new_entries cd (new_ids (ivf_ntotal ivf) (length xs) xids) xs coarse) (L (ivf_invlists ivf))"
proof (cases "length xs > 65536")
  case True
  have "length xs \<le> (length xs + 65535) div 65536 * 65536"
    using div_mult_mod_eq [of "length xs + 65535" 65536] mod_less_divisor [of 65536 "length xs + 65535"] by linarith
  from ivf_add_blocks_spec [OF assms(1-3) _ this assms(4)] show ?thesis using True by (simp add: ivf_add_core_def Let_def add.commute)
next
  case False
  then show ?thesis using ivf_add_block_spec [OF assms] by (simp add: ivf_add_core_def Let_def)
qed

end

section \<open>The map stays consistent\<close>

lemma located_append_new:
  "located (append_new es M) l k x \<longleftrightarrow> located M l k x
    \<or> (\<exists>i < length es. l < length M \<and> snd (es ! i) = int l \<and> fst (fst (es ! i)) = x \<and> k = length (M ! l) + length (assigned_to (take i es) l))"
  (is "_ \<longleftrightarrow> _ \<or> ?R")
proof -
  let ?P = "\<lambda>e. snd e = int l"
  have a: "length (assigned_to fs l) = length (filter ?P fs)" for fs by (simp add: assigned_to_def)
  have at: "assigned_to es l ! length (assigned_to (take i es) l) = fst (es ! i)" "length (assigned_to (take i es) l) < length (assigned_to es l)"
    if "i < length es" "snd (es ! i) = int l" for i
    using nth_filter_rank [of i es ?P] that by (simp_all add: assigned_to_def)
  show ?thesis
  proof
    assume loc: "located (append_new es M) l k x"
    then have l: "l < length M" "k < length (M ! l @ assigned_to es l)" "fst ((M ! l @ assigned_to es l) ! k) = x"
      by (auto simp: located_def append_new_def)
    show "located M l k x \<or> ?R"
    proof (cases "k < length (M ! l)")
      case True
      then show ?thesis using l by (simp add: located_def nth_append)
    next
      case False
      then have "k - length (M ! l) < length (filter ?P es)" using l(2) by (simp add: a)
      from filter_rank_exists [OF this] obtain i where "i < length es" "snd (es ! i) = int l"
        "k - length (M ! l) = length (assigned_to (take i es) l)" unfolding a by blast
      then show ?thesis using False l at(1) [of i] by (auto simp: nth_append intro!: exI [of _ i])
    qed
  next
    assume "located M l k x \<or> ?R"
    then show "located (append_new es M) l k x"
      using at by (auto simp: located_def append_new_def nth_append)
  qed
qed

lemma consistent_append_new:
  assumes h: "consistent M h" and new: "\<forall>e \<in> set es. 0 \<le> snd e \<and> snd e < int (length M) \<and> h (fst (fst e)) = None"
    and h': "\<forall>i < length es. h' (fst (fst (es ! i))) = Some (new_place M es i)" "\<forall>x. x \<notin> fst ` fst ` set es \<longrightarrow> h' x = h x"
  shows "consistent (append_new es M) h'"
proof -
  have place: "new_place M es i = lo_build l (length (M ! l) + length (assigned_to (take i es) l))" if "snd (es ! i) = int l" for i l
    using that by (simp add: new_place_def)
  have old: "h' x = h x" if "h x \<noteq> None" for x
  proof -
    have "x \<notin> fst ` fst ` set es" using new that by auto
    then show ?thesis using h'(2) by blast
  qed
  show ?thesis unfolding consistent_def
  proof (intro conjI allI impI)
    fix l k x assume "located (append_new es M) l k x"
    then consider "located M l k x" | i where "i < length es" "snd (es ! i) = int l" "fst (fst (es ! i)) = x"
      "k = length (M ! l) + length (assigned_to (take i es) l)" unfolding located_append_new by blast
    then show "h' x = Some (lo_build l k)"
    proof cases
      case 1
      then show ?thesis using consistentD [OF h] old [of x] by simp
    next
      case 2
      then show ?thesis using h'(1) place by auto
    qed
  next
    fix x lo assume x: "h' x = Some lo"
    show "\<exists>l k. located (append_new es M) l k x \<and> lo = lo_build l k"
    proof (cases "x \<in> fst ` fst ` set es")
      case True
      then obtain i where i: "i < length es" "fst (fst (es ! i)) = x" by (force simp: in_set_conv_nth)
      define l where "l = nat (snd (es ! i))"
      have l: "snd (es ! i) = int l" "l < length M" using bspec [OF new nth_mem [OF i(1)]] by (auto simp: l_def)
      have "lo = lo_build l (length (M ! l) + length (assigned_to (take i es) l))" using h'(1) i x place [OF l(1)] by auto
      then show ?thesis unfolding located_append_new using i l by blast
    next
      case False
      then have "h x = Some lo" using h'(2) x by simp
      then show ?thesis using consistentE [OF h] unfolding located_append_new by blast
    qed
  qed
qed

section \<open>The invariant of the index\<close>

text \<open>
  The map, where there is one, knows the place of every entry; an array has an element per vector. List numbers and offsets
  fit their halves of the word.
\<close>

definition map_ok :: "entry list list \<Rightarrow> direct_map \<Rightarrow> nat \<Rightarrow> bool" where
  "map_ok M dm ntotal \<longleftrightarrow> fits M \<and> (dm_type dm \<noteq> NoMap \<longrightarrow> consistent M (dm_map dm))
     \<and> (dm_type dm = Array_map \<longrightarrow> length (dm_array dm) = ntotal)"

text \<open>Ids that are not yet in use, and every vector in a list.\<close>

definition fresh_ids :: "direct_map \<Rightarrow> idx_t list option \<Rightarrow> idx_t list \<Rightarrow> bool" where
  "fresh_ids dm xids coarse \<longleftrightarrow>
     (dm_type dm \<noteq> NoMap \<longrightarrow> (\<forall>c \<in> set coarse. 0 \<le> c) \<and> (\<forall>ids. xids = Some ids \<longrightarrow> distinct ids \<and> (\<forall>x \<in> set ids. dm_hash dm x = None)))"

lemma new_place_fits:
  assumes "fits (append_new es M)" "i < length es" "0 \<le> snd (es ! i)" "snd (es ! i) < int (length M)"
  shows "\<exists>l k. new_place M es i = lo_build l k \<and> located (append_new es M) l k (fst (fst (es ! i))) \<and> append_new es M ! l ! k = fst (es ! i)
    \<and> l = nat (snd (es ! i)) \<and> 0 \<le> new_place M es i"
proof -
  define l where "l = nat (snd (es ! i))"
  let ?k = "length (M ! l) + length (assigned_to (take i es) l)"
  have l: "snd (es ! i) = int l" "l < length M" using assms(3,4) by (simp_all add: l_def)
  have p: "new_place M es i = lo_build l ?k" using l by (simp add: new_place_def)
  have loc: "located (append_new es M) l ?k (fst (fst (es ! i)))" unfolding located_append_new using l assms(2) by blast
  have "assigned_to es l ! length (assigned_to (take i es) l) = fst (es ! i)" "length (assigned_to (take i es) l) < length (assigned_to es l)"
    using nth_filter_rank [of i es "\<lambda>e. snd e = int l"] assms(2) l(1) by (simp_all add: assigned_to_def)
  then have "append_new es M ! l ! ?k = fst (es ! i)" using l(2) by (simp add: append_new_def nth_append)
  moreover have "0 \<le> new_place M es i" unfolding p using fits_located [OF assms(1) loc] lo_nonneg by blast
  ultimately show ?thesis using p loc by (auto simp: l_def)
qed

lemma map_ok_added:
  fixes cd :: "('v, 'd) ivf_codec" and ntotal :: nat
  defines "es \<equiv> \<lambda>xs xids coarse. new_entries cd (new_ids ntotal (length xs) xids) xs coarse"
  assumes ok: "map_ok M dm ntotal" and add: "addable cs (length M) cd xs xids coarse dm" and fresh: "fresh_ids dm xids coarse"
    and fits: "fits (append_new (es xs xids coarse) M)"
  shows "map_ok (append_new (es xs xids coarse) M)
    (map_extended dm (length xs) xids (new_place M (es xs xids coarse)) {i. i < length xs \<and> -1 \<le> coarse ! i}) (ntotal + length xs)"
proof -
  let ?n = "length xs" and ?es = "es xs xids coarse" and ?ids = "new_ids ntotal (length xs) xids"
  let ?D = "{i. i < length xs \<and> -1 \<le> coarse ! i}" let ?dm = "map_extended dm ?n xids (new_place M ?es) ?D"
  have add': "length coarse = ?n" "\<forall>ids. xids = Some ids \<longrightarrow> length ids = ?n" "takes_ids dm xids" "\<forall>c \<in> set coarse. c < int (length M)"
    using add by (simp_all add: addable_def)
  have li: "length ?ids = ?n" using length_new_ids [OF add'(2)] by simp
  note parts = new_entries_parts [OF li add'(1), of cd]
  have len: "length ?es = ?n" by (simp add: es_def parts)
  have at: "fst (fst (?es ! i)) = ?ids ! i" "snd (?es ! i) = coarse ! i" if "i < ?n" for i
    using arg_cong [OF parts(1), of "\<lambda>zs. zs ! i"] arg_cong [OF parts(2), of "\<lambda>zs. zs ! i"] that parts(4) by (simp_all add: es_def)
  have ids: "fst ` fst ` set ?es = set ?ids" using arg_cong [OF parts(1), of set] by (simp add: es_def image_comp)
  have cons: "consistent (append_new ?es M) (dm_map ?dm)" if t: "dm_type dm \<noteq> NoMap"
  proof -
    have h: "consistent M (dm_map dm)" using ok t by (simp add: map_ok_def)
    have c: "\<forall>c \<in> set coarse. 0 \<le> c" using fresh t by (simp add: fresh_ids_def)
    have D: "i \<in> ?D" if "i < ?n" for i using c that add'(1) by (simp add: order.trans [of "-1" 0])
    have range: "0 \<le> snd (?es ! i)" "snd (?es ! i) < int (length M)" if "i < ?n" for i using at that c add'(1,4) by simp_all
    have place: "0 \<le> new_place M ?es i" if "i < ?n" for i using new_place_fits [OF fits] range [OF that] that len by auto
    have new: "\<forall>e \<in> set ?es. 0 \<le> snd e \<and> snd e < int (length M) \<and> dm_map dm (fst (fst e)) = None" 
      if none: "\<forall>x \<in> set ?ids. dm_map dm x = None"
    proof
      fix e assume "e \<in> set ?es"
      then obtain i where "i < ?n" "e = ?es ! i" using len by (metis in_set_conv_nth)
      then show "0 \<le> snd e \<and> snd e < int (length M) \<and> dm_map dm (fst (fst e)) = None" using range at li none by simp
    qed
    show ?thesis
    proof (cases "dm_type dm")
      case NoMap
      then show ?thesis using t by simp
    next
      case Array_map
      then have x: "?ids = map (\<lambda>i. int (ntotal + i)) [0..<?n]" "length (dm_array dm) = ntotal"
        using add'(3) ok by (simp_all add: takes_ids_def new_ids_def map_ok_def)
      have none: "\<forall>x \<in> set ?ids. dm_map dm x = None" using Array_map x by (auto simp: dm_map_def arr_map_def)
      have arr: "dm_array ?dm = dm_array dm @ map (new_place M ?es) [0..<?n]"
        using Array_map D by (simp add: map_extended_def)
      show ?thesis
      proof (rule consistent_append_new [OF h new [OF none]])
        show "\<forall>i < length ?es. dm_map ?dm (fst (fst (?es ! i))) = Some (new_place M ?es i)"
        proof (intro allI impI)
          fix i assume "i < length ?es"
          then have i: "i < ?n" using len by simp
          then show "dm_map ?dm (fst (fst (?es ! i))) = Some (new_place M ?es i)"
            using Array_map x place [OF i] at [OF i] by (auto simp: dm_map_def arr_map_def arr nth_append nat_int_add)
        qed
        show "\<forall>y. y \<notin> fst ` fst ` set ?es \<longrightarrow> dm_map ?dm y = dm_map dm y"
        proof (intro allI impI)
          fix y assume y: "y \<notin> fst ` fst ` set ?es"
          have "y \<in> set ?ids" if r: "0 \<le> y" "ntotal \<le> nat y" "nat y < ntotal + ?n"
          proof -
            have "nat y - ntotal < ?n" using r(2,3) by linarith
            moreover have "int (ntotal + (nat y - ntotal)) = y" using r(1,2) by simp
            ultimately show ?thesis unfolding x(1) set_map by (intro image_eqI [of y _ "nat y - ntotal"]) (simp_all only: set_upt atLeastLessThan_iff, simp)
          qed
          then have "\<not> (0 \<le> y \<and> ntotal \<le> nat y \<and> nat y < ntotal + ?n)" using y unfolding ids by blast
          then show "dm_map ?dm y = dm_map dm y" using Array_map x(2) by (auto simp: dm_map_def arr_map_def arr nth_append)
        qed
      qed
    next
      case Hashtable
      then obtain js where js: "xids = Some js" "length js = ?n" "distinct js" "\<forall>x \<in> set js. dm_hash dm x = None"
        using add'(2,3) fresh by (auto simp: takes_ids_def fresh_ids_def)
      then have x: "?ids = js" by (simp add: new_ids_def)
      have "dm_hash ?dm = map_new js (\<lambda>i. if i \<in> ?D then new_place M ?es i else -1) (dm_hash dm)"
        using Hashtable js(1) by (simp add: map_extended_def cong: if_cong)
      also have "\<dots> = map_new js (new_place M ?es) (dm_hash dm)" using D js(2) by (intro map_new_cong) simp
      finally have hash: "dm_hash ?dm = map_new js (new_place M ?es) (dm_hash dm)" .
      have none: "\<forall>x \<in> set ?ids. dm_map dm x = None" using Hashtable js x by (simp add: dm_map_def)
      show ?thesis
      proof (rule consistent_append_new [OF h new [OF none]])
        show "\<forall>i < length ?es. dm_map ?dm (fst (fst (?es ! i))) = Some (new_place M ?es i)"
          using Hashtable hash map_new_at [OF js(3)] at js(2) len by (simp add: dm_map_def x)
        show "\<forall>y. y \<notin> fst ` fst ` set ?es \<longrightarrow> dm_map ?dm y = dm_map dm y"
          unfolding ids x using Hashtable hash map_new_outside by (simp add: dm_map_def)
      qed
    qed
  qed
  moreover have "length (dm_array ?dm) = ntotal + ?n" if "dm_type dm = Array_map"
    using that ok by (simp add: map_extended_def map_ok_def)
  ultimately show ?thesis using fits by (simp add: map_ok_def)
qed

context inverted_lists
begin

lemma ivf_reconstruct_located:
  assumes s: "inv (ivf_invlists ivf)" and map: "map_ok (L (ivf_invlists ivf)) (ivf_direct_map ivf) ntotal" "dm_type (ivf_direct_map ivf) \<noteq> NoMap"
    and l: "located (L (ivf_invlists ivf)) l k x"
  shows "ivf_reconstruct ops cd ivf x = Inr (ic_decode cd l (snd (L (ivf_invlists ivf) ! l ! k)))"
proof -
  have c: "consistent (L (ivf_invlists ivf)) (dm_map (ivf_direct_map ivf))" "fits (L (ivf_invlists ivf))"
    using map by (simp_all add: map_ok_def)
  have "dm_get x (ivf_direct_map ivf) = Inr (lo_build l k)" using dm_get_consistent(1) [OF c map(2) l] .
  moreover have "lo_listno (lo_build l k) = l" "lo_offset (lo_build l k) = k" using fits_parts [OF c(2) l] by simp_all
  moreover have "il_single_code (il_view_of ops (ivf_invlists ivf)) l k = Inr (snd (L (ivf_invlists ivf) ! l ! k))"
    using single(2) [OF s] l by (simp add: located_def)
  ultimately show ?thesis by (simp add: ivf_reconstruct_def ivf_reconstruct_from_offset_def)
qed

lemma ivf_add_core_map_spec:
  fixes ivf :: "'s ivf" and cd :: "('v, 'd) ivf_codec" and xs xids coarse
  defines "es \<equiv> new_entries cd (new_ids (ivf_ntotal ivf) (length xs) xids) xs coarse"
  assumes s: "inv (ivf_invlists ivf)" "ivf_is_trained ivf" "0 < nt"
    and add: "addable cs (length (L (ivf_invlists ivf))) cd xs xids coarse (ivf_direct_map ivf)"
    and map: "map_ok (L (ivf_invlists ivf)) (ivf_direct_map ivf) (ivf_ntotal ivf)" "dm_type (ivf_direct_map ivf) \<noteq> NoMap"
    and fresh: "fresh_ids (ivf_direct_map ivf) xids coarse" and fits: "fits (append_new es (L (ivf_invlists ivf)))"
  shows "\<exists>ivf'. ivf_add_core ops cd nt xs xids coarse ivf = Inr ivf' \<and> inv (ivf_invlists ivf')
    \<and> map_ok (L (ivf_invlists ivf')) (ivf_direct_map ivf') (ivf_ntotal ivf')
    \<and> (\<forall>i < length xs. ivf_reconstruct ops cd ivf' (new_ids (ivf_ntotal ivf) (length xs) xids ! i) =
        Inr (ic_decode cd (nat (coarse ! i)) (ic_encode cd (xs ! i) (coarse ! i))))"
proof -
  let ?M = "L (ivf_invlists ivf)" and ?ids = "new_ids (ivf_ntotal ivf) (length xs) xids"
  obtain s' where s': "ivf_add_core ops cd nt xs xids coarse ivf = Inr (ivf_added cd ?M s' xs xids coarse ivf)" "inv s'"
    "L s' = append_new es ?M" using ivf_add_core_spec [OF s add] unfolding es_def by blast
  let ?ivf' = "ivf_added cd ?M s' xs xids coarse ivf"
  have inv': "inv (ivf_invlists ?ivf')" using s'(2) by (simp add: ivf_added_def)
  have map': "map_ok (L (ivf_invlists ?ivf')) (ivf_direct_map ?ivf') (ivf_ntotal ?ivf')"
    using map_ok_added [OF map(1) add fresh, folded es_def, OF fits] s'(3) by (simp add: ivf_added_def es_def)
  have len: "length ?ids = length xs" "length coarse = length xs" using add by (simp_all add: addable_def length_new_ids)
  note parts = new_entries_parts [OF len, of cd, folded es_def]
  have "ivf_reconstruct ops cd ?ivf' (?ids ! i) = Inr (ic_decode cd (nat (coarse ! i)) (ic_encode cd (xs ! i) (coarse ! i)))" if i: "i < length xs" for i
  proof -
    have e: "fst (fst (es ! i)) = ?ids ! i" "snd (es ! i) = coarse ! i" "snd (fst (es ! i)) = ic_encode cd (xs ! i) (coarse ! i)"
      using arg_cong [OF parts(1), of "\<lambda>zs. zs ! i"] arg_cong [OF parts(2), of "\<lambda>zs. zs ! i"] arg_cong [OF parts(3), of "\<lambda>zs. zs ! i"] i parts(4)
      by simp_all
    have c: "0 \<le> coarse ! i" "coarse ! i < int (length ?M)" using fresh map(2) add i by (simp_all add: fresh_ids_def addable_def)
    from new_place_fits [OF fits, of i] obtain l k where lk: "located (append_new es ?M) l k (?ids ! i)"
      "append_new es ?M ! l ! k = fst (es ! i)" "l = nat (coarse ! i)" using e c i parts(4) by auto
    have loc: "located (L (ivf_invlists ?ivf')) l k (?ids ! i)" using lk(1) s'(3) by (simp add: ivf_added_def)
    have "dm_type (ivf_direct_map ?ivf') \<noteq> NoMap" using map(2) by (simp add: ivf_added_def)
    from ivf_reconstruct_located [OF inv' map' this loc, of cd] show ?thesis
      using lk(2,3) s'(3) e(3) by (simp add: ivf_added_def)
  qed
  then show ?thesis using s'(1) inv' map' by blast
qed

end

section \<open>Properties\<close>

text \<open>
  C17. \<open>IndexIVF::add_core\<close> on \<open>ArrayInvertedLists\<close>, whatever the number of threads and blocks: every list gets the ids and
  codes of the vectors that are assigned to it, in their order; vectors assigned to no list are counted in \<open>ntotal\<close> only.
\<close>

theorem ivf_add_appends:
  assumes "ail_ok cs (ivf_invlists ivf)" "ivf_is_trained ivf" "0 < nt"
    and "addable cs (length (ail_lists (ivf_invlists ivf))) cd xs xids coarse (ivf_direct_map ivf)"
  shows "\<exists>ivf'. ivf_add_core ail_ops cd nt xs xids coarse ivf = Inr ivf' \<and> ail_ok cs (ivf_invlists ivf')
    \<and> ail_lists (ivf_invlists ivf') =
        append_new (new_entries cd (new_ids (ivf_ntotal ivf) (length xs) xids) xs coarse) (ail_lists (ivf_invlists ivf))
    \<and> ivf_ntotal ivf' = ivf_ntotal ivf + length xs"
proof -
  from ail.ivf_add_core_spec [OF assms] obtain s' where s': "ivf_add_core ail_ops cd nt xs xids coarse ivf =
      Inr (ivf_added cd (ail_lists (ivf_invlists ivf)) s' xs xids coarse ivf)" "ail_ok cs s'"
    "ail_lists s' = append_new (new_entries cd (new_ids (ivf_ntotal ivf) (length xs) xids) xs coarse) (ail_lists (ivf_invlists ivf))"
    by blast
  then show ?thesis by (simp add: ivf_added_def)
qed

text \<open>Four vectors, two threads, the third without a list.\<close>

definition ivf_five :: "array_il ivf" where
  "ivf_five = \<lparr>ivf_nlist = 3, ivf_code_size = 1, ivf_nprobe = 1, ivf_max_codes = 0, ivf_parallel_mode = 0, ivf_similarity = False,
     ivf_is_trained = True, ivf_invlists = five_entries, ivf_direct_map = dm_new, ivf_ntotal = 5\<rparr>"

theorem ivf_add_appends_witness:
  "\<exists>ivf'. ivf_add_core ail_ops byte_codec 2 [7, 8, 9, 10] None [1, 0, -1, 1] ivf_five = Inr ivf'
    \<and> ail_lists (ivf_invlists ivf') = [[(1, [1]), (2, [2]), (6, [8])], [(3, [3]), (5, [7]), (8, [10])], [(4, [4]), (5, [5])]]
    \<and> ivf_ntotal ivf' = 9"
proof -
  have i: "ivf_invlists ivf_five = five_entries" "ivf_is_trained ivf_five" "ivf_ntotal ivf_five = 5" "ivf_direct_map ivf_five = dm_new"
    by (simp_all add: ivf_five_def)
  have "addable 1 (length (ail_lists five_entries)) byte_codec [7, 8, 9, 10] None [1, 0, -1, 1] dm_new"
    by (simp add: addable_def five_entries_ok takes_ids_def dm_new_def length_byte_code)
  from ivf_add_appends [of 1 ivf_five 2 byte_codec, unfolded i, OF five_entries_ok(1) i(2) zero_less_numeral this]
  obtain ivf' where r: "ivf_add_core ail_ops byte_codec 2 [7, 8, 9, 10] None [1, 0, -1, 1] ivf_five = Inr ivf'"
    "ail_lists (ivf_invlists ivf') = append_new (new_entries byte_codec (new_ids 5 (length [7, 8, 9, 10 :: int]) None) [7, 8, 9, 10] [1, 0, -1, 1])
      [[(1, [1]), (2, [2])], [(3, [3])], [(4, [4]), (5, [5])]]" "ivf_ntotal ivf' = 5 + length [7, 8, 9, 10 :: int]"
    unfolding five_entries_ok by blast
  moreover have "append_new (new_entries byte_codec (new_ids 5 (length [7, 8, 9, 10 :: int]) None) [7, 8, 9, 10] [1, 0, -1, 1])
      [[(1, [1]), (2, [2])], [(3, [3])], [(4, [4]), (5, [5])]] =
      [[(1, [1]), (2, [2]), (6, [8])], [(3, [3]), (5, [7]), (8, [10])], [(4, [4]), (5, [5])]]"
    by code_simp
  ultimately show ?thesis by simp
qed

text \<open>
  C12. An \<open>IndexIVF\<close> on \<open>ArrayInvertedLists\<close> with a direct map keeps its invariant under additions: the map knows the list
  and the offset of every entry, and \<open>reconstruct\<close> decodes the code of every new vector. Every vector has a list, and ids
  of a hash table are new.
\<close>

theorem ivf_add_reconstruct:
  assumes "ail_ok cs (ivf_invlists ivf)" "ivf_is_trained ivf" "0 < nt"
    and "addable cs (length (ail_lists (ivf_invlists ivf))) cd xs xids coarse (ivf_direct_map ivf)"
    and "map_ok (ail_lists (ivf_invlists ivf)) (ivf_direct_map ivf) (ivf_ntotal ivf)" "dm_type (ivf_direct_map ivf) \<noteq> NoMap"
    and "fresh_ids (ivf_direct_map ivf) xids coarse"
    and "fits (append_new (new_entries cd (new_ids (ivf_ntotal ivf) (length xs) xids) xs coarse) (ail_lists (ivf_invlists ivf)))"
  shows "\<exists>ivf'. ivf_add_core ail_ops cd nt xs xids coarse ivf = Inr ivf' \<and> ail_ok cs (ivf_invlists ivf')
    \<and> map_ok (ail_lists (ivf_invlists ivf')) (ivf_direct_map ivf') (ivf_ntotal ivf')
    \<and> (\<forall>i < length xs. ivf_reconstruct ail_ops cd ivf' (new_ids (ivf_ntotal ivf) (length xs) xids ! i) =
        Inr (ic_decode cd (nat (coarse ! i)) (ic_encode cd (xs ! i) (coarse ! i))))"
  using assms by (rule ail.ivf_add_core_map_spec)

text \<open>An empty index with an array, then one with a hash table.\<close>

definition ivf_empty :: "dm_type \<Rightarrow> array_il ivf" where
  "ivf_empty t = \<lparr>ivf_nlist = 2, ivf_code_size = 1, ivf_nprobe = 1, ivf_max_codes = 0, ivf_parallel_mode = 0, ivf_similarity = False,
     ivf_is_trained = True, ivf_invlists = ail_new 2 1, ivf_direct_map = dm_new\<lparr>dm_type := t\<rparr>, ivf_ntotal = 0\<rparr>"

theorem ivf_add_reconstruct_witness:
  "\<exists>ivf'. ivf_add_core ail_ops byte_codec 2 [7, 8, 9] None [1, 0, 1] (ivf_empty Array_map) = Inr ivf'
    \<and> ivf_reconstruct ail_ops byte_codec ivf' 2 = Inr 9"
proof -
  let ?ivf = "ivf_empty Array_map"
  have M: "ail_lists (ail_new 2 1) = [[], []]" "ail_ok 1 (ail_new 2 1)" using ail_new_ok(1) [of 1 2] ail_new_ok(2) [of 2 1] by (simp_all add: numeral_2_eq_2)
  have i: "ivf_invlists ?ivf = ail_new 2 1" "ivf_is_trained ?ivf" "ivf_ntotal ?ivf = 0" "ivf_direct_map ?ivf = dm_new\<lparr>dm_type := Array_map\<rparr>"
    by (simp_all add: ivf_empty_def)
  have a: "addable 1 (length (ail_lists (ail_new 2 1))) byte_codec [7, 8, 9] None [1, 0, 1] (dm_new\<lparr>dm_type := Array_map\<rparr>)"
    unfolding M by (simp add: addable_def takes_ids_def length_byte_code)
  have c: "consistent [[], []] Map.empty" by (rule consistent_empty) (auto simp: less_Suc_eq)
  have d: "dm_map (dm_new\<lparr>dm_type := Array_map\<rparr>) = Map.empty" by (simp add: dm_map_def dm_new_def arr_map_def fun_eq_iff)
  have m: "map_ok (ail_lists (ail_new 2 1)) (dm_new\<lparr>dm_type := Array_map\<rparr>) 0" "dm_type (dm_new\<lparr>dm_type := Array_map\<rparr>) \<noteq> NoMap"
    "fresh_ids (dm_new\<lparr>dm_type := Array_map\<rparr>) None [1, 0, 1]"
    unfolding M map_ok_def d using c by (simp_all add: fits_def dm_new_def fresh_ids_def)
  have "append_new (new_entries byte_codec (new_ids 0 (length [7, 8, 9 :: int]) None) [7, 8, 9] [1, 0, 1]) [[], []] =
      [[(1, [8])], [(0, [7]), (2, [9])]]" by code_simp
  then have f: "fits (append_new (new_entries byte_codec (new_ids 0 (length [7, 8, 9 :: int]) None) [7, 8, 9] [1, 0, 1]) (ail_lists (ail_new 2 1)))"
    unfolding M by (simp add: fits_def)
  from ivf_add_reconstruct [of 1 ?ivf 2 byte_codec, unfolded i, OF M(2) i(2) zero_less_numeral a m f] obtain ivf' where
    r: "ivf_add_core ail_ops byte_codec 2 [7, 8, 9] None [1, 0, 1] ?ivf = Inr ivf'"
    "\<forall>i < length [7, 8, 9 :: int]. ivf_reconstruct ail_ops byte_codec ivf' (new_ids 0 (length [7, 8, 9 :: int]) None ! i) =
        Inr (ic_decode byte_codec (nat ([1, 0, 1] ! i)) (ic_encode byte_codec ([7, 8, 9] ! i) ([1, 0, 1] ! i)))" by blast
  have "new_ids 0 (length [7, 8, 9 :: int]) None ! 2 = 2"
    "ic_decode byte_codec (nat ([1, 0, 1] ! 2)) (ic_encode byte_codec ([7, 8, 9] ! 2) ([1, 0, 1 :: int] ! 2)) = 9" by code_simp+
  then show ?thesis using r spec [OF r(2), of 2] by simp
qed

text \<open>
  A vector that is assigned to no list leaves an entry in a hash table, unlike \<open>add_single_id\<close>: \<open>get\<close> returns the list
  \<open>2 ^ 32 - 1\<close> for it and does not throw, and \<open>reconstruct\<close> fails the assertion on the
  list number. With an array map it throws.
\<close>

theorem unassigned_vector_in_hashtable:
  "\<exists>ivf'. ivf_add_core ail_ops byte_codec 1 [7] (Some [5]) [-1] (ivf_empty Hashtable) = Inr ivf'
     \<and> dm_get 5 (ivf_direct_map ivf') = Inr (- (2 ^ 32))
     \<and> ivf_reconstruct ail_ops byte_codec ivf' 5 = Inl Assert_failed
   \<and> (\<exists>ivf''. ivf_add_core ail_ops byte_codec 1 [7] None [-1] (ivf_empty Array_map) = Inr ivf''
     \<and> ivf_reconstruct ail_ops byte_codec ivf'' 0 = Inl (Throw ''-1 entry in direct_map''))"
proof -
  have lo: "lo_build (unat (-1 :: 64 word)) 0 = - (2 ^ 32)"
  proof -
    have "of_nat (unat (-1 :: 64 word)) = (-1 :: 64 word)" by (simp only: of_nat_unat ucast_id)
    moreover have "sint (push_bit 32 (-1 :: 64 word) OR of_nat 0) = - (2 ^ 32)" by code_simp
    ultimately show ?thesis by (simp only: lo_build_def)
  qed
  have "lo_listno (- (2 ^ 32)) = 2 ^ 32 - 1"
  proof -
    have "drop_bit 32 (word_of_int (- (2 ^ 32)) :: 64 word) = 0xffffffff" by code_simp
    then show ?thesis by (simp add: lo_listno_def)
  qed
  then have bad: "il_single_code (ail_view (ail_new 2 1)) (lo_listno (- (2 ^ 32))) k = Inl Assert_failed" for k
    by (simp add: ail_view_def ail_new_def default_single_code_def ail_list_size_def)
  have "ivf_add_core ail_ops byte_codec 1 [7] (Some [5]) [-1] (ivf_empty Hashtable) =
    Inr ((ivf_empty Hashtable)\<lparr>ivf_direct_map := (dm_new\<lparr>dm_type := Hashtable\<rparr>)\<lparr>dm_hash := [5 \<mapsto> - (2 ^ 32)]\<rparr>, ivf_ntotal := 1\<rparr>)"
    by (simp add: ivf_add_core_def ivf_add_block_def ivf_empty_def check_can_add_def dma_new_def ivf_add_step_def dma_add_def dma_finish_def
        dma_id_def Let_def lo dm_new_def)
  moreover have "ivf_add_core ail_ops byte_codec 1 [7] None [-1] (ivf_empty Array_map) =
    Inr ((ivf_empty Array_map)\<lparr>ivf_direct_map := (dm_new\<lparr>dm_type := Array_map\<rparr>)\<lparr>dm_array := [- (2 ^ 32)]\<rparr>, ivf_ntotal := 1\<rparr>)"
    by (simp add: ivf_add_core_def ivf_add_block_def ivf_empty_def check_can_add_def dma_new_def ivf_add_step_def dma_add_def dma_finish_def
        dma_id_def Let_def lo dm_new_def resize_def)
  ultimately show ?thesis
    using bad by (simp add: ivf_reconstruct_def ivf_reconstruct_from_offset_def dm_get_def ivf_empty_def ail_ops_def)
qed

end
