(* ===== verification/Index_Ivf_Codes.thy ===== *)
theory Index_Ivf_Codes
  imports Index_Ivf_Add
begin

text \<open>
  Standalone codes of \<open>IndexIVF\<close>: list numbers as bytes, and codes that carry them.
\<close>

section \<open>List numbers\<close>

lemma drop_bit_8: "drop_bit 8 x = x div 256" for x :: int
  by (simp add: drop_bit_eq_div)

lemma encode_bytes_length: "length (encode_bytes nl x) = coarse_bytes nl"
proof (induction nl x rule: encode_bytes.induct)
  case (1 nl x)
  then show ?case by (subst encode_bytes.simps, subst coarse_bytes.simps) simp
qed

lemma byte_split:
  fixes x :: int
  shows "push_bit nbit (ucast (word_of_int (x AND 0xff) :: 8 word) :: 64 word) OR push_bit (nbit + 8) (word_of_int (drop_bit 8 x)) =
    push_bit nbit (word_of_int x)"
proof (rule bit_word_eqI)
  fix n assume n: "n < LENGTH(64)"
  have m: "bit (0xff :: int) i \<longleftrightarrow> i < 8" for i
    using bit_mask_iff [where ?'a = int, of 8 i] by (simp add: mask_eq_exp_minus_1)
  show "bit (push_bit nbit (ucast (word_of_int (x AND 0xff) :: 8 word) :: 64 word) OR push_bit (nbit + 8) (word_of_int (drop_bit 8 x))) n =
    bit (push_bit nbit (word_of_int x) :: 64 word) n"
  proof (cases "nbit \<le> n")
    case True
    then obtain i where i: "n = nbit + i" by (auto simp: le_iff_add)
    show ?thesis
    proof (cases "i < 8")
      case True
      then show ?thesis using n by (auto simp: i bit_or_iff bit_push_bit_iff bit_ucast_iff bit_word_of_int_iff bit_and_iff m)
    next
      case False
      then obtain j where "i = 8 + j" by (metis le_iff_add not_less)
      then show ?thesis using n by (auto simp: i bit_or_iff bit_push_bit_iff bit_ucast_iff bit_word_of_int_iff bit_and_iff bit_drop_bit_eq m)
    qed
  next
    case False
    then show ?thesis using n by (auto simp: bit_or_iff bit_push_bit_iff)
  qed
qed

lemma decode_encode_bytes:
  "0 \<le> x \<Longrightarrow> x \<le> int nl \<Longrightarrow> decode_bytes nl (encode_bytes nl x @ rest) nbit acc = acc OR push_bit nbit (word_of_int x)"
proof (induction nl x arbitrary: nbit acc rule: encode_bytes.induct)
  case (1 nl x)
  show ?case
  proof (cases "nl > 0")
    case True
    have le: "drop_bit 8 x \<le> int (nl div 256)" using 1 by (simp add: drop_bit_8 zdiv_int zdiv_mono1)
    have ge: "0 \<le> drop_bit 8 x" using 1 by (simp add: drop_bit_8)
    have enc: "encode_bytes nl x = word_of_int (x AND 0xff) # encode_bytes (nl div 256) (drop_bit 8 x)"
      using True by (subst encode_bytes.simps) simp
    have "decode_bytes nl (encode_bytes nl x @ rest) nbit acc =
        decode_bytes (nl div 256) (encode_bytes (nl div 256) (drop_bit 8 x) @ rest) (nbit + 8)
          (acc OR push_bit nbit (ucast (word_of_int (x AND 0xff) :: 8 word)))"
      using True by (subst decode_bytes.simps) (simp add: enc)
    also have "\<dots> = (acc OR push_bit nbit (ucast (word_of_int (x AND 0xff) :: 8 word))) OR push_bit (nbit + 8) (word_of_int (drop_bit 8 x))"
      by (rule "1.IH" [OF True ge le])
    finally show ?thesis using byte_split [of nbit x] by (simp add: or.assoc)
  next
    case False
    then have "x = 0" using 1 by simp
    then show ?thesis using False by (simp add: decode_bytes.simps encode_bytes.simps)
  qed
qed

lemma decode_encode_listno:
  assumes "0 \<le> x" "x < int nlist" "nlist \<le> 2 ^ 63"
  shows "decode_listno nlist (encode_listno nlist x @ rest) = Inr x"
proof -
  have "x \<le> int (nlist - 1)" using assms by linarith
  then have "decode_bytes (nlist - 1) (encode_bytes (nlist - 1) x @ rest) 0 0 = word_of_int x"
    using decode_encode_bytes [OF assms(1), of "nlist - 1" rest 0 0] by simp
  moreover have "sint (word_of_int x :: 64 word) = x"
  proof -
    have "sint (word_of_int x :: 64 word) = signed_take_bit 63 x" using sint_sbintrunc' [of x, where ?'a = 64] by simp
    also have "\<dots> = x" using assms by (simp add: signed_take_bit_int_eq_self_iff)
    finally show ?thesis .
  qed
  ultimately show ?thesis using assms by (simp add: decode_listno_def encode_listno_def)
qed

section \<open>Adding standalone codes\<close>

lemma concat_map_chunks:
  assumes "\<And>x. x \<in> set xs \<Longrightarrow> length (f x) = m" "i < length xs"
  shows "subrange (m * i) m (concat (map f xs)) = f (xs ! i)"
proof -
  have "all_length m (map f xs)" using assms(1) by (simp add: all_length_def)
  from subrange_concat_all [OF this, of i] show ?thesis using assms(2) by (simp add: mult.commute)
qed

lemma fold_result_cong: "(\<And>x s. x \<in> set xs \<Longrightarrow> f x s = g x s) \<Longrightarrow> fold_result f xs s = fold_result g xs s"
proof (induction xs arbitrary: s)
  case (Cons x xs)
  then have "f x s = g x s" by simp
  then show ?case using Cons by (cases "g x s") simp_all
qed simp

text \<open>
  C30. The codes that \<open>sa_encode\<close> makes of vectors that have lists, given to \<open>add_sa_codes\<close>, change the index as
  adding the vectors themselves by one thread does: the same container, direct map and number of vectors.
\<close>

theorem add_sa_codes_adds_vectors:
  assumes "ivf_is_trained ivf" "check_can_add xids (ivf_direct_map ivf) = Inr ()" "ivf_nlist ivf \<le> 2 ^ 63"
    and "\<forall>x \<in> set xs. 0 \<le> cq_assign cq x \<and> cq_assign cq x < int (ivf_nlist ivf) \<and> length (ic_encode cd x (cq_assign cq x)) = ivf_code_size ivf"
  shows "\<exists>bytes. ivf_sa_encode cd cq ivf xs = Inr bytes
    \<and> ivf_add_sa_codes ops (length xs) bytes xids ivf = ivf_add_block ops cd 1 xs xids (map (cq_assign cq) xs) ivf"
proof -
  let ?n = "length xs" and ?nl = "ivf_nlist ivf" and ?cs = "ivf_code_size ivf" and ?coarse = "map (cq_assign cq) xs"
  let ?code = "\<lambda>x. encode_listno ?nl (cq_assign cq x) @ ic_encode cd x (cq_assign cq x)"
  let ?ids = "case xids of None \<Rightarrow> map (\<lambda>i. int (ivf_ntotal ivf + i)) [0..<?n] | Some ids \<Rightarrow> ids"
  let ?codes = "map (\<lambda>i. ic_encode cd (xs ! i) (?coarse ! i)) [0..<?n]" and ?bytes = "concat (map ?code xs)"
  have enc: "ivf_sa_encode cd cq ivf xs = Inr ?bytes"
    using assms(1,4) by (auto simp: ivf_sa_encode_def Let_def intro!: arg_cong [of _ _ concat])
  have lc: "length (encode_listno ?nl x) = coarse_code_size ?nl" for x by (simp add: encode_listno_def coarse_code_size_def encode_bytes_length)
  have step: "ivf_add_sa_step ops ?nl ?cs ?ids ?bytes i st = ivf_add_step ops 1 0 ?ids ?coarse ?codes i st" if "i \<in> set [0..<?n]" for i st
  proof -
    have i: "i < ?n" "xs ! i \<in> set xs" using that by simp_all
    have "subrange ((?cs + coarse_code_size ?nl) * i) (?cs + coarse_code_size ?nl) ?bytes = ?code (xs ! i)"
      by (rule concat_map_chunks [OF _ i(1)]) (use assms(4) lc in \<open>simp add: add.commute\<close>)
    moreover have "decode_listno ?nl (?code (xs ! i)) = Inr (cq_assign cq (xs ! i))"
      using decode_encode_listno assms(3,4) i(2) by blast
    ultimately show ?thesis using i assms(4) lc
      by (simp add: ivf_add_sa_step_def ivf_add_step_def Let_def)
  qed
  have "fold_result (ivf_add_sa_step ops ?nl ?cs ?ids ?bytes) [0..<?n] st = fold_result (ivf_add_step ops 1 0 ?ids ?coarse ?codes) [0..<?n] st" for st
    by (rule fold_result_cong) (rule step)
  moreover have "fold_result (\<lambda>rank. fold_result (ivf_add_step ops 1 rank ?ids ?coarse ?codes) [0..<?n]) [0..<1] st =
      fold_result (ivf_add_step ops 1 0 ?ids ?coarse ?codes) [0..<?n] st" for st
    by (cases "fold_result (ivf_add_step ops 1 0 ?ids ?coarse ?codes) [0..<?n] st") simp_all
  ultimately have "ivf_add_sa_codes ops ?n ?bytes xids ivf = ivf_add_block ops cd 1 xs xids ?coarse ivf"
    using assms(1,2) by (simp only: ivf_add_sa_codes_def ivf_add_block_def Let_def bind_result.simps not_True_eq_False if_False)
  then show ?thesis using enc by blast
qed

text \<open>Three lists: the number of the list takes a byte.\<close>

definition nearest_of_three :: "(int, int) coarse_quantizer" where
  "nearest_of_three k x = (replicate k 0, replicate k (x mod 3))"

theorem add_sa_codes_adds_vectors_witness:
  "ivf_sa_encode byte_codec nearest_of_three ivf_five [7, 8] = Inr [1, 7, 2, 8]
   \<and> ivf_add_sa_codes ail_ops 2 [1, 7, 2, 8] None ivf_five = ivf_add_block ail_ops byte_codec 1 [7, 8] None [1, 2] ivf_five"
proof -
  have q: "cq_assign nearest_of_three 7 = 1" "cq_assign nearest_of_three 8 = 2" by (simp_all add: cq_assign_def nearest_of_three_def)
  have enc: "ivf_sa_encode byte_codec nearest_of_three ivf_five [7, 8] = Inr [1, 7, 2, 8]" by code_simp
  have "ivf_is_trained ivf_five" "check_can_add None (ivf_direct_map ivf_five) = Inr ()" "ivf_nlist ivf_five \<le> 2 ^ 63"
    "\<forall>x \<in> set [7, 8 :: int]. 0 \<le> cq_assign nearest_of_three x \<and> cq_assign nearest_of_three x < int (ivf_nlist ivf_five)
      \<and> length (ic_encode byte_codec x (cq_assign nearest_of_three x)) = ivf_code_size ivf_five"
    by (simp_all add: ivf_five_def check_can_add_def q length_byte_code)
  from add_sa_codes_adds_vectors [OF this, of ail_ops] show ?thesis using enc q by (simp add: numeral_2_eq_2)
qed

text \<open>
  \<open>decode_listno\<close> reads back what \<open>encode_listno\<close> writes, which takes \<open>coarse_code_size\<close> bytes.
\<close>

theorem listno_roundtrip:
  assumes "0 \<le> x" "x < int nlist" "nlist \<le> 2 ^ 63"
  shows "decode_listno nlist (encode_listno nlist x @ rest) = Inr x \<and> length (encode_listno nlist x) = coarse_code_size nlist"
  using decode_encode_listno [OF assms] by (simp add: encode_listno_def coarse_code_size_def encode_bytes_length)

theorem listno_roundtrip_witness:
  "decode_listno 70001 (encode_listno 70001 70000 @ [9]) = Inr 70000 \<and> length (encode_listno 70001 70000) = 3"
proof -
  have "coarse_code_size 70001 = 3" by (simp add: coarse_code_size_def coarse_bytes.simps)
  then show ?thesis using listno_roundtrip [of 70000 70001 "[9]"] by simp
qed

end
