(* ===== verification/Index_Ivf_Scan.thy ===== *)
theory Index_Ivf_Scan
  imports Index_Ivf
begin

text \<open>
  The search of \<open>IndexIVF\<close>: scanning a list for a query, and the ways in which \<open>search_preassigned\<close> shares
  the work between threads. What the scheduler decides (which thread takes which list, in which
  order the threads merge their results) is an argument.
\<close>

section \<open>One list\<close>

text \<open>
  \<open>IVFFlatScanner::scan_codes\<close>, and \<open>InvertedListScanner::scan_codes\<close> with no selector. \<open>dist\<close> is the distance to
  the query; \<open>ids\<close> is a null pointer when pairs of list and offset are stored.
\<close>

definition scan_step ::
  "'d comparator \<Rightarrow> nat \<Rightarrow> nat \<Rightarrow> id_selector option \<Rightarrow> bool \<Rightarrow> nat \<Rightarrow> (8 word list \<Rightarrow> 'd) \<Rightarrow> 8 word list \<Rightarrow> idx_t list option \<Rightarrow>
   nat \<Rightarrow> 'd list \<times> idx_t list \<Rightarrow> ('d list \<times> idx_t list) result" where
  "scan_step C k cs sel store_pairs list_no dist codes ids j bh =
     bind_result (case sel of None \<Rightarrow> Inr True
        | Some sl \<Rightarrow> (case ids of None \<Rightarrow> Inl Null_pointer | Some xs \<Rightarrow> is_member sl (xs ! j))) (\<lambda>b.
     if \<not> b then Inr bh
     else
       let dis = dist (subrange (j * cs) cs codes) in
       if cmp C (fst bh ! 0) dis then
         bind_result (if store_pairs then Inr (lo_build list_no j)
             else case ids of None \<Rightarrow> Inl Null_pointer | Some xs \<Rightarrow> Inr (xs ! j)) (\<lambda>idx.
           Inr (heap_replace_top C k (fst bh) (snd bh) dis idx))
       else Inr bh)"

definition scan_codes ::
  "'d comparator \<Rightarrow> nat \<Rightarrow> nat \<Rightarrow> id_selector option \<Rightarrow> bool \<Rightarrow> nat \<Rightarrow> (8 word list \<Rightarrow> 'd) \<Rightarrow> nat \<Rightarrow> 8 word list \<Rightarrow> idx_t list option \<Rightarrow>
   'd list \<times> idx_t list \<Rightarrow> ('d list \<times> idx_t list) result" where
  "scan_codes C k cs sel store_pairs list_no dist list_size codes ids bh =
     fold_result (scan_step C k cs sel store_pairs list_no dist codes ids) [0..<list_size] bh"

text \<open>A selected range of ids in sorted lists is found by bisection; \<open>selr\<close> holds its bounds.\<close>

definition scan_one_list ::
  "il_view \<Rightarrow> nat \<Rightarrow> nat \<Rightarrow> 'd comparator \<Rightarrow> nat \<Rightarrow> id_selector option \<Rightarrow> (idx_t \<times> idx_t) option \<Rightarrow> bool \<Rightarrow>
   (nat \<Rightarrow> 'd \<Rightarrow> 8 word list \<Rightarrow> 'd) \<Rightarrow> idx_t \<Rightarrow> 'd \<Rightarrow> nat \<Rightarrow> 'd list \<times> idx_t list \<Rightarrow> (('d list \<times> idx_t list) \<times> nat) result" where
  "scan_one_list v nlist cs C k sel selr store_pairs dist key coarse_dis list_size_max bh =
     (if key < 0 then Inr (bh, 0)
      else if \<not> key < int nlist then Inl (Throw ''Invalid key'')
      else
        bind_result (il_size v (nat key)) (\<lambda>sz.
        if sz = 0 then Inr (bh, 0)
        else
          let list_size = min sz list_size_max in
          bind_result (il_codes v (nat key)) (\<lambda>codes.
          bind_result (if store_pairs then Inr None else map_sum id Some (il_ids v (nat key))) (\<lambda>ids.
          case selr of
            None \<Rightarrow>
              bind_result (scan_codes C k cs sel store_pairs (nat key) (dist (nat key) coarse_dis) list_size codes ids bh) (\<lambda>bh.
                Inr (bh, list_size))
          | Some (imin, imax) \<Rightarrow>
              (case ids of
                 None \<Rightarrow> Inl Null_pointer
               | Some xs \<Rightarrow>
                   bind_result (find_sorted_ids_bounds imin imax True (take list_size xs)) (\<lambda>(jmin, jmax).
                     let n = jmax - jmin in
                     if n = 0 then Inr (bh, 0)
                     else
                       bind_result (scan_codes C k cs sel store_pairs (nat key) (dist (nat key) coarse_dis) n
                           (drop (jmin * cs) codes) (Some (drop jmin xs)) bh) (\<lambda>bh.
                         Inr (bh, n))))))))"

section \<open>All lists of a query\<close>

definition init_result :: "'d comparator \<Rightarrow> nat \<Rightarrow> bool \<Rightarrow> 'd list \<times> idx_t list \<Rightarrow> 'd list \<times> idx_t list" where
  "init_result C k do_heap_init bh = (if do_heap_init then heap_heapify C k bh [] None 0 else bh)"

definition reorder_result :: "'d comparator \<Rightarrow> nat \<Rightarrow> bool \<Rightarrow> 'd list \<times> idx_t list \<Rightarrow> 'd list \<times> idx_t list" where
  "reorder_result C k do_heap_init bh = (if do_heap_init then snd (heap_reorder C k (fst bh) (snd bh)) else bh)"

definition add_local_results :: "'d comparator \<Rightarrow> nat \<Rightarrow> 'd list \<times> idx_t list \<Rightarrow> 'd list \<times> idx_t list \<Rightarrow> 'd list \<times> idx_t list" where
  "add_local_results C k local bh = heap_addn C k bh (fst local) (Some (snd local)) k"

text \<open>Below, \<open>scan\<close> is \<open>scan_one_list\<close> for the query, with key, coarse distance, bound and heap still open.\<close>

type_synonym 'd list_scan = "idx_t \<Rightarrow> 'd \<Rightarrow> nat \<Rightarrow> 'd list \<times> idx_t list \<Rightarrow> (('d list \<times> idx_t list) \<times> nat) result"

text \<open>Parallel modes 0 and 3: one thread per query, one probe after the other up to \<open>max_codes\<close>.\<close>

fun scan_probes :: "'d list_scan \<Rightarrow> nat \<Rightarrow> (idx_t \<times> 'd) list \<Rightarrow> nat \<Rightarrow> 'd list \<times> idx_t list \<Rightarrow> ('d list \<times> idx_t list) result" where
  "scan_probes scan max_codes [] nscan bh = Inr bh"
| "scan_probes scan max_codes ((key, cdis) # probes) nscan bh =
     bind_result (scan key cdis (max_codes - nscan) bh) (\<lambda>(bh, n).
       if nscan + n \<ge> max_codes then Inr bh else scan_probes scan max_codes probes (nscan + n) bh)"

definition search_mode_0 ::
  "'d comparator \<Rightarrow> nat \<Rightarrow> bool \<Rightarrow> 'd list_scan \<Rightarrow> nat \<Rightarrow> (idx_t \<times> 'd) list \<Rightarrow> 'd list \<times> idx_t list \<Rightarrow> ('d list \<times> idx_t list) result" where
  "search_mode_0 C k do_heap_init scan max_codes probes bh =
     bind_result (scan_probes scan max_codes probes 0 (init_result C k do_heap_init bh)) (\<lambda>bh.
       Inr (reorder_result C k do_heap_init bh))"

text \<open>
  Mode 1: the threads share the probes of a query. \<open>scans\<close> lists pairs of a thread and a probe in the order in which
  they run, \<open>merges\<close> the threads in the order in which they merge. The arrays of the threads stay
  from query to query.
\<close>

definition scan_local ::
  "'d list_scan \<Rightarrow> nat \<Rightarrow> (idx_t \<times> 'd) list \<Rightarrow> nat \<times> nat \<Rightarrow> ('d list \<times> idx_t list) list \<Rightarrow> ('d list \<times> idx_t list) list result" where
  "scan_local scan unlimited probes e locals =
     (case e of (t, ik) \<Rightarrow>
        bind_result (scan (fst (probes ! ik)) (snd (probes ! ik)) unlimited (locals ! t)) (\<lambda>(bh, n). Inr (locals[t := bh])))"

definition search_mode_1 ::
  "'d comparator \<Rightarrow> nat \<Rightarrow> bool \<Rightarrow> 'd list_scan \<Rightarrow> nat \<Rightarrow> (nat \<times> nat) list \<Rightarrow> nat list \<Rightarrow> (idx_t \<times> 'd) list \<Rightarrow>
   ('d list \<times> idx_t list) list \<times> ('d list \<times> idx_t list) \<Rightarrow> (('d list \<times> idx_t list) list \<times> ('d list \<times> idx_t list)) result" where
  "search_mode_1 C k do_heap_init scan unlimited scans merges probes st =
     (case st of (locals, bh) \<Rightarrow>
        bind_result (fold_result (scan_local scan unlimited probes) scans (map (init_result C k do_heap_init) locals)) (\<lambda>locals.
          Inr (locals, reorder_result C k do_heap_init
            (fold (\<lambda>t. add_local_results C k (locals ! t)) merges (init_result C k do_heap_init bh)))))"

text \<open>Mode 2: the threads share the pairs of a query and a probe; each pair is merged on its own.\<close>

definition scan_pair ::
  "'d comparator \<Rightarrow> nat \<Rightarrow> bool \<Rightarrow> (nat \<Rightarrow> 'd list_scan) \<Rightarrow> nat \<Rightarrow> nat \<Rightarrow> (nat \<Rightarrow> (idx_t \<times> 'd) list) \<Rightarrow> nat \<times> nat \<Rightarrow>
   ('d list \<times> idx_t list) list \<times> ('d list \<times> idx_t list) \<Rightarrow> (('d list \<times> idx_t list) list \<times> ('d list \<times> idx_t list)) result" where
  "scan_pair C k do_heap_init scan unlimited nprobe probes e st =
     (case e of (t, ij) \<Rightarrow> case st of (locals, tab) \<Rightarrow>
        let i = ij div nprobe; p = probes i ! (ij mod nprobe) in
        bind_result (scan i (fst p) (snd p) unlimited (init_result C k do_heap_init (locals ! t))) (\<lambda>(bh, n).
          Inr (locals[t := bh], on_row k (add_local_results C k bh) i tab)))"

section \<open>\<open>search_preassigned\<close>\<close>

record ivf_schedule =
  sch_scans :: "nat \<Rightarrow> (nat \<times> nat) list"
  sch_merges :: "nat \<Rightarrow> nat list"
  sch_threads :: nat

definition mode_no_heap_init :: int where
  "mode_no_heap_init = 1024"

definition unlimited_list_size :: nat where
  "unlimited_list_size = 2 ^ 63 - 1"

definition search_mode ::
  "'d comparator \<Rightarrow> nat \<Rightarrow> bool \<Rightarrow> int \<Rightarrow> (nat \<Rightarrow> 'd list_scan) \<Rightarrow> nat \<Rightarrow> ivf_schedule \<Rightarrow> nat \<Rightarrow> nat \<Rightarrow>
   (nat \<Rightarrow> (idx_t \<times> 'd) list) \<Rightarrow> 'd \<Rightarrow> 'd list \<times> idx_t list \<Rightarrow> ('d list \<times> idx_t list) result" where
  "search_mode C k do_heap_init pmode scan max_codes sch n nprobe probes zero tab =
     (let locals = replicate (sch_threads sch) (replicate k zero, replicate k 0) in
      if pmode = 0 \<or> pmode = 3 then
        fold_result (\<lambda>i tab.
          bind_result (search_mode_0 C k do_heap_init (scan i) max_codes (probes i) (row k i (fst tab), row k i (snd tab))) (\<lambda>bh.
            Inr (on_row k (\<lambda>_. bh) i tab))) [0..<n] tab
      else if pmode = 1 then
        bind_result (fold_result (\<lambda>i (locals, tab).
            bind_result (search_mode_1 C k do_heap_init (scan i) unlimited_list_size (sch_scans sch i) (sch_merges sch i) (probes i)
                (locals, (row k i (fst tab), row k i (snd tab)))) (\<lambda>(locals, bh).
              Inr (locals, on_row k (\<lambda>_. bh) i tab))) [0..<n] (locals, tab)) (\<lambda>(locals, tab). Inr tab)
      else if pmode = 2 then
        bind_result (fold_result (scan_pair C k do_heap_init scan unlimited_list_size nprobe probes) (sch_scans sch 0)
            (locals, fold (on_row k (init_result C k do_heap_init)) [0..<n] tab)) (\<lambda>(locals, tab).
          Inr (fold (on_row k (reorder_result C k do_heap_init)) [0..<n] tab))
      else Inl (Throw ''parallel_mode not supported''))"

text \<open>
  \<open>sel\<close> and \<open>assume_sorted\<close> describe the selector of the parameters: an \<open>IDSelectorRange\<close> that assumes sorted lists is
  taken out of \<open>sel\<close>. \<open>zero\<close> is the value of a fresh \<open>vector<float>\<close>.
\<close>

definition ivf_search_preassigned ::
  "'d \<Rightarrow> 'd \<Rightarrow> 'd \<Rightarrow> 's il_ops \<Rightarrow> ('v, 'd :: linorder) ivf_codec \<Rightarrow> ivf_schedule \<Rightarrow> 's ivf \<Rightarrow> 'v list \<Rightarrow> nat \<Rightarrow>
   idx_t list \<Rightarrow> 'd list \<Rightarrow> bool \<Rightarrow> bool \<Rightarrow> ivf_params option \<Rightarrow> 'd list \<times> idx_t list \<Rightarrow> ('d list \<times> idx_t list) result" where
  "ivf_search_preassigned lo hi zero ops cd sch ivf xs k keys coarse_dis store_pairs assume_sorted params tab =
     (if \<not> k > 0 then Inl (Throw ''k > 0'')
      else
        let nprobe = min (ivf_nlist ivf) (case params of None \<Rightarrow> ivf_nprobe ivf | Some p \<Rightarrow> ip_nprobe p);
            max_codes = (case params of None \<Rightarrow> ivf_max_codes ivf | Some p \<Rightarrow> ip_max_codes p);
            sel = (case params of None \<Rightarrow> None | Some p \<Rightarrow> ip_sel p);
            selr = (case sel of Some (Sel_range imin imax) \<Rightarrow> if assume_sorted then Some (imin, imax) else None | _ \<Rightarrow> None);
            sel = (if selr = None then sel else None);
            pmode = ivf_parallel_mode ivf AND NOT mode_no_heap_init;
            do_heap_init = (ivf_parallel_mode ivf AND mode_no_heap_init = 0);
            C = ivf_comparator lo hi (ivf_similarity ivf) in
        if \<not> nprobe > 0 then Inl (Throw ''nprobe > 0'')
        else if sel \<noteq> None \<and> store_pairs then Inl (Throw ''selector and store_pairs cannot be combined'')
        else if \<not> (max_codes = 0 \<or> pmode = 0 \<or> pmode = 3) then Inl (Throw ''max_codes supported only for parallel_mode = 0 or 3'')
        else
          search_mode C k do_heap_init pmode
            (\<lambda>i. scan_one_list (il_view_of ops (ivf_invlists ivf)) (ivf_nlist ivf) (ivf_code_size ivf) C k sel selr store_pairs
              (ic_distance cd (xs ! i)))
            (if max_codes = 0 then unlimited_list_size else max_codes) sch (length xs) nprobe
            (\<lambda>i. zip (row nprobe i keys) (row nprobe i coarse_dis)) zero tab)"

section \<open>\<open>search\<close>\<close>

text \<open>The coarse search of all queries: keys and distances, \<open>nprobe\<close> per query.\<close>

definition coarse_rows :: "('v, 'd) coarse_quantizer \<Rightarrow> nat \<Rightarrow> 'v list \<Rightarrow> 'd list \<times> idx_t list" where
  "coarse_rows cq nprobe xs = (concat (map (\<lambda>x. fst (cq nprobe x)) xs), concat (map (\<lambda>x. snd (cq nprobe x)) xs))"

definition ivf_sub_search ::
  "'d \<Rightarrow> 'd \<Rightarrow> 'd \<Rightarrow> 's il_ops \<Rightarrow> ('v, 'd :: linorder) ivf_codec \<Rightarrow> ('v, 'd) coarse_quantizer \<Rightarrow> ivf_schedule \<Rightarrow> 's ivf \<Rightarrow>
   nat \<Rightarrow> bool \<Rightarrow> bool \<Rightarrow> ivf_params option \<Rightarrow> nat \<Rightarrow> 'v list \<Rightarrow> 'd list \<times> idx_t list \<Rightarrow> ('d list \<times> idx_t list) result" where
  "ivf_sub_search lo hi zero ops cd cq sch ivf k store_pairs assume_sorted params nprobe xs tab =
     (case coarse_rows cq nprobe xs of (coarse_dis, keys) \<Rightarrow>
        ivf_search_preassigned lo hi zero ops cd sch ivf xs k keys coarse_dis store_pairs assume_sorted params tab)"

text \<open>With \<open>parallel_mode\<close> 0 the queries are cut into slices, one per thread.\<close>

definition search_slice ::
  "('v list \<Rightarrow> 'd list \<times> idx_t list \<Rightarrow> ('d list \<times> idx_t list) result) \<Rightarrow> nat \<Rightarrow> nat \<Rightarrow> 'v list \<Rightarrow> nat \<Rightarrow>
   'd list \<times> idx_t list \<Rightarrow> ('d list \<times> idx_t list) result" where
  "search_slice sub k nt xs part tab =
     (let n = length xs; i0 = n * part div nt; i1 = n * (part + 1) div nt in
      if i1 > i0 then
        bind_result (sub (subrange i0 (i1 - i0) xs)
            (subrange (i0 * k) ((i1 - i0) * k) (fst tab), subrange (i0 * k) ((i1 - i0) * k) (snd tab))) (\<lambda>(D, I).
          Inr (overwrite (i0 * k) D (fst tab), overwrite (i0 * k) I (snd tab)))
      else Inr tab)"

definition ivf_search ::
  "'d \<Rightarrow> 'd \<Rightarrow> 'd \<Rightarrow> 's il_ops \<Rightarrow> ('v, 'd :: linorder) ivf_codec \<Rightarrow> ('v, 'd) coarse_quantizer \<Rightarrow> ivf_schedule \<Rightarrow> nat \<Rightarrow> 's ivf \<Rightarrow>
   'v list \<Rightarrow> nat \<Rightarrow> bool \<Rightarrow> ivf_params option \<Rightarrow> 'd list \<times> idx_t list \<Rightarrow> ('d list \<times> idx_t list) result" where
  "ivf_search lo hi zero ops cd cq sch max_threads ivf xs k assume_sorted params tab =
     (if \<not> k > 0 then Inl (Throw ''k > 0'')
      else
        let nprobe = min (ivf_nlist ivf) (case params of None \<Rightarrow> ivf_nprobe ivf | Some p \<Rightarrow> ip_nprobe p);
            sub = ivf_sub_search lo hi zero ops cd cq sch ivf k False assume_sorted params nprobe in
        if \<not> nprobe > 0 then Inl (Throw ''nprobe > 0'')
        else if ivf_parallel_mode ivf AND NOT mode_no_heap_init = 0 then
          let nt = min max_threads (length xs) in fold_result (search_slice sub k nt xs) [0..<nt] tab
        else sub xs tab)"

text \<open>\<open>search_and_reconstruct\<close>: a label is a pair of list and offset; entries without a label get \<open>nan\<close>.\<close>

definition reconstruct_label ::
  "'s il_ops \<Rightarrow> ('v, 'd) ivf_codec \<Rightarrow> 's ivf \<Rightarrow> 'v \<Rightarrow> nat \<Rightarrow> idx_t list \<times> 'v list \<Rightarrow> (idx_t list \<times> 'v list) result" where
  "reconstruct_label ops cd ivf nan ij st =
     (case st of (labels, recons) \<Rightarrow>
        let key = labels ! ij in
        if key < 0 then Inr (labels, recons[ij := nan])
        else
          let list_no = lo_listno key; offset = lo_offset key in
          bind_result (il_single_id (il_view_of ops (ivf_invlists ivf)) list_no offset) (\<lambda>idx.
          bind_result (ivf_reconstruct_from_offset ops cd ivf list_no offset) (\<lambda>x.
            Inr (labels[ij := idx], recons[ij := x]))))"

definition ivf_search_and_reconstruct ::
  "'d \<Rightarrow> 'd \<Rightarrow> 'd \<Rightarrow> 's il_ops \<Rightarrow> ('v, 'd :: linorder) ivf_codec \<Rightarrow> ('v, 'd) coarse_quantizer \<Rightarrow> ivf_schedule \<Rightarrow> 'v \<Rightarrow> 's ivf \<Rightarrow>
   'v list \<Rightarrow> nat \<Rightarrow> bool \<Rightarrow> ivf_params option \<Rightarrow> 'v list \<Rightarrow> 'd list \<times> idx_t list \<Rightarrow> ('d list \<times> idx_t list \<times> 'v list) result" where
  "ivf_search_and_reconstruct lo hi zero ops cd cq sch nan ivf xs k assume_sorted params recons tab =
     (let nprobe = min (ivf_nlist ivf) (case params of None \<Rightarrow> ivf_nprobe ivf | Some p \<Rightarrow> ip_nprobe p) in
      if \<not> nprobe > 0 then Inl (Throw ''nprobe > 0'')
      else
        bind_result (ivf_sub_search lo hi zero ops cd cq sch ivf k True assume_sorted params nprobe xs tab) (\<lambda>(D, I).
        bind_result (fold_result (reconstruct_label ops cd ivf nan) [0..<length xs * k] (I, recons)) (\<lambda>(I, recons).
          Inr (D, I, recons))))"

text \<open>\<open>search_and_return_codes\<close>.\<close>

definition code_of_label ::
  "'s il_ops \<Rightarrow> 's ivf \<Rightarrow> bool \<Rightarrow> nat \<Rightarrow> idx_t list \<times> 8 word list list \<Rightarrow> (idx_t list \<times> 8 word list list) result" where
  "code_of_label ops ivf include_listno ij st =
     (case st of (labels, codes) \<Rightarrow>
        let key = labels ! ij;
            code_size_1 = ivf_code_size ivf + (if include_listno then coarse_code_size (ivf_nlist ivf) else 0) in
        if key < 0 then Inr (labels, codes[ij := replicate code_size_1 (-1)])
        else
          let list_no = lo_listno key; offset = lo_offset key; v = il_view_of ops (ivf_invlists ivf) in
          bind_result (il_single_code v list_no offset) (\<lambda>cc.
          bind_result (il_single_id v list_no offset) (\<lambda>idx.
            Inr (labels[ij := idx],
                 codes[ij := (if include_listno then encode_listno (ivf_nlist ivf) (int list_no) else []) @ cc]))))"

definition ivf_search_and_return_codes ::
  "'d \<Rightarrow> 'd \<Rightarrow> 'd \<Rightarrow> 's il_ops \<Rightarrow> ('v, 'd :: linorder) ivf_codec \<Rightarrow> ('v, 'd) coarse_quantizer \<Rightarrow> ivf_schedule \<Rightarrow> 's ivf \<Rightarrow>
   'v list \<Rightarrow> nat \<Rightarrow> bool \<Rightarrow> bool \<Rightarrow> ivf_params option \<Rightarrow> 8 word list list \<Rightarrow> 'd list \<times> idx_t list \<Rightarrow>
   ('d list \<times> idx_t list \<times> 8 word list list) result" where
  "ivf_search_and_return_codes lo hi zero ops cd cq sch ivf xs k include_listno assume_sorted params codes tab =
     (let nprobe = min (ivf_nlist ivf) (case params of None \<Rightarrow> ivf_nprobe ivf | Some p \<Rightarrow> ip_nprobe p) in
      if \<not> nprobe > 0 then Inl (Throw ''nprobe > 0'')
      else
        bind_result (ivf_sub_search lo hi zero ops cd cq sch ivf k True assume_sorted params nprobe xs tab) (\<lambda>(D, I).
        bind_result (fold_result (code_of_label ops ivf include_listno) [0..<length xs * k] (I, codes)) (\<lambda>(I, codes).
          Inr (D, I, codes))))"

end
