(* ===== verification/Top_Heap.thy ===== *)
theory Top_Heap
  imports Top_K
begin

text \<open>
  Result heaps in plain arrays, as the inverted-file searches keep them: what a heap has been offered, the merge of
  two heaps by \<open>heap_addn\<close>, and the sorted result in the end.
\<close>

definition top_heap :: "'d comparator \<Rightarrow> nat \<Rightarrow> 'd list \<times> idx_t list \<Rightarrow> ('d \<times> idx_t) multiset \<Rightarrow> bool" where
  "top_heap C k bh offered_all \<longleftrightarrow> same_len bh k \<and> is_heap C k (pairs bh)
     \<and> keeps_best C (mset (pairs bh)) (replicate_mset k (neutral C, -1) + offered_all)"

text \<open>The offers that count: a real id, and a distance better than the padding.\<close>

definition proper_offers :: "'d comparator \<Rightarrow> ('d \<times> idx_t) multiset \<Rightarrow> bool" where
  "proper_offers C A \<longleftrightarrow> (\<forall>p \<in># A. snd p \<noteq> -1 \<and> cmp C (neutral C) (fst p))"

lemma proper_offers_union [simp]: "proper_offers C (A + B) \<longleftrightarrow> proper_offers C A \<and> proper_offers C B"
  by (auto simp: proper_offers_def)

lemma proper_offers_empty [simp]: "proper_offers C {#}"
  by (simp add: proper_offers_def)

lemma same_len_pair: "same_len bh k \<longleftrightarrow> length (fst bh) = k \<and> length (snd bh) = k"
  by (auto simp: same_len_def)

lemma offered_all: "length xs = k \<Longrightarrow> length is = k \<Longrightarrow> offered xs (Some is) 0 k = pairs (xs, is)"
  by (rule nth_equalityI) (simp_all add: offered_def ids_from_def pairs_def)

definition offer_all :: "'d comparator \<Rightarrow> nat \<Rightarrow> ('d \<times> idx_t) list \<Rightarrow> 'd list \<times> idx_t list \<Rightarrow> 'd list \<times> idx_t list" where
  "offer_all C k ps bh = fold (\<lambda>p bh. heap_offer C k bh (fst p) (snd p)) ps bh"

lemma offer_all_simps [simp]: "offer_all C k [] bh = bh" "offer_all C k (ps @ qs) bh = offer_all C k qs (offer_all C k ps bh)"
  by (simp_all add: offer_all_def)

context heap_comparator
begin

lemma top_heap_init:
  assumes "same_len bh k"
  shows "top_heap C k (heap_heapify C k bh [] None 0) {#}"
  using heap_heapify_empty [OF assms order_refl, of C] is_heap_const [of k "(neutral C, -1)" "[]"] assms
  by (simp add: top_heap_def keeps_best_refl same_len_def)

lemma top_heap_offer:
  assumes "top_heap C k bh A" "0 < k"
  shows "top_heap C k (heap_offer C k bh d i) (add_mset (d, i) A)"
proof -
  have sl: "same_len bh k" and h: "is_heap C k (pairs bh)"
    and b: "keeps_best C (mset (pairs bh)) (replicate_mset k (neutral C, -1) + A)"
    using assms(1) by (simp_all add: top_heap_def)
  have k: "1 \<le> k" using assms(2) by simp
  note ho = heap_offer_correct [OF sl k order_refl h, where val = d and ident = i]
  have l: "length (pairs bh) = k" "length (pairs (heap_offer C k bh d i)) = k" using sl ho(2) by simp_all
  show ?thesis using ho(1,2) ho(4) [of "replicate_mset k (neutral C, -1) + A"] b l by (simp add: top_heap_def)
qed

lemma top_heap_offers:
  assumes "0 < k"
  shows "top_heap C k bh A \<Longrightarrow> top_heap C k (offer_all C k ps bh) (A + mset ps)"
proof (induction ps rule: rev_induct)
  case (snoc p ps)
  have e: "offer_all C k (ps @ [p]) bh = heap_offer C k (offer_all C k ps bh) (fst p) (snd p)" by (simp add: offer_all_def)
  show ?case unfolding e using top_heap_offer [OF snoc.IH [OF snoc.prems] assms, of "fst p" "snd p"] by simp
qed simp

text \<open>A heap of \<open>k\<close> entries is offered the \<open>k\<close> entries of another one: padding that comes along does no harm.\<close>

lemma keeps_best_merge:
  assumes kept: "keeps_best C K (replicate_mset k N + A + loc)"
    and loc: "keeps_best C loc (replicate_mset k N + B)"
    and sizes: "size K = k" "size loc = k" and N: "N \<notin># A" "N \<notin># B"
  shows "keeps_best C K (replicate_mset k N + (A + B))"
proof -
  from kept obtain R where R: "replicate_mset k N + A + loc = K + R"
    "\<forall>p \<in># K. \<forall>r \<in># R. \<not> cmp C (fst p) (fst r)" by (auto simp: keeps_best_def)
  from loc obtain S where S: "replicate_mset k N + B = loc + S"
    "\<forall>p \<in># loc. \<forall>r \<in># S. \<not> cmp C (fst p) (fst r)" by (auto simp: keeps_best_def)
  have all: "replicate_mset k N + replicate_mset k N + (A + B) = K + (R + S)"
  proof -
    have "replicate_mset k N + A + (replicate_mset k N + B) = (replicate_mset k N + A + loc) + S"
      unfolding S(1) by (simp add: ac_simps)
    then show ?thesis unfolding R(1) by (simp add: ac_simps)
  qed
  have "count (R + S) N \<ge> k"
  proof -
    have "count K N \<le> k" using count_le_size [of K N] sizes(1) by simp
    moreover have "count K N + count (R + S) N = k + k"
      using arg_cong [OF all, of "\<lambda>M. count M N"] N by (simp add: not_in_iff)
    ultimately show ?thesis by simp
  qed
  then have sub: "replicate_mset k N \<subseteq># R + S" by (auto simp: subseteq_mset_def)
  then obtain T where T: "R + S = replicate_mset k N + T" by (metis subset_mset.add_diff_inverse)
  have "replicate_mset k N + (A + B) = K + T"
    using all unfolding T by (simp add: add.left_commute [of K] add.assoc)
  moreover have "\<not> cmp C (fst p) (fst r)" if p: "p \<in># K" and r: "r \<in># T" for p r
  proof -
    have "r \<in># R + S" using r unfolding T by simp
    then consider "r \<in># R" | "r \<in># S" by auto
    then show ?thesis
    proof cases
      case 1
      then show ?thesis using R(2) p by blast
    next
      case 2
      show ?thesis
      proof
        assume pr: "cmp C (fst p) (fst r)"
        have less: "cmp C (fst p) (fst l)" if "l \<in># loc" for l
        proof (rule ccontr)
          assume "\<not> cmp C (fst p) (fst l)"
          moreover have "\<not> cmp C (fst l) (fst r)" using S(2) that 2 by blast
          ultimately show False using not_cmp_trans pr by blast
        qed
        then have notin: "l \<notin># R" if "l \<in># loc" for l using R(2) p that by blast
        have sub': "loc \<subseteq># K + R" unfolding R(1) [symmetric] by simp
        have "loc \<subseteq># K"
        proof (rule mset_subset_eqI)
          fix a
          have "count loc a \<le> count K a + count R a" using mset_subset_eq_count [OF sub', of a] by simp
          then show "count loc a \<le> count K a" using notin [of a] by (cases "a \<in># loc") (simp_all add: not_in_iff)
        qed
        then have "loc = K" using sizes by (metis mset_subset_size nat_less_le subset_mset.le_imp_less_or_eq)
        then show False using S(2) p 2 pr by blast
      qed
    qed
  qed
  ultimately show ?thesis unfolding keeps_best_def by blast
qed

lemma top_heap_merge:
  assumes bh: "top_heap C k bh A" and loc: "top_heap C k loc B" and k: "0 < k" and p: "proper_offers C A" "proper_offers C B"
  shows "top_heap C k (heap_addn C k bh (fst loc) (Some (snd loc)) k) (A + B)"
proof -
  have sl: "same_len bh k" "same_len loc k" "is_heap C k (pairs bh)" using bh loc by (simp_all add: top_heap_def)
  have k1: "1 \<le> k" using k by simp
  have o': "offered (fst loc) (Some (snd loc)) 0 k = pairs loc" using sl(2) by (simp add: offered_all same_len_pair)
  let ?N = "(neutral C, -1 :: int)" and ?bh = "heap_addn C k bh (fst loc) (Some (snd loc)) k"
  have "keeps_best C (mset (take k (pairs bh))) (replicate_mset k ?N + A)" using bh sl by (simp add: top_heap_def)
  from heap_addn_from_correct [OF sl(1) k1 order_refl sl(3) this, of "fst loc" "Some (snd loc)" 0 k]
  have r: "is_heap C k (pairs ?bh)" "same_len ?bh k"
    "keeps_best C (mset (take k (pairs ?bh))) (replicate_mset k ?N + A + mset (pairs loc))"
    unfolding o' by (simp_all add: heap_addn_def)
  have l: "length (pairs ?bh) = k" using r(2) by simp
  have N: "?N \<notin># A" "?N \<notin># B" using p by (auto simp: proper_offers_def)
  have "keeps_best C (mset (pairs ?bh)) (replicate_mset k ?N + (A + B))"
  proof (rule keeps_best_merge [OF _ _ _ _ N])
    show "keeps_best C (mset (pairs ?bh)) (replicate_mset k ?N + A + mset (pairs loc))" using r(3) l by simp
    show "keeps_best C (mset (pairs loc)) (replicate_mset k ?N + B)" using loc by (simp add: top_heap_def)
  qed (use l sl in simp_all)
  then show ?thesis using r by (simp add: top_heap_def)
qed

lemma top_heap_result:
  assumes "top_heap C k bh (mset ps)" "0 < k" "proper_offers C (mset ps)"
  shows "topk_result C k ps (pairs (snd (heap_reorder C k (fst bh) (snd bh))))"
proof -
  let ?h = "\<lparr>hh_k = k, hh_dis = fst bh, hh_ids = snd bh, hh_threshold = fst bh ! 0\<rparr>"
  have p: "hh_pairs ?h = pairs bh" by (simp add: hh_pairs_def)
  have i: "hh_inv C ?h" using assms(1,2) unfolding hh_inv_def p by (simp add: top_heap_def same_len_pair)
  have b: "keeps_best C (mset (hh_pairs ?h)) (mset (replicate k (neutral C, -1)) + mset ps)"
    using assms(1) unfolding p by (simp add: top_heap_def)
  have "topk_result C k ps (pairs (hh_end C ?h))"
    by (rule hh_end_topk [OF i _ b]) (use assms(3) in \<open>auto simp: proper_offers_def\<close>)
  then show ?thesis by (simp add: hh_end_def)
qed

end

lemma topk_result_cong: "mset ps = mset qs \<Longrightarrow> topk_result C k ps out \<longleftrightarrow> topk_result C k qs out"
  unfolding topk_result_def by (metis size_mset)

end
