(* ===== verification/Index_Ivf_Modes.thy ===== *)
theory Index_Ivf_Modes
  imports Index_Ivf_Scan Top_Heap
begin

text \<open>
  The parallel modes of \<open>search_preassigned\<close> for any scan that offers the entries of a list to the heap it is given:
  under every schedule of the threads, the result of a query holds the best of the entries that its probes offer.
\<close>

text \<open>\<open>po bound p\<close> are the offers of the probe \<open>p\<close>, \<open>ps bound p\<close> is the number of codes that it counts.\<close>

definition offering_scan ::
  "'d comparator \<Rightarrow> nat \<Rightarrow> 'd list_scan \<Rightarrow> (nat \<Rightarrow> idx_t \<times> 'd \<Rightarrow> ('d \<times> idx_t) list) \<Rightarrow> (nat \<Rightarrow> idx_t \<times> 'd \<Rightarrow> nat) \<Rightarrow>
   (idx_t \<times> 'd) list \<Rightarrow> bool" where
  "offering_scan C k scan po ps probes \<longleftrightarrow>
     (\<forall>p \<in> set probes. \<forall>bound bh. scan (fst p) (snd p) bound bh = Inr (offer_all C k (po bound p) bh, ps bound p))"

lemma offering_scanD:
  "offering_scan C k scan po ps probes \<Longrightarrow> (key, cd) \<in> set probes \<Longrightarrow>
   scan key cd bound bh = Inr (offer_all C k (po bound (key, cd)) bh, ps bound (key, cd))"
  unfolding offering_scan_def by fastforce

section \<open>Modes 0 and 3\<close>

fun limited_offers ::
  "(nat \<Rightarrow> idx_t \<times> 'd \<Rightarrow> ('d \<times> idx_t) list) \<Rightarrow> (nat \<Rightarrow> idx_t \<times> 'd \<Rightarrow> nat) \<Rightarrow> nat \<Rightarrow> (idx_t \<times> 'd) list \<Rightarrow> nat \<Rightarrow> ('d \<times> idx_t) list" where
  "limited_offers po ps max_codes [] nscan = []"
| "limited_offers po ps max_codes (p # probes) nscan =
     po (max_codes - nscan) p @
     (if nscan + ps (max_codes - nscan) p \<ge> max_codes then []
      else limited_offers po ps max_codes probes (nscan + ps (max_codes - nscan) p))"

lemma scan_probes_offers:
  "offering_scan C k scan po ps probes \<Longrightarrow>
   scan_probes scan max_codes probes nscan bh = Inr (offer_all C k (limited_offers po ps max_codes probes nscan) bh)"
proof (induction probes arbitrary: nscan bh)
  case (Cons p probes)
  obtain key cd where p: "p = (key, cd)" by force
  have tl: "offering_scan C k scan po ps probes" using Cons.prems by (simp add: offering_scan_def)
  have hd: "scan key cd (max_codes - nscan) bh =
      Inr (offer_all C k (po (max_codes - nscan) (key, cd)) bh, ps (max_codes - nscan) (key, cd))"
    by (rule offering_scanD [OF Cons.prems]) (simp add: p)
  show ?case using Cons.IH [OF tl] by (simp add: p hd)
qed simp

text \<open>The bound has no effect as long as the probes do not reach it.\<close>

lemma limited_offers_all:
  assumes "\<And>p bound. p \<in> set probes \<Longrightarrow> ps bound p \<le> sz p"
    and "\<And>p bound. p \<in> set probes \<Longrightarrow> sz p \<le> bound \<Longrightarrow> po bound p = all p"
    and "nscan + sum_list (map sz probes) < max_codes"
  shows "limited_offers po ps max_codes probes nscan = concat (map all probes)"
  using assms
proof (induction probes arbitrary: nscan)
  case (Cons p probes)
  let ?n = "ps (max_codes - nscan) p"
  have n: "?n \<le> sz p" by (rule Cons.prems(1)) simp
  have po: "po (max_codes - nscan) p = all p" by (rule Cons.prems(2)) (use Cons.prems(3) in auto)
  have "limited_offers po ps max_codes probes (nscan + ?n) = concat (map all probes)"
  proof (rule Cons.IH)
    show "nscan + ?n + sum_list (map sz probes) < max_codes" using Cons.prems(3) n by simp
  qed (use Cons.prems(1,2) in auto)
  then show ?case using Cons.prems(3) n po by simp
qed simp

context heap_comparator
begin

lemma search_mode_0_topk:
  assumes "same_len bh k" "0 < k" and scan: "offering_scan C k scan po ps probes"
    and p: "proper_offers C (mset (limited_offers po ps max_codes probes 0))"
  shows "\<exists>bh'. search_mode_0 C k True scan max_codes probes bh = Inr bh' \<and> same_len bh' k
    \<and> topk_result C k (limited_offers po ps max_codes probes 0) (pairs bh')"
proof -
  let ?o = "limited_offers po ps max_codes probes 0" and ?i = "heap_heapify C k bh [] None 0"
  let ?r = "snd (heap_reorder C k (fst (offer_all C k ?o ?i)) (snd (offer_all C k ?o ?i)))"
  have "top_heap C k (offer_all C k ?o ?i) (mset ?o)"
    using top_heap_offers [OF assms(2) top_heap_init [OF assms(1)], of ?o] by simp
  then have "topk_result C k ?o (pairs ?r)" "same_len (offer_all C k ?o ?i) k"
    using top_heap_result assms(2) p by (blast, simp add: top_heap_def)
  moreover have "search_mode_0 C k True scan max_codes probes bh = Inr ?r"
    by (simp add: search_mode_0_def init_result_def reorder_result_def scan_probes_offers [OF scan])
  ultimately show ?thesis using keeps_len_heap_reorder [of k C] unfolding keeps_len_def by blast
qed

end

section \<open>Mode 1\<close>

text \<open>Every probe is scanned once, by some thread, and every thread merges once.\<close>

definition shares_probes :: "nat \<Rightarrow> nat \<Rightarrow> (nat \<times> nat) list \<Rightarrow> nat list \<Rightarrow> bool" where
  "shares_probes nt m scans merges \<longleftrightarrow>
     (\<forall>e \<in> set scans. fst e < nt) \<and> mset (map snd scans) = mset [0..<m] \<and> mset merges = mset [0..<nt]"

definition thread_offers :: "(nat \<Rightarrow> 'a list) \<Rightarrow> (nat \<times> nat) list \<Rightarrow> nat \<Rightarrow> 'a multiset" where
  "thread_offers h scans t = (\<Sum>e \<leftarrow> filter (\<lambda>e. fst e = t) scans. mset (h (snd e)))"

lemma mset_concat_map: "mset (concat (map f xs)) = (\<Sum>x \<in># mset xs. mset (f x))"
  by (induction xs) simp_all

lemma mset_concat_cong: "mset xs = mset ys \<Longrightarrow> mset (concat (map f xs)) = mset (concat (map f ys))"
  by (simp only: mset_concat_map)

lemma sum_thread_offers:
  assumes "\<forall>e \<in> set scans. fst e < nt"
  shows "(\<Sum>t \<in># mset [0..<nt]. thread_offers h scans t) = mset (concat (map h (map snd scans)))"
  using assms
proof (induction scans)
  case Nil
  then show ?case by (simp add: thread_offers_def)
next
  case (Cons e scans)
  have "(\<Sum>t \<in># mset [0..<nt]. thread_offers h (e # scans) t) =
      (\<Sum>t \<in># mset [0..<nt]. (if fst e = t then mset (h (snd e)) else {#}) + thread_offers h scans t)"
    by (rule arg_cong [of _ _ sum_mset], rule image_mset_cong) (simp add: thread_offers_def)
  also have "\<dots> = (\<Sum>t \<in># mset [0..<nt]. if fst e = t then mset (h (snd e)) else {#})
      + (\<Sum>t \<in># mset [0..<nt]. thread_offers h scans t)"
    by (rule sum_mset.distrib)
  also have "(\<Sum>t \<in># mset [0..<nt]. if fst e = t then mset (h (snd e)) else {#}) = mset (h (snd e))"
  proof -
    have "(\<Sum>t \<leftarrow> [0..<nt]. if fst e = t then mset (h (snd e)) else {#}) = (\<Sum>t \<in> {0..<nt}. if fst e = t then mset (h (snd e)) else {#})"
      by (simp add: interv_sum_list_conv_sum_set_nat)
    then show ?thesis using Cons.prems by (simp flip: sum_mset_sum_list)
  qed
  finally show ?case using Cons by simp
qed

context heap_comparator
begin

lemma scan_local_fold:
  assumes scan: "offering_scan C k scan po ps probes" and k: "0 < k"
    and "\<forall>e \<in> set scans. fst e < nt \<and> snd e < length probes"
    and "length locals = nt" "\<forall>t < nt. top_heap C k (locals ! t) {#}"
  shows "\<exists>locals'. fold_result (scan_local scan bound probes) scans locals = Inr locals' \<and> length locals' = nt
    \<and> (\<forall>t < nt. top_heap C k (locals' ! t) (thread_offers (\<lambda>ik. po bound (probes ! ik)) scans t))"
  using assms(3)
proof (induction scans rule: rev_induct)
  case Nil
  then show ?case using assms(4,5) by (simp add: thread_offers_def)
next
  case (snoc e scans)
  obtain t ik where e: "e = (t, ik)" by force
  obtain locals' where l: "fold_result (scan_local scan bound probes) scans locals = Inr locals'" "length locals' = nt"
    "\<forall>t < nt. top_heap C k (locals' ! t) (thread_offers (\<lambda>ik. po bound (probes ! ik)) scans t)"
    using snoc by auto
  have t: "t < nt" and p: "(fst (probes ! ik), snd (probes ! ik)) \<in> set probes" using snoc.prems by (simp_all add: e)
  note s = offering_scanD [OF scan p, of bound, simplified]
  let ?l = "locals'[t := offer_all C k (po bound (probes ! ik)) (locals' ! t)]"
  have "fold_result (scan_local scan bound probes) (scans @ [e]) locals = scan_local scan bound probes e locals'"
    by (simp add: fold_result_snoc l(1))
  also have "\<dots> = Inr ?l" by (simp add: scan_local_def e s)
  finally have r: "fold_result (scan_local scan bound probes) (scans @ [e]) locals = Inr ?l" .
  have "top_heap C k (?l ! u) (thread_offers (\<lambda>ik. po bound (probes ! ik)) (scans @ [e]) u)" if u: "u < nt" for u
    using top_heap_offers [OF k l(3) [rule_format, OF u], of "po bound (probes ! ik)"] l(2,3) u
    by (cases "t = u") (simp_all add: thread_offers_def e)
  then show ?case using r l(2) by simp
qed

lemma fold_merges:
  assumes "0 < k" "\<forall>t \<in> set merges. top_heap C k (locals ! t) (B t) \<and> proper_offers C (B t)"
  shows "top_heap C k bh A \<Longrightarrow> proper_offers C A \<Longrightarrow>
    top_heap C k (fold (\<lambda>t. add_local_results C k (locals ! t)) merges bh) (A + (\<Sum>t \<in># mset merges. B t))"
  using assms(2)
proof (induction merges arbitrary: A bh)
  case (Cons t merges)
  have "top_heap C k (add_local_results C k (locals ! t) bh) (A + B t)"
    unfolding add_local_results_def using top_heap_merge Cons.prems assms(1) by simp
  from Cons.IH [OF this] show ?case using Cons.prems by (simp add: add.assoc)
qed simp

lemma search_mode_1_topk:
  assumes bh: "same_len bh k" and k: "0 < k" and scan: "offering_scan C k scan po ps probes"
    and sch: "shares_probes nt (length probes) scans merges"
    and locals: "length locals = nt" "\<forall>t < nt. same_len (locals ! t) k"
    and p: "proper_offers C (mset (concat (map (po bound) probes)))"
  shows "\<exists>locals' bh'. search_mode_1 C k True scan bound scans merges probes (locals, bh) = Inr (locals', bh')
    \<and> length locals' = nt \<and> (\<forall>t < nt. same_len (locals' ! t) k) \<and> same_len bh' k
    \<and> topk_result C k (concat (map (po bound) probes)) (pairs bh')"
proof -
  let ?h = "\<lambda>ik. po bound (probes ! ik)" and ?i = "heap_heapify C k bh [] None 0"
  let ?ls = "map (init_result C k True) locals"
  have s: "\<forall>e \<in> set scans. fst e < nt" "mset (map snd scans) = mset [0..<length probes]" "mset merges = mset [0..<nt]"
    using sch by (simp_all add: shares_probes_def)
  have "snd e < length probes" if "e \<in> set scans" for e
  proof -
    have "snd e \<in> set_mset (mset (map snd scans))" using that by simp
    then show ?thesis unfolding s(2) by simp
  qed
  then have s': "\<forall>e \<in> set scans. fst e < nt \<and> snd e < length probes" using s(1) by blast
  have "\<forall>t < nt. top_heap C k (?ls ! t) {#}"
    using locals top_heap_init by (simp add: init_result_def)
  from scan_local_fold [OF scan k s' _ this, where bound = bound] locals(1) obtain ls where
    ls: "fold_result (scan_local scan bound probes) scans ?ls = Inr ls" "length ls = nt"
    "\<forall>t < nt. top_heap C k (ls ! t) (thread_offers ?h scans t)" by auto
  have offers: "(\<Sum>t \<in># mset merges. thread_offers ?h scans t) = mset (concat (map (po bound) probes))"
  proof -
    have "(\<Sum>t \<in># mset merges. thread_offers ?h scans t) = mset (concat (map ?h (map snd scans)))"
      unfolding s(3) by (rule sum_thread_offers [OF s(1)])
    also have "\<dots> = mset (concat (map ?h [0..<length probes]))" by (rule mset_concat_cong [OF s(2)])
    also have "map ?h [0..<length probes] = map (po bound) probes" by (rule nth_equalityI) simp_all
    finally show ?thesis .
  qed
  have m: "\<forall>t \<in> set merges. t < nt" using mset_eq_setD [OF s(3)] by auto
  have "thread_offers ?h scans t \<subseteq># mset (concat (map (po bound) probes))" if t: "t \<in> set merges" for t
  proof -
    obtain M where "mset merges = add_mset t M" using multi_member_split [of t "mset merges"] t by auto
    then show ?thesis unfolding offers [symmetric] by simp
  qed
  then have B: "\<forall>t \<in> set merges. top_heap C k (ls ! t) (thread_offers ?h scans t) \<and> proper_offers C (thread_offers ?h scans t)"
    using ls(3) m p unfolding proper_offers_def by (meson mset_subset_eqD)
  let ?m = "fold (\<lambda>t. add_local_results C k (ls ! t)) merges ?i"
  have th: "top_heap C k ?m (mset (concat (map (po bound) probes)))"
    using fold_merges [OF k B top_heap_init [OF bh] proper_offers_empty] by (simp add: offers)
  let ?r = "snd (heap_reorder C k (fst ?m) (snd ?m))"
  have "search_mode_1 C k True scan bound scans merges probes (locals, bh) = Inr (ls, ?r)"
    by (simp add: search_mode_1_def ls(1)) (simp add: init_result_def reorder_result_def)
  moreover have "same_len ?r k" using th keeps_len_heap_reorder [of k C] unfolding keeps_len_def top_heap_def by blast
  ultimately show ?thesis using top_heap_result [OF th k p] ls(2,3) by (auto simp: top_heap_def)
qed

end

section \<open>Mode 2\<close>

lemma upt_row: "[i * m..<Suc i * m] = map (\<lambda>j. i * m + j) [0..<m]"
  by (rule nth_equalityI) simp_all

lemma filter_row:
  "filter (\<lambda>ij. ij div m = i) [0..<n * m] = (if i < n then map (\<lambda>j. i * m + j) [0..<m] else [])"
proof (induction n)
  case (Suc n)
  have e: "[0..<Suc n * m] = [0..<n * m] @ [n * m..<Suc n * m]"
    using upt_add_eq_append [of 0 "n * m" m] by (simp add: add.commute)
  have "ij div m = n" if "ij \<in> set [n * m..<Suc n * m]" for ij
  proof -
    have "n * m \<le> ij" "ij < Suc n * m" using that by simp_all
    then show ?thesis by (intro div_nat_eqI) (simp_all add: mult.commute)
  qed
  then have f: "filter (\<lambda>ij. ij div m = i) [n * m..<Suc n * m] = (if n = i then [n * m..<Suc n * m] else [])"
    by (simp add: filter_id_conv filter_empty_conv del: upt_Suc mult_Suc cong: filter_cong)
  show ?case unfolding e filter_append f Suc.IH using upt_row [of n m] by (auto simp: less_Suc_eq)
qed simp

definition pair_offers :: "(nat \<Rightarrow> nat \<Rightarrow> 'a list) \<Rightarrow> nat \<Rightarrow> nat list \<Rightarrow> nat \<Rightarrow> 'a multiset" where
  "pair_offers h m ijs i = mset (concat (map (\<lambda>ij. h i (ij mod m)) (filter (\<lambda>ij. ij div m = i) ijs)))"

lemma pair_offers_all:
  assumes "mset ijs = mset [0..<n * m]" "i < n"
  shows "pair_offers h m ijs i = mset (concat (map (h i) [0..<m]))"
proof -
  have "mset (filter (\<lambda>ij. ij div m = i) ijs) = mset (map (\<lambda>j. i * m + j) [0..<m])"
  proof -
    have "mset (filter (\<lambda>ij. ij div m = i) ijs) = mset (filter (\<lambda>ij. ij div m = i) [0..<n * m])"
      by (simp only: mset_filter assms(1))
    then show ?thesis by (simp only: filter_row assms(2) if_True)
  qed
  from mset_concat_cong [OF this, of "\<lambda>ij. h i (ij mod m)"]
  have "pair_offers h m ijs i = mset (concat (map (\<lambda>j. h i (j mod m)) [0..<m]))"
    by (simp add: pair_offers_def comp_def)
  also have "map (\<lambda>j. h i (j mod m)) [0..<m] = map (h i) [0..<m]" by (rule map_cong) simp_all
  finally show ?thesis .
qed

lemma same_len_heap_addn_from: "same_len bh n \<Longrightarrow> same_len (heap_addn_from C k x ids i m bh) n"
proof (induction m arbitrary: i bh)
  case (Suc m)
  have "same_len (heap_offer C k bh d j) n" for d j using Suc.prems by (simp add: heap_offer_def same_len_heap_replace_top)
  then show ?case unfolding heap_addn_from_offer by (rule Suc.IH)
qed simp

definition shares_pairs :: "nat \<Rightarrow> nat \<Rightarrow> nat \<Rightarrow> (nat \<times> nat) list \<Rightarrow> bool" where
  "shares_pairs nt n m scans \<longleftrightarrow> (\<forall>e \<in> set scans. fst e < nt) \<and> mset (map snd scans) = mset [0..<n * m]"

lemma fold_result_rows:
  assumes "I st0"
    and step: "\<And>i st. i < n \<Longrightarrow> I st \<Longrightarrow>
      \<exists>st'. step i st = Inr st' \<and> I st' \<and> Q i (rw i st') \<and> (\<forall>j < n. j \<noteq> i \<longrightarrow> rw j st' = rw j st)"
  shows "\<exists>st'. fold_result step [0..<n] st0 = Inr st' \<and> I st' \<and> (\<forall>i < n. Q i (rw i st'))"
proof -
  have "m \<le> n \<Longrightarrow> \<exists>st'. fold_result step [0..<m] st0 = Inr st' \<and> I st' \<and> (\<forall>i < m. Q i (rw i st'))" for m
  proof (induction m)
    case (Suc m)
    then obtain st where st: "fold_result step [0..<m] st0 = Inr st" "I st" "\<forall>i < m. Q i (rw i st)" by auto
    obtain st' where st': "step m st = Inr st'" "I st'" "Q m (rw m st')" "\<forall>j < n. j \<noteq> m \<longrightarrow> rw j st' = rw j st"
      using step [OF _ st(2), of m] Suc.prems by auto
    have "fold_result step [0..<Suc m] st0 = Inr st'" by (simp add: fold_result_snoc st(1) st'(1))
    then show ?case using st(3) st'(2-4) Suc.prems by (auto simp: less_Suc_eq)
  qed (use assms(1) in simp)
  then show ?thesis by blast
qed

text \<open>Every query writes its own row.\<close>

lemma same_len_const: "same_len bh k \<Longrightarrow> keeps_len k (\<lambda>_. bh)"
  by (simp add: keeps_len_def)

context heap_comparator
begin

lemma keeps_len_add_local: "keeps_len k (add_local_results C k loc)"
  by (simp add: keeps_len_def add_local_results_def heap_addn_def same_len_heap_addn_from)

lemma scan_pair_fold:
  assumes scan: "\<forall>i < n. offering_scan C k (scan i) (po i) (ps i) (probes i)" "\<forall>i < n. length (probes i) = m"
    and k: "0 < k" and tab: "same_len tab (n * k)" "\<forall>i < n. top_heap C k (row2 k i tab) {#}"
    and p: "\<forall>i < n. \<forall>q \<in> set (probes i). proper_offers C (mset (po i bound q))"
    and locals: "length locals = nt" "\<forall>t < nt. same_len (locals ! t) k"
    and sch: "\<forall>e \<in> set scans. fst e < nt \<and> snd e < n * m"
  shows "\<exists>locals' tab'. fold_result (scan_pair C k True scan bound m probes) scans (locals, tab) = Inr (locals', tab')
    \<and> length locals' = nt \<and> (\<forall>t < nt. same_len (locals' ! t) k) \<and> same_len tab' (n * k)
    \<and> (\<forall>i < n. top_heap C k (row2 k i tab') (pair_offers (\<lambda>i ik. po i bound (probes i ! ik)) m (map snd scans) i)
         \<and> proper_offers C (pair_offers (\<lambda>i ik. po i bound (probes i ! ik)) m (map snd scans) i))"
  using sch
proof (induction scans rule: rev_induct)
  case Nil
  then show ?case using tab locals by (simp add: pair_offers_def)
next
  case (snoc e scans)
  let ?h = "\<lambda>i ik. po i bound (probes i ! ik)"
  obtain t ij where e: "e = (t, ij)" by force
  obtain ls tb where l: "fold_result (scan_pair C k True scan bound m probes) scans (locals, tab) = Inr (ls, tb)"
    "length ls = nt" "\<forall>t < nt. same_len (ls ! t) k" "same_len tb (n * k)"
    "\<forall>i < n. top_heap C k (row2 k i tb) (pair_offers ?h m (map snd scans) i) \<and> proper_offers C (pair_offers ?h m (map snd scans) i)"
    using snoc by auto
  define i ik where "i = ij div m" and "ik = ij mod m"
  have t: "t < nt" and ij: "ij < n * m" using snoc.prems by (simp_all add: e)
  then have m: "0 < m" by (cases m) auto
  have i: "i < n" "ik < m" using ij m by (simp_all add: i_def ik_def less_mult_imp_div_less)
  have q: "probes i ! ik \<in> set (probes i)" using i scan(2) by simp
  then have q': "(fst (probes i ! ik), snd (probes i ! ik)) \<in> set (probes i)" by simp
  let ?init = "heap_heapify C k (ls ! t) [] None 0"
  let ?loc = "offer_all C k (?h i ik) ?init"
  have s: "scan i (fst (probes i ! ik)) (snd (probes i ! ik)) bound ?init = Inr (?loc, ps i bound (probes i ! ik))"
    using offering_scanD [OF scan(1) [rule_format, OF i(1)] q', of bound ?init] by simp
  let ?tb = "on_row k (add_local_results C k ?loc) i tb"
  have "fold_result (scan_pair C k True scan bound m probes) (scans @ [e]) (locals, tab) =
      scan_pair C k True scan bound m probes e (ls, tb)"
    by (simp add: fold_result_snoc l(1))
  also have "\<dots> = Inr (ls[t := ?loc], ?tb)"
    by (simp add: scan_pair_def e init_result_def i_def [symmetric] ik_def [symmetric] s Let_def)
  finally have r: "fold_result (scan_pair C k True scan bound m probes) (scans @ [e]) (locals, tab) = Inr (ls[t := ?loc], ?tb)" .
  have loc: "top_heap C k ?loc (mset (?h i ik))"
    using top_heap_offers [OF k top_heap_init [OF l(3) [rule_format, OF t]], of "?h i ik"] by simp
  have pr: "proper_offers C (mset (?h i ik))" using p i(1) q by blast
  note row = on_row_row2 [OF l(4) i(1) keeps_len_add_local [of k ?loc]]
  have po: "pair_offers ?h m (map snd (scans @ [e])) u = pair_offers ?h m (map snd scans) u + (if i = u then mset (?h u ik) else {#})" for u
    by (simp add: pair_offers_def e i_def ik_def)
  have "top_heap C k (row2 k u ?tb) (pair_offers ?h m (map snd (scans @ [e])) u)
      \<and> proper_offers C (pair_offers ?h m (map snd (scans @ [e])) u)" if u: "u < n" for u
    unfolding po using l(5) [rule_format, OF u] top_heap_merge [OF _ loc k _ pr, of "row2 k u tb"] row(2) [OF u] pr
    by (auto simp: add_local_results_def)
  moreover have "same_len (ls[t := ?loc] ! u) k" if "u < nt" for u
    using l(2,3) loc that by (cases "u = t") (simp_all add: top_heap_def)
  ultimately show ?case using r l(2) row(1) by simp
qed

end

section \<open>All modes\<close>

definition fair_schedule :: "int \<Rightarrow> nat \<Rightarrow> nat \<Rightarrow> ivf_schedule \<Rightarrow> bool" where
  "fair_schedule pmode n m sch \<longleftrightarrow>
     (pmode = 1 \<longrightarrow> (\<forall>i < n. shares_probes (sch_threads sch) m (sch_scans sch i) (sch_merges sch i)))
     \<and> (pmode = 2 \<longrightarrow> shares_pairs (sch_threads sch) n m (sch_scans sch 0))"

text \<open>The offers of the probe \<open>q\<close> without a bound are \<open>all q\<close>, from a list of \<open>sz q\<close> codes.\<close>

definition complete_offers ::
  "(nat \<Rightarrow> idx_t \<times> 'd \<Rightarrow> ('d \<times> idx_t) list) \<Rightarrow> (nat \<Rightarrow> idx_t \<times> 'd \<Rightarrow> nat) \<Rightarrow> (idx_t \<times> 'd \<Rightarrow> nat) \<Rightarrow> (idx_t \<times> 'd \<Rightarrow> ('d \<times> idx_t) list) \<Rightarrow> bool" where
  "complete_offers po ps sz all \<longleftrightarrow> (\<forall>bound q. ps bound q \<le> sz q) \<and> (\<forall>bound q. sz q \<le> bound \<longrightarrow> po bound q = all q)"

context heap_comparator
begin

lemma search_mode_0_rows:
  assumes "\<forall>i < n. offering_scan C k (scan i) (po i) (ps i) (probes i)" "0 < k" "same_len tab (n * k)" "pmode = 0 \<or> pmode = 3"
    and p: "\<forall>i < n. proper_offers C (mset (limited_offers (po i) (ps i) max_codes (probes i) 0))"
  shows "\<exists>tab'. search_mode C k True pmode scan max_codes sch n m probes zero tab = Inr tab' \<and> same_len tab' (n * k)
    \<and> (\<forall>i < n. topk_result C k (limited_offers (po i) (ps i) max_codes (probes i) 0) (pairs (row2 k i tab')))"
proof -
  let ?step = "\<lambda>i tab. bind_result (search_mode_0 C k True (scan i) max_codes (probes i) (row k i (fst tab), row k i (snd tab))) (\<lambda>bh.
    Inr (on_row k (\<lambda>_. bh) i tab))"
  have "\<exists>tab'. fold_result ?step [0..<n] tab = Inr tab' \<and> same_len tab' (n * k)
    \<and> (\<forall>i < n. topk_result C k (limited_offers (po i) (ps i) max_codes (probes i) 0) (pairs (row2 k i tab')))"
  proof (rule fold_result_rows [where rw = "row2 k" and Q = "\<lambda>i bh. topk_result C k (limited_offers (po i) (ps i) max_codes (probes i) 0) (pairs bh)"])
    fix i and tab :: "'d list \<times> idx_t list" assume i: "i < n" and t: "same_len tab (n * k)"
    from search_mode_0_topk [OF same_len_row2 [OF t i] assms(2) assms(1) [rule_format, OF i] p [rule_format, OF i]]
    obtain bh where bh: "search_mode_0 C k True (scan i) max_codes (probes i) (row2 k i tab) = Inr bh" "same_len bh k"
      "topk_result C k (limited_offers (po i) (ps i) max_codes (probes i) 0) (pairs bh)" by blast
    note r = on_row_row2 [OF t i same_len_const [OF bh(2)]]
    show "\<exists>st'. ?step i tab = Inr st' \<and> same_len st' (n * k) \<and>
        topk_result C k (limited_offers (po i) (ps i) max_codes (probes i) 0) (pairs (row2 k i st')) \<and>
        (\<forall>j < n. j \<noteq> i \<longrightarrow> row2 k j st' = row2 k j tab)"
      using bh(1,3) r i by (simp add: row2_def [of k i tab])
  qed (rule assms(3))
  then show ?thesis using assms(4) by (simp add: search_mode_def)
qed

lemma search_mode_1_rows:
  assumes scan: "\<forall>i < n. offering_scan C k (scan i) (po i) (ps i) (probes i)" "\<forall>i < n. length (probes i) = m" and k: "0 < k"
    and tab: "same_len tab (n * k)" and sch: "fair_schedule 1 n m sch"
    and p: "\<forall>i < n. proper_offers C (mset (concat (map (po i unlimited_list_size) (probes i))))"
  shows "\<exists>tab'. search_mode C k True 1 scan max_codes sch n m probes zero tab = Inr tab' \<and> same_len tab' (n * k)
    \<and> (\<forall>i < n. topk_result C k (concat (map (po i unlimited_list_size) (probes i))) (pairs (row2 k i tab')))"
proof -
  let ?nt = "sch_threads sch" and ?all = "\<lambda>i. concat (map (po i unlimited_list_size) (probes i))"
  let ?step = "\<lambda>i (locals, tab). bind_result (search_mode_1 C k True (scan i) unlimited_list_size (sch_scans sch i) (sch_merges sch i) (probes i)
      (locals, (row k i (fst tab), row k i (snd tab)))) (\<lambda>(locals, bh). Inr (locals, on_row k (\<lambda>_. bh) i tab))"
  let ?I = "\<lambda>(locals, tab). length locals = ?nt \<and> (\<forall>t < ?nt. same_len (locals ! t) k) \<and> same_len tab (n * k)"
  have "\<exists>st. fold_result ?step [0..<n] (replicate ?nt (replicate k zero, replicate k 0), tab) = Inr st \<and> ?I st
    \<and> (\<forall>i < n. topk_result C k (?all i) (pairs (row2 k i (snd st))))"
  proof (rule fold_result_rows [where rw = "\<lambda>i st. row2 k i (snd st)" and Q = "\<lambda>i bh. topk_result C k (?all i) (pairs bh)"])
    fix i and st :: "('d list \<times> idx_t list) list \<times> ('d list \<times> idx_t list)" assume i: "i < n" and st: "?I st"
    obtain ls tb where l: "st = (ls, tb)" "length ls = ?nt" "\<forall>t < ?nt. same_len (ls ! t) k" "same_len tb (n * k)"
      using st by (cases st) auto
    have "shares_probes ?nt (length (probes i)) (sch_scans sch i) (sch_merges sch i)"
      using sch i scan(2) by (simp add: fair_schedule_def)
    from search_mode_1_topk [OF same_len_row2 [OF l(4) i] k scan(1) [rule_format, OF i] this l(2,3) p [rule_format, OF i]]
    obtain ls' bh where bh: "search_mode_1 C k True (scan i) unlimited_list_size (sch_scans sch i) (sch_merges sch i) (probes i)
        (ls, row2 k i tb) = Inr (ls', bh)" "length ls' = ?nt" "\<forall>t < ?nt. same_len (ls' ! t) k" "same_len bh k"
      "topk_result C k (?all i) (pairs bh)" by blast
    note r = on_row_row2 [OF l(4) i same_len_const [OF bh(4)]]
    show "\<exists>st'. ?step i st = Inr st' \<and> ?I st' \<and> topk_result C k (?all i) (pairs (row2 k i (snd st'))) \<and>
        (\<forall>j < n. j \<noteq> i \<longrightarrow> row2 k j (snd st') = row2 k j (snd st))"
      using bh r i l(1) by (simp add: row2_def [of k i tb])
  qed (use tab in \<open>simp add: same_len_def\<close>)
  then show ?thesis by (auto simp: search_mode_def)
qed

lemma search_mode_2_rows:
  assumes scan: "\<forall>i < n. offering_scan C k (scan i) (po i) (ps i) (probes i)" "\<forall>i < n. length (probes i) = m" and k: "0 < k"
    and tab: "same_len tab (n * k)" and sch: "fair_schedule 2 n m sch"
    and p: "\<forall>i < n. proper_offers C (mset (concat (map (po i unlimited_list_size) (probes i))))"
  shows "\<exists>tab'. search_mode C k True 2 scan max_codes sch n m probes zero tab = Inr tab' \<and> same_len tab' (n * k)
    \<and> (\<forall>i < n. topk_result C k (concat (map (po i unlimited_list_size) (probes i))) (pairs (row2 k i tab')))"
proof -
  let ?nt = "sch_threads sch" and ?po = "\<lambda>i. po i unlimited_list_size"
  let ?h = "\<lambda>i ik. ?po i (probes i ! ik)" and ?ijs = "map snd (sch_scans sch 0)"
  let ?t0 = "fold (on_row k (init_result C k True)) [0..<n] tab"
  have ik: "keeps_len k (init_result C k True)" using keeps_len_heap_heapify by (simp add: init_result_def keeps_len_def)
  note t0 = fold_on_row [OF tab, of 0 n "\<lambda>_. init_result C k True", OF _ order_refl ik, simplified]
  have h0: "\<forall>i < n. top_heap C k (row2 k i ?t0) {#}"
    using t0 top_heap_init same_len_row2 [OF tab] by (simp add: init_result_def)
  have s: "\<forall>e \<in> set (sch_scans sch 0). fst e < ?nt" "mset ?ijs = mset [0..<n * m]"
    using sch by (simp_all add: fair_schedule_def shares_pairs_def)
  have "\<forall>e \<in> set (sch_scans sch 0). fst e < ?nt \<and> snd e < n * m"
  proof
    fix e assume e: "e \<in> set (sch_scans sch 0)"
    then have "snd e \<in> set [0..<n * m]" unfolding mset_eq_setD [OF s(2), symmetric] by simp
    then show "fst e < ?nt \<and> snd e < n * m" using s(1) e by simp
  qed
  moreover have "\<forall>i < n. \<forall>q \<in> set (probes i). proper_offers C (mset (?po i q))"
    using p by (auto simp: proper_offers_def)
  ultimately obtain ls tb where f: "fold_result (scan_pair C k True scan unlimited_list_size m probes) (sch_scans sch 0)
      (replicate ?nt (replicate k zero, replicate k 0), ?t0) = Inr (ls, tb)" "same_len tb (n * k)"
    "\<forall>i < n. top_heap C k (row2 k i tb) (pair_offers ?h m ?ijs i)"
    using scan_pair_fold [OF scan k t0 [THEN conjunct1] h0, where bound = unlimited_list_size and nt = ?nt
      and scans = "sch_scans sch 0" and locals = "replicate ?nt (replicate k zero, replicate k 0)"]
    by (auto simp: same_len_def)
  have po: "pair_offers ?h m ?ijs i = mset (concat (map (?po i) (probes i)))" if i: "i < n" for i
  proof -
    have "map (?h i) [0..<m] = map (?po i) (probes i)" using scan(2) i by (intro nth_equalityI) simp_all
    then show ?thesis using pair_offers_all [OF s(2) i, of ?h] by simp
  qed
  have rk: "keeps_len k (reorder_result C k True)" using keeps_len_heap_reorder by (simp add: reorder_result_def keeps_len_def)
  note t1 = fold_on_row [OF f(2), of 0 n "\<lambda>_. reorder_result C k True", OF _ order_refl rk, simplified]
  have "topk_result C k (concat (map (?po i) (probes i))) (pairs (reorder_result C k True (row2 k i tb)))" if i: "i < n" for i
    using top_heap_result [OF f(3) [rule_format, OF i, unfolded po [OF i]] k p [rule_format, OF i]] by (simp add: reorder_result_def)
  then show ?thesis using f(1) t1 by (simp add: search_mode_def)
qed

lemma search_mode_topk:
  assumes scan: "\<forall>i < n. offering_scan C k (scan i) (po i) (ps i) (probes i)" "\<forall>i < n. length (probes i) = m" and k: "0 < k"
    and tab: "same_len tab (n * k)" and sch: "fair_schedule pmode n m sch" "pmode \<in> {0, 1, 2, 3}"
    and all: "\<forall>i < n. complete_offers (po i) (ps i) sz (all i)" "\<forall>i < n. sum_list (map sz (probes i)) < unlimited_list_size"
    and p: "\<forall>i < n. proper_offers C (mset (concat (map (all i) (probes i))))"
  shows "\<exists>tab'. search_mode C k True pmode scan unlimited_list_size sch n m probes zero tab = Inr tab' \<and> same_len tab' (n * k)
    \<and> (\<forall>i < n. topk_result C k (concat (map (all i) (probes i))) (pairs (row2 k i tab')))"
proof -
  have lim: "limited_offers (po i) (ps i) unlimited_list_size (probes i) 0 = concat (map (all i) (probes i))" if i: "i < n" for i
  proof (rule limited_offers_all)
    show "0 + sum_list (map sz (probes i)) < unlimited_list_size" using all(2) i by simp
  qed (use all(1) i in \<open>unfold complete_offers_def, blast+\<close>)
  have unl: "concat (map (po i unlimited_list_size) (probes i)) = concat (map (all i) (probes i))" if i: "i < n" for i
  proof -
    have "sz q \<le> unlimited_list_size" if q: "q \<in> set (probes i)" for q
      using member_le_sum_list [of "sz q" "map sz (probes i)"] all(2) i q by fastforce
    then have "\<forall>q \<in> set (probes i). po i unlimited_list_size q = all i q" using all(1) i unfolding complete_offers_def by blast
    then show ?thesis by (intro arg_cong [of _ _ concat] map_cong) simp_all
  qed
  consider "pmode = 0 \<or> pmode = 3" | "pmode = 1" | "pmode = 2" using sch(2) by blast
  then show ?thesis
  proof cases
    case 1
    show ?thesis using search_mode_0_rows [OF scan(1) k tab 1, of unlimited_list_size] p lim by simp
  next
    case 2
    show ?thesis using search_mode_1_rows [OF scan k tab sch(1) [unfolded 2]] p unl 2 by simp
  next
    case 3
    show ?thesis using search_mode_2_rows [OF scan k tab sch(1) [unfolded 3]] p unl 3 by simp
  qed
qed

end

end
