(* ===== verification/Index_Ivf_Search.thy ===== *)
theory Index_Ivf_Search
  imports Index_Ivf_Modes
begin

text \<open>
  What the searches of \<open>IndexIVF\<close> return: in every parallel mode and under every schedule, the top k of the selected
  entries of the probed lists.
\<close>

section \<open>The entries that a scan offers\<close>

definition list_offers :: "bool \<Rightarrow> (idx_t \<Rightarrow> bool) \<Rightarrow> (8 word list \<Rightarrow> 'd) \<Rightarrow> nat \<Rightarrow> entry list \<Rightarrow> nat \<Rightarrow> ('d \<times> idx_t) list" where
  "list_offers store_pairs P dist list_no es n =
     map (\<lambda>j. (dist (snd (es ! j)), if store_pairs then lo_build list_no j else fst (es ! j)))
       (filter (\<lambda>j. P (fst (es ! j))) [0..<n])"

text \<open>The selector decides the predicate \<open>P\<close> on the entries.\<close>

definition sel_decides :: "id_selector option \<Rightarrow> (idx_t \<Rightarrow> bool) \<Rightarrow> entry list \<Rightarrow> bool" where
  "sel_decides sel P es \<longleftrightarrow>
     (case sel of None \<Rightarrow> \<forall>e \<in> set es. P (fst e) | Some s \<Rightarrow> \<forall>e \<in> set es. is_member s (fst e) = Inr (P (fst e)))"

lemma scan_codes_offers:
  assumes "all_length cs (map snd es)" "n \<le> length es" "sel_decides sel P es"
    and "store_pairs \<Longrightarrow> sel = None" "\<not> store_pairs \<Longrightarrow> ids = Some (map fst es)"
  shows "scan_codes C k cs sel store_pairs list_no dist n (concat (map snd es)) ids bh =
    Inr (offer_all C k (list_offers store_pairs P dist list_no es n) bh)"
  using assms(2)
proof (induction n)
  case (Suc n)
  let ?bh = "offer_all C k (list_offers store_pairs P dist list_no es n) bh"
  have n: "n < length es" using Suc.prems by simp
  then have e: "es ! n \<in> set es" by simp
  have code: "subrange (n * cs) cs (concat (map snd es)) = snd (es ! n)"
    using subrange_concat_all [OF assms(1)] n by simp
  have member: "(case sel of None \<Rightarrow> Inr True
      | Some sl \<Rightarrow> (case ids of None \<Rightarrow> Inl Null_pointer | Some xs \<Rightarrow> is_member sl (xs ! n))) = Inr (P (fst (es ! n)))"
  proof (cases sel)
    case None
    then show ?thesis using assms(3) e by (simp add: sel_decides_def)
  next
    case (Some s)
    then have "ids = Some (map fst es)" using assms(4,5) by auto
    then show ?thesis using assms(3) e n Some by (simp add: sel_decides_def)
  qed
  have idx: "(if store_pairs then Inr (lo_build list_no n)
      else case ids of None \<Rightarrow> Inl Null_pointer | Some xs \<Rightarrow> Inr (xs ! n)) =
      Inr (if store_pairs then lo_build list_no n else fst (es ! n))"
    using assms(5) n by auto
  have "scan_step C k cs sel store_pairs list_no dist (concat (map snd es)) ids n ?bh =
      Inr (if P (fst (es ! n)) then heap_offer C k ?bh (dist (snd (es ! n))) (if store_pairs then lo_build list_no n else fst (es ! n)) else ?bh)"
    unfolding scan_step_def member idx code by (simp add: heap_offer_def Let_def)
  then show ?case using Suc by (simp add: scan_codes_def fold_result_append list_offers_def offer_all_def)
qed (simp add: scan_codes_def list_offers_def)

text \<open>One probe: the list of the key, as far as the bound.\<close>

definition probe_size :: "entry list list \<Rightarrow> nat \<Rightarrow> idx_t \<Rightarrow> nat" where
  "probe_size L bound key = (if key < 0 then 0 else min (length (L ! nat key)) bound)"

definition probe_offers ::
  "bool \<Rightarrow> (idx_t \<Rightarrow> bool) \<Rightarrow> (nat \<Rightarrow> 'd \<Rightarrow> 8 word list \<Rightarrow> 'd) \<Rightarrow> entry list list \<Rightarrow> nat \<Rightarrow> idx_t \<times> 'd \<Rightarrow> ('d \<times> idx_t) list" where
  "probe_offers store_pairs P dist L bound p =
     (if fst p < 0 then []
      else list_offers store_pairs P (dist (nat (fst p)) (snd p)) (nat (fst p)) (L ! nat (fst p)) (probe_size L bound (fst p)))"

text \<open>A container whose view shows the lists \<open>L\<close>, with codes of \<open>cs\<close> bytes.\<close>

definition shows_lists :: "il_view \<Rightarrow> nat \<Rightarrow> nat \<Rightarrow> entry list list \<Rightarrow> bool" where
  "shows_lists v nlist cs L \<longleftrightarrow> represents v L \<and> il_code_size v = cs \<and> length L = nlist"

lemma scan_one_list_offers:
  assumes v: "shows_lists v nlist cs L" and key: "key < int nlist"
    and sel: "\<forall>es \<in> set L. sel_decides sel P es" "store_pairs \<Longrightarrow> sel = None"
  shows "scan_one_list v nlist cs C k sel None store_pairs dist key cd bound bh =
    Inr (offer_all C k (probe_offers store_pairs P dist L bound (key, cd)) bh, probe_size L bound key)"
proof (cases "key < 0")
  case False
  define l where "l = nat key"
  have l: "l < length L" using v key False by (simp add: shows_lists_def l_def)
  then have s: "list_shows v l (L ! l)" using v by (simp add: shows_lists_def represents_def)
  have cs: "all_length cs (map snd (L ! l))" using s v by (simp add: list_shows_def shows_lists_def)
  have d: "sel_decides sel P (L ! l)" using sel(1) l by simp
  have il: "il_size v l = Inr (length (L ! l))" "il_ids v l = Inr (map fst (L ! l))" "il_codes v l = Inr (concat (map snd (L ! l)))"
    using s by (simp_all add: list_shows_def)
  have m: "min (length (L ! l)) bound \<le> length (L ! l)" by simp
  have sc: "scan_codes C k cs sel store_pairs l (dist l cd) (min (length (L ! l)) bound) (concat (map snd (L ! l)))
      (if store_pairs then None else Some (map fst (L ! l))) bh =
      Inr (offer_all C k (list_offers store_pairs P (dist l cd) l (L ! l) (min (length (L ! l)) bound)) bh)"
    by (rule scan_codes_offers [OF cs m d sel(2)]) auto
  have ids: "(if store_pairs then Inr None else map_sum id Some (il_ids v l)) =
      (Inr (if store_pairs then None else Some (map fst (L ! l))) :: idx_t list option result)"
    by (simp add: il)
  have ps: "probe_size L bound key = min (length (L ! l)) bound" using False by (simp add: probe_size_def l_def)
  have po: "probe_offers store_pairs P dist L bound (key, cd) = list_offers store_pairs P (dist l cd) l (L ! l) (min (length (L ! l)) bound)"
    using False ps by (simp add: probe_offers_def l_def)
  show ?thesis
  proof (cases "length (L ! l) = 0")
    case True
    then show ?thesis using False key il(1) ps po by (simp add: scan_one_list_def l_def [symmetric] list_offers_def)
  next
    case ne: False
    have k: "\<not> key < 0" "key < int nlist" using False key by simp_all
    show ?thesis unfolding ps po scan_one_list_def l_def [symmetric] ids
      using k ne sc by (simp add: il(1,3) Let_def)
  qed
qed (simp add: scan_one_list_def probe_offers_def probe_size_def)

text \<open>In a list sorted by id, the bisection for a range of ids offers what the selector would let through.\<close>

lemma filter_upt_range:
  assumes "\<forall>j < n. P j \<longleftrightarrow> a \<le> j \<and> j < b" "a \<le> b" "b \<le> n"
  shows "filter P [0..<n] = [a..<b]"
proof -
  have e: "[0..<n] = [0..<a] @ [a..<b] @ [b..<n]"
    using upt_add_eq_append [of 0 a "b - a"] upt_add_eq_append [of 0 b "n - b"] assms(2,3) by simp
  have "filter P [0..<a] = []" "filter P [a..<b] = [a..<b]" "filter P [b..<n] = []"
    using assms by (auto simp: filter_empty_conv filter_id_conv)
  then show ?thesis unfolding e by simp
qed

lemma scan_one_list_sorted_range:
  assumes v: "shows_lists v nlist cs L" and key: "key < int nlist" and sorted: "\<forall>es \<in> set L. sorted (map fst es)"
  shows "scan_one_list v nlist cs C k None (Some (imin, imax)) False dist key cd bound bh =
    Inr (offer_all C k (probe_offers False (\<lambda>i. imin \<le> i \<and> i < imax) dist L bound (key, cd)) bh,
         length (probe_offers False (\<lambda>i. imin \<le> i \<and> i < imax) dist L bound (key, cd)))"
proof (cases "key < 0")
  case False
  let ?P = "\<lambda>i. imin \<le> i \<and> i < imax"
  define l where "l = nat key"
  have l: "l < length L" using v key False by (simp add: shows_lists_def l_def)
  then have s: "list_shows v l (L ! l)" using v by (simp add: shows_lists_def represents_def)
  have cs: "all_length cs (map snd (L ! l))" using s v by (simp add: list_shows_def shows_lists_def)
  have il: "il_size v l = Inr (length (L ! l))" "il_ids v l = Inr (map fst (L ! l))" "il_codes v l = Inr (concat (map snd (L ! l)))"
    using s by (simp_all add: list_shows_def)
  define n where "n = min (length (L ! l)) bound"
  have n: "n \<le> length (L ! l)" by (simp add: n_def)
  have "sorted (take n (map fst (L ! l)))" using sorted l by (intro sorted_wrt_take) simp
  from sorted_ids_bounds [OF this, of imin imax] obtain a b where
    ab: "find_sorted_ids_bounds imin imax True (take n (map fst (L ! l))) = Inr (a, b)" "a \<le> b" "b \<le> n"
      "\<forall>j < n. (a \<le> j \<and> j < b) = ?P (fst (L ! l ! j))"
    using n by (auto simp: min_def split: if_splits)
  have po: "probe_offers False ?P dist L bound (key, cd) = list_offers False ?P (dist l cd) l (L ! l) n"
    using False by (simp add: probe_offers_def probe_size_def l_def [symmetric] n_def)
  also have "\<dots> = map (\<lambda>j. (dist l cd (snd (L ! l ! j)), fst (L ! l ! j))) [a..<b]"
    using filter_upt_range [of n "\<lambda>j. ?P (fst (L ! l ! j))" a b] ab by (simp add: list_offers_def)
  also have "\<dots> = list_offers False (\<lambda>_. True) (dist l cd) l (drop a (L ! l)) (b - a)"
    using ab n by (intro nth_equalityI) (simp_all add: list_offers_def)
  finally have off: "probe_offers False ?P dist L bound (key, cd) = list_offers False (\<lambda>_. True) (dist l cd) l (drop a (L ! l)) (b - a)" .
  have "all_length cs (map snd (drop a (L ! l)))" using cs by (auto simp: all_length_def dest: in_set_dropD)
  moreover have "b - a \<le> length (drop a (L ! l))" using ab n by simp
  ultimately have sc: "scan_codes C k cs None False l (dist l cd) (b - a) (concat (map snd (drop a (L ! l)))) (Some (map fst (drop a (L ! l)))) bh =
      Inr (offer_all C k (probe_offers False ?P dist L bound (key, cd)) bh)"
    unfolding off by (rule scan_codes_offers) (simp_all add: sel_decides_def)
  have dr: "drop (a * cs) (concat (map snd (L ! l))) = concat (map snd (drop a (L ! l)))"
    "drop a (map fst (L ! l)) = map fst (drop a (L ! l))"
    using drop_concat_all [OF cs, of a] by (simp_all add: drop_map)
  have len: "length (probe_offers False ?P dist L bound (key, cd)) = b - a" unfolding off by (simp add: list_offers_def)
  have k: "\<not> key < 0" "key < int nlist" using False key by simp_all
  show ?thesis
  proof (cases "length (L ! l) = 0")
    case True
    then have "b - a = 0" using ab n by simp
    then show ?thesis using k il(1) True len by (simp add: scan_one_list_def l_def [symmetric])
  next
    case ne: False
    show ?thesis
    proof (cases "b - a = 0")
      case True
      then show ?thesis using k ne len by (simp add: scan_one_list_def l_def [symmetric] il n_def [symmetric] ab(1) Let_def)
    next
      case False
      show ?thesis using k ne False sc len
        by (simp add: scan_one_list_def l_def [symmetric] il n_def [symmetric] ab(1) Let_def dr)
    qed
  qed
qed (simp add: scan_one_list_def probe_offers_def)

section \<open>The codes that a query probes\<close>

text \<open>A code is a list number, the coarse distance of the list, and a position in it.\<close>

definition probe_codes :: "entry list list \<Rightarrow> idx_t \<times> 'd \<Rightarrow> (nat \<times> 'd \<times> nat) list" where
  "probe_codes L p = (if fst p < 0 then [] else map (\<lambda>j. (nat (fst p), snd p, j)) [0..<length (L ! nat (fst p))])"

definition selected_offers ::
  "bool \<Rightarrow> (idx_t \<Rightarrow> bool) \<Rightarrow> (nat \<Rightarrow> 'd \<Rightarrow> 8 word list \<Rightarrow> 'd) \<Rightarrow> entry list list \<Rightarrow> (nat \<times> 'd \<times> nat) list \<Rightarrow> ('d \<times> idx_t) list" where
  "selected_offers store_pairs P dist L codes =
     map (\<lambda>(l, cd, j). (dist l cd (snd (L ! l ! j)), if store_pairs then lo_build l j else fst (L ! l ! j)))
       (filter (\<lambda>(l, cd, j). P (fst (L ! l ! j))) codes)"

lemma selected_offers_append [simp]:
  "selected_offers sp P dist L [] = []"
  "selected_offers sp P dist L (xs @ ys) = selected_offers sp P dist L xs @ selected_offers sp P dist L ys"
  by (simp_all add: selected_offers_def)

lemma selected_offers_concat: "selected_offers sp P dist L (concat xss) = concat (map (selected_offers sp P dist L) xss)"
  by (induction xss) simp_all

lemma probe_offers_codes: "probe_offers sp P dist L bound p = selected_offers sp P dist L (take bound (probe_codes L p))"
proof (cases "fst p < 0")
  case False
  have "take bound [0..<length (L ! nat (fst p))] = [0..<probe_size L bound (fst p)]"
    using False by (cases "bound \<le> length (L ! nat (fst p))") (simp_all add: probe_size_def min_def)
  then show ?thesis using False
    by (simp add: probe_offers_def list_offers_def selected_offers_def probe_codes_def take_map filter_map comp_def)
qed (simp add: probe_offers_def probe_codes_def)

lemma probe_size_codes: "probe_size L bound (fst p) = length (take bound (probe_codes L p))"
  by (simp add: probe_size_def probe_codes_def min.commute)

text \<open>With a bound, the first \<open>max_codes\<close> codes are scanned.\<close>

lemma limited_offers_take:
  assumes "nscan < max_codes"
  shows "limited_offers (probe_offers sp P dist L) (\<lambda>bound p. probe_size L bound (fst p)) max_codes probes nscan =
    selected_offers sp P dist L (take (max_codes - nscan) (concat (map (probe_codes L) probes)))"
  using assms
proof (induction probes arbitrary: nscan)
  case (Cons p probes)
  let ?c = "probe_codes L p" and ?m = "max_codes - nscan"
  show ?case
  proof (cases "?m \<le> length ?c")
    case True
    then show ?thesis using Cons.prems by (simp add: probe_offers_codes probe_size_codes)
  next
    case False
    then show ?thesis using Cons by (simp add: probe_offers_codes probe_size_codes)
  qed
qed simp

lemma complete_probe_offers:
  assumes "\<And>bound p. ps bound p \<le> length (take bound (probe_codes L p))"
  shows "complete_offers (probe_offers sp P dist L) ps (\<lambda>p. length (probe_codes L p)) (\<lambda>p. selected_offers sp P dist L (probe_codes L p))"
  unfolding complete_offers_def
proof (intro conjI allI impI)
  show "ps bound p \<le> length (probe_codes L p)" for bound p using assms [of bound p] by simp
qed (simp add: probe_offers_codes)

section \<open>Search\<close>

text \<open>
  The selector decides \<open>P\<close> on all entries, and does not come with pairs of list and offset; the lists are sorted where it
  assumes so.
\<close>

definition sel_range :: "id_selector option \<Rightarrow> bool \<Rightarrow> (idx_t \<times> idx_t) option" where
  "sel_range sel assume_sorted = (case sel of Some (Sel_range imin imax) \<Rightarrow> if assume_sorted then Some (imin, imax) else None | _ \<Rightarrow> None)"

definition selects :: "id_selector option \<Rightarrow> bool \<Rightarrow> bool \<Rightarrow> (idx_t \<Rightarrow> bool) \<Rightarrow> entry list list \<Rightarrow> bool" where
  "selects sel assume_sorted store_pairs P L \<longleftrightarrow>
     (sel \<noteq> None \<longrightarrow> \<not> store_pairs) \<and> (\<forall>es \<in> set L. sel_decides sel P es)
     \<and> (sel_range sel assume_sorted \<noteq> None \<longrightarrow> (\<forall>es \<in> set L. sorted (map fst es)))"

definition counted :: "bool \<Rightarrow> bool \<Rightarrow> (idx_t \<Rightarrow> bool) \<Rightarrow> (nat \<Rightarrow> 'd \<Rightarrow> 8 word list \<Rightarrow> 'd) \<Rightarrow> entry list list \<Rightarrow> nat \<Rightarrow> idx_t \<times> 'd \<Rightarrow> nat" where
  "counted ranged sp P dist L bound p = (if ranged then length (probe_offers sp P dist L bound p) else probe_size L bound (fst p))"

lemma counted_le: "counted ranged sp P dist L bound p \<le> length (take bound (probe_codes L p))"
  unfolding counted_def probe_size_codes probe_offers_codes selected_offers_def
  using length_filter_le [of _ "take bound (probe_codes L p)"] by simp

lemma probe_offers_cong:
  assumes "\<forall>es \<in> set L. \<forall>e \<in> set es. P (fst e) = Q (fst e)" "fst p < int (length L)"
  shows "probe_offers sp P dist L bound p = probe_offers sp Q dist L bound p"
proof (cases "fst p < 0")
  case False
  then have "nat (fst p) < length L" using assms(2) by simp
  then have "P (fst (L ! nat (fst p) ! j)) = Q (fst (L ! nat (fst p) ! j))" if "j < probe_size L bound (fst p)" for j
  proof -
    have "j < length (L ! nat (fst p))" using that False by (simp add: probe_size_def)
    then show ?thesis using assms(1) nth_mem [OF \<open>nat (fst p) < length L\<close>] nth_mem by blast
  qed
  then have "filter (\<lambda>j. P (fst (L ! nat (fst p) ! j))) [0..<probe_size L bound (fst p)] =
      filter (\<lambda>j. Q (fst (L ! nat (fst p) ! j))) [0..<probe_size L bound (fst p)]"
    by (intro filter_cong) simp_all
  then show ?thesis using False by (simp add: probe_offers_def list_offers_def)
qed (simp add: probe_offers_def)

lemma scan_offering:
  assumes v: "shows_lists v nlist cs L" and sel: "selects sel assume_sorted sp P L" and keys: "\<forall>p \<in> set probes. fst p < int nlist"
  shows "offering_scan C k (scan_one_list v nlist cs C k (if sel_range sel assume_sorted = None then sel else None)
      (sel_range sel assume_sorted) sp dist) (probe_offers sp P dist L)
      (counted (sel_range sel assume_sorted \<noteq> None) sp P dist L) probes"
  unfolding offering_scan_def
proof (intro ballI allI)
  fix p bound and bh :: "'a list \<times> idx_t list" assume "p \<in> set probes"
  then have p: "fst p < int nlist" using keys by blast
  show "scan_one_list v nlist cs C k (if sel_range sel assume_sorted = None then sel else None)
      (sel_range sel assume_sorted) sp dist (fst p) (snd p) bound bh =
    Inr (offer_all C k (probe_offers sp P dist L bound p) bh, counted (sel_range sel assume_sorted \<noteq> None) sp P dist L bound p)"
  proof (cases "sel_range sel assume_sorted")
    case None
    then show ?thesis using scan_one_list_offers [OF v p, of sel P sp C k dist "snd p" bound bh] sel by (auto simp: selects_def counted_def)
  next
    case (Some r)
    obtain a b where r: "r = (a, b)" by force
    then have s: "sel = Some (Sel_range a b)" using Some by (auto simp: sel_range_def split: option.splits id_selector.splits if_splits)
    have sp: "\<not> sp" and sorted: "\<forall>es \<in> set L. sorted (map fst es)" using sel Some s by (simp_all add: selects_def)
    have "\<forall>es \<in> set L. \<forall>e \<in> set es. (a \<le> fst e \<and> fst e < b) = P (fst e)"
      using sel s by (simp add: selects_def sel_decides_def)
    from probe_offers_cong [OF this, of p] have c:
      "probe_offers sp (\<lambda>i. a \<le> i \<and> i < b) dist L bound p = probe_offers sp P dist L bound p"
      using p v by (simp add: shows_lists_def)
    show ?thesis using scan_one_list_sorted_range [OF v p sorted, of C k a b dist "snd p" bound bh] sp c
      by (simp add: Some r counted_def)
  qed
qed

lemma ivf_comparator_ok: "heap_comparator (ivf_comparator lo hi similarity)"
  by (simp add: ivf_comparator_def cmin.heap_comparator_axioms cmax.heap_comparator_axioms)

definition query_probes :: "nat \<Rightarrow> idx_t list \<Rightarrow> 'd list \<Rightarrow> nat \<Rightarrow> (idx_t \<times> 'd) list" where
  "query_probes nprobe keys coarse_dis i = zip (row nprobe i keys) (row nprobe i coarse_dis)"

lemma length_query_probes:
  assumes "length keys = n * m" "length coarse_dis = n * m" "i < n"
  shows "length (query_probes m keys coarse_dis i) = m"
  using row_end_le [OF assms(3), of m] assms by (simp add: query_probes_def length_row)

lemma query_probes_keys: "p \<in> set (query_probes m keys coarse_dis i) \<Longrightarrow> fst p \<in> set keys"
  by (cases p) (auto simp: query_probes_def row_def dest!: set_zip_leftD in_set_takeD in_set_dropD)

text \<open>The codes of query \<open>i\<close> under the bound: the first ones in the order of the probes.\<close>

definition query_codes :: "entry list list \<Rightarrow> nat \<Rightarrow> (idx_t \<times> 'd) list \<Rightarrow> (nat \<times> 'd \<times> nat) list" where
  "query_codes L max_codes probes =
     (let codes = concat (map (probe_codes L) probes) in if max_codes = 0 then codes else take max_codes codes)"

lemma set_query_codes: "set (query_codes L max_codes probes) \<subseteq> set (concat (map (probe_codes L) probes))"
  unfolding query_codes_def Let_def by (auto dest: in_set_takeD)

definition ivf_nprobe_of :: "'s ivf \<Rightarrow> ivf_params option \<Rightarrow> nat" where
  "ivf_nprobe_of ivf params = min (ivf_nlist ivf) (case params of None \<Rightarrow> ivf_nprobe ivf | Some p \<Rightarrow> ip_nprobe p)"

definition ivf_max_codes_of :: "'s ivf \<Rightarrow> ivf_params option \<Rightarrow> nat" where
  "ivf_max_codes_of ivf params = (case params of None \<Rightarrow> ivf_max_codes ivf | Some p \<Rightarrow> ip_max_codes p)"

definition ivf_sel_of :: "ivf_params option \<Rightarrow> id_selector option" where
  "ivf_sel_of params = (case params of None \<Rightarrow> None | Some p \<Rightarrow> ip_sel p)"

lemma mode_bits:
  assumes "pm \<in> {0, 1, 2, 3 :: int}"
  shows "pm AND mode_no_heap_init = 0" and "pm AND NOT mode_no_heap_init = pm"
  using assms by (auto simp: mode_no_heap_init_def)

text \<open>The guards of \<open>search_preassigned\<close> passed, it runs the mode with one scan per query.\<close>

definition query_scan ::
  "'d \<Rightarrow> 'd \<Rightarrow> 's il_ops \<Rightarrow> ('v, 'd :: linorder) ivf_codec \<Rightarrow> 's ivf \<Rightarrow> nat \<Rightarrow> id_selector option \<Rightarrow> bool \<Rightarrow> bool \<Rightarrow> 'v \<Rightarrow> 'd list_scan" where
  "query_scan lo hi ops cd ivf k sel assume_sorted store_pairs x =
     scan_one_list (il_view_of ops (ivf_invlists ivf)) (ivf_nlist ivf) (ivf_code_size ivf) (ivf_comparator lo hi (ivf_similarity ivf)) k
       (if sel_range sel assume_sorted = None then sel else None) (sel_range sel assume_sorted) store_pairs (ic_distance cd x)"

lemma ivf_search_preassigned_modes:
  assumes "0 < k" "0 < ivf_nprobe_of ivf params" "ivf_parallel_mode ivf \<in> {0, 1, 2, 3}"
    and "ivf_sel_of params \<noteq> None \<longrightarrow> \<not> store_pairs"
    and "ivf_max_codes_of ivf params = 0 \<or> ivf_parallel_mode ivf \<in> {0, 3}"
  shows "ivf_search_preassigned lo hi zero ops cd sch ivf xs k keys coarse_dis store_pairs assume_sorted params tab =
    search_mode (ivf_comparator lo hi (ivf_similarity ivf)) k True (ivf_parallel_mode ivf)
      (\<lambda>i. query_scan lo hi ops cd ivf k (ivf_sel_of params) assume_sorted store_pairs (xs ! i))
      (if ivf_max_codes_of ivf params = 0 then unlimited_list_size else ivf_max_codes_of ivf params) sch (length xs)
      (ivf_nprobe_of ivf params) (query_probes (ivf_nprobe_of ivf params) keys coarse_dis) zero tab"
proof -
  have g: "\<not> (\<not> k > 0)" "\<not> (\<not> ivf_nprobe_of ivf params > 0)"
    "\<not> ((if sel_range (ivf_sel_of params) assume_sorted = None then ivf_sel_of params else None) \<noteq> None \<and> store_pairs)"
    "\<not> (\<not> (ivf_max_codes_of ivf params = 0 \<or> ivf_parallel_mode ivf = 0 \<or> ivf_parallel_mode ivf = 3))"
    using assms by auto
  show ?thesis
    unfolding ivf_search_preassigned_def Let_def ivf_nprobe_of_def [symmetric] ivf_max_codes_of_def [symmetric] ivf_sel_of_def [symmetric]
      sel_range_def [symmetric] mode_bits [OF assms(3)]
    by (simp only: g if_False simp_thms query_scan_def query_probes_def [abs_def])
qed

lemma ivf_search_preassigned_spec:
  fixes ivf :: "'s ivf" and xs :: "'v list" and cd :: "('v, 'd :: linorder) ivf_codec"
  defines "C \<equiv> \<lambda>lo hi. ivf_comparator lo hi (ivf_similarity ivf)"
  assumes lists: "shows_lists (il_view_of ops (ivf_invlists ivf)) (ivf_nlist ivf) (ivf_code_size ivf) L"
    and sel: "selects (ivf_sel_of params) assume_sorted store_pairs P L"
    and k: "0 < k" and m: "m = ivf_nprobe_of ivf params" "0 < m" and mode: "ivf_parallel_mode ivf \<in> {0, 1, 2, 3}"
    and mc: "mc = ivf_max_codes_of ivf params"
      "mc = 0 \<or> ivf_parallel_mode ivf \<in> {0, 3} \<and> sel_range (ivf_sel_of params) assume_sorted = None"
    and fair: "fair_schedule (ivf_parallel_mode ivf) (length xs) m sch"
    and keys: "length keys = length xs * m" "length coarse_dis = length xs * m" "\<forall>key \<in> set keys. key < int (ivf_nlist ivf)"
    and tab: "same_len tab (length xs * k)"
    and total: "\<forall>i < length xs. length (concat (map (probe_codes L) (query_probes m keys coarse_dis i))) < 2 ^ 63 - 1"
    and p: "\<forall>i < length xs. proper_offers (C lo hi) (mset (selected_offers store_pairs P (ic_distance cd (xs ! i)) L
      (query_codes L mc (query_probes m keys coarse_dis i))))"
  shows "\<exists>tab'. ivf_search_preassigned lo hi zero ops cd sch ivf xs k keys coarse_dis store_pairs assume_sorted params tab = Inr tab'
    \<and> same_len tab' (length xs * k)
    \<and> (\<forall>i < length xs. topk_result (C lo hi) k (selected_offers store_pairs P (ic_distance cd (xs ! i)) L
        (query_codes L mc (query_probes m keys coarse_dis i))) (pairs (row2 k i tab')))"
proof -
  let ?C = "C lo hi" and ?pr = "query_probes m keys coarse_dis" and ?ranged = "sel_range (ivf_sel_of params) assume_sorted \<noteq> None"
  let ?dist = "\<lambda>i. ic_distance cd (xs ! i)"
  let ?po = "\<lambda>i. probe_offers store_pairs P (?dist i) L" and ?ps = "\<lambda>i. counted ?ranged store_pairs P (?dist i) L"
  let ?scan = "\<lambda>i. query_scan lo hi ops cd ivf k (ivf_sel_of params) assume_sorted store_pairs (xs ! i)"
  have C: "heap_comparator ?C" unfolding C_def by (rule ivf_comparator_ok)
  have off: "offering_scan ?C k (?scan i) (?po i) (?ps i) (?pr i)" if "i < length xs" for i
    unfolding query_scan_def C_def using keys(3) query_probes_keys by (intro scan_offering [OF lists sel]) fast
  have len: "\<forall>i < length xs. length (?pr i) = m" using length_query_probes [OF keys(1,2)] by blast
  have ok: "ivf_sel_of params \<noteq> None \<longrightarrow> \<not> store_pairs" using sel by (simp add: selects_def)
  have mc': "ivf_max_codes_of ivf params = 0 \<or> ivf_parallel_mode ivf \<in> {0, 3}" using mc by blast
  note run = ivf_search_preassigned_modes [OF k m(2) [unfolded m(1)] mode ok mc', folded m(1) mc(1)]
  show ?thesis
  proof (cases "mc = 0")
    case True
    let ?all = "\<lambda>i p. selected_offers store_pairs P (?dist i) L (probe_codes L p)"
    have all: "concat (map (?all i) (?pr i)) = selected_offers store_pairs P (?dist i) L (query_codes L mc (?pr i))" for i
      unfolding query_codes_def Let_def using True by (simp add: selected_offers_concat comp_def)
    have complete: "\<forall>i < length xs. complete_offers (?po i) (?ps i) (\<lambda>p. length (probe_codes L p)) (?all i)"
      using complete_probe_offers counted_le by blast
    have small: "\<forall>i < length xs. sum_list (map (\<lambda>p. length (probe_codes L p)) (?pr i)) < unlimited_list_size"
      using total by (simp add: length_concat comp_def unlimited_list_size_def)
    have "\<exists>tab'. search_mode ?C k True (ivf_parallel_mode ivf) ?scan unlimited_list_size sch (length xs) m ?pr zero tab = Inr tab'
      \<and> same_len tab' (length xs * k) \<and> (\<forall>i < length xs. topk_result ?C k (concat (map (?all i) (?pr i))) (pairs (row2 k i tab')))"
      by (rule heap_comparator.search_mode_topk [OF C _ len k tab fair mode complete small]) (use off p all in simp_all)
    then show ?thesis unfolding run all using True by (simp add: C_def)
  next
    case False
    have sr: "sel_range (ivf_sel_of params) assume_sorted = None" "ivf_parallel_mode ivf = 0 \<or> ivf_parallel_mode ivf = 3"
      using mc(2) False by auto
    have ps: "?ps i = (\<lambda>bound p. probe_size L bound (fst p))" for i by (simp add: counted_def fun_eq_iff sr(1))
    have lim: "limited_offers (?po i) (\<lambda>bound p. probe_size L bound (fst p)) mc (?pr i) 0 =
        selected_offers store_pairs P (?dist i) L (query_codes L mc (?pr i))" for i
      using limited_offers_take [of 0 mc store_pairs P "?dist i" L "?pr i"] False by (simp add: query_codes_def)
    from heap_comparator.search_mode_0_rows [OF C _ k tab sr(2), of ?scan ?po "\<lambda>_ bound p. probe_size L bound (fst p)" ?pr mc] off p
    show ?thesis unfolding run ps lim using False by (simp add: C_def)
  qed
qed

section \<open>Properties\<close>

text \<open>
  C7. \<open>IndexIVF::search_preassigned\<close> answers every query in every parallel mode (0 to 3) and under every fair schedule of
  the threads: its row is the top \<open>k\<close> of the selected entries of the probed lists, best first and padded, under a bound
  \<open>max_codes\<close> of the selected entries among the first \<open>max_codes\<close> ones. A range of ids in sorted lists may be looked up by
  bisection. Distances are better than the padding and no entry has the id -1.
\<close>

theorem ivf_search_preassigned_topk:
  assumes "shows_lists (il_view_of ops (ivf_invlists ivf)) (ivf_nlist ivf) (ivf_code_size ivf) L"
    and "selects (ivf_sel_of params) assume_sorted store_pairs P L"
    and "0 < k" and "m = ivf_nprobe_of ivf params" "0 < m" and "ivf_parallel_mode ivf \<in> {0, 1, 2, 3}"
    and "mc = ivf_max_codes_of ivf params"
      "mc = 0 \<or> ivf_parallel_mode ivf \<in> {0, 3} \<and> sel_range (ivf_sel_of params) assume_sorted = None"
    and "fair_schedule (ivf_parallel_mode ivf) (length xs) m sch"
    and "length keys = length xs * m" "length coarse_dis = length xs * m" "\<forall>key \<in> set keys. key < int (ivf_nlist ivf)"
    and "same_len tab (length xs * k)"
    and "\<forall>i < length xs. length (concat (map (probe_codes L) (query_probes m keys coarse_dis i))) < 2 ^ 63 - 1"
    and "\<forall>i < length xs. proper_offers (ivf_comparator lo hi (ivf_similarity ivf))
      (mset (selected_offers store_pairs P (ic_distance cd (xs ! i)) L (query_codes L mc (query_probes m keys coarse_dis i))))"
  shows "\<exists>tab'. ivf_search_preassigned lo hi zero ops cd sch ivf xs k keys coarse_dis store_pairs assume_sorted params tab = Inr tab'
    \<and> same_len tab' (length xs * k)
    \<and> (\<forall>i < length xs. topk_result (ivf_comparator lo hi (ivf_similarity ivf)) k
        (selected_offers store_pairs P (ic_distance cd (xs ! i)) L (query_codes L mc (query_probes m keys coarse_dis i)))
        (pairs (row2 k i tab')))"
  using assms by (rule ivf_search_preassigned_spec)

definition small_ivf :: "int \<Rightarrow> array_il ivf" where
  "small_ivf pmode = \<lparr>ivf_nlist = 3, ivf_code_size = 1, ivf_nprobe = 2, ivf_max_codes = 0, ivf_parallel_mode = pmode, ivf_similarity = False,
     ivf_is_trained = True, ivf_invlists = five_entries, ivf_direct_map = dm_new, ivf_ntotal = 5\<rparr>"

definition two_threads :: ivf_schedule where
  "two_threads = \<lparr>sch_scans = (\<lambda>_. [(0, 2), (1, 0), (0, 1), (1, 3)]), sch_merges = (\<lambda>_. [1, 0]), sch_threads = 2\<rparr>"

lemma small_ivf_shows: "shows_lists (il_view_of ail_ops (ivf_invlists (small_ivf pm))) 3 1 [[(1, [1]), (2, [2])], [(3, [3])], [(4, [4]), (5, [5])]]"
proof -
  have "represents (il_view_of ail_ops five_entries) (ail_lists five_entries)" "il_code_size (il_view_of ail_ops five_entries) = 1"
    using ail.view [OF five_entries_ok(1)] ail.code_size [OF five_entries_ok(1)] by simp_all
  then show ?thesis by (simp add: shows_lists_def small_ivf_def five_entries_ok(2))
qed

text \<open>Query 3 probes the lists 0 and 1, query 9 the list 2 and no other.\<close>

theorem ivf_search_preassigned_topk_witness:
  "\<exists>tab'. ivf_search_preassigned (-1000) 1000 0 ail_ops byte_codec two_threads (small_ivf 2) [3, 9] 2 [0, 1, 2, -1] [0, 0, 0, 0]
      False False None ([0, 0, 0, 0], [0, 0, 0, 0]) = Inr tab'
    \<and> topk_result (CMax (-1000) (1000 :: int)) 2 [(2, 1), (1, 2), (0, 3)] (pairs (row2 2 0 tab'))"
proof -
  let ?L = "[[(1, [1]), (2, [2])], [(3, [3])], [(4, [4]), (5, [5])]] :: entry list list"
  let ?pr = "query_probes 2 [0, 1, 2, -1] [0, 0, 0, 0 :: int]"
  have m: "2 = ivf_nprobe_of (small_ivf 2) None" "0 = ivf_max_codes_of (small_ivf 2) None" "ivf_sel_of None = None"
    by (simp_all add: ivf_nprobe_of_def ivf_max_codes_of_def ivf_sel_of_def small_ivf_def)
  have sel: "selects (ivf_sel_of None) False False (\<lambda>_. True) ?L" by (simp add: selects_def sel_decides_def ivf_sel_of_def sel_range_def)
  have fair: "fair_schedule (ivf_parallel_mode (small_ivf 2)) (length [3, 9 :: int]) 2 two_threads"
    by (simp add: fair_schedule_def shares_pairs_def small_ivf_def two_threads_def upt_rec) (simp add: numeral_2_eq_2 numeral_3_eq_3)
  have codes: "query_codes ?L 0 (?pr 0) = [(0, 0, 0), (0, 0, 1), (1, 0, 0)]" "query_codes ?L 0 (?pr 1) = [(2, 0, 0), (2, 0, 1)]"
    by (simp_all add: query_codes_def query_probes_def row_def probe_codes_def upt_rec)
  have offers: "selected_offers False (\<lambda>_. True) (ic_distance byte_codec 3) ?L (query_codes ?L 0 (?pr 0)) = [(2, 1), (1, 2), (0, 3)]"
    "selected_offers False (\<lambda>_. True) (ic_distance byte_codec 9) ?L (query_codes ?L 0 (?pr 1)) = [(5, 4), (4, 5)]"
    unfolding codes by (simp_all add: selected_offers_def byte_codec_def)
  have two: "(\<forall>i < length [3, 9 :: int]. Q i) \<longleftrightarrow> Q 0 \<and> Q 1" for Q by (auto simp: less_Suc_eq)
  have C: "ivf_comparator (-1000) 1000 (ivf_similarity (small_ivf 2)) = CMax (-1000) (1000 :: int)"
    by (simp add: ivf_comparator_def small_ivf_def)
  have "\<exists>tab'. ivf_search_preassigned (-1000) 1000 0 ail_ops byte_codec two_threads (small_ivf 2) [3, 9] 2 [0, 1, 2, -1] [0, 0, 0, 0]
      False False None ([0, 0, 0, 0], [0, 0, 0, 0]) = Inr tab' \<and> same_len tab' (length [3, 9 :: int] * 2)
    \<and> (\<forall>i < length [3, 9 :: int]. topk_result (ivf_comparator (-1000) 1000 (ivf_similarity (small_ivf 2))) 2
        (selected_offers False (\<lambda>_. True) (ic_distance byte_codec ([3, 9] ! i)) ?L (query_codes ?L 0 (?pr i))) (pairs (row2 2 i tab')))"
  proof (rule ivf_search_preassigned_topk [OF _ sel _ m(1) _ _ m(2) _ fair])
    show "\<forall>i < length [3, 9 :: int]. length (concat (map (probe_codes ?L) (?pr i))) < 2 ^ 63 - 1"
      unfolding two by (simp add: query_probes_def row_def probe_codes_def)
    show "\<forall>i < length [3, 9 :: int]. proper_offers (ivf_comparator (-1000) 1000 (ivf_similarity (small_ivf 2)))
      (mset (selected_offers False (\<lambda>_. True) (ic_distance byte_codec ([3, 9] ! i)) ?L (query_codes ?L 0 (?pr i))))"
      unfolding two C using offers by (simp add: proper_offers_def CMax_def)
  qed (use small_ivf_shows in \<open>simp_all add: small_ivf_def same_len_def\<close>)
  then show ?thesis unfolding two C by (auto simp: offers)
qed

end
