(* ===== verification/Index_Ivf_Slices.thy ===== *)
theory Index_Ivf_Slices
  imports Index_Ivf_Search
begin

text \<open>
  \<open>IndexIVF::search\<close>: the coarse search, the slices of the queries that the threads take, and the top k of the probed lists
  as the result.
\<close>

section \<open>Slices of the result tables\<close>

lemma nth_row: "i * k + k \<le> length xs \<Longrightarrow> j < k \<Longrightarrow> row k i xs ! j = xs ! (i * k + j)"
  by (simp add: row_def)

lemma row_overwrite:
  assumes "length ys = (i1 - i0) * k" "i0 \<le> i1" "i1 \<le> n" "length xs = n * k" "i < n"
  shows "row k i (overwrite (i0 * k) ys xs) = (if i0 \<le> i \<and> i < i1 then row k (i - i0) ys else row k i xs)"
proof (rule nth_equalityI)
  have le: "i0 * k + length ys \<le> length xs"
  proof -
    have "i0 * k + length ys = i1 * k" using assms(1,2) by (simp flip: add_mult_distrib)
    then show ?thesis using assms(3,4) by simp
  qed
  note e = row_end_le [OF assms(5), of k]
  have len: "length (overwrite (i0 * k) ys xs) = n * k" using le assms(4) by simp
  have in_row: "(i - i0) * k + k \<le> length ys" if "i0 \<le> i" "i < i1"
    unfolding assms(1) by (rule row_end_le) (use that in simp)
  show "length (row k i (overwrite (i0 * k) ys xs)) = length (if i0 \<le> i \<and> i < i1 then row k (i - i0) ys else row k i xs)"
    using e len in_row assms(4) by (simp add: length_row)
  fix j assume "j < length (row k i (overwrite (i0 * k) ys xs))"
  then have j: "j < k" using e len by (simp add: length_row)
  have at: "row k i (overwrite (i0 * k) ys xs) ! j = overwrite (i0 * k) ys xs ! (i * k + j)"
    using e len j by (simp add: nth_row)
  have at': "overwrite (i0 * k) ys xs ! (i * k + j) =
      (if i0 * k \<le> i * k + j \<and> i * k + j < i0 * k + length ys then ys ! (i * k + j - i0 * k) else xs ! (i * k + j))"
    by (rule nth_overwrite [OF le]) (use e j assms(4) in linarith)
  have i1: "i0 * k + length ys = i1 * k" using assms(1,2) by (simp flip: add_mult_distrib)
  consider "i < i0" | "i0 \<le> i" "i < i1" | "i1 \<le> i" by linarith
  then show "row k i (overwrite (i0 * k) ys xs) ! j = (if i0 \<le> i \<and> i < i1 then row k (i - i0) ys else row k i xs) ! j"
  proof cases
    case 1
    then have "i * k + k \<le> i0 * k" by (rule row_end_le)
    then show ?thesis using 1 j at at' e assms(4) by (simp add: nth_row)
  next
    case 2
    have "i0 * k \<le> i * k" using 2 by simp
    then have "i0 * k \<le> i * k + j" "i * k + k \<le> i1 * k" using 2 row_end_le [of i i1 k] by linarith+
    moreover have "i * k + j - i0 * k = (i - i0) * k + j" using 2 by (simp add: diff_mult_distrib)
    ultimately show ?thesis using 2 j at at' i1 in_row [OF 2] by (simp add: nth_row)
  next
    case 3
    then have "i1 * k \<le> i * k" by simp
    then have "\<not> i * k + j < i1 * k" by linarith
    then show ?thesis using 3 j at at' i1 e assms(4) by (simp add: nth_row)
  qed
qed

lemma row_subrange:
  assumes "i < i1 - i0"
  shows "row k i (subrange (i0 * k) ((i1 - i0) * k) xs) = row k (i0 + i) xs"
proof -
  have "i * k + k \<le> (i1 - i0) * k" using row_end_le [OF assms] .
  then have "k \<le> (i1 - i0) * k - i * k" by linarith
  then show ?thesis by (simp add: row_def subrange_def drop_take add.commute add_mult_distrib min_def)
qed

section \<open>The coarse search\<close>

definition coarse_ok :: "('v, 'd) coarse_quantizer \<Rightarrow> nat \<Rightarrow> nat \<Rightarrow> 'v list \<Rightarrow> bool" where
  "coarse_ok cq m nlist xs \<longleftrightarrow>
     (\<forall>x \<in> set xs. length (fst (cq m x)) = m \<and> length (snd (cq m x)) = m \<and> (\<forall>key \<in> set (snd (cq m x)). key < int nlist))"

lemma row_concat_map:
  assumes "\<forall>x \<in> set xs. length (f x) = m" "i < length xs"
  shows "row m i (concat (map f xs)) = f (xs ! i)"
proof -
  have "all_length m (map f xs)" using assms(1) by (simp add: all_length_def)
  from subrange_concat_all [OF this, of i] show ?thesis using assms(2) by (simp add: row_def subrange_def)
qed

lemma length_concat_map: "\<forall>x \<in> set xs. length (f x) = m \<Longrightarrow> length (concat (map f xs)) = length xs * m"
  by (induction xs) simp_all

lemma coarse_rows_ok:
  assumes "coarse_ok cq m nlist xs" "coarse_rows cq m xs = (coarse_dis, keys)"
  shows "length keys = length xs * m" "length coarse_dis = length xs * m" "\<forall>key \<in> set keys. key < int nlist"
    and "i < length xs \<Longrightarrow> query_probes m keys coarse_dis i = zip (snd (cq m (xs ! i))) (fst (cq m (xs ! i)))"
  using assms length_concat_map [of xs "\<lambda>x. snd (cq m x)" m] length_concat_map [of xs "\<lambda>x. fst (cq m x)" m]
    row_concat_map [of xs "\<lambda>x. snd (cq m x)" m i] row_concat_map [of xs "\<lambda>x. fst (cq m x)" m i]
  by (auto simp: coarse_ok_def coarse_rows_def query_probes_def)

text \<open>The entries among which the answer to a query \<open>x\<close> is sought.\<close>

definition probed_offers ::
  "('v, 'd) ivf_codec \<Rightarrow> ('v, 'd) coarse_quantizer \<Rightarrow> bool \<Rightarrow> (idx_t \<Rightarrow> bool) \<Rightarrow> entry list list \<Rightarrow> nat \<Rightarrow> nat \<Rightarrow> 'v \<Rightarrow> ('d \<times> idx_t) list" where
  "probed_offers cd cq store_pairs P L m mc x =
     selected_offers store_pairs P (ic_distance cd x) L (query_codes L mc (zip (snd (cq m x)) (fst (cq m x))))"

text \<open>What a search needs of the index, the parameters and a list of queries.\<close>

definition ivf_searchable ::
  "'d \<Rightarrow> 'd \<Rightarrow> 's il_ops \<Rightarrow> ('v, 'd :: linorder) ivf_codec \<Rightarrow> ('v, 'd) coarse_quantizer \<Rightarrow> 's ivf \<Rightarrow> ivf_params option \<Rightarrow> bool \<Rightarrow> bool \<Rightarrow>
   (idx_t \<Rightarrow> bool) \<Rightarrow> entry list list \<Rightarrow> 'v list \<Rightarrow> bool" where
  "ivf_searchable lo hi ops cd cq ivf params assume_sorted store_pairs P L xs \<longleftrightarrow>
     (let m = ivf_nprobe_of ivf params; mc = ivf_max_codes_of ivf params in
      shows_lists (il_view_of ops (ivf_invlists ivf)) (ivf_nlist ivf) (ivf_code_size ivf) L
      \<and> selects (ivf_sel_of params) assume_sorted store_pairs P L \<and> 0 < m \<and> ivf_parallel_mode ivf \<in> {0, 1, 2, 3}
      \<and> (mc = 0 \<or> ivf_parallel_mode ivf \<in> {0, 3} \<and> sel_range (ivf_sel_of params) assume_sorted = None)
      \<and> coarse_ok cq m (ivf_nlist ivf) xs
      \<and> (\<forall>x \<in> set xs. length (concat (map (probe_codes L) (zip (snd (cq m x)) (fst (cq m x))))) < 2 ^ 63 - 1
           \<and> proper_offers (ivf_comparator lo hi (ivf_similarity ivf)) (mset (probed_offers cd cq store_pairs P L m mc x))))"

lemma ivf_searchable_subset:
  "ivf_searchable lo hi ops cd cq ivf params assume_sorted store_pairs P L xs \<Longrightarrow> set ys \<subseteq> set xs \<Longrightarrow>
   ivf_searchable lo hi ops cd cq ivf params assume_sorted store_pairs P L ys"
  unfolding ivf_searchable_def Let_def coarse_ok_def by blast

lemma ivf_sub_search_spec:
  fixes ivf :: "'s ivf" and cd :: "('v, 'd :: linorder) ivf_codec" and params :: "ivf_params option"
  defines "m \<equiv> ivf_nprobe_of ivf params"
  assumes ok: "ivf_searchable lo hi ops cd cq ivf params assume_sorted store_pairs P L xs" and k: "0 < k"
    and fair: "fair_schedule (ivf_parallel_mode ivf) (length xs) m sch" and tab: "same_len tab (length xs * k)"
  shows "\<exists>tab'. ivf_sub_search lo hi zero ops cd cq sch ivf k store_pairs assume_sorted params m xs tab = Inr tab'
    \<and> same_len tab' (length xs * k)
    \<and> (\<forall>i < length xs. topk_result (ivf_comparator lo hi (ivf_similarity ivf)) k
        (probed_offers cd cq store_pairs P L m (ivf_max_codes_of ivf params) (xs ! i)) (pairs (row2 k i tab')))"
proof -
  obtain coarse_dis keys where c: "coarse_rows cq m xs = (coarse_dis, keys)" by force
  have ok': "shows_lists (il_view_of ops (ivf_invlists ivf)) (ivf_nlist ivf) (ivf_code_size ivf) L"
    "selects (ivf_sel_of params) assume_sorted store_pairs P L" "0 < m" "ivf_parallel_mode ivf \<in> {0, 1, 2, 3}"
    "ivf_max_codes_of ivf params = 0 \<or> ivf_parallel_mode ivf \<in> {0, 3} \<and> sel_range (ivf_sel_of params) assume_sorted = None"
    "coarse_ok cq m (ivf_nlist ivf) xs"
    "\<forall>x \<in> set xs. length (concat (map (probe_codes L) (zip (snd (cq m x)) (fst (cq m x))))) < 2 ^ 63 - 1
      \<and> proper_offers (ivf_comparator lo hi (ivf_similarity ivf)) (mset (probed_offers cd cq store_pairs P L m (ivf_max_codes_of ivf params) x))"
    using ok by (simp_all add: ivf_searchable_def Let_def m_def)
  note rows = coarse_rows_ok [OF ok'(6) c]
  have offers: "selected_offers store_pairs P (ic_distance cd (xs ! i)) L (query_codes L (ivf_max_codes_of ivf params) (query_probes m keys coarse_dis i)) =
      probed_offers cd cq store_pairs P L m (ivf_max_codes_of ivf params) (xs ! i)" if "i < length xs" for i
    using rows(4) [OF that] by (simp add: probed_offers_def)
  have "\<exists>tab'. ivf_search_preassigned lo hi zero ops cd sch ivf xs k keys coarse_dis store_pairs assume_sorted params tab = Inr tab'
    \<and> same_len tab' (length xs * k)
    \<and> (\<forall>i < length xs. topk_result (ivf_comparator lo hi (ivf_similarity ivf)) k
        (selected_offers store_pairs P (ic_distance cd (xs ! i)) L (query_codes L (ivf_max_codes_of ivf params) (query_probes m keys coarse_dis i)))
        (pairs (row2 k i tab')))"
    by (rule ivf_search_preassigned_spec [OF ok'(1,2) k meta_eq_to_obj_eq [OF m_def] ok'(3,4) refl ok'(5) fair rows(1-3) tab])
      (use ok'(7) rows(4) offers in \<open>auto\<close>)
  then show ?thesis using offers by (auto simp: ivf_sub_search_def c)
qed

section \<open>All slices\<close>

lemma slice_end_le: "part < nt \<Longrightarrow> n * part div nt \<le> n * (part + 1) div nt \<and> n * (part + 1) div nt \<le> (n :: nat)"
proof -
  assume p: "part < nt"
  have "n * part \<le> n * (part + 1)" by simp
  then have "n * part div nt \<le> n * (part + 1) div nt" by (rule div_le_mono)
  moreover have "n * (part + 1) \<le> n * nt" using p by (intro mult_le_mono2) simp
  then have "n * (part + 1) div nt \<le> n * nt div nt" by (rule div_le_mono)
  ultimately show ?thesis using p by simp
qed

lemma search_slices_rows:
  assumes sub: "\<And>i0 i1 tab. i0 \<le> i1 \<Longrightarrow> i1 \<le> length xs \<Longrightarrow> same_len tab ((i1 - i0) * k) \<Longrightarrow>
      \<exists>tab'. sub (subrange i0 (i1 - i0) xs) tab = Inr tab' \<and> same_len tab' ((i1 - i0) * k)
        \<and> (\<forall>i < i1 - i0. Q (xs ! (i0 + i)) (row2 k i tab'))"
    and tab: "same_len tab (length xs * k)" and nt: "0 < nt"
  shows "\<exists>tab'. fold_result (search_slice sub k nt xs) [0..<nt] tab = Inr tab' \<and> same_len tab' (length xs * k)
    \<and> (\<forall>i < length xs. Q (xs ! i) (row2 k i tab'))"
proof -
  let ?n = "length xs"
  have "\<exists>tab'. fold_result (search_slice sub k nt xs) [0..<part] tab = Inr tab' \<and> same_len tab' (?n * k)
      \<and> (\<forall>i < ?n * part div nt. Q (xs ! i) (row2 k i tab'))" if "part \<le> nt" for part
    using that
  proof (induction part)
    case 0
    then show ?case using tab by simp
  next
    case (Suc part)
    then obtain t where t: "fold_result (search_slice sub k nt xs) [0..<part] tab = Inr t" "same_len t (?n * k)"
      "\<forall>i < ?n * part div nt. Q (xs ! i) (row2 k i t)" by auto
    define i0 i1 where "i0 = ?n * part div nt" and "i1 = ?n * (part + 1) div nt"
    have i: "i0 \<le> i1" "i1 \<le> ?n" using slice_end_le [of part nt ?n] Suc.prems by (simp_all add: i0_def i1_def)
    have next_step: "fold_result (search_slice sub k nt xs) [0..<Suc part] tab = search_slice sub k nt xs part t"
      unfolding upt_Suc_append [OF le0] fold_result_snoc t(1) bind_result.simps by (rule refl)
    have i1': "?n * Suc part div nt = i1" by (simp add: i1_def)
    show ?case
    proof (cases "i0 < i1")
      case False
      then have "search_slice sub k nt xs part t = Inr t" by (simp add: search_slice_def Let_def i0_def i1_def)
      then show ?thesis unfolding next_step i1' using t(2,3) False i by (simp add: i0_def)
    next
      case True
      let ?t = "(subrange (i0 * k) ((i1 - i0) * k) (fst t), subrange (i0 * k) ((i1 - i0) * k) (snd t))"
      have le: "i0 * k + (i1 - i0) * k \<le> ?n * k" using i by (simp flip: add_mult_distrib)
      have "same_len ?t ((i1 - i0) * k)" using t(2) le by (simp add: same_len_def subrange_def)
      from sub [OF i this] obtain D I where r: "sub (subrange i0 (i1 - i0) xs) ?t = Inr (D, I)" "same_len (D, I) ((i1 - i0) * k)"
        "\<forall>i < i1 - i0. Q (xs ! (i0 + i)) (row2 k i (D, I))" by (metis surj_pair)
      let ?t' = "(overwrite (i0 * k) D (fst t), overwrite (i0 * k) I (snd t))"
      have s: "search_slice sub k nt xs part t = Inr ?t'"
        using True r(1) by (simp add: search_slice_def Let_def i0_def [symmetric] i1_def [symmetric] del: add_Suc_right One_nat_def)
      have len: "length D = (i1 - i0) * k" "length I = (i1 - i0) * k" "length (fst t) = ?n * k" "length (snd t) = ?n * k"
        using r(2) t(2) by (simp_all add: same_len_def)
      have sl: "same_len ?t' (?n * k)" using le len by (simp add: same_len_def)
      have rows: "row2 k j ?t' = (if i0 \<le> j then row2 k (j - i0) (D, I) else row2 k j t)" if "j < i1" for j
        using row_overwrite [OF len(1) i(1,2) len(3)] row_overwrite [OF len(2) i(1,2) len(4)] that i by (simp add: row2_def)
      have "Q (xs ! j) (row2 k j ?t')" if j: "j < i1" for j
      proof (cases "i0 \<le> j")
        case True
        then have "Q (xs ! (i0 + (j - i0))) (row2 k (j - i0) (D, I))" using r(3) j by (intro r(3) [rule_format]) simp
        then show ?thesis using True rows [OF j] by simp
      next
        case False
        then show ?thesis using t(3) rows [OF j] by (simp add: i0_def)
      qed
      then show ?thesis unfolding next_step i1' using s sl by blast
    qed
  qed
  from this [OF order_refl] show ?thesis using nt by simp
qed

lemma ivf_search_spec:
  assumes ok: "ivf_searchable lo hi ops cd cq ivf params assume_sorted False P L xs" and k: "0 < k" and threads: "0 < max_threads"
    and fair: "fair_schedule (ivf_parallel_mode ivf) (length xs) (ivf_nprobe_of ivf params) sch" and tab: "same_len tab (length xs * k)"
  shows "\<exists>tab'. ivf_search lo hi zero ops cd cq sch max_threads ivf xs k assume_sorted params tab = Inr tab'
    \<and> same_len tab' (length xs * k)
    \<and> (\<forall>i < length xs. topk_result (ivf_comparator lo hi (ivf_similarity ivf)) k
        (probed_offers cd cq False P L (ivf_nprobe_of ivf params) (ivf_max_codes_of ivf params) (xs ! i)) (pairs (row2 k i tab')))"
proof -
  let ?m = "ivf_nprobe_of ivf params" and ?C = "ivf_comparator lo hi (ivf_similarity ivf)"
  let ?sub = "ivf_sub_search lo hi zero ops cd cq sch ivf k False assume_sorted params ?m"
  let ?Q = "\<lambda>x bh. topk_result ?C k (probed_offers cd cq False P L ?m (ivf_max_codes_of ivf params) x) (pairs bh)"
  have m: "0 < ?m" "ivf_parallel_mode ivf \<in> {0, 1, 2, 3}" using ok by (simp_all add: ivf_searchable_def Let_def)
  have g: "\<not> (\<not> k > 0)" "\<not> (\<not> ?m > 0)" using k m by simp_all
  have run: "ivf_search lo hi zero ops cd cq sch max_threads ivf xs k assume_sorted params tab =
      (if ivf_parallel_mode ivf = 0 then fold_result (search_slice ?sub k (min max_threads (length xs)) xs) [0..<min max_threads (length xs)] tab
       else ?sub xs tab)"
    unfolding ivf_search_def Let_def ivf_nprobe_of_def [symmetric] mode_bits(2) [OF m(2)] by (simp only: g if_False)
  show ?thesis
  proof (cases "ivf_parallel_mode ivf = 0")
    case False
    then show ?thesis unfolding run using ivf_sub_search_spec [OF ok k fair tab] by simp
  next
    case True
    have fair0: "fair_schedule (ivf_parallel_mode ivf) n ?m sch" for n using True by (simp add: fair_schedule_def)
    show ?thesis
    proof (cases "xs = []")
      case True
      then show ?thesis unfolding run using tab \<open>ivf_parallel_mode ivf = 0\<close> by simp
    next
      case False
      have "\<exists>tab'. fold_result (search_slice ?sub k (min max_threads (length xs)) xs) [0..<min max_threads (length xs)] tab = Inr tab'
          \<and> same_len tab' (length xs * k) \<and> (\<forall>i < length xs. ?Q (xs ! i) (row2 k i tab'))"
      proof (rule search_slices_rows [OF _ tab])
        fix i0 i1 and t :: "'a list \<times> idx_t list" assume i: "i0 \<le> i1" "i1 \<le> length xs" and t: "same_len t ((i1 - i0) * k)"
        let ?ys = "subrange i0 (i1 - i0) xs"
        have "set ?ys \<subseteq> set xs" by (auto simp: subrange_def dest: in_set_takeD in_set_dropD)
        then have ys: "ivf_searchable lo hi ops cd cq ivf params assume_sorted False P L ?ys" using ivf_searchable_subset [OF ok] by blast
        have len: "length ?ys = i1 - i0" "\<forall>i < i1 - i0. ?ys ! i = xs ! (i0 + i)" using i by (simp_all add: subrange_def)
        from ivf_sub_search_spec [OF ys k fair0, of t zero] t len
        show "\<exists>tab'. ?sub ?ys t = Inr tab' \<and> same_len tab' ((i1 - i0) * k) \<and> (\<forall>i < i1 - i0. ?Q (xs ! (i0 + i)) (row2 k i tab'))"
          by simp
      qed (use threads False in simp)
      then show ?thesis unfolding run using True by simp
    qed
  qed
qed

section \<open>Properties\<close>

text \<open>
  C5. \<open>IndexIVF::search\<close>: in every parallel mode, for any number of threads and under every fair schedule, the row of a query
  is the top \<open>k\<close> of the selected entries of the lists that the coarse quantizer returns for it.
\<close>

theorem ivf_search_topk:
  assumes ok: "ivf_searchable lo hi ops cd cq ivf params assume_sorted False P L xs" and k: "0 < k" and threads: "0 < max_threads"
    and fair: "fair_schedule (ivf_parallel_mode ivf) (length xs) (ivf_nprobe_of ivf params) sch" and tab: "same_len tab (length xs * k)"
  shows "\<exists>tab'. ivf_search lo hi zero ops cd cq sch max_threads ivf xs k assume_sorted params tab = Inr tab'
    \<and> same_len tab' (length xs * k)
    \<and> (\<forall>i < length xs. topk_result (ivf_comparator lo hi (ivf_similarity ivf)) k
        (probed_offers cd cq False P L (ivf_nprobe_of ivf params) (ivf_max_codes_of ivf params) (xs ! i)) (pairs (row2 k i tab')))"
  using assms by (rule ivf_search_spec)

text \<open>Two queries, two threads, two of three lists; the ids are restricted to less than 4.\<close>

definition small_params :: ivf_params where
  "small_params = \<lparr>ip_nprobe = 2, ip_max_codes = 0, ip_sel = Some (Sel_range 0 4)\<rparr>"

definition two_lists :: "(int, int) coarse_quantizer" where
  "two_lists k x = (replicate k 0, take k [x mod 3, (x + 1) mod 3, (x + 2) mod 3])"

theorem ivf_search_topk_witness:
  "\<exists>tab'. ivf_search (-1000) 1000 0 ail_ops byte_codec two_lists two_threads 2 (small_ivf 0) [3, 10] 2 True (Some small_params)
      ([0, 0, 0, 0], [0, 0, 0, 0]) = Inr tab'
    \<and> topk_result (CMax (-1000) (1000 :: int)) 2 [(7, 3)] (pairs (row2 2 1 tab'))"
proof -
  let ?L = "[[(1, [1]), (2, [2])], [(3, [3])], [(4, [4]), (5, [5])]] :: entry list list" and ?P = "\<lambda>i. 0 \<le> i \<and> i < (4 :: int)"
  have m: "ivf_nprobe_of (small_ivf 0) (Some small_params) = 2" "ivf_max_codes_of (small_ivf 0) (Some small_params) = 0"
    "ivf_sel_of (Some small_params) = Some (Sel_range 0 4)" "ivf_parallel_mode (small_ivf 0) = 0"
    by (simp_all add: ivf_nprobe_of_def ivf_max_codes_of_def ivf_sel_of_def small_ivf_def small_params_def)
  have s: "selects (Some (Sel_range 0 4)) True False ?P ?L" by (simp add: selects_def sel_decides_def sel_range_def)
  have q: "snd (two_lists 2 3) = [0, 1]" "snd (two_lists 2 10) = [1, 2]" "fst (two_lists 2 x) = [0, 0]" for x
    by (simp_all add: two_lists_def numeral_2_eq_2)
  have o': "probed_offers byte_codec two_lists False ?P ?L 2 0 3 = [(2, 1), (1, 2), (0, 3)]"
    "probed_offers byte_codec two_lists False ?P ?L 2 0 10 = [(7, 3)]"
    unfolding probed_offers_def q by (simp_all add: query_codes_def probe_codes_def selected_offers_def byte_codec_def upt_rec)
  have C: "ivf_comparator (-1000) 1000 (ivf_similarity (small_ivf 0)) = CMax (-1000) (1000 :: int)"
    by (simp add: ivf_comparator_def small_ivf_def)
  have "coarse_ok two_lists 2 3 [3, 10]" by (simp add: coarse_ok_def q)
  moreover have "shows_lists (il_view_of ail_ops (ivf_invlists (small_ivf 0))) (ivf_nlist (small_ivf 0)) (ivf_code_size (small_ivf 0)) ?L"
    using small_ivf_shows by (simp add: small_ivf_def)
  moreover have "ivf_nlist (small_ivf 0) = 3" by (simp add: small_ivf_def)
  ultimately have ok: "ivf_searchable (-1000) 1000 ail_ops byte_codec two_lists (small_ivf 0) (Some small_params) True False ?P ?L [3, 10]"
    using s unfolding ivf_searchable_def Let_def m C
    by (simp add: o' q probe_codes_def) (simp add: proper_offers_def CMax_def)
  from ivf_search_topk [OF ok, of 2 2 two_threads "([0, 0, 0, 0], [0, 0, 0, 0])" 0] obtain tab' where
    "ivf_search (-1000) 1000 0 ail_ops byte_codec two_lists two_threads 2 (small_ivf 0) [3, 10] 2 True (Some small_params)
      ([0, 0, 0, 0], [0, 0, 0, 0]) = Inr tab'"
    "\<forall>i < length [3, 10 :: int]. topk_result (CMax (-1000) 1000) 2 (probed_offers byte_codec two_lists False ?P ?L 2 0 ([3, 10] ! i)) (pairs (row2 2 i tab'))"
    unfolding m C by (auto simp: fair_schedule_def same_len_def)
  then show ?thesis using o'(2) by force
qed

end
