(* ===== verification/Index_Ivf_Exhaustive.thy ===== *)
theory Index_Ivf_Exhaustive
  imports Index_Ivf_Slices Index_Hnsw_Search
begin

text \<open>
  An \<open>IndexIVFFlat\<close> whose queries probe all lists reports the distances of the flat index over the same vectors.
\<close>

lemma selected_offers_flat:
  assumes "length dis = length keys" "\<forall>key \<in> set keys. 0 \<le> key"
  shows "selected_offers False (\<lambda>_. True) (ic_distance (ivf_flat_codec vd) x) L (concat (map (probe_codes L) (zip keys dis))) =
    concat (map (\<lambda>key. map (\<lambda>e. (vd x (snd e), fst e)) (L ! nat key)) keys)"
  using assms
proof (induction keys dis rule: list_induct2')
  case (4 key keys d dis)
  have "selected_offers False (\<lambda>_. True) (ic_distance (ivf_flat_codec vd) x) L (probe_codes L (key, d)) =
      map (\<lambda>e. (vd x (snd e), fst e)) (L ! nat key)"
    using "4.prems" by (intro nth_equalityI) (simp_all add: selected_offers_def probe_codes_def ivf_flat_codec_def)
  then show ?case using 4 by simp
qed simp_all

lemma exhaustive_offers:
  assumes "length (fst (cq n x)) = length (snd (cq n x))" "mset (snd (cq n x)) = mset (map int [0..<n])" "length L = n"
  shows "mset (probed_offers (ivf_flat_codec vd) cq False (\<lambda>_. True) L n 0 x) = mset (map (\<lambda>e. (vd x (snd e), fst e)) (concat L))"
proof -
  let ?f = "\<lambda>key. map (\<lambda>e. (vd x (snd e), fst e)) (L ! nat key)"
  have "\<forall>key \<in> set (snd (cq n x)). 0 \<le> key" using mset_eq_setD [OF assms(2)] by auto
  then have "probed_offers (ivf_flat_codec vd) cq False (\<lambda>_. True) L n 0 x = concat (map ?f (snd (cq n x)))"
    using selected_offers_flat [of "fst (cq n x)" "snd (cq n x)"] assms(1) by (simp add: probed_offers_def query_codes_def)
  then have "mset (probed_offers (ivf_flat_codec vd) cq False (\<lambda>_. True) L n 0 x) = mset (concat (map ?f (map int [0..<n])))"
    using mset_concat_cong [OF assms(2), of ?f] by simp
  also have "map ?f (map int [0..<n]) = map (map (\<lambda>e. (vd x (snd e), fst e))) L"
    using assms(3) by (intro nth_equalityI) simp_all
  finally show ?thesis by (simp add: map_concat)
qed

text \<open>The lists hold the vectors of the flat index, each once, under its number.\<close>

definition holds_vectors :: "entry list list \<Rightarrow> 8 word list list \<Rightarrow> bool" where
  "holds_vectors L vecs \<longleftrightarrow> mset (concat L) = mset (map (\<lambda>i. (int i, vecs ! i)) [0..<length vecs])"

text \<open>
  C9. \<open>IndexIVFFlat\<close> (L2) with \<open>nprobe = nlist\<close>, in any parallel mode and for any number of threads, reports the same
  distances as the exhaustive search of \<open>IndexFlat\<close> over the same vectors, for whatever order the quantizer
  returns the lists in.
\<close>

theorem ivf_exhaustive_is_flat:
  fixes ivf :: "'s ivf" and vd :: "8 word list \<Rightarrow> 8 word list \<Rightarrow> 'd :: linorder"
  assumes ok: "ivf_searchable lo hi ops (ivf_flat_codec vd) cq ivf None False False (\<lambda>_. True) L xs" and k: "0 < k" "0 < max_threads"
    and fair: "fair_schedule (ivf_parallel_mode ivf) (length xs) (ivf_nlist ivf) sch"
    and all: "ivf_nlist ivf \<le> ivf_nprobe ivf" "ivf_max_codes ivf = 0" "\<not> ivf_similarity ivf"
      "\<forall>x \<in> set xs. mset (snd (cq (ivf_nlist ivf) x)) = mset (map int [0..<ivf_nlist ivf])"
    and flat: "fc_ok cs s" "holds_vectors L (fc_vecs flat_codec s)"
    and d: "\<forall>x \<in> set xs. \<forall>v \<in> set (fc_vecs flat_codec s). vd x v < hi"
    and tab: "length D = length xs * k" "length I = length xs * k" "length E = length xs * k" "length J = length xs * k"
  shows "\<exists>D' I' J'. ivf_search lo hi zero ops (ivf_flat_codec vd) cq sch max_threads ivf xs k False None (D, I) = Inr (D', I')
    \<and> fc_search_rows (CMax lo hi) k flat_codec vd s None 0 xs (E, J) = Inr (D', J')"
proof -
  let ?n = "ivf_nlist ivf" and ?vecs = "fc_vecs flat_codec s"
  have m: "ivf_nprobe_of ivf None = ?n" "ivf_max_codes_of ivf None = 0" "ivf_comparator lo hi (ivf_similarity ivf) = CMax lo hi"
    using all by (simp_all add: ivf_nprobe_of_def ivf_max_codes_of_def ivf_comparator_def)
  have sl: "same_len (D, I) (length xs * k)" "same_len (E, J) (length xs * k)" using tab by (simp_all add: same_len_def)
  obtain t where t: "ivf_search lo hi zero ops (ivf_flat_codec vd) cq sch max_threads ivf xs k False None (D, I) = Inr t"
    "same_len t (length xs * k)"
    "\<forall>i < length xs. topk_result (CMax lo hi) k (probed_offers (ivf_flat_codec vd) cq False (\<lambda>_. True) L ?n 0 (xs ! i)) (pairs (row2 k i t))"
    using ivf_search_spec [OF ok k, unfolded m, OF fair sl(1), of zero] by blast
  have "\<forall>i < fc_ntotal s. can_ask None (int i)" by (simp add: can_ask_def)
  moreover have c: "\<forall>x \<in> set xs. \<forall>v \<in> set ?vecs. cmp (CMax lo hi) (neutral (CMax lo hi)) (vd x v)" using d by (simp add: CMax_def)
  ultimately obtain t' where t': "fc_search_rows (CMax lo hi) k flat_codec vd s None 0 xs (E, J) = Inr t'" "same_len t' (length xs * k)"
    "\<forall>j < length xs. topk_result (CMax lo hi) k (map (\<lambda>i. (vd (xs ! j) (?vecs ! i), int i)) [0..<fc_ntotal s]) (pairs (row2 k j t'))"
    using fc_search_rows_spec [OF is_trait_CMax flat(1) _ k(1) _ _ c, of None "(E, J)" "length xs" 0] sl(2) by (auto simp: wanted_def)
  have "row k j (fst t) = row k j (fst t')" if j: "j < length xs" for j
  proof -
    let ?os = "probed_offers (ivf_flat_codec vd) cq False (\<lambda>_. True) L ?n 0 (xs ! j)"
      and ?qs = "map (\<lambda>i. (vd (xs ! j) (?vecs ! i), int i)) [0..<fc_ntotal s]"
    have x: "xs ! j \<in> set xs" using j by simp
    have "length L = ?n" "coarse_ok cq ?n ?n xs" using ok by (simp_all add: ivf_searchable_def Let_def m shows_lists_def)
    then have "mset ?os = mset (map (\<lambda>e. (vd (xs ! j) (snd e), fst e)) (concat L))"
      using all(4) x by (intro exhaustive_offers) (simp_all add: coarse_ok_def)
    also have "\<dots> = image_mset (\<lambda>e. (vd (xs ! j) (snd e), fst e)) (mset (concat L))" by simp
    also have "\<dots> = mset ?qs" using flat(2) by (simp add: holds_vectors_def image_mset.compositionality comp_def)
    finally have e: "mset ?os = mset ?qs" .
    then have "length ?os = length ?qs" by (rule mset_eq_length)
    then have "map fst (pairs (row2 k j t)) = map fst (pairs (row2 k j t'))"
      using topk_distances [OF t(3) [rule_format, OF j]] topk_distances [OF t'(3) [rule_format, OF j]] e by simp
    moreover have "same_len (row2 k j t) k" "same_len (row2 k j t') k" using same_len_row2 [OF _ j] t(2) t'(2) by blast+
    ultimately show ?thesis by (simp add: pairs_def same_len_def row2_def)
  qed
  then have "fst t = fst t'" using rows_determine [of "fst t" "length xs" k "fst t'"] t(2) t'(2) by (simp add: same_len_def)
  then show ?thesis using t(1) t'(1) by (metis prod.collapse)
qed

text \<open>Two lists, two threads that share the probes of a query (mode 1); the second query wants its farther list first.\<close>

definition lists_312 :: array_il where
  "lists_312 = \<lparr>ail_nlist = 2, ail_code_size = 1, ail_codes = [[1], [3, 2]], ail_ids = [[1], [0, 2]]\<rparr>"

definition ivf_312 :: "array_il ivf" where
  "ivf_312 = \<lparr>ivf_nlist = 2, ivf_code_size = 1, ivf_nprobe = 2, ivf_max_codes = 0, ivf_parallel_mode = 1, ivf_similarity = False,
     ivf_is_trained = True, ivf_invlists = lists_312, ivf_direct_map = dm_new, ivf_ntotal = 3\<rparr>"

definition probes_shared :: ivf_schedule where
  "probes_shared = \<lparr>sch_scans = (\<lambda>_. [(1, 1), (0, 0)]), sch_merges = (\<lambda>_. [1, 0]), sch_threads = 2\<rparr>"

definition both_lists :: "(8 word list, int) coarse_quantizer" where
  "both_lists k x = (replicate k 0, take k (if x = [2] then [0, 1] else [1, 0]))"

lemma lists_312_ok: "ail_ok 1 lists_312" "ail_lists lists_312 = [[(1, [1])], [(0, [3]), (2, [2])]]"
  by (simp add: ail_ok_def lists_312_def less_Suc_eq numeral_2_eq_2) code_simp

theorem ivf_exhaustive_is_flat_witness:
  "\<exists>D' I' J'. ivf_search 0 1000 0 ail_ops (ivf_flat_codec byte_distance) both_lists probes_shared 4 ivf_312 [[2], [9]] 2 False None
      ([0, 0, 0, 0], [0, 0, 0, 0]) = Inr (D', I')
    \<and> fc_search_rows (CMax 0 1000) 2 flat_codec byte_distance bytes_312 None 0 [[2], [9]] ([0, 0, 0, 0], [0, 0, 0, 0]) = Inr (D', J')"
proof -
  let ?L = "[[(1, [1])], [(0, [3]), (2, [2])]] :: entry list list"
  have m: "ivf_nprobe_of ivf_312 None = 2" "ivf_max_codes_of ivf_312 None = 0" "ivf_sel_of None = None" "ivf_parallel_mode ivf_312 = 1"
    "ivf_nlist ivf_312 = 2" "ivf_nlist ivf_312 \<le> ivf_nprobe ivf_312" "ivf_max_codes ivf_312 = 0" "\<not> ivf_similarity ivf_312"
    by (simp_all add: ivf_nprobe_of_def ivf_max_codes_of_def ivf_sel_of_def ivf_312_def)
  have C: "ivf_comparator 0 1000 (ivf_similarity ivf_312) = CMax 0 (1000 :: int)" by (simp add: ivf_comparator_def m(8))
  have ne: "([9 :: 8 word] = [2]) = False" by simp
  have q: "snd (both_lists 2 [2]) = [0, 1]" "snd (both_lists 2 [9]) = [1, 0]" "fst (both_lists 2 x) = [0, 0]" for x
    unfolding both_lists_def using ne by (simp_all only: refl if_False if_True snd_conv fst_conv) (simp_all add: numeral_2_eq_2)
  have o': "probed_offers (ivf_flat_codec byte_distance) both_lists False (\<lambda>_. True) ?L 2 0 [2] = [(1, 1), (1, 0), (0, 2)]"
    "probed_offers (ivf_flat_codec byte_distance) both_lists False (\<lambda>_. True) ?L 2 0 [9] = [(6, 0), (7, 2), (8, 1)]"
    unfolding probed_offers_def q
    by (simp_all add: query_codes_def probe_codes_def selected_offers_def ivf_flat_codec_def byte_distance_def upt_rec)
  have v: "shows_lists (il_view_of ail_ops (ivf_invlists ivf_312)) 2 (ivf_code_size ivf_312) ?L"
    using ail.view [OF lists_312_ok(1)] ail.code_size [OF lists_312_ok(1)] by (simp add: shows_lists_def ivf_312_def lists_312_ok(2))
  have "coarse_ok both_lists 2 2 [[2], [9]]" by (simp add: coarse_ok_def q)
  then have ok: "ivf_searchable 0 1000 ail_ops (ivf_flat_codec byte_distance) both_lists ivf_312 None False False (\<lambda>_. True) ?L [[2], [9]]"
    using v unfolding ivf_searchable_def Let_def m C
    by (simp add: o' q probe_codes_def selects_def sel_decides_def sel_range_def) (simp add: proper_offers_def CMax_def)
  have fair: "fair_schedule (ivf_parallel_mode ivf_312) (length [[2], [9 :: 8 word]]) (ivf_nlist ivf_312) probes_shared"
    unfolding m by (simp add: fair_schedule_def shares_probes_def probes_shared_def upt_rec numeral_2_eq_2)
  have perm: "\<forall>x \<in> set [[2], [9]]. mset (snd (both_lists (ivf_nlist ivf_312) x)) = mset (map int [0..<ivf_nlist ivf_312])"
    unfolding m by (simp add: q upt_rec)
  have h: "holds_vectors ?L (fc_vecs flat_codec bytes_312)" by (simp add: holds_vectors_def bytes_312_ok upt_rec)
  have d: "\<forall>x \<in> set [[2], [9]]. \<forall>v \<in> set (fc_vecs flat_codec bytes_312). byte_distance x v < 1000"
    by (simp add: bytes_312_ok byte_distance_def)
  show ?thesis
    by (rule ivf_exhaustive_is_flat [OF ok _ _ fair m(6-8) perm bytes_312_ok(1) h d]) simp_all
qed

end
