(* ===== verification/Index_Ivf_Limits.thy ===== *)
theory Index_Ivf_Limits
  imports Index_Ivf_Slices
begin

text \<open>
  What the searches of \<open>IndexIVF\<close> do outside their contract: a range of sorted ids with stored pairs, and
  \<open>PARALLEL_MODE_NO_HEAP_INIT\<close> with threads that have heaps of their own.
\<close>

lemma scan_list_0:
  "scan_one_list (il_view_of ail_ops (ivf_invlists (small_ivf pm))) 3 1 C k None None False dist 0 cd unlimited_list_size bh =
    Inr (offer_all C k [(dist 0 cd [1], 1), (dist 0 cd [2], 2)] bh, 2)"
proof -
  have s: "\<forall>es \<in> set [[(1, [1]), (2, [2])], [(3, [3])], [(4, [4]), (5, [5 :: 8 word])]]. sel_decides None (\<lambda>_. True) (es :: entry list)"
    by (simp add: sel_decides_def)
  have o': "probe_offers False (\<lambda>_. True) dist [[(1, [1]), (2, [2])], [(3, [3])], [(4, [4]), (5, [5])]] unlimited_list_size (0, cd) =
      [(dist 0 cd [1], 1), (dist 0 cd [2], 2)]"
    "probe_size [[(1, [1]), (2, [2])], [(3, [3])], [(4, [4]), (5, [5])]] unlimited_list_size 0 = 2"
    by (simp_all add: probe_offers_def probe_size_def list_offers_def unlimited_list_size_def upt_rec)
  show ?thesis
    using scan_one_list_offers [OF small_ivf_shows [of pm] _ s, of 0 False C k dist cd unlimited_list_size bh] by (simp add: o')
qed

text \<open>
  A range of ids with \<open>assume_sorted\<close> is not stopped by the check that refuses selectors together with
  \<open>store_pairs\<close>: the bisection then reads the ids through a null pointer, so \<open>search_and_reconstruct\<close> and
  \<open>search_and_return_codes\<close> with such a selector fail. Without \<open>assume_sorted\<close> they throw.
\<close>

theorem sorted_range_with_pairs_reads_null:
  "ivf_search_preassigned (-1000) 1000 0 ail_ops byte_codec two_threads (small_ivf 0) [3] 2 [0, 1] [0, 0] True True (Some small_params)
      ([0, 0], [0, 0]) = Inl Null_pointer
   \<and> ivf_search_and_reconstruct (-1000) 1000 0 ail_ops byte_codec two_lists two_threads 0 (small_ivf 0) [3] 2 True (Some small_params) [0, 0]
      ([0, 0], [0, 0]) = Inl Null_pointer
   \<and> ivf_search_preassigned (-1000) 1000 0 ail_ops byte_codec two_threads (small_ivf 0) [3] 2 [0, 1] [0, 0] True False (Some small_params)
      ([0, 0], [0, 0]) = Inl (Throw ''selector and store_pairs cannot be combined'')"
proof -
  have i: "ivf_invlists (small_ivf 0) = five_entries" "ivf_nlist (small_ivf 0) = 3" "ivf_code_size (small_ivf 0) = 1"
    "ivf_parallel_mode (small_ivf 0) = 0" "ivf_similarity (small_ivf 0) = False" by (simp_all add: small_ivf_def)
  have v: "il_size (il_view_of ail_ops five_entries) 0 = Inr 2" "il_codes (il_view_of ail_ops five_entries) 0 = Inr [1, 2]" by code_simp+
  have p: "ip_nprobe small_params = 2" "ip_max_codes small_params = 0" "ip_sel small_params = Some (Sel_range 0 4)"
    by (simp_all add: small_params_def)
  have scan: "scan_one_list (il_view_of ail_ops five_entries) 3 1 C 2 None (Some (0, 4)) True dist 0 cd unlimited_list_size bh = Inl Null_pointer"
    for C dist cd bh by (simp add: scan_one_list_def v)
  have a: "ivf_search_preassigned (-1000) 1000 0 ail_ops byte_codec two_threads (small_ivf 0) [3] 2 [0, 1] [0, 0] True True (Some small_params)
      ([0, 0], [0, 0]) = Inl Null_pointer"
    by (simp add: ivf_search_preassigned_def i p search_mode_def search_mode_0_def row_def scan [unfolded One_nat_def] mode_no_heap_init_def Let_def)
  have "coarse_rows two_lists 2 [3] = ([0, 0], [0, 1])" by code_simp
  then have "ivf_search_and_reconstruct (-1000) 1000 0 ail_ops byte_codec two_lists two_threads 0 (small_ivf 0) [3] 2 True (Some small_params) [0, 0]
      ([0, 0], [0, 0]) = Inl Null_pointer"
    by (simp add: ivf_search_and_reconstruct_def i p ivf_sub_search_def a)
  moreover have "ivf_search_preassigned (-1000) 1000 0 ail_ops byte_codec two_threads (small_ivf 0) [3] 2 [0, 1] [0, 0] True False (Some small_params)
      ([0, 0], [0, 0]) = Inl (Throw ''selector and store_pairs cannot be combined'')"
    by (simp add: ivf_search_preassigned_def i p)
  ultimately show ?thesis using a by blast
qed

definition one_thread :: ivf_schedule where
  "one_thread = \<lparr>sch_scans = (\<lambda>_. [(0, 0)]), sch_merges = (\<lambda>_. [0]), sch_threads = 1\<rparr>"

definition one_probe :: ivf_params where
  "one_probe = \<lparr>ip_nprobe = 1, ip_max_codes = 0, ip_sel = None\<rparr>"


end
