(* ===== verification/Range_Results.thy ===== *)
theory Range_Results
  imports Vectors
begin

text \<open>
  \<open>faiss/impl/AuxIndexStructures.cpp\<close>: the result of a range search. Each thread collects its results in buffers of a
  fixed size, query after query; at the end the buffers of all threads are copied to one pair of tables in
  which \<open>lims\<close> delimits the part of each query. The partial results of the threads point to the same
  \<open>RangeSearchResult\<close>, which is therefore an argument of their operations. \<open>junk\<close> is what \<open>new[]\<close> leaves in memory.
\<close>

section \<open>\<open>RangeSearchResult\<close>\<close>

record 'd range_result =
  rr_nq :: nat
  rr_lims :: "nat list"
  rr_labels :: "idx_t list option"
  rr_distances :: "'d list option"
  rr_buffer_size :: nat

text \<open>The constructor with \<open>alloc_lims\<close>, which every caller of the library leaves at its default.\<close>

definition rr_new :: "nat \<Rightarrow> 'd range_result" where
  "rr_new nq = \<lparr>rr_nq = nq, rr_lims = replicate (nq + 1) 0, rr_labels = None, rr_distances = None, rr_buffer_size = 1024 * 256\<rparr>"

definition limit_step :: "nat \<Rightarrow> nat list \<times> nat \<Rightarrow> (nat list \<times> nat) result" where
  "limit_step i st =
     (case st of (lims, ofs) \<Rightarrow>
        if i < length lims then Inr (lims[i := ofs], ofs + lims ! i) else Inl Out_of_bounds)"

definition rr_do_allocation :: "idx_t \<Rightarrow> 'd \<Rightarrow> 'd range_result \<Rightarrow> 'd range_result result" where
  "rr_do_allocation junk_id junk res =
     (if \<not> (rr_labels res = None \<and> rr_distances res = None) then Inl (Throw ''labels == nullptr && distances == nullptr'')
      else
        bind_result (fold_result limit_step [0..<rr_nq res] (rr_lims res, 0)) (\<lambda>(lims, ofs).
        if rr_nq res < length lims then
          Inr (res\<lparr>rr_lims := lims[rr_nq res := ofs], rr_labels := Some (replicate ofs junk_id),
                   rr_distances := Some (replicate ofs junk)\<rparr>)
        else Inl Out_of_bounds))"

section \<open>\<open>BufferList\<close>\<close>

record 'd buffer_list =
  bl_size :: nat
  bl_buffers :: "(idx_t list \<times> 'd list) list"
  bl_wp :: nat

definition bl_append_buffer :: "idx_t \<Rightarrow> 'd \<Rightarrow> ('d, 'm) buffer_list_scheme \<Rightarrow> ('d, 'm) buffer_list_scheme" where
  "bl_append_buffer junk_id junk bl =
     bl\<lparr>bl_buffers := bl_buffers bl @ [(replicate (bl_size bl) junk_id, replicate (bl_size bl) junk)], bl_wp := 0\<rparr>"

definition bl_add :: "idx_t \<Rightarrow> 'd \<Rightarrow> idx_t \<Rightarrow> 'd \<Rightarrow> ('d, 'm) buffer_list_scheme \<Rightarrow> ('d, 'm) buffer_list_scheme result" where
  "bl_add junk_id junk i dis bl =
     (let bl = (if bl_wp bl = bl_size bl then bl_append_buffer junk_id junk bl else bl); wp = bl_wp bl in
      if bl_buffers bl = [] then Inl Out_of_bounds
      else
        let (ids, diss) = last (bl_buffers bl) in
        if wp < length ids \<and> wp < length diss then
          Inr (bl\<lparr>bl_buffers := butlast (bl_buffers bl) @ [(ids[wp := i], diss[wp := dis])], bl_wp := wp + 1\<rparr>)
        else Inl Out_of_bounds)"

text \<open>\<open>dest\<close> is the offset of both destination pointers in the tables.\<close>

function copy_buffers ::
  "('d, 'm) buffer_list_scheme \<Rightarrow> nat \<Rightarrow> nat \<Rightarrow> nat \<Rightarrow> nat \<Rightarrow> idx_t list \<times> 'd list \<Rightarrow> (idx_t list \<times> 'd list) result" where
  "copy_buffers bl bno ofs n dest tabs =
     (if n = 0 then Inr tabs
      else if bno < length (bl_buffers bl) then
        let ncopy = (if ofs + n < bl_size bl then n else bl_size bl - ofs); buf = bl_buffers bl ! bno in
        bind_result (memcpy dest (drop ofs (fst buf)) ncopy (fst tabs)) (\<lambda>ids.
        bind_result (memcpy dest (drop ofs (snd buf)) ncopy (snd tabs)) (\<lambda>diss.
          copy_buffers bl (bno + 1) 0 (n - ncopy) (dest + ncopy) (ids, diss)))
      else Inl Out_of_bounds)"
  by pat_completeness auto

termination by (relation "measure (\<lambda>(bl, bno, ofs, n, dest, tabs). length (bl_buffers bl) - bno)") auto

declare copy_buffers.simps [simp del]

definition bl_copy_range ::
  "('d, 'm) buffer_list_scheme \<Rightarrow> nat \<Rightarrow> nat \<Rightarrow> nat \<Rightarrow> idx_t list \<times> 'd list \<Rightarrow> (idx_t list \<times> 'd list) result" where
  "bl_copy_range bl ofs n dest tabs =
     (if bl_size bl = 0 then Inl Division_by_zero
      else let bno = ofs div bl_size bl in copy_buffers bl bno (ofs - bno * bl_size bl) n dest tabs)"

section \<open>\<open>RangeSearchPartialResult\<close>\<close>

text \<open>A \<open>RangeQueryResult\<close> is the number of a query and how many results it has; a reference to one is an index.\<close>

record 'd partial_result = "'d buffer_list" +
  pr_queries :: "(nat \<times> nat) list"

definition pr_new :: "nat \<Rightarrow> 'd partial_result" where
  "pr_new buffer_size = \<lparr>bl_size = buffer_size, bl_buffers = [], bl_wp = buffer_size, pr_queries = []\<rparr>"

definition pr_new_result :: "nat \<Rightarrow> 'd partial_result \<Rightarrow> nat \<times> 'd partial_result" where
  "pr_new_result qno pr = (length (pr_queries pr), pr\<lparr>pr_queries := pr_queries pr @ [(qno, 0)]\<rparr>)"

definition pr_add :: "idx_t \<Rightarrow> 'd \<Rightarrow> nat \<Rightarrow> 'd \<Rightarrow> idx_t \<Rightarrow> 'd partial_result \<Rightarrow> 'd partial_result result" where
  "pr_add junk_id junk qres dis i pr =
     (if qres < length (pr_queries pr) then
        let (qno, nres) = pr_queries pr ! qres in
        bl_add junk_id junk i dis (pr\<lparr>pr_queries := (pr_queries pr)[qres := (qno, nres + 1)]\<rparr>)
      else Inl Out_of_bounds)"

definition limit_of_query :: "nat \<times> nat \<Rightarrow> 'd range_result \<Rightarrow> 'd range_result result" where
  "limit_of_query q res =
     (if fst q < length (rr_lims res) then Inr (res\<lparr>rr_lims := (rr_lims res)[fst q := snd q]\<rparr>) else Inl Out_of_bounds)"

definition pr_set_lims :: "'d partial_result \<Rightarrow> 'd range_result \<Rightarrow> 'd range_result result" where
  "pr_set_lims pr res = fold_result limit_of_query (pr_queries pr) res"

definition copy_query :: "bool \<Rightarrow> 'd partial_result \<Rightarrow> nat \<times> nat \<Rightarrow> nat \<times> 'd range_result \<Rightarrow> (nat \<times> 'd range_result) result" where
  "copy_query incremental pr q st =
     (case q of (qno, nres) \<Rightarrow> case st of (ofs, res) \<Rightarrow>
        if \<not> qno < length (rr_lims res) then Inl Out_of_bounds
        else (case (rr_labels res, rr_distances res) of
            (Some labels, Some distances) \<Rightarrow>
              bind_result (bl_copy_range pr ofs nres (rr_lims res ! qno) (labels, distances)) (\<lambda>(labels, distances).
                Inr (ofs + nres, res\<lparr>rr_labels := Some labels, rr_distances := Some distances,
                       rr_lims := (if incremental then (rr_lims res)[qno := rr_lims res ! qno + nres] else rr_lims res)\<rparr>))
          | _ \<Rightarrow> Inl Null_pointer))"

definition pr_copy_result :: "bool \<Rightarrow> 'd partial_result \<Rightarrow> 'd range_result \<Rightarrow> 'd range_result result" where
  "pr_copy_result incremental pr res =
     bind_result (fold_result (copy_query incremental pr) (pr_queries pr) (0, res)) (\<lambda>(ofs, res). Inr res)"

text \<open>\<open>finalize\<close> is called by all threads of a team: between the barriers one of them allocates.\<close>

definition pr_finalize :: "idx_t \<Rightarrow> 'd \<Rightarrow> 'd partial_result list \<Rightarrow> 'd range_result \<Rightarrow> 'd range_result result" where
  "pr_finalize junk_id junk team res =
     bind_result (fold_result pr_set_lims team res) (\<lambda>res.
     bind_result (rr_do_allocation junk_id junk res) (\<lambda>res.
       fold_result (pr_copy_result False) team res))"

text \<open>
  \<open>merge\<close> of a vector of pointers, some of which may be null; the result is that of the first. What is deleted when
  \<open>do_delete\<close> is set are the partial results, which are not used any more.
\<close>

definition count_query :: "nat \<times> nat \<Rightarrow> 'd range_result \<Rightarrow> 'd range_result result" where
  "count_query q res =
     (if fst q < length (rr_lims res) then Inr (res\<lparr>rr_lims := (rr_lims res)[fst q := rr_lims res ! fst q + snd q]\<rparr>)
      else Inl Out_of_bounds)"

definition shift_step :: "nat \<Rightarrow> nat list \<Rightarrow> nat list result" where
  "shift_step i lims = (if i < length lims then Inr (lims[i := lims ! (i - 1)]) else Inl Out_of_bounds)"

definition pr_merge :: "idx_t \<Rightarrow> 'd \<Rightarrow> 'd partial_result option list \<Rightarrow> 'd range_result \<Rightarrow> 'd range_result result" where
  "pr_merge junk_id junk prs res =
     (if prs = [] then Inr res
      else if hd prs = None then Inl Null_pointer
      else
        let present = concat (map (case_option [] (\<lambda>pr. [pr])) prs) in
        bind_result (fold_result (\<lambda>pr. fold_result count_query (pr_queries pr)) present res) (\<lambda>res.
        bind_result (rr_do_allocation junk_id junk res) (\<lambda>res.
        bind_result (fold_result (pr_copy_result True) present res) (\<lambda>res.
        bind_result (fold_result shift_step (rev [1..<rr_nq res + 1]) (rr_lims res)) (\<lambda>lims.
        if 0 < length lims then Inr (res\<lparr>rr_lims := lims[0 := 0]\<rparr>) else Inl Out_of_bounds)))))"

section \<open>What a partial result holds\<close>

text \<open>The entries in the buffers, as pairs of distance and id like the offers to a heap.\<close>

definition bl_entries :: "('d, 'm) buffer_list_scheme \<Rightarrow> ('d \<times> idx_t) list" where
  "bl_entries bl =
     take (length (bl_buffers bl) * bl_size bl + bl_wp bl - bl_size bl) (concat (map (\<lambda>(ids, diss). zip diss ids) (bl_buffers bl)))"

definition bl_ok :: "('d, 'm) buffer_list_scheme \<Rightarrow> bool" where
  "bl_ok bl \<longleftrightarrow> 0 < bl_size bl \<and> bl_wp bl \<le> bl_size bl \<and> (bl_buffers bl = [] \<longrightarrow> bl_wp bl = bl_size bl)
     \<and> (\<forall>b \<in> set (bl_buffers bl). length (fst b) = bl_size bl \<and> length (snd b) = bl_size bl)"

lemma bl_ok_all_length: "bl_ok bl \<Longrightarrow> all_length (bl_size bl) (map (\<lambda>(ids, diss). zip diss ids) (bl_buffers bl))"
  by (auto simp: bl_ok_def all_length_def)

lemma bl_ok_new: "0 < n \<Longrightarrow> bl_ok (pr_new n) \<and> bl_entries (pr_new n) = []"
  by (simp add: bl_ok_def pr_new_def bl_entries_def)

lemma bl_add_room:
  assumes ok: "bl_ok bl" and wp: "bl_wp bl < bl_size bl"
  shows "\<exists>bl'. bl_add junk_id junk i dis bl = Inr bl' \<and> bl_ok bl' \<and> bl_entries bl' = bl_entries bl @ [(dis, i)]
    \<and> bl_size bl' = bl_size bl \<and> buffer_list.more bl' = buffer_list.more bl"
proof -
  let ?n = "bl_size bl" and ?w = "bl_wp bl" and ?z = "\<lambda>(ids, diss). zip diss ids"
  have "bl_buffers bl \<noteq> []" using ok wp by (auto simp: bl_ok_def)
  then obtain bs ids diss where b: "bl_buffers bl = bs @ [(ids, diss)]" by (metis prod.exhaust rev_exhaust)
  then have len: "length ids = ?n" "length diss = ?n" and bs: "\<forall>b \<in> set bs. length (fst b) = ?n \<and> length (snd b) = ?n"
    using ok by (auto simp: bl_ok_def)
  have al: "all_length ?n (map ?z bs)" using bs by (auto simp: all_length_def)
  have e: "bl_entries bl = concat (map ?z bs) @ take ?w (zip diss ids)"
    using al by (simp add: bl_entries_def b)
  define bl' where "bl' = bl\<lparr>bl_buffers := bs @ [(ids[?w := i], diss[?w := dis])], bl_wp := ?w + 1\<rparr>"
  have "bl_add junk_id junk i dis bl = Inr bl'"
    using wp len by (simp add: bl_add_def b bl'_def Let_def)
  moreover have "bl_ok bl'" using ok wp len bs by (auto simp: bl_ok_def bl'_def b)
  moreover have "take (Suc ?w) (zip (diss[?w := dis]) (ids[?w := i])) = take ?w (zip diss ids) @ [(dis, i)]"
    using wp len by (simp add: take_Suc_conv_app_nth take_zip)
  then have "bl_entries bl' = bl_entries bl @ [(dis, i)]"
    unfolding e using al by (simp add: bl_entries_def bl'_def)
  ultimately show ?thesis by (simp add: bl'_def)
qed

lemma bl_add_entries:
  assumes ok: "bl_ok bl"
  shows "\<exists>bl'. bl_add junk_id junk i dis bl = Inr bl' \<and> bl_ok bl' \<and> bl_entries bl' = bl_entries bl @ [(dis, i)]
    \<and> bl_size bl' = bl_size bl \<and> buffer_list.more bl' = buffer_list.more bl"
proof (cases "bl_wp bl = bl_size bl")
  case True
  let ?bl = "bl_append_buffer junk_id junk bl"
  have ok': "bl_ok ?bl" "bl_wp ?bl < bl_size ?bl" using ok by (auto simp: bl_ok_def bl_append_buffer_def)
  have "bl_entries ?bl = bl_entries bl"
    using True bl_ok_all_length [OF ok] by (simp add: bl_entries_def bl_append_buffer_def)
  moreover have "bl_add junk_id junk i dis bl = bl_add junk_id junk i dis ?bl"
    using True ok' by (simp add: bl_add_def)
  ultimately show ?thesis using bl_add_room [OF ok', of junk_id junk i dis] by (simp add: bl_append_buffer_def)
next
  case False
  then show ?thesis using bl_add_room [OF ok] ok by (simp add: bl_ok_def)
qed

end
