(* ===== verification/Range_Results_Correct.thy ===== *)
theory Range_Results_Correct
  imports Range_Results
begin

text \<open>
  The tables of a range search: after \<open>finalize\<close> or \<open>merge\<close>, the part of a query holds what the threads have added
  for it.
\<close>

section \<open>Copying from buffers\<close>

lemma overwrite_overwrite:
  assumes "k + length ys + length zs \<le> length xs"
  shows "overwrite (k + length ys) zs (overwrite k ys xs) = overwrite k (ys @ zs) xs"
proof -
  have "drop (k + length ys + length zs) (overwrite k ys xs) = drop (k + length ys + length zs) xs"
    using assms by (simp add: overwrite_def add.commute add.left_commute)
  moreover have "take (k + length ys) (overwrite k ys xs) = take k xs @ ys" using assms by (simp add: overwrite_def)
  ultimately show ?thesis by (simp add: overwrite_def [of "k + length ys"] overwrite_def [of k "ys @ zs"] add.assoc)
qed

lemma subrange_split: "m \<le> n \<Longrightarrow> subrange k n xs = subrange k m xs @ subrange (k + m) (n - m) xs"
  using take_add [of m "n - m" "drop k xs"] by (simp add: subrange_def add.commute)

lemma subrange_map: "map f (subrange k n xs) = subrange k n (map f xs)"
  by (simp add: subrange_def take_map drop_map)

text \<open>All entries of the buffers, those not yet written included.\<close>

definition bl_all :: "('d, 'm) buffer_list_scheme \<Rightarrow> ('d \<times> idx_t) list" where
  "bl_all bl = concat (map (\<lambda>(ids, diss). zip diss ids) (bl_buffers bl))"

lemma length_bl_all: "bl_ok bl \<Longrightarrow> length (bl_all bl) = length (bl_buffers bl) * bl_size bl"
  using length_concat_all [OF bl_ok_all_length, of bl] by (simp add: bl_all_def)

lemma bl_entries_take: "bl_entries bl = take (length (bl_buffers bl) * bl_size bl + bl_wp bl - bl_size bl) (bl_all bl)"
  by (simp add: bl_entries_def bl_all_def)

lemma buffer_part:
  assumes "bl_ok bl" "bno < length (bl_buffers bl)" "ofs + nc \<le> bl_size bl"
  shows "take nc (drop ofs (fst (bl_buffers bl ! bno))) = map snd (subrange (bno * bl_size bl + ofs) nc (bl_all bl))"
    and "take nc (drop ofs (snd (bl_buffers bl ! bno))) = map fst (subrange (bno * bl_size bl + ofs) nc (bl_all bl))"
proof -
  let ?z = "\<lambda>(ids, diss). zip diss ids" and ?s = "bl_size bl"
  obtain ids diss where buf: "bl_buffers bl ! bno = (ids, diss)" by force
  then have len: "length ids = ?s" "length diss = ?s" using assms(1) nth_mem [OF assms(2)] by (auto simp: bl_ok_def)
  have "drop bno (map ?z (bl_buffers bl)) = zip diss ids # drop (Suc bno) (map ?z (bl_buffers bl))"
    using assms(2) buf by (simp add: drop_map flip: Cons_nth_drop_Suc)
  then have "drop (bno * ?s) (bl_all bl) = zip diss ids @ concat (drop (Suc bno) (map ?z (bl_buffers bl)))"
    using drop_concat_all [OF bl_ok_all_length [OF assms(1)], of bno] by (simp add: bl_all_def)
  then have "take nc (drop ofs (drop (bno * ?s) (bl_all bl))) = take nc (drop ofs (zip diss ids))"
    using assms(3) len by simp
  then have "subrange (bno * ?s + ofs) nc (bl_all bl) = take nc (drop ofs (zip diss ids))"
    by (simp add: subrange_def add.commute)
  then show "take nc (drop ofs (fst (bl_buffers bl ! bno))) = map snd (subrange (bno * bl_size bl + ofs) nc (bl_all bl))"
    and "take nc (drop ofs (snd (bl_buffers bl ! bno))) = map fst (subrange (bno * bl_size bl + ofs) nc (bl_all bl))"
    using len buf by (simp_all add: take_map [symmetric] drop_map [symmetric] del: take_map drop_map)
qed

lemma copy_buffers_entries:
  assumes ok: "bl_ok bl" and "ofs < bl_size bl" "bno * bl_size bl + ofs + n \<le> length (bl_all bl)"
    and "dest + n \<le> length (fst tabs)" "dest + n \<le> length (snd tabs)"
  shows "copy_buffers bl bno ofs n dest tabs =
    Inr (overwrite dest (map snd (subrange (bno * bl_size bl + ofs) n (bl_all bl))) (fst tabs),
         overwrite dest (map fst (subrange (bno * bl_size bl + ofs) n (bl_all bl))) (snd tabs))"
  using assms(2-)
proof (induction n arbitrary: bno ofs dest tabs rule: less_induct)
  case (less n)
  let ?s = "bl_size bl" and ?all = "bl_all bl" and ?q = "bno * bl_size bl + ofs"
  show ?case
  proof (cases "n = 0")
    case True
    then show ?thesis by (simp add: copy_buffers.simps subrange_def)
  next
    case False
    have bno: "bno < length (bl_buffers bl)"
    proof (rule ccontr)
      assume "\<not> ?thesis"
      then have "length (bl_buffers bl) * ?s \<le> bno * ?s" by simp
      then show False using less.prems(2) False length_bl_all [OF ok] by linarith
    qed
    define nc where "nc = (if ofs + n < ?s then n else ?s - ofs)"
    have nc: "nc \<le> n" "ofs + nc \<le> ?s" "nc = n \<or> ofs + nc = ?s" "0 < nc" using less.prems(1) False by (auto simp: nc_def)
    let ?e = "subrange ?q nc ?all"
    have le: "length ?e = nc" using less.prems(2) nc(1) by simp
    define tabs' where "tabs' = (overwrite dest (map snd ?e) (fst tabs), overwrite dest (map fst ?e) (snd tabs))"
    have len: "length (fst tabs') = length (fst tabs)" "length (snd tabs') = length (snd tabs)"
      using less.prems(3,4) nc(1) le by (simp_all add: tabs'_def)
    have nth: "bl_buffers bl ! bno \<in> set (bl_buffers bl)" using bno by simp
    then have bufs: "length (fst (bl_buffers bl ! bno)) = ?s" "length (snd (bl_buffers bl ! bno)) = ?s"
      using ok by (auto simp: bl_ok_def)
    have m: "memcpy dest (drop ofs (fst (bl_buffers bl ! bno))) nc (fst tabs) = Inr (fst tabs')"
      "memcpy dest (drop ofs (snd (bl_buffers bl ! bno))) nc (snd tabs) = Inr (snd tabs')"
      using less.prems(3,4) nc bufs buffer_part [OF ok bno nc(2)] by (simp_all add: memcpy_def tabs'_def)
    have "copy_buffers bl bno ofs n dest tabs = copy_buffers bl (bno + 1) 0 (n - nc) (dest + nc) tabs'"
      using False bno m by (subst copy_buffers.simps) (simp add: nc_def [symmetric] Let_def)
    also have "\<dots> = Inr (overwrite (dest + nc) (map snd (subrange (?q + nc) (n - nc) ?all)) (fst tabs'),
        overwrite (dest + nc) (map fst (subrange (?q + nc) (n - nc) ?all)) (snd tabs'))"
    proof (cases "nc = n")
      case True
      then show ?thesis by (simp add: copy_buffers.simps subrange_def)
    next
      case ne: False
      then have q: "(bno + 1) * ?s + 0 = ?q + nc" using nc(3) by simp
      show ?thesis unfolding q [symmetric]
      proof (rule less.IH)
        show "n - nc < n" "0 < ?s" using nc(4) False ok by (simp_all add: bl_ok_def)
        show "(bno + 1) * ?s + 0 + (n - nc) \<le> length ?all" unfolding q using nc(1) less.prems(2) by simp
      qed (use less.prems(3,4) nc(1) len in simp_all)
    qed
    also have "\<dots> = Inr (overwrite dest (map snd (subrange ?q n ?all)) (fst tabs), overwrite dest (map fst (subrange ?q n ?all)) (snd tabs))"
    proof -
      have r: "length (subrange (?q + nc) (n - nc) ?all) = n - nc" using less.prems(2) nc(1) by simp
      show ?thesis
        using overwrite_overwrite [of dest "map snd ?e" "map snd (subrange (?q + nc) (n - nc) ?all)" "fst tabs"]
          overwrite_overwrite [of dest "map fst ?e" "map fst (subrange (?q + nc) (n - nc) ?all)" "snd tabs"]
          less.prems(3,4) nc(1) r le subrange_split [OF nc(1), of ?q ?all] by (simp add: tabs'_def)
    qed
    finally show ?thesis .
  qed
qed

lemma bl_copy_range_entries:
  assumes ok: "bl_ok bl" and n: "ofs + n \<le> length (bl_entries bl)" and d: "dest + n \<le> length (fst tabs)" "dest + n \<le> length (snd tabs)"
  shows "bl_copy_range bl ofs n dest tabs =
    Inr (overwrite dest (map snd (subrange ofs n (bl_entries bl))) (fst tabs), overwrite dest (map fst (subrange ofs n (bl_entries bl))) (snd tabs))"
proof -
  let ?s = "bl_size bl" and ?m = "length (bl_buffers bl) * bl_size bl + bl_wp bl - bl_size bl"
  have s: "0 < ?s" using ok by (simp add: bl_ok_def)
  have o': "ofs div ?s * ?s + (ofs - ofs div ?s * ?s) = ofs" by simp
  have m: "ofs - ofs div ?s * ?s < ?s" using s by (simp add: minus_div_mult_eq_mod)
  have "?m \<le> length (bl_all bl)" using ok length_bl_all [OF ok] by (auto simp: bl_ok_def)
  then have le: "ofs + n \<le> ?m" "ofs + n \<le> length (bl_all bl)" using n by (simp_all add: bl_entries_take)
  have "subrange ofs n (bl_entries bl) = subrange ofs n (bl_all bl)"
    using le(1) by (simp add: bl_entries_take subrange_def drop_take)
  then show ?thesis
    using copy_buffers_entries [OF ok m _ d, of "ofs div ?s"] le(2) s unfolding o' by (simp add: bl_copy_range_def Let_def)
qed

section \<open>The results of one thread\<close>

text \<open>The entries that were added for each query, in the order of \<open>new_result\<close>.\<close>

type_synonym 'd segment = "nat \<times> ('d \<times> idx_t) list"

definition pr_holds :: "'d partial_result \<Rightarrow> 'd segment list \<Rightarrow> bool" where
  "pr_holds pr segs \<longleftrightarrow> bl_ok pr \<and> pr_queries pr = map (\<lambda>(q, es). (q, length es)) segs \<and> bl_entries pr = concat (map snd segs)"

lemma pr_holds_new: "0 < n \<Longrightarrow> pr_holds (pr_new n) []"
  using bl_ok_new [of n] by (simp add: pr_holds_def) (simp add: pr_new_def)

lemma pr_holds_new_result:
  assumes "pr_holds pr segs"
  shows "pr_holds (snd (pr_new_result q pr)) (segs @ [(q, [])]) \<and> fst (pr_new_result q pr) = length segs"
proof -
  have e: "bl_entries (pr\<lparr>pr_queries := qs\<rparr>) = bl_entries pr" "bl_ok (pr\<lparr>pr_queries := qs\<rparr>) = bl_ok pr" for qs
    by (simp_all add: bl_entries_def bl_ok_def)
  show ?thesis using assms by (simp add: pr_holds_def pr_new_result_def e)
qed

text \<open>Entries are added to the last query.\<close>

lemma pr_holds_add:
  assumes "pr_holds pr (segs @ [(q, es)])"
  shows "\<exists>pr'. pr_add junk_id junk (length segs) dis i pr = Inr pr' \<and> pr_holds pr' (segs @ [(q, es @ [(dis, i)])])"
proof -
  let ?qs = "map (\<lambda>(q, es). (q, length es)) segs"
  have h: "bl_ok pr" "pr_queries pr = ?qs @ [(q, length es)]" "bl_entries pr = concat (map snd segs) @ es"
    using assms by (simp_all add: pr_holds_def)
  let ?pr = "pr\<lparr>pr_queries := ?qs @ [(q, length es + 1)]\<rparr>"
  have ok: "bl_ok ?pr" "bl_entries ?pr = bl_entries pr" using h(1) by (simp_all add: bl_ok_def bl_entries_def)
  from bl_add_entries [OF ok(1), of junk_id junk i dis] obtain pr' where
    a: "bl_add junk_id junk i dis ?pr = Inr pr'" "bl_ok pr'" "bl_entries pr' = bl_entries pr @ [(dis, i)]"
    "buffer_list.more pr' = buffer_list.more ?pr" unfolding ok(2) by blast
  have q: "pr_queries pr' = pr_queries ?pr" using a(4) by (cases pr'; cases pr) simp
  have "pr_add junk_id junk (length segs) dis i pr = bl_add junk_id junk i dis ?pr"
    using h(2) list_update_middle [of ?qs "length segs"] nth_middle [of ?qs "length segs"] by (simp add: pr_add_def)
  then show ?thesis using a(1-3) q h(3) by (simp add: pr_holds_def)
qed

section \<open>Copying the results of all threads\<close>

definition query_entries :: "'d segment list \<Rightarrow> nat \<Rightarrow> ('d \<times> idx_t) list" where
  "query_entries segs q = concat (map snd (filter (\<lambda>sg. fst sg = q) segs))"

definition row_start :: "(nat \<Rightarrow> 'a list) \<Rightarrow> nat \<Rightarrow> nat" where
  "row_start rw q = sum_list (map (\<lambda>i. length (rw i)) [0..<q])"

lemma query_entries_append [simp]:
  "query_entries [] q = []" "query_entries (xs @ ys) q = query_entries xs q @ query_entries ys q"
  "query_entries (sg # xs) q = (if fst sg = q then snd sg else []) @ query_entries xs q"
  by (simp_all add: query_entries_def)

lemma row_start_simps [simp]: "row_start rw 0 = 0" "row_start rw (Suc q) = row_start rw q + length (rw q)"
  by (simp_all add: row_start_def)

lemma row_start_mono: "p \<le> q \<Longrightarrow> row_start rw p \<le> row_start rw q"
  by (induction q) (auto simp: le_Suc_eq)

lemma row_start_next: "p < q \<Longrightarrow> row_start rw p + length (rw p) \<le> row_start rw q"
  using row_start_mono [of "Suc p" q rw] by simp

lemma row_start_concat: "row_start rw n = length (concat (map rw [0..<n]))"
  by (induction n) simp_all

lemma concat_rows:
  assumes "\<forall>q < n. subrange (row_start rw q) (length (rw q)) T = rw q" "length T = row_start rw n"
  shows "T = concat (map rw [0..<n])"
proof -
  have "take (row_start rw m) T = concat (map rw [0..<m])" if "m \<le> n" for m
    using that
  proof (induction m)
    case (Suc m)
    then show ?case using assms(1) by (simp add: take_add subrange_def)
  qed simp
  from this [of n] show ?thesis using assms(2) by simp
qed

text \<open>The tables when the segments \<open>D\<close> of \<open>all\<close> are copied.\<close>

definition copied :: "bool \<Rightarrow> nat \<Rightarrow> 'd segment list \<Rightarrow> 'd segment list \<Rightarrow> 'd range_result \<Rightarrow> bool" where
  "copied incremental nq all D res \<longleftrightarrow>
     rr_nq res = nq \<and> length (rr_lims res) = nq + 1 \<and> rr_lims res ! nq = row_start (query_entries all) nq
     \<and> (\<forall>q < nq. rr_lims res ! q = row_start (query_entries all) q + (if incremental then length (query_entries D q) else 0))
     \<and> (\<exists>T. rr_labels res = Some (map snd T) \<and> rr_distances res = Some (map fst T) \<and> length T = row_start (query_entries all) nq
          \<and> (\<forall>q < nq. subrange (row_start (query_entries all) q) (length (query_entries D q)) T = query_entries D q))"

lemma subrange_overwrite_grow:
  assumes "subrange k n T = xs" "length xs = n" "k + n + length ys \<le> length T"
  shows "subrange k (n + length ys) (overwrite (k + n) ys T) = xs @ ys"
proof -
  have "subrange k n (overwrite (k + n) ys T) = xs"
    using subrange_overwrite_other [of "k + n" ys T k n] assms by simp
  then show ?thesis
    using subrange_overwrite_same [of "k + n" ys T] assms(3) subrange_split [of n "n + length ys" k "overwrite (k + n) ys T"] by simp
qed

lemma copied_segment:
  assumes c: "copied incremental nq all D res" and all: "all = D @ (q, es) # E" and q: "q < nq"
    and dist: "\<not> incremental \<Longrightarrow> distinct (map fst all)"
    and pr: "bl_ok pr" "subrange ofs (length es) (bl_entries pr) = es" "ofs + length es \<le> length (bl_entries pr)"
  shows "\<exists>res'. copy_query incremental pr (q, length es) (ofs, res) = Inr (ofs + length es, res')
    \<and> copied incremental nq all (D @ [(q, es)]) res'"
proof -
  let ?s = "row_start (query_entries all)" and ?l = "rr_lims res ! q"
  from c obtain T where T: "rr_labels res = Some (map snd T)" "rr_distances res = Some (map fst T)" "length T = ?s nq"
    "\<forall>q < nq. subrange (?s q) (length (query_entries D q)) T = query_entries D q"
    and l: "rr_nq res = nq" "length (rr_lims res) = nq + 1" "rr_lims res ! nq = ?s nq"
    "\<forall>q < nq. rr_lims res ! q = ?s q + (if incremental then length (query_entries D q) else 0)"
    by (auto simp: copied_def)
  have "query_entries D q = []" if "\<not> incremental"
    using dist [OF that] by (force simp: all query_entries_def filter_empty_conv)
  then have lim: "?l = ?s q + length (query_entries D q)" using l(4) q by auto
  have "?s q + length (query_entries all q) \<le> ?s nq" using row_start_next [OF q] .
  then have fit: "?l + length es \<le> length T" unfolding lim T(3) by (simp add: all)
  let ?T = "overwrite ?l es T"
  let ?res = "res\<lparr>rr_labels := Some (map snd ?T), rr_distances := Some (map fst ?T),
      rr_lims := (if incremental then (rr_lims res)[q := ?l + length es] else rr_lims res)\<rparr>"
  have "bl_copy_range pr ofs (length es) ?l (map snd T, map fst T) = Inr (map snd ?T, map fst ?T)"
    using bl_copy_range_entries [OF pr(1,3), of ?l "(map snd T, map fst T)"] fit pr(2) by (simp add: map_overwrite)
  then have r: "copy_query incremental pr (q, length es) (ofs, res) = Inr (ofs + length es, ?res)"
    using q l(2) T(1,2) by (simp add: copy_query_def)
  have rows: "subrange (?s p) (length (query_entries (D @ [(q, es)]) p)) ?T = query_entries (D @ [(q, es)]) p" if p: "p < nq" for p
  proof (cases "p = q")
    case True
    then show ?thesis using subrange_overwrite_grow [OF T(4) [rule_format, OF q] refl, of es] fit unfolding lim by simp
  next
    case False
    have b: "?s p + length (query_entries D p) \<le> ?s (Suc p)" by (simp add: all)
    have "?s p + length (query_entries D p) \<le> ?l \<or> ?l + length es \<le> ?s p"
    proof (cases "p < q")
      case True
      then show ?thesis using b row_start_mono [of "Suc p" q "query_entries all"] lim by simp
    next
      case F: False
      have "?l + length es \<le> ?s (Suc q)" unfolding lim by (simp add: all)
      then show ?thesis using False F row_start_mono [of "Suc q" p "query_entries all"] by simp
    qed
    moreover have "?s p + length (query_entries D p) \<le> length T"
      using b row_start_mono [of "Suc p" nq "query_entries all"] p unfolding T(3) by linarith
    ultimately show ?thesis using False subrange_overwrite_other [OF fit] T(4) p by simp
  qed
  have "length ?T = ?s nq" using fit T(3) by simp
  then have "copied incremental nq all (D @ [(q, es)]) ?res"
    unfolding copied_def using l rows lim q by (intro conjI exI [of _ ?T]) (auto simp: nth_list_update)
  then show ?thesis using r by blast
qed

lemma copied_segments:
  fixes pre :: "'d segment list"
  assumes "copied incremental nq all D res" "all = D @ segs @ E" "\<forall>sg \<in> set segs. fst sg < nq"
    and "\<not> incremental \<Longrightarrow> distinct (map fst all)"
    and "bl_ok pr" "bl_entries pr = concat (map snd pre) @ concat (map snd segs) @ suf"
  shows "\<exists>res' ofs. fold_result (copy_query incremental pr) (map (\<lambda>(q, es). (q, length es)) segs) (length (concat (map snd pre)), res)
      = Inr (ofs, res') \<and> copied incremental nq all (D @ segs) res'"
  using assms(1-3,6)
proof (induction segs arbitrary: D pre res)
  case (Cons sg segs)
  obtain q es where sg: "sg = (q, es)" by force
  let ?ofs = "length (concat (map snd pre))"
  have q: "q < nq" "all = D @ (q, es) # (segs @ E)" using Cons.prems(2,3) by (simp_all add: sg)
  have sub: "subrange ?ofs (length es) (bl_entries pr) = es" "?ofs + length es \<le> length (bl_entries pr)"
    using Cons.prems(4) by (simp_all add: sg subrange_def)
  from copied_segment [OF Cons.prems(1) q(2,1) assms(4,5) sub] obtain res1 where
    r: "copy_query incremental pr (q, length es) (?ofs, res) = Inr (?ofs + length es, res1)"
    "copied incremental nq all (D @ [(q, es)]) res1" by blast
  have "all = (D @ [(q, es)]) @ segs @ E" "\<forall>sg \<in> set segs. fst sg < nq"
    "bl_entries pr = concat (map snd (pre @ [(q, es)])) @ concat (map snd segs) @ suf"
    using Cons.prems by (simp_all add: sg)
  from Cons.IH [OF r(2) this] show ?case using r(1) by (simp add: sg)
qed simp

text \<open>The threads hold the segments \<open>segss\<close>.\<close>

lemma copied_results:
  assumes "copied incremental nq all D res" "all = D @ concat segss @ E" "\<forall>sg \<in> set (concat segss). fst sg < nq"
    and "\<not> incremental \<Longrightarrow> distinct (map fst all)" "list_all2 pr_holds prs segss"
  shows "\<exists>res'. fold_result (pr_copy_result incremental) prs res = Inr res' \<and> copied incremental nq all (D @ concat segss) res'"
  using assms(5,1-3)
proof (induction prs segss arbitrary: D res rule: list_all2_induct)
  case (Cons pr prs segs segss)
  have h: "bl_ok pr" "pr_queries pr = map (\<lambda>(q, es). (q, length es)) segs" "bl_entries pr = concat (map snd []) @ concat (map snd segs) @ []"
    using Cons(1) by (simp_all add: pr_holds_def)
  have "all = D @ segs @ (concat segss @ E)" "\<forall>sg \<in> set segs. fst sg < nq" using Cons.prems(2,3) by auto
  from copied_segments [OF Cons.prems(1) this assms(4) h(1,3)] obtain res1 where
    r: "pr_copy_result incremental pr res = Inr res1" "copied incremental nq all (D @ segs) res1"
    by (auto simp: pr_copy_result_def h(2))
  have "all = (D @ segs) @ concat segss @ E" "\<forall>sg \<in> set (concat segss). fst sg < nq" using Cons.prems(2,3) by auto
  from Cons.IH [OF r(2) this] show ?case using r(1) by simp
qed simp

section \<open>Counting and allocation\<close>

definition fresh_result :: "nat \<Rightarrow> 'd range_result \<Rightarrow> bool" where
  "fresh_result nq res \<longleftrightarrow> rr_nq res = nq \<and> rr_lims res = replicate (nq + 1) 0 \<and> rr_labels res = None \<and> rr_distances res = None"

lemma fresh_result_new: "fresh_result nq (rr_new nq)"
  by (simp add: fresh_result_def rr_new_def)

definition has_counts :: "nat \<Rightarrow> 'd segment list \<Rightarrow> 'd range_result \<Rightarrow> bool" where
  "has_counts nq D res \<longleftrightarrow> rr_nq res = nq \<and> length (rr_lims res) = nq + 1 \<and> rr_labels res = None \<and> rr_distances res = None
     \<and> (\<forall>q < nq. rr_lims res ! q = length (query_entries D q))"

lemma has_counts_fresh: "fresh_result nq res \<Longrightarrow> has_counts nq [] res"
  by (simp add: has_counts_def fresh_result_def del: replicate_Suc)

lemma has_counts_query:
  assumes "has_counts nq D res" "fst sg < nq"
  shows "\<exists>res'. count_query (fst sg, length (snd sg)) res = Inr res' \<and> has_counts nq (D @ [sg]) res'"
  using assms by (auto simp: count_query_def has_counts_def nth_list_update)

lemma has_counts_limit:
  assumes "has_counts nq D res" "fst sg < nq" "distinct (map fst (D @ [sg]))"
  shows "\<exists>res'. limit_of_query (fst sg, length (snd sg)) res = Inr res' \<and> has_counts nq (D @ [sg]) res'"
proof -
  have "fst sg \<notin> fst ` set D" using assms(3) by simp
  then have "\<forall>x \<in> set D. fst x \<noteq> fst sg" by (metis imageI)
  then have "filter (\<lambda>x. fst x = fst sg) D = []" by (simp add: filter_empty_conv)
  then have "query_entries D (fst sg) = []" by (simp add: query_entries_def)
  then show ?thesis using assms by (auto simp: limit_of_query_def has_counts_def nth_list_update)
qed

text \<open>Counting with either loop body, for one thread and for all.\<close>

lemma has_counts_segments:
  assumes "has_counts nq D res" "\<forall>sg \<in> set segs. fst sg < nq"
    and "\<And>D res sg. has_counts nq D res \<Longrightarrow> fst sg < nq \<Longrightarrow> ok (D @ [sg]) \<Longrightarrow>
        \<exists>res'. f (fst sg, length (snd sg)) res = Inr res' \<and> has_counts nq (D @ [sg]) res'"
    and "ok (D @ segs)" "\<And>D E. ok (D @ E) \<Longrightarrow> ok D"
  shows "\<exists>res'. fold_result f (map (\<lambda>(q, es). (q, length es)) segs) res = Inr res' \<and> has_counts nq (D @ segs) res'"
  using assms(1,2,4)
proof (induction segs arbitrary: D res)
  case (Cons sg segs)
  have "ok (D @ [sg])" using assms(5) [of "D @ [sg]" segs] Cons.prems(3) by simp
  from assms(3) [OF Cons.prems(1) _ this] obtain res1 where
    r: "f (fst sg, length (snd sg)) res = Inr res1" "has_counts nq (D @ [sg]) res1" using Cons.prems(2) by auto
  have "\<forall>sg \<in> set segs. fst sg < nq" "ok ((D @ [sg]) @ segs)" using Cons.prems by simp_all
  from Cons.IH [OF r(2) this] show ?case using r(1) by (simp add: case_prod_beta)
qed simp

lemma has_counts_results:
  assumes "list_all2 pr_holds prs segss" "has_counts nq D res" "\<forall>sg \<in> set (concat segss). fst sg < nq"
    and "\<And>D res sg. has_counts nq D res \<Longrightarrow> fst sg < nq \<Longrightarrow> ok (D @ [sg]) \<Longrightarrow>
        \<exists>res'. f (fst sg, length (snd sg)) res = Inr res' \<and> has_counts nq (D @ [sg]) res'"
    and "ok (D @ concat segss)" "\<And>D E. ok (D @ E) \<Longrightarrow> ok D"
  shows "\<exists>res'. fold_result (\<lambda>pr. fold_result f (pr_queries pr)) prs res = Inr res' \<and> has_counts nq (D @ concat segss) res'"
  using assms(1-3,5)
proof (induction prs segss arbitrary: D res rule: list_all2_induct)
  case (Cons pr prs segs segss)
  have h: "pr_queries pr = map (\<lambda>(q, es). (q, length es)) segs" using Cons(1) by (simp add: pr_holds_def)
  have "\<forall>sg \<in> set segs. fst sg < nq" "ok (D @ segs)"
    using Cons.prems assms(6) [of "D @ segs" "concat segss"] by simp_all
  then have "\<exists>res1. fold_result f (map (\<lambda>(q, es). (q, length es)) segs) res = Inr res1 \<and> has_counts nq (D @ segs) res1"
    by (intro has_counts_segments [where ok = ok] Cons.prems(1) assms(4)) (auto intro: assms(6))
  then obtain res1 where r: "fold_result f (pr_queries pr) res = Inr res1" "has_counts nq (D @ segs) res1" unfolding h by blast
  have "\<forall>sg \<in> set (concat segss). fst sg < nq" "ok ((D @ segs) @ concat segss)" using Cons.prems by auto
  from Cons.IH [OF r(2) this] show ?case using r(1) by simp
qed simp

lemma limit_steps:
  assumes "n < length lims" "\<forall>q < n. lims ! q = length (rw q)"
  shows "m \<le> n \<Longrightarrow> fold_result limit_step [0..<m] (lims, 0) = Inr (map (row_start rw) [0..<m] @ drop m lims, row_start rw m)"
proof (induction m)
  case (Suc m)
  have d: "drop m lims = lims ! m # drop (Suc m) lims" using Suc.prems assms(1) by (simp add: Cons_nth_drop_Suc)
  have "limit_step m (map (row_start rw) [0..<m] @ drop m lims, row_start rw m) =
      Inr (map (row_start rw) [0..<Suc m] @ drop (Suc m) lims, row_start rw (Suc m))"
    using Suc.prems assms unfolding d by (simp add: limit_step_def nth_append list_update_append)
  then show ?case using Suc by (simp add: fold_result_snoc)
qed simp

lemma allocation_copied:
  assumes "has_counts nq all res"
  shows "\<exists>res'. rr_do_allocation junk_id junk res = Inr res' \<and> copied incremental nq all [] res'"
proof -
  let ?rw = "query_entries all" and ?lims = "rr_lims res"
  have c: "rr_nq res = nq" "length ?lims = nq + 1" "rr_labels res = None" "rr_distances res = None" "\<forall>q < nq. ?lims ! q = length (?rw q)"
    using assms by (simp_all add: has_counts_def)
  let ?n = "row_start ?rw nq"
  let ?new = "map (row_start ?rw) [0..<nq] @ drop nq ?lims"
  let ?res = "res\<lparr>rr_lims := ?new[nq := ?n], rr_labels := Some (replicate ?n junk_id), rr_distances := Some (replicate ?n junk)\<rparr>"
  have "rr_do_allocation junk_id junk res = Inr ?res"
    using limit_steps [of nq ?lims ?rw nq] c by (simp add: rr_do_allocation_def)
  moreover have "copied incremental nq all [] ?res"
    unfolding copied_def using c by (intro conjI exI [of _ "replicate ?n (junk, junk_id)"]) (auto simp: nth_append subrange_def)
  ultimately show ?thesis by blast
qed

section \<open>\<open>finalize\<close> and \<open>merge\<close>\<close>

definition range_shows :: "'d range_result \<Rightarrow> ('d \<times> idx_t) list list \<Rightarrow> bool" where
  "range_shows res rows \<longleftrightarrow> rr_nq res = length rows
     \<and> rr_lims res = map (\<lambda>q. length (concat (take q rows))) [0..<length rows + 1]
     \<and> rr_labels res = Some (map snd (concat rows)) \<and> rr_distances res = Some (map fst (concat rows))"

lemma range_shows_rows:
  assumes "rr_nq res = nq" "length (rr_lims res) = nq + 1" "\<forall>q \<le> nq. rr_lims res ! q = row_start rw q"
    and "rr_labels res = Some (map snd (concat (map rw [0..<nq])))" "rr_distances res = Some (map fst (concat (map rw [0..<nq])))"
  shows "range_shows res (map rw [0..<nq])"
proof -
  have "rr_lims res = map (\<lambda>q. length (concat (take q (map rw [0..<nq])))) [0..<nq + 1]"
    using assms(2,3) by (intro nth_equalityI) (simp_all add: row_start_concat take_map less_Suc_eq_le del: upt_Suc)
  then show ?thesis using assms by (simp add: range_shows_def del: upt_Suc)
qed

lemma copied_tables:
  assumes "copied incremental nq all all res"
  shows "rr_labels res = Some (map snd (concat (map (query_entries all) [0..<nq])))"
    and "rr_distances res = Some (map fst (concat (map (query_entries all) [0..<nq])))"
proof -
  obtain T where T: "rr_labels res = Some (map snd T)" "rr_distances res = Some (map fst T)" "length T = row_start (query_entries all) nq"
    "\<forall>q < nq. subrange (row_start (query_entries all) q) (length (query_entries all q)) T = query_entries all q"
    using assms by (auto simp: copied_def)
  from concat_rows [OF T(4,3)] T(1,2)
  show "rr_labels res = Some (map snd (concat (map (query_entries all) [0..<nq])))"
    and "rr_distances res = Some (map fst (concat (map (query_entries all) [0..<nq])))" by simp_all
qed

lemma pr_finalize_shows:
  assumes "fresh_result nq res" "list_all2 pr_holds team segss" "\<forall>sg \<in> set (concat segss). fst sg < nq"
    and "distinct (map fst (concat segss))"
  shows "\<exists>res'. pr_finalize junk_id junk team res = Inr res' \<and> range_shows res' (map (query_entries (concat segss)) [0..<nq])"
proof -
  let ?all = "concat segss"
  have "\<exists>res1. fold_result (\<lambda>pr. fold_result limit_of_query (pr_queries pr)) team res = Inr res1 \<and> has_counts nq ([] @ ?all) res1"
    by (rule has_counts_results [where ok = "\<lambda>D. distinct (map fst D)", OF assms(2) has_counts_fresh [OF assms(1)] assms(3) has_counts_limit])
      (use assms(4) in auto)
  then obtain res1 where r1: "fold_result pr_set_lims team res = Inr res1" "has_counts nq ?all res1"
    by (auto simp: pr_set_lims_def [abs_def])
  from allocation_copied [OF r1(2), of junk_id junk False] obtain res2 where
    r2: "rr_do_allocation junk_id junk res1 = Inr res2" "copied False nq ?all [] res2" by blast
  from copied_results [OF r2(2) _ assms(3) assms(4) assms(2), of "[]"] obtain res3 where
    r3: "fold_result (pr_copy_result False) team res2 = Inr res3" "copied False nq ?all ?all res3" by auto
  have "range_shows res3 (map (query_entries ?all) [0..<nq])"
    by (rule range_shows_rows) (use r3(2) copied_tables [OF r3(2)] in \<open>auto simp: copied_def le_less\<close>)
  then show ?thesis using r1(1) r2(1) r3(1) by (simp add: pr_finalize_def)
qed

lemma query_entries_single:
  assumes "distinct (map fst segs)" "(q, es) \<in> set segs"
  shows "query_entries segs q = es"
  using assms
proof (induction segs)
  case (Cons sg segs)
  show ?case
  proof (cases "fst sg = q")
    case True
    then have "q \<notin> fst ` set segs" using Cons.prems(1) by simp
    then have "\<forall>x \<in> set segs. fst x \<noteq> q" by (metis imageI)
    then have "filter (\<lambda>x. fst x = q) segs = []" by (simp add: filter_empty_conv)
    then have "query_entries segs q = []" by (simp add: query_entries_def)
    moreover have "sg = (q, es)" using Cons.prems True \<open>\<forall>x \<in> set segs. fst x \<noteq> q\<close> by auto
    ultimately show ?thesis by simp
  next
    case False
    then show ?thesis using Cons by auto
  qed
qed simp

text \<open>The work \<open>0..<n\<close> is shared out, in any order.\<close>

definition shares_out :: "nat \<Rightarrow> nat \<Rightarrow> (nat \<times> nat) list \<Rightarrow> bool" where
  "shares_out nt n scans \<longleftrightarrow> (\<forall>e \<in> set scans. fst e < nt) \<and> mset (map snd scans) = mset [0..<n]"

lemma shares_out_less:
  assumes "shares_out nt n scans" "e \<in> set scans"
  shows "fst e < nt" "snd e < n"
proof -
  have "mset (map snd scans) = mset [0..<n]" using assms(1) by (simp add: shares_out_def)
  from mset_eq_setD [OF this] have "snd e \<in> set [0..<n]" using assms(2) by auto
  then show "snd e < n" by simp
  show "fst e < nt" using assms by (simp add: shares_out_def)
qed

text \<open>Every query is the work of one thread.\<close>

lemma pr_finalize_shared:
  assumes res: "fresh_result n res" and team: "list_all2 pr_holds team segss"
    and all: "mset (concat segss) = mset (map (\<lambda>i. (i, rw i)) [0..<n])"
  shows "\<exists>res'. pr_finalize junk_id junk team res = Inr res' \<and> range_shows res' (map rw [0..<n])"
proof -
  have "mset (map fst (concat segss)) = mset (map fst (map (\<lambda>i. (i, rw i)) [0..<n]))" using all by (simp only: mset_map)
  then have f: "mset (map fst (concat segss)) = mset [0..<n]" by (simp add: comp_def)
  have distinct: "distinct (map fst (concat segss))" using mset_eq_imp_distinct_iff [OF f] by simp
  have set_eq: "set (concat segss) = set (map (\<lambda>i. (i, rw i)) [0..<n])" by (rule mset_eq_setD [OF all])
  then have lt: "\<forall>sg \<in> set (concat segss). fst sg < n" by auto
  have rows: "query_entries (concat segss) i = rw i" if "i < n" for i
    by (rule query_entries_single [OF distinct]) (use that set_eq in simp)
  from pr_finalize_shows [OF res team lt distinct, of junk_id junk] obtain res' where
    "pr_finalize junk_id junk team res = Inr res'" "range_shows res' (map (query_entries (concat segss)) [0..<n])" by blast
  moreover have "map (query_entries (concat segss)) [0..<n] = map rw [0..<n]" using rows by simp
  ultimately show ?thesis by simp
qed

lemma shift_steps:
  assumes "n < length lims"
  shows "m \<le> n \<Longrightarrow> fold_result shift_step (rev [Suc (n - m)..<Suc n]) lims = Inr (take (Suc (n - m)) lims @ subrange (n - m) m lims @ drop (Suc n) lims)"
proof (induction m)
  case 0
  then show ?case by (simp add: subrange_def)
next
  case (Suc m)
  let ?i = "n - m"
  have u: "[Suc (n - Suc m)..<Suc n] = ?i # [Suc ?i..<Suc n]" using Suc.prems upt_conv_Cons [of ?i "Suc n"] by (simp add: Suc_diff_Suc)
  let ?l = "take (Suc ?i) lims @ subrange ?i m lims @ drop (Suc n) lims"
  have i: "0 < ?i" "?i < length lims" using Suc.prems assms by simp_all
  then have t: "take (Suc ?i) lims = take ?i lims @ [lims ! ?i]" by (simp add: take_Suc_conv_app_nth)
  have s: "subrange (?i - 1) (Suc m) lims = lims ! (?i - 1) # subrange ?i m lims"
  proof -
    have "drop (?i - 1) lims = lims ! (?i - 1) # drop ?i lims" using i Cons_nth_drop_Suc [of "?i - 1" lims] by (metis Suc_pred' diff_le_self order_le_less_trans)
    then show ?thesis by (simp add: subrange_def)
  qed
  have n1: "?l ! (?i - 1) = lims ! (?i - 1)" using i diff_le_self [of ?i 1] by (auto simp: nth_append)
  have n2: "?l[?i := y] = take ?i lims @ [y] @ subrange ?i m lims @ drop (Suc n) lims" for y
    using i unfolding t by (simp add: list_update_append)
  have "?i < length ?l" using i by simp
  then have "shift_step ?i ?l = Inr (take ?i lims @ [lims ! (?i - 1)] @ subrange ?i m lims @ drop (Suc n) lims)"
    unfolding shift_step_def n1 n2 by simp
  also have "\<dots> = Inr (take (Suc (n - Suc m)) lims @ subrange (n - Suc m) (Suc m) lims @ drop (Suc n) lims)"
    using i s by (simp add: Suc_diff_Suc)
  finally show ?case using Suc unfolding u by (simp add: fold_result_snoc)
qed

lemma pr_merge_shows:
  assumes "fresh_result nq res" "list_all2 pr_holds (concat (map (case_option [] (\<lambda>pr. [pr])) prs)) segss"
    and "\<forall>sg \<in> set (concat segss). fst sg < nq" "prs \<noteq> []" "hd prs \<noteq> None"
  shows "\<exists>res'. pr_merge junk_id junk prs res = Inr res' \<and> range_shows res' (map (query_entries (concat segss)) [0..<nq])"
proof -
  let ?all = "concat segss" and ?present = "concat (map (case_option [] (\<lambda>pr. [pr])) prs)"
  have "\<exists>res1. fold_result (\<lambda>pr. fold_result count_query (pr_queries pr)) ?present res = Inr res1 \<and> has_counts nq ([] @ ?all) res1"
    by (rule has_counts_results [where ok = "\<lambda>_. True", OF assms(2) has_counts_fresh [OF assms(1)] assms(3) has_counts_query]) auto
  then obtain res1 where r1: "fold_result (\<lambda>pr. fold_result count_query (pr_queries pr)) ?present res = Inr res1" "has_counts nq ?all res1"
    by auto
  from allocation_copied [OF r1(2), of junk_id junk True] obtain res2 where
    r2: "rr_do_allocation junk_id junk res1 = Inr res2" "copied True nq ?all [] res2" by blast
  from copied_results [OF r2(2) _ assms(3) _ assms(2), of "[]"] obtain res3 where
    r3: "fold_result (pr_copy_result True) ?present res2 = Inr res3" "copied True nq ?all ?all res3" by auto
  let ?l = "rr_lims res3"
  have l: "rr_nq res3 = nq" "length ?l = nq + 1" "\<forall>q < nq. ?l ! q = row_start (query_entries ?all) (Suc q)"
    using r3(2) by (simp_all add: copied_def)
  have sh: "fold_result shift_step (rev [1..<nq + 1]) ?l = Inr (take 1 ?l @ take nq ?l)"
    using shift_steps [of nq ?l nq] l(2) by (simp add: subrange_def)
  let ?res = "res3\<lparr>rr_lims := (take 1 ?l @ take nq ?l)[0 := 0]\<rparr>"
  have "?l \<noteq> []" using l(2) by auto
  then have lims: "(take 1 ?l @ take nq ?l)[0 := 0] = 0 # take nq ?l" by (cases ?l) simp_all
  have "range_shows ?res (map (query_entries ?all) [0..<nq])"
  proof (rule range_shows_rows)
    show "\<forall>q \<le> nq. rr_lims ?res ! q = row_start (query_entries ?all) q"
      using l(2,3) unfolding range_result.simps lims by (auto simp: nth_Cons split: nat.splits)
  qed (use copied_tables [OF r3(2)] l(1,2) lims in simp_all)
  moreover have "0 < length (take 1 ?l @ take nq ?l)" using l(2) by simp
  ultimately show ?thesis using r1(1) r2(1) r3(1) sh l(1) assms(4,5) by (simp add: pr_merge_def del: upt_Suc)
qed

end
