(* ===== verification/Range_Handlers.thy ===== *)
theory Range_Handlers
  imports Block_Handlers Range_Results_Correct
begin

text \<open>
  \<open>RangeSearchBlockResultHandler\<close> (\<open>faiss/impl/ResultHandler.h\<close>): collecting all results within a radius, one result at a time
  or by blocks of the distance table. The destructors copy the results: they catch the exceptions of \<open>FAISS_THROW\<close>
  and drop them.
\<close>

definition in_radius :: "'d comparator \<Rightarrow> 'd \<Rightarrow> ('d \<times> idx_t) list \<Rightarrow> ('d \<times> idx_t) list" where
  "in_radius C radius = filter (\<lambda>p. cmp C radius (fst p))"

lemma in_radius_append [simp]: "in_radius C r [] = []" "in_radius C r (xs @ ys) = in_radius C r xs @ in_radius C r ys"
  by (simp_all add: in_radius_def)

lemma in_radius_concat: "in_radius C r (concat xss) = concat (map (in_radius C r) xss)"
  by (induction xss) simp_all

section \<open>One result at a time\<close>

text \<open>
  The virtual interface has no errors: a fault of \<open>pres\<close> is kept in its place. \<open>qr\<close> is a pointer to the query that was begun.
\<close>

record 'd range_handler =
  rh_pres :: "'d partial_result result"
  rh_threshold :: 'd
  rh_qr :: "nat option"

definition rh_new :: "'d \<Rightarrow> 'd range_result \<Rightarrow> 'd range_handler" where
  "rh_new radius res = \<lparr>rh_pres = Inr (pr_new (rr_buffer_size res)), rh_threshold = radius, rh_qr = None\<rparr>"

definition rh_begin :: "nat \<Rightarrow> 'd range_handler \<Rightarrow> 'd range_handler" where
  "rh_begin i h =
     (case rh_pres h of
        Inl e \<Rightarrow> h
      | Inr pr \<Rightarrow> (case pr_new_result i pr of (qr, pr) \<Rightarrow> h\<lparr>rh_pres := Inr pr, rh_qr := Some qr\<rparr>))"

definition rh_add_result :: "idx_t \<Rightarrow> 'd \<Rightarrow> 'd comparator \<Rightarrow> 'd range_handler \<Rightarrow> 'd \<Rightarrow> idx_t \<Rightarrow> 'd range_handler \<times> bool" where
  "rh_add_result junk_id junk C h dis idx =
     (if cmp C (rh_threshold h) dis
      then h\<lparr>rh_pres := bind_result (rh_pres h) (\<lambda>pr.
               case rh_qr h of None \<Rightarrow> Inl Null_pointer | Some qr \<Rightarrow> pr_add junk_id junk qr dis idx pr)\<rparr>
      else h, False)"

definition range_result_handler :: "idx_t \<Rightarrow> 'd \<Rightarrow> 'd comparator \<Rightarrow> ('d range_handler, 'd) result_handler" where
  "range_result_handler junk_id junk C =
     \<lparr>threshold_of = rh_threshold, add_result = rh_add_result junk_id junk C, heap_k = (\<lambda>_. None)\<rparr>"

text \<open>
  The destructors of a team of threads: \<open>finalize\<close>, with the exception of the allocation dropped. (With more than one thread
  the exception leaves a \<open>single\<close> section, where OpenMP does not allow it.)
\<close>

definition finish_team :: "idx_t \<Rightarrow> 'd \<Rightarrow> 'd partial_result list \<Rightarrow> 'd range_result \<Rightarrow> 'd range_result result" where
  "finish_team junk_id junk team res =
     bind_result (fold_result pr_set_lims team res) (\<lambda>res.
     case rr_do_allocation junk_id junk res of
       Inl (Throw e) \<Rightarrow> Inr res
     | Inl e \<Rightarrow> Inl e
     | Inr res \<Rightarrow> fold_result (pr_copy_result False) team res)"

definition rh_destroy :: "idx_t \<Rightarrow> 'd \<Rightarrow> 'd range_handler list \<Rightarrow> 'd range_result \<Rightarrow> 'd range_result result" where
  "rh_destroy junk_id junk handlers res =
     bind_result (fold_result (\<lambda>h team. bind_result (rh_pres h) (\<lambda>pr. Inr (team @ [pr]))) handlers []) (\<lambda>team.
       finish_team junk_id junk team res)"

section \<open>Blocks of results\<close>

text \<open>
  The database is cut into blocks of columns; there is a partial result per block, found again by its first
  column \<open>j0\<close>. \<open>pr\<close> is the block that is expected next.
\<close>

record 'd range_block =
  rb_i0 :: nat
  rb_i1 :: nat
  rb_partial_results :: "'d partial_result list"
  rb_j0s :: "nat list"
  rb_pr :: nat

definition rb_new :: "nat \<Rightarrow> 'd range_block" where
  "rb_new nq = \<lparr>rb_i0 = 0, rb_i1 = nq, rb_partial_results = [], rb_j0s = [], rb_pr = 0\<rparr>"

definition rb_begin_multiple :: "nat \<Rightarrow> nat \<Rightarrow> 'd range_block \<Rightarrow> 'd range_block" where
  "rb_begin_multiple i0 i1 rb = rb\<lparr>rb_i0 := i0, rb_i1 := i1\<rparr>"

definition rb_find :: "nat \<Rightarrow> nat \<Rightarrow> 'd range_block \<Rightarrow> nat \<times> 'd range_block" where
  "rb_find buffer_size j0 rb =
     (if rb_pr rb < length (rb_j0s rb) \<and> j0 = rb_j0s rb ! rb_pr rb then (rb_pr rb, rb\<lparr>rb_pr := rb_pr rb + 1\<rparr>)
      else if j0 = 0 \<and> 0 < length (rb_j0s rb) then (0, rb\<lparr>rb_pr := 1\<rparr>)
      else (length (rb_partial_results rb),
            rb\<lparr>rb_partial_results := rb_partial_results rb @ [pr_new buffer_size], rb_j0s := rb_j0s rb @ [j0],
               rb_pr := length (rb_partial_results rb) + 1\<rparr>))"

definition rb_add_row ::
  "idx_t \<Rightarrow> 'd \<Rightarrow> 'd comparator \<Rightarrow> 'd \<Rightarrow> nat \<Rightarrow> nat \<Rightarrow> 'd list \<Rightarrow> nat \<Rightarrow> 'd partial_result \<Rightarrow> 'd partial_result result" where
  "rb_add_row junk_id junk C radius j0 j1 ip_line i pr =
     (case pr_new_result i pr of (qres, pr) \<Rightarrow>
        fold_result (\<lambda>j pr. let dis = ip_line ! (j - j0) in
            if cmp C radius dis then pr_add junk_id junk qres dis (int j) pr else Inr pr) [j0..<j1] pr)"

definition rb_add_results ::
  "idx_t \<Rightarrow> 'd \<Rightarrow> 'd comparator \<Rightarrow> 'd \<Rightarrow> nat \<Rightarrow> nat \<Rightarrow> nat \<Rightarrow> 'd list \<Rightarrow> 'd range_block \<Rightarrow> 'd range_block result" where
  "rb_add_results junk_id junk C radius buffer_size j0 j1 dis_tab rb =
     (case rb_find buffer_size j0 rb of (p, rb) \<Rightarrow>
        if p < length (rb_partial_results rb) then
          bind_result (fold_result (\<lambda>i. rb_add_row junk_id junk C radius j0 j1 (drop ((i - rb_i0 rb) * (j1 - j0)) dis_tab) i)
              [rb_i0 rb..<rb_i1 rb] (rb_partial_results rb ! p)) (\<lambda>pr.
            Inr (rb\<lparr>rb_partial_results := (rb_partial_results rb)[p := pr]\<rparr>))
        else Inl Out_of_bounds)"

definition rb_destroy :: "idx_t \<Rightarrow> 'd \<Rightarrow> 'd range_block \<Rightarrow> 'd range_result \<Rightarrow> 'd range_result result" where
  "rb_destroy junk_id junk rb res =
     (if 0 < length (rb_partial_results rb) then
        (case pr_merge junk_id junk (map Some (rb_partial_results rb)) res of
          Inl (Throw e) \<Rightarrow> fold_result (\<lambda>pr. fold_result count_query (pr_queries pr)) (rb_partial_results rb) res
        | r \<Rightarrow> r)
      else Inr res)"

text \<open>
  \<open>exhaustive_inner_product_blas\<close> with this handler: \<open>dis i j\<close> is the product of query \<open>i\<close> and vector \<open>j\<close>, which
  \<open>sgemm\<close> puts in the block.
\<close>

definition distance_block :: "(nat \<Rightarrow> nat \<Rightarrow> 'd) \<Rightarrow> nat \<Rightarrow> nat \<Rightarrow> nat \<Rightarrow> nat \<Rightarrow> 'd list" where
  "distance_block dis i0 i1 j0 j1 = concat (map (\<lambda>i. map (dis i) [j0..<j1]) [i0..<i1])"

definition range_blas_columns ::
  "idx_t \<Rightarrow> 'd \<Rightarrow> 'd comparator \<Rightarrow> 'd \<Rightarrow> nat \<Rightarrow> (nat \<Rightarrow> nat \<Rightarrow> 'd) \<Rightarrow> nat \<Rightarrow> nat \<Rightarrow> nat \<Rightarrow> nat \<Rightarrow> nat \<Rightarrow> 'd range_block \<Rightarrow>
   'd range_block result" where
  "range_blas_columns junk_id junk C radius buffer_size dis bs_y ny i0 i1 b rb =
     (let j0 = b * bs_y; j1 = min (j0 + bs_y) ny in
      rb_add_results junk_id junk C radius buffer_size j0 j1 (distance_block dis i0 i1 j0 j1) rb)"

definition range_blas_rows ::
  "idx_t \<Rightarrow> 'd \<Rightarrow> 'd comparator \<Rightarrow> 'd \<Rightarrow> nat \<Rightarrow> (nat \<Rightarrow> nat \<Rightarrow> 'd) \<Rightarrow> nat \<Rightarrow> nat \<Rightarrow> nat \<Rightarrow> nat \<Rightarrow> nat \<Rightarrow> 'd range_block \<Rightarrow>
   'd range_block result" where
  "range_blas_rows junk_id junk C radius buffer_size dis bs_x bs_y nx ny a rb =
     (let i0 = a * bs_x; i1 = min (i0 + bs_x) nx in
      fold_result (range_blas_columns junk_id junk C radius buffer_size dis bs_y ny i0 i1) [0..<(ny + bs_y - 1) div bs_y]
        (rb_begin_multiple i0 i1 rb))"

definition range_blas ::
  "idx_t \<Rightarrow> 'd \<Rightarrow> 'd comparator \<Rightarrow> 'd \<Rightarrow> (nat \<Rightarrow> nat \<Rightarrow> 'd) \<Rightarrow> nat \<Rightarrow> nat \<Rightarrow> nat \<Rightarrow> nat \<Rightarrow> 'd range_result \<Rightarrow> 'd range_result result" where
  "range_blas junk_id junk C radius dis bs_x bs_y nx ny res =
     (if nx = 0 \<or> ny = 0 then rb_destroy junk_id junk (rb_new (rr_nq res)) res
      else
        bind_result (fold_result (range_blas_rows junk_id junk C radius (rr_buffer_size res) dis bs_x bs_y nx ny)
            [0..<(nx + bs_x - 1) div bs_x] (rb_new (rr_nq res))) (\<lambda>rb.
          rb_destroy junk_id junk rb res))"

section \<open>The handler collects\<close>

definition rh_holds :: "'d range_handler \<Rightarrow> 'd \<Rightarrow> 'd segment list \<Rightarrow> nat \<Rightarrow> ('d \<times> idx_t) list \<Rightarrow> bool" where
  "rh_holds h radius segs q es \<longleftrightarrow>
     (\<exists>pr. rh_pres h = Inr pr \<and> pr_holds pr (segs @ [(q, es)])) \<and> rh_threshold h = radius \<and> rh_qr h = Some (length segs)"

definition rh_inv :: "'d range_handler \<Rightarrow> bool" where
  "rh_inv h \<longleftrightarrow> (\<exists>segs q es. rh_holds h (rh_threshold h) segs q es)"

definition rh_contents :: "'d range_handler \<Rightarrow> ('d \<times> idx_t) multiset" where
  "rh_contents h = (case rh_pres h of Inl e \<Rightarrow> {#} | Inr pr \<Rightarrow> mset (bl_entries pr))"

lemma rh_holds_begin:
  assumes "rh_pres h = Inr pr" "pr_holds pr segs"
  shows "rh_holds (rh_begin q h) (rh_threshold h) segs q []"
  using assms pr_holds_new_result [OF assms(2), of q] by (cases "pr_new_result q pr") (auto simp: rh_begin_def rh_holds_def)

lemma rh_holds_add:
  assumes "rh_holds h radius segs q es"
  shows "rh_holds (fst (rh_add_result junk_id junk C h d i)) radius segs q (es @ in_radius C radius [(d, i)])"
proof -
  obtain pr where pr: "rh_pres h = Inr pr" "pr_holds pr (segs @ [(q, es)])" "rh_threshold h = radius" "rh_qr h = Some (length segs)"
    using assms by (auto simp: rh_holds_def)
  from pr_holds_add [OF pr(2), of junk_id junk d i] obtain pr' where
    "pr_add junk_id junk (length segs) d i pr = Inr pr'" "pr_holds pr' (segs @ [(q, es @ [(d, i)])])" by blast
  then show ?thesis using pr by (auto simp: rh_holds_def rh_add_result_def in_radius_def)
qed

lemma rh_holds_offers:
  "rh_holds h radius segs q es \<Longrightarrow>
   rh_holds (offers (range_result_handler junk_id junk C) h ps) radius segs q (es @ in_radius C radius ps)"
proof (induction ps arbitrary: h es)
  case Nil
  then show ?case by (simp add: offers_def)
next
  case (Cons p ps)
  from Cons.IH [OF rh_holds_add [OF Cons.prems, of junk_id junk C "fst p" "snd p"]]
  have "rh_holds (offers (range_result_handler junk_id junk C) (fst (rh_add_result junk_id junk C h (fst p) (snd p))) ps) radius segs q
      (es @ in_radius C radius [p] @ in_radius C radius ps)" by simp
  moreover have "in_radius C radius [p] @ in_radius C radius ps = in_radius C radius (p # ps)" by (simp add: in_radius_def)
  ultimately show ?case by (simp add: offers_def range_result_handler_def)
qed

lemma range_handler_collector:
  fixes junk :: 'd
  shows "result_collector C (range_result_handler junk_id junk C) rh_contents rh_inv"
proof unfold_locales
  fix r :: "'d range_handler" and d i assume r: "rh_inv r"
  then obtain segs q es where h: "rh_holds r (rh_threshold r) segs q es" by (auto simp: rh_inv_def)
  note a = rh_holds_add [OF h, of junk_id junk C d i]
  have t: "rh_threshold (fst (rh_add_result junk_id junk C r d i)) = rh_threshold r" using a by (simp add: rh_holds_def)
  show "rh_inv (fst (add_result (range_result_handler junk_id junk C) r d i))"
    using a t by (auto simp: rh_inv_def range_result_handler_def)
  have "rh_contents (fst (rh_add_result junk_id junk C r d i)) = rh_contents r + mset (in_radius C (rh_threshold r) [(d, i)])"
    using a h by (auto simp: rh_contents_def rh_holds_def pr_holds_def)
  then show "rh_contents (fst (add_result (range_result_handler junk_id junk C) r d i)) \<subseteq># add_mset (d, i) (rh_contents r)"
    by (auto simp: range_result_handler_def in_radius_def)
qed (auto simp: range_result_handler_def rh_add_result_def)

interpretation range_handler: result_collector C "range_result_handler junk_id junk C" rh_contents rh_inv
  for junk_id and junk :: 'd and C
  by (rule range_handler_collector)

text \<open>When \<open>finalize\<close> succeeds, so do the destructors.\<close>

lemma finish_team_finalize: "pr_finalize junk_id junk team res = Inr res' \<Longrightarrow> finish_team junk_id junk team res = Inr res'"
  by (auto simp: pr_finalize_def finish_team_def bind_result_Inr_iff)

lemma rh_destroy_team:
  assumes "list_all2 (\<lambda>h pr. rh_pres h = Inr pr) handlers team"
  shows "rh_destroy junk_id junk handlers res = finish_team junk_id junk team res"
proof -
  have "fold_result (\<lambda>h team. bind_result (rh_pres h) (\<lambda>pr. Inr (team @ [pr]))) handlers acc = Inr (acc @ team)" for acc
    using assms by (induction handlers team arbitrary: acc rule: list_all2_induct) simp_all
  from this [of "[]"] show ?thesis by (simp add: rh_destroy_def)
qed

text \<open>None of this changes the size of the buffers.\<close>

lemma fold_result_keeps:
  assumes "fold_result f xs s = Inr s'" "\<And>x s s'. f x s = Inr s' \<Longrightarrow> g s' = g s"
  shows "g s' = g s"
  using assms(1)
proof (induction xs arbitrary: s)
  case (Cons x xs)
  then show ?case using assms(2) by (auto simp: bind_result_Inr_iff)
qed simp

lemma set_lims_buffer: "pr_set_lims pr res = Inr res' \<Longrightarrow> rr_buffer_size res' = rr_buffer_size res"
  unfolding pr_set_lims_def by (erule fold_result_keeps) (auto simp: limit_of_query_def split: if_splits)

lemma copy_query_buffer: "copy_query incremental pr q st = Inr st' \<Longrightarrow> rr_buffer_size (snd st') = rr_buffer_size (snd st)"
  by (auto simp: copy_query_def bind_result_Inr_iff split: prod.splits if_splits option.splits)

lemma copy_result_buffer: "pr_copy_result incremental pr res = Inr res' \<Longrightarrow> rr_buffer_size res' = rr_buffer_size res"
proof -
  assume "pr_copy_result incremental pr res = Inr res'"
  then obtain ofs where "fold_result (copy_query incremental pr) (pr_queries pr) (0, res) = Inr (ofs, res')"
    by (auto simp: pr_copy_result_def bind_result_Inr_iff)
  from fold_result_keeps [OF this, where g = "\<lambda>st. rr_buffer_size (snd st)"] copy_query_buffer show ?thesis by fastforce
qed

lemma rh_destroy_buffer:
  assumes "rh_destroy junk_id junk handlers res = Inr res'"
  shows "rr_buffer_size res' = rr_buffer_size res"
proof -
  have alloc: "rr_do_allocation junk_id junk a = Inr b \<Longrightarrow> rr_buffer_size b = rr_buffer_size a" for a b
    by (auto simp: rr_do_allocation_def bind_result_Inr_iff split: if_splits)
  have copies: "fold_result (pr_copy_result False) prs a = Inr b \<Longrightarrow> rr_buffer_size b = rr_buffer_size a" for prs a b
    by (erule fold_result_keeps) (rule copy_result_buffer)
  obtain team res1 where t: "fold_result pr_set_lims team res = Inr res1"
    "(case rr_do_allocation junk_id junk res1 of
       Inl (Throw e) \<Rightarrow> Inr res1
     | Inl e \<Rightarrow> Inl e
     | Inr res \<Rightarrow> fold_result (pr_copy_result False) team res) = Inr res'"
    using assms by (auto simp: rh_destroy_def finish_team_def bind_result_Inr_iff)
  have "rr_buffer_size res1 = rr_buffer_size res" by (rule fold_result_keeps [OF t(1) set_lims_buffer])
  moreover have "rr_buffer_size res' = rr_buffer_size res1"
    using t(2) by (auto split: sum.splits fault.splits dest!: alloc copies)
  ultimately show ?thesis by simp
qed

end
