(* ===== verification/Index_Ivf_Range.thy ===== *)
theory Index_Ivf_Range
  imports Index_Ivf_Scan Range_Handlers
begin

text \<open>
  Range search with \<open>IndexIVF\<close>: the entries of the probed lists whose distance is within the radius. Every thread of the
  team adds to a partial result of its own; with \<open>parallel_mode\<close> 0 a query belongs to one thread and
  \<open>finalize\<close> copies the results, otherwise \<open>merge\<close> does. \<open>max_codes\<close> has no effect here.
\<close>

section \<open>One list\<close>

text \<open>\<open>IVFFlatScanner::scan_codes_range\<close>; \<open>qres\<close> is the index of the query among those of the thread.\<close>

definition scan_range_step ::
  "idx_t \<Rightarrow> 'd \<Rightarrow> 'd comparator \<Rightarrow> 'd \<Rightarrow> nat \<Rightarrow> id_selector option \<Rightarrow> bool \<Rightarrow> nat \<Rightarrow> (8 word list \<Rightarrow> 'd) \<Rightarrow> 8 word list \<Rightarrow> idx_t list \<Rightarrow>
   nat \<Rightarrow> nat \<Rightarrow> 'd partial_result \<Rightarrow> 'd partial_result result" where
  "scan_range_step junk_id junk C radius cs sel store_pairs list_no dist codes ids qres j pr =
     bind_result (case sel of None \<Rightarrow> Inr True | Some sl \<Rightarrow> is_member sl (ids ! j)) (\<lambda>b.
     if \<not> b then Inr pr
     else
       let dis = dist (subrange (j * cs) cs codes) in
       if cmp C radius dis then pr_add junk_id junk qres dis (if store_pairs then lo_build list_no j else ids ! j) pr
       else Inr pr)"

definition scan_codes_range ::
  "idx_t \<Rightarrow> 'd \<Rightarrow> 'd comparator \<Rightarrow> 'd \<Rightarrow> nat \<Rightarrow> id_selector option \<Rightarrow> bool \<Rightarrow> nat \<Rightarrow> (8 word list \<Rightarrow> 'd) \<Rightarrow> nat \<Rightarrow> 8 word list \<Rightarrow> idx_t list \<Rightarrow>
   nat \<Rightarrow> 'd partial_result \<Rightarrow> 'd partial_result result" where
  "scan_codes_range junk_id junk C radius cs sel store_pairs list_no dist list_size codes ids qres pr =
     fold_result (scan_range_step junk_id junk C radius cs sel store_pairs list_no dist codes ids qres) [0..<list_size] pr"

text \<open>
  \<open>scan_list_func\<close>. An exception from the container or the scanner is caught, and thrown again after the parallel section;
  here it ends the search at once.
\<close>

definition scan_list_range ::
  "idx_t \<Rightarrow> 'd \<Rightarrow> il_view \<Rightarrow> nat \<Rightarrow> nat \<Rightarrow> 'd comparator \<Rightarrow> 'd \<Rightarrow> id_selector option \<Rightarrow> bool \<Rightarrow> (nat \<Rightarrow> 'd \<Rightarrow> 8 word list \<Rightarrow> 'd) \<Rightarrow>
   idx_t \<times> 'd \<Rightarrow> nat \<Rightarrow> 'd partial_result \<Rightarrow> 'd partial_result result" where
  "scan_list_range junk_id junk v nlist cs C radius sel store_pairs dist p qres pr =
     (case p of (key, coarse_dis) \<Rightarrow>
        if key < 0 then Inr pr
        else if \<not> key < int nlist then Inl (Throw ''Invalid key'')
        else
          bind_result (il_size v (nat key)) (\<lambda>list_size.
          if list_size = 0 then Inr pr
          else
            bind_result (il_codes v (nat key)) (\<lambda>codes.
            bind_result (il_ids v (nat key)) (\<lambda>ids.
              scan_codes_range junk_id junk C radius cs sel store_pairs (nat key) (dist (nat key) coarse_dis) list_size codes ids qres pr))))"

section \<open>The parallel modes\<close>

text \<open>
  Below, \<open>scan\<close> is \<open>scan_list_range\<close> for the query, with the probe, the query of the thread and its partial result still
  open. The state holds the partial results of the threads; a schedule lists pairs of a thread and what it takes.
\<close>

type_synonym 'd range_scan = "idx_t \<times> 'd \<Rightarrow> nat \<Rightarrow> 'd partial_result \<Rightarrow> 'd partial_result result"

definition range_query_0 :: "(nat \<Rightarrow> 'd range_scan) \<Rightarrow> (nat \<Rightarrow> (idx_t \<times> 'd) list) \<Rightarrow> nat \<times> nat \<Rightarrow> 'd partial_result list \<Rightarrow>
   'd partial_result list result" where
  "range_query_0 scan probes e team =
     (case e of (t, i) \<Rightarrow> case pr_new_result i (team ! t) of (qres, pr) \<Rightarrow>
        bind_result (fold_result (\<lambda>p. scan i p qres) (probes i) pr) (\<lambda>pr. Inr (team[t := pr])))"

definition range_probe_1 :: "'d range_scan \<Rightarrow> (idx_t \<times> 'd) list \<Rightarrow> nat list \<Rightarrow> nat \<times> nat \<Rightarrow> 'd partial_result list \<Rightarrow>
   'd partial_result list result" where
  "range_probe_1 scan probes qress e team =
     (case e of (t, ik) \<Rightarrow> bind_result (scan (probes ! ik) (qress ! t) (team ! t)) (\<lambda>pr. Inr (team[t := pr])))"

definition range_query_1 :: "(nat \<Rightarrow> 'd range_scan) \<Rightarrow> (nat \<Rightarrow> (idx_t \<times> 'd) list) \<Rightarrow> (nat \<Rightarrow> (nat \<times> nat) list) \<Rightarrow> nat \<Rightarrow>
   'd partial_result list \<Rightarrow> 'd partial_result list result" where
  "range_query_1 scan probes scans i team =
     (let begun = map (pr_new_result i) team in
      fold_result (range_probe_1 (scan i) (probes i) (map fst begun)) (scans i) (map snd begun))"

text \<open>Mode 2: a thread begins a new result when the query changes; \<open>None\<close> is the null pointer of the start.\<close>

definition range_pair_2 :: "(nat \<Rightarrow> 'd range_scan) \<Rightarrow> nat \<Rightarrow> (nat \<Rightarrow> (idx_t \<times> 'd) list) \<Rightarrow> nat \<times> nat \<Rightarrow>
   (nat option \<times> 'd partial_result) list \<Rightarrow> (nat option \<times> 'd partial_result) list result" where
  "range_pair_2 scan nprobe probes e team =
     (case e of (t, iik) \<Rightarrow>
        let i = iik div nprobe; ik = iik mod nprobe;
            (qres, pr) = (case team ! t of
               (Some qres, pr) \<Rightarrow> if fst (pr_queries pr ! qres) \<noteq> i then pr_new_result i pr else (qres, pr)
             | (None, pr) \<Rightarrow> pr_new_result i pr) in
        bind_result (scan i (probes i ! ik) qres pr) (\<lambda>pr. Inr (team[t := (Some qres, pr)])))"

text \<open>\<open>parallel_mode\<close> is compared as it is, with the bit \<open>PARALLEL_MODE_NO_HEAP_INIT\<close>.\<close>

definition range_search_mode ::
  "idx_t \<Rightarrow> 'd \<Rightarrow> int \<Rightarrow> (nat \<Rightarrow> 'd range_scan) \<Rightarrow> ivf_schedule \<Rightarrow> nat \<Rightarrow> nat \<Rightarrow> nat \<Rightarrow> (nat \<Rightarrow> (idx_t \<times> 'd) list) \<Rightarrow>
   'd range_result \<Rightarrow> 'd range_result result" where
  "range_search_mode junk_id junk parallel_mode scan sch max_threads n nprobe probes res =
     (let team = replicate (sch_threads sch) (pr_new (rr_buffer_size res));
          all_pres = (\<lambda>team. map Some team @ replicate (max_threads - length team) None) in
      if parallel_mode = 0 then
        bind_result (fold_result (range_query_0 scan probes) (sch_scans sch 0) team) (\<lambda>team.
          pr_finalize junk_id junk team res)
      else if parallel_mode = 1 then
        bind_result (fold_result (range_query_1 scan probes (sch_scans sch)) [0..<n] team) (\<lambda>team.
          pr_merge junk_id junk (all_pres team) res)
      else if parallel_mode = 2 then
        bind_result (fold_result (range_pair_2 scan nprobe probes) (sch_scans sch 0) (map (Pair None) team)) (\<lambda>team.
          pr_merge junk_id junk (all_pres (map snd team)) res)
      else Inl (Throw ''parallel_mode not supported''))"

section \<open>\<open>range_search\<close>\<close>

definition ivf_range_search_preassigned ::
  "'d \<Rightarrow> 'd \<Rightarrow> idx_t \<Rightarrow> 'd \<Rightarrow> 's il_ops \<Rightarrow> ('v, 'd :: linorder) ivf_codec \<Rightarrow> ivf_schedule \<Rightarrow> nat \<Rightarrow> 's ivf \<Rightarrow> 'v list \<Rightarrow> 'd \<Rightarrow>
   idx_t list \<Rightarrow> 'd list \<Rightarrow> bool \<Rightarrow> ivf_params option \<Rightarrow> 'd range_result \<Rightarrow> 'd range_result result" where
  "ivf_range_search_preassigned lo hi junk_id junk ops cd sch max_threads ivf xs radius keys coarse_dis store_pairs params res =
     (let nprobe = min (ivf_nlist ivf) (case params of None \<Rightarrow> ivf_nprobe ivf | Some p \<Rightarrow> ip_nprobe p);
          sel = (case params of None \<Rightarrow> None | Some p \<Rightarrow> ip_sel p);
          C = ivf_comparator lo hi (ivf_similarity ivf) in
      if \<not> nprobe > 0 then Inl (Throw ''nprobe > 0'')
      else
        range_search_mode junk_id junk (ivf_parallel_mode ivf)
          (\<lambda>i. scan_list_range junk_id junk (il_view_of ops (ivf_invlists ivf)) (ivf_nlist ivf) (ivf_code_size ivf) C radius sel store_pairs
            (ic_distance cd (xs ! i)))
          sch max_threads (length xs) nprobe (\<lambda>i. zip (row nprobe i keys) (row nprobe i coarse_dis)) res)"

definition ivf_range_search ::
  "'d \<Rightarrow> 'd \<Rightarrow> idx_t \<Rightarrow> 'd \<Rightarrow> 's il_ops \<Rightarrow> ('v, 'd :: linorder) ivf_codec \<Rightarrow> ('v, 'd) coarse_quantizer \<Rightarrow> ivf_schedule \<Rightarrow> nat \<Rightarrow> 's ivf \<Rightarrow>
   'v list \<Rightarrow> 'd \<Rightarrow> ivf_params option \<Rightarrow> 'd range_result \<Rightarrow> 'd range_result result" where
  "ivf_range_search lo hi junk_id junk ops cd cq sch max_threads ivf xs radius params res =
     (let nprobe = min (ivf_nlist ivf) (case params of None \<Rightarrow> ivf_nprobe ivf | Some p \<Rightarrow> ip_nprobe p) in
      case coarse_rows cq nprobe xs of (coarse_dis, keys) \<Rightarrow>
        ivf_range_search_preassigned lo hi junk_id junk ops cd sch max_threads ivf xs radius keys coarse_dis False params res)"

end
