(* ===== verification/Index_Ivf_Range_Correct.thy ===== *)
theory Index_Ivf_Range_Correct
  imports Index_Ivf_Range Index_Ivf_Slices
begin

text \<open>
  A range search returns the selected entries of the probed lists that are within the radius, in every parallel mode
  and under every schedule of the threads.
\<close>

section \<open>One list\<close>

lemma scan_codes_range_holds:
  assumes "all_length cs (map snd es)" "n \<le> length es" "sel_decides sel P es" "pr_holds pr (segs @ [(q, xs)])"
  shows "\<exists>pr'. scan_codes_range junk_id junk C radius cs sel store_pairs list_no dist n (concat (map snd es)) (map fst es) (length segs) pr = Inr pr'
    \<and> pr_holds pr' (segs @ [(q, xs @ in_radius C radius (list_offers store_pairs P dist list_no es n))])"
  using assms(2)
proof (induction n)
  case 0
  then show ?case using assms(4) by (simp add: scan_codes_range_def list_offers_def)
next
  case (Suc n)
  let ?hits = "\<lambda>n. in_radius C radius (list_offers store_pairs P dist list_no es n)"
  from Suc obtain pr1 where pr1:
    "scan_codes_range junk_id junk C radius cs sel store_pairs list_no dist n (concat (map snd es)) (map fst es) (length segs) pr = Inr pr1"
    "pr_holds pr1 (segs @ [(q, xs @ ?hits n)])" by auto
  have n: "n < length es" using Suc.prems by simp
  then have e: "es ! n \<in> set es" by simp
  have code: "subrange (n * cs) cs (concat (map snd es)) = snd (es ! n)" using subrange_concat_all [OF assms(1)] n by simp
  have member: "(case sel of None \<Rightarrow> Inr True | Some sl \<Rightarrow> is_member sl (map fst es ! n)) = Inr (P (fst (es ! n)))"
    using assms(3) e n by (cases sel) (simp_all add: sel_decides_def)
  let ?i = "if store_pairs then lo_build list_no n else fst (es ! n)"
  have run: "scan_codes_range junk_id junk C radius cs sel store_pairs list_no dist (Suc n) (concat (map snd es)) (map fst es) (length segs) pr =
      (if P (fst (es ! n)) \<and> cmp C radius (dist (snd (es ! n))) then pr_add junk_id junk (length segs) (dist (snd (es ! n))) ?i pr1 else Inr pr1)"
    unfolding scan_codes_range_def upt_Suc_append [OF le0] fold_result_snoc
    unfolding scan_codes_range_def [symmetric] pr1(1) bind_result.simps scan_range_step_def member code using n by simp
  have hits: "?hits (Suc n) = ?hits n @ (if P (fst (es ! n)) \<and> cmp C radius (dist (snd (es ! n))) then [(dist (snd (es ! n)), ?i)] else [])"
    by (simp add: list_offers_def in_radius_def)
  show ?case unfolding run hits using pr1(2) pr_holds_add [OF pr1(2), of junk_id junk "dist (snd (es ! n))" ?i] by auto
qed

lemma scan_list_range_holds:
  assumes v: "shows_lists v nlist cs L" and key: "fst p < int nlist" and sel: "\<forall>es \<in> set L. sel_decides sel P es"
    and pr: "pr_holds pr (segs @ [(q, xs)])"
  shows "\<exists>pr'. scan_list_range junk_id junk v nlist cs C radius sel store_pairs dist p (length segs) pr = Inr pr'
    \<and> pr_holds pr' (segs @ [(q, xs @ in_radius C radius (selected_offers store_pairs P dist L (probe_codes L p)))])"
proof -
  obtain key cd where p: "p = (key, cd)" by force
  show ?thesis
  proof (cases "key < 0")
    case True
    then show ?thesis using pr by (simp add: p scan_list_range_def probe_codes_def)
  next
    case False
    define l where "l = nat key"
    have l: "l < length L" using v key False by (simp add: p shows_lists_def l_def)
    then have s: "list_shows v l (L ! l)" using v by (simp add: shows_lists_def represents_def)
    have cs: "all_length cs (map snd (L ! l))" using s v by (simp add: list_shows_def shows_lists_def)
    have d: "sel_decides sel P (L ! l)" using sel l by simp
    have il: "il_size v l = Inr (length (L ! l))" "il_ids v l = Inr (map fst (L ! l))" "il_codes v l = Inr (concat (map snd (L ! l)))"
      using s by (simp_all add: list_shows_def)
    have po: "selected_offers store_pairs P dist L (probe_codes L p) = list_offers store_pairs P (dist l cd) l (L ! l) (length (L ! l))"
      using probe_offers_codes [of store_pairs P dist L "length (L ! l)" p] False
      by (simp add: p probe_offers_def probe_codes_def probe_size_def l_def [symmetric])
    have k: "\<not> key < 0" "key < int nlist" using False key by (simp_all add: p)
    have sc: "\<exists>pr'. scan_codes_range junk_id junk C radius cs sel store_pairs l (dist l cd) (length (L ! l)) (concat (map snd (L ! l)))
        (map fst (L ! l)) (length segs) pr = Inr pr'
      \<and> pr_holds pr' (segs @ [(q, xs @ in_radius C radius (selected_offers store_pairs P dist L (probe_codes L p)))])"
      unfolding po by (rule scan_codes_range_holds [OF cs order_refl d pr])
    show ?thesis
    proof (cases "length (L ! l) = 0")
      case True
      then show ?thesis using k il(1) pr unfolding po by (simp add: p scan_list_range_def l_def [symmetric] list_offers_def)
    next
      case ne: False
      show ?thesis using k ne sc by (simp add: p scan_list_range_def l_def [symmetric] il)
    qed
  qed
qed

section \<open>The team of threads\<close>

text \<open>\<open>scan\<close> adds the entries \<open>hits p\<close> of a probe \<open>p\<close> to the query that the thread has begun last.\<close>

definition adds_hits :: "'d range_scan \<Rightarrow> (idx_t \<times> 'd \<Rightarrow> ('d \<times> idx_t) list) \<Rightarrow> (idx_t \<times> 'd) list \<Rightarrow> bool" where
  "adds_hits scan hits probes \<longleftrightarrow>
     (\<forall>p \<in> set probes. \<forall>pr segs q xs. pr_holds pr (segs @ [(q, xs)]) \<longrightarrow>
        (\<exists>pr'. scan p (length segs) pr = Inr pr' \<and> pr_holds pr' (segs @ [(q, xs @ hits p)])))"

lemma adds_hitsD:
  "adds_hits scan hits probes \<Longrightarrow> p \<in> set probes \<Longrightarrow> pr_holds pr (segs @ [(q, xs)]) \<Longrightarrow>
   \<exists>pr'. scan p (length segs) pr = Inr pr' \<and> pr_holds pr' (segs @ [(q, xs @ hits p)])"
  unfolding adds_hits_def by blast

lemma adds_hits_fold:
  assumes "adds_hits scan hits probes" "set ps \<subseteq> set probes" "pr_holds pr (segs @ [(q, xs)])"
  shows "\<exists>pr'. fold_result (\<lambda>p. scan p (length segs)) ps pr = Inr pr' \<and> pr_holds pr' (segs @ [(q, xs @ concat (map hits ps))])"
  using assms(2,3)
proof (induction ps arbitrary: pr xs)
  case (Cons p ps)
  from adds_hitsD [OF assms(1) _ Cons.prems(2), of p] Cons.prems(1) obtain pr1 where
    r: "scan p (length segs) pr = Inr pr1" "pr_holds pr1 (segs @ [(q, xs @ hits p)])" by auto
  from Cons.IH [OF _ r(2)] Cons.prems(1) r(1) show ?case by simp
qed auto

text \<open>The partial results of the threads, and the segments they hold.\<close>

definition team_holds :: "nat \<Rightarrow> 'd partial_result list \<Rightarrow> 'd segment list list \<Rightarrow> bool" where
  "team_holds nt team segss \<longleftrightarrow> length segss = nt \<and> list_all2 pr_holds team segss"

lemma team_holds_nth: "team_holds nt team segss \<Longrightarrow> t < nt \<Longrightarrow> pr_holds (team ! t) (segss ! t)"
  by (auto simp: team_holds_def dest: list_all2_nthD2)

lemma team_holds_update:
  assumes "team_holds nt team segss" "pr_holds pr segs"
  shows "team_holds nt (team[t := pr]) (segss[t := segs])"
  using assms by (auto simp: team_holds_def intro: list_all2_update_cong)

lemma team_holds_start: "0 < b \<Longrightarrow> team_holds nt (replicate nt (pr_new b)) (replicate nt [])"
  by (simp add: team_holds_def list_all2_conv_all_nth pr_holds_new)

text \<open>What the team holds for a query, in any order.\<close>

definition team_entries :: "'d segment list list \<Rightarrow> nat \<Rightarrow> ('d \<times> idx_t) multiset" where
  "team_entries segss q = mset (query_entries (concat segss) q)"

lemma team_entries_start: "team_entries (replicate nt []) q = {#}"
  by (simp add: team_entries_def)

lemma team_entries_update:
  assumes "t < length segss" "mset (query_entries segs q) = mset (query_entries (segss ! t) q) + A"
  shows "team_entries (segss[t := segs]) q = team_entries segss q + A"
proof -
  have u: "segss[t := segs] = take t segss @ segs # drop (Suc t) segss" using assms(1) by (simp add: upd_conv_take_nth_drop)
  have "segss = take t segss @ segss ! t # drop (Suc t) segss" using assms(1) by (simp add: id_take_nth_drop)
  then have "team_entries segss q = mset (query_entries (concat (take t segss @ segss ! t # drop (Suc t) segss)) q)"
    by (simp add: team_entries_def)
  then show ?thesis unfolding u using assms(2) by (simp add: team_entries_def)
qed

lemma set_concat_update: "set (concat (xss[t := ys])) \<subseteq> set (concat xss) \<union> set ys"
  by (auto dest!: set_update_subset_insert [THEN subsetD])

section \<open>Mode 0: a thread per query\<close>

lemma range_queries_0:
  assumes scan: "\<forall>i < n. adds_hits (scan i) (hits i) (probes i)" and team: "team_holds nt team segss"
    and sch: "\<forall>e \<in> set scans. fst e < nt \<and> snd e < n"
  shows "\<exists>team' segss'. fold_result (range_query_0 scan probes) scans team = Inr team' \<and> team_holds nt team' segss'
    \<and> mset (concat segss') = mset (concat segss) + mset (map (\<lambda>(t, i). (i, concat (map (hits i) (probes i)))) scans)"
  using team sch
proof (induction scans arbitrary: team segss)
  case Nil
  then show ?case by auto
next
  case (Cons e scans)
  obtain t i where e: "e = (t, i)" by force
  have ti: "t < nt" "i < n" "t < length segss" using Cons.prems by (simp_all add: e team_holds_def)
  let ?row = "concat (map (hits i) (probes i))"
  obtain pr where b: "pr_new_result i (team ! t) = (length (segss ! t), pr)" "pr_holds pr (segss ! t @ [(i, [])])"
    using pr_holds_new_result [OF team_holds_nth [OF Cons.prems(1) ti(1)], of i] by (metis prod.collapse)
  from adds_hits_fold [OF scan [rule_format, OF ti(2)] subset_refl b(2)] obtain pr' where
    r: "fold_result (\<lambda>p. scan i p (length (segss ! t))) (probes i) pr = Inr pr'" "pr_holds pr' (segss ! t @ [(i, ?row)])" by auto
  have step: "range_query_0 scan probes e team = Inr (team[t := pr'])" using b(1) r(1) by (simp add: range_query_0_def e)
  let ?segss = "segss[t := segss ! t @ [(i, ?row)]]"
  have u: "?segss = take t segss @ (segss ! t @ [(i, ?row)]) # drop (Suc t) segss" "segss = take t segss @ segss ! t # drop (Suc t) segss"
    using ti(3) by (simp_all add: upd_conv_take_nth_drop id_take_nth_drop)
  have m: "mset (concat ?segss) = add_mset (i, ?row) (mset (concat segss))"
  proof -
    have "mset (concat segss) = mset (concat (take t segss @ segss ! t # drop (Suc t) segss))" using u(2) by simp
    then show ?thesis unfolding u(1) by simp
  qed
  from Cons.IH [OF team_holds_update [OF Cons.prems(1) r(2), of t]] Cons.prems(2) obtain team' segss' where
    "fold_result (range_query_0 scan probes) scans (team[t := pr']) = Inr team'" "team_holds nt team' segss'"
    "mset (concat segss') = mset (concat ?segss) + mset (map (\<lambda>(t, i). (i, concat (map (hits i) (probes i)))) scans)" by auto
  then show ?case using step m by (auto simp: e)
qed

lemma range_mode_0:
  assumes scan: "\<forall>i < n. adds_hits (scan i) (hits i) (probes i)" and res: "fresh_result n res" "0 < rr_buffer_size res"
    and sch: "shares_out (sch_threads sch) n (sch_scans sch 0)"
  shows "\<exists>res'. range_search_mode junk_id junk 0 scan sch max_threads n m probes res = Inr res'
    \<and> range_shows res' (map (\<lambda>i. concat (map (hits i) (probes i))) [0..<n])"
proof -
  let ?nt = "sch_threads sch" and ?scans = "sch_scans sch 0" and ?row = "\<lambda>i. concat (map (hits i) (probes i))"
  have p: "mset (map snd ?scans) = mset [0..<n]" using sch by (simp add: shares_out_def)
  have s: "\<forall>e \<in> set ?scans. fst e < ?nt \<and> snd e < n" using shares_out_less [OF sch] by blast
  from range_queries_0 [OF scan team_holds_start [OF res(2)] s] obtain team segss where
    r: "fold_result (range_query_0 scan probes) ?scans (replicate ?nt (pr_new (rr_buffer_size res))) = Inr team" "team_holds ?nt team segss"
    "mset (concat segss) = mset (map (\<lambda>(t, i). (i, ?row i)) ?scans)" by auto
  have "mset (concat segss) = mset (map (\<lambda>i. (i, ?row i)) [0..<n])"
  proof -
    have "mset (map (\<lambda>(t, i). (i, ?row i)) ?scans) = image_mset (\<lambda>i. (i, ?row i)) (mset (map snd ?scans))"
      by (simp add: case_prod_unfold image_mset.compositionality comp_def)
    then show ?thesis unfolding r(3) p by simp
  qed
  then show ?thesis
    using pr_finalize_shared [OF res(1), of team segss ?row junk_id junk] r(1,2)
    by (auto simp: range_search_mode_def Let_def team_holds_def)
qed

section \<open>Modes 1 and 2: a query shared by threads\<close>

text \<open>\<open>h\<close> is the index of the query \<open>q\<close> that was begun last.\<close>

definition begun_last :: "nat \<Rightarrow> nat \<Rightarrow> 'd segment list \<Rightarrow> bool" where
  "begun_last q h segs \<longleftrightarrow> (\<exists>pre es. segs = pre @ [(q, es)] \<and> h = length pre)"

lemma thread_scan:
  assumes team: "team_holds nt team segss" "t < nt" and last: "begun_last q h (segss ! t)"
    and scan: "adds_hits scan hits probes" "p \<in> set probes"
  shows "\<exists>pr' segs'. scan p h (team ! t) = Inr pr' \<and> team_holds nt (team[t := pr']) (segss[t := segs']) \<and> begun_last q h segs'
    \<and> map fst segs' = map fst (segss ! t)
    \<and> (\<forall>u. team_entries (segss[t := segs']) u = team_entries segss u + (if u = q then mset (hits p) else {#}))"
proof -
  obtain pre es where s: "segss ! t = pre @ [(q, es)]" "h = length pre" using last by (auto simp: begun_last_def)
  have "pr_holds (team ! t) (pre @ [(q, es)])" using team_holds_nth [OF team] s(1) by simp
  from adds_hitsD [OF scan this] obtain pr' where
    r: "scan p h (team ! t) = Inr pr'" "pr_holds pr' (pre @ [(q, es @ hits p)])" unfolding s(2) by blast
  have t: "t < length segss" using team by (simp add: team_holds_def)
  have "team_entries (segss[t := pre @ [(q, es @ hits p)]]) u = team_entries segss u + (if u = q then mset (hits p) else {#})" for u
    by (rule team_entries_update [OF t]) (simp add: s(1))
  then show ?thesis using r team_holds_update [OF team(1) r(2), of t] s by (auto simp: begun_last_def)
qed

definition queries_below :: "nat \<Rightarrow> 'd segment list list \<Rightarrow> bool" where
  "queries_below n segss \<longleftrightarrow> (\<forall>segs \<in> set segss. \<forall>q \<in> set (map fst segs). q < n)"

lemma queries_below_update:
  assumes "queries_below n segss" "\<forall>q \<in> set (map fst segs). q < n"
  shows "queries_below n (segss[t := segs])"
  using assms set_update_subset_insert [of segss t segs] unfolding queries_below_def by blast

lemma range_probes_1:
  assumes scan: "adds_hits scan hits probes" and "team_holds nt team segss" "\<forall>t < nt. begun_last q (hs ! t) (segss ! t)"
    and "queries_below n segss" "\<forall>e \<in> set scans. fst e < nt \<and> snd e < length probes"
  shows "\<exists>team' segss'. fold_result (range_probe_1 scan probes hs) scans team = Inr team' \<and> team_holds nt team' segss' \<and> queries_below n segss'
    \<and> (\<forall>u. team_entries segss' u = team_entries segss u + (if u = q then mset (concat (map (\<lambda>e. hits (probes ! snd e)) scans)) else {#}))"
  using assms(2-)
proof (induction scans arbitrary: team segss)
  case Nil
  then show ?case by auto
next
  case (Cons e scans)
  obtain t ik where e: "e = (t, ik)" by force
  have t: "t < nt" "ik < length probes" "t < length segss" using Cons.prems(1,4) by (simp_all add: e team_holds_def)
  from thread_scan [OF Cons.prems(1) t(1) Cons.prems(2) [rule_format, OF t(1)] scan, of "probes ! ik"] t(2) obtain pr' segs' where
    r: "scan (probes ! ik) (hs ! t) (team ! t) = Inr pr'" "team_holds nt (team[t := pr']) (segss[t := segs'])" "begun_last q (hs ! t) segs'"
    "map fst segs' = map fst (segss ! t)"
    "\<forall>u. team_entries (segss[t := segs']) u = team_entries segss u + (if u = q then mset (hits (probes ! ik)) else {#})" by auto
  have "\<forall>t' < nt. begun_last q (hs ! t') (segss[t := segs'] ! t')" using r(3) Cons.prems(2) t(3) by (auto simp: nth_list_update)
  moreover have "queries_below n (segss[t := segs'])"
    using Cons.prems(3) t(3) by (intro queries_below_update) (auto simp: queries_below_def r(4))
  moreover have "\<forall>e \<in> set scans. fst e < nt \<and> snd e < length probes" using Cons.prems(4) by simp
  moreover have "range_probe_1 scan probes hs e team = Inr (team[t := pr'])" using r(1) by (simp add: range_probe_1_def e)
  ultimately obtain team' segss' where
    f: "fold_result (range_probe_1 scan probes hs) (e # scans) team = Inr team'" "team_holds nt team' segss'" "queries_below n segss'"
    "\<forall>u. team_entries segss' u = team_entries (segss[t := segs']) u
      + (if u = q then mset (concat (map (\<lambda>e. hits (probes ! snd e)) scans)) else {#})"
    using Cons.IH [OF r(2)] by auto
  have "\<forall>u. team_entries segss' u = team_entries segss u
      + (if u = q then mset (concat (map (\<lambda>e. hits (probes ! snd e)) (e # scans))) else {#})"
    using f(4) r(5) by (simp add: e)
  then show ?case using f(1-3) by blast
qed

lemma team_begins:
  assumes "team_holds nt team segss"
  shows "team_holds nt (map snd (map (pr_new_result q) team)) (map (\<lambda>segs. segs @ [(q, [])]) segss)"
    and "\<forall>t < nt. begun_last q (map fst (map (pr_new_result q) team) ! t) (map (\<lambda>segs. segs @ [(q, [])]) segss ! t)"
    and "team_entries (map (\<lambda>segs. segs @ [(q, [])]) segss) u = team_entries segss u"
proof -
  have h: "length segss = nt" "length team = nt" using assms by (auto simp: team_holds_def dest: list_all2_lengthD)
  have b: "pr_holds (snd (pr_new_result q (team ! t))) (segss ! t @ [(q, [])])" "fst (pr_new_result q (team ! t)) = length (segss ! t)"
    if "t < nt" for t
    using pr_holds_new_result [OF team_holds_nth [OF assms that], of q] by simp_all
  then show "team_holds nt (map snd (map (pr_new_result q) team)) (map (\<lambda>segs. segs @ [(q, [])]) segss)"
    using h by (simp add: team_holds_def list_all2_conv_all_nth)
  show "\<forall>t < nt. begun_last q (map fst (map (pr_new_result q) team) ! t) (map (\<lambda>segs. segs @ [(q, [])]) segss ! t)"
    using b(2) h by (auto simp: begun_last_def)
  show "team_entries (map (\<lambda>segs. segs @ [(q, [])]) segss) u = team_entries segss u"
    by (induction segss) (simp_all add: team_entries_def)
qed

lemma mset_concat_shared:
  assumes "mset (map snd scans) = mset [0..<length probes]"
  shows "mset (concat (map (\<lambda>e. hits (probes ! snd e)) scans)) = mset (concat (map hits probes))"
proof -
  have "mset (concat (map (\<lambda>e. hits (probes ! snd e)) scans)) = mset (concat (map (\<lambda>ik. hits (probes ! ik)) (map snd scans)))"
    by (simp add: comp_def)
  also have "\<dots> = mset (concat (map (\<lambda>ik. hits (probes ! ik)) [0..<length probes]))" by (rule mset_concat_cong [OF assms])
  also have "map (\<lambda>ik. hits (probes ! ik)) [0..<length probes] = map hits probes" by (rule nth_equalityI) simp_all
  finally show ?thesis .
qed

lemma range_queries_1:
  assumes scan: "\<forall>i < n. adds_hits (scan i) (hits i) (probes i)" "\<forall>i < n. length (probes i) = m"
    and sch: "\<forall>i < n. shares_out nt m (scans i)" and start: "team_holds nt team (replicate nt [])"
  shows "k \<le> n \<Longrightarrow> \<exists>team' segss. fold_result (range_query_1 scan probes scans) [0..<k] team = Inr team' \<and> team_holds nt team' segss
    \<and> queries_below n segss \<and> (\<forall>u. team_entries segss u = (if u < k then mset (concat (map (hits u) (probes u))) else {#}))"
proof (induction k)
  case 0
  then show ?case using start by (intro exI [of _ team] exI [of _ "replicate nt []"]) (simp add: team_entries_start queries_below_def)
next
  case (Suc k)
  then obtain team1 segss where r: "fold_result (range_query_1 scan probes scans) [0..<k] team = Inr team1" "team_holds nt team1 segss"
    "queries_below n segss" "\<forall>u. team_entries segss u = (if u < k then mset (concat (map (hits u) (probes u))) else {#})" by auto
  have k: "k < n" using Suc.prems by simp
  let ?hs = "map fst (map (pr_new_result k) team1)" and ?team = "map snd (map (pr_new_result k) team1)"
  let ?segss = "map (\<lambda>segs. segs @ [(k, [])]) segss"
  note b = team_begins [OF r(2), of k]
  have s: "mset (map snd (scans k)) = mset [0..<length (probes k)]" using sch k scan(2) by (simp add: shares_out_def)
  have sc: "\<forall>e \<in> set (scans k). fst e < nt \<and> snd e < length (probes k)"
    using shares_out_less [OF sch [rule_format, OF k]] scan(2) k by simp
  have qb: "queries_below n ?segss" using r(3) k by (auto simp: queries_below_def)
  from range_probes_1 [OF scan(1) [rule_format, OF k] b(1,2) qb sc] obtain team' segss' where
    f: "fold_result (range_probe_1 (scan k) (probes k) ?hs) (scans k) ?team = Inr team'" "team_holds nt team' segss'" "queries_below n segss'"
    "\<forall>u. team_entries segss' u = team_entries ?segss u
      + (if u = k then mset (concat (map (\<lambda>e. hits k (probes k ! snd e)) (scans k))) else {#})" by auto
  have "fold_result (range_query_1 scan probes scans) [0..<Suc k] team = Inr team'"
    unfolding upt_Suc_append [OF le0] fold_result_snoc r(1) bind_result.simps range_query_1_def Let_def by (rule f(1))
  moreover have "team_entries segss' u = (if u < Suc k then mset (concat (map (hits u) (probes u))) else {#})" for u
    using f(4) r(4) b(3) mset_concat_shared [OF s, of "hits k"] by (auto simp: less_Suc_eq)
  ultimately show ?case using f(2,3) by blast
qed

lemma range_merge:
  assumes team: "team_holds nt team segss" "queries_below n segss" "0 < nt" and res: "fresh_result n res"
  shows "\<exists>res' rows. pr_merge junk_id junk (map Some team @ replicate k None) res = Inr res' \<and> range_shows res' rows \<and> length rows = n
    \<and> (\<forall>i < n. mset (rows ! i) = team_entries segss i)"
proof -
  let ?prs = "map Some team @ replicate k None"
  have p: "concat (map (case_option [] (\<lambda>pr. [pr])) ?prs) = team"
  proof -
    have "concat (map (case_option [] (\<lambda>pr. [pr])) (map Some team)) = team" by (induction team) simp_all
    moreover have "concat (map (case_option [] (\<lambda>pr. [pr])) (replicate k None)) = []" by (induction k) simp_all
    ultimately show ?thesis by simp
  qed
  have t: "list_all2 pr_holds team segss" "length team = nt" using team(1) by (auto simp: team_holds_def dest: list_all2_lengthD)
  have ne: "?prs \<noteq> []" "hd ?prs \<noteq> None" using t(2) team(3) by (cases team; simp)+
  have lt: "\<forall>sg \<in> set (concat segss). fst sg < n" using team(2) by (auto simp: queries_below_def)
  have "list_all2 pr_holds (concat (map (case_option [] (\<lambda>pr. [pr])) ?prs)) segss" unfolding p by (rule t(1))
  from pr_merge_shows [OF res this lt ne, of junk_id junk] obtain res' where
    r: "pr_merge junk_id junk ?prs res = Inr res'" "range_shows res' (map (query_entries (concat segss)) [0..<n])" by blast
  then show ?thesis
    by (intro exI [of _ res'] exI [of _ "map (query_entries (concat segss)) [0..<n]"]) (simp add: team_entries_def)
qed

lemma range_mode_1:
  assumes scan: "\<forall>i < n. adds_hits (scan i) (hits i) (probes i)" "\<forall>i < n. length (probes i) = m"
    and res: "fresh_result n res" "0 < rr_buffer_size res"
    and sch: "\<forall>i < n. shares_out (sch_threads sch) m (sch_scans sch i)" "0 < sch_threads sch"
  shows "\<exists>res' rows. range_search_mode junk_id junk 1 scan sch max_threads n m probes res = Inr res' \<and> range_shows res' rows \<and> length rows = n
    \<and> (\<forall>i < n. mset (rows ! i) = mset (concat (map (hits i) (probes i))))"
proof -
  let ?nt = "sch_threads sch"
  from range_queries_1 [OF scan sch(1) team_holds_start [OF res(2)] order_refl] obtain team segss where
    r: "fold_result (range_query_1 scan probes (sch_scans sch)) [0..<n] (replicate ?nt (pr_new (rr_buffer_size res))) = Inr team"
    "team_holds ?nt team segss" "queries_below n segss"
    "\<forall>u. team_entries segss u = (if u < n then mset (concat (map (hits u) (probes u))) else {#})" by blast
  from range_merge [OF r(2,3) sch(2) res(1), of junk_id junk "max_threads - length team"] r(1,4) show ?thesis
    by (auto simp: range_search_mode_def Let_def)
qed

text \<open>Mode 2: every thread has begun a query or none.\<close>

definition pairs_hold :: "nat \<Rightarrow> (nat option \<times> 'd partial_result) list \<Rightarrow> 'd segment list list \<Rightarrow> bool" where
  "pairs_hold nt st segss \<longleftrightarrow> team_holds nt (map snd st) segss
     \<and> (\<forall>t < nt. case fst (st ! t) of None \<Rightarrow> True | Some h \<Rightarrow> \<exists>q. begun_last q h (segss ! t))"

text \<open>The thread is made ready for the query \<open>i\<close>.\<close>

lemma pair_ready:
  assumes "pairs_hold nt st segss" "t < nt"
  shows "\<exists>h pr segs. (case st ! t of
        (Some qres, pr) \<Rightarrow> if fst (pr_queries pr ! qres) \<noteq> i then pr_new_result i pr else (qres, pr)
      | (None, pr) \<Rightarrow> pr_new_result i pr) = (h, pr)
    \<and> pr_holds pr segs \<and> begun_last i h segs \<and> set (map fst segs) \<subseteq> insert i (set (map fst (segss ! t)))
    \<and> (\<forall>u. query_entries segs u = query_entries (segss ! t) u)"
proof -
  obtain q pr where st: "st ! t = (q, pr)" by force
  have h: "pr_holds pr (segss ! t)"
    using assms st team_holds_nth [of nt "map snd st" segss t] by (auto simp: pairs_hold_def team_holds_def dest: list_all2_lengthD)
  note new = pr_holds_new_result [OF h, of i]
  have bg: "\<exists>h pr' segs. pr_new_result i pr = (h, pr') \<and> pr_holds pr' segs \<and> begun_last i h segs
    \<and> set (map fst segs) \<subseteq> insert i (set (map fst (segss ! t))) \<and> (\<forall>u. query_entries segs u = query_entries (segss ! t) u)"
    using new by (intro exI [of _ "fst (pr_new_result i pr)"] exI [of _ "snd (pr_new_result i pr)"] exI [of _ "segss ! t @ [(i, [])]"])
      (auto simp: begun_last_def prod_eq_iff)
  show ?thesis
  proof (cases q)
    case None
    then show ?thesis using bg st by simp
  next
    case (Some qres)
    then obtain u where u: "begun_last u qres (segss ! t)" using assms st by (force simp: pairs_hold_def)
    then obtain pre es where s: "segss ! t = pre @ [(u, es)]" "qres = length pre" by (auto simp: begun_last_def)
    have "fst (pr_queries pr ! qres) = u" using h s by (simp add: pr_holds_def nth_append)
    then show ?thesis using bg st Some h u by (cases "u = i") auto
  qed
qed

lemma range_pairs_2:
  assumes scan: "\<forall>i < n. adds_hits (scan i) (hits i) (probes i)" "\<forall>i < n. length (probes i) = m"
    and start: "team_holds nt team (replicate nt [])" and sch: "\<forall>e \<in> set scans. fst e < nt \<and> snd e < n * m"
  shows "\<exists>st segss. fold_result (range_pair_2 scan m probes) scans (map (Pair None) team) = Inr st \<and> pairs_hold nt st segss
    \<and> queries_below n segss \<and> (\<forall>u < n. team_entries segss u = pair_offers (\<lambda>i ik. hits i (probes i ! ik)) m (map snd scans) u)"
  using sch
proof (induction scans rule: rev_induct)
  case Nil
  have "length team = nt" using start by (auto simp: team_holds_def dest: list_all2_lengthD)
  then have "pairs_hold nt (map (Pair None) team) (replicate nt [])" using start by (simp add: pairs_hold_def comp_def)
  then show ?case
    by (intro exI [of _ "map (Pair None) team"] exI [of _ "replicate nt []"]) (simp add: team_entries_start queries_below_def pair_offers_def)
next
  case (snoc e scans)
  let ?h = "\<lambda>i ik. hits i (probes i ! ik)"
  obtain t ij where e: "e = (t, ij)" by force
  from snoc obtain st segss where r: "fold_result (range_pair_2 scan m probes) scans (map (Pair None) team) = Inr st" "pairs_hold nt st segss"
    "queries_below n segss" "\<forall>u < n. team_entries segss u = pair_offers ?h m (map snd scans) u" by auto
  define i ik where "i = ij div m" and "ik = ij mod m"
  have t: "t < nt" and ij: "ij < n * m" using snoc.prems by (simp_all add: e)
  then have "0 < m" by (cases m) auto
  then have i: "i < n" "ik < m" using ij by (simp_all add: i_def ik_def less_mult_imp_div_less)
  have p: "probes i ! ik \<in> set (probes i)" using i scan(2) by simp
  have team: "team_holds nt (map snd st) segss" "t < length st" "t < length segss"
    using r(2) t by (auto simp: pairs_hold_def team_holds_def dest: list_all2_lengthD)
  from pair_ready [OF r(2) t, of i] obtain h pr segs where
    b: "(case st ! t of
        (Some qres, pr) \<Rightarrow> if fst (pr_queries pr ! qres) \<noteq> i then pr_new_result i pr else (qres, pr)
      | (None, pr) \<Rightarrow> pr_new_result i pr) = (h, pr)" "pr_holds pr segs" "begun_last i h segs"
    "set (map fst segs) \<subseteq> insert i (set (map fst (segss ! t)))" "\<forall>u. query_entries segs u = query_entries (segss ! t) u" by blast
  let ?team = "(map snd st)[t := pr]" and ?segss = "segss[t := segs]"
  have te: "team_holds nt ?team ?segss" by (rule team_holds_update [OF team(1) b(2)])
  have "begun_last i h (?segss ! t)" using b(3) team(3) by simp
  from thread_scan [OF te t this scan(1) [rule_format, OF i(1)] p] obtain pr' segs' where
    s: "scan i (probes i ! ik) h pr = Inr pr'" "team_holds nt ((map snd st)[t := pr']) (segss[t := segs'])" "begun_last i h segs'"
    "map fst segs' = map fst segs" "\<forall>u. team_entries (segss[t := segs']) u = team_entries ?segss u + (if u = i then mset (?h i ik) else {#})"
    using team(2,3) by auto
  let ?st = "st[t := (Some h, pr')]"
  have "range_pair_2 scan m probes e st = Inr ?st"
    unfolding range_pair_2_def e prod.case i_def [symmetric] ik_def [symmetric] Let_def b(1) s(1) by simp
  then have run: "fold_result (range_pair_2 scan m probes) (scans @ [e]) (map (Pair None) team) = Inr ?st"
    by (simp add: fold_result_snoc r(1))
  have "team_holds nt (map snd ?st) (segss[t := segs'])" using s(2) by (simp add: map_update)
  moreover have "case fst (?st ! t') of None \<Rightarrow> True | Some h \<Rightarrow> \<exists>q. begun_last q h (segss[t := segs'] ! t')" if "t' < nt" for t'
    using r(2) s(3) team(2,3) that by (cases "t = t'") (auto simp: pairs_hold_def split: option.splits)
  ultimately have hold: "pairs_hold nt ?st (segss[t := segs'])" by (simp add: pairs_hold_def)
  have below: "queries_below n (segss[t := segs'])"
  proof (rule queries_below_update [OF r(3)])
    have "\<forall>q \<in> set (map fst (segss ! t)). q < n" using r(3) nth_mem [OF team(3)] unfolding queries_below_def by blast
    then show "\<forall>q \<in> set (map fst segs'). q < n" using b(4) i(1) unfolding s(4) by blast
  qed
  have "team_entries ?segss u = team_entries segss u" for u
    using team_entries_update [OF team(3), of segs u "{#}"] b(5) by simp
  then have "team_entries (segss[t := segs']) u = pair_offers ?h m (map snd (scans @ [e])) u" if "u < n" for u
    using s(5) r(4) that by (simp add: pair_offers_def e i_def ik_def)
  then show ?case using run hold below by blast
qed

lemma range_mode_2:
  assumes scan: "\<forall>i < n. adds_hits (scan i) (hits i) (probes i)" "\<forall>i < n. length (probes i) = m"
    and res: "fresh_result n res" "0 < rr_buffer_size res"
    and sch: "shares_out (sch_threads sch) (n * m) (sch_scans sch 0)" "0 < sch_threads sch"
  shows "\<exists>res' rows. range_search_mode junk_id junk 2 scan sch max_threads n m probes res = Inr res' \<and> range_shows res' rows \<and> length rows = n
    \<and> (\<forall>i < n. mset (rows ! i) = mset (concat (map (hits i) (probes i))))"
proof -
  let ?nt = "sch_threads sch" and ?scans = "sch_scans sch 0"
  have p: "mset (map snd ?scans) = mset [0..<n * m]" using sch(1) by (simp add: shares_out_def)
  have "\<forall>e \<in> set ?scans. fst e < ?nt \<and> snd e < n * m" using shares_out_less [OF sch(1)] by blast
  from range_pairs_2 [OF scan team_holds_start [OF res(2)] this] obtain st segss where
    r: "fold_result (range_pair_2 scan m probes) ?scans (map (Pair None) (replicate ?nt (pr_new (rr_buffer_size res)))) = Inr st"
    "pairs_hold ?nt st segss" "queries_below n segss"
    "\<forall>u < n. team_entries segss u = pair_offers (\<lambda>i ik. hits i (probes i ! ik)) m (map snd ?scans) u" by blast
  have te: "team_holds ?nt (map snd st) segss" using r(2) by (simp add: pairs_hold_def)
  have rows: "team_entries segss i = mset (concat (map (hits i) (probes i)))" if i: "i < n" for i
  proof -
    have "map (\<lambda>ik. hits i (probes i ! ik)) [0..<m] = map (hits i) (probes i)" using scan(2) i by (intro nth_equalityI) simp_all
    then show ?thesis using r(4) i pair_offers_all [OF p i, of "\<lambda>i ik. hits i (probes i ! ik)"] by simp
  qed
  from range_merge [OF te r(3) sch(2) res(1), of junk_id junk "max_threads - length st"] r(1) rows show ?thesis
    by (auto simp: range_search_mode_def Let_def)
qed

section \<open>\<open>range_search\<close>\<close>

definition fair_range_schedule :: "int \<Rightarrow> nat \<Rightarrow> nat \<Rightarrow> ivf_schedule \<Rightarrow> bool" where
  "fair_range_schedule pmode n m sch \<longleftrightarrow> 0 < sch_threads sch
     \<and> (pmode = 0 \<longrightarrow> shares_out (sch_threads sch) n (sch_scans sch 0))
     \<and> (pmode = 1 \<longrightarrow> (\<forall>i < n. shares_out (sch_threads sch) m (sch_scans sch i)))
     \<and> (pmode = 2 \<longrightarrow> shares_out (sch_threads sch) (n * m) (sch_scans sch 0))"

lemma range_search_mode_rows:
  assumes scan: "\<forall>i < n. adds_hits (scan i) (hits i) (probes i)" "\<forall>i < n. length (probes i) = m"
    and res: "fresh_result n res" "0 < rr_buffer_size res" and sch: "fair_range_schedule pmode n m sch" "pmode \<in> {0, 1, 2}"
  shows "\<exists>res' rows. range_search_mode junk_id junk pmode scan sch max_threads n m probes res = Inr res' \<and> range_shows res' rows \<and> length rows = n
    \<and> (\<forall>i < n. mset (rows ! i) = mset (concat (map (hits i) (probes i))) \<and> (pmode = 0 \<longrightarrow> rows ! i = concat (map (hits i) (probes i))))"
proof -
  consider "pmode = 0" | "pmode = 1" | "pmode = 2" using sch(2) by blast
  then show ?thesis
  proof cases
    case 1
    then have "shares_out (sch_threads sch) n (sch_scans sch 0)" using sch(1) by (simp add: fair_range_schedule_def)
    from range_mode_0 [OF scan(1) res this, of junk_id junk max_threads m] obtain res' where
      "range_search_mode junk_id junk 0 scan sch max_threads n m probes res = Inr res'"
      "range_shows res' (map (\<lambda>i. concat (map (hits i) (probes i))) [0..<n])" by blast
    then show ?thesis using 1
      by (intro exI [of _ res'] exI [of _ "map (\<lambda>i. concat (map (hits i) (probes i))) [0..<n]"]) simp
  next
    case 2
    then show ?thesis using range_mode_1 [OF scan res, of sch junk_id junk max_threads] sch(1) by (auto simp: fair_range_schedule_def)
  next
    case 3
    then show ?thesis using range_mode_2 [OF scan res, of sch junk_id junk max_threads] sch(1) by (auto simp: fair_range_schedule_def)
  qed
qed

lemma ivf_range_search_spec:
  fixes ivf :: "'s ivf" and cd :: "('v, 'd :: linorder) ivf_codec"
  defines "C \<equiv> \<lambda>lo hi. ivf_comparator lo hi (ivf_similarity ivf)"
  assumes lists: "shows_lists (il_view_of ops (ivf_invlists ivf)) (ivf_nlist ivf) (ivf_code_size ivf) L"
    and sel: "\<forall>es \<in> set L. sel_decides (ivf_sel_of params) P es"
    and m: "m = ivf_nprobe_of ivf params" "0 < m" and mode: "ivf_parallel_mode ivf \<in> {0, 1, 2}"
    and fair: "fair_range_schedule (ivf_parallel_mode ivf) (length xs) m sch"
    and cq: "coarse_ok cq m (ivf_nlist ivf) xs" and res: "fresh_result (length xs) res" "0 < rr_buffer_size res"
  shows "\<exists>res' rows. ivf_range_search lo hi junk_id junk ops cd cq sch max_threads ivf xs radius params res = Inr res'
    \<and> range_shows res' rows \<and> length rows = length xs
    \<and> (\<forall>i < length xs. mset (rows ! i) = mset (in_radius (C lo hi) radius (probed_offers cd cq False P L m 0 (xs ! i)))
         \<and> (ivf_parallel_mode ivf = 0 \<longrightarrow> rows ! i = in_radius (C lo hi) radius (probed_offers cd cq False P L m 0 (xs ! i))))"
proof -
  let ?C = "C lo hi"
  obtain coarse_dis keys where c: "coarse_rows cq m xs = (coarse_dis, keys)" by force
  note rows = coarse_rows_ok [OF cq c]
  let ?pr = "query_probes m keys coarse_dis"
  let ?scan = "\<lambda>i. scan_list_range junk_id junk (il_view_of ops (ivf_invlists ivf)) (ivf_nlist ivf) (ivf_code_size ivf) ?C radius
    (ivf_sel_of params) False (ic_distance cd (xs ! i))"
  let ?hits = "\<lambda>i p. in_radius ?C radius (selected_offers False P (ic_distance cd (xs ! i)) L (probe_codes L p))"
  have scan: "\<forall>i < length xs. adds_hits (?scan i) (?hits i) (?pr i)"
    unfolding adds_hits_def
  proof (intro allI impI ballI)
    fix i q and p :: "idx_t \<times> 'd" and pr :: "'d partial_result" and segs :: "'d segment list" and es :: "('d \<times> idx_t) list"
    assume "i < length xs" "p \<in> set (?pr i)" and pr: "pr_holds pr (segs @ [(q, es)])"
    then have "fst p < int (ivf_nlist ivf)" using rows(3) query_probes_keys by fast
    from scan_list_range_holds [OF lists this sel pr]
    show "\<exists>pr'. ?scan i p (length segs) pr = Inr pr' \<and> pr_holds pr' (segs @ [(q, es @ ?hits i p)])" .
  qed
  have len: "\<forall>i < length xs. length (?pr i) = m" using length_query_probes [OF rows(1,2)] by blast
  have all: "concat (map (?hits i) (?pr i)) = in_radius ?C radius (probed_offers cd cq False P L m 0 (xs ! i))" if "i < length xs" for i
    using rows(4) [OF that]
    by (simp add: probed_offers_def query_codes_def selected_offers_concat in_radius_concat comp_def)
  have g: "\<not> \<not> 0 < m" using m(2) by simp
  have run: "ivf_range_search lo hi junk_id junk ops cd cq sch max_threads ivf xs radius params res =
      range_search_mode junk_id junk (ivf_parallel_mode ivf) ?scan sch max_threads (length xs) m ?pr res"
    unfolding ivf_range_search_def ivf_range_search_preassigned_def Let_def ivf_nprobe_of_def [symmetric] ivf_sel_of_def [symmetric]
      m(1) [symmetric] c prod.case C_def query_probes_def [symmetric] by (simp only: g if_False)
  from range_search_mode_rows [OF scan len res fair mode, of junk_id junk max_threads] all
  show ?thesis unfolding run by auto
qed

section \<open>Properties\<close>

text \<open>
  C8. \<open>IndexIVF::range_search\<close> in the parallel modes 0, 1 and 2, for every team of threads and every way of sharing out the
  work: the part of a query in the result tables holds the selected entries of the probed lists with a distance within the
  radius, each once, whatever the size of the buffers; with mode 0 in the order of the lists.
\<close>

theorem ivf_range_search_within:
  assumes "shows_lists (il_view_of ops (ivf_invlists ivf)) (ivf_nlist ivf) (ivf_code_size ivf) L"
    and "\<forall>es \<in> set L. sel_decides (ivf_sel_of params) P es"
    and "m = ivf_nprobe_of ivf params" "0 < m" and "ivf_parallel_mode ivf \<in> {0, 1, 2}"
    and "fair_range_schedule (ivf_parallel_mode ivf) (length xs) m sch"
    and "coarse_ok cq m (ivf_nlist ivf) xs" and "fresh_result (length xs) res" "0 < rr_buffer_size res"
  shows "\<exists>res' rows. ivf_range_search lo hi junk_id junk ops cd cq sch max_threads ivf xs radius params res = Inr res'
    \<and> range_shows res' rows \<and> length rows = length xs
    \<and> (\<forall>i < length xs. mset (rows ! i) =
          mset (in_radius (ivf_comparator lo hi (ivf_similarity ivf)) radius (probed_offers cd cq False P L m 0 (xs ! i)))
         \<and> (ivf_parallel_mode ivf = 0 \<longrightarrow>
              rows ! i = in_radius (ivf_comparator lo hi (ivf_similarity ivf)) radius (probed_offers cd cq False P L m 0 (xs ! i))))"
  using assms by (rule ivf_range_search_spec)

text \<open>Two threads share the four probes of two queries; buffers of one entry.\<close>

definition tiny_buffers :: "nat \<Rightarrow> int range_result" where
  "tiny_buffers nq = (rr_new nq)\<lparr>rr_buffer_size := 1\<rparr>"

theorem ivf_range_search_within_witness:
  "\<exists>res' rows. ivf_range_search (-1000) 1000 0 0 ail_ops byte_codec two_lists two_threads 4 (small_ivf 2) [3, 10] 2 None (tiny_buffers 2) = Inr res'
    \<and> range_shows res' rows \<and> length rows = 2 \<and> mset (rows ! 0) = {#(1, 2), (0, 3)#} \<and> rows ! 1 = []"
proof -
  let ?L = "[[(1, [1]), (2, [2])], [(3, [3])], [(4, [4]), (5, [5])]] :: entry list list"
  have m: "2 = ivf_nprobe_of (small_ivf 2) None" by (simp add: ivf_nprobe_of_def small_ivf_def)
  have sel: "\<forall>es \<in> set ?L. sel_decides (ivf_sel_of None) (\<lambda>_. True) es" by (simp add: sel_decides_def ivf_sel_of_def)
  have q: "snd (two_lists 2 3) = [0, 1]" "snd (two_lists 2 10) = [1, 2]" "fst (two_lists 2 x) = [0, 0]" for x
    by (simp_all add: two_lists_def numeral_2_eq_2)
  have cq: "coarse_ok two_lists 2 (ivf_nlist (small_ivf 2)) [3, 10]" by (simp add: coarse_ok_def q small_ivf_def)
  have fair: "fair_range_schedule (ivf_parallel_mode (small_ivf 2)) (length [3, 10 :: int]) 2 two_threads"
    by (simp add: fair_range_schedule_def shares_out_def small_ivf_def two_threads_def upt_rec) (simp add: numeral_2_eq_2 numeral_3_eq_3)
  have res: "fresh_result (length [3, 10 :: int]) (tiny_buffers 2)" "0 < rr_buffer_size (tiny_buffers 2)"
    by (simp_all add: tiny_buffers_def fresh_result_def rr_new_def numeral_2_eq_2)
  have lists: "shows_lists (il_view_of ail_ops (ivf_invlists (small_ivf 2))) (ivf_nlist (small_ivf 2)) (ivf_code_size (small_ivf 2)) ?L"
    using small_ivf_shows [of 2] by (simp add: small_ivf_def)
  have C: "ivf_comparator (-1000) 1000 (ivf_similarity (small_ivf 2)) = CMax (-1000) (1000 :: int)"
    by (simp add: ivf_comparator_def small_ivf_def)
  have o': "in_radius (CMax (-1000) 1000) 2 (probed_offers byte_codec two_lists False (\<lambda>_. True) ?L 2 0 3) = [(1, 2), (0, 3)]"
    "in_radius (CMax (-1000) 1000) 2 (probed_offers byte_codec two_lists False (\<lambda>_. True) ?L 2 0 10) = []"
    unfolding probed_offers_def q by (simp_all add: query_codes_def probe_codes_def selected_offers_def byte_codec_def upt_rec in_radius_def)
  have two: "(\<forall>i < length [3, 10 :: int]. Q i) \<longleftrightarrow> Q 0 \<and> Q 1" for Q by (auto simp: less_Suc_eq)
  have "ivf_parallel_mode (small_ivf 2) \<in> {0, 1, 2}" by (simp add: small_ivf_def)
  from ivf_range_search_within [OF lists sel m _ this fair cq res, of "-1000" 1000 0 0 byte_codec 4 2] obtain res' rows where
    r: "ivf_range_search (-1000) 1000 0 0 ail_ops byte_codec two_lists two_threads 4 (small_ivf 2) [3, 10] 2 None (tiny_buffers 2) = Inr res'"
    "range_shows res' rows" "length rows = 2" "mset (rows ! 0) = {#(1, 2), (0, 3)#}" "rows ! 1 = []"
    unfolding C two by (auto simp: o')
  then show ?thesis by blast
qed

text \<open>
  \<open>range_search\<close> does not know the other modes of \<open>search\<close>: with mode 3 (queries in parallel, one at a time) and with the
  bit \<open>PARALLEL_MODE_NO_HEAP_INIT\<close>, which it masks out where it decides on a parallel section, it throws, whatever the
  index holds and the query is.
\<close>

theorem range_search_other_modes_throw:
  assumes "0 < ivf_nprobe_of ivf params" "ivf_parallel_mode ivf \<notin> {0, 1, 2}"
  shows "ivf_range_search lo hi junk_id junk ops cd cq sch max_threads ivf xs radius params res = Inl (Throw ''parallel_mode not supported'')"
  using assms
  by (simp add: ivf_range_search_def ivf_range_search_preassigned_def range_search_mode_def ivf_nprobe_of_def case_prod_beta Let_def)

theorem range_search_other_modes_throw_witness:
  "ivf_range_search (-1000) 1000 0 0 ail_ops byte_codec two_lists two_threads 4 (small_ivf 3) [3, 10] 2 None (tiny_buffers 2) =
    Inl (Throw ''parallel_mode not supported'')"
  by (rule range_search_other_modes_throw) (simp_all add: ivf_nprobe_of_def small_ivf_def)

end
