(* ===== verification/Range_Blocks.thy ===== *)
theory Range_Blocks
  imports Range_Handlers
begin

text \<open>
  The range handler on blocks of the distance table: whatever the sizes of the blocks, a query gets the entries within the
  radius in the order of the database.
\<close>

section \<open>One block\<close>

lemma rb_add_row_holds:
  assumes "pr_holds pr segs" "\<forall>j. j0 \<le> j \<and> j < j1 \<longrightarrow> ip_line ! (j - j0) = dis j"
  shows "\<exists>pr'. rb_add_row junk_id junk C radius j0 j1 ip_line i pr = Inr pr'
    \<and> pr_holds pr' (segs @ [(i, in_radius C radius (map (\<lambda>j. (dis j, int j)) [j0..<j1]))])"
proof -
  let ?step = "\<lambda>j pr. let dis = ip_line ! (j - j0) in
      if cmp C radius dis then pr_add junk_id junk (length segs) dis (int j) pr else Inr pr"
  obtain pr0 where pr0: "pr_new_result i pr = (length segs, pr0)" "pr_holds pr0 (segs @ [(i, [])])"
    using pr_holds_new_result [OF assms(1), of i] by (metis prod.collapse)
  then have b: "rb_add_row junk_id junk C radius j0 j1 ip_line i pr = fold_result ?step [j0..<j1] pr0" "pr_holds pr0 (segs @ [(i, [])])"
    by (simp_all add: rb_add_row_def)
  have "\<exists>pr'. fold_result ?step [j0..<m] pr0 = Inr pr'
      \<and> pr_holds pr' (segs @ [(i, in_radius C radius (map (\<lambda>j. (dis j, int j)) [j0..<m]))])" if "m \<le> j1" for m
    using that
  proof (induction m)
    case 0
    then show ?case using b(2) by simp
  next
    case (Suc m)
    then obtain pr1 where pr1: "fold_result ?step [j0..<m] pr0 = Inr pr1"
      "pr_holds pr1 (segs @ [(i, in_radius C radius (map (\<lambda>j. (dis j, int j)) [j0..<m]))])" by auto
    show ?case
    proof (cases "j0 \<le> m")
      case False
      then show ?thesis using b(2) by simp
    next
      case True
      then have d: "ip_line ! (m - j0) = dis m" using assms(2) Suc.prems by simp
      have w: "in_radius C radius (map (\<lambda>j. (dis j, int j)) [j0..<Suc m]) =
          in_radius C radius (map (\<lambda>j. (dis j, int j)) [j0..<m]) @ (if cmp C radius (dis m) then [(dis m, int m)] else [])"
        using True by (simp add: in_radius_def)
      have f: "fold_result ?step [j0..<Suc m] pr0 =
          (if cmp C radius (dis m) then pr_add junk_id junk (length segs) (dis m) (int m) pr1 else Inr pr1)"
        unfolding upt_Suc_append [OF True] fold_result_snoc pr1(1) bind_result.simps d by (simp only: Let_def d)
      show ?thesis unfolding w f using pr1(2) pr_holds_add [OF pr1(2), of junk_id junk "dis m" "int m"] by simp
    qed
  qed
  then show ?thesis unfolding b(1) by blast
qed

lemma distance_block_nth:
  assumes "i0 \<le> i" "i < i1" "j0 \<le> j" "j < j1"
  shows "drop ((i - i0) * (j1 - j0)) (distance_block dis i0 i1 j0 j1) ! (j - j0) = dis i j"
proof -
  let ?rows = "map (\<lambda>i. map (dis i) [j0..<j1]) [i0..<i1]"
  have "all_length (j1 - j0) ?rows" by (auto simp: all_length_def)
  from drop_concat_all [OF this, of "i - i0"]
  have d: "drop ((i - i0) * (j1 - j0)) (distance_block dis i0 i1 j0 j1) = concat (drop (i - i0) ?rows)" by (simp add: distance_block_def)
  have "drop (i - i0) ?rows = map (dis i) [j0..<j1] # drop (Suc (i - i0)) ?rows"
    using assms(1,2) upt_conv_Cons [OF assms(2)] by (simp add: drop_map)
  moreover have "j - j0 < j1 - j0" using assms(3,4) by simp
  ultimately show ?thesis unfolding d using assms(3,4) by (simp add: nth_append)
qed

text \<open>The entries of query \<open>i\<close> in the columns of a block.\<close>

definition columns_entries :: "'d comparator \<Rightarrow> 'd \<Rightarrow> (nat \<Rightarrow> nat \<Rightarrow> 'd) \<Rightarrow> nat \<Rightarrow> nat \<Rightarrow> nat \<Rightarrow> ('d \<times> idx_t) list" where
  "columns_entries C radius dis j0 j1 i = in_radius C radius (map (\<lambda>j. (dis i j, int j)) [j0..<j1])"

lemma rb_add_rows_hold:
  assumes "pr_holds pr segs" "i0 \<le> m" "m \<le> i1"
  shows "\<exists>pr'. fold_result (\<lambda>i. rb_add_row junk_id junk C radius j0 j1 (drop ((i - i0) * (j1 - j0)) (distance_block dis i0 i1 j0 j1)) i)
        [i0..<m] pr = Inr pr'
    \<and> pr_holds pr' (segs @ map (\<lambda>i. (i, columns_entries C radius dis j0 j1 i)) [i0..<m])"
  using assms(2,3)
proof (induction m rule: dec_induct)
  case base
  then show ?case using assms(1) by simp
next
  case (step m)
  then obtain pr1 where pr1:
    "fold_result (\<lambda>i. rb_add_row junk_id junk C radius j0 j1 (drop ((i - i0) * (j1 - j0)) (distance_block dis i0 i1 j0 j1)) i) [i0..<m] pr = Inr pr1"
    "pr_holds pr1 (segs @ map (\<lambda>i. (i, columns_entries C radius dis j0 j1 i)) [i0..<m])" by auto
  have "\<forall>j. j0 \<le> j \<and> j < j1 \<longrightarrow> drop ((m - i0) * (j1 - j0)) (distance_block dis i0 i1 j0 j1) ! (j - j0) = dis m j"
    using distance_block_nth [of i0 m i1 j0 _ j1 dis] step by simp
  from rb_add_row_holds [OF pr1(2) this, of junk_id junk C radius m] obtain pr2 where
    "rb_add_row junk_id junk C radius j0 j1 (drop ((m - i0) * (j1 - j0)) (distance_block dis i0 i1 j0 j1)) m pr1 = Inr pr2"
    "pr_holds pr2 ((segs @ map (\<lambda>i. (i, columns_entries C radius dis j0 j1 i)) [i0..<m]) @ [(m, columns_entries C radius dis j0 j1 m)])"
    by (auto simp: columns_entries_def)
  then show ?case using pr1(1) step(1) by (simp add: fold_result_snoc)
qed

section \<open>All blocks\<close>

definition column_block :: "'d comparator \<Rightarrow> 'd \<Rightarrow> (nat \<Rightarrow> nat \<Rightarrow> 'd) \<Rightarrow> nat \<Rightarrow> nat \<Rightarrow> nat \<Rightarrow> nat \<Rightarrow> ('d \<times> idx_t) list" where
  "column_block C radius dis bs ny b i = columns_entries C radius dis (b * bs) (min (b * bs + bs) ny) i"

text \<open>
  The columns of \<open>b\<close> blocks are done for the queries up to \<open>i1\<close>, the others for the queries up to \<open>i0\<close>; in the first block of
  rows the partial results are made.
\<close>

definition rb_holds :: "'d comparator \<Rightarrow> 'd \<Rightarrow> (nat \<Rightarrow> nat \<Rightarrow> 'd) \<Rightarrow> nat \<Rightarrow> nat \<Rightarrow> nat \<Rightarrow> nat \<Rightarrow> nat \<Rightarrow> nat \<Rightarrow> 'd range_block \<Rightarrow> bool" where
  "rb_holds C radius dis bs ny nb i0 i1 b rb \<longleftrightarrow>
     rb_i0 rb = i0 \<and> rb_i1 rb = i1 \<and> length (rb_partial_results rb) = (if i0 = 0 then b else nb)
     \<and> rb_j0s rb = map (\<lambda>p. p * bs) [0..<length (rb_partial_results rb)]
     \<and> rb_pr rb = (if b = 0 then length (rb_partial_results rb) else b)
     \<and> (\<forall>p < length (rb_partial_results rb). pr_holds (rb_partial_results rb ! p)
          (map (\<lambda>i. (i, column_block C radius dis bs ny p i)) [0..<if p < b then i1 else i0]))"

lemma rb_find_block:
  assumes h: "rb_holds C radius dis bs ny nb i0 i1 b rb" and b: "b < nb" "0 < bs" and buffer: "0 < buffer_size"
  shows "\<exists>rb'. rb_find buffer_size (b * bs) rb = (b, rb') \<and> b < length (rb_partial_results rb')
    \<and> rb_i0 rb' = i0 \<and> rb_i1 rb' = i1 \<and> length (rb_partial_results rb') = (if i0 = 0 then Suc b else nb)
    \<and> rb_j0s rb' = map (\<lambda>p. p * bs) [0..<length (rb_partial_results rb')] \<and> rb_pr rb' = Suc b
    \<and> (\<forall>p < length (rb_partial_results rb'). pr_holds (rb_partial_results rb' ! p)
          (map (\<lambda>i. (i, column_block C radius dis bs ny p i)) [0..<if p < b then i1 else i0]))"
proof (cases "i0 = 0")
  case True
  let ?rb = "rb\<lparr>rb_partial_results := rb_partial_results rb @ [pr_new buffer_size], rb_j0s := rb_j0s rb @ [b * bs],
               rb_pr := length (rb_partial_results rb) + 1\<rparr>"
  have l: "length (rb_partial_results rb) = b" "length (rb_j0s rb) = b" "rb_pr rb = b" using h True by (auto simp: rb_holds_def)
  have "rb_find buffer_size (b * bs) rb = (b, ?rb)" using l b(2) by (auto simp: rb_find_def)
  moreover have "pr_holds (rb_partial_results ?rb ! p) (map (\<lambda>i. (i, column_block C radius dis bs ny p i)) [0..<if p < b then i1 else i0])"
    if "p < Suc b" for p
    using h l that True pr_holds_new [OF buffer] by (auto simp: rb_holds_def nth_append less_Suc_eq)
  ultimately show ?thesis using h l True by (auto simp: rb_holds_def)
next
  case False
  have l: "length (rb_partial_results rb) = nb" "length (rb_j0s rb) = nb" "rb_pr rb = (if b = 0 then nb else b)"
    "rb_j0s rb = map (\<lambda>p. p * bs) [0..<nb]"
    using h False by (auto simp: rb_holds_def)
  have "rb_find buffer_size (b * bs) rb = (b, rb\<lparr>rb_pr := Suc b\<rparr>)" using l b by (auto simp: rb_find_def)
  then show ?thesis using h l b False by (auto simp: rb_holds_def)
qed

lemma range_blas_columns_hold:
  assumes h: "rb_holds C radius dis bs ny nb i0 i1 b rb" and b: "b < nb" "0 < bs" and buffer: "0 < buffer_size" and i: "i0 \<le> i1"
  shows "\<exists>rb'. range_blas_columns junk_id junk C radius buffer_size dis bs ny i0 i1 b rb = Inr rb'
    \<and> rb_holds C radius dis bs ny nb i0 i1 (Suc b) rb'"
proof -
  let ?j0 = "b * bs" and ?j1 = "min (b * bs + bs) ny"
  from rb_find_block [OF h b buffer] obtain rb1 where f: "rb_find buffer_size ?j0 rb = (b, rb1)" "b < length (rb_partial_results rb1)"
    "rb_i0 rb1 = i0" "rb_i1 rb1 = i1" "length (rb_partial_results rb1) = (if i0 = 0 then Suc b else nb)"
    "rb_j0s rb1 = map (\<lambda>p. p * bs) [0..<length (rb_partial_results rb1)]" "rb_pr rb1 = Suc b"
    "\<forall>p < length (rb_partial_results rb1). pr_holds (rb_partial_results rb1 ! p)
          (map (\<lambda>i. (i, column_block C radius dis bs ny p i)) [0..<if p < b then i1 else i0])" by blast
  have "pr_holds (rb_partial_results rb1 ! b) (map (\<lambda>i. (i, column_block C radius dis bs ny b i)) [0..<i0])"
    using f(8) [rule_format, OF f(2)] by simp
  from rb_add_rows_hold [OF this i order_refl, of junk_id junk C radius ?j0 ?j1 dis] obtain pr where
    pr: "fold_result (\<lambda>i. rb_add_row junk_id junk C radius ?j0 ?j1 (drop ((i - i0) * (?j1 - ?j0)) (distance_block dis i0 i1 ?j0 ?j1)) i)
        [i0..<i1] (rb_partial_results rb1 ! b) = Inr pr"
    "pr_holds pr (map (\<lambda>i. (i, column_block C radius dis bs ny b i)) [0..<i0]
        @ map (\<lambda>i. (i, columns_entries C radius dis ?j0 ?j1 i)) [i0..<i1])" by blast
  have "[0..<i1] = [0..<i0] @ [i0..<i1]" using i upt_add_eq_append [of 0 i0 "i1 - i0"] by simp
  then have pr2: "pr_holds pr (map (\<lambda>i. (i, column_block C radius dis bs ny b i)) [0..<i1])"
    using pr(2) by (simp add: column_block_def [of C radius dis bs ny b])
  let ?rb = "rb1\<lparr>rb_partial_results := (rb_partial_results rb1)[b := pr]\<rparr>"
  have "range_blas_columns junk_id junk C radius buffer_size dis bs ny i0 i1 b rb = Inr ?rb"
    using f(1-4) pr(1) by (simp add: range_blas_columns_def rb_add_results_def Let_def)
  moreover have "pr_holds ((rb_partial_results rb1)[b := pr] ! p)
      (map (\<lambda>i. (i, column_block C radius dis bs ny p i)) [0..<if p < Suc b then i1 else i0])" if "p < length (rb_partial_results rb1)" for p
    using f(8) pr2 that f(2) by (cases "p = b") (auto simp: less_Suc_eq)
  ultimately show ?thesis using f by (auto simp: rb_holds_def)
qed

lemma range_blas_rows_hold:
  assumes h: "i0 \<noteq> 0 \<Longrightarrow> \<exists>i0'. rb_holds C radius dis bs_y ny nb i0' i0 nb rb" and i: "i0 = a * bs_x" "i1 = min (i0 + bs_x) nx" "i0 < nx"
    and nb: "nb = (ny + bs_y - 1) div bs_y" "0 < nb" and bs: "0 < bs_y" "0 < buffer_size"
    and start: "i0 = 0 \<Longrightarrow> rb_partial_results rb = [] \<and> rb_j0s rb = [] \<and> rb_pr rb = 0"
  shows "\<exists>rb'. range_blas_rows junk_id junk C radius buffer_size dis bs_x bs_y nx ny a rb = Inr rb'
    \<and> rb_holds C radius dis bs_y ny nb i0 i1 nb rb'"
proof -
  let ?rb = "rb_begin_multiple i0 i1 rb"
  have i01: "i0 \<le> i1" using i by simp
  have h0: "rb_holds C radius dis bs_y ny nb i0 i1 0 ?rb"
  proof (cases "i0 = 0")
    case True
    then show ?thesis using start by (simp add: rb_holds_def rb_begin_multiple_def)
  next
    case False
    then obtain i0' where h': "rb_holds C radius dis bs_y ny nb i0' i0 nb rb" using h by blast
    then have "length (rb_partial_results rb) = nb" by (auto simp: rb_holds_def split: if_splits)
    then show ?thesis using h' False nb(2) by (auto simp: rb_holds_def rb_begin_multiple_def split: if_splits)
  qed
  have "\<exists>rb'. fold_result (range_blas_columns junk_id junk C radius buffer_size dis bs_y ny i0 i1) [0..<b] ?rb = Inr rb'
      \<and> rb_holds C radius dis bs_y ny nb i0 i1 b rb'" if "b \<le> nb" for b
    using that
  proof (induction b)
    case 0
    then show ?case using h0 by simp
  next
    case (Suc b)
    then obtain rb1 where r: "fold_result (range_blas_columns junk_id junk C radius buffer_size dis bs_y ny i0 i1) [0..<b] ?rb = Inr rb1"
      "rb_holds C radius dis bs_y ny nb i0 i1 b rb1" by auto
    from range_blas_columns_hold [OF r(2) _ bs i01, of junk_id junk] Suc.prems r(1) show ?case by (auto simp: fold_result_snoc)
  qed
  from this [OF order_refl] show ?thesis
    by (simp add: range_blas_rows_def Let_def nb(1) i(1,2))
qed

lemma blocks_end:
  assumes "0 < bs" "b < (n + bs - 1) div bs"
  shows "b * bs < (n :: nat)"
proof -
  have "(b + 1) * bs \<le> (n + bs - 1) div bs * bs" using assms(2) by (intro mult_le_mono1) simp
  also have "\<dots> \<le> n + bs - 1" by simp
  finally show ?thesis using assms(1) by (simp add: distrib_right)
qed

lemma blocks_all: "0 < bs \<Longrightarrow> (n :: nat) \<le> (n + bs - 1) div bs * bs"
proof -
  assume "0 < bs"
  then have "(n + bs - 1) mod bs \<le> bs - 1" by (metis Suc_pred' less_Suc_eq_le mod_less_divisor)
  moreover have "(n + bs - 1) div bs * bs = n + bs - 1 - (n + bs - 1) mod bs" by (simp add: minus_mod_eq_div_mult)
  ultimately show ?thesis using \<open>0 < bs\<close> by linarith
qed

lemma concat_columns:
  assumes "0 < bs"
  shows "concat (map (\<lambda>b. column_block C radius dis bs ny b i) [0..<m]) = in_radius C radius (map (\<lambda>j. (dis i j, int j)) [0..<min (m * bs) ny])"
proof (induction m)
  case (Suc m)
  have u: "[0..<min (Suc m * bs) ny] = [0..<min (m * bs) ny] @ [min (m * bs) ny..<min (Suc m * bs) ny]"
  proof -
    have "min (m * bs) ny \<le> min (Suc m * bs) ny" by (auto simp: min_def)
    then show ?thesis using upt_add_eq_append [of 0 "min (m * bs) ny" "min (Suc m * bs) ny - min (m * bs) ny"] by simp
  qed
  have c: "column_block C radius dis bs ny m i = in_radius C radius (map (\<lambda>j. (dis i j, int j)) [min (m * bs) ny..<min (Suc m * bs) ny])"
    by (cases "m * bs \<le> ny") (simp_all add: column_block_def columns_entries_def add.commute min_def)
  show ?case unfolding u using Suc c by simp
qed simp

lemma query_entries_map: "query_entries (map (\<lambda>i. (i, f i)) [0..<n]) i = (if i < n then f i else [])"
  by (induction n) (auto simp: less_Suc_eq)

lemma query_entries_blocks:
  "i < n \<Longrightarrow> query_entries (concat (map (\<lambda>p. map (\<lambda>i. (i, f p i)) [0..<n]) [0..<m])) i = concat (map (\<lambda>p. f p i) [0..<m])"
  by (induction m) (simp_all add: query_entries_map)

lemma range_blas_spec:
  assumes bs: "0 < bs_x" "0 < bs_y" and n: "0 < nx" "0 < ny" and res: "fresh_result nx res" "0 < rr_buffer_size res"
  shows "\<exists>res'. range_blas junk_id junk C radius dis bs_x bs_y nx ny res = Inr res'
    \<and> range_shows res' (map (\<lambda>i. in_radius C radius (map (\<lambda>j. (dis i j, int j)) [0..<ny])) [0..<nx])"
proof -
  let ?nb = "(ny + bs_y - 1) div bs_y" and ?na = "(nx + bs_x - 1) div bs_x"
  let ?step = "range_blas_rows junk_id junk C radius (rr_buffer_size res) dis bs_x bs_y nx ny"
  have pos: "0 < k \<Longrightarrow> 0 < m \<Longrightarrow> 0 < (m + k - 1) div k" for m k :: nat by (simp add: div_greater_zero_iff)
  have nb: "0 < ?nb" by (rule pos [OF bs(2) n(2)])
  have start: "rb_partial_results (rb_new (rr_nq res)) = []" "rb_j0s (rb_new (rr_nq res)) = []" "rb_pr (rb_new (rr_nq res)) = 0"
    by (simp_all add: rb_new_def)
  have "\<exists>rb. fold_result ?step [0..<Suc a] (rb_new (rr_nq res)) = Inr rb
      \<and> (\<exists>i0. rb_holds C radius dis bs_y ny ?nb i0 (min (Suc a * bs_x) nx) ?nb rb)" if "Suc a \<le> ?na" for a
    using that
  proof (induction a)
    case 0
    have "\<exists>rb. ?step 0 (rb_new (rr_nq res)) = Inr rb \<and> rb_holds C radius dis bs_y ny ?nb 0 (min (0 + bs_x) nx) ?nb rb"
      by (rule range_blas_rows_hold [OF _ _ refl _ refl nb bs(2) res(2)]) (use n start in simp_all)
    then show ?case by auto
  next
    case (Suc a)
    then obtain rb i0 where r: "fold_result ?step [0..<Suc a] (rb_new (rr_nq res)) = Inr rb"
      "rb_holds C radius dis bs_y ny ?nb i0 (min (Suc a * bs_x) nx) ?nb rb" by auto
    have lt: "Suc a * bs_x < nx" using blocks_end [OF bs(1), of "Suc a" nx] Suc.prems by simp
    then have m: "min (Suc a * bs_x) nx = Suc a * bs_x" by simp
    have "\<exists>rb'. ?step (Suc a) rb = Inr rb' \<and> rb_holds C radius dis bs_y ny ?nb (Suc a * bs_x) (min (Suc a * bs_x + bs_x) nx) ?nb rb'"
      by (rule range_blas_rows_hold [OF _ refl refl lt refl nb bs(2) res(2)]) (use r(2) m bs(1) in auto)
    then obtain rb' where rb': "?step (Suc a) rb = Inr rb'"
      "rb_holds C radius dis bs_y ny ?nb (Suc a * bs_x) (min (Suc a * bs_x + bs_x) nx) ?nb rb'" by blast
    have "fold_result ?step [0..<Suc (Suc a)] (rb_new (rr_nq res)) = Inr rb'"
      unfolding upt_Suc_append [OF le0, of "Suc a"] fold_result_snoc r(1) bind_result.simps by (rule rb'(1))
    moreover have "Suc (Suc a) * bs_x = Suc a * bs_x + bs_x" by simp
    ultimately show ?case using rb'(2) by (metis (no_types))
  qed
  from this [of "?na - 1"] pos [OF bs(1) n(1)] obtain rb i0 where
    r: "fold_result ?step [0..<?na] (rb_new (rr_nq res)) = Inr rb" "rb_holds C radius dis bs_y ny ?nb i0 (min (?na * bs_x) nx) ?nb rb" by auto
  have m: "min (?na * bs_x) nx = nx" using blocks_all [OF bs(1), of nx] by simp
  let ?segss = "map (\<lambda>p. map (\<lambda>i. (i, column_block C radius dis bs_y ny p i)) [0..<nx]) [0..<?nb]"
  have l: "length (rb_partial_results rb) = ?nb" using r(2) by (auto simp: rb_holds_def split: if_splits)
  have holds: "list_all2 pr_holds (rb_partial_results rb) ?segss"
    using r(2) l m by (auto simp: rb_holds_def list_all2_conv_all_nth)
  have present: "concat (map (case_option [] (\<lambda>pr. [pr])) (map Some prs)) = prs" for prs :: "'a partial_result list"
    by (induction prs) simp_all
  have ne: "map Some (rb_partial_results rb) \<noteq> []" "hd (map Some (rb_partial_results rb)) \<noteq> None"
    using l nb by (cases "rb_partial_results rb"; simp)+
  have lt: "\<forall>sg \<in> set (concat ?segss). fst sg < nx" by auto
  from pr_merge_shows [OF res(1), of "map Some (rb_partial_results rb)" ?segss junk_id junk] holds lt ne obtain res' where
    m': "pr_merge junk_id junk (map Some (rb_partial_results rb)) res = Inr res'" "range_shows res' (map (query_entries (concat ?segss)) [0..<nx])"
    unfolding present by blast
  have "query_entries (concat ?segss) i = in_radius C radius (map (\<lambda>j. (dis i j, int j)) [0..<ny])" if "i < nx" for i
    using query_entries_blocks [OF that, of "column_block C radius dis bs_y ny" ?nb] concat_columns [OF bs(2), of C radius dis ny i ?nb]
      blocks_all [OF bs(2), of ny] by (simp add: min_absorb2)
  then have e: "map (query_entries (concat ?segss)) [0..<nx] = map (\<lambda>i. in_radius C radius (map (\<lambda>j. (dis i j, int j)) [0..<ny])) [0..<nx]" by simp
  have "rb_partial_results rb \<noteq> []" using l nb by auto
  then show ?thesis using r(1) m'(1) m'(2) [unfolded e] n by (simp add: range_blas_def rb_destroy_def)
qed

end
