(* ===== verification/Index_Range.thy ===== *)
theory Index_Range
  imports Range_Blocks Index_Hnsw_Search
begin

text \<open>
  Range search by a team of threads, which have a result handler each and share the queries; which thread takes which
  query in which order is an argument. First use: \<open>IndexFlatCodes\<close>, with its blocks of the distance table.
\<close>

section \<open>Teams of handlers\<close>

text \<open>\<open>f i\<close> runs query \<open>i\<close> on the state of a thread.\<close>

fun team_queries :: "(nat \<Rightarrow> 'h \<Rightarrow> 'h result option) \<Rightarrow> (nat \<times> nat) list \<Rightarrow> 'h list \<Rightarrow> 'h list result option" where
  "team_queries f [] team = Some (Inr team)"
| "team_queries f ((t, i) # scans) team =
     (case f i (team ! t) of
        None \<Rightarrow> None
      | Some (Inl e) \<Rightarrow> Some (Inl e)
      | Some (Inr h) \<Rightarrow> team_queries f scans (team[t := h]))"

definition collects :: "'d \<Rightarrow> 'd range_handler \<Rightarrow> 'd segment list \<Rightarrow> bool" where
  "collects radius h segs \<longleftrightarrow> (\<exists>pr. rh_pres h = Inr pr \<and> pr_holds pr segs) \<and> rh_threshold h = radius"

lemma collects_new: "0 < rr_buffer_size res \<Longrightarrow> collects radius (rh_new radius res) []"
  by (simp add: collects_def rh_new_def pr_holds_new)

lemma collects_begin: "collects radius h segs \<Longrightarrow> rh_holds (rh_begin q h) radius segs q []"
  by (auto simp: collects_def intro: rh_holds_begin)

lemma collects_holds: "rh_holds h radius segs q es \<Longrightarrow> collects radius h (segs @ [(q, es)])"
  by (auto simp: collects_def rh_holds_def)

lemma collects_offers:
  "rh_holds h radius segs q [] \<Longrightarrow>
   collects radius (offers (range_result_handler junk_id junk C) h ps) (segs @ [(q, in_radius C radius ps)])"
  using rh_holds_offers [of h radius segs q "[]" junk_id junk C ps] by (simp add: collects_holds)

text \<open>Every query adds a row of entries that satisfies \<open>R\<close>.\<close>

lemma team_queries_collect:
  assumes step: "\<And>i h segs. i \<in> snd ` set scans \<Longrightarrow> ok h \<Longrightarrow> collects radius (prj h) segs \<Longrightarrow>
      \<exists>h' es. f i h = Some (Inr h') \<and> ok h' \<and> collects radius (prj h') (segs @ [(i, es)]) \<and> R i es"
    and "\<forall>e \<in> set scans. fst e < length team" "list_all2 (\<lambda>h segs. ok h \<and> collects radius (prj h) segs) team segss"
    and "\<forall>(i, es) \<in> set (concat segss). R i es"
  shows "\<exists>team' segss'. team_queries f scans team = Some (Inr team')
    \<and> list_all2 (\<lambda>h segs. ok h \<and> collects radius (prj h) segs) team' segss'
    \<and> (\<forall>(i, es) \<in> set (concat segss'). R i es)
    \<and> mset (map fst (concat segss')) = mset (map fst (concat segss)) + mset (map snd scans)"
  using assms
proof (induction scans arbitrary: team segss)
  case Nil
  then show ?case by auto
next
  case (Cons e scans)
  obtain t i where e: "e = (t, i)" by force
  have t: "t < length team" "t < length segss" using Cons.prems(2,3) by (auto simp: e dest: list_all2_lengthD)
  have "ok (team ! t)" "collects radius (prj (team ! t)) (segss ! t)" using list_all2_nthD [OF Cons.prems(3) t(1)] by simp_all
  from Cons.prems(1) [OF _ this, of i] obtain h es where
    h: "f i (team ! t) = Some (Inr h)" "ok h" "collects radius (prj h) (segss ! t @ [(i, es)])" "R i es" by (auto simp: e)
  let ?team = "team[t := h]" and ?segss = "segss[t := segss ! t @ [(i, es)]]"
  have u: "?segss = take t segss @ (segss ! t @ [(i, es)]) # drop (Suc t) segss" "segss = take t segss @ segss ! t # drop (Suc t) segss"
    using t(2) by (simp_all add: upd_conv_take_nth_drop id_take_nth_drop)
  have s: "set (concat ?segss) = insert (i, es) (set (concat segss))"
  proof -
    have "set (concat segss) = set (concat (take t segss @ segss ! t # drop (Suc t) segss))" using u(2) by simp
    then show ?thesis unfolding u(1) by auto
  qed
  have m: "mset (map fst (concat ?segss)) = add_mset i (mset (map fst (concat segss)))"
  proof -
    have "mset (map fst (concat segss)) = mset (map fst (concat (take t segss @ segss ! t # drop (Suc t) segss)))" using u(2) by simp
    then show ?thesis unfolding u(1) by simp
  qed
  have "list_all2 (\<lambda>h segs. ok h \<and> collects radius (prj h) segs) ?team ?segss"
    using Cons.prems(3) h(2,3) by (intro list_all2_update_cong) simp_all
  moreover have "\<forall>(i, es) \<in> set (concat ?segss). R i es" unfolding s using Cons.prems(4) h(4) by auto
  moreover have "\<forall>e \<in> set scans. fst e < length ?team" using Cons.prems(2) by simp
  ultimately obtain team' segss' where
    "team_queries f scans ?team = Some (Inr team')" "list_all2 (\<lambda>h segs. ok h \<and> collects radius (prj h) segs) team' segss'"
    "\<forall>(i, es) \<in> set (concat segss'). R i es" "mset (map fst (concat segss')) = mset (map fst (concat ?segss)) + mset (map snd scans)"
    using Cons.IH [of ?team ?segss] Cons.prems(1) by force
  then show ?case unfolding m using h(1) by (auto simp: e)
qed

lemma segment_of_query:
  assumes "distinct (map fst segs)" "q \<in> set (map fst segs)"
  shows "(q, query_entries segs q) \<in> set segs"
  using assms query_entries_single [OF assms(1)] by fastforce

lemma team_partial_results:
  assumes "list_all2 (\<lambda>h segs. ok h \<and> collects radius (prj h) segs) team segss"
  obtains prs where "list_all2 (\<lambda>h pr. rh_pres h = Inr pr) (map prj team) prs" "list_all2 pr_holds prs segss"
proof -
  have "\<exists>prs. list_all2 (\<lambda>h pr. rh_pres h = Inr pr) (map prj team) prs \<and> list_all2 pr_holds prs segss"
    using assms
  proof (induction team segss rule: list_all2_induct)
    case (Cons h team segs segss)
    then obtain pr prs where "rh_pres (prj h) = Inr pr" "pr_holds pr segs"
      "list_all2 (\<lambda>h pr. rh_pres h = Inr pr) (map prj team) prs" "list_all2 pr_holds prs segss" by (auto simp: collects_def)
    then show ?case by (intro exI [of _ "pr # prs"]) simp
  qed simp
  then show thesis using that by blast
qed

text \<open>The destructors put the rows of the queries \<open>qs\<close> in the tables; the other rows are empty.\<close>

lemma team_queries_destroy:
  assumes "list_all2 (\<lambda>h segs. ok h \<and> collects radius (prj h) segs) team segss" "\<forall>(i, es) \<in> set (concat segss). R i es"
    and "mset (map fst (concat segss)) = mset qs" "distinct qs" "\<forall>q \<in> set qs. q < n" "fresh_result n res"
  shows "\<exists>res' rows. rh_destroy junk_id junk (map prj team) res = Inr res' \<and> range_shows res' rows \<and> length rows = n
    \<and> (\<forall>i < n. if i \<in> set qs then R i (rows ! i) else rows ! i = [])"
proof -
  let ?all = "concat segss"
  obtain prs where prs: "list_all2 (\<lambda>h pr. rh_pres h = Inr pr) (map prj team) prs" "list_all2 pr_holds prs segss"
    by (rule team_partial_results [OF assms(1)])
  have distinct: "distinct (map fst ?all)" using mset_eq_imp_distinct_iff [OF assms(3)] assms(4) by simp
  have set_eq: "set (map fst ?all) = set qs" using mset_eq_setD [OF assms(3)] by simp
  have lt: "\<forall>sg \<in> set ?all. fst sg < n"
  proof
    fix sg assume "sg \<in> set ?all"
    then have "fst sg \<in> set (map fst ?all)" unfolding set_map by (rule imageI)
    then show "fst sg < n" unfolding set_eq using assms(5) by blast
  qed
  from pr_finalize_shows [OF assms(6) prs(2) lt distinct, of junk_id junk] obtain res' where
    r: "pr_finalize junk_id junk prs res = Inr res'" "range_shows res' (map (query_entries ?all) [0..<n])" by blast
  have "rh_destroy junk_id junk (map prj team) res = Inr res'"
    using rh_destroy_team [OF prs(1), of junk_id junk res] finish_team_finalize [OF r(1)] by simp
  moreover have "if i \<in> set qs then R i (query_entries ?all i) else query_entries ?all i = []" for i
  proof (cases "i \<in> set qs")
    case True
    then have "i \<in> set (map fst ?all)" unfolding set_eq .
    from segment_of_query [OF distinct this] True show ?thesis using assms(2) by auto
  next
    case False
    then have "i \<notin> fst ` set ?all" using set_eq by simp
    then have "filter (\<lambda>sg. fst sg = i) ?all = []" unfolding filter_empty_conv by (metis imageI)
    then show ?thesis using False by (simp add: query_entries_def)
  qed
  ultimately show ?thesis using r(2) by (intro exI [of _ res'] exI [of _ "map (query_entries ?all) [0..<n]"]) simp
qed

section \<open>\<open>IndexFlatCodes::range_search\<close>\<close>

definition fc_range_query ::
  "idx_t \<Rightarrow> 'd \<Rightarrow> 'd comparator \<Rightarrow> 'v codec \<Rightarrow> ('v \<Rightarrow> 'v \<Rightarrow> 'd) \<Rightarrow> flat_codes \<Rightarrow> id_selector option \<Rightarrow> 'v list \<Rightarrow> nat \<Rightarrow> 'd range_handler \<Rightarrow>
   'd range_handler result option" where
  "fc_range_query junk_id junk C cd vd s sel xs q resi =
     Some (fc_search_query cd vd s (range_result_handler junk_id junk C) sel (xs ! q) (rh_begin q resi))"

definition fc_range_search ::
  "idx_t \<Rightarrow> 'd \<Rightarrow> 'd comparator \<Rightarrow> 'v codec \<Rightarrow> ('v \<Rightarrow> 'v \<Rightarrow> 'd) \<Rightarrow> flat_codes \<Rightarrow> nat \<Rightarrow> (nat \<times> nat) list \<Rightarrow> 'v list \<Rightarrow> 'd \<Rightarrow>
   id_selector option \<Rightarrow> 'd range_result \<Rightarrow> 'd range_result result option" where
  "fc_range_search junk_id junk C cd vd s nt scans xs radius sel res =
     map_option (\<lambda>r. bind_result r (\<lambda>team. rh_destroy junk_id junk team res))
       (team_queries (fc_range_query junk_id junk C cd vd s sel xs) scans (replicate nt (rh_new radius res)))"

lemma fc_range_search_spec:
  fixes junk :: 'd
  assumes s: "fc_ok cs s" and sel: "\<forall>i < fc_ntotal s. can_ask sel (int i)" and sch: "shares_out nt (length xs) scans"
    and res: "fresh_result (length xs) res" "0 < rr_buffer_size res"
  shows "\<exists>res'. fc_range_search junk_id junk C cd vd s nt scans xs radius sel res = Some (Inr res')
    \<and> range_shows res' (map (\<lambda>x. in_radius C radius
        (map (\<lambda>i. (vd x (fc_vecs cd s ! i), int i)) (filter (\<lambda>i. wanted sel (int i)) [0..<fc_ntotal s]))) xs)"
proof -
  let ?H = "range_result_handler junk_id junk C" and ?f = "fc_range_query junk_id junk C cd vd s sel xs"
  let ?rw = "\<lambda>x. in_radius C radius (map (\<lambda>i. (vd x (fc_vecs cd s ! i), int i)) (filter (\<lambda>i. wanted sel (int i)) [0..<fc_ntotal s]))"
  let ?team = "replicate nt (rh_new radius res)" and ?none = "replicate nt [] :: 'd segment list list"
  have offers: "flat_offers (fc_distance_computer cd vd s x) sel (fc_ntotal s) =
      map (\<lambda>i. (vd x (fc_vecs cd s ! i), int i)) (filter (\<lambda>i. wanted sel (int i)) [0..<fc_ntotal s])" for x
    unfolding flat_offers_def using fc_query_dis [OF s] by (intro map_cong) auto
  have start: "list_all2 (\<lambda>h segs. True \<and> collects radius (id h) segs) ?team ?none"
    using collects_new [OF res(2)] by (simp add: list_all2_conv_all_nth)
  have "\<exists>team segss. team_queries ?f scans ?team = Some (Inr team)
    \<and> list_all2 (\<lambda>h segs. True \<and> collects radius (id h) segs) team segss \<and> (\<forall>(i, es) \<in> set (concat segss). es = ?rw (xs ! i))
    \<and> mset (map fst (concat segss)) = mset (map fst (concat ?none)) + mset (map snd scans)"
  proof (rule team_queries_collect [where ok = "\<lambda>_. True" and prj = id and R = "\<lambda>i es. es = ?rw (xs ! i)", OF _ _ start])
    fix i h segs assume "collects radius (id h) segs"
    then have "rh_holds (rh_begin i h) radius segs i []" by (simp add: collects_begin)
    from collects_offers [OF this, of junk_id junk C "flat_offers (fc_distance_computer cd vd s (xs ! i)) sel (fc_ntotal s)"]
    show "\<exists>h' es. ?f i h = Some (Inr h') \<and> True \<and> collects radius (id h') (segs @ [(i, es)]) \<and> es = ?rw (xs ! i)"
      using fc_search_query_offers [OF sel, of cd vd ?H "xs ! i" "rh_begin i h"] unfolding offers by (auto simp: fc_range_query_def)
  qed (use shares_out_less [OF sch] in auto)
  then obtain team segss where r: "team_queries ?f scans ?team = Some (Inr team)"
    "list_all2 (\<lambda>h segs. True \<and> collects radius (id h) segs) team segss" "\<forall>(i, es) \<in> set (concat segss). es = ?rw (xs ! i)"
    "mset (map fst (concat segss)) = mset [0..<length xs]" using sch by (auto simp: shares_out_def)
  from team_queries_destroy [OF r(2-4) _ _ res(1), of junk_id junk] obtain res' rows where
    d: "rh_destroy junk_id junk team res = Inr res'" "range_shows res' rows" "length rows = length xs" "\<forall>i < length xs. rows ! i = ?rw (xs ! i)"
    by auto
  have "rows = map ?rw xs" using d(3,4) by (intro nth_equalityI) simp_all
  then show ?thesis using r(1) d(1,2) by (simp add: fc_range_search_def)
qed

text \<open>The blocks of the distance table give the same tables, without a selector.\<close>

lemma fc_range_blas:
  assumes s: "fc_ok cs s" and sch: "shares_out nt (length xs) scans" and res: "fresh_result (length xs) res" "0 < rr_buffer_size res"
    and bs: "0 < bs_x" "0 < bs_y" and n: "xs \<noteq> []" "0 < fc_ntotal s"
  shows "\<exists>res1 res2 rows. fc_range_search junk_id junk C cd vd s nt scans xs radius None res = Some (Inr res1) \<and> range_shows res1 rows
    \<and> range_blas junk_id junk C radius (\<lambda>i j. vd (xs ! i) (fc_vecs cd s ! j)) bs_x bs_y (length xs) (fc_ntotal s) res = Inr res2
    \<and> range_shows res2 rows
    \<and> rows = map (\<lambda>x. in_radius C radius (map (\<lambda>i. (vd x (fc_vecs cd s ! i), int i)) [0..<fc_ntotal s])) xs"
proof -
  let ?rw = "\<lambda>x. in_radius C radius (map (\<lambda>i. (vd x (fc_vecs cd s ! i), int i)) [0..<fc_ntotal s])"
  have c: "\<forall>i < fc_ntotal s. can_ask None (int i)" by (simp add: can_ask_def)
  have w: "filter (\<lambda>i. wanted None (int i)) [0..<fc_ntotal s] = [0..<fc_ntotal s]" by (simp add: wanted_def)
  obtain res1 where r1: "fc_range_search junk_id junk C cd vd s nt scans xs radius None res = Some (Inr res1)" "range_shows res1 (map ?rw xs)"
    using fc_range_search_spec [OF s c sch res, of junk_id junk C cd vd radius] unfolding w by blast
  have "0 < length xs" using n(1) by simp
  from range_blas_spec [OF bs this n(2) res, of junk_id junk C radius "\<lambda>i j. vd (xs ! i) (fc_vecs cd s ! j)"] obtain res2 where
    r2: "range_blas junk_id junk C radius (\<lambda>i j. vd (xs ! i) (fc_vecs cd s ! j)) bs_x bs_y (length xs) (fc_ntotal s) res = Inr res2"
    "range_shows res2 (map (\<lambda>i. ?rw (xs ! i)) [0..<length xs])" by blast
  have "map (\<lambda>i. ?rw (xs ! i)) [0..<length xs] = map ?rw xs" by (rule nth_equalityI) simp_all
  then show ?thesis using r1 r2 by auto
qed

section \<open>Properties\<close>

text \<open>
  C32. \<open>IndexFlatCodes::range_search\<close>, however the threads share out the queries and in whatever order they take them: \<open>lims\<close>
  cuts the tables into one row per query, which holds exactly the selected vectors nearer than the radius, in
  the order of the index, each with its distance.
\<close>

theorem flat_range_search_exact:
  fixes junk :: 'd
  assumes "fc_ok cs s" "\<forall>i < fc_ntotal s. can_ask sel (int i)" "shares_out nt (length xs) scans"
    and "fresh_result (length xs) res" "0 < rr_buffer_size res"
  shows "\<exists>res'. fc_range_search junk_id junk C cd vd s nt scans xs radius sel res = Some (Inr res')
    \<and> range_shows res' (map (\<lambda>x. in_radius C radius
        (map (\<lambda>i. (vd x (fc_vecs cd s ! i), int i)) (filter (\<lambda>i. wanted sel (int i)) [0..<fc_ntotal s]))) xs)"
  by (rule fc_range_search_spec [OF assms])

theorem flat_range_search_exact_witness:
  "\<exists>res'. fc_range_search 7 7 (CMax 0 1000) flat_codec byte_distance bytes_312 2 [(1, 1), (0, 0)] [[2], [9]] 5 (Some (Sel_range 1 3)) (rr_new 2)
      = Some (Inr res')
    \<and> range_shows res' [[(1, 1), (0, 2)], []]"
proof -
  have sh: "shares_out 2 (length [[2], [9 :: 8 word]]) [(1, 1), (0, 0)]" by (auto simp: shares_out_def numeral_2_eq_2)
  have fr: "fresh_result (length [[2], [9 :: 8 word]]) (rr_new 2)" "0 < rr_buffer_size (rr_new 2)"
    by (simp_all add: fresh_result_def rr_new_def numeral_2_eq_2)
  have ok: "fc_ok 1 bytes_312" by (rule bytes_312_ok(1))
  have "\<forall>i < fc_ntotal bytes_312. can_ask (Some (Sel_range 1 3)) (int i)" by (simp add: can_ask_def)
  from flat_range_search_exact [OF ok this sh fr, of 7 7 "CMax 0 1000" flat_codec byte_distance 5]
  obtain res' where "fc_range_search 7 7 (CMax 0 1000) flat_codec byte_distance bytes_312 2 [(1, 1), (0, 0)] [[2], [9]] 5
      (Some (Sel_range 1 3)) (rr_new 2) = Some (Inr res')" and s: "range_shows res' (map (\<lambda>x. in_radius (CMax 0 1000) 5
        (map (\<lambda>i. (byte_distance x (fc_vecs flat_codec bytes_312 ! i), int i))
          (filter (\<lambda>i. wanted (Some (Sel_range 1 3)) (int i)) [0..<fc_ntotal bytes_312]))) [[2], [9]])" by blast
  moreover have "map (\<lambda>x. in_radius (CMax 0 1000) 5
        (map (\<lambda>i. (byte_distance x (fc_vecs flat_codec bytes_312 ! i), int i))
          (filter (\<lambda>i. wanted (Some (Sel_range 1 3)) (int i)) [0..<fc_ntotal bytes_312]))) [[2], [9]] = [[(1, 1), (0, 2)], []]"
    by (simp add: bytes_312_ok wanted_def in_radius_def byte_distance_def upt_rec)
  ultimately show ?thesis by metis
qed

text \<open>
  C22. The search by blocks of the distance table gives the tables of the search query by query: the result handler finds the
  partial result of each block of columns again, and the final merge puts the blocks of a query behind each other.
\<close>

theorem range_blocks_agree_with_queries:
  assumes "fc_ok cs s" "shares_out nt (length xs) scans" "fresh_result (length xs) res" "0 < rr_buffer_size res"
    and "0 < bs_x" "0 < bs_y" "xs \<noteq> []" "0 < fc_ntotal s"
  shows "\<exists>res1 res2 rows. fc_range_search junk_id junk C cd vd s nt scans xs radius None res = Some (Inr res1) \<and> range_shows res1 rows
    \<and> range_blas junk_id junk C radius (\<lambda>i j. vd (xs ! i) (fc_vecs cd s ! j)) bs_x bs_y (length xs) (fc_ntotal s) res = Inr res2
    \<and> range_shows res2 rows
    \<and> rows = map (\<lambda>x. in_radius C radius (map (\<lambda>i. (vd x (fc_vecs cd s ! i), int i)) [0..<fc_ntotal s])) xs"
  by (rule fc_range_blas [OF assms])

theorem range_blocks_agree_with_queries_witness:
  "\<exists>res1 res2 rows. fc_range_search 7 7 (CMax 0 1000) flat_codec byte_distance bytes_312 2 [(1, 1), (0, 0)] [[2], [9]] 7 None (rr_new 2)
      = Some (Inr res1) \<and> range_shows res1 rows
    \<and> range_blas 7 7 (CMax 0 1000) 7 (\<lambda>i j. byte_distance ([[2], [9]] ! i) (fc_vecs flat_codec bytes_312 ! j)) 1 2 2 (fc_ntotal bytes_312) (rr_new 2)
      = Inr res2 \<and> range_shows res2 rows"
proof -
  have sh: "shares_out 2 (length [[2], [9 :: 8 word]]) [(1, 1), (0, 0)]" by (auto simp: shares_out_def numeral_2_eq_2)
  have fr: "fresh_result (length [[2], [9 :: 8 word]]) (rr_new 2)" "0 < rr_buffer_size (rr_new 2)"
    by (simp_all add: fresh_result_def rr_new_def numeral_2_eq_2)
  have n: "0 < fc_ntotal bytes_312" by (simp add: bytes_312_def)
  from range_blocks_agree_with_queries [OF bytes_312_ok(1) sh fr, of 1 2, OF _ _ _ n, of 7 7 "CMax 0 1000" flat_codec byte_distance 7]
  show ?thesis by (simp add: numeral_2_eq_2) blast
qed

end
