(* ===== verification/Index_Hnsw_Range.thy ===== *)
theory Index_Hnsw_Range
  imports Index_Range
begin

text \<open>
  \<open>IndexHNSW::range_search\<close>: the visited nodes within the radius. The queries are cut into slices of \<open>check_period\<close>, between
  which \<open>hnsw_search\<close> looks for interrupts; each slice makes its handlers anew.
\<close>

definition hnsw_range_query ::
  "idx_t \<Rightarrow> 'd \<Rightarrow> 'd \<Rightarrow> 'd \<Rightarrow> ('s, 'v, 'd :: {linorder, uminus}) storage_ops \<Rightarrow> 's index_hnsw \<Rightarrow> 's \<Rightarrow> search_params option \<Rightarrow> 'v list \<Rightarrow>
   nat \<Rightarrow> 'd range_handler \<times> visited_table \<Rightarrow> ('d range_handler \<times> visited_table) result option" where
  "hnsw_range_query junk_id junk lo hi so ih s params xs i st =
     (case st of (res, vt) \<Rightarrow>
        map_option (\<lambda>r. bind_result r (\<lambda>(stats, res, vt). Inr (res, vt)))
          (hnsw_search (ih_hnsw ih) (storage_distance_computer so s (xs ! i)) (range_result_handler junk_id junk (CMax lo hi))
            (rh_begin i res) vt params))"

text \<open>A slice: \<open>sch\<close> says which thread takes which of its queries.\<close>

definition hnsw_range_slice ::
  "idx_t \<Rightarrow> 'd \<Rightarrow> 'd \<Rightarrow> 'd \<Rightarrow> ('s, 'v, 'd :: {linorder, uminus}) storage_ops \<Rightarrow> 's index_hnsw \<Rightarrow> 's \<Rightarrow> search_params option \<Rightarrow> 'v list \<Rightarrow>
   'd \<Rightarrow> nat \<Rightarrow> (nat \<times> nat) list \<Rightarrow> 'd range_result \<Rightarrow> 'd range_result result option" where
  "hnsw_range_slice junk_id junk lo hi so ih s params xs radius nt scans res =
     map_option (\<lambda>r. bind_result r (\<lambda>team. rh_destroy junk_id junk (map fst team) res))
       (team_queries (hnsw_range_query junk_id junk lo hi so ih s params xs) scans
         (replicate nt (rh_new radius res, vt_new (ih_ntotal ih))))"

fun hnsw_range_slices ::
  "(nat \<Rightarrow> 'd range_result \<Rightarrow> 'd range_result result option) \<Rightarrow> nat list \<Rightarrow> 'd range_result \<Rightarrow> 'd range_result result option" where
  "hnsw_range_slices f [] res = Some (Inr res)"
| "hnsw_range_slices f (a # as) res =
     (case f a res of
        None \<Rightarrow> None
      | Some (Inl e) \<Rightarrow> Some (Inl e)
      | Some (Inr res) \<Rightarrow> hnsw_range_slices f as res)"

definition revert_range :: "bool \<Rightarrow> ('d :: uminus) range_result \<Rightarrow> 'd range_result result" where
  "revert_range similarity res =
     (if \<not> similarity then Inr res
      else if \<not> rr_nq res < length (rr_lims res) then Inl Out_of_bounds
      else
        let n = rr_lims res ! rr_nq res in
        if n = 0 then Inr res
        else (case rr_distances res of
            None \<Rightarrow> Inl Null_pointer
          | Some D \<Rightarrow>
              if n \<le> length D then Inr (res\<lparr>rr_distances := Some (map uminus (take n D) @ drop n D)\<rparr>) else Inl Out_of_bounds))"

definition ih_range_search ::
  "idx_t \<Rightarrow> 'd \<Rightarrow> 'd \<Rightarrow> 'd \<Rightarrow> ('s, 'v, 'd :: {linorder, uminus}) storage_ops \<Rightarrow> nat \<Rightarrow> nat \<Rightarrow> (nat \<Rightarrow> (nat \<times> nat) list) \<Rightarrow> 's index_hnsw \<Rightarrow>
   'v list \<Rightarrow> 'd \<Rightarrow> search_params option \<Rightarrow> 'd range_result \<Rightarrow> 'd range_result result option" where
  "ih_range_search junk_id junk lo hi so check_period nt sch ih xs radius params res =
     (case ih_storage ih of
        None \<Rightarrow> Some (Inl no_storage)
      | Some s \<Rightarrow>
          map_option (\<lambda>r. bind_result r (revert_range (vs_similarity so)))
            (hnsw_range_slices
              (\<lambda>a. hnsw_range_slice junk_id junk lo hi so ih s params xs (if vs_similarity so then - radius else radius) nt (sch a))
              [0..<(length xs + check_period - 1) div check_period] res))"

section \<open>One query\<close>

interpretation range_distance_handler: distance_handler lo hi "range_result_handler junk_id junk (CMax lo hi)" rh_contents rh_inv
  for lo hi :: "'d :: linorder" and junk_id junk
  unfolding distance_handler_def by (rule range_handler_collector)

text \<open>The entries that a query finds: the visited nodes in the radius.\<close>

definition nodes_in_radius ::
    "('v \<Rightarrow> 'v \<Rightarrow> 'd :: {linorder, uminus}) \<Rightarrow> bool \<Rightarrow> 'v list \<Rightarrow> flat_codes index_hnsw \<Rightarrow> search_params option \<Rightarrow> 'd \<Rightarrow> 'v \<Rightarrow>
     ('d \<times> idx_t) list \<Rightarrow> bool" where
  "nodes_in_radius vd similarity vs ih params radius x es \<longleftrightarrow>
     (\<exists>n V. node_at (ih_hnsw ih) 0 n \<and> n \<in> V \<and> V \<subseteq> reachable (ih_hnsw ih) 0 n
      \<and> mset es = filter_mset (\<lambda>p. fst p < radius) (answers vd similarity vs x (selected params) V)
      \<and> (param_of params hp_check_relative_distance (check_relative_distance (ih_hnsw ih)) \<longrightarrow>
          ih_ntotal ih \<le> param_of params hp_efSearch (efSearch (ih_hnsw ih)) \<longrightarrow> V = reachable (ih_hnsw ih) 0 n))"

lemma hnsw_range_query_collects:
  assumes S: "searchable cd cs vd similarity hi [] ih s"
    and bq: "param_of params hp_bounded_queue (search_bounded_queue (ih_hnsw ih))"
    and h: "vt_clear (ih_hnsw ih) (snd h)" "collects radius (fst h) segs"
  shows "\<exists>h' es. hnsw_range_query junk_id junk lo hi (flat_storage cd vd similarity) ih s params xs i h = Some (Inr h')
    \<and> vt_clear (ih_hnsw ih) (snd h') \<and> collects radius (fst h') (segs @ [(i, es)])
    \<and> nodes_in_radius vd similarity (fc_vecs cd s) ih params radius (xs ! i) es"
proof -
  let ?so = "flat_storage cd vd similarity" and ?h = "ih_hnsw ih" and ?C = "CMax lo hi"
  let ?q = "storage_distance_computer ?so s (xs ! i)" and ?H = "range_result_handler junk_id junk (CMax lo hi)"
  note f = searchable_facts [OF S]
  have b: "rh_holds (rh_begin i (fst h)) radius segs i []" by (rule collects_begin [OF h(2)])
  then have inv: "rh_inv (rh_begin i (fst h))" by (auto simp: rh_inv_def rh_holds_def)
  have ek: "0 < extract_k ?H (rh_begin i (fst h))" by (simp add: extract_k_def range_result_handler_def)
  from range_distance_handler.bounded_search_correct [OF f(4) flat_storage_exact [of cd vd similarity s "xs ! i"] f(5,7) h(1) inv ek bq]
  obtain stats r vt' n V ps where
    r: "hnsw_search ?h ?q ?H (rh_begin i (fst h)) (snd h) params = Some (Inr (stats, r, vt'))" "vt_clear ?h vt'"
    "node_at ?h 0 n" "n \<in> V" "V \<subseteq> reachable ?h 0 n" "r = offers ?H (rh_begin i (fst h)) ps" "mset ps = node_offers ?q params V"
    "param_of params hp_check_relative_distance (check_relative_distance ?h) \<longrightarrow>
         ntotal ?h \<le> param_of params hp_efSearch (efSearch ?h) \<longrightarrow> V = reachable ?h 0 n" by blast
  have "V \<subseteq> {v. node_at ?h 0 v}" using r(5) reachable_node [OF f(4) r(3)] by blast
  from node_offers_answers [OF f(1) searchable_nodes [OF S this]] r(7)
  have ps: "mset ps = answers vd similarity (fc_vecs cd s) (xs ! i) (selected params) V" by simp
  have "mset (in_radius ?C radius ps) = filter_mset (\<lambda>p. fst p < radius) (answers vd similarity (fc_vecs cd s) (xs ! i) (selected params) V)"
    by (simp add: in_radius_def mset_filter ps)
  then have "nodes_in_radius vd similarity (fc_vecs cd s) ih params radius (xs ! i) (in_radius ?C radius ps)"
    unfolding nodes_in_radius_def using r(3-5) r(8) [unfolded f(3)] by blast
  moreover have "collects radius r (segs @ [(i, in_radius ?C radius ps)])" unfolding r(6) by (rule collects_offers [OF b])
  moreover have "hnsw_range_query junk_id junk lo hi ?so ih s params xs i h = Some (Inr (r, vt'))"
    using r(1) by (simp add: hnsw_range_query_def case_prod_beta)
  ultimately show ?thesis using r(2) by auto
qed

text \<open>The queries \<open>qs\<close> of a slice.\<close>

definition takes_queries :: "nat \<Rightarrow> nat list \<Rightarrow> (nat \<times> nat) list \<Rightarrow> bool" where
  "takes_queries nt qs scans \<longleftrightarrow> (\<forall>e \<in> set scans. fst e < nt) \<and> mset (map snd scans) = mset qs"

lemma hnsw_range_team:
  fixes junk :: "'d :: {linorder, uminus}"
  assumes S: "searchable cd cs vd similarity hi [] ih s"
    and bq: "param_of params hp_bounded_queue (search_bounded_queue (ih_hnsw ih))"
    and sch: "takes_queries nt qs scans" and buffer: "0 < rr_buffer_size res"
  shows "\<exists>team segss. team_queries (hnsw_range_query junk_id junk lo hi (flat_storage cd vd similarity) ih s params xs) scans
        (replicate nt (rh_new radius res, vt_new (ih_ntotal ih))) = Some (Inr team)
    \<and> list_all2 (\<lambda>h segs. vt_clear (ih_hnsw ih) (snd h) \<and> collects radius (fst h) segs) team segss
    \<and> (\<forall>(i, es) \<in> set (concat segss). nodes_in_radius vd similarity (fc_vecs cd s) ih params radius (xs ! i) es)
    \<and> mset (map fst (concat segss)) = mset qs"
proof -
  let ?team = "replicate nt (rh_new radius res, vt_new (ih_ntotal ih))" and ?none = "replicate nt [] :: 'd segment list list"
  have "vt_clear (ih_hnsw ih) (vt_new (ih_ntotal ih))" using searchable_facts(3) [OF S] by (intro vt_clear_new) simp
  then have start: "list_all2 (\<lambda>h segs. vt_clear (ih_hnsw ih) (snd h) \<and> collects radius (fst h) segs) ?team ?none"
    using collects_new [OF buffer] by (simp add: list_all2_conv_all_nth)
  have "\<exists>team segss. team_queries (hnsw_range_query junk_id junk lo hi (flat_storage cd vd similarity) ih s params xs) scans ?team = Some (Inr team)
    \<and> list_all2 (\<lambda>h segs. vt_clear (ih_hnsw ih) (snd h) \<and> collects radius (fst h) segs) team segss
    \<and> (\<forall>(i, es) \<in> set (concat segss). nodes_in_radius vd similarity (fc_vecs cd s) ih params radius (xs ! i) es)
    \<and> mset (map fst (concat segss)) = mset (map fst (concat ?none)) + mset (map snd scans)"
  proof (rule team_queries_collect [where ok = "\<lambda>h. vt_clear (ih_hnsw ih) (snd h)" and prj = fst
        and R = "\<lambda>i. nodes_in_radius vd similarity (fc_vecs cd s) ih params radius (xs ! i)", OF _ _ start])
    fix i h segs assume "vt_clear (ih_hnsw ih) (snd h)" "collects radius (fst h) segs"
    from hnsw_range_query_collects [OF S bq this]
    show "\<exists>h' es. hnsw_range_query junk_id junk lo hi (flat_storage cd vd similarity) ih s params xs i h = Some (Inr h')
      \<and> vt_clear (ih_hnsw ih) (snd h') \<and> collects radius (fst h') (segs @ [(i, es)])
      \<and> nodes_in_radius vd similarity (fc_vecs cd s) ih params radius (xs ! i) es" .
  qed (use sch in \<open>auto simp: takes_queries_def\<close>)
  moreover have "concat ?none = []" by simp
  ultimately show ?thesis using sch by (simp add: takes_queries_def)
qed

section \<open>The whole search\<close>

definition kept_row :: "bool \<Rightarrow> ('d :: uminus \<times> idx_t) list \<Rightarrow> ('d \<times> idx_t) list" where
  "kept_row similarity es = (if similarity then map (\<lambda>(d, v). (- d, v)) es else es)"

lemma kept_row_Nil [simp]: "kept_row similarity [] = []"
  by (simp add: kept_row_def)

lemma concat_kept_row: "concat (map (kept_row similarity) rows) = kept_row similarity (concat rows)"
  by (induction rows) (simp_all add: kept_row_def)

lemma map_snd_kept_row [simp]: "map snd (kept_row similarity es) = map snd es"
  by (simp add: kept_row_def case_prod_beta)

lemma length_kept_row [simp]: "length (kept_row similarity es) = length es"
  by (simp add: kept_row_def)

lemma revert_range_distances:
  assumes "rr_nq res < length (rr_lims res)" "rr_lims res ! rr_nq res = length es" "rr_distances res = Some (map fst es)"
  shows "revert_range similarity res = Inr (res\<lparr>rr_distances := Some (map fst (kept_row similarity es))\<rparr>)"
proof -
  have "map fst (kept_row True es) = map uminus (map fst es)" by (simp add: kept_row_def case_prod_beta)
  moreover have "res\<lparr>rr_distances := Some (map fst es)\<rparr> = res" using assms(3) by simp
  ultimately show ?thesis using assms by (cases similarity; cases "es = []") (simp_all add: revert_range_def kept_row_def [of False] Let_def)
qed

lemma revert_range_shows:
  assumes "range_shows res rows"
  shows "\<exists>res'. revert_range similarity res = Inr res' \<and> range_shows res' (map (kept_row similarity) rows)"
proof -
  have n: "rr_nq res < length (rr_lims res)" "rr_lims res ! rr_nq res = length (concat rows)" "rr_distances res = Some (map fst (concat rows))"
    using assms by (simp_all add: range_shows_def del: upt_Suc)
  have "length (concat (take q (map (kept_row similarity) rows))) = length (concat (take q rows))" for q
    by (simp add: take_map concat_kept_row)
  then have "range_shows (res\<lparr>rr_distances := Some (map fst (kept_row similarity (concat rows)))\<rparr>) (map (kept_row similarity) rows)"
    using assms by (simp add: range_shows_def concat_kept_row del: upt_Suc)
  then show ?thesis using revert_range_distances [OF n, of similarity] by blast
qed

lemma one_slice: "0 < n \<Longrightarrow> n \<le> m \<Longrightarrow> (n + m - 1) div m = (1 :: nat)"
  by (rule div_nat_eqI) auto

lemma ih_range_search_slice:
  fixes junk :: "'d :: {linorder, uminus}"
  assumes S: "searchable cd cs vd similarity hi [] ih s"
    and bq: "param_of params hp_bounded_queue (search_bounded_queue (ih_hnsw ih))"
    and sch: "takes_queries nt qs scans" "distinct qs" "\<forall>q \<in> set qs. q < n" and res: "fresh_result n res" "0 < rr_buffer_size res"
  shows "\<exists>res' rows. hnsw_range_slice junk_id junk lo hi (flat_storage cd vd similarity) ih s params xs radius nt scans res = Some (Inr res')
    \<and> range_shows res' rows \<and> length rows = n
    \<and> (\<forall>i < n. if i \<in> set qs then nodes_in_radius vd similarity (fc_vecs cd s) ih params radius (xs ! i) (rows ! i) else rows ! i = [])"
proof -
  from hnsw_range_team [OF S bq sch(1) res(2), of junk_id junk lo xs radius] obtain team segss where
    t: "team_queries (hnsw_range_query junk_id junk lo hi (flat_storage cd vd similarity) ih s params xs) scans
        (replicate nt (rh_new radius res, vt_new (ih_ntotal ih))) = Some (Inr team)"
      "list_all2 (\<lambda>h segs. vt_clear (ih_hnsw ih) (snd h) \<and> collects radius (fst h) segs) team segss"
      "\<forall>(i, es) \<in> set (concat segss). nodes_in_radius vd similarity (fc_vecs cd s) ih params radius (xs ! i) es"
      "mset (map fst (concat segss)) = mset qs" by blast
  show ?thesis
    using team_queries_destroy [OF t(2-4) sch(2,3) res(1), of junk_id junk] t(1) by (simp add: hnsw_range_slice_def)
qed

lemma ih_range_search_spec:
  fixes junk :: "'d :: {linorder, uminus}"
  assumes S: "searchable cd cs vd similarity hi [] ih s"
    and bq: "param_of params hp_bounded_queue (search_bounded_queue (ih_hnsw ih))"
    and n: "xs \<noteq> []" "length xs \<le> check_period" and sch: "takes_queries nt [0..<length xs] (sch 0)"
    and res: "fresh_result (length xs) res" "0 < rr_buffer_size res"
  shows "\<exists>res' rows. ih_range_search junk_id junk lo hi (flat_storage cd vd similarity) check_period nt sch ih xs radius params res = Some (Inr res')
    \<and> range_shows res' (map (kept_row similarity) rows) \<and> length rows = length xs
    \<and> (\<forall>i < length xs. nodes_in_radius vd similarity (fc_vecs cd s) ih params (if similarity then - radius else radius) (xs ! i) (rows ! i))"
proof -
  have one: "[0..<(length xs + check_period - 1) div check_period] = [0]" using one_slice n by simp
  from ih_range_search_slice [OF S bq sch _ _ res, of junk_id junk lo xs "if similarity then - radius else radius"] obtain res1 rows where
    r: "hnsw_range_slice junk_id junk lo hi (flat_storage cd vd similarity) ih s params xs (if similarity then - radius else radius) nt (sch 0) res
        = Some (Inr res1)" "range_shows res1 rows" "length rows = length xs"
      "\<forall>i < length xs. nodes_in_radius vd similarity (fc_vecs cd s) ih params (if similarity then - radius else radius) (xs ! i) (rows ! i)"
    by auto
  from revert_range_shows [OF r(2), of similarity] obtain res' where
    r': "revert_range similarity res1 = Inr res'" "range_shows res' (map (kept_row similarity) rows)" by blast
  have "vs_similarity (flat_storage cd vd similarity) = similarity" by (simp add: flat_storage_def)
  then show ?thesis using r r' searchable_facts [OF S] unfolding ih_range_search_def one by auto
qed

section \<open>Later slices\<close>

text \<open>
  The handlers of a later slice set the limits of their queries and then find the tables allocated: the exception
  is dropped, and so are the results.
\<close>

definition same_tables :: "nat \<Rightarrow> 'd range_result \<Rightarrow> 'd range_result \<Rightarrow> bool" where
  "same_tables n res res' \<longleftrightarrow> rr_nq res' = rr_nq res \<and> length (rr_lims res') = length (rr_lims res) \<and> rr_lims res' ! n = rr_lims res ! n
     \<and> rr_labels res' = rr_labels res \<and> rr_distances res' = rr_distances res \<and> rr_buffer_size res' = rr_buffer_size res"

lemma same_tables_refl [intro]: "same_tables n res res"
  by (simp add: same_tables_def)

lemma same_tables_trans: "same_tables n a b \<Longrightarrow> same_tables n b c \<Longrightarrow> same_tables n a c"
  by (simp add: same_tables_def)

lemma set_limits_same_tables:
  assumes "\<forall>q \<in> set qs. fst q < n" "n < length (rr_lims res)"
  shows "\<exists>res'. fold_result limit_of_query qs res = Inr res' \<and> same_tables n res res'"
  using assms
proof (induction qs arbitrary: res)
  case (Cons q qs)
  let ?res = "res\<lparr>rr_lims := (rr_lims res)[fst q := snd q]\<rparr>"
  have l: "limit_of_query q res = Inr ?res" using Cons.prems by (simp add: limit_of_query_def)
  have s: "same_tables n res ?res" using Cons.prems by (simp add: same_tables_def)
  have "n < length (rr_lims ?res)" "\<forall>q \<in> set qs. fst q < n" using Cons.prems by simp_all
  from Cons.IH [OF this(2,1)] show ?case using l same_tables_trans [OF s] by auto
qed auto

lemma set_all_limits_same_tables:
  assumes "list_all2 pr_holds prs segss" "\<forall>sg \<in> set (concat segss). fst sg < n" "n < length (rr_lims res)"
  shows "\<exists>res'. fold_result pr_set_lims prs res = Inr res' \<and> same_tables n res res'"
  using assms
proof (induction prs segss arbitrary: res rule: list_all2_induct)
  case (Cons pr prs segs segss)
  have "\<forall>q \<in> set (pr_queries pr). fst q < n" using Cons(1) Cons.prems(1) by (force simp: pr_holds_def)
  from set_limits_same_tables [OF this Cons.prems(2)] obtain res1 where
    r: "pr_set_lims pr res = Inr res1" "same_tables n res res1" by (auto simp: pr_set_lims_def)
  have "n < length (rr_lims res1)" using r(2) Cons.prems(2) by (simp add: same_tables_def)
  moreover have "\<forall>sg \<in> set (concat segss). fst sg < n" using Cons.prems(1) by simp
  ultimately show ?case using Cons.IH [of res1] r same_tables_trans [OF r(2)] by auto
qed auto

lemma destroy_again:
  assumes "list_all2 (\<lambda>h segs. ok h \<and> collects radius (prj h) segs) team segss" "\<forall>sg \<in> set (concat segss). fst sg < n"
    and "n < length (rr_lims res)" "rr_labels res = Some labels"
  shows "\<exists>res'. rh_destroy junk_id junk (map prj team) res = Inr res' \<and> same_tables n res res'"
proof -
  obtain prs where prs: "list_all2 (\<lambda>h pr. rh_pres h = Inr pr) (map prj team) prs" "list_all2 pr_holds prs segss"
    by (rule team_partial_results [OF assms(1)])
  from set_all_limits_same_tables [OF prs(2) assms(2,3)] obtain res1 where
    r: "fold_result pr_set_lims prs res = Inr res1" "same_tables n res res1" by blast
  have "rr_labels res1 = Some labels" using r(2) assms(4) by (simp add: same_tables_def)
  then have "finish_team junk_id junk prs res = Inr res1" using r(1) by (simp add: finish_team_def rr_do_allocation_def)
  then show ?thesis using rh_destroy_team [OF prs(1), of junk_id junk res] r(2) by simp
qed

lemma later_slice:
  fixes junk :: "'d :: {linorder, uminus}"
  assumes S: "searchable cd cs vd similarity hi [] ih s"
    and bq: "param_of params hp_bounded_queue (search_bounded_queue (ih_hnsw ih))"
    and sch: "takes_queries nt qs scans" "\<forall>q \<in> set qs. q < n"
    and res: "n < length (rr_lims res)" "rr_labels res = Some labels" "0 < rr_buffer_size res"
  shows "\<exists>res'. hnsw_range_slice junk_id junk lo hi (flat_storage cd vd similarity) ih s params xs radius nt scans res = Some (Inr res')
    \<and> same_tables n res res'"
proof -
  from hnsw_range_team [OF S bq sch(1) res(3), of junk_id junk lo xs radius] obtain team segss where
    t: "team_queries (hnsw_range_query junk_id junk lo hi (flat_storage cd vd similarity) ih s params xs) scans
        (replicate nt (rh_new radius res, vt_new (ih_ntotal ih))) = Some (Inr team)"
      "list_all2 (\<lambda>h segs. vt_clear (ih_hnsw ih) (snd h) \<and> collects radius (fst h) segs) team segss"
      "mset (map fst (concat segss)) = mset qs" by blast
  have eq: "set (map fst (concat segss)) = set qs" using mset_eq_setD [OF t(3)] .
  have "\<forall>sg \<in> set (concat segss). fst sg < n"
  proof
    fix sg assume "sg \<in> set (concat segss)"
    then have "fst sg \<in> set (map fst (concat segss))" unfolding set_map by (rule imageI)
    then show "fst sg < n" unfolding eq using sch(2) by blast
  qed
  from destroy_again [OF t(2) this res(1,2), of junk_id junk] show ?thesis using t(1) by (simp add: hnsw_range_slice_def)
qed

lemma later_slices:
  assumes "\<And>a res. a \<in> set as \<Longrightarrow> n < length (rr_lims res) \<Longrightarrow> rr_labels res = Some labels \<Longrightarrow> 0 < rr_buffer_size res \<Longrightarrow>
      \<exists>res'. f a res = Some (Inr res') \<and> same_tables n res res'"
    and "n < length (rr_lims res)" "rr_labels res = Some labels" "0 < rr_buffer_size res"
  shows "\<exists>res'. hnsw_range_slices f as res = Some (Inr res') \<and> same_tables n res res'"
  using assms
proof (induction as arbitrary: res)
  case (Cons a as)
  from Cons.prems(1) [OF _ Cons.prems(2-4), of a] obtain res1 where r: "f a res = Some (Inr res1)" "same_tables n res res1" by auto
  then have "n < length (rr_lims res1)" "rr_labels res1 = Some labels" "0 < rr_buffer_size res1"
    using Cons.prems(2-4) by (simp_all add: same_tables_def)
  from Cons.IH [OF _ this] Cons.prems(1) show ?case using r same_tables_trans [OF r(2)] by auto
qed auto

lemma hnsw_range_slice_buffer:
  "hnsw_range_slice junk_id junk lo hi so ih s params xs radius nt scans res = Some (Inr res') \<Longrightarrow> rr_buffer_size res' = rr_buffer_size res"
  by (auto simp: hnsw_range_slice_def bind_result_Inr_iff dest: rh_destroy_buffer)

lemma several_slices: "0 < m \<Longrightarrow> m < n \<Longrightarrow> \<exists>k. [0..<(n + m - 1) div m] = 0 # map Suc [0..<k]"
proof -
  assume m: "0 < m" "m < (n :: nat)"
  then have "m div m \<le> (n + m - 1) div m" by (intro div_le_mono) simp
  then have "0 < (n + m - 1) div m" using m(1) by simp
  then show ?thesis by (metis Suc_pred upt_conv_Cons map_Suc_upt)
qed

lemma ih_range_search_later_spec:
  fixes junk :: "'d :: {linorder, uminus}"
  assumes S: "searchable cd cs vd similarity hi [] ih s"
    and bq: "param_of params hp_bounded_queue (search_bounded_queue (ih_hnsw ih))"
    and n: "0 < check_period" "check_period < length xs"
    and sch: "\<forall>a. a * check_period < length xs \<longrightarrow>
        takes_queries nt [a * check_period..<min (a * check_period + check_period) (length xs)] (sch a)"
    and res: "fresh_result (length xs) res" "0 < rr_buffer_size res"
  shows "\<exists>res' rows. ih_range_search junk_id junk lo hi (flat_storage cd vd similarity) check_period nt sch ih xs radius params res = Some (Inr res')
    \<and> length rows = check_period
    \<and> (\<forall>i < check_period. nodes_in_radius vd similarity (fc_vecs cd s) ih params (if similarity then - radius else radius) (xs ! i) (rows ! i))
    \<and> rr_lims res' ! length xs = length (concat rows) \<and> rr_labels res' = Some (map snd (concat rows))
    \<and> rr_distances res' = Some (map fst (concat (map (kept_row similarity) rows)))"
proof -
  let ?n = "length xs" and ?r = "if similarity then - radius else radius"
  let ?f = "\<lambda>a. hnsw_range_slice junk_id junk lo hi (flat_storage cd vd similarity) ih s params xs ?r nt (sch a)"
  obtain k where k: "[0..<(?n + check_period - 1) div check_period] = 0 # map Suc [0..<k]" using several_slices [OF n] by blast
  have k_le: "a * check_period < ?n" if "a \<in> set (map Suc [0..<k])" for a
  proof -
    have "Suc k = (?n + check_period - 1) div check_period" using arg_cong [OF k, of length] by simp
    then have "a < (?n + check_period - 1) div check_period" using that by auto
    then show ?thesis using n(1) by (simp add: less_eq_div_iff_mult_less_eq flip: Suc_le_eq)
  qed
  have "xs \<noteq> []" using n(2) by auto
  then have z: "takes_queries nt [0..<check_period] (sch 0)" using sch [rule_format, of 0] n by (simp add: min_absorb1)
  from ih_range_search_slice [OF S bq z _ _ res, of junk_id junk lo xs ?r] n(2) obtain res1 rows where
    r: "?f 0 res = Some (Inr res1)" "range_shows res1 rows" "length rows = ?n"
      "\<forall>i < ?n. if i < check_period then nodes_in_radius vd similarity (fc_vecs cd s) ih params ?r (xs ! i) (rows ! i) else rows ! i = []"
    by auto
  have buffer: "0 < rr_buffer_size res1" using hnsw_range_slice_buffer [OF r(1)] res(2) by simp
  have "\<exists>res2. hnsw_range_slices ?f (map Suc [0..<k]) res1 = Some (Inr res2) \<and> same_tables ?n res1 res2"
  proof (rule later_slices [where labels = "map snd (concat rows)"])
    fix a and res :: "'d range_result" assume a: "a \<in> set (map Suc [0..<k])" and h: "?n < length (rr_lims res)" "rr_labels res = Some (map snd (concat rows))" "0 < rr_buffer_size res"
    have "takes_queries nt [a * check_period..<min (a * check_period + check_period) ?n] (sch a)"
      by (rule sch [rule_format]) (rule k_le [OF a])
    from later_slice [OF S bq this _ h, of junk_id junk lo xs ?r]
    show "\<exists>res'. ?f a res = Some (Inr res') \<and> same_tables ?n res res'" by simp
  qed (use r(2,3) buffer in \<open>simp_all add: range_shows_def del: upt_Suc\<close>)
  then obtain res2 where r2: "hnsw_range_slices ?f (map Suc [0..<k]) res1 = Some (Inr res2)" "same_tables ?n res1 res2" by blast
  let ?rows = "take check_period rows"
  have "drop check_period rows = replicate (?n - check_period) []"
    using r(3,4) n(2) by (intro nth_equalityI) (simp_all add: nth_drop)
  then have rows: "concat rows = concat ?rows"
    by (metis append_take_drop_id concat_append concat_replicate_trivial append_Nil2)
  have "map snd (concat rows) = map snd (concat ?rows)" "length (concat rows) = length (concat ?rows)"
    "length ?rows = check_period" "vs_similarity (flat_storage cd vd similarity) = similarity"
    using rows r(3) n(2) by (simp_all add: flat_storage_def)
  moreover have t: "rr_nq res2 = ?n" "rr_nq res2 < length (rr_lims res2)" "rr_lims res2 ! rr_nq res2 = length (concat rows)"
    "rr_labels res2 = Some (map snd (concat rows))" "rr_distances res2 = Some (map fst (concat rows))"
    using r2(2) r(2,3) by (simp_all add: same_tables_def range_shows_def del: upt_Suc)
  moreover note revert_range_distances [OF t(2,3,5), of similarity]
  moreover have "hnsw_range_slices ?f (0 # map Suc [0..<k]) res = Some (Inr res2)" using r(1) r2(1) by simp
  ultimately show ?thesis
    using r(4) n(2) searchable_facts(6) [OF S] unfolding ih_range_search_def k
    by (intro exI [of _ "res2\<lparr>rr_distances := Some (map fst (kept_row similarity (concat rows)))\<rparr>"] exI [of _ ?rows])
      (simp add: rows concat_kept_row)
qed

section \<open>Properties\<close>

lemma example_two_queries:
  "fresh_result (length [[2], [9]]) (rr_new 2)" "0 < rr_buffer_size (rr_new 2)" "[[2], [9]] \<noteq> ([] :: 8 word list list)"
  by (simp_all add: fresh_result_def rr_new_def numeral_2_eq_2)

text \<open>
  C10. \<open>IndexHNSW::range_search\<close> with at most \<open>check_period\<close> queries, however the team shares them out: \<open>lims\<close> cuts the
  tables into one row per query, which holds exactly the visited nodes that pass the selector and are nearer
  than the radius, with their distances (for a similarity, both signs are turned back); when \<open>efSearch\<close> reaches the size
  of the index and the relative check is on, those are all nodes that can be reached from the one the
  search starts with.
\<close>

theorem hnsw_range_search_rows:
  fixes junk :: "'d :: {linorder, uminus}"
  assumes "searchable cd cs vd similarity hi [] ih s" "param_of params hp_bounded_queue (search_bounded_queue (ih_hnsw ih))"
    and "xs \<noteq> []" "length xs \<le> check_period" "takes_queries nt [0..<length xs] (sch 0)"
    and "fresh_result (length xs) res" "0 < rr_buffer_size res"
  shows "\<exists>res' rows. ih_range_search junk_id junk lo hi (flat_storage cd vd similarity) check_period nt sch ih xs radius params res = Some (Inr res')
    \<and> range_shows res' (map (kept_row similarity) rows) \<and> length rows = length xs
    \<and> (\<forall>i < length xs. nodes_in_radius vd similarity (fc_vecs cd s) ih params (if similarity then - radius else radius) (xs ! i) (rows ! i))"
  by (rule ih_range_search_spec [where sch = sch, OF assms])

theorem hnsw_range_search_rows_witness:
  "\<exists>res' rows. ih_range_search 7 7 0 1000 (flat_storage flat_codec byte_distance False) 10 2 (\<lambda>_. [(1, 1), (0, 0)]) example_hnsw_flat
      [[2], [9]] 5 None (rr_new 2) = Some (Inr res')
    \<and> range_shows res' rows \<and> nodes_in_radius byte_distance False (fc_vecs flat_codec bytes_312) example_hnsw_flat None 5 [9] (rows ! 1)"
proof -
  have b: "param_of None hp_bounded_queue (search_bounded_queue (ih_hnsw example_hnsw_flat))"
    using example_search_params(1) by (simp add: param_of_def)
  have t: "takes_queries 2 [0..<length [[2], [9 :: 8 word]]] ((\<lambda>_. [(1, 1), (0, 0)]) 0)"
    by (auto simp: takes_queries_def numeral_2_eq_2)
  from hnsw_range_search_rows [where sch = "\<lambda>_. [(1, 1), (0, 0)]", OF example_searchable [of "[]"] b example_two_queries(3) _ t example_two_queries(1,2), of 10 7 7 0 5]
  obtain res' rows where "ih_range_search 7 7 0 1000 (flat_storage flat_codec byte_distance False) 10 2 (\<lambda>_. [(1, 1), (0, 0)]) example_hnsw_flat
      [[2], [9]] 5 None (rr_new 2) = Some (Inr res')"
    and s: "range_shows res' (map (kept_row False) rows)" and
      n: "\<forall>i < 2. nodes_in_radius byte_distance False (fc_vecs flat_codec bytes_312) example_hnsw_flat None 5 ([[2], [9]] ! i) (rows ! i)" by auto
  moreover have "nodes_in_radius byte_distance False (fc_vecs flat_codec bytes_312) example_hnsw_flat None 5 [9] (rows ! 1)"
    using n [rule_format, of 1] by simp
  moreover have "map (kept_row False) rows = rows" by (simp add: kept_row_def [abs_def])
  ultimately show ?thesis by auto
qed



end
