(* ===== verification/Index_IdMap_Range.thy ===== *)
theory Index_IdMap_Range
  imports Index_Range Index_IdMap_Correct
begin

text \<open>
  \<open>IndexIDMap::range_search\<close> (\<open>faiss/IndexIDMap.cpp\<close>). With search parameters the selector is always wrapped, also when
  there is none; the parameters that the sub-index sees hold nothing but the selector.
\<close>

definition idm_range_selector :: "idx_t list \<Rightarrow> id_selector option option \<Rightarrow> id_selector option" where
  "idm_range_selector ids params =
     (case params of
        None \<Rightarrow> None
      | Some sel \<Rightarrow> Some (Sel_translated ids (case sel of None \<Rightarrow> Sel_null | Some sl \<Rightarrow> sl)))"

definition idm_range_labels :: "idx_t list \<Rightarrow> 'd range_result \<Rightarrow> 'd range_result result" where
  "idm_range_labels ids res =
     (if \<not> rr_nq res < length (rr_lims res) then Inl Out_of_bounds
      else
        let n = rr_lims res ! rr_nq res in
        if n = 0 then Inr res
        else (case rr_labels res of
            None \<Rightarrow> Inl Null_pointer
          | Some labels \<Rightarrow>
              if n \<le> length labels then
                bind_result (idm_labels ids (take n labels)) (\<lambda>out. Inr (res\<lparr>rr_labels := Some (out @ drop n labels)\<rparr>))
              else Inl Out_of_bounds))"

definition idm_range_search ::
  "('s \<Rightarrow> id_selector option \<Rightarrow> 'd range_result \<Rightarrow> 'd range_result result option) \<Rightarrow> ('s, 'z) idmap_scheme \<Rightarrow>
   id_selector option option \<Rightarrow> 'd range_result \<Rightarrow> 'd range_result result option" where
  "idm_range_search sub_range_search m params res =
     map_option (\<lambda>r. bind_result r (idm_range_labels (id_map m)))
       (sub_range_search (idm_index m) (idm_range_selector (id_map m) params) res)"

text \<open>The selector of the caller is asked about the ids.\<close>

definition param_sel :: "id_selector option option \<Rightarrow> id_selector option" where
  "param_sel params = (case params of None \<Rightarrow> None | Some sel \<Rightarrow> sel)"

lemma wanted_range_selector:
  assumes "params \<noteq> Some None" "i < length ids"
  shows "wanted (idm_range_selector ids params) (int i) = wanted (param_sel params) (ids ! i)"
    and "can_ask (param_sel params) (ids ! i) \<Longrightarrow> can_ask (idm_range_selector ids params) (int i)"
  using assms by (auto simp: wanted_def can_ask_def idm_range_selector_def param_sel_def split: option.splits)

lemma idm_range_labels_shows:
  assumes "range_shows res rows" "\<forall>e \<in> set (concat rows). 0 \<le> snd e \<and> snd e < int (length ids)"
  shows "\<exists>res'. idm_range_labels ids res = Inr res' \<and> range_shows res' (map (map (\<lambda>(d, i). (d, ids ! nat i))) rows)"
proof -
  let ?tr = "\<lambda>(d, i). (d, ids ! nat i)" and ?L = "map snd (concat rows)"
  have n: "rr_nq res < length (rr_lims res)" "rr_lims res ! rr_nq res = length ?L" "rr_labels res = Some ?L"
    using assms(1) by (simp_all add: range_shows_def del: upt_Suc)
  have "\<forall>l \<in> set ?L. l < int (length ids)" using assms(2) by auto
  from idm_labels_spec [OF this] have l: "idm_labels ids ?L = Inr (map (\<lambda>l. if l < 0 then l else ids ! nat l) ?L)" .
  have "map (\<lambda>l. if l < 0 then l else ids ! nat l) ?L = map snd (map ?tr (concat rows))"
    using assms(2) by (simp add: case_prod_beta) fastforce
  then have l': "idm_labels ids ?L = Inr (map snd (map ?tr (concat rows)))" using l by simp
  let ?res = "res\<lparr>rr_labels := Some (map snd (map ?tr (concat rows)))\<rparr>"
  have "idm_range_labels ids res = Inr ?res"
  proof (cases "concat rows = []")
    case True
    then have "?res = res" using n(3) unfolding True by simp
    then show ?thesis using n(1,2) unfolding True by (simp add: idm_range_labels_def)
  next
    case False
    then have "length ?L \<noteq> 0" by (simp only: length_map length_0_conv) simp
    then show ?thesis using n l' by (simp add: idm_range_labels_def Let_def del: concat_eq_Nil_conv)
  qed
  moreover have "range_shows ?res (map (map ?tr) rows)"
  proof -
    have t: "length (concat (take q (map (map ?tr) rows))) = length (concat (take q rows))" for q
      by (simp add: take_map length_concat comp_def)
    have c: "concat (map (map ?tr) rows) = map ?tr (concat rows)" by (simp add: map_concat)
    have f: "map fst (map ?tr es) = map fst es" for es :: "('a \<times> idx_t) list" by (simp add: case_prod_beta)
    show ?thesis using assms(1) unfolding range_shows_def t c f by (simp del: upt_Suc)
  qed
  ultimately show ?thesis by blast
qed

lemma idm_range_search_spec:
  fixes junk :: 'd
  assumes m: "idm_ok (fc_ok cs) (fc_vecs cd) m" and sel: "params \<noteq> Some None" "\<forall>x \<in> set (id_map m). can_ask (param_sel params) x"
    and sch: "shares_out nt (length xs) scans" and res: "fresh_result (length xs) res" "0 < rr_buffer_size res"
  shows "\<exists>res'. idm_range_search (\<lambda>s sl. fc_range_search junk_id junk C cd vd s nt scans xs radius sl) m params res = Some (Inr res')
    \<and> range_shows res' (map (\<lambda>x. in_radius C radius
        (map (\<lambda>(i, v). (vd x v, i)) (filter (\<lambda>(i, v). wanted (param_sel params) i) (id_contents (fc_vecs cd) m)))) xs)"
proof -
  let ?s = "idm_index m" and ?ids = "id_map m" and ?n = "length (id_map m)" and ?sel = "idm_range_selector (id_map m) params"
  let ?tr = "\<lambda>(d, i). (d, ?ids ! nat i)"
  have ok: "fc_ok cs ?s" "fc_ntotal ?s = ?n" "length (fc_vecs cd ?s) = ?n" using m by (simp_all add: idm_ok_def)
  let ?rw = "\<lambda>x. in_radius C radius (map (\<lambda>i. (vd x (fc_vecs cd ?s ! i), int i)) (filter (\<lambda>i. wanted ?sel (int i)) [0..<?n]))"
  have "\<forall>i < fc_ntotal ?s. can_ask ?sel (int i)" using wanted_range_selector(2) [OF sel(1)] sel(2) ok(2) by simp
  from fc_range_search_spec [OF ok(1) this sch res, of junk_id junk C cd vd radius] obtain res1 where
    r: "fc_range_search junk_id junk C cd vd ?s nt scans xs radius ?sel res = Some (Inr res1)" "range_shows res1 (map ?rw xs)"
    unfolding ok(2) by blast
  have "\<forall>e \<in> set (concat (map ?rw xs)). 0 \<le> snd e \<and> snd e < int ?n" by (auto simp: in_radius_def)
  from idm_range_labels_shows [OF r(2) this] obtain res' where
    r': "idm_range_labels ?ids res1 = Inr res'" "range_shows res' (map (map ?tr) (map ?rw xs))" by blast
  have "map ?tr (?rw x) = in_radius C radius
      (map (\<lambda>(i, v). (vd x v, i)) (filter (\<lambda>(i, v). wanted (param_sel params) i) (id_contents (fc_vecs cd) m)))" for x
  proof -
    have z: "id_contents (fc_vecs cd) m = map (\<lambda>i. (?ids ! i, fc_vecs cd ?s ! i)) [0..<?n]"
      unfolding id_contents_def using ok(3) by (intro nth_equalityI) simp_all
    have "filter (\<lambda>i. wanted ?sel (int i)) [0..<?n] = filter (\<lambda>i. wanted (param_sel params) (?ids ! i)) [0..<?n]"
      using wanted_range_selector(1) [OF sel(1)] by (intro filter_cong) simp_all
    then show ?thesis by (simp add: z in_radius_def filter_map o_def)
  qed
  then have eq: "map (map ?tr) (map ?rw xs) = map (\<lambda>x. in_radius C radius
        (map (\<lambda>(i, v). (vd x v, i)) (filter (\<lambda>(i, v). wanted (param_sel params) i) (id_contents (fc_vecs cd) m)))) xs" by simp
  then show ?thesis using r(1) r'(1) r'(2) [unfolded eq] by (simp add: idm_range_search_def)
qed

section \<open>Properties\<close>

text \<open>
  C39. \<open>IndexIDMap::range_search\<close> over flat codes, without parameters or with any selector in them: the rows hold exactly the pairs
  of the map whose id is selected and whose vector is nearer than the radius, under their ids.
\<close>

theorem idmap_range_search_rows:
  fixes junk :: 'd
  assumes "idm_ok (fc_ok cs) (fc_vecs cd) m" "params \<noteq> Some None" "\<forall>x \<in> set (id_map m). can_ask (param_sel params) x"
    and "shares_out nt (length xs) scans" "fresh_result (length xs) res" "0 < rr_buffer_size res"
  shows "\<exists>res'. idm_range_search (\<lambda>s sl. fc_range_search junk_id junk C cd vd s nt scans xs radius sl) m params res = Some (Inr res')
    \<and> range_shows res' (map (\<lambda>x. in_radius C radius
        (map (\<lambda>(i, v). (vd x v, i)) (filter (\<lambda>(i, v). wanted (param_sel params) i) (id_contents (fc_vecs cd) m)))) xs)"
  by (rule idm_range_search_spec [OF assms])

definition ids_312 :: "flat_codes idmap" where
  "ids_312 = \<lparr>idm_index = bytes_312, id_map = [30, -10, 20], idm_ntotal = 3\<rparr>"

lemma ids_312_ok:
  "idm_ok (fc_ok 1) (fc_vecs flat_codec) ids_312" "id_map ids_312 = [30, -10, 20]"
  "id_contents (fc_vecs flat_codec) ids_312 = [(30, [3]), (-10, [1]), (20, [2])]"
  by (simp_all add: idm_ok_def id_contents_def ids_312_def bytes_312_ok bytes_312_ok(1) [unfolded One_nat_def])

lemma two_queries:
  "shares_out 2 (length [[2], [9 :: 8 word]]) [(1, 1), (0, 0)]"
  "fresh_result (length [[2], [9 :: 8 word]]) (rr_new 2)" "0 < rr_buffer_size (rr_new 2)"
  by (auto simp: shares_out_def fresh_result_def rr_new_def numeral_2_eq_2)

theorem idmap_range_search_rows_witness:
  "\<exists>res'. idm_range_search (\<lambda>s sl. fc_range_search 7 7 (CMax 0 1000) flat_codec byte_distance s 2 [(1, 1), (0, 0)] [[2], [9]] 7 sl) ids_312
      (Some (Some (Sel_range 0 100))) (rr_new 2) = Some (Inr res')
    \<and> range_shows res' [[(1, 30), (0, 20)], [(6, 30)]]"
proof -
  have "\<forall>x \<in> set (id_map ids_312). can_ask (param_sel (Some (Some (Sel_range 0 100)))) x" by (simp add: can_ask_def param_sel_def)
  from idmap_range_search_rows [OF ids_312_ok(1) _ this two_queries, of 7 7 "CMax 0 1000" byte_distance 7]
  show ?thesis unfolding ids_312_ok by (simp add: wanted_def param_sel_def in_radius_def byte_distance_def)
qed

text \<open>
  \<open>IndexIDMap::range_search\<close> with parameters that have no selector calls the null selector on the first vector of a sub-index that is
  not empty.
\<close>

theorem idmap_range_search_null_selector:
  assumes "idm_ok (fc_ok cs) (fc_vecs cd) m" "id_map m \<noteq> []" "shares_out nt (length xs) scans" "xs \<noteq> []"
  shows "idm_range_search (\<lambda>s sl. fc_range_search junk_id junk C cd vd s nt scans xs radius sl) m (Some None) res = Some (Inl Null_pointer)"
proof -
  have "mset (map snd scans) = mset [0..<length xs]" using assms(3) by (simp only: shares_out_def)
  from mset_eq_length [OF this] have "scans \<noteq> []" using assms(4) by auto
  then obtain e rest where s: "scans = e # rest" by (cases scans) auto
  have "fc_ntotal (idm_index m) = length (id_map m)" using assms(1) by (simp add: idm_ok_def)
  then have "0 < fc_ntotal (idm_index m)" using assms(2) by simp
  then have n: "[0..<fc_ntotal (idm_index m)] = 0 # [1..<fc_ntotal (idm_index m)]" by (simp add: upt_conv_Cons)
  have "is_member (Sel_translated (id_map m) Sel_null) 0 = Inl Null_pointer" using assms(2) by simp
  then have q: "fc_search_query cd vd (idm_index m) H (Some (Sel_translated (id_map m) Sel_null)) x r = Inl Null_pointer" for H x r
    unfolding fc_search_query_def n by (simp add: fc_search_step_def)
  show ?thesis
    by (cases e) (simp add: idm_range_search_def idm_range_selector_def fc_range_search_def s fc_range_query_def q)
qed

theorem idmap_range_search_null_selector_witness:
  "idm_range_search (\<lambda>s sl. fc_range_search 7 7 (CMax 0 1000) flat_codec byte_distance s 1 [(0, 0)] [[2]] 7 sl) ids_312 (Some None) (rr_new 1)
    = Some (Inl Null_pointer)"
  by (rule idmap_range_search_null_selector [OF ids_312_ok(1)]) (simp_all add: ids_312_ok shares_out_def)

end
