(* ===== verification/Spec2Isabelle.thy ===== *)
theory Spec2Isabelle
  imports Block_Handlers Hnsw_Locks Hnsw_Navix_Limits Bitstring Meta_Invlists Direct_Map_Update Index_IdMap_Correct Index_Hnsw_Level0 Bucket_Sort_Inplace Argsort_Correct Hash_Table_Correct
    Index_Ivf_Codes Index_Ivf_Exhaustive Index_Ivf_Limits Index_Ivf_Range_Correct Index_Hnsw_Range Index_IdMap_Range
begin

text \<open>
  \<^bold>\<open>faiss with the Navix filtered search: the search core, as a model with theorems.\<close>

  The program is a library for similarity search. Vectors are stored as codes (\<open>faiss/IndexFlatCodes.cpp\<close>, or in
  inverted lists, \<open>faiss/invlists\<close>); a graph over them (\<open>faiss/impl/HNSW.cpp\<close>) is built by
  \<open>faiss/IndexHNSW.cpp\<close> and searched in best-first order; results are collected in heaps
  (\<open>faiss/utils/Heap.h\<close>, \<open>faiss/impl/ResultHandler.h\<close>). The Navix search of this repository explores
  the graph under a filter with five strategies for the neighbours of a node.

  \<^bold>\<open>Conventions.\<close> \<^theory_text>\<open>Prelude\<close>: a C++ exception, a failed assertion and an access outside an array are values of
  \<^typ>\<open>fault\<close>; a routine that can fail returns \<^typ>\<open>'a result\<close>. \<^theory_text>\<open>Loops\<close>: a loop whose end is not obvious is
  \<^const>\<open>iterate\<close>, a partial function whose value is \<open>None\<close> when the loop does not end; that a routine
  returns is then proved (\<open>iterate_total\<close>), with no fuel anywhere. Objects are records passed and returned; a pointer
  into an array is a list with an index. Distances are elements of any linear order: the arithmetic of
  \<open>float\<close> is a parameter (\<^typ>\<open>'d distance_computer\<close>), so nothing here depends on rounding, and NaN is
  excluded. Codes are bytes, ids are integers with -1 for none; machine words appear where their width
  matters: the 8-bit epoch of the visited table, the 32-bit loop variable of the Navix search, the
  64-bit arithmetic of bit strings and of the hash table. Parallel sections of OpenMP are run one
  thread after the other; where the order of threads is visible it is an argument (the bucket sort,
  the hash table), and where locks matter (\<^theory_text>\<open>Hnsw_Locks\<close>) the lock calls are a trace with an interleaving semantics.

  \<^bold>\<open>Heaps and result handlers.\<close> \<^theory_text>\<open>Comparators\<close> models \<open>CMin\<close> and \<open>CMax\<close> (\<open>ordered_key_value.h\<close>) and the locale
  \<open>heap_comparator\<close>, interpreted for both. \<^theory_text>\<open>Binary_Heap\<close>, \<^theory_text>\<open>Heap_Correct\<close>, \<^theory_text>\<open>Heap_Arrays\<close>, \<^theory_text>\<open>Heap_Sort\<close> hold the
  routines of \<open>Heap.h\<close> in both memory layouts, and prove them against multisets. \<^theory_text>\<open>Result_Handlers\<close> and
  \<^theory_text>\<open>Block_Handlers\<close> model \<open>HeapBlockResultHandler\<close> and \<open>Top1BlockResultHandler\<close> with the locale
  \<open>result_collector\<close> and its extension \<open>result_handler_contract\<close> for handlers that keep the best; \<^theory_text>\<open>Top_K\<close> shows that \<open>begin\<close>, \<open>add_result\<close> and \<open>end\<close> give the k best offers in
  order, padded (\<open>topk_result\<close>). \<^theory_text>\<open>Priority_Queue\<close> is \<open>std::priority_queue\<close>, \<^theory_text>\<open>Visited_Table\<close> the visited table,
  \<^theory_text>\<open>Minimax_Heap\<close> and \<^theory_text>\<open>Minimax_Pop\<close> the candidate queue with its three versions of \<open>pop_min\<close>.

  \<^bold>\<open>The graph.\<close> \<^theory_text>\<open>Hnsw_Graph\<close> holds the tables of \<open>HNSW\<close> and their well-formedness \<open>graph_ok\<close>. \<^theory_text>\<open>Hnsw_Greedy\<close> is the
  descent, \<^theory_text>\<open>Hnsw_Candidates\<close> the search from candidates, with \<^theory_text>\<open>Hnsw_Candidates_Correct\<close> and \<^theory_text>\<open>Hnsw_Reach\<close> (which
  nodes are offered; all reachable ones if the queue is large enough), \<^theory_text>\<open>Hnsw_Search\<close> and \<^theory_text>\<open>Hnsw_Unbounded\<close> the entry
  points. \<^theory_text>\<open>Hnsw_Shrink\<close> is the selection of neighbours, \<^theory_text>\<open>Hnsw_Build\<close>, \<^theory_text>\<open>Hnsw_Build_Correct\<close> and \<^theory_text>\<open>Hnsw_Locks\<close>
  the insertion of a point. \<^theory_text>\<open>Hnsw_Navix\<close>, \<^theory_text>\<open>Hnsw_Navix_Correct\<close> and \<^theory_text>\<open>Hnsw_Navix_Limits\<close> are the filtered search; its
  node array of 4096 entries and its 32-bit offsets bound the graphs on which it is safe
  (\<open>navix_ready\<close>: at most 63 links per node, a table of at most \<open>2^31\<close> entries), and the
  limits are shown to be sharp.

  \<^bold>\<open>Indexes.\<close> \<^theory_text>\<open>Vector_Index\<close> is the part of \<open>Index\<close> that indexes call on each other, with the locales
  \<open>vector_index\<close> and \<open>editable_index\<close>. \<^theory_text>\<open>Flat_Codes\<close> and \<^theory_text>\<open>Flat_Codes_Correct\<close> model \<open>IndexFlatCodes\<close> over
  any codec (locale \<open>fixed_codec\<close>, a sublocale of \<open>editable_index\<close>, interpreted for
  \<open>IndexFlat\<close>); \<^theory_text>\<open>Index_IdMap\<close> and \<^theory_text>\<open>Index_IdMap_Correct\<close> the id maps over any index; \<^theory_text>\<open>ID_Selectors\<close> the selectors.
  \<^theory_text>\<open>Index_Hnsw\<close> models \<open>IndexHNSW\<close>; \<^theory_text>\<open>Index_Hnsw_Buckets\<close>, \<^theory_text>\<open>Index_Hnsw_Order\<close> and \<^theory_text>\<open>Index_Hnsw_Add\<close> show that
  \<open>add\<close> keeps graph and storage in step, \<^theory_text>\<open>Index_Hnsw_Search\<close> that the searches return the top k of what they
  visit, and what the flat index returns when they visit everything, \<^theory_text>\<open>Index_Hnsw_Level0\<close> the
  operations on the lowest level.

  \<^bold>\<open>Inverted lists.\<close> \<^theory_text>\<open>Inverted_Lists\<close> and \<^theory_text>\<open>Inverted_Lists_Copy\<close> hold the interface \<open>InvertedLists\<close> as a record of
  operations with the locales \<open>inverted_lists\<close>, \<open>shrinkable_lists\<close> and \<open>merging\<close>; \<^theory_text>\<open>Array_Invlists\<close> interprets
  them on \<open>ArrayInvertedLists\<close>; \<^theory_text>\<open>Meta_Invlists\<close> has the read-only stacks, slices, masks and
  stop-word lists; \<^theory_text>\<open>Direct_Map\<close>, \<^theory_text>\<open>Direct_Map_Correct\<close> and \<^theory_text>\<open>Direct_Map_Update\<close> the direct map from ids to entries.

  \<^bold>\<open>IndexIVF.\<close> \<^theory_text>\<open>Index_Ivf\<close> is \<open>faiss/IndexIVF.cpp\<close> over any inverted lists, coarse quantizer and codec of the vectors:
  the lists, the direct map, adding, reconstructing, merging and the stand-alone codes. \<^theory_text>\<open>Index_Ivf_Scan\<close>
  is its search, with the four ways of sharing the work between threads; which thread takes which list and in which
  order the threads merge their results is an argument (\<open>ivf_schedule\<close>). \<^theory_text>\<open>Top_Heap\<close>, \<^theory_text>\<open>Index_Ivf_Modes\<close>,
  \<^theory_text>\<open>Index_Ivf_Search\<close> and \<^theory_text>\<open>Index_Ivf_Slices\<close> show that a search returns the top k of the entries of the probed
  lists whatever the mode and the schedule, \<^theory_text>\<open>Index_Ivf_Exhaustive\<close> that probing all lists gives what the flat
  index gives; \<^theory_text>\<open>Index_Ivf_Add\<close> and \<^theory_text>\<open>Index_Ivf_Codes\<close> are about adding and codes, \<^theory_text>\<open>Index_Ivf_Limits\<close> shows what the
  searches do outside their contract. List numbers and offsets fit the halves of a 64-bit word, and a query
  scans fewer codes than \<open>unlimited_list_size\<close>.

  \<^bold>\<open>Range search.\<close> \<^theory_text>\<open>Range_Results\<close> is the result of a range search (\<open>faiss/impl/AuxIndexStructures.cpp\<close>): the threads
  collect in lists of buffers, and \<open>finalize\<close> or \<open>merge\<close> copies them to one pair of tables, which \<open>lims\<close> cuts into
  rows; \<^theory_text>\<open>Range_Results_Correct\<close> shows that each row holds what the threads have added for its query
  (\<open>range_shows\<close>). \<^theory_text>\<open>Range_Handlers\<close> is \<open>RangeSearchBlockResultHandler\<close>, an interpretation of \<open>result_collector\<close>, with destructors
  that drop exceptions; \<^theory_text>\<open>Range_Blocks\<close> shows that blocks of the distance table give the same rows. On top of it
  \<^theory_text>\<open>Index_Range\<close> (teams of threads, flat codes), \<^theory_text>\<open>Index_Hnsw_Range\<close> (which needs the search of the graph only through
  \<open>result_collector\<close>), \<^theory_text>\<open>Index_IdMap_Range\<close>, \<^theory_text>\<open>Index_Ivf_Range\<close> and \<^theory_text>\<open>Index_Ivf_Range_Correct\<close> are the range searches of the indexes,
  which find exactly the visited entries within the radius. How the queries and lists are shared out, and
  what \<open>new[]\<close> leaves in memory, are arguments.

  \<^bold>\<open>Utilities.\<close> \<^theory_text>\<open>Bitstring\<close> is the bit-string writer and reader. \<^theory_text>\<open>Key_Buckets\<close>, \<^theory_text>\<open>Bucket_Sort\<close>,
  \<^theory_text>\<open>Bucket_Sort_Correct\<close>, \<^theory_text>\<open>Bucket_Sort_Inplace\<close>, \<^theory_text>\<open>Argsort_Correct\<close>, \<^theory_text>\<open>Hash_Table\<close> and \<^theory_text>\<open>Hash_Table_Correct\<close> are
  \<open>faiss/utils/sorting.cpp\<close>.

  \<^bold>\<open>Not modelled.\<close> The arithmetic of distances and its SIMD and BLAS versions, quantizers and training (floating-point
  numerics); file formats and input/output; the GPU code, the C API and the Python bindings; the searches with
  reservoir handlers, and those of \<open>IndexIVF\<close> over list iterators, its training and its variant without
  duplicates; timing, statistics that are only printed, prefetching and interrupts. The manifest
  lists these parts one by one.
\<close>

end
